(* ===== verification/Prelude.thy ===== *)
theory Prelude
  imports Main "HOL-Library.Word"
begin

text \<open>
  Shared ground of the development: machine integers of the AVR32 ABI, the outcome type
  of kernel code (a value, a panic, C undefined behaviour, a loop that never ends), its
  sequencing operator, the page loop \<open>for (; sva < eva; sva += NBPG)\<close> that the pmap uses in
  four places, and the generic lemmas on words and lists the components rely on.
\<close>

unbundle bit_operations_syntax

type_synonym u8 = "8 word"
type_synonym u16 = "16 word"
type_synonym u32 = "32 word"
type_synonym u64 = "64 word"
type_synonym vaddr = u32
type_synonym paddr = u32

named_theorems result_simps \<open>outcomes of sequenced kernel code\<close>

section \<open>Outcomes of kernel code\<close>

text \<open>
  \<open>Ok\<close> is a normal return, \<open>Panic\<close> a call of panic(9) with its message, \<open>Undef\<close> C undefined
  behaviour (an access to freed or absent memory), \<open>Hang\<close> a loop that does not end.
\<close>

datatype 'a result = Ok 'a | Panic string | Undef string | Hang

primrec bind_r :: "'a result \<Rightarrow> ('a \<Rightarrow> 'b result) \<Rightarrow> 'b result" where
  "bind_r (Ok x) f = f x"
| "bind_r (Panic m) f = Panic m"
| "bind_r (Undef m) f = Undef m"
| "bind_r Hang f = Hang"

lemma bind_r_eq_Ok [result_simps]: "bind_r m f = Ok y \<longleftrightarrow> (\<exists>x. m = Ok x \<and> f x = Ok y)"
  by (cases m) auto

lemma bind_r_assoc: "bind_r (bind_r m f) g = bind_r m (\<lambda>x. bind_r (f x) g)"
  by (cases m) auto

lemma bind_r_Ok_right: "bind_r m Ok = m"
  by (cases m) auto

text \<open>A shift of a word in C; the shift operator given is \<open><<\<close> or \<open>>>\<close> on the word, undefined from the width on.\<close>

definition c_shift :: "(nat \<Rightarrow> u32 \<Rightarrow> u32) \<Rightarrow> u32 \<Rightarrow> u32 \<Rightarrow> u32 result" where
  "c_shift f x s = (if 32 \<le> s then Undef ''shift too large'' else Ok (f (unat s) x))"

section \<open>The page loop\<close>

text \<open>
  \<open>for_pages body sva eva s\<close> is \<open>for (; sva < eva; sva += 4096) body(sva)\<close> on 32-bit addresses,
  and returns the address the loop stops at. An address that wraps past the end of the
  address space never reaches \<open>eva\<close>: the loop does not end, which is \<open>Hang\<close>.
\<close>

lemma page_step_measure:
  fixes sva eva :: u32
  assumes "sva < eva" and "\<not> sva + 4096 < sva"
  shows "unat eva - unat (sva + 4096) < unat eva - unat sva"
proof -
  have "unat (sva + 4096) = unat sva + 4096"
    using assms(2) unat_plus_simple [of sva 4096] by (simp add: not_less)
  with assms(1) show ?thesis by (simp add: word_less_nat_alt)
qed

function for_pages :: "(u32 \<Rightarrow> 's \<Rightarrow> 's result) \<Rightarrow> u32 \<Rightarrow> u32 \<Rightarrow> 's \<Rightarrow> (u32 \<times> 's) result" where
  "for_pages body sva eva s =
     (if sva < eva
      then (case body sva s of
              Ok s' \<Rightarrow> if sva + 4096 < sva then Hang else for_pages body (sva + 4096) eva s'
            | Panic m \<Rightarrow> Panic m | Undef m \<Rightarrow> Undef m | Hang \<Rightarrow> Hang)
      else Ok (sva, s))"
  by pat_completeness auto
termination
  by (relation "measure (\<lambda>(body, sva, eva, s). unat eva - unat sva)")
     (auto simp: page_step_measure)

declare for_pages.simps [simp del]

lemma for_pages_stop [simp]: "\<not> sva < eva \<Longrightarrow> for_pages body sva eva s = Ok (sva, s)"
  by (simp add: for_pages.simps)

lemma for_pages_step:
  "sva < eva \<Longrightarrow> for_pages body sva eva s =
     bind_r (body sva s) (\<lambda>s'. if sva + 4096 < sva then Hang else for_pages body (sva + 4096) eva s')"
  by (subst for_pages.simps) (auto split: result.splits)

text \<open>One page: the loop body runs exactly once.\<close>

lemma for_pages_single:
  assumes "sva < sva + 4096"
  shows "for_pages body sva (sva + 4096) s = bind_r (body sva s) (\<lambda>s'. Ok (sva + 4096, s'))"
  using assms by (simp add: for_pages_step less_not_sym)

text \<open>An invariant that the body keeps, for every page address of the range, holds at the end.\<close>

lemma for_pages_inv:
  assumes "for_pages body sva eva s = Ok (v, s')"
    and "P sva s"
    and "\<And>x t t'. P x t \<Longrightarrow> x < eva \<Longrightarrow> body x t = Ok t' \<Longrightarrow> \<not> x + 4096 < x \<Longrightarrow> P (x + 4096) t'"
  shows "P v s' \<and> \<not> v < eva"
  using assms
proof (induction body sva eva s rule: for_pages.induct)
  case (1 body sva eva s)
  show ?case
  proof (cases "sva < eva")
    case True
    with "1.prems"(1) obtain t where t: "body sva s = Ok t" "\<not> sva + 4096 < sva"
      and rest: "for_pages body (sva + 4096) eva t = Ok (v, s')"
      by (auto simp: for_pages_step bind_r_eq_Ok split: if_splits)
    have "P (sva + 4096) t" using "1.prems"(2,3) True t by blast
    from "1.IH"[OF True t(1,2) rest this] "1.prems"(3) show ?thesis by blast
  next
    case False
    with "1.prems" show ?thesis by simp
  qed
qed

text \<open>Total correctness: if every step returns and keeps \<open>P\<close>, the loop returns.\<close>

lemma for_pages_ok:
  assumes "P sva s"
    and "\<And>x t. P x t \<Longrightarrow> x < eva \<Longrightarrow> \<exists>t'. body x t = Ok t' \<and> \<not> x + 4096 < x \<and> P (x + 4096) t'"
  shows "\<exists>v s'. for_pages body sva eva s = Ok (v, s') \<and> P v s' \<and> \<not> v < eva"
  using assms
proof (induction body sva eva s rule: for_pages.induct)
  case (1 body sva eva s)
  show ?case
  proof (cases "sva < eva")
    case True
    with "1.prems" obtain t where t: "body sva s = Ok t" "\<not> sva + 4096 < sva" "P (sva + 4096) t"
      by blast
    have "\<exists>v s'. for_pages body (sva + 4096) eva t = Ok (v, s') \<and> P v s' \<and> \<not> v < eva"
      using "1.IH" [OF True t] "1.prems"(2) by blast
    with t True show ?thesis by (simp add: for_pages_step)
  next
    case False
    with "1.prems" show ?thesis by auto
  qed
qed

section \<open>Words\<close>

lemma and_mask_idem: "(x AND m) AND m = (x AND m :: 'a::len word)"
  by (simp add: and.assoc)

text \<open>Masks as arithmetic: the way from bit operations to natural numbers.\<close>

lemma and_not_mask_eq: "x AND NOT (mask n) = push_bit n (drop_bit n x :: 'a::len word)"
  by (rule bit_word_eqI) (auto simp: bit_simps)

lemma unat_and_mask: "unat (x AND mask n :: 'a::len word) = unat x mod 2 ^ n"
proof -
  have "unat (take_bit n x) = take_bit n (unat x)" by (rule unsigned_take_bit_eq)
  then show ?thesis by (simp only: take_bit_eq_mask [symmetric] take_bit_eq_mod [symmetric])
qed

lemma unat_and_not_mask: "unat (x AND NOT (mask n) :: 'a::len word) = unat x div 2 ^ n * 2 ^ n"
proof -
  have split: "(x AND NOT (mask n)) = x - (x AND mask n)"
    using bits_ident [of n x]
    by (simp only: and_not_mask_eq take_bit_eq_mask [symmetric] eq_diff_eq)
  have le: "x AND mask n \<le> x" by (rule word_and_le2)
  have "unat (x - (x AND mask n)) = unat x - unat (x AND mask n)"
    using le by (simp add: unat_sub_if_size word_le_nat_alt)
  then show ?thesis
    by (simp add: split unat_and_mask minus_mod_eq_div_mult)
qed

lemma unat_bound32: "unat (x :: u32) < 4294967296"
  using unsigned_less [of x] by simp

lemma unat_bound8: "unat (b :: u8) < 256"
  using unsigned_less [of b] by simp

lemma take_bit_self32: "unat (x :: u32) < 2 ^ k \<Longrightarrow> take_bit k x = x"
  by (rule unsigned_word_eqI [where ?'a = nat]) (simp only: unsigned_take_bit_eq take_bit_nat_eq_self)

lemma minus_mask: "y AND NOT (mask k) = y - (y AND mask k :: 'a::len word)"
  using bits_ident [of k y] by (simp only: and_not_mask_eq take_bit_eq_mask [symmetric] eq_diff_eq)

end
