(* ===== verification/Avr32_Machine.thy ===== *)
theory Avr32_Machine
  imports Prelude
begin

text \<open>
  The AVR32 machine as the port sees it: the address-space segments and the macros of
  \<open>arch/avr32/include/cpuregs.h\<close>, the page-table-entry and TLB bits of \<open>pte.h\<close>, the page and
  segment sizes of \<open>avr32_param.h\<close>, and the MMU routines of \<open>avr32_subr.S\<close>. What the code
  asks of the hardware (TLB writes, cache operations) is a log of requests, newest first; an
  ideal TLB replays the log, so that coherence of the TLB with the page tables can be stated.
\<close>

section \<open>Address space\<close>

abbreviation (input) AVR32_P1_START :: u32 where "AVR32_P1_START \<equiv> 0x80000000"
abbreviation (input) AVR32_P2_START :: u32 where "AVR32_P2_START \<equiv> 0xa0000000"
abbreviation (input) AVR32_P3_START :: u32 where "AVR32_P3_START \<equiv> 0xc0000000"
abbreviation (input) AVR32_P4_START :: u32 where "AVR32_P4_START \<equiv> 0xe0000000"
abbreviation (input) AVR32_PHYS_MASK :: u32 where "AVR32_PHYS_MASK \<equiv> 0x1fffffff"
abbreviation (input) VM_MAXUSER_ADDRESS :: u32 where "VM_MAXUSER_ADDRESS \<equiv> 0x80000000"
abbreviation (input) VM_MIN_KERNEL_ADDRESS :: u32 where "VM_MIN_KERNEL_ADDRESS \<equiv> 0xC0000000"

definition AVR32_P1_TO_PHYS :: "u32 \<Rightarrow> u32" where
  "AVR32_P1_TO_PHYS x = x AND AVR32_PHYS_MASK"

definition AVR32_PHYS_TO_P1 :: "u32 \<Rightarrow> u32" where
  "AVR32_PHYS_TO_P1 x = x OR AVR32_P1_START"

section \<open>Pages and segments\<close>

abbreviation (input) NBPG :: u32 where "NBPG \<equiv> 4096"
abbreviation (input) PGOFSET :: u32 where "PGOFSET \<equiv> 4095"
abbreviation (input) NBSEG :: u32 where "NBSEG \<equiv> 0x400000"
abbreviation (input) SEGOFSET :: u32 where "SEGOFSET \<equiv> 0x3fffff"

definition trunc_page :: "u32 \<Rightarrow> u32" where
  "trunc_page x = x AND NOT PGOFSET"

definition round_page :: "u32 \<Rightarrow> u32" where
  "round_page x = (x + PGOFSET) AND NOT PGOFSET"

definition atop :: "u32 \<Rightarrow> u32" where
  "atop x = drop_bit 12 x"

definition ptoa :: "u32 \<Rightarrow> u32" where
  "ptoa x = push_bit 12 x"

definition avr32_trunc_seg :: "u32 \<Rightarrow> u32" where
  "avr32_trunc_seg x = x AND NOT SEGOFSET"

section \<open>Page table entries\<close>

abbreviation (input) AVR32_PG_FRAME :: u32 where "AVR32_PG_FRAME \<equiv> 0x3ffff000"
abbreviation (input) AVR32_PG_VPN :: u32 where "AVR32_PG_VPN \<equiv> 0xfffff000"
abbreviation (input) AVR32_PG_VALID :: u32 where "AVR32_PG_VALID \<equiv> 0x200"
abbreviation (input) AVR32_PG_ASID :: u32 where "AVR32_PG_ASID \<equiv> 0xff"
abbreviation (input) AVR32_PTE_INVALID :: u32 where "AVR32_PTE_INVALID \<equiv> 0"
abbreviation (input) AVR32_PTE_VALID :: u32 where "AVR32_PTE_VALID \<equiv> 0x80000000"
abbreviation (input) AVR32_PTE_WIRED :: u32 where "AVR32_PTE_WIRED \<equiv> 0x40000000"
abbreviation (input) AVR32_PG_CACHED :: u32 where "AVR32_PG_CACHED \<equiv> 0x200"
abbreviation (input) AVR32_PG_GLOBAL :: u32 where "AVR32_PG_GLOBAL \<equiv> 0x100"
abbreviation (input) AVR32_PG_ACCESS :: u32 where "AVR32_PG_ACCESS \<equiv> 0x70"
abbreviation (input) AVR32_PG_DIRTY :: u32 where "AVR32_PG_DIRTY \<equiv> 2"
abbreviation (input) AVR32_PG_SIZE_4K :: u32 where "AVR32_PG_SIZE_4K \<equiv> 4"
abbreviation (input) AVR32_PG_ACCESS_RO :: u32 where "AVR32_PG_ACCESS_RO \<equiv> 0"
abbreviation (input) AVR32_PG_ACCESS_RX :: u32 where "AVR32_PG_ACCESS_RX \<equiv> 0x10"
abbreviation (input) AVR32_PG_ACCESS_RW :: u32 where "AVR32_PG_ACCESS_RW \<equiv> 0x20"
abbreviation (input) AVR32_PG_ACCESS_RWX :: u32 where "AVR32_PG_ACCESS_RWX \<equiv> 0x30"
abbreviation (input) AVR32_PG_ACCESS_URO :: u32 where "AVR32_PG_ACCESS_URO \<equiv> 0x40"
abbreviation (input) AVR32_PG_ACCESS_URX :: u32 where "AVR32_PG_ACCESS_URX \<equiv> 0x50"
abbreviation (input) AVR32_PG_ACCESS_URW :: u32 where "AVR32_PG_ACCESS_URW \<equiv> 0x60"
abbreviation (input) AVR32_PG_ACCESS_URWX :: u32 where "AVR32_PG_ACCESS_URWX \<equiv> 0x70"

abbreviation (input) VM_PROT_READ :: u32 where "VM_PROT_READ \<equiv> 1"
abbreviation (input) VM_PROT_WRITE :: u32 where "VM_PROT_WRITE \<equiv> 2"
abbreviation (input) VM_PROT_EXECUTE :: u32 where "VM_PROT_EXECUTE \<equiv> 4"
abbreviation (input) VM_PROT_ALL :: u32 where "VM_PROT_ALL \<equiv> 7"

definition avr32_vaddr_to_tlbvpn :: "u32 \<Rightarrow> u32" where
  "avr32_vaddr_to_tlbvpn x = x AND AVR32_PG_VPN"

definition avr32_paddr_to_tlbpfn :: "u32 \<Rightarrow> u32" where
  "avr32_paddr_to_tlbpfn x = x AND AVR32_PG_FRAME"

definition avr32_tlbpfn_to_paddr :: "u32 \<Rightarrow> u32" where
  "avr32_tlbpfn_to_paddr x = x AND AVR32_PG_FRAME"

abbreviation pte_valid :: "u32 \<Rightarrow> bool" where
  "pte_valid e \<equiv> e AND AVR32_PTE_VALID \<noteq> 0"

section \<open>Requests to the hardware\<close>

datatype hwop =
    TLB_UPDATE u32 u32              \<comment> \<open>MachTLBUpdate: tlbehi, tlbelo without software bits\<close>
  | TLB_INVAL u32                   \<comment> \<open>avr32_tbis: the entry that matches tlbehi\<close>
  | TLB_INVAL_USER                  \<comment> \<open>avr32_tbiap: every entry that is not global\<close>
  | SET_PID u32                     \<comment> \<open>MachSetPID: current ASID in TLBEHI\<close>
  | MMUCR_WRITE u32
  | DCACHE_WBINV_RANGE u32 u32
  | DCACHE_WBINV_RANGE_INDEX u32 u32
  | DCACHE_INV_RANGE u32 u32
  | ICACHE_SYNC_RANGE_INDEX u32 u32
  | PAGE_ZERO u32 u32               \<comment> \<open>memset of an address range\<close>
  | PAGE_COPY u32 u32               \<comment> \<open>avr32_pagecopy: destination, source\<close>

definition MachTLBUpdate :: "u32 \<Rightarrow> u32 \<Rightarrow> hwop list \<Rightarrow> hwop list" where
  "MachTLBUpdate tlbehi ptentry hw =
     TLB_UPDATE tlbehi (ptentry AND NOT (AVR32_PTE_WIRED OR AVR32_PTE_VALID)) # hw"

text \<open>\<open>avr32_tbis\<close> carries its sanity checks in every build (\<open>#if PARANOIADIAG || 1\<close>).\<close>

definition avr32_tbis :: "u32 \<Rightarrow> u32 \<Rightarrow> hwop list \<Rightarrow> hwop list result" where
  "avr32_tbis tlbehi tlbelo hw =
     (if tlbehi AND AVR32_PG_VALID = 0 then Panic ''avr32_tbis: invalid entry''
      else if tlbehi AND AVR32_PG_ASID = 0 \<and> tlbelo AND AVR32_PG_GLOBAL \<noteq> AVR32_PG_GLOBAL
      then Panic ''avr32_tbis: non-global PTE entry without ASID''
      else Ok (TLB_INVAL tlbehi # hw))"

definition avr32_tbiap :: "hwop list \<Rightarrow> hwop list" where
  "avr32_tbiap hw = TLB_INVAL_USER # hw"

definition MachSetPID :: "u32 \<Rightarrow> hwop list \<Rightarrow> hwop list" where
  "MachSetPID pid hw = SET_PID pid # hw"

section \<open>The ideal TLB\<close>

text \<open>
  The entries a TLB without capacity limit holds after the requests of a log. An entry is a
  pair of TLBEHI and TLBELO values; it matches a search key with the same virtual page number
  when it is global or carries the same ASID. A real TLB holds a subset of these entries.
\<close>

definition tlb_match :: "u32 \<Rightarrow> u32 \<times> u32 \<Rightarrow> bool" where
  "tlb_match key e \<longleftrightarrow> fst e AND AVR32_PG_VPN = key AND AVR32_PG_VPN \<and>
     (snd e AND AVR32_PG_GLOBAL \<noteq> 0 \<or> fst e AND AVR32_PG_ASID = key AND AVR32_PG_ASID)"

primrec tlb_of :: "hwop list \<Rightarrow> (u32 \<times> u32) list" where
  "tlb_of [] = []"
| "tlb_of (op # hw) = (case op of
      TLB_UPDATE hi lo \<Rightarrow> (hi, lo) # filter (\<lambda>e. \<not> tlb_match hi e) (tlb_of hw)
    | TLB_INVAL hi \<Rightarrow> filter (\<lambda>e. \<not> tlb_match hi e) (tlb_of hw)
    | TLB_INVAL_USER \<Rightarrow> filter (\<lambda>e. snd e AND AVR32_PG_GLOBAL \<noteq> 0) (tlb_of hw)
    | _ \<Rightarrow> tlb_of hw)"

section \<open>Lemmas on addresses\<close>

named_theorems addr_simps \<open>address arithmetic of pages and segments\<close>

abbreviation page_aligned :: "u32 \<Rightarrow> bool" where
  "page_aligned a \<equiv> a AND PGOFSET = 0"

lemma pg_frame_valid_disj: "AVR32_PG_FRAME AND AVR32_PTE_VALID = 0"
  by simp

lemma and_or_distrib_left: "(a OR b) AND m = (a AND m) OR (b AND m :: 'a::len word)"
  by (simp add: bit.conj_disj_distrib2)

lemma trunc_page_aligned [simp]: "page_aligned (trunc_page x)"
  by (simp add: trunc_page_def and.assoc)

lemma and_not_id: "x AND m = 0 \<Longrightarrow> x AND NOT m = (x :: 'a::len word)"
  by (auto simp: bit_eq_iff bit_simps)

lemma trunc_page_id: "page_aligned x \<Longrightarrow> trunc_page x = x"
  unfolding trunc_page_def by (rule and_not_id)

lemma mask_12: "(4095 :: u32) = mask 12" and mask_22: "(0x3fffff :: u32) = mask 22"
  and mask_10: "(1023 :: u32) = mask 10"
  by (simp_all add: mask_eq_exp_minus_1)

lemma unat_trunc_page [addr_simps]: "unat (trunc_page x) = unat x div 4096 * 4096"
  unfolding trunc_page_def mask_12 unat_and_not_mask by simp

lemma unat_trunc_seg [addr_simps]: "unat (avr32_trunc_seg x) = unat x div 4194304 * 4194304"
  unfolding avr32_trunc_seg_def mask_22 unat_and_not_mask by simp

lemma page_aligned_iff: "page_aligned x \<longleftrightarrow> unat x mod 4096 = 0"
  unfolding mask_12 by (simp add: unat_and_mask flip: unat_eq_zero)

end
