(* ===== verification/Pmap_State.thy ===== *)
theory Pmap_State
  imports Avr32_Machine
begin

text \<open>
  The state of the physical-map module (\<open>arch/avr32/include/pmap.h\<close>, \<open>arch/avr32/avr32/pmap.c\<close>):
  page tables, pmaps, physical-to-virtual lists, address space identifiers, the allocators
  it draws from; and the primitive accessors (\<open>kvtopte\<close>, \<open>pmap_segmap\<close>, \<open>vm_physseg_find\<close>,
  \<open>PHYS_TO_VM_PAGE\<close>) that every operation goes through.

  Page tables are memory: \<open>seg_mem t i\<close> is \<open>seg_tab[i]\<close> of the segment table at address \<open>t\<close>
  and \<open>pte_mem p i\<close> entry \<open>i\<close> of the page of PTEs at address \<open>p\<close>; 0 is the null pointer. A
  pv list is the header embedded in \<open>pv_table\<close> followed by the chain of pool-allocated nodes,
  each with the identity of its node. The kernel is built with \<open>-D_KERNEL\<close> only (\<open>src/Makefile\<close>),
  so the blocks under DEBUG, DIAGNOSTIC and PARANOIADIAG, and \<open>KASSERT\<close>, are not compiled.
\<close>

section \<open>Data\<close>

record pmap =
  pm_count :: int
  resident_count :: int
  wired_count :: int
  pm_asid :: u32
  pm_asidgen :: u32
  pm_segtab :: u32

record pv_entry =
  pv_pmap :: "nat option"
  pv_va :: u32
  pv_flags :: u32

record vm_page_md =
  pvh_head :: pv_entry
  pvh_chain :: "(nat \<times> pv_entry) list"
  pvh_attrs :: u32

record vm_physseg =
  ps_start :: u32
  ps_end :: u32
  avail_start :: u32
  avail_end :: u32

record pmap_st =
  Sysmap :: "nat \<Rightarrow> u32"
  pmaps :: "nat \<Rightarrow> pmap"
  seg_mem :: "u32 \<Rightarrow> nat \<Rightarrow> u32"
  pte_mem :: "u32 \<Rightarrow> nat \<Rightarrow> u32"
  free_segtab :: u32
  mdpage :: "u32 \<Rightarrow> vm_page_md"
  vm_physmem :: "vm_physseg list"
  page_init_done :: bool
  uvm_pages :: "u32 list"
  pv_pool :: "nat list"
  pmap_pool :: "nat list"
  pmap_max_asid :: u32
  pmap_next_asid :: u32
  pmap_asid_generation :: u32
  pmap_initialized :: bool
  alias_mask :: u32
  cur_pmap :: nat
  segbase :: u32
  hw :: "hwop list"

abbreviation (input) PV_UNCACHED :: u32 where "PV_UNCACHED \<equiv> 1"
abbreviation (input) PV_MODIFIED :: u32 where "PV_MODIFIED \<equiv> 2"
abbreviation (input) PV_REFERENCED :: u32 where "PV_REFERENCED \<equiv> 4"
abbreviation (input) PMAP_WIRED :: u32 where "PMAP_WIRED \<equiv> 0x10"
abbreviation (input) PMAP_CANFAIL :: u32 where "PMAP_CANFAIL \<equiv> 0x20"
abbreviation (input) PMAP_ASID_RESERVED :: u32 where "PMAP_ASID_RESERVED \<equiv> 0"
abbreviation (input) PMAP_SEGTABSIZE :: nat where "PMAP_SEGTABSIZE \<equiv> 512"

text \<open>\<open>pmap_kernel()\<close> is the address of the static \<open>kernel_pmap_store\<close>.\<close>

abbreviation (input) pmap_kernel :: nat where "pmap_kernel \<equiv> 0"

section \<open>Physical segments and pages\<close>

text \<open>\<open>vm_physseg_find\<close> of \<open>uvm_page.h\<close>, the binary search (\<open>VM_PSTRAT_BSEARCH\<close>).\<close>

function vm_physseg_loop :: "vm_physseg list \<Rightarrow> u32 \<Rightarrow> nat \<Rightarrow> nat \<Rightarrow> nat option" where
  "vm_physseg_loop mem pframe start len =
     (if len = 0 then None
      else let try = start + len div 2 in
        if ps_start (mem ! try) \<le> pframe
        then (if pframe < ps_end (mem ! try) then Some try
              else vm_physseg_loop mem pframe (try + 1) ((len - 1) div 2))
        else vm_physseg_loop mem pframe start (len div 2))"
  by pat_completeness auto
termination
  by (relation "measure (\<lambda>(mem, pf, start, len). len)") auto

declare vm_physseg_loop.simps [simp del]

definition vm_physseg_find :: "vm_physseg list \<Rightarrow> u32 \<Rightarrow> nat option" where
  "vm_physseg_find mem pframe = vm_physseg_loop mem pframe 0 (length mem)"

text \<open>A page is named by its page frame number.\<close>

definition PHYS_TO_VM_PAGE :: "pmap_st \<Rightarrow> paddr \<Rightarrow> u32 option" where
  "PHYS_TO_VM_PAGE s pa =
     (case vm_physseg_find (vm_physmem s) (atop pa) of None \<Rightarrow> None | Some _ \<Rightarrow> Some (atop pa))"

definition PAGE_IS_MANAGED :: "pmap_st \<Rightarrow> paddr \<Rightarrow> bool" where
  "PAGE_IS_MANAGED s pa \<longleftrightarrow> pmap_initialized s \<and> vm_physseg_find (vm_physmem s) (atop pa) \<noteq> None"

text \<open>
  \<open>uvm_pagealloc\<close> with \<open>UVM_PGA_ZERO\<close>: UVM hands out the physical address of a free page,
  cleared, or no page. \<open>uvm_pages\<close> are the pages it can hand out.
\<close>

definition uvm_pagealloc_zero :: "pmap_st \<Rightarrow> paddr option \<times> pmap_st" where
  "uvm_pagealloc_zero s = (case uvm_pages s of
       [] \<Rightarrow> (None, s)
     | pa # pas \<Rightarrow> (Some pa, s\<lparr>uvm_pages := pas,
         pte_mem := (pte_mem s)(AVR32_PHYS_TO_P1 pa := (\<lambda>_. 0)),
         seg_mem := (seg_mem s)(AVR32_PHYS_TO_P1 pa := (\<lambda>_. 0),
                                AVR32_PHYS_TO_P1 pa + 2048 := (\<lambda>_. 0))\<rparr>))"

section \<open>Page table access\<close>

definition kvtopte :: "vaddr \<Rightarrow> nat" where
  "kvtopte va = unat (drop_bit 12 (va - VM_MIN_KERNEL_ADDRESS))"

definition seg_index :: "vaddr \<Rightarrow> nat" where
  "seg_index va = unat (drop_bit 22 va)"

definition pte_index :: "vaddr \<Rightarrow> nat" where
  "pte_index va = unat (drop_bit 12 va AND 1023)"

definition pmap_segmap :: "pmap_st \<Rightarrow> nat \<Rightarrow> vaddr \<Rightarrow> u32" where
  "pmap_segmap s pm va = seg_mem s (pm_segtab (pmaps s pm)) (seg_index va)"

text \<open>The entry that maps \<open>va\<close>: in \<open>Sysmap\<close> for the kernel, behind the segment table otherwise.\<close>

definition pte_get :: "pmap_st \<Rightarrow> nat \<Rightarrow> vaddr \<Rightarrow> u32 option" where
  "pte_get s pm va =
     (if pm = pmap_kernel then Some (Sysmap s (kvtopte va))
      else if pmap_segmap s pm va = 0 then None
      else Some (pte_mem s (pmap_segmap s pm va) (pte_index va)))"

definition pte_set :: "nat \<Rightarrow> vaddr \<Rightarrow> u32 \<Rightarrow> pmap_st \<Rightarrow> pmap_st" where
  "pte_set pm va e s =
     (if pm = pmap_kernel then s\<lparr>Sysmap := (Sysmap s)(kvtopte va := e)\<rparr>
      else s\<lparr>pte_mem := (pte_mem s)(pmap_segmap s pm va :=
               (pte_mem s (pmap_segmap s pm va))(pte_index va := e))\<rparr>)"

definition pmap_upd :: "nat \<Rightarrow> (pmap \<Rightarrow> pmap) \<Rightarrow> pmap_st \<Rightarrow> pmap_st" where
  "pmap_upd pm f s = s\<lparr>pmaps := (pmaps s)(pm := f (pmaps s pm))\<rparr>"

definition md_upd :: "u32 \<Rightarrow> (vm_page_md \<Rightarrow> vm_page_md) \<Rightarrow> pmap_st \<Rightarrow> pmap_st" where
  "md_upd pg f s = s\<lparr>mdpage := (mdpage s)(pg := f (mdpage s pg))\<rparr>"

definition hw_op :: "hwop \<Rightarrow> pmap_st \<Rightarrow> pmap_st" where
  "hw_op op s = s\<lparr>hw := op # hw s\<rparr>"

definition tlb_update :: "u32 \<Rightarrow> u32 \<Rightarrow> pmap_st \<Rightarrow> pmap_st" where
  "tlb_update tlbehi tlbelo s = s\<lparr>hw := MachTLBUpdate tlbehi tlbelo (hw s)\<rparr>"

definition tbis :: "u32 \<Rightarrow> u32 \<Rightarrow> pmap_st \<Rightarrow> pmap_st result" where
  "tbis tlbehi tlbelo s = bind_r (avr32_tbis tlbehi tlbelo (hw s)) (\<lambda>h. Ok (s\<lparr>hw := h\<rparr>))"

definition avr32_cache_indexof :: "pmap_st \<Rightarrow> vaddr \<Rightarrow> u32" where
  "avr32_cache_indexof s va = va AND alias_mask s"

end
