(* ===== verification/Pmap.thy ===== *)
theory Pmap
  imports Pmap_State
begin

text \<open>
  The operations of \<open>arch/avr32/avr32/pmap.c\<close>, in the file's own structure: removal, entry and
  protection of mappings, wired kernel mappings, pv list management, ASID allocation,
  creation and destruction of pmaps, memory stealing at boot, and the operations that are
  still stubs. Each takes the module state and returns the new one; operations that can
  panic or loop return a \<open>result\<close>.
\<close>

section \<open>Protection codes\<close>

definition protection_codes :: "u32 list list" where
  "protection_codes =
     [[AVR32_PG_ACCESS_RO, AVR32_PG_ACCESS_RO, AVR32_PG_ACCESS_RW, AVR32_PG_ACCESS_RW,
       AVR32_PG_ACCESS_RX, AVR32_PG_ACCESS_RX, AVR32_PG_ACCESS_RWX, AVR32_PG_ACCESS_RWX],
      [AVR32_PG_ACCESS_URO, AVR32_PG_ACCESS_URO, AVR32_PG_ACCESS_URW, AVR32_PG_ACCESS_URW,
       AVR32_PG_ACCESS_URX, AVR32_PG_ACCESS_URX, AVR32_PG_ACCESS_URWX, AVR32_PG_ACCESS_URWX]]"

definition pte_prot :: "nat \<Rightarrow> u32 \<Rightarrow> u32" where
  "pte_prot pm prot = protection_codes ! (if pm = pmap_kernel then 0 else 1) ! unat prot"

section \<open>Physical to virtual lists\<close>

text \<open>
  The search of \<open>pmap_remove_pv\<close> past the header: the chain without the first entry for
  \<open>(pm, va)\<close>, and the node that goes back to the pool.
\<close>

fun pv_chain_remove :: "nat \<Rightarrow> vaddr \<Rightarrow> (nat \<times> pv_entry) list \<Rightarrow> (nat \<times> pv_entry) list \<times> nat list" where
  "pv_chain_remove pm va [] = ([], [])"
| "pv_chain_remove pm va ((n, npv) # rest) =
     (if pv_pmap npv = Some pm \<and> pv_va npv = va then (rest, [n])
      else let (rest', freed) = pv_chain_remove pm va rest in ((n, npv) # rest', freed))"

definition pmap_remove_pv :: "nat \<Rightarrow> vaddr \<Rightarrow> u32 \<Rightarrow> pmap_st \<Rightarrow> pmap_st" where
  "pmap_remove_pv pm va pg s =
     (let md = mdpage s pg; pv = pvh_head md in
      if pv_pmap pv = Some pm \<and> pv_va pv = va then
        (case pvh_chain md of
           (n, npv) # rest \<Rightarrow>
             md_upd pg (\<lambda>md. md\<lparr>pvh_head := npv\<lparr>pv_flags := pv_flags npv OR
                                  (pv_flags pv AND (PV_MODIFIED OR PV_REFERENCED))\<rparr>,
                               pvh_chain := rest\<rparr>)
               (s\<lparr>pv_pool := n # pv_pool s\<rparr>)
         | [] \<Rightarrow> hw_op (DCACHE_WBINV_RANGE_INDEX va NBPG)
                  (md_upd pg (\<lambda>md. md\<lparr>pvh_head := pv\<lparr>pv_pmap := None\<rparr>\<rparr>) s))
      else
        (let (chain, freed) = pv_chain_remove pm va (pvh_chain md) in
         md_upd pg (\<lambda>md. md\<lparr>pvh_chain := chain\<rparr>) (s\<lparr>pv_pool := freed @ pv_pool s\<rparr>)))"

section \<open>Removal\<close>

text \<open>
  The body of the removal loops: one page of \<open>pmap\<close>, with the TLB tag \<open>asid\<close> and whether
  the TLB needs a flush. The kernel branch runs it with \<open>asid = 0\<close> and always flushes. What it
  does to a valid entry, up to the flush, is \<open>pmap_drop_entry\<close>.
\<close>

definition pmap_drop_entry :: "nat \<Rightarrow> vaddr \<Rightarrow> u32 \<Rightarrow> pmap_st \<Rightarrow> pmap_st" where
  "pmap_drop_entry pm sva entry s =
     (let s1 = (if entry AND AVR32_PTE_WIRED \<noteq> 0
                then pmap_upd pm (\<lambda>p. p\<lparr>wired_count := wired_count p - 1\<rparr>) s else s);
          s2 = pmap_upd pm (\<lambda>p. p\<lparr>resident_count := resident_count p - 1\<rparr>) s1;
          s3 = (case PHYS_TO_VM_PAGE s2 (avr32_tlbpfn_to_paddr entry) of
                  Some pg \<Rightarrow> pmap_remove_pv pm sva pg s2 | None \<Rightarrow> s2)
      in pte_set pm sva 0 s3)"

definition pmap_remove_page :: "nat \<Rightarrow> u32 \<Rightarrow> bool \<Rightarrow> vaddr \<Rightarrow> pmap_st \<Rightarrow> pmap_st result" where
  "pmap_remove_page pm asid needflush sva s =
     (case pte_get s pm sva of None \<Rightarrow> Undef ''null page table'' | Some entry \<Rightarrow>
      if \<not> pte_valid entry then Ok s
      else if needflush
      then tbis ((sva OR asid) OR AVR32_PG_VALID) (AVR32_PG_GLOBAL OR AVR32_PG_SIZE_4K)
             (pmap_drop_entry pm sva entry s)
      else Ok (pmap_drop_entry pm sva entry s))"

text \<open>The end of the current segment, or of the range (\<open>nssva\<close>).\<close>

definition seg_limit :: "vaddr \<Rightarrow> vaddr \<Rightarrow> vaddr" where
  "seg_limit sva eva =
     (let nssva = avr32_trunc_seg sva + NBSEG in if nssva = 0 \<or> nssva > eva then eva else nssva)"

lemma seg_limit_greater:
  assumes "sva < eva"
  shows "sva < seg_limit sva eva"
proof -
  define q where "q = unat sva div 4194304"
  have q: "q \<le> 1023" "unat sva < (q + 1) * 4194304"
    using unat_bound32 [of sva] by (auto simp: q_def)
  have u: "unat (avr32_trunc_seg sva + NBSEG) = (q * 4194304 + 4194304) mod 4294967296"
    by (simp add: unat_word_ariths unat_trunc_seg q_def)
  have "sva < avr32_trunc_seg sva + NBSEG" if "avr32_trunc_seg sva + NBSEG \<noteq> 0"
  proof -
    have "(q * 4194304 + 4194304) mod 4294967296 \<noteq> 0" using that u by (metis unat_eq_zero)
    then have "q \<noteq> 1023" by auto
    then have "q * 4194304 + 4194304 < (4294967296 :: nat)" using q(1) by simp
    then show ?thesis using q(2) u by (simp add: word_less_nat_alt)
  qed
  then show ?thesis using assms by (auto simp: seg_limit_def Let_def)
qed

lemma for_pages_end: "for_pages body sva eva s = Ok (v, s') \<Longrightarrow> \<not> v < eva"
  by (drule for_pages_inv [where P = "\<lambda>_ _. True"]) auto

text \<open>
  The loop of \<open>pmap_remove\<close> and \<open>pmap_protect\<close> over a user range: segment by segment,
  skipping segments without a page of PTEs.
\<close>

function for_user_segs ::
  "(u32 \<Rightarrow> pmap_st \<Rightarrow> pmap_st result) \<Rightarrow> nat \<Rightarrow> u32 \<Rightarrow> u32 \<Rightarrow> pmap_st \<Rightarrow> pmap_st result" where
  "for_user_segs body pm sva eva s =
     (if sva < eva
      then (if pmap_segmap s pm sva = 0 then for_user_segs body pm (seg_limit sva eva) eva s
            else case for_pages body sva (seg_limit sva eva) s of
                   Ok vs \<Rightarrow> for_user_segs body pm (fst vs) eva (snd vs)
                 | Panic m \<Rightarrow> Panic m | Undef m \<Rightarrow> Undef m | Hang \<Rightarrow> Hang)
      else Ok s)"
  by pat_completeness auto
termination
proof (relation "measure (\<lambda>(body, pm, sva, eva, s). unat eva - unat sva)", goal_cases)
  case 1
  show ?case by simp
next
  case (2 body pm sva eva s)
  then have "sva < seg_limit sva eva" by (intro seg_limit_greater)
  with 2 show ?case by (simp add: word_less_nat_alt diff_less_mono2)
next
  case (3 body pm sva eva s vs)
  then have "\<not> fst vs < seg_limit sva eva" by (metis for_pages_end prod.collapse)
  then have "sva < fst vs" using seg_limit_greater [OF 3(1)] by simp
  with 3 show ?case by (simp add: word_less_nat_alt diff_less_mono2)
qed

declare for_user_segs.simps [simp del]

definition pmap_remove :: "nat \<Rightarrow> vaddr \<Rightarrow> vaddr \<Rightarrow> pmap_st \<Rightarrow> pmap_st result" where
  "pmap_remove pm sva eva s =
     (if pm = pmap_kernel
      then bind_r (for_pages (pmap_remove_page pm 0 True) sva eva s) (\<lambda>r. Ok (snd r))
      else let asid = pm_asid (pmaps s pm);
               needflush = (pm_asidgen (pmaps s pm) = pmap_asid_generation s)
           in for_user_segs (pmap_remove_page pm asid needflush) pm sva eva s)"

section \<open>Entering pv list entries\<close>

fun pv_find_incompat :: "(vaddr \<Rightarrow> u32) \<Rightarrow> vaddr \<Rightarrow> pv_entry list \<Rightarrow> pv_entry option" where
  "pv_find_incompat idx va [] = None"
| "pv_find_incompat idx va (npv # rest) =
     (if idx (pv_va npv) \<noteq> idx va then Some npv else pv_find_incompat idx va rest)"

definition pv_entries :: "vm_page_md \<Rightarrow> pv_entry list" where
  "pv_entries md = pvh_head md # map snd (pvh_chain md)"

text \<open>
  \<open>pmap_enter_pv\<close>. Its \<open>again\<close> loop removes, one at a time, the mappings of the page whose
  cache index differs from that of \<open>va\<close>. A round either shortens the page's pv list or leaves
  it as it is, and then every later round picks the same entry again: after as many rounds
  as the list has entries, plus one, the loop does not end.
\<close>

fun pmap_enter_pv_again :: "nat \<Rightarrow> nat \<Rightarrow> vaddr \<Rightarrow> u32 \<Rightarrow> pmap_st \<Rightarrow> pmap_st result" where
  "pmap_enter_pv_again 0 pm va pg s = Hang"
| "pmap_enter_pv_again (Suc fuel) pm va pg s =
     (let md = mdpage s pg; pv = pvh_head md in
      if pv_pmap pv = None then
        Ok (md_upd pg (\<lambda>md. md\<lparr>pvh_head := \<lparr>pv_pmap = Some pm, pv_va = va,
                                pv_flags = pv_flags pv AND NOT PV_UNCACHED\<rparr>, pvh_chain := []\<rparr>) s)
      else
        (case pv_find_incompat (avr32_cache_indexof s) va (pv_entries md) of
           Some npv \<Rightarrow>
             (case pv_pmap npv of
                None \<Rightarrow> Undef ''null pmap in pv list''
              | Some npm \<Rightarrow> bind_r (pmap_remove npm (pv_va npv) (pv_va npv + NBPG) s)
                              (pmap_enter_pv_again fuel pm va pg))
         | None \<Rightarrow>
             if \<exists>npv \<in> set (pv_entries md). pv_pmap npv = Some pm \<and> pv_va npv = va then Ok s
             else (case pv_pool s of
                     [] \<Rightarrow> Panic ''pmap_enter_pv: pmap_pv_alloc() failed''
                   | n # ns \<Rightarrow>
                       Ok (md_upd pg (\<lambda>md. md\<lparr>pvh_chain :=
                              (n, \<lparr>pv_pmap = Some pm, pv_va = va, pv_flags = pv_flags pv\<rparr>)
                                # pvh_chain md\<rparr>)
                            (s\<lparr>pv_pool := ns\<rparr>)))))"

definition pmap_enter_pv :: "nat \<Rightarrow> vaddr \<Rightarrow> u32 \<Rightarrow> pmap_st \<Rightarrow> pmap_st result" where
  "pmap_enter_pv pm va pg s =
     pmap_enter_pv_again (Suc (Suc (length (pvh_chain (mdpage s pg))))) pm va pg s"

section \<open>Entering mappings\<close>

abbreviation (input) ENOMEM :: int where "ENOMEM \<equiv> 12"

text \<open>Referenced and modified status of the page, from the access flags of the caller.\<close>

definition pmap_enter_attrs :: "u32 \<Rightarrow> u32 \<Rightarrow> u32" where
  "pmap_enter_attrs flags attrs =
     (if flags AND VM_PROT_WRITE \<noteq> 0 then attrs OR (PV_MODIFIED OR PV_REFERENCED)
      else if flags AND VM_PROT_ALL \<noteq> 0 then attrs OR PV_REFERENCED
      else attrs)"

text \<open>The tail both branches share: a changed frame is unmapped first, then the PTE is written.\<close>

definition pmap_enter_write :: "nat \<Rightarrow> vaddr \<Rightarrow> paddr \<Rightarrow> u32 \<Rightarrow> pmap_st \<Rightarrow> pmap_st result" where
  "pmap_enter_write pm va pa npte s =
     (case pte_get s pm va of None \<Rightarrow> Undef ''null page table'' | Some e \<Rightarrow>
      bind_r (if pte_valid e \<and> avr32_tlbpfn_to_paddr e \<noteq> pa
              then pmap_remove pm va (va + NBPG) s else Ok s)
        (\<lambda>s. case pte_get s pm va of None \<Rightarrow> Undef ''null page table'' | Some e \<Rightarrow>
           Ok (pte_set pm va npte
                 (if \<not> pte_valid e
                  then pmap_upd pm (\<lambda>p. p\<lparr>resident_count := resident_count p + 1\<rparr>) s
                  else s))))"

definition pmap_enter_kernel :: "vaddr \<Rightarrow> paddr \<Rightarrow> u32 \<Rightarrow> bool \<Rightarrow> u32 \<Rightarrow> pmap_st \<Rightarrow> (int \<times> pmap_st) result" where
  "pmap_enter_kernel va pa npte0 wired pg s =
     bind_r (pmap_enter_pv pmap_kernel va pg s) (\<lambda>s.
       let npte1 = npte0 OR (avr32_paddr_to_tlbpfn pa OR AVR32_PG_VALID OR AVR32_PG_CACHED
                             OR AVR32_PG_SIZE_4K OR AVR32_PG_GLOBAL);
           s1 = (if wired then pmap_upd pmap_kernel (\<lambda>p. p\<lparr>wired_count := wired_count p + 1\<rparr>) s
                 else s);
           npte = (if wired then npte1 OR AVR32_PTE_WIRED else npte1)
       in bind_r (pmap_enter_write pmap_kernel va pa npte s1) (\<lambda>s.
            Ok (0, tlb_update (avr32_vaddr_to_tlbvpn va OR AVR32_PG_VALID
                               OR pm_asid (pmaps s pmap_kernel)) npte s)))"

text \<open>The segment's page of PTEs, allocated on first use.\<close>

definition pmap_segmap_alloc :: "nat \<Rightarrow> vaddr \<Rightarrow> u32 \<Rightarrow> pmap_st \<Rightarrow> (bool \<times> pmap_st) result" where
  "pmap_segmap_alloc pm va flags s =
     (if pmap_segmap s pm va \<noteq> 0 then Ok (True, s)
      else case uvm_pagealloc_zero s of
        (None, s') \<Rightarrow> if flags AND PMAP_CANFAIL \<noteq> 0 then Ok (False, s')
                      else Panic ''pmap_enter: cannot allocate segmap''
      | (Some mem, s') \<Rightarrow>
          let t = pm_segtab (pmaps s' pm) in
          Ok (True, s'\<lparr>seg_mem := (seg_mem s')(t := (seg_mem s' t)
                        (seg_index va := AVR32_PHYS_TO_P1 mem))\<rparr>))"

definition pmap_enter_user ::
  "nat \<Rightarrow> vaddr \<Rightarrow> paddr \<Rightarrow> u32 \<Rightarrow> u32 \<Rightarrow> u32 \<Rightarrow> u32 \<Rightarrow> pmap_st \<Rightarrow> (int \<times> pmap_st) result" where
  "pmap_enter_user pm va pa prot flags npte0 pg s =
     (if va \<ge> VM_MAXUSER_ADDRESS then Panic ''pmap_enter: uva not in range''
      else bind_r (pmap_segmap_alloc pm va flags s) (\<lambda>(ok, s).
        if \<not> ok then Ok (ENOMEM, s)
        else bind_r (pmap_enter_pv pm va pg s) (\<lambda>s.
          let npte1 = npte0 OR (avr32_paddr_to_tlbpfn pa OR AVR32_PTE_VALID OR AVR32_PG_CACHED
                                OR AVR32_PG_SIZE_4K);
              wired = (flags AND PMAP_WIRED \<noteq> 0);
              s1 = (if wired then pmap_upd pm (\<lambda>p. p\<lparr>wired_count := wired_count p + 1\<rparr>) s else s);
              npte = (if wired then npte1 OR AVR32_PTE_WIRED else npte1);
              asid = pm_asid (pmaps s1 pm)
          in bind_r (pmap_enter_write pm va pa npte s1) (\<lambda>s.
               let s2 = (if pm_asidgen (pmaps s pm) = pmap_asid_generation s
                         then tlb_update (avr32_vaddr_to_tlbvpn va OR AVR32_PG_VALID OR asid) npte s
                         else s);
                   s3 = (if prot = (VM_PROT_READ OR VM_PROT_EXECUTE)
                         then hw_op (ICACHE_SYNC_RANGE_INDEX va NBPG) s2 else s2)
               in Ok (0, s3)))))"

definition pmap_enter :: "nat \<Rightarrow> vaddr \<Rightarrow> paddr \<Rightarrow> u32 \<Rightarrow> u32 \<Rightarrow> pmap_st \<Rightarrow> (int \<times> pmap_st) result" where
  "pmap_enter pm va pa prot flags s =
     (case PHYS_TO_VM_PAGE s pa of
        None \<Rightarrow> Panic ''pmap_enter: unmanaged page: notyet''
      | Some pg \<Rightarrow>
          let attrs = pmap_enter_attrs flags (pvh_attrs (mdpage s pg));
              s1 = md_upd pg (\<lambda>md. md\<lparr>pvh_attrs := attrs\<rparr>) s;
              npte = pte_prot pm prot OR AVR32_PG_CACHED;
              npte = (if prot AND VM_PROT_WRITE \<noteq> 0 \<and> attrs AND PV_MODIFIED \<noteq> 0
                      then npte OR AVR32_PG_DIRTY else npte)
          in if pm = pmap_kernel
             then pmap_enter_kernel va pa npte (flags AND PMAP_WIRED \<noteq> 0) pg s1
             else pmap_enter_user pm va pa prot flags npte pg s1)"

section \<open>Queries\<close>

definition pmap_extract :: "nat \<Rightarrow> vaddr \<Rightarrow> pmap_st \<Rightarrow> paddr option" where
  "pmap_extract pm va s =
     (if pm = pmap_kernel \<and> AVR32_P1_START \<le> va \<and> va < AVR32_P2_START
      then Some (AVR32_P1_TO_PHYS va)
      else case pte_get s pm va of
        None \<Rightarrow> None
      | Some pte \<Rightarrow>
          if \<not> pte_valid pte then None
          else Some (avr32_tlbpfn_to_paddr pte OR (va AND PGOFSET)))"

section \<open>Protection\<close>

text \<open>
  One page of \<open>pmap_protect\<close>. The kernel branch writes a dirty page back with
  \<open>avr32_dcache_wb_range\<close>, which is a stub that panics; its TLB tag carries no valid bit.
\<close>

definition pmap_protect_kernel_page :: "u32 \<Rightarrow> vaddr \<Rightarrow> pmap_st \<Rightarrow> pmap_st result" where
  "pmap_protect_kernel_page p sva s =
     (let entry = Sysmap s (kvtopte sva) in
      if \<not> pte_valid entry then Ok s
      else if entry AND AVR32_PG_DIRTY \<noteq> 0 then Panic ''avr32_dcache_wb_range: notyet''
      else let entry = (entry AND NOT (AVR32_PG_ACCESS OR AVR32_PG_DIRTY)) OR p;
               s1 = pte_set pmap_kernel sva entry s
           in Ok (tlb_update (avr32_vaddr_to_tlbvpn sva OR pm_asid (pmaps s pmap_kernel)) entry s1))"

definition pmap_protect_user_page :: "nat \<Rightarrow> u32 \<Rightarrow> u32 \<Rightarrow> bool \<Rightarrow> vaddr \<Rightarrow> pmap_st \<Rightarrow> pmap_st result" where
  "pmap_protect_user_page pm p asid needupdate sva s =
     (case pte_get s pm sva of None \<Rightarrow> Undef ''null page table'' | Some entry \<Rightarrow>
      if \<not> pte_valid entry then Ok s
      else let s1 = (if entry AND AVR32_PG_DIRTY \<noteq> 0
                     then hw_op (DCACHE_WBINV_RANGE_INDEX sva NBPG) s else s);
               entry = (entry AND NOT (AVR32_PG_ACCESS OR AVR32_PG_DIRTY)) OR p;
               s2 = pte_set pm sva entry s1
           in Ok (if needupdate
                  then tlb_update (avr32_vaddr_to_tlbvpn sva OR AVR32_PG_VALID OR asid) entry s2
                  else s2))"

definition pmap_protect :: "nat \<Rightarrow> vaddr \<Rightarrow> vaddr \<Rightarrow> u32 \<Rightarrow> pmap_st \<Rightarrow> pmap_st result" where
  "pmap_protect pm sva eva prot s =
     (if unat prot \<ge> 8 then Panic ''pmap_protect: impossible protection''
      else if prot AND VM_PROT_READ = 0 then pmap_remove pm sva eva s
      else if pm = pmap_kernel
      then bind_r (for_pages (pmap_protect_kernel_page (pte_prot pm prot)) sva eva s)
             (\<lambda>r. Ok (snd r))
      else if sva > VM_MAXUSER_ADDRESS then Panic ''pmap_protect: sva not in range''
      else if eva > VM_MAXUSER_ADDRESS then Panic ''pmap_protect: eva not in range''
      else for_user_segs
             (pmap_protect_user_page pm (pte_prot pm prot) (pm_asid (pmaps s pm))
                (pm_asidgen (pmaps s pm) = pmap_asid_generation s)) pm sva eva s)"

section \<open>Protection of every mapping of a page\<close>

text \<open>
  The loop of \<open>pmap_page_protect\<close> walks the pv list with a pointer into it while
  \<open>pmap_remove\<close> takes entries out of that list. The pointer is the header or a node; the
  successor of a node that has been freed is a read of freed memory.
\<close>

datatype pv_ptr = Header | Node nat

fun chain_after :: "nat \<Rightarrow> (nat \<times> pv_entry) list \<Rightarrow> (nat \<times> pv_entry) list option" where
  "chain_after n [] = None"
| "chain_after n ((m, e) # rest) = (if n = m then Some rest else chain_after n rest)"

definition pv_deref :: "vm_page_md \<Rightarrow> pv_ptr \<Rightarrow> pv_entry option" where
  "pv_deref md p = (case p of Header \<Rightarrow> Some (pvh_head md) | Node n \<Rightarrow> map_of (pvh_chain md) n)"

definition pv_next :: "vm_page_md \<Rightarrow> pv_ptr \<Rightarrow> pv_ptr option result" where
  "pv_next md p =
     (case p of
        Header \<Rightarrow> Ok (case pvh_chain md of [] \<Rightarrow> None | (n, _) # _ \<Rightarrow> Some (Node n))
      | Node n \<Rightarrow> (case chain_after n (pvh_chain md) of
                     None \<Rightarrow> Undef ''pv entry used after free''
                   | Some [] \<Rightarrow> Ok None
                   | Some ((m, _) # _) \<Rightarrow> Ok (Some (Node m))))"

fun pmap_page_protect_loop :: "nat \<Rightarrow> u32 \<Rightarrow> pv_ptr \<Rightarrow> pmap_st \<Rightarrow> pmap_st result" where
  "pmap_page_protect_loop 0 pg p s = Hang"
| "pmap_page_protect_loop (Suc fuel) pg p s =
     (case pv_deref (mdpage s pg) p of
        None \<Rightarrow> Undef ''pv entry used after free''
      | Some npv \<Rightarrow>
          (case pv_pmap npv of
             None \<Rightarrow> Undef ''null pmap in pv list''
           | Some pm \<Rightarrow> bind_r (pmap_remove pm (pv_va npv) (pv_va npv + NBPG) s) (\<lambda>s'.
               bind_r (pv_next (mdpage s' pg) p) (\<lambda>q.
                 case q of None \<Rightarrow> Ok s' | Some p' \<Rightarrow> pmap_page_protect_loop fuel pg p' s'))))"

definition pmap_page_protect :: "u32 \<Rightarrow> u32 \<Rightarrow> pmap_st \<Rightarrow> pmap_st result" where
  "pmap_page_protect pg prot s =
     (if prot = (VM_PROT_READ OR VM_PROT_WRITE)
      then Panic ''pmap_page_protect: VM_PROT_READ|VM_PROT_WRITE: notyet''
      else if prot = VM_PROT_ALL then Panic ''pmap_page_protect: VM_PROT_ALL: notyet''
      else if prot = VM_PROT_READ then Panic ''pmap_page_protect: VM_PROT_READ: notyet''
      else if prot = (VM_PROT_READ OR VM_PROT_EXECUTE)
      then Panic ''pmap_page_protect: VM_PROT_READ|VM_PROT_EXECUTE: notyet''
      else if pv_pmap (pvh_head (mdpage s pg)) = None then Ok s
      else pmap_page_protect_loop (Suc (length (pvh_chain (mdpage s pg)))) pg Header s)"

section \<open>Wired kernel mappings\<close>

definition pmap_kenter_pa :: "vaddr \<Rightarrow> paddr \<Rightarrow> u32 \<Rightarrow> pmap_st \<Rightarrow> pmap_st result" where
  "pmap_kenter_pa va pa prot s =
     (if \<not> PAGE_IS_MANAGED s pa then Panic ''pmap_kenter_pa: page not managed''
      else let npte = avr32_paddr_to_tlbpfn pa OR AVR32_PTE_VALID OR AVR32_PTE_WIRED
                        OR AVR32_PG_SIZE_4K OR AVR32_PG_GLOBAL OR AVR32_PG_CACHED;
               npte = npte OR pte_prot pmap_kernel prot;
               npte = (if prot AND VM_PROT_WRITE \<noteq> 0 then npte OR AVR32_PG_DIRTY else npte)
           in Ok (tlb_update (avr32_vaddr_to_tlbvpn va OR AVR32_PG_VALID) npte
                    (pte_set pmap_kernel va npte s)))"

definition pmap_kremove_page :: "vaddr \<Rightarrow> pmap_st \<Rightarrow> pmap_st result" where
  "pmap_kremove_page va s =
     (let entry = Sysmap s (kvtopte va) in
      if \<not> pte_valid entry then Ok s
      else bind_r (tbis (va OR AVR32_PG_VALID) entry (hw_op (DCACHE_WBINV_RANGE va NBPG) s))
             (\<lambda>s. Ok (pte_set pmap_kernel va (AVR32_PTE_INVALID OR AVR32_PG_GLOBAL) s)))"

definition pmap_kremove :: "vaddr \<Rightarrow> u32 \<Rightarrow> pmap_st \<Rightarrow> pmap_st result" where
  "pmap_kremove va len s =
     bind_r (for_pages pmap_kremove_page va (va + len) s) (\<lambda>r. Ok (snd r))"

section \<open>Modified status\<close>

fun pmap_clear_modify_loop :: "pv_entry list \<Rightarrow> pmap_st \<Rightarrow> pmap_st result" where
  "pmap_clear_modify_loop [] s = Ok s"
| "pmap_clear_modify_loop (pv # rest) s =
     (case pv_pmap pv of None \<Rightarrow> Undef ''null pmap in pv list'' | Some pm \<Rightarrow>
      let va = pv_va pv;
          asid = (if pm = pmap_kernel then 0 else pm_asid (pmaps s pm)) in
      case pte_get s pm va of None \<Rightarrow> Undef ''null page table'' | Some entry \<Rightarrow>
      if entry AND AVR32_PG_DIRTY = 0 then pmap_clear_modify_loop rest s
      else
        let s1 = hw_op (if pm = pmap_kernel \<or> pm = cur_pmap s then DCACHE_WBINV_RANGE va NBPG
                        else DCACHE_WBINV_RANGE_INDEX va NBPG) s;
            entry' = entry AND NOT AVR32_PG_DIRTY;
            s2 = pte_set pm va entry' s1
        in bind_r (if pm_asidgen (pmaps s pm) = pmap_asid_generation s
                   then tbis (va OR asid) entry' s2 else Ok s2)
             (pmap_clear_modify_loop rest))"

definition pmap_clear_modify :: "u32 \<Rightarrow> pmap_st \<Rightarrow> (bool \<times> pmap_st) result" where
  "pmap_clear_modify pg s =
     (let attrs = pvh_attrs (mdpage s pg);
          rv = (attrs AND PV_MODIFIED \<noteq> 0);
          s1 = md_upd pg (\<lambda>md. md\<lparr>pvh_attrs := attrs AND NOT PV_MODIFIED\<rparr>) s
      in if \<not> rv then Ok (False, s1)
         else if pv_pmap (pvh_head (mdpage s1 pg)) = None then Ok (True, s1)
         else bind_r (pmap_clear_modify_loop (pv_entries (mdpage s1 pg)) s1)
                (\<lambda>s. Ok (True, s)))"

definition pmap_set_modified :: "paddr \<Rightarrow> pmap_st \<Rightarrow> pmap_st result" where
  "pmap_set_modified pa s =
     (case PHYS_TO_VM_PAGE s pa of
        None \<Rightarrow> Panic ''pmap_set_modified: pg is NULL''
      | Some pg \<Rightarrow> Ok (md_upd pg
          (\<lambda>md. md\<lparr>pvh_attrs := pvh_attrs md OR (PV_MODIFIED OR PV_REFERENCED)\<rparr>) s))"

section \<open>Address space identifiers\<close>

definition pmap_asid_alloc :: "nat \<Rightarrow> pmap_st \<Rightarrow> pmap_st" where
  "pmap_asid_alloc pm s =
     (if pm_asid (pmaps s pm) = PMAP_ASID_RESERVED \<or>
         pm_asidgen (pmaps s pm) \<noteq> pmap_asid_generation s
      then let s1 = (if pmap_next_asid s = pmap_max_asid s
                     then s\<lparr>hw := avr32_tbiap (hw s),
                            pmap_asid_generation := pmap_asid_generation s + 1,
                            pmap_next_asid := 1\<rparr>
                     else s)
           in (pmap_upd pm (\<lambda>p. p\<lparr>pm_asid := pmap_next_asid s1,
                                   pm_asidgen := pmap_asid_generation s1\<rparr>) s1)
              \<lparr>pmap_next_asid := pmap_next_asid s1 + 1\<rparr>
      else s)"

text \<open>\<open>pmap_activate\<close> for the pmap of an lwp, which may be the current one.\<close>

definition pmap_activate :: "nat \<Rightarrow> bool \<Rightarrow> pmap_st \<Rightarrow> pmap_st" where
  "pmap_activate pm is_curlwp s =
     (let s1 = pmap_asid_alloc pm s in
      if is_curlwp
      then s1\<lparr>segbase := pm_segtab (pmaps s1 pm),
              hw := MachSetPID (pm_asid (pmaps s1 pm)) (hw s1)\<rparr>
      else s1)"

section \<open>Creation and destruction\<close>

definition pmap_reference :: "nat option \<Rightarrow> pmap_st \<Rightarrow> pmap_st" where
  "pmap_reference pm s =
     (case pm of None \<Rightarrow> s
      | Some pm \<Rightarrow> pmap_upd pm (\<lambda>p. p\<lparr>pm_count := pm_count p + 1\<rparr>) s)"

text \<open>
  A free segment table links to the next one through its first word, so that
  \<open>*(struct segtab **)t\<close> and \<open>t->seg_tab[0]\<close> are the same memory. A page holds two tables:
  \<open>sizeof(struct segtab)\<close> is 2048.
\<close>

definition pmap_create :: "pmap_st \<Rightarrow> (nat \<times> pmap_st) result" where
  "pmap_create s =
     (case pmap_pool s of [] \<Rightarrow> Hang
      | pm # pool \<Rightarrow>
        let s1 = (pmap_upd pm (\<lambda>_. \<lparr>pm_count = 1, resident_count = 0, wired_count = 0,
                     pm_asid = 0, pm_asidgen = 0, pm_segtab = 0\<rparr>) s)\<lparr>pmap_pool := pool\<rparr>;
            fin = (\<lambda>s. pmap_upd pm (\<lambda>p. p\<lparr>pm_asid := PMAP_ASID_RESERVED,
                                            pm_asidgen := pmap_asid_generation s\<rparr>) s)
        in if free_segtab s1 \<noteq> 0
           then let t = free_segtab s1;
                    s2 = pmap_upd pm (\<lambda>p. p\<lparr>pm_segtab := t\<rparr>) s1;
                    s3 = s2\<lparr>free_segtab := seg_mem s2 t 0\<rparr>;
                    s4 = s3\<lparr>seg_mem := (seg_mem s3)(t := (seg_mem s3 t)(0 := 0))\<rparr>
                in Ok (pm, fin s4)
           else (case uvm_pagealloc_zero s1 of
                   (None, _) \<Rightarrow> Hang
                 | (Some mem, s2) \<Rightarrow>
                     let stp = AVR32_PHYS_TO_P1 mem;
                         s3 = pmap_upd pm (\<lambda>p. p\<lparr>pm_segtab := stp\<rparr>) s2;
                         stp1 = stp + 2048;
                         s4 = s3\<lparr>seg_mem := (seg_mem s3)(stp1 := (seg_mem s3 stp1)(0 := free_segtab s3)),
                                 free_segtab := stp1\<rparr>
                     in Ok (pm, fin s4)))"

text \<open>One entry of the segment table: its page of PTEs, if any, goes back to UVM.\<close>

definition pmap_destroy_seg :: "u32 \<Rightarrow> nat \<Rightarrow> pmap_st \<Rightarrow> pmap_st" where
  "pmap_destroy_seg t i s =
     (let pte = seg_mem s t i in
      if pte = 0 then s
      else let s1 = hw_op (DCACHE_INV_RANGE pte NBPG) s
           in s1\<lparr>uvm_pages := AVR32_P1_TO_PHYS pte # uvm_pages s1,
                 seg_mem := (seg_mem s1)(t := (seg_mem s1 t)(i := 0))\<rparr>)"

definition pmap_destroy :: "nat \<Rightarrow> pmap_st \<Rightarrow> pmap_st" where
  "pmap_destroy pm s =
     (let s1 = pmap_upd pm (\<lambda>p. p\<lparr>pm_count := pm_count p - 1\<rparr>) s in
      if pm_count (pmaps s1 pm) > 0 then s1
      else
        let t = pm_segtab (pmaps s1 pm);
            s2 = (if t \<noteq> 0
                  then let s' = fold (pmap_destroy_seg t) [0..<PMAP_SEGTABSIZE] s1
                       in pmap_upd pm (\<lambda>p. p\<lparr>pm_segtab := 0\<rparr>)
                            (s'\<lparr>seg_mem := (seg_mem s')(t := (seg_mem s' t)(0 := free_segtab s')),
                                free_segtab := t\<rparr>)
                  else s1)
        in s2\<lparr>pmap_pool := pm # pmap_pool s2\<rparr>)"

end
