(* ===== verification/Pmap_Base.thy ===== *)
theory Pmap_Base
  imports Pmap
begin

text \<open>
  The lemma library under the pmap proofs: address arithmetic of the two-level page table, the
  laws of reading and writing a page table entry, the projections of the primitive updates,
  and the effect of \<open>pmap_remove_pv\<close> on the list of mappings of a page.
\<close>

section \<open>Indices\<close>


lemma unat_drop_bit32: "unat (drop_bit n (x :: u32)) = unat x div 2 ^ n"
proof -
  have "unat (drop_bit n x) = drop_bit n (unat x)" by (rule unat_drop_bit_eq)
  then show ?thesis by (simp only: drop_bit_eq_div [symmetric])
qed

lemma split_address_unique:
  fixes n m :: nat
  assumes "n div 4194304 = m div 4194304" "n div 4096 mod 1024 = m div 4096 mod 1024" "n mod 4096 = m mod 4096"
  shows "n = m"
proof -
  have "n div 4096 div 1024 = m div 4096 div 1024"
    using assms(1) by (simp add: div_mult2_eq [symmetric])
  then have "n div 4096 = m div 4096" using assms(2) by (metis div_mult_mod_eq)
  then show ?thesis using assms(3) by (metis div_mult_mod_eq)
qed

lemma seg_index_div: "seg_index va = unat va div 4194304"
  by (simp add: seg_index_def unat_drop_bit32)

lemma pte_index_div: "pte_index va = unat va div 4096 mod 1024"
proof -
  have "unat (drop_bit 12 va AND mask 10) = unat (drop_bit 12 va) mod 2 ^ 10" by (rule unat_and_mask)
  then show ?thesis by (simp add: pte_index_def unat_drop_bit32 mask_10)
qed

lemma kvtopte_div: "VM_MIN_KERNEL_ADDRESS \<le> va \<Longrightarrow> kvtopte va = (unat va - 3221225472) div 4096"
  by (simp add: kvtopte_def unat_drop_bit32 unat_sub_if_size word_le_nat_alt)

lemma seg_index_bound: "va < VM_MAXUSER_ADDRESS \<Longrightarrow> seg_index va < 512"
  by (simp add: seg_index_div word_less_nat_alt)

lemma user_slot_inj:
  assumes "page_aligned va" "page_aligned va'"
    and "seg_index va = seg_index va'" "pte_index va = pte_index va'"
  shows "va = va'"
proof -
  have m: "unat va mod 4096 = unat va' mod 4096"
    using assms(1,2) unfolding page_aligned_iff by (rule trans [OF _ sym])
  have "unat va = unat va'"
    by (rule split_address_unique [OF assms(3,4) [unfolded seg_index_div pte_index_div] m])
  then show ?thesis by (rule unsigned_word_eqI)
qed

lemma kernel_slot_inj:
  assumes "page_aligned va" "page_aligned va'"
    and "VM_MIN_KERNEL_ADDRESS \<le> va" "VM_MIN_KERNEL_ADDRESS \<le> va'" "kvtopte va = kvtopte va'"
  shows "va = va'"
proof -
  obtain k where k: "unat va = 4096 * k"
    using assms(1) unfolding page_aligned_iff by (auto simp: mod_eq_0_iff_dvd)
  obtain k' where k': "unat va' = 4096 * k'"
    using assms(2) unfolding page_aligned_iff by (auto simp: mod_eq_0_iff_dvd)
  have "(4096 * k - 3221225472) div 4096 = (4096 * k' - 3221225472) div 4096"
    using assms(3-5) by (simp add: kvtopte_div k k')
  moreover have "4096 * k - 3221225472 = 4096 * (k - 786432)" "4096 * k' - 3221225472 = 4096 * (k' - 786432)"
    by simp_all
  moreover have "786432 \<le> k" "786432 \<le> k'" using assms(3,4) by (simp_all add: word_le_nat_alt k k')
  ultimately have "unat va = unat va'" by (simp add: k k')
  then show ?thesis by (rule unsigned_word_eqI)
qed

section \<open>Reading and writing entries\<close>

text \<open>No two segments of user address spaces share a page of PTEs.\<close>

definition pt_inj :: "pmap_st \<Rightarrow> bool" where
  "pt_inj s \<longleftrightarrow>
     (\<forall>pm pm' i i'. pm \<noteq> pmap_kernel \<and> pm' \<noteq> pmap_kernel \<and>
        pm_segtab (pmaps s pm) \<noteq> 0 \<and> pm_segtab (pmaps s pm') \<noteq> 0 \<and> i < PMAP_SEGTABSIZE \<and> i' < PMAP_SEGTABSIZE \<and>
        seg_mem s (pm_segtab (pmaps s pm)) i \<noteq> 0 \<and>
        seg_mem s (pm_segtab (pmaps s pm)) i = seg_mem s (pm_segtab (pmaps s pm')) i'
        \<longrightarrow> pm = pm' \<and> i = i')"

lemma pt_injD:
  assumes "pt_inj s" "pm \<noteq> pmap_kernel" "pm' \<noteq> pmap_kernel"
    "pm_segtab (pmaps s pm) \<noteq> 0" "pm_segtab (pmaps s pm') \<noteq> 0" "i < PMAP_SEGTABSIZE" "i' < PMAP_SEGTABSIZE"
    "seg_mem s (pm_segtab (pmaps s pm)) i \<noteq> 0"
    "seg_mem s (pm_segtab (pmaps s pm)) i = seg_mem s (pm_segtab (pmaps s pm')) i'"
  shows "pm = pm' \<and> i = i'"
  using assms unfolding pt_inj_def by blast

definition va_ok :: "pmap_st \<Rightarrow> nat \<Rightarrow> vaddr \<Rightarrow> bool" where
  "va_ok s pm va \<longleftrightarrow> page_aligned va \<and>
     (if pm = pmap_kernel then VM_MIN_KERNEL_ADDRESS \<le> va
      else va < VM_MAXUSER_ADDRESS \<and> pm_segtab (pmaps s pm) \<noteq> 0)"

lemma pte_set_frame [simp]:
  "pmaps (pte_set pm va e s) = pmaps s" "seg_mem (pte_set pm va e s) = seg_mem s"
  "mdpage (pte_set pm va e s) = mdpage s" "vm_physmem (pte_set pm va e s) = vm_physmem s"
  "uvm_pages (pte_set pm va e s) = uvm_pages s" "hw (pte_set pm va e s) = hw s"
  "pmap_asid_generation (pte_set pm va e s) = pmap_asid_generation s"
  "alias_mask (pte_set pm va e s) = alias_mask s" "pv_pool (pte_set pm va e s) = pv_pool s"
  "free_segtab (pte_set pm va e s) = free_segtab s"
  "pmap_pool (pte_set pm va e s) = pmap_pool s" "pmap_next_asid (pte_set pm va e s) = pmap_next_asid s"
  "pmap_max_asid (pte_set pm va e s) = pmap_max_asid s"
  by (simp_all add: pte_set_def)

lemma pmap_segmap_cong:
  "pm_segtab (pmaps s' pm) = pm_segtab (pmaps s pm) \<Longrightarrow> seg_mem s' = seg_mem s \<Longrightarrow>
   pmap_segmap s' pm va = pmap_segmap s pm va"
  by (simp add: pmap_segmap_def)

lemma pmap_segmap_pte_set [simp]: "pmap_segmap (pte_set pm' va' e s) pm va = pmap_segmap s pm va"
  by (rule pmap_segmap_cong) simp_all

lemma pte_get_set_same:
  assumes "pte_get s pm va \<noteq> None"
  shows "pte_get (pte_set pm va e s) pm va = Some e"
  using assms by (auto simp: pte_get_def pte_set_def split: if_splits)
     (simp_all add: pmap_segmap_def)

lemma pte_get_set_other:
  assumes "pt_inj s" "va_ok s pm va" "va_ok s pm' va'" "(pm, va) \<noteq> (pm', va')"
  shows "pte_get (pte_set pm va e s) pm' va' = pte_get s pm' va'"
proof (cases "pm = pmap_kernel \<or> pm' = pmap_kernel")
  case True
  then show ?thesis using assms
    by (auto simp: pte_get_def pte_set_def va_ok_def pmap_segmap_def dest: kernel_slot_inj)
next
  case False
  have "\<not> (pmap_segmap s pm' va' \<noteq> 0 \<and> pmap_segmap s pm va = pmap_segmap s pm' va' \<and>
           pte_index va = pte_index va')"
  proof
    assume a: "pmap_segmap s pm' va' \<noteq> 0 \<and> pmap_segmap s pm va = pmap_segmap s pm' va' \<and>
           pte_index va = pte_index va'"
    then have "pm = pm' \<and> seg_index va = seg_index va'"
      using pt_injD [OF assms(1), of pm pm' "seg_index va" "seg_index va'"] assms(2,3) False
      by (simp add: va_ok_def pmap_segmap_def seg_index_bound)
    with a assms(2-4) False show False by (auto simp: va_ok_def dest: user_slot_inj)
  qed
  then show ?thesis using False
    by (auto simp: pte_get_def pte_set_def) (simp_all add: pmap_segmap_def)
qed


section \<open>pv lists\<close>

definition pv_pairs :: "vm_page_md \<Rightarrow> (nat \<times> vaddr) list" where
  "pv_pairs md = (if pv_pmap (pvh_head md) = None then []
                  else map (\<lambda>e. (the (pv_pmap e), pv_va e)) (pv_entries md))"

definition md_wf :: "vm_page_md \<Rightarrow> bool" where
  "md_wf md \<longleftrightarrow> (pv_pmap (pvh_head md) = None \<longrightarrow> pvh_chain md = []) \<and>
     (\<forall>e \<in> snd ` set (pvh_chain md). pv_pmap e \<noteq> None)"

lemma pv_chain_remove_pairs:
  "\<forall>e \<in> snd ` set ch. pv_pmap e \<noteq> None \<Longrightarrow>
   map (\<lambda>e. (the (pv_pmap e), pv_va e)) (map snd (fst (pv_chain_remove pm va ch))) =
   remove1 (pm, va) (map (\<lambda>e. (the (pv_pmap e), pv_va e)) (map snd ch))"
  by (induction pm va ch rule: pv_chain_remove.induct) (auto split: prod.splits)

lemma pv_chain_remove_subset: "set (fst (pv_chain_remove pm va ch)) \<subseteq> set ch"
  by (induction pm va ch rule: pv_chain_remove.induct) (auto split: prod.splits)

lemma md_upd_proj [simp]:
  "mdpage (md_upd pg f s) = (mdpage s)(pg := f (mdpage s pg))"
  "pmaps (md_upd pg f s) = pmaps s" "seg_mem (md_upd pg f s) = seg_mem s"
  "pte_mem (md_upd pg f s) = pte_mem s" "Sysmap (md_upd pg f s) = Sysmap s"
  "vm_physmem (md_upd pg f s) = vm_physmem s" "uvm_pages (md_upd pg f s) = uvm_pages s"
  "hw (md_upd pg f s) = hw s" "pmap_asid_generation (md_upd pg f s) = pmap_asid_generation s"
  "alias_mask (md_upd pg f s) = alias_mask s" "pv_pool (md_upd pg f s) = pv_pool s"
  "free_segtab (md_upd pg f s) = free_segtab s"
  "pmap_pool (md_upd pg f s) = pmap_pool s" "pmap_next_asid (md_upd pg f s) = pmap_next_asid s"
  "pmap_max_asid (md_upd pg f s) = pmap_max_asid s"
  by (simp_all add: md_upd_def)

lemma hw_op_proj [simp]:
  "mdpage (hw_op op s) = mdpage s"
  "pmaps (hw_op op s) = pmaps s" "seg_mem (hw_op op s) = seg_mem s"
  "pte_mem (hw_op op s) = pte_mem s" "Sysmap (hw_op op s) = Sysmap s"
  "vm_physmem (hw_op op s) = vm_physmem s" "uvm_pages (hw_op op s) = uvm_pages s"
  "hw (hw_op op s) = op # hw s" "pmap_asid_generation (hw_op op s) = pmap_asid_generation s"
  "alias_mask (hw_op op s) = alias_mask s" "pv_pool (hw_op op s) = pv_pool s"
  "free_segtab (hw_op op s) = free_segtab s"
  "pmap_pool (hw_op op s) = pmap_pool s" "pmap_next_asid (hw_op op s) = pmap_next_asid s"
  "pmap_max_asid (hw_op op s) = pmap_max_asid s"
  by (simp_all add: hw_op_def)

lemma pmap_upd_proj [simp]:
  "mdpage (pmap_upd pm f s) = mdpage s"
  "pmaps (pmap_upd pm f s) = (pmaps s)(pm := f (pmaps s pm))" "seg_mem (pmap_upd pm f s) = seg_mem s"
  "pte_mem (pmap_upd pm f s) = pte_mem s" "Sysmap (pmap_upd pm f s) = Sysmap s"
  "vm_physmem (pmap_upd pm f s) = vm_physmem s" "uvm_pages (pmap_upd pm f s) = uvm_pages s"
  "hw (pmap_upd pm f s) = hw s" "pmap_asid_generation (pmap_upd pm f s) = pmap_asid_generation s"
  "alias_mask (pmap_upd pm f s) = alias_mask s" "pv_pool (pmap_upd pm f s) = pv_pool s"
  "free_segtab (pmap_upd pm f s) = free_segtab s"
  "pmap_pool (pmap_upd pm f s) = pmap_pool s" "pmap_next_asid (pmap_upd pm f s) = pmap_next_asid s"
  "pmap_max_asid (pmap_upd pm f s) = pmap_max_asid s"
  by (simp_all add: pmap_upd_def)

lemma pmap_remove_pv_proj [simp]:
  "pmaps (pmap_remove_pv pm va pg s) = pmaps s" "seg_mem (pmap_remove_pv pm va pg s) = seg_mem s"
  "pte_mem (pmap_remove_pv pm va pg s) = pte_mem s" "Sysmap (pmap_remove_pv pm va pg s) = Sysmap s"
  "vm_physmem (pmap_remove_pv pm va pg s) = vm_physmem s" "uvm_pages (pmap_remove_pv pm va pg s) = uvm_pages s"
  "pmap_asid_generation (pmap_remove_pv pm va pg s) = pmap_asid_generation s"
  "alias_mask (pmap_remove_pv pm va pg s) = alias_mask s"
  "free_segtab (pmap_remove_pv pm va pg s) = free_segtab s"
  "pmap_pool (pmap_remove_pv pm va pg s) = pmap_pool s" "pmap_next_asid (pmap_remove_pv pm va pg s) = pmap_next_asid s"
  "pmap_max_asid (pmap_remove_pv pm va pg s) = pmap_max_asid s"
  by (auto simp: pmap_remove_pv_def Let_def split: list.splits prod.splits)

lemma pmap_remove_pv_other [simp]:
  "pg' \<noteq> pg \<Longrightarrow> mdpage (pmap_remove_pv pm va pg s) pg' = mdpage s pg'"
  by (auto simp: pmap_remove_pv_def Let_def split: list.splits prod.splits)

lemma pmap_remove_pv_pairs:
  assumes "md_wf (mdpage s pg)"
  shows "pv_pairs (mdpage (pmap_remove_pv pm va pg s) pg) = remove1 (pm, va) (pv_pairs (mdpage s pg))"
    and "md_wf (mdpage (pmap_remove_pv pm va pg s) pg)"
proof -
  let ?md = "mdpage s pg"
  show "pv_pairs (mdpage (pmap_remove_pv pm va pg s) pg) = remove1 (pm, va) (pv_pairs ?md)"
  proof (cases "pv_pmap (pvh_head ?md) = Some pm \<and> pv_va (pvh_head ?md) = va")
    case True
    then show ?thesis using assms
      by (auto simp: pmap_remove_pv_def Let_def pv_pairs_def pv_entries_def md_wf_def split: list.splits)
  next
    case False
    then have md': "mdpage (pmap_remove_pv pm va pg s) pg =
        ?md\<lparr>pvh_chain := fst (pv_chain_remove pm va (pvh_chain ?md))\<rparr>"
      by (auto simp: pmap_remove_pv_def Let_def case_prod_beta)
    have "\<forall>e \<in> snd ` set (pvh_chain ?md). pv_pmap e \<noteq> None" using assms by (simp add: md_wf_def)
    from pv_chain_remove_pairs [OF this, of pm va] False show ?thesis
      unfolding md' by (auto simp: pv_pairs_def pv_entries_def)
  qed
  show "md_wf (mdpage (pmap_remove_pv pm va pg s) pg)"
    using assms pv_chain_remove_subset [of pm va "pvh_chain ?md"]
    by (auto simp: pmap_remove_pv_def Let_def md_wf_def split: list.splits prod.splits)
qed

end
