(* ===== verification/Pmap_Inv.thy ===== *)
theory Pmap_Inv
  imports Pmap_Base
begin

text \<open>
  The invariant of the pmap module and its preservation by removal and protection.
  \<open>pmap_inv\<close> says that no two user segments share a page of PTEs (\<open>pt_inj\<close>), that the pv list
  of every page names exactly the valid user entries that map the page, without repetition
  (\<open>pv_inv\<close>), and that \<open>resident_count\<close> is the number of valid entries (\<open>res_inv\<close>). The locale
  \<open>page_op\<close> is the contract of a loop body that rewrites one entry; its range lemmas are proved
  once and interpreted for removal and for protection.
\<close>

section \<open>Invariant\<close>


definition mapped :: "pmap_st \<Rightarrow> nat \<Rightarrow> vaddr \<Rightarrow> u32 \<Rightarrow> bool" where
  "mapped s pm va e \<longleftrightarrow> va_ok s pm va \<and> pte_get s pm va = Some e \<and> pte_valid e"

definition pv_inv :: "pmap_st \<Rightarrow> bool" where
  "pv_inv s \<longleftrightarrow>
     (\<forall>pg. md_wf (mdpage s pg) \<and> distinct (pv_pairs (mdpage s pg))) \<and>
     (\<forall>pg pm va. pm \<noteq> pmap_kernel \<longrightarrow>
        ((pm, va) \<in> set (pv_pairs (mdpage s pg)) \<longleftrightarrow>
         (\<exists>e. mapped s pm va e \<and> PHYS_TO_VM_PAGE s (avr32_tlbpfn_to_paddr e) = Some pg)))"

definition resident_pages :: "pmap_st \<Rightarrow> nat \<Rightarrow> vaddr set" where
  "resident_pages s pm = {va. \<exists>e. mapped s pm va e}"

definition res_inv :: "pmap_st \<Rightarrow> bool" where
  "res_inv s \<longleftrightarrow> (\<forall>pm. pm \<noteq> pmap_kernel \<and> pm_segtab (pmaps s pm) \<noteq> 0 \<longrightarrow>
     resident_count (pmaps s pm) = int (card (resident_pages s pm)))"

definition pmap_inv :: "pmap_st \<Rightarrow> bool" where
  "pmap_inv s \<longleftrightarrow> pt_inj s \<and> pv_inv s \<and> res_inv s"

definition same_env :: "pmap_st \<Rightarrow> pmap_st \<Rightarrow> bool" where
  "same_env s s' \<longleftrightarrow> seg_mem s' = seg_mem s \<and> vm_physmem s' = vm_physmem s \<and>
     pmap_asid_generation s' = pmap_asid_generation s \<and> alias_mask s' = alias_mask s \<and>
     uvm_pages s' = uvm_pages s \<and> free_segtab s' = free_segtab s \<and>
     pmap_pool s' = pmap_pool s \<and> pmap_next_asid s' = pmap_next_asid s \<and> pmap_max_asid s' = pmap_max_asid s \<and>
     (\<forall>pm. pm_segtab (pmaps s' pm) = pm_segtab (pmaps s pm) \<and>
           pm_asid (pmaps s' pm) = pm_asid (pmaps s pm) \<and>
           pm_asidgen (pmaps s' pm) = pm_asidgen (pmaps s pm) \<and>
           pm_count (pmaps s' pm) = pm_count (pmaps s pm))"

lemma same_env_refl [simp]: "same_env s s"
  by (simp add: same_env_def)

lemma same_env_trans [trans]: "same_env s t \<Longrightarrow> same_env t u \<Longrightarrow> same_env s u"
  by (simp add: same_env_def)

lemma same_envD:
  assumes "same_env s s'"
  shows "va_ok s' pm va = va_ok s pm va" "pmap_segmap s' pm va = pmap_segmap s pm va"
    "pt_inj s' = pt_inj s" "PHYS_TO_VM_PAGE s' pa = PHYS_TO_VM_PAGE s pa"
    "PAGE_IS_MANAGED s' pa = (pmap_initialized s' \<and> vm_physseg_find (vm_physmem s) (atop pa) \<noteq> None)"
  using assms
  by (simp_all add: same_env_def va_ok_def pmap_segmap_def pt_inj_def PHYS_TO_VM_PAGE_def PAGE_IS_MANAGED_def)

lemma pte_get_None_iff: "pte_get s pm va = None \<longleftrightarrow> pm \<noteq> pmap_kernel \<and> pmap_segmap s pm va = 0"
  by (simp add: pte_get_def)

definition cleared :: "u32 option \<Rightarrow> u32 option" where
  "cleared x = (case x of Some e \<Rightarrow> Some (if pte_valid e then 0 else e) | None \<Rightarrow> None)"

lemma cleared_idem [simp]: "cleared (cleared x) = cleared x"
  by (simp add: cleared_def split: option.splits)

text \<open>
  \<open>updates f s pm V s'\<close>: from \<open>s\<close> to \<open>s'\<close> exactly the entries of \<open>pm\<close> at the addresses of \<open>V\<close>
  changed, by \<open>f\<close>; tables, ASIDs, reference counts and allocators are as they were.
\<close>

definition updates :: "(u32 option \<Rightarrow> u32 option) \<Rightarrow> pmap_st \<Rightarrow> nat \<Rightarrow> vaddr set \<Rightarrow> pmap_st \<Rightarrow> bool" where
  "updates f s pm V s' \<longleftrightarrow> same_env s s' \<and>
     (\<forall>pm' va'. va_ok s pm' va' \<longrightarrow>
        pte_get s' pm' va' = (if pm' = pm \<and> va' \<in> V then f (pte_get s pm' va') else pte_get s pm' va'))"

lemma updates_refl: "updates f s pm {} s"
  by (simp add: updates_def)

lemma updates_env: "updates f s pm V s' \<Longrightarrow> same_env s s'"
  by (simp add: updates_def)

lemma updatesD:
  "updates f s pm V s' \<Longrightarrow> va_ok s pm' va' \<Longrightarrow>
   pte_get s' pm' va' = (if pm' = pm \<and> va' \<in> V then f (pte_get s pm' va') else pte_get s pm' va')"
  by (simp add: updates_def)

lemma updates_trans:
  assumes A: "updates f s pm V t" and B: "updates f t pm W u" and idem: "\<And>x. f (f x) = f x"
  shows "updates f s pm (V \<union> W) u"
proof -
  have "va_ok t pm' va' = va_ok s pm' va'" for pm' va'
    by (rule same_envD(1) [OF updates_env [OF A]])
  then have "pte_get u pm' va' = (if pm' = pm \<and> va' \<in> V \<union> W then f (pte_get s pm' va') else pte_get s pm' va')"
    if "va_ok s pm' va'" for pm' va'
    using updatesD [OF A that] updatesD [OF B, of pm' va'] that idem by (auto split: if_splits)
  with same_env_trans [OF updates_env [OF A] updates_env [OF B]] show ?thesis
    by (simp add: updates_def)
qed

lemma updates_cong:
  assumes "updates f s pm V s'" and "\<And>va. page_aligned va \<Longrightarrow> va \<in> V \<longleftrightarrow> va \<in> W"
  shows "updates f s pm W s'"
  using assms by (auto simp: updates_def va_ok_def)

lemma tbis_ok:
  "tbis (x OR AVR32_PG_VALID) 260 s = Ok (s\<lparr>hw := TLB_INVAL (x OR AVR32_PG_VALID) # hw s\<rparr>)"
proof -
  have "(x OR AVR32_PG_VALID) AND AVR32_PG_VALID \<noteq> 0" by (simp add: and_or_distrib_left)
  then show ?thesis by (simp add: tbis_def avr32_tbis_def)
qed

lemma pte_get_upds [simp]:
  "pm_segtab (f (pmaps s pm)) = pm_segtab (pmaps s pm) \<Longrightarrow> pte_get (pmap_upd pm f s) pm' va = pte_get s pm' va"
  "pte_get (md_upd pg g s) pm' va = pte_get s pm' va"
  "pte_get (hw_op op s) pm' va = pte_get s pm' va"
  "pte_get (pmap_remove_pv pm va' pg s) pm' va = pte_get s pm' va"
  "pte_get (s\<lparr>hw := h\<rparr>) pm' va = pte_get s pm' va"
  "pte_get (s\<lparr>pv_pool := pl\<rparr>) pm' va = pte_get s pm' va"
  by (simp_all add: pte_get_def pmap_segmap_def)

lemma drop_entry_env: "same_env s (pmap_drop_entry pm va e s)"
  by (auto simp: pmap_drop_entry_def Let_def same_env_def split: option.splits)

lemma drop_entry_get:
  assumes "pt_inj s" "va_ok s pm va" "pte_get s pm va \<noteq> None" "va_ok s pm' va'"
  shows "pte_get (pmap_drop_entry pm va e s) pm' va' =
         (if pm' = pm \<and> va' = va then Some 0 else pte_get s pm' va')"
proof -
  obtain s3 where s3: "pmap_drop_entry pm va e s = pte_set pm va 0 s3" "same_env s s3"
    "\<And>pm' va'. pte_get s3 pm' va' = pte_get s pm' va'"
  proof
    let ?s1 = "if e AND AVR32_PTE_WIRED \<noteq> 0
               then pmap_upd pm (\<lambda>p. p\<lparr>wired_count := wired_count p - 1\<rparr>) s else s"
    let ?s2 = "pmap_upd pm (\<lambda>p. p\<lparr>resident_count := resident_count p - 1\<rparr>) ?s1"
    let ?s3 = "case PHYS_TO_VM_PAGE ?s2 (avr32_tlbpfn_to_paddr e) of
                 Some pg \<Rightarrow> pmap_remove_pv pm va pg ?s2 | None \<Rightarrow> ?s2"
    show "pmap_drop_entry pm va e s = pte_set pm va 0 ?s3"
      unfolding pmap_drop_entry_def Let_def ..
    show "same_env s ?s3" by (auto simp: same_env_def split: option.splits)
    show "pte_get ?s3 pm' va' = pte_get s pm' va'" for pm' va' by (auto split: option.splits)
  qed
  have "pt_inj s3" "va_ok s3 pm va" "va_ok s3 pm' va'"
    using assms by (simp_all add: same_envD [OF s3(2)])
  then show ?thesis
    using pte_get_set_other [of s3 pm va pm' va' 0] pte_get_set_same [of s3 pm va 0] assms(3)
    by (auto simp: s3(1,3))
qed

lemma remove_page_eq:
  "pte_get s pm va = Some e \<Longrightarrow>
   pmap_remove_page pm asid nf va s =
     Ok (if \<not> pte_valid e then s
         else if nf then (pmap_drop_entry pm va e s)
                \<lparr>hw := TLB_INVAL ((va OR asid) OR AVR32_PG_VALID) # hw (pmap_drop_entry pm va e s)\<rparr>
         else pmap_drop_entry pm va e s)"
  by (simp add: pmap_remove_page_def tbis_ok)

lemma remove_page_updates:
  assumes "pt_inj s" "va_ok s pm va" "pte_get s pm va \<noteq> None"
    and "pmap_remove_page pm asid nf va s = Ok s'"
  shows "updates cleared s pm {va} s'"
proof -
  obtain e where e: "pte_get s pm va = Some e" using assms(3) by blast
  have "same_env s s'"
    using assms(4) drop_entry_env [of s pm va e] by (auto simp: remove_page_eq [OF e] same_env_def split: if_splits)
  moreover have "pte_get s' pm' va' = (if pm' = pm \<and> va' = va then cleared (pte_get s pm' va') else pte_get s pm' va')"
    if "va_ok s pm' va'" for pm' va'
    using assms(4) drop_entry_get [OF assms(1-3) that, of e] e
    by (auto simp: remove_page_eq [OF e] cleared_def split: if_splits)
  ultimately show ?thesis by (auto simp: updates_def)
qed


lemma pmap_remove_pv_wf: "md_wf (mdpage s pg) \<Longrightarrow> md_wf (mdpage (pmap_remove_pv pm va pg' s) pg)"
  by (cases "pg = pg'") (simp_all add: pmap_remove_pv_pairs(2))

lemma drop_entry_md:
  assumes "md_wf (mdpage s pg)"
  shows "pv_pairs (mdpage (pmap_drop_entry pm va e s) pg) =
     (if PHYS_TO_VM_PAGE s (avr32_tlbpfn_to_paddr e) = Some pg then remove1 (pm, va) (pv_pairs (mdpage s pg))
      else pv_pairs (mdpage s pg))"
    and "md_wf (mdpage (pmap_drop_entry pm va e s) pg)"
proof -
  have phys: "PHYS_TO_VM_PAGE (pmap_upd pm f t) = PHYS_TO_VM_PAGE t" for f t
    by (rule ext) (simp add: PHYS_TO_VM_PAGE_def)
  show "pv_pairs (mdpage (pmap_drop_entry pm va e s) pg) =
     (if PHYS_TO_VM_PAGE s (avr32_tlbpfn_to_paddr e) = Some pg then remove1 (pm, va) (pv_pairs (mdpage s pg))
      else pv_pairs (mdpage s pg))"
    using assms by (auto simp: pmap_drop_entry_def Let_def phys pmap_remove_pv_pairs split: option.splits)
  show "md_wf (mdpage (pmap_drop_entry pm va e s) pg)"
    using assms by (auto simp: pmap_drop_entry_def Let_def phys pmap_remove_pv_wf split: option.splits)
qed

lemma drop_entry_mapped:
  assumes "pt_inj s" "mapped s pm va e"
  shows "mapped (pmap_drop_entry pm va e s) pm' va' e' \<longleftrightarrow> mapped s pm' va' e' \<and> (pm', va') \<noteq> (pm, va)"
  using assms drop_entry_get [OF assms(1), of pm va pm' va' e]
  by (auto simp: mapped_def same_envD [OF drop_entry_env])

lemma pv_invD:
  assumes "pv_inv s" "pm \<noteq> pmap_kernel"
  shows "(pm, va) \<in> set (pv_pairs (mdpage s pg)) \<longleftrightarrow>
         (\<exists>e. mapped s pm va e \<and> PHYS_TO_VM_PAGE s (avr32_tlbpfn_to_paddr e) = Some pg)"
  using assms unfolding pv_inv_def by blast

lemma mapped_unique: "mapped s pm va e \<Longrightarrow> mapped s pm va e' \<Longrightarrow> e' = e"
  by (simp add: mapped_def)

lemma drop_entry_pv_inv:
  assumes inj: "pt_inj s" and inv: "pv_inv s" and m: "mapped s pm va e"
  shows "pv_inv (pmap_drop_entry pm va e s)"
proof -
  let ?s' = "pmap_drop_entry pm va e s"
  have wf: "md_wf (mdpage s pg)" "distinct (pv_pairs (mdpage s pg))" for pg
    using inv by (simp_all add: pv_inv_def)
  have set': "set (pv_pairs (mdpage ?s' pg)) =
      (if PHYS_TO_VM_PAGE s (avr32_tlbpfn_to_paddr e) = Some pg then set (pv_pairs (mdpage s pg)) - {(pm, va)}
       else set (pv_pairs (mdpage s pg)))" for pg
    using wf by (simp add: drop_entry_md)
  have phys: "PHYS_TO_VM_PAGE ?s' pa = PHYS_TO_VM_PAGE s pa" for pa
    by (rule same_envD(4) [OF drop_entry_env])
  have "(pm', va') \<in> set (pv_pairs (mdpage ?s' pg)) \<longleftrightarrow>
        (\<exists>e'. mapped ?s' pm' va' e' \<and> PHYS_TO_VM_PAGE ?s' (avr32_tlbpfn_to_paddr e') = Some pg)"
    if "pm' \<noteq> pmap_kernel" for pm' va' pg
  proof (cases "(pm', va') = (pm, va)")
    case True
    have "(pm, va) \<notin> set (pv_pairs (mdpage ?s' pg))"
      using pv_invD [OF inv, of pm va pg] that True m by (auto simp: set' dest: mapped_unique)
    then show ?thesis using True by (simp add: drop_entry_mapped [OF inj m])
  next
    case False
    then show ?thesis
      using pv_invD [OF inv that, of va' pg] by (auto simp: set' drop_entry_mapped [OF inj m] phys)
  qed
  then show ?thesis using wf by (simp add: pv_inv_def drop_entry_md)
qed

lemma drop_entry_resident:
  "resident_count (pmaps (pmap_drop_entry pm va e s) pm') =
   resident_count (pmaps s pm') - (if pm' = pm then 1 else 0)"
  by (auto simp: pmap_drop_entry_def Let_def split: option.splits)

lemma finite_resident [simp]: "finite (resident_pages s pm)"
  by (rule finite_subset [of _ UNIV]) simp_all

lemma drop_entry_res_inv:
  assumes inj: "pt_inj s" and inv: "res_inv s" and m: "mapped s pm va e"
  shows "res_inv (pmap_drop_entry pm va e s)"
proof -
  have pages: "resident_pages (pmap_drop_entry pm va e s) pm' =
      (if pm' = pm then resident_pages s pm' - {va} else resident_pages s pm')" for pm'
    by (auto simp: resident_pages_def drop_entry_mapped [OF inj m])
  have va: "va \<in> resident_pages s pm" using m by (auto simp: resident_pages_def)
  have card: "int (card (resident_pages s pm - {va})) = int (card (resident_pages s pm)) - 1"
    using va card_gt_0_iff [of "resident_pages s pm"] by (subst card_Diff_singleton) auto
  have "pm_segtab (pmaps (pmap_drop_entry pm va e s) pm') = pm_segtab (pmaps s pm')" for pm'
    using drop_entry_env [of s pm va e] by (simp add: same_env_def)
  then show ?thesis
    using inv by (auto simp: res_inv_def pages drop_entry_resident card)
qed

lemma pmap_inv_hw [simp]: "pmap_inv (t\<lparr>hw := h\<rparr>) = pmap_inv t"
  by (simp add: pmap_inv_def pt_inj_def pv_inv_def res_inv_def mapped_def va_ok_def
      resident_pages_def PHYS_TO_VM_PAGE_def)

lemma remove_page_inv:
  assumes "pmap_inv s" "va_ok s pm va" "pte_get s pm va \<noteq> None"
    and r: "pmap_remove_page pm asid nf va s = Ok s'"
  shows "pmap_inv s'"
proof -
  obtain e where e: "pte_get s pm va = Some e" using assms(3) by blast
  have "pmap_inv (pmap_drop_entry pm va e s)" if "pte_valid e"
  proof -
    have "mapped s pm va e" using that e assms(2) by (simp add: mapped_def)
    then show ?thesis
      using assms(1) drop_entry_pv_inv drop_entry_res_inv
      by (simp add: pmap_inv_def same_envD [OF drop_entry_env])
  qed
  then show ?thesis using r assms(1) by (auto simp: remove_page_eq [OF e] pmap_inv_hw split: if_splits)
qed


section \<open>Ranges\<close>

lemma aligned_step:
  assumes "page_aligned x" "page_aligned y" "x < y"
  shows "\<not> x + 4096 < x" "x + 4096 \<le> y" "page_aligned (x + 4096)" "unat (x + 4096) = unat x + 4096"
proof -
  obtain a where a: "unat x = 4096 * a" using assms(1) unfolding page_aligned_iff by (auto simp: mod_eq_0_iff_dvd)
  obtain b where b: "unat y = 4096 * b" using assms(2) unfolding page_aligned_iff by (auto simp: mod_eq_0_iff_dvd)
  have "a < b" using assms(3) by (simp add: word_less_nat_alt a b)
  moreover have "b < 1048576" using unat_bound32 [of y] by (simp add: b)
  ultimately have u: "unat (x + 4096) = 4096 * (a + 1)" by (simp add: unat_word_ariths a)
  show "\<not> x + 4096 < x" using u by (simp add: word_less_nat_alt a)
  show "x + 4096 \<le> y" using u \<open>a < b\<close> by (simp add: word_le_nat_alt b)
  show "page_aligned (x + 4096)" unfolding page_aligned_iff u by simp
  show "unat (x + 4096) = unat x + 4096" using u a by simp
qed

lemma aligned_less_step:
  assumes "page_aligned va" "page_aligned x" "page_aligned y" "x < y"
  shows "va < x + 4096 \<longleftrightarrow> va < x \<or> va = x"
proof -
  obtain a where a: "unat x = 4096 * a" using assms(2) unfolding page_aligned_iff by (auto simp: mod_eq_0_iff_dvd)
  obtain c where c: "unat va = 4096 * c" using assms(1) unfolding page_aligned_iff by (auto simp: mod_eq_0_iff_dvd)
  have "unat (x + 4096) = 4096 * (a + 1)" using aligned_step(4) [OF assms(2-4)] a by simp
  moreover have "va = x \<longleftrightarrow> unat va = unat x" by (simp add: word_unat_eq_iff)
  ultimately show ?thesis by (auto simp: word_less_nat_alt a c)
qed

lemma seg_limit_le: "sva < eva \<Longrightarrow> seg_limit sva eva \<le> eva"
  by (auto simp: seg_limit_def Let_def)

lemma unat_next_seg:
  "unat (avr32_trunc_seg sva + NBSEG) = (unat sva div 4194304 + 1) * 4194304 mod 4294967296"
proof -
  have "unat (avr32_trunc_seg sva + NBSEG) = (unat sva div 4194304 * 4194304 + 4194304) mod 4294967296"
    by (simp add: unat_word_ariths unat_trunc_seg)
  also have "unat sva div 4194304 * 4194304 + 4194304 = (unat sva div 4194304 + 1) * 4194304"
    by (simp only: add_mult_distrib mult_1)
  finally show ?thesis .
qed

lemma seg_limit_aligned:
  assumes "page_aligned eva"
  shows "page_aligned (seg_limit sva eva)"
proof -
  have "(4096 :: nat) dvd (unat sva div 4194304 + 1) * 4194304 mod 4294967296"
    by (intro dvd_mod dvd_mult) simp_all
  then have "page_aligned (avr32_trunc_seg sva + NBSEG)"
    unfolding page_aligned_iff unat_next_seg by (simp only: mod_eq_0_iff_dvd)
  then show ?thesis using assms by (auto simp: seg_limit_def Let_def)
qed

lemma seg_index_seg_limit:
  assumes "sva < eva" "sva \<le> va" "va < seg_limit sva eva"
  shows "seg_index va = seg_index sva"
proof -
  define q where "q = unat sva div 4194304"
  have q: "q \<le> 1023" "q * 4194304 \<le> unat sva"
    using unat_bound32 [of sva] by (auto simp: q_def)
  have n: "unat (avr32_trunc_seg sva + NBSEG) = (q + 1) * 4194304 mod 4294967296"
    unfolding q_def by (rule unat_next_seg)
  have "unat va < (q + 1) * 4194304"
  proof (cases "avr32_trunc_seg sva + NBSEG = 0")
    case True
    then have "(q + 1) * 4194304 mod 4294967296 = 0" using n by simp
    then have "q = 1023" using q(1) by (cases "q = 1023") simp_all
    then show ?thesis using unat_bound32 [of va] by simp
  next
    case False
    then have "va < avr32_trunc_seg sva + NBSEG"
      using assms(3) by (auto simp: seg_limit_def Let_def split: if_splits)
    then have "unat va < (q + 1) * 4194304 mod 4294967296" by (simp add: word_less_nat_alt n)
    also have "\<dots> \<le> (q + 1) * 4194304" by (rule mod_less_eq_dividend)
    finally show ?thesis .
  qed
  moreover have "q * 4194304 \<le> unat va"
    using q(2) assms(2) by (simp add: word_le_nat_alt)
  ultimately have "unat va div 4194304 = q" by (intro div_nat_eqI) (simp_all add: algebra_simps)
  then show ?thesis by (simp add: seg_index_div q_def)
qed

locale page_op =
  fixes body :: "u32 \<Rightarrow> pmap_st \<Rightarrow> pmap_st result"
    and pm :: nat
    and f :: "u32 option \<Rightarrow> u32 option"
    and I :: "pmap_st \<Rightarrow> bool"
  assumes f_idem: "f (f x) = f x"
    and f_None: "f None = None"
    and body_ok: "I s \<Longrightarrow> va_ok s pm va \<Longrightarrow> pte_get s pm va \<noteq> None \<Longrightarrow>
                  \<exists>s'. body va s = Ok s' \<and> I s' \<and> updates f s pm {va} s'"
begin

lemma pages:
  assumes "I s" "page_aligned sva" "page_aligned eva" "sva \<le> eva"
    and tab: "\<And>va. page_aligned va \<Longrightarrow> sva \<le> va \<Longrightarrow> va < eva \<Longrightarrow> va_ok s pm va \<and> pte_get s pm va \<noteq> None"
  shows "\<exists>s'. for_pages body sva eva s = Ok (eva, s') \<and> I s' \<and> updates f s pm {va. sva \<le> va \<and> va < eva} s'"
proof -
  let ?P = "\<lambda>x t. page_aligned x \<and> sva \<le> x \<and> x \<le> eva \<and> I t \<and> updates f s pm {va. sva \<le> va \<and> va < x} t"
  have init: "?P sva s"
    using assms(1,2,4) by (auto intro: updates_cong [OF updates_refl])
  have step: "\<exists>t'. body x t = Ok t' \<and> \<not> x + 4096 < x \<and> ?P (x + 4096) t'" if P: "?P x t" and x: "x < eva" for x t
  proof -
    have env: "same_env s t" using P by (blast intro: updates_env)
    have ok: "va_ok s pm x" "pte_get s pm x \<noteq> None" using tab [of x] P x by auto
    then have "va_ok t pm x" "pte_get t pm x \<noteq> None"
      by (simp_all add: same_envD(1,2) [OF env] pte_get_None_iff)
    with body_ok P obtain t' where t': "body x t = Ok t'" "I t'" "updates f t pm {x} t'" by blast
    have "updates f s pm ({va. sva \<le> va \<and> va < x} \<union> {x}) t'"
      using updates_trans [OF _ t'(3) f_idem] P by blast
    then have "updates f s pm {va. sva \<le> va \<and> va < x + 4096} t'"
      by (rule updates_cong) (use P aligned_less_step [OF _ _ assms(3) x] in auto)
    moreover have "sva \<le> x + 4096"
      using P aligned_step(1) [OF _ assms(3) x] by auto
    ultimately show ?thesis
      using t' P aligned_step [OF _ assms(3) x] by auto
  qed
  have "\<exists>v s'. for_pages body sva eva s = Ok (v, s') \<and> ?P v s' \<and> \<not> v < eva"
    by (rule for_pages_ok [of ?P, OF init]) (rule step)
  then obtain v s' where r: "for_pages body sva eva s = Ok (v, s') \<and> ?P v s' \<and> \<not> v < eva"
    by (elim exE)
  then have "v = eva" by (meson linorder_not_less order_antisym)
  with r show ?thesis by (intro exI [of _ s']) simp
qed

lemma user_range:
  assumes "I s" "pm \<noteq> pmap_kernel" "pm_segtab (pmaps s pm) \<noteq> 0"
    and "page_aligned sva" "page_aligned eva" "eva \<le> VM_MAXUSER_ADDRESS" "sva \<le> eva"
  shows "\<exists>s'. for_user_segs body pm sva eva s = Ok s' \<and> I s' \<and>
              updates f s pm {va. sva \<le> va \<and> va < eva} s'"
  using assms
proof (induction "unat eva - unat sva" arbitrary: sva s rule: less_induct)
  case less
  show ?case
  proof (cases "sva < eva")
    case False
    then have "updates f s pm {va. sva \<le> va \<and> va < eva} s"
      by (intro updates_cong [OF updates_refl]) auto
    with False less.prems(1) show ?thesis by (simp add: for_user_segs.simps)
  next
    case True
    let ?n = "seg_limit sva eva"
    have n: "sva < ?n" "?n \<le> eva" "page_aligned ?n"
      using True less.prems(5) by (simp_all add: seg_limit_greater seg_limit_le seg_limit_aligned)
    have same_seg: "pmap_segmap t pm va = pmap_segmap t pm sva" if "sva \<le> va" "va < ?n" for t va
      using seg_index_seg_limit [OF True that] by (simp add: pmap_segmap_def)
    have ok: "va_ok s pm va" if "page_aligned va" "va < ?n" for va
      using that n less.prems(2,3,6) by (simp add: va_ok_def)
    obtain t where t: "I t" "updates f s pm {va. sva \<le> va \<and> va < ?n} t"
      and loop: "for_user_segs body pm sva eva s = for_user_segs body pm ?n eva t"
    proof (cases "pmap_segmap s pm sva = 0")
      case seg: True
      have "updates f s pm {va. sva \<le> va \<and> va < ?n} s"
        using seg less.prems(2) same_seg f_None by (auto simp: updates_def pte_get_def)
      with less.prems(1) show thesis
        by (rule that) (simp add: for_user_segs.simps [of body pm sva] True seg)
    next
      case seg: False
      have "va_ok s pm va \<and> pte_get s pm va \<noteq> None"
        if "page_aligned va" "sva \<le> va" "va < ?n" for va
        using ok [OF that(1,3)] same_seg [OF that(2,3), of s] seg by (simp add: pte_get_None_iff)
      from pages [OF less.prems(1,4) n(3) less_imp_le [OF n(1)] this]
      obtain t where "for_pages body sva ?n s = Ok (?n, t)" "I t"
          "updates f s pm {va. sva \<le> va \<and> va < ?n} t" by blast
      then show thesis by (intro that) (simp_all add: for_user_segs.simps [of body pm sva] True seg)
    qed
    have "pm_segtab (pmaps t pm) \<noteq> 0"
      using updates_env [OF t(2)] less.prems(3) by (simp add: same_env_def)
    moreover have "unat eva - unat ?n < unat eva - unat sva"
      using n True by (simp add: word_less_nat_alt diff_less_mono2)
    ultimately obtain s' where s': "for_user_segs body pm ?n eva t = Ok s'" "I s'"
        "updates f t pm {va. ?n \<le> va \<and> va < eva} s'"
      using less.hyps [of ?n t] t(1) less.prems(2,5,6) n by blast
    have "updates f s pm ({va. sva \<le> va \<and> va < ?n} \<union> {va. ?n \<le> va \<and> va < eva}) s'"
      by (rule updates_trans [OF t(2) s'(3) f_idem])
    then have "updates f s pm {va. sva \<le> va \<and> va < eva} s'"
      by (rule updates_cong) (use n in auto)
    with s' loop show ?thesis by auto
  qed
qed

end

section \<open>Removal\<close>

interpretation rm: page_op "pmap_remove_page pm asid nf" pm cleared pmap_inv for pm asid nf
proof (unfold_locales, goal_cases)
  case (1 x)
  show ?case by simp
next
  case 2
  show ?case by (simp add: cleared_def)
next
  case (3 s va)
  then obtain e where "pte_get s pm va = Some e" by blast
  then obtain s' where r: "pmap_remove_page pm asid nf va s = Ok s'"
    using remove_page_eq by blast
  have "pmap_inv s'" by (rule remove_page_inv [OF 3 r])
  moreover have "updates cleared s pm {va} s'"
    by (rule remove_page_updates [OF _ 3(2,3) r]) (use 3(1) in \<open>simp add: pmap_inv_def\<close>)
  ultimately show ?case using r by blast
qed

lemma pmap_remove_user:
  assumes "pmap_inv s" "pm \<noteq> pmap_kernel" "pm_segtab (pmaps s pm) \<noteq> 0"
    and "page_aligned sva" "page_aligned eva" "eva \<le> VM_MAXUSER_ADDRESS" "sva \<le> eva"
  shows "\<exists>s'. pmap_remove pm sva eva s = Ok s' \<and> pmap_inv s' \<and>
              updates cleared s pm {va. sva \<le> va \<and> va < eva} s'"
  using rm.user_range [OF assms] assms(2) by (simp add: pmap_remove_def)

lemma pmap_remove_kernel:
  assumes "pmap_inv s" "page_aligned sva" "page_aligned eva" "VM_MIN_KERNEL_ADDRESS \<le> sva" "sva \<le> eva"
  shows "\<exists>s'. pmap_remove pmap_kernel sva eva s = Ok s' \<and> pmap_inv s' \<and>
              updates cleared s pmap_kernel {va. sva \<le> va \<and> va < eva} s'"
proof -
  have "va_ok s pmap_kernel va \<and> pte_get s pmap_kernel va \<noteq> None" if "page_aligned va" "sva \<le> va" for va
    using that assms(4) by (simp add: va_ok_def pte_get_def)
  then have "\<exists>s'. for_pages (pmap_remove_page pmap_kernel 0 True) sva eva s = Ok (eva, s') \<and> pmap_inv s' \<and>
      updates cleared s pmap_kernel {va. sva \<le> va \<and> va < eva} s'"
    using assms(1-3,5) by (intro rm.pages)
  then show ?thesis by (auto simp: pmap_remove_def)
qed

section \<open>Rewriting an entry in place\<close>

lemma pte_set_mapped:
  assumes "pt_inj s" "mapped s pm va e" "pte_valid e'"
  shows "mapped (pte_set pm va e' s) pm' va' x \<longleftrightarrow>
         (if (pm', va') = (pm, va) then x = e' else mapped s pm' va' x)"
  using assms pte_get_set_other [OF assms(1), of pm va pm' va' e'] pte_get_set_same [of s pm va e']
  by (auto simp: mapped_def va_ok_def)

lemma pte_set_env [simp]: "same_env s (pte_set pm va e s)"
  by (simp add: same_env_def)

lemma pte_set_keep_inv:
  assumes inv: "pmap_inv s" and m: "mapped s pm va e" and v: "pte_valid e'"
    and fr: "avr32_tlbpfn_to_paddr e' = avr32_tlbpfn_to_paddr e"
  shows "pmap_inv (pte_set pm va e' s)"
proof -
  have inj: "pt_inj s" and pv: "pv_inv s" and res: "res_inv s" using inv by (simp_all add: pmap_inv_def)
  note mp = pte_set_mapped [OF inj m v]
  have phys: "PHYS_TO_VM_PAGE (pte_set pm va e' s) pa = PHYS_TO_VM_PAGE s pa" for pa
    by (rule same_envD(4) [OF pte_set_env])
  have "(\<exists>x. mapped (pte_set pm va e' s) pm' va' x \<and> PHYS_TO_VM_PAGE s (avr32_tlbpfn_to_paddr x) = Some pg) \<longleftrightarrow>
        (\<exists>x. mapped s pm' va' x \<and> PHYS_TO_VM_PAGE s (avr32_tlbpfn_to_paddr x) = Some pg)" for pm' va' pg
    using m fr by (cases "(pm', va') = (pm, va)") (auto simp: mp dest: mapped_unique)
  then have "pv_inv (pte_set pm va e' s)" using pv by (simp add: pv_inv_def phys)
  moreover have "resident_pages (pte_set pm va e' s) pm' = resident_pages s pm'" for pm'
    using m by (auto simp: resident_pages_def mp)
  then have "res_inv (pte_set pm va e' s)" using res by (simp add: res_inv_def)
  moreover have "pt_inj (pte_set pm va e' s)" using inj by (simp add: same_envD(3) [OF pte_set_env])
  ultimately show ?thesis by (simp add: pmap_inv_def)
qed

section \<open>Protection\<close>

definition protected :: "u32 \<Rightarrow> u32 option \<Rightarrow> u32 option" where
  "protected p x = map_option (\<lambda>e. if pte_valid e
     then (e AND NOT (AVR32_PG_ACCESS OR AVR32_PG_DIRTY)) OR p else e) x"

lemma pte_prot_cases:
  "unat prot < 8 \<Longrightarrow> pte_prot pm prot \<in> {0, 0x10, 0x20, 0x30, 0x40, 0x50, 0x60, 0x70}"
proof -
  assume "unat prot < 8"
  then have "unat prot \<in> {0, 1, 2, 3, 4, 5, 6, 7}" by auto
  then show ?thesis by (auto simp: pte_prot_def protection_codes_def)
qed

lemma pte_prot_bits:
  assumes "unat prot < 8"
  shows "pte_prot pm prot AND AVR32_PTE_VALID = 0" "pte_prot pm prot AND AVR32_PG_FRAME = 0"
    "pte_prot pm prot AND AVR32_PTE_WIRED = 0" "pte_prot pm prot AND AVR32_PG_GLOBAL = 0"
    "pte_prot pm prot AND AVR32_PG_ACCESS = pte_prot pm prot"
  using pte_prot_cases [OF assms, of pm] by auto

lemma reprotect_valid: "p AND AVR32_PTE_VALID = 0 \<Longrightarrow>
    pte_valid ((e AND NOT (AVR32_PG_ACCESS OR AVR32_PG_DIRTY)) OR p) = pte_valid e"
  by (simp add: and_or_distrib_left and.assoc)

lemma reprotect_frame: "p AND AVR32_PG_FRAME = 0 \<Longrightarrow>
    avr32_tlbpfn_to_paddr ((e AND NOT (AVR32_PG_ACCESS OR AVR32_PG_DIRTY)) OR p) = avr32_tlbpfn_to_paddr e"
  by (simp add: avr32_tlbpfn_to_paddr_def and_or_distrib_left and.assoc)

lemma protected_idem: "p AND AVR32_PTE_VALID = 0 \<Longrightarrow> protected p (protected p x) = protected p x"
proof (cases x)
  case (Some e)
  assume p: "p AND AVR32_PTE_VALID = 0"
  have "(((e AND NOT 0x72) OR p) AND NOT 0x72) OR p = (e AND NOT 0x72) OR p"
    by (rule bit_word_eqI) (auto simp: bit_simps simp del: bit_numeral_simps bit_numeral_rec)
  then show ?thesis using p Some reprotect_valid [OF p, of e] by (simp add: protected_def)
qed (simp add: protected_def)

end
