(* ===== verification/Pmap_Enter.thy ===== *)
theory Pmap_Enter
  imports Pmap_Inv
begin

text \<open>
  Protection of a range, and the entry of a mapping up to the page table write:
  \<open>pmap_enter_pv\<close> evicts the mappings of the page whose cache index differs and records the new
  one, \<open>pmap_enter_write\<close> replaces what was mapped at the address. The protection loop is an
  instance of the locale \<open>page_op\<close>.
\<close>

section \<open>Protection of a range\<close>

lemma and_access_bits: "(p AND AVR32_PG_ACCESS) AND AVR32_PTE_VALID = 0" "(p AND AVR32_PG_ACCESS) AND AVR32_PG_FRAME = 0"
  by (simp_all add: and.assoc)

lemma protect_page_eq:
  assumes "pte_get s pm va = Some e" "pte_valid e"
  shows "\<exists>h. pmap_protect_user_page pm p asid nu va s =
     Ok ((pte_set pm va ((e AND NOT (AVR32_PG_ACCESS OR AVR32_PG_DIRTY)) OR p) s)\<lparr>hw := h\<rparr>)"
proof -
  have hwset: "pte_set pm va x (hw_op op s) = (pte_set pm va x s)\<lparr>hw := op # hw s\<rparr>" for x op
    by (simp add: pte_set_def hw_op_def pmap_segmap_def)
  have self: "t = t\<lparr>hw := hw t\<rparr>" for t :: pmap_st by simp
  show ?thesis
    using assms by (auto simp: pmap_protect_user_page_def Let_def tlb_update_def hwset intro: self)
qed

lemma updates_hw: "updates f s pm V t \<Longrightarrow> updates f s pm V (t\<lparr>hw := h\<rparr>)"
  by (simp add: updates_def same_env_def)

lemma pte_set_updates:
  assumes "pt_inj s" "va_ok s pm va" "pte_get s pm va = Some e" "f (Some e) = Some e'"
  shows "updates f s pm {va} (pte_set pm va e' s)"
  using assms pte_get_set_other [OF assms(1,2), of _ _ e'] pte_get_set_same [of s pm va e']
  by (auto simp: updates_def)

interpretation pr: page_op "pmap_protect_user_page pm (p AND AVR32_PG_ACCESS) asid nu" pm
    "protected (p AND AVR32_PG_ACCESS)" pmap_inv for pm p asid nu
proof (unfold_locales, goal_cases)
  case (1 x)
  show ?case by (rule protected_idem) (rule and_access_bits)
next
  case 2
  show ?case by (simp add: protected_def)
next
  case (3 s va)
  then obtain e where e: "pte_get s pm va = Some e" by blast
  let ?p = "p AND AVR32_PG_ACCESS"
  let ?e = "(e AND NOT (AVR32_PG_ACCESS OR AVR32_PG_DIRTY)) OR ?p"
  show ?case
  proof (cases "pte_valid e")
    case False
    then have "pmap_protect_user_page pm ?p asid nu va s = Ok s"
      using e by (simp add: pmap_protect_user_page_def)
    moreover have "updates (protected ?p) s pm {va} s" using e False by (auto simp: updates_def protected_def)
    ultimately show ?thesis using 3 by blast
  next
    case True
    then obtain h where r: "pmap_protect_user_page pm ?p asid nu va s = Ok ((pte_set pm va ?e s)\<lparr>hw := h\<rparr>)"
      using protect_page_eq [OF e] by blast
    have "mapped s pm va e" using 3 e True by (simp add: mapped_def)
    moreover have "pte_valid ?e" using True reprotect_valid [OF and_access_bits(1), of e] by blast
    ultimately have "pmap_inv (pte_set pm va ?e s)"
      using 3(1) reprotect_frame [OF and_access_bits(2), of e] by (intro pte_set_keep_inv)
    moreover have "updates (protected ?p) s pm {va} (pte_set pm va ?e s)"
    proof (rule pte_set_updates [OF _ 3(2) e])
      show "pt_inj s" using 3(1) by (simp add: pmap_inv_def)
      show "protected ?p (Some e) = Some ?e" unfolding protected_def option.map(2) if_P [OF True] ..
    qed
    ultimately show ?thesis using r updates_hw by auto
  qed
qed

lemma pmap_protect_user:
  assumes "pmap_inv s" "pm \<noteq> pmap_kernel" "pm_segtab (pmaps s pm) \<noteq> 0"
    and "page_aligned sva" "page_aligned eva" "eva \<le> VM_MAXUSER_ADDRESS" "sva \<le> eva"
    and prot: "unat prot < 8" "prot AND VM_PROT_READ \<noteq> 0"
  shows "\<exists>s'. pmap_protect pm sva eva prot s = Ok s' \<and> pmap_inv s' \<and>
              updates (protected (pte_prot pm prot)) s pm {va. sva \<le> va \<and> va < eva} s'"
proof -
  have p: "pte_prot pm prot AND AVR32_PG_ACCESS = pte_prot pm prot" by (rule pte_prot_bits(5) [OF prot(1)])
  have "\<not> VM_MAXUSER_ADDRESS < sva" "\<not> VM_MAXUSER_ADDRESS < eva" using assms(6,7) by auto
  then show ?thesis
    using pr.user_range [OF assms(1-7), of "pte_prot pm prot"] prot assms(2)
    by (simp add: pmap_protect_def p)
qed

section \<open>One page\<close>

lemma seg_limit_one:
  assumes "page_aligned va" "va < VM_MAXUSER_ADDRESS"
  shows "seg_limit va (va + 4096) = va + 4096"
proof -
  have b: "page_aligned VM_MAXUSER_ADDRESS" by simp
  have al: "page_aligned (va + 4096)" and lt: "va < va + 4096"
    using aligned_step [OF assms(1) b assms(2)] by (auto simp: word_less_nat_alt)
  have "va < seg_limit va (va + 4096)" by (rule seg_limit_greater [OF lt])
  then have "va + 4096 \<le> seg_limit va (va + 4096)"
    by (intro aligned_step(2) [OF assms(1) seg_limit_aligned [OF al]])
  with seg_limit_le [OF lt] show ?thesis by simp
qed

lemma pmap_remove_one:
  assumes "page_aligned va" "va < VM_MAXUSER_ADDRESS" "pm \<noteq> pmap_kernel" "pte_get s pm va \<noteq> None"
  shows "pmap_remove pm va (va + 4096) s =
     pmap_remove_page pm (pm_asid (pmaps s pm)) (pm_asidgen (pmaps s pm) = pmap_asid_generation s) va s"
proof -
  have b: "page_aligned VM_MAXUSER_ADDRESS" by simp
  have lt: "va < va + 4096"
    using aligned_step(4) [OF assms(1) b assms(2)] by (auto simp: word_less_nat_alt)
  let ?b = "pmap_remove_page pm (pm_asid (pmaps s pm)) (pm_asidgen (pmaps s pm) = pmap_asid_generation s)"
  have "pmap_segmap s pm va \<noteq> 0" using assms(3,4) by (simp add: pte_get_None_iff)
  then have "for_user_segs ?b pm va (va + 4096) s =
      (case for_pages ?b va (va + 4096) s of
         Ok vs \<Rightarrow> for_user_segs ?b pm (fst vs) (va + 4096) (snd vs)
       | Panic m \<Rightarrow> Panic m | Undef m \<Rightarrow> Undef m | Hang \<Rightarrow> Hang)"
    using lt by (subst for_user_segs.simps) (simp add: seg_limit_one [OF assms(1,2)])
  also have "\<dots> = ?b va s"
    by (cases "?b va s") (simp_all add: for_pages_single [OF lt] for_user_segs.simps [of _ _ "va + 4096"])
  finally show ?thesis using assms(3) by (simp add: pmap_remove_def)
qed


text \<open>Removing one valid user page, exactly.\<close>

lemma pmap_remove_mapped:
  assumes "mapped s pm va e" "pm \<noteq> pmap_kernel"
  shows "\<exists>h. pmap_remove pm va (va + 4096) s = Ok ((pmap_drop_entry pm va e s)\<lparr>hw := h\<rparr>)"
proof -
  have va: "page_aligned va" "va < VM_MAXUSER_ADDRESS" and e: "pte_get s pm va = Some e" and v: "pte_valid e"
    using assms by (simp_all add: mapped_def va_ok_def)
  let ?nf = "pm_asidgen (pmaps s pm) = pmap_asid_generation s"
  let ?d = "pmap_drop_entry pm va e s" and ?a = "pm_asid (pmaps s pm)"
  have "pmap_remove pm va (va + 4096) s = pmap_remove_page pm ?a ?nf va s"
    by (rule pmap_remove_one [OF va assms(2)]) (simp add: e)
  also have "\<dots> = Ok (?d\<lparr>hw := if ?nf then TLB_INVAL ((va OR ?a) OR AVR32_PG_VALID) # hw ?d else hw ?d\<rparr>)"
    unfolding remove_page_eq [OF e] using v by simp
  finally show ?thesis by (rule exI)
qed

section \<open>Entering a pv entry\<close>

lemma pv_find_incompat_Some:
  "pv_find_incompat idx va l = Some e \<Longrightarrow> e \<in> set l \<and> idx (pv_va e) \<noteq> idx va"
  by (induction l) (auto split: if_splits)

lemma pv_find_incompat_None:
  "pv_find_incompat idx va l = None \<longleftrightarrow> (\<forall>e \<in> set l. idx (pv_va e) = idx va)"
  by (induction l) auto

lemma pv_entries_pairs:
  assumes "md_wf md" "pv_pmap (pvh_head md) \<noteq> None" "e \<in> set (pv_entries md)"
  shows "\<exists>pm. pv_pmap e = Some pm \<and> (pm, pv_va e) \<in> set (pv_pairs md)"
proof -
  have "pv_pmap e \<noteq> None" using assms by (auto simp: md_wf_def pv_entries_def)
  moreover have "(the (pv_pmap e), pv_va e) \<in> set (pv_pairs md)"
    using assms(2,3) by (auto simp: pv_pairs_def)
  ultimately show ?thesis by auto
qed

lemma drop_entry_inv:
  assumes "pmap_inv s" "mapped s pm va e"
  shows "pmap_inv ((pmap_drop_entry pm va e s)\<lparr>hw := h\<rparr>)"
  unfolding pmap_inv_hw using assms drop_entry_pv_inv [of s pm va e] drop_entry_res_inv [of s pm va e]
  by (simp add: pmap_inv_def same_envD(3) [OF drop_entry_env])

lemma drop_entry_pool: "pv_pool s \<noteq> [] \<Longrightarrow> pv_pool (pmap_drop_entry pm va e s) \<noteq> []"
  by (auto simp: pmap_drop_entry_def Let_def pmap_remove_pv_def split: option.splits list.splits prod.splits)

definition evicted :: "pmap_st \<Rightarrow> u32 \<Rightarrow> vaddr \<Rightarrow> pmap_st \<Rightarrow> bool" where
  "evicted s pg va s' \<longleftrightarrow> pmap_inv s' \<and> same_env s s' \<and> (pv_pool s \<noteq> [] \<longrightarrow> pv_pool s' \<noteq> []) \<and>
     (\<forall>pm' va'. va_ok s pm' va' \<longrightarrow> pte_get s' pm' va' =
        (if (pm', va') \<in> set (pv_pairs (mdpage s pg)) \<and>
            avr32_cache_indexof s va' \<noteq> avr32_cache_indexof s va
         then cleared (pte_get s pm' va') else pte_get s pm' va'))"

lemma evicted_refl:
  "pmap_inv s \<Longrightarrow> \<forall>x \<in> set (pv_pairs (mdpage s pg)). avr32_cache_indexof s (snd x) = avr32_cache_indexof s va
   \<Longrightarrow> evicted s pg va s"
  by (fastforce simp: evicted_def)

definition no_kernel_alias :: "pmap_st \<Rightarrow> u32 \<Rightarrow> vaddr \<Rightarrow> bool" where
  "no_kernel_alias s pg va \<longleftrightarrow> (\<forall>va'. (pmap_kernel, va') \<in> set (pv_pairs (mdpage s pg)) \<longrightarrow>
     avr32_cache_indexof s va' = avr32_cache_indexof s va)"

lemma indexof_env: "same_env s t \<Longrightarrow> avr32_cache_indexof t = avr32_cache_indexof s"
  by (rule ext) (simp add: same_env_def avr32_cache_indexof_def)

lemma evict_step:
  assumes inv: "pmap_inv s" and m: "mapped s npm nva e" "npm \<noteq> pmap_kernel"
    and pg: "PHYS_TO_VM_PAGE s (avr32_tlbpfn_to_paddr e) = Some pg"
    and idx: "avr32_cache_indexof s nva \<noteq> avr32_cache_indexof s va"
    and t: "t = (pmap_drop_entry npm nva e s)\<lparr>hw := h\<rparr>" and ev: "evicted t pg va u"
  shows "evicted s pg va u"
proof -
  have inj: "pt_inj s" and wf: "md_wf (mdpage s pg)" and d: "distinct (pv_pairs (mdpage s pg))"
    using inv by (auto simp: pmap_inv_def pv_inv_def)
  have ok: "va_ok s npm nva" and some: "pte_get s npm nva = Some e" and val: "pte_valid e"
    using m by (simp_all add: mapped_def)
  have env: "same_env s t" using drop_entry_env [of s npm nva e] by (simp add: t same_env_def)
  have pairs: "set (pv_pairs (mdpage t pg)) = set (pv_pairs (mdpage s pg)) - {(npm, nva)}"
    using drop_entry_md(1) [OF wf, of npm nva e] d pg by (simp add: t)
  have "pte_get u pm' va' = (if (pm', va') \<in> set (pv_pairs (mdpage s pg)) \<and>
      avr32_cache_indexof s va' \<noteq> avr32_cache_indexof s va then cleared (pte_get s pm' va') else pte_get s pm' va')"
    if v: "va_ok s pm' va'" for pm' va'
  proof -
    have "pte_get u pm' va' = (if (pm', va') \<in> set (pv_pairs (mdpage t pg)) \<and>
      avr32_cache_indexof s va' \<noteq> avr32_cache_indexof s va then cleared (pte_get t pm' va') else pte_get t pm' va')"
      using ev v by (simp add: evicted_def same_envD(1) [OF env] indexof_env [OF env])
    moreover have "pte_get t pm' va' = (if pm' = npm \<and> va' = nva then Some 0 else pte_get s pm' va')"
      using drop_entry_get [OF inj ok _ v, of e] some by (simp add: t)
    moreover have "(npm, nva) \<in> set (pv_pairs (mdpage s pg))"
      using pv_invD [of s npm nva pg] m pg inv by (auto simp: pmap_inv_def)
    ultimately show ?thesis using idx some val by (auto simp: pairs cleared_def)
  qed
  then show ?thesis
    using ev same_env_trans [OF env] drop_entry_pool [of s npm nva e] by (simp add: evicted_def t)
qed

lemma enter_pv_evicts:
  assumes "pmap_inv s" "no_kernel_alias s pg va" "length (pv_pairs (mdpage s pg)) < fuel"
  shows "\<exists>s1. evicted s pg va s1 \<and>
     (\<forall>x \<in> set (pv_pairs (mdpage s1 pg)). avr32_cache_indexof s1 (snd x) = avr32_cache_indexof s1 va) \<and>
     pmap_enter_pv_again fuel pm va pg s = pmap_enter_pv_again (Suc 0) pm va pg s1"
  using assms
proof (induction fuel arbitrary: s)
  case 0
  then show ?case by simp
next
  case (Suc fuel)
  let ?md = "mdpage s pg"
  have wf: "md_wf ?md" and d: "distinct (pv_pairs ?md)"
    using Suc.prems(1) by (auto simp: pmap_inv_def pv_inv_def)
  show ?case
  proof (cases "pv_pmap (pvh_head ?md) \<noteq> None \<and>
      pv_find_incompat (avr32_cache_indexof s) va (pv_entries ?md) \<noteq> None")
    case False
    have "\<forall>x \<in> set (pv_pairs ?md). avr32_cache_indexof s (snd x) = avr32_cache_indexof s va"
      using False by (auto simp: pv_find_incompat_None pv_pairs_def)
    moreover have "pmap_enter_pv_again (Suc fuel) pm va pg s = pmap_enter_pv_again (Suc 0) pm va pg s"
      using False by (auto simp: Let_def)
    ultimately show ?thesis using evicted_refl [OF Suc.prems(1)] by blast
  next
    case True
    then obtain npv where f: "pv_find_incompat (avr32_cache_indexof s) va (pv_entries ?md) = Some npv" by blast
    then have npv: "npv \<in> set (pv_entries ?md)" "avr32_cache_indexof s (pv_va npv) \<noteq> avr32_cache_indexof s va"
      using pv_find_incompat_Some by blast+
    obtain npm where npm: "pv_pmap npv = Some npm" and pr: "(npm, pv_va npv) \<in> set (pv_pairs ?md)"
      using pv_entries_pairs [OF wf _ npv(1)] True by blast
    have user: "npm \<noteq> pmap_kernel" using Suc.prems(2) pr npv(2) by (metis no_kernel_alias_def)
    then obtain e where e: "mapped s npm (pv_va npv) e" "PHYS_TO_VM_PAGE s (avr32_tlbpfn_to_paddr e) = Some pg"
      using pv_invD [of s npm "pv_va npv" pg] pr Suc.prems(1) by (auto simp: pmap_inv_def)
    obtain h where rm: "pmap_remove npm (pv_va npv) (pv_va npv + 4096) s =
        Ok ((pmap_drop_entry npm (pv_va npv) e s)\<lparr>hw := h\<rparr>)"
      using pmap_remove_mapped [OF e(1) user] by blast
    define t where "t = (pmap_drop_entry npm (pv_va npv) e s)\<lparr>hw := h\<rparr>"
    have env: "same_env s t"
      using drop_entry_env [of s npm "pv_va npv" e] by (simp add: t_def same_env_def)
    have inv_t: "pmap_inv t" unfolding t_def by (rule drop_entry_inv [OF Suc.prems(1) e(1)])
    have pairs: "pv_pairs (mdpage t pg) = remove1 (npm, pv_va npv) (pv_pairs ?md)"
      using drop_entry_md(1) [OF wf, of npm "pv_va npv" e] e(2) by (simp add: t_def)
    have "length (pv_pairs (mdpage t pg)) < fuel"
      unfolding pairs length_remove1 using Suc.prems(3) pr length_pos_if_in_set [OF pr] by presburger
    moreover have "no_kernel_alias t pg va"
      using Suc.prems(2) notin_set_remove1 by (fastforce simp: no_kernel_alias_def pairs indexof_env [OF env])
    ultimately obtain s1 where s1: "evicted t pg va s1"
      "\<forall>x \<in> set (pv_pairs (mdpage s1 pg)). avr32_cache_indexof s1 (snd x) = avr32_cache_indexof s1 va"
      "pmap_enter_pv_again fuel pm va pg t = pmap_enter_pv_again (Suc 0) pm va pg s1"
      using Suc.IH [OF inv_t] by blast
    have "pmap_enter_pv_again (Suc fuel) pm va pg s = pmap_enter_pv_again fuel pm va pg t"
      using True f npm rm by (auto simp: Let_def t_def)
    with s1 evict_step [OF Suc.prems(1) e(1) user e(2) npv(2) t_def s1(1)] show ?thesis by metis
  qed
qed


text \<open>What \<open>pmap_enter_pv\<close> leaves behind: incompatible mappings evicted, one entry for the page.\<close>

definition pv_entered :: "pmap_st \<Rightarrow> nat \<Rightarrow> vaddr \<Rightarrow> u32 \<Rightarrow> pmap_st \<Rightarrow> bool" where
  "pv_entered s pm va pg t \<longleftrightarrow> same_env s t \<and> (\<forall>pm' va'. pte_get t pm' va' = pte_get s pm' va') \<and>
     (\<forall>p. resident_count (pmaps t p) = resident_count (pmaps s p)) \<and>
     (\<forall>g. md_wf (mdpage t g) \<and> distinct (pv_pairs (mdpage t g)) \<and>
          set (pv_pairs (mdpage t g)) = (if g = pg then insert (pm, va) (set (pv_pairs (mdpage s g)))
                                         else set (pv_pairs (mdpage s g))))"

lemma pv_enteredI:
  assumes "pmap_inv s" "same_env s t" "mdpage t = (mdpage s)(pg := md)"
    "\<And>pm' va'. pte_get t pm' va' = pte_get s pm' va'" "pmaps t = pmaps s"
    "md_wf md" "distinct (pv_pairs md)" "set (pv_pairs md) = insert (pm, va) (set (pv_pairs (mdpage s pg)))"
  shows "pv_entered s pm va pg t"
  using assms by (simp add: pv_entered_def pmap_inv_def pv_inv_def)

lemma pv_entries_mem:
  assumes "md_wf md" "pv_pmap (pvh_head md) \<noteq> None"
  shows "(\<exists>npv \<in> set (pv_entries md). pv_pmap npv = Some pm \<and> pv_va npv = va) \<longleftrightarrow> (pm, va) \<in> set (pv_pairs md)"
proof -
  have "pv_pmap e \<noteq> None" if "e \<in> set (pv_entries md)" for e
    using pv_entries_pairs [OF assms that] by blast
  then show ?thesis using assms(2) by (force simp: pv_pairs_def)
qed

lemma pv_pairs_insert:
  "pv_pmap (pvh_head md) \<noteq> None \<Longrightarrow> \<exists>h m. pv_pairs md = h # m \<and>
     pv_pairs (md\<lparr>pvh_chain := (n, \<lparr>pv_pmap = Some pm, pv_va = va, pv_flags = f\<rparr>) # pvh_chain md\<rparr>) = h # (pm, va) # m"
  by (simp add: pv_pairs_def pv_entries_def)

lemma enter_pv_last:
  assumes inv: "pmap_inv s" "pv_pool s \<noteq> []"
    and idx: "\<forall>x \<in> set (pv_pairs (mdpage s pg)). avr32_cache_indexof s (snd x) = avr32_cache_indexof s va"
  shows "\<exists>t. pmap_enter_pv_again (Suc 0) pm va pg s = Ok t \<and> pv_entered s pm va pg t"
proof -
  let ?md = "mdpage s pg"
  have wf: "md_wf (mdpage s g)" "distinct (pv_pairs (mdpage s g))" for g
    using inv by (simp_all add: pmap_inv_def pv_inv_def)
  obtain n ns where pool: "pv_pool s = n # ns" using inv(2) by (cases "pv_pool s") auto
  consider (empty) "pv_pmap (pvh_head ?md) = None"
    | (old) "pv_pmap (pvh_head ?md) \<noteq> None" "(pm, va) \<in> set (pv_pairs ?md)"
    | (new) "pv_pmap (pvh_head ?md) \<noteq> None" "(pm, va) \<notin> set (pv_pairs ?md)" by blast
  then show ?thesis
  proof cases
    case empty
    let ?h = "\<lparr>pv_pmap = Some pm, pv_va = va, pv_flags = pv_flags (pvh_head ?md) AND NOT PV_UNCACHED\<rparr>"
    have "pmap_enter_pv_again (Suc 0) pm va pg s = Ok (md_upd pg (\<lambda>md. md\<lparr>pvh_head := ?h, pvh_chain := []\<rparr>) s)"
      using empty by (simp add: Let_def)
    moreover have "pv_entered s pm va pg (md_upd pg (\<lambda>md. md\<lparr>pvh_head := ?h, pvh_chain := []\<rparr>) s)"
      by (rule pv_enteredI [where md = "?md\<lparr>pvh_head := ?h, pvh_chain := []\<rparr>"])
        (use inv empty in \<open>simp_all add: same_env_def md_wf_def pv_pairs_def pv_entries_def\<close>)
    ultimately show ?thesis by blast
  next
    case old
    have "pv_find_incompat (avr32_cache_indexof s) va (pv_entries ?md) = None"
      using idx old(1) by (auto simp: pv_find_incompat_None pv_pairs_def)
    then have "pmap_enter_pv_again (Suc 0) pm va pg s = Ok s"
      using old by (auto simp: Let_def pv_entries_mem [OF wf(1) old(1)])
    then show ?thesis using old wf by (auto simp: pv_entered_def)
  next
    case new
    have "pv_find_incompat (avr32_cache_indexof s) va (pv_entries ?md) = None"
      using idx new(1) by (auto simp: pv_find_incompat_None pv_pairs_def)
    then have r: "pmap_enter_pv_again (Suc 0) pm va pg s = Ok (md_upd pg
        (\<lambda>md. md\<lparr>pvh_chain := (n, \<lparr>pv_pmap = Some pm, pv_va = va, pv_flags = pv_flags (pvh_head ?md)\<rparr>) # pvh_chain md\<rparr>)
        (s\<lparr>pv_pool := ns\<rparr>))" (is "_ = Ok ?t")
      using new pool by (auto simp: Let_def pv_entries_mem [OF wf(1) new(1)])
    let ?md' = "?md\<lparr>pvh_chain := (n, \<lparr>pv_pmap = Some pm, pv_va = va, pv_flags = pv_flags (pvh_head ?md)\<rparr>) # pvh_chain ?md\<rparr>"
    obtain h m where hm: "pv_pairs ?md = h # m" "pv_pairs ?md' = h # (pm, va) # m"
      using pv_pairs_insert [OF new(1)] by blast
    have "distinct (pv_pairs ?md')" "set (pv_pairs ?md') = insert (pm, va) (set (pv_pairs ?md))"
      using wf(2) [of pg] new(2) unfolding hm by auto
    moreover have "md_wf ?md'" using wf(1) [of pg] new(1) by (simp add: md_wf_def)
    ultimately have "pv_entered s pm va pg ?t"
      by (intro pv_enteredI [where md = ?md'] inv(1)) (simp_all add: same_env_def)
    with r show ?thesis by blast
  qed
qed

lemma enter_pv_ok:
  assumes "pmap_inv s" "no_kernel_alias s pg va" "pv_pool s \<noteq> []"
  shows "\<exists>s1 t. evicted s pg va s1 \<and> pv_entered s1 pm va pg t \<and> pmap_enter_pv pm va pg s = Ok t"
proof -
  have "length (pv_pairs (mdpage s pg)) < Suc (Suc (length (pvh_chain (mdpage s pg))))"
    by (simp add: pv_pairs_def pv_entries_def)
  from enter_pv_evicts [OF assms(1,2) this] obtain s1 where s1: "evicted s pg va s1"
    "\<forall>x \<in> set (pv_pairs (mdpage s1 pg)). avr32_cache_indexof s1 (snd x) = avr32_cache_indexof s1 va"
    "pmap_enter_pv pm va pg s = pmap_enter_pv_again (Suc 0) pm va pg s1"
    unfolding pmap_enter_pv_def by blast
  have "pmap_inv s1" "pv_pool s1 \<noteq> []" using s1(1) assms(3) by (simp_all add: evicted_def)
  from enter_pv_last [OF this s1(2), of pm] s1(1,3) show ?thesis by metis
qed

section \<open>Writing the entry\<close>

lemma remap_inv:
  assumes inv: "pmap_inv s" and env: "same_env s t" and ok: "va_ok s pm va" and user: "pm \<noteq> pmap_kernel"
    and get: "\<And>pm' va'. va_ok s pm' va' \<Longrightarrow>
                pte_get t pm' va' = (if (pm', va') = (pm, va) then Some e else pte_get s pm' va')"
    and v: "pte_valid e" and pg: "PHYS_TO_VM_PAGE s (avr32_tlbpfn_to_paddr e) = Some pg"
    and wf: "\<And>g. md_wf (mdpage t g) \<and> distinct (pv_pairs (mdpage t g))"
    and prs: "\<And>g. set (pv_pairs (mdpage t g)) = (if g = pg then insert (pm, va) (set (pv_pairs (mdpage s g)))
                                         else set (pv_pairs (mdpage s g)) - {(pm, va)})"
    and res: "\<And>p. resident_count (pmaps t p) =
                resident_count (pmaps s p) + (if p = pm \<and> va \<notin> resident_pages s pm then 1 else 0)"
  shows "pmap_inv t"
proof -
  have m: "mapped t pm' va' x \<longleftrightarrow> (if (pm', va') = (pm, va) then x = e else mapped s pm' va' x)" for pm' va' x
    using get [of pm' va'] ok v by (auto simp: mapped_def same_envD(1) [OF env])
  have phys: "PHYS_TO_VM_PAGE t pa = PHYS_TO_VM_PAGE s pa" for pa by (rule same_envD(4) [OF env])
  have inj: "pt_inj t" using inv by (simp add: pmap_inv_def same_envD(3) [OF env])
  have pv: "pv_inv s" and rs: "res_inv s" using inv by (simp_all add: pmap_inv_def)
  have "(pm', va') \<in> set (pv_pairs (mdpage t g)) \<longleftrightarrow>
        (\<exists>x. mapped t pm' va' x \<and> PHYS_TO_VM_PAGE t (avr32_tlbpfn_to_paddr x) = Some g)"
    if "pm' \<noteq> pmap_kernel" for pm' va' g
  proof (cases "(pm', va') = (pm, va)")
    case True
    then show ?thesis using pg by (auto simp: m prs phys)
  next
    case False
    then show ?thesis using pv_invD [OF pv that, of va' g] by (auto simp: m prs phys)
  qed
  then have "pv_inv t" using wf by (simp add: pv_inv_def)
  moreover have "res_inv t"
  proof -
    have pages: "resident_pages t p = (if p = pm then insert va (resident_pages s p) else resident_pages s p)" for p
      by (auto simp: resident_pages_def m)
    have tab: "pm_segtab (pmaps t p) = pm_segtab (pmaps s p)" for p using env by (simp add: same_env_def)
    show ?thesis
      using rs by (auto simp: res_inv_def pages tab res insert_absorb)
  qed
  ultimately show ?thesis using inj by (simp add: pmap_inv_def)
qed


lemma atop_inj:
  assumes "page_aligned a" "page_aligned b" "atop a = atop b"
  shows "a = b"
proof -
  have "unat a div 4096 = unat b div 4096" using arg_cong [OF assms(3), of unat] by (simp add: atop_def unat_drop_bit32)
  then have "unat a = unat b" using assms(1,2) by (metis div_mult_mod_eq page_aligned_iff)
  then show ?thesis by (rule unsigned_word_eqI)
qed

lemma frame_aligned: "page_aligned (avr32_tlbpfn_to_paddr e)"
  by (simp add: avr32_tlbpfn_to_paddr_def and.assoc)

lemma phys_page_unique:
  "PHYS_TO_VM_PAGE s a = Some g \<Longrightarrow> PHYS_TO_VM_PAGE s b = Some g \<Longrightarrow> page_aligned a \<Longrightarrow> page_aligned b \<Longrightarrow> a = b"
  by (rule atop_inj) (auto simp: PHYS_TO_VM_PAGE_def split: option.splits)

text \<open>
  The last step of \<open>pmap_enter\<close>: \<open>s\<close> is the consistent state before it touched the pv lists,
  \<open>w\<close> the state in which they name the new mapping and the old one is gone.
\<close>

lemma enter_commit:
  assumes inv: "pmap_inv s" and user: "pm \<noteq> pmap_kernel" and ok: "va_ok s pm va"
    and npte: "pte_valid npte" "PHYS_TO_VM_PAGE s (avr32_tlbpfn_to_paddr npte) = Some pg"
    and env: "same_env s w" and some: "pte_get w pm va \<noteq> None"
    and get: "\<And>pm' va'. va_ok s pm' va' \<Longrightarrow> (pm', va') \<noteq> (pm, va) \<Longrightarrow> pte_get w pm' va' = pte_get s pm' va'"
    and wf: "\<And>g. md_wf (mdpage w g) \<and> distinct (pv_pairs (mdpage w g))"
    and prs: "\<And>g. set (pv_pairs (mdpage w g)) = (if g = pg then insert (pm, va) (set (pv_pairs (mdpage s g)))
                                         else set (pv_pairs (mdpage s g)) - {(pm, va)})"
    and res: "\<And>p. resident_count (pmaps w p) =
                resident_count (pmaps s p) + (if p = pm \<and> va \<notin> resident_pages s pm then 1 else 0)"
  shows "pmap_inv (pte_set pm va npte w) \<and> updates (\<lambda>_. Some npte) s pm {va} (pte_set pm va npte w)"
proof -
  have inj: "pt_inj w" using inv by (simp add: pmap_inv_def same_envD(3) [OF env])
  have env': "same_env s (pte_set pm va npte w)" by (rule same_env_trans [OF env pte_set_env])
  have get': "pte_get (pte_set pm va npte w) pm' va' = (if (pm', va') = (pm, va) then Some npte else pte_get s pm' va')"
    if "va_ok s pm' va'" for pm' va'
    using pte_get_set_same [OF some, of npte] pte_get_set_other [OF inj, of pm va pm' va' npte] get [OF that] that ok
    by (auto simp: same_envD(1) [OF env])
  have "pmap_inv (pte_set pm va npte w)"
    by (rule remap_inv [OF inv env' ok user get' npte]) (simp_all add: wf prs res)
  then show ?thesis using get' env' by (auto simp: updates_def)
qed

lemma enter_write_ok:
  assumes inv: "pmap_inv s" and ent: "pv_entered s pm va pg t" and user: "pm \<noteq> pmap_kernel"
    and ok: "va_ok s pm va" and some: "pte_get s pm va \<noteq> None"
    and npte: "pte_valid npte" "avr32_tlbpfn_to_paddr npte = pa" and pg: "PHYS_TO_VM_PAGE s pa = Some pg"
  shows "\<exists>u. pmap_enter_write pm va pa npte t = Ok u \<and> pmap_inv u \<and> updates (\<lambda>_. Some npte) s pm {va} u"
proof -
  obtain e where e: "pte_get s pm va = Some e" using some by blast
  have env: "same_env s t" and gett: "pte_get t pm' va' = pte_get s pm' va'"
    and rest: "resident_count (pmaps t p) = resident_count (pmaps s p)" for pm' va' p
    using ent by (simp_all add: pv_entered_def)
  have wft: "md_wf (mdpage t g)" "distinct (pv_pairs (mdpage t g))"
    "set (pv_pairs (mdpage t g)) = (if g = pg then insert (pm, va) (set (pv_pairs (mdpage s g)))
                                    else set (pv_pairs (mdpage s g)))" for g
    using ent by (simp_all add: pv_entered_def)
  have res: "va \<in> resident_pages s pm \<longleftrightarrow> pte_valid e" using e ok by (simp add: resident_pages_def mapped_def)
  have old: "(pm, va) \<in> set (pv_pairs (mdpage s g)) \<longleftrightarrow>
      pte_valid e \<and> PHYS_TO_VM_PAGE s (avr32_tlbpfn_to_paddr e) = Some g" for g
    using pv_invD [of s pm va g] inv user ok e by (auto simp: pmap_inv_def mapped_def)
  have phys: "PHYS_TO_VM_PAGE s (avr32_tlbpfn_to_paddr npte) = Some pg" using npte(2) pg by simp
  note commit = enter_commit [OF inv user ok npte(1) phys]
  show ?thesis
  proof (cases "pte_valid e \<and> avr32_tlbpfn_to_paddr e \<noteq> pa")
    case False
    define w where "w = (if \<not> pte_valid e
        then pmap_upd pm (\<lambda>p. p\<lparr>resident_count := resident_count p + 1\<rparr>) t else t)"
    have w: "same_env s w" "\<And>pm' va'. pte_get w pm' va' = pte_get s pm' va'" "mdpage w = mdpage t"
      "\<And>p. resident_count (pmaps w p) = resident_count (pmaps s p) + (if p = pm \<and> \<not> pte_valid e then 1 else 0)"
      using env by (auto simp: w_def same_env_def gett rest)
    have "pmap_inv (pte_set pm va npte w) \<and> updates (\<lambda>_. Some npte) s pm {va} (pte_set pm va npte w)"
      by (rule commit [OF w(1)]) (use False pg old in \<open>auto simp: w(2-4) e wft res\<close>)
    moreover have "pmap_enter_write pm va pa npte t = Ok (pte_set pm va npte w)"
      using False by (auto simp: pmap_enter_write_def gett e w_def)
    ultimately show ?thesis by blast
  next
    case True
    have m: "mapped t pm va e" using True ok e by (simp add: mapped_def gett same_envD(1) [OF env])
    obtain h where rm: "pmap_remove pm va (va + NBPG) t = Ok ((pmap_drop_entry pm va e t)\<lparr>hw := h\<rparr>)"
      using pmap_remove_mapped [OF m user] by blast
    define w where "w = pmap_upd pm (\<lambda>p. p\<lparr>resident_count := resident_count p + 1\<rparr>)
      ((pmap_drop_entry pm va e t)\<lparr>hw := h\<rparr>)"
    have injt: "pt_inj t" using inv by (simp add: pmap_inv_def same_envD(3) [OF env])
    have get: "pte_get (pmap_drop_entry pm va e t) pm' va' = (if pm' = pm \<and> va' = va then Some 0 else pte_get s pm' va')"
      if "va_ok s pm' va'" for pm' va'
      using drop_entry_get [OF injt, of pm va pm' va' e] that ok e by (simp add: same_envD(1) [OF env] gett)
    have w: "same_env s w" "\<And>pm' va'. pte_get w pm' va' = pte_get (pmap_drop_entry pm va e t) pm' va'"
      "mdpage w = mdpage (pmap_drop_entry pm va e t)"
      "\<And>p. resident_count (pmaps w p) = resident_count (pmaps s p)"
      using same_env_trans [OF env drop_entry_env, of pm va e]
      by (auto simp: w_def same_env_def drop_entry_resident rest)
    have ne: "PHYS_TO_VM_PAGE s (avr32_tlbpfn_to_paddr e) \<noteq> Some pg"
      using phys_page_unique [OF _ phys frame_aligned frame_aligned] True npte(2) by blast
    have "pmap_inv (pte_set pm va npte w) \<and> updates (\<lambda>_. Some npte) s pm {va} (pte_set pm va npte w)"
      by (rule commit [OF w(1)])
        (use True ne old in \<open>auto simp: w(2-4) get [OF ok] get wft res drop_entry_md same_envD(4) [OF env]\<close>)
    moreover have "pmap_enter_write pm va pa npte t = Ok (pte_set pm va npte w)"
      using True get [OF ok] by (auto simp: pmap_enter_write_def gett e rm w_def)
    ultimately show ?thesis by blast
  qed
qed

end
