(* ===== verification/Pmap_Alloc.thy ===== *)
theory Pmap_Alloc
  imports Pmap_Enter
begin

text \<open>
  Ownership of the memory behind the page tables: pages UVM can hand out, pages of PTEs and
  segment tables never overlap (\<open>alloc_ok\<close>). Under it a page of PTEs can be added to a segment
  without disturbing any mapping, and \<open>pmap_enter\<close> is total on user addresses and does what
  it promises: the new mapping is there, mappings of the page with another cache index are
  gone, every other mapping is as it was.
\<close>

section \<open>Frames, tables and their owners\<close>

abbreviation user_tab :: "pmap_st \<Rightarrow> nat \<Rightarrow> bool" where
  "user_tab s pm \<equiv> pm \<noteq> pmap_kernel \<and> pm_segtab (pmaps s pm) \<noteq> 0"

definition frames :: "paddr set" where
  "frames = {pa. page_aligned pa \<and> pa AND AVR32_PHYS_MASK = pa}"

lemma P1_bits:
  assumes "pa \<in> frames"
  shows "AVR32_P1_TO_PHYS (AVR32_PHYS_TO_P1 pa) = pa" "AVR32_PHYS_TO_P1 pa \<noteq> 0"
    "trunc_page (AVR32_PHYS_TO_P1 pa) = AVR32_PHYS_TO_P1 pa"
    "trunc_page (AVR32_PHYS_TO_P1 pa + 2048) = AVR32_PHYS_TO_P1 pa"
    "AVR32_PHYS_TO_P1 pa + 2048 \<noteq> 0" "AVR32_PHYS_TO_P1 pa + 2048 \<noteq> AVR32_PHYS_TO_P1 pa"
proof -
  have pa: "page_aligned pa" "pa AND AVR32_PHYS_MASK = pa" using assms by (simp_all add: frames_def)
  show p: "AVR32_P1_TO_PHYS (AVR32_PHYS_TO_P1 pa) = pa"
    using pa(2) by (simp add: AVR32_P1_TO_PHYS_def AVR32_PHYS_TO_P1_def and_or_distrib_left)
  have hi: "AVR32_PHYS_TO_P1 pa AND AVR32_P1_START = AVR32_P1_START"
    by (simp add: AVR32_PHYS_TO_P1_def and_or_distrib_left bit_eq_iff bit_simps)
  then show "AVR32_PHYS_TO_P1 pa \<noteq> 0" by auto
  have al: "page_aligned (AVR32_PHYS_TO_P1 pa)"
    using pa(1) by (simp add: AVR32_PHYS_TO_P1_def and_or_distrib_left)
  then show "trunc_page (AVR32_PHYS_TO_P1 pa) = AVR32_PHYS_TO_P1 pa" by (rule trunc_page_id)
  obtain k where k: "unat (AVR32_PHYS_TO_P1 pa) = 4096 * k"
    using al unfolding page_aligned_iff by (auto simp: mod_eq_0_iff_dvd)
  moreover have "k < 1048576" using unat_bound32 [of "AVR32_PHYS_TO_P1 pa"] by (simp add: k)
  ultimately have u: "unat (AVR32_PHYS_TO_P1 pa + 2048) = 4096 * k + 2048" by (simp add: unat_word_ariths)
  have "unat (trunc_page (AVR32_PHYS_TO_P1 pa + 2048)) = unat (AVR32_PHYS_TO_P1 pa)"
    unfolding unat_trunc_page u k by simp
  then show "trunc_page (AVR32_PHYS_TO_P1 pa + 2048) = AVR32_PHYS_TO_P1 pa" by (rule unsigned_word_eqI)
  show "AVR32_PHYS_TO_P1 pa + 2048 \<noteq> 0" using u by (metis add_is_0 unat_0 zero_neq_numeral)
  show "AVR32_PHYS_TO_P1 pa + 2048 \<noteq> AVR32_PHYS_TO_P1 pa" by simp
qed

lemma P1_inj: "a \<in> frames \<Longrightarrow> b \<in> frames \<Longrightarrow> AVR32_PHYS_TO_P1 a = AVR32_PHYS_TO_P1 b \<Longrightarrow> a = b"
  by (metis P1_bits(1))

text \<open>The free list of segment tables, linked through the first word of each table.\<close>

fun seg_chain :: "(u32 \<Rightarrow> nat \<Rightarrow> u32) \<Rightarrow> u32 \<Rightarrow> u32 list \<Rightarrow> bool" where
  "seg_chain m p [] \<longleftrightarrow> p = 0"
| "seg_chain m p (t # ts) \<longleftrightarrow> p = t \<and> t \<noteq> 0 \<and> (\<forall>i. 0 < i \<and> i < PMAP_SEGTABSIZE \<longrightarrow> m t i = 0) \<and>
     seg_chain m (m t 0) ts"

lemma seg_chain_cong: "(\<And>t. t \<in> set ts \<Longrightarrow> m' t = m t) \<Longrightarrow> seg_chain m' p ts = seg_chain m p ts"
  by (induction ts arbitrary: p) auto

definition pt_pages :: "pmap_st \<Rightarrow> u32 set" where
  "pt_pages s = {p. p \<noteq> 0 \<and> (\<exists>pm i. user_tab s pm \<and> i < PMAP_SEGTABSIZE \<and> p = seg_mem s (pm_segtab (pmaps s pm)) i)}"

definition seg_tabs :: "pmap_st \<Rightarrow> u32 list \<Rightarrow> u32 set" where
  "seg_tabs s ts = {t. \<exists>pm. user_tab s pm \<and> t = pm_segtab (pmaps s pm)} \<union> set ts"

text \<open>
  Ownership of memory: pages UVM can hand out, pages of PTEs and segment tables are pairwise
  disjoint, no two pmaps share a segment table, the free tables form the chain \<open>ts\<close>, and the
  pmaps of the pool have no table.
\<close>

definition alloc_ok :: "pmap_st \<Rightarrow> u32 list \<Rightarrow> bool" where
  "alloc_ok s ts \<longleftrightarrow>
     (\<forall>pm pm'. user_tab s pm \<and> user_tab s pm' \<and> pm_segtab (pmaps s pm) = pm_segtab (pmaps s pm') \<longrightarrow> pm = pm') \<and>
     seg_chain (seg_mem s) (free_segtab s) ts \<and> distinct ts \<and>
     (\<forall>pm. user_tab s pm \<longrightarrow> pm_segtab (pmaps s pm) \<notin> set ts) \<and>
     distinct (uvm_pages s) \<and> set (uvm_pages s) \<subseteq> frames \<and> pt_pages s \<subseteq> AVR32_PHYS_TO_P1 ` frames \<and>
     AVR32_PHYS_TO_P1 ` set (uvm_pages s) \<inter> (pt_pages s \<union> trunc_page ` seg_tabs s ts) = {} \<and>
     pt_pages s \<inter> trunc_page ` seg_tabs s ts = {} \<and>
     distinct (pmap_pool s) \<and> (\<forall>pm \<in> set (pmap_pool s). pm \<noteq> pmap_kernel \<and> pm_segtab (pmaps s pm) = 0)"

definition alloc_inv :: "pmap_st \<Rightarrow> bool" where
  "alloc_inv s \<longleftrightarrow> (\<exists>ts. alloc_ok s ts)"

lemma same_env_tabs:
  assumes "same_env s t"
  shows "user_tab t pm = user_tab s pm" "pt_pages t = pt_pages s" "seg_tabs t ts = seg_tabs s ts"
  using assms by (auto simp: same_env_def pt_pages_def seg_tabs_def)

lemma same_env_alloc: "same_env s t \<Longrightarrow> alloc_ok t ts = alloc_ok s ts"
  using same_env_tabs(2,3) [of s t] by (auto simp: alloc_ok_def same_env_def)

lemma alloc_okD:
  assumes "alloc_ok s ts"
  shows "user_tab s pm \<Longrightarrow> user_tab s pm' \<Longrightarrow> pm_segtab (pmaps s pm) = pm_segtab (pmaps s pm') \<Longrightarrow> pm = pm'"
    "seg_chain (seg_mem s) (free_segtab s) ts" "distinct ts"
    "user_tab s pm \<Longrightarrow> pm_segtab (pmaps s pm) \<notin> set ts"
    "distinct (uvm_pages s)" "set (uvm_pages s) \<subseteq> frames" "pt_pages s \<subseteq> AVR32_PHYS_TO_P1 ` frames"
    "pa \<in> set (uvm_pages s) \<Longrightarrow> AVR32_PHYS_TO_P1 pa \<notin> pt_pages s"
    "pa \<in> set (uvm_pages s) \<Longrightarrow> t \<in> seg_tabs s ts \<Longrightarrow> trunc_page t \<noteq> AVR32_PHYS_TO_P1 pa"
    "p \<in> pt_pages s \<Longrightarrow> t \<in> seg_tabs s ts \<Longrightarrow> trunc_page t \<noteq> p"
    "distinct (pmap_pool s)" "pm \<in> set (pmap_pool s) \<Longrightarrow> pm \<noteq> pmap_kernel \<and> pm_segtab (pmaps s pm) = 0"
proof -
  show "pa \<in> set (uvm_pages s) \<Longrightarrow> AVR32_PHYS_TO_P1 pa \<notin> pt_pages s"
    "pa \<in> set (uvm_pages s) \<Longrightarrow> t \<in> seg_tabs s ts \<Longrightarrow> trunc_page t \<noteq> AVR32_PHYS_TO_P1 pa"
  proof -
    have "AVR32_PHYS_TO_P1 ` set (uvm_pages s) \<inter> (pt_pages s \<union> trunc_page ` seg_tabs s ts) = {}"
      using assms by (simp add: alloc_ok_def)
    then show "pa \<in> set (uvm_pages s) \<Longrightarrow> AVR32_PHYS_TO_P1 pa \<notin> pt_pages s"
      "pa \<in> set (uvm_pages s) \<Longrightarrow> t \<in> seg_tabs s ts \<Longrightarrow> trunc_page t \<noteq> AVR32_PHYS_TO_P1 pa" by blast+
  qed
  have "pt_pages s \<inter> trunc_page ` seg_tabs s ts = {}" using assms by (simp add: alloc_ok_def)
  then show "p \<in> pt_pages s \<Longrightarrow> t \<in> seg_tabs s ts \<Longrightarrow> trunc_page t \<noteq> p" by blast
qed (use assms in \<open>simp_all add: alloc_ok_def\<close>)

lemma image_disjointI:
  assumes "\<And>x. x \<in> A \<Longrightarrow> f x \<notin> B" "\<And>x t. x \<in> A \<Longrightarrow> t \<in> T \<Longrightarrow> g t \<noteq> f x"
  shows "f ` A \<inter> (B \<union> g ` T) = {}"
proof (rule equals0I)
  fix y assume "y \<in> f ` A \<inter> (B \<union> g ` T)"
  then obtain x where "x \<in> A" "y = f x" "f x \<in> B \<or> (\<exists>t \<in> T. f x = g t)" by blast
  with assms(1) [of x] assms(2) [of x] show False by metis
qed

lemma alloc_okI:
  assumes "\<And>pm pm'. user_tab s pm \<Longrightarrow> user_tab s pm' \<Longrightarrow> pm_segtab (pmaps s pm) = pm_segtab (pmaps s pm') \<Longrightarrow> pm = pm'"
    "seg_chain (seg_mem s) (free_segtab s) ts" "distinct ts"
    "\<And>pm. user_tab s pm \<Longrightarrow> pm_segtab (pmaps s pm) \<notin> set ts"
    "distinct (uvm_pages s)" "set (uvm_pages s) \<subseteq> frames" "pt_pages s \<subseteq> AVR32_PHYS_TO_P1 ` frames"
    and u: "\<And>pa. pa \<in> set (uvm_pages s) \<Longrightarrow> AVR32_PHYS_TO_P1 pa \<notin> pt_pages s"
    "\<And>pa t. pa \<in> set (uvm_pages s) \<Longrightarrow> t \<in> seg_tabs s ts \<Longrightarrow> trunc_page t \<noteq> AVR32_PHYS_TO_P1 pa"
    and t: "\<And>p t. p \<in> pt_pages s \<Longrightarrow> t \<in> seg_tabs s ts \<Longrightarrow> trunc_page t \<noteq> p"
    and "distinct (pmap_pool s)" "\<And>pm. pm \<in> set (pmap_pool s) \<Longrightarrow> pm \<noteq> pmap_kernel \<and> pm_segtab (pmaps s pm) = 0"
  shows "alloc_ok s ts"
proof -
  have "AVR32_PHYS_TO_P1 ` set (uvm_pages s) \<inter> (pt_pages s \<union> trunc_page ` seg_tabs s ts) = {}"
    using u by (rule image_disjointI)
  moreover have "pt_pages s \<inter> trunc_page ` seg_tabs s ts = {}" using t by blast
  moreover have "\<forall>pm pm'. user_tab s pm \<and> user_tab s pm' \<and> pm_segtab (pmaps s pm) = pm_segtab (pmaps s pm') \<longrightarrow> pm = pm'"
    using assms(1) by metis
  moreover have "\<forall>pm. user_tab s pm \<longrightarrow> pm_segtab (pmaps s pm) \<notin> set ts" using assms(4) by blast
  moreover have "\<forall>pm \<in> set (pmap_pool s). pm \<noteq> pmap_kernel \<and> pm_segtab (pmaps s pm) = 0" using assms(12) by blast
  ultimately show ?thesis
    using assms(2,3,5-7,11) unfolding alloc_ok_def by - (intro conjI; assumption)
qed

text \<open>A fresh page of UVM is no table and no page of PTEs: clearing it touches none of them.\<close>

lemma pagealloc_frame:
  assumes "alloc_ok s ts" "uvm_pagealloc_zero s = (Some pa, s')"
  shows "uvm_pages s = pa # uvm_pages s'" "pa \<in> frames"
    "\<And>t. t \<in> seg_tabs s ts \<Longrightarrow> seg_mem s' t = seg_mem s t"
    "\<And>p. p \<in> pt_pages s \<Longrightarrow> pte_mem s' p = pte_mem s p"
    "pte_mem s' (AVR32_PHYS_TO_P1 pa) = (\<lambda>_. 0)" "seg_mem s' (AVR32_PHYS_TO_P1 pa) = (\<lambda>_. 0)"
    "seg_mem s' (AVR32_PHYS_TO_P1 pa + 2048) = (\<lambda>_. 0)"
    "s' = s\<lparr>uvm_pages := uvm_pages s', pte_mem := pte_mem s', seg_mem := seg_mem s'\<rparr>"
proof -
  obtain pas where pas: "uvm_pages s = pa # pas" and s': "s' = s\<lparr>uvm_pages := pas,
         pte_mem := (pte_mem s)(AVR32_PHYS_TO_P1 pa := (\<lambda>_. 0)),
         seg_mem := (seg_mem s)(AVR32_PHYS_TO_P1 pa := (\<lambda>_. 0), AVR32_PHYS_TO_P1 pa + 2048 := (\<lambda>_. 0))\<rparr>"
    using assms(2) by (auto simp: uvm_pagealloc_zero_def split: list.splits)
  show "pte_mem s' (AVR32_PHYS_TO_P1 pa) = (\<lambda>_. 0)" "seg_mem s' (AVR32_PHYS_TO_P1 pa) = (\<lambda>_. 0)"
    "seg_mem s' (AVR32_PHYS_TO_P1 pa + 2048) = (\<lambda>_. 0)"
    "s' = s\<lparr>uvm_pages := uvm_pages s', pte_mem := pte_mem s', seg_mem := seg_mem s'\<rparr>"
    by (simp_all add: s')
  show u: "uvm_pages s = pa # uvm_pages s'" by (simp add: pas s')
  then show fr: "pa \<in> frames" using alloc_okD(6) [OF assms(1)] by auto
  show "seg_mem s' t = seg_mem s t" if "t \<in> seg_tabs s ts" for t
  proof -
    have "trunc_page t \<noteq> AVR32_PHYS_TO_P1 pa" by (rule alloc_okD(9) [OF assms(1) _ that]) (simp add: u)
    then have "t \<noteq> AVR32_PHYS_TO_P1 pa" "t \<noteq> AVR32_PHYS_TO_P1 pa + 2048" using P1_bits(3,4) [OF fr] by metis+
    then show ?thesis by (simp add: s')
  qed
  show "pte_mem s' p = pte_mem s p" if "p \<in> pt_pages s" for p
  proof -
    have "AVR32_PHYS_TO_P1 pa \<notin> pt_pages s" by (rule alloc_okD(8) [OF assms(1)]) (simp add: u)
    then show ?thesis using that by (auto simp: s')
  qed
qed


text \<open>Carrying the invariant to a state with the same mappings.\<close>

lemma inv_transfer:
  assumes inv: "pmap_inv s" and inj: "pt_inj t"
    and m: "\<And>pm va e. mapped t pm va e \<longleftrightarrow> mapped s pm va e"
    and md: "\<And>g. md_wf (mdpage t g) = md_wf (mdpage s g) \<and> pv_pairs (mdpage t g) = pv_pairs (mdpage s g)"
    and ph: "vm_physmem t = vm_physmem s"
    and res: "\<And>pm. user_tab t pm \<Longrightarrow> resident_count (pmaps t pm) = (if user_tab s pm then resident_count (pmaps s pm) else 0)"
  shows "pmap_inv t"
proof -
  have phys: "PHYS_TO_VM_PAGE t pa = PHYS_TO_VM_PAGE s pa" for pa by (simp add: PHYS_TO_VM_PAGE_def ph)
  have pages: "resident_pages t pm = resident_pages s pm" for pm by (simp add: resident_pages_def m)
  have none: "pm \<noteq> pmap_kernel \<Longrightarrow> \<not> user_tab s pm \<Longrightarrow> resident_pages s pm = {}" for pm
    by (auto simp: resident_pages_def mapped_def va_ok_def)
  have "pv_inv t" using inv by (simp add: pmap_inv_def pv_inv_def m md phys)
  moreover have "res_inv t"
    unfolding res_inv_def
  proof (intro allI impI)
    fix pm assume a: "pm \<noteq> pmap_kernel \<and> pm_segtab (pmaps t pm) \<noteq> 0"
    show "resident_count (pmaps t pm) = int (card (resident_pages t pm))"
      using res [OF a] none [of pm] inv a unfolding pages by (auto simp: pmap_inv_def res_inv_def)
  qed
  ultimately show ?thesis using inj by (simp add: pmap_inv_def)
qed

lemma mapped_user:
  "pm \<noteq> pmap_kernel \<Longrightarrow> mapped s pm va e \<longleftrightarrow> page_aligned va \<and> va < VM_MAXUSER_ADDRESS \<and>
     pm_segtab (pmaps s pm) \<noteq> 0 \<and> pmap_segmap s pm va \<noteq> 0 \<and>
     e = pte_mem s (pmap_segmap s pm va) (pte_index va) \<and> pte_valid e"
  by (auto simp: mapped_def va_ok_def pte_get_def)

lemma mapped_kernel: "Sysmap t = Sysmap s \<Longrightarrow> mapped t pmap_kernel va e \<longleftrightarrow> mapped s pmap_kernel va e"
  by (simp add: mapped_def va_ok_def pte_get_def)

lemma pt_pagesI: "user_tab s pm \<Longrightarrow> i < PMAP_SEGTABSIZE \<Longrightarrow> seg_mem s (pm_segtab (pmaps s pm)) i \<noteq> 0 \<Longrightarrow>
    seg_mem s (pm_segtab (pmaps s pm)) i \<in> pt_pages s"
  unfolding pt_pages_def by blast

lemma seg_tabsI: "user_tab s pm \<Longrightarrow> pm_segtab (pmaps s pm) \<in> seg_tabs s ts" "t \<in> set ts \<Longrightarrow> t \<in> seg_tabs s ts"
  unfolding seg_tabs_def by blast+

section \<open>A page of PTEs for a segment\<close>

text \<open>
  \<open>seg_added s pm i p u\<close>: entry \<open>i\<close> of the segment table of \<open>pm\<close>, empty in \<open>s\<close>, points to the
  cleared page \<open>p\<close> in \<open>u\<close>; other tables and pages of PTEs are as they were.
\<close>

definition seg_added :: "pmap_st \<Rightarrow> nat \<Rightarrow> nat \<Rightarrow> u32 \<Rightarrow> pmap_st \<Rightarrow> bool" where
  "seg_added s pm i p u \<longleftrightarrow> user_tab s pm \<and> i < PMAP_SEGTABSIZE \<and> p \<noteq> 0 \<and> p \<notin> pt_pages s \<and>
     seg_mem s (pm_segtab (pmaps s pm)) i = 0 \<and> pmaps u = pmaps s \<and>
     (\<forall>pm' j. user_tab s pm' \<longrightarrow> seg_mem u (pm_segtab (pmaps s pm')) j =
        (if pm' = pm \<and> j = i then p else seg_mem s (pm_segtab (pmaps s pm')) j)) \<and>
     (\<forall>q \<in> pt_pages s. pte_mem u q = pte_mem s q) \<and> pte_mem u p = (\<lambda>_. 0)"

lemma seg_added_seg:
  "seg_added s pm i p u \<Longrightarrow> user_tab s pm' \<Longrightarrow> seg_mem u (pm_segtab (pmaps s pm')) j =
     (if pm' = pm \<and> j = i then p else seg_mem s (pm_segtab (pmaps s pm')) j)"
  unfolding seg_added_def by blast

lemma seg_added_pages:
  assumes "seg_added s pm i p u"
  shows "pt_pages u = insert p (pt_pages s)"
proof -
  have 0: "user_tab s pm" "i < PMAP_SEGTABSIZE" "p \<noteq> 0" "pmaps u = pmaps s" "seg_mem s (pm_segtab (pmaps s pm)) i = 0"
    using assms by (simp_all add: seg_added_def)
  have "x \<in> pt_pages u \<longleftrightarrow> x \<in> insert p (pt_pages s)" for x
  proof
    assume "x \<in> pt_pages u"
    then obtain pm' j where "user_tab s pm'" "j < PMAP_SEGTABSIZE" "x = seg_mem u (pm_segtab (pmaps s pm')) j" "x \<noteq> 0"
      by (auto simp: pt_pages_def 0(4))
    then show "x \<in> insert p (pt_pages s)"
      using seg_added_seg [OF assms, of pm' j] pt_pagesI [of pm' s j] by (auto split: if_splits)
  next
    assume "x \<in> insert p (pt_pages s)"
    then obtain pm' j where j: "user_tab s pm'" "j < PMAP_SEGTABSIZE"
      "x = seg_mem u (pm_segtab (pmaps s pm')) j" "x \<noteq> 0"
    proof (cases "x = p")
      case True
      then show ?thesis using that [of pm i] 0 seg_added_seg [OF assms 0(1), of i] by simp
    next
      case False
      assume "x \<in> insert p (pt_pages s)"
      with False obtain pm' j where "user_tab s pm'" "j < PMAP_SEGTABSIZE"
        "x = seg_mem s (pm_segtab (pmaps s pm')) j" "x \<noteq> 0" by (auto simp: pt_pages_def)
      moreover have "\<not> (pm' = pm \<and> j = i)" using calculation 0(5) by auto
      ultimately show ?thesis using that [of pm' j] seg_added_seg [OF assms, of pm' j] by (metis (no_types))
    qed
    with pt_pagesI [of pm' u j] show "x \<in> pt_pages u" by (simp add: 0(4))
  qed
  then show ?thesis by blast
qed

lemma seg_added_inj:
  assumes a: "seg_added s pm i p u" and inj: "pt_inj s"
  shows "pt_inj u"
  unfolding pt_inj_def
proof (intro allI impI, elim conjE)
  have e: "pmaps u = pmaps s" and np: "p \<notin> pt_pages s" using a by (simp_all add: seg_added_def)
  fix pm1 pm2 j1 j2
  assume h: "pm1 \<noteq> pmap_kernel" "pm2 \<noteq> pmap_kernel" "pm_segtab (pmaps u pm1) \<noteq> 0" "pm_segtab (pmaps u pm2) \<noteq> 0"
    "j1 < PMAP_SEGTABSIZE" "j2 < PMAP_SEGTABSIZE" "seg_mem u (pm_segtab (pmaps u pm1)) j1 \<noteq> 0"
    "seg_mem u (pm_segtab (pmaps u pm1)) j1 = seg_mem u (pm_segtab (pmaps u pm2)) j2"
  have "seg_mem s (pm_segtab (pmaps s q)) j \<noteq> p" if "user_tab s q" "j < PMAP_SEGTABSIZE" for q j
    using np pt_pagesI [OF that] a by (auto simp: seg_added_def)
  with h show "pm1 = pm2 \<and> j1 = j2"
    using seg_added_seg [OF a, of pm1 j1] seg_added_seg [OF a, of pm2 j2] pt_injD [OF inj, of pm1 pm2 j1 j2]
    unfolding e by (simp split: if_splits) metis+
qed

lemma seg_added_mapped:
  assumes a: "seg_added s pm i p u" and k: "Sysmap u = Sysmap s"
  shows "mapped u pm' va e \<longleftrightarrow> mapped s pm' va e"
proof (cases "user_tab s pm' \<and> va < VM_MAXUSER_ADDRESS")
  case False
  then show ?thesis using mapped_kernel [OF k] a by (cases "pm' = pmap_kernel") (auto simp: mapped_user seg_added_def)
next
  case True
  have e: "pmaps u = pmaps s" "pte_mem u p = (\<lambda>_. 0)" "seg_mem s (pm_segtab (pmaps s pm)) i = 0"
    and q: "\<And>q. q \<in> pt_pages s \<Longrightarrow> pte_mem u q = pte_mem s q"
    using a by (simp_all add: seg_added_def)
  have pg: "pmap_segmap s pm' va \<in> pt_pages s" if "pmap_segmap s pm' va \<noteq> 0"
    using pt_pagesI [of pm' s "seg_index va"] that True seg_index_bound [of va] by (simp add: pmap_segmap_def)
  have "pmap_segmap u pm' va = (if pm' = pm \<and> seg_index va = i then p else pmap_segmap s pm' va)"
    using seg_added_seg [OF a, of pm' "seg_index va"] True by (simp add: pmap_segmap_def e(1))
  moreover have "pm' = pm \<and> seg_index va = i \<Longrightarrow> pmap_segmap s pm' va = 0" by (simp add: pmap_segmap_def e(3))
  ultimately show ?thesis using True pg q e by (auto simp: mapped_user)
qed

lemma segmap_alloc_step:
  assumes al: "alloc_ok s ts" and tab: "user_tab s pm" and va: "va < VM_MAXUSER_ADDRESS"
    and no: "pmap_segmap s pm va = 0" and alloc: "uvm_pagealloc_zero s = (Some pa, s1)"
  defines "u \<equiv> s1\<lparr>seg_mem := (seg_mem s1)(pm_segtab (pmaps s pm) :=
                   (seg_mem s1 (pm_segtab (pmaps s pm)))(seg_index va := AVR32_PHYS_TO_P1 pa))\<rparr>"
  shows "pmap_segmap_alloc pm va flags s = Ok (True, u)" "seg_added s pm (seg_index va) (AVR32_PHYS_TO_P1 pa) u"
    "alloc_ok u ts" "u = s\<lparr>uvm_pages := uvm_pages u, pte_mem := pte_mem u, seg_mem := seg_mem u\<rparr>"
proof -
  note fr = pagealloc_frame [OF al alloc]
  let ?t = "pm_segtab (pmaps s pm)" and ?i = "seg_index va" and ?p = "AVR32_PHYS_TO_P1 pa"
  have s1: "pmaps s1 = pmaps s" "free_segtab s1 = free_segtab s" "pmap_pool s1 = pmap_pool s"
    by (subst fr(8), simp)+
  show "pmap_segmap_alloc pm va flags s = Ok (True, u)"
    using no by (simp add: pmap_segmap_alloc_def alloc u_def s1 Let_def)
  show ueq: "u = s\<lparr>uvm_pages := uvm_pages u, pte_mem := pte_mem u, seg_mem := seg_mem u\<rparr>"
    unfolding u_def by (subst fr(8), simp)
  have np: "?p \<notin> pt_pages s" by (rule alloc_okD(8) [OF al]) (simp add: fr(1))
  have seg: "seg_mem u (pm_segtab (pmaps s pm')) j =
      (if pm' = pm \<and> j = ?i then ?p else seg_mem s (pm_segtab (pmaps s pm')) j)" if "user_tab s pm'" for pm' j
    using fr(3) [OF seg_tabsI(1) [OF that]] alloc_okD(1) [OF al that tab] by (auto simp: u_def)
  show add: "seg_added s pm ?i ?p u"
    unfolding seg_added_def
  proof (intro conjI allI impI ballI)
    show "seg_mem s ?t ?i = 0" using no by (simp add: pmap_segmap_def)
    show "pmaps u = pmaps s" "pte_mem u ?p = (\<lambda>_. 0)" by (simp_all add: u_def s1 fr(5))
    show "pte_mem u q = pte_mem s q" if "q \<in> pt_pages s" for q using fr(4) [OF that] by (simp add: u_def)
  qed (use tab seg_index_bound [OF va] P1_bits(2) [OF fr(2)] np seg in blast)+
  have tabs: "seg_tabs u ts = seg_tabs s ts" "pmaps u = pmaps s" by (simp_all add: seg_tabs_def u_def s1)
  have chain: "seg_chain (seg_mem u) (free_segtab s) ts"
  proof -
    have "seg_mem u t = seg_mem s t" if t: "t \<in> set ts" for t
    proof -
      have "t \<noteq> ?t" using alloc_okD(4) [OF al tab] t by blast
      then show ?thesis unfolding u_def by (simp add: fr(3) [OF seg_tabsI(2) [OF t]])
    qed
    then show ?thesis using alloc_okD(2) [OF al] seg_chain_cong [of ts "seg_mem u" "seg_mem s"] by simp
  qed
  have uu: "uvm_pages u = uvm_pages s1" "free_segtab u = free_segtab s" "pmap_pool u = pmap_pool s"
    by (simp_all add: u_def s1)
  have dis: "pa \<notin> set (uvm_pages s1)" "distinct (uvm_pages s1)" "set (uvm_pages s1) \<subseteq> frames"
    using alloc_okD(5,6) [OF al] by (auto simp: fr(1))
  have P1: "AVR32_PHYS_TO_P1 x \<noteq> ?p" if "x \<in> set (uvm_pages s1)" for x
    using P1_inj [OF _ fr(2), of x] that dis by blast
  show "alloc_ok u ts"
  proof (rule alloc_okI, unfold tabs uu seg_added_pages [OF add])
    show "AVR32_PHYS_TO_P1 x \<notin> insert ?p (pt_pages s)" if "x \<in> set (uvm_pages s1)" for x
      using alloc_okD(8) [OF al, of x] P1 [OF that] that by (simp add: fr(1))
    show "trunc_page t \<noteq> AVR32_PHYS_TO_P1 x" if "x \<in> set (uvm_pages s1)" "t \<in> seg_tabs s ts" for x t
      using alloc_okD(9) [OF al _ that(2), of x] that(1) by (simp add: fr(1))
    show "trunc_page t \<noteq> p" if "p \<in> insert ?p (pt_pages s)" "t \<in> seg_tabs s ts" for p t
      using alloc_okD(9) [OF al _ that(2), of pa] alloc_okD(10) [OF al _ that(2)] that(1) by (auto simp: fr(1))
    show "insert ?p (pt_pages s) \<subseteq> AVR32_PHYS_TO_P1 ` frames" using alloc_okD(7) [OF al] fr(2) by blast
    show "\<And>pm pm'. user_tab s pm \<Longrightarrow> user_tab s pm' \<Longrightarrow> pm_segtab (pmaps s pm) = pm_segtab (pmaps s pm') \<Longrightarrow> pm = pm'"
      by (rule alloc_okD(1) [OF al])
  qed (use alloc_okD(3,4,11,12) [OF al] chain dis in simp_all)
qed

lemma segmap_alloc_ok:
  assumes inv: "pmap_inv s" and al: "alloc_ok s ts" and tab: "user_tab s pm" and va: "va < VM_MAXUSER_ADDRESS"
    and avail: "pmap_segmap s pm va \<noteq> 0 \<or> uvm_pages s \<noteq> []"
  shows "\<exists>t. pmap_segmap_alloc pm va flags s = Ok (True, t) \<and> pmap_inv t \<and> alloc_ok t ts \<and>
     pmap_segmap t pm va \<noteq> 0 \<and> (\<forall>pm va e. mapped t pm va e \<longleftrightarrow> mapped s pm va e) \<and>
     t = s\<lparr>uvm_pages := uvm_pages t, pte_mem := pte_mem t, seg_mem := seg_mem t\<rparr>"
proof (cases "pmap_segmap s pm va = 0")
  case False
  then show ?thesis using inv al by (auto simp: pmap_segmap_alloc_def)
next
  case True
  then obtain pa s1 where alloc: "uvm_pagealloc_zero s = (Some pa, s1)"
    using avail by (cases "uvm_pages s") (auto simp: uvm_pagealloc_zero_def)
  note st = segmap_alloc_step [OF al tab va True alloc]
  define u where "u = s1\<lparr>seg_mem := (seg_mem s1)(pm_segtab (pmaps s pm) :=
                   (seg_mem s1 (pm_segtab (pmaps s pm)))(seg_index va := AVR32_PHYS_TO_P1 pa))\<rparr>"
  note st = st [folded u_def]
  have eq: "pmaps u = pmaps s" "mdpage u = mdpage s" "vm_physmem u = vm_physmem s" "Sysmap u = Sysmap s"
    by (subst st(4), simp)+
  have m: "mapped u pm' va' e \<longleftrightarrow> mapped s pm' va' e" for pm' va' e by (rule seg_added_mapped [OF st(2) eq(4)])
  have "pt_inj u" using inv by (intro seg_added_inj [OF st(2)]) (simp add: pmap_inv_def)
  then have "pmap_inv u" by (rule inv_transfer [OF inv _ m]) (simp_all add: eq)
  moreover have "pmap_segmap u pm va \<noteq> 0"
    using seg_added_seg [OF st(2) tab, of "seg_index va"] st(2) by (simp add: pmap_segmap_def eq(1) seg_added_def)
  ultimately show ?thesis using st(1,3,4) m by blast
qed

section \<open>Entering a user mapping\<close>

definition enter_pte :: "nat \<Rightarrow> paddr \<Rightarrow> u32 \<Rightarrow> u32 \<Rightarrow> u32 \<Rightarrow> u32" where
  "enter_pte pm pa prot flags attrs =
     (pa OR pte_prot pm prot OR AVR32_PTE_VALID OR AVR32_PG_CACHED OR AVR32_PG_SIZE_4K) OR
     (if prot AND VM_PROT_WRITE \<noteq> 0 \<and> pmap_enter_attrs flags attrs AND PV_MODIFIED \<noteq> 0 then AVR32_PG_DIRTY else 0) OR
     (if flags AND PMAP_WIRED \<noteq> 0 then AVR32_PTE_WIRED else 0)"

lemma enter_pte_bits:
  assumes "pa AND AVR32_PG_FRAME = pa" "unat prot < 8"
  shows "pte_valid (enter_pte pm pa prot flags attrs)"
    "avr32_tlbpfn_to_paddr (enter_pte pm pa prot flags attrs) = pa"
proof -
  have v: "(x OR y) AND (m :: u32) = (x AND m) OR (y AND m)" for x y m by (rule and_or_distrib_left)
  note p = pte_prot_bits [OF assms(2), of pm]
  show "avr32_tlbpfn_to_paddr (enter_pte pm pa prot flags attrs) = pa"
    unfolding avr32_tlbpfn_to_paddr_def enter_pte_def v p(2) using assms(1) by simp
  have "pa AND AVR32_PTE_VALID = (pa AND AVR32_PG_FRAME) AND AVR32_PTE_VALID" using assms(1) by simp
  also have "\<dots> = 0" by (simp add: and.assoc)
  finally show "pte_valid (enter_pte pm pa prot flags attrs)"
    unfolding enter_pte_def v p(1) by (simp add: or_eq_0_iff)
qed


lemma same_env_hw: "same_env s (s\<lparr>hw := h\<rparr>)"
  by (simp add: same_env_def)

lemma mapped_hw: "mapped (s\<lparr>hw := h\<rparr>) pm va e = mapped s pm va e"
  by (simp add: mapped_def va_ok_def)

lemma pv_entered_wired:
  "pv_entered s pm va pg t \<Longrightarrow> pv_entered s pm va pg (pmap_upd pm (\<lambda>p. p\<lparr>wired_count := wired_count p + 1\<rparr>) t)"
  by (simp add: pv_entered_def same_env_def)

lemma attrs_inv:
  fixes pg a :: u32
  assumes "pmap_inv s" "alloc_ok s ts"
  defines "t \<equiv> md_upd pg (\<lambda>md. md\<lparr>pvh_attrs := a\<rparr>) s"
  shows "pmap_inv t" "alloc_ok t ts" "pv_pairs (mdpage t g) = pv_pairs (mdpage s g)" "mapped t pm va e = mapped s pm va e"
proof -
  have env: "same_env s t" by (simp add: t_def same_env_def)
  then show "alloc_ok t ts" using assms(2) same_env_alloc by blast
  show pairs: "pv_pairs (mdpage t g) = pv_pairs (mdpage s g)" for g by (simp add: t_def pv_pairs_def pv_entries_def)
  show m: "mapped t pm va e = mapped s pm va e" for pm va e
    by (simp add: mapped_def same_envD(1) [OF env]) (simp add: t_def)
  have "pt_inj t" using assms(1) by (simp add: pmap_inv_def same_envD(3) [OF env])
  then show "pmap_inv t"
    by (rule inv_transfer [OF assms(1) _ m]) (simp_all add: pairs, simp_all add: t_def md_wf_def)
qed

text \<open>The last part of \<open>pmap_enter_user\<close>, after the page table write: TLB and instruction cache.\<close>

lemma pmap_enter_user_eq:
  fixes npte0 pa flags :: u32
  assumes "va < VM_MAXUSER_ADDRESS" "pmap_segmap_alloc pm va flags s = Ok (True, s1)"
    "pmap_enter_pv pm va pg s1 = Ok d"
  defines "npte \<equiv> (npte0 OR (avr32_paddr_to_tlbpfn pa OR AVR32_PTE_VALID OR AVR32_PG_CACHED OR AVR32_PG_SIZE_4K))
      OR (if flags AND PMAP_WIRED \<noteq> 0 then AVR32_PTE_WIRED else 0)"
  assumes "pmap_enter_write pm va pa npte
      (if flags AND PMAP_WIRED \<noteq> 0 then pmap_upd pm (\<lambda>p. p\<lparr>wired_count := wired_count p + 1\<rparr>) d else d) = Ok u"
  shows "\<exists>h. pmap_enter_user pm va pa prot flags npte0 pg s = Ok (0, u\<lparr>hw := h\<rparr>)"
proof -
  have self: "\<exists>h. t = t\<lparr>hw := h\<rparr>" for t :: pmap_st by (rule exI [of _ "hw t"]) simp
  have self2: "\<exists>h. hw_op x t = t\<lparr>hw := h\<rparr>" "\<exists>h. tlb_update y z t = t\<lparr>hw := h\<rparr>"
    "\<exists>h. hw_op x (tlb_update y z t) = t\<lparr>hw := h\<rparr>" for t :: pmap_st and x y z
    by (auto simp: hw_op_def tlb_update_def)
  show ?thesis
    using assms(1-3,5) self self2
    by (cases "flags AND PMAP_WIRED \<noteq> 0") (simp_all add: pmap_enter_user_def npte_def Let_def not_le [symmetric])
qed


text \<open>The effect of \<open>pmap_enter\<close> on the mappings of all pmaps.\<close>

definition entered :: "pmap_st \<Rightarrow> nat \<Rightarrow> vaddr \<Rightarrow> u32 \<Rightarrow> u32 \<Rightarrow> pmap_st \<Rightarrow> bool" where
  "entered s pm va npte pg t \<longleftrightarrow> mapped t pm va npte \<and>
     (\<forall>pm' va' e. (pm', va') \<noteq> (pm, va) \<longrightarrow>
        (mapped t pm' va' e \<longleftrightarrow> mapped s pm' va' e \<and>
           \<not> ((pm', va') \<in> set (pv_pairs (mdpage s pg)) \<and>
              avr32_cache_indexof s va' \<noteq> avr32_cache_indexof s va)))"

lemma evicted_mapped:
  assumes "evicted s pg va t"
  shows "mapped t pm' va' e \<longleftrightarrow> mapped s pm' va' e \<and>
     \<not> ((pm', va') \<in> set (pv_pairs (mdpage s pg)) \<and> avr32_cache_indexof s va' \<noteq> avr32_cache_indexof s va)"
proof (cases "va_ok s pm' va'")
  case True
  have env: "same_env s t" using assms by (simp add: evicted_def)
  have "pte_get t pm' va' = (if (pm', va') \<in> set (pv_pairs (mdpage s pg)) \<and>
            avr32_cache_indexof s va' \<noteq> avr32_cache_indexof s va
         then cleared (pte_get s pm' va') else pte_get s pm' va')"
    using assms True by (simp add: evicted_def)
  then show ?thesis
    using True by (auto simp: mapped_def same_envD(1) [OF env] cleared_def split: option.splits if_splits)
next
  case False
  moreover have env: "same_env s t" using assms by (simp add: evicted_def)
  ultimately show ?thesis by (simp add: mapped_def same_envD(1) [OF env])
qed

lemma updates_mapped:
  assumes "updates (\<lambda>_. Some npte) s pm {va} u" "va_ok s pm va" "pte_valid npte"
  shows "mapped u pm' va' e \<longleftrightarrow> (if (pm', va') = (pm, va) then e = npte else mapped s pm' va' e)"
proof -
  have "pte_get u pm' va' = (if pm' = pm \<and> va' = va then Some npte else pte_get s pm' va')" if "va_ok s pm' va'"
    using updatesD [OF assms(1) that] by simp
  then show ?thesis using assms(2,3) by (auto simp: mapped_def same_envD(1) [OF updates_env [OF assms(1)]])
qed

lemma pte_or_ac: "(((p OR c) OR d) OR (a OR v OR c OR k)) OR w = (a OR p OR v OR c OR k) OR d OR (w :: u32)"
  by (auto simp: bit_eq_iff bit_simps)

definition same_asids :: "pmap_st \<Rightarrow> pmap_st \<Rightarrow> bool" where
  "same_asids s t \<longleftrightarrow> pmap_asid_generation t = pmap_asid_generation s \<and> pmap_next_asid t = pmap_next_asid s \<and>
     pmap_max_asid t = pmap_max_asid s \<and>
     (\<forall>p. pm_asid (pmaps t p) = pm_asid (pmaps s p) \<and> pm_asidgen (pmaps t p) = pm_asidgen (pmaps s p))"

lemma same_env_asids: "same_env s t \<Longrightarrow> same_asids s t"
  by (simp add: same_env_def same_asids_def)

theorem pmap_enter_user_ok:
  assumes inv: "pmap_inv s" "alloc_ok s ts" and pm: "user_tab s pm"
    and va: "page_aligned va" "va < VM_MAXUSER_ADDRESS"
    and pa: "pa AND AVR32_PG_FRAME = pa" "PHYS_TO_VM_PAGE s pa = Some pg" and prot: "unat prot < 8"
    and ali: "no_kernel_alias s pg va" and pool: "pv_pool s \<noteq> []"
    and avail: "pmap_segmap s pm va \<noteq> 0 \<or> uvm_pages s \<noteq> []"
  shows "\<exists>t. pmap_enter pm va pa prot flags s = Ok (0, t) \<and> pmap_inv t \<and> alloc_ok t ts \<and>
     entered s pm va (enter_pte pm pa prot flags (pvh_attrs (mdpage s pg))) pg t \<and> same_asids s t"
proof -
  let ?at = "pmap_enter_attrs flags (pvh_attrs (mdpage s pg))"
  let ?npte = "enter_pte pm pa prot flags (pvh_attrs (mdpage s pg))"
  define a where "a = md_upd pg (\<lambda>md. md\<lparr>pvh_attrs := ?at\<rparr>) s"
  note ai = attrs_inv [OF inv, of pg ?at, folded a_def]
  have aeq: "pmaps a = pmaps s" "seg_mem a = seg_mem s" "uvm_pages a = uvm_pages s" "pv_pool a = pv_pool s"
    "vm_physmem a = vm_physmem s" "alias_mask a = alias_mask s" by (simp_all add: a_def)
  obtain b where b: "pmap_segmap_alloc pm va flags a = Ok (True, b)" "pmap_inv b" "alloc_ok b ts"
      "pmap_segmap b pm va \<noteq> 0" "\<And>pm va e. mapped b pm va e \<longleftrightarrow> mapped a pm va e"
      "b = a\<lparr>uvm_pages := uvm_pages b, pte_mem := pte_mem b, seg_mem := seg_mem b\<rparr>"
    using segmap_alloc_ok [OF ai(1,2), of pm va flags] pm va avail by (auto simp: aeq pmap_segmap_def)
  have beq: "pmaps b = pmaps s" "pv_pool b = pv_pool s" "vm_physmem b = vm_physmem s" "mdpage b = mdpage a"
    "alias_mask b = alias_mask s"
    by (subst b(6), simp add: aeq)+
  have idx: "avr32_cache_indexof b = avr32_cache_indexof s" by (rule ext) (simp add: avr32_cache_indexof_def beq)
  have "no_kernel_alias b pg va" using ali by (simp add: no_kernel_alias_def idx beq ai(3))
  from enter_pv_ok [OF b(2) this, of pm] pool obtain c d where
    cd: "evicted b pg va c" "pv_entered c pm va pg d" "pmap_enter_pv pm va pg b = Ok d" by (auto simp: beq)
  define d' where "d' = (if flags AND PMAP_WIRED \<noteq> 0
      then pmap_upd pm (\<lambda>p. p\<lparr>wired_count := wired_count p + 1\<rparr>) d else d)"
  have d': "pv_entered c pm va pg d'" using cd(2) pv_entered_wired by (simp add: d'_def)
  have c: "pmap_inv c" "same_env b c" using cd(1) by (simp_all add: evicted_def)
  have ok: "va_ok c pm va" using pm va by (simp add: same_envD(1) [OF c(2)]) (simp add: va_ok_def beq)
  have get: "pte_get c pm va \<noteq> None" using b(4) by (simp add: pte_get_None_iff same_envD(2) [OF c(2)])
  have phys: "PHYS_TO_VM_PAGE c pa = Some pg"
    using pa(2) by (simp add: same_envD(4) [OF c(2)]) (simp add: PHYS_TO_VM_PAGE_def beq)
  note np = enter_pte_bits [OF pa(1) prot, of pm flags "pvh_attrs (mdpage s pg)"]
  obtain u where u: "pmap_enter_write pm va pa ?npte d' = Ok u" "pmap_inv u" "updates (\<lambda>_. Some ?npte) c pm {va} u"
    using enter_write_ok [OF c(1) d' _ ok get np phys] pm by blast
  have m: "entered s pm va ?npte pg (u\<lparr>hw := h\<rparr>)" for h
    unfolding entered_def mapped_hw updates_mapped [OF u(3) ok np(1)] evicted_mapped [OF cd(1)]
    by (auto simp: b(5) ai idx beq)
  define n0 where "n0 = (pte_prot pm prot OR AVR32_PG_CACHED) OR
     (if prot AND VM_PROT_WRITE \<noteq> 0 \<and> ?at AND PV_MODIFIED \<noteq> 0 then AVR32_PG_DIRTY else 0)"
  have eq: "(n0 OR (avr32_paddr_to_tlbpfn pa OR AVR32_PTE_VALID OR AVR32_PG_CACHED OR AVR32_PG_SIZE_4K))
      OR (if flags AND PMAP_WIRED \<noteq> 0 then AVR32_PTE_WIRED else 0) = ?npte"
    unfolding n0_def enter_pte_def avr32_paddr_to_tlbpfn_def pa(1) by (rule pte_or_ac)
  have "pmap_enter pm va pa prot flags s = pmap_enter_user pm va pa prot flags n0 pg a"
    using pm by (auto simp: pmap_enter_def pa(2) Let_def a_def n0_def)
  moreover obtain h where "pmap_enter_user pm va pa prot flags n0 pg a = Ok (0, u\<lparr>hw := h\<rparr>)"
    using pmap_enter_user_eq [OF va(2) b(1) cd(3), of pa n0 u prot] u(1) unfolding eq d'_def by blast
  moreover have env: "same_env b (u\<lparr>hw := h\<rparr>)" for h
    by (rule same_env_trans [OF same_env_trans [OF c(2) updates_env [OF u(3)]] same_env_hw])
  moreover have "alloc_ok (u\<lparr>hw := h\<rparr>) ts" for h using same_env_alloc [OF env] b(3) by blast
  moreover have "same_asids s b" by (subst b(6)) (simp add: same_asids_def a_def)
  then have "same_asids s (u\<lparr>hw := h\<rparr>)" for h using same_env_asids [OF env, of h] by (simp add: same_asids_def)
  ultimately show ?thesis using u(2) m by auto
qed

end
