(* ===== verification/Pmap_Life.thy ===== *)
theory Pmap_Life
  imports Pmap_Alloc
begin

text \<open>
  Creation and destruction of pmaps. \<open>pmap_create\<close> takes a segment table from the free list or
  half of a fresh page, \<open>pmap_destroy\<close> returns the pages of PTEs and the table; both keep every
  mapping of every other pmap and the ownership of memory.
\<close>

section \<open>Creation\<close>

text \<open>\<open>tab_added s pm t u\<close>: \<open>pm\<close>, without a table in \<open>s\<close>, has the empty table \<open>t\<close> in \<open>u\<close>.\<close>

definition tab_added :: "pmap_st \<Rightarrow> nat \<Rightarrow> u32 \<Rightarrow> pmap_st \<Rightarrow> bool" where
  "tab_added s pm t u \<longleftrightarrow> pm \<noteq> pmap_kernel \<and> pm_segtab (pmaps s pm) = 0 \<and> t \<noteq> 0 \<and>
     (\<forall>i < PMAP_SEGTABSIZE. seg_mem u t i = 0) \<and> pm_segtab (pmaps u pm) = t \<and> resident_count (pmaps u pm) = 0 \<and>
     (\<forall>pm'. pm' \<noteq> pm \<longrightarrow> pmaps u pm' = pmaps s pm') \<and>
     (\<forall>pm'. user_tab s pm' \<longrightarrow> seg_mem u (pm_segtab (pmaps s pm')) = seg_mem s (pm_segtab (pmaps s pm'))) \<and>
     (\<forall>q \<in> pt_pages s. pte_mem u q = pte_mem s q) \<and>
     Sysmap u = Sysmap s \<and> mdpage u = mdpage s \<and> vm_physmem u = vm_physmem s"

lemma tab_addedD:
  assumes "tab_added s pm t u"
  shows "pm \<noteq> pmap_kernel" "pm_segtab (pmaps s pm) = 0" "t \<noteq> 0" "i < PMAP_SEGTABSIZE \<Longrightarrow> seg_mem u t i = 0"
    "pm_segtab (pmaps u pm) = t" "resident_count (pmaps u pm) = 0" "pm' \<noteq> pm \<Longrightarrow> pmaps u pm' = pmaps s pm'"
    "user_tab s pm' \<Longrightarrow> seg_mem u (pm_segtab (pmaps s pm')) = seg_mem s (pm_segtab (pmaps s pm'))"
    "q \<in> pt_pages s \<Longrightarrow> pte_mem u q = pte_mem s q" "Sysmap u = Sysmap s" "mdpage u = mdpage s" "vm_physmem u = vm_physmem s"
  using assms by (simp_all add: tab_added_def)

lemma tab_added_user: "tab_added s pm t u \<Longrightarrow> user_tab u pm' \<longleftrightarrow> pm' = pm \<or> user_tab s pm'"
  by (cases "pm' = pm") (simp_all add: tab_added_def)

lemma tab_added_seg:
  assumes "tab_added s pm t u" "user_tab u pm'" "i < PMAP_SEGTABSIZE"
  shows "seg_mem u (pm_segtab (pmaps u pm')) i = (if pm' = pm then 0 else seg_mem s (pm_segtab (pmaps s pm')) i)"
  using tab_addedD(4,5,7,8) [OF assms(1)] tab_added_user [OF assms(1), of pm'] assms(2,3)
  by (cases "pm' = pm") auto

lemma tab_added_pages:
  assumes "tab_added s pm t u"
  shows "pt_pages u = pt_pages s"
proof -
  have "x \<in> pt_pages u \<longleftrightarrow> x \<in> pt_pages s" for x
  proof
    assume "x \<in> pt_pages u"
    then obtain pm' i where "user_tab u pm'" "i < PMAP_SEGTABSIZE" "x = seg_mem u (pm_segtab (pmaps u pm')) i" "x \<noteq> 0"
      by (auto simp: pt_pages_def)
    then show "x \<in> pt_pages s"
      using tab_added_seg [OF assms, of pm' i] tab_added_user [OF assms, of pm'] pt_pagesI [of pm' s i]
      by (cases "pm' = pm") auto
  next
    assume "x \<in> pt_pages s"
    then obtain pm' i where *: "user_tab s pm'" "i < PMAP_SEGTABSIZE" "x = seg_mem s (pm_segtab (pmaps s pm')) i" "x \<noteq> 0"
      by (auto simp: pt_pages_def)
    then have "pm' \<noteq> pm" "user_tab u pm'" using tab_addedD(2) [OF assms] tab_added_user [OF assms] by auto
    with * show "x \<in> pt_pages u"
      using tab_added_seg [OF assms, of pm' i] pt_pagesI [of pm' u i] by auto
  qed
  then show ?thesis by blast
qed

lemma tab_added_inj:
  assumes a: "tab_added s pm t u" and inj: "pt_inj s"
  shows "pt_inj u"
  unfolding pt_inj_def
proof (intro allI impI, elim conjE)
  fix p1 p2 i1 i2
  assume h: "p1 \<noteq> pmap_kernel" "p2 \<noteq> pmap_kernel" "pm_segtab (pmaps u p1) \<noteq> 0" "pm_segtab (pmaps u p2) \<noteq> 0"
    "i1 < PMAP_SEGTABSIZE" "i2 < PMAP_SEGTABSIZE" "seg_mem u (pm_segtab (pmaps u p1)) i1 \<noteq> 0"
    "seg_mem u (pm_segtab (pmaps u p1)) i1 = seg_mem u (pm_segtab (pmaps u p2)) i2"
  then have "p1 \<noteq> pm" "p2 \<noteq> pm"
    using tab_added_seg [OF a, of p1 i1] tab_added_seg [OF a, of p2 i2] by auto
  with h show "p1 = p2 \<and> i1 = i2"
    using tab_added_seg [OF a, of p1 i1] tab_added_seg [OF a, of p2 i2] tab_addedD(7) [OF a, of p1]
      tab_addedD(7) [OF a, of p2] pt_injD [OF inj, of p1 p2 i1 i2] by auto
qed

lemma tab_added_mapped:
  assumes a: "tab_added s pm t u"
  shows "mapped u pm' va e \<longleftrightarrow> mapped s pm' va e"
proof (cases "user_tab s pm' \<and> va < VM_MAXUSER_ADDRESS")
  case True
  then have ne: "pm' \<noteq> pm" using tab_addedD(2) [OF a] by auto
  have "pmap_segmap s pm' va \<in> pt_pages s" if "pmap_segmap s pm' va \<noteq> 0"
    using pt_pagesI [of pm' s "seg_index va"] that True seg_index_bound [of va] by (simp add: pmap_segmap_def)
  moreover have "pmap_segmap u pm' va = pmap_segmap s pm' va"
    using True tab_addedD(8) [OF a, of pm'] tab_addedD(7) [OF a ne] by (simp add: pmap_segmap_def)
  ultimately show ?thesis using True tab_addedD(7) [OF a ne] tab_addedD(9) [OF a] by (auto simp: mapped_user)
next
  case False
  show ?thesis
  proof (cases "pm' = pm")
    case True
    have "pmap_segmap u pm va = 0" if "va < VM_MAXUSER_ADDRESS"
      using tab_addedD(4,5) [OF a] seg_index_bound [OF that] by (simp add: pmap_segmap_def)
    then show ?thesis using True tab_addedD(1,2) [OF a] by (auto simp: mapped_user)
  next
    case ne: False
    then show ?thesis using False tab_addedD(7) [OF a ne] mapped_kernel [OF tab_addedD(10) [OF a]]
      by (cases "pm' = pmap_kernel") (auto simp: mapped_user)
  qed
qed

lemma tab_added_inv:
  assumes "tab_added s pm t u" "pmap_inv s"
  shows "pmap_inv u"
proof (rule inv_transfer [OF assms(2) _ tab_added_mapped [OF assms(1)]])
  show "pt_inj u" using assms(2) by (intro tab_added_inj [OF assms(1)]) (simp add: pmap_inv_def)
  show "md_wf (mdpage u g) = md_wf (mdpage s g) \<and> pv_pairs (mdpage u g) = pv_pairs (mdpage s g)" for g
    by (simp add: tab_addedD(11) [OF assms(1)])
  show "vm_physmem u = vm_physmem s" by (rule tab_addedD(12) [OF assms(1)])
  show "resident_count (pmaps u pm') = (if user_tab s pm' then resident_count (pmaps s pm') else 0)"
    if "user_tab u pm'" for pm'
    using that tab_added_user [OF assms(1), of pm'] tab_addedD(2,6) [OF assms(1)] tab_addedD(7) [OF assms(1), of pm'] by (cases "pm' = pm") auto
qed


text \<open>Ownership after a new table: the free list and the pool shrink, the rest is as it was.\<close>

lemma tab_added_alloc:
  assumes a: "tab_added s pm t u" and al: "alloc_ok s ts" and pool: "pmap_pool s = pm # pmap_pool u"
    and chain: "seg_chain (seg_mem u) (free_segtab u) ts'" "distinct ts'" "t \<notin> set ts'"
    and old: "\<And>pm'. user_tab s pm' \<Longrightarrow> pm_segtab (pmaps s pm') \<noteq> t \<and> pm_segtab (pmaps s pm') \<notin> set ts'"
    and pages: "set (uvm_pages u) \<subseteq> set (uvm_pages s)" "distinct (uvm_pages u)"
    and new: "\<And>x. x \<in> insert t (set ts') \<Longrightarrow> x \<in> set ts \<or>
        (trunc_page x \<notin> pt_pages s \<and> trunc_page x \<notin> AVR32_PHYS_TO_P1 ` set (uvm_pages u))"
  shows "alloc_ok u ts'"
proof (rule alloc_okI)
  note us = tab_added_user [OF a]
  have eq: "pm_segtab (pmaps u pm') = (if pm' = pm then t else pm_segtab (pmaps s pm'))" for pm'
    using tab_addedD(5) [OF a] tab_addedD(7) [OF a, of pm'] by simp
  show "p1 = p2" if "user_tab u p1" "user_tab u p2" "pm_segtab (pmaps u p1) = pm_segtab (pmaps u p2)" for p1 p2
    using that(3) us [THEN iffD1, OF that(1)] us [THEN iffD1, OF that(2)] old [of p1] old [of p2]
      alloc_okD(1) [OF al, of p1 p2] unfolding eq by (auto split: if_splits)
  show "pm_segtab (pmaps u p) \<notin> set ts'" if "user_tab u p" for p
    using us [THEN iffD1, OF that] old [of p] chain(3) unfolding eq by (auto split: if_splits)
  show "set (uvm_pages u) \<subseteq> frames" using pages(1) alloc_okD(6) [OF al] by blast
  show "pt_pages u \<subseteq> AVR32_PHYS_TO_P1 ` frames" unfolding tab_added_pages [OF a] by (rule alloc_okD(7) [OF al])
  show "AVR32_PHYS_TO_P1 pa \<notin> pt_pages u" if "pa \<in> set (uvm_pages u)" for pa
    unfolding tab_added_pages [OF a] using alloc_okD(8) [OF al] pages(1) that by blast
  have tabs: "x \<in> seg_tabs s ts \<or> (trunc_page x \<notin> pt_pages s \<and> trunc_page x \<notin> AVR32_PHYS_TO_P1 ` set (uvm_pages u))"
    if x: "x \<in> seg_tabs u ts'" for x
  proof -
    consider "x \<in> insert t (set ts')" | pm' where "user_tab s pm'" "x = pm_segtab (pmaps s pm')"
    proof -
      have "x \<in> set ts' \<or> (\<exists>pm'. (pm' = pm \<or> user_tab s pm') \<and> x = pm_segtab (pmaps u pm'))"
        using x us unfolding seg_tabs_def by blast
      then show thesis using that(1,2) unfolding eq by (auto split: if_splits)
    qed
    then show ?thesis using new [of x] seg_tabsI(1) [of _ s ts] seg_tabsI(2) [of x ts s] by cases auto
  qed
  show "trunc_page x \<noteq> AVR32_PHYS_TO_P1 pa" if "pa \<in> set (uvm_pages u)" "x \<in> seg_tabs u ts'" for pa x
    using tabs [OF that(2)] alloc_okD(9) [OF al, of pa x] pages(1) that(1) by (metis image_eqI subsetD)
  show "trunc_page x \<noteq> p" if "p \<in> pt_pages u" "x \<in> seg_tabs u ts'" for p x
    using tabs [OF that(2)] alloc_okD(10) [OF al, of p x] that(1) unfolding tab_added_pages [OF a] by metis
  show "p \<noteq> pmap_kernel \<and> pm_segtab (pmaps u p) = 0" if "p \<in> set (pmap_pool u)" for p
    using alloc_okD(11) [OF al] alloc_okD(12) [OF al, of p] that unfolding pool eq by auto
  show "distinct (pmap_pool u)" using alloc_okD(11) [OF al] by (simp add: pool)
qed (use chain pages in auto)

lemma pmap_create_tab:
  assumes al: "alloc_ok s ts" and pool: "pmap_pool s = pm # pool"
    and avail: "ts \<noteq> [] \<or> uvm_pages s \<noteq> []"
  shows "\<exists>t u ts'. pmap_create s = Ok (pm, u) \<and> tab_added s pm t u \<and> alloc_ok u ts' \<and> pmap_pool u = pool \<and>
     pmaps u pm = \<lparr>pm_count = 1, resident_count = 0, wired_count = 0, pm_asid = PMAP_ASID_RESERVED,
        pm_asidgen = pmap_asid_generation s, pm_segtab = t\<rparr> \<and>
     pmap_asid_generation u = pmap_asid_generation s \<and> pmap_next_asid u = pmap_next_asid s \<and>
     pmap_max_asid u = pmap_max_asid s"
proof -
  have pm: "pm \<noteq> pmap_kernel" "pm_segtab (pmaps s pm) = 0" using alloc_okD(12) [OF al, of pm] by (auto simp: pool)
  let ?p = "\<lambda>t. \<lparr>pm_count = 1, resident_count = 0, wired_count = 0, pm_asid = PMAP_ASID_RESERVED,
        pm_asidgen = pmap_asid_generation s, pm_segtab = t\<rparr>"
  show ?thesis
  proof (cases ts)
    case (Cons t ts')
    have ch: "free_segtab s = t" "t \<noteq> 0" "\<And>i. 0 < i \<Longrightarrow> i < PMAP_SEGTABSIZE \<Longrightarrow> seg_mem s t i = 0"
      "seg_chain (seg_mem s) (seg_mem s t 0) ts'" "t \<notin> set ts'" "distinct ts'"
      using alloc_okD(2,3) [OF al] by (auto simp: Cons)
    define u where "u = s\<lparr>pmap_pool := pool, pmaps := (pmaps s)(pm := ?p t), free_segtab := seg_mem s t 0,
        seg_mem := (seg_mem s)(t := (seg_mem s t)(0 := 0))\<rparr>"
    have r: "pmap_create s = Ok (pm, u)"
      using ch(1,2) by (simp add: pmap_create_def pool Let_def u_def pmap_upd_def)
    have ne: "pm_segtab (pmaps s p) \<noteq> t \<and> pm_segtab (pmaps s p) \<notin> set ts'" if "user_tab s p" for p
      using alloc_okD(4) [OF al that] by (auto simp: Cons)
    have a: "tab_added s pm t u"
      using pm ch(2,3) ne by (auto simp: tab_added_def u_def)
    have "seg_mem u x = seg_mem s x" if "x \<in> set ts'" for x using that ch(5) by (auto simp: u_def)
    then have "seg_chain (seg_mem u) (seg_mem s t 0) ts'"
      using seg_chain_cong [of ts' "seg_mem u" "seg_mem s"] ch(4) by blast
    then have ch': "seg_chain (seg_mem u) (free_segtab u) ts'" by (simp add: u_def)
    have "alloc_ok u ts'"
      by (rule tab_added_alloc [OF a al _ ch']) (use ch ne alloc_okD(5) [OF al] in \<open>simp_all add: u_def pool Cons\<close>)
    with r a show ?thesis by (intro exI [of _ t] exI [of _ u] exI [of _ ts']) (simp add: u_def)
  next
    case Nil
    then have f0: "free_segtab s = 0" using alloc_okD(2) [OF al] by simp
    obtain pa pas where pas: "uvm_pages s = pa # pas" using avail Nil by (cases "uvm_pages s") auto
    let ?t = "AVR32_PHYS_TO_P1 pa"
    have fr: "pa \<in> frames" using alloc_okD(6) [OF al] pas by simp
    note P = P1_bits [OF fr]
    define u where "u = s\<lparr>pmap_pool := pool, pmaps := (pmaps s)(pm := ?p ?t), uvm_pages := pas,
        free_segtab := ?t + 2048, pte_mem := (pte_mem s)(?t := (\<lambda>_. 0)),
        seg_mem := (seg_mem s)(?t := (\<lambda>_. 0), ?t + 2048 := (\<lambda>_. 0)(0 := 0))\<rparr>"
    have r: "pmap_create s = Ok (pm, u)"
      using f0 P(6) by (simp add: pmap_create_def pool Let_def u_def pmap_upd_def uvm_pagealloc_zero_def pas)
    have ne: "pm_segtab (pmaps s p) \<noteq> ?t \<and> pm_segtab (pmaps s p) \<noteq> ?t + 2048" if "user_tab s p" for p
      using alloc_okD(9) [OF al _ seg_tabsI(1) [OF that], of pa] P(3,4) pas by (auto simp: Nil)
    have np: "?t \<notin> pt_pages s" by (rule alloc_okD(8) [OF al]) (simp add: pas)
    have a: "tab_added s pm ?t u"
      using pm P(2,6) ne np by (auto simp: tab_added_def u_def)
    have ni: "AVR32_PHYS_TO_P1 x \<noteq> ?t" if "x \<in> set pas" for x
      using P1_inj [OF fr, of x] alloc_okD(5,6) [OF al] that by (auto simp: pas)
    have ch': "seg_chain (seg_mem u) (free_segtab u) [?t + 2048]"
      using P(5,6) by (simp add: u_def)
    have "alloc_ok u [?t + 2048]"
      by (rule tab_added_alloc [OF a al _ ch'])
        (use P ne np ni alloc_okD(5) [OF al] in \<open>auto simp: u_def pool pas\<close>)
    with r a show ?thesis by (intro exI [of _ ?t] exI [of _ u] exI [of _ "[?t + 2048]"]) (simp add: u_def)
  qed
qed


section \<open>Destruction\<close>

lemma alloc_ok_cong:
  assumes "\<And>pm. pm_segtab (pmaps t pm) = pm_segtab (pmaps s pm)" "seg_mem t = seg_mem s" "free_segtab t = free_segtab s"
    "uvm_pages t = uvm_pages s" "pmap_pool t = pmap_pool s"
  shows "alloc_ok t ts = alloc_ok s ts"
proof -
  have "pt_pages t = pt_pages s" "seg_tabs t ts = seg_tabs s ts" by (simp_all add: pt_pages_def seg_tabs_def assms)
  then show ?thesis unfolding alloc_ok_def by (simp add: assms)
qed

lemma inv_cong:
  assumes "pmap_inv s" "\<And>pm. pm_segtab (pmaps t pm) = pm_segtab (pmaps s pm)"
    "\<And>pm. resident_count (pmaps t pm) = resident_count (pmaps s pm)" "seg_mem t = seg_mem s" "pte_mem t = pte_mem s"
    "Sysmap t = Sysmap s" "mdpage t = mdpage s" "vm_physmem t = vm_physmem s"
  shows "pmap_inv t" "mapped t pm va e \<longleftrightarrow> mapped s pm va e"
proof -
  have m: "mapped t pm va e \<longleftrightarrow> mapped s pm va e" for pm va e
    by (simp add: mapped_def va_ok_def pte_get_def pmap_segmap_def assms(2,4-6))
  then show "mapped t pm va e \<longleftrightarrow> mapped s pm va e" .
  have "pt_inj t = pt_inj s" by (simp add: pt_inj_def assms(2,4))
  then have "pt_inj t" using assms(1) by (simp add: pmap_inv_def)
  then show "pmap_inv t" by (rule inv_transfer [OF assms(1) _ m]) (simp_all add: assms(2,3,7,8))
qed

text \<open>
  \<open>unmapped\<close> is the state a pmap must be in to be destroyed. Freeing the page of PTEs of one
  segment keeps the invariants: the page belongs to no other segment.
\<close>

definition unmapped :: "pmap_st \<Rightarrow> nat \<Rightarrow> bool" where
  "unmapped s pm \<longleftrightarrow> resident_pages s pm = {}"

lemma destroy_seg_none: "seg_mem s t i = 0 \<Longrightarrow> pmap_destroy_seg t i s = s"
  by (simp add: pmap_destroy_seg_def)

lemma destroy_seg_proj:
  "pmaps (pmap_destroy_seg t i s) = pmaps s" "mdpage (pmap_destroy_seg t i s) = mdpage s"
  "Sysmap (pmap_destroy_seg t i s) = Sysmap s" "vm_physmem (pmap_destroy_seg t i s) = vm_physmem s"
  "pte_mem (pmap_destroy_seg t i s) = pte_mem s" "free_segtab (pmap_destroy_seg t i s) = free_segtab s"
  "pmap_pool (pmap_destroy_seg t i s) = pmap_pool s"
  "pmap_asid_generation (pmap_destroy_seg t i s) = pmap_asid_generation s"
  "pmap_next_asid (pmap_destroy_seg t i s) = pmap_next_asid s" "pmap_max_asid (pmap_destroy_seg t i s) = pmap_max_asid s"
  "seg_mem (pmap_destroy_seg t i s) = (seg_mem s)(t := (seg_mem s t)(i := 0))"
  "uvm_pages (pmap_destroy_seg t i s) = (if seg_mem s t i = 0 then [] else [AVR32_P1_TO_PHYS (seg_mem s t i)]) @ uvm_pages s"
  by (auto simp: pmap_destroy_seg_def Let_def fun_eq_iff)

lemma destroy_seg_pages:
  assumes inj: "pt_inj s" and tab: "user_tab s pm" and i: "i < PMAP_SEGTABSIZE" and al: "alloc_ok s ts"
  shows "pt_pages (pmap_destroy_seg (pm_segtab (pmaps s pm)) i s) = pt_pages s - {seg_mem s (pm_segtab (pmaps s pm)) i}"
proof -
  let ?t = "pm_segtab (pmaps s pm)" and ?u = "pmap_destroy_seg (pm_segtab (pmaps s pm)) i s"
  have seg: "seg_mem ?u (pm_segtab (pmaps s p)) j = (if p = pm \<and> j = i then 0 else seg_mem s (pm_segtab (pmaps s p)) j)"
    if "user_tab s p" for p j
    using alloc_okD(1) [OF al that tab] by (auto simp: destroy_seg_proj)
  have "x \<in> pt_pages ?u \<longleftrightarrow> x \<in> pt_pages s \<and> x \<noteq> seg_mem s ?t i" for x
  proof
    assume "x \<in> pt_pages ?u"
    then obtain p j where p: "user_tab s p" "j < PMAP_SEGTABSIZE" "x = seg_mem ?u (pm_segtab (pmaps s p)) j" "x \<noteq> 0"
      by (auto simp: pt_pages_def destroy_seg_proj(1))
    then have "\<not> (p = pm \<and> j = i)" "x = seg_mem s (pm_segtab (pmaps s p)) j" using seg [OF p(1), of j] by (auto split: if_splits)
    with p show "x \<in> pt_pages s \<and> x \<noteq> seg_mem s ?t i"
      using pt_pagesI [of p s j] pt_injD [OF inj, of p pm j i] tab i by auto
  next
    assume x: "x \<in> pt_pages s \<and> x \<noteq> seg_mem s ?t i"
    then obtain p j where p: "user_tab s p" "j < PMAP_SEGTABSIZE" "x = seg_mem s (pm_segtab (pmaps s p)) j" "x \<noteq> 0"
      by (auto simp: pt_pages_def)
    moreover have "seg_mem ?u (pm_segtab (pmaps s p)) j = x" using seg [OF p(1), of j] x p(3) by auto
    ultimately show "x \<in> pt_pages ?u" using pt_pagesI [of p ?u j] by (simp add: destroy_seg_proj(1))
  qed
  then show ?thesis by blast
qed


lemma destroy_seg_inv:
  assumes inv: "pmap_inv s" and tab: "user_tab s pm" and i: "i < PMAP_SEGTABSIZE" and al: "alloc_ok s ts"
    and un: "unmapped s pm"
  defines "u \<equiv> pmap_destroy_seg (pm_segtab (pmaps s pm)) i s"
  shows "pmap_inv u" "alloc_ok u ts" "mapped u pm' va e \<longleftrightarrow> mapped s pm' va e"
proof -
  let ?t = "pm_segtab (pmaps s pm)"
  have inj: "pt_inj s" using inv by (simp add: pmap_inv_def)
  note pj = destroy_seg_proj [of ?t i s, folded u_def]
  have seg: "seg_mem u (pm_segtab (pmaps s p)) j = (if p = pm \<and> j = i then 0 else seg_mem s (pm_segtab (pmaps s p)) j)"
    if "user_tab s p" for p j
    using alloc_okD(1) [OF al that tab] by (auto simp: pj)
  have nm: "\<not> mapped s pm va e" for va e using un by (auto simp: unmapped_def resident_pages_def)
  show m: "mapped u pm' va e \<longleftrightarrow> mapped s pm' va e" for pm' va e
  proof (cases "user_tab s pm'")
    case True
    then have "pmap_segmap u pm' va = (if pm' = pm \<and> seg_index va = i then 0 else pmap_segmap s pm' va)"
      using seg [OF True, of "seg_index va"] by (simp add: pmap_segmap_def pj)
    then show ?thesis using True nm [of va e] by (cases "pm' = pm") (auto simp: mapped_user pj)
  next
    case False
    then show ?thesis using mapped_kernel [of u s] by (cases "pm' = pmap_kernel") (auto simp: mapped_user pj)
  qed
  have "pt_inj u"
    unfolding pt_inj_def pj(1)
  proof (intro allI impI, elim conjE)
    fix p1 p2 i1 i2
    assume h: "p1 \<noteq> pmap_kernel" "p2 \<noteq> pmap_kernel" "pm_segtab (pmaps s p1) \<noteq> 0" "pm_segtab (pmaps s p2) \<noteq> 0"
      "i1 < PMAP_SEGTABSIZE" "i2 < PMAP_SEGTABSIZE" "seg_mem u (pm_segtab (pmaps s p1)) i1 \<noteq> 0"
      "seg_mem u (pm_segtab (pmaps s p1)) i1 = seg_mem u (pm_segtab (pmaps s p2)) i2"
    then show "p1 = p2 \<and> i1 = i2"
      using seg [of p1 i1] seg [of p2 i2] pt_injD [OF inj, of p1 p2 i1 i2] by (auto split: if_splits)
  qed
  then show "pmap_inv u" by (rule inv_transfer [OF inv _ m]) (simp_all add: pj)
  show "alloc_ok u ts"
  proof (cases "seg_mem s ?t i = 0")
    case True
    then show ?thesis using al by (simp add: u_def destroy_seg_none)
  next
    case False
    let ?p = "seg_mem s ?t i"
    have pp: "?p \<in> pt_pages s" by (rule pt_pagesI [OF tab i False])
    then obtain fa where fa: "fa \<in> frames" "?p = AVR32_PHYS_TO_P1 fa" using alloc_okD(7) [OF al] by blast
    have pages: "uvm_pages u = fa # uvm_pages s" using False P1_bits(1) [OF fa(1)] fa(2) by (simp add: pj)
    have ptp: "pt_pages u = pt_pages s - {?p}" unfolding u_def by (rule destroy_seg_pages [OF inj tab i al])
    have tabs: "seg_tabs u ts = seg_tabs s ts" by (simp add: seg_tabs_def pj)
    have "seg_mem u x = seg_mem s x" if "x \<in> set ts" for x
      using alloc_okD(4) [OF al tab] that by (auto simp: pj)
    then have ch: "seg_chain (seg_mem u) (free_segtab s) ts"
      using alloc_okD(2) [OF al] seg_chain_cong [of ts "seg_mem u" "seg_mem s"] by blast
    show ?thesis
    proof (rule alloc_okI, unfold tabs ptp pages pj(1,6,7))
      show "distinct (fa # uvm_pages s)" using alloc_okD(5) [OF al] alloc_okD(8) [OF al, of fa] pp fa(2) by auto
      show "set (fa # uvm_pages s) \<subseteq> frames" using alloc_okD(6) [OF al] fa(1) by simp
      show "pt_pages s - {?p} \<subseteq> AVR32_PHYS_TO_P1 ` frames" using alloc_okD(7) [OF al] by blast
      show "AVR32_PHYS_TO_P1 pa \<notin> pt_pages s - {?p}" if "pa \<in> set (fa # uvm_pages s)" for pa
        using that alloc_okD(8) [OF al, of pa] fa(2) by auto
      show "trunc_page x \<noteq> AVR32_PHYS_TO_P1 pa" if "pa \<in> set (fa # uvm_pages s)" "x \<in> seg_tabs s ts" for pa x
        using that alloc_okD(9) [OF al, of pa x] alloc_okD(10) [OF al pp, of x] fa(2) by auto
      show "trunc_page x \<noteq> p" if "p \<in> pt_pages s - {?p}" "x \<in> seg_tabs s ts" for p x
        using that alloc_okD(10) [OF al, of p x] by auto
      show "p1 = p2" if "user_tab s p1" "user_tab s p2" "pm_segtab (pmaps s p1) = pm_segtab (pmaps s p2)" for p1 p2
        by (rule alloc_okD(1) [OF al that])
    qed (use ch alloc_okD(3,4,11,12) [OF al] in simp_all)
  qed
qed


text \<open>The loop over the segment table.\<close>

lemma destroy_segs:
  assumes "pmap_inv s" "alloc_ok s ts" "user_tab s pm" "unmapped s pm" "n \<le> PMAP_SEGTABSIZE"
  defines "u \<equiv> fold (pmap_destroy_seg (pm_segtab (pmaps s pm))) [0..<n] s"
  shows "pmap_inv u \<and> alloc_ok u ts \<and> (\<forall>pm' va e. mapped u pm' va e \<longleftrightarrow> mapped s pm' va e) \<and>
     pmaps u = pmaps s \<and> pmap_pool u = pmap_pool s \<and> free_segtab u = free_segtab s \<and>
     mdpage u = mdpage s \<and> Sysmap u = Sysmap s \<and> vm_physmem u = vm_physmem s \<and>
     pmap_asid_generation u = pmap_asid_generation s \<and>
     pmap_next_asid u = pmap_next_asid s \<and> pmap_max_asid u = pmap_max_asid s \<and>
     (\<forall>i. seg_mem u (pm_segtab (pmaps s pm)) i = (if i < n then 0 else seg_mem s (pm_segtab (pmaps s pm)) i))"
  using assms(5) unfolding u_def
proof (induction n)
  case 0
  then show ?case using assms(1,2) by simp
next
  case (Suc n)
  let ?t = "pm_segtab (pmaps s pm)"
  define w where "w = fold (pmap_destroy_seg ?t) [0..<n] s"
  have w: "pmap_inv w" "alloc_ok w ts" "\<And>pm' va e. mapped w pm' va e \<longleftrightarrow> mapped s pm' va e" "pmaps w = pmaps s"
    using Suc unfolding w_def by auto
  have un: "unmapped w pm" using assms(4) by (simp add: unmapped_def resident_pages_def w(3))
  have step: "fold (pmap_destroy_seg ?t) [0..<Suc n] s = pmap_destroy_seg (pm_segtab (pmaps w pm)) n w"
    by (simp add: w_def [symmetric] w(4))
  have "user_tab w pm" "n < PMAP_SEGTABSIZE" using assms(3) Suc.prems by (simp_all add: w(4))
  note d = destroy_seg_inv [OF w(1) this w(2) un]
  show ?case
    unfolding step using d Suc w(3) by (simp add: destroy_seg_proj w(4) w_def [symmetric] less_Suc_eq)
qed

lemma tab_freed:
  assumes inv: "pmap_inv w" and al: "alloc_ok w ts" and tab: "user_tab w pm" and np: "pm \<notin> set (pmap_pool w)"
    and z: "\<And>i. i < PMAP_SEGTABSIZE \<Longrightarrow> seg_mem w (pm_segtab (pmaps w pm)) i = 0"
  defines "u \<equiv> w\<lparr>pmaps := (pmaps w)(pm := (pmaps w pm)\<lparr>pm_segtab := 0\<rparr>), pmap_pool := pm # pmap_pool w,
      seg_mem := (seg_mem w)(pm_segtab (pmaps w pm) := (seg_mem w (pm_segtab (pmaps w pm)))(0 := free_segtab w)),
      free_segtab := pm_segtab (pmaps w pm)\<rparr>"
  shows "pmap_inv u" "alloc_ok u (pm_segtab (pmaps w pm) # ts)" "mapped u pm' va e \<longleftrightarrow> mapped w pm' va e"
proof -
  let ?t = "pm_segtab (pmaps w pm)"
  have ut: "user_tab u p \<longleftrightarrow> p \<noteq> pm \<and> user_tab w p" and pe: "p \<noteq> pm \<Longrightarrow> pmaps u p = pmaps w p" for p
    by (simp_all add: u_def)
  have ne: "pm_segtab (pmaps w p) \<noteq> ?t" if "p \<noteq> pm" "user_tab w p" for p using alloc_okD(1) [OF al that(2) tab] that(1) by blast
  have seg: "seg_mem u (pm_segtab (pmaps u p)) = seg_mem w (pm_segtab (pmaps w p))" if "user_tab u p" for p
  proof -
    have "p \<noteq> pm" "user_tab w p" using that ut [of p] by blast+
    then show ?thesis using ne [of p] pe [of p] by (simp add: u_def)
  qed
  have pt: "pt_pages u = pt_pages w"
  proof -
    have "x \<in> pt_pages w \<longleftrightarrow> x \<noteq> 0 \<and> (\<exists>p i. p \<noteq> pm \<and> user_tab w p \<and> i < PMAP_SEGTABSIZE \<and> x = seg_mem w (pm_segtab (pmaps w p)) i)" for x
      using z unfolding pt_pages_def mem_Collect_eq by metis
    moreover have "(user_tab u p \<and> i < PMAP_SEGTABSIZE \<and> x = seg_mem u (pm_segtab (pmaps u p)) i) \<longleftrightarrow>
        (p \<noteq> pm \<and> user_tab w p \<and> i < PMAP_SEGTABSIZE \<and> x = seg_mem w (pm_segtab (pmaps w p)) i)" for p i x
      using ut [of p] seg [of p] by auto
    then have "x \<in> pt_pages u \<longleftrightarrow> x \<noteq> 0 \<and> (\<exists>p i. p \<noteq> pm \<and> user_tab w p \<and> i < PMAP_SEGTABSIZE \<and> x = seg_mem w (pm_segtab (pmaps w p)) i)" for x
      unfolding pt_pages_def mem_Collect_eq by (simp only:)
    ultimately show ?thesis by (intro set_eqI) (simp only:)
  qed
  have tb: "seg_tabs u (?t # ts) = seg_tabs w ts"
    using tab pe ut unfolding seg_tabs_def by (auto, metis+)
  show m: "mapped u p va e \<longleftrightarrow> mapped w p va e" for p va e
  proof (cases "user_tab u p")
    case True
    then have "p \<noteq> pm" "user_tab w p" using ut [of p] by blast+
    then show ?thesis using seg [OF True] pe [of p] by (simp add: mapped_user pmap_segmap_def) (simp add: u_def)
  next
    case False
    have "pmap_segmap w pm va = 0" if "va < VM_MAXUSER_ADDRESS" using z seg_index_bound [OF that] by (simp add: pmap_segmap_def)
    then show ?thesis using False ut [of p] mapped_kernel [of u w]
      by (cases "p = pmap_kernel"; cases "p = pm") (auto simp: mapped_user u_def)
  qed
  have inj: "pt_inj u"
    unfolding pt_inj_def
  proof (intro allI impI, elim conjE)
    fix p1 p2 i1 i2
    assume h: "p1 \<noteq> pmap_kernel" "p2 \<noteq> pmap_kernel" "pm_segtab (pmaps u p1) \<noteq> 0" "pm_segtab (pmaps u p2) \<noteq> 0"
      "i1 < PMAP_SEGTABSIZE" "i2 < PMAP_SEGTABSIZE" "seg_mem u (pm_segtab (pmaps u p1)) i1 \<noteq> 0"
      "seg_mem u (pm_segtab (pmaps u p1)) i1 = seg_mem u (pm_segtab (pmaps u p2)) i2"
    have "pt_inj w" using inv by (simp add: pmap_inv_def)
    from pt_injD [OF this, of p1 p2 i1 i2] h seg [of p1] seg [of p2] ut [of p1] ut [of p2] show "p1 = p2 \<and> i1 = i2" by auto
  qed
  show "pmap_inv u" by (rule inv_transfer [OF inv inj m]) (use ut pe in \<open>auto simp: u_def\<close>)
  show "alloc_ok u (?t # ts)"
  proof (rule alloc_okI, unfold pt tb)
    show "p1 = p2" if "user_tab u p1" "user_tab u p2" "pm_segtab (pmaps u p1) = pm_segtab (pmaps u p2)" for p1 p2
      using that alloc_okD(1) [OF al, of p1 p2] ut [of p1] ut [of p2] pe [of p1] pe [of p2] by auto
    have "seg_mem u x = seg_mem w x" if "x \<in> set ts" for x
      using alloc_okD(4) [OF al tab] that by (auto simp: u_def)
    then have "seg_chain (seg_mem u) (free_segtab w) ts"
      using alloc_okD(2) [OF al] seg_chain_cong [of ts "seg_mem u" "seg_mem w"] by blast
    then show "seg_chain (seg_mem u) (free_segtab u) (?t # ts)" using tab z by (simp add: u_def)
    show "distinct (?t # ts)" using alloc_okD(3) [OF al] alloc_okD(4) [OF al tab] by simp
    show "pm_segtab (pmaps u p) \<notin> set (?t # ts)" if "user_tab u p" for p
      using that ut [of p] pe [of p] ne [of p] alloc_okD(4) [OF al, of p] by auto
    show "p \<noteq> pmap_kernel \<and> pm_segtab (pmaps u p) = 0" if "p \<in> set (pmap_pool u)" for p
      using that alloc_okD(12) [OF al, of p] tab by (auto simp: u_def)
    show "distinct (pmap_pool u)" using np alloc_okD(11) [OF al] by (simp add: u_def)
  qed (use alloc_okD(5-7) [OF al] alloc_okD(8-10) [OF al] in \<open>simp_all add: u_def\<close>)
qed

text \<open>A pmap whose last reference goes: its table is on the free list, it is in the pool.\<close>

lemma pmap_destroy_last:
  assumes inv: "pmap_inv s" and al: "alloc_ok s ts" and tab: "user_tab s pm" and un: "unmapped s pm"
    and ref: "pm_count (pmaps s pm) = 1" and np: "pm \<notin> set (pmap_pool s)"
  defines "u \<equiv> pmap_destroy pm s"
  shows "pmap_inv u" "alloc_ok u (pm_segtab (pmaps s pm) # ts)" "mapped u pm' va e \<longleftrightarrow> mapped s pm' va e"
    "pmap_pool u = pm # pmap_pool s" "pm_segtab (pmaps u pm) = 0"
    "\<And>p. p \<noteq> pm \<Longrightarrow> pmaps u p = pmaps s p" "pmap_asid_generation u = pmap_asid_generation s"
    "pmap_next_asid u = pmap_next_asid s" "pmap_max_asid u = pmap_max_asid s"
    "pm_asid (pmaps u pm) = pm_asid (pmaps s pm)" "pm_asidgen (pmaps u pm) = pm_asidgen (pmaps s pm)"
proof -
  let ?t = "pm_segtab (pmaps s pm)"
  define a where "a = pmap_upd pm (\<lambda>p. p\<lparr>pm_count := pm_count p - 1\<rparr>) s"
  have a: "pm_segtab (pmaps a p) = pm_segtab (pmaps s p)" "resident_count (pmaps a p) = resident_count (pmaps s p)" for p
    by (simp_all add: a_def)
  have inva: "pmap_inv a" and ma: "mapped a pm' va e \<longleftrightarrow> mapped s pm' va e" for pm' va e
    using inv_cong [OF inv a] by (simp_all add: a_def)
  have ala: "alloc_ok a ts" using al alloc_ok_cong [OF a(1), of ts] by (simp add: a_def)
  have una: "unmapped a pm" using un by (simp add: unmapped_def resident_pages_def ma)
  define w where "w = fold (pmap_destroy_seg ?t) [0..<PMAP_SEGTABSIZE] a"
  have w: "pmap_inv w" "alloc_ok w ts" "\<And>pm' va e. mapped w pm' va e \<longleftrightarrow> mapped s pm' va e" "pmaps w = pmaps a"
    "pmap_pool w = pmap_pool s" "free_segtab w = free_segtab s" "\<And>i. i < PMAP_SEGTABSIZE \<Longrightarrow> seg_mem w ?t i = 0"
    "pmap_asid_generation w = pmap_asid_generation s" "pmap_next_asid w = pmap_next_asid s" "pmap_max_asid w = pmap_max_asid s"
    using destroy_segs [OF inva ala _ una, of PMAP_SEGTABSIZE] tab unfolding a(1) w_def [symmetric]
    by (simp_all add: ma, simp_all add: a_def)
  have u: "u = w\<lparr>pmaps := (pmaps w)(pm := (pmaps w pm)\<lparr>pm_segtab := 0\<rparr>), pmap_pool := pm # pmap_pool s,
      seg_mem := (seg_mem w)(?t := (seg_mem w ?t)(0 := free_segtab s)), free_segtab := ?t\<rparr>"
    using ref tab by (simp add: u_def pmap_destroy_def Let_def a_def [symmetric] a w_def [symmetric] w(4-6))
      (simp add: pmap_upd_def w a_def)
  have tw: "user_tab w pm" "pm \<notin> set (pmap_pool w)" "pm_segtab (pmaps w pm) = ?t"
    using tab np by (simp_all add: w(4,5) a)
  have u': "u = w\<lparr>pmaps := (pmaps w)(pm := (pmaps w pm)\<lparr>pm_segtab := 0\<rparr>), pmap_pool := pm # pmap_pool w,
      seg_mem := (seg_mem w)(?t := (seg_mem w ?t)(0 := free_segtab w)), free_segtab := ?t\<rparr>" by (simp add: u w(5,6))
  note f = tab_freed [OF w(1,2) tw(1,2), unfolded tw(3), OF w(7), folded u']
  show "pmap_inv u" by (rule f(1))
  show "alloc_ok u (?t # ts)" by (rule f(2))
  show "mapped u pm' va e \<longleftrightarrow> mapped s pm' va e" using f(3) w(3) by blast
  show "pmap_pool u = pm # pmap_pool s" "pm_segtab (pmaps u pm) = 0"
    "\<And>p. p \<noteq> pm \<Longrightarrow> pmaps u p = pmaps s p" "pmap_asid_generation u = pmap_asid_generation s"
    "pmap_next_asid u = pmap_next_asid s" "pmap_max_asid u = pmap_max_asid s"
    "pm_asid (pmaps u pm) = pm_asid (pmaps s pm)" "pm_asidgen (pmaps u pm) = pm_asidgen (pmaps s pm)"
    by (simp_all add: u w(4-10), simp_all add: a_def)
qed

end
