(* ===== verification/Pmap_Reach.thy ===== *)
theory Pmap_Reach
  imports Pmap_Life
begin

text \<open>
  Address space identifiers and the step relation of the pmap module. \<open>asid_inv\<close>: within a
  generation no two pmaps hold the same identifier, and identifier 0 is never handed out.
  \<open>pmap_reach\<close> relates a state to those the user half of the interface leads to; every step
  keeps \<open>pmap_ok\<close>, the conjunction of the three invariants.
\<close>

section \<open>Address space identifiers\<close>

definition asid_live :: "pmap_st \<Rightarrow> nat \<Rightarrow> bool" where
  "asid_live s pm \<longleftrightarrow> pm_asid (pmaps s pm) \<noteq> PMAP_ASID_RESERVED \<and> pm_asidgen (pmaps s pm) = pmap_asid_generation s"

text \<open>
  Activating \<open>pm\<close> would take the 32-bit generation counter from \<open>0xffffffff\<close> to 0: the identifiers
  are used up in the last generation and \<open>pm\<close> has none of this generation.
\<close>

definition asid_wraps :: "pmap_st \<Rightarrow> nat \<Rightarrow> bool" where
  "asid_wraps s pm \<longleftrightarrow> \<not> asid_live s pm \<and> pmap_next_asid s = pmap_max_asid s \<and> pmap_asid_generation s = 0xffffffff"

definition asid_inv :: "pmap_st \<Rightarrow> bool" where
  "asid_inv s \<longleftrightarrow> pmap_max_asid s = 256 \<and> 1 \<le> pmap_next_asid s \<and> pmap_next_asid s \<le> pmap_max_asid s \<and>
     (\<forall>pm. pm_asidgen (pmaps s pm) \<le> pmap_asid_generation s) \<and>
     (\<forall>pm. asid_live s pm \<longrightarrow> pm_asid (pmaps s pm) < pmap_next_asid s) \<and>
     (\<forall>pm pm'. asid_live s pm \<and> asid_live s pm' \<and> pm_asid (pmaps s pm) = pm_asid (pmaps s pm') \<longrightarrow> pm = pm')"

lemma asid_inv_cong:
  assumes "\<And>pm. pm_asid (pmaps t pm) = pm_asid (pmaps s pm)" "\<And>pm. pm_asidgen (pmaps t pm) = pm_asidgen (pmaps s pm)"
    "pmap_asid_generation t = pmap_asid_generation s" "pmap_next_asid t = pmap_next_asid s" "pmap_max_asid t = pmap_max_asid s"
  shows "asid_inv t = asid_inv s"
  by (simp add: asid_inv_def asid_live_def assms)

lemma word_less_Suc: "(x :: u32) \<noteq> 0xffffffff \<Longrightarrow> x < x + 1 \<and> unat (x + 1) = unat x + 1"
proof -
  assume "x \<noteq> 0xffffffff"
  then have "unat x \<noteq> unat (0xffffffff :: u32)" by (metis unsigned_word_eqI)
  then have "unat x < 4294967295" using unat_bound32 [of x] by simp
  then have "unat (x + 1) = unat x + 1" by (simp add: unat_word_ariths)
  then show ?thesis by (simp add: word_less_nat_alt)
qed

text \<open>Giving \<open>pm\<close> an identifier no live pmap has.\<close>

lemma asid_assign:
  fixes pm :: nat
  assumes max: "pmap_max_asid s = 256" and nx: "0 < n" "n < 256"
    and gen: "\<And>p. pm_asidgen (pmaps s p) \<le> g"
    and below: "\<And>p. pm_asid (pmaps s p) \<noteq> 0 \<Longrightarrow> pm_asidgen (pmaps s p) = g \<Longrightarrow> pm_asid (pmaps s p) < n"
    and inj: "\<And>p q. pm_asid (pmaps s p) \<noteq> 0 \<Longrightarrow> pm_asidgen (pmaps s p) = g \<Longrightarrow> pm_asidgen (pmaps s q) = g \<Longrightarrow>
                pm_asid (pmaps s p) = pm_asid (pmaps s q) \<Longrightarrow> p = q"
  defines "t \<equiv> (pmap_upd pm (\<lambda>p. p\<lparr>pm_asid := n, pm_asidgen := g\<rparr>) s)\<lparr>pmap_asid_generation := g, pmap_next_asid := n + 1\<rparr>"
  shows "asid_inv t" "asid_live t pm" "pm_asid (pmaps t pm) = n"
proof -
  have "unat n < 256" using nx(2) by (simp add: word_less_nat_alt)
  then have "n \<noteq> 0xffffffff" by auto
  then have n1: "unat (n + 1) = unat n + 1" using word_less_Suc [of n] by blast
  have lt: "x < n \<Longrightarrow> x < n + 1" "n < n + 1" "1 \<le> n + 1" "n + 1 \<le> 256" for x
    using nx n1 by (simp_all add: word_less_nat_alt word_le_nat_alt)
  show "pm_asid (pmaps t pm) = n" by (simp add: t_def)
  show "asid_live t pm" using nx by (auto simp: asid_live_def t_def)
  have live: "asid_live t p \<longleftrightarrow> p = pm \<or> (pm_asid (pmaps s p) \<noteq> 0 \<and> pm_asidgen (pmaps s p) = g)" for p
    using nx by (auto simp: asid_live_def t_def)
  have id: "pm_asid (pmaps t p) = (if p = pm then n else pm_asid (pmaps s p))" for p by (simp add: t_def)
  show "asid_inv t"
    unfolding asid_inv_def
  proof (intro conjI allI impI)
    show "pm_asidgen (pmaps t p) \<le> pmap_asid_generation t" for p using gen by (simp add: t_def)
    show "pm_asid (pmaps t p) < pmap_next_asid t" if "asid_live t p" for p
      using that below [of p] lt unfolding live id by (auto simp: t_def)
    show "p = q" if "asid_live t p \<and> asid_live t q \<and> pm_asid (pmaps t p) = pm_asid (pmaps t q)" for p q
    proof (cases "p = pm \<or> q = pm")
      case True
      have "\<not> (p \<noteq> q)" using that below [of p] below [of q] True unfolding live id by (metis less_irrefl)
      then show ?thesis by blast
    next
      case False
      then show ?thesis using that inj [of p q] unfolding live id by simp
    qed
  qed (use lt max in \<open>simp_all add: t_def\<close>)
qed

lemma asid_alloc_ok:
  fixes pm :: nat
  assumes inv: "asid_inv s" and gen: "\<not> asid_wraps s pm"
  defines "t \<equiv> pmap_asid_alloc pm s"
  shows "asid_inv t \<and> asid_live t pm \<and> pm_asid (pmaps t pm) < 256"
proof -
  have i: "pmap_max_asid s = 256" "1 \<le> pmap_next_asid s" "pmap_next_asid s \<le> 256"
    "\<And>p. pm_asidgen (pmaps s p) \<le> pmap_asid_generation s"
    "\<And>p. asid_live s p \<Longrightarrow> pm_asid (pmaps s p) < pmap_next_asid s"
    "\<And>p q. asid_live s p \<Longrightarrow> asid_live s q \<Longrightarrow> pm_asid (pmaps s p) = pm_asid (pmaps s q) \<Longrightarrow> p = q"
    using inv unfolding asid_inv_def by auto
  show ?thesis
  proof (cases "asid_live s pm")
    case True
    then have "t = s" by (simp add: t_def pmap_asid_alloc_def asid_live_def)
    then show ?thesis using True i(5) [OF True] i(3) inv by (simp add: less_le_trans)
  next
    case dead: False
    show ?thesis
    proof (cases "pmap_next_asid s = 256")
      case True
      let ?g = "pmap_asid_generation s + 1" and ?s = "s\<lparr>hw := avr32_tbiap (hw s)\<rparr>"
      have t: "t = (pmap_upd pm (\<lambda>p. p\<lparr>pm_asid := 1, pm_asidgen := ?g\<rparr>) ?s)
          \<lparr>pmap_asid_generation := ?g, pmap_next_asid := 1 + 1\<rparr>"
        using dead True i(1) by (auto simp: t_def pmap_asid_alloc_def asid_live_def Let_def pmap_upd_def)
      have "pmap_asid_generation s \<noteq> 0xffffffff" using gen dead True i(1) by (simp add: asid_wraps_def)
      then have old: "pm_asidgen (pmaps s p) < ?g" for p using i(4) [of p] word_less_Suc by (blast intro: le_less_trans)
      have "pm_asidgen (pmaps ?s p) \<le> ?g" "pm_asidgen (pmaps ?s p) \<noteq> ?g" for p
        using less_imp_le [OF old [of p]] less_imp_neq [OF old [of p]] by simp_all
      with asid_assign [of ?s 1 ?g pm] i(1) show ?thesis unfolding t by auto
    next
      case False
      let ?g = "pmap_asid_generation s" and ?n = "pmap_next_asid s"
      have t: "t = (pmap_upd pm (\<lambda>p. p\<lparr>pm_asid := ?n, pm_asidgen := ?g\<rparr>) s)
          \<lparr>pmap_asid_generation := ?g, pmap_next_asid := ?n + 1\<rparr>"
        using dead False i(1) by (auto simp: t_def pmap_asid_alloc_def asid_live_def Let_def pmap_upd_def)
      have n: "0 < ?n" "?n < 256" using less_le_trans [OF _ i(2), of 0] i(3) False by (simp_all add: order_less_le)
      have "pm_asid (pmaps s p) < ?n" if "pm_asid (pmaps s p) \<noteq> 0" "pm_asidgen (pmaps s p) = ?g" for p
        using i(5) [of p] that by (simp add: asid_live_def)
      moreover have "p = q" if "pm_asid (pmaps s p) \<noteq> 0" "pm_asidgen (pmaps s p) = ?g" "pm_asidgen (pmaps s q) = ?g"
          "pm_asid (pmaps s p) = pm_asid (pmaps s q)" for p q
        using i(6) [of p q] that by (simp add: asid_live_def)
      ultimately show ?thesis
        using asid_assign [OF i(1) n i(4), of pm] n(2) unfolding t by simp
    qed
  qed
qed


section \<open>Reachable states\<close>

text \<open>
  The user half of the pmap interface as a step relation: what UVM and the scheduler do with
  pmaps after boot, each step being a run of the operation. The guards:
  \<^item> \<open>enter\<close>, \<open>remove\<close> and \<open>protect\<close> are for user pmaps (with a segment table), page aligned addresses
    and ranges below \<open>VM_MAXUSER_ADDRESS\<close> that are not reversed;
  \<^item> \<open>enter\<close> is for the frame address of a managed page, with protection bits only in \<open>prot\<close>; the page
    has no kernel mapping at an address with another cache index (\<open>no_kernel_alias\<close>), which the alias
    handling of \<open>pmap_enter\<close> does not expect; a pv entry is free, and a page for the page table if
    the segment has none;
  \<^item> \<open>destroy\<close> is for a pmap with a reference, and when it is the last one nothing is resident;
  \<^item> \<open>activate\<close> does not take the generation counter of the ASIDs past \<open>0xffffffff\<close> (\<open>asid_wraps\<close>): after
    that wrap a pmap of the old generation 0 counts as current and an ASID can have two owners.
\<close>

inductive pmap_reach :: "pmap_st \<Rightarrow> pmap_st \<Rightarrow> bool" for s0 :: pmap_st where
  boot: "pmap_reach s0 s0"
| create: "pmap_reach s0 s \<Longrightarrow> pmap_create s = Ok (pm, t) \<Longrightarrow> pmap_reach s0 t"
| reference: "pmap_reach s0 s \<Longrightarrow> pmap_reach s0 (pmap_reference pm s)"
| destroy: "pmap_reach s0 s \<Longrightarrow> user_tab s pm \<Longrightarrow> 1 \<le> pm_count (pmaps s pm) \<Longrightarrow>
    (pm_count (pmaps s pm) = 1 \<longrightarrow> resident_count (pmaps s pm) = 0) \<Longrightarrow> pmap_reach s0 (pmap_destroy pm s)"
| enter: "pmap_reach s0 s \<Longrightarrow> user_tab s pm \<Longrightarrow> page_aligned va \<Longrightarrow> va < VM_MAXUSER_ADDRESS \<Longrightarrow>
    pa AND AVR32_PG_FRAME = pa \<Longrightarrow> PHYS_TO_VM_PAGE s pa = Some pg \<Longrightarrow> unat prot < 8 \<Longrightarrow>
    no_kernel_alias s pg va \<Longrightarrow> pv_pool s \<noteq> [] \<Longrightarrow> pmap_segmap s pm va \<noteq> 0 \<or> uvm_pages s \<noteq> [] \<Longrightarrow>
    pmap_enter pm va pa prot flags s = Ok (r, t) \<Longrightarrow> pmap_reach s0 t"
| remove: "pmap_reach s0 s \<Longrightarrow> user_tab s pm \<Longrightarrow> page_aligned sva \<Longrightarrow> page_aligned eva \<Longrightarrow>
    eva \<le> VM_MAXUSER_ADDRESS \<Longrightarrow> sva \<le> eva \<Longrightarrow> pmap_remove pm sva eva s = Ok t \<Longrightarrow> pmap_reach s0 t"
| protect: "pmap_reach s0 s \<Longrightarrow> user_tab s pm \<Longrightarrow> page_aligned sva \<Longrightarrow> page_aligned eva \<Longrightarrow>
    eva \<le> VM_MAXUSER_ADDRESS \<Longrightarrow> sva \<le> eva \<Longrightarrow> pmap_protect pm sva eva prot s = Ok t \<Longrightarrow> pmap_reach s0 t"
| activate: "pmap_reach s0 s \<Longrightarrow> \<not> asid_wraps s pm \<Longrightarrow> pmap_reach s0 (pmap_activate pm cur s)"

definition pmap_ok :: "pmap_st \<Rightarrow> bool" where
  "pmap_ok s \<longleftrightarrow> pmap_inv s \<and> alloc_inv s \<and> asid_inv s"

lemma same_asids_inv: "same_asids s t \<Longrightarrow> asid_inv t = asid_inv s"
  by (rule asid_inv_cong) (simp_all add: same_asids_def)

lemma same_env_ok: "pmap_ok s \<Longrightarrow> same_env s t \<Longrightarrow> pmap_inv t \<Longrightarrow> pmap_ok t"
  using same_env_alloc [of s t] same_asids_inv [OF same_env_asids, of s t] by (auto simp: pmap_ok_def alloc_inv_def)

lemma create_asid:
  assumes "asid_inv s" "pm_asid (pmaps t pm) = 0" "pm_asidgen (pmaps t pm) = pmap_asid_generation s"
    "\<And>p. p \<noteq> pm \<Longrightarrow> pmaps t p = pmaps s p" "pmap_asid_generation t = pmap_asid_generation s"
    "pmap_next_asid t = pmap_next_asid s" "pmap_max_asid t = pmap_max_asid s"
  shows "asid_inv t"
proof -
  have "asid_live t p \<longleftrightarrow> p \<noteq> pm \<and> asid_live s p" "pm_asidgen (pmaps t p) \<le> pmap_asid_generation s" for p
    using assms by (cases "p = pm"; simp add: asid_live_def asid_inv_def)+
  then show ?thesis using assms(1,4-7) by (auto simp: asid_inv_def)
qed

lemma create_ok:
  assumes "pmap_ok s" "pmap_create s = Ok (pm, t)"
  shows "pmap_ok t"
proof -
  obtain ts where al: "alloc_ok s ts" using assms(1) by (auto simp: pmap_ok_def alloc_inv_def)
  obtain pool where pool: "pmap_pool s = pm # pool"
    using assms(2) by (auto simp: pmap_create_def Let_def split: list.splits if_splits prod.splits option.splits)
  have "ts \<noteq> [] \<or> uvm_pages s \<noteq> []"
    using assms(2) alloc_okD(2) [OF al] by (auto simp: pmap_create_def pool uvm_pagealloc_zero_def)
  from pmap_create_tab [OF al pool this] obtain tab ts' where
    c: "tab_added s pm tab t" "alloc_ok t ts'" "pm_asid (pmaps t pm) = 0" "pm_asidgen (pmaps t pm) = pmap_asid_generation s"
      "pmap_asid_generation t = pmap_asid_generation s" "pmap_next_asid t = pmap_next_asid s" "pmap_max_asid t = pmap_max_asid s"
    using assms(2) by auto
  have "asid_inv t"
    by (rule create_asid [OF _ c(3,4) tab_addedD(7) [OF c(1)] c(5-7)]) (use assms(1) in \<open>simp_all add: pmap_ok_def\<close>)
  then show ?thesis using tab_added_inv [OF c(1)] c(2) assms(1) by (auto simp: pmap_ok_def alloc_inv_def)
qed

lemma destroy_ok:
  assumes ok: "pmap_ok s" and tab: "user_tab s pm" and cnt: "1 \<le> pm_count (pmaps s pm)"
    and res: "pm_count (pmaps s pm) = 1 \<longrightarrow> resident_count (pmaps s pm) = 0"
  shows "pmap_ok (pmap_destroy pm s)"
proof -
  obtain ts where al: "alloc_ok s ts" using ok by (auto simp: pmap_ok_def alloc_inv_def)
  have inv: "pmap_inv s" using ok by (simp add: pmap_ok_def)
  show ?thesis
  proof (cases "pm_count (pmaps s pm) = 1")
    case True
    have "int (card (resident_pages s pm)) = 0" using inv tab res True by (simp add: pmap_inv_def res_inv_def)
    then have un: "unmapped s pm" by (simp add: unmapped_def)
    have np: "pm \<notin> set (pmap_pool s)" using alloc_okD(12) [OF al, of pm] tab by blast
    note d = pmap_destroy_last [OF inv al tab un True np]
    have "pm_asid (pmaps (pmap_destroy pm s) p) = pm_asid (pmaps s p)"
      "pm_asidgen (pmaps (pmap_destroy pm s) p) = pm_asidgen (pmaps s p)" for p
      using d(6) [of p] d(10,11) by (cases "p = pm"; simp)+
    then have "same_asids s (pmap_destroy pm s)" by (simp add: same_asids_def d(7-9))
    then show ?thesis using d(1,2) ok by (auto simp: pmap_ok_def alloc_inv_def same_asids_inv)
  next
    case False
    let ?t = "pmap_upd pm (\<lambda>p. p\<lparr>pm_count := pm_count p - 1\<rparr>) s"
    have "pmap_destroy pm s = ?t" using cnt False by (simp add: pmap_destroy_def Let_def)
    moreover have "pmap_inv ?t" by (rule inv_cong(1) [OF inv]) simp_all
    moreover have "alloc_ok ?t ts" using al alloc_ok_cong [of ?t s ts] by simp
    moreover have "asid_inv ?t" using ok asid_inv_cong [of ?t s] by (simp add: pmap_ok_def)
    ultimately show ?thesis by (auto simp: pmap_ok_def alloc_inv_def)
  qed
qed

lemma activate_ok:
  assumes ok: "pmap_ok s" and gen: "\<not> asid_wraps s pm"
  shows "pmap_ok (pmap_activate pm cur s)"
proof -
  let ?t = "pmap_activate pm cur s"
  obtain ts where al: "alloc_ok s ts" using ok by (auto simp: pmap_ok_def alloc_inv_def)
  have "pmap_inv ?t"
    by (rule inv_cong(1) [of s]) (use ok in \<open>auto simp: pmap_ok_def pmap_activate_def pmap_asid_alloc_def Let_def\<close>)
  moreover have "alloc_ok ?t ts = alloc_ok s ts"
    by (rule alloc_ok_cong) (auto simp: pmap_activate_def pmap_asid_alloc_def Let_def)
  moreover have "asid_inv ?t = asid_inv (pmap_asid_alloc pm s)"
    by (rule asid_inv_cong) (auto simp: pmap_activate_def Let_def)
  ultimately show ?thesis
    using al asid_alloc_ok [OF _ gen] ok by (auto simp: pmap_ok_def alloc_inv_def)
qed

lemma reference_ok: "pmap_ok s \<Longrightarrow> pmap_ok (pmap_reference pm s)"
proof (cases pm)
  case (Some p)
  let ?t = "pmap_upd p (\<lambda>p. p\<lparr>pm_count := pm_count p + 1\<rparr>) s"
  assume ok: "pmap_ok s"
  then obtain ts where al: "alloc_ok s ts" by (auto simp: pmap_ok_def alloc_inv_def)
  have "pmap_inv ?t" by (rule inv_cong(1) [of s]) (use ok in \<open>simp_all add: pmap_ok_def\<close>)
  moreover have "alloc_ok ?t ts" using al alloc_ok_cong [of ?t s ts] by simp
  moreover have "asid_inv ?t" using ok asid_inv_cong [of ?t s] by (simp add: pmap_ok_def)
  ultimately show ?thesis using Some by (auto simp: pmap_ok_def alloc_inv_def pmap_reference_def)
qed (simp add: pmap_reference_def)


lemma protect_no_read:
  "prot AND VM_PROT_READ = 0 \<Longrightarrow> unat prot < 8 \<Longrightarrow> pmap_protect pm sva eva prot s = pmap_remove pm sva eva s"
  by (simp add: pmap_protect_def)

lemma remove_ok:
  assumes "pmap_ok s" "user_tab s pm" "page_aligned sva" "page_aligned eva" "eva \<le> VM_MAXUSER_ADDRESS" "sva \<le> eva"
    "pmap_remove pm sva eva s = Ok t"
  shows "pmap_ok t"
  using pmap_remove_user [of s pm sva eva] assms same_env_ok [OF assms(1)] updates_env by (auto simp: pmap_ok_def)

lemma protect_ok:
  assumes "pmap_ok s" "user_tab s pm" "page_aligned sva" "page_aligned eva" "eva \<le> VM_MAXUSER_ADDRESS" "sva \<le> eva"
    "pmap_protect pm sva eva prot s = Ok t"
  shows "pmap_ok t"
proof (cases "prot AND VM_PROT_READ = 0")
  case True
  have "unat prot < 8" using assms(7) by (simp add: pmap_protect_def split: if_splits)
  then show ?thesis using remove_ok [OF assms(1-6)] assms(7) protect_no_read [OF True] by simp
next
  case False
  have "unat prot < 8" using assms(7) by (simp add: pmap_protect_def split: if_splits)
  with False pmap_protect_user [of s pm sva eva prot] assms same_env_ok [OF assms(1)] updates_env
  show ?thesis by (auto simp: pmap_ok_def)
qed

lemma enter_ok:
  assumes ok: "pmap_ok s" and g: "user_tab s pm" "page_aligned va" "va < VM_MAXUSER_ADDRESS" "pa AND AVR32_PG_FRAME = pa"
    "PHYS_TO_VM_PAGE s pa = Some pg" "unat prot < 8" "no_kernel_alias s pg va" "pv_pool s \<noteq> []"
    "pmap_segmap s pm va \<noteq> 0 \<or> uvm_pages s \<noteq> []" and r: "pmap_enter pm va pa prot flags s = Ok (r, t)"
  shows "pmap_ok t"
proof -
  obtain ts where al: "alloc_ok s ts" and inv: "pmap_inv s" using ok by (auto simp: pmap_ok_def alloc_inv_def)
  from pmap_enter_user_ok [OF inv al g, of flags] r have "pmap_inv t" "alloc_ok t ts" "same_asids s t" by auto
  then show ?thesis using ok same_asids_inv by (auto simp: pmap_ok_def alloc_inv_def)
qed

end
