(* ===== verification/Pmap_Props.thy ===== *)
theory Pmap_Props
  imports Pmap_Reach
begin

text \<open>
  The properties of the pmap module: consistency of every reachable state, and what entering,
  removing and protecting user mappings does. A small booted state serves the witnesses.
\<close>

section \<open>A booted machine\<close>

text \<open>
  A small concrete state for the witnesses: 8 MB of managed memory at \<open>0x10000000\<close>, two pages
  for tables, a few pv entries, no pmap but the kernel's.
\<close>

definition boot_st :: pmap_st where
  "boot_st = \<lparr>Sysmap = (\<lambda>_. 0),
     pmaps = (\<lambda>_. \<lparr>pm_count = 0, resident_count = 0, wired_count = 0, pm_asid = 0, pm_asidgen = 0, pm_segtab = 0\<rparr>),
     seg_mem = (\<lambda>_ _. 0), pte_mem = (\<lambda>_ _. 0), free_segtab = 0,
     mdpage = (\<lambda>_. \<lparr>pvh_head = \<lparr>pv_pmap = None, pv_va = 0, pv_flags = 0\<rparr>, pvh_chain = [], pvh_attrs = 0\<rparr>),
     vm_physmem = [\<lparr>ps_start = 0x10000, ps_end = 0x10800, avail_start = 0x10000, avail_end = 0x10800\<rparr>],
     page_init_done = True, uvm_pages = [0x10001000, 0x10002000], pv_pool = [1, 2, 3], pmap_pool = [1, 2],
     pmap_max_asid = 256, pmap_next_asid = 1, pmap_asid_generation = 0, pmap_initialized = True,
     alias_mask = 0, cur_pmap = 0, segbase = 0, hw = []\<rparr>"

lemma boot_st_mapped: "\<not> mapped boot_st pm va e"
  by (simp add: mapped_def va_ok_def pte_get_def boot_st_def)

lemma boot_st_ok: "pmap_ok boot_st"
proof -
  have "pmap_inv boot_st"
    using boot_st_mapped by (auto simp: pmap_inv_def pt_inj_def pv_inv_def res_inv_def resident_pages_def)
      (simp_all add: boot_st_def md_wf_def pv_pairs_def)
  moreover have "alloc_ok boot_st []"
    by (simp add: alloc_ok_def boot_st_def pt_pages_def seg_tabs_def frames_def)
  moreover have "asid_inv boot_st" by (simp add: asid_inv_def asid_live_def boot_st_def)
  ultimately show ?thesis by (auto simp: pmap_ok_def alloc_inv_def)
qed

definition one_pmap :: pmap_st where
  "one_pmap = (case pmap_create boot_st of Ok (pm, t) \<Rightarrow> t | _ \<Rightarrow> boot_st)"

lemma one_pmap_eq: "pmap_create boot_st = Ok (1, one_pmap)"
  by (simp add: one_pmap_def pmap_create_def boot_st_def uvm_pagealloc_zero_def Let_def)

lemma one_pmap_ok: "pmap_ok one_pmap"
  by (rule create_ok [OF boot_st_ok one_pmap_eq])

lemma one_pmap_facts:
  "user_tab one_pmap 1" "uvm_pages one_pmap = [0x10002000]" "pv_pool one_pmap = [1, 2, 3]"
  "vm_physmem one_pmap = vm_physmem boot_st" "mdpage one_pmap = mdpage boot_st" "alias_mask one_pmap = 0"
  "pmap_asid_generation one_pmap = 0"
  by (simp_all add: one_pmap_def pmap_create_def boot_st_def uvm_pagealloc_zero_def Let_def AVR32_PHYS_TO_P1_def)

lemma one_pmap_page: "PHYS_TO_VM_PAGE one_pmap 0x10003000 = Some 0x10003"
  by (simp add: PHYS_TO_VM_PAGE_def one_pmap_facts boot_st_def vm_physseg_find_def vm_physseg_loop.simps atop_def)

section \<open>Reachable states\<close>

text \<open>
  C1. Every state the pmap module reaches from a consistent state by creating, referencing,
  activating and destroying pmaps and by entering, removing and protecting user mappings is
  consistent. The steps are those of \<open>pmap_reach\<close>: entering, removing and protecting is done on user
  pmaps with page aligned user addresses; only managed pages are entered, with a frame address and
  protection bits only, with no kernel mapping of the page at an address with another cache
  index, and with memory for the pv entry and the page table; a pmap is destroyed while it has a
  reference, the last one with nothing resident; and no activation wraps the 32-bit ASID
  generation counter to 0, after which ASIDs need not be unique. Consistent means: no two segments share a page of PTEs, the pv list of every page names exactly
  the user mappings of that page, \<open>resident_count\<close> counts the valid entries, pages of PTEs, segment
  tables and free pages are disjoint, and no two pmaps of a generation share an ASID.
\<close>

theorem pmap_reach_ok:
  assumes "pmap_reach s0 s" "pmap_ok s0"
  shows "pmap_ok s"
  using assms
proof induction
  case (enter s pm va pa pg prot flags r t)
  then show ?case by (intro enter_ok [of s pm va pa pg prot flags r t]) auto
qed (auto intro: create_ok destroy_ok remove_ok protect_ok activate_ok reference_ok)

theorem pmap_reach_ok_witness:
  "pmap_reach boot_st (pmap_activate 1 True one_pmap) \<and> pmap_ok (pmap_activate 1 True one_pmap)"
proof -
  have r: "pmap_reach boot_st (pmap_activate 1 True one_pmap)"
    by (rule pmap_reach.activate [OF pmap_reach.create [OF pmap_reach.boot one_pmap_eq]])
      (simp add: asid_wraps_def one_pmap_facts)
  from pmap_reach_ok [OF this boot_st_ok] r show ?thesis by simp
qed


section \<open>Entering, removing and protecting\<close>

lemma extract_mapped:
  assumes "mapped s pm va e" "pm \<noteq> pmap_kernel"
  shows "pmap_extract pm va s = Some (avr32_tlbpfn_to_paddr e)"
  using assms by (simp add: pmap_extract_def mapped_def va_ok_def)

text \<open>
  C2. Entering a user mapping of a managed page succeeds when memory for tables and pv entries
  is there, keeps the module consistent, makes \<open>pmap_extract\<close> return the page for the address,
  and changes no other mapping of any pmap, except that mappings of the same page at addresses
  with a different cache index are removed. The caller has no kernel mapping of the page at an
  address with a different cache index.
\<close>

theorem pmap_enter_extract:
  assumes "pmap_ok s" "user_tab s pm" "page_aligned va" "va < VM_MAXUSER_ADDRESS"
    "pa AND AVR32_PG_FRAME = pa" "PHYS_TO_VM_PAGE s pa = Some pg" "unat prot < 8"
    "no_kernel_alias s pg va" "pv_pool s \<noteq> []" "pmap_segmap s pm va \<noteq> 0 \<or> uvm_pages s \<noteq> []"
  shows "\<exists>t. pmap_enter pm va pa prot flags s = Ok (0, t) \<and> pmap_ok t \<and> pmap_extract pm va t = Some pa \<and>
     (\<forall>pm' va' e. (pm', va') \<noteq> (pm, va) \<longrightarrow>
        (mapped t pm' va' e \<longleftrightarrow> mapped s pm' va' e \<and>
           \<not> ((pm', va') \<in> set (pv_pairs (mdpage s pg)) \<and>
              avr32_cache_indexof s va' \<noteq> avr32_cache_indexof s va)))"
proof -
  obtain ts where al: "alloc_ok s ts" and inv: "pmap_inv s" using assms(1) by (auto simp: pmap_ok_def alloc_inv_def)
  from pmap_enter_user_ok [OF inv al assms(2-), of flags] obtain t where
    t: "pmap_enter pm va pa prot flags s = Ok (0, t)"
      "entered s pm va (enter_pte pm pa prot flags (pvh_attrs (mdpage s pg))) pg t" by blast
  have "pmap_extract pm va t = Some pa"
  proof -
    have "mapped t pm va (enter_pte pm pa prot flags (pvh_attrs (mdpage s pg)))" "pm \<noteq> pmap_kernel"
      using t(2) assms(2) unfolding entered_def by blast+
    from extract_mapped [OF this] show ?thesis by (simp add: enter_pte_bits(2) [OF assms(5,7)])
  qed
  moreover have "pmap_ok t" by (rule enter_ok [OF assms t(1)])
  ultimately show ?thesis using t unfolding entered_def by blast
qed

lemma one_pmap_enter_args:
  "page_aligned 0x1000" "(0x1000 :: u32) < VM_MAXUSER_ADDRESS" "(0x10003000 :: u32) AND AVR32_PG_FRAME = 0x10003000"
  "unat (3 :: u32) < 8" "no_kernel_alias one_pmap 0x10003 0x1000" "pv_pool one_pmap \<noteq> []"
  "pmap_segmap one_pmap 1 0x1000 \<noteq> 0 \<or> uvm_pages one_pmap \<noteq> []"
  by (simp_all add: one_pmap_facts no_kernel_alias_def boot_st_def pv_pairs_def)

theorem pmap_enter_extract_witness:
  "\<exists>t. pmap_enter 1 0x1000 0x10003000 3 0 one_pmap = Ok (0, t) \<and> pmap_extract 1 0x1000 t = Some 0x10003000"
  using pmap_enter_extract [OF one_pmap_ok one_pmap_facts(1) one_pmap_enter_args(1-3) one_pmap_page
      one_pmap_enter_args(4-7), of 0] by blast

text \<open>
  C14. Removing a page aligned user range always returns, keeps the module consistent, leaves no
  page of the range mapped, and leaves every mapping outside the range, in this pmap and in
  every other one including the kernel's, as it was.
\<close>

theorem pmap_remove_range:
  assumes "pmap_ok s" "user_tab s pm" "page_aligned sva" "page_aligned eva" "eva \<le> VM_MAXUSER_ADDRESS" "sva \<le> eva"
  shows "\<exists>t. pmap_remove pm sva eva s = Ok t \<and> pmap_ok t \<and>
     (\<forall>va. page_aligned va \<and> sva \<le> va \<and> va < eva \<longrightarrow> pmap_extract pm va t = None) \<and>
     (\<forall>pm' va. va_ok s pm' va \<and> \<not> (pm' = pm \<and> sva \<le> va \<and> va < eva) \<longrightarrow>
        pmap_extract pm' va t = pmap_extract pm' va s)"
proof -
  obtain t where t: "pmap_remove pm sva eva s = Ok t" "updates cleared s pm {va. sva \<le> va \<and> va < eva} t"
    using pmap_remove_user [of s pm sva eva] assms by (auto simp: pmap_ok_def)
  have "pmap_extract pm va t = None" if "page_aligned va" "sva \<le> va" "va < eva" for va
  proof -
    have "va_ok s pm va" using that assms(2,5) by (auto simp: va_ok_def)
    from updatesD [OF t(2) this] have "pte_get t pm va = cleared (pte_get s pm va)" using that by simp
    then show ?thesis using assms(2) by (auto simp: pmap_extract_def cleared_def split: option.splits)
  qed
  moreover have "pmap_extract pm' va t = pmap_extract pm' va s"
    if "va_ok s pm' va" "\<not> (pm' = pm \<and> sva \<le> va \<and> va < eva)" for pm' va
    using updatesD [OF t(2) that(1)] that(2) by (auto simp: pmap_extract_def)
  ultimately show ?thesis using t(1) remove_ok [OF assms t(1)] by blast
qed

theorem pmap_remove_range_witness:
  "\<exists>t. pmap_remove 1 0x1000 0x5000 one_pmap = Ok t \<and> pmap_extract 1 0x1000 t = None"
  using pmap_remove_range [where sva = "0x1000" and eva = "0x5000", OF one_pmap_ok one_pmap_facts(1)] by auto

text \<open>
  C26. Changing the protection of a page aligned user range to one that can be read always returns,
  keeps the module consistent, gives every mapped page of the range the access bits of the new
  protection with the dirty bit off and all other bits kept, and changes no entry outside
  the range; no translation changes anywhere.
\<close>

theorem pmap_protect_range:
  assumes "pmap_ok s" "user_tab s pm" "page_aligned sva" "page_aligned eva" "eva \<le> VM_MAXUSER_ADDRESS" "sva \<le> eva"
    "unat prot < 8" "prot AND VM_PROT_READ \<noteq> 0"
  shows "\<exists>t. pmap_protect pm sva eva prot s = Ok t \<and> pmap_ok t \<and>
     (\<forall>pm' va e. mapped s pm' va e \<longrightarrow> mapped t pm' va
        (if pm' = pm \<and> sva \<le> va \<and> va < eva
         then (e AND NOT (AVR32_PG_ACCESS OR AVR32_PG_DIRTY)) OR pte_prot pm prot else e)) \<and>
     (\<forall>pm' va. va_ok s pm' va \<longrightarrow> pmap_extract pm' va t = pmap_extract pm' va s)"
proof -
  let ?V = "{va. sva \<le> va \<and> va < eva}" and ?p = "pte_prot pm prot"
  obtain t where t: "pmap_protect pm sva eva prot s = Ok t" "updates (protected ?p) s pm ?V t"
    using pmap_protect_user [of s pm sva eva prot] assms by (auto simp: pmap_ok_def)
  note b = pte_prot_bits [OF assms(7), of pm]
  have "mapped t pm' va (if pm' = pm \<and> sva \<le> va \<and> va < eva
         then (e AND NOT (AVR32_PG_ACCESS OR AVR32_PG_DIRTY)) OR ?p else e)" if "mapped s pm' va e" for pm' va e
  proof -
    have "va_ok s pm' va" "pte_get s pm' va = Some e" "pte_valid e" using that by (simp_all add: mapped_def)
    moreover have "va_ok t pm' va = va_ok s pm' va" by (rule same_envD(1) [OF updates_env [OF t(2)]])
    ultimately show ?thesis
      using updatesD [OF t(2), of pm' va] reprotect_valid [OF b(1), of e]
      by (cases "pm' = pm \<and> sva \<le> va \<and> va < eva") (auto simp: mapped_def protected_def)
  qed
  moreover have "pmap_extract pm' va t = pmap_extract pm' va s" if "va_ok s pm' va" for pm' va
    using updatesD [OF t(2) that] reprotect_valid [OF b(1)] reprotect_frame [OF b(2)]
    by (auto simp: pmap_extract_def protected_def split: option.splits if_splits)
  ultimately show ?thesis using t(1) protect_ok [OF assms(1-6) t(1)] by blast
qed

theorem pmap_protect_range_witness:
  "\<exists>t. pmap_protect 1 0x1000 0x5000 1 one_pmap = Ok t \<and> pmap_ok t"
  using pmap_protect_range [where sva = "0x1000" and eva = "0x5000" and prot = "1", OF one_pmap_ok one_pmap_facts(1)] by auto

end
