(* ===== verification/Pmap_Kernel.thy ===== *)
theory Pmap_Kernel
  imports Pmap_Props
begin

text \<open>
  The rest of the pmap interface: wired kernel mappings and their removal, mappings entered in
  the kernel's pmap, the operations on every mapping of a page (\<open>pmap_page_protect\<close>,
  \<open>pmap_clear_modify\<close>) and the ASID an activated pmap gets.
\<close>

section \<open>Kernel mappings\<close>

lemma kernel_va:
  assumes "page_aligned va" "VM_MIN_KERNEL_ADDRESS \<le> va"
  shows "va_ok s pmap_kernel va"
  using assms by (simp add: va_ok_def)

lemma extract_kernel:
  assumes "VM_MIN_KERNEL_ADDRESS \<le> va"
  shows "pmap_extract pmap_kernel va s = (if pte_valid (Sysmap s (kvtopte va))
     then Some (avr32_tlbpfn_to_paddr (Sysmap s (kvtopte va)) OR (va AND PGOFSET)) else None)"
proof -
  have "\<not> va < AVR32_P2_START" using assms by (auto dest: order_le_less_trans)
  then show ?thesis by (simp add: pmap_extract_def pte_get_def)
qed







text \<open>
  pmap_enter on the kernel pmap sets the valid bit of the TLB tag, not that of a PTE: when
  it returns success, the kernel's page table has no valid entry for the address, so
  pmap_extract does not find the mapping and pmap_remove skips it.
\<close>
theorem kernel_enter_leaves_invalid:
  assumes "pmap_enter pmap_kernel va pa prot flags s = Ok (r, t)" "unat prot < 8" "VM_MIN_KERNEL_ADDRESS \<le> va"
  shows "r = 0 \<and> pmap_extract pmap_kernel va t = None"
proof -
  note b = pte_prot_bits [OF assms(2), of pmap_kernel]
  obtain e s1 h where t: "t = (pte_set pmap_kernel va e s1)\<lparr>hw := h\<rparr>" "\<not> pte_valid e" "r = 0"
    using assms(1) b(1)
    by (auto simp: pmap_enter_def pmap_enter_kernel_def pmap_enter_write_def tlb_update_def Let_def bind_r_eq_Ok
        and_or_distrib_left avr32_paddr_to_tlbpfn_def and.assoc split: option.splits if_splits)
  then show ?thesis by (simp add: extract_kernel [OF assms(3)] pte_set_def)
qed

lemma one_pmap_sysmap: "Sysmap one_pmap = (\<lambda>_. 0)" "mdpage one_pmap = mdpage boot_st"
  by (simp_all add: one_pmap_def pmap_create_def boot_st_def uvm_pagealloc_zero_def Let_def pmap_upd_def)

definition with_kernel_page :: pmap_st where
  "with_kernel_page = (case pmap_enter pmap_kernel 0xC0001000 0x10003000 3 0 one_pmap of Ok (r, t) \<Rightarrow> t | _ \<Rightarrow> one_pmap)"

lemma with_kernel_page_eq: "pmap_enter pmap_kernel 0xC0001000 0x10003000 3 0 one_pmap = Ok (0, with_kernel_page)"
  by (simp add: with_kernel_page_def pmap_enter_def one_pmap_page pmap_enter_kernel_def pmap_enter_pv_def Let_def one_pmap_facts
      boot_st_def md_upd_def pmap_enter_pv_again.simps pmap_enter_write_def pte_get_def one_pmap_sysmap)

theorem kernel_enter_leaves_invalid_witness:
  "pmap_enter pmap_kernel 0xC0001000 0x10003000 3 0 one_pmap = Ok (0, with_kernel_page) \<and>
   pmap_extract pmap_kernel 0xC0001000 with_kernel_page = None"
  using kernel_enter_leaves_invalid [OF with_kernel_page_eq] with_kernel_page_eq by simp

section \<open>All mappings of a page\<close>

text \<open>Writable mappings of one page, entered in the order given.\<close>

definition maps_of :: "vaddr list \<Rightarrow> pmap_st" where
  "maps_of vas = fold (\<lambda>va s. case pmap_enter 1 va 0x10003000 3 2 s of Ok (r, t) \<Rightarrow> t | _ \<Rightarrow> s) vas one_pmap"

lemma one_mapping_protect: "case pmap_page_protect 0x10003 0 (maps_of [0x1000]) of Ok t \<Rightarrow> pmap_extract 1 0x1000 t = None | _ \<Rightarrow> False"
  by code_simp

lemma two_mappings_protect: "case pmap_page_protect 0x10003 0 (maps_of [0x1000,0x2000]) of Ok t \<Rightarrow> pmap_extract 1 0x1000 t = None \<and> pmap_extract 1 0x2000 t = Some 0x10003000 | _ \<Rightarrow> False"
  by code_simp

lemma three_mappings_protect: "case pmap_page_protect 0x10003 0 (maps_of [0x1000,0x2000,0x3000]) of Undef m \<Rightarrow> m = ''pv entry used after free'' | _ \<Rightarrow> False"
  by code_simp

text \<open>
  The remove-all branch of pmap_page_protect walks the pv list through the entry it has just
  removed. A page with one mapping is unmapped; with two mappings the second stays mapped,
  although the call returns; with three the walk reads an entry that has been freed.
\<close>

theorem pmap_page_protect_misses:
  "(\<exists>t. pmap_page_protect 0x10003 0 (maps_of [0x1000]) = Ok t \<and> pmap_extract 1 0x1000 t = None) \<and>
   (\<exists>t. pmap_page_protect 0x10003 0 (maps_of [0x1000, 0x2000]) = Ok t \<and>
        pmap_extract 1 0x1000 t = None \<and> pmap_extract 1 0x2000 t = Some 0x10003000) \<and>
   pmap_page_protect 0x10003 0 (maps_of [0x1000, 0x2000, 0x3000]) = Undef ''pv entry used after free''"
  using one_mapping_protect two_mappings_protect three_mappings_protect by (auto split: result.splits)

section \<open>Modified status\<close>

lemma asid_no_valid:
  fixes x :: u32
  assumes "x < 256"
  shows "x AND AVR32_PG_VALID = 0"
proof -
  have "take_bit 8 x = x" using assms by (intro take_bit_self32) (simp add: word_less_nat_alt)
  then have "x AND 255 = x" by (simp add: take_bit_eq_mask mask_numeral)
  then have "x AND 512 = x AND (255 AND 512)" by (metis and.assoc)
  then show ?thesis by simp
qed

text \<open>
  pmap_clear_modify hands avr32_tbis a TLB tag without the valid bit, which avr32_tbis refuses
  in every build: clearing the modified status of a page panics as soon as the first mapping
  on the page's pv list is writable, dirty and belongs to a pmap of the current generation.
\<close>

theorem pmap_clear_modify_panics:
  assumes "pvh_attrs (mdpage s pg) AND PV_MODIFIED \<noteq> 0" "pv_pmap (pvh_head (mdpage s pg)) = Some pm"
    "pv_va (pvh_head (mdpage s pg)) = va" "page_aligned va" "pte_get s pm va = Some e" "e AND AVR32_PG_DIRTY \<noteq> 0"
    "pm_asidgen (pmaps s pm) = pmap_asid_generation s" "pm_asid (pmaps s pm) < 256"
  shows "pmap_clear_modify pg s = Panic ''avr32_tbis: invalid entry''"
proof -
  have "(va AND PGOFSET) AND AVR32_PG_VALID = 0" using assms(4) by simp
  then have "va AND AVR32_PG_VALID = 0" by (simp add: and.assoc)
  moreover have "pm_asid (pmaps s pm) AND AVR32_PG_VALID = 0" by (rule asid_no_valid [OF assms(8)])
  ultimately have "(va OR (if pm = pmap_kernel then 0 else pm_asid (pmaps s pm))) AND AVR32_PG_VALID = 0"
    by (simp add: and_or_distrib_left)
  then have "tbis (va OR (if pm = pmap_kernel then 0 else pm_asid (pmaps s pm))) x u = Panic ''avr32_tbis: invalid entry''" for x u
    by (simp only: tbis_def avr32_tbis_def if_True bind_r.simps simp_thms)
  moreover have "pte_get (md_upd pg f s) pm va = Some e" for f
    using assms(5) by (simp add: pte_get_def pmap_segmap_def md_upd_def split: if_splits)
  ultimately show ?thesis using assms(1-3,6,7)
    by (cases "pm = 0"; simp add: pmap_clear_modify_def Let_def pv_entries_def; simp add: md_upd_def; auto)
qed

lemma dirty_page:
  "pvh_attrs (mdpage (maps_of [0x1000]) 0x10003) AND PV_MODIFIED \<noteq> 0"
  "pv_pmap (pvh_head (mdpage (maps_of [0x1000]) 0x10003)) = Some 1"
  "pv_va (pvh_head (mdpage (maps_of [0x1000]) 0x10003)) = 0x1000"
  "\<exists>e. pte_get (maps_of [0x1000]) 1 0x1000 = Some e \<and> e AND AVR32_PG_DIRTY \<noteq> 0"
  "pm_asidgen (pmaps (maps_of [0x1000]) 1) = pmap_asid_generation (maps_of [0x1000])"
  "pm_asid (pmaps (maps_of [0x1000]) 1) < 256"
proof -
  have "case pte_get (maps_of [0x1000]) 1 0x1000 of Some e \<Rightarrow> e AND AVR32_PG_DIRTY \<noteq> 0 | None \<Rightarrow> False" by code_simp
  then show "\<exists>e. pte_get (maps_of [0x1000]) 1 0x1000 = Some e \<and> e AND AVR32_PG_DIRTY \<noteq> 0" by (simp split: option.splits)
qed code_simp+

theorem pmap_clear_modify_panics_witness:
  "pmap_clear_modify 0x10003 (maps_of [0x1000]) = Panic ''avr32_tbis: invalid entry''"
  using dirty_page(4) pmap_clear_modify_panics [OF dirty_page(1-3) _ _ _ dirty_page(5,6)] by auto

section \<open>Activation\<close>

lemma asid_alloc_wraps:
  assumes "asid_inv s" "asid_wraps s pm"
  shows "pm_asid (pmaps (pmap_asid_alloc pm s) pm) = 1" "pm_asidgen (pmaps (pmap_asid_alloc pm s) pm) = 0"
    "pmap_asid_generation (pmap_asid_alloc pm s) = 0"
  using assms by (auto simp: asid_wraps_def asid_inv_def asid_live_def pmap_asid_alloc_def pmap_upd_def Let_def)

lemma asid_alloc_frame:
  "pm' \<noteq> pm \<Longrightarrow> pmaps (pmap_asid_alloc pm s) pm' = pmaps s pm'"
  "pm_segtab (pmaps (pmap_asid_alloc pm s) pm) = pm_segtab (pmaps s pm)"
  by (simp_all add: pmap_asid_alloc_def pmap_upd_def Let_def)

text \<open>The owners of the ASID an activation hands out.\<close>

lemma asid_alloc_owners:
  fixes pm :: nat
  assumes inv: "asid_inv s"
  defines "t \<equiv> pmap_asid_alloc pm s"
  shows "asid_live t pm \<and> pm_asid (pmaps t pm) < 256 \<and>
    (\<forall>pm'. pm' \<noteq> pm \<longrightarrow> (asid_live t pm' \<and> pm_asid (pmaps t pm') = pm_asid (pmaps t pm) \<longleftrightarrow>
       asid_wraps s pm \<and> pm_asidgen (pmaps s pm') = 0 \<and> pm_asid (pmaps s pm') = 1))"
proof (cases "asid_wraps s pm")
  case True
  then show ?thesis
    using asid_alloc_wraps [OF inv True] by (auto simp: t_def asid_live_def asid_alloc_frame(1))
next
  case False
  note a = asid_alloc_ok [OF inv False, folded t_def]
  then have "asid_live t pm' \<Longrightarrow> pm_asid (pmaps t pm') = pm_asid (pmaps t pm) \<Longrightarrow> pm' = pm" for pm'
    unfolding asid_inv_def by blast
  then show ?thesis using a False by blast
qed

text \<open>
  C38. Activating a user pmap in a consistent state gives it an ASID of the current generation that is not
  the reserved one and fits the eight bits of the TLB tag, points the refill handler at the pmap's
  segment table and loads the ASID into the MMU. The other pmaps that count as owners of the same ASID
  are exactly these: when the activation uses up the last generation and wraps the 32-bit
  generation counter to 0, which the code calls harmless, the pmaps that were last activated in the
  old generation 0 with ASID 1. In every other activation, also one that starts a new
  generation, there are none.
\<close>

theorem pmap_activate_asid:
  assumes "pmap_ok s"
  shows "\<exists>a t. pmap_activate pm True s = t \<and> pm_asid (pmaps t pm) = a \<and> a \<noteq> PMAP_ASID_RESERVED \<and> a < 256 \<and>
    pm_asidgen (pmaps t pm) = pmap_asid_generation t \<and>
    (\<forall>pm'. pm' \<noteq> pm \<longrightarrow> (asid_live t pm' \<and> pm_asid (pmaps t pm') = a \<longleftrightarrow>
       asid_wraps s pm \<and> pm_asidgen (pmaps s pm') = 0 \<and> pm_asid (pmaps s pm') = 1)) \<and>
    segbase t = pm_segtab (pmaps s pm) \<and> hd (hw t) = SET_PID a"
proof -
  let ?u = "pmap_asid_alloc pm s" and ?t = "pmap_activate pm True s"
  have "asid_inv s" using assms by (simp add: pmap_ok_def)
  note a = asid_alloc_owners [OF this, of pm]
  have p: "pmaps ?t = pmaps ?u" "pmap_asid_generation ?t = pmap_asid_generation ?u"
    "segbase ?t = pm_segtab (pmaps ?u pm)" "hd (hw ?t) = SET_PID (pm_asid (pmaps ?u pm))"
    by (simp_all add: pmap_activate_def Let_def MachSetPID_def)
  then have "asid_live ?t pm' = asid_live ?u pm'" for pm' by (simp add: asid_live_def)
  then show ?thesis using a p asid_alloc_frame(2) [of pm s] by (auto simp: asid_live_def)
qed

text \<open>
  The last generation used up: pmap 2 was last activated in generation 0, pmap 1 is activated now,
  and both end up with ASID 1 of generation 0.
\<close>

definition last_gen :: pmap_st where
  "last_gen = (pmap_upd 2 (\<lambda>p. p\<lparr>pm_asid := 1\<rparr>) one_pmap)\<lparr>pmap_asid_generation := 0xffffffff, pmap_next_asid := 256\<rparr>"

lemma last_gen_facts:
  "asid_wraps last_gen 1" "pm_asidgen (pmaps last_gen 2) = 0" "pm_asid (pmaps last_gen 2) = 1"
  "asid_inv last_gen"
  by (simp_all add: last_gen_def asid_wraps_def asid_live_def asid_inv_def one_pmap_def pmap_create_def boot_st_def
      uvm_pagealloc_zero_def Let_def AVR32_PHYS_TO_P1_def pmap_upd_def)

lemma last_gen_ok: "pmap_ok last_gen"
proof -
  obtain ts where "pmap_inv one_pmap" "alloc_ok one_pmap ts" using one_pmap_ok by (auto simp: pmap_ok_def alloc_inv_def)
  then have "pmap_inv last_gen" "alloc_ok last_gen ts"
    using inv_cong(1) [of one_pmap last_gen] alloc_ok_cong [of last_gen one_pmap ts] by (simp_all add: last_gen_def)
  then show ?thesis using last_gen_facts(4) by (auto simp: pmap_ok_def alloc_inv_def)
qed

theorem pmap_activate_asid_witness:
  "pm_asid (pmaps (pmap_activate 1 True last_gen) 1) < 256 \<and> pm_asid (pmaps (pmap_activate 1 True last_gen) 1) \<noteq> PMAP_ASID_RESERVED \<and>
   asid_live (pmap_activate 1 True last_gen) 2 \<and>
   pm_asid (pmaps (pmap_activate 1 True last_gen) 2) = pm_asid (pmaps (pmap_activate 1 True last_gen) 1)"
proof -
  from pmap_activate_asid [OF last_gen_ok, of 1] show ?thesis
    using last_gen_facts(1-3) by (auto dest: spec [where x = 2])
qed

end
