(* ===== verification/Pmap_Boot.thy ===== *)
theory Pmap_Boot
  imports Pmap
begin

text \<open>
  Booting the memory system: loading physical segments (\<open>uvm_page_physload\<close> of \<open>uvm/uvm_page.c\<close>, called
  by \<open>mach_init\<close> of \<open>arch/avr32/avr32/machdep.c\<close>), stealing memory before UVM runs
  (\<open>uvm_pageboot_alloc\<close>, \<open>pmap_steal_memory\<close>), \<open>pmap_bootstrap\<close>, \<open>pmap_init\<close>; and the page-level operations of
  \<open>pmap.c\<close>: copying and zeroing pages, pool pages, and the entry points that are not written yet.

  \<open>pmap_boot\<close> adds to the state of the pmap module the variables of the boot phase. The header of the
  pv list of a page is its entry of \<open>pv_table\<close>; \<open>pvh_list pg\<close> is the index of that entry.
\<close>

section \<open>State\<close>

record pmap_boot =
  pb_st :: pmap_st
  Sysmapsize :: u32
  pb_avail_start :: u32
  pb_avail_end :: u32
  virtual_end :: u32
  Sysmap_va :: u32
  pv_table :: u32
  pv_table_npages :: u32
  pvh_list :: "u32 \<Rightarrow> nat option"
  pageboot_initialized :: bool
  virtual_space_start :: u32
  virtual_space_end :: u32
  physmem :: u32

text \<open>What the bootstrap reads of the rest of the kernel: sizes computed elsewhere.\<close>

record boot_params =
  bp_bufsz :: u32
  bp_ubc_nwins :: u32
  bp_ubc_winshift :: nat
  bp_pager_map_size :: u32
  bp_maxproc :: u32
  bp_nkmempages :: u32

abbreviation (input) VM_PHYSSEG_MAX :: nat where "VM_PHYSSEG_MAX \<equiv> 16"
abbreviation (input) VM_NFREELIST :: int where "VM_NFREELIST \<equiv> 1"
abbreviation (input) VM_FREELIST_DEFAULT :: int where "VM_FREELIST_DEFAULT \<equiv> 0"
abbreviation (input) VM_PHYS_SIZE :: u32 where "VM_PHYS_SIZE \<equiv> 0x80000"
abbreviation (input) NCARGS :: u32 where "NCARGS \<equiv> 0x40000"
abbreviation (input) UPAGES :: u32 where "UPAGES \<equiv> 2"
abbreviation (input) USPACE :: u32 where "USPACE \<equiv> 0x2000"
abbreviation (input) AVR32_TLB_NUM_PIDS :: u32 where "AVR32_TLB_NUM_PIDS \<equiv> 256"

section \<open>Physical segments\<close>

text \<open>The position by start address, for the binary search.\<close>

fun physload_insert :: "vm_physseg \<Rightarrow> vm_physseg list \<Rightarrow> vm_physseg list" where
  "physload_insert ps [] = [ps]"
| "physload_insert ps (x # xs) = (if ps_start ps < ps_start x then ps # x # xs else x # physload_insert ps xs)"

text \<open>
  \<open>pagesize\<close> and \<open>pgs\<close>: whether the page size is set and whether the segments loaded so far have their
  \<open>vm_page\<close> structures. A seventeenth segment is ignored with a message.
\<close>

definition uvm_page_physload ::
  "bool \<Rightarrow> bool \<Rightarrow> u32 \<Rightarrow> u32 \<Rightarrow> u32 \<Rightarrow> u32 \<Rightarrow> int \<Rightarrow> vm_physseg list \<Rightarrow> vm_physseg list result" where
  "uvm_page_physload pagesize pgs start end astart aend free_list mem =
     (if \<not> pagesize then Panic ''uvm_page_physload: page size not set!''
      else if free_list \<ge> VM_NFREELIST \<or> free_list < VM_FREELIST_DEFAULT then Panic ''uvm_page_physload: bad free list''
      else if start \<ge> end then Panic ''uvm_page_physload: start >= end''
      else if length mem = VM_PHYSSEG_MAX then Ok mem
      else if mem \<noteq> [] \<and> pgs then Panic ''uvm_page_physload: tried to add RAM after vm_mem_init''
      else Ok (physload_insert \<lparr>ps_start = start, ps_end = end, avail_start = astart, avail_end = aend\<rparr> mem))"

text \<open>The loop of \<open>mach_init\<close> over the memory clusters (start and size), above the end of the kernel.\<close>

fun mach_init_load :: "u32 \<Rightarrow> (u32 \<times> u32) list \<Rightarrow> u32 \<Rightarrow> vm_physseg list \<Rightarrow> (u32 \<times> vm_physseg list) result" where
  "mach_init_load kernend [] pmem mem = Ok (pmem, mem)"
| "mach_init_load kernend ((cstart, csize) # cs) pmem mem =
     (let first = (if cstart < AVR32_P1_TO_PHYS kernend then round_page (AVR32_P1_TO_PHYS kernend) else cstart);
          lst = cstart + csize
      in bind_r (uvm_page_physload True False (atop first) (atop lst) (atop first) (atop lst) VM_FREELIST_DEFAULT mem)
           (mach_init_load kernend cs (pmem + atop csize)))"

section \<open>Stealing memory\<close>

text \<open>
  The loop over the banks: the physical address stolen and the banks left. \<open>n\<close> is \<open>vm_nphysseg\<close>.
\<close>

fun steal_banks :: "bool \<Rightarrow> u32 \<Rightarrow> nat \<Rightarrow> vm_physseg list \<Rightarrow> (paddr \<times> vm_physseg list) result" where
  "steal_banks initdone npgs n [] = Panic ''pmap_steal_memory: no memory to steal''"
| "steal_banks initdone npgs n (b # bs) =
     (if initdone then Panic ''pmap_steal_memory: called _after_ bootstrap''
      else if avail_start b \<noteq> ps_start b \<or> avail_start b \<ge> avail_end b \<or> avail_end b - avail_start b < npgs
      then bind_r (steal_banks initdone npgs n bs) (\<lambda>(pa, bs). Ok (pa, b # bs))
      else let b' = b\<lparr>avail_start := avail_start b + npgs, ps_start := ps_start b + npgs\<rparr>
           in if avail_start b' = ps_end b'
              then (if n = 1 then Panic ''pmap_steal_memory: out of memory!'' else Ok (ptoa (avail_start b), bs))
              else Ok (ptoa (avail_start b), b' # bs))"

definition pmap_steal_memory :: "u32 \<Rightarrow> pmap_st \<Rightarrow> (vaddr \<times> pmap_st) result" where
  "pmap_steal_memory sz s =
     (let sz = round_page sz; npgs = atop sz in
      bind_r (steal_banks (page_init_done s) npgs (length (vm_physmem s)) (vm_physmem s)) (\<lambda>(pa, mem).
        Ok (AVR32_PHYS_TO_P1 pa, hw_op (PAGE_ZERO (AVR32_PHYS_TO_P1 pa) sz) (s\<lparr>vm_physmem := mem\<rparr>))))"

definition pmap_virtual_space :: "pmap_boot \<Rightarrow> vaddr \<times> vaddr" where
  "pmap_virtual_space b = (VM_MIN_KERNEL_ADDRESS, trunc_page (virtual_end b))"

definition uvm_pageboot_alloc :: "u32 \<Rightarrow> pmap_boot \<Rightarrow> (vaddr \<times> pmap_boot) result" where
  "uvm_pageboot_alloc sz b =
     (let b1 = (if pageboot_initialized b then b
                else let (vs, ve) = pmap_virtual_space b
                     in b\<lparr>virtual_space_start := round_page vs, virtual_space_end := trunc_page ve,
                          pageboot_initialized := True\<rparr>);
          sz = round_page sz
      in bind_r (pmap_steal_memory sz (pb_st b1)) (\<lambda>(va, s). Ok (va, b1\<lparr>pb_st := s\<rparr>)))"

section \<open>Bootstrap\<close>

definition kernel_ptes :: "boot_params \<Rightarrow> u32" where
  "kernel_ptes p = (VM_PHYS_SIZE + push_bit (bp_ubc_winshift p) (bp_ubc_nwins p) + bp_bufsz p + 16 * NCARGS +
      bp_pager_map_size p) div NBPG + bp_maxproc p * UPAGES + bp_nkmempages p"

definition pmap_bootstrap :: "boot_params \<Rightarrow> pmap_boot \<Rightarrow> pmap_boot result" where
  "pmap_bootstrap p b =
     (if vm_physmem (pb_st b) = [] then Undef ''vm_physmem[0]''
      else
        let n = kernel_ptes p;
            b1 = b\<lparr>Sysmapsize := n,
                   pb_avail_start := ptoa (ps_start (hd (vm_physmem (pb_st b)))),
                   pb_avail_end := ptoa (ps_end (last (vm_physmem (pb_st b)))),
                   virtual_end := VM_MIN_KERNEL_ADDRESS + n * NBPG\<rparr>
        in bind_r (uvm_pageboot_alloc (4 * n) b1) (\<lambda>(sysmap, b2).
           bind_r (uvm_pageboot_alloc (16 * physmem b2) (b2\<lparr>Sysmap_va := sysmap, pv_table_npages := physmem b2,
                     pb_st := (pb_st b2)\<lparr>Sysmap := (\<lambda>_. 0)\<rparr>\<rparr>)) (\<lambda>(pvt, b3).
             let s = pb_st b3;
                 s1 = s\<lparr>pv_pool := [], pmap_pool := [],
                        pmaps := (pmaps s)(pmap_kernel := (pmaps s pmap_kernel)\<lparr>pm_count := 1,
                                   pm_asid := PMAP_ASID_RESERVED, pm_asidgen := 0\<rparr>),
                        pmap_max_asid := AVR32_TLB_NUM_PIDS, pmap_next_asid := 1, pmap_asid_generation := 0,
                        hw := MachSetPID 0 (hw s)\<rparr>
             in Ok (b3\<lparr>pv_table := pvt, pb_st := s1\<rparr>))))"

text \<open>
  \<open>pmap_init\<close> gives every managed page its entry of \<open>pv_table\<close>, which is still clear. An index past the
  end of the table would be an access outside it.
\<close>

definition pv_header :: "u32 \<Rightarrow> nat \<Rightarrow> pmap_boot \<Rightarrow> pmap_boot" where
  "pv_header pg k b = b\<lparr>pvh_list := (pvh_list b)(pg := Some k),
     pb_st := md_upd pg (\<lambda>m. m\<lparr>pvh_head := \<lparr>pv_pmap = None, pv_va = 0, pv_flags = 0\<rparr>, pvh_chain := []\<rparr>) (pb_st b)\<rparr>"

fun pmap_init_banks :: "vm_physseg list \<Rightarrow> nat \<Rightarrow> pmap_boot \<Rightarrow> pmap_boot" where
  "pmap_init_banks [] k b = b"
| "pmap_init_banks (ps # banks) k b =
     (let n = unat (ps_end ps - ps_start ps)
      in pmap_init_banks banks (k + n) (fold (\<lambda>i. pv_header (ps_start ps + of_nat i) (k + i)) [0..<n] b))"

definition pmap_init :: "pmap_boot \<Rightarrow> pmap_boot" where
  "pmap_init b =
     (let b1 = pmap_init_banks (vm_physmem (pb_st b)) 0 b;
          mmucr = (1 OR 4 OR 0x10 OR push_bit 8 2 OR push_bit 14 2 :: u32)
      in b1\<lparr>pb_st := (hw_op (MMUCR_WRITE mmucr) (pb_st b1))\<lparr>pmap_initialized := True\<rparr>\<rparr>)"

section \<open>Pages\<close>

definition avr32_flushcache_allpvh :: "paddr \<Rightarrow> pmap_st \<Rightarrow> pmap_st" where
  "avr32_flushcache_allpvh pa s =
     (case PHYS_TO_VM_PAGE s pa of
        None \<Rightarrow> s
      | Some pg \<Rightarrow>
          let pv = pvh_head (mdpage s pg) in
          if pv_pmap pv = None then s
          else if avr32_cache_indexof s pa \<noteq> avr32_cache_indexof s (pv_va pv)
          then hw_op (DCACHE_WBINV_RANGE_INDEX (pv_va pv) NBPG) s
          else s)"

definition pmap_copy_page :: "paddr \<Rightarrow> paddr \<Rightarrow> pmap_st \<Rightarrow> pmap_st" where
  "pmap_copy_page src dst s =
     (let s1 = avr32_flushcache_allpvh src s;
          s2 = hw_op (PAGE_COPY (AVR32_PHYS_TO_P1 dst) (AVR32_PHYS_TO_P1 src)) s1;
          s3 = hw_op (DCACHE_WBINV_RANGE (AVR32_PHYS_TO_P1 src) NBPG) s2
      in hw_op (DCACHE_WBINV_RANGE (AVR32_PHYS_TO_P1 dst) NBPG) s3)"

definition pmap_zero_page :: "paddr \<Rightarrow> pmap_st \<Rightarrow> pmap_st" where
  "pmap_zero_page phys s = hw_op (PAGE_ZERO (AVR32_PHYS_TO_P1 phys) NBPG) s"

text \<open>The write-back of the old cache index that pool pages and pv pages share.\<close>

definition pool_page_flush :: "u32 \<Rightarrow> vaddr \<Rightarrow> pmap_st \<Rightarrow> pmap_st" where
  "pool_page_flush pg va s =
     (let pv = pvh_head (mdpage s pg) in
      if pv_flags pv AND PV_UNCACHED = 0 \<and> avr32_cache_indexof s (pv_va pv) \<noteq> avr32_cache_indexof s va
      then hw_op (DCACHE_WBINV_RANGE_INDEX (pv_va pv) NBPG) s else s)"

definition avr32_pmap_map_poolpage :: "paddr \<Rightarrow> pmap_st \<Rightarrow> (vaddr \<times> pmap_st) result" where
  "avr32_pmap_map_poolpage pa s =
     (case PHYS_TO_VM_PAGE s pa of
        None \<Rightarrow> Undef ''pg''
      | Some pg \<Rightarrow> Ok (AVR32_PHYS_TO_P1 pa, pool_page_flush pg (AVR32_PHYS_TO_P1 pa) s))"

definition avr32_pmap_unmap_poolpage :: "vaddr \<Rightarrow> pmap_st \<Rightarrow> paddr \<times> pmap_st" where
  "avr32_pmap_unmap_poolpage va s = (AVR32_P1_TO_PHYS va, hw_op (DCACHE_INV_RANGE va NBPG) s)"

definition pmap_pv_page_alloc :: "pmap_st \<Rightarrow> (vaddr option \<times> pmap_st) result" where
  "pmap_pv_page_alloc s =
     (case uvm_pages s of
        [] \<Rightarrow> Ok (None, s)
      | pa # pas \<Rightarrow>
          (case PHYS_TO_VM_PAGE s pa of
             None \<Rightarrow> Undef ''pg''
           | Some pg \<Rightarrow> Ok (Some (AVR32_PHYS_TO_P1 pa),
                            pool_page_flush pg (AVR32_PHYS_TO_P1 pa) (s\<lparr>uvm_pages := pas\<rparr>))))"

text \<open>The page goes back to UVM before the panic.\<close>

definition pmap_pv_page_free :: "vaddr \<Rightarrow> pmap_st \<Rightarrow> pmap_st result" where
  "pmap_pv_page_free v s = Panic ''pmap_pv_page_free: notyet''"

definition pmap_copy :: "nat \<Rightarrow> nat \<Rightarrow> vaddr \<Rightarrow> u32 \<Rightarrow> vaddr \<Rightarrow> pmap_st \<Rightarrow> pmap_st result" where
  "pmap_copy dst src dst_addr len src_addr s = Panic ''pamp_copy: notyet''"

definition pmap_unwire :: "nat \<Rightarrow> vaddr \<Rightarrow> pmap_st \<Rightarrow> pmap_st result" where
  "pmap_unwire pm va s = Panic ''pmap_unwire: notyet''"

definition pmap_clear_reference :: "u32 \<Rightarrow> pmap_st \<Rightarrow> (bool \<times> pmap_st) result" where
  "pmap_clear_reference pg s = Panic ''pmap_clear_reference: notyet''"

definition pmap_collect :: "nat \<Rightarrow> pmap_st \<Rightarrow> pmap_st result" where
  "pmap_collect pm s = Panic ''pmap_collect: notyet''"

definition pmap_is_referenced :: "u32 \<Rightarrow> pmap_st \<Rightarrow> bool result" where
  "pmap_is_referenced pg s = Panic ''pmap_is_referenced: notyet''"

definition pmap_deactivate :: "pmap_st \<Rightarrow> pmap_st" where
  "pmap_deactivate s = s"

end
