(* ===== verification/Pmap_Boot_Inv.thy ===== *)
theory Pmap_Boot_Inv
  imports Pmap_Boot Pmap_Reach
begin

text \<open>
  Physical segments stay sorted and disjoint while they are loaded and stolen from, the binary
  search is exact on them, and booting reaches the invariant of the pmap module.
\<close>

section \<open>Banks of physical memory\<close>

definition in_bank :: "u32 \<Rightarrow> vm_physseg \<Rightarrow> bool" where
  "in_bank pf b \<longleftrightarrow> ps_start b \<le> pf \<and> pf < ps_end b"

definition managed :: "vm_physseg list \<Rightarrow> u32 set" where
  "managed mem = {pf. \<exists>b \<in> set mem. in_bank pf b}"

text \<open>The banks are sorted and do not overlap, and the part of a bank that is available lies in it.\<close>

definition banks_ok :: "vm_physseg list \<Rightarrow> bool" where
  "banks_ok mem \<longleftrightarrow> sorted_wrt (\<lambda>a b. ps_end a \<le> ps_start b) mem \<and>
     (\<forall>b \<in> set mem. ps_start b < ps_end b \<and> avail_end b \<le> ps_end b)"

lemma banks_ok_Cons: "banks_ok (b # mem) \<longleftrightarrow> ps_start b < ps_end b \<and> avail_end b \<le> ps_end b \<and>
    (\<forall>c \<in> set mem. ps_end b \<le> ps_start c) \<and> banks_ok mem"
  by (auto simp: banks_ok_def)

lemma banks_ok_nth: "banks_ok mem \<Longrightarrow> i < j \<Longrightarrow> j < length mem \<Longrightarrow> ps_end (mem ! i) \<le> ps_start (mem ! j)"
  by (simp add: banks_ok_def sorted_wrt_iff_nth_less)

lemma banks_ok_ne: "banks_ok mem \<Longrightarrow> i < length mem \<Longrightarrow> ps_start (mem ! i) < ps_end (mem ! i)"
  by (simp add: banks_ok_def)

lemma managed_simps [simp]: "managed [] = {}" "managed (b # mem) = {pf. in_bank pf b} \<union> managed mem"
  by (auto simp: managed_def)

text \<open>The linear search of \<open>uvm_page.h\<close>, which other ports compile, is the reference.\<close>

fun vm_physseg_linear :: "u32 \<Rightarrow> nat \<Rightarrow> vm_physseg list \<Rightarrow> nat option" where
  "vm_physseg_linear pframe lcv [] = None"
| "vm_physseg_linear pframe lcv (b # bs) =
     (if pframe \<ge> ps_start b \<and> pframe < ps_end b then Some lcv else vm_physseg_linear pframe (lcv + 1) bs)"

lemma linear_None: "vm_physseg_linear pf k mem = None \<longleftrightarrow> (\<forall>b \<in> set mem. \<not> in_bank pf b)"
  by (induction mem arbitrary: k) (auto simp: in_bank_def)

lemma linear_unique:
  assumes "i < length mem" "in_bank pf (mem ! i)" "\<And>j. j < i \<Longrightarrow> \<not> in_bank pf (mem ! j)"
  shows "vm_physseg_linear pf k mem = Some (k + i)"
  using assms
proof (induction mem arbitrary: k i)
  case (Cons b mem)
  show ?case
  proof (cases i)
    case 0
    then show ?thesis using Cons.prems by (simp add: in_bank_def)
  next
    case (Suc n)
    have "\<not> in_bank pf b" using Cons.prems(3) [of 0] Suc by simp
    moreover have "vm_physseg_linear pf (k + 1) mem = Some (k + 1 + n)"
      using Cons.IH [of n "k + 1"] Cons.prems(1,2) Cons.prems(3) [of "Suc _"] Suc by simp
    ultimately show ?thesis using Suc by (auto simp: in_bank_def)
  qed
qed simp

lemma bank_unique:
  assumes "banks_ok mem" "i < length mem" "j < length mem" "in_bank pf (mem ! i)" "in_bank pf (mem ! j)"
  shows "i = j"
proof (rule ccontr)
  assume "i \<noteq> j"
  then consider "i < j" | "j < i" by linarith
  then show False
  proof cases
    case 1
    then show False using banks_ok_nth [OF assms(1) 1 assms(3)] assms(4,5) by (auto simp: in_bank_def)
  next
    case 2
    then show False using banks_ok_nth [OF assms(1) 2 assms(2)] assms(4,5) by (auto simp: in_bank_def)
  qed
qed

lemma physseg_loop_spec:
  assumes "banks_ok mem" "start + len \<le> length mem"
    and "\<And>i. i < start \<Longrightarrow> ps_end (mem ! i) \<le> pf"
    and "\<And>i. start + len \<le> i \<Longrightarrow> i < length mem \<Longrightarrow> pf < ps_start (mem ! i)"
  shows "case vm_physseg_loop mem pf start len of
      Some i \<Rightarrow> i < length mem \<and> in_bank pf (mem ! i) | None \<Rightarrow> \<forall>b \<in> set mem. \<not> in_bank pf b"
  using assms
proof (induction mem pf start len rule: vm_physseg_loop.induct)
  case (1 mem pf start len)
  show ?case
  proof (cases "len = 0")
    case True
    have "\<not> in_bank pf (mem ! i)" if "i < length mem" for i
    proof (cases "i < start")
      case t: True
      then show ?thesis using "1.prems"(3) [of i] by (auto simp: in_bank_def)
    next
      case f: False
      then show ?thesis using "1.prems"(4) [of i] True that by (auto simp: in_bank_def)
    qed
    then show ?thesis using True by (subst vm_physseg_loop.simps) (auto simp: in_set_conv_nth)
  next
    case False
    define t where "t = start + len div 2"
    have t: "t < length mem" "start \<le> t" "t < start + len" using False "1.prems"(2) by (auto simp: t_def)
    show ?thesis
    proof (cases "ps_start (mem ! t) \<le> pf")
      case le: True
      show ?thesis
      proof (cases "pf < ps_end (mem ! t)")
        case True
        then show ?thesis using False le t by (subst vm_physseg_loop.simps) (simp add: t_def [symmetric] in_bank_def)
      next
        case gt: False
        have lo: "ps_end (mem ! i) \<le> pf" if "i < t + 1" for i
        proof (cases "i = t")
          case ne: False
          then have "ps_end (mem ! i) \<le> ps_start (mem ! t)" using banks_ok_nth [OF "1.prems"(1), of i t] that t by simp
          then show ?thesis using le by simp
        qed (use gt in simp)
        have sum: "t + 1 + (len - 1) div 2 = start + len" using False unfolding t_def by presburger
        have step: "vm_physseg_loop mem pf start len = vm_physseg_loop mem pf (t + 1) ((len - 1) div 2)"
          using False le gt by (subst vm_physseg_loop.simps) (simp add: t_def [symmetric])
        show ?thesis unfolding step
          using "1.IH"(1) [OF False t_def le gt "1.prems"(1)] lo sum "1.prems"(2,4) by auto
      qed
    next
      case lt: False
      have hi: "pf < ps_start (mem ! i)" if "start + len div 2 \<le> i" "i < length mem" for i
      proof (cases "i = t")
        case ne: False
        then have "t < i" using that by (simp add: t_def)
        then have "ps_end (mem ! t) \<le> ps_start (mem ! i)" using banks_ok_nth [OF "1.prems"(1)] that(2) by blast
        then show ?thesis using lt banks_ok_ne [OF "1.prems"(1) t(1)] by simp
      qed (use lt in simp)
      have step: "vm_physseg_loop mem pf start len = vm_physseg_loop mem pf start (len div 2)"
        using False lt by (subst vm_physseg_loop.simps) (simp add: t_def [symmetric])
      show ?thesis unfolding step
        using "1.IH"(2) [OF False t_def lt "1.prems"(1)] hi "1.prems"(2,3) by auto
    qed
  qed
qed

lemma physseg_find_spec:
  assumes "banks_ok mem"
  shows "case vm_physseg_find mem pf of
      Some i \<Rightarrow> i < length mem \<and> in_bank pf (mem ! i) | None \<Rightarrow> \<forall>b \<in> set mem. \<not> in_bank pf b"
  unfolding vm_physseg_find_def by (rule physseg_loop_spec [OF assms]) auto

lemma physseg_find_linear:
  assumes "banks_ok mem"
  shows "vm_physseg_find mem pf = vm_physseg_linear pf 0 mem"
proof (cases "vm_physseg_find mem pf")
  case None
  then show ?thesis using physseg_find_spec [OF assms, of pf] linear_None [of pf 0 mem] by simp
next
  case (Some i)
  then have i: "i < length mem" "in_bank pf (mem ! i)" using physseg_find_spec [OF assms, of pf] by simp_all
  have "\<not> in_bank pf (mem ! j)" if "j < i" for j using bank_unique [OF assms, of i j pf] i that by auto
  then show ?thesis using linear_unique [OF i, of 0] Some by simp
qed

lemma managed_find: "banks_ok mem \<Longrightarrow> vm_physseg_find mem pf \<noteq> None \<longleftrightarrow> pf \<in> managed mem"
  using physseg_find_spec [of mem pf] by (auto simp: managed_def split: option.splits)

section \<open>Loading segments\<close>

lemma set_physload_insert [simp]: "set (physload_insert ps mem) = insert ps (set mem)"
  by (induction mem) auto

lemma managed_insert: "managed (physload_insert ps mem) = {pf. in_bank pf ps} \<union> managed mem"
  by (auto simp: managed_def)

text \<open>A non-empty range that meets no bank lies before or behind each of them.\<close>

lemma disjoint_sides:
  assumes "ps_start a < ps_end a" "ps_start b < ps_end b" "{pf. in_bank pf a} \<inter> {pf. in_bank pf b} = {}"
  shows "ps_start a < ps_start b \<longleftrightarrow> ps_end a \<le> ps_start b" "\<not> ps_start a < ps_start b \<longleftrightarrow> ps_end b \<le> ps_start a"
proof -
  have "\<not> (in_bank (ps_start b) a)" "\<not> (in_bank (ps_start a) b)"
    using assms by (auto simp: in_bank_def)
  then show "ps_start a < ps_start b \<longleftrightarrow> ps_end a \<le> ps_start b" "\<not> ps_start a < ps_start b \<longleftrightarrow> ps_end b \<le> ps_start a"
    using assms(1,2) by (auto simp: in_bank_def)
qed

lemma physload_insert_ok:
  assumes "banks_ok mem" "ps_start ps < ps_end ps" "avail_end ps \<le> ps_end ps"
    "{pf. in_bank pf ps} \<inter> managed mem = {}"
  shows "banks_ok (physload_insert ps mem)"
  using assms
proof (induction mem)
  case Nil
  then show ?case by (simp add: banks_ok_def)
next
  case (Cons b mem)
  have b: "ps_start b < ps_end b" "\<And>c. c \<in> set mem \<Longrightarrow> ps_end b \<le> ps_start c" "banks_ok mem"
    using Cons.prems(1) by (auto simp: banks_ok_Cons)
  have d: "{pf. in_bank pf ps} \<inter> {pf. in_bank pf b} = {}" using Cons.prems(4) by auto
  note S = disjoint_sides [OF Cons.prems(2) b(1) d]
  show ?case
  proof (cases "ps_start ps < ps_start b")
    case True
    then have "ps_end ps \<le> ps_start b" using S(1) by simp
    moreover have "ps_end ps \<le> ps_start c" if "c \<in> set mem" for c
      using b(1) b(2) [OF that] calculation by simp
    ultimately show ?thesis using True Cons.prems by (simp add: banks_ok_Cons)
  next
    case False
    then have "ps_end b \<le> ps_start ps" using S(2) by simp
    then show ?thesis using False Cons.IH Cons.prems by (auto simp: banks_ok_Cons)
  qed
qed

section \<open>Stealing memory\<close>

lemma steal_bank_word:
  fixes st av npgs :: u32
  assumes "\<not> av - st < npgs" "st < av"
  shows "st \<le> st + npgs" "st + npgs \<le> av"
proof -
  have s: "unat (av - st) = unat av - unat st" using assms(2) by (simp add: unat_sub_if_size word_le_nat_alt word_less_nat_alt)
  then have le: "unat st + unat npgs \<le> unat av"
    using assms by (simp add: word_le_nat_alt word_less_nat_alt)
  then have u: "unat (st + npgs) = unat st + unat npgs"
    using unat_bound32 [of av] by (simp add: unat_word_ariths)
  show "st \<le> st + npgs" "st + npgs \<le> av" using le u by (simp_all add: word_le_nat_alt)
qed

lemma managed_above:
  assumes "banks_ok (b # mem)" "pf \<in> managed mem"
  shows "ps_end b \<le> pf"
  using assms by (auto simp: banks_ok_Cons managed_def in_bank_def)

lemma steal_banks_spec:
  assumes "banks_ok mem" "steal_banks d npgs n mem = Ok (pa, mem')"
  shows "banks_ok mem' \<and> (\<forall>c \<in> set mem'. \<exists>b \<in> set mem. ps_start b \<le> ps_start c) \<and>
     (\<exists>st. pa = ptoa st \<and> st \<le> st + npgs \<and> {st..<st + npgs} \<subseteq> managed mem \<and> managed mem' = managed mem - {st..<st + npgs})"
  using assms
proof (induction mem arbitrary: mem')
  case (Cons b mem)
  have ok: "banks_ok mem" and b: "ps_start b < ps_end b" "avail_end b \<le> ps_end b"
    and ab: "\<And>c. c \<in> set mem \<Longrightarrow> ps_end b \<le> ps_start c"
    using Cons.prems(1) by (auto simp: banks_ok_Cons)
  note up = managed_above [OF Cons.prems(1)]
  show ?case
  proof (cases "avail_start b \<noteq> ps_start b \<or> avail_start b \<ge> avail_end b \<or> avail_end b - avail_start b < npgs")
    case True
    then obtain bs where r: "steal_banks d npgs n mem = Ok (pa, bs)" "mem' = b # bs"
      using Cons.prems(2) by (auto simp: bind_r_eq_Ok split: if_splits)
    from Cons.IH [OF ok r(1)] obtain st where s: "banks_ok bs" "\<And>c. c \<in> set bs \<Longrightarrow> \<exists>b \<in> set mem. ps_start b \<le> ps_start c"
      "pa = ptoa st" "st \<le> st + npgs" "{st..<st + npgs} \<subseteq> managed mem" "managed bs = managed mem - {st..<st + npgs}"
      by blast
    have "ps_end b \<le> ps_start c" if "c \<in> set bs" for c using s(2) [OF that] ab by force
    then have "banks_ok mem'" using r(2) s(1) b by (simp add: banks_ok_Cons)
    moreover have "{pf. in_bank pf b} \<inter> {st..<st + npgs} = {}"
      using s(5) up by (force simp: in_bank_def)
    ultimately show ?thesis using s r(2) by (auto intro!: exI [of _ st])
  next
    case False
    let ?e = "ps_start b + npgs"
    have w: "ps_start b \<le> ?e" "?e \<le> avail_end b" using False steal_bank_word [of "avail_end b" "ps_start b" npgs] by auto
    have nd: "\<not> d" using Cons.prems(2) by (auto split: if_splits)
    have sub: "{ps_start b..<?e} \<subseteq> managed (b # mem)" using w b(2) by (auto simp: in_bank_def)
    have out: "managed mem \<inter> {ps_start b..<?e} = {}" using up w b(2) by fastforce
    show ?thesis
    proof (cases "?e = ps_end b")
      case True
      have m: "mem' = mem" "pa = ptoa (ps_start b)" using Cons.prems(2) False True nd by (auto simp: Let_def split: if_splits)
      have "{pf. in_bank pf b} = {ps_start b..<?e}" using True by (auto simp: in_bank_def)
      then show ?thesis using m ok sub out w by (auto intro!: exI [of _ "ps_start b"])
    next
      case ne: False
      let ?b = "b\<lparr>avail_start := avail_start b + npgs, ps_start := ?e\<rparr>"
      have m: "mem' = ?b # mem" "pa = ptoa (ps_start b)" using Cons.prems(2) False ne nd by (auto simp: Let_def split: if_splits)
      have "?e < ps_end b" using w b(2) ne by simp
      moreover have "{pf. in_bank pf ?b} = {pf. in_bank pf b} - {ps_start b..<?e}" using w by (auto simp: in_bank_def)
      ultimately show ?thesis using m Cons.prems(1) sub out w by (auto simp: banks_ok_Cons intro!: exI [of _ "ps_start b"])
    qed
  qed
qed simp

lemma steal_banks_returns:
  assumes "banks_ok mem" "\<exists>b \<in> set mem. avail_start b = ps_start b \<and> ps_start b < avail_end b \<and> npgs < avail_end b - ps_start b"
  shows "\<exists>pa mem'. steal_banks False npgs (length mem) mem = Ok (pa, mem')"
proof -
  have fit: "\<exists>pa bs. steal_banks False npgs n mem = Ok (pa, bs)" if "banks_ok mem" "n \<noteq> 1 \<or> n = length mem"
      "\<exists>b \<in> set mem. avail_start b = ps_start b \<and> ps_start b < avail_end b \<and> npgs < avail_end b - ps_start b" for n
    using that
  proof (induction mem)
    case (Cons b mem)
    show ?case
    proof (cases "avail_start b \<noteq> ps_start b \<or> avail_start b \<ge> avail_end b \<or> avail_end b - avail_start b < npgs")
      case True
      then have "\<exists>c \<in> set mem. avail_start c = ps_start c \<and> ps_start c < avail_end c \<and> npgs < avail_end c - ps_start c"
        using Cons.prems(3) by auto
      moreover have "n \<noteq> 1" using calculation Cons.prems(2) by auto
      ultimately have "\<exists>pa bs. steal_banks False npgs n mem = Ok (pa, bs)" using Cons by (auto simp: banks_ok_Cons)
      then obtain pa bs where "steal_banks False npgs n mem = Ok (pa, bs)" by blast
      then show ?thesis using True by simp
    next
      case False
      have "n \<noteq> 1" if "ps_start b + npgs = ps_end b"
      proof
        assume "n = 1"
        then have mem: "mem = []" using Cons.prems(2) by simp
        have "ps_start b < avail_end b" "npgs < avail_end b - ps_start b" using Cons.prems(3) mem by auto
        then have "ps_start b + npgs < avail_end b"
          using steal_bank_word [of "avail_end b" "ps_start b" npgs] by (metis False add.commute add_diff_cancel_left' less_irrefl order_le_imp_less_or_eq)
        then show False using that Cons.prems(1) by (auto simp: banks_ok_Cons)
      qed
      then show ?thesis using False by (auto simp: Let_def)
    qed
  qed simp
  show ?thesis using fit assms by blast
qed

lemma round_page_aligned:
  assumes "page_aligned a"
  shows "round_page a = a"
proof -
  have a: "unat a mod 4096 = 0" using assms by (simp add: page_aligned_iff)
  then obtain k where k: "unat a = 4096 * k" by (meson dvdE mod_0_imp_dvd)
  have "unat a < 4294967296" by (rule unat_bound32)
  then have "k < 1048576" unfolding k by linarith
  then have lt: "unat a + 4095 < 4294967296" unfolding k by linarith
  have r: "round_page a = trunc_page (a + 4095)" by (simp add: round_page_def trunc_page_def)
  have "unat (a + 4095) = unat a + 4095" using lt by (simp add: unat_word_ariths)
  then have "unat (round_page a) = unat a" unfolding r unat_trunc_page k by simp
  then show ?thesis by (rule unsigned_word_eqI)
qed

lemma round_page_idem [simp]: "round_page (round_page x) = round_page x"
  by (rule round_page_aligned) (simp add: round_page_def and.assoc)

text \<open>The pages of an allocation of \<open>sz\<close> bytes.\<close>

definition stolen :: "u32 \<Rightarrow> u32 \<Rightarrow> u32 set" where
  "stolen st sz = {st..<st + atop (round_page sz)}"

lemma steal_memory_spec:
  assumes "banks_ok (vm_physmem s)" "pmap_steal_memory sz s = Ok (va, t)"
  shows "\<exists>st. va = AVR32_PHYS_TO_P1 (ptoa st) \<and> stolen st sz \<subseteq> managed (vm_physmem s) \<and>
     managed (vm_physmem t) = managed (vm_physmem s) - stolen st sz \<and> banks_ok (vm_physmem t) \<and>
     t = s\<lparr>vm_physmem := vm_physmem t, hw := PAGE_ZERO va (round_page sz) # hw s\<rparr>"
proof -
  obtain pa mem where r: "steal_banks (page_init_done s) (atop (round_page sz)) (length (vm_physmem s)) (vm_physmem s) = Ok (pa, mem)"
    "va = AVR32_PHYS_TO_P1 pa" "t = hw_op (PAGE_ZERO (AVR32_PHYS_TO_P1 pa) (round_page sz)) (s\<lparr>vm_physmem := mem\<rparr>)"
    using assms(2) by (auto simp: pmap_steal_memory_def Let_def bind_r_eq_Ok)
  show ?thesis using steal_banks_spec [OF assms(1) r(1)] r(2,3) by (auto simp: stolen_def hw_op_def)
qed

lemma pageboot_alloc_spec:
  assumes "banks_ok (vm_physmem (pb_st b))" "uvm_pageboot_alloc sz b = Ok (va, b')"
  shows "\<exists>st. va = AVR32_PHYS_TO_P1 (ptoa st) \<and> stolen st sz \<subseteq> managed (vm_physmem (pb_st b)) \<and>
     managed (vm_physmem (pb_st b')) = managed (vm_physmem (pb_st b)) - stolen st sz \<and> banks_ok (vm_physmem (pb_st b')) \<and>
     pb_st b' = (pb_st b)\<lparr>vm_physmem := vm_physmem (pb_st b'), hw := PAGE_ZERO va (round_page sz) # hw (pb_st b)\<rparr> \<and>
     physmem b' = physmem b \<and> pvh_list b' = pvh_list b \<and> Sysmapsize b' = Sysmapsize b \<and> virtual_end b' = virtual_end b \<and>
     Sysmap_va b' = Sysmap_va b \<and> pv_table_npages b' = pv_table_npages b"
proof -
  obtain b1 s where b1: "pmap_steal_memory (round_page sz) (pb_st b1) = Ok (va, s)" "b' = b1\<lparr>pb_st := s\<rparr>"
    "pb_st b1 = pb_st b" "physmem b1 = physmem b" "pvh_list b1 = pvh_list b" "Sysmapsize b1 = Sysmapsize b"
    "virtual_end b1 = virtual_end b" "Sysmap_va b1 = Sysmap_va b" "pv_table_npages b1 = pv_table_npages b"
    using assms(2) by (auto simp: uvm_pageboot_alloc_def Let_def bind_r_eq_Ok split: if_splits prod.splits)
  have "banks_ok (vm_physmem (pb_st b1))" using assms(1) b1(3) by simp
  from steal_memory_spec [OF this b1(1)] obtain st where s: "va = AVR32_PHYS_TO_P1 (ptoa st)"
    "stolen st sz \<subseteq> managed (vm_physmem (pb_st b))" "managed (vm_physmem s) = managed (vm_physmem (pb_st b)) - stolen st sz"
    "banks_ok (vm_physmem s)" "s = (pb_st b)\<lparr>vm_physmem := vm_physmem s, hw := PAGE_ZERO va (round_page sz) # hw (pb_st b)\<rparr>"
    unfolding b1(3) stolen_def round_page_idem by blast
  show ?thesis using s b1 by auto
qed

section \<open>Bootstrap\<close>

lemma bootstrap_spec:
  assumes ok: "banks_ok (vm_physmem (pb_st b))" and r: "pmap_bootstrap p b = Ok b'"
  shows "\<exists>st1 st2. Sysmap_va b' = AVR32_PHYS_TO_P1 (ptoa st1) \<and> pv_table b' = AVR32_PHYS_TO_P1 (ptoa st2) \<and>
     stolen st1 (4 * Sysmapsize b') \<subseteq> managed (vm_physmem (pb_st b)) \<and>
     stolen st2 (16 * pv_table_npages b') \<subseteq> managed (vm_physmem (pb_st b)) - stolen st1 (4 * Sysmapsize b') \<and>
     managed (vm_physmem (pb_st b')) =
       managed (vm_physmem (pb_st b)) - stolen st1 (4 * Sysmapsize b') - stolen st2 (16 * pv_table_npages b') \<and>
     banks_ok (vm_physmem (pb_st b')) \<and> pv_table_npages b' = physmem b \<and> physmem b' = physmem b \<and> pvh_list b' = pvh_list b \<and>
     (\<exists>h. pb_st b' = (pb_st b)\<lparr>Sysmap := (\<lambda>_. 0), vm_physmem := vm_physmem (pb_st b'), pv_pool := [], pmap_pool := [],
        pmaps := (pmaps (pb_st b))(pmap_kernel := (pmaps (pb_st b) pmap_kernel)\<lparr>pm_count := 1, pm_asid := 0, pm_asidgen := 0\<rparr>),
        pmap_max_asid := 256, pmap_next_asid := 1, pmap_asid_generation := 0, hw := h\<rparr>)"
proof -
  define b1 where "b1 = b\<lparr>Sysmapsize := kernel_ptes p, pb_avail_start := ptoa (ps_start (hd (vm_physmem (pb_st b)))),
      pb_avail_end := ptoa (ps_end (last (vm_physmem (pb_st b)))), virtual_end := VM_MIN_KERNEL_ADDRESS + kernel_ptes p * NBPG\<rparr>"
  from r obtain va1 b2 va2 b3 where a1: "uvm_pageboot_alloc (4 * kernel_ptes p) b1 = Ok (va1, b2)"
    and a2: "uvm_pageboot_alloc (16 * physmem b2) (b2\<lparr>Sysmap_va := va1, pv_table_npages := physmem b2,
        pb_st := (pb_st b2)\<lparr>Sysmap := (\<lambda>_. 0)\<rparr>\<rparr>) = Ok (va2, b3)"
    and b': "b' = b3\<lparr>pv_table := va2, pb_st := (pb_st b3)\<lparr>pv_pool := [], pmap_pool := [],
        pmaps := (pmaps (pb_st b3))(pmap_kernel := (pmaps (pb_st b3) pmap_kernel)\<lparr>pm_count := 1, pm_asid := 0, pm_asidgen := 0\<rparr>),
        pmap_max_asid := 256, pmap_next_asid := 1, pmap_asid_generation := 0, hw := MachSetPID 0 (hw (pb_st b3))\<rparr>\<rparr>"
    unfolding pmap_bootstrap_def Let_def b1_def [symmetric] by (auto simp: bind_r_eq_Ok split: if_splits)
  have "banks_ok (vm_physmem (pb_st b1))" using ok by (simp add: b1_def)
  note S1 = pageboot_alloc_spec [OF this a1]
  then obtain st1 where s1: "va1 = AVR32_PHYS_TO_P1 (ptoa st1)" "stolen st1 (4 * kernel_ptes p) \<subseteq> managed (vm_physmem (pb_st b))"
    "managed (vm_physmem (pb_st b2)) = managed (vm_physmem (pb_st b)) - stolen st1 (4 * kernel_ptes p)"
    "banks_ok (vm_physmem (pb_st b2))"
    "pb_st b2 = (pb_st b)\<lparr>vm_physmem := vm_physmem (pb_st b2), hw := PAGE_ZERO va1 (round_page (4 * kernel_ptes p)) # hw (pb_st b)\<rparr>"
    "physmem b2 = physmem b" "pvh_list b2 = pvh_list b" "Sysmapsize b2 = kernel_ptes p"
    unfolding b1_def by auto
  have "banks_ok (vm_physmem (pb_st (b2\<lparr>Sysmap_va := va1, pv_table_npages := physmem b2,
        pb_st := (pb_st b2)\<lparr>Sysmap := (\<lambda>_. 0)\<rparr>\<rparr>)))" using s1(4) by simp
  note S2 = pageboot_alloc_spec [OF this a2]
  then obtain st2 where s2: "va2 = AVR32_PHYS_TO_P1 (ptoa st2)" "stolen st2 (16 * physmem b) \<subseteq> managed (vm_physmem (pb_st b2))"
    "managed (vm_physmem (pb_st b3)) = managed (vm_physmem (pb_st b2)) - stolen st2 (16 * physmem b)"
    "banks_ok (vm_physmem (pb_st b3))"
    "pb_st b3 = (pb_st b2)\<lparr>Sysmap := (\<lambda>_. 0), vm_physmem := vm_physmem (pb_st b3),
       hw := PAGE_ZERO va2 (round_page (16 * physmem b)) # hw (pb_st b2)\<rparr>"
    "physmem b3 = physmem b" "pvh_list b3 = pvh_list b" "Sysmapsize b3 = kernel_ptes p" "Sysmap_va b3 = va1" "pv_table_npages b3 = physmem b"
    using s1(6,7,8) by auto
  obtain m2 h2 where e2: "pb_st b2 = (pb_st b)\<lparr>vm_physmem := m2, hw := h2\<rparr>" using s1(5) by blast
  obtain m3 h3 where e3: "pb_st b3 = (pb_st b2)\<lparr>Sysmap := (\<lambda>_. 0), vm_physmem := m3, hw := h3\<rparr>" using s2(5) by blast
  have st: "pb_st b' = (pb_st b)\<lparr>Sysmap := (\<lambda>_. 0), vm_physmem := vm_physmem (pb_st b'), pv_pool := [], pmap_pool := [],
        pmaps := (pmaps (pb_st b))(pmap_kernel := (pmaps (pb_st b) pmap_kernel)\<lparr>pm_count := 1, pm_asid := 0, pm_asidgen := 0\<rparr>),
        pmap_max_asid := 256, pmap_next_asid := 1, pmap_asid_generation := 0, hw := MachSetPID 0 (hw (pb_st b3))\<rparr>"
    unfolding b' by (simp add: e3 e2)
  show ?thesis
    by (rule exI [of _ st1], rule exI [of _ st2]) (use s1 s2 st in \<open>simp add: b' exI [of _ "MachSetPID 0 (hw (pb_st b3))"]\<close>)
qed

lemma in_bank_offset:
  assumes "ps_start ps < ps_end ps"
  shows "in_bank pg ps \<longleftrightarrow> unat (pg - ps_start ps) < unat (ps_end ps - ps_start ps)"
proof -
  have e: "unat (ps_end ps - ps_start ps) = unat (ps_end ps) - unat (ps_start ps)"
    using assms by (simp add: unat_sub_if_size word_le_nat_alt word_less_nat_alt)
  have p: "unat (pg - ps_start ps) =
      (if unat (ps_start ps) \<le> unat pg then unat pg - unat (ps_start ps) else unat pg + 4294967296 - unat (ps_start ps))"
    by (simp add: unat_sub_if_size word_size)
  show ?thesis using assms unat_bound32 [of "ps_end ps"] unat_bound32 [of "ps_start ps"]
    unfolding e p in_bank_def word_le_nat_alt word_less_nat_alt by auto
qed

text \<open>The assignment of headers of one bank.\<close>

lemma pv_headers_fold:
  assumes "n \<le> 4294967296"
  shows "pvh_list (fold (\<lambda>i. pv_header (st + of_nat i) (k + i)) [0..<n] b) pg =
      (if unat (pg - st) < n then Some (k + unat (pg - st)) else pvh_list b pg)" (is "?A n")
    and "mdpage (pb_st (fold (\<lambda>i. pv_header (st + of_nat i) (k + i)) [0..<n] b)) pg =
      (if unat (pg - st) < n then (mdpage (pb_st b) pg)\<lparr>pvh_head := \<lparr>pv_pmap = None, pv_va = 0, pv_flags = 0\<rparr>, pvh_chain := []\<rparr>
       else mdpage (pb_st b) pg)" (is "?B n")
proof -
  have "?A n \<and> ?B n" using assms
  proof (induction n)
    case (Suc n)
    have "pg = st + of_nat n \<longleftrightarrow> unat (pg - st) = n"
    proof
      assume "pg = st + of_nat n"
      then have "pg - st = of_nat n" by simp
      then show "unat (pg - st) = n" using Suc.prems by (simp add: unat_of_nat)
    next
      assume "unat (pg - st) = n"
      then have "of_nat n = pg - st" by auto
      then show "pg = st + of_nat n" by simp
    qed
    then show ?case using Suc by (auto simp: pv_header_def md_upd_def less_Suc_eq)
  qed simp
  then show "?A n" "?B n" by simp_all
qed

lemma pv_header_st: "\<exists>md. pb_st (fold (\<lambda>i. pv_header (st + of_nat i) (k + i)) is b) = (pb_st b)\<lparr>mdpage := md\<rparr>"
proof (induction "is" arbitrary: b)
  case Nil
  then show ?case by (auto intro!: exI [of _ "mdpage (pb_st b)"])
next
  case (Cons i "is")
  obtain md where "pb_st (fold (\<lambda>i. pv_header (st + of_nat i) (k + i)) is (pv_header (st + of_nat i) (k + i) b)) =
      (pb_st (pv_header (st + of_nat i) (k + i) b))\<lparr>mdpage := md\<rparr>" using Cons.IH by blast
  moreover have "\<exists>m. pb_st (pv_header (st + of_nat i) (k + i) b) = (pb_st b)\<lparr>mdpage := m\<rparr>"
    by (auto simp: pv_header_def md_upd_def)
  ultimately show ?case by auto
qed

definition bank_pages :: "vm_physseg list \<Rightarrow> nat" where
  "bank_pages mem = sum_list (map (\<lambda>ps. unat (ps_end ps - ps_start ps)) mem)"

text \<open>
  The headers of the managed pages are distinct entries of the table, those of the pages of the
  first \<open>bank_pages\<close> entries from \<open>k\<close> on, and the pv lists are empty.
\<close>

definition headers_from :: "vm_physseg list \<Rightarrow> nat \<Rightarrow> pmap_boot \<Rightarrow> pmap_boot \<Rightarrow> bool" where
  "headers_from mem k b b' \<longleftrightarrow> (\<exists>md. pb_st b' = (pb_st b)\<lparr>mdpage := md\<rparr>) \<and>
     (\<forall>pg. pg \<notin> managed mem \<longrightarrow> pvh_list b' pg = pvh_list b pg \<and> mdpage (pb_st b') pg = mdpage (pb_st b) pg) \<and>
     (\<forall>pg \<in> managed mem. pv_entries (mdpage (pb_st b') pg) = [\<lparr>pv_pmap = None, pv_va = 0, pv_flags = 0\<rparr>] \<and>
        (\<exists>i. pvh_list b' pg = Some i \<and> k \<le> i \<and> i < k + bank_pages mem)) \<and>
     inj_on (pvh_list b') (managed mem)"

lemma init_banks_spec:
  assumes "banks_ok mem"
  shows "headers_from mem k b (pmap_init_banks mem k b)"
  using assms
proof (induction mem arbitrary: k b)
  case Nil
  then show ?case by (auto simp: headers_from_def intro!: exI [of _ "mdpage (pb_st b)"])
next
  case (Cons ps mem)
  have ok: "banks_ok mem" "ps_start ps < ps_end ps" using Cons.prems by (simp_all add: banks_ok_Cons)
  define n where "n = unat (ps_end ps - ps_start ps)"
  define b1 where "b1 = fold (\<lambda>i. pv_header (ps_start ps + of_nat i) (k + i)) [0..<n] b"
  define b2 where "b2 = pmap_init_banks mem (k + n) b1"
  have n: "n \<le> 4294967296" using unat_bound32 [of "ps_end ps - ps_start ps"] by (simp add: n_def)
  have step: "pmap_init_banks (ps # mem) k b = b2" by (simp add: Let_def n_def b1_def b2_def)
  note H = pv_headers_fold [OF n, of "ps_start ps" k b, folded b1_def]
  have bp: "bank_pages (ps # mem) = n + bank_pages mem" by (simp add: bank_pages_def n_def)
  have inb: "in_bank pg ps \<longleftrightarrow> unat (pg - ps_start ps) < n" for pg using in_bank_offset [OF ok(2)] by (simp add: n_def)
  have disj: "pg \<notin> managed mem" if "in_bank pg ps" for pg
    using managed_above [OF Cons.prems, of pg] that by (auto simp: in_bank_def)
  have IH: "headers_from mem (k + n) b1 b2" unfolding b2_def by (rule Cons.IH [OF ok(1)])
  have fst: "pvh_list b2 pg = Some (k + unat (pg - ps_start ps))" "unat (pg - ps_start ps) < n"
      "pv_entries (mdpage (pb_st b2) pg) = [\<lparr>pv_pmap = None, pv_va = 0, pv_flags = 0\<rparr>]" if "in_bank pg ps" for pg
    using IH disj [OF that] H [of pg] inb [of pg] that by (auto simp: headers_from_def pv_entries_def)
  have rest: "pv_entries (mdpage (pb_st b2) pg) = [\<lparr>pv_pmap = None, pv_va = 0, pv_flags = 0\<rparr>]"
      "\<exists>i. pvh_list b2 pg = Some i \<and> k + n \<le> i \<and> i < k + n + bank_pages mem" if "pg \<in> managed mem" for pg
    using IH that by (auto simp: headers_from_def)
  have inj: "inj_on (pvh_list b2) (managed (ps # mem))"
  proof (rule inj_onI)
    fix x y assume xy: "x \<in> managed (ps # mem)" "y \<in> managed (ps # mem)" and eq: "pvh_list b2 x = pvh_list b2 y"
    have same: "in_bank x ps \<longleftrightarrow> in_bank y ps"
      using fst(1,2) [of x] fst(1,2) [of y] rest(2) [of x] rest(2) [of y] xy eq by fastforce
    show "x = y"
    proof (cases "in_bank x ps")
      case True
      then have "unat (x - ps_start ps) = unat (y - ps_start ps)" using fst(1) [of x] fst(1) [of y] same eq by simp
      then have "x - ps_start ps = y - ps_start ps" by (rule unsigned_word_eqI)
      then show ?thesis by simp
    next
      case False
      then show ?thesis using same xy eq IH by (auto simp: headers_from_def dest: inj_onD)
    qed
  qed
  have "\<exists>md. pb_st b1 = (pb_st b)\<lparr>mdpage := md\<rparr>" unfolding b1_def by (rule pv_header_st)
  then have "\<exists>md. pb_st b2 = (pb_st b)\<lparr>mdpage := md\<rparr>" using IH by (auto simp: headers_from_def)
  moreover have "pvh_list b2 pg = pvh_list b pg \<and> mdpage (pb_st b2) pg = mdpage (pb_st b) pg"
    if "pg \<notin> managed (ps # mem)" for pg
    using IH that H [of pg] inb [of pg] by (auto simp: headers_from_def)
  moreover have "pv_entries (mdpage (pb_st b2) pg) = [\<lparr>pv_pmap = None, pv_va = 0, pv_flags = 0\<rparr>] \<and>
      (\<exists>i. pvh_list b2 pg = Some i \<and> k \<le> i \<and> i < k + bank_pages (ps # mem))" if "pg \<in> managed (ps # mem)" for pg
    unfolding bp using fst [of pg] rest [of pg] that by fastforce
  ultimately show ?case unfolding step headers_from_def using inj by blast
qed

section \<open>From memory clusters to banks\<close>

lemma card_word_interval: "card {a..<b :: u32} = unat b - unat a"
proof -
  have "unat ` {a..<b} = {unat a..<unat b}"
  proof
    show "unat ` {a..<b} \<subseteq> {unat a..<unat b}" by (auto simp: word_le_nat_alt word_less_nat_alt)
    show "{unat a..<unat b} \<subseteq> unat ` {a..<b}"
    proof
      fix n assume n: "n \<in> {unat a..<unat b}"
      then have "n < 4294967296" using unat_bound32 [of b] by simp
      then have "unat (of_nat n :: u32) = n" by (simp add: unat_of_nat)
      then show "n \<in> unat ` {a..<b}"
        using n by (intro image_eqI [of _ _ "of_nat n"]) (simp_all add: word_le_nat_alt word_less_nat_alt)
    qed
  qed
  moreover have "inj_on unat {a..<b}" by (rule inj_onI) (rule unsigned_word_eqI)
  ultimately show ?thesis by (metis card_atLeastLessThan card_image)
qed

lemma bank_set: "{pf. in_bank pf b} = {ps_start b..<ps_end b}"
  by (auto simp: in_bank_def)

lemma bank_pages_card: "banks_ok mem \<Longrightarrow> bank_pages mem = card (managed mem)"
proof (induction mem)
  case (Cons b mem)
  have ok: "banks_ok mem" "ps_start b < ps_end b" using Cons.prems by (simp_all add: banks_ok_Cons)
  have d: "{ps_start b..<ps_end b} \<inter> managed mem = {}" using managed_above [OF Cons.prems] by fastforce
  have "unat (ps_end b - ps_start b) = unat (ps_end b) - unat (ps_start b)"
    using ok(2) by (simp add: unat_sub_if_size word_le_nat_alt word_less_nat_alt)
  then show ?case using Cons.IH [OF ok(1)] card_Un_disjoint [OF _ _ d]
    by (simp add: bank_pages_def bank_set card_word_interval)
qed (simp add: bank_pages_def)

definition cluster_pages :: "u32 \<times> u32 \<Rightarrow> u32 set" where
  "cluster_pages c = {atop (fst c)..<atop (fst c + snd c)}"

lemma atop_div: "unat (atop x) = unat x div 4096"
  by (simp add: atop_def unat_drop_bit32)

lemma atop_mono: "x \<le> y \<Longrightarrow> atop x \<le> atop y"
  unfolding word_le_nat_alt atop_div by (rule div_le_mono)

lemma round_page_ge:
  assumes "unat x \<le> 0x1fffffff"
  shows "x \<le> round_page x"
proof -
  have u: "unat (x + 4095) = unat x + 4095" using assms by (simp add: unat_word_ariths)
  have "round_page x = trunc_page (x + 4095)" by (simp add: round_page_def trunc_page_def)
  then show ?thesis unfolding word_le_nat_alt by (simp add: unat_trunc_page u)
qed

lemma phys_mask_bound: "unat (AVR32_P1_TO_PHYS x) \<le> 0x1fffffff"
proof -
  have "AVR32_P1_TO_PHYS x \<le> 0x1fffffff" unfolding AVR32_P1_TO_PHYS_def by (rule word_and_le1)
  then show ?thesis by (simp add: word_le_nat_alt)
qed

lemma mach_load_ok:
  assumes "banks_ok mem" "sorted_wrt (\<lambda>c d. cluster_pages c \<inter> cluster_pages d = {}) cs"
    "\<And>c. c \<in> set cs \<Longrightarrow> cluster_pages c \<inter> managed mem = {}"
    "mach_init_load ke cs pm mem = Ok (pm', mem')"
  shows "banks_ok mem' \<and> managed mem' \<subseteq> managed mem \<union> (\<Union>c \<in> set cs. cluster_pages c) \<and>
    pm' = pm + sum_list (map (\<lambda>c. atop (snd c)) cs)"
  using assms
proof (induction cs arbitrary: pm mem)
  case (Cons c cs)
  obtain cstart csize where c: "c = (cstart, csize)" by (cases c)
  define first where "first = (if cstart < AVR32_P1_TO_PHYS ke then round_page (AVR32_P1_TO_PHYS ke) else cstart)"
  from Cons.prems(4) obtain mem1 where
    l: "uvm_page_physload True False (atop first) (atop (cstart + csize)) (atop first) (atop (cstart + csize)) 0 mem = Ok mem1"
    and rest: "mach_init_load ke cs (pm + atop csize) mem1 = Ok (pm', mem')"
    unfolding c by (auto simp: Let_def bind_r_eq_Ok first_def)
  let ?ps = "\<lparr>ps_start = atop first, ps_end = atop (cstart + csize), avail_start = atop first, avail_end = atop (cstart + csize)\<rparr>"
  have lt: "atop first < atop (cstart + csize)" using l by (auto simp: uvm_page_physload_def split: if_splits)
  have ge: "atop cstart \<le> atop first"
    using round_page_ge [OF phys_mask_bound, of ke] by (intro atop_mono) (auto simp: first_def)
  have sub: "{pf. in_bank pf ?ps} \<subseteq> cluster_pages c" using ge by (auto simp: in_bank_def cluster_pages_def c)
  have m1: "banks_ok mem1 \<and> managed mem1 \<subseteq> managed mem \<union> cluster_pages c"
  proof (cases "length mem = 16")
    case True
    then show ?thesis using l Cons.prems(1) by (auto simp: uvm_page_physload_def split: if_splits)
  next
    case False
    then have e: "mem1 = physload_insert ?ps mem" using l by (auto simp: uvm_page_physload_def split: if_splits)
    have "{pf. in_bank pf ?ps} \<inter> managed mem = {}" using sub Cons.prems(3) [of c] by auto
    then show ?thesis unfolding e using physload_insert_ok [OF Cons.prems(1), of ?ps] lt sub managed_insert [of ?ps mem] by auto
  qed
  have "cluster_pages d \<inter> managed mem1 = {}" if "d \<in> set cs" for d
    using m1 Cons.prems(2) Cons.prems(3) [of d] that by fastforce
  from Cons.IH [OF _ _ this rest] m1 Cons.prems(2) show ?case by (auto simp: c)
qed simp

section \<open>The first consistent state\<close>

text \<open>The variables of the pmap module in the cleared BSS, with the segments loaded.\<close>

definition bss_clear :: "pmap_st \<Rightarrow> bool" where
  "bss_clear s \<longleftrightarrow> (\<forall>pm. pmaps s pm = \<lparr>pm_count = 0, resident_count = 0, wired_count = 0, pm_asid = 0, pm_asidgen = 0, pm_segtab = 0\<rparr>) \<and>
     free_segtab s = 0 \<and> \<not> page_init_done s \<and>
     (\<forall>pg. pvh_head (mdpage s pg) = \<lparr>pv_pmap = None, pv_va = 0, pv_flags = 0\<rparr> \<and> pvh_chain (mdpage s pg) = [])"

lemma pmap_init_spec:
  assumes "banks_ok (vm_physmem (pb_st b))"
  shows "\<exists>md h. pb_st (pmap_init b) = (pb_st b)\<lparr>mdpage := md, hw := h, pmap_initialized := True\<rparr>"
    "pg \<in> managed (vm_physmem (pb_st b)) \<Longrightarrow>
       pv_entries (mdpage (pb_st (pmap_init b)) pg) = [\<lparr>pv_pmap = None, pv_va = 0, pv_flags = 0\<rparr>] \<and>
       (\<exists>i < bank_pages (vm_physmem (pb_st b)). pvh_list (pmap_init b) pg = Some i)"
    "pg \<notin> managed (vm_physmem (pb_st b)) \<Longrightarrow> mdpage (pb_st (pmap_init b)) pg = mdpage (pb_st b) pg"
    "inj_on (pvh_list (pmap_init b)) (managed (vm_physmem (pb_st b)))"
proof -
  note I = init_banks_spec [OF assms, of 0 b]
  obtain md where md: "pb_st (pmap_init_banks (vm_physmem (pb_st b)) 0 b) = (pb_st b)\<lparr>mdpage := md\<rparr>"
    using I by (auto simp: headers_from_def)
  show "\<exists>md h. pb_st (pmap_init b) = (pb_st b)\<lparr>mdpage := md, hw := h, pmap_initialized := True\<rparr>"
    by (auto simp: pmap_init_def Let_def md hw_op_def)
  have p: "pvh_list (pmap_init b) = pvh_list (pmap_init_banks (vm_physmem (pb_st b)) 0 b)"
    "mdpage (pb_st (pmap_init b)) = mdpage (pb_st (pmap_init_banks (vm_physmem (pb_st b)) 0 b))"
    by (simp_all add: pmap_init_def Let_def hw_op_def)
  show "pg \<in> managed (vm_physmem (pb_st b)) \<Longrightarrow>
       pv_entries (mdpage (pb_st (pmap_init b)) pg) = [\<lparr>pv_pmap = None, pv_va = 0, pv_flags = 0\<rparr>] \<and>
       (\<exists>i < bank_pages (vm_physmem (pb_st b)). pvh_list (pmap_init b) pg = Some i)"
    "pg \<notin> managed (vm_physmem (pb_st b)) \<Longrightarrow> mdpage (pb_st (pmap_init b)) pg = mdpage (pb_st b) pg"
    "inj_on (pvh_list (pmap_init b)) (managed (vm_physmem (pb_st b)))"
    unfolding p using I by (auto simp: headers_from_def)
qed

lemma clean_state_ok:
  assumes "\<And>pm. pm_segtab (pmaps s pm) = 0 \<and> pm_asid (pmaps s pm) = 0 \<and> pm_asidgen (pmaps s pm) = 0"
    "\<And>pg. pvh_head (mdpage s pg) = \<lparr>pv_pmap = None, pv_va = 0, pv_flags = 0\<rparr> \<and> pvh_chain (mdpage s pg) = []"
    "free_segtab s = 0" "distinct (uvm_pages s)" "set (uvm_pages s) \<subseteq> frames" "distinct (pmap_pool s)" "pmap_kernel \<notin> set (pmap_pool s)"
    "pmap_max_asid s = 256" "pmap_next_asid s = 1" "pmap_asid_generation s = 0"
  shows "pmap_ok s"
proof -
  have nm: "\<not> mapped s pm va e" if "pm \<noteq> pmap_kernel" for pm va e
    using that assms(1) by (simp add: mapped_def va_ok_def)
  have "pmap_inv s"
    using nm assms(1,2) by (auto simp: pmap_inv_def pt_inj_def pv_inv_def res_inv_def md_wf_def pv_pairs_def)
  moreover have "alloc_ok s []"
    using assms by (auto simp: alloc_ok_def pt_pages_def seg_tabs_def intro: gr0I)
  moreover have "asid_inv s" using assms by (auto simp: asid_inv_def asid_live_def)
  ultimately show ?thesis by (auto simp: pmap_ok_def alloc_inv_def)
qed

lemma unat_sum_list:
  fixes xs :: "u32 list"
  assumes "\<And>x. x \<in> set xs \<Longrightarrow> unat x \<le> 1048576" "length xs \<le> 16"
  shows "unat (sum_list xs) = sum_list (map unat xs) \<and> sum_list (map unat xs) \<le> length xs * 1048576"
  using assms
proof (induction xs)
  case (Cons x xs)
  then have IH: "unat (sum_list xs) = sum_list (map unat xs)" "sum_list (map unat xs) \<le> length xs * 1048576" by auto
  have "unat x + sum_list (map unat xs) \<le> Suc (length xs) * 1048576" using Cons.prems(1) [of x] IH(2) by simp
  moreover have "Suc (length xs) * 1048576 \<le> 16777216" using Cons.prems(2) by simp
  ultimately show ?case using IH by (simp add: unat_word_ariths)
qed simp

lemma cluster_card:
  assumes "page_aligned (fst c)"
  shows "card (cluster_pages c) \<le> unat (atop (snd c))"
proof -
  obtain k where k: "unat (fst c) = 4096 * k" using assms by (metis dvdE mod_0_imp_dvd page_aligned_iff)
  have le: "unat (fst c + snd c) \<le> unat (fst c) + unat (snd c)" by (simp add: unat_word_ariths)
  have "unat (fst c + snd c) div 4096 \<le> (unat (fst c) + unat (snd c)) div 4096" using le by (rule div_le_mono)
  also have "\<dots> = unat (fst c) div 4096 + unat (snd c) div 4096" by (simp add: k)
  finally show ?thesis unfolding cluster_pages_def card_word_interval atop_div by simp
qed

lemma load_size:
  assumes "mach_init_load ke cs 0 [] = Ok (pm, mem)" "sorted_wrt (\<lambda>c d. cluster_pages c \<inter> cluster_pages d = {}) cs"
    "\<And>c. c \<in> set cs \<Longrightarrow> page_aligned (fst c)" "length cs \<le> 16"
  shows "card (managed mem) \<le> unat pm"
proof -
  have L: "managed mem \<subseteq> (\<Union>c \<in> set cs. cluster_pages c)" "pm = sum_list (map (\<lambda>c. atop (snd c)) cs)"
    using mach_load_ok [OF _ assms(2) _ assms(1)] by (auto simp: banks_ok_def)
  have "unat x \<le> 1048576" if "x \<in> set (map (\<lambda>c. atop (snd c)) cs)" for x
  proof -
    obtain y where y: "x = atop y" using \<open>x \<in> _\<close> by auto
    have "unat y < 1048576 * 4096" using unat_bound32 [of y] by simp
    then have "unat y div 4096 < 1048576" by (rule less_mult_imp_div_less)
    then show ?thesis by (simp add: y atop_div)
  qed
  then have pm: "unat pm = sum_list (map (\<lambda>c. unat (atop (snd c))) cs)"
    using unat_sum_list [of "map (\<lambda>c. atop (snd c)) cs"] assms(4) L(2) by (simp add: comp_def)
  have "card (managed mem) \<le> card (\<Union>c \<in> set cs. cluster_pages c)" using L(1) by (rule card_mono [rotated]) simp
  also have "\<dots> \<le> (\<Sum>c \<in> set cs. card (cluster_pages c))" by (rule card_UN_le) simp
  also have "\<dots> \<le> (\<Sum>c \<in> set cs. unat (atop (snd c)))" using assms(3) cluster_card by (intro sum_mono) blast
  also have "\<dots> \<le> sum_list (map (\<lambda>c. unat (atop (snd c))) cs)" by (induction cs) (auto simp: sum.insert_if)
  finally show ?thesis unfolding pm .
qed

lemma entries_single: "pv_entries m = [e] \<longleftrightarrow> pvh_head m = e \<and> pvh_chain m = []"
  by (auto simp: pv_entries_def)

end
