(* ===== verification/Pmap_Boot_Props.thy ===== *)
theory Pmap_Boot_Props
  imports Pmap_Boot_Inv
begin

text \<open>
  The properties of booting: the search for a segment, stolen memory, the first consistent state, pool
  pages. A machine with one 32 MB cluster serves the witnesses.
\<close>

section \<open>Properties\<close>

text \<open>
  On sorted, non-overlapping segments the binary search for the segment of a page frame returns
  what the linear search, which other ports compile, returns.
\<close>
theorem vm_physseg_find_linear:
  assumes "banks_ok mem"
  shows "vm_physseg_find mem pf = vm_physseg_linear pf 0 mem"
  using assms by (rule physseg_find_linear)

definition two_banks :: "vm_physseg list" where
  "two_banks = [\<lparr>ps_start = 0x10400, ps_end = 0x10800, avail_start = 0x10400, avail_end = 0x10800\<rparr>,
                \<lparr>ps_start = 0x12000, ps_end = 0x14000, avail_start = 0x12000, avail_end = 0x14000\<rparr>]"

lemma two_banks_ok: "banks_ok two_banks"
  by (simp add: two_banks_def banks_ok_def)

theorem vm_physseg_find_linear_witness:
  "banks_ok two_banks \<and> vm_physseg_find two_banks 0x12345 = vm_physseg_linear 0x12345 0 two_banks"
  using vm_physseg_find_linear [OF two_banks_ok] two_banks_ok by blast

text \<open>
  Before UVM runs, pmap_steal_memory returns when a segment is untouched and has more pages
  than asked for: it returns the P1 address of a run of managed pages, takes exactly
  these pages out of the segments, which stay sorted and disjoint, and clears them.
\<close>
theorem pmap_steal_memory_exact:
  assumes "banks_ok (vm_physmem s)" "\<not> page_init_done s"
    "\<exists>b \<in> set (vm_physmem s). avail_start b = ps_start b \<and> ps_start b < avail_end b \<and>
        atop (round_page sz) < avail_end b - ps_start b"
  shows "\<exists>st t. pmap_steal_memory sz s = Ok (AVR32_PHYS_TO_P1 (ptoa st), t) \<and>
     stolen st sz \<subseteq> managed (vm_physmem s) \<and> managed (vm_physmem t) = managed (vm_physmem s) - stolen st sz \<and>
     banks_ok (vm_physmem t) \<and> hd (hw t) = PAGE_ZERO (AVR32_PHYS_TO_P1 (ptoa st)) (round_page sz)"
proof -
  obtain pa mem where "steal_banks False (atop (round_page sz)) (length (vm_physmem s)) (vm_physmem s) = Ok (pa, mem)"
    using steal_banks_returns [OF assms(1,3)] by blast
  then obtain va t where r: "pmap_steal_memory sz s = Ok (va, t)"
    using assms(2) by (simp add: pmap_steal_memory_def Let_def)
  from steal_memory_spec [OF assms(1) r] obtain st where "va = AVR32_PHYS_TO_P1 (ptoa st)"
    "stolen st sz \<subseteq> managed (vm_physmem s)" "managed (vm_physmem t) = managed (vm_physmem s) - stolen st sz"
    "banks_ok (vm_physmem t)" "t = s\<lparr>vm_physmem := vm_physmem t, hw := PAGE_ZERO va (round_page sz) # hw s\<rparr>" by blast
  moreover have "hd (hw t) = PAGE_ZERO va (round_page sz)" by (subst calculation(5)) simp
  ultimately show ?thesis using r by blast
qed

definition bss_st :: "vm_physseg list \<Rightarrow> pmap_st" where
  "bss_st mem = \<lparr>Sysmap = (\<lambda>_. 0),
     pmaps = (\<lambda>_. \<lparr>pm_count = 0, resident_count = 0, wired_count = 0, pm_asid = 0, pm_asidgen = 0, pm_segtab = 0\<rparr>),
     seg_mem = (\<lambda>_ _. 0), pte_mem = (\<lambda>_ _. 0), free_segtab = 0,
     mdpage = (\<lambda>_. \<lparr>pvh_head = \<lparr>pv_pmap = None, pv_va = 0, pv_flags = 0\<rparr>, pvh_chain = [], pvh_attrs = 0\<rparr>),
     vm_physmem = mem, page_init_done = False, uvm_pages = [], pv_pool = [], pmap_pool = [],
     pmap_max_asid = 0, pmap_next_asid = 0, pmap_asid_generation = 0, pmap_initialized = False,
     alias_mask = 0, cur_pmap = 0, segbase = 0, hw = []\<rparr>"

theorem pmap_steal_memory_exact_witness:
  "\<exists>st t. pmap_steal_memory 0x3001 (bss_st two_banks) = Ok (AVR32_PHYS_TO_P1 (ptoa st), t) \<and>
     stolen st 0x3001 \<subseteq> managed (vm_physmem (bss_st two_banks)) \<and>
     managed (vm_physmem t) = managed (vm_physmem (bss_st two_banks)) - stolen st 0x3001 \<and>
     banks_ok (vm_physmem t) \<and> hd (hw t) = PAGE_ZERO (AVR32_PHYS_TO_P1 (ptoa st)) (round_page 0x3001)"
proof (rule pmap_steal_memory_exact)
  show "banks_ok (vm_physmem (bss_st two_banks))" using two_banks_ok by (simp add: bss_st_def)
  show "\<not> page_init_done (bss_st two_banks)" by (simp add: bss_st_def)
  show "\<exists>b \<in> set (vm_physmem (bss_st two_banks)). avail_start b = ps_start b \<and> ps_start b < avail_end b \<and>
      atop (round_page 0x3001) < avail_end b - ps_start b"
    by (simp add: bss_st_def two_banks_def atop_def round_page_def)
qed

text \<open>
  C21. Booting gives the first consistent state. When the memory clusters do not overlap and
  their sizes add up, then after mach_init loaded them above the kernel, pmap_bootstrap
  returned and pmap_init ran, with any pages and pool entries UVM hands over, the state
  satisfies the invariant that every later operation keeps; the kernel PTEs and the table of pv
  headers lie on disjoint pages that are no longer managed; and every managed page has its
  own header inside that table.
\<close>
theorem pmap_boot_consistent:
  assumes load: "sorted_wrt (\<lambda>c d. cluster_pages c \<inter> cluster_pages d = {}) cs"
      "\<And>c. c \<in> set cs \<Longrightarrow> page_aligned (fst c)" "length cs \<le> VM_PHYSSEG_MAX"
      "mach_init_load kernend cs 0 [] = Ok (pm, mem)"
    and clear: "bss_clear (pb_st b)" "vm_physmem (pb_st b) = mem" "physmem b = pm"
    and boot: "pmap_bootstrap p b = Ok b1"
    and uvm: "distinct pages" "set pages \<subseteq> frames" "distinct pms" "pmap_kernel \<notin> set pms"
  shows "pmap_ok ((pb_st (pmap_init b1))\<lparr>uvm_pages := pages, pv_pool := pvs, pmap_pool := pms\<rparr>) \<and>
    (\<exists>st1 st2. Sysmap_va b1 = AVR32_PHYS_TO_P1 (ptoa st1) \<and> pv_table b1 = AVR32_PHYS_TO_P1 (ptoa st2) \<and>
      stolen st1 (4 * Sysmapsize b1) \<inter> stolen st2 (16 * pv_table_npages b1) = {} \<and>
      managed (vm_physmem (pb_st (pmap_init b1))) = managed mem - stolen st1 (4 * Sysmapsize b1) - stolen st2 (16 * pv_table_npages b1)) \<and>
    inj_on (pvh_list (pmap_init b1)) (managed (vm_physmem (pb_st (pmap_init b1)))) \<and>
    (\<forall>pg \<in> managed (vm_physmem (pb_st (pmap_init b1))). \<exists>i < unat (pv_table_npages b1). pvh_list (pmap_init b1) pg = Some i)"
proof -
  have ok: "banks_ok (vm_physmem (pb_st b))" using mach_load_ok [OF _ load(1) _ load(4)] clear(2) by (simp add: banks_ok_def)
  note B = bootstrap_spec [OF ok boot]
  then have ok1: "banks_ok (vm_physmem (pb_st b1))" and np: "pv_table_npages b1 = pm" using clear(3) by auto
  note I = pmap_init_spec [OF ok1]
  obtain md h where st2: "pb_st (pmap_init b1) = (pb_st b1)\<lparr>mdpage := md, hw := h, pmap_initialized := True\<rparr>" using I(1) by blast
  obtain h1 where st1: "pb_st b1 = (pb_st b)\<lparr>Sysmap := (\<lambda>_. 0), vm_physmem := vm_physmem (pb_st b1), pv_pool := [], pmap_pool := [],
      pmaps := (pmaps (pb_st b))(pmap_kernel := (pmaps (pb_st b) pmap_kernel)\<lparr>pm_count := 1, pm_asid := 0, pm_asidgen := 0\<rparr>),
      pmap_max_asid := 256, pmap_next_asid := 1, pmap_asid_generation := 0, hw := h1\<rparr>" using B by blast
  have proj: "pmaps (pb_st b1) = (pmaps (pb_st b))(pmap_kernel := (pmaps (pb_st b) pmap_kernel)\<lparr>pm_count := 1, pm_asid := 0, pm_asidgen := 0\<rparr>)"
    "free_segtab (pb_st b1) = free_segtab (pb_st b)" "mdpage (pb_st b1) = mdpage (pb_st b)"
    "pmap_max_asid (pb_st b1) = 256" "pmap_next_asid (pb_st b1) = 1" "pmap_asid_generation (pb_st b1) = 0"
    by (subst st1, simp)+
  have m: "vm_physmem (pb_st (pmap_init b1)) = vm_physmem (pb_st b1)" by (simp add: st2)
  have md: "pvh_head (md pg) = \<lparr>pv_pmap = None, pv_va = 0, pv_flags = 0\<rparr> \<and> pvh_chain (md pg) = []" for pg
    using I(2,3) [of pg] clear(1) proj(3) by (cases "pg \<in> managed (vm_physmem (pb_st b1))") (auto simp: st2 entries_single bss_clear_def)
  have "pmap_ok ((pb_st (pmap_init b1))\<lparr>uvm_pages := pages, pv_pool := pvs, pmap_pool := pms\<rparr>)"
    by (rule clean_state_ok) (use md uvm clear(1) proj in \<open>simp_all add: st2 bss_clear_def\<close>)
  moreover have "\<exists>st1 st2. Sysmap_va b1 = AVR32_PHYS_TO_P1 (ptoa st1) \<and> pv_table b1 = AVR32_PHYS_TO_P1 (ptoa st2) \<and>
      stolen st1 (4 * Sysmapsize b1) \<inter> stolen st2 (16 * pv_table_npages b1) = {} \<and>
      managed (vm_physmem (pb_st (pmap_init b1))) = managed mem - stolen st1 (4 * Sysmapsize b1) - stolen st2 (16 * pv_table_npages b1)"
    using B unfolding m clear(2) by blast
  moreover have "inj_on (pvh_list (pmap_init b1)) (managed (vm_physmem (pb_st (pmap_init b1))))" unfolding m by (rule I(4))
  moreover have sub: "managed (vm_physmem (pb_st b1)) \<subseteq> managed mem" using B clear(2) by auto
  have "card (managed (vm_physmem (pb_st b1))) \<le> card (managed mem)" using sub by (rule card_mono [rotated]) simp
  then have bp: "bank_pages (vm_physmem (pb_st b1)) \<le> unat pm"
    using load_size [OF load(4,1,2,3)] bank_pages_card [OF ok1] by simp
  have "\<exists>i < unat (pv_table_npages b1). pvh_list (pmap_init b1) pg = Some i"
    if "pg \<in> managed (vm_physmem (pb_st (pmap_init b1)))" for pg
    using I(2) [of pg] that bp unfolding m np by fastforce
  ultimately show ?thesis by blast
qed

definition demo_bank :: vm_physseg where
  "demo_bank = \<lparr>ps_start = 0x10400, ps_end = 0x12000, avail_start = 0x10400, avail_end = 0x12000\<rparr>"

definition demo_boot :: pmap_boot where
  "demo_boot = \<lparr>pb_st = bss_st [demo_bank], Sysmapsize = 0, pb_avail_start = 0, pb_avail_end = 0, virtual_end = 0, Sysmap_va = 0,
     pv_table = 0, pv_table_npages = 0, pvh_list = (\<lambda>_. None), pageboot_initialized = False, virtual_space_start = 0,
     virtual_space_end = 0, physmem = 0x2000\<rparr>"

definition demo_params :: boot_params where
  "demo_params = \<lparr>bp_bufsz = 0x100000, bp_ubc_nwins = 0x400, bp_ubc_winshift = 13, bp_pager_map_size = 0x400000,
     bp_maxproc = 160, bp_nkmempages = 0x800\<rparr>"

definition demo_booted :: pmap_boot where
  "demo_booted = (case pmap_bootstrap demo_params demo_boot of Ok b \<Rightarrow> b | _ \<Rightarrow> demo_boot)"

lemma demo_load: "mach_init_load 0x90400000 [(0x10000000, 0x2000000)] 0 [] = Ok (0x2000, [demo_bank])"
  by (simp add: AVR32_P1_TO_PHYS_def round_page_def atop_def uvm_page_physload_def demo_bank_def)

lemma demo_boot_ok: "pmap_bootstrap demo_params demo_boot = Ok demo_booted"
  by (simp add: demo_booted_def pmap_bootstrap_def demo_boot_def demo_params_def kernel_ptes_def uvm_pageboot_alloc_def
      pmap_steal_memory_def bss_st_def demo_bank_def round_page_def atop_def pmap_virtual_space_def Let_def hw_op_def)

theorem pmap_boot_consistent_witness:
  "pmap_ok ((pb_st (pmap_init demo_booted))\<lparr>uvm_pages := [0x11000000], pv_pool := [1], pmap_pool := [1]\<rparr>)"
proof -
  have "page_aligned (fst c)" if "c \<in> set [(0x10000000 :: u32, 0x2000000 :: u32)]" for c using that by simp
  moreover have "bss_clear (pb_st demo_boot)" by (simp add: bss_clear_def demo_boot_def bss_st_def)
  ultimately show ?thesis
    using pmap_boot_consistent [of "[(0x10000000, 0x2000000)]" "0x90400000" "0x2000" "[demo_bank]" demo_boot demo_params
      demo_booted "[0x11000000]" "[1]" "[1]", OF _ _ _ demo_load _ _ _ demo_boot_ok]
    by (simp add: demo_boot_def bss_st_def frames_def)
qed

text \<open>
  A pool page mapped through P1 and unmapped again is the same physical page, and neither
  changes a page table or a pv list: both only touch the cache.
\<close>
theorem poolpage_roundtrip:
  assumes "pa \<in> frames" "PHYS_TO_VM_PAGE s pa = Some pg"
  shows "\<exists>va t. avr32_pmap_map_poolpage pa s = Ok (va, t) \<and> fst (avr32_pmap_unmap_poolpage va t) = pa \<and>
    (\<exists>h. snd (avr32_pmap_unmap_poolpage va t) = s\<lparr>hw := h\<rparr>)"
  using assms P1_bits(1) [OF assms(1)]
  by (auto simp: avr32_pmap_map_poolpage_def avr32_pmap_unmap_poolpage_def pool_page_flush_def hw_op_def Let_def)

lemma demo_page: "PHYS_TO_VM_PAGE (bss_st [demo_bank]) 0x11000000 = Some 0x11000"
  by (simp add: PHYS_TO_VM_PAGE_def bss_st_def demo_bank_def vm_physseg_find_def vm_physseg_loop.simps atop_def)

theorem poolpage_roundtrip_witness:
  "0x11000000 \<in> frames \<and> (\<exists>va t. avr32_pmap_map_poolpage 0x11000000 (bss_st [demo_bank]) = Ok (va, t) \<and>
    fst (avr32_pmap_unmap_poolpage va t) = 0x11000000)"
proof -
  have "(0x11000000 :: u32) \<in> frames" by (simp add: frames_def)
  then show ?thesis using poolpage_roundtrip [OF _ demo_page] by blast
qed

end
