(* ===== verification/Extent.thy ===== *)
theory Extent
  imports Prelude
begin

text \<open>
  The extent manager (\<open>kern/subr_extent.c\<close>, \<open>sys/extent.h\<close>): maps of allocated regions of a number
  space, which the bus space layer uses for physical addresses and kernel virtual addresses.
  A region list is a list of descriptors in the order of the C list; a pointer into it is
  an index. The descriptor pool is the number of descriptors it can give without sleeping.
  Sleeping is explicit: every operation that may sleep takes the list of its wake-ups, each of
  which says what other threads did to the extent meanwhile and which error \<open>cv_wait_sig\<close>
  returned; a sleep without a wake-up is \<open>Hang\<close>.
\<close>

section \<open>Data\<close>

record extent_region =
  er_start :: u32
  er_end :: u32
  er_flags :: u32

record extent =
  ex_regions :: "extent_region list"
  ex_start :: u32
  ex_end :: u32
  ex_flags :: u32
  fex_freelist :: "extent_region list"
  expool :: nat
  kmem_running :: bool

abbreviation (input) ER_ALLOC :: u32 where "ER_ALLOC \<equiv> 1"
abbreviation (input) EXF_FIXED :: u32 where "EXF_FIXED \<equiv> 1"
abbreviation (input) EXF_NOCOALESCE :: u32 where "EXF_NOCOALESCE \<equiv> 2"
abbreviation (input) EXF_FLWANTED :: u32 where "EXF_FLWANTED \<equiv> 8"
abbreviation (input) EX_WAITOK :: u32 where "EX_WAITOK \<equiv> 1"
abbreviation (input) EX_FAST :: u32 where "EX_FAST \<equiv> 2"
abbreviation (input) EX_CATCH :: u32 where "EX_CATCH \<equiv> 4"
abbreviation (input) EX_NOCOALESCE :: u32 where "EX_NOCOALESCE \<equiv> 8"
abbreviation (input) EX_MALLOCOK :: u32 where "EX_MALLOCOK \<equiv> 16"
abbreviation (input) EX_WAITSPACE :: u32 where "EX_WAITSPACE \<equiv> 32"
abbreviation (input) EX_BOUNDZERO :: u32 where "EX_BOUNDZERO \<equiv> 64"

abbreviation (input) EINVAL :: int where "EINVAL \<equiv> 22"
abbreviation (input) EX_ENOMEM :: int where "EX_ENOMEM \<equiv> 12"
abbreviation (input) EAGAIN :: int where "EAGAIN \<equiv> 35"

type_synonym wakeup = "int \<times> (extent \<Rightarrow> extent)"

definition EXTENT_ALIGN :: "u32 \<Rightarrow> u32 \<Rightarrow> u32 \<Rightarrow> u32" where
  "EXTENT_ALIGN start align skew = (((start - skew) + (align - 1)) AND (- align)) + skew"

definition LE_OV :: "u32 \<Rightarrow> u32 \<Rightarrow> u32 \<Rightarrow> bool" where
  "LE_OV x y z \<longleftrightarrow> x + y \<ge> x \<and> x + y \<le> z"

section \<open>Region descriptors\<close>

text \<open>\<open>pool_get\<close>: with \<open>PR_WAITOK\<close> it never fails.\<close>

definition pool_get :: "u32 \<Rightarrow> extent \<Rightarrow> extent_region option \<times> extent" where
  "pool_get flags ex =
     (if flags AND EX_WAITOK \<noteq> 0 \<or> expool ex > 0
      then (Some \<lparr>er_start = 0, er_end = 0, er_flags = ER_ALLOC\<rparr>, ex\<lparr>expool := expool ex - 1\<rparr>)
      else (None, ex))"

definition pool_put :: "extent \<Rightarrow> extent" where
  "pool_put ex = ex\<lparr>expool := expool ex + 1\<rparr>"

text \<open>The loop over the freelist of a fixed extent.\<close>

fun fixed_descriptor :: "u32 \<Rightarrow> wakeup list \<Rightarrow> extent \<Rightarrow> (extent_region option \<times> extent \<times> wakeup list) result" where
  "fixed_descriptor flags wk ex =
     (case fex_freelist ex of
        rp # rest \<Rightarrow> Ok (Some rp, ex\<lparr>fex_freelist := rest\<rparr>, wk)
      | [] \<Rightarrow>
          if flags AND EX_MALLOCOK \<noteq> 0 then (case pool_get flags ex of (rp, ex') \<Rightarrow> Ok (rp, ex', wk))
          else if flags AND EX_WAITOK = 0 then Ok (None, ex, wk)
          else (case wk of
                  [] \<Rightarrow> Hang
                | (err, others) # wk' \<Rightarrow>
                    let ex' = others (ex\<lparr>ex_flags := ex_flags ex OR EXF_FLWANTED\<rparr>);
                        error = (if flags AND EX_CATCH \<noteq> 0 then err else 0)
                    in if error \<noteq> 0 then Ok (None, ex', wk') else fixed_descriptor flags wk' ex'))"

definition extent_alloc_region_descriptor ::
  "u32 \<Rightarrow> wakeup list \<Rightarrow> extent \<Rightarrow> (extent_region option \<times> extent \<times> wakeup list) result" where
  "extent_alloc_region_descriptor flags wk ex =
     (let flags = (if kmem_running ex then flags else flags AND NOT EX_MALLOCOK) in
      if ex_flags ex AND EXF_FIXED \<noteq> 0 then fixed_descriptor flags wk ex
      else case pool_get flags ex of (rp, ex') \<Rightarrow> Ok (rp, ex', wk))"

definition extent_free_region_descriptor :: "extent_region \<Rightarrow> extent \<Rightarrow> extent" where
  "extent_free_region_descriptor rp ex =
     (if ex_flags ex AND EXF_FIXED \<noteq> 0 then
        let ex1 = (if er_flags rp AND ER_ALLOC \<noteq> 0
                   then (if ex_flags ex AND EXF_FLWANTED \<noteq> 0
                         then ex\<lparr>fex_freelist := rp\<lparr>er_flags := ER_ALLOC\<rparr> # fex_freelist ex\<rparr>
                         else pool_put ex)
                   else ex\<lparr>fex_freelist := rp\<lparr>er_flags := 0\<rparr> # fex_freelist ex\<rparr>)
        in ex1\<lparr>ex_flags := ex_flags ex1 AND NOT EXF_FLWANTED\<rparr>
      else pool_put ex)"

section \<open>Creation and destruction\<close>

text \<open>
  The storage of a fixed extent holds the header, \<open>hdr\<close> bytes, and as many descriptors of
  \<open>rsz\<close> bytes as fit; the size left is a \<open>size_t\<close>, which wraps for storage smaller than the header.
  \<open>mem\<close> is whether \<open>malloc\<close> returns memory for a dynamic extent.
\<close>

fun fixed_freelist :: "nat \<Rightarrow> nat \<Rightarrow> extent_region list" where
  "fixed_freelist rsz sz =
     (if rsz > 0 \<and> sz \<ge> rsz
      then fixed_freelist rsz (sz - rsz) @ [\<lparr>er_start = 0, er_end = 0, er_flags = 0\<rparr>] else [])"

declare fixed_freelist.simps [simp del]

definition extent_create ::
  "nat \<Rightarrow> nat \<Rightarrow> bool \<Rightarrow> u32 \<Rightarrow> u32 \<Rightarrow> nat option \<Rightarrow> u32 \<Rightarrow> nat \<Rightarrow> bool \<Rightarrow> extent option" where
  "extent_create hdr rsz mem start end storagesize flags pool kmem =
     (let ex = \<lparr>ex_regions = [], ex_start = start, ex_end = end,
                ex_flags = (if storagesize \<noteq> None then EXF_FIXED else 0) OR
                           (if flags AND EX_NOCOALESCE \<noteq> 0 then EXF_NOCOALESCE else 0),
                fex_freelist = (case storagesize of None \<Rightarrow> [] | Some sz \<Rightarrow> fixed_freelist rsz (unat (of_nat sz - of_nat hdr :: u32))),
                expool = pool, kmem_running = kmem\<rparr>
      in if storagesize = None \<and> \<not> mem then None else Some ex)"

definition extent_destroy :: "extent \<Rightarrow> extent" where
  "extent_destroy ex = fold extent_free_region_descriptor (ex_regions ex) (ex\<lparr>ex_regions := []\<rparr>)"

section \<open>Insertion\<close>

text \<open>\<open>after\<close> is the position of the region the new one follows, \<open>None\<close> at the head.\<close>

definition insert_at :: "nat \<Rightarrow> 'a \<Rightarrow> 'a list \<Rightarrow> 'a list" where
  "insert_at i x xs = take i xs @ x # drop i xs"

definition extent_insert_and_optimize ::
  "u32 \<Rightarrow> u32 \<Rightarrow> nat option \<Rightarrow> extent_region \<Rightarrow> extent \<Rightarrow> extent" where
  "extent_insert_and_optimize start sz after rp ex =
     (let regs = ex_regions ex;
          new = rp\<lparr>er_start := start, er_end := start + (sz - 1)\<rparr>;
          nocoal = (ex_flags ex AND EXF_NOCOALESCE \<noteq> 0)
      in case after of
        None \<Rightarrow>
          if \<not> nocoal \<and> regs \<noteq> [] \<and> start + sz = er_start (hd regs)
          then extent_free_region_descriptor rp
                 (ex\<lparr>ex_regions := (hd regs)\<lparr>er_start := start\<rparr> # tl regs\<rparr>)
          else ex\<lparr>ex_regions := new # regs\<rparr>
      | Some i \<Rightarrow>
          if nocoal then ex\<lparr>ex_regions := insert_at (i + 1) new regs\<rparr>
          else
            let appended = (er_end (regs ! i) + 1 = start);
                regs1 = (if appended then regs[i := (regs ! i)\<lparr>er_end := start + (sz - 1)\<rparr>] else regs)
            in if i + 1 < length regs1 \<and> start + sz = er_start (regs1 ! (i + 1))
               then (if appended
                     then extent_free_region_descriptor rp
                            (extent_free_region_descriptor (regs1 ! (i + 1))
                               (ex\<lparr>ex_regions :=
                                  take i regs1 @ (regs1 ! i)\<lparr>er_end := er_end (regs1 ! (i + 1))\<rparr>
                                    # drop (i + 2) regs1\<rparr>))
                     else extent_free_region_descriptor rp
                            (ex\<lparr>ex_regions := regs1[i + 1 := (regs1 ! (i + 1))\<lparr>er_start := start\<rparr>]\<rparr>))
               else if appended then extent_free_region_descriptor rp (ex\<lparr>ex_regions := regs1\<rparr>)
               else ex\<lparr>ex_regions := insert_at (i + 1) new regs\<rparr>)"

section \<open>Allocating a given region\<close>

text \<open>
  The search of \<open>extent_alloc_region\<close>: \<open>Inl\<close> when the region overlaps an allocated one, otherwise
  the position it goes after. \<open>i\<close> is the position of the head of the rest of the list.
\<close>

fun region_conflict :: "u32 \<Rightarrow> u32 \<Rightarrow> nat \<Rightarrow> nat option \<Rightarrow> extent_region list \<Rightarrow> unit + nat option" where
  "region_conflict start end i lst [] = Inr lst"
| "region_conflict start end i lst (rp # rest) =
     (if er_start rp > end then Inr lst
      else if er_end rp \<ge> start then Inl ()
      else region_conflict start end (i + 1) (Some i) rest)"

fun alloc_region_start ::
  "u32 \<Rightarrow> u32 \<Rightarrow> u32 \<Rightarrow> extent_region \<Rightarrow> wakeup list \<Rightarrow> extent \<Rightarrow> (int \<times> extent) result" where
  "alloc_region_start start sz flags myrp wk ex =
     (case region_conflict start (start + (sz - 1)) 0 None (ex_regions ex) of
        Inr lst \<Rightarrow> Ok (0, extent_insert_and_optimize start sz lst myrp ex)
      | Inl _ \<Rightarrow>
          if flags AND EX_WAITSPACE \<noteq> 0
          then (case wk of
                  [] \<Rightarrow> Hang
                | (err, others) # wk' \<Rightarrow>
                    let error = (if flags AND EX_CATCH \<noteq> 0 then err else 0)
                    in if error = 0 then alloc_region_start start sz flags myrp wk' (others ex)
                       else Ok (error, extent_free_region_descriptor myrp (others ex)))
          else Ok (EAGAIN, extent_free_region_descriptor myrp ex))"

definition extent_alloc_region ::
  "u32 \<Rightarrow> u32 \<Rightarrow> u32 \<Rightarrow> wakeup list \<Rightarrow> extent \<Rightarrow> (int \<times> extent) result" where
  "extent_alloc_region start sz flags wk ex =
     (if start < ex_start ex \<or> start + (sz - 1) > ex_end ex then Ok (EINVAL, ex)
      else bind_r (extent_alloc_region_descriptor flags wk ex) (\<lambda>(rp, ex, wk).
        case rp of None \<Rightarrow> Ok (EX_ENOMEM, ex)
        | Some myrp \<Rightarrow> alloc_region_start start sz flags myrp wk ex))"

section \<open>Allocating anywhere in a subregion\<close>

text \<open>The boundary check both tests share; \<open>fits\<close> is the test for the space at hand.\<close>

datatype bcheck = BOk u32 | BSkip | BFail

definition boundary_check :: "extent \<Rightarrow> u32 \<Rightarrow> u32 \<Rightarrow> u32 \<Rightarrow> (u32 \<Rightarrow> bool) \<Rightarrow> u32 \<Rightarrow> bcheck" where
  "boundary_check ex flags sz boundary fits newstart =
     (if boundary = 0 then BOk newstart
      else
        let newend = newstart + (sz - 1);
            dontcross = EXTENT_ALIGN (newstart + 1) boundary
              (if flags AND EX_BOUNDZERO \<noteq> 0 then 0 else ex_start ex) - 1
        in if dontcross < ex_start ex
           then (if newstart + sz - 1 > ex_end ex \<or> ex_end ex < newstart then BFail else BOk newstart)
           else if newend > dontcross
           then (let ns = dontcross + 1 in
                 if \<not> fits ns then BSkip
                 else if ns + sz - 1 > ex_end ex \<or> dontcross + boundary < ns then BFail else BOk ns)
           else if newstart + sz - 1 > ex_end ex \<or> dontcross < newstart then BFail else BOk newstart)"

text \<open>The best fit so far: overhead (0 for none), start, position.\<close>

type_synonym best = "u32 \<times> u32 \<times> nat option"

definition better :: "u32 \<Rightarrow> u32 \<Rightarrow> nat option \<Rightarrow> best \<Rightarrow> best" where
  "better ovh newstart lst best =
     (if fst best = 0 \<or> ovh < fst best then (ovh, newstart, lst) else best)"

datatype search = Found u32 "nat option" | Fail best | Rest u32 "nat option" u32 best

text \<open>
  The loop over the regions from the first one at or after the candidate start. \<open>Rest\<close> is
  leaving the loop to try the space before the end of the subregion.
\<close>

fun subregion_loop ::
  "extent \<Rightarrow> u32 \<Rightarrow> u32 \<Rightarrow> u32 \<Rightarrow> u32 \<Rightarrow> u32 \<Rightarrow> u32 \<Rightarrow> u32 \<Rightarrow> nat option \<Rightarrow> best \<Rightarrow> nat \<Rightarrow>
   extent_region list \<Rightarrow> search" where
  "subregion_loop ex subend sz alignment skew boundary flags newstart lst best i [] =
     Rest newstart lst (ex_end ex) best"
| "subregion_loop ex subend sz alignment skew boundary flags newstart lst best i (rp # rest) =
     (if er_start rp > subend then Rest newstart lst (er_start rp) best
      else
        let next = (\<lambda>best. let ns = EXTENT_ALIGN (er_end rp + 1) alignment skew in
                     if ns < er_end rp then Fail best
                     else subregion_loop ex subend sz alignment skew boundary flags ns (Some i) best (i + 1) rest)
        in if LE_OV newstart sz (er_start rp)
           then (case boundary_check ex flags sz boundary (\<lambda>ns. LE_OV ns sz (er_start rp)) newstart of
                   BSkip \<Rightarrow> next best
                 | BFail \<Rightarrow> Fail best
                 | BOk ns \<Rightarrow>
                     let ovh = er_start rp - ns - sz in
                     if flags AND EX_FAST \<noteq> 0 \<or> ovh = 0 then Found ns lst
                     else next (better ovh ns lst best))
           else next best)"

text \<open>The first region at or after \<open>newstart\<close>: the position before it, and the rest of the list.\<close>

fun subregion_skip :: "u32 \<Rightarrow> nat option \<Rightarrow> nat \<Rightarrow> extent_region list \<Rightarrow> nat option \<times> nat \<times> extent_region list" where
  "subregion_skip newstart lst i [] = (lst, i, [])"
| "subregion_skip newstart lst i (rp # rest) =
     (if er_start rp \<ge> newstart then (lst, i, rp # rest)
      else subregion_skip newstart (Some i) (i + 1) rest)"

definition subregion_final :: "extent \<Rightarrow> u32 \<Rightarrow> u32 \<Rightarrow> u32 \<Rightarrow> u32 \<Rightarrow> search \<Rightarrow> (u32 \<times> nat option) option" where
  "subregion_final ex subend sz boundary flags r =
     (let fail = (\<lambda>best :: best. if flags AND EX_FAST = 0 \<and> fst best \<noteq> 0
                                 then Some (fst (snd best), snd (snd best)) else None)
      in case r of
        Found ns lst \<Rightarrow> Some (ns, lst)
      | Fail best \<Rightarrow> fail best
      | Rest newstart lst exend best \<Rightarrow>
          if LE_OV newstart (sz - 1) subend
          then (case boundary_check ex flags sz boundary (\<lambda>ns. LE_OV ns (sz - 1) subend) newstart of
                  BSkip \<Rightarrow> fail best
                | BFail \<Rightarrow> fail best
                | BOk ns \<Rightarrow>
                    let ovh = exend - ns - (sz - 1) in
                    if flags AND EX_FAST \<noteq> 0 \<or> ovh = 0 then Some (ns, lst)
                    else fail (better ovh ns lst best))
          else fail best)"

text \<open>The search for a place: \<open>None\<close> for a start before the extent, else the place if any.\<close>

definition subregion_search ::
  "u32 \<Rightarrow> u32 \<Rightarrow> u32 \<Rightarrow> u32 \<Rightarrow> u32 \<Rightarrow> u32 \<Rightarrow> u32 \<Rightarrow> extent \<Rightarrow> (u32 \<times> nat option) option option" where
  "subregion_search substart subend sz alignment skew boundary flags ex =
     (let newstart = EXTENT_ALIGN substart alignment skew in
      if newstart < ex_start ex then None
      else case subregion_skip newstart None 0 (ex_regions ex) of (lst, i, rest) \<Rightarrow>
        let newstart = (case lst of
               Some l \<Rightarrow> if er_end (ex_regions ex ! l) \<ge> newstart
                         then EXTENT_ALIGN (er_end (ex_regions ex ! l) + 1) alignment skew else newstart
             | None \<Rightarrow> newstart)
        in Some (subregion_final ex subend sz boundary flags
                   (subregion_loop ex subend sz alignment skew boundary flags newstart lst
                      (0, 0, None) i rest)))"

fun alloc_subregion_start ::
  "u32 \<Rightarrow> u32 \<Rightarrow> u32 \<Rightarrow> u32 \<Rightarrow> u32 \<Rightarrow> u32 \<Rightarrow> u32 \<Rightarrow> extent_region \<Rightarrow> wakeup list \<Rightarrow> extent \<Rightarrow>
   (int \<times> u32 option \<times> extent) result" where
  "alloc_subregion_start substart subend sz alignment skew boundary flags myrp wk ex =
     (case subregion_search substart subend sz alignment skew boundary flags ex of
        None \<Rightarrow> Ok (EINVAL, None, extent_free_region_descriptor myrp ex)
      | Some (Some (ns, lst)) \<Rightarrow> Ok (0, Some ns, extent_insert_and_optimize ns sz lst myrp ex)
      | Some None \<Rightarrow>
          if flags AND EX_WAITSPACE \<noteq> 0
          then (case wk of
                  [] \<Rightarrow> Hang
                | (err, others) # wk' \<Rightarrow>
                    let error = (if flags AND EX_CATCH \<noteq> 0 then err else 0)
                    in if error = 0
                       then alloc_subregion_start substart subend sz alignment skew boundary flags myrp wk' (others ex)
                       else Ok (error, None, extent_free_region_descriptor myrp (others ex)))
          else Ok (EAGAIN, None, extent_free_region_descriptor myrp ex))"

definition extent_alloc_subregion1 ::
  "u32 \<Rightarrow> u32 \<Rightarrow> u32 \<Rightarrow> u32 \<Rightarrow> u32 \<Rightarrow> u32 \<Rightarrow> u32 \<Rightarrow> wakeup list \<Rightarrow> extent \<Rightarrow> (int \<times> u32 option \<times> extent) result" where
  "extent_alloc_subregion1 substart subend sz alignment skew boundary flags wk ex =
     bind_r (extent_alloc_region_descriptor flags wk ex) (\<lambda>(rp, ex, wk).
       case rp of None \<Rightarrow> Ok (EX_ENOMEM, None, ex)
       | Some myrp \<Rightarrow> alloc_subregion_start substart subend sz alignment skew boundary flags myrp wk ex)"

definition extent_alloc_subregion ::
  "u32 \<Rightarrow> u32 \<Rightarrow> u32 \<Rightarrow> u32 \<Rightarrow> u32 \<Rightarrow> u32 \<Rightarrow> wakeup list \<Rightarrow> extent \<Rightarrow> (int \<times> u32 option \<times> extent) result" where
  "extent_alloc_subregion start end sz alignment boundary flags wk ex =
     extent_alloc_subregion1 start end sz alignment 0 boundary flags wk ex"

definition extent_alloc :: "u32 \<Rightarrow> u32 \<Rightarrow> u32 \<Rightarrow> u32 \<Rightarrow> wakeup list \<Rightarrow> extent \<Rightarrow> (int \<times> u32 option \<times> extent) result" where
  "extent_alloc sz alignment boundary flags wk ex =
     extent_alloc_subregion1 (ex_start ex) (ex_end ex) sz alignment 0 boundary flags wk ex"

definition extent_alloc1 ::
  "u32 \<Rightarrow> u32 \<Rightarrow> u32 \<Rightarrow> u32 \<Rightarrow> u32 \<Rightarrow> wakeup list \<Rightarrow> extent \<Rightarrow> (int \<times> u32 option \<times> extent) result" where
  "extent_alloc1 sz alignment skew boundary flags wk ex =
     extent_alloc_subregion1 (ex_start ex) (ex_end ex) sz alignment skew boundary flags wk ex"

section \<open>Freeing\<close>

text \<open>
  The loop of \<open>extent_free\<close>: the new list, the descriptor that leaves it (case 1), and whether the
  spare descriptor was used (case 4); \<open>None\<close> when no region contains the range.
\<close>

fun free_loop ::
  "u32 \<Rightarrow> u32 \<Rightarrow> extent_region option \<Rightarrow> extent_region list \<Rightarrow>
   (extent_region list \<times> extent_region option \<times> bool) option" where
  "free_loop start end nrp [] = None"
| "free_loop start end nrp (rp # rest) =
     (let next = map_option (\<lambda>(l, r, u). (rp # l, r, u)) (free_loop start end nrp rest) in
      if er_end rp < start then next
      else if er_start rp > end then None
      else if start = er_start rp \<and> end = er_end rp then Some (rest, Some rp, False)
      else case nrp of
        None \<Rightarrow> next
      | Some d \<Rightarrow>
          if start = er_start rp \<and> end < er_end rp
          then Some (rp\<lparr>er_start := end + 1\<rparr> # rest, None, False)
          else if start > er_start rp \<and> end = er_end rp
          then Some (rp\<lparr>er_end := start - 1\<rparr> # rest, None, False)
          else if start > er_start rp \<and> end < er_end rp
          then Some (rp\<lparr>er_end := start - 1\<rparr> # d\<lparr>er_start := end + 1, er_end := er_end rp\<rparr> # rest, None, True)
          else next)"

definition extent_free_list :: "u32 \<Rightarrow> u32 \<Rightarrow> extent_region option \<Rightarrow> extent \<Rightarrow> (int \<times> extent) result" where
  "extent_free_list start end nrp ex =
     (case free_loop start end nrp (ex_regions ex) of
        None \<Rightarrow> Panic ''extent_free: region not found''
      | Some (regs, freed, used) \<Rightarrow>
          let ex1 = ex\<lparr>ex_regions := regs\<rparr>;
              ex2 = (case freed of None \<Rightarrow> ex1 | Some rp \<Rightarrow> extent_free_region_descriptor rp ex1)
          in Ok (0, case nrp of Some d \<Rightarrow> if used then ex2 else extent_free_region_descriptor d ex2 | None \<Rightarrow> ex2))"

definition extent_free :: "u32 \<Rightarrow> u32 \<Rightarrow> u32 \<Rightarrow> wakeup list \<Rightarrow> extent \<Rightarrow> (int \<times> extent) result" where
  "extent_free start sz flags wk ex =
     (let end = start + (sz - 1) in
      if ex_flags ex AND EXF_NOCOALESCE = 0
      then bind_r (extent_alloc_region_descriptor flags wk ex) (\<lambda>(rp, ex, wk).
             case rp of None \<Rightarrow> Ok (EX_ENOMEM, ex) | Some d \<Rightarrow> extent_free_list start end (Some d) ex)
      else extent_free_list start end None ex)"

declare fixed_descriptor.simps [simp del] alloc_region_start.simps [simp del] alloc_subregion_start.simps [simp del]

end
