(* ===== verification/Extent_Inv.thy ===== *)
theory Extent_Inv
  imports Extent
begin

text \<open>
  The extent manager refines a set of allocated numbers. \<open>ex_ok\<close>: the regions are sorted, pairwise
  disjoint and within the extent; \<open>allocated\<close> is the set they cover. Insertion at the right
  place adds exactly the new range, the loop of \<open>extent_free\<close> removes exactly the range it is given.
\<close>

section \<open>Abstraction\<close>

abbreviation region_set :: "extent_region \<Rightarrow> u32 set" where
  "region_set r \<equiv> {er_start r..er_end r}"

definition regs_ok :: "extent_region list \<Rightarrow> bool" where
  "regs_ok regs \<longleftrightarrow> (\<forall>r \<in> set regs. er_start r \<le> er_end r) \<and> sorted_wrt (\<lambda>a b. er_end a < er_start b) regs"

definition regs_in :: "u32 \<Rightarrow> u32 \<Rightarrow> extent_region list \<Rightarrow> bool" where
  "regs_in lo hi regs \<longleftrightarrow> (\<forall>r \<in> set regs. lo \<le> er_start r \<and> er_end r \<le> hi)"

definition ex_ok :: "extent \<Rightarrow> bool" where
  "ex_ok ex \<longleftrightarrow> regs_ok (ex_regions ex) \<and> regs_in (ex_start ex) (ex_end ex) (ex_regions ex)"

definition covered :: "extent_region list \<Rightarrow> u32 set" where
  "covered regs = \<Union> (region_set ` set regs)"

definition allocated :: "extent \<Rightarrow> u32 set" where
  "allocated ex = covered (ex_regions ex)"

lemma covered_simps [simp]: "covered [] = {}" "covered (r # regs) = region_set r \<union> covered regs"
  "covered (as @ bs) = covered as \<union> covered bs"
  by (auto simp: covered_def)

lemma regs_ok_Nil [simp]: "regs_ok []"
  by (simp add: regs_ok_def)

lemma regs_ok_Cons: "regs_ok (r # regs) \<longleftrightarrow> er_start r \<le> er_end r \<and> (\<forall>x \<in> set regs. er_end r < er_start x) \<and> regs_ok regs"
  by (auto simp: regs_ok_def)

lemma regs_ok_append: "regs_ok (as @ bs) \<longleftrightarrow> regs_ok as \<and> regs_ok bs \<and> (\<forall>a \<in> set as. \<forall>b \<in> set bs. er_end a < er_start b)"
  by (auto simp: regs_ok_def sorted_wrt_append)

lemma regs_in_simps [simp]: "regs_in lo hi []" "regs_in lo hi (r # regs) \<longleftrightarrow> lo \<le> er_start r \<and> er_end r \<le> hi \<and> regs_in lo hi regs"
  "regs_in lo hi (as @ bs) \<longleftrightarrow> regs_in lo hi as \<and> regs_in lo hi bs"
  by (auto simp: regs_in_def)

lemma regs_okD: "regs_ok regs \<Longrightarrow> r \<in> set regs \<Longrightarrow> er_start r \<le> er_end r"
  by (simp add: regs_ok_def)

text \<open>Descriptors: taking and returning them leaves the region list alone.\<close>

definition same_map :: "extent \<Rightarrow> extent \<Rightarrow> bool" where
  "same_map ex ex' \<longleftrightarrow> ex_regions ex' = ex_regions ex \<and> ex_start ex' = ex_start ex \<and> ex_end ex' = ex_end ex \<and>
     ex_flags ex' AND EXF_NOCOALESCE = ex_flags ex AND EXF_NOCOALESCE"

lemma free_descriptor_simps [simp]:
  "ex_regions (extent_free_region_descriptor rp ex) = ex_regions ex"
  "ex_start (extent_free_region_descriptor rp ex) = ex_start ex"
  "ex_end (extent_free_region_descriptor rp ex) = ex_end ex"
  "ex_flags (extent_free_region_descriptor rp ex) AND EXF_NOCOALESCE = ex_flags ex AND EXF_NOCOALESCE"
  by (simp_all add: extent_free_region_descriptor_def pool_put_def Let_def and.assoc)

lemma pool_get_map: "pool_get flags ex = (rp, ex') \<Longrightarrow> same_map ex ex'"
  by (auto simp: pool_get_def same_map_def split: if_splits)

text \<open>
  What other threads do to the extent while an operation sleeps for a descriptor keeps \<open>P\<close>: then
  so does the operation. Without \<open>EX_WAITOK\<close> it never sleeps.
\<close>

lemma fixed_descriptor_nowait:
  assumes "flags AND EX_WAITOK = 0"
  shows "\<exists>rp ex'. fixed_descriptor flags wk ex = Ok (rp, ex', wk) \<and> same_map ex ex'"
proof (cases "fex_freelist ex")
  case Nil
  then show ?thesis
    using assms pool_get_map [of flags ex]
    by (cases "pool_get flags ex") (auto simp: fixed_descriptor.simps [of flags wk ex] same_map_def)
next
  case (Cons rp rest)
  then show ?thesis by (simp add: fixed_descriptor.simps [of flags wk ex] same_map_def)
qed

lemma alloc_descriptor_nowait:
  assumes "flags AND EX_WAITOK = 0"
  shows "\<exists>rp ex'. extent_alloc_region_descriptor flags wk ex = Ok (rp, ex', wk) \<and> same_map ex ex'"
proof -
  have "(flags AND NOT EX_MALLOCOK) AND EX_WAITOK = 0" using assms by (simp add: and.assoc)
  then show ?thesis
    using assms fixed_descriptor_nowait [of flags wk ex] fixed_descriptor_nowait [of "flags AND NOT EX_MALLOCOK" wk ex]
      pool_get_map [of _ ex]
    by (cases "pool_get flags ex"; cases "pool_get (flags AND NOT EX_MALLOCOK) ex")
      (auto simp: extent_alloc_region_descriptor_def Let_def)
qed

section \<open>Insertion\<close>

lemma interval_join:
  fixes a b c d :: u32
  assumes "a \<le> b" "b + 1 = c" "b < c" "c \<le> d"
  shows "{a..b} \<union> {c..d} = {a..d}"
proof -
  have key: "x \<le> b \<or> c \<le> x" for x using assms(2) inc_le [of b x] by (metis not_le)
  have "a \<le> c" "b \<le> d" using assms by simp_all
  show ?thesis
  proof (intro set_eqI iffI)
    fix x assume "x \<in> {a..b} \<union> {c..d}"
    with \<open>a \<le> c\<close> \<open>b \<le> d\<close> show "x \<in> {a..d}" by auto
  next
    fix x assume "x \<in> {a..d}"
    with key [of x] show "x \<in> {a..b} \<union> {c..d}" by auto
  qed
qed

text \<open>The position an insertion is given: behind the \<open>pre\<close> part of the list.\<close>

definition after_pos :: "extent_region list \<Rightarrow> nat option" where
  "after_pos pre = (if pre = [] then None else Some (length pre - 1))"

text \<open>The list \<open>extent_insert_and_optimize\<close> leaves, without positions.\<close>

definition join :: "bool \<Rightarrow> extent_region list \<Rightarrow> extent_region \<Rightarrow> extent_region list \<Rightarrow> extent_region list" where
  "join coal pre new post =
     (let l = (coal \<and> pre \<noteq> [] \<and> er_end (List.last pre) + 1 = er_start new);
          r = (coal \<and> post \<noteq> [] \<and> er_end new + 1 = er_start (hd post))
      in if l \<and> r then butlast pre @ (List.last pre)\<lparr>er_end := er_end (hd post)\<rparr> # tl post
         else if l then butlast pre @ (List.last pre)\<lparr>er_end := er_end new\<rparr> # post
         else if r then pre @ (hd post)\<lparr>er_start := er_start new\<rparr> # tl post
         else pre @ new # post)"

lemma insert_regions:
  assumes "ex_regions ex = pre @ post" "0 < sz"
  shows "ex_regions (extent_insert_and_optimize start sz (after_pos pre) rp ex) =
     join (ex_flags ex AND EXF_NOCOALESCE = 0) pre (rp\<lparr>er_start := start, er_end := start + (sz - 1)\<rparr>) post"
proof (cases pre rule: rev_cases)
  case Nil
  then show ?thesis using assms
    by (auto simp: extent_insert_and_optimize_def after_pos_def join_def Let_def algebra_simps)
next
  case (snoc p a)
  then have i: "after_pos pre = Some (length p)" "pre \<noteq> []" by (auto simp: after_pos_def)
  have s: "start + (sz - 1) + 1 = start + sz" by simp
  show ?thesis
    using assms(1) unfolding i(1)
    by (cases post) (auto simp: extent_insert_and_optimize_def join_def Let_def snoc insert_at_def nth_append list_update_append s algebra_simps)
qed


lemma join_ok:
  assumes ok: "regs_ok (pre @ post)" and inn: "regs_in lo hi (pre @ post)"
    and before: "\<forall>a \<in> set pre. er_end a < er_start new" and behind: "\<forall>b \<in> set post. er_end new < er_start b"
    and new: "er_start new \<le> er_end new" "lo \<le> er_start new" "er_end new \<le> hi"
  shows "regs_ok (join coal pre new post) \<and> regs_in lo hi (join coal pre new post) \<and>
     covered (join coal pre new post) = covered (pre @ post) \<union> region_set new"
proof -
  let ?l = "coal \<and> pre \<noteq> [] \<and> er_end (List.last pre) + 1 = er_start new"
  let ?r = "coal \<and> post \<noteq> [] \<and> er_end new + 1 = er_start (hd post)"
  have o: "regs_ok pre" "regs_ok post" "\<And>a b. a \<in> set pre \<Longrightarrow> b \<in> set post \<Longrightarrow> er_end a < er_start b"
    using ok by (auto simp: regs_ok_append)
  consider (lr) "?l" "?r" | (l) "?l" "\<not> ?r" | (r) "\<not> ?l" "?r" | (n) "\<not> ?l" "\<not> ?r" by blast
  then show ?thesis
  proof cases
    case lr
    then obtain p a b q where pq: "pre = p @ [a]" "post = b # q" by (metis append_butlast_last_id list.exhaust)
    have e: "er_end a + 1 = er_start new" "er_end new + 1 = er_start b" using lr by (simp_all add: pq)
    have lt: "er_end a < er_start new" "er_end new < er_start b" "er_start a \<le> er_end a" "er_start b \<le> er_end b"
      using before behind o by (simp_all add: pq regs_ok_append regs_ok_Cons)
    have U: "{er_start a..er_end b} = region_set a \<union> region_set new \<union> region_set b"
      using interval_join [OF lt(3) e(1) lt(1) new(1)] interval_join [of "er_start a" "er_end new" "er_start b" "er_end b"]
        lt e new by (simp add: order_trans [OF lt(3)])
    show ?thesis using ok inn lr lt U
      by (auto simp: join_def pq regs_ok_append regs_ok_Cons)
  next
    case l
    then obtain p a where p: "pre = p @ [a]" by (metis append_butlast_last_id)
    have e: "er_end a + 1 = er_start new" using l by (simp add: p)
    have lt: "er_end a < er_start new" "er_start a \<le> er_end a" using before o by (simp_all add: p regs_ok_append regs_ok_Cons)
    have U: "{er_start a..er_end new} = region_set a \<union> region_set new" using interval_join [OF lt(2) e lt(1) new(1)] by simp
    have "er_start a \<le> er_end new" using lt new by simp
    then show ?thesis using ok inn l lt U behind new
      by (auto simp: join_def p regs_ok_append regs_ok_Cons)
  next
    case r
    then obtain b q where q: "post = b # q" by (cases post) auto
    have e: "er_end new + 1 = er_start b" using r by (simp add: q)
    have lt: "er_end new < er_start b" "er_start b \<le> er_end b" using behind o by (simp_all add: q regs_ok_Cons)
    have U: "{er_start new..er_end b} = region_set new \<union> region_set b" using interval_join [OF new(1) e lt(1,2)] by simp
    have "er_start new \<le> er_end b" using lt new by simp
    then show ?thesis using ok inn r lt U before new
      by (auto simp: join_def q regs_ok_append regs_ok_Cons)
  next
    case n
    then have "join coal pre new post = pre @ new # post" by (auto simp: join_def Let_def)
    then show ?thesis using ok inn before behind new by (auto simp: regs_ok_append regs_ok_Cons)
  qed
qed


lemma join_mem: "\<exists>r \<in> set (join coal pre new post). er_start r \<le> er_start new \<and> er_end new \<le> er_end r"
  if "regs_ok (pre @ post)" "\<forall>a \<in> set pre. er_end a < er_start new" "\<forall>b \<in> set post. er_end new < er_start b"
proof -
  have l: "er_start (List.last pre) \<le> er_start new" if "pre \<noteq> []"
    using last_in_set [OF that] \<open>regs_ok (pre @ post)\<close> \<open>\<forall>a \<in> set pre. er_end a < er_start new\<close>
    by (meson order_trans less_imp_le regs_okD regs_ok_append)
  have r: "er_end new \<le> er_end (hd post)" if "post \<noteq> []"
    using hd_in_set [OF that] \<open>regs_ok (pre @ post)\<close> \<open>\<forall>b \<in> set post. er_end new < er_start b\<close>
    by (meson order_trans less_imp_le regs_okD regs_ok_append)
  show ?thesis using l r by (auto simp: join_def Let_def)
qed

lemma join_exact: "new \<in> set (join False pre new post)"
  by (simp add: join_def)

text \<open>Inserting a region that overlaps nothing, at its place.\<close>

lemma insert_ok:
  fixes rp :: extent_region
  assumes ok: "ex_ok ex" and regs: "ex_regions ex = pre @ post" and sz: "0 < sz" "start \<le> start + (sz - 1)"
    and rng: "ex_start ex \<le> start" "start + (sz - 1) \<le> ex_end ex"
    and pre: "\<forall>a \<in> set pre. er_end a < start" and post: "\<forall>b \<in> set post. start + (sz - 1) < er_start b"
  defines "ex' \<equiv> extent_insert_and_optimize start sz (after_pos pre) rp ex"
  shows "ex_ok ex' \<and> allocated ex' = allocated ex \<union> {start..start + (sz - 1)} \<and> ex_start ex' = ex_start ex \<and>
    ex_end ex' = ex_end ex \<and> ex_flags ex' AND EXF_NOCOALESCE = ex_flags ex AND EXF_NOCOALESCE \<and>
    (\<exists>r \<in> set (ex_regions ex'). er_start r \<le> start \<and> start + (sz - 1) \<le> er_end r \<and>
       (ex_flags ex AND EXF_NOCOALESCE \<noteq> 0 \<longrightarrow> er_start r = start \<and> er_end r = start + (sz - 1)))"
proof -
  let ?new = "rp\<lparr>er_start := start, er_end := start + (sz - 1)\<rparr>" and ?c = "ex_flags ex AND EXF_NOCOALESCE = 0"
  have r: "ex_regions ex' = join ?c pre ?new post" unfolding ex'_def by (rule insert_regions [OF regs sz(1)])
  have f: "ex_start ex' = ex_start ex" "ex_end ex' = ex_end ex" "ex_flags ex' AND EXF_NOCOALESCE = ex_flags ex AND EXF_NOCOALESCE"
    by (simp_all add: ex'_def extent_insert_and_optimize_def Let_def split: option.splits)
  have j: "regs_ok (join ?c pre ?new post) \<and> regs_in (ex_start ex) (ex_end ex) (join ?c pre ?new post) \<and>
     covered (join ?c pre ?new post) = covered (pre @ post) \<union> region_set ?new"
    using ok sz rng pre post by (intro join_ok) (simp_all add: ex_ok_def regs)
  have m: "\<exists>r \<in> set (join ?c pre ?new post). er_start r \<le> start \<and> start + (sz - 1) \<le> er_end r"
    using join_mem [of pre post ?new ?c] ok pre post by (simp add: ex_ok_def regs)
  have x: "?new \<in> set (join ?c pre ?new post)" if "ex_flags ex AND EXF_NOCOALESCE \<noteq> 0" using that join_exact by simp
  have "\<exists>r \<in> set (ex_regions ex'). er_start r \<le> start \<and> start + (sz - 1) \<le> er_end r \<and>
       (ex_flags ex AND EXF_NOCOALESCE \<noteq> 0 \<longrightarrow> er_start r = start \<and> er_end r = start + (sz - 1))"
  proof (cases ?c)
    case True
    with m show ?thesis by (auto simp: r)
  next
    case False
    with x show ?thesis by (intro bexI [of _ ?new]) (auto simp: r)
  qed
  then show ?thesis using j f by (simp add: ex_ok_def allocated_def r regs)
qed

section \<open>Allocating a given region\<close>

lemma after_pos_Nil: "after_pos [] = None"
  by (simp add: after_pos_def)

lemma after_pos_snoc: "after_pos (pre @ [r]) = Some (length pre)"
  by (simp add: after_pos_def)

lemma region_conflict_spec:
  assumes "regs_ok (pre @ rest)" "\<forall>a \<in> set pre. er_end a < start" "start \<le> end"
  shows "case region_conflict start end (length pre) (after_pos pre) rest of
      Inl _ \<Rightarrow> \<exists>r \<in> set rest. region_set r \<inter> {start..end} \<noteq> {}
    | Inr lst \<Rightarrow> \<exists>p q. rest = p @ q \<and> lst = after_pos (pre @ p) \<and> (\<forall>a \<in> set (pre @ p). er_end a < start) \<and>
                      (\<forall>b \<in> set q. end < er_start b)"
  using assms
proof (induction rest arbitrary: pre)
  case Nil
  then show ?case by auto
next
  case (Cons rp rest)
  have ok: "er_start rp \<le> er_end rp" "\<forall>x \<in> set rest. er_end rp < er_start x"
    using Cons.prems(1) by (simp_all add: regs_ok_append regs_ok_Cons)
  consider (stop) "end < er_start rp" | (hit) "er_start rp \<le> end" "start \<le> er_end rp" | (go) "er_start rp \<le> end" "er_end rp < start"
    by fastforce
  then show ?case
  proof cases
    case stop
    then have "\<forall>b \<in> set (rp # rest). end < er_start b" using ok by (auto intro: less_trans less_le_trans)
    then show ?thesis using Cons.prems(2)
      unfolding region_conflict.simps if_P [OF stop] sum.case by (intro exI [of _ "[]"] exI [of _ "rp # rest"]) simp
  next
    case hit
    have "max (er_start rp) start \<in> region_set rp \<inter> {start..end}" using hit ok(1) Cons.prems(3) by (auto simp: max_def)
    then show ?thesis using hit by (auto simp: not_less)
  next
    case go
    have 1: "regs_ok ((pre @ [rp]) @ rest)" "\<forall>a \<in> set (pre @ [rp]). er_end a < start" using Cons.prems go by simp_all
    have 2: "region_conflict start end (length pre) (after_pos pre) (rp # rest) =
        region_conflict start end (length (pre @ [rp])) (after_pos (pre @ [rp])) rest"
      using go by (auto simp: after_pos_snoc dest: leD)
    show ?thesis
    proof (cases "region_conflict start end (length (pre @ [rp])) (after_pos (pre @ [rp])) rest")
      case (Inl u)
      then show ?thesis using Cons.IH [OF 1 Cons.prems(3)] unfolding 2 by auto
    next
      case (Inr lst)
      then obtain p q where "rest = p @ q" "lst = after_pos ((pre @ [rp]) @ p)"
        "\<forall>a \<in> set ((pre @ [rp]) @ p). er_end a < start" "\<forall>b \<in> set q. end < er_start b"
        using Cons.IH [OF 1 Cons.prems(3)] by auto
      then show ?thesis unfolding 2 Inr sum.case by (intro exI [of _ "rp # p"] exI [of _ q]) auto
    qed
  qed
qed


text \<open>One attempt to place the region: what \<open>extent_alloc_region\<close> does between two sleeps.\<close>

lemma place_region:
  assumes ok: "ex_ok ex" and sz: "0 < sz" "start \<le> start + (sz - 1)"
    and rng: "ex_start ex \<le> start" "start + (sz - 1) \<le> ex_end ex"
  shows "case region_conflict start (start + (sz - 1)) 0 None (ex_regions ex) of
      Inl _ \<Rightarrow> allocated ex \<inter> {start..start + (sz - 1)} \<noteq> {}
    | Inr lst \<Rightarrow> allocated ex \<inter> {start..start + (sz - 1)} = {} \<and>
        (\<exists>p q. ex_regions ex = p @ q \<and> lst = after_pos p \<and> (\<forall>a \<in> set p. er_end a < start) \<and>
               (\<forall>b \<in> set q. start + (sz - 1) < er_start b))"
proof -
  let ?en = "start + (sz - 1)"
  have "regs_ok ([] @ ex_regions ex)" using ok by (simp add: ex_ok_def)
  from region_conflict_spec [OF this _ sz(2), unfolded append_Nil list.size(3) after_pos_Nil] have
    c: "case region_conflict start ?en 0 None (ex_regions ex) of
      Inl _ \<Rightarrow> \<exists>r \<in> set (ex_regions ex). region_set r \<inter> {start..?en} \<noteq> {}
    | Inr lst \<Rightarrow> \<exists>p q. ex_regions ex = p @ q \<and> lst = after_pos p \<and> (\<forall>a \<in> set p. er_end a < start) \<and>
                      (\<forall>b \<in> set q. ?en < er_start b)"
    by simp
  show ?thesis
  proof (cases "region_conflict start ?en 0 None (ex_regions ex)")
    case (Inl u)
    have "\<exists>r \<in> set (ex_regions ex). region_set r \<inter> {start..?en} \<noteq> {}" using c unfolding Inl sum.case .
    then obtain r x where "r \<in> set (ex_regions ex)" "x \<in> region_set r" "x \<in> {start..?en}" by blast
    then have "x \<in> allocated ex \<inter> {start..?en}" unfolding allocated_def covered_def by blast
    then show ?thesis using Inl by auto
  next
    case (Inr lst)
    then obtain p q where pq: "ex_regions ex = p @ q" "lst = after_pos p" "\<forall>a \<in> set p. er_end a < start"
      "\<forall>b \<in> set q. ?en < er_start b" using c by auto
    have "x \<notin> region_set r" if "r \<in> set p \<or> r \<in> set q" "x \<in> {start..?en}" for r x
      using that pq(3,4) by force
    then have "allocated ex \<inter> {start..?en} = {}" unfolding allocated_def covered_def pq(1) set_append by blast
    then show ?thesis using Inr pq by auto
  qed
qed

lemma alloc_region_start_nowait:
  assumes ok: "ex_ok ex" and sz: "0 < sz" "start \<le> start + (sz - 1)"
    and rng: "ex_start ex \<le> start" "start + (sz - 1) \<le> ex_end ex" and nw: "flags AND EX_WAITSPACE = 0"
  shows "\<exists>err ex'. alloc_region_start start sz flags myrp wk ex = Ok (err, ex') \<and> ex_ok ex' \<and>
     ex_start ex' = ex_start ex \<and> ex_end ex' = ex_end ex \<and>
     (if allocated ex \<inter> {start..start + (sz - 1)} = {}
      then err = 0 \<and> allocated ex' = allocated ex \<union> {start..start + (sz - 1)} \<and>
        (\<exists>r \<in> set (ex_regions ex'). er_start r \<le> start \<and> start + (sz - 1) \<le> er_end r \<and>
           (ex_flags ex' AND EXF_NOCOALESCE \<noteq> 0 \<longrightarrow> er_start r = start \<and> er_end r = start + (sz - 1)))
      else err = EAGAIN \<and> allocated ex' = allocated ex)"
proof -
  note p = place_region [OF ok sz rng]
  show ?thesis
  proof (cases "region_conflict start (start + (sz - 1)) 0 None (ex_regions ex)")
    case (Inl u)
    then have "alloc_region_start start sz flags myrp wk ex = Ok (EAGAIN, extent_free_region_descriptor myrp ex)"
      using nw by (simp add: alloc_region_start.simps [of start])
    then show ?thesis using p Inl ok by (auto simp: ex_ok_def allocated_def)
  next
    case (Inr lst)
    then obtain pr po where q: "ex_regions ex = pr @ po" "lst = after_pos pr" "\<forall>a \<in> set pr. er_end a < start"
      "\<forall>b \<in> set po. start + (sz - 1) < er_start b" "allocated ex \<inter> {start..start + (sz - 1)} = {}" using p by auto
    have "alloc_region_start start sz flags myrp wk ex = Ok (0, extent_insert_and_optimize start sz (after_pos pr) myrp ex)"
      using Inr q(2) by (simp add: alloc_region_start.simps [of start])
    then show ?thesis using insert_ok [OF ok q(1) sz rng q(3,4), of myrp] q(5) by auto
  qed
qed

text \<open>With sleeps: other threads keep the extent consistent and its bounds.\<close>

definition fair :: "(extent \<Rightarrow> extent) \<Rightarrow> bool" where
  "fair f \<longleftrightarrow> (\<forall>ex. ex_ok ex \<longrightarrow> ex_ok (f ex) \<and> ex_start (f ex) = ex_start ex \<and> ex_end (f ex) = ex_end ex)"

lemma alloc_region_start_wait:
  assumes "ex_ok ex" "0 < sz" "start \<le> start + (sz - 1)" "ex_start ex \<le> start" "start + (sz - 1) \<le> ex_end ex"
    and "\<forall>w \<in> set wk. fair (snd w)" "alloc_region_start start sz flags myrp wk ex = Ok (err, ex')"
  shows "ex_ok ex' \<and> ex_start ex' = ex_start ex \<and> ex_end ex' = ex_end ex \<and>
     (err = 0 \<longrightarrow> {start..start + (sz - 1)} \<subseteq> allocated ex')"
  using assms
proof (induction wk arbitrary: ex)
  case Nil
  show ?case
  proof (cases "flags AND EX_WAITSPACE = 0 \<or> (\<exists>l. region_conflict start (start + (sz - 1)) 0 None (ex_regions ex) = Inr l)")
    case True
    then have "alloc_region_start start sz flags myrp [] ex = alloc_region_start start sz 0 myrp [] ex"
      by (auto simp: alloc_region_start.simps [of start] split: sum.splits)
    with alloc_region_start_nowait [OF Nil.prems(1-5), of 0 myrp "[]"] Nil.prems(7) show ?thesis
      by (auto split: if_splits)
  next
    case False
    then show ?thesis using Nil.prems(7) by (auto simp: alloc_region_start.simps [of start] split: sum.splits)
  qed
next
  case (Cons w wk)
  obtain e f where w: "w = (e, f)" by (cases w)
  have f: "ex_ok (f ex)" "ex_start (f ex) = ex_start ex" "ex_end (f ex) = ex_end ex"
    using Cons.prems(1,6) by (auto simp: w fair_def)
  show ?case
  proof (cases "flags AND EX_WAITSPACE = 0 \<or> (\<exists>l. region_conflict start (start + (sz - 1)) 0 None (ex_regions ex) = Inr l)")
    case True
    then have "alloc_region_start start sz flags myrp (w # wk) ex = alloc_region_start start sz 0 myrp [] ex"
      by (auto simp: alloc_region_start.simps [of start] split: sum.splits)
    with alloc_region_start_nowait [OF Cons.prems(1-5), of 0 myrp "[]"] Cons.prems(7) show ?thesis
      by (auto split: if_splits)
  next
    case False
    then have "alloc_region_start start sz flags myrp (w # wk) ex =
        (let error = (if flags AND EX_CATCH \<noteq> 0 then e else 0) in
         if error = 0 then alloc_region_start start sz flags myrp wk (f ex)
         else Ok (error, extent_free_region_descriptor myrp (f ex)))"
      unfolding w by (auto simp: alloc_region_start.simps [of start sz flags myrp "(e, f) # wk"] Let_def split: sum.splits)
    with Cons.prems Cons.IH [OF f(1)] f show ?thesis
      by (auto simp: Let_def ex_ok_def split: if_splits)
  qed
qed


section \<open>Freeing\<close>

lemma interval_minus:
  fixes a b s e :: u32
  assumes "a \<le> s" "s \<le> e" "e \<le> b"
  shows "e < b \<Longrightarrow> s = a \<Longrightarrow> {a..b} - {s..e} = {e + 1..b}"
    "a < s \<Longrightarrow> e = b \<Longrightarrow> {a..b} - {s..e} = {a..s - 1}"
    "a < s \<Longrightarrow> e < b \<Longrightarrow> {a..b} - {s..e} = {a..s - 1} \<union> {e + 1..b}"
    "e < b \<Longrightarrow> e < e + 1" "a < s \<Longrightarrow> s - 1 < s \<and> a \<le> s - 1"
proof -
  have up: "e < x \<longleftrightarrow> e + 1 \<le> x" if "e < b" for x
  proof -
    have "e \<noteq> - 1" using that by auto
    then show ?thesis using inc_less_eq_iff [of e x] by blast
  qed
  have down: "x < s \<longleftrightarrow> x \<le> s - 1" if "a < s" for x
  proof -
    have "s \<noteq> 0" using that by auto
    then have "unat (s - 1) = unat s - 1" "0 < unat s" by (simp_all add: unat_minus_one unat_gt_0)
    then show ?thesis unfolding word_less_nat_alt word_le_nat_alt by linarith
  qed
  show "e < e + 1" if "e < b" using up [OF that] by blast
  show "s - 1 < s \<and> a \<le> s - 1" if "a < s" using down [OF that] that by blast
  have mem: "x \<in> {a..b} - {s..e} \<longleftrightarrow> (a \<le> x \<and> x < s) \<or> (e < x \<and> x \<le> b)" for x
    using assms unfolding Diff_iff atLeastAtMost_iff word_le_nat_alt word_less_nat_alt by auto
  show "{a..b} - {s..e} = {e + 1..b}" if "e < b" "s = a"
  proof (rule set_eqI)
    show "x \<in> {a..b} - {s..e} \<longleftrightarrow> x \<in> {e + 1..b}" for x
      unfolding mem atLeastAtMost_iff up [OF that(1), symmetric] using that(2) assms by (auto intro: order_trans)
  qed
  show "{a..b} - {s..e} = {a..s - 1}" if "a < s" "e = b"
  proof (rule set_eqI)
    show "x \<in> {a..b} - {s..e} \<longleftrightarrow> x \<in> {a..s - 1}" for x
      unfolding mem atLeastAtMost_iff down [OF that(1), symmetric] using that(2) by auto
  qed
  show "{a..b} - {s..e} = {a..s - 1} \<union> {e + 1..b}" if "a < s" "e < b"
  proof (rule set_eqI)
    show "x \<in> {a..b} - {s..e} \<longleftrightarrow> x \<in> {a..s - 1} \<union> {e + 1..b}" for x
      unfolding mem Un_iff atLeastAtMost_iff down [OF that(1), symmetric] up [OF that(2), symmetric] by blast
  qed
qed

text \<open>
  The loop of \<open>extent_free\<close> on a consistent list: it succeeds exactly when some region contains
  the range (equals it, without coalescing), and takes the range out.
\<close>

definition contains :: "bool \<Rightarrow> u32 \<Rightarrow> u32 \<Rightarrow> extent_region \<Rightarrow> bool" where
  "contains coal start end r \<longleftrightarrow>
     (if coal then er_start r \<le> start \<and> end \<le> er_end r else er_start r = start \<and> er_end r = end)"

lemma free_head:
  assumes ok: "regs_ok (rp # rest)" and se: "start \<le> end" and c: "contains (nrp \<noteq> None) start end rp"
  shows "\<exists>regs freed used. free_loop start end nrp (rp # rest) = Some (regs, freed, used) \<and> regs_ok regs \<and>
     covered regs = covered (rp # rest) - {start..end} \<and> (regs_in lo hi (rp # rest) \<longrightarrow> regs_in lo hi regs) \<and>
     (\<forall>x \<in> set regs. er_start rp \<le> er_start x)"
proof -
  have o: "er_start rp \<le> er_end rp" "\<forall>x \<in> set rest. er_end rp < er_start x" "regs_ok rest"
    using ok by (simp_all add: regs_ok_Cons)
  have se': "er_start rp \<le> start" "end \<le> er_end rp" using c by (auto simp: contains_def split: if_splits)
  have rest: "covered rest - {start..end} = covered rest"
  proof -
    have "x \<notin> {start..end}" if "x \<in> covered rest" for x
      using that o(2) se'(2) by (force simp: covered_def)
    then show ?thesis by blast
  qed
  have after: "er_start rp \<le> er_start x" if "x \<in> set rest" for x
    using o that by (meson less_imp_le order_trans)
  note im = interval_minus [OF se'(1) se se'(2)]
  have ne: "\<not> er_end rp < start" "\<not> end < er_start rp" using se se' by auto
  show ?thesis
  proof (cases "start = er_start rp \<and> end = er_end rp")
    case True
    then show ?thesis using o ne rest after by (auto simp: Un_Diff)
  next
    case False
    then obtain d where d: "nrp = Some d" using c by (cases nrp) (auto simp: contains_def)
    consider (lo) "start = er_start rp" "end < er_end rp" | (hi) "er_start rp < start" "end = er_end rp"
      | (mid) "er_start rp < start" "end < er_end rp" using False se' by fastforce
    then show ?thesis
    proof cases
      case lo
      have "free_loop start end nrp (rp # rest) = Some (rp\<lparr>er_start := end + 1\<rparr> # rest, None, False)"
        using lo d ne by (auto simp: Let_def)
      moreover have "end + 1 \<le> er_end rp" using im(4) [OF lo(2)] inc_le [OF lo(2)] by simp
      moreover have "er_start rp \<le> end + 1" using im(4) [OF lo(2)] se lo(1) by (meson less_imp_le order_trans)
      ultimately show ?thesis using o im(1) [OF lo(2,1)] rest after by (auto simp: regs_ok_Cons Un_Diff)
    next
      case hi
      have "free_loop start end nrp (rp # rest) = Some (rp\<lparr>er_end := start - 1\<rparr> # rest, None, False)"
        using hi d ne by (auto simp: Let_def)
      moreover have "er_start rp \<le> start - 1" "start - 1 < er_end rp" using im(5) [OF hi(1)] se hi(2) by auto
      ultimately show ?thesis using o im(2) [OF hi] rest after by (auto simp: regs_ok_Cons Un_Diff intro: less_trans)
    next
      case mid
      have "free_loop start end nrp (rp # rest) =
          Some (rp\<lparr>er_end := start - 1\<rparr> # d\<lparr>er_start := end + 1, er_end := er_end rp\<rparr> # rest, None, True)"
        using mid d ne by (auto simp: Let_def)
      moreover have s: "er_start rp \<le> start - 1" "start - 1 < start" using im(5) [OF mid(1)] by auto
      moreover have e: "end < end + 1" "end + 1 \<le> er_end rp" using im(4) [OF mid(2)] inc_le [OF mid(2)] by auto
      moreover have "start - 1 < end + 1" "start - 1 < er_end rp" "er_start rp \<le> end + 1"
        using s e se se' by (meson le_less_trans less_le_trans less_imp_le order_trans)+
      ultimately show ?thesis using o im(3) [OF mid] rest after by (auto simp: regs_ok_Cons Un_Diff intro: less_trans)
    qed
  qed
qed


lemma free_loop_spec:
  assumes "regs_ok regs" "start \<le> end" "regs_in lo hi regs"
  shows "if \<exists>r \<in> set regs. contains (nrp \<noteq> None) start end r
    then \<exists>regs' freed used. free_loop start end nrp regs = Some (regs', freed, used) \<and> regs_ok regs' \<and>
      covered regs' = covered regs - {start..end} \<and> regs_in lo hi regs' \<and>
      (\<forall>x \<in> set regs'. \<forall>y. (\<forall>r \<in> set regs. y < er_start r) \<longrightarrow> y < er_start x)
    else free_loop start end nrp regs = None"
  using assms
proof (induction regs)
  case Nil
  then show ?case by simp
next
  case (Cons rp rest)
  have o: "er_start rp \<le> er_end rp" "\<forall>x \<in> set rest. er_end rp < er_start x" "regs_ok rest" "regs_in lo hi rest"
    using Cons.prems by (simp_all add: regs_ok_Cons)
  show ?case
  proof (cases "contains (nrp \<noteq> None) start end rp")
    case True
    from free_head [OF Cons.prems(1,2) True, of lo hi] obtain regs freed used where
      f: "free_loop start end nrp (rp # rest) = Some (regs, freed, used)" "regs_ok regs"
        "covered regs = covered (rp # rest) - {start..end}" "regs_in lo hi (rp # rest) \<longrightarrow> regs_in lo hi regs"
        "\<forall>x \<in> set regs. er_start rp \<le> er_start x" by blast
    then have "\<forall>x \<in> set regs. \<forall>y. (\<forall>r \<in> set (rp # rest). y < er_start r) \<longrightarrow> y < er_start x"
      by (auto intro: less_le_trans)
    with f True Cons.prems(3) show ?thesis by auto
  next
    case False
    have nohit: "er_end rp < start" if "r \<in> set rest" "contains (nrp \<noteq> None) start end r" for r
      using that o(2) by (auto simp: contains_def split: if_splits intro: less_le_trans)
    have step: "free_loop start end nrp (rp # rest) = None \<and> (\<forall>r \<in> set rest. \<not> contains (nrp \<noteq> None) start end r) \<or>
        free_loop start end nrp (rp # rest) = map_option (\<lambda>(l, r, u). (rp # l, r, u)) (free_loop start end nrp rest)"
    proof (cases "er_end rp < start")
      case True
      then show ?thesis by (simp add: Let_def)
    next
      case nlt: False
      then have n: "\<forall>r \<in> set rest. \<not> contains (nrp \<noteq> None) start end r" using nohit by blast
      show ?thesis using n nlt False Cons.prems(2) by (auto simp: Let_def contains_def split: option.splits if_splits)
    qed
    have disj: "region_set rp - {start..end} = region_set rp" if "er_end rp < start" using that by (auto simp: not_le)
    show ?thesis
    proof (cases "\<exists>r \<in> set rest. contains (nrp \<noteq> None) start end r")
      case True
      then have lt: "er_end rp < start" using nohit by blast
      obtain regs' freed used where f: "free_loop start end nrp rest = Some (regs', freed, used)" "regs_ok regs'"
        "covered regs' = covered rest - {start..end}" "regs_in lo hi regs'"
        "\<forall>x \<in> set regs'. \<forall>y. (\<forall>r \<in> set rest. y < er_start r) \<longrightarrow> y < er_start x"
        using Cons.IH [OF o(3) Cons.prems(2) o(4)] True by auto
      have "free_loop start end nrp (rp # rest) = Some (rp # regs', freed, used)" using lt f(1) by simp
      moreover have "regs_ok (rp # regs')" using o f(2,5) by (auto simp: regs_ok_Cons)
      moreover have "covered (rp # regs') = covered (rp # rest) - {start..end}" using f(3) disj [OF lt] by auto
      moreover have "regs_in lo hi (rp # regs')" using f(4) Cons.prems(3) by simp
      moreover have "\<forall>x \<in> set (rp # regs'). \<forall>y. (\<forall>r \<in> set (rp # rest). y < er_start r) \<longrightarrow> y < er_start x" using f(5) by auto
      ultimately show ?thesis using True by simp
    next
      case none: False
      then have "free_loop start end nrp rest = None" using Cons.IH [OF o(3) Cons.prems(2) o(4)] by auto
      with step have "free_loop start end nrp (rp # rest) = None"
        by (elim disjE conjE) (assumption, simp only: option.map(1))
      then show ?thesis using none False by simp
    qed
  qed
qed

end
