(* ===== verification/Extent_Search.thy ===== *)
theory Extent_Search
  imports Extent_Inv
begin

text \<open>
  The search of \<open>extent_alloc_subregion1\<close>. \<open>EXTENT_ALIGN\<close> is the least aligned number from its
  argument on. Every place the search returns is free, in the subregion and (without a boundary)
  aligned; and without a boundary it finds a place whenever there is one.
\<close>

section \<open>Alignment\<close>

lemma unat_pow2: "k < 32 \<Longrightarrow> unat (2 ^ k :: u32) = 2 ^ k"
proof -
  assume "k < 32"
  then have "(2 :: nat) ^ k < 2 ^ 32" by (intro power_strict_increasing) simp_all
  moreover have "(2 :: u32) ^ k = word_of_nat (2 ^ k)" by simp
  ultimately show ?thesis by (simp only: unat_of_nat) simp
qed

text \<open>
  \<open>EXTENT_ALIGN\<close> with a power of two, where rounding up does not leave the 32-bit range: the least
  number from \<open>x\<close> on that is \<open>skew\<close> modulo the alignment.
\<close>

lemma extent_align:
  fixes skew :: u32
  assumes k: "k < 32" and a: "a = (2 :: u32) ^ k" and nw: "unat x + unat a \<le> 2 ^ 32"
  defines "r \<equiv> EXTENT_ALIGN x a skew"
  shows "x \<le> r" "unat r < unat x + unat a" "(r - skew) AND (a - 1) = 0"
    "\<And>y. x \<le> y \<Longrightarrow> (y - skew) AND (a - 1) = 0 \<Longrightarrow> r \<le> y"
proof -
  have m: "a - 1 = mask k" by (simp add: a mask_eq_exp_minus_1)
  have neg: "- a = NOT (mask k)" by (simp add: m [symmetric] not_eq_complement)
  define d where "d = (x - skew) + mask k"
  have r: "r = x + (mask k - (d AND mask k))"
    by (simp add: r_def EXTENT_ALIGN_def m neg minus_mask d_def algebra_simps)
  have ua: "unat a = 2 ^ k" unfolding a by (rule unat_pow2 [OF k])
  have "a \<noteq> 0" using ua by (metis power_not_zero unat_0 zero_neq_numeral)
  then have um: "unat (mask k :: u32) = 2 ^ k - 1" unfolding m [symmetric] by (simp add: unat_minus_one ua)
  have ud: "unat (d AND mask k) < 2 ^ k" unfolding unat_and_mask by simp
  have ug: "unat (mask k - (d AND mask k)) = (2 ^ k - 1) - unat (d AND mask k)"
    using ud um by (simp add: unat_sub_if_size)
  have ur: "unat r = unat x + ((2 ^ k - 1) - unat (d AND mask k))"
    using nw ug ua ud unfolding r by (simp add: unat_word_ariths)
  show "x \<le> r" by (simp add: word_le_nat_alt ur)
  show "unat r < unat x + unat a" unfolding ur ua using ud by linarith
  show al: "(r - skew) AND (a - 1) = 0"
  proof -
    have "r - skew = d AND NOT (mask k)" by (simp add: r minus_mask d_def algebra_simps)
    then show ?thesis by (simp add: m and.assoc)
  qed
  fix y assume y: "x \<le> y" "(y - skew) AND (a - 1) = 0"
  show "r \<le> y"
  proof (rule ccontr)
    assume "\<not> r \<le> y"
    then have lt: "unat y < unat r" by (simp add: word_le_nat_alt)
    have mult: "\<exists>q. z = q * 2 ^ k" if "z AND mask k = 0" for z :: u32
    proof -
      have "z = push_bit k (drop_bit k z)" using minus_mask [of z k] that by (simp add: and_not_mask_eq)
      then show ?thesis by (metis push_bit_eq_mult)
    qed
    obtain q q' where "r - skew = q * 2 ^ k" "y - skew = q' * 2 ^ k" using mult al y(2) unfolding m by metis
    then have "r - y = push_bit k (q - q')" by (simp add: push_bit_eq_mult algebra_simps)
    then have "(r - y) AND mask k = 0" by (auto simp: bit_eq_iff bit_simps)
    then have "unat ((r - y) AND mask k) = 0" by simp
    then have z: "unat (r - y) mod 2 ^ k = 0" unfolding unat_and_mask .
    have "unat (r - y) = unat r - unat y" using lt by (simp add: unat_sub_if_size)
    moreover have "unat x \<le> unat y" using y(1) by (simp add: word_le_nat_alt)
    ultimately have "0 < unat (r - y)" "unat (r - y) < 2 ^ k" using lt ur by linarith+
    with z show False by simp
  qed
qed


section \<open>The search of a place\<close>

lemma LE_OV_iff: "LE_OV x y z \<longleftrightarrow> unat x + unat y \<le> unat z"
proof -
  have b: "unat z < 4294967296" by (rule unat_bound32)
  have o: "x \<le> x + y \<longleftrightarrow> unat x + unat y < 4294967296"
    using no_plus_overflow_unat_size [of x y] by (simp add: word_size)
  show ?thesis
  proof (cases "x \<le> x + y")
    case True
    then have "unat (x + y) = unat x + unat y" using o by (simp add: unat_word_ariths)
    then show ?thesis using True by (simp add: LE_OV_def word_le_nat_alt)
  next
    case False
    then show ?thesis using o b by (simp add: LE_OV_def)
  qed
qed

text \<open>\<open>ns\<close> with position \<open>lst\<close> is a free place for \<open>sz\<close> numbers in the subregion.\<close>

definition placed :: "extent \<Rightarrow> u32 \<Rightarrow> u32 \<Rightarrow> u32 \<Rightarrow> u32 \<Rightarrow> nat option \<Rightarrow> bool" where
  "placed ex substart subend sz ns lst \<longleftrightarrow>
     (\<exists>p q. ex_regions ex = p @ q \<and> lst = after_pos p \<and> (\<forall>a \<in> set p. er_end a < ns) \<and>
        (\<forall>b \<in> set q. unat ns + unat sz \<le> unat (er_start b))) \<and>
     substart \<le> ns \<and> unat ns + unat sz \<le> unat subend + 1"

text \<open>The arguments the search is specified for; no rounding leaves the 32-bit range.\<close>

definition search_args :: "u32 \<Rightarrow> u32 \<Rightarrow> u32 \<Rightarrow> u32 \<Rightarrow> u32 \<Rightarrow> extent \<Rightarrow> bool" where
  "search_args substart subend sz alignment boundary ex \<longleftrightarrow> ex_ok ex \<and> 0 < sz \<and>
     ex_start ex \<le> substart \<and> substart \<le> ex_end ex \<and> subend \<le> ex_end ex \<and>
     (\<exists>k < 32. alignment = 2 ^ k) \<and> unat (ex_end ex) + unat alignment < 2 ^ 32 \<and>
     (boundary = 0 \<or> (\<exists>k < 32. boundary = 2 ^ k) \<and> unat (ex_end ex) + unat boundary < 2 ^ 32)"

definition best_ok :: "extent \<Rightarrow> u32 \<Rightarrow> u32 \<Rightarrow> u32 \<Rightarrow> best \<Rightarrow> bool" where
  "best_ok ex substart subend sz best \<longleftrightarrow>
     (fst best \<noteq> 0 \<longrightarrow> placed ex substart subend sz (fst (snd best)) (snd (snd best)))"

lemma better_ok: "best_ok ex a b sz best \<Longrightarrow> placed ex a b sz ns lst \<Longrightarrow> best_ok ex a b sz (better ovh ns lst best)"
  by (auto simp: best_ok_def better_def)

lemma boundary_check_ok:
  assumes args: "search_args substart subend sz alignment boundary ex"
    and fits: "fits newstart" "\<And>x. fits x \<Longrightarrow> x \<le> ex_end ex"
    and r: "boundary_check ex flags sz boundary fits newstart = BOk ns"
  shows "newstart \<le> ns \<and> fits ns"
proof (cases "ns = newstart")
  case True
  then show ?thesis using fits by simp
next
  case False
  then have b0: "boundary \<noteq> 0" using r by (auto simp: boundary_check_def)
  let ?skew = "if flags AND EX_BOUNDZERO \<noteq> 0 then 0 else ex_start ex"
  have ns: "ns = EXTENT_ALIGN (newstart + 1) boundary ?skew" "fits ns"
    using r False b0 by (auto simp: boundary_check_def Let_def split: if_splits)
  obtain k where k: "k < 32" "boundary = 2 ^ k" "unat (ex_end ex) + unat boundary < 2 ^ 32"
    using args b0 by (auto simp: search_args_def)
  have nw: "unat newstart \<le> unat (ex_end ex)" using fits by (simp add: word_le_nat_alt)
  have "1 \<le> unat boundary" unfolding k(2) unat_pow2 [OF k(1)] by simp
  then have u: "unat (newstart + 1) = unat newstart + 1" using nw k(3) by (simp add: unat_word_ariths)
  have "unat (newstart + 1) + unat boundary \<le> 2 ^ 32" using nw k(3) u by simp
  from extent_align(1) [OF k(1,2) this, of ?skew] u have "newstart \<le> ns" unfolding ns(1) by (simp add: word_le_nat_alt)
  then show ?thesis using ns(2) by simp
qed

lemma align_after:
  assumes args: "search_args substart subend sz alignment boundary ex" and "x \<le> ex_end ex"
  shows "unat (x + 1) = unat x + 1" "x < EXTENT_ALIGN (x + 1) alignment skew"
    "(EXTENT_ALIGN (x + 1) alignment skew - skew) AND (alignment - 1) = 0"
    "\<And>y. x < y \<Longrightarrow> (y - skew) AND (alignment - 1) = 0 \<Longrightarrow> EXTENT_ALIGN (x + 1) alignment skew \<le> y"
proof -
  obtain k where k: "k < 32" "alignment = 2 ^ k" "unat (ex_end ex) + unat alignment < 2 ^ 32"
    using args by (auto simp: search_args_def)
  have le: "unat x \<le> unat (ex_end ex)" using assms(2) by (simp add: word_le_nat_alt)
  have "1 \<le> unat alignment" unfolding k(2) unat_pow2 [OF k(1)] by simp
  then show u: "unat (x + 1) = unat x + 1" using le k(3) by (simp add: unat_word_ariths)
  have nw: "unat (x + 1) + unat alignment \<le> 2 ^ 32" using le k(3) u by simp
  note al = extent_align [OF k(1,2) nw, where skew = skew]
  show "x < EXTENT_ALIGN (x + 1) alignment skew" using al(1) u by (simp add: word_le_nat_alt word_less_nat_alt)
  show "(EXTENT_ALIGN (x + 1) alignment skew - skew) AND (alignment - 1) = 0" by (rule al(3))
  show "EXTENT_ALIGN (x + 1) alignment skew \<le> y" if "x < y" "(y - skew) AND (alignment - 1) = 0" for y
    using al(4) [OF inc_le [OF that(1)] that(2)] .
qed


text \<open>What leaving the loop over the regions guarantees.\<close>

definition search_sound :: "extent \<Rightarrow> u32 \<Rightarrow> u32 \<Rightarrow> u32 \<Rightarrow> search \<Rightarrow> bool" where
  "search_sound ex substart subend sz r = (case r of
      Found ns lst \<Rightarrow> placed ex substart subend sz ns lst
    | Fail best \<Rightarrow> best_ok ex substart subend sz best
    | Rest ns lst exend best \<Rightarrow> best_ok ex substart subend sz best \<and> substart \<le> ns \<and>
        (\<exists>p q. ex_regions ex = p @ q \<and> lst = after_pos p \<and> (\<forall>a \<in> set p. er_end a < ns) \<and>
           (\<forall>b \<in> set q. subend < er_start b)))"

lemma placedI:
  assumes ok: "ex_ok ex" and regs: "ex_regions ex = pre @ rp # rest" and lst: "lst = after_pos pre"
    and pre: "\<forall>a \<in> set pre. er_end a < ns" and sub: "substart \<le> ns" "er_start rp \<le> subend"
    and fit: "LE_OV ns sz (er_start rp)"
  shows "placed ex substart subend sz ns lst"
proof -
  have "er_start rp \<le> er_start b" if "b \<in> set (rp # rest)" for b
    using that ok by (auto simp: ex_ok_def regs regs_ok_append regs_ok_Cons intro: order_trans less_imp_le)
  then have "unat ns + unat sz \<le> unat (er_start b)" if "b \<in> set (rp # rest)" for b
    using fit that unfolding LE_OV_iff word_le_nat_alt by (meson order_trans)
  moreover have "unat ns + unat sz \<le> unat subend + 1" using fit sub(2) by (simp add: LE_OV_iff word_le_nat_alt)
  ultimately show ?thesis using regs lst pre sub(1) unfolding placed_def by blast
qed

lemma subregion_loop_sound:
  assumes "search_args substart subend sz alignment boundary ex" "ex_regions ex = pre @ rest"
    "\<forall>a \<in> set pre. er_end a < newstart" "substart \<le> newstart" "best_ok ex substart subend sz best"
    "\<forall>b \<in> set rest. substart \<le> er_start b"
  shows "search_sound ex substart subend sz
     (subregion_loop ex subend sz alignment skew boundary flags newstart (after_pos pre) best (length pre) rest)"
  using assms
proof (induction rest arbitrary: pre newstart best)
  case Nil
  then have "ex_regions ex = pre @ []" by simp
  with Nil.prems(3-5) show ?case unfolding subregion_loop.simps search_sound_def search.case
    by (intro conjI exI [of _ pre] exI [of _ "[]"]) simp_all
next
  case (Cons rp rest)
  note args = Cons.prems(1)
  have ok: "ex_ok ex" and sube: "subend \<le> ex_end ex" using args by (simp_all add: search_args_def)
  have o: "er_start rp \<le> er_end rp" "er_end rp \<le> ex_end ex" "\<forall>b \<in> set rest. er_end rp < er_start b"
    "\<forall>a \<in> set pre. er_end a < er_start rp"
    using ok by (simp_all add: ex_ok_def Cons.prems(2) regs_ok_append regs_ok_Cons)
  let ?ns = "EXTENT_ALIGN (er_end rp + 1) alignment skew"
  have ns: "er_end rp < ?ns" by (rule align_after(2) [OF args o(2)])
  show ?case
  proof (cases "subend < er_start rp")
    case True
    then have "\<forall>b \<in> set (rp # rest). subend < er_start b" using o by (auto intro: less_trans less_le_trans)
    moreover have "subregion_loop ex subend sz alignment skew boundary flags newstart (after_pos pre) best (length pre) (rp # rest) =
        Rest newstart (after_pos pre) (er_start rp) best" using True by simp
    ultimately show ?thesis using Cons.prems(2-5) unfolding search_sound_def by (simp only: search.case) blast
  next
    case False
    have next_ok: "search_sound ex substart subend sz (let ns = ?ns in if ns < er_end rp then Fail b
        else subregion_loop ex subend sz alignment skew boundary flags ns (Some (length pre)) b (length pre + 1) rest)"
      if b: "best_ok ex substart subend sz b" for b
    proof (cases "?ns < er_end rp")
      case True
      then show ?thesis using b by (simp add: search_sound_def)
    next
      case nlt: False
      have "substart \<le> ?ns" using ns o(1) Cons.prems(6) by (auto intro: order_trans less_imp_le)
      moreover have "\<forall>a \<in> set (pre @ [rp]). er_end a < ?ns" using o ns by (auto intro: less_trans less_le_trans)
      ultimately show ?thesis
        using Cons.IH [of "pre @ [rp]" ?ns b] args Cons.prems(2,6) b nlt by (simp add: after_pos_snoc)
    qed
    show ?thesis
    proof (cases "LE_OV newstart sz (er_start rp)")
      case nofit: False
      then show ?thesis using False next_ok [OF Cons.prems(5)] by (simp add: Let_def)
    next
      case True
      let ?fits = "\<lambda>ns. LE_OV ns sz (er_start rp)"
      have fe: "x \<le> ex_end ex" if "?fits x" for x
        using that o(1,2) unfolding LE_OV_iff word_le_nat_alt by linarith
      show ?thesis
      proof (cases "boundary_check ex flags sz boundary ?fits newstart")
        case (BOk ns')
        note b = boundary_check_ok [OF args, of ?fits, OF True fe BOk]
        have p: "placed ex substart subend sz ns' (after_pos pre)"
          using placedI [OF ok Cons.prems(2) refl, of ns' substart subend sz] b False Cons.prems(3,4)
          by (auto simp: not_less intro: less_le_trans order_trans)
        show ?thesis
        proof (cases "flags AND EX_FAST \<noteq> 0 \<or> er_start rp - ns' - sz = 0")
          case fast: True
          then show ?thesis using False True BOk p by (simp add: Let_def search_sound_def)
        next
          case slow: False
          show ?thesis
            using next_ok [OF better_ok [OF Cons.prems(5) p, of "er_start rp - ns' - sz"]] slow False True BOk
            by (simp add: Let_def)
        qed
      next
        case BSkip
        then show ?thesis using False True next_ok [OF Cons.prems(5)] by (simp add: Let_def)
      next
        case BFail
        then show ?thesis using False True Cons.prems(5) by (simp add: Let_def search_sound_def)
      qed
    qed
  qed
qed

lemma subregion_final_sound:
  assumes args: "search_args substart subend sz alignment boundary ex" and s: "search_sound ex substart subend sz r"
    and f: "subregion_final ex subend sz boundary flags r = Some (ns, lst)"
  shows "placed ex substart subend sz ns lst"
proof (cases r)
  case (Rest newstart l exend best)
  obtain p q where pq: "ex_regions ex = p @ q" "l = after_pos p" "\<forall>a \<in> set p. er_end a < newstart"
    "\<forall>b \<in> set q. subend < er_start b" and best: "best_ok ex substart subend sz best" "substart \<le> newstart"
    using s unfolding search_sound_def Rest search.case by blast
  let ?fits = "\<lambda>ns. LE_OV ns (sz - 1) subend"
  have sz: "unat (sz - 1) = unat sz - 1" "0 < unat sz" using args by (auto simp: search_args_def unat_minus_one unat_gt_0 word_gt_0)
  have sube: "subend \<le> ex_end ex" using args by (simp add: search_args_def)
  have fe: "x \<le> ex_end ex" if "?fits x" for x
    using that sube unfolding LE_OV_iff word_le_nat_alt by linarith
  have pl: "placed ex substart subend sz n (after_pos p)" if "newstart \<le> n" "?fits n" for n
  proof -
    have le: "unat n + unat sz \<le> unat subend + 1" using that(2) sz unfolding LE_OV_iff by linarith
    have "unat n + unat sz \<le> unat (er_start b)" if "b \<in> set q" for b
      using pq(4) that le unfolding word_less_nat_alt by fastforce
    moreover have "er_end a < n" if "a \<in> set p" for a using pq(3) that \<open>newstart \<le> n\<close> by (auto intro: less_le_trans)
    moreover have "substart \<le> n" using best(2) that(1) by simp
    ultimately show ?thesis using pq(1) le unfolding placed_def by blast
  qed
  show ?thesis
  proof (cases "?fits newstart")
    case False
    then show ?thesis using f best(1) by (auto simp: subregion_final_def Rest best_ok_def Let_def split: if_splits)
  next
    case True
    show ?thesis
    proof (cases "boundary_check ex flags sz boundary ?fits newstart")
      case (BOk n)
      have n: "placed ex substart subend sz n (after_pos p)"
        using boundary_check_ok [OF args, of ?fits, OF True fe BOk] by (intro pl) auto
      show ?thesis
        using f n better_ok [OF best(1) n, of "exend - n - (sz - 1)"] True BOk
        by (auto simp: subregion_final_def Rest best_ok_def Let_def pq(2) split: if_splits)
    qed (use f True best(1) in \<open>auto simp: subregion_final_def Rest best_ok_def Let_def split: if_splits\<close>)
  qed
qed (use s f in \<open>auto simp: subregion_final_def search_sound_def best_ok_def Let_def split: if_splits\<close>)


lemma subregion_skip_spec:
  assumes "\<forall>a \<in> set pre. er_start a < newstart"
  shows "\<exists>p q. subregion_skip newstart (after_pos pre) (length pre) rest = (after_pos p, length p, q) \<and>
     pre @ rest = p @ q \<and> (\<forall>a \<in> set p. er_start a < newstart) \<and> (q = [] \<or> newstart \<le> er_start (hd q))"
  using assms
proof (induction rest arbitrary: pre)
  case Nil
  then show ?case by auto
next
  case (Cons rp rest)
  show ?case
  proof (cases "newstart \<le> er_start rp")
    case True
    then show ?thesis using Cons.prems by (auto intro!: exI [of _ pre])
  next
    case False
    then have "\<forall>a \<in> set (pre @ [rp]). er_start a < newstart" using Cons.prems by auto
    from Cons.IH [OF this] False show ?thesis by (simp add: after_pos_snoc)
  qed
qed

text \<open>Where the loop starts: the regions before the candidate end before it.\<close>

lemma search_start:
  fixes skew flags :: u32
  assumes args: "search_args substart subend sz alignment boundary ex"
  defines "n0 \<equiv> EXTENT_ALIGN substart alignment skew"
  shows "\<exists>p q n. ex_regions ex = p @ q \<and> \<not> n0 < ex_start ex \<and> substart \<le> n0 \<and>
     subregion_search substart subend sz alignment skew boundary flags ex =
       Some (subregion_final ex subend sz boundary flags
         (subregion_loop ex subend sz alignment skew boundary flags n (after_pos p) (0, 0, None) (length p) q)) \<and>
     (\<forall>a \<in> set p. er_end a < n) \<and> n0 \<le> n \<and> (\<forall>b \<in> set q. n0 \<le> er_start b) \<and>
     (\<forall>a \<in> set p. er_start a < n0) \<and>
     (n = n0 \<or> (\<exists>a \<in> set p. n0 \<le> er_end a \<and> n = EXTENT_ALIGN (er_end a + 1) alignment skew))"
proof -
  obtain k where k: "k < 32" "alignment = 2 ^ k" "unat (ex_end ex) + unat alignment < 2 ^ 32"
    and ok: "ex_ok ex" and sub: "ex_start ex \<le> substart" "substart \<le> ex_end ex"
    using args by (auto simp: search_args_def)
  have "unat substart + unat alignment \<le> 2 ^ 32" using sub(2) k(3) unfolding word_le_nat_alt by linarith
  from extent_align(1) [OF k(1,2) this, of skew] have n0: "substart \<le> n0" by (simp add: n0_def)
  then have nn: "\<not> n0 < ex_start ex" using sub(1) by auto
  obtain p q where sk: "subregion_skip n0 None 0 (ex_regions ex) = (after_pos p, length p, q)" "ex_regions ex = p @ q"
    "\<forall>a \<in> set p. er_start a < n0" "q = [] \<or> n0 \<le> er_start (hd q)"
    using subregion_skip_spec [of "[]" n0 "ex_regions ex", unfolded after_pos_Nil list.size(3) append_Nil]
    by (metis empty_iff list.set(1))
  have regs: "regs_ok p" "regs_ok q" using ok by (simp_all add: ex_ok_def sk(2) regs_ok_append)
  have q: "\<forall>b \<in> set q. n0 \<le> er_start b"
    using sk(4) regs(2) by (cases q) (auto simp: regs_ok_Cons intro: order_trans less_imp_le)
  define n where "n = (if p \<noteq> [] \<and> n0 \<le> er_end (List.last p) then EXTENT_ALIGN (er_end (List.last p) + 1) alignment skew else n0)"
  have nth: "(p @ q) ! (length p - Suc 0) = List.last p" if "p \<noteq> []"
    using that by (simp add: nth_append last_conv_nth)
  have search: "subregion_search substart subend sz alignment skew boundary flags ex =
       Some (subregion_final ex subend sz boundary flags
         (subregion_loop ex subend sz alignment skew boundary flags n (after_pos p) (0, 0, None) (length p) q))"
    unfolding subregion_search_def Let_def n0_def [symmetric] if_not_P [OF nn] sk(1) prod.case
    using nth by (simp add: n_def after_pos_def sk(2))
  have last_max: "er_end a \<le> er_end (List.last p)" if "a \<in> set p" for a
  proof (cases p rule: rev_cases)
    case (snoc p' l)
    then show ?thesis using regs(1) that by (auto simp: regs_ok_append regs_ok_Cons intro: order_trans less_imp_le)
  qed (use that in simp)
  have in_ex: "er_end (List.last p) \<le> ex_end ex" if "p \<noteq> []"
    using ok last_in_set [OF that] by (simp add: ex_ok_def sk(2) regs_in_def)
  have ends: "er_end a < n" if "a \<in> set p" for a
  proof (cases "n0 \<le> er_end (List.last p)")
    case True
    then have "n = EXTENT_ALIGN (er_end (List.last p) + 1) alignment skew" using that by (auto simp: n_def)
    moreover have "p \<noteq> []" using that by auto
    ultimately show ?thesis using align_after(2) [OF args in_ex, of skew] last_max [OF that] by (auto intro: le_less_trans)
  next
    case False
    then show ?thesis using last_max [OF that] that by (auto simp: n_def not_le intro: le_less_trans)
  qed
  have ge: "n0 \<le> n"
    using align_after(2) [OF args in_ex, of skew] by (auto simp: n_def intro: order_trans less_imp_le)
  have form: "n = n0 \<or> (\<exists>a \<in> set p. n0 \<le> er_end a \<and> n = EXTENT_ALIGN (er_end a + 1) alignment skew)"
    using last_in_set [of p] by (auto simp: n_def)
  show ?thesis using sk(2,3) nn n0 search ends ge q form by blast
qed

lemma search_finds_place:
  assumes args: "search_args substart subend sz alignment boundary ex"
    and s: "subregion_search substart subend sz alignment skew boundary flags ex = Some (Some (ns, lst))"
  shows "placed ex substart subend sz ns lst"
proof -
  obtain p q n where pq: "ex_regions ex = p @ q" "substart \<le> EXTENT_ALIGN substart alignment skew"
     "subregion_search substart subend sz alignment skew boundary flags ex =
       Some (subregion_final ex subend sz boundary flags
         (subregion_loop ex subend sz alignment skew boundary flags n (after_pos p) (0, 0, None) (length p) q))"
     "\<forall>a \<in> set p. er_end a < n" "EXTENT_ALIGN substart alignment skew \<le> n"
     "\<forall>b \<in> set q. EXTENT_ALIGN substart alignment skew \<le> er_start b"
    using search_start [OF args, of skew flags] by blast
  have "substart \<le> n" "\<forall>b \<in> set q. substart \<le> er_start b" using pq(2,5,6) by (auto intro: order_trans)
  then have "search_sound ex substart subend sz
     (subregion_loop ex subend sz alignment skew boundary flags n (after_pos p) (0, 0, None) (length p) q)"
    by (intro subregion_loop_sound [OF args pq(1,4)]) (simp_all add: best_ok_def)
  from subregion_final_sound [OF args this] s pq(3) show ?thesis by simp
qed


section \<open>Completeness of the search\<close>

text \<open>\<open>y\<close> is an aligned free place for \<open>sz\<close> numbers in the subregion.\<close>

definition free_fit :: "extent \<Rightarrow> u32 \<Rightarrow> u32 \<Rightarrow> u32 \<Rightarrow> u32 \<Rightarrow> u32 \<Rightarrow> u32 \<Rightarrow> bool" where
  "free_fit ex substart subend sz alignment skew y \<longleftrightarrow> substart \<le> y \<and> unat y + unat sz \<le> unat subend + 1 \<and>
     (y - skew) AND (alignment - 1) = 0 \<and>
     (\<forall>r \<in> set (ex_regions ex). unat y + unat sz \<le> unat (er_start r) \<or> er_end r < y)"

definition search_complete :: "extent \<Rightarrow> u32 \<Rightarrow> u32 \<Rightarrow> u32 \<Rightarrow> u32 \<Rightarrow> u32 \<Rightarrow> u32 \<Rightarrow> search \<Rightarrow> bool" where
  "search_complete ex substart subend sz alignment skew flags r = (case r of
      Found ns lst \<Rightarrow> True
    | Fail best \<Rightarrow> flags AND EX_FAST = 0 \<and> fst best \<noteq> 0
    | Rest ns lst exend best \<Rightarrow> flags AND EX_FAST = 0 \<and> fst best \<noteq> 0 \<or>
        (\<forall>y. free_fit ex substart subend sz alignment skew y \<longrightarrow> ns \<le> y))"

lemma subregion_loop_complete:
  assumes "search_args substart subend sz alignment 0 ex" "ex_regions ex = pre @ rest"
    "flags AND EX_FAST = 0 \<and> fst best \<noteq> 0 \<or> (\<forall>y. free_fit ex substart subend sz alignment skew y \<longrightarrow> newstart \<le> y)"
  shows "search_complete ex substart subend sz alignment skew flags
     (subregion_loop ex subend sz alignment skew 0 flags newstart lst best (length pre) rest)"
  using assms
proof (induction rest arbitrary: pre newstart best lst)
  case Nil
  then show ?case by (simp add: search_complete_def)
next
  case (Cons rp rest)
  note args = Cons.prems(1)
  have rp: "rp \<in> set (ex_regions ex)" by (simp add: Cons.prems(2))
  have "ex_ok ex" using args by (simp add: search_args_def)
  then have o: "er_end rp \<le> ex_end ex" using rp by (simp add: ex_ok_def regs_in_def)
  let ?ns = "EXTENT_ALIGN (er_end rp + 1) alignment skew"
  have nlt: "\<not> ?ns < er_end rp" using align_after(2) [OF args o, of skew] by auto
  have regs: "ex_regions ex = (pre @ [rp]) @ rest" by (simp add: Cons.prems(2))
  note IH = Cons.IH [OF args regs, where lst = "Some (length pre)"]
  show ?case
  proof (cases "subend < er_start rp")
    case True
    then show ?thesis using Cons.prems(3) by (simp add: search_complete_def)
  next
    case False
    show ?thesis
    proof (cases "LE_OV newstart sz (er_start rp)")
      case True
      let ?ovh = "er_start rp - newstart - sz"
      show ?thesis
      proof (cases "flags AND EX_FAST \<noteq> 0 \<or> ?ovh = 0")
        case True
        then show ?thesis using False \<open>LE_OV newstart sz (er_start rp)\<close>
          by (simp add: boundary_check_def search_complete_def Let_def)
      next
        case slow: False
        have "fst (better ?ovh newstart lst best) \<noteq> 0" using slow by (auto simp: better_def)
        then show ?thesis using IH [of "better ?ovh newstart lst best" ?ns] slow False True nlt
          by (simp add: boundary_check_def Let_def)
      qed
    next
      case nofit: False
      have "flags AND EX_FAST = 0 \<and> fst best \<noteq> 0 \<or> (\<forall>y. free_fit ex substart subend sz alignment skew y \<longrightarrow> ?ns \<le> y)"
      proof (cases "flags AND EX_FAST = 0 \<and> fst best \<noteq> 0")
        case nobest: False
        have "?ns \<le> y" if y: "free_fit ex substart subend sz alignment skew y" for y
        proof -
          have "newstart \<le> y" using Cons.prems(3) nobest y by blast
          then have "\<not> unat y + unat sz \<le> unat (er_start rp)" using nofit unfolding LE_OV_iff word_le_nat_alt by linarith
          then have "er_end rp < y" using y rp by (auto simp: free_fit_def)
          then show ?thesis using align_after(4) [OF args o, of y skew] y by (simp add: free_fit_def)
        qed
        then show ?thesis by blast
      qed blast
      then show ?thesis using IH [of best ?ns] False nofit nlt by (simp add: Let_def)
    qed
  qed
qed

lemma search_complete_place:
  assumes args: "search_args substart subend sz alignment 0 ex" and y: "free_fit ex substart subend sz alignment skew y"
  shows "\<exists>ns lst. subregion_search substart subend sz alignment skew 0 flags ex = Some (Some (ns, lst))"
proof -
  let ?n0 = "EXTENT_ALIGN substart alignment skew"
  obtain p q n where pq: "ex_regions ex = p @ q"
     "subregion_search substart subend sz alignment skew 0 flags ex = Some (subregion_final ex subend sz 0 flags
         (subregion_loop ex subend sz alignment skew 0 flags n (after_pos p) (0, 0, None) (length p) q))"
     "\<forall>a \<in> set p. er_start a < ?n0"
     "n = ?n0 \<or> (\<exists>a \<in> set p. ?n0 \<le> er_end a \<and> n = EXTENT_ALIGN (er_end a + 1) alignment skew)"
    using search_start [OF args, of skew flags] by blast
  have sz: "unat (sz - 1) = unat sz - 1" "0 < unat sz" using args by (auto simp: search_args_def unat_minus_one unat_gt_0 word_gt_0)
  have ge: "n \<le> y" if y: "free_fit ex substart subend sz alignment skew y" for y
  proof -
    obtain k where k: "k < 32" "alignment = 2 ^ k" "unat (ex_end ex) + unat alignment < 2 ^ 32" and "substart \<le> ex_end ex"
      using args by (auto simp: search_args_def)
    then have "unat substart + unat alignment \<le> 2 ^ 32" unfolding word_le_nat_alt by linarith
    from extent_align(4) [OF k(1,2) this, of y skew] y have n0: "?n0 \<le> y" by (simp add: free_fit_def)
    show ?thesis
      using pq(4)
    proof
      assume "\<exists>a \<in> set p. ?n0 \<le> er_end a \<and> n = EXTENT_ALIGN (er_end a + 1) alignment skew"
      then obtain a where a: "a \<in> set p" "n = EXTENT_ALIGN (er_end a + 1) alignment skew" by blast
      have in_ex: "a \<in> set (ex_regions ex)" using a(1) pq(1) by simp
      have o: "er_end a \<le> ex_end ex" using in_ex args by (simp add: search_args_def ex_ok_def regs_in_def)
      have "er_start a < y" using pq(3) a(1) n0 by (auto intro: less_le_trans)
      then have "er_end a < y" using y in_ex sz(2) unfolding free_fit_def word_less_nat_alt by force
      then show ?thesis using align_after(4) [OF args o, of y skew] y by (simp add: free_fit_def a(2))
    qed (simp add: n0)
  qed
  define r where "r = subregion_loop ex subend sz alignment skew 0 flags n (after_pos p) (0, 0, None) (length p) q"
  have "search_complete ex substart subend sz alignment skew flags r"
    unfolding r_def by (rule subregion_loop_complete [OF args pq(1)]) (use ge in blast)
  then have "subregion_final ex subend sz 0 flags r \<noteq> None"
  proof (cases r)
    case (Rest ns l exend best)
    assume c: "search_complete ex substart subend sz alignment skew flags r"
    show ?thesis
    proof (cases "flags AND EX_FAST = 0 \<and> fst best \<noteq> 0")
      case True
      then show ?thesis by (auto simp: Rest subregion_final_def Let_def boundary_check_def better_def)
    next
      case False
      then have "ns \<le> y" using c y by (auto simp: search_complete_def Rest)
      then have "LE_OV ns (sz - 1) subend" using y sz unfolding free_fit_def LE_OV_iff word_le_nat_alt by linarith
      then show ?thesis by (auto simp: Rest subregion_final_def Let_def boundary_check_def better_def)
    qed
  qed (auto simp: search_complete_def subregion_final_def)
  then show ?thesis unfolding pq(2) r_def by auto
qed


section \<open>Alignment of the place\<close>

definition search_aligned :: "u32 \<Rightarrow> u32 \<Rightarrow> search \<Rightarrow> bool" where
  "search_aligned alignment skew r = (let al = (\<lambda>n. (n - skew) AND (alignment - 1) = 0) in case r of
      Found ns lst \<Rightarrow> al ns
    | Fail best \<Rightarrow> fst best \<noteq> 0 \<longrightarrow> al (fst (snd best))
    | Rest ns lst exend best \<Rightarrow> al ns \<and> (fst best \<noteq> 0 \<longrightarrow> al (fst (snd best))))"

lemma subregion_loop_aligned:
  assumes "search_args substart subend sz alignment 0 ex" "set rest \<subseteq> set (ex_regions ex)"
    "(newstart - skew) AND (alignment - 1) = 0" "fst best \<noteq> 0 \<longrightarrow> (fst (snd best) - skew) AND (alignment - 1) = 0"
  shows "search_aligned alignment skew (subregion_loop ex subend sz alignment skew 0 flags newstart lst best i rest)"
  using assms
proof (induction rest arbitrary: newstart best lst i)
  case Nil
  then show ?case by (simp add: search_aligned_def)
next
  case (Cons rp rest)
  have "er_end rp \<le> ex_end ex" using Cons.prems(1,2) by (simp add: search_args_def ex_ok_def regs_in_def)
  note ns = align_after(3) [OF Cons.prems(1) this, of skew]
  have b: "fst (better ovh newstart lst best) \<noteq> 0 \<longrightarrow> (fst (snd (better ovh newstart lst best)) - skew) AND (alignment - 1) = 0" for ovh
    using Cons.prems(3,4) by (simp add: better_def)
  have sub: "set rest \<subseteq> set (ex_regions ex)" using Cons.prems(2) by simp
  show ?case
    using Cons.prems(3,4) Cons.IH [OF Cons.prems(1) sub ns Cons.prems(4)] Cons.IH [OF Cons.prems(1) sub ns b] b
    by (simp add: Let_def boundary_check_def) (simp add: search_aligned_def Let_def)
qed

lemma search_place_aligned:
  assumes args: "search_args substart subend sz alignment 0 ex"
    and s: "subregion_search substart subend sz alignment skew 0 flags ex = Some (Some (ns, lst))"
  shows "(ns - skew) AND (alignment - 1) = 0"
proof -
  let ?n0 = "EXTENT_ALIGN substart alignment skew"
  obtain p q n where pq: "ex_regions ex = p @ q"
     "subregion_search substart subend sz alignment skew 0 flags ex = Some (subregion_final ex subend sz 0 flags
         (subregion_loop ex subend sz alignment skew 0 flags n (after_pos p) (0, 0, None) (length p) q))"
     "n = ?n0 \<or> (\<exists>a \<in> set p. ?n0 \<le> er_end a \<and> n = EXTENT_ALIGN (er_end a + 1) alignment skew)"
    using search_start [OF args, of skew flags] by blast
  obtain k where k: "k < 32" "alignment = 2 ^ k" "unat (ex_end ex) + unat alignment < 2 ^ 32" and "substart \<le> ex_end ex"
    using args by (auto simp: search_args_def)
  then have "unat substart + unat alignment \<le> 2 ^ 32" unfolding word_le_nat_alt by linarith
  note n0 = extent_align(3) [OF k(1,2) this, of skew]
  have n: "(n - skew) AND (alignment - 1) = 0"
    using pq(3)
  proof
    assume "\<exists>a \<in> set p. ?n0 \<le> er_end a \<and> n = EXTENT_ALIGN (er_end a + 1) alignment skew"
    then obtain a where "a \<in> set (ex_regions ex)" "n = EXTENT_ALIGN (er_end a + 1) alignment skew" using pq(1) by auto
    moreover have "er_end a \<le> ex_end ex" using calculation(1) args by (simp add: search_args_def ex_ok_def regs_in_def)
    ultimately show ?thesis using align_after(3) [OF args] by simp
  qed (simp add: n0)
  define r where "r = subregion_loop ex subend sz alignment skew 0 flags n (after_pos p) (0, 0, None) (length p) q"
  have "search_aligned alignment skew r"
    unfolding r_def by (rule subregion_loop_aligned [OF args]) (use n pq(1) in auto)
  moreover have "subregion_final ex subend sz 0 flags r = Some (ns, lst)" using s pq(2) by (simp add: r_def)
  ultimately show ?thesis
    by (cases r) (auto simp: search_aligned_def subregion_final_def boundary_check_def better_def Let_def split: if_splits)
qed

end
