(* ===== verification/Extent_Props.thy ===== *)
theory Extent_Props
  imports Extent_Search
begin

text \<open>
  The contract of a region map as a locale, its interpretation by extents, and the properties
  of the extent manager: exact effect of allocation and freeing on every branch, soundness and
  completeness of the search, the round trip, and an overflow of the search.
\<close>

section \<open>The contract of a region map\<close>

text \<open>
  What the bus space layer relies on: allocating a given range succeeds only when it overlaps
  nothing that is allocated, and then adds exactly the range; a failed call changes nothing;
  freeing a range that was allocated takes exactly that range out.
\<close>

abbreviation range_of :: "u32 \<Rightarrow> u32 \<Rightarrow> u32 set" where
  "range_of start sz \<equiv> {start..start + (sz - 1)}"

definition valid_range :: "u32 \<Rightarrow> u32 \<Rightarrow> bool" where
  "valid_range start sz \<longleftrightarrow> 0 < sz \<and> start \<le> start + (sz - 1)"

locale region_map =
  fixes ok :: "'s \<Rightarrow> bool"
    and used :: "'s \<Rightarrow> u32 set"
    and holds :: "u32 \<Rightarrow> u32 \<Rightarrow> 's \<Rightarrow> bool"
    and alloc :: "u32 \<Rightarrow> u32 \<Rightarrow> 's \<Rightarrow> (int \<times> 's) result"
    and free :: "u32 \<Rightarrow> u32 \<Rightarrow> 's \<Rightarrow> (int \<times> 's) result"
  assumes alloc_total: "ok s \<Longrightarrow> valid_range a n \<Longrightarrow> \<exists>err s'. alloc a n s = Ok (err, s')"
    and alloc_keeps: "ok s \<Longrightarrow> valid_range a n \<Longrightarrow> alloc a n s = Ok (err, s') \<Longrightarrow> ok s'"
    and alloc_adds: "ok s \<Longrightarrow> valid_range a n \<Longrightarrow> alloc a n s = Ok (0, s') \<Longrightarrow>
      used s \<inter> range_of a n = {} \<and> used s' = used s \<union> range_of a n \<and> holds a n s'"
    and alloc_fails: "ok s \<Longrightarrow> valid_range a n \<Longrightarrow> alloc a n s = Ok (err, s') \<Longrightarrow> err \<noteq> 0 \<Longrightarrow> used s' = used s"
    and free_removes: "ok s \<Longrightarrow> valid_range a n \<Longrightarrow> holds a n s \<Longrightarrow>
      \<exists>err s'. free a n s = Ok (err, s') \<and> ok s' \<and>
        (if err = 0 then used s' = used s - range_of a n else used s' = used s)"
begin

text \<open>No range is handed out twice.\<close>

lemma alloc_exclusive:
  assumes "ok s" "valid_range a n" "valid_range b m" "alloc a n s = Ok (0, s1)" "alloc b m s1 = Ok (0, s2)"
  shows "range_of a n \<inter> range_of b m = {}"
proof -
  have "ok s1" using alloc_keeps assms(1,2,4) by blast
  then have "used s1 \<inter> range_of b m = {}" using alloc_adds assms(3,5) by blast
  moreover have "range_of a n \<subseteq> used s1" using alloc_adds assms(1,2,4) by blast
  ultimately show ?thesis by blast
qed

lemma alloc_free:
  assumes "ok s" "valid_range a n" "alloc a n s = Ok (0, s1)" "free a n s1 = Ok (0, s2)"
  shows "ok s2 \<and> used s2 = used s"
proof -
  have 1: "ok s1" "used s \<inter> range_of a n = {}" "used s1 = used s \<union> range_of a n" "holds a n s1"
    using alloc_keeps [OF assms(1-3)] alloc_adds [OF assms(1-3)] by auto
  with free_removes [OF 1(1) assms(2) 1(4)] assms(4) show ?thesis by auto
qed

end

section \<open>Extents are region maps\<close>

text \<open>Callers that do not sleep: neither for a descriptor nor for space.\<close>

definition nowait :: "u32 \<Rightarrow> bool" where
  "nowait flags \<longleftrightarrow> flags AND EX_WAITOK = 0 \<and> flags AND EX_WAITSPACE = 0"

lemma same_map_ok: "same_map ex ex' \<Longrightarrow> ex_ok ex' = ex_ok ex \<and> allocated ex' = allocated ex"
  by (simp add: same_map_def ex_ok_def allocated_def)

lemma alloc_region_cases:
  assumes ok: "ex_ok ex" and v: "valid_range start sz" and nw: "nowait flags"
  shows "\<exists>err ex'. extent_alloc_region start sz flags wk ex = Ok (err, ex') \<and> ex_ok ex' \<and>
     ex_start ex' = ex_start ex \<and> ex_end ex' = ex_end ex \<and>
     (err = 0 \<and> range_of start sz \<subseteq> {ex_start ex..ex_end ex} \<and> allocated ex \<inter> range_of start sz = {} \<and>
        allocated ex' = allocated ex \<union> range_of start sz \<and>
        (\<exists>r \<in> set (ex_regions ex'). contains (ex_flags ex' AND EXF_NOCOALESCE = 0) start (start + (sz - 1)) r)
      \<or> err = EINVAL \<and> \<not> range_of start sz \<subseteq> {ex_start ex..ex_end ex} \<and> ex' = ex
      \<or> err = EX_ENOMEM \<and> range_of start sz \<subseteq> {ex_start ex..ex_end ex} \<and> allocated ex' = allocated ex \<and>
        extent_alloc_region_descriptor flags wk ex = Ok (None, ex', wk)
      \<or> err = EAGAIN \<and> allocated ex \<inter> range_of start sz \<noteq> {} \<and> allocated ex' = allocated ex)"
proof (cases "start < ex_start ex \<or> ex_end ex < start + (sz - 1)")
  case True
  then have "\<not> range_of start sz \<subseteq> {ex_start ex..ex_end ex}" using v by (auto simp: valid_range_def)
  then show ?thesis using True ok by (simp add: extent_alloc_region_def)
next
  case False
  then have rng: "ex_start ex \<le> start" "start + (sz - 1) \<le> ex_end ex" by auto
  then have sub: "range_of start sz \<subseteq> {ex_start ex..ex_end ex}" by (auto intro: order_trans)
  obtain rp ex1 where d: "extent_alloc_region_descriptor flags wk ex = Ok (rp, ex1, wk)" "same_map ex ex1"
    using alloc_descriptor_nowait nw unfolding nowait_def by blast
  have m: "ex_ok ex1" "allocated ex1 = allocated ex" "ex_start ex1 = ex_start ex" "ex_end ex1 = ex_end ex"
    using same_map_ok [OF d(2)] d(2) ok by (simp_all add: same_map_def)
  show ?thesis
  proof (cases rp)
    case None
    then show ?thesis using False d m sub by (simp add: extent_alloc_region_def)
  next
    case (Some myrp)
    have sz: "0 < sz" "start \<le> start + (sz - 1)" and fl: "flags AND EX_WAITSPACE = 0"
      using v nw by (simp_all add: valid_range_def nowait_def)
    have rng1: "ex_start ex1 \<le> start" "start + (sz - 1) \<le> ex_end ex1" using rng m by simp_all
    have r: "extent_alloc_region start sz flags wk ex = alloc_region_start start sz flags myrp wk ex1"
      using False d Some by (simp add: extent_alloc_region_def)
    from alloc_region_start_nowait [OF m(1) sz rng1 fl, of myrp wk] show ?thesis
      unfolding r m contains_def using sub by (auto split: if_splits)
  qed
qed


lemma free_list_cases:
  assumes ok: "ex_ok ex" and v: "valid_range start sz"
  shows "if \<exists>r \<in> set (ex_regions ex). contains (nrp \<noteq> None) start (start + (sz - 1)) r
     then \<exists>ex'. extent_free_list start (start + (sz - 1)) nrp ex = Ok (0, ex') \<and> ex_ok ex' \<and>
       ex_start ex' = ex_start ex \<and> ex_end ex' = ex_end ex \<and> allocated ex' = allocated ex - range_of start sz
     else extent_free_list start (start + (sz - 1)) nrp ex = Panic ''extent_free: region not found''"
proof (cases "\<exists>r \<in> set (ex_regions ex). contains (nrp \<noteq> None) start (start + (sz - 1)) r")
  case True
  obtain regs freed used where f: "free_loop start (start + (sz - 1)) nrp (ex_regions ex) = Some (regs, freed, used)"
    "regs_ok regs" "covered regs = covered (ex_regions ex) - range_of start sz" "regs_in (ex_start ex) (ex_end ex) regs"
    using free_loop_spec [of "ex_regions ex" start "start + (sz - 1)" "ex_start ex" "ex_end ex" nrp] True ok v
    by (auto simp: ex_ok_def valid_range_def)
  show ?thesis using True f
    by (auto simp: extent_free_list_def ex_ok_def allocated_def Let_def split: option.splits)
next
  case False
  then have "free_loop start (start + (sz - 1)) nrp (ex_regions ex) = None"
    using free_loop_spec [of "ex_regions ex" start "start + (sz - 1)" "ex_start ex" "ex_end ex" nrp] ok v
    by (auto simp: ex_ok_def valid_range_def)
  then show ?thesis using False by (auto simp: extent_free_list_def)
qed

lemma free_cases:
  assumes ok: "ex_ok ex" and v: "valid_range start sz" and nw: "nowait flags"
  shows "(\<exists>ex'. extent_free start sz flags wk ex = Ok (EX_ENOMEM, ex') \<and> ex_ok ex' \<and> allocated ex' = allocated ex \<and>
            ex_start ex' = ex_start ex \<and> ex_end ex' = ex_end ex \<and>
            extent_alloc_region_descriptor flags wk ex = Ok (None, ex', wk)) \<or>
     (if \<exists>r \<in> set (ex_regions ex). contains (ex_flags ex AND EXF_NOCOALESCE = 0) start (start + (sz - 1)) r
      then \<exists>ex'. extent_free start sz flags wk ex = Ok (0, ex') \<and> ex_ok ex' \<and>
        ex_start ex' = ex_start ex \<and> ex_end ex' = ex_end ex \<and> allocated ex' = allocated ex - range_of start sz
      else extent_free start sz flags wk ex = Panic ''extent_free: region not found'')"
proof (cases "ex_flags ex AND EXF_NOCOALESCE = 0")
  case False
  then show ?thesis using free_list_cases [OF ok v, of None] by (simp add: extent_free_def)
next
  case True
  obtain rp ex1 where d: "extent_alloc_region_descriptor flags wk ex = Ok (rp, ex1, wk)" "same_map ex ex1"
    using alloc_descriptor_nowait nw unfolding nowait_def by blast
  have m: "ex_ok ex1" "allocated ex1 = allocated ex" "ex_start ex1 = ex_start ex" "ex_end ex1 = ex_end ex"
    "ex_regions ex1 = ex_regions ex"
    using same_map_ok [OF d(2)] d(2) ok by (simp_all add: same_map_def)
  show ?thesis
  proof (cases rp)
    case None
    then show ?thesis using True d m by (simp add: extent_free_def)
  next
    case (Some dd)
    then have "extent_free start sz flags wk ex = extent_free_list start (start + (sz - 1)) (Some dd) ex1"
      using True d by (simp add: extent_free_def)
    then show ?thesis using free_list_cases [OF m(1) v, of "Some dd"] True by (auto simp: m split: if_splits)
  qed
qed

definition ex_holds :: "u32 \<Rightarrow> u32 \<Rightarrow> extent \<Rightarrow> bool" where
  "ex_holds start sz ex \<longleftrightarrow> (\<exists>r \<in> set (ex_regions ex). contains (ex_flags ex AND EXF_NOCOALESCE = 0) start (start + (sz - 1)) r)"

abbreviation (input) ex_alloc :: "u32 \<Rightarrow> u32 \<Rightarrow> u32 \<Rightarrow> extent \<Rightarrow> (int \<times> extent) result" where
  "ex_alloc flags start sz \<equiv> extent_alloc_region start sz (flags AND NOT (EX_WAITOK OR EX_WAITSPACE)) []"

abbreviation (input) ex_free :: "u32 \<Rightarrow> u32 \<Rightarrow> u32 \<Rightarrow> extent \<Rightarrow> (int \<times> extent) result" where
  "ex_free flags start sz \<equiv> extent_free start sz (flags AND NOT (EX_WAITOK OR EX_WAITSPACE)) []"

lemma nowait_mask: "nowait (flags AND NOT (EX_WAITOK OR EX_WAITSPACE))"
  by (simp add: nowait_def and.assoc)

interpretation ex: region_map ex_ok allocated ex_holds "ex_alloc flags" "ex_free flags" for flags
proof (unfold_locales, goal_cases)
  case (1 s a n)
  then show ?case using alloc_region_cases [OF 1 nowait_mask, of flags "[]"] by blast
next
  case (2 s a n err s')
  then show ?case using alloc_region_cases [OF 2(1,2) nowait_mask, of flags "[]"] by auto
next
  case (3 s a n s')
  then show ?case using alloc_region_cases [OF 3(1,2) nowait_mask, of flags "[]"] by (auto simp: ex_holds_def)
next
  case (4 s a n err s')
  then show ?case using alloc_region_cases [OF 4(1,2) nowait_mask, of flags "[]"] by auto
next
  case (5 s a n)
  then consider s' where "ex_free flags a n s = Ok (EX_ENOMEM, s')" "ex_ok s'" "allocated s' = allocated s"
    | s' where "ex_free flags a n s = Ok (0, s')" "ex_ok s'" "allocated s' = allocated s - range_of a n"
    using free_cases [OF 5(1,2) nowait_mask, of flags "[]"] unfolding ex_holds_def by auto
  then show ?case by cases auto
qed


section \<open>Properties\<close>

text \<open>A small extent for the witnesses: \<open>0x1000 .. 0x1fff\<close> with one region and fixed storage.\<close>

definition demo_ex :: extent where
  "demo_ex = \<lparr>ex_regions = [\<lparr>er_start = 0x1100, er_end = 0x11ff, er_flags = 0\<rparr>], ex_start = 0x1000, ex_end = 0x1fff,
     ex_flags = EXF_FIXED, fex_freelist = [\<lparr>er_start = 0, er_end = 0, er_flags = 0\<rparr>, \<lparr>er_start = 0, er_end = 0, er_flags = 0\<rparr>],
     expool = 0, kmem_running = False\<rparr>"

lemma demo_ex_ok: "ex_ok demo_ex"
  by (simp add: ex_ok_def regs_ok_def regs_in_def demo_ex_def)

text \<open>
  C6. Allocating a given range in a consistent extent, without sleeping, always returns and keeps
  the extent consistent: it returns 0 exactly when it added the range, which then overlaps
  nothing that was allocated and lies within the extent; it returns EINVAL for a range that
  leaves the extent, EAGAIN for one that overlaps an allocated number and ENOMEM only for a range
  within the extent and when the descriptor allocator has no region descriptor to give, and then
  what is allocated is unchanged.
\<close>

theorem extent_alloc_region_exact:
  assumes "ex_ok ex" "valid_range start sz" "nowait flags"
  shows "\<exists>err ex'. extent_alloc_region start sz flags wk ex = Ok (err, ex') \<and> ex_ok ex' \<and>
     (err = 0 \<and> range_of start sz \<subseteq> {ex_start ex..ex_end ex} \<and> allocated ex \<inter> range_of start sz = {} \<and>
        allocated ex' = allocated ex \<union> range_of start sz
      \<or> err = EINVAL \<and> \<not> range_of start sz \<subseteq> {ex_start ex..ex_end ex} \<and> ex' = ex
      \<or> err = EX_ENOMEM \<and> range_of start sz \<subseteq> {ex_start ex..ex_end ex} \<and> allocated ex' = allocated ex \<and>
        extent_alloc_region_descriptor flags wk ex = Ok (None, ex', wk)
      \<or> err = EAGAIN \<and> allocated ex \<inter> range_of start sz \<noteq> {} \<and> allocated ex' = allocated ex)"
  using alloc_region_cases [OF assms, of wk] by blast

theorem extent_alloc_region_exact_witness:
  "\<exists>ex'. extent_alloc_region 0x1200 0x100 0 [] demo_ex = Ok (0, ex') \<and> ex_ok ex' \<and> allocated ex' = {0x1100..0x12ff}"
proof -
  have d: "extent_alloc_region_descriptor 0 [] demo_ex \<noteq> Ok (None, e, [])" for e
    by (simp add: extent_alloc_region_descriptor_def demo_ex_def fixed_descriptor.simps)
  have a: "allocated demo_ex = {0x1100..0x11ff}" by (simp add: allocated_def covered_def demo_ex_def)
  have u: "{0x1100..0x11ff} \<union> {0x1200..0x12ff} = {0x1100..0x12ff :: u32}"
    by (auto simp: word_le_nat_alt)
  have v: "valid_range 0x1200 0x100" "nowait 0" by (simp_all add: valid_range_def nowait_def)
  have i: "{0x1100..0x11ff} \<inter> {0x1200..0x12ff :: u32} = {}" by (auto simp: word_le_nat_alt)
  have r: "ex_start demo_ex = 0x1000" "ex_end demo_ex = 0x1fff" by (simp_all add: demo_ex_def)
  from extent_alloc_region_exact [OF demo_ex_ok v, of "[]"] show ?thesis
    using d by (auto simp: a u i r)
qed

text \<open>
  Sleeping does not break an allocation of a given range: whatever consistent changes other
  threads make to the extent while the caller sleeps for space or a descriptor, when
  \<open>extent_alloc_region\<close> returns 0 the extent is consistent and the range is allocated.
\<close>

theorem extent_alloc_region_sleeping:
  assumes "ex_ok ex" "valid_range start sz" "\<forall>w \<in> set wk. fair (snd w)" "flags AND EX_WAITOK = 0"
    "extent_alloc_region start sz flags wk ex = Ok (0, ex')"
  shows "ex_ok ex' \<and> range_of start sz \<subseteq> allocated ex'"
proof -
  have rng: "\<not> (start < ex_start ex \<or> ex_end ex < start + (sz - 1))"
    using assms(5) by (auto simp: extent_alloc_region_def)
  obtain rp ex1 where d: "extent_alloc_region_descriptor flags wk ex = Ok (rp, ex1, wk)" "same_map ex ex1"
    using alloc_descriptor_nowait [OF assms(4)] by blast
  then obtain myrp where "rp = Some myrp" using assms(5) rng by (cases rp) (auto simp: extent_alloc_region_def)
  then have r: "alloc_region_start start sz flags myrp wk ex1 = Ok (0, ex')"
    using assms(5) rng d by (simp add: extent_alloc_region_def)
  have "ex_ok ex1" "ex_start ex1 = ex_start ex" "ex_end ex1 = ex_end ex"
    using same_map_ok [OF d(2)] d(2) assms(1) by (simp_all add: same_map_def)
  then show ?thesis
    using alloc_region_start_wait [OF _ _ _ _ _ assms(3) r] assms(2) rng by (simp add: valid_range_def not_less)
qed

definition drained :: "extent \<Rightarrow> extent" where
  "drained ex = ex\<lparr>ex_regions := []\<rparr>"

lemma fair_drained: "fair drained"
  by (simp add: fair_def drained_def ex_ok_def)

theorem extent_alloc_region_sleeping_witness:
  "\<exists>ex'. extent_alloc_region 0x1180 0x100 EX_WAITSPACE [(0, drained)] demo_ex = Ok (0, ex') \<and>
         ex_ok ex' \<and> range_of 0x1180 0x100 \<subseteq> allocated ex'"
proof -
  have "\<exists>ex'. extent_alloc_region 0x1180 0x100 EX_WAITSPACE [(0, drained)] demo_ex = Ok (0, ex')"
    by (simp add: extent_alloc_region_def demo_ex_def extent_alloc_region_descriptor_def fixed_descriptor.simps
        alloc_region_start.simps drained_def Let_def)
  then obtain ex' where r: "extent_alloc_region 0x1180 0x100 EX_WAITSPACE [(0, drained)] demo_ex = Ok (0, ex')" by blast
  have "valid_range 0x1180 0x100" by (simp add: valid_range_def)
  from extent_alloc_region_sleeping [OF demo_ex_ok this _ _ r] fair_drained r show ?thesis by simp
qed

text \<open>
  C34. Freeing in a consistent extent, without sleeping: when no descriptor is to be had for a
  coalescing extent it returns ENOMEM and changes nothing; otherwise, if one allocated
  region contains the range (is the range, in an extent without coalescing), it returns 0, the
  extent is consistent and exactly the numbers of the range are no longer allocated; if none
  does, it panics.
\<close>

theorem extent_free_exact:
  assumes "ex_ok ex" "valid_range start sz" "nowait flags"
  shows "(\<exists>ex'. extent_free start sz flags wk ex = Ok (EX_ENOMEM, ex') \<and> ex_ok ex' \<and> allocated ex' = allocated ex \<and>
            extent_alloc_region_descriptor flags wk ex = Ok (None, ex', wk)) \<or>
     (if \<exists>r \<in> set (ex_regions ex).
           if ex_flags ex AND EXF_NOCOALESCE = 0 then er_start r \<le> start \<and> start + (sz - 1) \<le> er_end r
           else er_start r = start \<and> er_end r = start + (sz - 1)
      then \<exists>ex'. extent_free start sz flags wk ex = Ok (0, ex') \<and> ex_ok ex' \<and> allocated ex' = allocated ex - range_of start sz
      else extent_free start sz flags wk ex = Panic ''extent_free: region not found'')"
proof -
  have e: "(\<exists>r \<in> set (ex_regions ex). contains (ex_flags ex AND EXF_NOCOALESCE = 0) start (start + (sz - 1)) r) \<longleftrightarrow>
    (\<exists>r \<in> set (ex_regions ex).
           if ex_flags ex AND EXF_NOCOALESCE = 0 then er_start r \<le> start \<and> start + (sz - 1) \<le> er_end r
           else er_start r = start \<and> er_end r = start + (sz - 1))"
    unfolding contains_def ..
  show ?thesis using free_cases [OF assms, of wk] unfolding e by (auto split: if_splits)
qed

theorem extent_free_exact_witness:
  "\<exists>ex'. extent_free 0x1140 0x10 0 [] demo_ex = Ok (0, ex') \<and> ex_ok ex' \<and> allocated ex' = allocated demo_ex - range_of 0x1140 0x10"
proof -
  have "extent_alloc_region_descriptor 0 [] demo_ex \<noteq> Ok (None, ex', [])" for ex'
    by (simp add: extent_alloc_region_descriptor_def demo_ex_def fixed_descriptor.simps)
  moreover have "\<exists>r \<in> set (ex_regions demo_ex).
           if ex_flags demo_ex AND EXF_NOCOALESCE = 0 then er_start r \<le> 0x1140 \<and> 0x1140 + ((0x10 :: u32) - 1) \<le> er_end r
           else er_start r = 0x1140 \<and> er_end r = 0x1140 + ((0x10 :: u32) - 1)"
    by (simp add: demo_ex_def)
  moreover have "valid_range 0x1140 0x10" "nowait 0" by (simp_all add: valid_range_def nowait_def)
  ultimately show ?thesis
    using extent_free_exact [OF demo_ex_ok, of "0x1140" "0x10" 0 "[]"] by (simp only: if_True simp_thms)
qed


text \<open>A place found by the search is where the new region goes.\<close>

lemma placed_insert:
  fixes rp :: extent_region
  assumes args: "search_args substart subend sz alignment boundary ex" and p: "placed ex substart subend sz ns lst"
  defines "ex' \<equiv> extent_insert_and_optimize ns sz lst rp ex"
  shows "valid_range ns sz \<and> substart \<le> ns \<and> ns + (sz - 1) \<le> subend \<and> allocated ex \<inter> range_of ns sz = {} \<and>
     ex_ok ex' \<and> allocated ex' = allocated ex \<union> range_of ns sz"
proof -
  obtain p q where pq: "ex_regions ex = p @ q" "lst = after_pos p" "\<forall>a \<in> set p. er_end a < ns"
    "\<forall>b \<in> set q. unat ns + unat sz \<le> unat (er_start b)" "substart \<le> ns" "unat ns + unat sz \<le> unat subend + 1"
    using assms(2) unfolding placed_def by blast
  have a: "ex_ok ex" "0 < sz" "ex_start ex \<le> substart" "subend \<le> ex_end ex" using args by (simp_all add: search_args_def)
  have sz: "unat (sz - 1) = unat sz - 1" "0 < unat sz" using a(2) by (auto simp: unat_minus_one unat_gt_0 word_gt_0)
  have "unat ns + unat sz - 1 < 4294967296" using pq(6) unat_bound32 [of subend] by linarith
  then have ue: "unat (ns + (sz - 1)) = unat ns + unat sz - 1" using sz by (simp add: unat_word_ariths)
  have v: "ns \<le> ns + (sz - 1)" "ns + (sz - 1) \<le> subend" using ue pq(6) sz unfolding word_le_nat_alt by linarith+
  have post: "\<forall>b \<in> set q. ns + (sz - 1) < er_start b"
  proof
    fix b assume "b \<in> set q"
    then have "unat ns + unat sz \<le> unat (er_start b)" using pq(4) by blast
    then show "ns + (sz - 1) < er_start b" unfolding word_less_nat_alt ue using sz(2) by linarith
  qed
  have rng: "ex_start ex \<le> ns" "ns + (sz - 1) \<le> ex_end ex" using a(3,4) pq(5) v(2) by simp_all
  have "x \<notin> region_set r" if "r \<in> set p \<or> r \<in> set q" "x \<in> range_of ns sz" for r x
    using that pq(3) post by force
  then have "allocated ex \<inter> range_of ns sz = {}" unfolding allocated_def covered_def pq(1) set_append by blast
  moreover note insert_ok [OF a(1) pq(1) a(2) v(1) rng pq(3) post, of rp]
  ultimately show ?thesis using v pq(5) a(2) unfolding ex'_def pq(2) valid_range_def by blast
qed

text \<open>Freedom of a place, on sets of numbers.\<close>

definition free_place :: "extent \<Rightarrow> u32 \<Rightarrow> u32 \<Rightarrow> u32 \<Rightarrow> u32 \<Rightarrow> u32 \<Rightarrow> u32 \<Rightarrow> bool" where
  "free_place ex substart subend sz alignment skew y \<longleftrightarrow> substart \<le> y \<and> valid_range y sz \<and> y + (sz - 1) \<le> subend \<and>
     (y - skew) AND (alignment - 1) = 0 \<and> allocated ex \<inter> range_of y sz = {}"

lemma free_place_fit:
  assumes "ex_ok ex" "free_place ex substart subend sz alignment skew y"
  shows "free_fit ex substart subend sz alignment skew y"
proof -
  have f: "substart \<le> y" "0 < sz" "y \<le> y + (sz - 1)" "y + (sz - 1) \<le> subend" "(y - skew) AND (alignment - 1) = 0"
    "allocated ex \<inter> range_of y sz = {}" using assms(2) by (simp_all add: free_place_def valid_range_def)
  have sz: "unat (sz - 1) = unat sz - 1" "0 < unat sz" using f(2) by (auto simp: unat_minus_one unat_gt_0 word_gt_0)
  have ue: "unat (y + (sz - 1)) = unat y + unat (sz - 1)" using f(3) unat_plus_simple [of y "sz - 1"] by blast
  have "unat y + unat sz \<le> unat (er_start r) \<or> er_end r < y" if r: "r \<in> set (ex_regions ex)" for r
  proof (rule ccontr)
    assume n: "\<not> (unat y + unat sz \<le> unat (er_start r) \<or> er_end r < y)"
    have "er_start r \<le> er_end r" using assms(1) r regs_okD by (auto simp: ex_ok_def)
    moreover have "er_start r \<le> y + (sz - 1)" "y \<le> er_end r" using n ue sz unfolding word_le_nat_alt word_less_nat_alt by linarith+
    ultimately have "max y (er_start r) \<in> region_set r \<inter> range_of y sz" using f(3) by (auto simp: max_def)
    then show False using f(6) r unfolding allocated_def covered_def by blast
  qed
  moreover have "unat y + unat sz \<le> unat subend + 1" using f(4) ue sz unfolding word_le_nat_alt by linarith
  ultimately show ?thesis using f(1,5) by (simp add: free_fit_def)
qed

text \<open>
  C17. Allocating anywhere in a subregion, without sleeping, with power-of-two alignment and
  boundary, where rounding up cannot pass the end of the 32-bit range: the call always
  returns and keeps the extent consistent. On success the range it returns lies in the
  subregion, overlapped nothing that was allocated, and is exactly what was added; without a
  boundary it is aligned. On failure nothing changed, and without a boundary EAGAIN means
  that no aligned free place exists in the subregion.
\<close>

theorem extent_alloc_subregion1_correct:
  assumes args: "search_args substart subend sz alignment boundary ex" and nw: "nowait flags"
  shows "\<exists>err res ex'. extent_alloc_subregion1 substart subend sz alignment skew boundary flags wk ex = Ok (err, res, ex') \<and>
     ex_ok ex' \<and>
     (err = 0 \<and> (\<exists>ns. res = Some ns \<and> valid_range ns sz \<and> substart \<le> ns \<and> ns + (sz - 1) \<le> subend \<and>
        allocated ex \<inter> range_of ns sz = {} \<and> allocated ex' = allocated ex \<union> range_of ns sz \<and>
        (boundary = 0 \<longrightarrow> (ns - skew) AND (alignment - 1) = 0))
      \<or> err = EX_ENOMEM \<and> res = None \<and> allocated ex' = allocated ex
      \<or> err = EAGAIN \<and> res = None \<and> allocated ex' = allocated ex \<and>
        (boundary = 0 \<longrightarrow> (\<forall>y. \<not> free_place ex substart subend sz alignment skew y)))"
proof -
  obtain rp ex1 where d: "extent_alloc_region_descriptor flags wk ex = Ok (rp, ex1, wk)" "same_map ex ex1"
    using alloc_descriptor_nowait nw unfolding nowait_def by blast
  have m: "ex_ok ex1 = ex_ok ex" "allocated ex1 = allocated ex" "ex_start ex1 = ex_start ex" "ex_end ex1 = ex_end ex"
    using same_map_ok [OF d(2)] d(2) by (simp_all add: same_map_def)
  have args1: "search_args substart subend sz alignment boundary ex1" using args by (simp add: search_args_def m)
  have fp: "free_place ex1 substart subend sz alignment skew y = free_place ex substart subend sz alignment skew y" for y
    by (simp add: free_place_def m)
  have ok1: "ex_ok ex1" using args1 by (simp add: search_args_def)
  show ?thesis
  proof (cases rp)
    case None
    then show ?thesis using d m ok1 by (simp add: extent_alloc_subregion1_def)
  next
    case (Some myrp)
    let ?s = "subregion_search substart subend sz alignment skew boundary flags ex1"
    have r: "extent_alloc_subregion1 substart subend sz alignment skew boundary flags wk ex =
        alloc_subregion_start substart subend sz alignment skew boundary flags myrp wk ex1"
      using d Some by (simp add: extent_alloc_subregion1_def)
    have "?s \<noteq> None" using search_start [OF args1, of skew flags] by auto
    then consider ns lst where "?s = Some (Some (ns, lst))" | "?s = Some None" by (cases ?s; cases "the ?s") auto
    then show ?thesis
    proof cases
      case 1
      note p = placed_insert [OF args1 search_finds_place [OF args1 1], of myrp]
      have "(ns - skew) AND (alignment - 1) = 0" if "boundary = 0"
        using search_place_aligned [of substart subend sz alignment ex1] args1 1 that by blast
      then show ?thesis using p 1 unfolding r by (auto simp: alloc_subregion_start.simps [of substart] m)
    next
      case 2
      have "\<not> free_place ex substart subend sz alignment skew y" if "boundary = 0" for y
        using search_complete_place [of substart subend sz alignment ex1 skew y flags] free_place_fit [OF ok1, of substart subend sz alignment skew y]
          args1 2 that fp by auto
      then show ?thesis using 2 nw ok1 unfolding r
        by (auto simp: alloc_subregion_start.simps [of substart] nowait_def m ex_ok_def allocated_def [symmetric])
          (simp_all add: allocated_def m(2) [unfolded allocated_def])
    qed
  qed
qed

theorem extent_alloc_subregion1_correct_witness:
  "search_args 0x1000 0x1fff 0x80 0x100 0 demo_ex \<and>
   (\<exists>err res ex'. extent_alloc_subregion1 0x1000 0x1fff 0x80 0x100 0 0 0 [] demo_ex = Ok (err, res, ex') \<and> ex_ok ex')"
proof -
  have "(0x100 :: u32) = 2 ^ 8" by simp
  then have "\<exists>k < 32. (0x100 :: u32) = 2 ^ k" by (intro exI [of _ 8]) simp
  then have a: "search_args 0x1000 0x1fff 0x80 0x100 0 demo_ex"
    using demo_ex_ok by (simp add: search_args_def demo_ex_def)
  from extent_alloc_subregion1_correct [OF a, of 0 0 "[]"] a show ?thesis by (auto simp: nowait_def)
qed


text \<open>
  Allocation and freeing are inverse, and exclusive: after a range was allocated and freed
  again, without sleeping, the same numbers are allocated as before; and while it is
  allocated, no overlapping range can be allocated.
\<close>

theorem extent_alloc_free_roundtrip:
  assumes "ex_ok ex" "valid_range a n" "extent_alloc_region a n (flags AND NOT (EX_WAITOK OR EX_WAITSPACE)) [] ex = Ok (0, ex1)"
  shows "(extent_free a n (flags AND NOT (EX_WAITOK OR EX_WAITSPACE)) [] ex1 = Ok (0, ex2) \<longrightarrow>
            ex_ok ex2 \<and> allocated ex2 = allocated ex) \<and>
     (valid_range b m \<and> range_of a n \<inter> range_of b m \<noteq> {} \<longrightarrow>
        extent_alloc_region b m (flags AND NOT (EX_WAITOK OR EX_WAITSPACE)) [] ex1 \<noteq> Ok (0, ex3))"
  using ex.alloc_free [OF assms] ex.alloc_exclusive [OF assms(1,2) _ assms(3)] by blast

theorem extent_alloc_free_roundtrip_witness:
  "\<exists>ex1. extent_alloc_region 0x1200 0x100 0 [] demo_ex = Ok (0, ex1) \<and>
     (\<forall>ex3. extent_alloc_region 0x1280 0x10 0 [] ex1 \<noteq> Ok (0, ex3))"
proof -
  have "\<exists>ex1. extent_alloc_region 0x1200 0x100 0 [] demo_ex = Ok (0, ex1)"
    by (simp add: extent_alloc_region_def demo_ex_def extent_alloc_region_descriptor_def fixed_descriptor.simps
        alloc_region_start.simps Let_def)
  then obtain ex1 where r: "extent_alloc_region 0x1200 0x100 (0 AND NOT (EX_WAITOK OR EX_WAITSPACE)) [] demo_ex = Ok (0, ex1)" by auto
  have v: "valid_range 0x1200 0x100" "valid_range 0x1280 0x10" by (simp_all add: valid_range_def)
  have "(0x1280 :: u32) \<in> range_of 0x1200 0x100 \<inter> range_of 0x1280 0x10" by simp
  then have "range_of (0x1200 :: u32) 0x100 \<inter> range_of 0x1280 0x10 \<noteq> {}" by blast
  with extent_alloc_free_roundtrip [OF demo_ex_ok v(1) r, of _ "0x1280" "0x10"] v(2) r show ?thesis by auto
qed

text \<open>An extent over the whole number space, all of it but the first page allocated.\<close>

definition full_ex :: extent where
  "full_ex = \<lparr>ex_regions = [\<lparr>er_start = 0x1000, er_end = 0xffffffff, er_flags = 0\<rparr>], ex_start = 0, ex_end = 0xffffffff,
     ex_flags = EXF_FIXED, fex_freelist = [\<lparr>er_start = 0, er_end = 0, er_flags = 0\<rparr>], expool = 0, kmem_running = False\<rparr>"

text \<open>
  Overflow in \<open>extent_alloc_subregion1\<close>: in the extent \<open>0 .. 0xffffffff\<close> with the region
  \<open>0x1000 .. 0xffffffff\<close> allocated, a request in the subregion \<open>0x2000 .. 0xffffffff\<close> succeeds with
  the address 0, outside the subregion, and leaves an inconsistent extent, in which the
  region's end lies before its start: the start behind the region that overlaps the subregion
  is computed without a check for overflow.
\<close>

theorem extent_alloc_subregion_overflow:
  "ex_ok full_ex \<and>
   (\<exists>ex'. extent_alloc_subregion 0x2000 0xffffffff 0x100 1 0 0 [] full_ex = Ok (0, Some 0, ex') \<and>
          ex_regions ex' = [\<lparr>er_start = 0x1000, er_end = 0xff, er_flags = 0\<rparr>] \<and> \<not> ex_ok ex')"
proof
  show "ex_ok full_ex" by (simp add: ex_ok_def regs_ok_def regs_in_def full_ex_def)
  have d: "extent_alloc_region_descriptor 0 [] full_ex =
      Ok (Some \<lparr>er_start = 0, er_end = 0, er_flags = 0\<rparr>, full_ex\<lparr>fex_freelist := []\<rparr>, [])"
    by (simp add: extent_alloc_region_descriptor_def full_ex_def fixed_descriptor.simps)
  have s: "subregion_search 0x2000 0xffffffff 0x100 1 0 0 0 (full_ex\<lparr>fex_freelist := []\<rparr>) = Some (Some (0, Some 0))"
    by (simp add: subregion_search_def full_ex_def EXTENT_ALIGN_def subregion_final_def boundary_check_def LE_OV_def better_def Let_def)
  show "\<exists>ex'. extent_alloc_subregion 0x2000 0xffffffff 0x100 1 0 0 [] full_ex = Ok (0, Some 0, ex') \<and>
          ex_regions ex' = [\<lparr>er_start = 0x1000, er_end = 0xff, er_flags = 0\<rparr>] \<and> \<not> ex_ok ex'"
  proof (intro exI conjI)
    let ?i = "extent_insert_and_optimize 0 0x100 (Some 0) \<lparr>er_start = 0, er_end = 0, er_flags = 0\<rparr> (full_ex\<lparr>fex_freelist := []\<rparr>)"
    show "extent_alloc_subregion 0x2000 0xffffffff 0x100 1 0 0 [] full_ex = Ok (0, Some 0, ?i)"
      by (simp add: extent_alloc_subregion_def extent_alloc_subregion1_def d alloc_subregion_start.simps s)
    show r: "ex_regions ?i = [\<lparr>er_start = 0x1000, er_end = 0xff, er_flags = 0\<rparr>]"
      by (simp add: extent_insert_and_optimize_def full_ex_def Let_def)
    show "\<not> ex_ok ?i" by (simp add: ex_ok_def regs_ok_def r)
  qed
qed

end
