(* ===== verification/Clist.thy ===== *)
theory Clist
  imports Prelude
begin

text \<open>
  The character queues of the tty layer (\<open>kern/tty_subr.c\<close>, compiled with \<open>QBITS\<close>): ring buffers of
  bytes with one quote bit per byte. A pointer into the buffer is an offset from \<open>c_cs\<close>,
  \<open>None\<close> for a null pointer; a pointer to an allocation is \<open>Null\<close>, \<open>Freed\<close> or the bytes it points to,
  so that every access outside live memory is the outcome \<open>Undef\<close>. The masking of tty
  interrupts (\<open>spltty\<close>, \<open>splx\<close>) makes each operation atomic and has no further effect here.
\<close>

section \<open>Data\<close>

datatype mem = Null | Freed | Buf "u8 list"

record clist =
  c_cf :: "nat option"
  c_cl :: "nat option"
  c_cs :: mem
  c_ce :: nat
  c_cq :: mem
  c_cc :: int
  c_cn :: int

abbreviation (input) TTY_QUOTE :: int where "TTY_QUOTE \<equiv> 256"
abbreviation (input) NBBY :: nat where "NBBY \<equiv> 8"

definition QMEM :: "nat \<Rightarrow> nat" where
  "QMEM n = (n - 1) div NBBY + 1"

section \<open>Bit arrays\<close>

definition setbit :: "u8 list \<Rightarrow> nat \<Rightarrow> u8 list" where
  "setbit a i = a[i div NBBY := a ! (i div NBBY) OR push_bit (i mod NBBY) 1]"

definition clrbit :: "u8 list \<Rightarrow> nat \<Rightarrow> u8 list" where
  "clrbit a i = a[i div NBBY := a ! (i div NBBY) AND NOT (push_bit (i mod NBBY) 1)]"

definition isset :: "u8 list \<Rightarrow> nat \<Rightarrow> bool" where
  "isset a i = (a ! (i div NBBY) AND push_bit (i mod NBBY) 1 \<noteq> 0)"

definition clrbits :: "u8 list \<Rightarrow> nat \<Rightarrow> nat \<Rightarrow> u8 list" where
  "clrbits cp off len =
     (if len = 1 then clrbit cp off
      else
        let len = len - 1;
            sby = off div NBBY; sbi = off mod NBBY;
            eby = (off + len) div NBBY; ebi = (off + len) mod NBBY + 1
        in if sby = eby
           then let mask = (word_of_int (push_bit sbi (push_bit (ebi - sbi) 1 - 1)) :: u8)
                in cp[sby := cp ! sby AND NOT mask]
           else
             let mask1 = (word_of_int (push_bit sbi 1 - 1) :: u8);
                 cp1 = cp[sby := cp ! sby AND mask1];
                 mask2 = (word_of_int (push_bit ebi 1 - 1) :: u8);
                 cp2 = cp1[eby := cp1 ! eby AND NOT mask2]
             in fold (\<lambda>i cp. cp[i := 0]) [sby + 1..<eby] cp2)"

text \<open>The quote bit of position \<open>i\<close>; without a bit array nothing is quoted.\<close>

definition quoted :: "mem \<Rightarrow> nat \<Rightarrow> bool result" where
  "quoted cq i = (case cq of
      Null \<Rightarrow> Ok False
    | Freed \<Rightarrow> Undef ''c_cq''
    | Buf q \<Rightarrow> if i div NBBY < length q then Ok (isset q i) else Undef ''c_cq'')"

definition charq :: "u8 \<Rightarrow> bool \<Rightarrow> int" where
  "charq b q = (if q then uint b OR TTY_QUOTE else uint b)"

section \<open>Allocation\<close>

text \<open>\<open>m1\<close> and \<open>m2\<close> say whether the two calls of \<open>malloc\<close> return memory.\<close>

definition clalloc :: "bool \<Rightarrow> bool \<Rightarrow> nat \<Rightarrow> bool \<Rightarrow> clist \<Rightarrow> int \<times> clist" where
  "clalloc m1 m2 sz quot clp =
     (if \<not> m1 then (-1, clp\<lparr>c_cs := Null\<rparr>)
      else if quot \<and> \<not> m2 then (-1, clp\<lparr>c_cs := Freed, c_cq := Null\<rparr>)
      else (0, clp\<lparr>c_cs := Buf (replicate sz 0),
                   c_cq := (if quot then Buf (replicate (QMEM sz) 0) else Null),
                   c_cf := None, c_cl := None, c_ce := sz, c_cn := int sz, c_cc := 0\<rparr>))"

definition clfree :: "clist \<Rightarrow> clist result" where
  "clfree clp =
     (if c_cs clp = Freed \<or> c_cq clp = Freed then Undef ''double free''
      else Ok (clp\<lparr>c_cs := Null, c_cq := Null\<rparr>))"

section \<open>Characters\<close>

definition getc :: "clist \<Rightarrow> (int \<times> clist) result" where
  "getc clp =
     (if c_cc clp = 0 then Ok (-1, clp)
      else case (c_cf clp, c_cs clp) of
        (Some f, Buf cs) \<Rightarrow>
          if f < length cs then
            bind_r (quoted (c_cq clp) f) (\<lambda>q.
              let c = charq (cs ! f) q;
                  f' = (if f + 1 = c_ce clp then 0 else f + 1);
                  clp1 = clp\<lparr>c_cs := Buf (cs[f := 0]), c_cf := Some f', c_cc := c_cc clp - 1\<rparr>
              in Ok (c, if c_cc clp1 = 0 then clp1\<lparr>c_cf := None, c_cl := None\<rparr> else clp1))
          else Undef ''c_cf''
      | _ \<Rightarrow> Undef ''c_cf'')"

text \<open>The start of \<open>putc\<close> and \<open>b_to_q\<close> on an empty queue: \<open>None\<close> when \<open>clalloc\<close> fails.\<close>

definition cl_start :: "bool \<Rightarrow> bool \<Rightarrow> clist \<Rightarrow> bool \<times> clist" where
  "cl_start m1 m2 clp =
     (if c_cc clp = 0
      then let (r, clp1) = (if c_cs clp = Null then clalloc m1 m2 1024 True clp else (0, clp))
           in if r \<noteq> 0 then (False, clp1) else (True, clp1\<lparr>c_cf := Some 0, c_cl := Some 0\<rparr>)
      else (True, clp))"

definition putc :: "bool \<Rightarrow> bool \<Rightarrow> int \<Rightarrow> clist \<Rightarrow> (int \<times> clist) result" where
  "putc m1 m2 c clp =
     (if c_cc clp = c_cn clp then Ok (-1, clp)
      else case cl_start m1 m2 clp of
        (False, clp) \<Rightarrow> Ok (-1, clp)
      | (True, clp) \<Rightarrow>
         (case (c_cl clp, c_cs clp) of
            (Some l, Buf cs) \<Rightarrow>
              if l < length cs then
                bind_r (case c_cq clp of
                          Null \<Rightarrow> Ok Null
                        | Freed \<Rightarrow> Undef ''c_cq''
                        | Buf q \<Rightarrow> if l div NBBY < length q
                                  then Ok (Buf (if c AND TTY_QUOTE \<noteq> 0 then setbit q l else clrbit q l))
                                  else Undef ''c_cq'') (\<lambda>cq.
                  Ok (0, clp\<lparr>c_cs := Buf (cs[l := word_of_int (c AND 255)]), c_cq := cq,
                             c_cc := c_cc clp + 1,
                             c_cl := Some (if l + 1 = c_ce clp then 0 else l + 1)\<rparr>))
              else Undef ''c_cl''
          | _ \<Rightarrow> Undef ''c_cl''))"

definition unputc :: "clist \<Rightarrow> (int \<times> clist) result" where
  "unputc clp =
     (if c_cc clp = 0 then Ok (-1, clp)
      else case (c_cl clp, c_cs clp) of
        (Some l0, Buf cs) \<Rightarrow>
          let l = (if l0 = 0 then c_ce clp - 1 else l0 - 1);
              clp1 = clp\<lparr>c_cl := Some l, c_cc := c_cc clp - 1\<rparr>
          in if l < length cs then
               bind_r (quoted (c_cq clp) l) (\<lambda>q.
                 Ok (charq (cs ! l) q, if c_cc clp1 = 0 then clp1\<lparr>c_cf := None, c_cl := None\<rparr> else clp1))
             else Undef ''c_cl''
      | _ \<Rightarrow> Undef ''c_cl'')"

section \<open>Blocks\<close>

text \<open>
  The contiguous characters from \<open>c_cf\<close>, at most \<open>count\<close>. An iteration that moves nothing
  repeats for ever.
\<close>

definition chunk_out :: "int \<Rightarrow> nat \<Rightarrow> nat \<Rightarrow> nat \<Rightarrow> int" where
  "chunk_out count ce f l =
     (let cc = (if f \<ge> l then int ce - int f else int l - int f)
      in if cc > count then count else cc)"

function q_to_b_loop :: "int \<Rightarrow> u8 list \<Rightarrow> clist \<Rightarrow> (u8 list \<times> clist) result" where
  "q_to_b_loop count p clp =
     (if count > 0 \<and> c_cc clp > 0 then
        (case (c_cf clp, c_cl clp, c_cs clp) of
           (Some f, Some l, Buf cs) \<Rightarrow>
             let cc = chunk_out count (c_ce clp) f l
             in if cc < 0 \<or> f + nat cc > length cs then Undef ''c_cf''
                else if cc = 0 then Hang
                else q_to_b_loop (count - cc) (p @ take (nat cc) (drop f cs))
                       (clp\<lparr>c_cc := c_cc clp - cc,
                            c_cf := Some (if f + nat cc = c_ce clp then 0 else f + nat cc)\<rparr>)
         | _ \<Rightarrow> Undef ''c_cf'')
      else Ok (p, clp))"
  by pat_completeness auto
termination by (relation "measure (\<lambda>(count, p, clp). nat count)") auto

definition cl_reset :: "clist \<Rightarrow> clist" where
  "cl_reset clp = (if c_cc clp = 0 then clp\<lparr>c_cf := None, c_cl := None\<rparr> else clp)"

definition q_to_b :: "int \<Rightarrow> clist \<Rightarrow> (int \<times> u8 list \<times> clist) result" where
  "q_to_b count clp =
     bind_r (q_to_b_loop count [] clp) (\<lambda>(p, clp). Ok (int (length p), p, cl_reset clp))"

function ndflush_loop :: "int \<Rightarrow> clist \<Rightarrow> clist result" where
  "ndflush_loop count clp =
     (if count > 0 \<and> c_cc clp > 0 then
        (case (c_cf clp, c_cl clp) of
           (Some f, Some l) \<Rightarrow>
             let cc = chunk_out count (c_ce clp) f l
             in if cc < 0 then Undef ''c_cf''
                else if cc = 0 then Hang
                else ndflush_loop (count - cc)
                       (clp\<lparr>c_cc := c_cc clp - cc,
                            c_cf := Some (if f + nat cc = c_ce clp then 0 else f + nat cc)\<rparr>)
         | _ \<Rightarrow> Undef ''c_cf'')
      else Ok clp)"
  by pat_completeness auto
termination by (relation "measure (\<lambda>(count, clp). nat count)") auto

definition ndflush :: "int \<Rightarrow> clist \<Rightarrow> clist result" where
  "ndflush count clp =
     (if count = c_cc clp then Ok (clp\<lparr>c_cc := 0, c_cf := None, c_cl := None\<rparr>)
      else bind_r (ndflush_loop count clp) (\<lambda>clp. Ok (cl_reset clp)))"

text \<open>The free space from \<open>c_cl\<close>, at most \<open>count\<close>.\<close>

definition chunk_in :: "int \<Rightarrow> nat \<Rightarrow> nat \<Rightarrow> nat \<Rightarrow> int" where
  "chunk_in count ce f l =
     (let cc = (if f > l then int f - int l else int ce - int l)
      in if cc > count then count else cc)"

function b_to_q_loop :: "u8 list \<Rightarrow> int \<Rightarrow> clist \<Rightarrow> (int \<times> clist) result" where
  "b_to_q_loop p count clp =
     (if count > 0 \<and> c_cc clp < c_cn clp then
        (case (c_cf clp, c_cl clp, c_cs clp) of
           (Some f, Some l, Buf cs) \<Rightarrow>
             let cc = chunk_in count (c_ce clp) f l
             in if cc < 0 \<or> l + nat cc > length cs \<or> nat cc > length p then Undef ''c_cl''
                else if cc = 0 then Hang
                else bind_r (case c_cq clp of
                               Null \<Rightarrow> Ok Null
                             | Freed \<Rightarrow> Undef ''c_cq''
                             | Buf q \<Rightarrow> if (l + nat cc - 1) div NBBY < length q
                                       then Ok (Buf (clrbits q l (nat cc))) else Undef ''c_cq'') (\<lambda>cq.
                       b_to_q_loop (drop (nat cc) p) (count - cc)
                         (clp\<lparr>c_cs := Buf (take l cs @ take (nat cc) p @ drop (l + nat cc) cs), c_cq := cq,
                              c_cc := c_cc clp + cc,
                              c_cl := Some (if l + nat cc = c_ce clp then 0 else l + nat cc)\<rparr>))
         | _ \<Rightarrow> Undef ''c_cl'')
      else Ok (count, clp))"
  by pat_completeness auto
termination by (relation "measure (\<lambda>(p, count, clp). nat count)") auto

definition b_to_q :: "bool \<Rightarrow> bool \<Rightarrow> u8 list \<Rightarrow> int \<Rightarrow> clist \<Rightarrow> (int \<times> clist) result" where
  "b_to_q m1 m2 cp count clp =
     (if count \<le> 0 then Ok (0, clp)
      else if c_cc clp = c_cn clp then Ok (count, clp)
      else case cl_start m1 m2 clp of
        (False, clp) \<Rightarrow> Ok (count, clp)
      | (True, clp) \<Rightarrow> b_to_q_loop cp count clp)"

section \<open>Scanning\<close>

text \<open>
  The loops of \<open>ndqb\<close>. With a quote flag the code reads the quote bit at \<open>i\<close> after \<open>i++\<close>.
\<close>

fun ndqb_loop :: "u8 list \<Rightarrow> mem option \<Rightarrow> int \<Rightarrow> int \<Rightarrow> nat \<Rightarrow> nat \<Rightarrow> int \<Rightarrow> int result" where
  "ndqb_loop cs cq flag cn i 0 count = Ok count"
| "ndqb_loop cs cq flag cn i (Suc cc) count =
     (if i < length cs then
        bind_r (if uint (cs ! i) AND flag \<noteq> 0 then Ok True
                else case cq of None \<Rightarrow> Ok False
                     | Some Null \<Rightarrow> Undef ''c_cq''
                     | Some q \<Rightarrow> quoted q (i + 1)) (\<lambda>stop.
          if stop then Ok count
          else if int (i + 1) = cn then Ok (count + 1)
          else ndqb_loop cs cq flag cn (i + 1) cc (count + 1))
      else Undef ''c_cs'')"

definition ndqb :: "int \<Rightarrow> clist \<Rightarrow> int result" where
  "ndqb flag clp =
     (if c_cc clp = 0 then Ok 0
      else case (c_cf clp, c_cl clp, c_cs clp) of
        (Some f, Some l, Buf cs) \<Rightarrow>
          if flag = 0
          then Ok (if int l - int f \<le> 0 then int (c_ce clp) - int f else int l - int f)
          else if flag AND TTY_QUOTE \<noteq> 0
          then ndqb_loop cs (Some (c_cq clp)) (flag AND NOT TTY_QUOTE) (c_cn clp) f (nat (c_cc clp)) 0
          else ndqb_loop cs None flag (c_cn clp) f (nat (c_cc clp)) 0
      | _ \<Rightarrow> Undef ''c_cf'')"

text \<open>
  \<open>firstc\<close> and \<open>nextc\<close> walk the queue with the file's static counter \<open>cc\<close>. The result is the pointer
  returned, the character stored through \<open>c\<close> when there is one, and the counter.
\<close>

definition char_at :: "clist \<Rightarrow> nat \<Rightarrow> int result" where
  "char_at clp i = (case c_cs clp of
      Buf cs \<Rightarrow> if i < length cs then bind_r (quoted (c_cq clp) i) (\<lambda>q. Ok (charq (cs ! i) q)) else Undef ''cp''
    | _ \<Rightarrow> Undef ''cp'')"

definition nextc :: "clist \<Rightarrow> nat option \<Rightarrow> int \<Rightarrow> ((nat \<times> int) option \<times> int) result" where
  "nextc clp cp cc =
     (let cc = (if c_cf clp = cp then c_cc clp else cc) in
      case cp of
        None \<Rightarrow> Ok (None, cc)
      | Some i \<Rightarrow>
          if cc = 0 then Ok (None, cc)
          else let cc = cc - 1 in
            if cc = 0 then Ok (None, cc)
            else let i = (if i + 1 = c_ce clp then 0 else i + 1)
                 in bind_r (char_at clp i) (\<lambda>c. Ok (Some (i, c), cc)))"

definition firstc :: "clist \<Rightarrow> ((nat \<times> int) option \<times> int) result" where
  "firstc clp =
     (if c_cc clp = 0 then Ok (None, 0)
      else case c_cf clp of
        None \<Rightarrow> Undef ''c_cf''
      | Some f \<Rightarrow> bind_r (char_at clp f) (\<lambda>c. Ok (Some (f, c), c_cc clp)))"

text \<open>
  \<open>catq\<close> loops until \<open>getc\<close> returns -1. \<open>getc\<close> reads at most \<open>c_cc\<close> characters, so this many
  iterations are enough; one more read ends the loop.
\<close>

fun catq_loop :: "nat \<Rightarrow> bool \<Rightarrow> bool \<Rightarrow> clist \<Rightarrow> clist \<Rightarrow> (clist \<times> clist) result" where
  "catq_loop fuel m1 m2 from to =
     bind_r (getc from) (\<lambda>(c, from).
       if c = -1 then Ok (from, to)
       else case fuel of
         0 \<Rightarrow> Hang
       | Suc n \<Rightarrow> bind_r (putc m1 m2 c to) (\<lambda>(r, to). catq_loop n m1 m2 from to))"

definition catq :: "bool \<Rightarrow> bool \<Rightarrow> clist \<Rightarrow> clist \<Rightarrow> (clist \<times> clist) result" where
  "catq m1 m2 from to = catq_loop (nat (c_cc from)) m1 m2 from to"

declare q_to_b_loop.simps [simp del] ndflush_loop.simps [simp del] b_to_q_loop.simps [simp del]
  catq_loop.simps [simp del]

end
