(* ===== verification/Clist_Ring.thy ===== *)
theory Clist_Ring
  imports Clist
begin

text \<open>
  Correctness of the bit array of quote bits and of the ring: the abstraction of a queue to
  the list of its characters, and how taking from the front and putting behind the end act on it.
\<close>

section \<open>Bit arrays\<close>

lemma isset_iff: "i div 8 < length a \<Longrightarrow> isset a i = bit (a ! (i div 8)) (i mod 8)"
  unfolding isset_def by (simp add: and_exp_eq_0_iff_not_bit push_bit_of_1)

lemma isset_list_update:
  assumes "i div 8 < length a" "j < length a"
  shows "isset (a[j := w]) i = (if i div 8 = j then bit w (i mod 8) else isset a i)"
  using assms by (simp add: isset_iff)

lemma length_setbit [simp]: "length (setbit a i) = length a"
  by (simp add: setbit_def)

lemma length_clrbit [simp]: "length (clrbit a i) = length a"
  by (simp add: clrbit_def)

lemma div_mod_eq: "i div 8 = j div 8 \<Longrightarrow> i mod 8 = j mod (8::nat) \<Longrightarrow> i = j"
  by (metis div_mult_mod_eq)

lemma isset_setbit:
  assumes "j div 8 < length a" "i div 8 < length a"
  shows "isset (setbit a i) j \<longleftrightarrow> j = i \<or> isset a j"
proof (cases "j div 8 = i div 8")
  case True
  have "j mod 8 = i mod 8 \<longleftrightarrow> j = i" using True div_mod_eq by blast
  moreover have "bit (a ! (i div 8) OR push_bit (i mod 8) 1) (j mod 8) \<longleftrightarrow> bit (a ! (i div 8)) (j mod 8) \<or> j mod 8 = i mod 8"
    by (auto simp add: bit_or_iff bit_exp_iff)
  ultimately show ?thesis
    using assms True by (simp add: setbit_def isset_list_update) (auto simp add: isset_iff)
next
  case False
  then show ?thesis using assms by (auto simp add: setbit_def isset_list_update)
qed

lemma isset_clrbit:
  assumes "j div 8 < length a" "i div 8 < length a"
  shows "isset (clrbit a i) j \<longleftrightarrow> j \<noteq> i \<and> isset a j"
proof (cases "j div 8 = i div 8")
  case True
  have "j mod 8 = i mod 8 \<longleftrightarrow> j = i" using True div_mod_eq by blast
  moreover have "bit (a ! (i div 8) AND NOT (push_bit (i mod 8) 1)) (j mod 8) \<longleftrightarrow> bit (a ! (i div 8)) (j mod 8) \<and> j mod 8 \<noteq> i mod 8"
    by (auto simp add: bit_and_iff bit_not_iff bit_exp_iff)
  ultimately show ?thesis
    using assms True by (simp add: clrbit_def isset_list_update) (auto simp add: isset_iff)
next
  case False
  then show ?thesis using assms by (auto simp add: clrbit_def isset_list_update)
qed

lemma length_fold_update [simp]: "length (fold (\<lambda>i cp. cp[i := v]) is cp) = length cp"
  by (induction "is" arbitrary: cp) auto

lemma nth_fold_update:
  "k < length cp \<Longrightarrow> fold (\<lambda>i cp. cp[i := v]) is cp ! k = (if k \<in> set is then v else cp ! k)"
  by (induction "is" arbitrary: cp) auto

lemma length_clrbits [simp]: "length (clrbits cp off len) = length cp"
  by (simp add: clrbits_def Let_def)

lemma exp_minus_mask: "push_bit n 1 - 1 = (mask n :: int)"
  by (simp add: mask_eq_exp_minus_1 push_bit_eq_mult)

lemma bit_mask8: "bit (word_of_int (push_bit n 1 - 1) :: u8) k \<longleftrightarrow> k < 8 \<and> k < n"
  unfolding exp_minus_mask by (simp add: bit_word_of_int_iff bit_mask_iff)

lemma bit_field8: "bit (word_of_int (push_bit s (push_bit n 1 - 1)) :: u8) k \<longleftrightarrow> k < 8 \<and> s \<le> k \<and> k < s + n"
  unfolding exp_minus_mask by (auto simp add: bit_word_of_int_iff bit_mask_iff bit_push_bit_iff)

lemma lex8: "a < 8 \<Longrightarrow> b < 8 \<Longrightarrow> 8 * x + a \<le> 8 * y + b \<longleftrightarrow> x < y \<or> x = y \<and> a \<le> (b::nat)"
  by linarith

lemma isset_clrbits:
  assumes "0 < len" "(off + len - 1) div 8 < length cp" "j div 8 < length cp"
  shows "isset (clrbits cp off len) j \<longleftrightarrow> \<not> (off \<le> j \<and> j < off + len) \<and> isset cp j"
proof (cases "len = 1")
  case True
  then show ?thesis using assms by (auto simp add: clrbits_def isset_clrbit)
next
  case False
  define s b e f where d: "s = off div 8" "b = off mod 8" "e = (off + (len - 1)) div 8" "f = (off + (len - 1)) mod 8 + 1"
  have off: "off = 8 * s + b" "b < 8" and top: "off + (len - 1) = 8 * e + (f - 1)" "0 < f" "f \<le> 8"
    unfolding d by simp_all
  have j: "j = 8 * (j div 8) + j mod 8" "j mod 8 < 8" by simp_all
  have el: "e < length cp" using assms(1,2) by (simp add: d(3))
  have se: "s \<le> e" unfolding d by (intro div_le_mono) simp
  have sl: "s < length cp" using se el by simp
  have inr: "off \<le> j \<and> j < off + len \<longleftrightarrow>
      (if s = e then j div 8 = s \<and> b \<le> j mod 8 \<and> j mod 8 < f
       else j div 8 = s \<and> b \<le> j mod 8 \<or> j div 8 = e \<and> j mod 8 < f \<or> s < j div 8 \<and> j div 8 < e)"
  proof -
    have lo: "off \<le> j \<longleftrightarrow> s < j div 8 \<or> s = j div 8 \<and> b \<le> j mod 8"
      using lex8 [of b "j mod 8" s "j div 8"] off j by simp
    have "j < off + len \<longleftrightarrow> j \<le> off + (len - 1)" using assms(1) by auto
    also have "\<dots> \<longleftrightarrow> j div 8 < e \<or> j div 8 = e \<and> j mod 8 \<le> f - 1"
      using lex8 [of "j mod 8" "f - 1" "j div 8" e] top j by simp
    also have "\<dots> \<longleftrightarrow> j div 8 < e \<or> j div 8 = e \<and> j mod 8 < f" using top(2) by auto
    finally show ?thesis using lo se by auto
  qed
  show ?thesis
  proof (cases "s = e")
    case True
    define M where "M = (word_of_int (push_bit b (push_bit (f - b) 1 - 1)) :: u8)"
    have M: "bit M k \<longleftrightarrow> k < 8 \<and> b \<le> k \<and> k < b + (f - b)" for k unfolding M_def by (rule bit_field8)
    have "clrbits cp off len = cp[s := cp ! s AND NOT M]"
      using False True unfolding clrbits_def Let_def d M_def by simp
    moreover have "isset (cp[s := cp ! s AND NOT M]) j \<longleftrightarrow>
        (if j div 8 = s then isset cp j \<and> \<not> (b \<le> j mod 8 \<and> j mod 8 < f) else isset cp j)"
      using assms(3) sl by (auto simp add: isset_list_update isset_iff bit_and_iff bit_not_iff M)
    ultimately show ?thesis unfolding inr using True by auto
  next
    case ne: False
    define M N where MN: "M = (word_of_int (push_bit b 1 - 1) :: u8)" "N = (word_of_int (push_bit f 1 - 1) :: u8)"
    have M: "bit M k \<longleftrightarrow> k < 8 \<and> k < b" and N: "bit N k \<longleftrightarrow> k < 8 \<and> k < f" for k
      unfolding MN by (rule bit_mask8)+
    let ?c1 = "cp[s := cp ! s AND M]"
    let ?c2 = "?c1[e := ?c1 ! e AND NOT N]"
    have "clrbits cp off len = fold (\<lambda>i cp. cp[i := 0]) [s + 1..<e] ?c2"
      using False ne unfolding clrbits_def Let_def d MN by simp
    moreover have "isset (fold (\<lambda>i cp. cp[i := 0]) [s + 1..<e] ?c2) j \<longleftrightarrow>
        (if s < j div 8 \<and> j div 8 < e then False
         else if j div 8 = e then isset cp j \<and> \<not> j mod 8 < f
         else if j div 8 = s then isset cp j \<and> j mod 8 < b else isset cp j)"
      using ne se assms(3) sl el
      by (auto simp add: isset_iff nth_fold_update nth_list_update bit_and_iff bit_not_iff M N)
    ultimately show ?thesis unfolding inr using ne se by auto
  qed
qed

section \<open>The ring\<close>

definition bytes :: "mem \<Rightarrow> u8 list" where
  "bytes b = (case b of Buf cs \<Rightarrow> cs | _ \<Rightarrow> [])"

definition qbit :: "mem \<Rightarrow> nat \<Rightarrow> bool" where
  "qbit cq i = (case cq of Buf q \<Rightarrow> isset q i | _ \<Rightarrow> False)"

text \<open>
  The buffer is live and has the size the length fields say, the quote bits cover it, and
  the count fits.
\<close>

definition buf_ok :: "clist \<Rightarrow> bool" where
  "buf_ok clp \<longleftrightarrow> c_cs clp = Buf (bytes (c_cs clp)) \<and> 0 < c_ce clp \<and> length (bytes (c_cs clp)) = c_ce clp \<and>
     c_cn clp = int (c_ce clp) \<and> (c_cq clp = Null \<or> c_cq clp = Buf (bytes (c_cq clp)) \<and> length (bytes (c_cq clp)) = QMEM (c_ce clp)) \<and>
     0 \<le> c_cc clp \<and> c_cc clp \<le> c_cn clp"

definition ring_at :: "nat \<Rightarrow> clist \<Rightarrow> bool" where
  "ring_at f clp \<longleftrightarrow> buf_ok clp \<and> c_cf clp = Some f \<and> f < c_ce clp \<and>
     c_cl clp = Some ((f + nat (c_cc clp)) mod c_ce clp)"

definition cl_ok :: "clist \<Rightarrow> bool" where
  "cl_ok clp \<longleftrightarrow> (if c_cc clp = 0 then buf_ok clp \<and> c_cf clp = None \<and> c_cl clp = None
                 else case c_cf clp of None \<Rightarrow> False | Some f \<Rightarrow> ring_at f clp)"

definition slot :: "clist \<Rightarrow> nat \<Rightarrow> u8 \<times> bool" where
  "slot clp i = (bytes (c_cs clp) ! (i mod c_ce clp), qbit (c_cq clp) (i mod c_ce clp))"

definition items :: "nat \<Rightarrow> clist \<Rightarrow> (u8 \<times> bool) list" where
  "items f clp = map (\<lambda>k. slot clp (f + k)) [0..<nat (c_cc clp)]"

text \<open>The abstraction: the characters of the queue, first to last, with their quote bits.\<close>

definition contents :: "clist \<Rightarrow> (u8 \<times> bool) list" where
  "contents clp = (case c_cf clp of None \<Rightarrow> [] | Some f \<Rightarrow> items f clp)"

definition capacity :: "clist \<Rightarrow> nat" where
  "capacity clp = c_ce clp"

lemma length_items [simp]: "length (items f clp) = nat (c_cc clp)"
  by (simp add: items_def)

lemma nth_items: "k < nat (c_cc clp) \<Longrightarrow> items f clp ! k = slot clp (f + k)"
  by (simp add: items_def)

lemma ring_contents: "ring_at f clp \<Longrightarrow> contents clp = items f clp"
  by (simp add: ring_at_def contents_def)

lemma contents_empty: "cl_ok clp \<Longrightarrow> c_cc clp = 0 \<Longrightarrow> contents clp = []"
  by (simp add: cl_ok_def contents_def)

lemma cl_ok_ring: "cl_ok clp \<Longrightarrow> c_cc clp \<noteq> 0 \<Longrightarrow> \<exists>f. ring_at f clp"
  by (auto simp: cl_ok_def split: option.splits)

lemma ring_cl_ok: "ring_at f clp \<Longrightarrow> c_cc clp \<noteq> 0 \<Longrightarrow> cl_ok clp"
  by (simp add: cl_ok_def ring_at_def)

lemma cl_ok_buf: "cl_ok clp \<Longrightarrow> buf_ok clp"
  by (auto simp: cl_ok_def ring_at_def split: if_splits option.splits)

lemma length_contents: "cl_ok clp \<Longrightarrow> length (contents clp) = nat (c_cc clp)"
  using contents_empty cl_ok_ring ring_contents by (cases "c_cc clp = 0") fastforce+

lemma cl_reset_ok:
  assumes "ring_at f clp"
  shows "cl_ok (cl_reset clp)" "contents (cl_reset clp) = items f clp" "c_ce (cl_reset clp) = c_ce clp"
proof -
  show "cl_ok (cl_reset clp)"
    using assms by (auto simp: cl_reset_def cl_ok_def ring_at_def buf_ok_def)
  show "contents (cl_reset clp) = items f clp"
    using assms by (auto simp: cl_reset_def contents_def ring_at_def items_def)
qed (simp add: cl_reset_def)

lemma wrap_mod: "f + n \<le> N \<Longrightarrow> 0 < N \<Longrightarrow> (if f + n = N then 0 else f + n) = (f + n) mod (N::nat)"
  by auto

lemma quoted_ok:
  assumes "buf_ok clp" "i < c_ce clp"
  shows "quoted (c_cq clp) i = Ok (qbit (c_cq clp) i)"
proof -
  have "i div 8 \<le> (c_ce clp - 1) div 8" using assms(2) by (intro div_le_mono) simp
  then have lt: "i div 8 < QMEM (c_ce clp)" by (simp add: QMEM_def)
  from assms(1) consider "c_cq clp = Null" | q where "c_cq clp = Buf q" "length q = QMEM (c_ce clp)"
    unfolding buf_ok_def bytes_def by (cases "c_cq clp") auto
  then show ?thesis using lt by cases (simp_all add: quoted_def qbit_def)
qed

lemma slot_mod [simp]: "slot clp (i mod c_ce clp) = slot clp i" 
  by (simp add: slot_def)

lemma slot_cong: "i mod c_ce clp = j mod c_ce clp \<Longrightarrow> slot clp i = slot clp j"
  by (simp add: slot_def)

text \<open>Taking \<open>n\<close> characters off the front.\<close>

lemma ring_drop:
  assumes r: "ring_at f clp" and n: "int n \<le> c_cc clp"
    and new: "buf_ok clp'" "c_cc clp' = c_cc clp - int n" "c_ce clp' = c_ce clp" "c_cl clp' = c_cl clp"
      "c_cf clp' = Some ((f + n) mod c_ce clp)"
    and same: "\<And>k. n \<le> k \<Longrightarrow> k < nat (c_cc clp) \<Longrightarrow> slot clp' (f + k) = slot clp (f + k)"
  shows "ring_at ((f + n) mod c_ce clp) clp'" "items ((f + n) mod c_ce clp) clp' = drop n (items f clp)"
proof -
  have e: "0 < c_ce clp" "c_cc clp \<ge> 0" using r by (auto simp: ring_at_def buf_ok_def)
  have "nat (c_cc clp) = n + nat (c_cc clp')" using n e new(2) by linarith
  then show "ring_at ((f + n) mod c_ce clp) clp'"
    using r new e by (simp add: ring_at_def mod_add_left_eq add.assoc)
  show "items ((f + n) mod c_ce clp) clp' = drop n (items f clp)"
  proof (rule nth_equalityI)
    show "length (items ((f + n) mod c_ce clp) clp') = length (drop n (items f clp))"
      using n new(2) by simp
  next
    fix k assume "k < length (items ((f + n) mod c_ce clp) clp')"
    then have k: "k < nat (c_cc clp')" by simp
    have "items ((f + n) mod c_ce clp) clp' ! k = slot clp' (f + (n + k))"
      using k new(3) by (simp add: nth_items) (rule slot_cong, simp add: mod_add_left_eq add.assoc)
    also have "\<dots> = slot clp (f + (n + k))" using k new(2) by (intro same) auto
    also have "\<dots> = drop n (items f clp) ! k" using k new(2) n by (simp add: nth_items)
    finally show "items ((f + n) mod c_ce clp) clp' ! k = drop n (items f clp) ! k" .
  qed
qed

lemma mod_shift_le: "j \<le> k \<Longrightarrow> k < N \<Longrightarrow> (f + j) mod N = (f + k) mod N \<Longrightarrow> j = (k::nat)"
  using mod_eq_dvd_iff_nat [of "f + j" "f + k" N] nat_dvd_not_less [of "k - j" N] by fastforce

lemma mod_shift_inj: "j < N \<Longrightarrow> k < N \<Longrightarrow> (f + j) mod N = (f + k) mod N \<Longrightarrow> j = (k::nat)"
  using mod_shift_le [of j k N f] mod_shift_le [of k j N f] by (cases "j \<le> k") simp_all

text \<open>Putting \<open>n\<close> characters behind the last.\<close>

lemma ring_append:
  assumes r: "ring_at f clp" and n: "c_cc clp + int n \<le> c_cn clp"
    and new: "buf_ok clp'" "c_cc clp' = c_cc clp + int n" "c_ce clp' = c_ce clp" "c_cf clp' = c_cf clp"
      "c_cl clp' = Some ((f + nat (c_cc clp) + n) mod c_ce clp)"
    and old: "\<And>i. i < c_ce clp \<Longrightarrow> (\<And>j. j < n \<Longrightarrow> i \<noteq> (f + nat (c_cc clp) + j) mod c_ce clp) \<Longrightarrow> slot clp' i = slot clp i"
    and ins: "\<And>j. j < n \<Longrightarrow> slot clp' (f + nat (c_cc clp) + j) = xs ! j" and len: "length xs = n"
  shows "ring_at f clp'" "items f clp' = items f clp @ xs"
proof -
  have e: "0 < c_ce clp" "c_cc clp \<ge> 0" "c_cn clp = int (c_ce clp)" using r by (auto simp: ring_at_def buf_ok_def)
  have cc: "nat (c_cc clp') = nat (c_cc clp) + n" using e(2) new(2) by linarith
  show "ring_at f clp'" using r new cc by (simp add: ring_at_def add.assoc)
  show "items f clp' = items f clp @ xs"
  proof (rule nth_equalityI)
    show "length (items f clp') = length (items f clp @ xs)" by (simp add: cc len)
  next
    fix k assume "k < length (items f clp')"
    then have k: "k < nat (c_cc clp) + n" by (simp add: cc)
    show "items f clp' ! k = (items f clp @ xs) ! k"
    proof (cases "k < nat (c_cc clp)")
      case True
      have "slot clp' ((f + k) mod c_ce clp) = slot clp ((f + k) mod c_ce clp)"
      proof (rule old)
        show "(f + k) mod c_ce clp \<noteq> (f + nat (c_cc clp) + j) mod c_ce clp" if j: "j < n" for j
        proof
          assume eq: "(f + k) mod c_ce clp = (f + nat (c_cc clp) + j) mod c_ce clp"
          have "k < c_ce clp" "nat (c_cc clp) + j < c_ce clp" using True j n e by linarith+
          with eq have "k = nat (c_cc clp) + j" by (metis add.assoc mod_shift_inj)
          then show False using True by simp
        qed
      qed (use e in simp)
      then have "slot clp' (f + k) = slot clp (f + k)" using new(3) slot_mod by metis
      then show ?thesis using True k by (simp add: nth_items cc nth_append)
    next
      case False
      then obtain j where j: "k = nat (c_cc clp) + j" "j < n" using k le_Suc_ex by (metis nat_add_left_cancel_less not_less)
      then have "items f clp' ! k = xs ! j" using ins [of j] cc by (simp add: nth_items add.assoc)
      then show ?thesis using j by (simp add: nth_append)
    qed
  qed
qed

end
