(* ===== verification/Clist_Ops.thy ===== *)
theory Clist_Ops
  imports Clist_Ring
begin

text \<open>
  Every operation of the character queues commutes with the abstraction to a list of
  characters: one lemma per operation, for every well-formed queue, with its return value.
\<close>

section \<open>Characters\<close>

lemma mask8_int: "(255::int) = mask 8"
  by (simp add: mask_eq_exp_minus_1)

lemma charq_byte [simp]: "word_of_int (charq b q AND 255) = b"
proof (rule bit_word_eqI)
  fix n assume n: "n < LENGTH(8)"
  have "bit (256::int) n \<longleftrightarrow> n = 8" using bit_exp_iff [of 8 n, where ?'a = int] by simp
  with n show "bit (word_of_int (charq b q AND 255) :: u8) n = bit b n"
    unfolding charq_def mask8_int
    by (auto simp add: bit_word_of_int_iff bit_and_iff bit_or_iff bit_mask_iff bit_uint_iff)
qed

lemma charq_nonneg [simp]: "0 \<le> charq b q"
  by (simp add: charq_def OR_upper)

lemma charq_not_EOF [simp]: "charq b q \<noteq> -1"
  using charq_nonneg [of b q] by linarith

lemma charq_quote [simp]: "charq b q AND 256 \<noteq> 0 \<longleftrightarrow> q"
proof -
  have e: "x AND 256 \<noteq> 0 \<longleftrightarrow> bit x 8" for x :: int
    using and_exp_eq_0_iff_not_bit [of x 8] by simp
  have "bit (256::int) 8" using bit_exp_iff [of 8 8, where ?'a = int] by simp
  then show ?thesis unfolding e charq_def by (auto simp add: bit_or_iff bit_uint_iff)
qed

definition quoting :: "clist \<Rightarrow> bool" where
  "quoting clp \<longleftrightarrow> c_cq clp \<noteq> Null"

lemma quoting_reset [simp]: "quoting (cl_reset clp) = quoting clp"
  by (simp add: quoting_def cl_reset_def)

lemma ring_facts:
  assumes "ring_at f clp"
  shows "f < c_ce clp" "0 < c_ce clp" "c_cf clp = Some f" "c_cl clp = Some ((f + nat (c_cc clp)) mod c_ce clp)"
    "0 \<le> c_cc clp" "c_cc clp \<le> int (c_ce clp)" "c_cn clp = int (c_ce clp)" "buf_ok clp"
  using assms by (auto simp: ring_at_def buf_ok_def)

lemma buf_okE:
  assumes "buf_ok clp"
  obtains cs where "c_cs clp = Buf cs" "length cs = c_ce clp" "bytes (c_cs clp) = cs"
  using assms by (auto simp: buf_ok_def)

lemma bytes_Buf [simp]: "bytes (Buf cs) = cs"
  by (simp add: bytes_def)

lemma slot_first: "ring_at f clp \<Longrightarrow> slot clp f = (bytes (c_cs clp) ! f, qbit (c_cq clp) f)"
  by (simp add: slot_def ring_facts(1))

lemma getc_spec:
  assumes "cl_ok clp"
  shows "\<exists>clp'. getc clp = Ok (case contents clp of [] \<Rightarrow> -1 | (b, q) # _ \<Rightarrow> charq b q, clp') \<and>
      cl_ok clp' \<and> contents clp' = tl (contents clp) \<and> capacity clp' = capacity clp \<and> quoting clp' = quoting clp"
proof (cases "c_cc clp = 0")
  case True
  then show ?thesis using assms by (simp add: getc_def contents_empty)
next
  case False
  then obtain f where r: "ring_at f clp" using assms cl_ok_ring by blast
  note F = ring_facts [OF r]
  obtain cs where cs: "c_cs clp = Buf cs" "length cs = c_ce clp" "bytes (c_cs clp) = cs" using F(8) by (rule buf_okE)
  define clp1 where "clp1 = clp\<lparr>c_cs := Buf (cs[f := 0]), c_cf := Some ((f + 1) mod c_ce clp), c_cc := c_cc clp - 1\<rparr>"
  have pos: "0 < c_cc clp" using False F(5) by simp
  have wrap: "(if f + 1 = c_ce clp then 0 else f + 1) = (f + 1) mod c_ce clp"
    by (rule wrap_mod) (use F(1) in simp_all)
  have code: "getc clp = Ok (charq (cs ! f) (qbit (c_cq clp) f), cl_reset clp1)"
    unfolding getc_def wrap using False F(1,3) cs(1,2) quoted_ok [OF F(8,1)]
    by (simp add: Let_def cl_reset_def clp1_def)
  have same: "slot clp1 (f + k) = slot clp (f + k)" if "1 \<le> k" "k < nat (c_cc clp)" for k
  proof -
    have "k < c_ce clp" using that F(6) by linarith
    then have "(f + k) mod c_ce clp \<noteq> f" using mod_shift_inj [of k "c_ce clp" 0 f] that(1) F(1) by auto
    then show ?thesis by (simp add: slot_def clp1_def cs)
  qed
  have "buf_ok clp1" using F pos cs by (simp add: buf_ok_def clp1_def)
  note D = ring_drop [OF r, of 1 clp1, OF _ this]
  have drop: "ring_at ((f + 1) mod c_ce clp) clp1" "items ((f + 1) mod c_ce clp) clp1 = drop 1 (items f clp)"
    using D pos same by (simp_all add: clp1_def)
  have hd: "items f clp ! 0 = (cs ! f, qbit (c_cq clp) f)" using pos slot_first [OF r] cs by (simp add: nth_items)
  have ne: "items f clp \<noteq> []" using pos length_items [of f clp] by (metis list.size(3) less_irrefl zero_less_nat_eq)
  then obtain xs where xs: "items f clp = (cs ! f, qbit (c_cq clp) f) # xs" using hd by (cases "items f clp") auto
  show ?thesis
    using code cl_reset_ok [OF drop(1)] drop(2) ring_contents [OF r] xs
    by (auto simp: capacity_def drop_Suc clp1_def quoting_def cl_reset_def)
qed

lemma cl_start_ring:
  assumes "cl_ok clp"
  shows "\<exists>f clp1. cl_start m1 m2 clp = (True, clp1) \<and> ring_at f clp1 \<and> items f clp1 = contents clp \<and>
      c_ce clp1 = c_ce clp \<and> c_cq clp1 = c_cq clp \<and> c_cc clp1 = c_cc clp \<and> c_cn clp1 = c_cn clp"
proof (cases "c_cc clp = 0")
  case True
  have b: "buf_ok clp" using assms by (rule cl_ok_buf)
  then obtain cs where cs: "c_cs clp = Buf cs" "length cs = c_ce clp" "bytes (c_cs clp) = cs" by (rule buf_okE)
  have "ring_at 0 (clp\<lparr>c_cf := Some 0, c_cl := Some 0\<rparr>)"
    using b True by (auto simp: ring_at_def buf_ok_def)
  moreover have "cl_start m1 m2 clp = (True, clp\<lparr>c_cf := Some 0, c_cl := Some 0\<rparr>)"
    using True cs(1) by (simp add: cl_start_def)
  ultimately show ?thesis using True contents_empty [OF assms True] by (auto simp: items_def)
next
  case False
  then show ?thesis using cl_ok_ring [OF assms] ring_contents by (auto simp: cl_start_def)
qed

lemma full_iff: "cl_ok clp \<Longrightarrow> c_cc clp = c_cn clp \<longleftrightarrow> length (contents clp) = capacity clp"
  using length_contents [of clp] cl_ok_buf [of clp] by (auto simp: capacity_def buf_ok_def)

text \<open>One character written at the end: \<open>cq'\<close> has the quote bit of that position set to \<open>q\<close>.\<close>

lemma ring_put:
  assumes r: "ring_at f clp" and room: "c_cc clp < c_cn clp"
    and cs: "c_cs clp = Buf cs" and l: "l = (f + nat (c_cc clp)) mod c_ce clp"
    and cq': "(cq' = Null \<or> (\<exists>q. cq' = Buf q \<and> length q = QMEM (c_ce clp)))"
      "\<And>i. i < c_ce clp \<Longrightarrow> qbit cq' i = (if i = l then q else qbit (c_cq clp) i)"
    and clp': "clp' = clp\<lparr>c_cs := Buf (cs[l := b]), c_cq := cq', c_cc := c_cc clp + 1,
                 c_cl := Some (if l + 1 = c_ce clp then 0 else l + 1)\<rparr>"
  shows "ring_at f clp'" "items f clp' = items f clp @ [(b, q)]"
proof -
  note F = ring_facts [OF r]
  have ll: "l < c_ce clp" using l F(2) by simp
  have len: "length cs = c_ce clp" using F(8) cs by (auto simp: buf_ok_def)
  have wrap: "(if l + 1 = c_ce clp then 0 else l + 1) = (f + nat (c_cc clp) + 1) mod c_ce clp"
    by (rule trans [OF wrap_mod]) (use ll F(2) in \<open>simp_all add: l mod_Suc_eq Suc_le_eq\<close>)
  have b': "buf_ok clp'" using F room cq'(1) len by (auto simp: buf_ok_def clp')
  have new: "slot clp' i = (if i = l then (b, q) else slot clp i)" if "i < c_ce clp" for i
    using that cq'(2) [of i] len cs by (simp add: slot_def clp')
  note A = ring_append [OF r, of 1 clp' "[(b, q)]", OF _ b']
  have sl: "slot clp' (f + nat (c_cc clp)) = (b, q)"
    using new [OF ll] slot_mod [of clp' "f + nat (c_cc clp)"] by (simp add: clp' l)
  show "ring_at f clp'" "items f clp' = items f clp @ [(b, q)]"
    using A room new sl wrap l by (simp_all add: clp')
qed

lemma putc_spec:
  assumes "cl_ok clp"
  shows "\<exists>clp'. putc m1 m2 c clp = Ok (if length (contents clp) = capacity clp then -1 else 0, clp') \<and>
      cl_ok clp' \<and> capacity clp' = capacity clp \<and> quoting clp' = quoting clp \<and>
      contents clp' = (if length (contents clp) = capacity clp then contents clp
        else contents clp @ [(word_of_int (c AND 255), quoting clp \<and> c AND 256 \<noteq> 0)])"
proof (cases "c_cc clp = c_cn clp")
  case True
  then show ?thesis using assms full_iff [OF assms] by (simp add: putc_def)
next
  case False
  obtain f clp1 where st: "cl_start m1 m2 clp = (True, clp1)" and r: "ring_at f clp1" and it: "items f clp1 = contents clp"
    and eq: "c_ce clp1 = c_ce clp" "c_cq clp1 = c_cq clp" "c_cc clp1 = c_cc clp" "c_cn clp1 = c_cn clp"
    using cl_start_ring [OF assms] by blast
  note F = ring_facts [OF r]
  obtain cs where cs: "c_cs clp1 = Buf cs" "length cs = c_ce clp1" "bytes (c_cs clp1) = cs" using F(8) by (rule buf_okE)
  define l where "l = (f + nat (c_cc clp1)) mod c_ce clp1"
  define w where "w = (word_of_int (c AND 255) :: u8)"
  define cq' where "cq' = (case c_cq clp1 of Buf q \<Rightarrow> Buf (if c AND 256 \<noteq> 0 then setbit q l else clrbit q l) | x \<Rightarrow> x)"
  define clp' where "clp' = clp1\<lparr>c_cs := Buf (cs[l := w]), c_cq := cq', c_cc := c_cc clp1 + 1,
      c_cl := Some (if l + 1 = c_ce clp1 then 0 else l + 1)\<rparr>"
  have room: "c_cc clp1 < c_cn clp1" using False F(6,7) eq by simp
  have ll: "l < c_ce clp1" using F(2) by (simp add: l_def)
  from F(8) consider "c_cq clp1 = Null" | q where "c_cq clp1 = Buf q" "length q = QMEM (c_ce clp1)"
    unfolding buf_ok_def bytes_def by (cases "c_cq clp1") auto
  then have q': "putc m1 m2 c clp = Ok (0, clp') \<and> (cq' = Null \<or> (\<exists>q. cq' = Buf q \<and> length q = QMEM (c_ce clp1))) \<and>
      (\<forall>i < c_ce clp1. qbit cq' i = (if i = l then quoting clp1 \<and> c AND 256 \<noteq> 0 else qbit (c_cq clp1) i)) \<and>
      (cq' = Null \<longleftrightarrow> c_cq clp1 = Null)"
  proof cases
    case 1
    then show ?thesis
      using False st F(4) cs(1,2) ll by (auto simp: putc_def l_def [symmetric] clp'_def cq'_def qbit_def quoting_def w_def)
  next
    case (2 q)
    have lt: "i div 8 < length q" if "i < c_ce clp1" for i
      using div_le_mono [of i "c_ce clp1 - 1" 8] that 2(2) by (simp add: QMEM_def)
    show ?thesis
      using False st F(4) cs(1,2) ll 2 lt lt [OF ll]
      by (auto simp: putc_def l_def [symmetric] clp'_def cq'_def qbit_def quoting_def w_def isset_setbit isset_clrbit)
  qed
  have "ring_at f clp'" "items f clp' = items f clp1 @ [(w, quoting clp1 \<and> c AND 256 \<noteq> 0)]"
    using ring_put [OF r room cs(1) l_def _ _ clp'_def] q' by blast+
  moreover have "c_cc clp' \<noteq> 0" using F(5) by (simp add: clp'_def)
  ultimately show ?thesis
    using q' ring_cl_ok ring_contents it False eq full_iff [OF assms]
    by (auto simp: capacity_def clp'_def quoting_def w_def)
qed

lemma pred_mod:
  assumes "0 < c" "0 < (n::nat)"
  shows "(if (f + c) mod n = 0 then n - 1 else (f + c) mod n - 1) = (f + (c - 1)) mod n"
proof -
  have "f + c = Suc (f + (c - 1))" using assms(1) by simp
  then show ?thesis using assms(2) by (simp only: mod_Suc) auto
qed

lemma unputc_spec:
  assumes "cl_ok clp"
  shows "\<exists>clp'. unputc clp = Ok (case rev (contents clp) of [] \<Rightarrow> -1 | (b, q) # _ \<Rightarrow> charq b q, clp') \<and>
      cl_ok clp' \<and> contents clp' = butlast (contents clp) \<and> capacity clp' = capacity clp \<and> quoting clp' = quoting clp"
proof (cases "c_cc clp = 0")
  case True
  then show ?thesis using assms by (simp add: unputc_def contents_empty)
next
  case False
  then obtain f where r: "ring_at f clp" using assms cl_ok_ring by blast
  note F = ring_facts [OF r]
  obtain cs where cs: "c_cs clp = Buf cs" "length cs = c_ce clp" "bytes (c_cs clp) = cs" using F(8) by (rule buf_okE)
  define l where "l = (f + (nat (c_cc clp) - 1)) mod c_ce clp"
  define clp1 where "clp1 = clp\<lparr>c_cl := Some l, c_cc := c_cc clp - 1\<rparr>"
  have pos: "0 < nat (c_cc clp)" using False F(5) by simp
  have ll: "l < c_ce clp" using F(2) by (simp add: l_def)
  have code: "unputc clp = Ok (charq (cs ! l) (qbit (c_cq clp) l), cl_reset clp1)"
    unfolding unputc_def F(4) cs(1) using False cs(2) ll quoted_ok [OF F(8) ll] pred_mod [OF pos F(2), of f]
    by (simp add: Let_def cl_reset_def clp1_def l_def)
  have cc1: "nat (c_cc clp1) = nat (c_cc clp) - 1" by (simp add: clp1_def)
  have r1: "ring_at f clp1"
    using r pos cc1 by (auto simp: ring_at_def buf_ok_def clp1_def l_def)
  have sl: "slot clp1 = slot clp" by (rule ext) (simp add: slot_def clp1_def)
  have it: "items f clp = items f clp1 @ [(cs ! l, qbit (c_cq clp) l)]"
  proof -
    have "[0..<nat (c_cc clp)] = [0..<nat (c_cc clp1)] @ [nat (c_cc clp) - 1]"
      using pos cc1 by (metis Suc_pred' diff_Suc_1 upt_Suc_append zero_le)
    moreover have "slot clp (f + (nat (c_cc clp) - 1)) = (cs ! l, qbit (c_cq clp) l)"
      using cs by (simp add: slot_def l_def)
    ultimately show ?thesis by (simp add: items_def sl)
  qed
  show ?thesis
    using code cl_reset_ok [OF r1] it ring_contents [OF r] by (auto simp: capacity_def clp1_def quoting_def cl_reset_def)
qed

section \<open>Blocks\<close>

lemma ring_end: "f < ce \<Longrightarrow> cc \<le> ce \<Longrightarrow> (f + cc) mod ce = (if f + cc < ce then f + cc else f + cc - (ce::nat))"
  by (auto simp: mod_if)

lemma chunk_out_ok:
  assumes "ring_at f clp" "0 < count" "0 < c_cc clp" "c_cl clp = Some l"
  defines "n \<equiv> chunk_out count (c_ce clp) f l"
  shows "0 < n" "n \<le> count" "n \<le> c_cc clp" "f + nat n \<le> c_ce clp"
proof -
  note F = ring_facts [OF assms(1)]
  have "nat (c_cc clp) \<le> c_ce clp" using F(6) by simp
  then have l: "l = (if f + nat (c_cc clp) < c_ce clp then f + nat (c_cc clp) else f + nat (c_cc clp) - c_ce clp)"
    using F(1,4) assms(4) ring_end by auto
  show "0 < n" "n \<le> count" "n \<le> c_cc clp" "f + nat n \<le> c_ce clp"
    using l F(1,6) assms(2,3) unfolding n_def chunk_out_def Let_def by (auto split: if_splits)
qed

lemma items_block:
  assumes "ring_at f clp" "c_cs clp = Buf cs" "n \<le> nat (c_cc clp)" "f + n \<le> c_ce clp"
  shows "map fst (take n (items f clp)) = take n (drop f cs)"
proof (rule nth_equalityI)
  have len: "length cs = c_ce clp" using assms(1,2) by (auto simp: ring_at_def buf_ok_def)
  show "length (map fst (take n (items f clp))) = length (take n (drop f cs))"
    using assms len by simp
  show "map fst (take n (items f clp)) ! k = take n (drop f cs) ! k" if "k < length (map fst (take n (items f clp)))" for k
    using that assms len by (simp add: nth_items slot_def)
qed

lemma ring_take:
  assumes "ring_at f clp" "n \<le> nat (c_cc clp)" "f + n \<le> c_ce clp"
    and "clp' = clp\<lparr>c_cc := c_cc clp - int n, c_cf := Some (if f + n = c_ce clp then 0 else f + n)\<rparr>"
  shows "ring_at ((f + n) mod c_ce clp) clp'" "items ((f + n) mod c_ce clp) clp' = drop n (items f clp)"
proof -
  note F = ring_facts [OF assms(1)]
  have "buf_ok clp'" using F assms by (auto simp: buf_ok_def)
  note D = ring_drop [OF assms(1), of n clp', OF _ this]
  show "ring_at ((f + n) mod c_ce clp) clp'" "items ((f + n) mod c_ce clp) clp' = drop n (items f clp)"
    using D assms F(2,5) wrap_mod [OF assms(3) F(2)] by (simp_all add: slot_def)
qed

lemma q_to_b_loop_spec:
  assumes "ring_at f clp"
  shows "\<exists>f' clp'. q_to_b_loop count p clp = Ok (p @ map fst (take (nat count) (items f clp)), clp') \<and>
      ring_at f' clp' \<and> items f' clp' = drop (nat count) (items f clp) \<and> c_ce clp' = c_ce clp \<and> quoting clp' = quoting clp"
  using assms
proof (induction "nat count" arbitrary: count p clp f rule: less_induct)
  case less
  note F = ring_facts [OF less.prems]
  obtain cs where cs: "c_cs clp = Buf cs" "length cs = c_ce clp" "bytes (c_cs clp) = cs" using F(8) by (rule buf_okE)
  show ?case
  proof (cases "0 < count \<and> 0 < c_cc clp")
    case False
    then have "take (nat count) (items f clp) = []" "drop (nat count) (items f clp) = items f clp" by (auto simp: items_def)
    then show ?thesis using False less.prems by (subst q_to_b_loop.simps) auto
  next
    case True
    let ?l = "(f + nat (c_cc clp)) mod c_ce clp"
    define n where "n = chunk_out count (c_ce clp) f ?l"
    have n: "0 < n" "n \<le> count" "n \<le> c_cc clp" "f + nat n \<le> c_ce clp"
      using chunk_out_ok [OF less.prems, of count ?l] True F(4) by (auto simp: n_def)
    let ?clp = "clp\<lparr>c_cc := c_cc clp - n, c_cf := Some (if f + nat n = c_ce clp then 0 else f + nat n)\<rparr>"
    have T: "ring_at ((f + nat n) mod c_ce clp) ?clp" "items ((f + nat n) mod c_ce clp) ?clp = drop (nat n) (items f clp)"
      using ring_take [OF less.prems _ n(4)] n by auto
    have blk: "map fst (take (nat n) (items f clp)) = take (nat n) (drop f cs)"
      using items_block [OF less.prems cs(1)] n by auto
    have step: "q_to_b_loop count p clp = q_to_b_loop (count - n) (p @ take (nat n) (drop f cs)) ?clp"
      using True n cs F(3,4) by (subst q_to_b_loop.simps) (simp add: n_def [symmetric] Let_def)
    have nc: "nat count = nat n + nat (count - n)" using n by simp
    obtain f' clp' where ih: "q_to_b_loop (count - n) (p @ take (nat n) (drop f cs)) ?clp =
        Ok ((p @ take (nat n) (drop f cs)) @ map fst (take (nat (count - n)) (drop (nat n) (items f clp))), clp')"
      "ring_at f' clp'" "items f' clp' = drop (nat (count - n)) (drop (nat n) (items f clp))" "c_ce clp' = c_ce clp" "quoting clp' = quoting ?clp"
      using less.hyps [OF _ T(1), of "count - n" "p @ take (nat n) (drop f cs)"] T(2) n by (auto simp: quoting_def)
    have "map fst (take (nat count) (items f clp)) = take (nat n) (drop f cs) @ map fst (take (nat (count - n)) (drop (nat n) (items f clp)))"
      unfolding nc take_add map_append blk ..
    moreover have "drop (nat count) (items f clp) = drop (nat (count - n)) (drop (nat n) (items f clp))"
      unfolding nc by (simp add: add.commute)
    ultimately show ?thesis using step ih by (auto simp: quoting_def)
  qed
qed

lemma ndflush_loop_spec:
  assumes "ring_at f clp"
  shows "\<exists>f' clp'. ndflush_loop count clp = Ok clp' \<and>
      ring_at f' clp' \<and> items f' clp' = drop (nat count) (items f clp) \<and> c_ce clp' = c_ce clp \<and> quoting clp' = quoting clp"
  using assms
proof (induction "nat count" arbitrary: count clp f rule: less_induct)
  case less
  note F = ring_facts [OF less.prems]
  show ?case
  proof (cases "0 < count \<and> 0 < c_cc clp")
    case False
    then have "drop (nat count) (items f clp) = items f clp" by (auto simp: items_def)
    then show ?thesis using False less.prems by (subst ndflush_loop.simps) auto
  next
    case True
    let ?l = "(f + nat (c_cc clp)) mod c_ce clp"
    define n where "n = chunk_out count (c_ce clp) f ?l"
    have n: "0 < n" "n \<le> count" "n \<le> c_cc clp" "f + nat n \<le> c_ce clp"
      using chunk_out_ok [OF less.prems, of count ?l] True F(4) by (auto simp: n_def)
    let ?clp = "clp\<lparr>c_cc := c_cc clp - n, c_cf := Some (if f + nat n = c_ce clp then 0 else f + nat n)\<rparr>"
    have T: "ring_at ((f + nat n) mod c_ce clp) ?clp" "items ((f + nat n) mod c_ce clp) ?clp = drop (nat n) (items f clp)"
      using ring_take [OF less.prems _ n(4)] n by auto
    have step: "ndflush_loop count clp = ndflush_loop (count - n) ?clp"
      using True n F(3,4) by (subst ndflush_loop.simps) (simp add: n_def [symmetric] Let_def)
    have nc: "nat count = nat (count - n) + nat n" using n by simp
    obtain f' clp' where "ndflush_loop (count - n) ?clp = Ok clp'"
      "ring_at f' clp'" "items f' clp' = drop (nat (count - n)) (drop (nat n) (items f clp))" "c_ce clp' = c_ce clp" "quoting clp' = quoting ?clp"
      using less.hyps [OF _ T(1), of "count - n"] T(2) n by (auto simp: quoting_def)
    then show ?thesis using step unfolding nc by (auto simp: quoting_def)
  qed
qed

lemma chunk_in_ok:
  assumes "ring_at f clp" "0 < count" "c_cc clp < c_cn clp" "c_cl clp = Some l"
  defines "n \<equiv> chunk_in count (c_ce clp) f l"
  shows "0 < n" "n \<le> count" "c_cc clp + n \<le> c_cn clp" "l + nat n \<le> c_ce clp"
    "n = count \<or> c_cc clp + n < c_cn clp \<and> l + nat n = c_ce clp \<or> c_cc clp + n = c_cn clp"
proof -
  note F = ring_facts [OF assms(1)]
  have "nat (c_cc clp) \<le> c_ce clp" using F(6) by simp
  then have l: "l = (if f + nat (c_cc clp) < c_ce clp then f + nat (c_cc clp) else f + nat (c_cc clp) - c_ce clp)"
    using F(1,4) assms(4) ring_end by auto
  show "0 < n" "n \<le> count" "c_cc clp + n \<le> c_cn clp" "l + nat n \<le> c_ce clp"
    "n = count \<or> c_cc clp + n < c_cn clp \<and> l + nat n = c_ce clp \<or> c_cc clp + n = c_cn clp"
    using l F(1,5,6,7) assms(2,3) unfolding n_def chunk_in_def Let_def by (auto split: if_splits)
qed

text \<open>A block written from \<open>c_cl\<close> on, with its quote bits cleared.\<close>

lemma ring_write:
  assumes r: "ring_at f clp" and cs: "c_cs clp = Buf cs" and l: "l = (f + nat (c_cc clp)) mod c_ce clp"
    and n: "0 < n" "c_cc clp + int n \<le> c_cn clp" "l + n \<le> c_ce clp" "n \<le> length p"
    and cq': "cq' = (case c_cq clp of Buf q \<Rightarrow> Buf (clrbits q l n) | x \<Rightarrow> x)"
    and clp': "clp' = clp\<lparr>c_cs := Buf (take l cs @ take n p @ drop (l + n) cs), c_cq := cq',
                 c_cc := c_cc clp + int n, c_cl := Some (if l + n = c_ce clp then 0 else l + n)\<rparr>"
  shows "ring_at f clp'" "items f clp' = items f clp @ map (\<lambda>b. (b, False)) (take n p)"
proof -
  note F = ring_facts [OF r]
  have len: "length cs = c_ce clp" using F(8) cs by (auto simp: buf_ok_def)
  have b': "buf_ok clp'"
    using F n len cq' by (cases "c_cq clp") (auto simp: buf_ok_def clp')
  have q: "qbit cq' i = (\<not> (l \<le> i \<and> i < l + n) \<and> qbit (c_cq clp) i)" if i: "i < c_ce clp" for i
  proof (cases "c_cq clp")
    case (Buf q)
    then have lq: "length q = QMEM (c_ce clp)" using F(8) by (auto simp: buf_ok_def)
    have lt: "k div 8 < length q" if "k < c_ce clp" for k
      using div_le_mono [of k "c_ce clp - 1" 8] that lq by (simp add: QMEM_def)
    show ?thesis using Buf n lt lt [OF i] by (simp add: qbit_def cq' isset_clrbits)
  qed (auto simp: qbit_def cq')
  have new: "slot clp' i = (if l \<le> i \<and> i < l + n then (p ! (i - l), False) else slot clp i)" if "i < c_ce clp" for i
    using that q [OF that] len n cs by (auto simp: slot_def clp' nth_append min_def)
  have pos: "(f + nat (c_cc clp) + j) mod c_ce clp = l + j" if "j < n" for j
    using l n(3) that by (metis mod_add_left_eq mod_less add_less_cancel_left less_le_trans)
  have "slot clp' (f + nat (c_cc clp) + j) = (p ! j, False)" if "j < n" for j
    using new [of "l + j"] pos [OF that] that n(3) slot_mod [of clp' "f + nat (c_cc clp) + j"] by (simp add: clp')
  moreover have "slot clp' i = slot clp i"
    if "i < c_ce clp" "\<And>j. j < n \<Longrightarrow> i \<noteq> (f + nat (c_cc clp) + j) mod c_ce clp" for i
  proof -
    have "\<not> (l \<le> i \<and> i < l + n)"
    proof
      assume "l \<le> i \<and> i < l + n"
      then obtain j where "i = l + j" "j < n" by (metis le_Suc_ex nat_add_left_cancel_less)
      then show False using that(2) [of j] pos [of j] by simp
    qed
    then show ?thesis using new [OF that(1)] by auto
  qed
  moreover have "(if l + n = c_ce clp then 0 else l + n) = (f + nat (c_cc clp) + n) mod c_ce clp"
    by (rule trans [OF wrap_mod [OF n(3) F(2)]]) (simp add: l mod_add_left_eq)
  ultimately show "ring_at f clp'" "items f clp' = items f clp @ map (\<lambda>b. (b, False)) (take n p)"
    using ring_append [OF r n(2) b', of "map (\<lambda>b. (b, False)) (take n p)"] n(4) by (simp_all add: clp')
qed

definition room :: "clist \<Rightarrow> nat" where
  "room clp = capacity clp - length (contents clp)"

lemma b_to_q_loop_spec:
  assumes "ring_at f clp" "0 \<le> count" "count \<le> int (length p)"
  shows "\<exists>clp'. b_to_q_loop p count clp = Ok (count - int (min (nat count) (c_ce clp - nat (c_cc clp))), clp') \<and>
      ring_at f clp' \<and> c_ce clp' = c_ce clp \<and> quoting clp' = quoting clp \<and>
      items f clp' = items f clp @ map (\<lambda>b. (b, False)) (take (min (nat count) (c_ce clp - nat (c_cc clp))) p)"
  using assms
proof (induction "nat count" arbitrary: count p clp rule: less_induct)
  case less
  note F = ring_facts [OF less.prems(1)]
  obtain cs where cs: "c_cs clp = Buf cs" "length cs = c_ce clp" "bytes (c_cs clp) = cs" using F(8) by (rule buf_okE)
  show ?case
  proof (cases "0 < count \<and> c_cc clp < c_cn clp")
    case False
    then have "min (nat count) (c_ce clp - nat (c_cc clp)) = 0" using less.prems(2) F(6,7) by auto
    then show ?thesis using False less.prems by (subst b_to_q_loop.simps) auto
  next
    case True
    define l where "l = (f + nat (c_cc clp)) mod c_ce clp"
    define n where "n = nat (chunk_in count (c_ce clp) f l)"
    have "0 < chunk_in count (c_ce clp) f l" "chunk_in count (c_ce clp) f l \<le> count"
      "c_cc clp + chunk_in count (c_ce clp) f l \<le> c_cn clp" "l + n \<le> c_ce clp"
      using chunk_in_ok [OF less.prems(1), of count l] True F(4) by (auto simp: n_def l_def)
    then have ch: "chunk_in count (c_ce clp) f l = int n" and n: "0 < n" "int n \<le> count" "c_cc clp + int n \<le> c_cn clp"
      "l + n \<le> c_ce clp" unfolding n_def by simp_all
    define cq' where "cq' = (case c_cq clp of Buf q \<Rightarrow> Buf (clrbits q l n) | x \<Rightarrow> x)"
    define clp1 where "clp1 = clp\<lparr>c_cs := Buf (take l cs @ take n p @ drop (l + n) cs), c_cq := cq',
                 c_cc := c_cc clp + int n, c_cl := Some (if l + n = c_ce clp then 0 else l + n)\<rparr>"
    have W: "ring_at f clp1" "items f clp1 = items f clp @ map (\<lambda>b. (b, False)) (take n p)"
      using ring_write [OF less.prems(1) cs(1) l_def n(1,3,4) _ cq'_def clp1_def] less.prems(3) n(2) by simp_all
    have cq: "(l + n - 1) div 8 < length q" if "c_cq clp = Buf q" for q
      using div_le_mono [of "l + n - 1" "c_ce clp - 1" 8] n(4) F(8) that by (auto simp: buf_ok_def QMEM_def)
    have cqc: "c_cq clp \<noteq> Freed" using F(8) by (auto simp: buf_ok_def)
    have step: "b_to_q_loop p count clp = b_to_q_loop (drop n p) (count - int n) clp1"
      using True n cs F(3,4) cq cqc less.prems(3)
      by (subst b_to_q_loop.simps)
         (cases "c_cq clp", auto simp: ch l_def [symmetric] clp1_def cq'_def Let_def)
    have mm: "min (nat count) (c_ce clp - nat (c_cc clp)) = n + min (nat (count - int n)) (c_ce clp1 - nat (c_cc clp1))"
      using n F(5,6,7) by (simp add: clp1_def)
    have q1: "quoting clp1 = quoting clp" by (auto simp: quoting_def clp1_def cq'_def split: mem.splits)
    obtain clp' where ih: "b_to_q_loop (drop n p) (count - int n) clp1 =
        Ok (count - int n - int (min (nat (count - int n)) (c_ce clp1 - nat (c_cc clp1))), clp')"
      "ring_at f clp'" "c_ce clp' = c_ce clp1" "quoting clp' = quoting clp1"
      "items f clp' = items f clp1 @ map (\<lambda>b. (b, False)) (take (min (nat (count - int n)) (c_ce clp1 - nat (c_cc clp1))) (drop n p))"
      using less.hyps [OF _ W(1), of "count - int n" "drop n p"] n less.prems(3) by auto
    then show ?thesis using step W(2) q1 unfolding mm take_add by (auto simp: clp1_def)
  qed
qed

lemma q_to_b_spec:
  assumes "cl_ok clp"
  shows "\<exists>clp'. q_to_b count clp = Ok (int (min (nat count) (length (contents clp))),
        map fst (take (nat count) (contents clp)), clp') \<and>
      cl_ok clp' \<and> contents clp' = drop (nat count) (contents clp) \<and> capacity clp' = capacity clp \<and> quoting clp' = quoting clp"
proof (cases "c_cc clp = 0")
  case True
  then have "q_to_b count clp = Ok (0, [], cl_reset clp)" "cl_reset clp = clp"
    using assms by (auto simp: q_to_b_def q_to_b_loop.simps cl_reset_def cl_ok_def)
  then show ?thesis using assms contents_empty [OF assms True] by simp
next
  case False
  then obtain f where r: "ring_at f clp" using assms cl_ok_ring by blast
  obtain f' clp' where L: "q_to_b_loop count [] clp = Ok ([] @ map fst (take (nat count) (items f clp)), clp')"
    "ring_at f' clp'" "items f' clp' = drop (nat count) (items f clp)" "c_ce clp' = c_ce clp" "quoting clp' = quoting clp"
    using q_to_b_loop_spec [OF r, of count "[]"] by blast
  then show ?thesis using cl_reset_ok [OF L(2)] ring_contents [OF r]
    by (auto simp: q_to_b_def capacity_def min.commute)
qed

lemma ndflush_spec:
  assumes "cl_ok clp"
  shows "\<exists>clp'. ndflush count clp = Ok clp' \<and> cl_ok clp' \<and>
      contents clp' = drop (nat count) (contents clp) \<and> capacity clp' = capacity clp \<and> quoting clp' = quoting clp"
proof (cases "count = c_cc clp \<or> c_cc clp = 0")
  case True
  then have "ndflush count clp = Ok (clp\<lparr>c_cc := 0, c_cf := None, c_cl := None\<rparr>)"
    using assms by (auto simp: ndflush_def ndflush_loop.simps cl_reset_def cl_ok_def)
  moreover have "drop (nat count) (contents clp) = []" using True length_contents [OF assms] by auto
  ultimately show ?thesis using cl_ok_buf [OF assms]
    by (auto simp: cl_ok_def buf_ok_def contents_def capacity_def quoting_def)
next
  case False
  then obtain f where r: "ring_at f clp" using assms cl_ok_ring by blast
  obtain f' clp' where L: "ndflush_loop count clp = Ok clp'"
    "ring_at f' clp'" "items f' clp' = drop (nat count) (items f clp)" "c_ce clp' = c_ce clp" "quoting clp' = quoting clp"
    using ndflush_loop_spec [OF r] by blast
  then show ?thesis using cl_reset_ok [OF L(2)] ring_contents [OF r] False
    by (auto simp: ndflush_def capacity_def)
qed

lemma b_to_q_spec:
  assumes "cl_ok clp" "count \<le> int (length p)"
  shows "\<exists>clp'. b_to_q m1 m2 p count clp = Ok (int (nat count - min (nat count) (room clp)), clp') \<and>
      cl_ok clp' \<and> capacity clp' = capacity clp \<and> quoting clp' = quoting clp \<and>
      contents clp' = contents clp @ map (\<lambda>b. (b, False)) (take (min (nat count) (room clp)) p)"
proof (cases "count \<le> 0 \<or> c_cc clp = c_cn clp")
  case True
  then have "min (nat count) (room clp) = 0" using full_iff [OF assms(1)] by (auto simp: room_def)
  then show ?thesis using True assms(1) by (auto simp: b_to_q_def)
next
  case False
  obtain f clp1 where st: "cl_start m1 m2 clp = (True, clp1)" and r: "ring_at f clp1" and it: "items f clp1 = contents clp"
    and eq: "c_ce clp1 = c_ce clp" "c_cq clp1 = c_cq clp" "c_cc clp1 = c_cc clp" "c_cn clp1 = c_cn clp"
    using cl_start_ring [OF assms(1)] by blast
  have rm: "c_ce clp1 - nat (c_cc clp1) = room clp"
    using length_contents [OF assms(1)] eq by (simp add: room_def capacity_def)
  obtain clp' where L: "b_to_q_loop p count clp1 = Ok (count - int (min (nat count) (room clp)), clp')"
    "ring_at f clp'" "c_ce clp' = c_ce clp" "quoting clp' = quoting clp"
    "items f clp' = contents clp @ map (\<lambda>b. (b, False)) (take (min (nat count) (room clp)) p)"
    using b_to_q_loop_spec [OF r, of count p] False assms(2) it eq unfolding rm by (auto simp: quoting_def)
  have "0 < min (nat count) (room clp)"
    using False full_iff [OF assms(1)] length_contents [OF assms(1)] cl_ok_buf [OF assms(1)]
    by (auto simp: room_def capacity_def buf_ok_def)
  then have "0 < length (items f clp')" using L(5) assms(2) by simp
  then have "c_cc clp' \<noteq> 0" by simp
  then show ?thesis using L ring_cl_ok ring_contents False st by (auto simp: b_to_q_def capacity_def)
qed

end
