(* ===== verification/Clist_Props.thy ===== *)
theory Clist_Props
  imports Clist_Ops
begin

text \<open>
  The interface of a character queue as a locale, its interpretation on the ring buffers, and the
  properties of the queues: refinement of a bounded FIFO queue for every history of
  operations, moving one queue behind another, walking, counting, and the bit array routine.
\<close>

section \<open>The interface\<close>

text \<open>
  A bounded queue of characters: \<open>enc\<close> is how a character is returned and passed as an int,
  \<open>store q c\<close> is the character a queue \<open>q\<close> keeps for \<open>c\<close> (a queue without quote bits forgets them).
\<close>

locale char_queue =
  fixes inv :: "'q \<Rightarrow> bool" and chars :: "'q \<Rightarrow> 'c list" and cap :: "'q \<Rightarrow> nat" and enc :: "'c \<Rightarrow> int"
    and store :: "'q \<Rightarrow> 'c \<Rightarrow> 'c" and get :: "'q \<Rightarrow> (int \<times> 'q) result" and put :: "int \<Rightarrow> 'q \<Rightarrow> (int \<times> 'q) result"
  assumes enc_char: "enc c \<noteq> -1"
    and get_empty: "inv q \<Longrightarrow> chars q = [] \<Longrightarrow> \<exists>q'. get q = Ok (-1, q') \<and> inv q' \<and> chars q' = [] \<and> cap q' = cap q"
    and get_char: "inv q \<Longrightarrow> chars q = c # cs \<Longrightarrow> \<exists>q'. get q = Ok (enc c, q') \<and> inv q' \<and> chars q' = cs \<and> cap q' = cap q"
    and put_full: "inv q \<Longrightarrow> length (chars q) = cap q \<Longrightarrow> put (enc c) q = Ok (-1, q)"
    and put_char: "inv q \<Longrightarrow> length (chars q) < cap q \<Longrightarrow>
      \<exists>q'. put (enc c) q = Ok (0, q') \<and> inv q' \<and> chars q' = chars q @ [store q c] \<and> cap q' = cap q \<and> store q' = store q"
    and bounded: "inv q \<Longrightarrow> length (chars q) \<le> cap q"
begin

text \<open>A put: what fits is stored, the rest is dropped.\<close>

lemma put_any:
  assumes "inv q"
  shows "\<exists>r q'. put (enc c) q = Ok (r, q') \<and> inv q' \<and> cap q' = cap q \<and> store q' = store q \<and>
     chars q' = chars q @ take (cap q - length (chars q)) [store q c]"
proof (cases "length (chars q) = cap q")
  case True
  then show ?thesis using put_full [OF assms True] assms by simp
next
  case False
  then have lt: "length (chars q) < cap q" using bounded [OF assms] by simp
  then have "take (cap q - length (chars q)) [store q c] = [store q c]" by simp
  then show ?thesis using put_char [OF assms lt, of c] by auto
qed

text \<open>
  Moving characters until the first queue is empty, as a loop over \<open>get\<close> and \<open>put\<close> only: it ends
  after as many characters as there are, in order, and what does not fit is lost.
\<close>

lemma move_all:
  assumes eq: "\<And>n a b. mv n a b = bind_r (get a) (\<lambda>(c, a). if c = -1 then Ok (a, b)
      else case n of 0 \<Rightarrow> Hang | Suc n \<Rightarrow> bind_r (put c b) (\<lambda>(r, b). mv n a b))"
    and "inv a" "inv b" "length (chars a) \<le> n"
  shows "\<exists>a' b'. mv n a b = Ok (a', b') \<and> inv a' \<and> inv b' \<and> chars a' = [] \<and> cap a' = cap a \<and> cap b' = cap b \<and>
     chars b' = chars b @ take (cap b - length (chars b)) (map (store b) (chars a))"
  using assms(2-)
proof (induction n arbitrary: a b)
  case 0
  then show ?case using get_empty [of a] by (subst eq) fastforce
next
  case (Suc n)
  show ?case
  proof (cases "chars a")
    case Nil
    then show ?thesis using get_empty [OF Suc.prems(1)] Suc.prems(2) by (subst eq) fastforce
  next
    case (Cons c cs)
    obtain a1 where a1: "get a = Ok (enc c, a1)" "inv a1" "chars a1 = cs" "cap a1 = cap a"
      using get_char [OF Suc.prems(1) Cons] by blast
    obtain r b1 where b1: "put (enc c) b = Ok (r, b1)" "inv b1" "cap b1 = cap b" "store b1 = store b"
      "chars b1 = chars b @ take (cap b - length (chars b)) [store b c]"
      using put_any [OF Suc.prems(2)] by blast
    have step: "mv (Suc n) a b = mv n a1 b1" using a1(1) b1(1) enc_char [of c] by (subst eq) simp
    have "length (chars a1) \<le> n" using Suc.prems(3) Cons a1(3) by simp
    from Suc.IH [OF a1(2) b1(2) this] obtain a' b' where R: "mv n a1 b1 = Ok (a', b')" "inv a'" "inv b'" "chars a' = []"
      "cap a' = cap a1" "cap b' = cap b1" "chars b' = chars b1 @ take (cap b1 - length (chars b1)) (map (store b1) (chars a1))" by blast
    have "take (cap b1 - length (chars b1)) (map (store b) cs) =
        take (cap b - length (chars b) - 1) (map (store b) cs)" if "length (chars b) < cap b"
      using that b1(3,5) by simp
    then have "chars b' = chars b @ take (cap b - length (chars b)) (map (store b) (chars a))"
      using R(7) b1(3,4,5) a1(3) Cons bounded [OF Suc.prems(2)]
      by (cases "length (chars b) < cap b") (auto simp: take_Cons')
    then show ?thesis using R step a1(4) b1(3) by auto
  qed
qed

end

definition enc_char :: "u8 \<times> bool \<Rightarrow> int" where
  "enc_char = (\<lambda>(b, q). charq b q)"

definition stored :: "clist \<Rightarrow> u8 \<times> bool \<Rightarrow> u8 \<times> bool" where
  "stored clp = (\<lambda>(b, q). (b, quoting clp \<and> q))"

lemma contents_bound: "cl_ok clp \<Longrightarrow> length (contents clp) \<le> capacity clp"
  using length_contents [of clp] cl_ok_buf [of clp] by (auto simp: capacity_def buf_ok_def)

interpretation clq: char_queue cl_ok contents capacity enc_char stored getc "putc m1 m2" for m1 m2
proof unfold_locales
  fix q c cs
  show "enc_char c \<noteq> -1" by (simp add: enc_char_def split: prod.splits)
  show "\<exists>q'. getc q = Ok (-1, q') \<and> cl_ok q' \<and> contents q' = [] \<and> capacity q' = capacity q"
    if "cl_ok q" "contents q = []" using getc_spec [OF that(1)] that(2) by auto
  show "\<exists>q'. getc q = Ok (enc_char c, q') \<and> cl_ok q' \<and> contents q' = cs \<and> capacity q' = capacity q"
    if "cl_ok q" "contents q = c # cs"
    using getc_spec [OF that(1)] that(2) by (auto simp: enc_char_def split: prod.splits)
  show "putc m1 m2 (enc_char c) q = Ok (-1, q)" if "cl_ok q" "length (contents q) = capacity q"
    using full_iff [OF that(1)] that(2) by (simp add: putc_def)
  show "\<exists>q'. putc m1 m2 (enc_char c) q = Ok (0, q') \<and> cl_ok q' \<and> contents q' = contents q @ [stored q c] \<and>
      capacity q' = capacity q \<and> stored q' = stored q" if "cl_ok q" "length (contents q) < capacity q"
    using putc_spec [OF that(1), of m1 m2 "enc_char c"] that(2)
    by (auto simp: enc_char_def stored_def split: prod.splits)
  show "length (contents q) \<le> capacity q" if "cl_ok q" using that by (rule contents_bound)
qed

lemma catq_spec:
  assumes "cl_ok a" "cl_ok b"
  shows "\<exists>a' b'. catq m1 m2 a b = Ok (a', b') \<and> cl_ok a' \<and> cl_ok b' \<and> contents a' = [] \<and>
     capacity a' = capacity a \<and> capacity b' = capacity b \<and>
     contents b' = contents b @ take (room b) (map (stored b) (contents a))"
  unfolding catq_def room_def
  by (rule clq.move_all [where mv = "\<lambda>n. catq_loop n m1 m2"])
     (use assms length_contents [OF assms(1)] in \<open>simp_all add: catq_loop.simps\<close>)

section \<open>Walking a queue\<close>

text \<open>
  The idiom of the tty code, \<open>for (cp = firstc(q, &c); cp; cp = nextc(q, cp, &c))\<close>: the characters it sees.
\<close>

fun walk_rest :: "nat \<Rightarrow> clist \<Rightarrow> nat \<Rightarrow> int \<Rightarrow> int list result" where
  "walk_rest n clp i cc = bind_r (nextc clp (Some i) cc) (\<lambda>(r, cc).
     case r of None \<Rightarrow> Ok []
     | Some (i, c) \<Rightarrow> (case n of 0 \<Rightarrow> Hang | Suc n \<Rightarrow> bind_r (walk_rest n clp i cc) (\<lambda>cs. Ok (c # cs))))"

declare walk_rest.simps [simp del]

definition walk :: "clist \<Rightarrow> int list result" where
  "walk clp = bind_r (firstc clp) (\<lambda>(r, cc).
     case r of None \<Rightarrow> Ok []
     | Some (i, c) \<Rightarrow> bind_r (walk_rest (nat (c_cc clp)) clp i cc) (\<lambda>cs. Ok (c # cs)))"

lemma char_at_slot:
  assumes "ring_at f clp"
  shows "char_at clp ((f + k) mod c_ce clp) = Ok (enc_char (slot clp (f + k)))"
proof -
  note F = ring_facts [OF assms]
  obtain cs where cs: "c_cs clp = Buf cs" "length cs = c_ce clp" "bytes (c_cs clp) = cs" using F(8) by (rule buf_okE)
  show ?thesis using cs F(2) quoted_ok [OF F(8), of "(f + k) mod c_ce clp"]
    by (simp add: char_at_def enc_char_def slot_def)
qed

lemma nextc_ring:
  assumes "ring_at f clp" "k < nat (c_cc clp)" "cc = c_cc clp - int k"
  shows "nextc clp (Some ((f + k) mod c_ce clp)) cc =
    Ok (if k + 1 < nat (c_cc clp) then Some ((f + (k + 1)) mod c_ce clp, enc_char (slot clp (f + (k + 1)))) else None,
        c_cc clp - int (k + 1))"
proof -
  note F = ring_facts [OF assms(1)]
  have "k < c_ce clp" using assms(2) F(6) by linarith
  then have first: "c_cf clp = Some ((f + k) mod c_ce clp) \<longleftrightarrow> k = 0"
    using mod_shift_inj [of k "c_ce clp" 0 f] F(1,3) by auto
  have cc: "(if c_cf clp = Some ((f + k) mod c_ce clp) then c_cc clp else cc) = c_cc clp - int k"
    unfolding first using assms(3) by simp
  have lt: "(f + k) mod c_ce clp < c_ce clp" using F(2) by simp
  have wrap: "(if (f + k) mod c_ce clp + 1 = c_ce clp then 0 else (f + k) mod c_ce clp + 1) = (f + (k + 1)) mod c_ce clp"
    by (rule trans [OF wrap_mod]) (use lt F(2) in \<open>simp_all add: mod_Suc_eq Suc_le_eq\<close>)
  have code: "nextc clp (Some j) cc = (let cc = (if c_cf clp = Some j then c_cc clp else cc) in
      if cc = 0 then Ok (None, cc) else if cc - 1 = 0 then Ok (None, cc - 1)
      else bind_r (char_at clp (if j + 1 = c_ce clp then 0 else j + 1))
             (\<lambda>c. Ok (Some (if j + 1 = c_ce clp then 0 else j + 1, c), cc - 1)))" for j
    by (simp add: nextc_def Let_def)
  have at: "char_at clp ((f + (k + 1)) mod c_ce clp) = Ok (enc_char (slot clp (f + (k + 1))))"
    by (rule char_at_slot [OF assms(1)])
  show ?thesis
    unfolding code cc Let_def wrap at using assms(2) F(5) by auto
qed

lemma walk_rest_spec:
  assumes "ring_at f clp" "k < nat (c_cc clp)" "nat (c_cc clp) \<le> n + k + 1"
  shows "walk_rest n clp ((f + k) mod c_ce clp) (c_cc clp - int k) = Ok (map enc_char (drop (k + 1) (items f clp)))"
  using assms(2,3)
proof (induction n arbitrary: k)
  case 0
  then show ?case by (subst walk_rest.simps) (simp add: nextc_ring [OF assms(1)])
next
  case (Suc n)
  show ?case
  proof (cases "k + 1 < nat (c_cc clp)")
    case False
    then show ?thesis using Suc.prems by (subst walk_rest.simps) (simp add: nextc_ring [OF assms(1)])
  next
    case True
    have "drop (k + 1) (items f clp) = slot clp (f + (k + 1)) # drop (k + 1 + 1) (items f clp)"
      using True by (metis Cons_nth_drop_Suc Suc_eq_plus1 length_items nth_items)
    then show ?thesis using Suc.IH [of "k + 1"] Suc.prems True
      by (subst walk_rest.simps) (simp add: nextc_ring [OF assms(1)])
  qed
qed

lemma walk_spec:
  assumes "cl_ok clp"
  shows "walk clp = Ok (map enc_char (contents clp))"
proof (cases "c_cc clp = 0")
  case True
  then show ?thesis using contents_empty [OF assms True] by (simp add: walk_def firstc_def)
next
  case False
  then obtain f where r: "ring_at f clp" using assms cl_ok_ring by blast
  note F = ring_facts [OF r]
  have pos: "0 < nat (c_cc clp)" using False F(5) by simp
  have "items f clp = slot clp (f + 0) # drop 1 (items f clp)"
    using pos by (metis Cons_nth_drop_Suc One_nat_def drop0 length_items nth_items)
  then have "map enc_char (items f clp) = enc_char (slot clp f) # map enc_char (drop 1 (items f clp))"
    by (metis add.right_neutral list.simps(9))
  moreover have "walk_rest (nat (c_cc clp)) clp f (c_cc clp) = Ok (map enc_char (drop 1 (items f clp)))"
    using walk_rest_spec [OF r pos, of "nat (c_cc clp)"] F(1) by simp
  moreover have "char_at clp f = Ok (enc_char (slot clp f))" using char_at_slot [OF r, of 0] F(1) by simp
  ultimately show ?thesis using False F(3) ring_contents [OF r] by (simp add: walk_def firstc_def)
qed

section \<open>Counting contiguous characters\<close>

lemma ndqb_loop_spec:
  assumes "ring_at f clp" "c_cs clp = Buf cs" "k + m = nat (c_cc clp)" "f + k < c_ce clp"
  shows "ndqb_loop cs None flag (c_cn clp) (f + k) m count =
    Ok (count + int (length (takeWhile (\<lambda>(b, q). uint b AND flag = 0) (drop k (take (c_ce clp - f) (items f clp))))))"
  using assms(3,4)
proof (induction m arbitrary: k count)
  case 0
  then show ?case by simp
next
  case (Suc m)
  note F = ring_facts [OF assms(1)]
  have len: "length cs = c_ce clp" using F(8) assms(2) by (auto simp: buf_ok_def)
  have k: "k < nat (c_cc clp)" "k < c_ce clp - f" using Suc.prems by simp_all
  have hd: "drop k (take (c_ce clp - f) (items f clp)) =
      (cs ! (f + k), qbit (c_cq clp) (f + k)) # drop (k + 1) (take (c_ce clp - f) (items f clp))"
  proof -
    have "take (c_ce clp - f) (items f clp) ! k = (cs ! (f + k), qbit (c_cq clp) (f + k))"
      using k Suc.prems(2) assms(2) by (simp add: nth_items slot_def)
    then show ?thesis using k by (metis Cons_nth_drop_Suc Suc_eq_plus1 length_items length_take min_less_iff_conj)
  qed
  have ends: "drop (k + 1) (take (c_ce clp - f) (items f clp)) = []" if "f + k + 1 = c_ce clp" using that by simp
  have cn: "int (f + k + 1) = c_cn clp \<longleftrightarrow> f + k + 1 = c_ce clp" unfolding F(7) by linarith
  show ?case
    unfolding hd using Suc.IH [of "k + 1" "count + 1"] Suc.prems len ends cn
    by (auto simp: add.assoc)
qed

lemma ndqb_spec:
  assumes "cl_ok clp" "flag AND TTY_QUOTE = 0"
  shows "\<exists>k. ndqb flag clp = Ok (int (length (takeWhile (\<lambda>(b, q). uint b AND flag = 0) (take k (contents clp))))) \<and>
    (contents clp \<noteq> [] \<longrightarrow> 0 < k) \<and>
    map fst (take k (contents clp)) = (case c_cf clp of None \<Rightarrow> [] | Some f \<Rightarrow> take k (drop f (bytes (c_cs clp)))) \<and>
    (k < length (contents clp) \<longrightarrow> (case c_cf clp of None \<Rightarrow> False | Some f \<Rightarrow> f + k = capacity clp))"
proof (cases "c_cc clp = 0")
  case True
  then show ?thesis using contents_empty [OF assms(1) True] assms(1) by (auto simp: ndqb_def cl_ok_def)
next
  case False
  then obtain f where r: "ring_at f clp" using assms cl_ok_ring by blast
  note F = ring_facts [OF r]
  obtain cs where cs: "c_cs clp = Buf cs" "length cs = c_ce clp" "bytes (c_cs clp) = cs" using F(8) by (rule buf_okE)
  have pos: "0 < nat (c_cc clp)" using False F(5) by simp
  define k where "k = min (nat (c_cc clp)) (c_ce clp - f)"
  have tk: "take k (contents clp) = take (c_ce clp - f) (items f clp)"
    unfolding k_def ring_contents [OF r] by (simp add: min_def)
  have l: "(f + nat (c_cc clp)) mod c_ce clp = (if f + nat (c_cc clp) < c_ce clp then f + nat (c_cc clp) else f + nat (c_cc clp) - c_ce clp)"
    using ring_end [OF F(1), of "nat (c_cc clp)"] F(6) by simp
  have "ndqb flag clp = Ok (int (length (takeWhile (\<lambda>(b, q). uint b AND flag = 0) (take k (contents clp)))))"
  proof (cases "flag = 0")
    case True
    have tw: "takeWhile (\<lambda>(b, q). uint b AND flag = 0) (take k (contents clp)) = take k (contents clp)"
      using True by (auto simp: takeWhile_eq_all_conv)
    have "ndqb flag clp = Ok (int k)"
      using False True F(1,3,4,6) cs(1) l pos unfolding ndqb_def k_def by (auto simp: min_def)
    then show ?thesis unfolding tw using F(5) ring_contents [OF r] by (simp add: k_def)
  next
    case nz: False
    then show ?thesis
      using False F(1,3,4) cs(1) assms(2) ndqb_loop_spec [OF r cs(1), of 0 "nat (c_cc clp)" flag 0]
      unfolding ndqb_def tk by simp
  qed
  moreover have "map fst (take k (contents clp)) = take k (drop f cs)"
    using items_block [OF r cs(1), of k] F(1) ring_contents [OF r] by (simp add: k_def)
  moreover have "0 < k" using pos F(1) by (simp add: k_def)
  moreover have "k < length (contents clp) \<longrightarrow> f + k = capacity clp"
    using F(1) ring_contents [OF r] by (auto simp: k_def capacity_def min_def)
  ultimately show ?thesis using F(3) cs(3) by auto
qed

section \<open>Histories of operations\<close>

datatype clop = Getc | Putc int | Unputc | Q_to_b int | B_to_q "u8 list" | Ndflush int

fun cl_step :: "clop \<Rightarrow> clist \<Rightarrow> ((int \<times> u8 list) \<times> clist) result" where
  "cl_step Getc clp = bind_r (getc clp) (\<lambda>(c, clp). Ok ((c, []), clp))"
| "cl_step (Putc c) clp = bind_r (putc True True c clp) (\<lambda>(r, clp). Ok ((r, []), clp))"
| "cl_step Unputc clp = bind_r (unputc clp) (\<lambda>(c, clp). Ok ((c, []), clp))"
| "cl_step (Q_to_b n) clp = bind_r (q_to_b n clp) (\<lambda>(r, bs, clp). Ok ((r, bs), clp))"
| "cl_step (B_to_q p) clp = bind_r (b_to_q True True p (int (length p)) clp) (\<lambda>(r, clp). Ok ((r, []), clp))"
| "cl_step (Ndflush n) clp = bind_r (ndflush n clp) (\<lambda>clp. Ok ((0, []), clp))"

text \<open>The abstract queue: at most \<open>n\<close> characters, quote bits kept when \<open>quot\<close>.\<close>

fun q_step :: "nat \<Rightarrow> bool \<Rightarrow> clop \<Rightarrow> (u8 \<times> bool) list \<Rightarrow> (int \<times> u8 list) \<times> (u8 \<times> bool) list" where
  "q_step n quot Getc xs = (case xs of [] \<Rightarrow> ((-1, []), []) | x # ys \<Rightarrow> ((enc_char x, []), ys))"
| "q_step n quot (Putc c) xs =
     (if length xs = n then ((-1, []), xs)
      else ((0, []), xs @ [(word_of_int (c AND 255), quot \<and> c AND TTY_QUOTE \<noteq> 0)]))"
| "q_step n quot Unputc xs = (if xs = [] then ((-1, []), []) else ((enc_char (last xs), []), butlast xs))"
| "q_step n quot (Q_to_b k) xs = ((int (min (nat k) (length xs)), map fst (take (nat k) xs)), drop (nat k) xs)"
| "q_step n quot (B_to_q p) xs =
     (let m = min (length p) (n - length xs) in ((int (length p - m), []), xs @ map (\<lambda>b. (b, False)) (take m p)))"
| "q_step n quot (Ndflush k) xs = ((0, []), drop (nat k) xs)"

fun cl_run :: "clop list \<Rightarrow> clist \<Rightarrow> ((int \<times> u8 list) list \<times> clist) result" where
  "cl_run [] clp = Ok ([], clp)"
| "cl_run (x # xs) clp = bind_r (cl_step x clp) (\<lambda>(r, clp). bind_r (cl_run xs clp) (\<lambda>(rs, clp). Ok (r # rs, clp)))"

fun q_run :: "nat \<Rightarrow> bool \<Rightarrow> clop list \<Rightarrow> (u8 \<times> bool) list \<Rightarrow> (int \<times> u8 list) list \<times> (u8 \<times> bool) list" where
  "q_run n quot [] xs = ([], xs)"
| "q_run n quot (y # ys) xs = (let (r, xs) = q_step n quot y xs; (rs, xs) = q_run n quot ys xs in (r # rs, xs))"

lemma cl_step_refines:
  assumes "cl_ok clp"
  shows "\<exists>r clp'. cl_step x clp = Ok (r, clp') \<and> cl_ok clp' \<and> capacity clp' = capacity clp \<and> quoting clp' = quoting clp \<and>
    q_step (capacity clp) (quoting clp) x (contents clp) = (r, contents clp')"
proof (cases x)
  case Getc
  then show ?thesis using getc_spec [OF assms] by (auto simp: enc_char_def split: list.splits prod.splits)
next
  case (Putc c)
  then show ?thesis using putc_spec [OF assms, of True True c] by auto
next
  case Unputc
  then show ?thesis using unputc_spec [OF assms]
    by (cases "contents clp" rule: rev_cases) (auto simp: enc_char_def split: prod.splits)
next
  case (Q_to_b n)
  then show ?thesis using q_to_b_spec [OF assms, of n] by auto
next
  case (B_to_q p)
  then show ?thesis using b_to_q_spec [OF assms, of "int (length p)" p True True] by (auto simp: room_def Let_def)
next
  case (Ndflush n)
  then show ?thesis using ndflush_spec [OF assms, of n] by auto
qed

lemma cl_run_refines:
  assumes "cl_ok clp"
  shows "\<exists>rs clp'. cl_run xs clp = Ok (rs, clp') \<and> cl_ok clp' \<and>
    q_run (capacity clp) (quoting clp) xs (contents clp) = (rs, contents clp')"
  using assms
proof (induction xs arbitrary: clp)
  case (Cons x xs)
  obtain r clp1 where s: "cl_step x clp = Ok (r, clp1)" "cl_ok clp1" "capacity clp1 = capacity clp" "quoting clp1 = quoting clp"
    "q_step (capacity clp) (quoting clp) x (contents clp) = (r, contents clp1)"
    using cl_step_refines [OF Cons.prems] by blast
  then show ?case using Cons.IH [OF s(2)] by auto
qed simp

lemma clalloc_ok:
  assumes "0 < sz"
  shows "cl_ok (snd (clalloc True True sz quot clp))" "contents (snd (clalloc True True sz quot clp)) = []"
    "capacity (snd (clalloc True True sz quot clp)) = sz" "quoting (snd (clalloc True True sz quot clp)) = quot"
  using assms by (auto simp: clalloc_def cl_ok_def buf_ok_def contents_def capacity_def quoting_def)

section \<open>The bit array routine\<close>

lemma length_fold_clrbit [simp]: "length (fold (\<lambda>i cp. clrbit cp (off + i)) is cp) = length cp"
  by (induction "is" arbitrary: cp) auto

lemma isset_fold_clrbit:
  assumes "j div 8 < length cp" "(off + len - 1) div 8 < length cp"
  shows "isset (fold (\<lambda>i cp. clrbit cp (off + i)) [0..<len] cp) j \<longleftrightarrow> \<not> (off \<le> j \<and> j < off + len) \<and> isset cp j"
  using assms(2)
proof (induction len)
  case (Suc len)
  have "(off + len - 1) div 8 < length cp" "(off + len) div 8 < length cp"
    using Suc.prems div_le_mono [of "off + len - 1" "off + len" 8] by simp_all
  then show ?case using Suc.IH assms(1) by (auto simp: isset_clrbit)
qed auto

lemma clrbits_loop:
  assumes "0 < len" "(off + len - 1) div 8 < length cp"
  shows "clrbits cp off len = fold (\<lambda>i cp. clrbit cp (off + i)) [0..<len] cp"
proof (rule nth_equalityI)
  fix k assume "k < length (clrbits cp off len)"
  then have k: "k < length cp" by simp
  show "clrbits cp off len ! k = fold (\<lambda>i cp. clrbit cp (off + i)) [0..<len] cp ! k"
  proof (rule bit_word_eqI)
    fix n assume "n < LENGTH(8)"
    then have d: "(8 * k + n) div 8 = k" "(8 * k + n) mod 8 = n" by simp_all
    have "isset a (8 * k + n) = bit (a ! k) n" if "length a = length cp" for a
      using isset_iff [of "8 * k + n" a] d k that by simp
    then show "bit (clrbits cp off len ! k) n = bit (fold (\<lambda>i cp. clrbit cp (off + i)) [0..<len] cp ! k) n"
      using isset_clrbits [OF assms, of "8 * k + n"] isset_fold_clrbit [of "8 * k + n" cp off len] assms(2) d k by simp
  qed
qed simp

section \<open>Properties\<close>

definition nil_clist :: clist where
  "nil_clist = \<lparr>c_cf = None, c_cl = None, c_cs = Null, c_ce = 0, c_cq = Null, c_cc = 0, c_cn = 0\<rparr>"

text \<open>
  C7. Refinement. Every history of getc, putc, unputc, q_to_b, b_to_q and ndflush on a queue that
  clalloc made runs without an access outside the buffers and without looping, and
  returns exactly what a bounded first-in first-out queue of characters with quote bits returns:
  wrap-around, full and empty queues, and the quote bit array are invisible.
\<close>
theorem clist_refines_queue:
  assumes "0 < sz"
  shows "\<exists>rs clp'. cl_run xs (snd (clalloc True True sz quot clp)) = Ok (rs, clp') \<and>
    q_run sz quot xs [] = (rs, contents clp')"
  using cl_run_refines [OF clalloc_ok(1) [OF assms, of quot clp], of xs] clalloc_ok(2-4) [OF assms, of quot clp] by auto

theorem clist_refines_queue_witness:
  "\<exists>rs clp'. cl_run [B_to_q [1, 2, 3], Getc, Putc 260, Getc] (snd (clalloc True True 3 True nil_clist)) = Ok (rs, clp') \<and>
    q_run 3 True [B_to_q [1, 2, 3], Getc, Putc 260, Getc] [] = (rs, contents clp')"
  by (rule clist_refines_queue) simp

text \<open>
  catq always ends; it empties the first queue and puts its characters, in order, behind
  those of the second. What does not fit into the second queue is dropped without an error, and a
  second queue without quote bits forgets the quotes.
\<close>
theorem catq_moves:
  assumes "cl_ok a" "cl_ok b"
  shows "\<exists>a' b'. catq m1 m2 a b = Ok (a', b') \<and> contents a' = [] \<and>
    contents b' = contents b @ take (room b) (map (stored b) (contents a))"
  using catq_spec [OF assms] by blast

definition demo_clist :: clist where
  "demo_clist = \<lparr>c_cf = Some 6, c_cl = Some 1, c_cs = Buf [52, 0, 0, 0, 0, 0, 49, 50], c_ce = 8,
     c_cq = Buf [0x41], c_cc = 3, c_cn = 8\<rparr>"

lemma demo_clist_ok: "cl_ok demo_clist"
  by (simp add: demo_clist_def cl_ok_def ring_at_def buf_ok_def QMEM_def)

theorem catq_moves_witness:
  "cl_ok demo_clist \<and> (\<exists>a' b'. catq True True demo_clist demo_clist = Ok (a', b') \<and> contents a' = [] \<and>
    contents b' = contents demo_clist @ take (room demo_clist) (map (stored demo_clist) (contents demo_clist)))"
  using catq_moves [OF demo_clist_ok demo_clist_ok] demo_clist_ok by blast

text \<open>
  The firstc/nextc idiom sees every character of the queue once, first to last, with its
  quote bit, also when the ring wraps.
\<close>
theorem walk_sees_contents:
  assumes "cl_ok clp"
  shows "walk clp = Ok (map enc_char (contents clp))"
  using assms by (rule walk_spec)

theorem walk_sees_contents_witness: "cl_ok demo_clist \<and> walk demo_clist = Ok (map enc_char (contents demo_clist))"
  using walk_sees_contents [OF demo_clist_ok] demo_clist_ok by blast

text \<open>
  ndqb without the quote flag counts the leading characters that have none of the flag bits,
  within the part of the queue that lies contiguously in memory from c_cf on; that part is not
  empty unless the queue is, and it ends at the end of the queue or of the buffer.
\<close>
theorem ndqb_contiguous:
  assumes "cl_ok clp" "flag AND TTY_QUOTE = 0"
  shows "\<exists>k. ndqb flag clp = Ok (int (length (takeWhile (\<lambda>(b, q). uint b AND flag = 0) (take k (contents clp))))) \<and>
    (contents clp \<noteq> [] \<longrightarrow> 0 < k) \<and>
    map fst (take k (contents clp)) = (case c_cf clp of None \<Rightarrow> [] | Some f \<Rightarrow> take k (drop f (bytes (c_cs clp)))) \<and>
    (k < length (contents clp) \<longrightarrow> (case c_cf clp of None \<Rightarrow> False | Some f \<Rightarrow> f + k = capacity clp))"
  using assms by (rule ndqb_spec)

theorem ndqb_contiguous_witness:
  "cl_ok demo_clist \<and> (2::int) AND TTY_QUOTE = 0 \<and>
   (\<exists>k. ndqb 2 demo_clist = Ok (int (length (takeWhile (\<lambda>(b, q). uint b AND 2 = 0) (take k (contents demo_clist))))))"
  using ndqb_contiguous [OF demo_clist_ok, of 2] demo_clist_ok by auto

text \<open>
  With the quote flag, ndqb reads the quote bit of the next position instead of the current
  one: it counts a quoted first character, and on a queue that reaches the end of a buffer
  whose size is a multiple of 8 it reads past the end of the bit array.
\<close>
theorem ndqb_quote_off_by_one:
  "ndqb TTY_QUOTE demo_clist = Undef ''c_cq'' \<and>
   ndqb TTY_QUOTE (demo_clist\<lparr>c_cf := Some 0, c_cc := 2, c_cl := Some 2\<rparr>) = Ok 2 \<and>
   hd (contents (demo_clist\<lparr>c_cf := Some 0, c_cc := 2, c_cl := Some 2\<rparr>)) = (52, True)"
  by code_simp

text \<open>
  The byte-wise clrbits computes what its specification, clearing the bits off to off+len-1
  one by one, computes.
\<close>
theorem clrbits_eq_loop:
  assumes "0 < len" "(off + len - 1) div 8 < length cp"
  shows "clrbits cp off len = fold (\<lambda>i cp. clrbit cp (off + i)) [0..<len] cp"
  using assms by (rule clrbits_loop)

theorem clrbits_eq_loop_witness:
  "clrbits [0xff, 0xff, 0xff] 5 14 = fold (\<lambda>i cp. clrbit cp (5 + i)) [0..<14] [0xff, 0xff, 0xff]"
  by (rule clrbits_eq_loop) simp_all

end
