(* ===== verification/Cache.thy ===== *)
theory Cache
  imports Avr32_Machine
begin

text \<open>
  The cache module (arch/avr32/avr32/cache.c): the geometry read from the CONFIG1 register and
  the range operations, as the sequences of \<open>cache\<close> and \<open>sync\<close> instructions they execute.
\<close>

section \<open>Instructions and geometry\<close>

datatype cache_insn =
    CACHE_LINE u32 nat              \<comment> \<open>avr32_cache_op_line: address, operation\<close>
  | CACHE_ALL nat nat               \<comment> \<open>avr32_cache_op_all: mode, operation\<close>
  | SYNC                            \<comment> \<open>avr32_flush_write_buffer\<close>

abbreviation (input) AVR32_ICACHE_OP_FLUSH :: nat where "AVR32_ICACHE_OP_FLUSH \<equiv> 0x00"
abbreviation (input) AVR32_ICACHE_OP_INV :: nat where "AVR32_ICACHE_OP_INV \<equiv> 0x01"
abbreviation (input) AVR32_DCACHE_OP_FLUSH :: nat where "AVR32_DCACHE_OP_FLUSH \<equiv> 0x08"
abbreviation (input) AVR32_DCACHE_OP_INV :: nat where "AVR32_DCACHE_OP_INV \<equiv> 0x0b"
abbreviation (input) AVR32_DCACHE_OP_WBINV :: nat where "AVR32_DCACHE_OP_WBINV \<equiv> 0x0d"
abbreviation (input) AVR32_ICACHE_MODE_ALL :: nat where "AVR32_ICACHE_MODE_ALL \<equiv> 0x00"
abbreviation (input) AVR32_DCACHE_MODE_WBINV_ALL :: nat where "AVR32_DCACHE_MODE_WBINV_ALL \<equiv> 0x04"

record cache_cfg =
  picache_ways :: u32
  picache_sets :: u32
  picache_way_size :: u32
  picache_way_mask :: u32
  picache_size :: u32
  picache_line_size :: u32
  picache_loopcount :: u32
  picache_stride :: u32
  pdcache_ways :: u32
  pdcache_sets :: u32
  pdcache_way_size :: u32
  pdcache_way_mask :: u32
  pdcache_size :: u32
  pdcache_line_size :: u32
  pdcache_loopcount :: u32
  pdcache_stride :: u32
  cache_alias_mask :: u32
  cache_prefer_mask :: u32
  cache_virtual_alias :: bool

text \<open>The variables before \<open>avr32_config_cache\<close> runs: zeroed bss.\<close>

definition cache_bss :: cache_cfg where
  "cache_bss = \<lparr>picache_ways = 0, picache_sets = 0, picache_way_size = 0, picache_way_mask = 0, picache_size = 0,
     picache_line_size = 0, picache_loopcount = 0, picache_stride = 0, pdcache_ways = 0, pdcache_sets = 0,
     pdcache_way_size = 0, pdcache_way_mask = 0, pdcache_size = 0, pdcache_line_size = 0, pdcache_loopcount = 0,
     pdcache_stride = 0, cache_alias_mask = 0, cache_prefer_mask = 0, cache_virtual_alias = False\<rparr>"

definition extract_bitfield :: "u32 \<Rightarrow> u32 \<Rightarrow> nat \<Rightarrow> nat" where
  "extract_bitfield reg m sh = unat (drop_bit sh (reg AND m))"

definition icache_ways :: "u32 \<Rightarrow> nat" where "icache_ways c1 = extract_bitfield c1 0x00001c00 10"
definition icache_sets :: "u32 \<Rightarrow> nat" where "icache_sets c1 = extract_bitfield c1 0x000f0000 16"
definition icache_line :: "u32 \<Rightarrow> nat" where "icache_line c1 = extract_bitfield c1 0x0000e000 13"
definition dcache_ways :: "u32 \<Rightarrow> nat" where "dcache_ways c1 = extract_bitfield c1 0x00000007 0"
definition dcache_sets :: "u32 \<Rightarrow> nat" where "dcache_sets c1 = extract_bitfield c1 0x000003c0 6"
definition dcache_line :: "u32 \<Rightarrow> nat" where "dcache_line c1 = extract_bitfield c1 0x00000038 3"

text \<open>\<open>avr32_config_cache\<close> in the order it assigns: shape, sizes, way masks, strides and masks.\<close>

definition config_shape :: "u32 \<Rightarrow> cache_cfg \<Rightarrow> cache_cfg" where
  "config_shape config1 c = c\<lparr>
     picache_ways := push_bit (icache_ways config1) 1,
     picache_sets := push_bit (icache_sets config1) 1,
     picache_line_size := (if icache_line config1 \<noteq> 0 then push_bit (1 + icache_line config1) 1 else picache_line_size c),
     pdcache_ways := push_bit (dcache_ways config1) 1,
     pdcache_sets := push_bit (dcache_sets config1) 1,
     pdcache_line_size := (if dcache_line config1 \<noteq> 0 then push_bit (1 + dcache_line config1) 1 else pdcache_line_size c)\<rparr>"

definition config_size :: "cache_cfg \<Rightarrow> cache_cfg" where
  "config_size c = c\<lparr>
     picache_size := picache_ways c * picache_sets c * picache_line_size c,
     pdcache_size := pdcache_ways c * pdcache_sets c * pdcache_line_size c\<rparr>"

definition config_way :: "cache_cfg \<Rightarrow> cache_cfg" where
  "config_way c =
    (let iw = picache_size c div picache_ways c; dw = pdcache_size c div pdcache_ways c;
         c' = (if picache_size c \<noteq> 0 then c\<lparr>picache_way_size := iw, picache_way_mask := iw - 1\<rparr> else c)
     in if pdcache_size c \<noteq> 0 then c'\<lparr>pdcache_way_size := dw, pdcache_way_mask := dw - 1\<rparr> else c')"

definition config_stride :: "cache_cfg \<Rightarrow> cache_cfg" where
  "config_stride c =
    (if pdcache_way_size c < NBPG
     then c\<lparr>pdcache_stride := pdcache_way_size c, pdcache_loopcount := pdcache_ways c\<rparr>
     else c\<lparr>pdcache_stride := NBPG, pdcache_loopcount := (pdcache_way_size c div NBPG) * pdcache_ways c\<rparr>)"

definition config_masks :: "cache_cfg \<Rightarrow> cache_cfg" where
  "config_masks c = c\<lparr>
     cache_alias_mask := (pdcache_size c div pdcache_ways c - 1) AND NOT PGOFSET,
     cache_prefer_mask := max (pdcache_size c) (picache_size c) - 1,
     cache_virtual_alias := True\<rparr>"

definition avr32_config_cache :: "u32 \<Rightarrow> cache_cfg \<Rightarrow> cache_cfg" where
  "avr32_config_cache config1 c =
    config_masks (config_stride (config_way (config_size (config_shape config1 c))))"

section \<open>Range operations\<close>

definition ROUND_LINE :: "cache_cfg \<Rightarrow> u32 \<Rightarrow> u32" where
  "ROUND_LINE c a = (a + pdcache_line_size c - 1) AND NOT (pdcache_line_size c - 1)"

definition TRUNC_LINE :: "cache_cfg \<Rightarrow> u32 \<Rightarrow> u32" where
  "TRUNC_LINE c a = a AND NOT (pdcache_line_size c - 1)"

text \<open>
  \<open>while (va < eva) \<lbrace> body(va); va += step; \<rbrace>\<close> on 32-bit addresses. A loop that never ends,
  because the step is 0 or the address wraps around, is \<open>None\<close>.
\<close>

partial_function (option) va_loop :: "(u32 \<Rightarrow> cache_insn list) \<Rightarrow> u32 \<Rightarrow> u32 \<Rightarrow> u32 \<Rightarrow> cache_insn list option" where
  [code]: "va_loop body step eva va =
    (if va < eva
     then Option.bind (va_loop body step eva (va + step)) (\<lambda>rest. Some (body va @ rest))
     else Some [])"

text \<open>The inner loop over the ways: \<open>n\<close> line operations, a stride apart.\<close>

primrec way_loop :: "nat \<Rightarrow> nat \<Rightarrow> u32 \<Rightarrow> u32 \<Rightarrow> cache_insn list" where
  "way_loop op 0 stride tva = []"
| "way_loop op (Suc n) stride tva = CACHE_LINE tva op # way_loop op n stride (tva + stride)"

definition avr32_icache_sync_all :: "cache_insn list" where
  "avr32_icache_sync_all = [CACHE_ALL AVR32_ICACHE_MODE_ALL AVR32_ICACHE_OP_FLUSH]"

definition avr32_dcache_wbinv_all :: "cache_insn list" where
  "avr32_dcache_wbinv_all = [CACHE_ALL AVR32_DCACHE_MODE_WBINV_ALL AVR32_DCACHE_OP_FLUSH, SYNC]"

definition avr32_dcache_wbinv_range_index :: "cache_cfg \<Rightarrow> u32 \<Rightarrow> u32 \<Rightarrow> cache_insn list option" where
  "avr32_dcache_wbinv_range_index c sva len =
    (let sva = AVR32_PHYS_TO_P1 (sva AND pdcache_way_mask c);
         eva = ROUND_LINE c (sva + len);
         va = TRUNC_LINE c sva
     in map_option (\<lambda>tr. tr @ [SYNC])
          (va_loop (way_loop AVR32_DCACHE_OP_WBINV (unat (pdcache_loopcount c)) (pdcache_stride c))
             (pdcache_line_size c) eva va))"

definition avr32_icache_sync_range_index :: "cache_cfg \<Rightarrow> u32 \<Rightarrow> u32 \<Rightarrow> cache_insn list option" where
  "avr32_icache_sync_range_index c sva len =
    (let sva = AVR32_PHYS_TO_P1 (sva AND pdcache_way_mask c);
         eva = ROUND_LINE c (sva + len);
         va = TRUNC_LINE c sva
     in Option.bind (avr32_dcache_wbinv_range_index c va (eva - va)) (\<lambda>tr.
        Option.bind (va_loop (way_loop AVR32_ICACHE_OP_INV (unat (picache_loopcount c)) (picache_stride c))
                       (picache_line_size c) eva va) (\<lambda>tr'. Some (tr @ tr'))))"

definition avr32_dcache_wbinv_range :: "cache_cfg \<Rightarrow> u32 \<Rightarrow> u32 \<Rightarrow> cache_insn list option" where
  "avr32_dcache_wbinv_range c sva len =
    map_option (\<lambda>tr. tr @ [SYNC])
      (va_loop (\<lambda>va. [CACHE_LINE va AVR32_DCACHE_OP_WBINV]) (pdcache_size c) (ROUND_LINE c (sva + len)) (TRUNC_LINE c sva))"

definition avr32_dcache_inv_range :: "cache_cfg \<Rightarrow> u32 \<Rightarrow> u32 \<Rightarrow> cache_insn list option" where
  "avr32_dcache_inv_range c sva len =
    map_option (\<lambda>tr. tr @ [SYNC])
      (va_loop (\<lambda>va. [CACHE_LINE va AVR32_DCACHE_OP_INV]) (pdcache_size c) (ROUND_LINE c (sva + len)) (TRUNC_LINE c sva))"

definition avr32_icache_sync_range :: "u32 \<Rightarrow> u32 \<Rightarrow> cache_insn list result" where
  "avr32_icache_sync_range sva len = Panic ''avr32_icache_sync_range: notyet''"

definition avr32_dcache_wb_range :: "u32 \<Rightarrow> u32 \<Rightarrow> cache_insn list result" where
  "avr32_dcache_wb_range sva len = Panic ''avr32_dcache_wb_range: notyet''"


end
