(* ===== verification/Cache_Props.thy ===== *)
theory Cache_Props
  imports Cache
begin

text \<open>
  What the cache module computes: the geometry that \<open>avr32_config_cache\<close> derives, the loops as
  lists of line operations, and which cache locations a range operation reaches.
\<close>

section \<open>Geometry\<close>

lemma unat_two_power: "n < 32 \<Longrightarrow> unat (2 ^ n :: u32) = 2 ^ n"
proof -
  assume n: "n < 32"
  then have "(2 :: nat) ^ n < 2 ^ 32" by (intro power_strict_increasing) auto
  moreover have "unat (of_nat (2 ^ n) :: u32) = 2 ^ n mod 2 ^ 32" by (simp only: unat_of_nat) simp
  ultimately show ?thesis by (simp only: of_nat_power of_nat_numeral mod_less)
qed

lemma bitfield_bound:
  assumes "unat m < 2 ^ (sh + k)"
  shows "extract_bitfield reg m sh < 2 ^ k"
proof -
  have "unat (reg AND m) \<le> unat m" using word_and_le1 [of reg m] by (simp add: word_le_nat_alt)
  then have "unat (reg AND m) < 2 ^ k * 2 ^ sh" using assms by (simp add: power_add mult.commute)
  then have "unat (reg AND m) div 2 ^ sh < 2 ^ k" by (rule less_mult_imp_div_less)
  then show ?thesis unfolding extract_bitfield_def unat_drop_bit_eq by (simp add: drop_bit_eq_div)
qed

lemma dcache_fields: "dcache_ways c1 \<le> 7" "dcache_sets c1 \<le> 15" "dcache_line c1 \<le> 7"
  using bitfield_bound [of 7 0 3 c1] bitfield_bound [of "0x3c0" 6 4 c1] bitfield_bound [of "0x38" 3 3 c1]
  by (simp_all add: dcache_ways_def dcache_sets_def dcache_line_def)

text \<open>Exponents of the D-cache geometry: a line, a way, the whole cache, the stride of an index loop.\<close>

definition line_exp :: "u32 \<Rightarrow> nat" where "line_exp c1 = 1 + dcache_line c1"
definition way_exp :: "u32 \<Rightarrow> nat" where "way_exp c1 = dcache_sets c1 + line_exp c1"
definition size_exp :: "u32 \<Rightarrow> nat" where "size_exp c1 = dcache_ways c1 + way_exp c1"
definition stride_exp :: "u32 \<Rightarrow> nat" where "stride_exp c1 = min (way_exp c1) 12"

lemma exp_bounds: "line_exp c1 \<le> way_exp c1" "way_exp c1 \<le> size_exp c1" "way_exp c1 \<le> 23" "size_exp c1 \<le> 30"
  "stride_exp c1 \<le> way_exp c1" "line_exp c1 \<le> 8"
  using dcache_fields [of c1] by (simp_all add: line_exp_def way_exp_def size_exp_def stride_exp_def)

lemma power_div_word: "a + b < 32 \<Longrightarrow> 2 ^ (a + b) div (2 ^ a :: u32) = 2 ^ b"
  by (rule unsigned_word_eqI [where ?'a = nat]) (simp only: unat_div_distrib unat_two_power, simp add: power_add unat_two_power)

lemma power_word_nz: "n < 32 \<Longrightarrow> (2 ^ n :: u32) \<noteq> 0"
  using unat_two_power [of n] by auto

lemma config_raw:
  assumes "c = avr32_config_cache c1 c0"
  shows "pdcache_way_size c = (if pdcache_size c \<noteq> 0 then pdcache_size c div pdcache_ways c else pdcache_way_size c0)"
    "pdcache_way_mask c = (if pdcache_size c \<noteq> 0 then pdcache_size c div pdcache_ways c - 1 else pdcache_way_mask c0)"
    "pdcache_stride c = (if pdcache_way_size c < NBPG then pdcache_way_size c else NBPG)"
    "pdcache_loopcount c = (if pdcache_way_size c < NBPG then pdcache_ways c else (pdcache_way_size c div NBPG) * pdcache_ways c)"
    "cache_alias_mask c = (pdcache_size c div pdcache_ways c - 1) AND NOT PGOFSET"
    "pdcache_size c = pdcache_ways c * pdcache_sets c * pdcache_line_size c"
    "pdcache_ways c = 2 ^ dcache_ways c1" "pdcache_sets c = 2 ^ dcache_sets c1"
    "dcache_line c1 \<noteq> 0 \<Longrightarrow> pdcache_line_size c = 2 ^ line_exp c1"
  by (simp_all add: assms avr32_config_cache_def config_masks_def config_stride_def config_way_def config_size_def
      config_shape_def line_exp_def Let_def)

lemma config_dcache:
  assumes "dcache_line c1 \<noteq> 0" "c = avr32_config_cache c1 c0"
  shows "pdcache_ways c = 2 ^ dcache_ways c1" "pdcache_sets c = 2 ^ dcache_sets c1"
    "pdcache_line_size c = 2 ^ line_exp c1" "pdcache_size c = 2 ^ size_exp c1"
    "pdcache_way_size c = 2 ^ way_exp c1" "pdcache_way_mask c = 2 ^ way_exp c1 - 1"
    "pdcache_stride c = 2 ^ stride_exp c1" "pdcache_loopcount c = 2 ^ (size_exp c1 - stride_exp c1)"
    "cache_alias_mask c = (2 ^ way_exp c1 - 1) AND NOT PGOFSET"
proof -
  let ?w = "dcache_ways c1" and ?s = "dcache_sets c1" and ?l = "dcache_line c1"
  note b = exp_bounds [of c1]
  have sz: "2 ^ ?w * 2 ^ ?s * (2 ^ line_exp c1 :: u32) = 2 ^ size_exp c1"
    by (simp only: power_add [symmetric]) (simp add: size_exp_def way_exp_def line_exp_def add.assoc)
  have nz: "(2 ^ size_exp c1 :: u32) \<noteq> 0" using power_word_nz b(4) by simp
  have way: "(2 ^ size_exp c1 :: u32) div 2 ^ ?w = 2 ^ way_exp c1"
    using power_div_word [of ?w "way_exp c1"] b(4) by (simp add: size_exp_def)
  have lt: "(2 ^ way_exp c1 :: u32) < NBPG \<longleftrightarrow> way_exp c1 < 12"
  proof -
    have "(2 ^ way_exp c1 :: u32) < 4096 \<longleftrightarrow> (2 :: nat) ^ way_exp c1 < 2 ^ 12"
      using b(3) by (simp only: word_less_nat_alt) (simp add: unat_two_power)
    then show ?thesis using power_strict_increasing_iff [of "2 :: nat" "way_exp c1" 12] by simp
  qed
  have pg: "\<not> way_exp c1 < 12 \<Longrightarrow> (2 ^ way_exp c1 :: u32) div NBPG * 2 ^ ?w = 2 ^ (size_exp c1 - 12)"
  proof -
    assume a: "\<not> way_exp c1 < 12"
    then have "(2 ^ way_exp c1 :: u32) div 2 ^ 12 = 2 ^ (way_exp c1 - 12)"
      using power_div_word [of 12 "way_exp c1 - 12"] b(3) by simp
    then show ?thesis using a by (simp add: size_exp_def flip: power_add) (simp add: add.commute)
  qed
  note r = config_raw [OF assms(2)]
  show l: "pdcache_ways c = 2 ^ ?w" "pdcache_sets c = 2 ^ ?s" "pdcache_line_size c = 2 ^ line_exp c1"
    using r assms(1) by simp_all
  show s: "pdcache_size c = 2 ^ size_exp c1" unfolding r(6) l by (simp only: sz)
  show y: "pdcache_way_size c = 2 ^ way_exp c1" "pdcache_way_mask c = 2 ^ way_exp c1 - 1"
    "cache_alias_mask c = (2 ^ way_exp c1 - 1) AND NOT PGOFSET"
    unfolding r(1,2,5) s l way using nz by simp_all
  show "pdcache_stride c = 2 ^ stride_exp c1"
    unfolding r(3) y lt by (simp add: stride_exp_def)
  show "pdcache_loopcount c = 2 ^ (size_exp c1 - stride_exp c1)"
    unfolding r(4) y lt l using pg by (simp add: stride_exp_def size_exp_def)
qed

section \<open>Loops as lists\<close>

lemma va_loop_exact:
  assumes "unat va + n * unat step < 2 ^ 32" "unat eva \<le> unat va + n * unat step"
    "n \<noteq> 0 \<Longrightarrow> unat va + (n - 1) * unat step < unat eva"
  shows "va_loop body step eva va = Some (concat (map (\<lambda>j. body (va + of_nat j * step)) [0..<n]))"
  using assms
proof (induction n arbitrary: va)
  case 0
  then have "\<not> va < eva" by (simp add: word_less_nat_alt)
  then show ?case by (subst va_loop.simps) simp
next
  case (Suc n)
  have le: "unat step \<le> unat step + n * unat step" by simp
  have va: "unat (va + step) = unat va + unat step"
    using Suc.prems(1) by (simp add: unat_word_ariths)
  have "unat va < unat eva" using Suc.prems(3) by simp
  then have lt: "va < eva" by (simp add: word_less_nat_alt)
  have p: "n \<noteq> 0 \<Longrightarrow> unat va + unat step + (n - 1) * unat step < unat eva"
    using Suc.prems(3) by (cases n) auto
  have "va_loop body step eva (va + step) = Some (concat (map (\<lambda>j. body (va + step + of_nat j * step)) [0..<n]))"
    by (rule Suc.IH) (use Suc.prems p in \<open>simp_all add: va add.assoc\<close>)
  moreover have "map (\<lambda>j. body (va + of_nat j * step)) [0..<Suc n] = body va # map (\<lambda>j. body (va + step + of_nat j * step)) [0..<n]"
    by (simp only: upt_conv_Cons [of 0] map_Suc_upt [symmetric] zero_less_Suc) (simp add: comp_def algebra_simps)
  ultimately show ?case using lt by (subst va_loop.simps) simp
qed

lemma way_loop_map: "way_loop op n stride tva = map (\<lambda>k. CACHE_LINE (tva + of_nat k * stride) op) [0..<n]"
proof (induction n arbitrary: tva)
  case (Suc n)
  then show ?case
    by (simp only: upt_conv_Cons [of 0] map_Suc_upt [symmetric] zero_less_Suc way_loop.simps) (simp add: comp_def algebra_simps)
qed simp

text \<open>Rounding to lines of the cache.\<close>

lemma and_not_pred:
  "n < 32 \<Longrightarrow> unat ((x :: u32) AND NOT (2 ^ n - 1)) = unat x div 2 ^ n * 2 ^ n"
  by (simp only: mask_eq_exp_minus_1 [symmetric] unat_and_not_mask)

lemma and_pred: "n < 32 \<Longrightarrow> unat ((x :: u32) AND (2 ^ n - 1)) = unat x mod 2 ^ n"
proof -
  have "unat (take_bit n x) = take_bit n (unat x)" by (simp only: unsigned_take_bit_eq)
  then show ?thesis by (simp only: mask_eq_exp_minus_1 [symmetric] take_bit_eq_mask [symmetric]) (simp add: take_bit_eq_mod)
qed

lemma alias_free: "way_exp c1 \<le> 23 \<Longrightarrow> ((2 ^ way_exp c1 - 1 :: u32) AND NOT PGOFSET = 0) \<longleftrightarrow> way_exp c1 \<le> 12"
proof -
  let ?m = "2 ^ way_exp c1 - 1 :: u32"
  assume b: "way_exp c1 \<le> 23"
  have "unat ?m = 2 ^ way_exp c1 - 1" using b power_word_nz [of "way_exp c1"] by (simp add: unat_minus_one unat_two_power)
  then have "unat (?m AND NOT (2 ^ 12 - 1)) = (2 ^ way_exp c1 - 1) div 2 ^ 12 * 2 ^ 12" by (simp only: and_not_pred [of 12])
  then have "?m AND NOT PGOFSET = 0 \<longleftrightarrow> ((2 :: nat) ^ way_exp c1 - 1) div 4096 = 0" by (auto simp: unat_eq_0 [symmetric])
  also have "\<dots> \<longleftrightarrow> (2 :: nat) ^ way_exp c1 \<le> 2 ^ 12" by (auto simp: div_eq_0_iff)
  finally show ?thesis using power_increasing_iff [of "2 :: nat" "way_exp c1" 12] by simp
qed

text \<open>
  For every CONFIG1 value that has a data cache line size, the configured geometry is consistent
  and no product overflows: the cache is ways times sets times lines, a way is the cache divided
  by its ways, the index loops (stride times loop count) span exactly the cache in steps of at
  most a page that divide a way, and the alias mask is empty exactly when a way is at most a page.
\<close>

theorem config_cache_geometry:
  assumes "dcache_line config1 \<noteq> 0" "c = avr32_config_cache config1 c0"
  shows "unat (pdcache_size c) = unat (pdcache_ways c) * unat (pdcache_sets c) * unat (pdcache_line_size c) \<and>
    unat (pdcache_size c) \<le> 2 ^ 30 \<and>
    unat (pdcache_way_size c) * unat (pdcache_ways c) = unat (pdcache_size c) \<and>
    unat (pdcache_stride c) * unat (pdcache_loopcount c) = unat (pdcache_size c) \<and>
    pdcache_stride c \<le> NBPG \<and> unat (pdcache_stride c) dvd unat (pdcache_way_size c) \<and>
    (cache_alias_mask c = 0 \<longleftrightarrow> pdcache_way_size c \<le> NBPG)"
proof -
  note g = config_dcache [OF assms] and b = exp_bounds [of config1]
  have le: "2 ^ n \<le> (4096 :: u32) \<longleftrightarrow> n \<le> 12" if "n < 32" for n
    using that power_increasing_iff [of "2 :: nat" n 12] by (simp add: word_le_nat_alt unat_two_power)
  have "(2 :: nat) ^ size_exp config1 \<le> 2 ^ 30" using b by (intro power_increasing) auto
  moreover have "size_exp config1 = stride_exp config1 + (size_exp config1 - stride_exp config1)" using b by simp
  ultimately show ?thesis
    using b dcache_fields [of config1] alias_free [OF b(3)] unfolding g
    by (simp add: unat_two_power le le_imp_power_dvd stride_exp_def flip: power_add) (simp add: size_exp_def way_exp_def add.commute add.assoc)
qed

theorem config_cache_geometry_witness:
  "unat (pdcache_stride (avr32_config_cache 0x1e2 cache_bss)) * unat (pdcache_loopcount (avr32_config_cache 0x1e2 cache_bss)) = 16384"
proof -
  have "dcache_line 0x1e2 \<noteq> 0" "unat (pdcache_size (avr32_config_cache 0x1e2 cache_bss)) = 16384" by code_simp+
  then show ?thesis using config_cache_geometry [of "0x1e2" _ cache_bss, OF _ refl] by simp
qed

section \<open>Index operations\<close>

text \<open>The loop of an index operation, as the lines and ways it visits.\<close>

lemma trunc_line:
  assumes "line_exp c1 \<le> 8" "pdcache_line_size c = 2 ^ line_exp c1"
  shows "unat (TRUNC_LINE c a) = unat a div 2 ^ line_exp c1 * 2 ^ line_exp c1"
  unfolding TRUNC_LINE_def assms(2) by (rule and_not_pred) (use assms(1) in simp)

lemma round_line:
  assumes "line_exp c1 \<le> 8" "pdcache_line_size c = 2 ^ line_exp c1" "unat a + 2 ^ line_exp c1 < 2 ^ 32"
  shows "unat (ROUND_LINE c a) = (unat a + (2 ^ line_exp c1 - 1)) div 2 ^ line_exp c1 * 2 ^ line_exp c1"
proof -
  let ?l = "line_exp c1"
  have l: "?l < 32" using assms(1) by simp
  have "unat (2 ^ ?l - 1 :: u32) = 2 ^ ?l - 1"
    using l power_word_nz [of ?l] by (simp add: unat_minus_one unat_two_power)
  then have "unat (a + (2 ^ ?l - 1)) = unat a + (2 ^ ?l - 1)"
    using assms(3) by (subst unat_word_ariths(1)) simp
  then show "unat (ROUND_LINE c a) = (unat a + (2 ^ ?l - 1)) div 2 ^ ?l * 2 ^ ?l"
    unfolding ROUND_LINE_def assms(2) by (simp only: add_diff_eq [symmetric] and_not_pred [OF l])
qed

lemma line_loop:
  assumes "line_exp c1 \<le> 8" "pdcache_line_size c = 2 ^ line_exp c1" "unat a + unat len + 2 ^ 9 < 2 ^ 32"
  defines "n \<equiv> (unat a + unat len + (2 ^ line_exp c1 - 1)) div 2 ^ line_exp c1 - unat a div 2 ^ line_exp c1"
  shows "va_loop body (pdcache_line_size c) (ROUND_LINE c (a + len)) (TRUNC_LINE c a) =
     Some (concat (map (\<lambda>j. body (TRUNC_LINE c a + of_nat j * pdcache_line_size c)) [0..<n]))"
proof -
  let ?L = "2 ^ line_exp c1 :: nat"
  have L: "?L \<le> 2 ^ 8" using assms(1) by (intro power_increasing) auto
  have sum: "unat (a + len) = unat a + unat len" using assms(3) by (subst unat_word_ariths(1)) simp
  have w: "unat (pdcache_line_size c) = ?L" using assms(1,2) by (simp add: unat_two_power)
  note r = round_line [OF assms(1,2)]
  have t: "unat (TRUNC_LINE c a) = unat a div ?L * ?L" by (rule trunc_line [OF assms(1,2)])
  have e: "unat (ROUND_LINE c (a + len)) = (unat a + unat len + (?L - 1)) div ?L * ?L"
    unfolding sum [symmetric] by (rule r) (use assms(3) L in \<open>simp add: sum\<close>)
  have le: "unat a div ?L \<le> (unat a + unat len + (?L - 1)) div ?L" by (intro div_le_mono) (simp only: add.assoc le_add1)
  have up: "(unat a + unat len + (?L - 1)) div ?L * ?L \<le> unat a + unat len + (?L - 1)" by simp
  have n: "unat (TRUNC_LINE c a) + n * ?L = (unat a + unat len + (?L - 1)) div ?L * ?L"
    unfolding n_def t using le by (simp add: diff_mult_distrib)
  define E where "E = (unat a + unat len + (?L - 1)) div ?L * ?L"
  have "?L - 1 \<le> 255" using L by simp
  then have "E \<le> unat a + unat len + 255" using up unfolding E_def by linarith
  then have "E < 2 ^ 32" using assms(3) by simp
  moreover have "unat (TRUNC_LINE c a) + (n - 1) * ?L < E" if "n \<noteq> 0"
  proof -
    have "(n - 1) * ?L + ?L = n * ?L" using that by (cases n) auto
    then show ?thesis using n unfolding E_def by (metis add_strict_left_mono less_add_same_cancel1 zero_less_numeral zero_less_power)
  qed
  ultimately show ?thesis using n e
    by (intro va_loop_exact) (simp_all add: w E_def)
qed

lemma stride_hits:
  fixes T q :: nat
  assumes "T mod 2 ^ W = q mod 2 ^ W" "q < 2 ^ S" "t \<le> W" "W \<le> S"
  shows "\<exists>k < 2 ^ (S - t). (T + k * 2 ^ t) mod 2 ^ S = q"
proof -
  define d where "d = (int q - int T) mod 2 ^ S"
  have "(2 :: int) ^ W dvd int q - int T"
    using arg_cong [OF assms(1), of int] by (simp add: mod_eq_dvd_iff zmod_int dvd_diff_commute)
  then have "2 ^ W dvd d" using assms(4) by (simp add: d_def dvd_mod le_imp_power_dvd)
  then have "2 ^ t dvd d" using assms(3) by (meson dvd_trans le_imp_power_dvd)
  then obtain k where k: "d = 2 ^ t * k" by auto
  have d: "0 \<le> d" "d < 2 ^ S" by (simp_all add: d_def)
  have "(2 :: int) ^ S = 2 ^ t * 2 ^ (S - t)" using assms(3,4) by (simp flip: power_add)
  with k d have K: "0 \<le> k" "k < 2 ^ (S - t)" by (simp_all add: zero_le_mult_iff)
  have "(int T + d) mod 2 ^ S = int q" using assms(2) by (simp add: d_def mod_simps)
  then have "int ((T + nat k * 2 ^ t) mod 2 ^ S) = int q" using K k by (simp add: zmod_int mult.commute)
  moreover have "nat k < 2 ^ (S - t)" using K by (simp add: nat_less_iff)
  ultimately show ?thesis by (metis of_nat_eq_iff)
qed

lemma unat_index_base:
  assumes "unat x < 2 ^ 31"
  shows "unat (AVR32_PHYS_TO_P1 x) = unat x + 2 ^ 31"
proof -
  have "unat (x AND NOT (mask 31)) = 0" using assms by (simp only: unat_and_not_mask div_less)
  moreover have "NOT (mask 31) = (AVR32_P1_START :: u32)" by code_simp
  ultimately have "x AND AVR32_P1_START = 0" by (simp only: unat_eq_zero)
  then have "AVR32_PHYS_TO_P1 x = x + AVR32_P1_START" by (simp only: AVR32_PHYS_TO_P1_def disjunctive_add_eq_or)
  then show ?thesis using assms by (simp add: unat_word_ariths)
qed

lemma trunc_mod:
  fixes y :: nat
  assumes "L \<le> W"
  shows "(y div 2 ^ L * 2 ^ L) mod 2 ^ W = y mod 2 ^ W div 2 ^ L * 2 ^ L"
proof -
  have W: "(2 :: nat) ^ W = 2 ^ L * 2 ^ (W - L)" using assms by (simp flip: power_add)
  have "y mod 2 ^ W div 2 ^ L = y div 2 ^ L mod 2 ^ (W - L)" unfolding W mod_mult2_eq by simp
  then show ?thesis by (simp add: W mult_mod_right [symmetric] mult.commute)
qed

lemma unat_line_address:
  assumes "unat (va :: u32) + j * 2 ^ L = T" "S < 32"
  shows "unat (va + of_nat j * 2 ^ L + of_nat k * 2 ^ t) mod 2 ^ S = (T + k * 2 ^ t) mod 2 ^ S"
proof -
  have "(va + of_nat j * 2 ^ L + of_nat k * 2 ^ t :: u32) = of_nat (unat va + j * 2 ^ L + k * 2 ^ t)" by simp
  moreover have "(2 :: nat) ^ S dvd 2 ^ 32" using assms(2) by (intro le_imp_power_dvd) simp
  ultimately show ?thesis using assms(1) by (simp only: unat_of_nat mod_mod_cancel)  (simp add: mod_mod_cancel)
qed

text \<open>The operations of the index loop from address \<open>x\<close>: every line of the range, at every stride of the cache.\<close>

definition index_lines :: "u32 \<Rightarrow> u32 \<Rightarrow> u32 \<Rightarrow> nat" where
  "index_lines c1 x len = (unat x + unat len + (2 ^ line_exp c1 - 1)) div 2 ^ line_exp c1 - unat x div 2 ^ line_exp c1"

definition index_trace :: "u32 \<Rightarrow> u32 \<Rightarrow> nat \<Rightarrow> cache_insn list" where
  "index_trace c1 va n = concat (map (\<lambda>j. map (\<lambda>k.
     CACHE_LINE (va + of_nat j * 2 ^ line_exp c1 + of_nat k * 2 ^ stride_exp c1) AVR32_DCACHE_OP_WBINV)
       [0..<2 ^ (size_exp c1 - stride_exp c1)]) [0..<n])"

lemma index_base:
  assumes "dcache_line c1 \<noteq> 0" "c = avr32_config_cache c1 c0" "x = AVR32_PHYS_TO_P1 (sva AND pdcache_way_mask c)"
  shows "unat x = unat sva mod 2 ^ way_exp c1 + 2 ^ 31" "unat sva mod 2 ^ way_exp c1 < 2 ^ 23"
proof -
  note g = config_dcache [OF assms(1,2)] and b = exp_bounds [of c1]
  have m: "unat (sva AND pdcache_way_mask c) = unat sva mod 2 ^ way_exp c1" using b(3) by (simp only: g and_pred)
  have "unat sva mod 2 ^ way_exp c1 < (2 :: nat) ^ way_exp c1" by simp
  also have "\<dots> \<le> (2 :: nat) ^ 23" using b(3) by (intro power_increasing) auto
  finally show *: "unat sva mod 2 ^ way_exp c1 < 2 ^ 23" .
  then show "unat x = unat sva mod 2 ^ way_exp c1 + 2 ^ 31" unfolding assms(3) m [symmetric] by (intro unat_index_base) simp
qed

lemma wbinv_range_index_trace:
  assumes "dcache_line c1 \<noteq> 0" "c = avr32_config_cache c1 c0" "unat len \<le> 2 ^ 30" "x = AVR32_PHYS_TO_P1 (sva AND pdcache_way_mask c)"
  shows "avr32_dcache_wbinv_range_index c sva len = Some (index_trace c1 (TRUNC_LINE c x) (index_lines c1 x len) @ [SYNC])"
proof -
  note g = config_dcache [OF assms(1,2)] and b = exp_bounds [of c1]
  have bnd: "unat x + unat len + 2 ^ 9 < 2 ^ 32" using index_base [OF assms(1,2,4)] assms(3) by simp
  have lc: "unat (2 ^ (size_exp c1 - stride_exp c1) :: u32) = 2 ^ (size_exp c1 - stride_exp c1)" using b(4) by (simp add: unat_two_power)
  show ?thesis
    unfolding avr32_dcache_wbinv_range_index_def Let_def assms(4) [symmetric] line_loop [OF b(6) g(3) bnd, folded index_lines_def]
    by (simp add: way_loop_map lc g index_trace_def)
qed

lemma index_trace_ops: "i \<in> set (index_trace c1 va n) \<Longrightarrow> \<exists>A. i = CACHE_LINE A AVR32_DCACHE_OP_WBINV"
  by (auto simp: index_trace_def)

lemma index_trace_hits:
  assumes "T mod 2 ^ way_exp c1 = q mod 2 ^ way_exp c1" "q < 2 ^ size_exp c1" "unat va + j * 2 ^ line_exp c1 = T" "j < n"
  shows "\<exists>A. CACHE_LINE A AVR32_DCACHE_OP_WBINV \<in> set (index_trace c1 va n) \<and> unat A mod 2 ^ size_exp c1 = q"
proof -
  note b = exp_bounds [of c1]
  obtain k where k: "k < 2 ^ (size_exp c1 - stride_exp c1)" "(T + k * 2 ^ stride_exp c1) mod 2 ^ size_exp c1 = q"
    using stride_hits [OF assms(1,2) b(5,2)] by blast
  let ?A = "va + of_nat j * 2 ^ line_exp c1 + of_nat k * 2 ^ stride_exp c1"
  have "CACHE_LINE ?A AVR32_DCACHE_OP_WBINV \<in> set (index_trace c1 va n)"
    unfolding index_trace_def using assms(4) k(1) by (simp, intro bexI [of _ j] image_eqI [of _ _ k]) auto
  moreover have "unat ?A mod 2 ^ size_exp c1 = q"
    using unat_line_address [OF assms(3), of "size_exp c1" k "stride_exp c1"] b(4) k(2) by simp
  ultimately show ?thesis by blast
qed

text \<open>The line of the loop that holds a byte of the range.\<close>

lemma index_line_of:
  assumes "unat va = unat x div 2 ^ line_exp c1 * 2 ^ line_exp c1" "i < unat len"
  shows "\<exists>j < index_lines c1 x len. unat va + j * 2 ^ line_exp c1 = (unat x + i) div 2 ^ line_exp c1 * 2 ^ line_exp c1"
proof -
  let ?L = "2 ^ line_exp c1 :: nat" and ?y = "unat x + i"
  have le: "unat x div ?L \<le> ?y div ?L" by (simp add: div_le_mono)
  have "?y + ?L \<le> unat x + unat len + (?L - 1)" using assms(2) by simp
  then have "(?y + ?L) div ?L \<le> (unat x + unat len + (?L - 1)) div ?L" by (rule div_le_mono)
  moreover have "(?y + ?L) div ?L = ?y div ?L + 1" by (rule div_add_self2) simp
  ultimately have "?y div ?L - unat x div ?L < index_lines c1 x len" using le unfolding index_lines_def by linarith
  moreover have "unat va + (?y div ?L - unat x div ?L) * ?L = ?y div ?L * ?L"
    using le assms(1) by (simp add: diff_mult_distrib)
  ultimately show ?thesis by blast
qed

lemma location_bound:
  fixes a way :: nat
  assumes "way < 2 ^ dcache_ways c1"
  defines "q \<equiv> way * 2 ^ way_exp c1 + a mod 2 ^ way_exp c1 div 2 ^ line_exp c1 * 2 ^ line_exp c1"
  shows "q < 2 ^ size_exp c1" "q mod 2 ^ way_exp c1 = a mod 2 ^ way_exp c1 div 2 ^ line_exp c1 * 2 ^ line_exp c1"
    "q div 2 ^ line_exp c1 = way * 2 ^ dcache_sets c1 + a mod 2 ^ way_exp c1 div 2 ^ line_exp c1"
proof -
  let ?W = "way_exp c1" and ?L = "line_exp c1"
  have lt: "a mod 2 ^ ?W div 2 ^ ?L * 2 ^ ?L < 2 ^ ?W" by (rule le_less_trans [of _ "a mod 2 ^ ?W"]) simp_all
  moreover have "way * 2 ^ ?W + 2 ^ ?W \<le> 2 ^ size_exp c1"
    using mult_le_mono1 [of "Suc way" "2 ^ dcache_ways c1" "2 ^ ?W"] assms(1) by (simp add: size_exp_def power_add)
  ultimately show "q < 2 ^ size_exp c1" unfolding q_def by linarith
  show "q mod 2 ^ ?W = a mod 2 ^ ?W div 2 ^ ?L * 2 ^ ?L" using lt unfolding q_def by simp
  show "q div 2 ^ ?L = way * 2 ^ dcache_sets c1 + a mod 2 ^ ?W div 2 ^ ?L"
    unfolding q_def by (simp add: way_exp_def power_add flip: mult.assoc distrib_right)
qed

lemma index_base_mod:
  assumes "unat x = unat sva mod 2 ^ way_exp c1 + 2 ^ 31"
  shows "(unat x + i) mod 2 ^ way_exp c1 = (unat sva + i) mod 2 ^ way_exp c1"
proof -
  let ?W = "way_exp c1"
  have "(2 :: nat) ^ ?W dvd 2 ^ 31" using exp_bounds(3) [of c1] by (intro le_imp_power_dvd) simp
  then obtain z where z: "(2 :: nat) ^ 31 = 2 ^ ?W * z" by (rule dvdE)
  have "(unat x + i) mod 2 ^ ?W = (unat sva mod 2 ^ ?W + (i + 2 ^ ?W * z)) mod 2 ^ ?W" by (simp only: assms z ac_simps)
  also have "\<dots> = (unat sva + i + 2 ^ ?W * z) mod 2 ^ ?W" by (simp only: mod_add_left_eq add.assoc)
  finally show ?thesis by (simp only: mod_mult_self2)
qed

text \<open>
  C32. With the geometry of a CONFIG1 that has a data cache (a line size other than 0) and for a range of at
  most \<open>2 ^ 30\<close> bytes, avr32_dcache_wbinv_range_index always returns. Every instruction before the final sync writes
  back and invalidates a line, and for every byte of the range and every way of the cache one
  of them has the index of the cache location (way and set) where that byte can be held.
\<close>

theorem wbinv_range_index_covers:
  assumes "dcache_line config1 \<noteq> 0" "c = avr32_config_cache config1 c0" "unat len \<le> 2 ^ 30"
  shows "\<exists>tr. avr32_dcache_wbinv_range_index c sva len = Some (tr @ [SYNC]) \<and>
    (\<forall>i \<in> set tr. \<exists>A. i = CACHE_LINE A AVR32_DCACHE_OP_WBINV) \<and>
    (\<forall>a way. unat sva \<le> a \<and> a < unat sva + unat len \<and> way < unat (pdcache_ways c) \<longrightarrow>
       (\<exists>A. CACHE_LINE A AVR32_DCACHE_OP_WBINV \<in> set tr \<and>
          unat A mod unat (pdcache_size c) div unat (pdcache_line_size c) =
            way * unat (pdcache_sets c) + a mod unat (pdcache_way_size c) div unat (pdcache_line_size c)))"
proof -
  note g = config_dcache [OF assms(1,2)] and b = exp_bounds [of config1] and f = dcache_fields [of config1]
  let ?L = "line_exp config1" and ?W = "way_exp config1"
  define x where "x = AVR32_PHYS_TO_P1 (sva AND pdcache_way_mask c)"
  note x = index_base [OF assms(1,2) x_def]
  let ?tr = "index_trace config1 (TRUNC_LINE c x) (index_lines config1 x len)"
  have "\<exists>A. CACHE_LINE A AVR32_DCACHE_OP_WBINV \<in> set ?tr \<and> unat A mod 2 ^ size_exp config1 div 2 ^ ?L =
      way * 2 ^ dcache_sets config1 + a mod 2 ^ ?W div 2 ^ ?L"
    if a: "unat sva \<le> a" "a < unat sva + unat len" and way: "way < 2 ^ dcache_ways config1" for a way
  proof -
    obtain i where i: "a = unat sva + i" "i < unat len" using a by (auto simp: le_iff_add)
    obtain j where j: "j < index_lines config1 x len"
        "unat (TRUNC_LINE c x) + j * 2 ^ ?L = (unat x + i) div 2 ^ ?L * 2 ^ ?L"
      using index_line_of [OF trunc_line [OF b(6) g(3)] i(2)] by blast
    note q = location_bound [OF way, of a]
    have "(unat x + i) div 2 ^ ?L * 2 ^ ?L mod 2 ^ ?W = (unat x + i) mod 2 ^ ?W div 2 ^ ?L * 2 ^ ?L" by (rule trunc_mod [OF b(1)])
    also have "\<dots> = a mod 2 ^ ?W div 2 ^ ?L * 2 ^ ?L" by (simp only: index_base_mod [OF x(1)] i(1))
    finally show ?thesis using index_trace_hits [OF _ q(1) j(2,1)] q(2,3) by metis
  qed
  then show ?thesis
    using wbinv_range_index_trace [OF assms x_def] index_trace_ops f b by (auto simp: g unat_two_power)
qed

theorem wbinv_range_index_covers_witness:
  "\<exists>tr. avr32_dcache_wbinv_range_index (avr32_config_cache 0x1e2 cache_bss) 0x10003000 0x1000 = Some (tr @ [SYNC])"
proof -
  have "dcache_line 0x1e2 \<noteq> 0" by code_simp
  then show ?thesis using wbinv_range_index_covers [of "0x1e2" _ cache_bss "0x1000" "0x10003000", OF _ refl] by auto
qed

section \<open>Address operations\<close>

lemma round_multiple: "0 < M \<Longrightarrow> (M - 1 + k * M) div M * M = k * (M :: nat)"
  by (subst div_mult_self1) simp_all

lemma page_one_step:
  assumes "dcache_line c1 \<noteq> 0" "c = avr32_config_cache c1 c0" "NBPG \<le> pdcache_size c" "page_aligned sva"
    "unat sva + unat (pdcache_size c) + 4096 < 2 ^ 32"
  shows "va_loop body (pdcache_size c) (ROUND_LINE c (sva + NBPG)) (TRUNC_LINE c sva) = Some (body sva)"
proof -
  note g = config_dcache [OF assms(1,2)] and b = exp_bounds [of c1]
  let ?L = "line_exp c1"
  have L: "(2 :: nat) ^ ?L dvd 4096" using b(6) le_imp_power_dvd [of ?L 12 "2 :: nat"] by simp
  then have Ls: "(2 :: nat) ^ ?L \<le> 4096" by (rule dvd_imp_le) simp
  have P: "4096 \<le> unat (pdcache_size c)" using assms(3) by (simp add: word_le_nat_alt)
  have "(2 :: nat) ^ ?L dvd unat sva"
    using assms(4) L unfolding page_aligned_iff by (meson dvd_trans mod_0_imp_dvd)
  then obtain s where s: "unat sva = s * 2 ^ ?L" by (metis dvdE mult.commute)
  obtain p where p: "(4096 :: nat) = p * 2 ^ ?L" using L by (metis dvdE mult.commute)
  have sum: "unat (sva + NBPG) = unat sva + 4096" using assms(5) P by (simp add: unat_word_ariths)
  have t: "TRUNC_LINE c sva = sva"
    using trunc_line [OF b(6) g(3), of sva] by (simp add: s word_unat_eq_iff)
  have "unat (ROUND_LINE c (sva + NBPG)) = (unat sva + 4096 + (2 ^ ?L - 1)) div 2 ^ ?L * 2 ^ ?L"
    unfolding sum [symmetric] by (rule round_line [OF b(6) g(3)]) (use assms(5) P Ls in \<open>simp add: sum\<close>)
  also have "unat sva + 4096 + (2 ^ ?L - 1) = (2 ^ ?L - 1) + (s + p) * 2 ^ ?L" using s p by (simp add: algebra_simps)
  also have "\<dots> div 2 ^ ?L * 2 ^ ?L = (s + p) * 2 ^ ?L" by (rule round_multiple) simp
  also have "\<dots> = unat sva + 4096" using s p by (simp add: algebra_simps)
  finally have e: "unat (ROUND_LINE c (sva + NBPG)) = unat sva + 4096" .
  have "va_loop body (pdcache_size c) (ROUND_LINE c (sva + NBPG)) sva =
      Some (concat (map (\<lambda>j. body (sva + of_nat j * pdcache_size c)) [0..<1]))"
    by (rule va_loop_exact) (use assms(5) P e in simp_all)
  then show ?thesis by (simp add: t)
qed

text \<open>
  The address operations step by the size of the whole cache instead of a line. Writing back and
  invalidating, or invalidating, a page on a machine whose data cache is at least a page large
  executes a single line operation, on the first line of the page; the other lines of the page stay.
\<close>

theorem page_ops_touch_one_line:
  assumes "dcache_line config1 \<noteq> 0" "c = avr32_config_cache config1 c0" "NBPG \<le> pdcache_size c" "page_aligned sva"
    "unat sva + unat (pdcache_size c) + 4096 < 2 ^ 32"
  shows "avr32_dcache_wbinv_range c sva NBPG = Some [CACHE_LINE sva AVR32_DCACHE_OP_WBINV, SYNC] \<and>
    avr32_dcache_inv_range c sva NBPG = Some [CACHE_LINE sva AVR32_DCACHE_OP_INV, SYNC]"
  using page_one_step [OF assms] by (simp add: avr32_dcache_wbinv_range_def avr32_dcache_inv_range_def)

theorem page_ops_touch_one_line_witness:
  "avr32_dcache_wbinv_range (avr32_config_cache 0x1e2 cache_bss) 0xc0001000 0x1000 = Some [CACHE_LINE 0xc0001000 13, SYNC]"
proof -
  have "dcache_line 0x1e2 \<noteq> 0" "pdcache_size (avr32_config_cache 0x1e2 cache_bss) = 16384" by code_simp+
  then show ?thesis using page_ops_touch_one_line [of "0x1e2" _ cache_bss "0xc0001000", OF _ refl] by simp
qed

section \<open>The instruction cache\<close>

lemma config_icache:
  assumes "c = avr32_config_cache c1 c0"
  shows "picache_loopcount c = picache_loopcount c0"
    "icache_line c1 \<noteq> 0 \<Longrightarrow> picache_line_size c = 2 ^ (1 + icache_line c1)"
  by (simp_all add: assms avr32_config_cache_def config_masks_def config_stride_def config_way_def config_size_def
      config_shape_def Let_def)

lemma icache_fields: "icache_line c1 \<le> 7"
  using bitfield_bound [of "0xe000" 13 3 c1] by (simp add: icache_line_def)

lemma empty_loop:
  assumes "0 < unat step" "unat step \<le> 2 ^ 9" "unat eva + 2 ^ 9 < 2 ^ 32"
  shows "va_loop (\<lambda>_. []) step eva va = Some []"
proof (induction "unat eva - unat va" arbitrary: va rule: less_induct)
  case less
  show ?case
  proof (cases "va < eva")
    case True
    then have lt: "unat va < unat eva" by (simp add: word_less_nat_alt)
    then have "unat (va + step) = unat va + unat step" using assms by (simp add: unat_word_ariths)
    then have "va_loop (\<lambda>_. []) step eva (va + step) = Some []" using lt assms(1) by (intro less) simp
    then show ?thesis using True by (subst va_loop.simps) simp
  next
    case False
    then show ?thesis by (subst va_loop.simps) simp
  qed
qed

text \<open>
  The loop count of the instruction cache is never configured. After avr32_config_cache on the
  variables as the kernel starts with them, avr32_icache_sync_range_index returns but executes no
  operation on the instruction cache.
\<close>

theorem icache_sync_index_misses:
  assumes "dcache_line config1 \<noteq> 0" "icache_line config1 \<noteq> 0" "c = avr32_config_cache config1 cache_bss" "unat len \<le> 2 ^ 29"
  shows "\<exists>tr. avr32_icache_sync_range_index c sva len = Some tr \<and>
    (\<forall>A op. CACHE_LINE A op \<in> set tr \<longrightarrow> op = AVR32_DCACHE_OP_WBINV)"
proof -
  note g = config_dcache [OF assms(1,3)] and b = exp_bounds [of config1] and ic = config_icache [OF assms(3)]
  let ?L = "2 ^ line_exp config1 :: nat"
  define x where "x = AVR32_PHYS_TO_P1 (sva AND pdcache_way_mask c)"
  define eva where "eva = ROUND_LINE c (x + len)"
  define va where "va = TRUNC_LINE c x"
  note x = index_base [OF assms(1,3) x_def]
  have L: "?L \<le> 2 ^ 8" using b(6) by (intro power_increasing) auto
  have sum: "unat (x + len) = unat x + unat len" using x assms(4) by (subst unat_word_ariths(1)) simp
  have e: "unat eva = (unat x + unat len + (?L - 1)) div ?L * ?L"
    unfolding eva_def sum [symmetric] by (rule round_line [OF b(6) g(3)]) (use x assms(4) L in \<open>simp add: sum\<close>)
  have v: "unat va = unat x div ?L * ?L" unfolding va_def by (rule trunc_line [OF b(6) g(3)])
  have "?L - 1 \<le> 255" using L by simp
  then have eb: "unat eva \<le> unat x + unat len + 255"
    using div_times_less_eq_dividend [of "unat x + unat len + (?L - 1)" ?L] unfolding e by linarith
  have ve: "unat va \<le> unat eva" unfolding v e by (intro mult_le_mono1 div_le_mono) (simp only: add.assoc le_add1)
  have "unat x mod ?L < ?L" by (rule mod_less_divisor) simp
  also have "\<dots> \<le> 256" using L by simp
  finally have xv: "unat x < unat va + 256" using div_mult_mod_eq [of "unat x" ?L] unfolding v by linarith
  have "unat (eva - va) = unat eva - unat va" using ve by (simp add: unat_sub_if_size)
  then have "unat (eva - va) \<le> 2 ^ 30" using eb xv assms(4) by simp
  note d = wbinv_range_index_trace [OF assms(1,3) this refl, of va]
  have st: "unat (picache_line_size c) = 2 ^ (1 + icache_line config1)"
    unfolding ic(2) [OF assms(2)] using icache_fields [of config1] by (intro unat_two_power) simp
  have "(2 :: nat) ^ (1 + icache_line config1) \<le> 2 ^ 9" using icache_fields [of config1] by (intro power_increasing) auto
  then have "va_loop (\<lambda>_. []) (picache_line_size c) eva va = Some []"
    by (intro empty_loop) (use st eb x assms(4) in simp_all)
  moreover have "way_loop AVR32_ICACHE_OP_INV (unat (picache_loopcount c)) (picache_stride c) = (\<lambda>_. [])"
    by (simp add: fun_eq_iff ic(1) cache_bss_def)
  ultimately have "avr32_icache_sync_range_index c sva len = avr32_dcache_wbinv_range_index c va (eva - va)"
    unfolding avr32_icache_sync_range_index_def Let_def x_def [symmetric] eva_def [symmetric] va_def [symmetric]
    by (simp add: d)
  then show ?thesis unfolding d by (auto dest: index_trace_ops)
qed

theorem icache_sync_index_misses_witness:
  "\<exists>tr. avr32_icache_sync_range_index (avr32_config_cache 0x7a9e2 cache_bss) 0x1000 0x1000 = Some tr \<and>
    (\<forall>A. CACHE_LINE A AVR32_ICACHE_OP_INV \<notin> set tr)"
proof -
  have "dcache_line 0x7a9e2 \<noteq> 0" "icache_line 0x7a9e2 \<noteq> 0" by code_simp+
  then show ?thesis using icache_sync_index_misses [of "0x7a9e2" _ "0x1000" "0x1000", OF _ _ refl] by force
qed

end
