(* ===== verification/Bus_Space.thy ===== *)
theory Bus_Space
  imports Extent_Props Avr32_Machine
begin

text \<open>
  The bus space layer (arch/avr32/avr32/bus_space.c): tags with their extent of bus addresses,
  allocation of address ranges, and the access routines. What a device does on an access is a
  parameter: \<open>rd n a d\<close> reads \<open>n\<close> bytes at address \<open>a\<close> from the device state \<open>d\<close>, \<open>wr n a v d\<close> writes.
\<close>

section \<open>Tags\<close>

record bus_space_tag =
  bs_name :: string
  bs_base :: u32
  bs_size :: u32
  bs_extent :: "extent option"

text \<open>The methods of \<open>struct bus_space_tag\<close>; each access method has one entry per width.\<close>

datatype bs_method =
    BS_MAP | BS_UNMAP | BS_SUBREGION | BS_ALLOC | BS_FREE | BS_VADDR | BS_MMAP | BS_BARRIER | BS_PEEK | BS_POKE
  | BS_R nat | BS_RM nat | BS_RR nat | BS_W nat | BS_WM nat | BS_WR nat | BS_SM nat | BS_SR nat | BS_C nat

text \<open>Whether the table of the system bus space has a routine; the other entries panic when called.\<close>

fun sys_bus_space_implements :: "bs_method \<Rightarrow> bool" where
  "sys_bus_space_implements BS_ALLOC = True"
| "sys_bus_space_implements BS_FREE = True"
| "sys_bus_space_implements (BS_R n) = (n \<noteq> 8)"
| "sys_bus_space_implements (BS_RM n) = (n \<noteq> 8)"
| "sys_bus_space_implements (BS_RR n) = (n \<noteq> 8)"
| "sys_bus_space_implements (BS_W n) = (n \<noteq> 8)"
| "sys_bus_space_implements (BS_WM n) = (n \<noteq> 8)"
| "sys_bus_space_implements (BS_WR n) = (n \<noteq> 8)"
| "sys_bus_space_implements (BS_SM n) = (n \<noteq> 8)"
| "sys_bus_space_implements (BS_SR n) = (n \<noteq> 8)"
| "sys_bus_space_implements (BS_C n) = (n \<noteq> 8)"
| "sys_bus_space_implements _ = False"

definition bs_dispatch :: "bs_method \<Rightarrow> 'a result \<Rightarrow> 'a result" where
  "bs_dispatch mth call = (if sys_bus_space_implements mth then call else Panic ''isn't implemented'')"

definition sys_bus_space :: bus_space_tag where
  "sys_bus_space = \<lparr>bs_name = ''whole bus space'', bs_base = 0, bs_size = 0xffffffff, bs_extent = None\<rparr>"

abbreviation (input) MAX_BUSSPACE_TAG :: nat where "MAX_BUSSPACE_TAG \<equiv> 10"
abbreviation (input) AVR32_P4_START :: u32 where "AVR32_P4_START \<equiv> 0xe0000000"

definition avr32_alloc_bus_space_tag :: "nat \<Rightarrow> (nat \<times> nat) result" where
  "avr32_alloc_bus_space_tag bus_space_index =
     (if bus_space_index \<ge> MAX_BUSSPACE_TAG then Panic ''avr32_alloc_bus_space_tag: tag full''
      else Ok (bus_space_index, bus_space_index + 1))"

text \<open>
  \<open>hdr\<close>, \<open>rsz\<close>, \<open>mem\<close>, \<open>pool\<close> and \<open>kmem\<close> are those of \<open>extent_create\<close>. The name field holds 16 bytes, the last
  one 0.
\<close>

definition avr32_init_bus_space ::
  "nat \<Rightarrow> nat \<Rightarrow> bool \<Rightarrow> nat \<Rightarrow> bool \<Rightarrow> bus_space_tag \<Rightarrow> bus_space_tag option \<Rightarrow> string \<Rightarrow> u32 \<Rightarrow> u32 \<Rightarrow> bus_space_tag result" where
  "avr32_init_bus_space hdr rsz mem pool kmem t basetag name base sz =
     (let t1 = (case basetag of None \<Rightarrow> t | Some b \<Rightarrow> b);
          t2 = t1\<lparr>bs_name := take 15 name, bs_base := base, bs_size := sz\<rparr>
      in if base + sz < AVR32_P4_START then Panic ''avr32_init_bus_space: cannot map outside P4''
         else case extent_create hdr rsz mem base (base + sz) None 0 pool kmem of
           None \<Rightarrow> Panic ''avr32_init_bus_space: unable to allocate map''
         | Some ex \<Rightarrow> Ok (t2\<lparr>bs_extent := Some ex\<rparr>))"

section \<open>Address ranges\<close>

definition bs_map :: "bus_space_tag \<Rightarrow> u32 \<Rightarrow> u32 \<Rightarrow> (int \<times> u32 option \<times> bus_space_tag) result" where
  "bs_map t bpa sz =
     (case bs_extent t of
        None \<Rightarrow> Ok (0, Some (bpa + bs_base t), t)
      | Some ex \<Rightarrow>
          bind_r (extent_alloc_region (bpa + bs_base t) sz EX_MALLOCOK [] ex) (\<lambda>(err, ex').
            Ok (err, if err \<noteq> 0 then None else Some (bpa + bs_base t), t\<lparr>bs_extent := Some ex'\<rparr>)))"

definition bs_unmap :: "bus_space_tag \<Rightarrow> u32 \<Rightarrow> u32 \<Rightarrow> bus_space_tag result" where
  "bs_unmap t bsh sz =
     (case bs_extent t of
        None \<Rightarrow> Ok t
      | Some ex \<Rightarrow>
          if bs_base t + bs_size t < AVR32_P4_START then Panic ''bus_space_unmap: impossible base address''
          else bind_r (extent_free bsh sz 0 [] ex) (\<lambda>(err, ex'). Ok (t\<lparr>bs_extent := Some ex'\<rparr>)))"

definition bs_subregion :: "u32 \<Rightarrow> u32 \<Rightarrow> int \<times> u32" where
  "bs_subregion bsh offset = (0, bsh + offset)"

definition bs_alloc :: "bus_space_tag \<Rightarrow> u32 \<Rightarrow> u32 \<Rightarrow> u32 \<Rightarrow> u32 \<Rightarrow> u32 \<Rightarrow> (int \<times> u32 option \<times> bus_space_tag) result" where
  "bs_alloc t rstart rend sz alignment boundary =
     (case bs_extent t of
        None \<Rightarrow> Panic ''bus_space_alloc: no extent''
      | Some ex \<Rightarrow>
          bind_r (extent_alloc_subregion (rstart + bs_base t) (rend + bs_base t) sz alignment boundary
                    (EX_FAST OR EX_MALLOCOK) [] ex) (\<lambda>(err, bpa, ex').
            Ok (err, if err \<noteq> 0 then None else bpa, t\<lparr>bs_extent := Some ex'\<rparr>)))"

text \<open>\<open>bus_space_unmap\<close> goes through the method table.\<close>

definition bs_free :: "bus_space_tag \<Rightarrow> u32 \<Rightarrow> u32 \<Rightarrow> bus_space_tag result" where
  "bs_free t bsh sz = bs_dispatch BS_UNMAP (bs_unmap t bsh sz)"

section \<open>Access routines\<close>

type_synonym 'd bus_read = "nat \<Rightarrow> u32 \<Rightarrow> 'd \<Rightarrow> u32 \<times> 'd"
type_synonym 'd bus_write = "nat \<Rightarrow> u32 \<Rightarrow> u32 \<Rightarrow> 'd \<Rightarrow> 'd"

definition bs_r :: "'d bus_read \<Rightarrow> nat \<Rightarrow> u32 \<Rightarrow> u32 \<Rightarrow> 'd \<Rightarrow> u32 \<times> 'd" where
  "bs_r rd n bsh offset d = rd n (bsh + offset) d"

primrec bs_rm :: "'d bus_read \<Rightarrow> nat \<Rightarrow> u32 \<Rightarrow> u32 \<Rightarrow> nat \<Rightarrow> 'd \<Rightarrow> u32 list \<times> 'd" where
  "bs_rm rd n bsh offset 0 d = ([], d)"
| "bs_rm rd n bsh offset (Suc count) d =
     (case bs_r rd n bsh offset d of (v, d1) \<Rightarrow>
        case bs_rm rd n bsh offset count d1 of (vs, d2) \<Rightarrow> (v # vs, d2))"

primrec bs_rr :: "'d bus_read \<Rightarrow> nat \<Rightarrow> u32 \<Rightarrow> u32 \<Rightarrow> nat \<Rightarrow> 'd \<Rightarrow> u32 list \<times> 'd" where
  "bs_rr rd n bsh offset 0 d = ([], d)"
| "bs_rr rd n bsh offset (Suc count) d =
     (case bs_r rd n bsh offset d of (v, d1) \<Rightarrow>
        case bs_rr rd n bsh (offset + of_nat n) count d1 of (vs, d2) \<Rightarrow> (v # vs, d2))"

text \<open>A value of \<open>n\<close> bytes.\<close>

definition bs_w :: "'d bus_write \<Rightarrow> nat \<Rightarrow> u32 \<Rightarrow> u32 \<Rightarrow> u32 \<Rightarrow> 'd \<Rightarrow> 'd" where
  "bs_w wr n bsh offset v d = wr n (bsh + offset) (take_bit (8 * n) v) d"

primrec bs_wm :: "'d bus_write \<Rightarrow> nat \<Rightarrow> u32 \<Rightarrow> u32 \<Rightarrow> u32 list \<Rightarrow> 'd \<Rightarrow> 'd" where
  "bs_wm wr n bsh offset [] d = d"
| "bs_wm wr n bsh offset (v # vs) d = bs_wm wr n bsh offset vs (bs_w wr n bsh offset v d)"

primrec bs_wr :: "'d bus_write \<Rightarrow> nat \<Rightarrow> u32 \<Rightarrow> u32 \<Rightarrow> u32 list \<Rightarrow> 'd \<Rightarrow> 'd" where
  "bs_wr wr n bsh offset [] d = d"
| "bs_wr wr n bsh offset (v # vs) d = bs_wr wr n bsh (offset + of_nat n) vs (bs_w wr n bsh offset v d)"

primrec bs_sm :: "'d bus_write \<Rightarrow> nat \<Rightarrow> u32 \<Rightarrow> u32 \<Rightarrow> u32 \<Rightarrow> nat \<Rightarrow> 'd \<Rightarrow> 'd" where
  "bs_sm wr n bsh offset v 0 d = d"
| "bs_sm wr n bsh offset v (Suc count) d = bs_sm wr n bsh offset v count (bs_w wr n bsh offset v d)"

text \<open>\<open>offset += (value)\<close>: the value, of the width of an item, moves the offset.\<close>

primrec bs_sr :: "'d bus_write \<Rightarrow> nat \<Rightarrow> u32 \<Rightarrow> u32 \<Rightarrow> u32 \<Rightarrow> nat \<Rightarrow> 'd \<Rightarrow> 'd" where
  "bs_sr wr n bsh offset v 0 d = d"
| "bs_sr wr n bsh offset v (Suc count) d =
     bs_sr wr n bsh (offset + take_bit (8 * n) v) v count (bs_w wr n bsh offset v d)"

primrec bs_c_forward :: "'d bus_read \<Rightarrow> 'd bus_write \<Rightarrow> nat \<Rightarrow> u32 \<Rightarrow> u32 \<Rightarrow> u32 \<Rightarrow> u32 \<Rightarrow> u32 \<Rightarrow> nat \<Rightarrow> 'd \<Rightarrow> 'd" where
  "bs_c_forward rd wr n h1 o1 h2 o2 off 0 d = d"
| "bs_c_forward rd wr n h1 o1 h2 o2 off (Suc c) d =
     (case bs_r rd n h1 (o1 + off) d of (v, d1) \<Rightarrow>
        bs_c_forward rd wr n h1 o1 h2 o2 (off + of_nat n) c (bs_w wr n h2 (o2 + off) v d1))"

primrec bs_c_backward :: "'d bus_read \<Rightarrow> 'd bus_write \<Rightarrow> nat \<Rightarrow> u32 \<Rightarrow> u32 \<Rightarrow> u32 \<Rightarrow> u32 \<Rightarrow> u32 \<Rightarrow> nat \<Rightarrow> 'd \<Rightarrow> 'd" where
  "bs_c_backward rd wr n h1 o1 h2 o2 off 0 d = d"
| "bs_c_backward rd wr n h1 o1 h2 o2 off (Suc c) d =
     (case bs_r rd n h1 (o1 + off) d of (v, d1) \<Rightarrow>
        bs_c_backward rd wr n h1 o1 h2 o2 (off - of_nat n) c (bs_w wr n h2 (o2 + off) v d1))"

definition bs_c :: "'d bus_read \<Rightarrow> 'd bus_write \<Rightarrow> nat \<Rightarrow> u32 \<Rightarrow> u32 \<Rightarrow> u32 \<Rightarrow> u32 \<Rightarrow> u32 \<Rightarrow> 'd \<Rightarrow> 'd" where
  "bs_c rd wr n h1 o1 h2 o2 c d =
     (if h1 + o1 \<ge> h2 + o2 then bs_c_forward rd wr n h1 o1 h2 o2 0 (unat c) d
      else bs_c_backward rd wr n h1 o1 h2 o2 ((c - 1) * of_nat n) (unat c) d)"

text \<open>\<open>badaddr\<close> says whether the access would fault.\<close>

definition bs_peek :: "(u32 \<Rightarrow> nat \<Rightarrow> bool) \<Rightarrow> 'd bus_read \<Rightarrow> u32 \<Rightarrow> u32 \<Rightarrow> nat \<Rightarrow> 'd \<Rightarrow> (int \<times> u32 option \<times> 'd) result" where
  "bs_peek badaddr rd bsh offset sz d =
     (if badaddr (bsh + offset) sz then Ok (- 1, None, d)
      else if sz \<in> {1, 2, 4} then (case bs_r rd sz bsh offset d of (v, d1) \<Rightarrow> Ok (0, Some v, d1))
      else Panic ''bus_space_peek: bad size'')"

definition bs_poke :: "(u32 \<Rightarrow> nat \<Rightarrow> bool) \<Rightarrow> 'd bus_write \<Rightarrow> u32 \<Rightarrow> u32 \<Rightarrow> nat \<Rightarrow> u32 \<Rightarrow> 'd \<Rightarrow> (int \<times> 'd) result" where
  "bs_poke badaddr wr bsh offset sz v d =
     (if badaddr (bsh + offset) sz then Ok (- 1, d)
      else if sz \<in> {1, 2, 4} then Ok (0, bs_w wr sz bsh offset v d)
      else Panic ''bus_space_poke: bad size'')"

end
