(* ===== verification/Bus_Space_Props.thy ===== *)
theory Bus_Space_Props
  imports Bus_Space
begin

text \<open>
  The access routines on a device that behaves as memory, and address ranges of a bus as a client of
  the region map contract.
\<close>

section \<open>A device that is memory\<close>

text \<open>Big-endian items of \<open>n\<close> bytes, as the AVR32 loads and stores them.\<close>

definition be_value :: "u8 list \<Rightarrow> nat" where
  "be_value bs = foldl (\<lambda>v b. 256 * v + unat b) 0 bs"

definition mem_rd :: "(u32 \<Rightarrow> u8) bus_read" where
  "mem_rd n a m = (of_nat (be_value (map (\<lambda>i. m (a + of_nat i)) [0..<n])), m)"

definition mem_wr :: "(u32 \<Rightarrow> u8) bus_write" where
  "mem_wr n a v m = (\<lambda>x. if unat (x - a) < n then of_nat (unat v div 256 ^ (n - 1 - unat (x - a))) else m x)"

lemma be_value_snoc: "be_value (bs @ [b]) = 256 * be_value bs + unat b"
  by (simp add: be_value_def)

lemma be_value_bound: "be_value bs < 256 ^ length bs"
proof (induction bs rule: rev_induct)
  case (snoc b bs)
  have "unat b < 256" by (rule unat_bound8)
  then show ?case using snoc by (simp add: be_value_snoc)
qed (simp add: be_value_def)

lemma be_value_byte:
  assumes "i < length bs"
  shows "be_value bs div 256 ^ (length bs - 1 - i) mod 256 = unat (bs ! i)"
  using assms
proof (induction bs rule: rev_induct)
  case (snoc b bs)
  have b: "unat b < 256" by (rule unat_bound8)
  show ?case
  proof (cases "i = length bs")
    case True
    then show ?thesis using b by (simp add: be_value_snoc)
  next
    case False
    then have i: "i < length bs" using snoc.prems by simp
    then obtain k where k: "length bs - i = Suc k" by (cases "length bs - i") auto
    have "(256 * be_value bs + unat b) div 256 ^ Suc k = be_value bs div 256 ^ k"
      using b by (simp add: div_mult2_eq)
    moreover have "length bs - 1 - i = k" using k by simp
    ultimately show ?thesis using snoc.IH [OF i] i k by (simp add: be_value_snoc nth_append)
  qed
qed simp

text \<open>Reading an item and writing it elsewhere copies its bytes.\<close>

lemma copy_item:
  assumes "n \<in> {1, 2, 4}"
  shows "bs_w mem_wr n h2 o2 (fst (bs_r mem_rd n h1 o1 m)) m =
    (\<lambda>x. if unat (x - (h2 + o2)) < n then m (h1 + o1 + (x - (h2 + o2))) else m x)"
proof
  fix x
  let ?bs = "map (\<lambda>i. m (h1 + o1 + of_nat i)) [0..<n]" and ?i = "unat (x - (h2 + o2))"
  have lt: "be_value ?bs < 256 ^ n" using be_value_bound [of ?bs] by simp
  have n: "(256 :: nat) ^ n \<le> 2 ^ 32" "(256 :: nat) ^ n = 2 ^ (8 * n)" using assms by auto
  have u: "unat (take_bit (8 * n) (of_nat (be_value ?bs) :: u32)) = be_value ?bs"
    using lt n by (simp add: unsigned_take_bit_eq unat_of_nat take_bit_nat_eq_self)
  show "bs_w mem_wr n h2 o2 (fst (bs_r mem_rd n h1 o1 m)) m x = (if ?i < n then m (h1 + o1 + (x - (h2 + o2))) else m x)"
  proof (cases "?i < n")
    case True
    have "(of_nat (be_value ?bs div 256 ^ (n - 1 - ?i)) :: u8) = of_nat (unat (?bs ! ?i))"
      using be_value_byte [of ?i ?bs] True
      by (intro unsigned_word_eqI [where ?'a = nat]) (simp add: unat_of_nat unat_bound8)
    then show ?thesis using True u by (simp add: bs_w_def bs_r_def mem_rd_def mem_wr_def)
  qed (simp add: bs_w_def mem_wr_def)
qed

lemma snd_mem_rd [simp]: "snd (bs_r mem_rd n h off m) = m"
  by (simp add: bs_r_def mem_rd_def)

lemma unat_rel:
  fixes z :: u32
  assumes "e + n \<le> 2 ^ 32" "0 < n"
  shows "unat (z - of_nat e) < n \<longleftrightarrow> e \<le> unat z \<and> unat z < e + n"
proof -
  have e: "unat (of_nat e :: u32) = e" using assms by (simp add: unat_of_nat)
  show ?thesis using unat_bound32 [of z] assms by (auto simp: unat_sub_if_size e word_size)
qed

lemma copy_at:
  assumes "n \<in> {1, 2, 4}" "e + n \<le> 2 ^ 32"
  shows "bs_w mem_wr n h2 (o2 + of_nat e) (fst (bs_r mem_rd n h1 (o1 + of_nat e) m)) m =
    (\<lambda>x. if e \<le> unat (x - (h2 + o2)) \<and> unat (x - (h2 + o2)) < e + n then m (h1 + o1 + (x - (h2 + o2))) else m x)"
proof -
  have n: "0 < n" using assms(1) by auto
  have x: "x - (h2 + (o2 + of_nat e)) = (x - (h2 + o2)) - of_nat e" for x by simp
  have "h1 + (o1 + of_nat e) + (x - (h2 + (o2 + of_nat e))) = h1 + o1 + (x - (h2 + o2))" for x by simp
  then show ?thesis unfolding copy_item [OF assms(1)] using unat_rel [OF assms(2) n] by (simp only: x)
qed

text \<open>The items between two offsets have been moved.\<close>

definition moved :: "u32 \<Rightarrow> u32 \<Rightarrow> nat \<Rightarrow> nat \<Rightarrow> (u32 \<Rightarrow> u8) \<Rightarrow> u32 \<Rightarrow> u8" where
  "moved s d lo hi m = (\<lambda>x. if lo \<le> unat (x - d) \<and> unat (x - d) < hi then m (s + (x - d)) else m x)"

lemma source_after:
  fixes s d y :: u32
  assumes "d \<le> s" "unat s + unat y < 2 ^ 32"
  shows "unat y \<le> unat (s + y - d)"
proof -
  have "unat (s + y) = unat s + unat y" using assms(2) by (subst unat_word_ariths(1)) simp
  then have "unat (s + y - d) = unat s + unat y - unat d"
    using assms(1) by (subst unat_sub_if_size) (simp add: word_le_nat_alt)
  then show ?thesis using assms(1) by (simp add: word_le_nat_alt)
qed

lemma source_before:
  fixes s d y :: u32
  assumes "s < d" "unat s + unat y < 2 ^ 32"
  shows "unat (s + y - d) < unat y \<or> 2 ^ 32 \<le> unat (s + y - d) + unat d"
proof -
  have "unat (s + y) = unat s + unat y" using assms(2) by (subst unat_word_ariths(1)) simp
  then have "unat (s + y - d) = (if unat d \<le> unat s + unat y then unat s + unat y - unat d
      else unat s + unat y + 2 ^ 32 - unat d)"
    by (subst unat_sub_if_size) (simp add: word_size)
  then show ?thesis using assms(1) unat_bound32 [of d] by (auto simp: word_less_nat_alt)
qed

lemma forward_moves:
  assumes "n \<in> {1, 2, 4}" "h2 + o2 \<le> h1 + o1" "unat (h1 + o1) + (k + c) * n \<le> 2 ^ 32"
  shows "bs_c_forward mem_rd mem_wr n h1 o1 h2 o2 (of_nat (k * n)) c (moved (h1 + o1) (h2 + o2) 0 (k * n) m) =
    moved (h1 + o1) (h2 + o2) 0 ((k + c) * n) m"
  using assms(3)
proof (induction c arbitrary: k)
  case (Suc c)
  let ?s = "h1 + o1" and ?d = "h2 + o2"
  have b: "k * n + n \<le> 2 ^ 32" "unat ?s + (k * n + n) \<le> 2 ^ 32" using Suc.prems by (simp_all add: algebra_simps)
  have "moved ?s ?d 0 (k * n) m (?s + (x - ?d)) = m (?s + (x - ?d))"
    if x: "k * n \<le> unat (x - ?d)" "unat (x - ?d) < k * n + n" for x
  proof -
    have "unat (x - ?d) \<le> unat (?s + (x - ?d) - ?d)" by (rule source_after [OF assms(2)]) (use x b in linarith)
    then have "\<not> unat (?s + (x - ?d) - ?d) < k * n" using x by linarith
    then show ?thesis by (simp only: moved_def simp_thms if_False)
  qed
  then have "bs_w mem_wr n h2 (o2 + of_nat (k * n)) (fst (bs_r mem_rd n h1 (o1 + of_nat (k * n)) (moved ?s ?d 0 (k * n) m))) (moved ?s ?d 0 (k * n) m) =
      moved ?s ?d 0 (Suc k * n) m"
    unfolding copy_at [OF assms(1) b(1)] by (auto simp: fun_eq_iff moved_def)
  moreover have "bs_c_forward mem_rd mem_wr n h1 o1 h2 o2 (of_nat (Suc k * n)) c (moved ?s ?d 0 (Suc k * n) m) =
      moved ?s ?d 0 ((Suc k + c) * n) m"
    by (rule Suc.IH) (use Suc.prems in simp)
  moreover have "of_nat (k * n) + of_nat n = (of_nat (Suc k * n) :: u32)" by (simp add: algebra_simps)
  ultimately show ?case
    by (simp only: bs_c_forward.simps case_prod_beta snd_mem_rd add_Suc_shift)
qed simp

lemma backward_moves:
  assumes "n \<in> {1, 2, 4}" "h1 + o1 < h2 + o2" "unat (h2 + o2) + c * n \<le> 2 ^ 32" "j \<le> c"
  shows "bs_c_backward mem_rd mem_wr n h1 o1 h2 o2 ((of_nat j - 1) * of_nat n) j (moved (h1 + o1) (h2 + o2) (j * n) (c * n) m) =
    moved (h1 + o1) (h2 + o2) 0 (c * n) m"
  using assms(4)
proof (induction j)
  case (Suc j)
  let ?s = "h1 + o1" and ?d = "h2 + o2"
  have jc: "j * n + n \<le> c * n" using mult_le_mono1 [OF Suc.prems, of n] by simp
  then have b: "j * n + n \<le> 2 ^ 32" using assms(3) by linarith
  have off: "(of_nat (Suc j) - 1) * of_nat n = (of_nat (j * n) :: u32)" by simp
  have "moved ?s ?d (Suc j * n) (c * n) m (?s + (x - ?d)) = m (?s + (x - ?d))"
    if x: "j * n \<le> unat (x - ?d)" "unat (x - ?d) < j * n + n" for x
  proof -
    have lt: "unat ?s < unat ?d" using assms(2) by (simp add: word_less_nat_alt)
    have "unat (?s + (x - ?d) - ?d) < unat (x - ?d) \<or> 2 ^ 32 \<le> unat (?s + (x - ?d) - ?d) + unat ?d"
      by (rule source_before [OF assms(2)]) (use x jc lt assms(3) in linarith)
    then have "\<not> (Suc j * n \<le> unat (?s + (x - ?d) - ?d) \<and> unat (?s + (x - ?d) - ?d) < c * n)"
      using x assms(3) unfolding mult_Suc by linarith
    then show ?thesis by (simp only: moved_def simp_thms if_False)
  qed
  then have "bs_w mem_wr n h2 (o2 + of_nat (j * n)) (fst (bs_r mem_rd n h1 (o1 + of_nat (j * n)) (moved ?s ?d (Suc j * n) (c * n) m))) (moved ?s ?d (Suc j * n) (c * n) m) =
      moved ?s ?d (j * n) (c * n) m"
    unfolding copy_at [OF assms(1) b] using jc by (auto simp: fun_eq_iff moved_def)
  moreover have "bs_c_backward mem_rd mem_wr n h1 o1 h2 o2 ((of_nat j - 1) * of_nat n) j (moved ?s ?d (j * n) (c * n) m) = moved ?s ?d 0 (c * n) m"
    by (rule Suc.IH) (use Suc.prems in simp)
  moreover have "of_nat (j * n) - of_nat n = (of_nat j - 1) * (of_nat n :: u32)" by (simp add: algebra_simps)
  ultimately show ?case
    by (simp only: bs_c_backward.simps case_prod_beta snd_mem_rd off)
qed simp

text \<open>
  C33. \<open>bus_space_copy\<close> of one, two or four byte items, on a device that behaves as memory, moves the
  region as a whole also when source and destination overlap: each destination byte gets the
  byte the source held before the call, and nothing else changes.
\<close>

theorem bs_c_moves_region:
  assumes "n \<in> {1, 2, 4}" "unat (h1 + o1) + unat c * n \<le> 2 ^ 32" "unat (h2 + o2) + unat c * n \<le> 2 ^ 32"
  shows "bs_c mem_rd mem_wr n h1 o1 h2 o2 c m =
    (\<lambda>x. if unat (h2 + o2) \<le> unat x \<and> unat x < unat (h2 + o2) + unat c * n
         then m (h1 + o1 + (x - (h2 + o2))) else m x)"
proof -
  let ?s = "h1 + o1" and ?d = "h2 + o2"
  have z: "moved ?s ?d 0 0 m = m" "moved ?s ?d (unat c * n) (unat c * n) m = m" by (auto simp: moved_def fun_eq_iff)
  have "bs_c mem_rd mem_wr n h1 o1 h2 o2 c m = moved ?s ?d 0 (unat c * n) m"
  proof (cases "?d \<le> ?s")
    case True
    then show ?thesis using forward_moves [OF assms(1) True, of 0 "unat c" m] assms(2) z by (simp add: bs_c_def)
  next
    case False
    then have "?s < ?d" by simp
    from backward_moves [OF assms(1) this assms(3) order_refl, of m] False z show ?thesis by (simp add: bs_c_def)
  qed
  moreover have "unat (x - ?d) < unat c * n \<longleftrightarrow> unat ?d \<le> unat x \<and> unat x < unat ?d + unat c * n" for x
    using unat_rel [of "unat ?d" "unat c * n" x] assms(3) by (cases "unat c * n = 0") auto
  ultimately show ?thesis by (simp add: moved_def)
qed

theorem bs_c_moves_region_witness:
  "bs_c mem_rd mem_wr 2 0x1000 0 0x1002 0 3 (\<lambda>x. if x = 0x1001 then 7 else 0) 0x1003 = 7"
  using bs_c_moves_region [of 2 "0x1000" 0 3 "0x1002" 0 "\<lambda>x. if x = 0x1001 then 7 else 0"] by simp

section \<open>Regions written and read back\<close>

lemma be_value_digits: "be_value (map (\<lambda>i. of_nat (v div 256 ^ (n - 1 - i))) [0..<n]) = v mod 256 ^ n"
proof (induction n arbitrary: v)
  case (Suc n)
  have "v div 256 ^ (Suc n - 1 - i) = v div 256 div 256 ^ (n - 1 - i)" if "i < n" for i
  proof -
    have "Suc n - 1 - i = Suc (n - 1 - i)" using that by simp
    then show ?thesis by (simp add: div_mult2_eq)
  qed
  then have "map (\<lambda>i. of_nat (v div 256 ^ (Suc n - 1 - i))) [0..<Suc n] =
      map (\<lambda>i. of_nat (v div 256 div 256 ^ (n - 1 - i))) [0..<n] @ [of_nat v :: u8]" by simp
  moreover have "unat (of_nat v :: u8) = v mod 256" by (simp add: unat_of_nat)
  ultimately show ?case using Suc.IH [of "v div 256"] by (simp only: be_value_snoc) (simp add: mod_mult2_eq)
qed (simp add: be_value_def)

lemma mem_wr_rd:
  assumes "n \<in> {1, 2, 4}" "unat v < 2 ^ (8 * n)"
  shows "fst (mem_rd n a (mem_wr n a v m)) = v"
proof -
  have n: "n < 2 ^ 32" "(256 :: nat) ^ n = 2 ^ (8 * n)" using assms(1) by auto
  have "mem_wr n a v m (a + of_nat i) = of_nat (unat v div 256 ^ (n - 1 - i))" if "i < n" for i
    using that n(1) by (simp add: mem_wr_def unat_of_nat)
  then have "be_value (map (\<lambda>i. mem_wr n a v m (a + of_nat i)) [0..<n]) = unat v mod 256 ^ n"
    unfolding be_value_digits [symmetric] by (intro arg_cong [where f = be_value] map_cong) auto
  moreover have "unat v < 256 ^ n" using n(2) assms(2) by simp
  ultimately show ?thesis by (simp add: mem_rd_def)
qed

lemma bs_wr_keeps:
  assumes "n \<in> {1, 2, 4}" "length vs * n \<le> unat (x - (bsh + off))"
  shows "bs_wr mem_wr n bsh off vs m x = m x"
  using assms(2)
proof (induction vs arbitrary: off m)
  case (Cons v vs)
  let ?y = "x - (bsh + off)"
  have n: "unat (of_nat n :: u32) = n" "0 < n" using assms(1) by auto
  have le: "n + length vs * n \<le> unat ?y" using Cons.prems by simp
  have "x - (bsh + (off + of_nat n)) = ?y - of_nat n" by simp
  moreover have "unat (?y - of_nat n) = unat ?y - n" using le by (subst unat_sub_if_size) (simp add: n)
  ultimately have "length vs * n \<le> unat (x - (bsh + (off + of_nat n)))" using le by (simp only:)
  moreover have "bs_w mem_wr n bsh off v m x = m x" using le by (simp add: bs_w_def mem_wr_def)
  ultimately show ?case using Cons.IH [of "off + of_nat n" "bs_w mem_wr n bsh off v m"] by (simp only: bs_wr.simps)
qed simp

text \<open>
  A region written item by item with \<open>bus_space_write_region\<close> and read with \<open>bus_space_read_region\<close>,
  on a device that behaves as memory, gives the items that were written.
\<close>

theorem region_roundtrip:
  assumes "n \<in> {1, 2, 4}" "\<forall>v \<in> set vs. unat v < 2 ^ (8 * n)" "length vs * n \<le> 2 ^ 32"
  shows "fst (bs_rr mem_rd n bsh off (length vs) (bs_wr mem_wr n bsh off vs m)) = vs"
  using assms(2,3)
proof (induction vs arbitrary: off m)
  case (Cons v vs)
  let ?m1 = "bs_w mem_wr n bsh off v m" and ?m2 = "bs_wr mem_wr n bsh off (v # vs) m"
  have n: "unat (of_nat n :: u32) = n" "0 < n" using assms(1) by auto
  have "?m2 (bsh + off + of_nat i) = ?m1 (bsh + off + of_nat i)" if i: "i < n" for i
  proof -
    have "unat (of_nat i :: u32) = i" using i assms(1) by (auto simp: unat_of_nat)
    then have "unat (of_nat i - of_nat n :: u32) = i + 2 ^ 32 - n" using i by (subst unat_sub_if_size) (simp add: n word_size)
    then have "length vs * n \<le> unat (bsh + off + of_nat i - (bsh + (off + of_nat n)))" using Cons.prems(2) by simp
    from bs_wr_keeps [OF assms(1) this] show ?thesis by (simp only: bs_wr.simps)
  qed
  then have "fst (bs_r mem_rd n bsh off ?m2) = fst (mem_rd n (bsh + off) ?m1)"
    unfolding bs_r_def mem_rd_def fst_conv by (intro arg_cong [where f = of_nat] arg_cong [where f = be_value] map_cong) auto
  also have "\<dots> = v"
  proof -
    have "take_bit (8 * n) v = v" using Cons.prems(1) by (intro take_bit_self32) simp
    then show ?thesis unfolding bs_w_def using mem_wr_rd [OF assms(1)] Cons.prems(1) by simp
  qed
  finally show ?case using Cons by (simp add: case_prod_beta)
qed simp

theorem region_roundtrip_witness:
  "fst (bs_rr mem_rd 2 0x1000 0 3 (bs_wr mem_wr 2 0x1000 0 [0x102, 3, 0xffff] (\<lambda>_. 0))) = [0x102, 3, 0xffff]"
proof -
  have l: "length [0x102, 3, 0xffff :: u32] = 3" by simp
  have "fst (bs_rr mem_rd 2 0x1000 0 (length [0x102, 3, 0xffff :: u32]) (bs_wr mem_wr 2 0x1000 0 [0x102, 3, 0xffff] (\<lambda>_. 0))) = [0x102, 3, 0xffff]"
    by (rule region_roundtrip) simp_all
  then show ?thesis unfolding l .
qed

text \<open>
  \<open>bus_space_set_region\<close> advances by the value it writes and not by the width of an item: the
  accesses are at multiples of the value behind the offset, all at the same address when the value is 0.
\<close>

theorem bs_sr_strides_by_value:
  "bs_sr (\<lambda>n a v d. d @ [(n, a, v)]) n bsh off v count [] =
     map (\<lambda>i. (n, bsh + off + of_nat i * take_bit (8 * n) v, take_bit (8 * n) v)) [0..<count]"
proof -
  have "bs_sr (\<lambda>n a v d. d @ [(n, a, v)]) n bsh off v count d =
      d @ map (\<lambda>i. (n, bsh + off + of_nat i * take_bit (8 * n) v, take_bit (8 * n) v)) [0..<count]" for d
  proof (induction count arbitrary: off d)
    case (Suc count)
    then show ?case
      by (simp only: bs_sr.simps bs_w_def upt_conv_Cons [of 0] map_Suc_upt [symmetric] zero_less_Suc)
        (simp add: comp_def algebra_simps)
  qed simp
  then show ?thesis by simp
qed

section \<open>Mapped ranges\<close>

lemma mallocok_nowait: "EX_MALLOCOK AND NOT (EX_WAITOK OR EX_WAITSPACE) = EX_MALLOCOK"
  by simp

lemma bs_map_ok:
  assumes "bs_extent t = Some ex" "bs_map t bpa sz = Ok (err, h, t1)"
  shows "\<exists>ex1. extent_alloc_region (bpa + bs_base t) sz EX_MALLOCOK [] ex = Ok (err, ex1) \<and> t1 = t\<lparr>bs_extent := Some ex1\<rparr> \<and>
    h = (if err \<noteq> 0 then None else Some (bpa + bs_base t))"
  using assms by (auto simp: bs_map_def bind_r_eq_Ok)

text \<open>
  After \<open>bus_space_map\<close> gave out a range of bus addresses, the handle is the address of the range,
  mapping a range that overlaps it fails, and unmapping it always returns with a consistent
  extent and the addresses allocated as before the mapping, or, when no region descriptor is
  free, with the range still allocated.
\<close>

theorem bus_map_unmap:
  assumes "bs_extent t = Some ex" "ex_ok ex" "\<not> bs_base t + bs_size t < AVR32_P4_START"
    "valid_range (bpa + bs_base t) sz" "bs_map t bpa sz = Ok (0, h, t1)"
  shows "h = Some (bpa + bs_base t) \<and>
    (\<forall>bpa' sz' err h' t2. valid_range (bpa' + bs_base t) sz' \<and> range_of (bpa + bs_base t) sz \<inter> range_of (bpa' + bs_base t) sz' \<noteq> {} \<and>
       bs_map t1 bpa' sz' = Ok (err, h', t2) \<longrightarrow> err \<noteq> 0 \<and> h' = None) \<and>
    (\<exists>t2 ex2. bs_unmap t1 (bpa + bs_base t) sz = Ok t2 \<and> bs_extent t2 = Some ex2 \<and> ex_ok ex2 \<and>
       (allocated ex2 = allocated ex \<or> allocated ex2 = allocated ex \<union> range_of (bpa + bs_base t) sz))"
proof (intro conjI allI impI)
  let ?a = "bpa + bs_base t"
  obtain ex1 where m: "extent_alloc_region ?a sz EX_MALLOCOK [] ex = Ok (0, ex1)" "t1 = t\<lparr>bs_extent := Some ex1\<rparr>" "h = Some ?a"
    using bs_map_ok [OF assms(1,5)] by auto
  note e = ex.alloc_keeps [where flags = EX_MALLOCOK, unfolded mallocok_nowait, OF assms(2,4) m(1)]
    ex.alloc_adds [where flags = EX_MALLOCOK, unfolded mallocok_nowait, OF assms(2,4) m(1)]
  show "h = Some ?a" by (rule m)
  show "err \<noteq> 0" "h' = None"
    if o: "valid_range (bpa' + bs_base t) sz' \<and> range_of ?a sz \<inter> range_of (bpa' + bs_base t) sz' \<noteq> {} \<and> bs_map t1 bpa' sz' = Ok (err, h', t2)"
    for bpa' sz' err h' t2
  proof -
    have x1: "bs_extent t1 = Some ex1" "bs_base t1 = bs_base t" using m(2) by simp_all
    obtain ex2 where r: "extent_alloc_region (bpa' + bs_base t) sz' EX_MALLOCOK [] ex1 = Ok (err, ex2)"
        "h' = (if err \<noteq> 0 then None else Some (bpa' + bs_base t))"
      using bs_map_ok [OF x1(1)] o x1(2) by metis
    have "allocated ex1 \<inter> range_of (bpa' + bs_base t) sz' = {}" if "err = 0"
      using ex.alloc_adds [where flags = EX_MALLOCOK, unfolded mallocok_nowait, OF e(1)] o r(1) that by blast
    then show "err \<noteq> 0" using e(2) o by blast
    then show "h' = None" using r(2) by simp
  qed
  obtain err ex2 where f: "extent_free ?a sz 0 [] ex1 = Ok (err, ex2)" "ex_ok ex2"
      "if err = 0 then allocated ex2 = allocated ex1 - range_of ?a sz else allocated ex2 = allocated ex1"
    using ex.free_removes [where flags = 0, OF e(1) assms(4)] e(2) by auto
  then have "bs_unmap t1 ?a sz = Ok (t1\<lparr>bs_extent := Some ex2\<rparr>)" using assms(3) by (simp add: bs_unmap_def m(2))
  moreover have "allocated ex2 = allocated ex \<or> allocated ex2 = allocated ex \<union> range_of ?a sz" using f(3) e(2) by (auto split: if_splits)
  ultimately show "\<exists>t2 ex2. bs_unmap t1 ?a sz = Ok t2 \<and> bs_extent t2 = Some ex2 \<and> ex_ok ex2 \<and>
       (allocated ex2 = allocated ex \<or> allocated ex2 = allocated ex \<union> range_of ?a sz)"
    using f(2) by (intro exI [of _ "t1\<lparr>bs_extent := Some ex2\<rparr>"] exI [of _ ex2]) simp
qed

text \<open>The bus of the AP7000 after its initialization, with descriptors for its regions.\<close>

definition demo_bus :: bus_space_tag where
  "demo_bus = (case avr32_init_bus_space 16 16 True 8 True sys_bus_space None ''at32 bus'' 0 0xffffffff of Ok t \<Rightarrow> t | _ \<Rightarrow> sys_bus_space)"

lemma demo_bus_eq: "bs_extent demo_bus = Some \<lparr>ex_regions = [], ex_start = 0, ex_end = 0xffffffff, ex_flags = 0,
    fex_freelist = [], expool = 8, kmem_running = True\<rparr>" "bs_base demo_bus = 0" "bs_size demo_bus = 0xffffffff"
  by (simp_all add: demo_bus_def avr32_init_bus_space_def extent_create_def)

lemma demo_bus_map: "\<exists>h t1. bs_map demo_bus 0xffe01000 0x400 = Ok (0, h, t1)"
proof -
  have "case bs_map demo_bus 0xffe01000 0x400 of Ok (err, h, t1) \<Rightarrow> err = 0 | _ \<Rightarrow> False" by code_simp
  then show ?thesis by (auto split: result.splits)
qed

theorem bus_map_unmap_witness:
  "\<exists>h t1 t2. bs_map demo_bus 0xffe01000 0x400 = Ok (0, h, t1) \<and> h = Some 0xffe01000 \<and> bs_unmap t1 0xffe01000 0x400 = Ok t2"
proof -
  obtain h t1 where m: "bs_map demo_bus 0xffe01000 0x400 = Ok (0, h, t1)" using demo_bus_map by blast
  have "ex_ok (the (bs_extent demo_bus))" by (simp add: demo_bus_eq ex_ok_def regs_ok_def regs_in_def)
  then show ?thesis
    using bus_map_unmap [OF demo_bus_eq(1) _ _ _ m] m by (auto simp: demo_bus_eq valid_range_def)
qed

end
