(* ===== verification/At32_Intc.thy ===== *)
theory At32_Intc
  imports Prelude
begin

text \<open>
  The interrupt controller driver (arch/avr32/avr32/at32intc.c): the table of interrupt lines, its
  registration routine and the dispatcher the low level interrupt entry calls. A handler with its
  argument is a value of a type \<open>'h\<close>; running it is a parameter of the dispatcher. Blocking
  interrupts around the registration (\<open>splhigh\<close>, \<open>splx\<close>) makes it atomic.
\<close>

section \<open>Lines\<close>

record 'h at32intc_line =
  il_line :: int
  il_level :: int
  il_group :: int
  il_handler :: "'h option"

record 'h at32intc_st =
  at32intc_found :: bool
  at32intc_lines :: "nat \<Rightarrow> 'h at32intc_line"
  cpu_intr_set :: bool              \<comment> \<open>cpu_intr points to at32intc_cpu_intr\<close>
  ci_idepth :: u32
  uvmexp_intrs :: u32

abbreviation (input) AT32INTC_NR_IRQS :: int where "AT32INTC_NR_IRQS \<equiv> 2048"
abbreviation (input) AT32INTC_IRQ_LEVEL_3 :: int where "AT32INTC_IRQ_LEVEL_3 \<equiv> 3"

definition AT32INTC_IPR :: "u32 \<Rightarrow> u32" where "AT32INTC_IPR x = 0x0000 + push_bit 2 x"
definition AT32INTC_IRR :: "u32 \<Rightarrow> u32" where "AT32INTC_IRR x = 0x0100 + push_bit 2 x"
definition AT32INTC_ICR :: "u32 \<Rightarrow> u32" where "AT32INTC_ICR x = 0x020c - push_bit 2 x"

text \<open>The lines as the kernel starts with them: zeroed bss.\<close>

definition no_line :: "'h at32intc_line" where
  "no_line = \<lparr>il_line = 0, il_level = 0, il_group = 0, il_handler = None\<rparr>"

section \<open>Registration\<close>

text \<open>Returns the index of the line. An index below the array is an access outside it.\<close>

definition at32intc_intr_establish ::
  "int \<Rightarrow> int \<Rightarrow> int \<Rightarrow> 'h \<Rightarrow> 'h at32intc_st \<Rightarrow> (nat \<times> 'h at32intc_st) result" where
  "at32intc_intr_establish grp line ilvl hnd s =
     (let index = line + grp * 32 in
      if \<not> at32intc_found s then Panic ''at32intc_intr_establish: unconfigured''
      else if index \<ge> AT32INTC_NR_IRQS then Panic ''at32intc_intr_establish: bogus interrupt spec''
      else if ilvl > AT32INTC_IRQ_LEVEL_3 then Panic ''at32intc_intr_establish: bogus interrupt level''
      else if index < 0 then Undef ''at32intc_lines''
      else if il_handler (at32intc_lines s (nat index)) \<noteq> None
      then Panic ''at32intc_intr_establish: line already registered''
      else Ok (nat index, s\<lparr>cpu_intr_set := True, at32intc_lines := (at32intc_lines s)
             (nat index := \<lparr>il_line = line, il_level = ilvl, il_group = grp, il_handler = Some hnd\<rparr>)\<rparr>))"

section \<open>Dispatch\<close>

text \<open>
  The loop over the pending bits. \<open>run h ctx\<close> calls a handler with the interrupted status and program
  counter; it acts on the table and on the rest of the machine.
\<close>

type_synonym ('h, 's) runner = "'h \<Rightarrow> u32 \<times> u32 \<Rightarrow> 'h at32intc_st \<times> 's \<Rightarrow> ('h at32intc_st \<times> 's) result"

fun cpu_intr_loop ::
  "('h, 's) runner \<Rightarrow> u32 \<times> u32 \<Rightarrow> int \<Rightarrow> u32 \<Rightarrow> u32 \<Rightarrow> nat list \<Rightarrow> 'h at32intc_st \<times> 's \<Rightarrow> ('h at32intc_st \<times> 's) result" where
  "cpu_intr_loop run ctx ilvl igrp irrx [] s = Ok s"
| "cpu_intr_loop run ctx ilvl igrp irrx (b # bs) s =
     (if irrx AND push_bit b 1 = 0 then cpu_intr_loop run ctx ilvl igrp irrx bs s
      else let il = at32intc_lines (fst s) (b + unat (push_bit 5 igrp)) in
        case il_handler il of
          None \<Rightarrow> Panic ''at32_intc_cpu_intr: no irq handler''
        | Some h \<Rightarrow>
            if il_level il \<noteq> ilvl then Panic ''at32intc_cpu_intr: interrupt level mismatch''
            else if word_of_int (il_group il) \<noteq> igrp then Panic ''at32intc_cpu_intr: interrupt level mismatch''
            else bind_r (run h ctx s) (cpu_intr_loop run ctx ilvl igrp irrx bs))"

text \<open>\<open>regs\<close> are the registers of the controller as the dispatcher reads them.\<close>

definition at32intc_cpu_intr ::
  "(u32 \<Rightarrow> u32) \<Rightarrow> ('h, 's) runner \<Rightarrow> int \<Rightarrow> u32 \<Rightarrow> u32 \<Rightarrow> 'h at32intc_st \<times> 's \<Rightarrow> ('h at32intc_st \<times> 's) result" where
  "at32intc_cpu_intr regs run ilvl st pc s =
     (let s1 = ((fst s)\<lparr>ci_idepth := ci_idepth (fst s) + 1, uvmexp_intrs := uvmexp_intrs (fst s) + 1\<rparr>, snd s) in
      if ilvl \<ge> 4 then Panic ''at32intc_cpu_intr: bad interrupt level''
      else let icrx = regs (AT32INTC_ICR (word_of_int ilvl));
               igrp = icrx AND 0x3f;
               irrx = regs (AT32INTC_IRR igrp)
           in if irrx = 0 then Panic ''cpu_intr: no pending interrupts''
              else bind_r (cpu_intr_loop run (st, pc) ilvl igrp irrx [0..<32] s1) (\<lambda>s2.
                     Ok ((fst s2)\<lparr>ci_idepth := ci_idepth (fst s2) - 1\<rparr>, snd s2)))"

definition avr32_def_cpu_intr :: "int \<Rightarrow> u32 \<Rightarrow> u32 \<Rightarrow> 's result" where
  "avr32_def_cpu_intr level sr pc = Panic ''avr32_def_cpu_intr''"

section \<open>Dispatch of registered lines\<close>

text \<open>A handler that returns and does not touch the table of lines.\<close>

definition well_behaved :: "('h, 's) runner \<Rightarrow> u32 \<times> u32 \<Rightarrow> 'h \<Rightarrow> ('h at32intc_st \<times> 's \<Rightarrow> 'h at32intc_st \<times> 's) \<Rightarrow> bool" where
  "well_behaved run ctx h f \<longleftrightarrow> (\<forall>s. run h ctx s = Ok (f s) \<and> at32intc_lines (fst (f s)) = at32intc_lines (fst s) \<and>
     ci_idepth (fst (f s)) = ci_idepth (fst s))"

lemma loop_runs_pending:
  assumes "\<And>b. b \<in> set bs \<Longrightarrow> irrx AND push_bit b 1 \<noteq> 0 \<Longrightarrow> \<exists>l. L (b + unat (push_bit 5 igrp)) = l \<and>
      il_handler l = Some (hs b) \<and> il_level l = ilvl \<and> word_of_int (il_group l) = igrp \<and> well_behaved run ctx (hs b) (f b)"
    "at32intc_lines (fst s) = L"
  shows "cpu_intr_loop run ctx ilvl igrp irrx bs s = Ok (fold f (filter (\<lambda>b. irrx AND push_bit b 1 \<noteq> 0) bs) s) \<and>
    ci_idepth (fst (fold f (filter (\<lambda>b. irrx AND push_bit b 1 \<noteq> 0) bs) s)) = ci_idepth (fst s)"
  using assms
proof (induction bs arbitrary: s)
  case (Cons b bs)
  show ?case
  proof (cases "irrx AND push_bit b 1 = 0")
    case True
    then show ?thesis using Cons.IH [OF Cons.prems(1), of s] Cons.prems(2) by simp
  next
    case False
    then have l: "il_handler (L (b + unat (push_bit 5 igrp))) = Some (hs b)" "il_level (L (b + unat (push_bit 5 igrp))) = ilvl"
      "word_of_int (il_group (L (b + unat (push_bit 5 igrp)))) = igrp" "well_behaved run ctx (hs b) (f b)"
      using Cons.prems(1) [of b] by auto
    then have "at32intc_lines (fst (f b s)) = L" "run (hs b) ctx s = Ok (f b s)" "ci_idepth (fst (f b s)) = ci_idepth (fst s)"
      using Cons.prems(2) unfolding well_behaved_def by blast+
    then show ?thesis using Cons.IH [OF Cons.prems(1), of "f b s"] Cons.prems(2) l False by simp
  qed
qed simp

text \<open>
  When every pending line of the group that raised the interrupt has a handler registered at that
  level and group, the dispatcher returns after it called the handlers of exactly the pending
  lines, each once and in ascending order, and the interrupt depth is what it was before.
\<close>

theorem dispatch_runs_pending:
  assumes "ilvl < 4" "igrp = regs (AT32INTC_ICR (word_of_int ilvl)) AND 0x3f" "irrx = regs (AT32INTC_IRR igrp)" "irrx \<noteq> 0"
    "\<forall>b < 32. irrx AND push_bit b 1 \<noteq> 0 \<longrightarrow>
       il_handler (at32intc_lines (fst s) (b + unat (push_bit 5 igrp))) = Some (hs b) \<and>
       il_level (at32intc_lines (fst s) (b + unat (push_bit 5 igrp))) = ilvl \<and>
       word_of_int (il_group (at32intc_lines (fst s) (b + unat (push_bit 5 igrp)))) = igrp \<and>
       well_behaved run (st, pc) (hs b) (f b)"
  shows "\<exists>t. at32intc_cpu_intr regs run ilvl st pc s = Ok t \<and> ci_idepth (fst t) = ci_idepth (fst s) \<and>
    snd t = snd (fold f (filter (\<lambda>b. irrx AND push_bit b 1 \<noteq> 0) [0..<32])
      ((fst s)\<lparr>ci_idepth := ci_idepth (fst s) + 1, uvmexp_intrs := uvmexp_intrs (fst s) + 1\<rparr>, snd s))"
proof -
  let ?s = "((fst s)\<lparr>ci_idepth := ci_idepth (fst s) + 1, uvmexp_intrs := uvmexp_intrs (fst s) + 1\<rparr>, snd s)"
  have "cpu_intr_loop run (st, pc) ilvl igrp irrx [0..<32] ?s = Ok (fold f (filter (\<lambda>b. irrx AND push_bit b 1 \<noteq> 0) [0..<32]) ?s) \<and>
      ci_idepth (fst (fold f (filter (\<lambda>b. irrx AND push_bit b 1 \<noteq> 0) [0..<32]) ?s)) = ci_idepth (fst ?s)"
    by (rule loop_runs_pending [where L = "at32intc_lines (fst s)" and hs = hs]) (use assms(5) in auto)
  then show ?thesis using assms(1,4) by (simp add: at32intc_cpu_intr_def Let_def flip: assms(2,3))
qed

theorem dispatch_runs_pending_witness:
  "\<exists>t. at32intc_cpu_intr (\<lambda>r. if r = 0x20c then 7 else 0xa) (\<lambda>h ctx (s, log). Ok (s, log @ [h])) 0 0 0
      (\<lparr>at32intc_found = True, at32intc_lines = (\<lambda>i. \<lparr>il_line = 0, il_level = 0, il_group = 7, il_handler = Some (i - 224)\<rparr>),
        cpu_intr_set = True, ci_idepth = 0, uvmexp_intrs = 0\<rparr>, []) = Ok t \<and> snd t = [1, 3]"
proof -
  have f: "filter (\<lambda>b. (0xa :: u32) AND 2 ^ b \<noteq> 0) [0..<32] = [1, 3]" by code_simp
  show ?thesis
    using dispatch_runs_pending [of 0 7 "\<lambda>r. if r = 0x20c then 7 else 0xa" "0xa"
        "(\<lparr>at32intc_found = True, at32intc_lines = (\<lambda>i. \<lparr>il_line = 0, il_level = 0, il_group = 7, il_handler = Some (i - 224)\<rparr>),
          cpu_intr_set = True, ci_idepth = 0, uvmexp_intrs = 0\<rparr>, [])" id "\<lambda>h ctx (s, log). Ok (s, log @ [h])" 0 0 "\<lambda>b (s, log). (s, log @ [b])"]
    by (simp add: AT32INTC_ICR_def AT32INTC_IRR_def well_behaved_def) (auto simp: f)
qed

section \<open>Registration and dispatch\<close>

lemma pending_single: "l < 32 \<Longrightarrow> b < 32 \<Longrightarrow> (push_bit l 1 :: u32) AND push_bit b 1 \<noteq> 0 \<longleftrightarrow> b = l"
  by (auto simp: push_bit_of_1 and_exp_eq_0_iff_not_bit bit_exp_iff)

lemma filter_single: "l < n \<Longrightarrow> filter (\<lambda>b. b = l) [0..<n] = [l]"
proof -
  assume "l < n"
  then have "[0..<n] = [0..<l] @ l # [Suc l..<n]" by (metis upt_add_eq_append less_imp_add_positive upt_conv_Cons add_0 le0 less_imp_le_nat le_add_diff_inverse)
  then show ?thesis by (simp add: filter_empty_conv)
qed

lemma line_index:
  assumes "0 \<le> line" "line < 32" "0 \<le> grp" "grp < (64 :: int)"
  shows "nat (line + grp * 32) = nat line + unat (push_bit 5 (word_of_int grp :: u32))"
    "unat (word_of_int grp :: u32) = nat grp"
proof -
  show g: "unat (word_of_int grp :: u32) = nat grp" using assms(3,4) by (simp add: unsigned_of_int take_bit_int_eq_self)
  have "unat (push_bit 5 (word_of_int grp :: u32)) = nat grp * 32"
    using assms(3,4) by (simp add: push_bit_eq_mult unat_word_ariths g)
  then show "nat (line + grp * 32) = nat line + unat (push_bit 5 (word_of_int grp :: u32))" using assms by (simp add: nat_add_distrib nat_mult_distrib)
qed

text \<open>
  C35. Registering a handler for a line below 32 of a group below 64, at a level the controller has,
  on a line that has none succeeds and changes no other line; and when the controller then
  reports that group with only that line pending at that level, the dispatcher runs this
  handler, once, and returns.
\<close>

theorem establish_then_dispatch:
  assumes "at32intc_found s" "0 \<le> line" "line < 32" "0 \<le> grp" "grp < 64" "0 \<le> ilvl" "ilvl \<le> 3"
    "il_handler (at32intc_lines s (nat (line + grp * 32))) = None"
    "regs (AT32INTC_ICR (word_of_int ilvl)) AND 0x3f = word_of_int grp" "regs (AT32INTC_IRR (word_of_int grp)) = push_bit (nat line) 1"
    "well_behaved run (st, pc) h f"
  shows "\<exists>t u. at32intc_intr_establish grp line ilvl h s = Ok (nat (line + grp * 32), t) \<and>
    (\<forall>i. i \<noteq> nat (line + grp * 32) \<longrightarrow> at32intc_lines t i = at32intc_lines s i) \<and>
    at32intc_cpu_intr regs run ilvl st pc (t, m) = Ok u \<and>
    snd u = snd (f (t\<lparr>ci_idepth := ci_idepth t + 1, uvmexp_intrs := uvmexp_intrs t + 1\<rparr>, m))"
proof -
  let ?i = "nat (line + grp * 32)" and ?g = "word_of_int grp :: u32" and ?irrx = "push_bit (nat line) 1 :: u32"
  define t where "t = s\<lparr>cpu_intr_set := True, at32intc_lines := (at32intc_lines s)
      (?i := \<lparr>il_line = line, il_level = ilvl, il_group = grp, il_handler = Some h\<rparr>)\<rparr>"
  let ?t = "t\<lparr>ci_idepth := ci_idepth t + 1, uvmexp_intrs := uvmexp_intrs t + 1\<rparr>"
  have e: "at32intc_intr_establish grp line ilvl h s = Ok (?i, t)"
    using assms(1-8) by (simp add: at32intc_intr_establish_def Let_def t_def)
  have p: "?irrx AND push_bit b 1 \<noteq> 0 \<longleftrightarrow> b = nat line" if "b < 32" for b
    by (rule pending_single) (use assms(2,3) that in auto)
  have nz: "?irrx \<noteq> 0" using p [of "nat line"] assms(2,3) by auto
  have "filter (\<lambda>b. ?irrx AND push_bit b 1 \<noteq> 0) [0..<32] = filter (\<lambda>b. b = nat line) [0..<32]"
    by (rule filter_cong [OF refl]) (rule p, simp)
  also have "\<dots> = [nat line]" by (rule filter_single) (use assms(2,3) in simp)
  finally have fl: "filter (\<lambda>b. ?irrx AND push_bit b 1 \<noteq> 0) [0..<32] = [nat line]" .
  have "cpu_intr_loop run (st, pc) ilvl ?g ?irrx [0..<32] (?t, m) = Ok (fold (\<lambda>_. f) (filter (\<lambda>b. ?irrx AND push_bit b 1 \<noteq> 0) [0..<32]) (?t, m)) \<and>
      ci_idepth (fst (fold (\<lambda>_. f) (filter (\<lambda>b. ?irrx AND push_bit b 1 \<noteq> 0) [0..<32]) (?t, m))) = ci_idepth (fst (?t, m))"
    by (rule loop_runs_pending [where L = "at32intc_lines t" and hs = "\<lambda>_. h"])
      (use p line_index(1) [OF assms(2-5)] assms(11) in \<open>auto simp: t_def\<close>)
  then have "at32intc_cpu_intr regs run ilvl st pc (t, m) = Ok ((fst (f (?t, m)))\<lparr>ci_idepth := ci_idepth (fst (f (?t, m))) - 1\<rparr>, snd (f (?t, m)))"
    using assms(7,9,10) nz unfolding fl by (simp add: at32intc_cpu_intr_def Let_def)
  then show ?thesis using e by (auto simp: t_def)
qed

definition intc_boot :: "'h at32intc_st" where
  "intc_boot = \<lparr>at32intc_found = True, at32intc_lines = (\<lambda>_. no_line), cpu_intr_set = False, ci_idepth = 0, uvmexp_intrs = 0\<rparr>"

theorem establish_then_dispatch_witness:
  "\<exists>t u. at32intc_intr_establish 7 0 0 ''usart'' intc_boot = Ok (224, t) \<and>
     at32intc_cpu_intr (\<lambda>r. if r = 0x20c then 7 else 1) (\<lambda>h ctx (s, log). Ok (s, log @ [h])) 0 0 0 (t, []) = Ok u \<and> snd u = [''usart'']"
  using establish_then_dispatch [of intc_boot 0 7 0 "\<lambda>r. if r = 0x20c then 7 else 1" "\<lambda>h ctx (s, log). Ok (s, log @ [h])" 0 0 "''usart''"
      "\<lambda>(s, log). (s, log @ [''usart''])" "[]"]
  by (simp add: intc_boot_def no_line_def AT32INTC_ICR_def AT32INTC_IRR_def well_behaved_def) blast

text \<open>
  The registration checks the index of a line and not the line itself. Line 32 of group 0 is accepted
  and takes the slot of line 0 of group 1; the interrupt of that line then panics in the
  dispatcher, and a handler for it can no longer be registered.
\<close>

theorem establish_line_out_of_group:
  "\<exists>t. at32intc_intr_establish 0 32 0 ''a'' intc_boot = Ok (32, t) \<and>
     at32intc_cpu_intr (\<lambda>_. 1) (\<lambda>h ctx (s, log). Ok (s, log @ [h])) 0 0 0 (t, []) = Panic ''at32intc_cpu_intr: interrupt level mismatch'' \<and>
     at32intc_intr_establish 1 0 0 ''b'' t = Panic ''at32intc_intr_establish: line already registered''"
proof -
  let ?t = "intc_boot\<lparr>cpu_intr_set := True, at32intc_lines := (\<lambda>_. no_line)(32 := \<lparr>il_line = 32, il_level = 0, il_group = 0, il_handler = Some ''a''\<rparr>)\<rparr>"
  have "at32intc_intr_establish 0 32 0 ''a'' intc_boot = Ok (32, ?t)"
    by (simp add: at32intc_intr_establish_def Let_def intc_boot_def no_line_def)
  moreover have "[0..<32] = 0 # [1..<32]" by (simp add: upt_conv_Cons)
  then have "at32intc_cpu_intr (\<lambda>_. 1) (\<lambda>h ctx (s, log). Ok (s, log @ [h])) 0 0 0 (?t, []) = Panic ''at32intc_cpu_intr: interrupt level mismatch''"
    by (simp add: at32intc_cpu_intr_def Let_def)
  moreover have "at32intc_intr_establish 1 0 0 ''b'' ?t = Panic ''at32intc_intr_establish: line already registered''"
    by (simp add: at32intc_intr_establish_def Let_def intc_boot_def)
  ultimately show ?thesis by blast
qed

end
