(* ===== verification/At32_Usart.thy ===== *)
theory At32_Usart
  imports Clist_Props
begin

text \<open>
  The serial port driver (arch/avr32/avr32/at32usart.c) and the routines of kern/tty.c it uses. The
  registers are a log of what the driver writes and, for what it reads, the values the status and
  data registers deliver one after the other; a poll with no value left never ends. The line
  discipline and kauth(9) are parameters.
\<close>

section \<open>Registers\<close>

record usart =
  u_imr :: u32
  u_csr :: "u32 list"
  u_rhr :: "u32 list"
  u_log :: "(u32 \<times> u32) list"

abbreviation (input) AT32_USART_IER :: u32 where "AT32_USART_IER \<equiv> 0x0008"
abbreviation (input) AT32_USART_IDR :: u32 where "AT32_USART_IDR \<equiv> 0x000c"
abbreviation (input) AT32_USART_THR :: u32 where "AT32_USART_THR \<equiv> 0x001c"
abbreviation (input) AT32_USART_CSR_RXRDY :: u32 where "AT32_USART_CSR_RXRDY \<equiv> 1"
abbreviation (input) AT32_USART_CSR_TXRDY :: u32 where "AT32_USART_CSR_TXRDY \<equiv> 2"

definition EARLY_WR4 :: "u32 \<Rightarrow> u32 \<Rightarrow> usart \<Rightarrow> usart" where
  "EARLY_WR4 reg v u = u\<lparr>u_log := u_log u @ [(reg, v)]\<rparr>"

text \<open>\<open>do csr = EARLY_RD4(CSR); while ((csr & TXRDY) == 0)\<close>: the values left behind the one that ends the poll.\<close>

fun wait_txrdy :: "u32 list \<Rightarrow> u32 list result" where
  "wait_txrdy [] = Hang"
| "wait_txrdy (csr # rest) = (if csr AND AT32_USART_CSR_TXRDY = 0 then wait_txrdy rest else Ok rest)"

definition poll_txrdy :: "usart \<Rightarrow> usart result" where
  "poll_txrdy u = bind_r (wait_txrdy (u_csr u)) (\<lambda>rest. Ok (u\<lparr>u_csr := rest\<rparr>))"

section \<open>The console\<close>

definition at32usart_cnputc :: "u32 \<Rightarrow> usart \<Rightarrow> usart result" where
  "at32usart_cnputc ch u =
     (let imr = u_imr u;
          u1 = EARLY_WR4 AT32_USART_IDR (1 OR 2) u
      in bind_r (poll_txrdy u1) (\<lambda>u2.
         bind_r (poll_txrdy (EARLY_WR4 AT32_USART_THR ch u2)) (\<lambda>u3.
         Ok (EARLY_WR4 AT32_USART_IER imr u3))))"

definition at32usart_cngetc :: "int result" where
  "at32usart_cngetc = Panic ''at32usart_cngetc: notyet''"

definition at32usart_cnpollc :: "unit result" where
  "at32usart_cnpollc = Panic ''at32usart_cnpollc: notyet''"

section \<open>The tty\<close>

record tty =
  t_state :: u32
  t_outq :: clist
  t_lowat :: int
  t_hiwat :: int
  t_iflag :: u32
  t_oflag :: u32
  t_cflag :: u32
  t_lflag :: u32
  t_ispeed :: int
  t_ospeed :: int
  t_cc :: "u8 list"
  t_wakeups :: nat                  \<comment> \<open>broadcasts of t_outcv with the select notification\<close>

abbreviation (input) TS_BUSY :: u32 where "TS_BUSY \<equiv> 0x4"
abbreviation (input) TS_CARR_ON :: u32 where "TS_CARR_ON \<equiv> 0x8"
abbreviation (input) TS_FLUSH :: u32 where "TS_FLUSH \<equiv> 0x20"
abbreviation (input) TS_ISOPEN :: u32 where "TS_ISOPEN \<equiv> 0x40"
abbreviation (input) TS_TTSTOP :: u32 where "TS_TTSTOP \<equiv> 0x200"
abbreviation (input) TTYDEF_IFLAG :: u32 where "TTYDEF_IFLAG \<equiv> 0x2b02"
abbreviation (input) TTYDEF_OFLAG :: u32 where "TTYDEF_OFLAG \<equiv> 7"
abbreviation (input) TTYDEF_LFLAG :: u32 where "TTYDEF_LFLAG \<equiv> 0x5cb"
abbreviation (input) TTYDEF_CFLAG :: u32 where "TTYDEF_CFLAG \<equiv> 0x4b00"
abbreviation (input) CLOCAL :: u32 where "CLOCAL \<equiv> 0x8000"
abbreviation (input) CBSIZE :: int where "CBSIZE \<equiv> 52"
abbreviation (input) EBUSY :: int where "EBUSY \<equiv> 16"

definition ttypull :: "tty \<Rightarrow> bool \<times> tty" where
  "ttypull tp = (c_cc (t_outq tp) \<noteq> 0,
     if c_cc (t_outq tp) \<le> t_lowat tp then tp\<lparr>t_wakeups := t_wakeups tp + 1\<rparr> else tp)"

definition roundup :: "int \<Rightarrow> int \<Rightarrow> int" where
  "roundup x y = ((x + (y - 1)) div y) * y"

definition clamp :: "int \<Rightarrow> int \<Rightarrow> int \<Rightarrow> int" where
  "clamp x h l = (if x > h then h else if x < l then l else x)"

definition ttsetwater :: "tty \<Rightarrow> tty" where
  "ttsetwater tp =
     (let cps = t_ospeed tp div 10;
          lo = clamp (cps div 2) 256 32;
          x = clamp (lo + cps) (roundup 2048 CBSIZE) (roundup 100 CBSIZE)
      in tp\<lparr>t_lowat := lo, t_hiwat := roundup x CBSIZE\<rparr>)"

section \<open>Device routines\<close>

text \<open>\<open>denied\<close> is whether kauth refuses the open; \<open>l_open\<close> is the line discipline's open routine.\<close>

definition at32usart_open :: "u8 list \<Rightarrow> bool \<Rightarrow> (tty \<Rightarrow> int \<times> tty) \<Rightarrow> tty \<Rightarrow> int \<times> tty" where
  "at32usart_open ttydefchars denied l_open tp =
     (if t_state tp AND TS_ISOPEN = 0
      then l_open (ttsetwater (tp\<lparr>t_state := t_state tp OR TS_CARR_ON, t_cc := ttydefchars,
             t_iflag := TTYDEF_IFLAG, t_oflag := TTYDEF_OFLAG, t_cflag := TTYDEF_CFLAG OR CLOCAL,
             t_lflag := TTYDEF_LFLAG, t_ispeed := 115200, t_ospeed := 115200\<rparr>))
      else if denied then (EBUSY, tp)
      else l_open tp)"

text \<open>The interrupt handler: the status is read before each character, \<open>l_rint\<close> takes one character.\<close>

fun at32usart_intr :: "(u8 \<Rightarrow> 't \<Rightarrow> 't) \<Rightarrow> ('t \<Rightarrow> bool) \<Rightarrow> u32 list \<Rightarrow> u32 list \<Rightarrow> 't \<Rightarrow> ('t \<times> u32 list \<times> u32 list) result" where
  "at32usart_intr l_rint isopen [] rhr tp = Hang"
| "at32usart_intr l_rint isopen (status # csr) rhr tp =
     (if status AND AT32_USART_CSR_RXRDY = 0 then Ok (tp, csr, rhr)
      else case rhr of
        [] \<Rightarrow> Hang
      | c # rhr' \<Rightarrow> at32usart_intr l_rint isopen csr rhr' (if isopen tp then l_rint (ucast c) tp else tp))"

text \<open>\<open>for (i=0; i<cnt; i++) at32usart_cnputc(0, c_cf[i])\<close>.\<close>

fun put_block :: "u8 list \<Rightarrow> usart \<Rightarrow> usart result" where
  "put_block [] u = Ok u"
| "put_block (b # bs) u = bind_r (at32usart_cnputc (ucast b) u) (put_block bs)"

definition start_round :: "clist \<times> usart \<Rightarrow> (clist \<times> usart) result" where
  "start_round = (\<lambda>(q, u). bind_r (ndqb 0 q) (\<lambda>cnt.
     case (c_cf q, c_cs q) of
       (Some f, Buf cs) \<Rightarrow>
         if f + nat cnt \<le> length cs
         then bind_r (put_block (take (nat cnt) (drop f cs)) u) (\<lambda>u'. bind_r (ndflush cnt q) (\<lambda>q'. Ok (q', u')))
         else Undef ''c_cf''
     | _ \<Rightarrow> if cnt \<le> 0 then bind_r (ndflush cnt q) (\<lambda>q'. Ok (q', u)) else Undef ''c_cf''))"

text \<open>The loop that empties the output queue; \<open>None\<close> when it never ends.\<close>

partial_function (option) start_loop :: "clist \<times> usart \<Rightarrow> (clist \<times> usart) result option" where
  [code]: "start_loop qu =
     (if c_cc (fst qu) \<noteq> 0
      then (case start_round qu of
              Ok qu' \<Rightarrow> start_loop qu'
            | Panic e \<Rightarrow> Some (Panic e) | Undef e \<Rightarrow> Some (Undef e) | Hang \<Rightarrow> Some Hang)
      else Some (Ok qu))"

definition at32usart_start :: "tty \<Rightarrow> usart \<Rightarrow> (tty \<times> usart) result" where
  "at32usart_start tp u =
     (if t_state tp AND (TS_TTSTOP OR TS_BUSY) \<noteq> 0 then Ok (tp, u)
      else let tp1 = snd (ttypull tp);
               tp2 = tp1\<lparr>t_state := t_state tp1 OR TS_BUSY\<rparr>
           in case start_loop (t_outq tp2, u) of
                None \<Rightarrow> Hang
              | Some r \<Rightarrow> bind_r r (\<lambda>(q, u').
                  Ok (tp2\<lparr>t_outq := q, t_state := t_state tp2 AND NOT TS_BUSY\<rparr>, u')))"

definition at32usart_stop :: "tty \<Rightarrow> tty" where
  "at32usart_stop tp =
     (if t_state tp AND TS_BUSY \<noteq> 0 \<and> t_state tp AND TS_TTSTOP = 0
      then tp\<lparr>t_state := t_state tp OR TS_FLUSH\<rparr> else tp)"

definition at32usart_param :: int where
  "at32usart_param = 0"

section \<open>Output\<close>

text \<open>How often the status register will report a ready transmitter.\<close>

definition txrdys :: "usart \<Rightarrow> nat" where
  "txrdys u = length (filter (\<lambda>csr. csr AND AT32_USART_CSR_TXRDY \<noteq> 0) (u_csr u))"

lemma poll_ok: "0 < txrdys u \<Longrightarrow> \<exists>rest. poll_txrdy u = Ok (u\<lparr>u_csr := rest\<rparr>) \<and> txrdys (u\<lparr>u_csr := rest\<rparr>) = txrdys u - 1"
proof -
  have "\<exists>rest. wait_txrdy csr = Ok rest \<and>
      length (filter (\<lambda>csr. csr AND AT32_USART_CSR_TXRDY \<noteq> 0) rest) = length (filter (\<lambda>csr. csr AND AT32_USART_CSR_TXRDY \<noteq> 0) csr) - 1"
    if "0 < length (filter (\<lambda>csr. csr AND AT32_USART_CSR_TXRDY \<noteq> 0) csr)" for csr
    using that by (induction csr) (auto split: if_splits)
  then show "0 < txrdys u \<Longrightarrow> ?thesis" by (fastforce simp: poll_txrdy_def txrdys_def)
qed

definition putc_log :: "u32 \<Rightarrow> u32 \<Rightarrow> (u32 \<times> u32) list" where
  "putc_log imr ch = [(AT32_USART_IDR, 3), (AT32_USART_THR, ch), (AT32_USART_IER, imr)]"

lemma cnputc_ok:
  assumes "2 \<le> txrdys u"
  shows "\<exists>rest. at32usart_cnputc ch u = Ok (u\<lparr>u_csr := rest, u_log := u_log u @ putc_log (u_imr u) ch\<rparr>) \<and>
    txrdys (u\<lparr>u_csr := rest\<rparr>) = txrdys u - 2"
proof -
  have t: "txrdys (EARLY_WR4 r v w) = txrdys w" "u_csr (EARLY_WR4 r v w) = u_csr w" for r v w by (simp_all add: txrdys_def EARLY_WR4_def)
  let ?u1 = "EARLY_WR4 AT32_USART_IDR (1 OR 2) u"
  obtain r1 where r1: "poll_txrdy ?u1 = Ok (?u1\<lparr>u_csr := r1\<rparr>)" "txrdys (?u1\<lparr>u_csr := r1\<rparr>) = txrdys u - 1"
    using poll_ok [of ?u1] assms t by auto
  let ?u2 = "EARLY_WR4 AT32_USART_THR ch (?u1\<lparr>u_csr := r1\<rparr>)"
  obtain r2 where r2: "poll_txrdy ?u2 = Ok (?u2\<lparr>u_csr := r2\<rparr>)" "txrdys (?u2\<lparr>u_csr := r2\<rparr>) = txrdys u - 2"
    using poll_ok [of ?u2] assms t r1(2) by auto
  show ?thesis using r1 r2 by (intro exI [of _ r2]) (simp add: at32usart_cnputc_def EARLY_WR4_def putc_log_def txrdys_def)
qed

lemma put_block_ok:
  assumes "2 * length bs \<le> txrdys u"
  shows "\<exists>rest. put_block bs u = Ok (u\<lparr>u_csr := rest, u_log := u_log u @ concat (map (\<lambda>b. putc_log (u_imr u) (ucast b)) bs)\<rparr>) \<and>
    txrdys (u\<lparr>u_csr := rest\<rparr>) = txrdys u - 2 * length bs"
  using assms
proof (induction bs arbitrary: u)
  case Nil
  show ?case by (intro exI [of _ "u_csr u"]) simp
next
  case (Cons b bs)
  obtain r1 where r1: "at32usart_cnputc (ucast b) u = Ok (u\<lparr>u_csr := r1, u_log := u_log u @ putc_log (u_imr u) (ucast b)\<rparr>)"
    "txrdys (u\<lparr>u_csr := r1\<rparr>) = txrdys u - 2" using cnputc_ok [of u "ucast b"] Cons.prems by auto
  let ?u = "u\<lparr>u_csr := r1, u_log := u_log u @ putc_log (u_imr u) (ucast b)\<rparr>"
  have tx: "txrdys ?u = txrdys u - 2" using r1(2) by (simp add: txrdys_def)
  then have "2 * length bs \<le> txrdys ?u" using Cons.prems by simp
  then obtain r2 where r2: "put_block bs ?u = Ok (?u\<lparr>u_csr := r2, u_log := u_log ?u @ concat (map (\<lambda>b. putc_log (u_imr ?u) (ucast b)) bs)\<rparr>)"
    "txrdys (?u\<lparr>u_csr := r2\<rparr>) = txrdys u - 2 - 2 * length bs" using Cons.IH [of ?u] tx by metis
  then show ?case using r1 by (intro exI [of _ r2]) (simp add: txrdys_def)
qed

lemma start_round_ok:
  assumes "cl_ok q" "contents q \<noteq> []" "2 * length (contents q) \<le> txrdys u"
  shows "\<exists>k q' rest. start_round (q, u) = Ok (q', u\<lparr>u_csr := rest,
        u_log := u_log u @ concat (map (\<lambda>b. putc_log (u_imr u) (ucast (fst b))) (take k (contents q)))\<rparr>) \<and>
    0 < k \<and> k \<le> length (contents q) \<and> cl_ok q' \<and> contents q' = drop k (contents q) \<and> txrdys (u\<lparr>u_csr := rest\<rparr>) = txrdys u - 2 * k"
proof -
  have "c_cc q \<noteq> 0" using contents_empty [OF assms(1)] assms(2) by blast
  then obtain f where r: "ring_at f q" using cl_ok_ring [OF assms(1)] by blast
  obtain cs where cs: "c_cs q = Buf cs" "bytes (c_cs q) = cs" using ring_facts(8) [OF r] by (rule buf_okE)
  have f: "c_cf q = Some f" using r by (simp add: ring_at_def)
  obtain k where k: "ndqb 0 q = Ok (int (length (take k (contents q))))" "0 < k" "map fst (take k (contents q)) = take k (drop f cs)"
    using ndqb_spec [OF assms(1), of 0] assms(2) f cs by (auto simp: takeWhile_eq_all_conv [THEN iffD2])
  let ?n = "length (take k (contents q))"
  have n: "0 < ?n" "?n \<le> length (contents q)" using k(2) assms(2) by simp_all
  have l: "?n = length (take k (drop f cs))" using arg_cong [OF k(3), of length] by simp
  have blk: "take ?n (drop f cs) = map fst (take ?n (contents q))"
    using k(3) l by (metis append_take_drop_id length_map take_all order_refl take_append append_eq_conv_conj)
  have fl: "f + ?n \<le> length cs" using l n(1) by (auto simp: min_def split: if_splits)
  have bl: "2 * length (take ?n (drop f cs)) \<le> txrdys u" using assms(3) n(2) by (simp add: l)
  obtain rest where p: "put_block (take ?n (drop f cs)) u = Ok (u\<lparr>u_csr := rest,
      u_log := u_log u @ concat (map (\<lambda>b. putc_log (u_imr u) (ucast b)) (take ?n (drop f cs)))\<rparr>)"
    "txrdys (u\<lparr>u_csr := rest\<rparr>) = txrdys u - 2 * length (take ?n (drop f cs))"
    using put_block_ok [OF bl] by blast
  obtain q' where q': "ndflush (int ?n) q = Ok q'" "cl_ok q'" "contents q' = drop ?n (contents q)"
    using ndflush_spec [OF assms(1), of "int ?n"] by auto
  have "start_round (q, u) = Ok (q', u\<lparr>u_csr := rest,
      u_log := u_log u @ concat (map (\<lambda>b. putc_log (u_imr u) (ucast b)) (take ?n (drop f cs)))\<rparr>)"
    unfolding start_round_def prod.case k(1) bind_r.simps f cs(1) option.case mem.case nat_int using fl p(1) q'(1) by (simp only: if_True bind_r.simps)
  moreover have "map (\<lambda>b. putc_log (u_imr u) (ucast b)) (take ?n (drop f cs)) = map (\<lambda>b. putc_log (u_imr u) (ucast (fst b))) (take ?n (contents q))"
    unfolding blk by simp
  moreover have "txrdys (u\<lparr>u_csr := rest\<rparr>) = txrdys u - 2 * ?n" using p(2) unfolding blk using n(2) by simp
  ultimately show ?thesis using n q'(2,3) by (intro exI [of _ ?n] exI [of _ q'] exI [of _ rest]) simp
qed

lemma start_loop_ok:
  assumes "cl_ok q" "2 * length (contents q) \<le> txrdys u"
  shows "\<exists>q' rest. start_loop (q, u) = Some (Ok (q', u\<lparr>u_csr := rest,
        u_log := u_log u @ concat (map (\<lambda>b. putc_log (u_imr u) (ucast (fst b))) (contents q))\<rparr>)) \<and>
    cl_ok q' \<and> contents q' = []"
  using assms
proof (induction "length (contents q)" arbitrary: q u rule: less_induct)
  case less
  show ?case
  proof (cases "contents q = []")
    case True
    then have "c_cc q = 0" using length_contents [OF less.prems(1)] cl_ok_buf [OF less.prems(1)] by (simp add: buf_ok_def)
    then have "start_loop (q, u) = Some (Ok (q, u))" by (subst start_loop.simps) simp
    then show ?thesis using True less.prems(1) by (intro exI [of _ q] exI [of _ "u_csr u"]) simp
  next
    case False
    then have nz: "c_cc q \<noteq> 0" using contents_empty [OF less.prems(1)] by blast
    obtain k q1 r1 where s: "start_round (q, u) = Ok (q1, u\<lparr>u_csr := r1,
        u_log := u_log u @ concat (map (\<lambda>b. putc_log (u_imr u) (ucast (fst b))) (take k (contents q)))\<rparr>)"
      "0 < k" "k \<le> length (contents q)" "cl_ok q1" "contents q1 = drop k (contents q)" "txrdys (u\<lparr>u_csr := r1\<rparr>) = txrdys u - 2 * k"
      using start_round_ok [OF less.prems(1) False less.prems(2)] by blast
    let ?u = "u\<lparr>u_csr := r1, u_log := u_log u @ concat (map (\<lambda>b. putc_log (u_imr u) (ucast (fst b))) (take k (contents q)))\<rparr>"
    have "txrdys ?u = txrdys u - 2 * k" using s(6) by (simp add: txrdys_def)
    then have "2 * length (contents q1) \<le> txrdys ?u" using less.prems(2) s(3,5) by simp
    moreover have "length (contents q1) < length (contents q)" using s(2,3,5) by simp
    ultimately obtain q2 r2 where L: "start_loop (q1, ?u) = Some (Ok (q2, ?u\<lparr>u_csr := r2,
        u_log := u_log ?u @ concat (map (\<lambda>b. putc_log (u_imr ?u) (ucast (fst b))) (contents q1))\<rparr>))" "cl_ok q2" "contents q2 = []"
      using less.hyps [OF _ s(4)] by blast
    have "concat (map (\<lambda>b. putc_log (u_imr u) (ucast (fst b))) (take k (contents q))) @
        concat (map (\<lambda>b. putc_log (u_imr u) (ucast (fst b))) (contents q1)) = concat (map (\<lambda>b. putc_log (u_imr u) (ucast (fst b))) (contents q))"
      unfolding s(5) by (simp only: concat_append [symmetric] map_append [symmetric] append_take_drop_id)
    then show ?thesis using L nz s(1) by (subst start_loop.simps) (auto simp del: concat_append)
  qed
qed

text \<open>
  C16. Starting output on a tty that is neither stopped nor busy always returns, provided the transmitter
  keeps becoming ready: the output queue is then empty, the tty is not busy, and the transmitter
  has been given exactly the characters of the queue, in order, each with interrupts disabled
  before and enabled as they were after it.
\<close>

theorem at32usart_start_drains:
  assumes "cl_ok (t_outq tp)" "t_state tp AND (TS_TTSTOP OR TS_BUSY) = 0" "2 * length (contents (t_outq tp)) \<le> txrdys u"
  shows "\<exists>tp' u'. at32usart_start tp u = Ok (tp', u') \<and> cl_ok (t_outq tp') \<and> contents (t_outq tp') = [] \<and>
    t_state tp' = t_state tp AND NOT TS_BUSY \<and>
    u_log u' = u_log u @ concat (map (\<lambda>b. [(AT32_USART_IDR, 3), (AT32_USART_THR, ucast (fst b)), (AT32_USART_IER, u_imr u)]) (contents (t_outq tp)))"
proof -
  obtain q r where "start_loop (t_outq tp, u) = Some (Ok (q, u\<lparr>u_csr := r,
      u_log := u_log u @ concat (map (\<lambda>b. putc_log (u_imr u) (ucast (fst b))) (contents (t_outq tp)))\<rparr>))" "cl_ok q" "contents q = []"
    using start_loop_ok [OF assms(1,3)] by blast
  moreover have "(t_state tp OR TS_BUSY) AND NOT TS_BUSY = t_state tp AND NOT TS_BUSY" by (rule bit_word_eqI) (auto simp: bit_simps)
  ultimately show ?thesis using assms(2) by (auto simp: at32usart_start_def ttypull_def Let_def putc_log_def)
qed

definition demo_tty :: tty where
  "demo_tty = \<lparr>t_state = 0x48, t_outq = demo_clist, t_lowat = 32, t_hiwat = 100, t_iflag = 0, t_oflag = 0, t_cflag = 0, t_lflag = 0,
     t_ispeed = 115200, t_ospeed = 115200, t_cc = [], t_wakeups = 0\<rparr>"

definition demo_usart :: usart where
  "demo_usart = \<lparr>u_imr = 1, u_csr = concat (replicate 16 [0, 2]), u_rhr = [], u_log = []\<rparr>"

theorem at32usart_start_drains_witness:
  "\<exists>tp' u'. at32usart_start demo_tty demo_usart = Ok (tp', u') \<and> contents (t_outq tp') = []"
proof -
  have "2 * length (contents (t_outq demo_tty)) \<le> txrdys demo_usart" "t_state demo_tty AND (TS_TTSTOP OR TS_BUSY) = 0" by code_simp+
  moreover have "cl_ok (t_outq demo_tty)" using demo_clist_ok by (simp add: demo_tty_def)
  ultimately show ?thesis using at32usart_start_drains [of demo_tty demo_usart] by blast
qed

section \<open>Input\<close>

text \<open>
  The receive interrupt returns as soon as the receiver reports no character; every character it
  reported before is read from the data register and, while the tty is open, given to the line
  discipline, in order; on a tty that is not open it is discarded.
\<close>

theorem at32usart_intr_delivers:
  assumes "\<forall>st \<in> set sts. st AND AT32_USART_CSR_RXRDY \<noteq> 0" "st AND AT32_USART_CSR_RXRDY = 0" "length chars = length sts"
  shows "at32usart_intr l_rint isopen (sts @ st # csr) (chars @ rhr) tp =
    Ok (fold (\<lambda>c tp. if isopen tp then l_rint (ucast c) tp else tp) chars tp, csr, rhr)"
  using assms
proof (induction sts arbitrary: chars tp)
  case (Cons s sts)
  then obtain c cs where "chars = c # cs" by (cases chars) auto
  then show ?case using Cons by simp
qed simp

theorem at32usart_intr_delivers_witness:
  "at32usart_intr (\<lambda>c tp. tp @ [c]) (\<lambda>_. True) [3, 1, 2, 0] [0x41, 0x142, 0x43] [] = Ok ([0x41, 0x42], [0], [0x43])"
  using at32usart_intr_delivers [of "[3, 1]" 2 "[0x41, 0x142]" "\<lambda>c tp. tp @ [c]" "\<lambda>_. True" "[0]" "[0x43]" "[]"] by simp

end
