(* ===== verification/At32_Soc.thy ===== *)
theory At32_Soc
  imports At32_Intc At32_Usart Bus_Space_Props
begin

text \<open>
  The on-chip devices and the bus that attaches them (arch/avr32/avr32/at32bus.c, at32pm.c, the attach
  routines of at32intc.c and at32usart.c, at32clock.c, clock.c). Every device takes its register
  window from the bus space layer. What the registers do is the device parameter of that layer.
\<close>

section \<open>Power manager\<close>

definition cpumask :: "string list" where "cpumask = [''PICO'']"

definition hsbmask :: "string list" where
  "hsbmask = [''EBI'', ''PBA'', ''PBB'', ''HRAMC'', ''HSB'', ''ISI'', ''USB'', ''LCDC'', ''MACB0'', ''DMA'']"

definition pbamask :: "string list" where
  "pbamask = [''SPI0'', ''SPI1'', ''TWI'', ''USART0'', ''USART1'', ''USART2'', ''USART3'', ''SSC0'', ''SSC1'', ''SSC2'',
     ''PIOA'', ''PIOB'', ''PIOC'', ''PIOD'', ''PIOE'', ''PSIF'', ''PDC'']"

definition pbbmask :: "string list" where
  "pbbmask = [''PM'', ''INTC'', ''HMATRIX'', ''TC0'', ''TC1'', ''PWM'', ''MACB0'', ''MACB1'', ''DAC'', ''MCI'', ''AC97C'',
     ''ISI'', ''USB'', ''SMC'', ''SDRAMC'', ''ECC'']"

record at32pm_clk =
  clk_mask :: u32
  clk_index :: nat

fun clk_lookup :: "nat \<Rightarrow> string \<Rightarrow> string list \<Rightarrow> nat option" where
  "clk_lookup i name [] = None"
| "clk_lookup i name (x # xs) = (if x = name then Some i else clk_lookup (i + 1) name xs)"

text \<open>\<open>malloc\<close> with \<open>M_WAITOK\<close> returns memory.\<close>

definition at32pm_alloc_clk :: "string \<Rightarrow> at32pm_clk option" where
  "at32pm_alloc_clk name =
     (case clk_lookup 0 name cpumask of Some i \<Rightarrow> Some \<lparr>clk_mask = 0x0008, clk_index = i\<rparr> | None \<Rightarrow>
      case clk_lookup 0 name hsbmask of Some i \<Rightarrow> Some \<lparr>clk_mask = 0x000c, clk_index = i\<rparr> | None \<Rightarrow>
      case clk_lookup 0 name pbamask of Some i \<Rightarrow> Some \<lparr>clk_mask = 0x0010, clk_index = i\<rparr> | None \<Rightarrow>
      case clk_lookup 0 name pbbmask of Some i \<Rightarrow> Some \<lparr>clk_mask = 0x0014, clk_index = i\<rparr> | None \<Rightarrow> None)"

definition at32pm_clk_enable :: "'d bus_read \<Rightarrow> 'd bus_write \<Rightarrow> u32 \<Rightarrow> at32pm_clk \<Rightarrow> 'd \<Rightarrow> 'd" where
  "at32pm_clk_enable rd wr regh clk d =
     (case bs_r rd 4 regh (clk_mask clk) d of (reg, d1) \<Rightarrow> bs_w wr 4 regh (clk_mask clk) (reg OR push_bit (clk_index clk) 1) d1)"

definition at32pm_clk_disable :: "'d bus_read \<Rightarrow> 'd bus_write \<Rightarrow> u32 \<Rightarrow> at32pm_clk \<Rightarrow> 'd \<Rightarrow> 'd" where
  "at32pm_clk_disable rd wr regh clk d =
     (case bs_r rd 4 regh (clk_mask clk) d of (reg, d1) \<Rightarrow> bs_w wr 4 regh (clk_mask clk) (reg AND NOT (push_bit (clk_index clk) 1)) d1)"

section \<open>Clock\<close>

text \<open>
  \<open>next_clk_intr\<close>, the COMPARE register, the fields of the cpu and the event counters. \<open>count\<close> arguments are
  what \<open>avr32_count_read\<close> returns.
\<close>

record clock_st =
  next_clk_intr :: u32
  compare_reg :: u32
  ci_cpu_freq :: u32
  ci_cycles_per_hz :: u32
  ci_divisor_delay :: u32
  clk_hz :: u32
  clk_tick :: u32
  clk_evcnt :: nat
  missed_evcnt :: nat
  hardclocks :: "(u32 \<times> u32) list"

abbreviation (input) FREQ :: u32 where "FREQ \<equiv> 130000000"

definition at32clock_intr :: "u32 \<Rightarrow> u32 \<times> u32 \<Rightarrow> clock_st \<Rightarrow> clock_st" where
  "at32clock_intr count ictx s =
     (let next1 = next_clk_intr s + ci_cycles_per_hz s;
          s1 = s\<lparr>next_clk_intr := next1, compare_reg := next1\<rparr>;
          s2 = (if (next1 - count) AND 0x80000000 \<noteq> 0
                then let next2 = count + ci_cycles_per_hz s
                     in s1\<lparr>next_clk_intr := next2, compare_reg := next2, missed_evcnt := missed_evcnt s + 1\<rparr>
                else s1)
      in s2\<lparr>hardclocks := hardclocks s2 @ [ictx], clk_evcnt := clk_evcnt s2 + 1\<rparr>)"

definition at32clock_setup :: "u32 \<Rightarrow> clock_st \<Rightarrow> clock_st" where
  "at32clock_setup count s =
     (let cph = (FREQ + clk_hz s div 2) div clk_hz s
      in s\<lparr>ci_cpu_freq := FREQ, ci_cycles_per_hz := cph, ci_divisor_delay := (FREQ + 500000) div 1000000,
           next_clk_intr := count + cph, compare_reg := count + cph\<rparr>)"

section \<open>Devices on the bus\<close>

datatype at32_handler = AT32USART_INTR | AT32CLOCK_INTR

record 'd soc =
  soc_bus :: bus_space_tag
  soc_pm :: "u32 option"            \<comment> \<open>at32pm_sc, by its register handle\<close>
  soc_intc_regh :: "u32 option"     \<comment> \<open>at32intc_sc, by its register handle\<close>
  soc_intc :: "at32_handler at32intc_st"
  soc_usart :: "u32 option"         \<comment> \<open>at32usart_found, by its register handle\<close>
  soc_usart_dev :: "nat \<times> nat"     \<comment> \<open>major of at32usart_cdevsw and dv_unit of the device\<close>
  soc_tty_dev :: "(nat \<times> nat) option" \<comment> \<open>t_dev of the attached tty\<close>
  soc_consattached :: bool          \<comment> \<open>at32usart_consattached\<close>
  soc_cn_dev :: "(nat \<times> nat) option"  \<comment> \<open>cn_tab->cn_dev, None for NODEV\<close>
  soc_clock_attached :: bool        \<comment> \<open>platform.clock\<close>
  soc_clock :: clock_st
  soc_dev :: 'd

definition soc_alloc :: "string \<Rightarrow> u32 \<Rightarrow> u32 \<Rightarrow> ('d soc) \<Rightarrow> (u32 \<times> 'd soc) result" where
  "soc_alloc msg base span s =
     bind_r (bs_alloc (soc_bus s) base (base + span) span span 0) (\<lambda>(err, h, t).
       case h of None \<Rightarrow> Panic msg
       | Some regh \<Rightarrow> if err \<noteq> 0 then Panic msg else Ok (regh, s\<lparr>soc_bus := t\<rparr>))"

definition at32pm_attach :: "'d soc \<Rightarrow> 'd soc result" where
  "at32pm_attach s =
     bind_r (soc_alloc ''at32pm_attach: cannot alloc device registers'' 0xfff00000 0x80 s) (\<lambda>(regh, s).
       Ok (s\<lparr>soc_pm := Some regh\<rparr>))"

text \<open>\<open>vec l\<close> is the offset of the entry point \<open>avr32_intr_l\<close> from \<open>_evba\<close>.\<close>

definition AT32INTC_IPR_LEVEL :: "(u32 \<Rightarrow> u32) \<Rightarrow> u32 \<Rightarrow> u32" where
  "AT32INTC_IPR_LEVEL vec l = push_bit 30 l OR (vec l AND 0x3fff)"

definition at32intc_attach :: "'d bus_read \<Rightarrow> 'd bus_write \<Rightarrow> (u32 \<Rightarrow> u32) \<Rightarrow> 'd soc \<Rightarrow> 'd soc result" where
  "at32intc_attach rd wr vec s =
     bind_r (soc_alloc ''at32intc_attach: cannot alloc device registers'' 0xfff00400 0x400 s) (\<lambda>(regh, s).
       case at32pm_alloc_clk ''INTC'' of
         None \<Rightarrow> Panic ''at32intc_attach: cannot allocate device clock''
       | Some clk \<Rightarrow>
           case soc_pm s of
             None \<Rightarrow> Undef ''at32pm_sc''
           | Some pm \<Rightarrow>
               let d1 = at32pm_clk_enable rd wr pm clk (soc_dev s);
                   d2 = fold (\<lambda>i d. bs_w wr 4 regh (AT32INTC_IPR (of_nat i)) (AT32INTC_IPR_LEVEL vec 0) d) [0..<64] d1;
                   d3 = bs_w wr 4 regh (AT32INTC_IPR 0) (AT32INTC_IPR_LEVEL vec 2) d2
               in Ok (s\<lparr>soc_dev := d3, soc_intc_regh := Some regh, soc_intc := (soc_intc s)\<lparr>at32intc_found := True\<rparr>\<rparr>))"

definition soc_establish :: "int \<Rightarrow> int \<Rightarrow> int \<Rightarrow> at32_handler \<Rightarrow> 'd soc \<Rightarrow> 'd soc result" where
  "soc_establish grp line ilvl h s =
     bind_r (at32intc_intr_establish grp line ilvl h (soc_intc s)) (\<lambda>(i, t). Ok (s\<lparr>soc_intc := t\<rparr>))"

text \<open>
  The tty is attached before the handler is registered; unit 0 becomes the console when
  \<open>at32usart_cnattach\<close> was called.
\<close>

definition at32usart_cnattach :: "'d soc \<Rightarrow> 'd soc" where
  "at32usart_cnattach s = s\<lparr>soc_consattached := True\<rparr>"

definition at32usart_attach :: "'d bus_write \<Rightarrow> 'd soc \<Rightarrow> 'd soc result" where
  "at32usart_attach wr s =
     bind_r (soc_alloc ''at32usart_attach: cannot alloc device registers'' 0xffe01000 0x400 s) (\<lambda>(regh, s).
       bind_r (soc_establish 7 0 0 AT32USART_INTR
                 (s\<lparr>soc_tty_dev := Some (soc_usart_dev s),
                    soc_cn_dev := (if snd (soc_usart_dev s) = 0 \<and> soc_consattached s then Some (soc_usart_dev s)
                                   else soc_cn_dev s)\<rparr>)) (\<lambda>s.
         Ok (s\<lparr>soc_dev := bs_w wr 4 regh 0x0008 1 (bs_w wr 4 regh 0x0000 0x10 (soc_dev s)), soc_usart := Some regh\<rparr>)))"

definition at32clock_attach :: "'d soc \<Rightarrow> 'd soc result" where
  "at32clock_attach s = Ok (s\<lparr>soc_clock_attached := True\<rparr>)"

text \<open>
  One name of the attach order. \<open>cfg\<close> are the devices of the kernel configuration. A device that has
  been found does not match again; \<open>at32clock_sc\<close> is never set, so the clock always matches.
\<close>

fun at32bus_search :: "'d bus_read \<Rightarrow> 'd bus_write \<Rightarrow> (u32 \<Rightarrow> u32) \<Rightarrow> string \<Rightarrow> string list \<Rightarrow> 'd soc \<Rightarrow> 'd soc result" where
  "at32bus_search rd wr vec name [] s = Ok s"
| "at32bus_search rd wr vec name (cf # cfs) s =
     bind_r (if name \<noteq> cf then Ok s
             else if name = ''at32pm'' \<and> soc_pm s = None then at32pm_attach s
             else if name = ''at32intc'' \<and> soc_intc_regh s = None then at32intc_attach rd wr vec s
             else if name = ''at32usart'' \<and> soc_usart s = None then at32usart_attach wr s
             else if name = ''at32clock'' then at32clock_attach s
             else Ok s) (at32bus_search rd wr vec name cfs)"

fun at32bus_devices :: "'d bus_read \<Rightarrow> 'd bus_write \<Rightarrow> (u32 \<Rightarrow> u32) \<Rightarrow> string list \<Rightarrow> string list \<Rightarrow> 'd soc \<Rightarrow> 'd soc result" where
  "at32bus_devices rd wr vec cfg [] s = Ok s"
| "at32bus_devices rd wr vec cfg (name # names) s =
     bind_r (at32bus_search rd wr vec name cfg s) (at32bus_devices rd wr vec cfg names)"

definition at32bus_attach :: "nat \<Rightarrow> nat \<Rightarrow> bool \<Rightarrow> nat \<Rightarrow> 'd bus_read \<Rightarrow> 'd bus_write \<Rightarrow> (u32 \<Rightarrow> u32) \<Rightarrow> string list \<Rightarrow> 'd soc \<Rightarrow> 'd soc result" where
  "at32bus_attach hdr rsz mem pool rd wr vec cfg s =
     bind_r (avr32_init_bus_space hdr rsz mem pool True (soc_bus s) None ''at32 bus'' 0 0xffffffff) (\<lambda>t.
       at32bus_devices rd wr vec cfg [''at32pm'', ''at32intc'', ''at32usart'', ''at32clock''] (s\<lparr>soc_bus := t\<rparr>))"

text \<open>
  \<open>cpu_initclocks\<close> with the platform clock \<open>at32clock\<close>. Of \<open>at32clock_init\<close> this has the registration of the
  handler and the set-up of the periodic timer; attaching the event counter, registering the
  timecounter (\<open>at32clock_init_tc\<close>) and the final \<open>spl0\<close> are left out.
\<close>

definition cpu_initclocks :: "u32 \<Rightarrow> 'd soc \<Rightarrow> 'd soc result" where
  "cpu_initclocks count s =
     (if \<not> soc_clock_attached s then Panic ''cpu_initclocks: no clock attached''
      else let s1 = s\<lparr>soc_clock := (soc_clock s)\<lparr>clk_hz := 100, clk_tick := 1000000 div 100\<rparr>\<rparr>
           in bind_r (soc_establish 0 0 2 AT32CLOCK_INTR s1) (\<lambda>s2.
                Ok (s2\<lparr>soc_clock := at32clock_setup count (soc_clock s2)\<rparr>)))"

end
