(* ===== verification/At32_Soc_Props.thy ===== *)
theory At32_Soc_Props
  imports At32_Soc
begin

text \<open>
  Properties of the on-chip devices: the register windows and interrupt lines the attachment sets up,
  the clock interrupt across wrap-around of the COUNT register, and the clock masks of the power manager.
\<close>

section \<open>Register windows\<close>

definition bus_ext :: "extent_region list \<Rightarrow> nat \<Rightarrow> extent" where
  "bus_ext rs pool = \<lparr>ex_regions = rs, ex_start = 0, ex_end = 0xffffffff, ex_flags = 0, fex_freelist = [], expool = pool, kmem_running = True\<rparr>"

abbreviation win :: "u32 \<Rightarrow> u32 \<Rightarrow> extent_region" where
  "win a b \<equiv> \<lparr>er_start = a, er_end = b, er_flags = ER_ALLOC\<rparr>"

lemmas window_simps = bus_ext_def extent_alloc_subregion_def extent_alloc_subregion1_def extent_alloc_region_descriptor_def pool_get_def
  alloc_subregion_start.simps subregion_search_def EXTENT_ALIGN_def subregion_final_def boundary_check_def LE_OV_def better_def
  extent_insert_and_optimize_def insert_at_def Let_def

lemma pm_window:
  "extent_alloc_subregion 0xfff00000 0xfff00080 0x80 0x80 0 (EX_FAST OR EX_MALLOCOK) [] (bus_ext [] (Suc k)) =
     Ok (0, Some 0xfff00000, bus_ext [win 0xfff00000 0xfff0007f] k)"
  by (simp add: window_simps)

lemma intc_window:
  "extent_alloc_subregion 0xfff00400 0xfff00800 0x400 0x400 0 (EX_FAST OR EX_MALLOCOK) [] (bus_ext [win 0xfff00000 0xfff0007f] (Suc k)) =
     Ok (0, Some 0xfff00400, bus_ext [win 0xfff00000 0xfff0007f, win 0xfff00400 0xfff007ff] k)"
  by (simp add: window_simps)

lemma usart_window:
  "extent_alloc_subregion 0xffe01000 0xffe01400 0x400 0x400 0 (EX_FAST OR EX_MALLOCOK) [] (bus_ext [win 0xfff00000 0xfff0007f, win 0xfff00400 0xfff007ff] (Suc k)) =
     Ok (0, Some 0xffe01000, bus_ext [win 0xffe01000 0xffe013ff, win 0xfff00000 0xfff0007f, win 0xfff00400 0xfff007ff] k)"
  by (simp add: window_simps)

lemma init_bus: "avr32_init_bus_space hdr rsz True pool True t None ''at32 bus'' 0 0xffffffff =
    Ok (t\<lparr>bs_name := ''at32 bus'', bs_base := 0, bs_size := 0xffffffff, bs_extent := Some (bus_ext [] pool)\<rparr>)"
  by (simp add: avr32_init_bus_space_def extent_create_def bus_ext_def)

text \<open>The machine before autoconfiguration: nothing found, no handler registered.\<close>

definition soc_boot :: "'d soc \<Rightarrow> bool" where
  "soc_boot s \<longleftrightarrow> soc_pm s = None \<and> soc_intc_regh s = None \<and> soc_usart s = None \<and>
     (\<forall>i. il_handler (at32intc_lines (soc_intc s) i) = None)"

lemma alloc_intc_clk: "at32pm_alloc_clk ''INTC'' = Some \<lparr>clk_mask = 0x14, clk_index = 1\<rparr>"
  by (simp add: at32pm_alloc_clk_def cpumask_def hsbmask_def pbamask_def pbbmask_def)

lemma soc_alloc_ok:
  assumes "bs_base (soc_bus s) = 0" "bs_extent (soc_bus s) = Some ex"
    "extent_alloc_subregion base (base + span) span span 0 (EX_FAST OR EX_MALLOCOK) [] ex = Ok (0, Some h, ex')"
  shows "soc_alloc msg base span s = Ok (h, s\<lparr>soc_bus := (soc_bus s)\<lparr>bs_extent := Some ex'\<rparr>\<rparr>)"
  using assms by (simp add: soc_alloc_def bs_alloc_def)

lemma pm_attach_ok:
  assumes "bs_base (soc_bus s) = 0" "bs_extent (soc_bus s) = Some (bus_ext [] (Suc k))"
  shows "at32pm_attach s = Ok (s\<lparr>soc_bus := (soc_bus s)\<lparr>bs_extent := Some (bus_ext [win 0xfff00000 0xfff0007f] k)\<rparr>, soc_pm := Some 0xfff00000\<rparr>)"
  unfolding at32pm_attach_def by (subst soc_alloc_ok [OF assms]) (use pm_window in simp_all)

lemma intc_attach_ok:
  assumes "bs_base (soc_bus s) = 0" "bs_extent (soc_bus s) = Some (bus_ext [win 0xfff00000 0xfff0007f] (Suc k))" "soc_pm s = Some pm"
  shows "\<exists>d. at32intc_attach rd wr vec s = Ok (s\<lparr>soc_bus := (soc_bus s)\<lparr>bs_extent := Some (bus_ext [win 0xfff00000 0xfff0007f, win 0xfff00400 0xfff007ff] k)\<rparr>,
      soc_dev := d, soc_intc_regh := Some 0xfff00400, soc_intc := (soc_intc s)\<lparr>at32intc_found := True\<rparr>\<rparr>)"
proof -
  have "soc_alloc msg 0xfff00400 0x400 s = Ok (0xfff00400, s\<lparr>soc_bus := (soc_bus s)\<lparr>bs_extent :=
      Some (bus_ext [win 0xfff00000 0xfff0007f, win 0xfff00400 0xfff007ff] k)\<rparr>\<rparr>)" for msg
    by (rule soc_alloc_ok [OF assms(1,2)]) (use intc_window in simp)
  then show ?thesis using assms(3) by (simp add: at32intc_attach_def alloc_intc_clk Let_def) (rule exI, rule refl)
qed

lemma usart_attach_ok:
  assumes "bs_base (soc_bus s) = 0" "bs_extent (soc_bus s) = Some (bus_ext [win 0xfff00000 0xfff0007f, win 0xfff00400 0xfff007ff] (Suc k))"
    "at32intc_found (soc_intc s)" "il_handler (at32intc_lines (soc_intc s) 224) = None"
  shows "\<exists>d c. at32usart_attach wr s = Ok (s\<lparr>soc_bus := (soc_bus s)\<lparr>bs_extent := Some (bus_ext [win 0xffe01000 0xffe013ff, win 0xfff00000 0xfff0007f, win 0xfff00400 0xfff007ff] k)\<rparr>,
      soc_tty_dev := Some (soc_usart_dev s), soc_cn_dev := c, soc_intc := (soc_intc s)\<lparr>cpu_intr_set := True, at32intc_lines := (at32intc_lines (soc_intc s))
        (224 := \<lparr>il_line = 0, il_level = 0, il_group = 7, il_handler = Some AT32USART_INTR\<rparr>)\<rparr>, soc_dev := d, soc_usart := Some 0xffe01000\<rparr>)"
proof -
  have "soc_alloc msg 0xffe01000 0x400 s = Ok (0xffe01000, s\<lparr>soc_bus := (soc_bus s)\<lparr>bs_extent :=
      Some (bus_ext [win 0xffe01000 0xffe013ff, win 0xfff00000 0xfff0007f, win 0xfff00400 0xfff007ff] k)\<rparr>\<rparr>)" for msg
    by (rule soc_alloc_ok [OF assms(1,2)]) (use usart_window in simp)
  then show ?thesis using assms(3,4)
    by (simp add: at32usart_attach_def soc_establish_def at32intc_intr_establish_def Let_def split del: if_split) (rule exI, rule exI, rule refl)
qed

text \<open>
  C20. Attaching the bus on a machine with memory for the bus map and at least three region descriptors,
  and then starting the clock, always succeeds: the power manager, the interrupt controller and
  the serial port get exactly their register windows, which are disjoint and are all that is
  allocated on the bus; the serial port's handler is on line 0 of group 7 at level 0, the
  clock's on line 0 of group 0 at level 2, and no other line has a handler.
\<close>

theorem at32bus_attach_complete:
  assumes "soc_boot s" "3 \<le> pool"
  shows "\<exists>t u ex. at32bus_attach hdr rsz True pool rd wr vec [''at32pm'', ''at32intc'', ''at32usart'', ''at32clock''] s = Ok t \<and>
    cpu_initclocks count t = Ok u \<and> soc_pm u = Some 0xfff00000 \<and> soc_intc_regh u = Some 0xfff00400 \<and> soc_usart u = Some 0xffe01000 \<and>
    bs_extent (soc_bus u) = Some ex \<and> ex_ok ex \<and>
    allocated ex = {0xfff00000..0xfff0007f} \<union> {0xfff00400..0xfff007ff} \<union> {0xffe01000..0xffe013ff} \<and>
    (\<forall>i. il_handler (at32intc_lines (soc_intc u) i) =
       (if i = 0 then Some AT32CLOCK_INTR else if i = 224 then Some AT32USART_INTR else None)) \<and>
    il_level (at32intc_lines (soc_intc u) 0) = 2 \<and> il_level (at32intc_lines (soc_intc u) 224) = 0"
proof -
  obtain k where k: "pool = Suc (Suc (Suc k))" using assms(2) by (metis Suc_le_D numeral_3_eq_3 Suc_le_mono)
  let ?s1 = "s\<lparr>soc_bus := (soc_bus s)\<lparr>bs_name := ''at32 bus'', bs_base := 0, bs_size := 0xffffffff, bs_extent := Some (bus_ext [] pool)\<rparr>\<rparr>"
  obtain s2 where s2: "at32pm_attach ?s1 = Ok s2"
    "s2 = ?s1\<lparr>soc_bus := (soc_bus ?s1)\<lparr>bs_extent := Some (bus_ext [win 0xfff00000 0xfff0007f] (Suc (Suc k)))\<rparr>, soc_pm := Some 0xfff00000\<rparr>"
    using pm_attach_ok [of ?s1 "Suc (Suc k)"] by (simp add: k)
  obtain d3 s3 where s3: "at32intc_attach rd wr vec s2 = Ok s3"
    "s3 = s2\<lparr>soc_bus := (soc_bus s2)\<lparr>bs_extent := Some (bus_ext [win 0xfff00000 0xfff0007f, win 0xfff00400 0xfff007ff] (Suc k))\<rparr>,
      soc_dev := d3, soc_intc_regh := Some 0xfff00400, soc_intc := (soc_intc s2)\<lparr>at32intc_found := True\<rparr>\<rparr>"
    using intc_attach_ok [of s2 "Suc k" "0xfff00000" rd wr vec] by (auto simp: s2(2))
  obtain d4 c4 s4 where s4: "at32usart_attach wr s3 = Ok s4"
    "s4 = s3\<lparr>soc_bus := (soc_bus s3)\<lparr>bs_extent := Some (bus_ext [win 0xffe01000 0xffe013ff, win 0xfff00000 0xfff0007f, win 0xfff00400 0xfff007ff] k)\<rparr>,
      soc_tty_dev := Some (soc_usart_dev s3), soc_cn_dev := c4, soc_intc := (soc_intc s3)\<lparr>cpu_intr_set := True, at32intc_lines := (at32intc_lines (soc_intc s3))
        (224 := \<lparr>il_line = 0, il_level = 0, il_group = 7, il_handler = Some AT32USART_INTR\<rparr>)\<rparr>, soc_dev := d4, soc_usart := Some 0xffe01000\<rparr>"
    using usart_attach_ok [of s3 k wr] assms(1) by (auto simp: s3(2) s2(2) soc_boot_def)
  let ?cfg = "[''at32pm'', ''at32intc'', ''at32usart'', ''at32clock'']"
  have "at32bus_search rd wr vec ''at32pm'' ?cfg ?s1 = Ok s2" using s2(1) assms(1) by (simp add: soc_boot_def)
  moreover have "at32bus_search rd wr vec ''at32intc'' ?cfg s2 = Ok s3" using s3(1) assms(1) by (simp add: s2(2) soc_boot_def)
  moreover have "at32bus_search rd wr vec ''at32usart'' ?cfg s3 = Ok s4" using s4(1) assms(1) by (simp add: s3(2) s2(2) soc_boot_def)
  moreover have "at32bus_search rd wr vec ''at32clock'' ?cfg s4 = Ok (s4\<lparr>soc_clock_attached := True\<rparr>)" by (simp add: at32clock_attach_def)
  ultimately have a: "at32bus_attach hdr rsz True pool rd wr vec ?cfg s = Ok (s4\<lparr>soc_clock_attached := True\<rparr>)"
    by (simp only: at32bus_attach_def init_bus at32bus_devices.simps bind_r.simps)
  let ?ex = "bus_ext [win 0xffe01000 0xffe013ff, win 0xfff00000 0xfff0007f, win 0xfff00400 0xfff007ff] k"
  have ex: "ex_ok ?ex" "allocated ?ex = {0xfff00000..0xfff0007f} \<union> {0xfff00400..0xfff007ff} \<union> {0xffe01000..0xffe013ff}"
    by (auto simp: ex_ok_def regs_ok_def regs_in_def bus_ext_def allocated_def covered_def)
  have f: "at32intc_found (soc_intc s4)" "il_handler (at32intc_lines (soc_intc s4) 0) = None"
    using assms(1) by (simp_all add: s4(2) s3(2) s2(2) soc_boot_def)
  then obtain u where u: "cpu_initclocks count (s4\<lparr>soc_clock_attached := True\<rparr>) = Ok u"
      "soc_intc u = (soc_intc s4)\<lparr>cpu_intr_set := True, at32intc_lines := (at32intc_lines (soc_intc s4))
        (0 := \<lparr>il_line = 0, il_level = 2, il_group = 0, il_handler = Some AT32CLOCK_INTR\<rparr>)\<rparr>"
      "soc_pm u = soc_pm s4" "soc_intc_regh u = soc_intc_regh s4" "soc_usart u = soc_usart s4" "soc_bus u = soc_bus s4"
    by (simp add: cpu_initclocks_def soc_establish_def at32intc_intr_establish_def Let_def)
  have "\<forall>i. il_handler (at32intc_lines (soc_intc u) i) =
      (if i = 0 then Some AT32CLOCK_INTR else if i = 224 then Some AT32USART_INTR else None)"
    using assms(1) by (simp add: u(2) s4(2) s3(2) s2(2) soc_boot_def)
  moreover have "il_level (at32intc_lines (soc_intc u) 0) = 2" "il_level (at32intc_lines (soc_intc u) 224) = 0"
    by (simp_all add: u(2) s4(2))
  moreover have "soc_pm u = Some 0xfff00000" "soc_intc_regh u = Some 0xfff00400" "soc_usart u = Some 0xffe01000" "bs_extent (soc_bus u) = Some ?ex"
    by (simp_all add: u s4(2) s3(2) s2(2))
  ultimately show ?thesis using a u(1) ex by blast
qed

definition demo_soc :: "(u32 \<Rightarrow> u8) soc" where
  "demo_soc = \<lparr>soc_bus = sys_bus_space, soc_pm = None, soc_intc_regh = None, soc_intc = intc_boot\<lparr>at32intc_found := False\<rparr>, soc_usart = None,
     soc_usart_dev = (96, 0), soc_tty_dev = None, soc_consattached = True, soc_cn_dev = None,
     soc_clock_attached = False, soc_clock = \<lparr>next_clk_intr = 0, compare_reg = 0, ci_cpu_freq = 0, ci_cycles_per_hz = 0, ci_divisor_delay = 0,
       clk_hz = 0, clk_tick = 0, clk_evcnt = 0, missed_evcnt = 0, hardclocks = []\<rparr>, soc_dev = (\<lambda>_. 0)\<rparr>"

theorem at32bus_attach_complete_witness:
  "\<exists>t u. at32bus_attach 16 16 True 8 mem_rd mem_wr (\<lambda>l. 0x100 * l) [''at32pm'', ''at32intc'', ''at32usart'', ''at32clock''] demo_soc = Ok t \<and>
     cpu_initclocks 0 t = Ok u \<and> soc_usart u = Some 0xffe01000"
proof -
  have "soc_boot demo_soc" by (simp add: soc_boot_def demo_soc_def intc_boot_def no_line_def)
  from at32bus_attach_complete [OF this, of 8 16 16 mem_rd mem_wr "\<lambda>l. 0x100 * l" 0] show ?thesis by fastforce
qed

section \<open>Clock interrupt\<close>

lemma sign_bit: "(x :: u32) AND 0x80000000 \<noteq> 0 \<longleftrightarrow> 2 ^ 31 \<le> unat x"
proof -
  have m: "NOT (mask 31) = (0x80000000 :: u32)" by code_simp
  have "x AND NOT (mask 31) \<noteq> 0 \<longleftrightarrow> unat x div 2 ^ 31 * 2 ^ 31 \<noteq> 0"
    by (simp only: unat_and_not_mask [symmetric] unat_eq_zero)
  then show ?thesis unfolding m by (auto simp: div_eq_0_iff)
qed

text \<open>
  The schedule of the clock on an unbounded time scale, in cycles: \<open>due\<close> is when the next tick is due,
  \<open>p\<close> the period and the list the times at which the interrupts were served. A tick served after the
  following one was due too is late: the schedule starts again from the time it is served, whatever number of
  ticks went by. The result is the time of the next tick and the number of late interrupts.
\<close>

fun clock_sched :: "nat \<Rightarrow> nat \<Rightarrow> nat list \<Rightarrow> nat \<times> nat" where
  "clock_sched p due [] = (due, 0)"
| "clock_sched p due (T # Ts) =
     (if T \<le> due + p then clock_sched p (due + p) Ts
      else case clock_sched p (T + p) Ts of (d, late) \<Rightarrow> (d, late + 1))"

text \<open>Every interrupt is served when its tick is due and less than half a turn of the counter after the next one.\<close>

fun served :: "nat \<Rightarrow> nat \<Rightarrow> nat list \<Rightarrow> bool" where
  "served p due [] = True"
| "served p due (T # Ts) = (due \<le> T \<and> T \<le> due + p + 2 ^ 31 \<and> served p (if T \<le> due + p then due + p else T + p) Ts)"

lemma count_behind:
  assumes "p < 2 ^ 31" "due \<le> T" "T \<le> due + p + 2 ^ 31"
  shows "(of_nat (due + p) - of_nat T :: u32) AND 0x80000000 \<noteq> 0 \<longleftrightarrow> \<not> T \<le> due + p"
proof (cases "T \<le> due + p")
  case True
  then have "of_nat (due + p) - of_nat T = (of_nat (due + p - T) :: u32)" by (simp only: of_nat_diff)
  moreover have "unat (of_nat (due + p - T) :: u32) < 2 ^ 31" using assms by (simp add: unat_of_nat)
  ultimately show ?thesis using True by (simp only: sign_bit) simp
next
  case False
  define k where "k = T - (due + p)"
  have k: "T = due + p + k" "1 \<le> k" "k \<le> 2 ^ 31" using False assms(3) by (simp_all add: k_def)
  have "of_nat (2 ^ 32 - k) = (of_nat (2 ^ 32) - of_nat k :: u32)" using k(3) by (intro of_nat_diff) simp
  then have "of_nat (due + p) - of_nat T = (of_nat (2 ^ 32 - k) :: u32)" by (simp add: k(1))
  moreover have "unat (of_nat (2 ^ 32 - k) :: u32) = 2 ^ 32 - k" using k(2) by (subst unat_of_nat) simp
  ultimately show ?thesis using False k(3) by (simp only: sign_bit) simp
qed

lemma clock_run_sched:
  assumes "next_clk_intr s = of_nat due" "compare_reg s = of_nat due" "p < 2 ^ 31" "ci_cycles_per_hz s = of_nat p"
    "served p due (map fst xs)" "clock_sched p due (map fst xs) = (d, late)"
  shows "fold (\<lambda>(T, ictx). at32clock_intr (of_nat T) ictx) xs s =
    s\<lparr>next_clk_intr := of_nat d, compare_reg := of_nat d, missed_evcnt := missed_evcnt s + late,
      hardclocks := hardclocks s @ map snd xs, clk_evcnt := clk_evcnt s + length xs\<rparr>"
  using assms
proof (induction xs arbitrary: s due d late)
  case (Cons x xs)
  obtain T ictx where x: "x = (T, ictx)" by (cases x)
  let ?due = "if T \<le> due + p then due + p else T + p" and ?m = "if T \<le> due + p then 0 else 1 :: nat"
  let ?s = "s\<lparr>next_clk_intr := of_nat ?due, compare_reg := of_nat ?due, missed_evcnt := missed_evcnt s + ?m,
      hardclocks := hardclocks s @ [ictx], clk_evcnt := clk_evcnt s + 1\<rparr>"
  have T: "due \<le> T" "T \<le> due + p + 2 ^ 31" "served p ?due (map fst xs)" using Cons.prems(5) by (simp_all add: x)
  have step: "at32clock_intr (of_nat T) ictx s = ?s"
    using count_behind [OF Cons.prems(3) T(1,2)] Cons.prems(1,4)
    by (simp add: at32clock_intr_def Let_def add.commute)
  obtain d' l' where d: "clock_sched p ?due (map fst xs) = (d', l')" by (cases "clock_sched p ?due (map fst xs)")
  then have "d = d'" "late = l' + ?m" using Cons.prems(6) by (simp_all add: x split: if_splits)
  then show ?case
    using Cons.IH [of ?s ?due d' l'] Cons.prems(3,4) T(3) d by (simp add: x step add.assoc)
qed simp

text \<open>The time of the next tick: never early, never more than a period away, and exact while no interrupt is late.\<close>

lemma clock_sched_bounds:
  assumes "clock_sched p due Ts = (d, late)" "served p due Ts"
  shows "due + p * length Ts \<le> d \<and> (d = due + p * length Ts \<longleftrightarrow> late = 0) \<and> (Ts \<noteq> [] \<longrightarrow> last Ts \<le> d \<and> d \<le> last Ts + p)"
  using assms
proof (induction Ts arbitrary: due d late)
  case (Cons T Ts)
  let ?due = "if T \<le> due + p then due + p else T + p"
  obtain d' l' where d: "clock_sched p ?due Ts = (d', l')" by (cases "clock_sched p ?due Ts")
  then have e: "d = d'" "late = (if T \<le> due + p then l' else l' + 1)" using Cons.prems(1) by (simp_all split: if_splits)
  have T: "due \<le> T" "served p ?due Ts" using Cons.prems(2) by simp_all
  note ih = Cons.IH [OF d T(2)]
  have "Ts = [] \<Longrightarrow> T \<le> d \<and> d \<le> T + p" using d e T(1) by (auto split: if_splits)
  then show ?case using ih T(1) e by (auto split: if_splits)
qed simp

lemma cycles_per_hz_small:
  assumes "hz \<noteq> 0" "unat hz < 2 ^ 31"
  shows "unat ((FREQ + hz div 2) div hz) < 2 ^ 31"
proof -
  have a: "unat (FREQ + hz div 2) = 130000000 + unat hz div 2" using assms(2) by (simp add: unat_word_ariths)
  have "(130000000 + n div 2) div n < (2147483648 :: nat)" if "0 < n" "n < 2 ^ 31" for n
    using that by (cases "n = 1") (auto simp: div_less_iff_less_mult)
  then show ?thesis using assms by (simp add: unat_div a unat_gt_0)
qed

text \<open>
  C39. The 32-bit clock code keeps the schedule of an unbounded clock. Started at any time with hz between 1 and
  \<open>2 ^ 31 - 1\<close> and interrupted any number of times, each interrupt served not before its tick is due and at most
  half a turn of the counter after the next one was, it has \<open>next_clk_intr\<close> and the COMPARE register at
  the time of the next tick modulo the size of the counter, has ticked the system clock once for every
  interrupt with its context, and has counted one miss for every interrupt served after the next tick was due, however many ticks
  that one lost. That time is between the last interrupt and one period after it; after n interrupts it is
  never before the start plus n + 1 periods and is exactly that, without drift, if and only if none was late.
\<close>

theorem at32clock_keeps_time:
  fixes t0 :: nat and xs :: "(nat \<times> u32 \<times> u32) list"
  assumes "clk_hz s0 \<noteq> 0" "unat (clk_hz s0) < 2 ^ 31" "s = at32clock_setup (of_nat t0) s0" "p = unat (ci_cycles_per_hz s)"
    "served p (t0 + p) (map fst xs)"
  shows "\<exists>d late t. clock_sched p (t0 + p) (map fst xs) = (d, late) \<and>
    fold (\<lambda>(T, ictx). at32clock_intr (of_nat T) ictx) xs s = t \<and>
    next_clk_intr t = of_nat d \<and> compare_reg t = of_nat d \<and> missed_evcnt t = missed_evcnt s0 + late \<and>
    hardclocks t = hardclocks s0 @ map snd xs \<and> clk_evcnt t = clk_evcnt s0 + length xs \<and>
    t0 + p * (length xs + 1) \<le> d \<and> (d = t0 + p * (length xs + 1) \<longleftrightarrow> late = 0) \<and>
    (xs \<noteq> [] \<longrightarrow> fst (last xs) \<le> d \<and> d \<le> fst (last xs) + p)"
proof -
  obtain d late where d: "clock_sched p (t0 + p) (map fst xs) = (d, late)" by (cases "clock_sched p (t0 + p) (map fst xs)")
  have p: "p < 2 ^ 31" "ci_cycles_per_hz s = of_nat p"
    using cycles_per_hz_small [OF assms(1,2)] assms(3,4) by (simp_all add: at32clock_setup_def Let_def)
  have n: "next_clk_intr s = of_nat (t0 + p)" "compare_reg s = of_nat (t0 + p)" "missed_evcnt s = missed_evcnt s0"
    "hardclocks s = hardclocks s0" "clk_evcnt s = clk_evcnt s0"
    using assms(3,4) by (simp_all add: at32clock_setup_def Let_def)
  note r = clock_run_sched [OF n(1,2) p assms(5) d] and b = clock_sched_bounds [OF d assms(5)]
  have "xs \<noteq> [] \<longrightarrow> fst (last xs) \<le> d \<and> d \<le> fst (last xs) + p" using b by (auto simp: last_map)
  then show ?thesis using d b by (simp add: r n(3-5) algebra_simps)
qed

text \<open>At 100 Hz a period is 1300000 cycles. The counter wraps before the first interrupt; the third is late.\<close>

theorem at32clock_keeps_time_witness:
  "missed_evcnt (fold (\<lambda>(T, ictx). at32clock_intr (of_nat T) ictx) [(4295267300, (0, 4)), (4296567296, (0, 8)), (4299500000, (0, 12))]
     (at32clock_setup 0xfff0bdc0 (soc_clock demo_soc\<lparr>clk_hz := 100\<rparr>))) = 1"
proof -
  let ?s = "at32clock_setup (of_nat 4293967296) (soc_clock demo_soc\<lparr>clk_hz := 100\<rparr>)"
  have p: "1300000 = unat (ci_cycles_per_hz ?s)" by (simp add: at32clock_setup_def Let_def)
  from at32clock_keeps_time [OF _ _ refl p, of "[(4295267300, (0, 4)), (4296567296, (0, 8)), (4299500000, (0, 12))]"]
  show ?thesis by (simp add: demo_soc_def)
qed

section \<open>Clock masks\<close>

lemma clk_lookup_nth: "clk_lookup i name xs = Some j \<Longrightarrow> i \<le> j \<and> j - i < length xs \<and> xs ! (j - i) = name"
proof (induction xs arbitrary: i)
  case (Cons x xs)
  show ?case
  proof (cases "x = name")
    case False
    then have "i + 1 \<le> j \<and> j - (i + 1) < length xs \<and> xs ! (j - (i + 1)) = name" using Cons by simp
    then show ?thesis by (auto simp: nth_Cons' Suc_diff_le)
  qed (use Cons.prems in auto)
qed simp

text \<open>The name of a clock is determined by its mask register and bit.\<close>

definition clk_name :: "at32pm_clk \<Rightarrow> string" where
  "clk_name c = (if clk_mask c = 0x8 then cpumask else if clk_mask c = 0xc then hsbmask
     else if clk_mask c = 0x10 then pbamask else pbbmask) ! clk_index c"

lemma mask_lengths: "length cpumask = 1" "length hsbmask = 10" "length pbamask = 17" "length pbbmask = 16"
  by (simp_all add: cpumask_def hsbmask_def pbamask_def pbbmask_def)

lemma alloc_clk_name:
  assumes "at32pm_alloc_clk name = Some c"
  shows "clk_name c = name \<and> clk_index c < 17 \<and> clk_mask c \<in> {0x8, 0xc, 0x10, 0x14}"
proof -
  consider i where "clk_lookup 0 name cpumask = Some i" "c = \<lparr>clk_mask = 0x8, clk_index = i\<rparr>"
    | i where "clk_lookup 0 name hsbmask = Some i" "c = \<lparr>clk_mask = 0xc, clk_index = i\<rparr>"
    | i where "clk_lookup 0 name pbamask = Some i" "c = \<lparr>clk_mask = 0x10, clk_index = i\<rparr>"
    | i where "clk_lookup 0 name pbbmask = Some i" "c = \<lparr>clk_mask = 0x14, clk_index = i\<rparr>"
    using assms by (auto simp: at32pm_alloc_clk_def split: option.splits)
  then show ?thesis using clk_lookup_nth [of 0 name] by cases (fastforce simp: clk_name_def mask_lengths)+
qed

text \<open>
  A clock has one name: clocks allocated under different names never share a bit of a mask register.
  But a name that occurs in two tables only reaches the first, so that the bus B clocks of MACB0,
  ISI and USB cannot be allocated.
\<close>

theorem at32pm_clk_names:
  "(at32pm_alloc_clk a = Some c \<and> at32pm_alloc_clk b = Some c \<longrightarrow> a = b) \<and>
   (at32pm_alloc_clk a \<noteq> Some \<lparr>clk_mask = 0x14, clk_index = 6\<rparr> \<and> at32pm_alloc_clk a \<noteq> Some \<lparr>clk_mask = 0x14, clk_index = 11\<rparr> \<and>
    at32pm_alloc_clk a \<noteq> Some \<lparr>clk_mask = 0x14, clk_index = 12\<rparr>)"
proof -
  have "at32pm_alloc_clk a \<noteq> Some \<lparr>clk_mask = 0x14, clk_index = i\<rparr>" if "i \<in> {6, 11, 12}" for i
  proof
    assume "at32pm_alloc_clk a = Some \<lparr>clk_mask = 0x14, clk_index = i\<rparr>"
    then have "a = pbbmask ! i" "clk_lookup 0 a hsbmask = None"
      using alloc_clk_name [of a] by (auto simp: clk_name_def at32pm_alloc_clk_def split: option.splits)
    then show False using that by (auto simp: pbbmask_def hsbmask_def)
  qed
  then show ?thesis using alloc_clk_name [of a c] alloc_clk_name [of b c] by auto
qed

theorem at32pm_clk_names_witness:
  "at32pm_alloc_clk ''USB'' \<noteq> Some \<lparr>clk_mask = 0x14, clk_index = 12\<rparr> \<and> at32pm_alloc_clk ''INTC'' \<noteq> at32pm_alloc_clk ''PM''"
proof -
  have "''INTC'' \<noteq> ''PM''" by simp
  then show ?thesis
    using at32pm_clk_names [of "''INTC''" "\<lparr>clk_mask = 0x14, clk_index = 1\<rparr>" "''PM''"] at32pm_clk_names [of "''USB''"] alloc_intc_clk by auto
qed

end
