(* ===== verification/Lwp.thy ===== *)
theory Lwp
  imports Prelude
begin

text \<open>
  The part of \<open>struct lwp\<close>, its process control block and its process that the exception and
  signal code of the port works on: the registers saved at the entry to the kernel (\<open>md_regs\<close>),
  pending and blocked signals, signal actions; signal sets (\<open>sys/sigtypes.h\<close>); the bytes of the
  address space and the copy routines of \<open>avr32/copy.S\<close>.
\<close>

section \<open>Saved registers\<close>

text \<open>Index of a register in \<open>struct frame\<close>, \<open>arch/avr32/include/reg.h\<close>.\<close>

abbreviation (input) R_SR :: nat where "R_SR \<equiv> 0"
abbreviation (input) R_PC :: nat where "R_PC \<equiv> 1"
abbreviation (input) R_LR :: nat where "R_LR \<equiv> 2"
abbreviation (input) R_SP :: nat where "R_SP \<equiv> 3"
abbreviation (input) R_R12 :: nat where "R_R12 \<equiv> 4"
abbreviation (input) R_R11 :: nat where "R_R11 \<equiv> 5"
abbreviation (input) R_R10 :: nat where "R_R10 \<equiv> 6"
abbreviation (input) R_R9 :: nat where "R_R9 \<equiv> 7"
abbreviation (input) R_R8 :: nat where "R_R8 \<equiv> 8"

section \<open>The lwp\<close>

type_synonym sigset = "u32 list"

record stack_t =
  ss_sp :: u32
  ss_size :: u32
  ss_flags :: u32

record sigact_sigdesc =
  sa_handler :: u32
  sa_mask :: sigset
  sa_flags :: u32
  sd_tramp :: u32
  sd_vers :: u32

record lwp =
  f_regs :: "u32 list"
  md_astpending :: u32
  l_flag :: u32
  l_pflag :: u32
  l_prflag :: u32
  l_cred :: nat
  l_sigmask :: sigset
  l_sigpend :: sigset
  l_sigstk :: stack_t
  l_ctxlink :: u32
  savp_faultaddr :: u32
  pcb_onfault :: u32
  p_cred :: nat
  p_sa :: "sigset option"
  p_sigpend :: sigset
  ps_lwp :: int
  ps_code :: int
  ps_signo :: int
  ps_sigcatch :: sigset
  ps_sigignore :: sigset
  sa_sigdesc :: "sigact_sigdesc list"
  vm_pmap :: nat
  vm_maxsaddr :: u32
  e_fault :: bool

definition reg_set :: "nat \<Rightarrow> u32 \<Rightarrow> lwp \<Rightarrow> lwp" where
  "reg_set r v l = l\<lparr>f_regs := (f_regs l)[r := v]\<rparr>"

abbreviation (input) LW_SA :: u32 where "LW_SA \<equiv> 0x400"
abbreviation (input) LW_PENDSIG :: u32 where "LW_PENDSIG \<equiv> 0x1000000"
abbreviation (input) LP_OWEUPC :: u32 where "LP_OWEUPC \<equiv> 0x10"
abbreviation (input) LP_SA_PAGEFAULT :: u32 where "LP_SA_PAGEFAULT \<equiv> 0x200"
abbreviation (input) LP_SA_NOBLOCK :: u32 where "LP_SA_NOBLOCK \<equiv> 0x400"
abbreviation (input) LPR_CRMOD :: u32 where "LPR_CRMOD \<equiv> 0x100"

definition lwp_update_creds :: "lwp \<Rightarrow> lwp" where
  "lwp_update_creds l = l\<lparr>l_cred := p_cred l, l_prflag := l_prflag l AND NOT LPR_CRMOD\<rparr>"

definition LWP_CACHE_CREDS :: "lwp \<Rightarrow> lwp" where
  "LWP_CACHE_CREDS l = (if l_prflag l AND LPR_CRMOD \<noteq> 0 then lwp_update_creds l else l)"

section \<open>Signal sets\<close>

text \<open>Signal \<open>n \<ge> 1\<close> is bit \<open>(n - 1) mod 32\<close> of word \<open>(n - 1) div 32\<close>.\<close>

definition sigmask_bit :: "nat \<Rightarrow> u32" where
  "sigmask_bit n = push_bit ((n - 1) mod 32) 1"

definition sigword :: "nat \<Rightarrow> nat" where
  "sigword n = (n - 1) div 32"

definition sigaddset :: "sigset \<Rightarrow> nat \<Rightarrow> sigset" where
  "sigaddset s n = s[sigword n := s ! sigword n OR sigmask_bit n]"

definition sigdelset :: "sigset \<Rightarrow> nat \<Rightarrow> sigset" where
  "sigdelset s n = s[sigword n := s ! sigword n AND NOT (sigmask_bit n)]"

definition sigismember :: "sigset \<Rightarrow> nat \<Rightarrow> bool" where
  "sigismember s n \<longleftrightarrow> s ! sigword n AND sigmask_bit n \<noteq> 0"

definition sigemptyset :: sigset where
  "sigemptyset = [0, 0, 0, 0]"

text \<open>\<open>sigplusset(s, t)\<close> and \<open>sigminusset(s, t)\<close> change their second argument.\<close>

definition sigplusset :: "sigset \<Rightarrow> sigset \<Rightarrow> sigset" where
  "sigplusset s t = map2 (\<lambda>a b. b OR a) s t"

definition sigminusset :: "sigset \<Rightarrow> sigset \<Rightarrow> sigset" where
  "sigminusset s t = map2 (\<lambda>a b. b AND NOT a) s t"

text \<open>The members of a set of \<open>length s\<close> words.\<close>

definition sigs :: "sigset \<Rightarrow> nat set" where
  "sigs s = {n. 1 \<le> n \<and> n \<le> 32 * length s \<and> sigismember s n}"

lemma sigismember_bit: "sigismember s n \<longleftrightarrow> bit (s ! sigword n) ((n - 1) mod 32)"
  by (simp add: sigismember_def sigmask_bit_def and_exp_eq_0_iff_not_bit)

lemma sigword_less: "1 \<le> n \<Longrightarrow> n \<le> 32 * k \<Longrightarrow> sigword n < k"
  unfolding sigword_def by (simp add: less_mult_imp_div_less)

lemma same_sig: "1 \<le> m \<Longrightarrow> 1 \<le> n \<Longrightarrow> sigword m = sigword n \<Longrightarrow> (m - 1) mod 32 = (n - 1) mod 32 \<Longrightarrow> m = n"
  unfolding sigword_def by (metis div_mult_mod_eq le_add_diff_inverse)

lemma sigs_add: "1 \<le> n \<Longrightarrow> n \<le> 32 * length s \<Longrightarrow> sigs (sigaddset s n) = insert n (sigs s)"
  using sigword_less [of _ "length s"] same_sig [of _ n]
  by (auto simp: sigs_def sigismember_bit sigaddset_def sigmask_bit_def nth_list_update bit_simps)

lemma sigs_del: "1 \<le> n \<Longrightarrow> n \<le> 32 * length s \<Longrightarrow> sigs (sigdelset s n) = sigs s - {n}"
  using sigword_less [of _ "length s"] same_sig [of _ n]
  by (auto simp: sigs_def sigismember_bit sigdelset_def sigmask_bit_def nth_list_update bit_simps)

lemma sigs_plus: "length s = length t \<Longrightarrow> sigs (sigplusset s t) = sigs s \<union> sigs t"
  using sigword_less [of _ "length t"]
  by (auto simp: sigs_def sigismember_bit sigplusset_def bit_simps)

lemma sigs_minus: "length s = length t \<Longrightarrow> sigs (sigminusset s t) = sigs t - sigs s"
  using sigword_less [of _ "length t"]
  by (auto simp: sigs_def sigismember_bit sigminusset_def bit_simps)

lemma sigset_eqI:
  assumes "length s = length t" "sigs s = sigs t"
  shows "s = t"
proof (rule nth_equalityI [OF assms(1)])
  fix i assume i: "i < length s"
  show "s ! i = t ! i"
  proof (rule bit_word_eqI)
    fix k assume "k < LENGTH(32)"
    then have k: "k < 32" by simp
    let ?n = "32 * i + k + 1"
    have n: "sigword ?n = i" "(?n - 1) mod 32 = k" "1 \<le> ?n" "?n \<le> 32 * length s"
      using i k by (auto simp: sigword_def)
    have "?n \<in> sigs s \<longleftrightarrow> ?n \<in> sigs t" by (simp only: assms(2))
    then show "bit (s ! i) k = bit (t ! i) k"
      using n assms(1) by (simp add: sigs_def sigismember_bit)
  qed
qed

section \<open>Bytes of the address space\<close>

text \<open>
  What the kernel reads and writes through a user address: a byte, or nothing when no page is
  mapped there, in which case the access ends in a trap that \<open>trap\<close> answers with a panic. A bad
  address makes \<open>copyin\<close> and \<open>copyout\<close> branch to \<open>copyerr\<close>, which panics as well; so the copy
  routines return 0 whenever they return.
\<close>

type_synonym space = "u32 \<Rightarrow> u8 option"

definition span :: "u32 \<Rightarrow> nat \<Rightarrow> u32 list" where
  "span a n = map (\<lambda>i. a + of_nat i) [0..<n]"

definition copyin :: "u32 \<Rightarrow> nat \<Rightarrow> space \<Rightarrow> (int \<times> u8 list) result" where
  "copyin uaddr len m =
     (if sint uaddr \<le> 0 then Panic ''copyerr: notyet''
      else if list_all (\<lambda>a. m a \<noteq> None) (span uaddr len)
      then Ok (0, map (\<lambda>a. the (m a)) (span uaddr len))
      else Panic ''trap: copyfault: notyet'')"

definition copyout :: "u8 list \<Rightarrow> u32 \<Rightarrow> space \<Rightarrow> (int \<times> space) result" where
  "copyout bs uaddr m =
     (if sint uaddr < 0 then Panic ''copyerr: notyet''
      else if list_all (\<lambda>a. m a \<noteq> None) (span uaddr (length bs))
      then Ok (0, fold (\<lambda>i m. m(uaddr + of_nat i \<mapsto> bs ! i)) [0..<length bs] m)
      else Panic ''trap: copyfault: notyet'')"

lemma length_span [simp]: "length (span a n) = n"
  by (simp add: span_def)

lemma span_inj: "i < 4294967296 \<Longrightarrow> j < 4294967296 \<Longrightarrow> a + of_nat i = (a + of_nat j :: u32) \<Longrightarrow> i = j"
proof -
  assume a: "i < 4294967296" "j < 4294967296" "a + of_nat i = (a + of_nat j :: u32)"
  then have "unat (of_nat i :: u32) = unat (of_nat j :: u32)" by simp
  then show "i = j" using a(1,2) by (simp add: unsigned_of_nat take_bit_nat_eq_self)
qed

lemma fold_store:
  assumes "n \<le> 4294967296"
  shows "fold (\<lambda>i m. m(a + of_nat i \<mapsto> bs ! i)) [0..<n] m (a + of_nat j :: u32) =
     (if j < n then Some (bs ! j) else if j < 4294967296 then m (a + of_nat j) else
      fold (\<lambda>i m. m(a + of_nat i \<mapsto> bs ! i)) [0..<n] m (a + of_nat j))"
  using assms
proof (induction n)
  case (Suc n)
  then show ?case using span_inj [of j n a] by (auto simp: less_Suc_eq)
qed simp

text \<open>What has been copied out is read back by a copy in from the same address.\<close>

lemma copyout_copyin:
  assumes "copyout bs a m = Ok (e, m')" "length bs \<le> 4294967296"
  shows "list_all (\<lambda>x. m' x \<noteq> None) (span a (length bs)) \<and> map (\<lambda>x. the (m' x)) (span a (length bs)) = bs"
proof -
  have m': "m' = fold (\<lambda>i m. m(a + of_nat i \<mapsto> bs ! i)) [0..<length bs] m"
    using assms(1) by (simp add: copyout_def split: if_splits)
  have "m' (a + of_nat j) = Some (bs ! j)" if "j < length bs" for j
    unfolding m' using fold_store [OF assms(2), of a bs m j] that by simp
  then show ?thesis by (auto simp: span_def list_all_iff intro: nth_equalityI)
qed

end
