(* ===== verification/Trap.thy ===== *)
theory Trap
  imports Pmap Lwp
begin

text \<open>
  Exceptions: \<open>trap\<close>, \<open>ast\<close> and \<open>child_return\<close> of \<open>arch/avr32/avr32/trap.c\<close>. The handler decodes
  the cause, repairs a modified-page trap in the page table, hands page faults to UVM, or makes the
  signal the process gets; most other causes panic. The blocks under \<open>#if notyet\<close> are not
  compiled. What \<open>trap\<close> calls outside the port is the parameter \<open>trap_env\<close>: UVM's fault handler and
  stack growth, signal delivery of the emulation, the work on return to user mode, preemption.
\<close>

section \<open>State\<close>

record ksiginfo =
  ksi_flags :: u32
  ksi_signo :: int
  ksi_code :: int
  ksi_trap :: u32
  ksi_addr :: u32

record trap_st =
  curlwp :: "lwp option"
  vm :: pmap_st
  uvmexp_traps :: int
  uvmexp_softs :: int
  uvmexp_syscalls :: int
  spl :: u32
  ci_want_resched :: bool

datatype vm_map = Kernel_map | Proc_map

record trap_env =
  uvm_fault :: "vm_map \<Rightarrow> vaddr \<Rightarrow> u32 \<Rightarrow> trap_st \<Rightarrow> int \<times> trap_st"
  uvm_grow :: "vaddr \<Rightarrow> trap_st \<Rightarrow> trap_st"
  e_trapsignal :: "ksiginfo \<Rightarrow> trap_st \<Rightarrow> trap_st"
  userret :: "trap_st \<Rightarrow> trap_st"
  ADDUPROF :: "trap_st \<Rightarrow> trap_st"
  preempt :: "trap_st \<Rightarrow> trap_st"
  fswintrberr :: u32

definition lwp_upd :: "(lwp \<Rightarrow> lwp) \<Rightarrow> trap_st \<Rightarrow> trap_st" where
  "lwp_upd f st = st\<lparr>curlwp := map_option f (curlwp st)\<rparr>"

abbreviation (input) T_BUS_ERR_LD_ST :: u32 where "T_BUS_ERR_LD_ST \<equiv> 2"
abbreviation (input) T_TLB_EX_PROT :: u32 where "T_TLB_EX_PROT \<equiv> 6"
abbreviation (input) T_DTLB_PROT :: u32 where "T_DTLB_PROT \<equiv> 10"
abbreviation (input) T_ADDR_ERR_RD :: u32 where "T_ADDR_ERR_RD \<equiv> 13"
abbreviation (input) T_ADDR_ERR_WR :: u32 where "T_ADDR_ERR_WR \<equiv> 14"
abbreviation (input) T_TLB_WR_PROT :: u32 where "T_TLB_WR_PROT \<equiv> 16"
abbreviation (input) T_TLB_MOD :: u32 where "T_TLB_MOD \<equiv> 17"
abbreviation (input) T_ITLB_MISS :: u32 where "T_ITLB_MISS \<equiv> 20"
abbreviation (input) T_TLB_LD_MISS :: u32 where "T_TLB_LD_MISS \<equiv> 24"
abbreviation (input) T_TLB_ST_MISS :: u32 where "T_TLB_ST_MISS \<equiv> 28"
abbreviation (input) T_USER :: u32 where "T_USER \<equiv> 0x8000"

abbreviation (input) ENOMEM :: int where "ENOMEM \<equiv> 12"
abbreviation (input) EACCES :: int where "EACCES \<equiv> 13"
abbreviation (input) EFAULT :: int where "EFAULT \<equiv> 14"
abbreviation (input) SIGKILL :: int where "SIGKILL \<equiv> 9"
abbreviation (input) SIGSEGV :: int where "SIGSEGV \<equiv> 11"
abbreviation (input) SEGV_MAPERR :: int where "SEGV_MAPERR \<equiv> 1"
abbreviation (input) KSI_TRAP :: u32 where "KSI_TRAP \<equiv> 1"

text \<open>The table \<open>trap_type\<close> has a name for each of 41 causes.\<close>

abbreviation (input) LENGTH_trap_type :: u32 where "LENGTH_trap_type \<equiv> 41"

definition USERMODE :: "u32 \<Rightarrow> bool" where
  "USERMODE sr \<longleftrightarrow> sr AND 0x01c00000 = 0"

abbreviation (input) AVR32_STATUS_IMx :: u32 where "AVR32_STATUS_IMx \<equiv> 0x001e0000"

definition KERNLAND :: "vaddr \<Rightarrow> bool" where
  "KERNLAND va \<longleftrightarrow> VM_MIN_KERNEL_ADDRESS \<le> va"

definition AVR32_READ_ONLY_PTE :: "u32 \<Rightarrow> bool" where
  "AVR32_READ_ONLY_PTE entry \<longleftrightarrow> entry AND AVR32_PG_ACCESS_RW = 0"

section \<open>The branches of the handler\<close>

text \<open>
  A branch returns from \<open>trap\<close> (\<open>None\<close>) or goes on to signal delivery with the signal it made
  (\<open>Some ksi\<close>). A null page-table pointer index past the segment table is undefined behaviour.
\<close>

definition utlbmod :: "nat \<Rightarrow> vaddr \<Rightarrow> pmap_st \<Rightarrow> pmap_st result" where
  "utlbmod pm va s =
     (if PMAP_SEGTABSIZE \<le> seg_index va then Undef ''segment table index out of range''
      else if pmap_segmap s pm va = 0 then Panic ''utlbmod: invalid segmap''
      else
        let entry = pte_mem s (pmap_segmap s pm va) (pte_index va) in
        if \<not> pte_valid entry \<or> entry AND AVR32_PG_DIRTY \<noteq> 0 then Panic ''utlbmod: invalid pte''
        else if AVR32_READ_ONLY_PTE entry then Panic ''utlbmod: TLB modified on read-only page''
        else
          let entry = entry OR AVR32_PG_DIRTY;
              s1 = s\<lparr>pte_mem := (pte_mem s)(pmap_segmap s pm va :=
                      (pte_mem s (pmap_segmap s pm va))(pte_index va := entry))\<rparr>;
              asid = pm_asid (pmaps s pm);
              va = (va AND NOT PGOFSET) OR asid;
              tlbehi = avr32_vaddr_to_tlbvpn va OR AVR32_PG_VALID OR asid;
              s2 = tlb_update tlbehi entry s1;
              pa = avr32_tlbpfn_to_paddr entry
          in if vm_physseg_find (vm_physmem s2) (atop pa) = None then Panic ''utlbmod: unmanaged page''
             else pmap_set_modified pa s2)"

definition pagefault :: "trap_env \<Rightarrow> u32 \<Rightarrow> u32 \<Rightarrow> vaddr \<Rightarrow> lwp \<Rightarrow> trap_st \<Rightarrow> (ksiginfo option \<times> trap_st) result" where
  "pagefault env type ftype vaddr l st =
     (let va = trunc_page vaddr;
          st1 = (if l_flag l AND LW_SA \<noteq> 0 \<and> NOT (l_pflag l) AND LP_SA_NOBLOCK \<noteq> 0
                 then lwp_upd (\<lambda>l. l\<lparr>savp_faultaddr := vaddr, l_pflag := l_pflag l OR LP_SA_PAGEFAULT\<rparr>) st
                 else st)
      in if e_fault l then Panic ''trap: p->p_emul->e_fault: notyet''
         else
           let (rv, st2) = uvm_fault env Proc_map va ftype st1;
               (rv, st3) = (if vm_maxsaddr l \<le> va
                            then if rv = 0 then (rv, uvm_grow env va st2)
                                 else if rv = EACCES then (EFAULT, st2) else (rv, st2)
                            else (rv, st2));
               st4 = lwp_upd (\<lambda>l. l\<lparr>l_pflag := l_pflag l AND NOT LP_SA_PAGEFAULT\<rparr>) st3;
               ksi = \<lparr>ksi_flags = KSI_TRAP, ksi_signo = SIGSEGV, ksi_code = SEGV_MAPERR,
                      ksi_trap = type AND NOT T_USER, ksi_addr = vaddr\<rparr>
           in if rv = 0 then Ok (None, if type AND T_USER \<noteq> 0 then userret env st4 else st4)
              else if type AND T_USER = 0 then Panic ''trap: copyfault: notyet''
              else if rv = ENOMEM then Ok (Some (ksi\<lparr>ksi_signo := SIGKILL, ksi_code := 0\<rparr>), st4)
              else if rv = EACCES then Panic ''trap: SIGBUS: notyet''
              else Ok (Some ksi, st4))"

definition kernelfault :: "trap_env \<Rightarrow> u32 \<Rightarrow> vaddr \<Rightarrow> trap_st \<Rightarrow> (ksiginfo option \<times> trap_st) result" where
  "kernelfault env ftype vaddr st =
     (let (rv, st1) = uvm_fault env Kernel_map (trunc_page vaddr) ftype st
      in if rv = 0 then Ok (None, st1) else Panic ''trap: copyfault: notyet'')"

definition trap_switch :: "trap_env \<Rightarrow> u32 \<Rightarrow> vaddr \<Rightarrow> lwp \<Rightarrow> trap_st \<Rightarrow> (ksiginfo option \<times> trap_st) result" where
  "trap_switch env type vaddr l st =
     (if type = T_DTLB_PROT then Panic ''trap: T_DTLB_PROT: notyet''
      else if type = T_DTLB_PROT + T_USER then Panic ''trap: T_DTLB_PROT+T_USER: notyet''
      else if type = T_TLB_MOD then Panic ''trap: T_TLB_MOD va %x notyet''
      else if type = T_TLB_MOD + T_USER
      then bind_r (utlbmod (vm_pmap l) vaddr (vm st)) (\<lambda>s.
             let st1 = st\<lparr>vm := s\<rparr> in Ok (None, if type AND T_USER \<noteq> 0 then userret env st1 else st1))
      else if type = T_ITLB_MISS then Panic ''trap: dopanic: notyet''
      else if type = T_TLB_LD_MISS \<or> type = T_TLB_ST_MISS
      then let ftype = (if type = T_TLB_LD_MISS then VM_PROT_READ else VM_PROT_WRITE) in
           if KERNLAND vaddr then kernelfault env ftype vaddr st
           else if pcb_onfault l = 0 then Panic ''trap: dopanic: notyet''
           else if pcb_onfault l = fswintrberr env then Panic ''trap: *wintr(): notyet''
           else pagefault env type ftype vaddr l st
      else if type = T_TLB_EX_PROT + T_USER then Panic ''trap: T_TLB_EX_PROT+T_USER: notyet''
      else if type = T_ITLB_MISS + T_USER then pagefault env type (VM_PROT_READ OR VM_PROT_EXECUTE) vaddr l st
      else if type = T_TLB_LD_MISS + T_USER then pagefault env type VM_PROT_READ vaddr l st
      else if type = T_TLB_WR_PROT \<or> type = T_TLB_WR_PROT + T_USER \<or> type = T_TLB_ST_MISS + T_USER
      then pagefault env type VM_PROT_WRITE vaddr l st
      else if type = T_ADDR_ERR_RD \<or> type = T_ADDR_ERR_WR \<or> type = T_BUS_ERR_LD_ST
      then Panic ''trap: copyfault: notyet''
      else if type = T_ADDR_ERR_RD + T_USER \<or> type = T_ADDR_ERR_WR + T_USER
      then Ok (Some \<lparr>ksi_flags = KSI_TRAP, ksi_signo = SIGSEGV, ksi_code = SEGV_MAPERR,
                     ksi_trap = type AND NOT T_USER, ksi_addr = vaddr\<rparr>, st)
      else Panic ''trap: dopanic: notyet'')"

section \<open>The handler\<close>

text \<open>
  \<open>curproc\<close> is \<open>curlwp->l_proc\<close>, read at the entry: without a current lwp the handler dereferences
  a null pointer.
\<close>

definition trap :: "trap_env \<Rightarrow> u32 \<Rightarrow> vaddr \<Rightarrow> u32 list \<Rightarrow> trap_st \<Rightarrow> trap_st result" where
  "trap env cause vaddr frame st =
     (case curlwp st of None \<Rightarrow> Undef ''curproc: no current lwp'' | Some l \<Rightarrow>
      let status = frame ! R_SR;
          st1 = st\<lparr>uvmexp_traps := uvmexp_traps st + 1\<rparr> in
      if LENGTH_trap_type \<le> cause then Panic ''trap: unknown trap type %d''
      else
        let type = (if USERMODE status then cause OR T_USER else cause);
            st2 = (if USERMODE status then lwp_upd LWP_CACHE_CREDS st1 else st1);
            l2 = (if USERMODE status then LWP_CACHE_CREDS l else l);
            st3 = st2\<lparr>spl := status AND AVR32_STATUS_IMx\<rparr>
        in bind_r (trap_switch env type vaddr l2 st3) (\<lambda>(ksi, st4).
             case ksi of
               None \<Rightarrow> Ok st4
             | Some ksi \<Rightarrow>
                 let st5 = lwp_upd (\<lambda>l. reg_set R_R11 vaddr (reg_set R_R12 cause l)) st4;
                     st6 = e_trapsignal env ksi st5
                 in if type AND T_USER = 0 then Panic ''trapsignal''
                    else Ok (userret env st6)))"

section \<open>Asynchronous traps and the return of a forked child\<close>

definition ast_round :: "trap_env \<Rightarrow> lwp \<Rightarrow> trap_st \<Rightarrow> trap_st" where
  "ast_round env l st =
     (let st1 = lwp_upd (\<lambda>l. l\<lparr>md_astpending := 0\<rparr>) (st\<lparr>uvmexp_softs := uvmexp_softs st + 1\<rparr>);
          st2 = (if l_pflag l AND LP_OWEUPC \<noteq> 0
                 then ADDUPROF env (lwp_upd (\<lambda>l. l\<lparr>l_pflag := l_pflag l AND NOT LP_OWEUPC\<rparr>) st1) else st1);
          st3 = userret env st2
      in if ci_want_resched st3 then preempt env st3 else st3)"

partial_function (option) ast :: "trap_env \<Rightarrow> trap_st \<Rightarrow> trap_st result option" where
  "ast env st =
     (case curlwp st of None \<Rightarrow> Some (Undef ''ast: no current lwp'') | Some l \<Rightarrow>
      if md_astpending l = 0 then Some (Ok st) else ast env (ast_round env l st))"

text \<open>\<open>ktrsysret\<close> only records the call for kernel tracing.\<close>

definition child_return :: "trap_env \<Rightarrow> trap_st \<Rightarrow> trap_st" where
  "child_return env st = userret env (lwp_upd (reg_set R_R12 0) st)"

end
