(* ===== verification/Linux_Signal.thy ===== *)
theory Linux_Signal
  imports Lwp
begin

text \<open>
  Signal delivery to Linux processes on AVR32 (\<open>compat/linux/arch/avr32/linux_machdep.c\<close>): the signal
  number tables and set conversions of \<open>compat/linux/common\<close>, the frame \<open>linux_sendsig\<close> builds on
  the user stack, the return through \<open>linux_sys_rt_sigreturn\<close>, and the machine independent code
  both go through (\<open>sendsig_reset\<close>, \<open>setucontext\<close>, \<open>sigprocmask1\<close>, \<open>cpu_setmcontext\<close>).
\<close>

section \<open>Signal properties\<close>

abbreviation (input) SA_KILL :: u32 where "SA_KILL \<equiv> 1"
abbreviation (input) SA_CORE :: u32 where "SA_CORE \<equiv> 2"
abbreviation (input) SA_STOP :: u32 where "SA_STOP \<equiv> 4"
abbreviation (input) SA_TTYSTOP :: u32 where "SA_TTYSTOP \<equiv> 8"
abbreviation (input) SA_IGNORE :: u32 where "SA_IGNORE \<equiv> 0x10"
abbreviation (input) SA_CONT :: u32 where "SA_CONT \<equiv> 0x20"
abbreviation (input) SA_CANTMASK :: u32 where "SA_CANTMASK \<equiv> 0x40"
abbreviation (input) SA_NORESET :: u32 where "SA_NORESET \<equiv> 0x80"
abbreviation (input) SA_TOLWP :: u32 where "SA_TOLWP \<equiv> 0x100"
abbreviation (input) SA_TOALL :: u32 where "SA_TOALL \<equiv> 0x200"

abbreviation (input) SIGILL :: nat where "SIGILL \<equiv> 4"
abbreviation (input) SIGEMT :: nat where "SIGEMT \<equiv> 7"
abbreviation (input) SIGCONT :: nat where "SIGCONT \<equiv> 19"
abbreviation (input) SIGINFO :: nat where "SIGINFO \<equiv> 29"
abbreviation (input) NSIG :: nat where "NSIG \<equiv> 64"

definition sigprop :: "u32 list" where
  "sigprop =
    [0, SA_KILL, SA_KILL, SA_KILL OR SA_CORE,
     SA_KILL OR SA_CORE OR SA_NORESET OR SA_TOLWP, SA_KILL OR SA_CORE OR SA_NORESET OR SA_TOLWP,
     SA_KILL OR SA_CORE, SA_KILL OR SA_CORE OR SA_TOLWP, SA_KILL OR SA_CORE OR SA_TOLWP,
     SA_KILL OR SA_CANTMASK OR SA_TOALL, SA_KILL OR SA_CORE OR SA_TOLWP,
     SA_KILL OR SA_CORE OR SA_TOLWP, SA_KILL OR SA_CORE OR SA_TOLWP, SA_KILL, SA_KILL, SA_KILL,
     SA_IGNORE, SA_STOP OR SA_CANTMASK OR SA_TOALL, SA_STOP OR SA_TTYSTOP OR SA_TOALL,
     SA_IGNORE OR SA_CONT OR SA_TOALL, SA_IGNORE, SA_STOP OR SA_TTYSTOP OR SA_TOALL,
     SA_STOP OR SA_TTYSTOP OR SA_TOALL, SA_IGNORE, SA_KILL, SA_KILL, SA_KILL, SA_KILL, SA_IGNORE,
     SA_IGNORE, SA_KILL, SA_KILL, SA_IGNORE OR SA_NORESET] @ replicate 31 SA_KILL"

text \<open>The set \<open>siginit\<close> computes: signals no mask may hold.\<close>

definition sigcantmask :: sigset where
  "sigcantmask = fold (\<lambda>signo s. if sigprop ! signo AND SA_CANTMASK \<noteq> 0 then sigaddset s signo else s)
     [1..<NSIG] sigemptyset"

section \<open>Signal numbers and sets of Linux\<close>

text \<open>\<open>native_to_linux_signo\<close>; the real-time signals 33 to 63 are \<open>LINUX_SIGRTMIN\<close> (32) and up.\<close>

definition native_to_linux_signo :: "nat list" where
  "native_to_linux_signo =
    [0, 1, 2, 3, 4, 5, 6, 0, 8, 9, 7, 11, 31, 13, 14, 15, 23, 19, 20, 18, 17, 21, 22, 29, 24, 25,
     26, 27, 28, 0, 10, 12, 30] @ map (\<lambda>i. 32 + i) [0..<31]"

definition linux_to_native_signo :: "nat list" where
  "linux_to_native_signo =
    [0, 1, 2, 3, 4, 5, 6, 10, 8, 9, 30, 11, 31, 13, 14, 15, 0, 20, 19, 17, 18, 21, 22, 16, 24, 25,
     26, 27, 28, 23, 32, 12] @ map (\<lambda>i. 33 + i) [0..<31] @ [0]"

definition linux_sigismember :: "u32 list \<Rightarrow> nat \<Rightarrow> bool" where
  "linux_sigismember s n \<longleftrightarrow> s ! ((n - 1) div 32) AND push_bit ((n - 1) mod 32) 1 \<noteq> 0"

definition linux_sigaddset :: "u32 list \<Rightarrow> nat \<Rightarrow> u32 list" where
  "linux_sigaddset s n = s[(n - 1) div 32 := s ! ((n - 1) div 32) OR push_bit ((n - 1) mod 32) 1]"

definition linux_to_native_sigset :: "u32 list \<Rightarrow> sigset" where
  "linux_to_native_sigset lss = fold (\<lambda>i bss.
      if linux_sigismember lss i
      then let newsig = linux_to_native_signo ! i in if newsig \<noteq> 0 then sigaddset bss newsig else bss
      else bss) [1..<64] sigemptyset"

definition native_to_linux_sigset :: "sigset \<Rightarrow> u32 list" where
  "native_to_linux_sigset bss = fold (\<lambda>i lss.
      if sigismember bss i
      then let newsig = native_to_linux_signo ! i in if newsig \<noteq> 0 then linux_sigaddset lss newsig else lss
      else lss) [1..<NSIG] [0, 0]"

section \<open>The signal frame\<close>

record linux_rt_sigframe =
  lrs_si :: "u32 list"
  luc_flags :: u32
  luc_link :: u32
  luc_ss_sp :: u32
  luc_ss_flags :: u32
  luc_ss_size :: u32
  lsc_oldmask :: u32
  lsc_regs :: "u32 list"
  luc_sigmask :: "u32 list"
  lrs_code :: u32

text \<open>\<open>sizeof(struct linux_rt_sigframe)\<close>: 128 bytes of siginfo, 100 of ucontext, the code word.\<close>

abbreviation (input) sizeof_sigframe :: nat where "sizeof_sigframe \<equiv> 232"
abbreviation (input) offsetof_lrs_uc :: nat where "offsetof_lrs_uc \<equiv> 128"

text \<open>The frame in memory, word by word, most significant byte first.\<close>

definition word_bytes :: "u32 \<Rightarrow> u8 list" where
  "word_bytes w = [ucast (drop_bit 24 w), ucast (drop_bit 16 w), ucast (drop_bit 8 w), ucast w]"

definition bytes_word :: "u8 \<Rightarrow> u8 \<Rightarrow> u8 \<Rightarrow> u8 \<Rightarrow> u32" where
  "bytes_word a b c d = push_bit 24 (ucast a) OR push_bit 16 (ucast b) OR push_bit 8 (ucast c) OR ucast d"

fun bytes_words :: "u8 list \<Rightarrow> u32 list" where
  "bytes_words (a # b # c # d # r) = bytes_word a b c d # bytes_words r"
| "bytes_words r = []"

definition sigframe_words :: "linux_rt_sigframe \<Rightarrow> u32 list" where
  "sigframe_words f = lrs_si f @
     [luc_flags f, luc_link f, luc_ss_sp f, luc_ss_flags f, luc_ss_size f, lsc_oldmask f] @
     lsc_regs f @ luc_sigmask f @ [lrs_code f]"

definition words_sigframe :: "u32 list \<Rightarrow> linux_rt_sigframe" where
  "words_sigframe w = \<lparr>lrs_si = take 32 w, luc_flags = w ! 32, luc_link = w ! 33, luc_ss_sp = w ! 34,
     luc_ss_flags = w ! 35, luc_ss_size = w ! 36, lsc_oldmask = w ! 37,
     lsc_regs = take 17 (drop 38 w), luc_sigmask = take 2 (drop 55 w), lrs_code = w ! 57\<rparr>"

section \<open>Delivery\<close>

abbreviation (input) SS_ONSTACK :: u32 where "SS_ONSTACK \<equiv> 1"
abbreviation (input) SS_DISABLE :: u32 where "SS_DISABLE \<equiv> 4"
abbreviation (input) LINUX_SS_ONSTACK :: u32 where "LINUX_SS_ONSTACK \<equiv> 1"
abbreviation (input) LINUX_SS_DISABLE :: u32 where "LINUX_SS_DISABLE \<equiv> 2"
abbreviation (input) SA_ONSTACK :: u32 where "SA_ONSTACK \<equiv> 1"
abbreviation (input) SA_RESETHAND :: u32 where "SA_RESETHAND \<equiv> 4"
abbreviation (input) SIG_DFL :: u32 where "SIG_DFL \<equiv> 0"

abbreviation SIGACTION :: "lwp \<Rightarrow> nat \<Rightarrow> sigact_sigdesc" where
  "SIGACTION l sig \<equiv> sa_sigdesc l ! sig"

definition sendsig_reset :: "nat \<Rightarrow> lwp \<Rightarrow> lwp" where
  "sendsig_reset signo l =
     (let d = SIGACTION l signo;
          l1 = l\<lparr>ps_lwp := 0, ps_code := 0, ps_signo := 0\<rparr>;
          l2 = (case p_sa l of Some m \<Rightarrow> l1\<lparr>p_sa := Some (sigplusset (sa_mask d) m)\<rparr>
                | None \<Rightarrow> l1\<lparr>l_sigmask := sigplusset (sa_mask d) (l_sigmask l)\<rparr>)
      in if sa_flags d AND SA_RESETHAND \<noteq> 0
         then l2\<lparr>ps_sigcatch := sigdelset (ps_sigcatch l2) signo,
                 ps_sigignore := (if signo \<noteq> SIGCONT \<and> sigprop ! signo AND SA_IGNORE \<noteq> 0
                                  then sigaddset (ps_sigignore l2) signo else ps_sigignore l2),
                 sa_sigdesc := (sa_sigdesc l2)[signo := d\<lparr>sa_handler := SIG_DFL\<rparr>]\<rparr>
         else l2)"

text \<open>
  \<open>Returned\<close>: back in the caller. \<open>Sigexit\<close>: the process was terminated by \<open>sigexit\<close>, which does not
  return. \<open>fp -= sizeof(struct linux_rt_sigframe)\<close> is arithmetic on a pointer to such frames: it
  moves the pointer by the square of the size in bytes.
\<close>

datatype 'a sigout = Returned 'a | Sigexit nat

definition linux_sigframe :: "sigset \<Rightarrow> lwp \<Rightarrow> linux_rt_sigframe" where
  "linux_sigframe smask l =
     \<lparr>lrs_si = replicate 32 0, luc_flags = 0, luc_link = 0,
      luc_ss_sp = ss_sp (l_sigstk l),
      luc_ss_flags = (if ss_flags (l_sigstk l) AND SS_ONSTACK \<noteq> 0 then LINUX_SS_ONSTACK else 0) OR
                     (if ss_flags (l_sigstk l) AND SS_DISABLE \<noteq> 0 then LINUX_SS_DISABLE else 0),
      luc_ss_size = ss_size (l_sigstk l), lsc_oldmask = 0, lsc_regs = f_regs l,
      luc_sigmask = native_to_linux_sigset smask,
      lrs_code = 0x3008d733 OR push_bit 20 68\<rparr>"

definition linux_sendsig :: "nat \<Rightarrow> sigset \<Rightarrow> lwp \<Rightarrow> space \<Rightarrow> (lwp \<times> space) sigout result" where
  "linux_sendsig sig smask l m =
     (let onstack = (ss_flags (l_sigstk l) AND (SS_DISABLE OR SS_ONSTACK) = 0 \<and>
                     sa_flags (SIGACTION l sig) AND SA_ONSTACK \<noteq> 0) in
      if onstack then Panic ''linux_sendsig: onstack notyet''
      else
        let fp = f_regs l ! R_SP;
            sf = linux_sigframe smask l;
            l1 = sendsig_reset sig l;
            fp = fp - of_nat (sizeof_sigframe * sizeof_sigframe)
        in bind_r (copyout (concat (map word_bytes (sigframe_words sf))) fp m) (\<lambda>(error, m).
             if error \<noteq> 0 then Ok (Sigexit SIGILL)
             else
               let l2 = reg_set R_SP fp l1;
                   l3 = reg_set R_R12 (of_nat (native_to_linux_signo ! sig)) l2;
                   l4 = reg_set R_R11 0 l3;
                   l5 = reg_set R_R10 (fp + of_nat offsetof_lrs_uc) l4;
                   l6 = reg_set R_PC (sa_handler (SIGACTION l5 sig)) l5
               in if sd_vers (SIGACTION l6 sig) \<noteq> 0
                  then Ok (Returned (reg_set R_LR (sd_tramp (SIGACTION l6 sig)) l6, m))
                  else Panic ''linux_sendsig: SA_RESTORER''))"

section \<open>Return\<close>

definition ffs :: "u32 \<Rightarrow> nat" where
  "ffs w = (case find (bit w) [0..<32] of None \<Rightarrow> 0 | Some i \<Rightarrow> i + 1)"

definition firstsig :: "sigset \<Rightarrow> nat" where
  "firstsig ss = (if ffs (ss ! 0) \<noteq> 0 then ffs (ss ! 0)
                  else if ffs (ss ! 1) \<noteq> 0 then ffs (ss ! 1) + 32 else 0)"

definition sigispending :: "lwp \<Rightarrow> nat \<Rightarrow> bool" where
  "sigispending l signo =
     (let tset = sigminusset (l_sigmask l) (sigminusset (ps_sigignore l)
                   (sigplusset (p_sigpend l) (l_sigpend l)))
      in if signo = 0 then firstsig tset \<noteq> 0 else sigismember tset signo)"

datatype sigprocmask_how = SIG_BLOCK | SIG_UNBLOCK | SIG_SETMASK | SIG_OTHER

definition sigprocmask1 :: "sigprocmask_how \<Rightarrow> sigset \<Rightarrow> lwp \<Rightarrow> int \<times> lwp" where
  "sigprocmask1 how nss l =
     (let smask = (case p_sa l of Some m \<Rightarrow> m | None \<Rightarrow> l_sigmask l);
          fin = (\<lambda>more m.
            let m = sigminusset sigcantmask m;
                l1 = (case p_sa l of Some _ \<Rightarrow> l\<lparr>p_sa := Some m\<rparr> | None \<Rightarrow> l\<lparr>l_sigmask := m\<rparr>)
            in (0, if more \<and> sigispending l1 0 then l1\<lparr>l_flag := l_flag l1 OR LW_PENDSIG\<rparr> else l1))
      in case how of
           SIG_BLOCK \<Rightarrow> fin False (sigplusset nss smask)
         | SIG_UNBLOCK \<Rightarrow> fin True (sigminusset nss smask)
         | SIG_SETMASK \<Rightarrow> fin True nss
         | SIG_OTHER \<Rightarrow> (22, l))"

abbreviation (input) UC_SIGMASK :: u32 where "UC_SIGMASK \<equiv> 1"
abbreviation (input) UC_STACK :: u32 where "UC_STACK \<equiv> 2"
abbreviation (input) UC_CPU :: u32 where "UC_CPU \<equiv> 4"
abbreviation (input) UC_SETSTACK :: u32 where "UC_SETSTACK \<equiv> 0x10000"
abbreviation (input) UC_CLRSTACK :: u32 where "UC_CLRSTACK \<equiv> 0x20000"

definition sigstk_onstack :: "bool \<Rightarrow> lwp \<Rightarrow> lwp" where
  "sigstk_onstack on l = l\<lparr>l_sigstk := (l_sigstk l)\<lparr>ss_flags :=
      (if on then ss_flags (l_sigstk l) OR SS_ONSTACK else ss_flags (l_sigstk l) AND NOT SS_ONSTACK)\<rparr>\<rparr>"

text \<open>The 16 registers from PC on are copied; the status register is not.\<close>

definition cpu_setmcontext :: "u32 list \<Rightarrow> u32 \<Rightarrow> lwp \<Rightarrow> int \<times> lwp" where
  "cpu_setmcontext gr flags l =
     (let l1 = (if flags AND UC_CPU \<noteq> 0
                then l\<lparr>f_regs := take R_PC (f_regs l) @ take 16 (drop R_PC gr)\<rparr> else l);
          l2 = (if flags AND UC_SETSTACK \<noteq> 0 then sigstk_onstack True l1 else l1);
          l3 = (if flags AND UC_CLRSTACK \<noteq> 0 then sigstk_onstack False l2 else l2)
      in (0, l3))"

record ucontext =
  uc_flags :: u32
  uc_link :: u32
  uc_sigmask :: sigset
  uc_stack :: stack_t
  uc_mcontext :: "u32 list"

definition setucontext :: "ucontext \<Rightarrow> lwp \<Rightarrow> int \<times> lwp" where
  "setucontext ucp l =
     (let (error, l1) = (if uc_flags ucp AND UC_SIGMASK \<noteq> 0
                         then sigprocmask1 SIG_SETMASK (uc_sigmask ucp) l else (0, l)) in
      if error \<noteq> 0 then (error, l1)
      else
        let (error, l2) = cpu_setmcontext (uc_mcontext ucp) (uc_flags ucp) l1 in
        if error \<noteq> 0 then (error, l2)
        else
          let l3 = l2\<lparr>l_ctxlink := uc_link ucp\<rparr>
          in (0, if uc_flags ucp AND UC_STACK \<noteq> 0
                 then sigstk_onstack (ss_flags (uc_stack ucp) AND SS_ONSTACK \<noteq> 0) l3 else l3))"

abbreviation (input) EJUSTRETURN :: int where "EJUSTRETURN \<equiv> -2"

definition linux_sys_rt_sigreturn :: "lwp \<Rightarrow> space \<Rightarrow> (int \<times> lwp) sigout result" where
  "linux_sys_rt_sigreturn l m =
     bind_r (copyin (f_regs l ! R_SP) sizeof_sigframe m) (\<lambda>(error, bs).
       if error \<noteq> 0 then Ok (Sigexit SIGILL)
       else
         let frame = words_sigframe (bytes_words bs);
             uctx = \<lparr>uc_flags = UC_SIGMASK OR UC_CPU OR UC_STACK, uc_link = 0,
               uc_sigmask = linux_to_native_sigset (luc_sigmask frame),
               uc_stack = \<lparr>ss_sp = luc_ss_sp frame, ss_size = luc_ss_size frame,
                 ss_flags = (if luc_ss_flags frame AND LINUX_SS_ONSTACK \<noteq> 0 then SS_ONSTACK else 0) OR
                            (if luc_ss_flags frame AND LINUX_SS_DISABLE \<noteq> 0 then SS_DISABLE else 0)\<rparr>,
               uc_mcontext = lsc_regs frame\<rparr>;
             (error, l') = setucontext uctx l
         in if error \<noteq> 0 then Ok (Returned (error, l')) else Ok (Returned (EJUSTRETURN, l')))"

end
