(* ===== verification/Linux_Signal_Props.thy ===== *)
theory Linux_Signal_Props
  imports Linux_Signal
begin

text \<open>
  Properties of signal delivery to Linux processes: the set conversions are inverse up to the two
  signals Linux does not have, the frame survives its encoding in memory, a handler that leaves
  its frame alone returns to the interrupted registers and mask, and no frame content makes the
  return change the status register.
\<close>

section \<open>Set conversion\<close>

lemma and_or_distrib: "(a OR b) AND c = (a AND c) OR (b AND c :: 'a::len word)"
  by (rule bit.conj_disj_distrib2)

lemma linux_sigset_ops: "linux_sigismember = sigismember" "linux_sigaddset = sigaddset"
  by (simp_all add: fun_eq_iff linux_sigismember_def linux_sigaddset_def sigismember_def sigaddset_def
      sigword_def sigmask_bit_def)

lemma length_sigaddset [simp]: "length (sigaddset s n) = length s"
  by (simp add: sigaddset_def)

lemma length_sigdelset [simp]: "length (sigdelset s n) = length s"
  by (simp add: sigdelset_def)

lemma sigs_empty: "sigs (replicate k 0) = {}"
  using sigword_less [of _ k] by (auto simp: sigs_def sigismember_bit)

lemma sigs_empty4: "sigs sigemptyset = {}"
  using sigs_empty [of 4] by (simp add: sigemptyset_def numeral_eq_Suc)

text \<open>The loop of both conversions: add the translation of every member that has one.\<close>

lemma sigs_convert:
  fixes f :: "nat \<Rightarrow> nat" and P :: "nat \<Rightarrow> bool"
  defines "step \<equiv> \<lambda>i s. if P i then let n = f i in if n \<noteq> 0 then sigaddset s n else s else s"
  assumes "\<And>i. i \<in> set xs \<Longrightarrow> f i \<le> 32 * length s"
  shows "length (fold step xs s) = length s \<and>
    sigs (fold step xs s) = sigs s \<union> {f i | i. i \<in> set xs \<and> P i \<and> f i \<noteq> 0}"
  using assms(2)
proof (induction xs arbitrary: s)
  case (Cons x xs)
  have x: "length (step x s) = length s"
    "sigs (step x s) = sigs s \<union> {f i | i. i = x \<and> P i \<and> f i \<noteq> 0}"
    using Cons.prems [of x] sigs_add [of "f x" s] by (auto simp: step_def Let_def)
  have "length (fold step xs (step x s)) = length (step x s) \<and>
      sigs (fold step xs (step x s)) = sigs (step x s) \<union> {f i | i. i \<in> set xs \<and> P i \<and> f i \<noteq> 0}"
    by (rule Cons.IH) (use Cons.prems x(1) in auto)
  then show ?case using x by auto
qed simp

lemma signo_tables:
  "list_all (\<lambda>j. if j \<in> {SIGEMT, SIGINFO} then native_to_linux_signo ! j = 0
     else 1 \<le> native_to_linux_signo ! j \<and> native_to_linux_signo ! j < 64 \<and>
          linux_to_native_signo ! (native_to_linux_signo ! j) = j) [1..<64]"
  "list_all (\<lambda>i. linux_to_native_signo ! i \<le> 63) [1..<64]"
  by code_simp+

lemma native_to_linux:
  "1 \<le> j \<Longrightarrow> j < 64 \<Longrightarrow> if j \<in> {SIGEMT, SIGINFO} then native_to_linux_signo ! j = 0
     else 1 \<le> native_to_linux_signo ! j \<and> native_to_linux_signo ! j < 64 \<and>
          linux_to_native_signo ! (native_to_linux_signo ! j) = j"
  by (rule bspec [OF signo_tables(1) [unfolded list_all_iff]]) simp

lemma linux_to_native: "1 \<le> i \<Longrightarrow> i < 64 \<Longrightarrow> linux_to_native_signo ! i \<le> 63"
  by (rule bspec [OF signo_tables(2) [unfolded list_all_iff]]) simp

lemma sigs_native_to_linux:
  "length (native_to_linux_sigset b) = 2 \<and>
   sigs (native_to_linux_sigset b) = {native_to_linux_signo ! j | j.
      1 \<le> j \<and> j < 64 \<and> sigismember b j \<and> native_to_linux_signo ! j \<noteq> 0}"
proof -
  have "native_to_linux_signo ! j \<le> 32 * length [0 :: u32, 0]" if "j \<in> set [1..<64]" for j
    using native_to_linux [of j] that by (auto split: if_splits)
  from sigs_convert [of "[1..<64]" "\<lambda>j. native_to_linux_signo ! j" "[0, 0]" "sigismember b", OF this]
  show ?thesis using sigs_empty [of 2] unfolding native_to_linux_sigset_def linux_sigset_ops
    by (simp add: numeral_2_eq_2)
qed

lemma sigs_linux_to_native:
  "length (linux_to_native_sigset s) = 4 \<and>
   sigs (linux_to_native_sigset s) = {linux_to_native_signo ! i | i.
      1 \<le> i \<and> i < 64 \<and> sigismember s i \<and> linux_to_native_signo ! i \<noteq> 0}"
proof -
  have "linux_to_native_signo ! i \<le> 32 * length sigemptyset" if "i \<in> set [1..<64]" for i
    using linux_to_native [of i] that by (auto simp: sigemptyset_def)
  from sigs_convert [of "[1..<64]" "\<lambda>i. linux_to_native_signo ! i" sigemptyset "sigismember s", OF this]
  show ?thesis unfolding linux_to_native_sigset_def linux_sigset_ops sigs_empty4
    by (simp add: sigemptyset_def)
qed

lemma sigset_convert_back:
  assumes "length b = 4" "sigs b \<subseteq> {1..63}"
  shows "linux_to_native_sigset (native_to_linux_sigset b) = sigdelset (sigdelset b SIGEMT) SIGINFO"
proof (rule sigset_eqI)
  let ?l = "native_to_linux_sigset b"
  show "length (linux_to_native_sigset ?l) = length (sigdelset (sigdelset b SIGEMT) SIGINFO)"
    using sigs_linux_to_native assms(1) by simp
  have mem: "sigismember b j \<longleftrightarrow> j \<in> sigs b" if "1 \<le> j" "j < 64" for j
    using that assms(1) by (simp add: sigs_def)
  have lmem: "sigismember ?l i \<longleftrightarrow> i \<in> sigs ?l" if "1 \<le> i" "i < 64" for i
    using that sigs_native_to_linux [of b] by (simp add: sigs_def)
  have "m \<in> sigs (linux_to_native_sigset ?l) \<longleftrightarrow> m \<in> sigs b \<and> m \<noteq> SIGEMT \<and> m \<noteq> SIGINFO" for m
  proof
    assume "m \<in> sigs (linux_to_native_sigset ?l)"
    then obtain i where i: "1 \<le> i" "i < 64" "sigismember ?l i" "m = linux_to_native_signo ! i" "m \<noteq> 0"
      using sigs_linux_to_native [of ?l] by auto
    then have "i \<in> sigs ?l" by (simp add: lmem)
    then obtain j where j: "1 \<le> j" "j < 64" "sigismember b j" "i = native_to_linux_signo ! j" "i \<noteq> 0"
      using sigs_native_to_linux [of b] by auto
    then show "m \<in> sigs b \<and> m \<noteq> SIGEMT \<and> m \<noteq> SIGINFO"
      using native_to_linux [of j] i mem [of j] by (auto split: if_splits)
  next
    assume m: "m \<in> sigs b \<and> m \<noteq> SIGEMT \<and> m \<noteq> SIGINFO"
    then have m1: "1 \<le> m" "m < 64" using assms(2) by fastforce+
    let ?i = "native_to_linux_signo ! m"
    have i: "1 \<le> ?i" "?i < 64" "linux_to_native_signo ! ?i = m" using native_to_linux [OF m1] m by auto
    have "?i \<in> sigs ?l" using sigs_native_to_linux [of b] m mem [OF m1] m1 i(1) by fastforce
    then have "sigismember ?l ?i" using lmem [OF i(1,2)] by simp
    then show "m \<in> sigs (linux_to_native_sigset ?l)"
      using sigs_linux_to_native [of ?l] i m1 by fastforce
  qed
  then show "sigs (linux_to_native_sigset ?l) = sigs (sigdelset (sigdelset b SIGEMT) SIGINFO)"
    using assms(1) sigs_del [of SIGEMT b] sigs_del [of SIGINFO "sigdelset b SIGEMT"] by auto
qed

text \<open>
  A native signal mask converted to Linux for the signal frame and back is the mask without
  SIGEMT and SIGINFO, which Linux does not have; every other signal, real-time ones included,
  survives.
\<close>

theorem sigset_roundtrip:
  assumes "length b = 4" "sigs b \<subseteq> {1..63}"
  shows "linux_to_native_sigset (native_to_linux_sigset b) = sigdelset (sigdelset b SIGEMT) SIGINFO"
  by (rule sigset_convert_back [OF assms])

lemma sigs_list: "sigs [a, b, c, d] = {n \<in> set [1..<129]. sigismember [a, b, c, d] n}"
  by (auto simp: sigs_def)

theorem sigset_roundtrip_witness:
  "linux_to_native_sigset (native_to_linux_sigset [0x10000042, 0x40000001, 0, 0]) = [2, 0x40000001, 0, 0]"
proof -
  have "list_all (\<lambda>n. sigismember [0x10000042, 0x40000001, 0, 0] n \<longrightarrow> n \<le> 63) [1..<129]" by code_simp
  then have "sigs [0x10000042, 0x40000001, 0, 0] \<subseteq> {1..63}" unfolding sigs_list list_all_iff by auto
  from sigset_roundtrip [OF _ this] show ?thesis
    by (simp add: sigdelset_def sigword_def sigmask_bit_def)
qed


section \<open>The frame in memory\<close>

lemma bytes_word_word_bytes:
  "bytes_word (ucast (drop_bit 24 w)) (ucast (drop_bit 16 w)) (ucast (drop_bit 8 w)) (ucast w) = w"
proof (rule bit_word_eqI)
  fix n assume "n < LENGTH(32)"
  then consider "n < 8" | "8 \<le> n" "n < 16" | "16 \<le> n" "n < 24" | "24 \<le> n" "n < 32" by fastforce
  then show "bit (bytes_word (ucast (drop_bit 24 w)) (ucast (drop_bit 16 w)) (ucast (drop_bit 8 w)) (ucast w)) n = bit w n"
    by cases (auto simp: bytes_word_def bit_simps)
qed

lemma bytes_words_concat [simp]: "bytes_words (concat (map word_bytes ws)) = ws"
  by (induction ws) (simp_all add: word_bytes_def bytes_word_word_bytes)

lemma length_word_bytes: "length (concat (map word_bytes ws)) = 4 * length ws"
  by (induction ws) (simp_all add: word_bytes_def)

lemma words_sigframe_words:
  assumes "length (lrs_si f) = 32" "length (lsc_regs f) = 17" "length (luc_sigmask f) = 2"
  shows "words_sigframe (sigframe_words f) = f" "length (sigframe_words f) = 58"
  using assms by (simp_all add: words_sigframe_def sigframe_words_def nth_append)

section \<open>Delivery\<close>

text \<open>The signal frame of an lwp, as bytes, and the address it is stored at.\<close>

abbreviation sigframe_bytes :: "sigset \<Rightarrow> lwp \<Rightarrow> u8 list" where
  "sigframe_bytes smask l \<equiv> concat (map word_bytes (sigframe_words (linux_sigframe smask l)))"

abbreviation sigframe_addr :: "lwp \<Rightarrow> u32" where
  "sigframe_addr l \<equiv> f_regs l ! R_SP - 53824"

lemma linux_sigframe_words:
  assumes "length (f_regs l) = 17"
  shows "words_sigframe (sigframe_words (linux_sigframe smask l)) = linux_sigframe smask l"
    "length (sigframe_bytes smask l) = sizeof_sigframe"
  using words_sigframe_words [of "linux_sigframe smask l"] assms sigs_native_to_linux [of smask]
  by (simp_all add: linux_sigframe_def length_word_bytes)

lemma sendsig_reset_frame [simp]:
  "f_regs (sendsig_reset sig l) = f_regs l" "l_sigstk (sendsig_reset sig l) = l_sigstk l"
  by (simp_all add: sendsig_reset_def Let_def split: option.splits)

text \<open>Every way out of \<open>linux_sendsig\<close>; the registers the handler starts with.\<close>

lemma linux_sendsig_returns:
  assumes "linux_sendsig sig smask l m = Ok r"
  shows "\<exists>m'. copyout (sigframe_bytes smask l) (sigframe_addr l) m = Ok (0, m') \<and>
    r = Returned ((sendsig_reset sig l)\<lparr>f_regs := (f_regs l)[R_SP := sigframe_addr l,
          R_R12 := of_nat (native_to_linux_signo ! sig), R_R11 := 0, R_R10 := sigframe_addr l + 128,
          R_PC := sa_handler (SIGACTION (sendsig_reset sig l) sig),
          R_LR := sd_tramp (SIGACTION (sendsig_reset sig l) sig)]\<rparr>, m') \<and>
    sd_vers (SIGACTION (sendsig_reset sig l) sig) \<noteq> 0"
proof -
  obtain e m' where c: "copyout (sigframe_bytes smask l) (sigframe_addr l) m = Ok (e, m')"
    using assms by (auto simp: linux_sendsig_def Let_def bind_r_eq_Ok split: if_splits)
  then have "e = 0" by (simp add: copyout_def split: if_splits)
  with c assms show ?thesis
    by (auto simp: linux_sendsig_def Let_def reg_set_def split: if_splits)
qed

lemma copyin_agree:
  assumes "copyout bs a m = Ok (e, m')" "length bs = 232" "a \<noteq> 0"
    and "\<And>x. x \<in> set (span a 232) \<Longrightarrow> m'' x = m' x"
  shows "copyin a 232 m'' = Ok (0, bs)"
proof -
  have "0 \<le> sint a" using assms(1) by (simp add: copyout_def not_less split: if_splits)
  moreover have "sint a \<noteq> 0" using assms(3) by (metis signed_0 signed_word_eqI)
  ultimately have "0 < sint a" by simp
  moreover have "list_all (\<lambda>x. m' x \<noteq> None) (span a 232) \<and> map (\<lambda>x. the (m' x)) (span a 232) = bs"
    using copyout_copyin [OF assms(1)] assms(2) by simp
  ultimately show ?thesis using assms(4) by (auto simp: copyin_def list_all_iff cong: map_cong)
qed


lemma cantmask: "length sigcantmask = 4" "sigcantmask = [0x10100, 0, 0, 0]"
  by code_simp+

lemma setucontext_linux:
  assumes "uc_flags u = UC_SIGMASK OR UC_CPU OR UC_STACK" "uc_link u = 0"
  shows "\<exists>fl. setucontext u l = (0, l\<lparr>
      f_regs := take 1 (f_regs l) @ take 16 (drop 1 (uc_mcontext u)),
      l_sigmask := (if p_sa l = None then sigminusset sigcantmask (uc_sigmask u) else l_sigmask l),
      p_sa := (case p_sa l of None \<Rightarrow> None | Some _ \<Rightarrow> Some (sigminusset sigcantmask (uc_sigmask u))),
      l_flag := fl, l_ctxlink := 0,
      l_sigstk := (l_sigstk l)\<lparr>ss_flags := (if ss_flags (uc_stack u) AND SS_ONSTACK \<noteq> 0
         then ss_flags (l_sigstk l) OR SS_ONSTACK else ss_flags (l_sigstk l) AND NOT SS_ONSTACK)\<rparr>\<rparr>)"
  using assms
  by (cases l; cases "p_sa l") (auto simp: setucontext_def sigprocmask1_def cpu_setmcontext_def sigstk_onstack_def Let_def)


lemma rt_sigreturn_frame:
  assumes "copyin (f_regs l ! R_SP) sizeof_sigframe m = Ok (e, bs)"
  shows "\<exists>fl on. linux_sys_rt_sigreturn l m = Ok (Returned (EJUSTRETURN, l\<lparr>
      f_regs := take 1 (f_regs l) @ take 16 (drop 1 (lsc_regs (words_sigframe (bytes_words bs)))),
      l_sigmask := (if p_sa l = None then sigminusset sigcantmask (linux_to_native_sigset
        (luc_sigmask (words_sigframe (bytes_words bs)))) else l_sigmask l),
      p_sa := (case p_sa l of None \<Rightarrow> None | Some _ \<Rightarrow> Some (sigminusset sigcantmask
        (linux_to_native_sigset (luc_sigmask (words_sigframe (bytes_words bs)))))),
      l_flag := fl, l_ctxlink := 0,
      l_sigstk := (l_sigstk l)\<lparr>ss_flags := (if on then ss_flags (l_sigstk l) OR SS_ONSTACK
        else ss_flags (l_sigstk l) AND NOT SS_ONSTACK)\<rparr>\<rparr>)) \<and>
    on = (luc_ss_flags (words_sigframe (bytes_words bs)) AND LINUX_SS_ONSTACK \<noteq> 0)"
proof -
  let ?f = "words_sigframe (bytes_words bs)"
  let ?u = "\<lparr>uc_flags = UC_SIGMASK OR UC_CPU OR UC_STACK, uc_link = 0,
      uc_sigmask = linux_to_native_sigset (luc_sigmask ?f),
      uc_stack = \<lparr>ss_sp = luc_ss_sp ?f, ss_size = luc_ss_size ?f,
        ss_flags = (if luc_ss_flags ?f AND LINUX_SS_ONSTACK \<noteq> 0 then SS_ONSTACK else 0) OR
          (if luc_ss_flags ?f AND LINUX_SS_DISABLE \<noteq> 0 then SS_DISABLE else 0)\<rparr>,
      uc_mcontext = lsc_regs ?f\<rparr>"
  have "e = 0" using assms by (simp add: copyin_def split: if_splits)
  then have r: "linux_sys_rt_sigreturn l m =
      Ok (Returned (if fst (setucontext ?u l) \<noteq> 0 then fst (setucontext ?u l) else EJUSTRETURN, snd (setucontext ?u l)))"
    using assms by (simp add: linux_sys_rt_sigreturn_def Let_def split_beta)
  obtain fl where "setucontext ?u l = (0, l\<lparr>
      f_regs := take 1 (f_regs l) @ take 16 (drop 1 (uc_mcontext ?u)),
      l_sigmask := (if p_sa l = None then sigminusset sigcantmask (uc_sigmask ?u) else l_sigmask l),
      p_sa := (case p_sa l of None \<Rightarrow> None | Some _ \<Rightarrow> Some (sigminusset sigcantmask (uc_sigmask ?u))),
      l_flag := fl, l_ctxlink := 0,
      l_sigstk := (l_sigstk l)\<lparr>ss_flags := (if ss_flags (uc_stack ?u) AND SS_ONSTACK \<noteq> 0
         then ss_flags (l_sigstk l) OR SS_ONSTACK else ss_flags (l_sigstk l) AND NOT SS_ONSTACK)\<rparr>\<rparr>)"
    using setucontext_linux [of ?u l] by auto
  moreover have "ss_flags (uc_stack ?u) AND SS_ONSTACK \<noteq> 0 \<longleftrightarrow> luc_ss_flags ?f AND LINUX_SS_ONSTACK \<noteq> 0"
    by (simp add: and_or_distrib)
  ultimately show ?thesis unfolding r by auto
qed

lemma sigframe_fields:
  "lsc_regs (linux_sigframe smask l) = f_regs l"
  "luc_sigmask (linux_sigframe smask l) = native_to_linux_sigset smask"
  "luc_ss_flags (linux_sigframe smask l) AND LINUX_SS_ONSTACK \<noteq> 0 \<longleftrightarrow> ss_flags (l_sigstk l) AND SS_ONSTACK \<noteq> 0"
  by (simp_all add: linux_sigframe_def and_or_distrib)

lemma regs_restored: "length r = 17 \<Longrightarrow> length u = 17 \<Longrightarrow> take 1 u @ take 16 (drop 1 r) = r[0 := u ! 0]"
  by (cases r; cases u) simp_all

text \<open>
  A handler that leaves its frame alone and returns with the stack pointer at the frame gets the
  interrupted registers and mask back.
\<close>

lemma sendsig_sigreturn:
  assumes "linux_sendsig sig smask l m = Ok (Returned (h, m'))" "length (f_regs l) = 17"
    "length smask = 4" "sigs smask \<subseteq> {1..63}" "sigframe_addr l \<noteq> 0"
    "length (f_regs u) = 17" "f_regs u ! R_SP = f_regs h ! R_SP" "p_sa u = None"
    "\<forall>a \<in> set (span (f_regs h ! R_SP) sizeof_sigframe). m'' a = m' a"
  shows "\<exists>v. linux_sys_rt_sigreturn u m'' = Ok (Returned (EJUSTRETURN, v)) \<and>
    f_regs v = (f_regs l)[R_SR := f_regs u ! R_SR] \<and>
    l_sigmask v = sigminusset sigcantmask (sigdelset (sigdelset smask SIGEMT) SIGINFO) \<and>
    (ss_flags (l_sigstk v) AND SS_ONSTACK \<noteq> 0 \<longleftrightarrow> ss_flags (l_sigstk l) AND SS_ONSTACK \<noteq> 0)"
proof -
  from linux_sendsig_returns [OF assms(1)]
  have c: "copyout (sigframe_bytes smask l) (sigframe_addr l) m = Ok (0, m')"
    and sp: "f_regs h ! R_SP = sigframe_addr l" using assms(2) by auto
  note w = linux_sigframe_words [OF assms(2), of smask]
  have "copyin (f_regs u ! R_SP) sizeof_sigframe m'' = Ok (0, sigframe_bytes smask l)"
    using copyin_agree [OF c w(2) assms(5), of m''] assms(7,9) sp by simp
  from rt_sigreturn_frame [OF this] obtain fl where
    r: "linux_sys_rt_sigreturn u m'' = Ok (Returned (EJUSTRETURN, u\<lparr>
      f_regs := take 1 (f_regs u) @ take 16 (drop 1 (f_regs l)),
      l_sigmask := sigminusset sigcantmask (linux_to_native_sigset (native_to_linux_sigset smask)),
      p_sa := None, l_flag := fl, l_ctxlink := 0,
      l_sigstk := (l_sigstk u)\<lparr>ss_flags := (if ss_flags (l_sigstk l) AND SS_ONSTACK \<noteq> 0
        then ss_flags (l_sigstk u) OR SS_ONSTACK else ss_flags (l_sigstk u) AND NOT SS_ONSTACK)\<rparr>\<rparr>))"
    using assms(8) w(1) by (simp add: sigframe_fields) blast
  show ?thesis
    unfolding r using regs_restored [OF assms(2,6)] sigset_convert_back [OF assms(3,4)]
    by (simp add: and_or_distrib and.assoc)
qed


text \<open>An lwp with all signals at a handler, nothing blocked, and a flat address space.\<close>

definition demo_lwp :: lwp where
  "demo_lwp = \<lparr>f_regs = [0, 0x1000, 0x2000, 0x40000000] @ map of_nat [4..<17], md_astpending = 0, l_flag = 0,
     l_pflag = 0, l_prflag = 0, l_cred = 0, l_sigmask = [0, 0, 0, 0], l_sigpend = [0, 0, 0, 0],
     l_sigstk = \<lparr>ss_sp = 0, ss_size = 0, ss_flags = 4\<rparr>, l_ctxlink = 0, savp_faultaddr = 0, pcb_onfault = 0,
     p_cred = 0, p_sa = None, p_sigpend = [0, 0, 0, 0], ps_lwp = 0, ps_code = 0, ps_signo = 0,
     ps_sigcatch = [0, 0, 0, 0], ps_sigignore = [0, 0, 0, 0],
     sa_sigdesc = replicate 64 \<lparr>sa_handler = 0x3000, sa_mask = [0, 0, 0, 0], sa_flags = 0, sd_tramp = 0x4000, sd_vers = 1\<rparr>,
     vm_pmap = 1, vm_maxsaddr = 0x70000000, e_fault = False\<rparr>"

lemma demo_lwp_regs: "length (f_regs demo_lwp) = 17" "f_regs demo_lwp ! R_SP = 0x40000000"
  by (simp_all add: demo_lwp_def)

lemma demo_sendsig: "\<exists>h m'. linux_sendsig 2 [1, 0, 0, 0] demo_lwp (\<lambda>_. Some 0) = Ok (Returned (h, m'))"
  by (simp add: linux_sendsig_def demo_lwp_def copyout_def list_all_iff sendsig_reset_def Let_def reg_set_def)

text \<open>
  C19. No signal frame, whatever the process puts there, makes the return from a handler change the
  status register, so it cannot raise the execution mode; the mask it installs never holds SIGKILL
  or SIGSTOP, and credentials, signal actions, pending signals and the address space of the process
  stay as they are.
\<close>

theorem sigreturn_keeps_privilege:
  assumes "linux_sys_rt_sigreturn l m = Ok r" "length (f_regs l) = 17" "p_sa l = None"
  shows "\<exists>l'. r = Returned (EJUSTRETURN, l') \<and> f_regs l' ! R_SR = f_regs l ! R_SR \<and>
    length (l_sigmask l') = 4 \<and> sigs (l_sigmask l') \<inter> {9, 17} = {} \<and>
    l_cred l' = l_cred l \<and> sa_sigdesc l' = sa_sigdesc l \<and> l_sigpend l' = l_sigpend l \<and>
    p_sigpend l' = p_sigpend l \<and> vm_pmap l' = vm_pmap l"
proof -
  obtain e bs where c: "copyin (f_regs l ! R_SP) sizeof_sigframe m = Ok (e, bs)"
    using assms(1) by (auto simp: linux_sys_rt_sigreturn_def bind_r_eq_Ok)
  let ?s = "linux_to_native_sigset (luc_sigmask (words_sigframe (bytes_words bs)))"
  have four: "length ?s = 4" using sigs_linux_to_native by blast
  have "list_all (sigismember sigcantmask) [9, 17]" by code_simp
  then have "{9, 17} \<subseteq> sigs sigcantmask" by (simp add: sigs_def cantmask(1))
  then have kill: "sigs (sigminusset sigcantmask ?s) \<inter> {9, 17} = {}"
    using sigs_minus [of sigcantmask ?s] four by (auto simp: cantmask(1))
  have len: "length (sigminusset sigcantmask ?s) = 4" using four by (simp add: sigminusset_def cantmask(1))
  have "f_regs l \<noteq> []" using assms(2) by auto
  then have "(take 1 (f_regs l) @ x) ! 0 = f_regs l ! 0" for x by (cases "f_regs l") auto
  with rt_sigreturn_frame [OF c] assms(1,3) kill len show ?thesis by (auto simp: nth_append)
qed

theorem sigreturn_keeps_privilege_witness:
  "\<exists>r l'. linux_sys_rt_sigreturn demo_lwp (\<lambda>_. Some 0xff) = Ok r \<and> r = Returned (EJUSTRETURN, l') \<and> f_regs l' ! R_SR = 0"
proof -
  have "\<exists>bs. copyin (f_regs demo_lwp ! R_SP) sizeof_sigframe (\<lambda>_. Some 0xff) = Ok (0, bs)"
    by (simp add: copyin_def demo_lwp_regs list_all_iff)
  then obtain r where r: "linux_sys_rt_sigreturn demo_lwp (\<lambda>_. Some 0xff) = Ok r"
    using rt_sigreturn_frame by blast
  from sigreturn_keeps_privilege [OF this demo_lwp_regs(1)] r show ?thesis by (auto simp: demo_lwp_def)
qed

text \<open>
  A delivered signal enters its handler with the Linux signal number in R12, the context pointer
  in R10, the restorer in LR and the frame at the stack pointer, 53824 bytes below the interrupted
  one, and blocks the signals of the action; but under SA_RESETHAND the handler is read after the
  action was reset, and the process resumes at address 0, SIG_DFL, instead of at its handler.
\<close>

theorem sendsig_enters_handler:
  assumes "linux_sendsig sig smask l m = Ok r" "length (f_regs l) = 17" "sig < length (sa_sigdesc l)" "p_sa l = None"
  shows "\<exists>h m'. r = Returned (h, m') \<and> f_regs h ! R_SP = f_regs l ! R_SP - 53824 \<and>
    f_regs h ! R_R12 = of_nat (native_to_linux_signo ! sig) \<and> f_regs h ! R_R10 = f_regs h ! R_SP + 128 \<and>
    f_regs h ! R_LR = sd_tramp (SIGACTION l sig) \<and> f_regs h ! R_SR = f_regs l ! R_SR \<and>
    l_sigmask h = sigplusset (sa_mask (SIGACTION l sig)) (l_sigmask l) \<and>
    f_regs h ! R_PC = (if sa_flags (SIGACTION l sig) AND SA_RESETHAND \<noteq> 0 then SIG_DFL else sa_handler (SIGACTION l sig))"
proof -
  have a: "sa_handler (SIGACTION (sendsig_reset sig l) sig) =
      (if sa_flags (SIGACTION l sig) AND SA_RESETHAND \<noteq> 0 then SIG_DFL else sa_handler (SIGACTION l sig))"
    "sd_tramp (SIGACTION (sendsig_reset sig l) sig) = sd_tramp (SIGACTION l sig)"
    "l_sigmask (sendsig_reset sig l) = sigplusset (sa_mask (SIGACTION l sig)) (l_sigmask l)"
    using assms(3,4) by (simp_all add: sendsig_reset_def Let_def)
  from linux_sendsig_returns [OF assms(1)] obtain m' where
    r: "r = Returned ((sendsig_reset sig l)\<lparr>f_regs := (f_regs l)[R_SP := sigframe_addr l,
          R_R12 := of_nat (native_to_linux_signo ! sig), R_R11 := 0, R_R10 := sigframe_addr l + 128,
          R_PC := sa_handler (SIGACTION (sendsig_reset sig l) sig),
          R_LR := sd_tramp (SIGACTION (sendsig_reset sig l) sig)]\<rparr>, m')"
    by blast
  show ?thesis unfolding r using a assms(2) by (simp add: nth_list_update)
qed

theorem sendsig_enters_handler_witness:
  "\<exists>h m'. linux_sendsig 2 [1, 0, 0, 0] demo_lwp (\<lambda>_. Some 0) = Ok (Returned (h, m')) \<and> f_regs h ! R_PC = 0x3000 \<and>
     f_regs h ! R_R12 = 2"
proof -
  obtain h m' where s: "linux_sendsig 2 [1, 0, 0, 0] demo_lwp (\<lambda>_. Some 0) = Ok (Returned (h, m'))"
    using demo_sendsig by blast
  from sendsig_enters_handler [OF s demo_lwp_regs(1)] s show ?thesis
    by (simp add: demo_lwp_def native_to_linux_signo_def)
qed

end
