(* ===== verification/Trap_Props.thy ===== *)
theory Trap_Props
  imports Trap Pmap_Props Linux_Signal_Props
begin

text \<open>
  Properties of the exception handler: what a modified-page trap does to the page tables, what each
  cause does to a user process, what a kernel mode trap can and cannot do, and that the loop for
  asynchronous traps ends.
\<close>

section \<open>Modified pages\<close>

lemma page_slot: "seg_index (trunc_page va) = seg_index va" "pte_index (trunc_page va) = pte_index va"
  unfolding seg_index_div pte_index_div unat_trunc_page by (simp_all add: div_mult2_eq [of _ 4096 1024, simplified])

lemma or_dirty:
  "pte_valid (e OR AVR32_PG_DIRTY) = pte_valid e"
  "avr32_tlbpfn_to_paddr (e OR AVR32_PG_DIRTY) = avr32_tlbpfn_to_paddr e"
  by (simp_all add: and_or_distrib_left avr32_tlbpfn_to_paddr_def)

text \<open>The state after the repair of a modified-page trap on a page with entry \<open>e\<close>.\<close>

definition marked :: "nat \<Rightarrow> vaddr \<Rightarrow> u32 \<Rightarrow> u32 \<Rightarrow> pmap_st \<Rightarrow> pmap_st" where
  "marked pm va e pg s = md_upd pg (\<lambda>md. md\<lparr>pvh_attrs := pvh_attrs md OR (PV_MODIFIED OR PV_REFERENCED)\<rparr>)
     (tlb_update (avr32_vaddr_to_tlbvpn (va OR pm_asid (pmaps s pm)) OR AVR32_PG_VALID OR pm_asid (pmaps s pm))
        (e OR AVR32_PG_DIRTY) (pte_set pm va (e OR AVR32_PG_DIRTY) s))"

lemma utlbmod_marks:
  assumes "mapped s pm (trunc_page va) e" "pm \<noteq> pmap_kernel" "e AND AVR32_PG_DIRTY = 0" "\<not> AVR32_READ_ONLY_PTE e"
    "PHYS_TO_VM_PAGE s (avr32_tlbpfn_to_paddr e) = Some pg"
  shows "utlbmod pm va s = Ok (marked pm (trunc_page va) e pg s)"
proof -
  have a: "trunc_page va < VM_MAXUSER_ADDRESS" using assms(1,2) by (simp add: mapped_def va_ok_def)
  have seg: "pmap_segmap s pm (trunc_page va) = pmap_segmap s pm va" by (simp add: pmap_segmap_def page_slot)
  have e: "pmap_segmap s pm va \<noteq> 0" "pte_mem s (pmap_segmap s pm va) (pte_index va) = e" "pte_valid e"
    using assms(1,2) by (auto simp: mapped_def pte_get_def seg page_slot split: if_splits)
  have idx: "\<not> PMAP_SEGTABSIZE \<le> seg_index va" using seg_index_bound [OF a] by (simp add: page_slot)
  have pg: "vm_physseg_find (vm_physmem s) (atop (avr32_tlbpfn_to_paddr e)) \<noteq> None" "pg = atop (avr32_tlbpfn_to_paddr e)"
    using assms(5) by (auto simp: PHYS_TO_VM_PAGE_def split: option.splits)
  have tp: "va AND - 4096 = trunc_page va" by (simp add: trunc_page_def)
  show ?thesis
    using assms(2-4) e idx pg
    by (auto simp: utlbmod_def marked_def Let_def or_dirty pmap_set_modified_def PHYS_TO_VM_PAGE_def tlb_update_def
        pte_set_def seg page_slot tp md_upd_def split: option.splits)
qed

lemma marked_ok:
  assumes ok: "pmap_ok s" and m: "mapped s pm va e"
  shows "pmap_ok (marked pm va e pg s)"
    "mapped (marked pm va e pg s) pm' va' x \<longleftrightarrow> (if (pm', va') = (pm, va) then x = e OR AVR32_PG_DIRTY else mapped s pm' va' x)"
proof -
  let ?e = "e OR AVR32_PG_DIRTY"
  let ?s = "pte_set pm va ?e s"
  have v: "pte_valid ?e" using m by (simp add: or_dirty mapped_def)
  have inv: "pmap_inv s" using ok by (simp add: pmap_ok_def)
  then have inj: "pt_inj s" by (simp add: pmap_inv_def)
  have inv1: "pmap_inv ?s" by (rule pte_set_keep_inv [OF inv m v]) (simp add: or_dirty)
  define h where "h = MachTLBUpdate (avr32_vaddr_to_tlbvpn (va OR pm_asid (pmaps s pm)) OR AVR32_PG_VALID OR pm_asid (pmaps s pm)) ?e (hw ?s)"
  have t: "tlb_update (avr32_vaddr_to_tlbvpn (va OR pm_asid (pmaps s pm)) OR AVR32_PG_VALID OR pm_asid (pmaps s pm)) ?e ?s = ?s\<lparr>hw := h\<rparr>"
    unfolding tlb_update_def h_def ..
  have inv': "pmap_inv (?s\<lparr>hw := h\<rparr>)" using inv1 unfolding pmap_inv_hw .
  have ok': "pmap_ok (?s\<lparr>hw := h\<rparr>)"
    by (rule same_env_ok [OF ok same_env_trans [OF pte_set_env same_env_hw] inv'])
  let ?a = "pvh_attrs (mdpage s pg) OR (PV_MODIFIED OR PV_REFERENCED)"
  have eq: "marked pm va e pg s = md_upd pg (\<lambda>md. md\<lparr>pvh_attrs := ?a\<rparr>) (?s\<lparr>hw := h\<rparr>)"
    unfolding marked_def t by (simp add: md_upd_def)
  obtain ts where al: "alloc_ok (?s\<lparr>hw := h\<rparr>) ts" using ok' by (auto simp: pmap_ok_def alloc_inv_def)
  note at = attrs_inv [OF inv' al, of pg ?a]
  have "same_env (?s\<lparr>hw := h\<rparr>) (marked pm va e pg s)" by (simp add: eq same_env_def)
  then show "pmap_ok (marked pm va e pg s)" using same_env_ok [OF ok'] at(1) eq by simp
  show "mapped (marked pm va e pg s) pm' va' x \<longleftrightarrow> (if (pm', va') = (pm, va) then x = ?e else mapped s pm' va' x)"
    unfolding eq at(4) mapped_hw by (rule pte_set_mapped [OF inj m v])
qed

section \<open>Causes in user mode\<close>

lemma cause_table: "cause < 41 \<Longrightarrow> list_all P (map of_nat [0..<41]) \<Longrightarrow> P cause" for cause :: u32
proof -
  assume a: "cause < 41" "list_all P (map of_nat [0..<41])"
  then have "unat cause < 41" by (simp add: word_less_nat_alt)
  then have "of_nat (unat cause) \<in> set (map of_nat [0..<41] :: u32 list)" unfolding set_map by (intro imageI) simp
  then have "P (of_nat (unat cause))" using a(2) unfolding list_all_iff by blast
  then show "P cause" by simp
qed

lemma user_type: "cause < 41 \<Longrightarrow> (cause OR T_USER) AND T_USER \<noteq> 0 \<and> (cause OR T_USER) AND NOT T_USER = cause \<and> cause AND T_USER = 0"
  for cause :: u32
  by (erule cause_table) code_simp

text \<open>The branch a user mode trap takes: repair, page fault with its access, address error, or panic.\<close>

lemma switch_user:
  assumes "cause < 41"
  shows "trap_switch env (cause OR T_USER) va l st =
    (if cause = T_TLB_MOD then bind_r (utlbmod (vm_pmap l) va (vm st)) (\<lambda>s. Ok (None, userret env (st\<lparr>vm := s\<rparr>)))
     else if cause = T_ITLB_MISS then pagefault env (cause OR T_USER) (VM_PROT_READ OR VM_PROT_EXECUTE) va l st
     else if cause = T_TLB_LD_MISS then pagefault env (cause OR T_USER) VM_PROT_READ va l st
     else if cause = T_TLB_WR_PROT \<or> cause = T_TLB_ST_MISS then pagefault env (cause OR T_USER) VM_PROT_WRITE va l st
     else if cause = T_ADDR_ERR_RD \<or> cause = T_ADDR_ERR_WR
     then Ok (Some \<lparr>ksi_flags = KSI_TRAP, ksi_signo = SIGSEGV, ksi_code = SEGV_MAPERR, ksi_trap = cause, ksi_addr = va\<rparr>, st)
     else Panic (if cause = T_DTLB_PROT then ''trap: T_DTLB_PROT+T_USER: notyet''
       else if cause = T_TLB_EX_PROT then ''trap: T_TLB_EX_PROT+T_USER: notyet'' else ''trap: dopanic: notyet''))"
proof -
  have "list_all (\<lambda>cause. list_all (\<lambda>c. (cause OR T_USER = c + T_USER \<longleftrightarrow> cause = c) \<and> cause OR T_USER \<noteq> c)
      [2, 6, 10, 13, 14, 16, 17, 20, 24, 28]) (map of_nat [0..<41])" by code_simp
  from cause_table [OF assms this]
  have k: "(cause OR T_USER = c + T_USER \<longleftrightarrow> cause = c) \<and> cause OR T_USER \<noteq> c"
    if "c \<in> set [2, 6, 10, 13, 14, 16, 17, 20, 24, 28]" for c using that unfolding list_all_iff by blast
  note ks = k [of 2, simplified] k [of 6, simplified] k [of 10, simplified] k [of 13, simplified] k [of 14, simplified]
    k [of 16, simplified] k [of 17, simplified] k [of 20, simplified] k [of 24, simplified] k [of 28, simplified]
  show ?thesis
    using user_type [OF assms] by (simp add: trap_switch_def Let_def ks)
qed

section \<open>The handler in user mode\<close>

text \<open>The state the branches start from: credentials refreshed, interrupts as they were, the trap counted.\<close>

definition user_entry :: "u32 list \<Rightarrow> lwp \<Rightarrow> trap_st \<Rightarrow> trap_st" where
  "user_entry frame l st = st\<lparr>curlwp := Some (LWP_CACHE_CREDS l), uvmexp_traps := uvmexp_traps st + 1,
     spl := frame ! R_SR AND AVR32_STATUS_IMx\<rparr>"

text \<open>Delivery of the signal of a trap.\<close>

definition deliver :: "trap_env \<Rightarrow> u32 \<Rightarrow> vaddr \<Rightarrow> ksiginfo \<Rightarrow> trap_st \<Rightarrow> trap_st" where
  "deliver env cause va ksi st = userret env (e_trapsignal env ksi
     (lwp_upd (\<lambda>l. reg_set R_R11 va (reg_set R_R12 cause l)) st))"

lemma trap_user:
  assumes "curlwp st = Some l" "USERMODE (frame ! R_SR)" "cause < 41"
  shows "trap env cause va frame st =
    bind_r (trap_switch env (cause OR T_USER) va (LWP_CACHE_CREDS l) (user_entry frame l st))
      (\<lambda>(ksi, st'). Ok (case ksi of None \<Rightarrow> st' | Some ksi \<Rightarrow> deliver env cause va ksi st'))"
proof -
  have "lwp_upd LWP_CACHE_CREDS (st\<lparr>uvmexp_traps := uvmexp_traps st + 1\<rparr>)\<lparr>spl := frame ! R_SR AND AVR32_STATUS_IMx\<rparr> =
      user_entry frame l st" using assms(1) by (simp add: lwp_upd_def user_entry_def)
  then show ?thesis
    using assms user_type [OF assms(3)]
    by (auto simp: trap_def Let_def deliver_def not_le intro!: arg_cong2 [where f = bind_r] split: option.splits)
qed

lemma cache_creds [simp]:
  "vm_pmap (LWP_CACHE_CREDS l) = vm_pmap l" "e_fault (LWP_CACHE_CREDS l) = e_fault l" "l_flag (LWP_CACHE_CREDS l) = l_flag l"
  "l_pflag (LWP_CACHE_CREDS l) = l_pflag l" "vm_maxsaddr (LWP_CACHE_CREDS l) = vm_maxsaddr l" "f_regs (LWP_CACHE_CREDS l) = f_regs l"
  by (simp_all add: LWP_CACHE_CREDS_def lwp_update_creds_def)

lemma user_entry_proj [simp]:
  "vm (user_entry frame l st) = vm st" "curlwp (user_entry frame l st) = Some (LWP_CACHE_CREDS l)"
  by (simp_all add: user_entry_def)

text \<open>
  C13. A write of a user process to a clean writable page it maps traps as modified; the handler
  returns to it with the dirty bit set in exactly that page table entry, the page marked modified
  and referenced, the new entry loaded into the TLB for the address and address space, and the
  pmap module consistent. No other mapping of any process changes.
\<close>

theorem trap_marks_modified:
  assumes "pmap_ok (vm st)" "curlwp st = Some l" "USERMODE (frame ! R_SR)" "vm_pmap l \<noteq> pmap_kernel"
    "mapped (vm st) (vm_pmap l) (trunc_page va) e" "e AND AVR32_PG_DIRTY = 0" "\<not> AVR32_READ_ONLY_PTE e"
    "PHYS_TO_VM_PAGE (vm st) (avr32_tlbpfn_to_paddr e) = Some pg" "pm_asid (pmaps (vm st) (vm_pmap l)) \<le> AVR32_PG_ASID"
  shows "\<exists>s. trap env T_TLB_MOD va frame st = Ok (userret env ((user_entry frame l st)\<lparr>vm := s\<rparr>)) \<and> pmap_ok s \<and>
    (\<forall>pm va' x. mapped s pm va' x \<longleftrightarrow> (if (pm, va') = (vm_pmap l, trunc_page va) then x = e OR AVR32_PG_DIRTY
       else mapped (vm st) pm va' x)) \<and>
    pvh_attrs (mdpage s pg) = pvh_attrs (mdpage (vm st) pg) OR (PV_MODIFIED OR PV_REFERENCED) \<and>
    hw s = TLB_UPDATE (trunc_page va OR AVR32_PG_VALID OR pm_asid (pmaps (vm st) (vm_pmap l)))
      ((e OR AVR32_PG_DIRTY) AND NOT (AVR32_PTE_WIRED OR AVR32_PTE_VALID)) # hw (vm st)"
proof -
  let ?pm = "vm_pmap l"
  let ?s = "marked ?pm (trunc_page va) e pg (vm st)"
  note u = utlbmod_marks [OF assms(5,4,6-8)]
  have run: "trap env T_TLB_MOD va frame st = Ok (userret env ((user_entry frame l st)\<lparr>vm := ?s\<rparr>))"
    using u switch_user [of T_TLB_MOD env va "LWP_CACHE_CREDS l" "user_entry frame l st"] by (simp add: trap_user [OF assms(2,3)])
  have "(trunc_page va OR a) AND AVR32_PG_VPN = trunc_page va" if "a \<le> AVR32_PG_ASID" for a
  proof -
    have "unat a \<le> 255" using that by (simp add: word_le_nat_alt)
    then have "unat (a AND NOT (mask 12)) = 0" unfolding unat_and_not_mask by simp
    then have "a AND NOT (mask 12) = 0" by (simp only: unat_eq_zero)
    moreover have "NOT (mask 12) = (AVR32_PG_VPN :: u32)" by code_simp
    ultimately have "a AND AVR32_PG_VPN = 0" by simp
    moreover have "(AVR32_PG_VPN :: u32) = NOT PGOFSET" by code_simp
    then have "trunc_page va AND AVR32_PG_VPN = trunc_page va" by (simp only: trunc_page_def and.assoc and.idem)
    ultimately show ?thesis by (simp add: and_or_distrib_left)
  qed
  from this [OF assms(9)]
  have "hw ?s = TLB_UPDATE (trunc_page va OR AVR32_PG_VALID OR pm_asid (pmaps (vm st) ?pm))
      ((e OR AVR32_PG_DIRTY) AND NOT (AVR32_PTE_WIRED OR AVR32_PTE_VALID)) # hw (vm st)"
    by (simp add: marked_def tlb_update_def MachTLBUpdate_def avr32_vaddr_to_tlbvpn_def)
  moreover have "pvh_attrs (mdpage ?s pg) = pvh_attrs (mdpage (vm st) pg) OR (PV_MODIFIED OR PV_REFERENCED)"
    by (simp add: marked_def md_upd_def tlb_update_def)
  ultimately show ?thesis
    using run marked_ok [OF assms(1,5), where pg = pg] by (intro exI [of _ ?s] conjI allI) blast+
qed

text \<open>A machine with one process that maps a clean writable page at \<open>0x1000\<close>, and an environment that does nothing.\<close>

definition pm_entered :: pmap_st where
  "pm_entered = (case pmap_enter 1 0x1000 0x10003000 3 0 one_pmap of Ok (_, t) \<Rightarrow> t | _ \<Rightarrow> one_pmap)"

definition demo_trap :: trap_st where
  "demo_trap = \<lparr>curlwp = Some demo_lwp, vm = pm_entered, uvmexp_traps = 0, uvmexp_softs = 0, uvmexp_syscalls = 0, spl = 0, ci_want_resched = False\<rparr>"

definition idle_env :: trap_env where
  "idle_env = \<lparr>uvm_fault = (\<lambda>_ _ _ st. (0, st)), uvm_grow = (\<lambda>_ st. st), e_trapsignal = (\<lambda>_ st. st), userret = (\<lambda>st. st),
     ADDUPROF = (\<lambda>st. st), preempt = (\<lambda>st. st), fswintrberr = 0xdead0000\<rparr>"

lemma pm_entered_ok:
  "pmap_ok pm_entered" "mapped pm_entered 1 0x1000 (enter_pte 1 0x10003000 3 0 0)"
  "pm_segtab (pmaps pm_entered 1) \<noteq> 0"
proof -
  obtain ts where al: "alloc_ok one_pmap ts" and inv: "pmap_inv one_pmap" using one_pmap_ok by (auto simp: pmap_ok_def alloc_inv_def)
  from pmap_enter_user_ok [OF inv al one_pmap_facts(1) one_pmap_enter_args(1-3) one_pmap_page one_pmap_enter_args(4-7), of 0]
  have e: "pmap_enter 1 0x1000 0x10003000 3 0 one_pmap = Ok (0, pm_entered)" and
    n: "entered one_pmap 1 0x1000 (enter_pte 1 0x10003000 3 0 (pvh_attrs (mdpage one_pmap 0x10003))) 0x10003 pm_entered"
    by (auto simp: pm_entered_def)
  show "pmap_ok pm_entered"
    by (rule enter_ok [OF one_pmap_ok one_pmap_facts(1) one_pmap_enter_args(1-3) one_pmap_page one_pmap_enter_args(4-7) e])
  show m: "mapped pm_entered 1 0x1000 (enter_pte 1 0x10003000 3 0 0)"
    using n by (simp add: entered_def one_pmap_facts boot_st_def)
  show "pm_segtab (pmaps pm_entered 1) \<noteq> 0" using m by (simp add: mapped_def va_ok_def)
qed

lemma pm_entered_phys: "vm_physmem pm_entered = vm_physmem boot_st" "pm_asid (pmaps pm_entered 1) = 0"
  by code_simp+

lemma demo_pte: "enter_pte 1 0x10003000 3 0 0 = 0x90003264"
  by code_simp

theorem trap_marks_modified_witness:
  "\<exists>s. trap idle_env 17 0x1234 [0] demo_trap = Ok ((user_entry [0] demo_lwp demo_trap)\<lparr>vm := s\<rparr>) \<and>
     mapped s 1 0x1000 0x90003266"
proof -
  have t: "trunc_page 0x1234 = 0x1000" by (simp add: trunc_page_def)
  have d: "vm demo_trap = pm_entered" "curlwp demo_trap = Some demo_lwp" "vm_pmap demo_lwp = 1"
    by (simp_all add: demo_trap_def demo_lwp_def)
  have "PHYS_TO_VM_PAGE pm_entered (avr32_tlbpfn_to_paddr 0x90003264) = Some 0x10003"
    by (simp add: PHYS_TO_VM_PAGE_def pm_entered_phys boot_st_def vm_physseg_find_def vm_physseg_loop.simps atop_def avr32_tlbpfn_to_paddr_def)
  with trap_marks_modified [of demo_trap demo_lwp "[0]" "0x1234" "0x90003264" "0x10003" idle_env]
    pm_entered_ok(1,3) pm_entered_ok(2) [unfolded demo_pte] pm_entered_phys(2)
  show ?thesis by (auto simp: d t USERMODE_def AVR32_READ_ONLY_PTE_def idle_env_def)
qed

section \<open>Page faults of user processes\<close>

definition fault_access :: "u32 \<Rightarrow> u32" where
  "fault_access cause = (if cause = T_ITLB_MISS then VM_PROT_READ OR VM_PROT_EXECUTE
     else if cause = T_TLB_LD_MISS then VM_PROT_READ else VM_PROT_WRITE)"

text \<open>
  Every page fault of a user process is passed to UVM with the page and the access, and ends in
  one of four ways. UVM resolves it: the process goes on, the stack grown when the fault was in the
  stack region. UVM is out of memory: SIGKILL. UVM refuses access below the stack: the handler
  panics. Any other failure: SIGSEGV. A signal carries the faulting address and the cause, which
  the process also finds in R11 and R12.
\<close>

theorem trap_user_pagefault:
  assumes "curlwp st = Some l" "USERMODE (frame ! R_SR)" "cause \<in> {T_TLB_WR_PROT, T_ITLB_MISS, T_TLB_LD_MISS, T_TLB_ST_MISS}"
    "\<not> e_fault l" "l_flag l AND LW_SA = 0"
    "uvm_fault env Proc_map (trunc_page va) (fault_access cause) (user_entry frame l st) = (rv, st1)"
  shows "trap env cause va frame st =
    (let back = lwp_upd (\<lambda>l. l\<lparr>l_pflag := l_pflag l AND NOT LP_SA_PAGEFAULT\<rparr>);
         stack = (vm_maxsaddr l \<le> trunc_page va);
         ksi = \<lparr>ksi_flags = KSI_TRAP, ksi_signo = SIGSEGV, ksi_code = SEGV_MAPERR, ksi_trap = cause, ksi_addr = va\<rparr>
     in if rv = 0 then Ok (userret env (back (if stack then uvm_grow env (trunc_page va) st1 else st1)))
        else if rv = EACCES \<and> \<not> stack then Panic ''trap: SIGBUS: notyet''
        else Ok (deliver env cause va (if rv = ENOMEM then ksi\<lparr>ksi_signo := SIGKILL, ksi_code := 0\<rparr> else ksi) (back st1)))"
proof -
  have c: "cause < 41" using assms(3) by auto
  have "trap_switch env (cause OR T_USER) va (LWP_CACHE_CREDS l) (user_entry frame l st) =
      pagefault env (cause OR T_USER) (fault_access cause) va (LWP_CACHE_CREDS l) (user_entry frame l st)"
    using assms(3) unfolding switch_user [OF c] by (auto simp: fault_access_def)
  then show ?thesis
    using assms(4-6) user_type [OF c]
    by (simp add: trap_user [OF assms(1,2) c] pagefault_def Let_def)
qed

text \<open>A process that jumps to an unmapped page above the stack limit, with UVM refusing.\<close>

theorem trap_user_pagefault_witness:
  "trap (idle_env\<lparr>uvm_fault := (\<lambda>_ _ _ st. (14, st))\<rparr>) 20 0x70001234 [0] demo_trap =
     Ok (lwp_upd (\<lambda>l. reg_set R_R11 0x70001234 (reg_set R_R12 20 l))
       (lwp_upd (\<lambda>l. l\<lparr>l_pflag := l_pflag l AND NOT LP_SA_PAGEFAULT\<rparr>) (user_entry [0] demo_lwp demo_trap)))"
proof -
  let ?env = "idle_env\<lparr>uvm_fault := (\<lambda>_ _ _ st. (14 :: int, st))\<rparr>"
  have "curlwp demo_trap = Some demo_lwp" by (simp add: demo_trap_def)
  from trap_user_pagefault [OF this, of "[0]" 20 ?env "0x70001234" 14 "user_entry [0] demo_lwp demo_trap"]
  show ?thesis by (simp add: USERMODE_def demo_lwp_def idle_env_def deliver_def Let_def)
qed

section \<open>Causes without a handler\<close>

text \<open>
  A user process that causes any exception other than a page fault, a modified-page trap or a
  misaligned access makes the kernel panic: breakpoints, illegal opcodes, privileged instructions,
  floating point and coprocessor instructions, reads and instruction fetches of protected pages,
  bus errors. Unknown causes panic in either mode.
\<close>

theorem trap_user_panics:
  assumes "curlwp st = Some l" "USERMODE (frame ! R_SR) \<or> 41 \<le> cause"
    "cause \<notin> {T_ADDR_ERR_RD, T_ADDR_ERR_WR, T_TLB_WR_PROT, T_TLB_MOD, T_ITLB_MISS, T_TLB_LD_MISS, T_TLB_ST_MISS}"
  shows "\<exists>msg. trap env cause va frame st = Panic msg"
proof (cases "cause < 41")
  case True
  have "USERMODE (frame ! R_SR)" using assms(2) True by auto
  moreover have "\<exists>msg. trap_switch env (cause OR T_USER) va (LWP_CACHE_CREDS l) (user_entry frame l st) = Panic msg"
    using assms(3) unfolding switch_user [OF True] by simp
  ultimately show ?thesis using trap_user [OF assms(1) _ True] by auto
next
  case False
  then show ?thesis using assms(1) by (simp add: trap_def Let_def not_less)
qed

theorem trap_user_panics_witness: "\<exists>msg. trap idle_env 7 0 [0] demo_trap = Panic msg"
  by (rule trap_user_panics [of _ demo_lwp]) (simp_all add: demo_trap_def USERMODE_def)

section \<open>Kernel mode\<close>

lemma pagefault_kernel:
  assumes "type AND T_USER = 0"
  shows "pagefault env type f va l st \<noteq> Ok (Some k, t)" "pagefault env type f va l st = Ok (None, t) \<Longrightarrow>
      \<exists>st1 st2. uvm_fault env Proc_map (trunc_page va) f st1 = (0, st2)"
    "pagefault env type f va l st \<noteq> Panic ''trapsignal''"
  using assms
  by (auto simp: pagefault_def Let_def split: prod.splits if_splits)

lemma kernelfault_cases:
  "kernelfault env f va st \<noteq> Ok (Some k, t)" "kernelfault env f va st \<noteq> Panic ''trapsignal''"
  "kernelfault env f va st = Ok (None, t) \<Longrightarrow> \<exists>st1 st2. uvm_fault env Kernel_map (trunc_page va) f st1 = (0, st2)"
  by (auto simp: kernelfault_def Let_def split: prod.splits if_splits)


lemma switch_kernel:
  assumes "cause < 41"
  shows "trap_switch env cause va l st \<noteq> Ok (Some k, t)" "trap_switch env cause va l st \<noteq> Panic ''trapsignal''"
    "trap_switch env cause va l st = Ok (None, t) \<Longrightarrow> cause \<in> {T_TLB_WR_PROT, T_TLB_LD_MISS, T_TLB_ST_MISS} \<and>
       (\<exists>m f st1 st2. uvm_fault env m (trunc_page va) f st1 = (0, st2))"
proof -
  have "list_all (\<lambda>cause. list_all (\<lambda>c. cause \<noteq> c + T_USER) [2, 6, 10, 13, 14, 16, 17, 20, 24, 28 :: u32]) (map of_nat [0..<41])"
    by code_simp
  from cause_table [OF assms this]
  have k: "cause \<noteq> c + T_USER" if "c \<in> set [2, 6, 10, 13, 14, 16, 17, 20, 24, 28]" for c using that unfolding list_all_iff by blast
  note ks = k [of 2, simplified] k [of 6, simplified] k [of 10, simplified] k [of 13, simplified] k [of 14, simplified]
    k [of 16, simplified] k [of 17, simplified] k [of 20, simplified] k [of 24, simplified] k [of 28, simplified]
  have u: "cause AND T_USER = 0" using user_type [OF assms] by blast
  show "trap_switch env cause va l st \<noteq> Ok (Some k, t)" "trap_switch env cause va l st \<noteq> Panic ''trapsignal''"
    by (simp_all add: trap_switch_def Let_def ks pagefault_kernel(1,3) kernelfault_cases(1,2))
  show "cause \<in> {T_TLB_WR_PROT, T_TLB_LD_MISS, T_TLB_ST_MISS} \<and> (\<exists>m f st1 st2. uvm_fault env m (trunc_page va) f st1 = (0, st2))"
    if "trap_switch env cause va l st = Ok (None, t)"
    using that
    by (auto simp: trap_switch_def Let_def ks split: if_splits dest!: kernelfault_cases(3) pagefault_kernel(2) [rotated])
qed

text \<open>
  A trap from kernel mode never delivers a signal: the panic that guards against it at the end of
  the handler is never reached. The handler only returns to kernel code after a data access fault
  that UVM resolved; every other cause panics.
\<close>

theorem trap_kernel_no_signal:
  assumes "\<not> USERMODE (frame ! R_SR)"
  shows "trap env cause va frame st \<noteq> Panic ''trapsignal'' \<and>
    (\<forall>st'. trap env cause va frame st = Ok st' \<longrightarrow> cause \<in> {T_TLB_WR_PROT, T_TLB_LD_MISS, T_TLB_ST_MISS} \<and>
       (\<exists>m f st1 st2. uvm_fault env m (trunc_page va) f st1 = (0, st2)))"
proof (cases "curlwp st = None \<or> 41 \<le> cause")
  case True
  then show ?thesis by (auto simp: trap_def Let_def split: option.splits)
next
  case False
  then obtain l where l: "curlwp st = Some l" and c: "cause < 41" by auto
  let ?st = "st\<lparr>uvmexp_traps := uvmexp_traps st + 1, spl := frame ! R_SR AND AVR32_STATUS_IMx\<rparr>"
  let ?r = "trap_switch env cause va l ?st"
  have "trap env cause va frame st = bind_r ?r (\<lambda>(ksi, st4). case ksi of None \<Rightarrow> Ok st4
      | Some ksi \<Rightarrow> Panic ''trapsignal'')"
    using l c [folded not_le] assms user_type [OF c] by (simp add: trap_def Let_def cong: option.case_cong)
  moreover have "?r \<noteq> Panic ''trapsignal''" "\<forall>k t. ?r \<noteq> Ok (Some k, t)" using switch_kernel [OF c] by blast+
  ultimately show ?thesis
    using switch_kernel(3) [OF c, of env va l ?st]
    by (cases ?r) (auto split: option.splits)
qed

theorem trap_kernel_no_signal_witness:
  "trap idle_env 24 0xC0000010 [0x00400000] demo_trap \<noteq> Panic ''trapsignal''"
  using trap_kernel_no_signal [of "[0x00400000]"] by (simp add: USERMODE_def)

section \<open>Asynchronous traps\<close>

text \<open>
  The handler for asynchronous traps returns, with no trap pending, provided the calls it makes
  keep the current lwp and post only finitely many further traps, which \<open>posts\<close> counts down.
\<close>

theorem ast_returns:
  fixes posts :: "trap_st \<Rightarrow> nat"
  assumes "curlwp st = Some l"
    and "\<forall>st l. curlwp st = Some l \<and> md_astpending l \<noteq> 0 \<longrightarrow> (\<exists>l'. curlwp (ast_round env l st) = Some l' \<and>
       (md_astpending l' \<noteq> 0 \<longrightarrow> posts (ast_round env l st) < posts st))"
  shows "\<exists>st' l'. ast env st = Some (Ok st') \<and> curlwp st' = Some l' \<and> md_astpending l' = 0"
  using assms(1)
proof (induction "posts st" arbitrary: st l rule: less_induct)
  case less
  show ?case
  proof (cases "md_astpending l = 0")
    case True
    then show ?thesis using less.prems by (simp add: ast.simps)
  next
    case False
    let ?st = "ast_round env l st"
    obtain l' where l': "curlwp ?st = Some l'" "md_astpending l' \<noteq> 0 \<longrightarrow> posts ?st < posts st"
      using assms(2) less.prems False by blast
    have step: "ast env st = ast env ?st" using less.prems False by (subst ast.simps) simp
    show ?thesis
    proof (cases "md_astpending l' = 0")
      case True
      then show ?thesis unfolding step using l'(1) by (simp add: ast.simps)
    next
      case False
      then show ?thesis unfolding step using less.hyps [OF _ l'(1)] l'(2) by blast
    qed
  qed
qed

theorem ast_returns_witness:
  "\<exists>st' l'. ast idle_env (lwp_upd (\<lambda>l. l\<lparr>md_astpending := 1\<rparr>) demo_trap) = Some (Ok st') \<and>
     curlwp st' = Some l' \<and> md_astpending l' = 0"
  by (rule ast_returns [where posts = "\<lambda>_. 0"])
    (auto simp: lwp_upd_def demo_trap_def ast_round_def idle_env_def Let_def)

end
