(* ===== verification/Linux_Syscall.thy ===== *)
theory Linux_Syscall
  imports Linux_Signal Trap
begin

text \<open>
  System calls of Linux processes: \<open>linux_syscall_plain\<close> and \<open>linux_syscall_intern\<close> of
  \<open>arch/avr32/avr32/linux_syscall.c\<close>, and the table that translates error numbers
  (\<open>compat/linux/common/linux_errno.c\<close>). The code of the calls themselves is a parameter: the system
  call table holds, for every number, the number of arguments and the function.
\<close>

record sysent =
  sy_narg :: int
  sy_call :: "u32 list \<Rightarrow> trap_st \<Rightarrow> int \<times> (u32 \<times> u32) \<times> trap_st"

text \<open>\<open>struct emul\<close>: the call table, the index of the entry for unknown calls, the error table.\<close>

record emul =
  e_sysent :: "sysent list"
  e_nsysent :: nat
  e_nosys :: nat
  e_errno :: "int list option"

abbreviation (input) SYS_syscall :: nat where "SYS_syscall \<equiv> 0"
abbreviation (input) SYS___syscall :: nat where "SYS___syscall \<equiv> 198"
abbreviation (input) ERESTART :: int where "ERESTART \<equiv> -3"

text \<open>Entry 84 and up are numbers only Linux has.\<close>

definition native_to_linux_errno :: "int list" where
  "native_to_linux_errno =
    [0, - 1, - 2, - 3, - 4, - 5, - 6, - 7, - 8, - 9, - 10, - 35, - 12, - 13, - 14, - 15, - 16, -
     17, - 18, - 19, - 20, - 21, - 22, - 23, - 24, - 25, - 26, - 27, - 28, - 29, - 30, - 31, -
     32, - 33, - 34, - 11, - 115, - 114, - 88, - 89, - 90, - 91, - 92, - 93, - 94, - 95, - 96, -
     97, - 98, - 99, - 100, - 101, - 102, - 103, - 104, - 105, - 106, - 107, - 108, - 109, - 110,
     - 111, - 40, - 36, - 112, - 113, - 39, - 38, - 87, - 122, - 116, - 66, - 38, - 38, - 38, -
     38, - 38, - 37, - 38, - 38, - 38, - 38, - 43, - 42, - 44, - 45, - 46, - 47, - 48, - 49, -
     50, - 51, - 52, - 53, - 54, - 55, - 56, - 57, - 58, - 59, - 60, - 61, - 62, - 63, - 64, -
     65, - 67, - 68, - 69, - 70, - 71, - 72, - 73, - 74, - 75, - 76, - 77, - 78, - 79, - 80, -
     81, - 82, - 83, - 84, - 85, - 86, - 117, - 118, - 119, - 120, - 121]"

datatype md_syscall = Linux_syscall_plain | Linux_syscall_fancy

definition linux_syscall_intern :: "bool \<Rightarrow> md_syscall" where
  "linux_syscall_intern trace_is_enabled = (if trace_is_enabled then Linux_syscall_fancy else Linux_syscall_plain)"

text \<open>
  The arguments: four registers. \<open>nargs\<close> is a \<open>size_t\<close>, so that a negative count is a huge one.
\<close>

definition syscall_args :: "sysent \<Rightarrow> lwp \<Rightarrow> u32 list result" where
  "syscall_args callp l =
     (if 0 \<le> sy_narg callp \<and> sy_narg callp < 5
      then Ok [f_regs l ! R_R12, f_regs l ! R_R11, f_regs l ! R_R10, f_regs l ! R_R9]
      else Panic ''linux_syscall_plain: nargs >=5: notyet'')"

text \<open>What the process finds in R12 after the call.\<close>

definition syscall_return :: "emul \<Rightarrow> int \<Rightarrow> u32 \<times> u32 \<Rightarrow> trap_st \<Rightarrow> trap_st result" where
  "syscall_return em error rval st =
     (if error = 0
      then let st1 = lwp_upd (reg_set R_R12 (fst rval)) st
           in if fst rval \<noteq> 0 \<and> snd rval \<noteq> 0 then Panic ''linux_syscall_plain: rval[1] != 0: notyet'' else Ok st1
      else if error = ERESTART then Panic ''linux_syscall_plain: ERESTART: notyet''
      else if error = EJUSTRETURN then Ok st
      else (case e_errno em of
              None \<Rightarrow> Ok (lwp_upd (reg_set R_R12 (of_int error)) st)
            | Some tab \<Rightarrow>
                if 0 \<le> error \<and> nat error < length tab
                then Ok (lwp_upd (reg_set R_R12 (of_int (tab ! nat error))) st)
                else Undef ''errno table index out of range''))"

text \<open>
  \<open>sy_call\<close> notes the entry in \<open>l_sysent\<close> for the time of the call. \<open>KERN_SA\<close> is not configured.
\<close>

definition linux_syscall_plain :: "trap_env \<Rightarrow> emul \<Rightarrow> trap_st \<Rightarrow> trap_st result" where
  "linux_syscall_plain env em st =
     (case curlwp st of None \<Rightarrow> Undef ''no current lwp'' | Some l \<Rightarrow>
      let st1 = (lwp_upd LWP_CACHE_CREDS st)\<lparr>uvmexp_syscalls := uvmexp_syscalls st + 1\<rparr>;
          code = unat (f_regs l ! R_R8)
      in if code = SYS_syscall \<or> code = SYS___syscall then Panic ''linux_syscall_plain: SYS*syscall: not yet''
         else
           let callp = e_sysent em ! (if e_nsysent em \<le> code then e_nosys em else code)
           in bind_r (syscall_args callp l) (\<lambda>args.
              let (error, rval, st2) = sy_call callp args st1
              in bind_r (syscall_return em error rval st2) (\<lambda>st3. Ok (userret env st3))))"

definition linux_syscall :: "md_syscall \<Rightarrow> trap_env \<Rightarrow> emul \<Rightarrow> trap_st \<Rightarrow> trap_st result" where
  "linux_syscall md env em st = (case md of Linux_syscall_plain \<Rightarrow> linux_syscall_plain env em st
     | Linux_syscall_fancy \<Rightarrow> Panic ''linux_syscall_fancy: not yet'')"

end
