(* ===== verification/Linux_Syscall_Props.thy ===== *)
theory Linux_Syscall_Props
  imports Linux_Syscall Linux_Signal_Props Trap_Props
begin

text \<open>
  Properties of the system call path of Linux processes: what the process finds in its registers
  after a call that succeeds, fails or returns from a signal handler, and the calls that panic.
\<close>

section \<open>The path to a call\<close>

text \<open>The state a call starts in and the arguments it gets.\<close>

abbreviation syscall_entry :: "trap_st \<Rightarrow> trap_st" where
  "syscall_entry st \<equiv> (lwp_upd LWP_CACHE_CREDS st)\<lparr>uvmexp_syscalls := uvmexp_syscalls st + 1\<rparr>"

abbreviation reg_args :: "lwp \<Rightarrow> u32 list" where
  "reg_args l \<equiv> [f_regs l ! R_R12, f_regs l ! R_R11, f_regs l ! R_R10, f_regs l ! R_R9]"

lemma syscall_runs:
  assumes "curlwp st = Some l" "unat (f_regs l ! R_R8) = code" "code \<noteq> 0" "code \<noteq> 198" "code < e_nsysent em"
    "0 \<le> sy_narg (e_sysent em ! code)" "sy_narg (e_sysent em ! code) \<le> 4"
    "sy_call (e_sysent em ! code) (reg_args l) (syscall_entry st) = (error, rval, st2)"
  shows "linux_syscall_plain env em st = bind_r (syscall_return em error rval st2) (\<lambda>st3. Ok (userret env st3))"
  using assms by (auto simp: linux_syscall_plain_def Let_def syscall_args_def)

lemma errno_range: "list_all (\<lambda>e. - 122 \<le> e \<and> e \<le> - 1) (tl native_to_linux_errno)" "length native_to_linux_errno = 131"
  by code_simp+

lemma errno_negative:
  assumes "1 \<le> error" "error \<le> 130"
  shows "- 122 \<le> native_to_linux_errno ! nat error \<and> native_to_linux_errno ! nat error \<le> - 1"
proof -
  obtain k where k: "nat error = Suc k" "k < 130" using assms by (cases "nat error") auto
  have "tl native_to_linux_errno ! k = native_to_linux_errno ! Suc k" using errno_range(2) k(2) by (simp add: nth_tl)
  moreover have "tl native_to_linux_errno ! k \<in> set (tl native_to_linux_errno)" using k errno_range(2) by simp
  ultimately show ?thesis using errno_range(1) k(1) by (simp add: list_all_iff)
qed

lemma sint_of_int_small: "- 122 \<le> i \<Longrightarrow> i \<le> - 1 \<Longrightarrow> sint (of_int i :: u32) = i"
  by (subst int_word_sint) (simp add: mod_pos_pos_trivial)

text \<open>
  C28. A system call of a Linux process with at most four arguments passes registers R12 to R9 to the
  call and returns to the process. If the call succeeds, R12 holds its result; if it fails with a
  native error number, R12 holds a negative Linux error number between -122 and -1, as the Linux
  convention asks; every other register is as the call left it. A call with a result in both return
  registers panics.
\<close>

theorem linux_syscall_convention:
  assumes "curlwp st = Some l" "unat (f_regs l ! R_R8) = code" "code \<noteq> 0" "code \<noteq> 198" "code < e_nsysent em"
    "0 \<le> sy_narg (e_sysent em ! code)" "sy_narg (e_sysent em ! code) \<le> 4"
    "sy_call (e_sysent em ! code) (reg_args l) (syscall_entry st) = (error, rval, st2)"
    "0 \<le> error" "error \<le> 130" "e_errno em = Some native_to_linux_errno" "curlwp st2 = Some l2" "length (f_regs l2) = 17"
  shows "if error = 0 \<and> fst rval \<noteq> 0 \<and> snd rval \<noteq> 0 then \<exists>msg. linux_syscall_plain env em st = Panic msg
    else \<exists>v. linux_syscall_plain env em st = Ok (userret env (st2\<lparr>curlwp := Some (l2\<lparr>f_regs := (f_regs l2)[R_R12 := v]\<rparr>)\<rparr>)) \<and>
      (if error = 0 then v = fst rval else - 122 \<le> sint v \<and> sint v \<le> - 1)"
proof -
  note run = syscall_runs [OF assms(1-8), of env]
  show ?thesis
  proof (cases "error = 0")
    case True
    then show ?thesis using assms(12) unfolding run by (simp add: syscall_return_def Let_def lwp_upd_def reg_set_def)
  next
    case False
    let ?n = "native_to_linux_errno ! nat error"
    have "error < 131" "nat error < 131" using assms(10) by auto
    then have "linux_syscall_plain env em st = Ok (userret env (st2\<lparr>curlwp := Some (l2\<lparr>f_regs := (f_regs l2)[R_R12 := of_int ?n]\<rparr>)\<rparr>))"
      using assms(9,11,12) False unfolding run by (simp add: syscall_return_def lwp_upd_def reg_set_def errno_range(2))
    then show ?thesis using errno_negative [of error] assms(9,10) False sint_of_int_small [of ?n] by auto
  qed
qed

text \<open>A call table in which every call has one argument and fails with the error its argument names.\<close>

definition demo_emul :: emul where
  "demo_emul = \<lparr>e_sysent = replicate 512 \<lparr>sy_narg = 1, sy_call = (\<lambda>a st. (uint (hd a), (0, 0), st))\<rparr>,
     e_nsysent = 512, e_nosys = 511, e_errno = Some native_to_linux_errno\<rparr>"

theorem linux_syscall_convention_witness:
  "\<exists>v. linux_syscall_plain idle_env demo_emul demo_trap = Ok ((syscall_entry demo_trap)\<lparr>curlwp :=
      Some (demo_lwp\<lparr>f_regs := (f_regs demo_lwp)[R_R12 := v]\<rparr>)\<rparr>) \<and> sint v \<le> - 1"
proof -
  have r: "f_regs demo_lwp ! R_R8 = 8" "f_regs demo_lwp ! R_R12 = 4" by (simp_all add: demo_lwp_def)
  have c: "LWP_CACHE_CREDS demo_lwp = demo_lwp" by (simp add: demo_lwp_def LWP_CACHE_CREDS_def)
  have cur: "curlwp demo_trap = Some demo_lwp" "curlwp (syscall_entry demo_trap) = Some demo_lwp"
    by (simp_all add: demo_trap_def lwp_upd_def c)
  have call: "sy_call (e_sysent demo_emul ! 8) (reg_args demo_lwp) (syscall_entry demo_trap) = (4, (0, 0), syscall_entry demo_trap)"
    by (simp add: demo_emul_def r)
  have tab: "8 < e_nsysent demo_emul" "sy_narg (e_sysent demo_emul ! 8) = 1" "e_errno demo_emul = Some native_to_linux_errno"
    by (simp_all add: demo_emul_def)
  have "userret idle_env = (\<lambda>st. st)" by (simp add: idle_env_def)
  with linux_syscall_convention [OF cur(1) _ _ _ tab(1) _ _ call _ _ tab(3) cur(2) demo_lwp_regs(1), of idle_env] r tab(2)
  show ?thesis by auto
qed

section \<open>Return from a signal handler\<close>

text \<open>The entry of \<open>rt_sigreturn\<close> in the call table, on the memory of the process.\<close>

definition rt_sigreturn_call :: "space \<Rightarrow> u32 list \<Rightarrow> trap_st \<Rightarrow> int \<times> (u32 \<times> u32) \<times> trap_st" where
  "rt_sigreturn_call m args st = (case curlwp st of
     Some l \<Rightarrow> (case linux_sys_rt_sigreturn l m of
         Ok (Returned (error, l')) \<Rightarrow> (error, (0, 0), st\<lparr>curlwp := Some l'\<rparr>) | _ \<Rightarrow> (EJUSTRETURN, (0, 0), st))
   | None \<Rightarrow> (EJUSTRETURN, (0, 0), st))"

text \<open>
  C11. A signal handler that leaves its frame on the stack alone and returns to the restorer, which
  makes system call 68 with the stack pointer again at the frame, gets the process back to the
  interrupted state: every register but the status register, R12 included, has the value it had
  when the signal was delivered, and the signal mask is the one saved, without SIGKILL, SIGSTOP and
  the two signals Linux has no number for. What else the handler does to registers and memory does
  not matter, and the status register stays that of the system call.
\<close>

theorem linux_signal_roundtrip:
  assumes "linux_sendsig sig smask l m = Ok (Returned (h, m'))" "length (f_regs l) = 17"
    "length smask = 4" "sigs smask \<subseteq> {1..63}" "sigframe_addr l \<noteq> 0"
    and "curlwp st = Some u" "length (f_regs u) = 17" "f_regs u ! R_SP = f_regs h ! R_SP" "f_regs u ! R_R8 = 68" "p_sa u = None"
    "\<forall>a \<in> set (span (f_regs h ! R_SP) sizeof_sigframe). m'' a = m' a"
    and "e_sysent em ! 68 = \<lparr>sy_narg = 0, sy_call = rt_sigreturn_call m''\<rparr>" "68 < e_nsysent em"
  shows "\<exists>v. linux_syscall_plain env em st = Ok (userret env ((syscall_entry st)\<lparr>curlwp := Some v\<rparr>)) \<and>
    f_regs v = (f_regs l)[R_SR := f_regs u ! R_SR] \<and>
    l_sigmask v = sigminusset sigcantmask (sigdelset (sigdelset smask SIGEMT) SIGINFO)"
proof -
  let ?u = "LWP_CACHE_CREDS u"
  have cur: "curlwp (syscall_entry st) = Some ?u" using assms(6) by (simp add: lwp_upd_def)
  have sa: "p_sa ?u = None" using assms(10) by (simp add: LWP_CACHE_CREDS_def lwp_update_creds_def)
  obtain v where v: "linux_sys_rt_sigreturn ?u m'' = Ok (Returned (EJUSTRETURN, v))"
    "f_regs v = (f_regs l)[R_SR := f_regs u ! R_SR]"
    "l_sigmask v = sigminusset sigcantmask (sigdelset (sigdelset smask SIGEMT) SIGINFO)"
    using sendsig_sigreturn [OF assms(1-5) _ _ sa assms(11)] assms(7,8) by auto
  have "sy_call (e_sysent em ! 68) (reg_args u) (syscall_entry st) = (EJUSTRETURN, (0, 0), (syscall_entry st)\<lparr>curlwp := Some v\<rparr>)"
    using cur v(1) assms(12) by (simp add: rt_sigreturn_call_def)
  from syscall_runs [OF assms(6) _ _ _ assms(13) _ _ this, of env] assms(9,12) v(2,3) show ?thesis
    by (intro exI [of _ v]) (simp add: syscall_return_def)
qed

theorem linux_signal_roundtrip_witness:
  "\<exists>h m' v. linux_sendsig 2 [1, 0, 0, 0] demo_lwp (\<lambda>_. Some 0) = Ok (Returned (h, m')) \<and>
     linux_syscall_plain idle_env (demo_emul\<lparr>e_sysent := replicate 512 \<lparr>sy_narg = 0, sy_call = rt_sigreturn_call m'\<rparr>\<rparr>)
       (demo_trap\<lparr>curlwp := Some (reg_set R_R8 68 h)\<rparr>) = Ok v \<and> map_option f_regs (curlwp v) = Some (f_regs demo_lwp)"
proof -
  obtain h m' where s: "linux_sendsig 2 [1, 0, 0, 0] demo_lwp (\<lambda>_. Some 0) = Ok (Returned (h, m'))"
    using demo_sendsig by blast
  have "list_all (\<lambda>n. sigismember [1, 0, 0, 0] n \<longrightarrow> n \<le> 63) [1..<129]" by code_simp
  then have m: "sigs [1, 0, 0, 0] \<subseteq> {1..63}" unfolding sigs_list list_all_iff by auto
  have h: "length (f_regs h) = 17" "p_sa h = None" "f_regs h ! R_SR = f_regs demo_lwp ! R_SR"
    using linux_sendsig_returns [OF s] by (auto simp: demo_lwp_def sendsig_reset_def)
  let ?u = "reg_set R_R8 68 h"
  let ?em = "demo_emul\<lparr>e_sysent := replicate 512 \<lparr>sy_narg = 0, sy_call = rt_sigreturn_call m'\<rparr>\<rparr>"
  have u: "length (f_regs ?u) = 17" "f_regs ?u ! R_SP = f_regs h ! R_SP" "f_regs ?u ! R_R8 = 68" "p_sa ?u = None"
    "f_regs ?u ! R_SR = f_regs demo_lwp ! R_SR"
    using h by (simp_all add: reg_set_def)
  have "sigframe_addr demo_lwp \<noteq> 0" by (simp add: demo_lwp_regs)
  from linux_signal_roundtrip [OF s demo_lwp_regs(1) _ m this _ u(1-4), of "demo_trap\<lparr>curlwp := Some ?u\<rparr>" m' ?em idle_env] s u(5)
  show ?thesis by (fastforce simp: demo_emul_def idle_env_def)
qed

text \<open>
  The error table predates the native numbers 84 to 96: their slots hold Linux-only errors, so that
  EOVERFLOW (84) reaches a Linux process as ECHRNG (44) and not as Linux's EOVERFLOW (75).
\<close>

lemma errno_overflow_is_echrng: "native_to_linux_errno ! 84 = - 44 \<and> native_to_linux_errno ! 96 = - 56"
  by code_simp

text \<open>
  Three kinds of system call panic before the call runs, whoever makes them: numbers 0 and 198,
  which are the indirect calls of NetBSD, and every call with more than four arguments.
\<close>

theorem linux_syscall_panics:
  assumes "curlwp st = Some l" "unat (f_regs l ! R_R8) = code" "code < e_nsysent em"
    "code = 0 \<or> code = 198 \<or> 4 < sy_narg (e_sysent em ! code)"
  shows "\<exists>msg. linux_syscall md env em st = Panic msg"
  using assms by (auto simp: linux_syscall_def linux_syscall_plain_def syscall_args_def Let_def split: md_syscall.splits)

theorem linux_syscall_panics_witness:
  "\<exists>msg. linux_syscall Linux_syscall_plain idle_env
     (demo_emul\<lparr>e_sysent := replicate 512 \<lparr>sy_narg = 6, sy_call = (\<lambda>a st. (0, (0, 0), st))\<rparr>\<rparr>) demo_trap = Panic msg"
  by (rule linux_syscall_panics [of _ demo_lwp 8]) (simp_all add: demo_trap_def demo_lwp_def demo_emul_def)

end
