(* ===== verification/Qdivrem.thy ===== *)
theory Qdivrem
  imports Prelude
begin

text \<open>
  64-bit division on a 32-bit machine (\<open>common/lib/libc/quad/qdivrem.c\<close>): Algorithm D of Knuth, volume 2,
  on digits of 16 bits. The arrays \<open>uspace\<close>, \<open>vspace\<close> and \<open>qspace\<close> are lists of five digits; the pointers
  \<open>u\<close>, \<open>v\<close> and \<open>q\<close> into them are offsets. Intermediate values are \<open>u_int\<close>, 32-bit words that wrap.
\<close>

section \<open>Digits\<close>

abbreviation (input) HALF_BITS :: nat where "HALF_BITS \<equiv> 16"
abbreviation (input) B :: u32 where "B \<equiv> 0x10000"

definition HHALF :: "u32 \<Rightarrow> u32" where
  "HHALF x = drop_bit HALF_BITS x"

definition LHALF :: "u32 \<Rightarrow> u32" where
  "LHALF x = x AND 0xffff"

definition COMBINE :: "u32 \<Rightarrow> u32 \<Rightarrow> u32" where
  "COMBINE a b = push_bit HALF_BITS a OR b"

text \<open>A digit read as \<open>u_int\<close>; a \<open>u_int\<close> cut to a digit; the two words of a quad.\<close>

definition rd :: "u16 list \<Rightarrow> nat \<Rightarrow> u32" where
  "rd p i = ucast (p ! i)"

abbreviation digit :: "u32 \<Rightarrow> u16" where
  "digit x \<equiv> ucast x"

definition ul_H :: "u64 \<Rightarrow> u32" where
  "ul_H q = ucast (drop_bit 32 q)"

definition ul_L :: "u64 \<Rightarrow> u32" where
  "ul_L q = ucast q"

definition uu_q :: "u32 \<Rightarrow> u32 \<Rightarrow> u64" where
  "uu_q h l = push_bit 32 (ucast h) OR ucast l"

definition digits_of :: "u64 \<Rightarrow> u16 list" where
  "digits_of q = [0, digit (HHALF (ul_H q)), digit (LHALF (ul_H q)), digit (HHALF (ul_L q)), digit (LHALF (ul_L q))]"

definition quad_of :: "u16 list \<Rightarrow> u64" where
  "quad_of p = uu_q (COMBINE (rd p 1) (rd p 2)) (COMBINE (rd p 3) (rd p 4))"

section \<open>The one-digit divisor\<close>

definition qdiv_short :: "u16 list \<Rightarrow> u32 \<Rightarrow> u64 \<times> u64" where
  "qdiv_short u t =
     (let q1 = digit (rd u 1 div t);
          rbj = COMBINE (rd u 1 mod t) (rd u 2);
          q2 = digit (rbj div t);
          rbj = COMBINE (rbj mod t) (rd u 3);
          q3 = digit (rbj div t);
          rbj = COMBINE (rbj mod t) (rd u 4);
          q4 = digit (rbj div t)
      in (uu_q (COMBINE (ucast q1) (ucast q2)) (COMBINE (ucast q3) (ucast q4)), ucast (rbj mod t)))"

section \<open>Leading zeros and normalization\<close>

text \<open>\<open>for (n = 4; v[1] == 0; v++) if (--n == 1)\<close>: the offset of \<open>v\<close> and \<open>n\<close>; \<open>n = 1\<close> is the short division.\<close>

fun vscan :: "u16 list \<Rightarrow> nat \<Rightarrow> nat \<Rightarrow> nat \<times> nat" where
  "vscan vs v 0 = (v, 0)"
| "vscan vs v (Suc n) = (if vs ! (v + 1) = 0 then if n = 1 then (v, 1) else vscan vs (v + 1) n else (v, Suc n))"

text \<open>\<open>for (m = 4 - n; u[1] == 0; u++) m--;\<close>\<close>

function uscan :: "u16 list \<Rightarrow> nat \<Rightarrow> int \<Rightarrow> (nat \<times> int) result" where
  "uscan us u m = (if length us \<le> u + 1 then Undef ''u[1] out of bounds''
     else if us ! (u + 1) = 0 then uscan us (u + 1) (m - 1) else Ok (u, m))"
  by pat_completeness auto
termination
  by (relation "measure (\<lambda>(us, u, m). length us - u)") auto

declare uscan.simps [simp del]

text \<open>\<open>for (t = v[1]; t < B / 2; t <<= 1) d++;\<close>\<close>

function norm_shift :: "u32 \<Rightarrow> nat \<Rightarrow> nat result" where
  "norm_shift t d = (if 0x8000 \<le> t then Ok d else if t = 0 then Hang else norm_shift (push_bit 1 t) (d + 1))"
  by pat_completeness auto
termination
proof (relation "measure (\<lambda>(t, d). 32768 - unat t)", goal_cases)
  case (2 t d)
  then have t: "unat t < 32768" "unat t \<noteq> 0" by (simp_all add: word_le_nat_alt unat_eq_zero)
  then have "unat (push_bit 1 t) = 2 * unat t" by (simp add: push_bit_eq_mult unat_word_ariths)
  with t show ?case by simp
qed simp

declare norm_shift.simps [simp del]

definition shl :: "u16 list \<Rightarrow> nat \<Rightarrow> nat \<Rightarrow> nat \<Rightarrow> u16 list" where
  "shl p a len sh =
     (let p = fold (\<lambda>i p. p[a + i := digit (LHALF (push_bit sh (rd p (a + i))) OR
                                           drop_bit (HALF_BITS - sh) (rd p (a + i + 1)))]) [0..<len] p
      in p[a + len := digit (LHALF (push_bit sh (rd p (a + len))))])"

section \<open>One quotient digit\<close>

text \<open>D3, the loop that lowers \<open>qhat\<close>; it ends because \<open>qhat\<close> is not 0 when its condition holds.\<close>

function qhat_loop :: "u32 \<Rightarrow> u32 \<Rightarrow> u32 \<Rightarrow> u32 \<Rightarrow> u32 \<Rightarrow> u32" where
  "qhat_loop v1 v2 uj2 qhat rhat =
     (if COMBINE rhat uj2 < v2 * qhat
      then if B \<le> rhat + v1 then qhat - 1 else qhat_loop v1 v2 uj2 (qhat - 1) (rhat + v1)
      else qhat)"
  by pat_completeness auto
termination
proof (relation "measure (\<lambda>(v1, v2, uj2, qhat, rhat). unat qhat)", goal_cases)
  case (2 v1 v2 uj2 qhat rhat)
  then have "qhat \<noteq> 0" by auto
  then have "0 < unat qhat" by (simp add: unat_gt_0)
  then have "unat (qhat - 1) = unat qhat - 1" by (simp add: unat_sub_if_size)
  with \<open>0 < unat qhat\<close> show ?case by simp
qed simp

declare qhat_loop.simps [simp del]

definition qhat_of :: "u32 \<Rightarrow> u32 \<Rightarrow> u32 \<Rightarrow> u32 \<Rightarrow> u32 \<Rightarrow> u32" where
  "qhat_of v1 v2 uj0 uj1 uj2 =
     (if uj0 = v1
      then if B \<le> uj1 + v1 then B - 1 else qhat_loop v1 v2 uj2 (B - 1) (uj1 + v1)
      else let nn = COMBINE uj0 uj1 in qhat_loop v1 v2 uj2 (nn div v1) (nn mod v1))"

text \<open>D4, multiply and subtract, from digit \<open>i\<close> up; \<open>t\<close> is the borrow.\<close>

primrec mulsub :: "u16 list \<Rightarrow> nat \<Rightarrow> u16 list \<Rightarrow> nat \<Rightarrow> u32 \<Rightarrow> nat \<Rightarrow> u32 \<Rightarrow> u16 list \<times> u32" where
  "mulsub vs v us uj qhat 0 t = (us, t)"
| "mulsub vs v us uj qhat (Suc i) t =
     (let x = rd us (uj + Suc i) - rd vs (v + Suc i) * qhat - t
      in mulsub vs v (us[uj + Suc i := digit (LHALF x)]) uj qhat i ((B - HHALF x) AND (B - 1)))"

text \<open>D6, add back.\<close>

primrec addback :: "u16 list \<Rightarrow> nat \<Rightarrow> u16 list \<Rightarrow> nat \<Rightarrow> nat \<Rightarrow> u32 \<Rightarrow> u16 list \<times> u32" where
  "addback vs v us uj 0 t = (us, t)"
| "addback vs v us uj (Suc i) t =
     (let x = t + (rd us (uj + Suc i) + rd vs (v + Suc i))
      in addback vs v (us[uj + Suc i := digit (LHALF x)]) uj i (HHALF x))"

definition div_step :: "u16 list \<Rightarrow> nat \<Rightarrow> nat \<Rightarrow> nat \<Rightarrow> nat \<Rightarrow> nat \<Rightarrow> u16 list \<times> u16 list \<Rightarrow> u16 list \<times> u16 list" where
  "div_step vs v u q n j s =
     (let (us, qs) = s;
          uj = u + j;
          qhat = qhat_of (rd vs (v + 1)) (rd vs (v + 2)) (rd us uj) (rd us (uj + 1)) (rd us (uj + 2));
          (us, t) = mulsub vs v us uj qhat n 0;
          t = rd us uj - t;
          us = us[uj := digit (LHALF t)]
      in if HHALF t \<noteq> 0
         then let qhat = qhat - 1;
                  (us, t) = addback vs v us uj n 0;
                  us = us[uj := digit (LHALF (rd us uj + t))]
              in (us, qs[q + j := digit qhat])
         else (us, qs[q + j := digit qhat]))"

text \<open>\<open>for (i = m + n; i > m; --i)\<close> and \<open>u[i] = 0\<close>: the remainder is shifted back.\<close>

definition unshift :: "u16 list \<Rightarrow> nat \<Rightarrow> nat \<Rightarrow> nat \<Rightarrow> nat \<Rightarrow> u16 list" where
  "unshift us u m n d =
     (let us = fold (\<lambda>i us. us[u + i := digit (drop_bit d (rd us (u + i)) OR
                       LHALF (push_bit (HALF_BITS - d) (rd us (u + i - 1))))]) (rev [m + 1..<m + n + 1]) us
      in us[u + m := 0])"

section \<open>Division\<close>

text \<open>
  Quotient and, when the caller wants it, remainder. \<open>1 / zero\<close> is undefined behaviour in C. Digits of
  \<open>qspace\<close> and \<open>vspace[0]\<close> that the code leaves uninitialized are 0 here; none of them is read.
\<close>

definition qdivrem_long :: "u16 list \<Rightarrow> u16 list \<Rightarrow> nat \<Rightarrow> nat \<Rightarrow> bool \<Rightarrow> (u64 \<times> u64 option) result" where
  "qdivrem_long us vs v n arq =
     bind_r (uscan us 0 (4 - int n)) (\<lambda>(u, mi).
       let m = nat mi;
           qs = fold (\<lambda>i qs. qs[i := 0]) (rev [0..<4 - m]) (replicate 5 0);
           q = 4 - m
       in bind_r (norm_shift (rd vs (v + 1)) 0) (\<lambda>d.
            let us = (if 0 < d then shl us u (m + n) d else us);
                vs = (if 0 < d then shl vs (v + 1) (n - 1) d else vs);
                (us, qs) = fold (div_step vs v u q n) [0..<m + 1] (us, qs)
            in Ok (quad_of qs,
                   if arq then Some (quad_of (if 0 < d then unshift us u m n d else us)) else None)))"

definition qdivrem :: "u64 \<Rightarrow> u64 \<Rightarrow> bool \<Rightarrow> (u64 \<times> u64 option) result" where
  "qdivrem uq vq arq =
     (if vq = 0 then Undef ''division by zero''
      else if uq < vq then Ok (0, if arq then Some uq else None)
      else
        let us = digits_of uq; vs = digits_of vq; (v, n) = vscan vs 0 4
        in if n = 1
           then let (q, r) = qdiv_short us (rd vs (v + 2)) in Ok (q, if arq then Some r else None)
           else qdivrem_long us vs v n arq)"

end
