(* ===== verification/Qdivrem_Digits.thy ===== *)
theory Qdivrem_Digits
  imports Qdivrem
begin

text \<open>
  The digit arithmetic behind 64-bit division: what the word operations on digits compute as
  integers, the value of a run of digits, and the specifications of the
  loops that multiply and subtract and that add back.
\<close>

section \<open>Words and digits\<close>

lemma unat_bound16: "unat (b :: u16) < 65536"
  using unsigned_less [of b] by simp

lemma unat_HHALF: "unat (HHALF x) = unat x div 65536"
  unfolding HHALF_def by (simp add: drop_bit_eq_div unat_div)

lemma unat_low16: "unat (take_bit 16 (x :: u32)) = unat x mod 65536"
  by (simp add: take_bit_eq_mod unat_mod)

lemma and_low16: "x AND 0xffff = take_bit 16 (x :: u32)"
  unfolding take_bit_eq_mask by (simp add: mask_eq_exp_minus_1)

lemma unat_LHALF: "unat (LHALF x) = unat x mod 65536"
  by (simp add: LHALF_def and_low16 unat_low16)

lemma unat_rd: "unat (rd p i) = unat (p ! i)"
  using unat_bound16 [of "p ! i"] by (simp add: rd_def unsigned_ucast_eq take_bit_nat_eq_self)

lemma rd_bound: "unat (rd p i) < 65536"
  by (simp add: unat_rd unat_bound16)

lemma unat_digit: "unat (digit x) = unat x mod 65536"
  by (simp add: unsigned_ucast_eq take_bit_eq_mod)

lemma no_high_bit:
  fixes b :: u32
  assumes "unat b < 65536" "16 \<le> n"
  shows "\<not> bit b n"
proof -
  have "take_bit 16 b = b" using assms(1) by (simp add: take_bit_eq_mod word_unat_eq_iff unat_mod)
  then have "bit b n = (n < 16 \<and> bit b n)" by (metis bit_take_bit_iff)
  then show ?thesis using assms(2) by simp
qed

lemma unat_or_disjoint: "a AND b = 0 \<Longrightarrow> unat a + unat b < 4294967296 \<Longrightarrow> unat (a OR b) = unat a + unat (b :: u32)"
  using disjunctive_add_eq_or [of a b, symmetric] by (simp add: unat_word_ariths)

lemma unat_COMBINE:
  assumes "unat a < 65536" "unat b < 65536"
  shows "unat (COMBINE a b) = unat a * 65536 + unat b"
proof -
  have "push_bit 16 a AND b = 0"
  proof (rule bit_word_eqI)
    fix n
    show "bit (push_bit 16 a AND b) n = bit (0 :: u32) n"
      using no_high_bit [OF assms(2), of n] by (auto simp: bit_simps)
  qed
  moreover have "unat (push_bit 16 a) = unat a * 65536" using assms(1) by (simp add: push_bit_eq_mult unat_word_ariths)
  ultimately show ?thesis using assms unfolding COMBINE_def by (simp add: unat_or_disjoint)
qed

section \<open>Runs of digits\<close>

text \<open>The value of the \<open>k\<close> digits from index \<open>a\<close> on, the first one most significant.\<close>

primrec dval :: "u16 list \<Rightarrow> nat \<Rightarrow> nat \<Rightarrow> nat" where
  "dval p a 0 = 0"
| "dval p a (Suc k) = dval p a k * 65536 + unat (p ! (a + k))"

lemma dval_less: "dval p a k < 65536 ^ k"
proof (induction k)
  case (Suc k)
  have "dval p a k * 65536 + unat (p ! (a + k)) < (dval p a k + 1) * 65536" using unat_bound16 [of "p ! (a + k)"] by simp
  also have "\<dots> \<le> 65536 ^ k * 65536" using Suc.IH by (intro mult_le_mono1) simp
  finally show ?case by (simp add: mult.commute)
qed simp

lemma dval_cong: "(\<And>i. a \<le> i \<Longrightarrow> i < a + k \<Longrightarrow> p ! i = p' ! i) \<Longrightarrow> dval p a k = dval p' a k"
  by (induction k) auto

lemma dval_update [simp]: "i < a \<or> a + k \<le> i \<Longrightarrow> dval (p[i := x]) a k = dval p a k"
  by (rule dval_cong) auto

lemma dval_append: "dval p a (k + l) = dval p a k * 65536 ^ l + dval p (a + k) l"
  by (induction l) (simp_all add: algebra_simps)

lemma dval_first: "dval p a (Suc k) = unat (p ! a) * 65536 ^ k + dval p (a + 1) k"
  using dval_append [of p a 1 k] by simp

section \<open>Multiply and subtract, add back\<close>

lemma borrow_step:
  fixes u v q t :: u32
  assumes b: "unat u < 65536" "unat v < 65536" "unat q < 65536" "unat t < 65536"
  defines "z \<equiv> int (unat u) - int (unat v) * int (unat q) - int (unat t)" and "x \<equiv> u - v * q - t"
  shows "int (unat (LHALF x)) = z mod 65536" "int (unat ((B - HHALF x) AND (B - 1))) = - (z div 65536)"
proof -
  have ux: "int (unat x) = z mod 4294967296"
    unfolding x_def z_def by (simp add: uint_word_ariths mod_simps flip: uint_nat)
  have vq: "unat v * unat q \<le> 65535 * 65535" using b(2,3) by (intro mult_le_mono) simp_all
  have z: "- (65535 * 65536) \<le> z" "z < 65536"
    using b(1,4) vq unfolding z_def by (simp_all only: of_nat_mult [symmetric])
  show "int (unat (LHALF x)) = z mod 65536"
    unfolding unat_LHALF zmod_int ux by (simp add: mod_mod_cancel)
  have m: "unat ((B - HHALF x) AND (B - 1)) = unat (B - HHALF x) mod 65536"
    by (simp add: and_low16 unat_low16)
  have "int (unat ((B - HHALF x) AND (B - 1))) = - (z div 65536)"
  proof (cases "0 \<le> z")
    case True
    then have "int (unat x) = z" unfolding ux using z by simp
    then have "unat x < 65536" using z by linarith
    then have "HHALF x = 0" using unat_HHALF [of x] by (simp add: unat_eq_zero)
    then show ?thesis using True z by (simp add: div_pos_pos_trivial)
  next
    case False
    then have "z mod 4294967296 = z + 4294967296"
      using z mod_pos_pos_trivial [of "z + 4294967296" 4294967296] by simp
    then have "int (unat (HHALF x)) = (z + 4294967296) div 65536" unfolding unat_HHALF zdiv_int ux by simp
    also have "\<dots> = z div 65536 + 65536" by simp
    finally have h: "int (unat (HHALF x)) = z div 65536 + 65536" .
    have r: "- 65535 \<le> z div 65536" "z div 65536 \<le> - 1"
      using zdiv_mono1 [OF z(1), of 65536] zdiv_mono1 [of z "-1" 65536] False by simp_all
    have "unat (HHALF x) \<le> 65536" using h r by linarith
    then have "unat (B - HHALF x) = 65536 - unat (HHALF x)" by (simp add: unat_sub word_le_nat_alt)
    then have "int (unat (B - HHALF x)) = - (z div 65536)" using h r by linarith
    then show ?thesis using r unfolding m zmod_int by simp
  qed
  then show "int (unat ((B - HHALF x) AND (B - 1))) = - (z div 65536)" .
qed

lemma mulsub_spec:
  assumes "mulsub vs v us uj qhat i t = (us', t')" "uj + i < length us" "unat qhat < 65536" "unat t < 65536"
  shows "int (dval us' (uj + 1) i) - int (unat t') * 65536 ^ i =
           int (dval us (uj + 1) i) - int (unat qhat) * int (dval vs (v + 1) i) - int (unat t)
         \<and> unat t' < 65536 \<and> length us' = length us
         \<and> (\<forall>k. k \<le> uj \<or> uj + i < k \<longrightarrow> us' ! k = us ! k)"
  using assms
proof (induction i arbitrary: us t)
  case (Suc i)
  define x where "x = rd us (uj + Suc i) - rd vs (v + Suc i) * qhat - t"
  define z where "z = int (unat (us ! (uj + Suc i))) - int (unat (vs ! (v + Suc i))) * int (unat qhat) - int (unat t)"
  define us1 where "us1 = us[uj + Suc i := digit (LHALF x)]"
  define t1 where "t1 = (B - HHALF x) AND (B - 1)"
  have lo: "int (unat (LHALF x)) = z mod 65536" and hi: "int (unat t1) = - (z div 65536)"
    using borrow_step [OF rd_bound rd_bound Suc.prems(3,4), of us "uj + Suc i" vs "v + Suc i"]
    unfolding x_def z_def t1_def unat_rd by blast+
  have t1: "unat t1 < 65536" unfolding t1_def by (simp add: and_low16 unat_low16)
  have run: "mulsub vs v us1 uj qhat i t1 = (us', t')"
    using Suc.prems(1) unfolding x_def us1_def t1_def by (simp add: Let_def)
  have IH: "int (dval us' (uj + 1) i) - int (unat t') * 65536 ^ i =
       int (dval us (uj + 1) i) - int (unat qhat) * int (dval vs (v + 1) i) - int (unat t1)"
     "unat t' < 65536" "length us' = length us" "\<And>k. k \<le> uj \<or> uj + i < k \<Longrightarrow> us' ! k = us1 ! k"
    using Suc.IH [OF run _ Suc.prems(3) t1] Suc.prems(2) by (auto simp: us1_def)
  have "us' ! (uj + Suc i) = digit (LHALF x)" using IH(4) [of "uj + Suc i"] Suc.prems(2) by (simp add: us1_def)
  then have d: "int (unat (us' ! (uj + Suc i))) = z mod 65536"
    by (simp add: unat_digit unat_LHALF flip: lo)
  have zz: "z mod 65536 = z + 65536 * int (unat t1)" using hi minus_div_mult_eq_mod [of z 65536] by simp
  have "int (dval us' (uj + 1) (Suc i)) - int (unat t') * 65536 ^ Suc i
      = (int (dval us' (uj + 1) i) - int (unat t') * 65536 ^ i) * 65536 + (z + 65536 * int (unat t1))"
    using d zz by (simp add: algebra_simps)
  also have "\<dots> = (int (dval us (uj + 1) i) - int (unat qhat) * int (dval vs (v + 1) i)) * 65536 + z"
    unfolding IH(1) by (simp add: algebra_simps)
  also have "\<dots> = int (dval us (uj + 1) (Suc i)) - int (unat qhat) * int (dval vs (v + 1) (Suc i)) - int (unat t)"
    by (simp add: z_def algebra_simps)
  finally show ?case using IH(2-4) by (auto simp: us1_def)
qed auto

lemma addback_spec:
  assumes "addback vs v us uj i t = (us', t')" "uj + i < length us" "unat t \<le> 1"
  shows "dval us' (uj + 1) i + unat t' * 65536 ^ i = dval us (uj + 1) i + dval vs (v + 1) i + unat t
         \<and> unat t' \<le> 1 \<and> length us' = length us
         \<and> (\<forall>k. k \<le> uj \<or> uj + i < k \<longrightarrow> us' ! k = us ! k)"
  using assms
proof (induction i arbitrary: us t)
  case (Suc i)
  define x where "x = t + (rd us (uj + Suc i) + rd vs (v + Suc i))"
  define z where "z = unat t + unat (us ! (uj + Suc i)) + unat (vs ! (v + Suc i))"
  define us1 where "us1 = us[uj + Suc i := digit (LHALF x)]"
  have "unat x = z" "z < 2 * 65536"
    using Suc.prems(3) unat_bound16 [of "us ! (uj + Suc i)"] unat_bound16 [of "vs ! (v + Suc i)"]
    unfolding x_def z_def by (simp_all add: unat_word_ariths unat_rd)
  then have lo: "unat (LHALF x) = z mod 65536" and hi: "unat (HHALF x) = z div 65536" "unat (HHALF x) \<le> 1"
    by (simp_all add: unat_LHALF unat_HHALF)
  have run: "addback vs v us1 uj i (HHALF x) = (us', t')"
    using Suc.prems(1) unfolding x_def us1_def by (simp add: Let_def)
  have IH: "dval us' (uj + 1) i + unat t' * 65536 ^ i = dval us (uj + 1) i + dval vs (v + 1) i + unat (HHALF x)"
     "unat t' \<le> 1" "length us' = length us" "\<And>k. k \<le> uj \<or> uj + i < k \<Longrightarrow> us' ! k = us1 ! k"
    using Suc.IH [OF run _ hi(2)] Suc.prems(2) by (auto simp: us1_def)
  have "us' ! (uj + Suc i) = digit (LHALF x)" using IH(4) [of "uj + Suc i"] Suc.prems(2) by (simp add: us1_def)
  then have d: "unat (us' ! (uj + Suc i)) = z mod 65536"
    by (simp add: unat_digit unat_LHALF flip: lo)
  have "dval us' (uj + 1) (Suc i) + unat t' * 65536 ^ Suc i
      = (dval us' (uj + 1) i + unat t' * 65536 ^ i) * 65536 + z mod 65536"
    using d by (simp add: algebra_simps)
  also have "\<dots> = (dval us (uj + 1) i + dval vs (v + 1) i) * 65536 + (z div 65536 * 65536 + z mod 65536)"
    unfolding IH(1) hi(1) by (simp only: algebra_simps)
  also have "\<dots> = dval us (uj + 1) (Suc i) + dval vs (v + 1) (Suc i) + unat t"
    unfolding div_mult_mod_eq by (simp add: z_def algebra_simps)
  finally show ?case using IH(2-4) by (auto simp: us1_def)
qed auto

end
