(* ===== verification/Qdivrem_Trial.thy ===== *)
theory Qdivrem_Trial
  imports Qdivrem_Digits
begin

text \<open>
  The trial digit of Algorithm D: the loop that lowers \<open>qhat\<close> ends at the quotient of the three leading digits by the
  two leading ones, which is the true digit or one more.
\<close>

section \<open>The quotient digit\<close>

text \<open>The loop lowers \<open>qhat\<close> to the quotient of the three leading digits by the two leading ones.\<close>

lemma trial_less_iff:
  fixes v1 :: nat
  assumes "0 < v1"
  shows "rhat * 65536 + u2 < v2 * qhat \<longleftrightarrow> ((rhat + qhat * v1) * 65536 + u2) div (v1 * 65536 + v2) < qhat"
proof -
  have "((rhat + qhat * v1) * 65536 + u2) div (v1 * 65536 + v2) < qhat
      \<longleftrightarrow> (rhat + qhat * v1) * 65536 + u2 < qhat * (v1 * 65536 + v2)"
    using assms by (simp add: div_less_iff_less_mult)
  also have "\<dots> \<longleftrightarrow> rhat * 65536 + u2 < v2 * qhat" by (simp add: algebra_simps)
  finally show ?thesis by simp
qed

lemma trial_large:
  fixes v1 :: nat
  assumes "0 < v1" "65536 \<le> rhat" "qhat < 65536" "v2 < 65536"
  shows "qhat \<le> ((rhat + qhat * v1) * 65536 + u2) div (v1 * 65536 + v2)"
proof -
  have "v2 * qhat \<le> 65536 * 65536" using assms(3,4) by (intro mult_le_mono) simp_all
  also have "\<dots> \<le> rhat * 65536 + u2" using assms(2) by simp
  finally show ?thesis using trial_less_iff [OF assms(1), of rhat u2 v2 qhat] by simp
qed

lemma unat_mult16: "unat (a :: u32) < 65536 \<Longrightarrow> unat b < 65536 \<Longrightarrow> unat (a * b) = unat a * unat b"
proof -
  assume "unat a < 65536" "unat b < 65536"
  then have "unat a * unat b < 65536 * 65536" by (intro mult_strict_mono) simp_all
  then show ?thesis by (simp add: unat_word_ariths)
qed

lemma qhat_loop_spec:
  assumes "unat v1 < 65536" "unat v2 < 65536" "unat uj2 < 65536" "0 < unat v1"
    and "unat qhat < 65536" "unat rhat < 65536"
  shows "unat (qhat_loop v1 v2 uj2 qhat rhat) =
         min (unat qhat) (((unat rhat + unat qhat * unat v1) * 65536 + unat uj2) div (unat v1 * 65536 + unat v2))"
  using assms
proof (induction v1 v2 uj2 qhat rhat rule: qhat_loop.induct)
  case (1 v1 v2 uj2 qhat rhat)
  let ?t = "\<lambda>r q. ((r + q * unat v1) * 65536 + unat uj2) div (unat v1 * 65536 + unat v2)"
  have c: "COMBINE rhat uj2 < v2 * qhat \<longleftrightarrow> ?t (unat rhat) (unat qhat) < unat qhat"
    unfolding word_less_nat_alt unat_COMBINE [OF 1(7,4)] unat_mult16 [OF 1(3,6)]
    by (rule trial_less_iff [OF 1(5)])
  show ?case
  proof (cases "COMBINE rhat uj2 < v2 * qhat")
    case True
    then have lt: "?t (unat rhat) (unat qhat) < unat qhat" using c by simp
    then have "qhat \<noteq> 0" by auto
    then have q1: "unat (qhat - 1) = unat qhat - 1" "0 < unat qhat" by (simp_all add: unat_minus_one unat_gt_0)
    have r1: "unat (rhat + v1) = unat rhat + unat v1" using 1(2,7) by (simp add: unat_word_ariths)
    have eq: "unat (rhat + v1) + unat (qhat - 1) * unat v1 = unat rhat + unat qhat * unat v1"
      unfolding r1 q1 using q1(2) by (cases "unat qhat") simp_all
    show ?thesis
    proof (cases "B \<le> rhat + v1")
      case True
      then have "65536 \<le> unat (rhat + v1)" by (simp add: word_le_nat_alt)
      then have "unat (qhat - 1) \<le> ?t (unat (rhat + v1)) (unat (qhat - 1))"
        using 1(3,5,6) q1(1) by (intro trial_large) simp_all
      then have "unat (qhat - 1) \<le> ?t (unat rhat) (unat qhat)" unfolding eq .
      then have "min (unat qhat) (?t (unat rhat) (unat qhat)) = unat (qhat - 1)" using lt q1 by linarith
      then show ?thesis using \<open>COMBINE rhat uj2 < v2 * qhat\<close> True by (simp add: qhat_loop.simps [of v1])
    next
      case False
      then have "unat (rhat + v1) < 65536" by (simp add: word_le_nat_alt)
      then have "unat (qhat_loop v1 v2 uj2 (qhat - 1) (rhat + v1)) =
          min (unat (qhat - 1)) (?t (unat (rhat + v1)) (unat (qhat - 1)))"
        using 1(1) [OF \<open>COMBINE rhat uj2 < v2 * qhat\<close> False 1(2-5)] 1(6) q1 by simp
      also have "\<dots> = min (unat (qhat - 1)) (?t (unat rhat) (unat qhat))" unfolding eq ..
      also have "\<dots> = min (unat qhat) (?t (unat rhat) (unat qhat))" using lt q1 by linarith
      finally show ?thesis using \<open>COMBINE rhat uj2 < v2 * qhat\<close> False
        by (simp add: qhat_loop.simps [of v1 v2 uj2 qhat rhat])
    qed
  next
    case False
    then show ?thesis using c by (simp add: qhat_loop.simps [of v1] min_def)
  qed
qed

lemma lead_div_le: "((u0 * 65536 + u1) * 65536 + u2) div (v1 * 65536 + v2) \<le> (u0 * 65536 + u1) div (v1 :: nat)"
  if "0 < v1" "u2 < 65536"
proof -
  have "((u0 * 65536 + u1) * 65536 + u2) div (v1 * 65536 + v2) \<le> ((u0 * 65536 + u1) * 65536 + u2) div (65536 * v1)"
    using that by (intro div_le_mono2) simp_all
  also have "\<dots> = ((u0 * 65536 + u1) * 65536 + u2) div 65536 div v1" by (rule div_mult2_eq)
  also have "((u0 * 65536 + u1) * 65536 + u2) div 65536 = u0 * 65536 + u1" using that(2) by (simp only: div_mult_self3)
  finally show ?thesis .
qed

lemma qhat_of_spec:
  assumes b: "unat v1 < 65536" "unat v2 < 65536" "unat u0 < 65536" "unat u1 < 65536" "unat u2 < 65536"
    and v1: "0 < unat v1" and le: "unat u0 \<le> unat v1"
  shows "unat (qhat_of v1 v2 u0 u1 u2) =
         min 65535 (((unat u0 * 65536 + unat u1) * 65536 + unat u2) div (unat v1 * 65536 + unat v2))"
proof (cases "u0 = v1")
  case True
  have r: "unat (u1 + v1) = unat u1 + unat v1" using b by (simp add: unat_word_ariths)
  have eq: "unat (u1 + v1) + 65535 * unat v1 = unat u0 * 65536 + unat u1" unfolding r True by simp
  show ?thesis
  proof (cases "B \<le> u1 + v1")
    case c: True
    then have "65535 \<le> ((unat (u1 + v1) + 65535 * unat v1) * 65536 + unat u2) div (unat v1 * 65536 + unat v2)"
      using v1 b(2) by (intro trial_large) (simp_all add: word_le_nat_alt)
    then show ?thesis using c True unfolding qhat_of_def eq by simp
  next
    case c: False
    then have "unat (u1 + v1) < 65536" by (simp add: word_le_nat_alt)
    then have "unat (qhat_loop v1 v2 u2 (B - 1) (u1 + v1)) = min 65535
        (((unat (u1 + v1) + 65535 * unat v1) * 65536 + unat u2) div (unat v1 * 65536 + unat v2))"
      using qhat_loop_spec [OF b(1,2,5) v1, of "B - 1"] by simp
    then show ?thesis using c True unfolding qhat_of_def eq by simp
  qed
next
  case False
  then have lt: "unat u0 < unat v1" using le by (simp add: word_unat_eq_iff)
  define nn where "nn = COMBINE u0 u1"
  have nn: "unat nn = unat u0 * 65536 + unat u1" unfolding nn_def by (rule unat_COMBINE [OF b(3,4)])
  have "unat nn < (unat u0 + 1) * 65536" using b(4) unfolding nn by simp
  also have "\<dots> \<le> unat v1 * 65536" using lt by (intro mult_le_mono1) simp
  finally have "unat nn div unat v1 < 65536" using v1 by (simp add: div_less_iff_less_mult mult.commute)
  then have q: "unat (nn div v1) < 65536" by (simp add: unat_div)
  have "unat (nn mod v1) < 65536" using mod_less_divisor [OF v1, of "unat nn"] b(1) by (simp add: unat_mod)
  then have "unat (qhat_loop v1 v2 u2 (nn div v1) (nn mod v1)) = min (unat nn div unat v1)
       (((unat nn mod unat v1 + unat nn div unat v1 * unat v1) * 65536 + unat u2) div (unat v1 * 65536 + unat v2))"
    using qhat_loop_spec [OF b(1,2,5) v1 q, of "nn mod v1"] unfolding unat_div unat_mod by blast
  also have "\<dots> = min 65535 ((unat nn * 65536 + unat u2) div (unat v1 * 65536 + unat v2))"
    using lead_div_le [OF v1 b(5), of "unat u0" "unat u1" "unat v2"] \<open>unat nn div unat v1 < 65536\<close>
    unfolding mod_div_mult_eq nn by simp
  finally show ?thesis using False unfolding qhat_of_def nn [symmetric] by (simp add: nn_def Let_def)
qed

lemma trial_quotient:
  fixes U3 V2 ur vr k :: nat
  defines "qhat \<equiv> min 65535 (U3 div V2)" and "q \<equiv> (U3 * 65536 ^ k + ur) div (V2 * 65536 ^ k + vr)"
  assumes "65536 \<le> V2" "ur < 65536 ^ k" "vr < 65536 ^ k" "q < 65536"
  shows "q \<le> qhat" "qhat \<le> q + 1"
proof -
  let ?U = "U3 * 65536 ^ k + ur" and ?V = "V2 * 65536 ^ k + vr"
  have V: "0 < ?V" using assms(3) by simp
  have "q \<le> ?U div (V2 * 65536 ^ k)" unfolding q_def using assms(3) by (intro div_le_mono2) simp_all
  also have "\<dots> = U3 div V2" using assms(4) by (simp add: mult.commute [of V2] div_mult2_eq)
  finally show "q \<le> qhat" using assms(6) unfolding qhat_def by simp
  have h: "qhat < 65536" "qhat \<le> U3 div V2" unfolding qhat_def by simp_all
  have "qhat * V2 \<le> U3" using h(2) assms(3) by (simp add: less_eq_div_iff_mult_less_eq)
  then have "qhat * V2 * 65536 ^ k \<le> U3 * 65536 ^ k" by (rule mult_le_mono1)
  moreover have "qhat * vr \<le> 65536 * 65536 ^ k" using h(1) assms(5) by (intro mult_le_mono) simp_all
  moreover have "65536 * 65536 ^ k \<le> V2 * 65536 ^ k" using assms(3) by (intro mult_le_mono1) simp
  ultimately have "qhat * V2 * 65536 ^ k + qhat * vr \<le> ?U + ?V" by linarith
  then have "qhat * ?V \<le> ?U + ?V" by (simp only: distrib_left mult.assoc)
  then have "qhat \<le> (?U + ?V) div ?V" using V by (simp only: less_eq_div_iff_mult_less_eq)
  also have "\<dots> = q + 1" using V unfolding q_def by (simp only: div_add_self2 not_gr_zero)
  finally show "qhat \<le> q + 1" .
qed

end
