(* ===== verification/Qdivrem_Step.thy ===== *)
theory Qdivrem_Step
  imports Qdivrem_Trial
begin

text \<open>
  One step of the division: the window of the dividend becomes its remainder modulo the divisor and the digit its
  quotient, whether or not the trial digit was one too large.
\<close>

section \<open>One step of the division\<close>

lemma qhat_bounds:
  assumes n: "2 \<le> n" and v1: "0 < unat (vs ! (v + 1))"
    and U: "dval us uj (n + 1) < dval vs (v + 1) n * 65536"
  defines "qhat \<equiv> unat (qhat_of (rd vs (v + 1)) (rd vs (v + 2)) (rd us uj) (rd us (uj + 1)) (rd us (uj + 2)))"
    and "q \<equiv> dval us uj (n + 1) div dval vs (v + 1) n"
  shows "q \<le> qhat" "qhat \<le> q + 1" "qhat < 65536" "q < 65536"
proof -
  obtain k where k: "n = k + 2" using n by (metis le_add_diff_inverse2)
  let ?U3 = "(unat (us ! uj) * 65536 + unat (us ! (uj + 1))) * 65536 + unat (us ! (uj + 2))"
  let ?V2 = "unat (vs ! (v + 1)) * 65536 + unat (vs ! (v + 2))"
  have Ud: "dval us uj (n + 1) = ?U3 * 65536 ^ k + dval us (uj + 3) k"
    using dval_append [of us uj 3 k] unfolding k by (simp add: numeral_3_eq_3)
  have Vd: "dval vs (v + 1) n = ?V2 * 65536 ^ k + dval vs (v + 3) k"
    using dval_append [of vs "v + 1" 2 k] unfolding k by (simp add: numeral_2_eq_2 numeral_3_eq_3)
  show q: "q < 65536" unfolding q_def using U by (simp add: less_mult_imp_div_less mult.commute)
  have V2: "65536 \<le> ?V2" using v1 by simp
  have "unat (us ! uj) * 65536 ^ n \<le> dval us uj (n + 1)" using dval_first [of us uj n] by simp
  also have "\<dots> < (unat (vs ! (v + 1)) + 1) * 65536 ^ n"
  proof -
    obtain n' where n': "n = Suc n'" using n by (cases n) auto
    have "dval vs (v + 1) n < (unat (vs ! (v + 1)) + 1) * 65536 ^ n'"
      using dval_first [of vs "v + 1" n'] dval_less [of vs "v + 2" n'] unfolding n' by simp
    then show ?thesis using U unfolding n' by simp
  qed
  finally have "unat (us ! uj) < unat (vs ! (v + 1)) + 1" by (simp only: mult_less_cancel2)
  then have "unat (us ! uj) \<le> unat (vs ! (v + 1))" by simp
  then have h: "qhat = min 65535 (?U3 div ?V2)"
    unfolding qhat_def using v1 by (subst qhat_of_spec) (simp_all add: unat_bound16 unat_rd)
  then show "qhat < 65536" by simp
  note tq = trial_quotient [OF V2 dval_less [of us "uj + 3" k] dval_less [of vs "v + 3" k], of ?U3]
  show "q \<le> qhat" "qhat \<le> q + 1" using tq q unfolding h q_def Ud Vd by blast+
qed

lemma borrow_out:
  fixes u t :: u32
  assumes "unat u < 65536" "unat t < 65536"
  shows "unat t \<le> unat u \<Longrightarrow> HHALF (u - t) = 0 \<and> unat (LHALF (u - t)) = unat u - unat t"
    and "unat t = unat u + 1 \<Longrightarrow> HHALF (u - t) \<noteq> 0 \<and> unat (LHALF (u - t)) = 65535"
proof -
  assume "unat t \<le> unat u"
  then have d: "unat (u - t) = unat u - unat t" by (simp add: unat_sub word_le_nat_alt)
  then have "unat (HHALF (u - t)) = 0" using assms(1) by (simp add: unat_HHALF)
  then show "HHALF (u - t) = 0 \<and> unat (LHALF (u - t)) = unat u - unat t"
    using d assms(1) by (simp add: unat_LHALF unat_eq_zero)
next
  assume "unat t = unat u + 1"
  then have "t = u + 1" using assms(2) by (simp add: word_unat_eq_iff unat_word_ariths)
  then have "u - t = - 1" by simp
  moreover have "unat (- 1 :: u32) = 4294967295" by (simp add: unsigned_minus_1_eq_mask mask_eq_exp_minus_1)
  then have "unat (HHALF (- 1)) \<noteq> 0" "unat (LHALF (- 1)) = 65535" unfolding unat_HHALF unat_LHALF by simp_all
  ultimately show "HHALF (u - t) \<noteq> 0 \<and> unat (LHALF (u - t)) = 65535" by auto
qed

lemma digit_of_nat: "unat x < 65536 \<Longrightarrow> digit x = of_nat (unat x)"
  by (simp add: word_unat_eq_iff unat_digit unat_of_nat)

lemma dval_set_first: "a < length p \<Longrightarrow> dval (p[a := x]) a (Suc k) = unat x * 65536 ^ k + dval p (a + 1) k"
  by (simp only: dval_first nth_list_update_eq) simp

lemma qdiv_digit:
  fixes U V qhat :: nat
  assumes "0 < V" "U div V \<le> qhat" "qhat \<le> U div V + 1"
  shows "0 \<le> int U - int qhat * int V \<Longrightarrow> qhat = U div V \<and> int (U mod V) = int U - int qhat * int V"
    and "int U - int qhat * int V < 0 \<Longrightarrow> qhat = U div V + 1 \<and> int (U mod V) = int U - int qhat * int V + int V"
proof -
  have m: "int (U mod V) = int U - int (U div V) * int V" by (simp add: minus_div_mult_eq_mod [symmetric] of_nat_mod of_nat_div)
  have c: "qhat = U div V \<or> qhat = U div V + 1" using assms(2,3) by linarith
  have lt: "int (U mod V) < int V" "0 \<le> int (U mod V)" using assms(1) by simp_all
  show "qhat = U div V \<and> int (U mod V) = int U - int qhat * int V" if "0 \<le> int U - int qhat * int V"
    using c that m lt by (auto simp: algebra_simps)
  show "qhat = U div V + 1 \<and> int (U mod V) = int U - int qhat * int V + int V" if "int U - int qhat * int V < 0"
    using c that m lt by (auto simp: algebra_simps)
qed

lemma high_digit:
  fixes d M l :: int
  assumes "0 \<le> l" "l < M"
  shows "0 \<le> d * M + l \<Longrightarrow> 0 \<le> d" and "d * M + l < 0 \<Longrightarrow> - M < d * M + l \<Longrightarrow> d = - 1"
proof -
  show "0 \<le> d" if "0 \<le> d * M + l"
  proof -
    have "(-1) * M < d * M" using that assms by linarith
    then show ?thesis using assms by (simp only: mult_less_cancel_right) linarith
  qed
  show "d = - 1" if "d * M + l < 0" "- M < d * M + l"
  proof -
    have "d * M < 0" "(-2) * M < d * M" using that assms by linarith+
    then have "d < 0" using assms by (simp add: mult_less_0_iff)
    moreover have "-2 < d" using \<open>(-2) * M < d * M\<close> assms by (simp only: mult_less_cancel_right)
    ultimately show ?thesis by simp
  qed
qed

definition outside :: "nat \<Rightarrow> nat \<Rightarrow> u16 list \<Rightarrow> u16 list \<Rightarrow> bool" where
  "outside a b p p' \<longleftrightarrow> length p' = length p \<and> (\<forall>k. k < a \<or> b < k \<longrightarrow> p' ! k = p ! k)"

lemma div_step_unfold:
  assumes "mulsub vs v us (u + j) qhat n 0 = (us1, t1)"
    and "qhat = qhat_of (rd vs (v + 1)) (rd vs (v + 2)) (rd us (u + j)) (rd us (u + j + 1)) (rd us (u + j + 2))"
  shows "div_step vs v u q n j (us, qs) =
     (let t = rd us1 (u + j) - t1; us2 = us1[u + j := digit (LHALF t)] in
      if HHALF t \<noteq> 0
      then (let (us3, c) = addback vs v us2 (u + j) n 0 in
              (us3[u + j := digit (LHALF (rd us3 (u + j) + c))], qs[q + j := digit (qhat - 1)]))
      else (us2, qs[q + j := digit qhat]))"
  using assms(1) unfolding div_step_def Let_def prod.case assms(2) [symmetric] by simp

text \<open>Adding \<open>V\<close> to a window that stands for a negative number cancels the borrow.\<close>

lemma addback_cancels:
  assumes "addback vs v us uj n 0 = (us', c)" "uj + n < length us" "us ! uj = 65535"
    and "65536 ^ n \<le> dval us (uj + 1) n + dval vs (v + 1) n"
  shows "dval (us'[uj := digit (LHALF (rd us' uj + c))]) uj (n + 1) + 65536 ^ n = dval us (uj + 1) n + dval vs (v + 1) n"
    "outside uj (uj + n) us us'"
proof -
  have a: "dval us' (uj + 1) n + unat c * 65536 ^ n = dval us (uj + 1) n + dval vs (v + 1) n"
    "unat c \<le> 1" "length us' = length us" "\<And>k. k \<le> uj \<or> uj + n < k \<Longrightarrow> us' ! k = us ! k"
    using addback_spec [OF assms(1,2)] by auto
  have "unat c \<noteq> 0" using a(1) assms(4) dval_less [of us' "uj + 1" n] by (metis add.right_neutral linorder_not_le mult_zero_left)
  then have c: "unat c = 1" using a(2) by simp
  have "unat (rd us' uj + c) = 65536" using a(4) [of uj] assms(3) c by (simp add: unat_word_ariths unat_rd)
  then have "unat (LHALF (rd us' uj + c)) = 0" by (simp add: unat_LHALF)
  then have "digit (LHALF (rd us' uj + c)) = 0" by (simp add: word_unat_eq_iff unat_digit)
  then show "dval (us'[uj := digit (LHALF (rd us' uj + c))]) uj (n + 1) + 65536 ^ n = dval us (uj + 1) n + dval vs (v + 1) n"
    using a(1,3) assms(2) c by (simp add: dval_set_first del: dval.simps)
  show "outside uj (uj + n) us us'" using a(3,4) unfolding outside_def by simp
qed

text \<open>
  After multiplying and subtracting, either the trial digit was right and the window, read with its first digit less
  the borrow, is the remainder, or it was one too large and the window is the remainder less the divisor.
\<close>

lemma mulsub_window:
  fixes n uj v :: nat
  assumes n: "2 \<le> n" and v1: "0 < unat (vs ! (v + 1))"
    and U: "dval us uj (n + 1) < dval vs (v + 1) n * 65536" and len: "uj + n < length us"
    and qhat: "qhat = qhat_of (rd vs (v + 1)) (rd vs (v + 2)) (rd us uj) (rd us (uj + 1)) (rd us (uj + 2))"
    and ms: "mulsub vs v us uj qhat n 0 = (us1, t1)"
  defines "U \<equiv> dval us uj (n + 1)" and "V \<equiv> dval vs (v + 1) n" and "u0 \<equiv> unat (us1 ! uj)"
  shows "unat qhat = U div V \<and> unat t1 \<le> u0 \<and> (u0 - unat t1) * 65536 ^ n + dval us1 (uj + 1) n = U mod V
       \<or> unat qhat = U div V + 1 \<and> unat t1 = u0 + 1 \<and> U mod V + 65536 ^ n = dval us1 (uj + 1) n + V"
    "unat t1 < 65536" "unat qhat < 65536" "U div V < 65536" "outside (uj + 1) (uj + n) us us1"
proof -
  show qb: "unat qhat < 65536" "U div V < 65536" and qh: "outside (uj + 1) (uj + n) us us1" "unat t1 < 65536"
    using qhat_bounds [OF n v1 U] mulsub_spec [OF ms len] unfolding qhat U_def V_def outside_def by auto
  have b: "U div V \<le> unat qhat" "unat qhat \<le> U div V + 1"
    using qhat_bounds [OF n v1 U] unfolding qhat U_def V_def by blast+
  have V: "0 < V" "V < 65536 ^ n" unfolding V_def by (use U in linarith) (rule dval_less)
  have "us1 ! uj = us ! uj" using qh(1) unfolding outside_def by simp
  then have "int U = int u0 * 65536 ^ n + int (dval us (uj + 1) n)"
    unfolding U_def u0_def using dval_first [of us uj n] by simp
  then have D: "int U - int (unat qhat) * int V = (int u0 - int (unat t1)) * 65536 ^ n + int (dval us1 (uj + 1) n)"
    using mulsub_spec [OF ms len qb(1)] unfolding V_def by (simp add: algebra_simps)
  have low: "int (dval us1 (uj + 1) n) < 65536 ^ n" "int V < 65536 ^ n"
    using dval_less [of us1 "uj + 1" n] V(2) by (metis of_nat_less_iff of_nat_numeral of_nat_power)+
  note hd = high_digit [OF of_nat_0_le_iff low(1), of "int u0 - int (unat t1)", folded D]
  show "unat qhat = U div V \<and> unat t1 \<le> u0 \<and> (u0 - unat t1) * 65536 ^ n + dval us1 (uj + 1) n = U mod V
       \<or> unat qhat = U div V + 1 \<and> unat t1 = u0 + 1 \<and> U mod V + 65536 ^ n = dval us1 (uj + 1) n + V"
  proof (cases "0 \<le> int U - int (unat qhat) * int V")
    case True
    have le: "unat t1 \<le> u0" using hd(1) [OF True] by linarith
    note d = qdiv_digit(1) [OF V(1) b True]
    have "int ((u0 - unat t1) * 65536 ^ n + dval us1 (uj + 1) n) = int U - int (unat qhat) * int V"
      unfolding D using le by (simp add: of_nat_diff)
    then have "(u0 - unat t1) * 65536 ^ n + dval us1 (uj + 1) n = U mod V" using d by linarith
    then show ?thesis using d le by blast
  next
    case False
    then have neg: "int (U mod V) = int U - int (unat qhat) * int V + int V" "unat qhat = U div V + 1"
      using qdiv_digit(2) [OF V(1) b] by (auto simp only: not_le)
    then have "- (65536 ^ n) < int U - int (unat qhat) * int V" using low(2) of_nat_0_le_iff [of "U mod V", where 'a = int] by linarith
    then have t1: "unat t1 = u0 + 1" using hd(2) False by linarith
    then have "int (U mod V + 65536 ^ n) = int (dval us1 (uj + 1) n + V)" using neg(1) D by simp
    then have "U mod V + 65536 ^ n = dval us1 (uj + 1) n + V" by (simp only: of_nat_eq_iff)
    then show ?thesis using neg(2) t1 by blast
  qed
qed

lemma div_step_spec:
  assumes n: "2 \<le> n" and v1: "0 < unat (vs ! (v + 1))"
    and U: "dval us (u + j) (n + 1) < dval vs (v + 1) n * 65536" and len: "u + j + n < length us"
  defines "U \<equiv> dval us (u + j) (n + 1)" and "V \<equiv> dval vs (v + 1) n"
  shows "\<exists>us'. div_step vs v u q n j (us, qs) = (us', qs[q + j := of_nat (U div V)])
           \<and> dval us' (u + j) (n + 1) = U mod V \<and> outside (u + j) (u + j + n) us us'"
proof -
  define uj where "uj = u + j"
  define qhat where "qhat = qhat_of (rd vs (v + 1)) (rd vs (v + 2)) (rd us uj) (rd us (uj + 1)) (rd us (uj + 2))"
  obtain us1 t1 where ms: "mulsub vs v us uj qhat n 0 = (us1, t1)" by (cases "mulsub vs v us uj qhat n 0")
  note w = mulsub_window [OF n v1 U len qhat_def [unfolded uj_def] ms [unfolded uj_def], folded uj_def, folded U_def [folded uj_def], folded V_def]
  have o: "length us1 = length us" "\<And>k. k < uj \<or> uj + n < k \<Longrightarrow> us1 ! k = us ! k" using w(5) unfolding outside_def by auto
  define u0 where "u0 = rd us1 uj"
  have u0: "unat u0 = unat (us1 ! uj)" "unat u0 < 65536" unfolding u0_def by (simp_all add: unat_rd unat_bound16)
  note step = div_step_unfold [OF ms [unfolded uj_def] qhat_def [unfolded uj_def], of q qs, folded uj_def u0_def]
  define us2 where "us2 = us1[uj := digit (LHALF (u0 - t1))]"
  have len2: "uj < length us1" "uj + n < length us2" using o(1) len unfolding uj_def us2_def by simp_all
  consider (fits) "unat qhat = U div V" "unat t1 \<le> unat u0" "(unat u0 - unat t1) * 65536 ^ n + dval us1 (uj + 1) n = U mod V"
    | (less) "unat qhat = U div V + 1" "unat t1 = unat u0 + 1" "U mod V + 65536 ^ n = dval us1 (uj + 1) n + V"
    using w(1) unfolding u0(1) by blast
  then show ?thesis
  proof cases
    case fits
    note h = borrow_out(1) [OF u0(2) w(2) fits(2)]
    have "dval us2 uj (n + 1) = U mod V" using h fits(3) u0(2) len2(1) unfolding us2_def
      by (simp add: dval_set_first unat_digit del: dval.simps)
    moreover have "div_step vs v u q n j (us, qs) = (us2, qs[q + j := digit qhat])" using step h by (simp add: us2_def Let_def)
    ultimately show ?thesis using o fits(1) digit_of_nat [OF w(3)] unfolding outside_def uj_def us2_def by simp
  next
    case less
    note h = borrow_out(2) [OF u0(2) w(2) less(2)]
    have m: "us2 ! uj = 65535" using h len2 unfolding us2_def by (simp add: word_unat_eq_iff unat_digit)
    obtain us3 c where ab: "addback vs v us2 uj n 0 = (us3, c)" by (cases "addback vs v us2 uj n 0")
    have s: "dval us2 (uj + 1) n = dval us1 (uj + 1) n" unfolding us2_def by simp
    note ac = addback_cancels [OF ab len2(2) m, folded V_def, unfolded s]
    have "digit (qhat - 1) = of_nat (U div V)"
      using digit_of_nat [of "qhat - 1"] w(4) less(1) by (simp add: unat_sub_if_size)
    then show ?thesis using ac less(3) step h ab o unfolding outside_def uj_def us2_def by (simp add: Let_def)
  qed
qed

end
