(* ===== verification/Qdivrem_Loop.thy ===== *)
theory Qdivrem_Loop
  imports Qdivrem_Step
begin

text \<open>
  The loop over the digits of the quotient, the shifts that normalize the operands and shift the remainder back, and
  the scans for leading zero digits.
\<close>

section \<open>Long division\<close>

lemma div_prefix:
  fixes P V x :: nat
  assumes "0 < V"
  shows "(P * 65536 + x) mod V = (P mod V * 65536 + x) mod V"
    and "(P * 65536 + x) div V = P div V * 65536 + (P mod V * 65536 + x) div V"
proof -
  have "P * 65536 + x = (P div V * V + P mod V) * 65536 + x" by simp
  also have "\<dots> = P div V * 65536 * V + (P mod V * 65536 + x)" by (simp only: algebra_simps)
  finally have e: "P * 65536 + x = P div V * 65536 * V + (P mod V * 65536 + x)" .
  show "(P * 65536 + x) mod V = (P mod V * 65536 + x) mod V" unfolding e by (rule mod_mult_self3)
  show "(P * 65536 + x) div V = P div V * 65536 + (P mod V * 65536 + x) div V"
    using assms by (subst e) (simp only: div_mult_self3)
qed

lemma dval_lead_zero:
  assumes "dval p a (j + n) < 65536 ^ n"
  shows "dval p a j = 0" "dval p (a + j) n = dval p a (j + n)"
proof -
  show z: "dval p a j = 0"
  proof (rule ccontr)
    assume "dval p a j \<noteq> 0"
    then have "1 * 65536 ^ n \<le> dval p a j * 65536 ^ n" by (intro mult_le_mono1) simp
    then show False using assms unfolding dval_append by linarith
  qed
  show "dval p (a + j) n = dval p a (j + n)" using z by (simp add: dval_append)
qed

lemma div_loop_spec:
  assumes n: "2 \<le> n" and v1: "0 < unat (vs ! (v + 1))" and len: "u + m + n < length us" "q + m < length qs"
    and lead: "dval us u n < dval vs (v + 1) n" and j: "j \<le> m + 1"
  shows "\<exists>us' qs'. fold (div_step vs v u q n) [0..<j] (us, qs) = (us', qs')
     \<and> dval us' u (j + n) = dval us u (j + n) mod dval vs (v + 1) n
     \<and> dval qs' q j = dval us u (j + n) div dval vs (v + 1) n
     \<and> length us' = length us \<and> length qs' = length qs
     \<and> (\<forall>k. k < u \<or> u + j + n \<le> k \<longrightarrow> us' ! k = us ! k) \<and> (\<forall>k. k < q \<or> q + j \<le> k \<longrightarrow> qs' ! k = qs ! k)"
  using j
proof (induction j)
  case (Suc j)
  let ?V = "dval vs (v + 1) n" and ?P = "dval us u (j + n)" and ?x = "unat (us ! (u + (j + n)))"
  have V: "0 < ?V" "?V < 65536 ^ n" using lead dval_less by simp_all
  obtain us1 qs1 where f: "fold (div_step vs v u q n) [0..<j] (us, qs) = (us1, qs1)"
    and P: "dval us1 u (j + n) = ?P mod ?V" and Q: "dval qs1 q j = ?P div ?V"
    and l: "length us1 = length us" "length qs1 = length qs"
    and o: "\<And>k. k < u \<or> u + j + n \<le> k \<Longrightarrow> us1 ! k = us ! k" "\<And>k. k < q \<or> q + j \<le> k \<Longrightarrow> qs1 ! k = qs ! k"
    using Suc by auto
  have "dval us1 u (j + n) < 65536 ^ n" using P V mod_less_divisor [OF V(1), of ?P] by linarith
  note z = dval_lead_zero [OF this]
  define U where "U = dval us1 (u + j) (n + 1)"
  have U: "U = ?P mod ?V * 65536 + ?x" unfolding U_def using z(2) P o(1) [of "u + j + n"] by (simp add: add.assoc)
  have "U < (?P mod ?V + 1) * 65536" unfolding U using unat_bound16 [of "us ! (u + (j + n))"] by simp
  also have "\<dots> \<le> ?V * 65536" using mod_less_divisor [OF V(1), of ?P] by (intro mult_le_mono1) simp
  finally have lt: "dval us1 (u + j) (n + 1) < ?V * 65536" unfolding U_def .
  have "u + j + n < length us1" using len l Suc.prems by simp
  from div_step_spec [OF n v1 lt this, of q qs1, folded U_def]
  obtain us2 where s: "div_step vs v u q n j (us1, qs1) = (us2, qs1[q + j := of_nat (U div ?V)])"
    and r: "dval us2 (u + j) (n + 1) = U mod ?V" and os: "outside (u + j) (u + j + n) us1 us2" by blast
  have "dval us2 u j = dval us1 u j" using os unfolding outside_def by (intro dval_cong) auto
  then have "dval us2 u (j + (n + 1)) = U mod ?V" using dval_append [of us2 u j "n + 1"] z(1) r by simp
  moreover have "U div ?V < 65536" using lt unfolding U_def [symmetric] by (simp add: less_mult_imp_div_less mult.commute)
  then have "dval (qs1[q + j := of_nat (U div ?V)]) q (Suc j) = ?P div ?V * 65536 + U div ?V"
    using Q l len Suc.prems by (simp add: unat_of_nat)
  ultimately show ?case
    using f s l o os div_prefix [OF V(1), of ?P ?x, folded U] unfolding outside_def
    by (simp add: add.assoc)
qed (use lead in simp)

section \<open>Shifts\<close>

lemma unat_shl: "unat (LHALF (push_bit s (rd p i))) = unat (p ! i) * 2 ^ s mod 65536" if "s \<le> 16"
proof -
  have "unat (p ! i) * 2 ^ s < 65536 * 2 ^ s" using unat_bound16 [of "p ! i"] by simp
  also have "\<dots> \<le> 65536 * 2 ^ 16" using that by (intro mult_le_mono power_increasing) simp_all
  finally have b: "unat (p ! i) * 2 ^ s < 2 ^ 32" by simp
  have "unat (push_bit s (rd p i)) = take_bit 32 (push_bit s (unat (p ! i)))"
    using unsigned_push_bit_eq [of s "rd p i", where 'a = nat] unfolding unat_rd by simp
  also have "\<dots> = unat (p ! i) * 2 ^ s" using b unfolding push_bit_eq_mult take_bit_eq_mod by (rule mod_less)
  finally show ?thesis unfolding unat_LHALF by simp
qed

lemma unat_shr: "unat (drop_bit s (rd p i)) = unat (p ! i) div 2 ^ s"
  using unat_drop_bit_eq [of s "rd p i"] unfolding unat_rd by (simp add: drop_bit_eq_div)

lemma shl_mod: "s \<le> 16 \<Longrightarrow> a * 2 ^ s mod 65536 = a mod 2 ^ (16 - s) * (2 ^ s :: nat)"
  using mult_mod_left [of a "2 ^ (16 - s)" "2 ^ s"] by (simp flip: power_add)

lemma unat_merge:
  assumes s: "s \<le> 16"
  shows "unat (digit (LHALF (push_bit s (rd p i)) OR drop_bit (16 - s) (rd p' k))) =
    unat (p ! i) * 2 ^ s mod 65536 + unat (p' ! k) div 2 ^ (16 - s)"
proof -
  let ?x = "LHALF (push_bit s (rd p i))" and ?y = "drop_bit (16 - s) (rd p' k)"
  have "?x AND ?y = 0"
  proof (rule bit_word_eqI)
    fix j
    show "bit (?x AND ?y) j = bit (0 :: u32) j"
      using no_high_bit [OF rd_bound, of "16 - s + j" p' k] s
      by (auto simp: LHALF_def and_low16 bit_simps)
  qed
  moreover have y: "unat ?y < 2 ^ s"
  proof -
    have "unat (p' ! k) < 2 ^ s * 2 ^ (16 - s)" using unat_bound16 [of "p' ! k"] s by (simp flip: power_add)
    then show ?thesis unfolding unat_shr by (simp add: div_less_iff_less_mult)
  qed
  moreover have "unat ?x + 2 ^ s \<le> 65536"
  proof -
    have "(unat (p ! i) mod 2 ^ (16 - s) + 1) * 2 ^ s \<le> 2 ^ (16 - s) * 2 ^ s"
      by (intro mult_le_mono1) (simp add: Suc_leI)
    then show ?thesis unfolding unat_shl [OF s] shl_mod [OF s] using s by (simp add: algebra_simps flip: power_add)
  qed
  ultimately have "unat (?x OR ?y) = unat ?x + unat ?y" "unat ?x + unat ?y < 65536"
    by (simp_all add: unat_or_disjoint)
  then show ?thesis by (simp add: unat_digit unat_shl [OF s] unat_shr)
qed

lemma shl_carry: "a div 2 ^ (16 - s) * 65536 + a * 2 ^ s mod 65536 = a * (2 ^ s :: nat)" if "s \<le> 16"
proof -
  have "a * 2 ^ s = (a div 2 ^ (16 - s) * 2 ^ (16 - s) + a mod 2 ^ (16 - s)) * 2 ^ s" by (simp only: div_mult_mod_eq)
  also have "\<dots> = a div 2 ^ (16 - s) * (2 ^ (16 - s) * 2 ^ s) + a mod 2 ^ (16 - s) * 2 ^ s" by (simp only: algebra_simps)
  also have "2 ^ (16 - s) * 2 ^ s = (65536 :: nat)" using that by (simp flip: power_add)
  finally show ?thesis using shl_mod [OF that, of a] by simp
qed

text \<open>The value after each pass of \<open>shl\<close>: digits below the pass are shifted, the others are not.\<close>

abbreviation shl_pass :: "nat \<Rightarrow> nat \<Rightarrow> nat \<Rightarrow> u16 list \<Rightarrow> u16 list" where
  "shl_pass a sh \<equiv> \<lambda>i p. p[a + i := digit (LHALF (push_bit sh (rd p (a + i))) OR drop_bit (16 - sh) (rd p (a + i + 1)))]"

lemma shl_passes:
  assumes s: "sh \<le> 16" and lead: "unat (p ! a) < 2 ^ (16 - sh)" and len: "a + k < length p"
  defines "p' \<equiv> fold (shl_pass a sh) [0..<k] p"
  shows "dval p' a k = dval p a k * 2 ^ sh + unat (p ! (a + k)) div 2 ^ (16 - sh)
     \<and> length p' = length p \<and> (\<forall>i. i < a \<or> a + k \<le> i \<longrightarrow> p' ! i = p ! i)"
  using len unfolding p'_def
proof (induction k)
  case (Suc k)
  define p1 where "p1 = fold (shl_pass a sh) [0..<k] p"
  have IH: "dval p1 a k = dval p a k * 2 ^ sh + unat (p ! (a + k)) div 2 ^ (16 - sh)"
    "length p1 = length p" "\<And>i. i < a \<or> a + k \<le> i \<Longrightarrow> p1 ! i = p ! i"
    using Suc unfolding p1_def by auto
  have f: "fold (shl_pass a sh) [0..<Suc k] p = shl_pass a sh k p1" unfolding p1_def by simp
  have "dval (shl_pass a sh k p1) a (Suc k) =
      dval p1 a k * 65536 + (unat (p ! (a + k)) * 2 ^ sh mod 65536 + unat (p ! (a + k + 1)) div 2 ^ (16 - sh))"
    using Suc.prems IH(2,3) by (simp add: unat_merge [OF s] del: or.right_idem)
  also have "\<dots> = dval p a (Suc k) * 2 ^ sh + unat (p ! (a + Suc k)) div 2 ^ (16 - sh)"
    unfolding IH(1) using shl_carry [OF s, of "unat (p ! (a + k))"] by (simp add: algebra_simps)
  finally show ?case unfolding f using IH(2,3) by simp
qed (use lead in simp)

lemma shl_spec:
  assumes s: "sh \<le> 16" and lead: "unat (p ! a) < 2 ^ (16 - sh)" and len: "a + k < length p"
  shows "dval (shl p a k sh) a (k + 1) = dval p a (k + 1) * 2 ^ sh"
    "length (shl p a k sh) = length p" "\<And>i. i < a \<or> a + k < i \<Longrightarrow> shl p a k sh ! i = p ! i"
proof -
  define p1 where "p1 = fold (shl_pass a sh) [0..<k] p"
  have p1: "dval p1 a k = dval p a k * 2 ^ sh + unat (p ! (a + k)) div 2 ^ (16 - sh)"
    "length p1 = length p" "\<And>i. i < a \<or> a + k \<le> i \<Longrightarrow> p1 ! i = p ! i"
    using shl_passes [OF s lead len] unfolding p1_def by blast+
  have f: "shl p a k sh = p1[a + k := digit (LHALF (push_bit sh (rd p1 (a + k))))]"
    unfolding shl_def p1_def by (simp add: Let_def)
  have "unat (shl p a k sh ! (a + k)) = unat (p ! (a + k)) * 2 ^ sh mod 65536"
    unfolding f using p1(2,3) len by (simp add: unat_digit unat_shl [OF s])
  moreover have "dval (shl p a k sh) a k = dval p1 a k" unfolding f by simp
  ultimately show "dval (shl p a k sh) a (k + 1) = dval p a (k + 1) * 2 ^ sh"
    using p1(1) shl_carry [OF s, of "unat (p ! (a + k))"] by (simp add: algebra_simps)
  show "length (shl p a k sh) = length p" "\<And>i. i < a \<or> a + k < i \<Longrightarrow> shl p a k sh ! i = p ! i"
    unfolding f using p1(2,3) by auto
qed

abbreviation unshift_pass :: "nat \<Rightarrow> nat \<Rightarrow> nat \<Rightarrow> u16 list \<Rightarrow> u16 list" where
  "unshift_pass u d \<equiv> \<lambda>i us. us[u + i := digit (drop_bit d (rd us (u + i)) OR LHALF (push_bit (16 - d) (rd us (u + i - 1))))]"

lemma unshift_passes:
  fixes d :: nat
  assumes "l \<le> h" "u + h \<le> length us" "0 < l"
  defines "us' \<equiv> fold (unshift_pass u d) (rev [l..<h]) us"
  shows "length us' = length us \<and> (\<forall>i. i < u + l \<or> u + h \<le> i \<longrightarrow> us' ! i = us ! i)
    \<and> (\<forall>i. l \<le> i \<and> i < h \<longrightarrow> us' ! (u + i) =
         digit (drop_bit d (rd us (u + i)) OR LHALF (push_bit (16 - d) (rd us (u + i - 1)))))"
  using assms(1,3) unfolding us'_def
proof (induction l rule: inc_induct)
  case (step l)
  define us1 where "us1 = fold (unshift_pass u d) (rev [Suc l..<h]) us"
  have IH: "length us1 = length us" "\<And>i. i < u + Suc l \<or> u + h \<le> i \<Longrightarrow> us1 ! i = us ! i"
    "\<And>i. Suc l \<le> i \<Longrightarrow> i < h \<Longrightarrow> us1 ! (u + i) =
         digit (drop_bit d (rd us (u + i)) OR LHALF (push_bit (16 - d) (rd us (u + i - 1))))"
    using step.IH unfolding us1_def by blast+
  have "rev [l..<h] = rev [Suc l..<h] @ [l]" using step.hyps by (simp add: upt_conv_Cons)
  then have r: "fold (unshift_pass u d) (rev [l..<h]) us = unshift_pass u d l us1" by (simp add: us1_def)
  have i: "u + l - 1 < u + Suc l" by simp
  have e: "unshift_pass u d l us1 =
      us1[u + l := digit (drop_bit d (rd us (u + l)) OR LHALF (push_bit (16 - d) (rd us (u + l - 1))))]"
    using IH(2) [of "u + l"] IH(2) [OF disjI1 [OF i]] unfolding rd_def by simp
  have "u + l < length us1" using IH(1) step.hyps assms(2) by simp
  moreover have "i = l \<or> Suc l \<le> i" if "l \<le> i" for i using that by linarith
  ultimately show ?case unfolding r e using IH step.hyps
    by (intro conjI allI impI) (fastforce simp: nth_list_update)+
qed auto

lemma unshift_value:
  assumes d: "d \<le> 16" and z: "us ! a = 0"
    and new: "\<And>i. i < k \<Longrightarrow> us' ! (a + 1 + i) = digit (drop_bit d (rd us (a + 1 + i)) OR LHALF (push_bit (16 - d) (rd us (a + i))))"
  shows "dval us' (a + 1) k = dval us (a + 1) k div 2 ^ d"
  using new
proof (induction k)
  case (Suc k)
  let ?P = "dval us (a + 1) k" and ?x = "unat (us ! (a + 1 + k))" and ?y = "unat (us ! (a + k))"
  have y: "?y mod 2 ^ d = ?P mod 2 ^ d"
  proof (cases k)
    case (Suc k')
    have "(2 :: nat) ^ d dvd 65536" using le_imp_power_dvd [OF d, of "2 :: nat"] by simp
    then show ?thesis unfolding Suc by (simp add: mod_add_left_eq [symmetric] mod_mult_right_eq [symmetric] dvd_imp_mod_0)
  qed (simp add: z)
  have n: "unat (us' ! (a + 1 + k)) = ?y * 2 ^ (16 - d) mod 65536 + ?x div 2 ^ d"
    using Suc.prems [of k] unat_merge [of "16 - d" us "a + k" us "a + 1 + k"] d by (simp add: or.commute)
  have c: "?y * 2 ^ (16 - d) mod 65536 = ?P mod 2 ^ d * 2 ^ (16 - d)" using shl_mod [of "16 - d" ?y] d y by simp
  have B: "(65536 :: nat) = 2 ^ (16 - d) * 2 ^ d" using d by (simp flip: power_add)
  have "dval us (a + 1) (Suc k) div 2 ^ d = ?P * 2 ^ (16 - d) + ?x div 2 ^ d"
    by (simp add: B mult.assoc [symmetric])
  also have "?P * 2 ^ (16 - d) = (?P div 2 ^ d * 2 ^ d + ?P mod 2 ^ d) * 2 ^ (16 - d)" by (simp only: div_mult_mod_eq)
  also have "\<dots> = ?P div 2 ^ d * 65536 + ?P mod 2 ^ d * 2 ^ (16 - d)" unfolding B by (simp only: algebra_simps)
  finally show ?case using Suc.IH Suc.prems n c by simp
qed simp

lemma unshift_spec:
  assumes d: "d \<le> 16" and len: "u + m + n < length us" and R: "dval us u (m + 1 + n) < 65536 ^ n"
  shows "dval (unshift us u m n d) u (m + 1 + n) = dval us u (m + 1 + n) div 2 ^ d"
    "length (unshift us u m n d) = length us" "\<And>i. i < u \<Longrightarrow> unshift us u m n d ! i = us ! i"
proof -
  define us1 where "us1 = fold (unshift_pass u d) (rev [m + 1..<m + n + 1]) us"
  have f: "unshift us u m n d = us1[u + m := 0]" unfolding unshift_def us1_def by (simp add: Let_def)
  have p: "length us1 = length us" "\<And>i. i < u + (m + 1) \<or> u + (m + n + 1) \<le> i \<Longrightarrow> us1 ! i = us ! i"
    "\<And>i. m + 1 \<le> i \<Longrightarrow> i < m + n + 1 \<Longrightarrow> us1 ! (u + i) =
         digit (drop_bit d (rd us (u + i)) OR LHALF (push_bit (16 - d) (rd us (u + i - 1))))"
    using unshift_passes [of "m + 1" "m + n + 1" u us d] len unfolding us1_def by auto
  note z = dval_lead_zero [OF R]
  have z0: "dval us u m = 0" "us ! (u + m) = 0" using z(1) by (simp_all add: unat_eq_zero)
  have "dval us1 (u + m + 1) n = dval us (u + m + 1) n div 2 ^ d"
    using p(3) [of "m + 1 + i" for i] by (intro unshift_value [OF d z0(2)]) (simp add: add.assoc add.commute add.left_commute)
  moreover have "dval us1 u m = dval us u m" using p(2) by (intro dval_cong) auto
  ultimately show "dval (unshift us u m n d) u (m + 1 + n) = dval us u (m + 1 + n) div 2 ^ d"
    unfolding f dval_append [of _ u "m + 1" n] using z(1) z0 p(1) len by (simp add: add.assoc)
  show "length (unshift us u m n d) = length us" "\<And>i. i < u \<Longrightarrow> unshift us u m n d ! i = us ! i"
    unfolding f using p(1,2) by auto
qed

section \<open>Scanning\<close>

lemma norm_shift_spec:
  assumes "0 < unat t" "unat t < 65536"
  shows "\<exists>e \<le> 15. norm_shift t d = Ok (d + e) \<and> unat t * 2 ^ e < 65536"
proof -
  have "\<exists>e. norm_shift t d = Ok (d + e) \<and> unat t * 2 ^ e < 65536" using assms
  proof (induction t d rule: norm_shift.induct)
    case (1 t d)
    show ?case
    proof (cases "0x8000 \<le> t")
      case True
      then show ?thesis using 1(3) by (intro exI [of _ 0]) (simp add: norm_shift.simps)
    next
      case False
      then have t: "unat t < 32768" "t \<noteq> 0" using 1(2) by (auto simp: word_le_nat_alt)
      then have d: "unat (push_bit 1 t) = 2 * unat t" by (simp add: push_bit_eq_mult unat_word_ariths)
      then obtain e where "norm_shift (push_bit 1 t) (d + 1) = Ok (d + 1 + e)" "unat (push_bit 1 t) * 2 ^ e < 65536"
        using 1(1) [OF False t(2)] 1(2) t(1) by auto
      then show ?thesis using False t(2) d by (intro exI [of _ "Suc e"]) (simp add: norm_shift.simps [of t] ac_simps)
    qed
  qed
  then obtain e where e: "norm_shift t d = Ok (d + e)" "unat t * 2 ^ e < 65536" by blast
  have "1 * 2 ^ e \<le> unat t * 2 ^ e" using assms(1) by (intro mult_le_mono1) simp
  then have "2 ^ e < (65536 :: nat)" using e(2) by linarith
  then have "(2 :: nat) ^ e < 2 ^ 16" by simp
  then have "e \<le> 15" using power_less_imp_less_exp [of "2 :: nat" e 16] by simp
  then show ?thesis using e by blast
qed

lemma vscan_eval:
  "vscan vs 0 4 = (if vs ! 1 \<noteq> 0 then (0, 4) else if vs ! 2 \<noteq> 0 then (1, 3) else if vs ! 3 \<noteq> 0 then (2, 2) else (2, 1))"
  by (simp add: eval_nat_numeral)

lemma uscan_eval:
  "length us = 5 \<Longrightarrow> uscan us 0 m =
     (if us ! 1 \<noteq> 0 then Ok (0, m) else if us ! 2 \<noteq> 0 then Ok (1, m - 1) else if us ! 3 \<noteq> 0 then Ok (2, m - 2)
      else if us ! 4 \<noteq> 0 then Ok (3, m - 3) else Undef ''u[1] out of bounds'')"
  by (simp add: uscan.simps eval_nat_numeral)

section \<open>Quads and digits\<close>

lemma unat_uu_q: "unat (uu_q h l) = unat h * 4294967296 + unat l"
proof -
  have "push_bit 32 (ucast h :: u64) AND ucast l = 0" by (rule bit_word_eqI) (auto simp: bit_simps dest: bit_imp_le_length)
  then have "uu_q h l = push_bit 32 (ucast h) + ucast l" unfolding uu_q_def by (rule disjunctive_add_eq_or [symmetric])
  then show ?thesis using unsigned_less [of h, where 'a = nat] unsigned_less [of l, where 'a = nat]
    by (simp add: push_bit_eq_mult unat_word_ariths unsigned_ucast_eq take_bit_eq_mod)
qed

lemma dval_4: "dval p a 4 =
    ((unat (p ! a) * 65536 + unat (p ! (a + 1))) * 65536 + unat (p ! (a + 2))) * 65536 + unat (p ! (a + 3))"
proof -
  have "(4 :: nat) = Suc (Suc (Suc (Suc 0)))" by simp
  then show ?thesis by (simp only: dval.simps) (simp add: numeral_2_eq_2 numeral_3_eq_3)
qed

lemma unat_quad_of: "unat (quad_of p) = dval p 1 4"
proof -
  have i: "(1 :: nat) + 1 = 2" "(1 :: nat) + 2 = 3" "(1 :: nat) + 3 = 4" by simp_all
  show ?thesis unfolding quad_of_def unat_uu_q unat_COMBINE [OF rd_bound rd_bound] unat_rd dval_4 i by simp
qed

lemma two_words: "h1 * 65536 * 65536 * 65536 + h0 * 65536 * 65536 + l1 * 65536 + l0
    = (h1 * 65536 + h0) * 4294967296 + (l1 * 65536 + (l0 :: nat))"
  by simp

lemma unat_ul_L: "unat (ul_L q) = unat q mod 4294967296"
  unfolding ul_L_def by (simp add: unsigned_ucast_eq take_bit_eq_mod)

lemma digits_of_props: "length (digits_of q) = 5" "digits_of q ! 0 = 0" "dval (digits_of q) 1 4 = unat q"
proof -
  show "length (digits_of q) = 5" "digits_of q ! 0 = 0" by (simp_all add: digits_of_def)
  have "unat (drop_bit 32 q) = unat q div 4294967296" using unat_drop_bit_eq [of 32 q] by (simp add: drop_bit_eq_div)
  moreover have "unat q div 4294967296 < 4294967296" using unsigned_less [of q, where 'a = nat] by (simp add: div_less_iff_less_mult)
  ultimately have h: "unat (ul_H q) = unat q div 4294967296" unfolding ul_H_def by (simp add: unsigned_ucast_eq take_bit_eq_mod)
  have "dval (digits_of q) 1 4 = unat (ul_H q) div 65536 * 65536 * 65536 * 65536 + unat (ul_H q) mod 65536 * 65536 * 65536
      + unat (ul_L q) div 65536 * 65536 + unat (ul_L q) mod 65536"
    using unsigned_less [of "ul_H q", where 'a = nat] unsigned_less [of "ul_L q", where 'a = nat] unfolding dval_4
    by (simp add: digits_of_def unat_digit unat_HHALF unat_LHALF div_less_iff_less_mult)
      (use mult_div_mod_eq [of 65536 "unat (ul_H q)"] in linarith)
  also have "\<dots> = (unat (ul_H q) div 65536 * 65536 + unat (ul_H q) mod 65536) * 4294967296
      + (unat (ul_L q) div 65536 * 65536 + unat (ul_L q) mod 65536)" by (rule two_words)
  also have "\<dots> = unat q" unfolding div_mult_mod_eq h unat_ul_L ..
  finally show "dval (digits_of q) 1 4 = unat q" .
qed

end
