(* ===== verification/Qdivrem_Props.thy ===== *)
theory Qdivrem_Props
  imports Qdivrem_Loop
begin

text \<open>
  64-bit division is correct: the long division, the short division, and the whole of \<open>__qdivrem\<close>.
\<close>

section \<open>The long division\<close>

lemma uscan_spec:
  assumes "length us = 5" "us ! 0 = 0" "dval us 1 4 \<noteq> 0"
  shows "\<exists>u \<le> 3. uscan us 0 m = Ok (u, m - int u) \<and> us ! (u + 1) \<noteq> 0 \<and> dval us 0 (u + 1) = 0"
proof -
  have i: "(1 :: nat) + 1 = 2" "(1 :: nat) + 2 = 3" "(1 :: nat) + 3 = 4" by simp_all
  consider "us ! 1 \<noteq> 0" | "us ! 1 = 0" "us ! 2 \<noteq> 0" | "us ! 1 = 0" "us ! 2 = 0" "us ! 3 \<noteq> 0"
    | "us ! 1 = 0" "us ! 2 = 0" "us ! 3 = 0" "us ! 4 \<noteq> 0"
    using assms(3) unfolding dval_4 i by fastforce
  then show ?thesis
  proof cases
    case 1
    then show ?thesis using assms by (intro exI [of _ 0]) (simp add: uscan_eval)
  next
    case 2
    then show ?thesis using assms by (intro exI [of _ 1]) (simp add: uscan_eval numeral_2_eq_2)
  next
    case 3
    then show ?thesis using assms by (intro exI [of _ 2]) (simp add: uscan_eval numeral_2_eq_2 numeral_3_eq_3)
  next
    case 4
    then have "us ! Suc (Suc (Suc (Suc 0))) \<noteq> 0" by (simp add: eval_nat_numeral)
    then show ?thesis using assms 4 by (intro exI [of _ 3]) (simp add: uscan_eval numeral_2_eq_2 numeral_3_eq_3)
  qed
qed

lemma dval_drop: "dval p a j = 0 \<Longrightarrow> dval p a (j + k) = dval p (a + j) k"
  by (simp add: dval_append)

lemma normalized:
  assumes l: "length us = 5" "length vs = 5" and vn: "v + n = 4" "2 \<le> n" and v1: "0 < unat (vs ! (v + 1))"
    and d: "d \<le> 15" "unat (vs ! (v + 1)) * 2 ^ d < 65536"
    and u: "u + m + n = 4" "us ! u = 0" "dval us u (m + 1 + n) = N"
  defines "us' \<equiv> if 0 < d then shl us u (m + n) d else us" and "vs' \<equiv> if 0 < d then shl vs (v + 1) (n - 1) d else vs"
  shows "dval us' u (m + 1 + n) = N * 2 ^ d" "dval vs' (v + 1) n = dval vs (v + 1) n * 2 ^ d"
    "length us' = 5" "\<And>i. i < u \<Longrightarrow> us' ! i = us ! i" "0 < unat (vs' ! (v + 1))"
proof -
  have s: "d \<le> 16" using d by simp
  have "(2 :: nat) ^ (16 - d) * 2 ^ d = 65536" using s by (simp flip: power_add)
  then have v: "unat (vs ! (v + 1)) < 2 ^ (16 - d)" using d(2) by (metis mult_less_cancel2)
  have a: "m + n + 1 = m + 1 + n" "n - 1 + 1 = n" "u + (m + n) < length us" "v + 1 + (n - 1) < length vs"
    using u vn l by simp_all
  have uz: "unat (us ! u) < 2 ^ (16 - d)" using u(2) by simp
  note su = shl_spec [OF s uz a(3), unfolded a] and sv = shl_spec [OF s v a(4), unfolded a]
  show "dval us' u (m + 1 + n) = N * 2 ^ d" "length us' = 5" "\<And>i. i < u \<Longrightarrow> us' ! i = us ! i"
    unfolding us'_def using su u l by simp_all
  show V: "dval vs' (v + 1) n = dval vs (v + 1) n * 2 ^ d" unfolding vs'_def using sv by simp
  obtain n' where n': "n = Suc n'" using vn by (cases n) simp_all
  have "65536 ^ n' * 2 ^ d \<le> dval vs (v + 1) n * 2 ^ d" unfolding n' dval_first
    using v1 by (intro mult_le_mono1) (simp add: trans_le_add1)
  then have "65536 ^ n' \<le> dval vs' (v + 1) n" unfolding V by (metis le_trans mult_le_mono2 mult_1_right one_le_numeral one_le_power)
  then show "0 < unat (vs' ! (v + 1))" unfolding n' dval_first using dval_less [of vs' "v + 1 + 1" n'] by (cases "unat (vs' ! (v + 1))") simp_all
qed

lemma cleared_qs: "fold (\<lambda>i qs. qs[i := 0]) (rev [0..<k]) (replicate 5 0) = (replicate 5 0 :: u16 list)"
proof -
  have u: "(replicate 5 0)[i := 0] = (replicate 5 0 :: u16 list)" for i
    by (cases "i < 5") (simp_all add: list_eq_iff_nth_eq nth_list_update)
  have "fold (\<lambda>i qs. qs[i := 0]) xs (replicate 5 0) = (replicate 5 0 :: u16 list)" for xs
    by (induction xs) (simp_all add: u)
  then show ?thesis .
qed

lemma dval_eq_0: "dval p a k = 0 \<longleftrightarrow> (\<forall>i < k. p ! (a + i) = 0)"
  by (induction k) (auto simp: less_Suc_eq unat_eq_zero)

text \<open>The value of a five-digit array of which the first \<open>u\<close> digits are 0.\<close>

lemma dval_five:
  assumes "\<And>i. i < u \<Longrightarrow> p ! i = 0" "u + k = 5" "dval p u k < 65536 ^ 4"
  shows "dval p 1 4 = dval p u k"
proof -
  have "dval p 0 u = 0" using assms(1) by (simp add: dval_eq_0)
  then have z: "dval p 0 5 = dval p u k" using dval_drop [of p 0 u k] assms(2) by simp
  then show ?thesis using dval_lead_zero(2) [of p 0 1 4] assms(3) by simp
qed

text \<open>What \<open>uscan\<close> gives on a dividend that is not less than the divisor: \<open>m\<close> is not negative.\<close>

lemma uscan_long:
  assumes l: "length us = 5" "us ! 0 = 0" and n: "2 \<le> n"
    and V: "65536 ^ (n - 1) \<le> V" and ge: "V \<le> dval us 1 4"
  obtains u m where "uscan us 0 (4 - int n) = Ok (u, int m)" "u + m + n = 4" "us ! u = 0" "\<And>i. i < u \<Longrightarrow> us ! i = 0"
    "dval us u (m + 1 + n) = dval us 1 4" "dval us 1 4 < 65536 ^ (m + n)"
proof -
  have "0 < V" using V by (metis less_le_trans zero_less_numeral zero_less_power)
  then obtain u where u: "u \<le> 3" "uscan us 0 (4 - int n) = Ok (u, 4 - int n - int u)" "dval us 0 (u + 1) = 0"
    using uscan_spec [OF l, of "4 - int n"] ge by auto
  have N: "dval us 1 4 = dval us (u + 1) (4 - u)"
    using dval_drop [OF u(3), of "4 - u"] dval_first [of us 0 4] l(2) u(1) by simp
  have lt: "dval us 1 4 < 65536 ^ (4 - u)" unfolding N by (rule dval_less)
  have "n + u \<le> 4"
  proof (rule ccontr)
    assume "\<not> n + u \<le> 4"
    then have "(65536 :: nat) ^ (4 - u) \<le> 65536 ^ (n - 1)" by (intro power_increasing) simp_all
    then show False using lt V ge by linarith
  qed
  then have m: "u + (4 - n - u) + n = 4" "4 - int n - int u = int (4 - n - u)" "4 - n - u + n = 4 - u"
    "u + (4 - n - u + 1 + n) = 5" by simp_all
  have z: "us ! i = 0" if "i < u + 1" for i using u(3) that unfolding dval_eq_0 by simp
  have "dval us 0 u = 0" using z by (simp add: dval_eq_0)
  then have "dval us u (4 - n - u + 1 + n) = dval us 1 4"
    using dval_drop [of us 0 u "4 - n - u + 1 + n"] m(4) dval_first [of us 0 4] l(2) by simp
  then show ?thesis using that [of u "4 - n - u"] u(2) m(1-3) z lt by simp
qed

lemma lead_less:
  assumes "dval us u (m + 1 + n) = N * c" "N < 65536 ^ (m + n)" "65536 ^ (n - 1) \<le> V" "0 < n" "0 < c"
  shows "dval us u n < V * c"
proof -
  have "dval us u n * 65536 ^ (m + 1) \<le> N * c" using dval_append [of us u n "m + 1"] assms(1) by (simp add: add.commute add.left_commute)
  also have "\<dots> < 65536 ^ (m + n) * c" using assms(2,5) by simp
  also have "\<dots> = 65536 ^ (m + 1) * (65536 ^ (n - 1) * c)" using assms(4) by (cases n) (simp_all add: power_add)
  also have "\<dots> \<le> 65536 ^ (m + 1) * (V * c)" using assms(3) by (intro mult_le_mono) simp_all
  finally have "dval us u n * 65536 ^ (m + 1) < V * c * 65536 ^ (m + 1)" by (simp only: mult.commute)
  then show ?thesis by (simp only: mult_less_cancel2)
qed

lemma qdivrem_long_spec:
  assumes l: "length us = 5" "us ! 0 = 0" "length vs = 5" and vn: "v + n = 4" "2 \<le> n" and v1: "0 < unat (vs ! (v + 1))"
    and ge: "dval vs (v + 1) n \<le> dval us 1 4"
  shows "\<exists>q r. qdivrem_long us vs v n arq = Ok (q, if arq then Some r else None)
     \<and> unat q = dval us 1 4 div dval vs (v + 1) n \<and> unat r = dval us 1 4 mod dval vs (v + 1) n"
proof -
  let ?N = "dval us 1 4" and ?V = "dval vs (v + 1) n"
  obtain n' where n': "n = Suc n'" using vn by (cases n) simp_all
  have V: "65536 ^ (n - 1) \<le> ?V" unfolding n' dval_first using v1 by (simp add: trans_le_add1)
  obtain u m where u: "uscan us 0 (4 - int n) = Ok (u, int m)" "u + m + n = 4" "us ! u = 0" "\<And>i. i < u \<Longrightarrow> us ! i = 0"
    "dval us u (m + 1 + n) = ?N" "?N < 65536 ^ (m + n)" using uscan_long [OF l(1,2) vn(2) V ge] by metis
  obtain d where d: "d \<le> 15" "norm_shift (rd vs (v + 1)) 0 = Ok d" "unat (vs ! (v + 1)) * 2 ^ d < 65536"
    using norm_shift_spec [of "rd vs (v + 1)" 0] v1 unfolding unat_rd by (auto simp: unat_bound16)
  define us1 where "us1 = (if 0 < d then shl us u (m + n) d else us)"
  define vs1 where "vs1 = (if 0 < d then shl vs (v + 1) (n - 1) d else vs)"
  note nm = normalized [OF l(1,3) vn v1 d(1,3) u(2,3,5), folded us1_def vs1_def]
  have lead: "dval us1 u n < dval vs1 (v + 1) n" unfolding nm(2) using lead_less [OF nm(1) u(6) V] vn(2) by simp
  have "u + m + n < length us1" "4 - m + m < length (replicate 5 0 :: u16 list)" using nm(3) u(2) by simp_all
  from div_loop_spec [OF vn(2) nm(5) this lead order_refl]
  obtain us2 qs2 where f: "fold (div_step vs1 v u (4 - m) n) [0..<m + 1] (us1, replicate 5 0) = (us2, qs2)"
    and R: "dval us2 u (m + 1 + n) = ?N * 2 ^ d mod (?V * 2 ^ d)"
    and Q: "dval qs2 (4 - m) (m + 1) = ?N * 2 ^ d div (?V * 2 ^ d)"
    and len: "length us2 = 5" and o: "\<And>k. k < u \<Longrightarrow> us2 ! k = us1 ! k" "\<And>k. k < 4 - m \<Longrightarrow> qs2 ! k = 0"
    unfolding nm(1,2) nm(3) by auto
  define us3 where "us3 = (if 0 < d then unshift us2 u m n d else us2)"
  have "qdivrem_long us vs v n arq = Ok (quad_of qs2, if arq then Some (quad_of us3) else None)"
    unfolding qdivrem_long_def u(1) bind_r.simps prod.case Let_def nat_int cleared_qs d(2) us1_def [symmetric] vs1_def [symmetric] f us3_def ..
  moreover have "unat (quad_of qs2) = ?N div ?V"
  proof -
    have "?N div ?V < 65536 ^ 4" using dval_less [of us 1 4] div_le_dividend [of ?N ?V] by linarith
    then show ?thesis unfolding unat_quad_of using dval_five [of "4 - m" qs2 "m + 1"] o(2) Q u(2) by simp
  qed
  moreover have "unat (quad_of us3) = ?N mod ?V"
  proof -
    have z: "\<And>i. i < u \<Longrightarrow> us2 ! i = 0" using o(1) nm(4) u(4) by simp
    have "dval us2 u (m + 1 + n) < 65536 ^ n" unfolding R nm(2) [symmetric] using lead dval_less [of vs1 "v + 1" n]
      by (intro less_trans [OF mod_less_divisor]) simp_all
    note sp = unshift_spec [of d u m n us2, OF _ _ this]
    have "dval us3 u (m + 1 + n) = ?N mod ?V" "\<And>i. i < u \<Longrightarrow> us3 ! i = 0"
      unfolding us3_def using R sp d(1) len u(2) z by (auto simp: mult_mod_left [symmetric])
    moreover have "?N mod ?V < 65536 ^ 4" using dval_less [of us 1 4] mod_less_eq_dividend [of ?N ?V] by linarith
    ultimately show ?thesis unfolding unat_quad_of using dval_five [of u us3 "m + 1 + n"] u(2) by simp
  qed
  ultimately show ?thesis by blast
qed

section \<open>The short division\<close>

lemma short_step:
  fixes p :: "u16 list" and i :: nat
  assumes "unat t < 65536" "unat r < unat t"
  defines "x \<equiv> COMBINE r (rd p i)"
  shows "unat (digit (x div t)) = (unat r * 65536 + unat (p ! i)) div unat t"
    "unat (x mod t) = (unat r * 65536 + unat (p ! i)) mod unat t" "unat (x mod t) < unat t"
proof -
  have x: "unat x = unat r * 65536 + unat (p ! i)" unfolding x_def
    using unat_COMBINE [of r "rd p i"] rd_bound assms by (simp add: unat_rd)
  have "unat x < (unat r + 1) * 65536" unfolding x using unat_bound16 [of "p ! i"] by simp
  also have "\<dots> \<le> unat t * 65536" using assms by (intro mult_le_mono1) simp
  finally have "unat x div unat t < 65536" by (simp add: less_mult_imp_div_less mult.commute)
  then show "unat (digit (x div t)) = (unat r * 65536 + unat (p ! i)) div unat t"
    by (simp add: unat_digit unat_div x)
  show "unat (x mod t) = (unat r * 65536 + unat (p ! i)) mod unat t" by (simp add: unat_mod x)
  show "unat (x mod t) < unat t" using assms by (simp add: unat_mod)
qed

lemma qdiv_short_spec:
  assumes t: "0 < unat t" "unat t < 65536" and q: "qdiv_short us t = (q, r)"
  shows "unat q = dval us 1 4 div unat t" "unat r = dval us 1 4 mod unat t"
proof -
  let ?P = "dval us 1"
  note dp = div_prefix [OF t(1)]
  define r1 where "r1 = rd us 1 mod t"
  define r2 where "r2 = COMBINE r1 (rd us 2) mod t"
  define r3 where "r3 = COMBINE r2 (rd us 3) mod t"
  define q1 q2 q3 q4 where "q1 = digit (rd us 1 div t)" and "q2 = digit (COMBINE r1 (rd us 2) div t)"
    and "q3 = digit (COMBINE r2 (rd us 3) div t)" and "q4 = digit (COMBINE r3 (rd us 4) div t)"
  have e: "Suc 1 = 2" "Suc 2 = 3" "Suc 3 = 4" "(1 :: nat) + 1 = 2" "(1 :: nat) + 2 = 3" "(1 :: nat) + 3 = 4" by simp_all
  have P1: "?P 1 = unat (us ! 1)" by simp
  have P: "?P 1 = unat (us ! 1)" "?P 2 = ?P 1 * 65536 + unat (us ! 2)" "?P 3 = ?P 2 * 65536 + unat (us ! 3)"
    "?P 4 = ?P 3 * 65536 + unat (us ! 4)"
    using P1 dval.simps(2) [of us 1 1] dval.simps(2) [of us 1 2] dval.simps(2) [of us 1 3] unfolding e by blast+
  have "unat (us ! 1) div unat t < 65536" using unat_bound16 [of "us ! 1"] div_le_dividend [of "unat (us ! 1)" "unat t"] by linarith
  then have 1: "unat q1 = ?P 1 div unat t" "unat r1 = ?P 1 mod unat t" "unat r1 < unat t"
    using t(1) unfolding P q1_def r1_def by (simp_all add: unat_digit unat_div unat_mod unat_rd)
  note s2 = short_step [OF t(2) 1(3), of us 2, folded r2_def q2_def]
  note s3 = short_step [OF t(2) s2(3), of us 3, folded r3_def q3_def]
  note s4 = short_step [OF t(2) s3(3), of us 4, folded q4_def]
  have r: "unat r2 = ?P 2 mod unat t" "unat r3 = ?P 3 mod unat t"
    unfolding s3(2) s2(2) 1(2) P(2,3) dp(1) [symmetric] by (simp_all only: dp(1) [symmetric])
  have r4: "(?P 3 * 65536 + unat (us ! 4)) mod unat t = (unat r3 * 65536 + unat (us ! 4)) mod unat t"
    unfolding r(2) by (rule dp(1))
  have qr: "q = uu_q (COMBINE (ucast q1) (ucast q2)) (COMBINE (ucast q3) (ucast q4))" "r = ucast (COMBINE r3 (rd us 4) mod t)"
    using q unfolding qdiv_short_def q1_def q2_def q3_def q4_def r1_def r2_def r3_def Let_def by auto
  show "unat r = ?P 4 mod unat t" unfolding qr(2) P(4) r4 s4(2) [symmetric]
    using s4(3) t(2) by (simp add: unsigned_ucast_eq take_bit_eq_mod)
  have "unat q = ((unat q1 * 65536 + unat q2) * 65536 + unat q3) * 65536 + unat q4"
  proof -
    have "q = quad_of [0, q1, q2, q3, q4]" unfolding qr by (simp add: quad_of_def rd_def)
    then have "unat q = dval [0, q1, q2, q3, q4] 1 4" by (simp only: unat_quad_of)
    then show ?thesis unfolding dval_4 by simp
  qed
  also have "unat q1 * 65536 + unat q2 = ?P 2 div unat t"
    using dp(2) [of "?P 1" "unat (us ! 2)"] unfolding P(2) 1(1,2) s2(1) by (rule sym)
  also have "\<dots> * 65536 + unat q3 = ?P 3 div unat t"
    using dp(2) [of "?P 2" "unat (us ! 3)"] unfolding P(3) r(1) s3(1) by (rule sym)
  also have "\<dots> * 65536 + unat q4 = ?P 4 div unat t"
    using dp(2) [of "?P 3" "unat (us ! 4)"] unfolding P(4) r(2) s4(1) by (rule sym)
  finally show "unat q = ?P 4 div unat t" .
qed

section \<open>Division\<close>

lemma quad_div_mod: "unat q = unat u div unat v \<Longrightarrow> q = u div v" "unat r = unat u mod unat v \<Longrightarrow> r = u mod v" for q r u v :: u64
  by (simp_all add: word_unat_eq_iff unat_div unat_mod)

lemma qdivrem_eq:
  assumes "vq \<noteq> 0"
  shows "qdivrem uq vq arq = Ok (uq div vq, if arq then Some (uq mod vq) else None)"
proof (cases "uq < vq")
  case True
  then have "uq div vq = 0" "uq mod vq = uq" by (simp_all add: word_less_nat_alt word_unat_eq_iff unat_div unat_mod)
  then show ?thesis using True assms by (simp add: qdivrem_def)
next
  case False
  let ?u = "digits_of uq" and ?v = "digits_of vq"
  have ge: "unat vq \<le> unat uq" "0 < unat vq" using False assms by (simp_all add: word_less_nat_alt unat_gt_0)
  have i: "(1 :: nat) + 1 = 2" "(1 :: nat) + 2 = 3" "(1 :: nat) + 3 = 4" by simp_all
  note du = digits_of_props [of uq] and dv = digits_of_props [of vq]
  have fin: ?thesis if "qdivrem uq vq arq = Ok (q, if arq then Some r else None)"
      "unat q = unat uq div unat vq" "unat r = unat uq mod unat vq" for q r
    using that by (simp add: quad_div_mod)
  have long: ?thesis if "vscan ?v 0 4 = (v, n)" "n \<noteq> 1" "v + n = 4" "2 \<le> n" "?v ! (v + 1) \<noteq> 0" "dval ?v (v + 1) n = unat vq" for v n
    using qdivrem_long_spec [OF du(1,2) dv(1) that(3,4), of arq] that ge du(3) assms False fin
    by (auto simp: qdivrem_def unat_gt_0)
  have short: ?thesis if "vscan ?v 0 4 = (2, 1)" "unat (rd ?v 4) = unat vq"
  proof -
    obtain q r where "qdiv_short ?u (rd ?v 4) = (q, r)" by (cases "qdiv_short ?u (rd ?v 4)")
    then show ?thesis using qdiv_short_spec [OF _ rd_bound, of ?v 4 ?u q r] that ge du(3) assms False
      by (intro fin [of q r]) (simp_all add: qdivrem_def)
  qed
  have z: "unat vq = ((unat (?v ! 1) * 65536 + unat (?v ! 2)) * 65536 + unat (?v ! 3)) * 65536 + unat (?v ! 4)"
    using dv(3) unfolding dval_4 i by simp
  consider "?v ! 1 \<noteq> 0" | "?v ! 1 = 0" "?v ! 2 \<noteq> 0" | "?v ! 1 = 0" "?v ! 2 = 0" "?v ! 3 \<noteq> 0"
    | "?v ! 1 = 0" "?v ! 2 = 0" "?v ! 3 = 0" by blast
  then show ?thesis
  proof cases
    case 1
    then show ?thesis using long [of 0 4] dv(3) by (simp add: vscan_eval)
  next
    case 2
    moreover have "dval ?v 2 3 = unat vq" using dv(3) dval_drop [of ?v 1 1 3] 2 by (simp add: numeral_2_eq_2)
    ultimately show ?thesis using long [of 1 3] by (simp add: vscan_eval numeral_2_eq_2)
  next
    case 3
    moreover have "dval ?v 3 2 = unat vq" using z 3 by (simp add: numeral_2_eq_2)
    ultimately show ?thesis using long [of 2 2] by (simp add: vscan_eval numeral_3_eq_3)
  next
    case 4
    then show ?thesis using short z by (simp add: vscan_eval unat_rd)
  qed
qed

text \<open>C4. \<open>__qdivrem\<close> computes quotient and remainder of every pair of 64-bit numbers, with and without the
  pointer to the remainder; the result is undefined exactly for the divisor 0.\<close>

theorem qdivrem_correct:
  "qdivrem uq vq arq =
     (if vq = 0 then Undef ''division by zero'' else Ok (uq div vq, if arq then Some (uq mod vq) else None))"
  by (cases "vq = 0") (simp add: qdivrem_def, simp add: qdivrem_eq)

end
