(* ===== verification/Quad.thy ===== *)
theory Quad
  imports Qdivrem
begin

text \<open>
  The arithmetic on \<open>quad_t\<close> that the compiler calls on a 32-bit machine (\<open>common/lib/libc/quad\<close>). A quad
  is a 64-bit word; \<open>union uu\<close> is the pair of its words \<open>ul_H\<close> and \<open>ul_L\<close>, put together by \<open>uu_q\<close>. Signed
  arithmetic wraps (it is compiled to these very functions), \<open>>>\<close> of a negative \<open>int\<close> extends the sign, and
  a shift of a 32-bit word by 32 or more is undefined.
\<close>

section \<open>Addition, subtraction, negation\<close>

definition of_bool32 :: "bool \<Rightarrow> u32" where
  "of_bool32 c = (if c then 1 else 0)"

definition adddi3 :: "u64 \<Rightarrow> u64 \<Rightarrow> u64" where
  "adddi3 a b = (let sumL = ul_L a + ul_L b in uu_q (ul_H a + ul_H b + of_bool32 (sumL < ul_L b)) sumL)"

definition subdi3 :: "u64 \<Rightarrow> u64 \<Rightarrow> u64" where
  "subdi3 a b = (let diffL = ul_L a - ul_L b in uu_q (ul_H a - ul_H b - of_bool32 (ul_L a < diffL)) diffL)"

definition negdi2 :: "u64 \<Rightarrow> u64" where
  "negdi2 a = (let resL = - ul_L a in uu_q (- ul_H a - of_bool32 (0 < resL)) resL)"

section \<open>Bitwise operations\<close>

definition anddi3 :: "u64 \<Rightarrow> u64 \<Rightarrow> u64" where
  "anddi3 a b = uu_q (ul_H a AND ul_H b) (ul_L a AND ul_L b)"

definition iordi3 :: "u64 \<Rightarrow> u64 \<Rightarrow> u64" where
  "iordi3 a b = uu_q (ul_H a OR ul_H b) (ul_L a OR ul_L b)"

definition xordi3 :: "u64 \<Rightarrow> u64 \<Rightarrow> u64" where
  "xordi3 a b = uu_q (ul_H a XOR ul_H b) (ul_L a XOR ul_L b)"

definition one_cmpldi2 :: "u64 \<Rightarrow> u64" where
  "one_cmpldi2 a = uu_q (NOT (ul_H a)) (NOT (ul_L a))"

section \<open>Comparison\<close>

definition cmpdi2 :: "u64 \<Rightarrow> u64 \<Rightarrow> int" where
  "cmpdi2 a b =
     (if sint (ul_H a) < sint (ul_H b) then 0 else if sint (ul_H b) < sint (ul_H a) then 2
      else if ul_L a < ul_L b then 0 else if ul_L b < ul_L a then 2 else 1)"

definition ucmpdi2 :: "u64 \<Rightarrow> u64 \<Rightarrow> int" where
  "ucmpdi2 a b =
     (if ul_H a < ul_H b then 0 else if ul_H b < ul_H a then 2
      else if ul_L a < ul_L b then 0 else if ul_L b < ul_L a then 2 else 1)"

section \<open>Shifts\<close>

definition ashldi3 :: "u64 \<Rightarrow> u32 \<Rightarrow> u64 result" where
  "ashldi3 a sh =
     (if sh = 0 then Ok a
      else if 32 \<le> sh
      then bind_r (c_shift push_bit (ul_L a) (sh - 32)) (\<lambda>h. Ok (uu_q h 0))
      else bind_r (c_shift push_bit (ul_H a) sh) (\<lambda>h1.
           bind_r (c_shift drop_bit (ul_L a) (32 - sh)) (\<lambda>h2.
           bind_r (c_shift push_bit (ul_L a) sh) (\<lambda>l. Ok (uu_q (h1 OR h2) l)))))"

definition lshldi3 :: "u64 \<Rightarrow> u32 \<Rightarrow> u64 result" where
  "lshldi3 a sh =
     (if sh = 0 then Ok a
      else if 32 \<le> sh
      then bind_r (c_shift push_bit (ul_L a) (sh - 32)) (\<lambda>h. Ok (uu_q h 0))
      else bind_r (c_shift push_bit (ul_H a) sh) (\<lambda>h1.
           bind_r (c_shift drop_bit (ul_L a) (32 - sh)) (\<lambda>h2.
           bind_r (c_shift push_bit (ul_L a) sh) (\<lambda>l. Ok (uu_q (h1 OR h2) l)))))"

definition lshrdi3 :: "u64 \<Rightarrow> u32 \<Rightarrow> u64 result" where
  "lshrdi3 a sh =
     (if sh = 0 then Ok a
      else if 32 \<le> sh
      then bind_r (c_shift drop_bit (ul_H a) (sh - 32)) (\<lambda>l. Ok (uu_q 0 l))
      else bind_r (c_shift drop_bit (ul_L a) sh) (\<lambda>l1.
           bind_r (c_shift push_bit (ul_H a) (32 - sh)) (\<lambda>l2.
           bind_r (c_shift drop_bit (ul_H a) sh) (\<lambda>h. Ok (uu_q h (l1 OR l2))))))"

definition ashrdi3 :: "u64 \<Rightarrow> u32 \<Rightarrow> u64 result" where
  "ashrdi3 a sh =
     (if sh = 0 then Ok a
      else if 32 \<le> sh
      then bind_r (c_shift signed_drop_bit (ul_H a) 31) (\<lambda>s.
           bind_r (c_shift signed_drop_bit s 1) (\<lambda>s.
           bind_r (c_shift signed_drop_bit (ul_H a) (sh - 32)) (\<lambda>l. Ok (uu_q s l))))
      else bind_r (c_shift drop_bit (ul_L a) sh) (\<lambda>l1.
           bind_r (c_shift push_bit (ul_H a) (32 - sh)) (\<lambda>l2.
           bind_r (c_shift signed_drop_bit (ul_H a) sh) (\<lambda>h. Ok (uu_q h (l1 OR l2))))))"

section \<open>Multiplication\<close>

definition LHUP :: "u32 \<Rightarrow> u32" where
  "LHUP x = push_bit HALF_BITS x"

text \<open>The 64-bit product of two words, with three multiplications of halfwords.\<close>

definition lmulq :: "u32 \<Rightarrow> u32 \<Rightarrow> u64" where
  "lmulq u v =
     (let u1 = HHALF u; u0 = LHALF u; v1 = HHALF v; v0 = LHALF v; low = u0 * v0
      in if u1 = 0 \<and> v1 = 0 then ucast low
         else
           let (udiff, neg) = (if u0 \<le> u1 then (u1 - u0, False) else (u0 - u1, True));
               (vdiff, neg) = (if v1 \<le> v0 then (v0 - v1, neg) else (v1 - v0, \<not> neg));
               mid = udiff * vdiff;
               high = u1 * v1;
               prodh = high + HHALF high;
               prodl = LHUP high;
               was = prodl;
               (prodl, prodh) =
                 (if neg
                  then let prodl = prodl - LHUP mid in (prodl, prodh - (HHALF mid + of_bool32 (was < prodl)))
                  else let prodl = prodl + LHUP mid in (prodl, prodh + (HHALF mid + of_bool32 (prodl < was))));
               was = prodl;
               prodl = prodl + LHUP low;
               prodh = prodh + (HHALF low + of_bool32 (prodl < was));
               prodl = prodl + low;
               prodh = (if prodl < low then prodh + 1 else prodh)
           in uu_q prodh prodl)"

definition muldi3 :: "u64 \<Rightarrow> u64 \<Rightarrow> u64" where
  "muldi3 a b =
     (let (u, negall) = (if 0 \<le> sint a then (a, False) else (- a, True));
          (v, negall) = (if 0 \<le> sint b then (b, negall) else (- b, \<not> negall));
          prod =
            (if ul_H u = 0 \<and> ul_H v = 0 then lmulq (ul_L u) (ul_L v)
             else
               let low = lmulq (ul_L u) (ul_L v);
                   (udiff, negmid) = (if ul_L u \<le> ul_H u then (ul_H u - ul_L u, False) else (ul_L u - ul_H u, True));
                   (vdiff, negmid) = (if ul_H v \<le> ul_L v then (ul_L v - ul_H v, negmid) else (ul_H v - ul_L v, \<not> negmid));
                   mid = udiff * vdiff;
                   high = ul_H u * ul_H v
               in uu_q (high + (if negmid then - mid else mid) + ul_L low + ul_H low) (ul_L low))
      in if negall then - prod else prod)"

section \<open>Division and remainder\<close>

definition udivdi3 :: "u64 \<Rightarrow> u64 \<Rightarrow> u64 result" where
  "udivdi3 a b = bind_r (qdivrem a b False) (\<lambda>(q, _). Ok q)"

text \<open>\<open>r\<close> is uninitialized where \<open>__qdivrem\<close> does not store it; it always does when it returns.\<close>

definition umoddi3 :: "u64 \<Rightarrow> u64 \<Rightarrow> u64 result" where
  "umoddi3 a b = bind_r (qdivrem a b True) (\<lambda>(_, r). case r of Some r \<Rightarrow> Ok r | None \<Rightarrow> Undef ''r is not initialized'')"

definition divdi3 :: "u64 \<Rightarrow> u64 \<Rightarrow> u64 result" where
  "divdi3 a b =
     (let (ua, neg) = (if sint a < 0 then (- a, True) else (a, False));
          (ub, neg) = (if sint b < 0 then (- b, \<not> neg) else (b, neg))
      in bind_r (qdivrem ua ub False) (\<lambda>(uq, _). Ok (if neg then - uq else uq)))"

definition moddi3 :: "u64 \<Rightarrow> u64 \<Rightarrow> u64 result" where
  "moddi3 a b =
     (let (ua, neg) = (if sint a < 0 then (- a, True) else (a, False));
          ub = (if sint b < 0 then - b else b)
      in bind_r (qdivrem ua ub True) (\<lambda>(_, r).
           case r of Some ur \<Rightarrow> Ok (if neg then - ur else ur) | None \<Rightarrow> Undef ''ur is not initialized''))"

text \<open>What the AVR32 compiler calls (\<open>sys/arch/avr32/avr32/int64.c\<close>).\<close>

definition avr32_sdiv64 :: "u64 \<Rightarrow> u64 \<Rightarrow> u64 result" where
  "avr32_sdiv64 s1 s2 = divdi3 s1 s2"

definition avr32_udiv64 :: "u64 \<Rightarrow> u64 \<Rightarrow> u64 result" where
  "avr32_udiv64 s1 s2 = udivdi3 s1 s2"

definition avr32_umod64 :: "u64 \<Rightarrow> u64 \<Rightarrow> u64 result" where
  "avr32_umod64 s1 s2 = umoddi3 s1 s2"

definition avr32_smod64 :: "u64 \<Rightarrow> u64 \<Rightarrow> u64 result" where
  "avr32_smod64 s1 s2 = moddi3 s1 s2"

end
