(* ===== verification/Quad_Props.thy ===== *)
theory Quad_Props
  imports Qdivrem_Props Quad "HOL-Library.Signed_Division"
begin

text \<open>
  The functions of the quad library against 64-bit words: carries between the words, comparison, multiplication
  by three multiplications of halves, shifts across the words and signed division. The signed division is proved
  from the contract of an unsigned one (\<open>unsigned_division\<close>), which \<open>__qdivrem\<close> provides.
\<close>

section \<open>Words of a quad\<close>

lemma ul_H_uu [simp]: "ul_H (uu_q h l) = h"
  unfolding ul_H_def uu_q_def by (rule bit_word_eqI) (auto simp: bit_simps dest: bit_imp_le_length)

lemma ul_L_uu [simp]: "ul_L (uu_q h l) = l"
  unfolding ul_L_def uu_q_def by (rule bit_word_eqI) (auto simp: bit_simps dest: bit_imp_le_length)

lemma uu_ul [simp]: "uu_q (ul_H a) (ul_L a) = a"
  unfolding ul_H_def ul_L_def uu_q_def by (rule bit_word_eqI) (auto simp: bit_simps)

lemma uu_q_add: "uu_q h l = ucast h * 4294967296 + ucast l"
proof -
  have "push_bit 32 (ucast h :: u64) AND ucast l = 0" by (rule bit_word_eqI) (auto simp: bit_simps dest: bit_imp_le_length)
  then show ?thesis unfolding uu_q_def by (simp add: disjunctive_add_eq_or [symmetric] push_bit_eq_mult)
qed

lemma bit_quad: "bit a n = (if n < 32 then bit (ul_L a) n else bit (ul_H a) (n - 32))" for a :: u64
  by (auto simp: ul_L_def ul_H_def bit_simps dest: bit_imp_le_length)

lemma ul_bitwise [simp]:
  "ul_H (a AND b) = ul_H a AND ul_H b" "ul_L (a AND b) = ul_L a AND ul_L b"
  "ul_H (a OR b) = ul_H a OR ul_H b" "ul_L (a OR b) = ul_L a OR ul_L b"
  "ul_H (a XOR b) = ul_H a XOR ul_H b" "ul_L (a XOR b) = ul_L a XOR ul_L b"
  "ul_H (NOT a) = NOT (ul_H a)" "ul_L (NOT a) = NOT (ul_L a)"
  by (rule bit_word_eqI; simp add: ul_H_def ul_L_def bit_simps)+

section \<open>Carries\<close>

text \<open>The high word may be computed modulo \<open>2 ^ 32\<close>.\<close>

lemma uu_word_of_int: "uu_q (word_of_int k) l = word_of_int (k * 4294967296 + uint l)"
proof -
  have z: "(18446744073709551616 :: u64) = 0" by (simp add: word_uint_eq_iff)
  have "k mod 4294967296 * 4294967296 + uint l = k * 4294967296 + uint l - k div 4294967296 * 18446744073709551616"
    using minus_div_mult_eq_mod [of k 4294967296, symmetric] by simp
  then have "word_of_int (k mod 4294967296 * 4294967296 + uint l) = (word_of_int (k * 4294967296 + uint l) :: u64)"
    by (simp add: z)
  moreover have "uu_q (word_of_int k) l = word_of_int (k mod 4294967296 * 4294967296 + uint l)"
    unfolding uu_q_add ucast_eq uint_word_of_int by simp
  ultimately show ?thesis by simp
qed

lemma uint_add_carry: "uint (x + y) = uint x + uint y - (if x + y < x then 4294967296 else 0)" for x y :: u32
  using uint_plus_if' [of x y] uint_bounded [of x] uint_bounded [of y] by (auto simp: word_less_alt)

lemma uint_sub_borrow: "uint (x - y) = uint x - uint y + (if x < x - y then 4294967296 else 0)" for x y :: u32
  using uint_sub_if' [of x y] uint_bounded [of x] uint_bounded [of y] by (auto simp: word_less_alt)

lemma of_bool32_int: "of_bool32 c = word_of_int (of_bool c)"
  by (simp add: of_bool32_def)

lemma carry_sym: "x + y < x \<longleftrightarrow> x + y < y" for x y :: u32
  using uint_plus_if' [of x y] uint_bounded [of x] uint_bounded [of y] by (auto simp: word_less_alt)

lemma uu_add: "uu_q (h + (x + of_bool32 (l + y < l))) (l + y) = uu_q h l + uu_q x y"
proof -
  have "h + (x + of_bool32 (l + y < l)) = word_of_int (uint h + (uint x + of_bool (l + y < l)))"
    by (simp add: of_bool32_int)
  then have "uu_q (h + (x + of_bool32 (l + y < l))) (l + y)
      = word_of_int ((uint h + (uint x + of_bool (l + y < l))) * 4294967296 + uint (l + y))"
    by (simp only: uu_word_of_int)
  also have "\<dots> = word_of_int (uint h * 4294967296 + uint l) + word_of_int (uint x * 4294967296 + uint y)"
    unfolding wi_hom_syms(1) uint_add_carry by (simp add: algebra_simps)
  also have "\<dots> = uu_q h l + uu_q x y" by (simp only: uu_word_of_int [symmetric] word_of_int_uint)
  finally show ?thesis .
qed

lemma uu_sub: "uu_q (h - (x + of_bool32 (l < l - y))) (l - y) = uu_q h l - uu_q x y"
proof -
  have "h - (x + of_bool32 (l < l - y)) = word_of_int (uint h - (uint x + of_bool (l < l - y)))"
    by (simp add: of_bool32_int)
  then have "uu_q (h - (x + of_bool32 (l < l - y))) (l - y)
      = word_of_int ((uint h - (uint x + of_bool (l < l - y))) * 4294967296 + uint (l - y))"
    by (simp only: uu_word_of_int)
  also have "\<dots> = word_of_int (uint h * 4294967296 + uint l) - word_of_int (uint x * 4294967296 + uint y)"
    unfolding wi_hom_syms(2) uint_sub_borrow by (simp add: algebra_simps)
  also have "\<dots> = uu_q h l - uu_q x y" by (simp only: uu_word_of_int [symmetric] word_of_int_uint)
  finally show ?thesis .
qed

lemma adddi3_eq: "adddi3 a b = a + b"
  using uu_add [of "ul_H a" "ul_H b" "ul_L a" "ul_L b"] carry_sym [of "ul_L a" "ul_L b"]
  by (simp add: adddi3_def Let_def add.assoc)

lemma subdi3_eq: "subdi3 a b = a - b"
  using uu_sub [of "ul_H a" "ul_H b" "ul_L a" "ul_L b"] by (simp add: subdi3_def Let_def diff_diff_eq)

lemma negdi2_eq: "negdi2 a = - a"
proof -
  have "negdi2 a = subdi3 0 a" by (simp add: negdi2_def subdi3_def Let_def ul_H_def ul_L_def)
  then show ?thesis by (simp add: subdi3_eq)
qed

section \<open>Comparison\<close>

lemma uint32_range: "0 \<le> uint (x :: u32)" "uint x < 4294967296"
  using uint_bounded [of x] by simp_all

lemma uint_words: "uint a = uint (ul_H a) * 4294967296 + uint (ul_L a)"
proof -
  have "uint a = int (unat (uu_q (ul_H a) (ul_L a)))" by simp
  also have "\<dots> = uint (ul_H a) * 4294967296 + uint (ul_L a)" unfolding unat_uu_q by simp
  finally show ?thesis .
qed

lemma sint_words: "sint a = sint (ul_H a) * 4294967296 + uint (ul_L a)"
proof -
  let ?k = "sint (ul_H a) * 4294967296 + uint (ul_L a)"
  have "a = word_of_int ?k" using uu_word_of_int [of "sint (ul_H a)" "ul_L a"] by simp
  moreover have "- 2147483648 \<le> sint (ul_H a)" "sint (ul_H a) < 2147483648" using sint_ge [of "ul_H a"] sint_lt [of "ul_H a"] by simp_all
  then have "- 9223372036854775808 \<le> ?k" "?k < 9223372036854775808" using uint32_range [of "ul_L a"] by linarith+
  then have "sint (word_of_int ?k :: u64) = ?k" by (subst int_word_sint) simp
  ultimately show ?thesis by simp
qed

lemma lex_words:
  fixes h h' l l' :: int
  assumes "0 \<le> l" "l < 4294967296" "0 \<le> l'" "l' < 4294967296"
  shows "h * 4294967296 + l < h' * 4294967296 + l' \<longleftrightarrow> h < h' \<or> h = h' \<and> l < l'"
  using assms by linarith

lemma ucmpdi2_eq: "ucmpdi2 a b = (if a < b then 0 else if b < a then 2 else 1)"
  by (auto simp: ucmpdi2_def word_less_alt uint_words [of a] uint_words [of b] lex_words uint32_range)

lemma cmpdi2_eq: "cmpdi2 a b = (if sint a < sint b then 0 else if sint b < sint a then 2 else 1)"
  by (auto simp: cmpdi2_def word_less_alt sint_words [of a] sint_words [of b] lex_words uint32_range)

section \<open>Multiplication\<close>

abbreviation wide :: "u32 \<Rightarrow> u64" where
  "wide x \<equiv> ucast x"
lemma wide_mult: "unat x < 65536 \<Longrightarrow> unat y < 65536 \<Longrightarrow> wide (x * y) = wide x * wide y"
  using unat_mult16 [of x y] by (simp add: word_unat_eq_iff unsigned_ucast_eq take_bit_eq_mod unat_word_ariths)

lemma unat_wide: "unat (wide x) = unat x"
  using unsigned_less [of x, where 'a = nat] by (simp add: unsigned_ucast_eq take_bit_eq_mod)

lemma wide_sub: "y \<le> x \<Longrightarrow> wide (x - y) = wide x - wide y"
proof -
  assume "y \<le> x"
  then have "wide y \<le> wide x" "unat (x - y) = unat x - unat y" by (simp_all add: word_le_nat_alt unat_wide unat_sub)
  then show ?thesis by (simp add: word_unat_eq_iff unat_wide unat_sub)
qed

lemma uu_halves: "uu_q (HHALF x) (LHUP x) = wide x * 65536"
proof -
  have "uu_q (HHALF x) (LHUP x) = push_bit 16 (wide x)"
    unfolding uu_q_def HHALF_def LHUP_def by (rule bit_word_eqI) (auto simp: bit_simps dest: bit_imp_le_length)
  then show ?thesis by (simp add: push_bit_eq_mult)
qed

lemma wide_halves: "wide x = wide (HHALF x) * 65536 + wide (LHALF x)"
proof -
  have "unat x div 65536 * 65536 < 4294967296" using unsigned_less [of x, where 'a = nat] by (simp add: div_mult2_eq le_less_trans [OF div_times_less_eq_dividend])
  then show ?thesis using unsigned_less [of x, where 'a = nat]
   by (simp add: word_unat_eq_iff unat_word_ariths unat_wide unat_HHALF unat_LHALF)
qed

lemma uu_high_add: "uu_q (x + y) l = wide x * 4294967296 + uu_q y l"
  using uu_add [of x y 0 l] by (simp add: of_bool32_def uu_q_add)

lemma karatsuba:
  fixes u1 u0 v1 v0 b :: "'a :: comm_ring_1"
  shows "u1 * v1 * (b * b) + u1 * v1 * b + (u1 - u0) * (v0 - v1) * b + u0 * v0 * b + u0 * v0 = (u1 * b + u0) * (v1 * b + v0)"
  by (simp add: algebra_simps)

lemma diffs:
  assumes "(ud, n1) = (if u0 \<le> u1 then (u1 - u0, False) else (u0 - u1, True))"
    and "(vd, n2) = (if v1 \<le> v0 then (v0 - v1, n1) else (v1 - v0, \<not> n1))"
  shows "(wide u1 - wide u0) * (wide v0 - wide v1) = (if n2 then - (wide ud * wide vd) else wide ud * wide vd)"
    "(u1 - u0) * (v0 - v1) = (if n2 then - (ud * vd) else ud * vd)"
proof -
  have "wide u1 - wide u0 = (if n1 then - wide ud else wide ud)" "u1 - u0 = (if n1 then - ud else ud)"
    using assms(1) by (auto simp: wide_sub split: if_splits)
  moreover have "wide v0 - wide v1 = (if n1 = n2 then wide vd else - wide vd)" "v0 - v1 = (if n1 = n2 then vd else - vd)"
    using assms(2) by (auto simp: wide_sub split: if_splits)
  ultimately show "(wide u1 - wide u0) * (wide v0 - wide v1) = (if n2 then - (wide ud * wide vd) else wide ud * wide vd)"
    "(u1 - u0) * (v0 - v1) = (if n2 then - (ud * vd) else ud * vd)" by (simp_all only:) (cases n1; cases n2; simp)+
qed

lemma diff_small: "unat x < 65536 \<Longrightarrow> unat y < 65536 \<Longrightarrow> (d, n) = (if y \<le> x then (x - y, p) else (y - x, q)) \<Longrightarrow> unat d < 65536" for x y d :: u32
  by (auto simp: unat_sub word_le_nat_alt split: if_splits)

lemma lmulq_eq: "lmulq u v = wide u * wide v"
proof -
  define u1 u0 v1 v0 where "u1 = HHALF u" and "u0 = LHALF u" and "v1 = HHALF v" and "v0 = LHALF v"
  have b: "unat u1 < 65536" "unat u0 < 65536" "unat v1 < 65536" "unat v0 < 65536"
    unfolding u1_def u0_def v1_def v0_def unat_HHALF unat_LHALF using unsigned_less [of u, where 'a = nat] unsigned_less [of v, where 'a = nat]
    by (simp_all add: div_less_iff_less_mult)
  have uv: "wide u = wide u1 * 65536 + wide u0" "wide v = wide v1 * 65536 + wide v0"
    unfolding u1_def u0_def v1_def v0_def by (rule wide_halves)+
  obtain ud n1 where ud: "(ud, n1) = (if u0 \<le> u1 then (u1 - u0, False) else (u0 - u1, True))" by (metis surj_pair)
  obtain vd n2 where vd: "(vd, n2) = (if v1 \<le> v0 then (v0 - v1, n1) else (v1 - v0, \<not> n1))" by (metis surj_pair)
  define high mid low where "high = u1 * v1" and "mid = ud * vd" and "low = u0 * v0"
  have w: "wide high = wide u1 * wide v1" "wide low = wide u0 * wide v0" "wide mid = wide ud * wide vd"
    unfolding high_def mid_def low_def using b diff_small [OF b(1,2) ud] diff_small [OF b(4,3) vd] by (simp_all add: wide_mult)
  show ?thesis
  proof (cases "u1 = 0 \<and> v1 = 0")
    case True
    then have "lmulq u v = wide low"
      unfolding lmulq_def Let_def u1_def [symmetric] u0_def [symmetric] v1_def [symmetric] v0_def [symmetric] by (simp add: low_def)
    then show ?thesis using True uv w by simp
  next
    case False
    obtain l1 h1 where p1: "(l1, h1) =
        (if n2 then (LHUP high - LHUP mid, high + HHALF high - (HHALF mid + of_bool32 (LHUP high < LHUP high - LHUP mid)))
         else (LHUP high + LHUP mid, high + HHALF high + (HHALF mid + of_bool32 (LHUP high + LHUP mid < LHUP high))))" by (metis surj_pair)
    have P1: "uu_q h1 l1 = wide high * 4294967296 + wide high * 65536 + (wide u1 - wide u0) * (wide v0 - wide v1) * 65536"
    proof -
      have "uu_q h1 l1 = uu_q (high + HHALF high) (LHUP high) + (if n2 then - uu_q (HHALF mid) (LHUP mid) else uu_q (HHALF mid) (LHUP mid))"
        using p1 by (auto simp: uu_sub uu_add split: if_splits)
      then show ?thesis unfolding diffs(1) [OF ud vd] w(3) [symmetric] uu_high_add uu_halves by simp
    qed
    define l2 h2 where "l2 = l1 + LHUP low" and "h2 = h1 + (HHALF low + of_bool32 (l2 < l1))"
    have P2: "uu_q h2 l2 = uu_q h1 l1 + wide low * 65536" unfolding h2_def l2_def by (simp add: uu_add uu_halves)
    have "lmulq u v = uu_q (if l2 + low < low then h2 + 1 else h2) (l2 + low)"
      unfolding lmulq_def Let_def u1_def [symmetric] u0_def [symmetric] v1_def [symmetric] v0_def [symmetric] ud [symmetric] prod.case
        vd [symmetric] high_def [symmetric] mid_def [symmetric] low_def [symmetric] p1 [symmetric] l2_def [symmetric] h2_def [symmetric]
      using False by auto
    also have "\<dots> = uu_q h2 l2 + wide low"
      using uu_add [of h2 0 l2 low] carry_sym [of l2 low] by (auto simp: of_bool32_def uu_q_add)
    also have "\<dots> = wide u * wide v"
      unfolding P2 P1 w uv using karatsuba [of "wide u1" "wide v1" 65536 "wide u0" "wide v0"] by simp
    finally show ?thesis .
  qed
qed

lemma uu_high_mult: "uu_q (x * y) 0 = wide x * wide y * 4294967296"
  using uu_word_of_int [of "uint x * uint y" 0] by simp

lemma ul_L_mult: "ul_L (wide x * wide y) = x * y"
  by (simp add: word_unat_eq_iff unat_ul_L unat_word_ariths unat_wide mod_mod_cancel)

lemma quad_low: "ul_H u = 0 \<Longrightarrow> wide (ul_L u) = u"
  using uu_q_add [of "ul_H u" "ul_L u", unfolded uu_ul] by simp

lemma quad_product:
  assumes "(ud, n1) = (if ul_L u \<le> ul_H u then (ul_H u - ul_L u, False) else (ul_L u - ul_H u, True))"
    and "(vd, n2) = (if ul_H v \<le> ul_L v then (ul_L v - ul_H v, n1) else (ul_H v - ul_L v, \<not> n1))"
  defines "low \<equiv> lmulq (ul_L u) (ul_L v)"
  shows "uu_q (ul_H u * ul_H v + (if n2 then - (ud * vd) else ud * vd) + ul_L low + ul_H low) (ul_L low) = u * v"
proof -
  let ?u1 = "ul_H u" and ?u0 = "ul_L u" and ?v1 = "ul_H v" and ?v0 = "ul_L v"
  have "ul_L low = ?u0 * ?v0" unfolding low_def lmulq_eq by (rule ul_L_mult)
  then have m: "?u1 * ?v1 + (if n2 then - (ud * vd) else ud * vd) + ul_L low = ?u1 * ?v0 + ?u0 * ?v1"
    unfolding diffs(2) [OF assms(1,2), symmetric] by (simp add: algebra_simps)
  have "uu_q (?u1 * ?v0 + ?u0 * ?v1 + ul_H low) (ul_L low) = wide (?u1 * ?v0 + ?u0 * ?v1) * 4294967296 + low"
    unfolding uu_high_add by simp
  also have "wide (?u1 * ?v0 + ?u0 * ?v1) * 4294967296 = (wide ?u1 * wide ?v0 + wide ?u0 * wide ?v1) * 4294967296"
    using uu_high_add [of "?u1 * ?v0" "?u0 * ?v1" 0] uu_high_mult [of ?u1 ?v0] uu_high_mult [of ?u0 ?v1] by (simp add: uu_q_add algebra_simps)
  also have "\<dots> + low = u * v"
  proof -
    have z: "(18446744073709551616 :: u64) = 0" by (simp add: word_uint_eq_iff)
    have "u * v = (wide ?u1 * 4294967296 + wide ?u0) * (wide ?v1 * 4294967296 + wide ?v0)"
      using uu_q_add [of ?u1 ?u0] uu_q_add [of ?v1 ?v0] by simp
    also have "\<dots> = wide ?u1 * wide ?v1 * 18446744073709551616 + (wide ?u1 * wide ?v0 + wide ?u0 * wide ?v1) * 4294967296 + wide ?u0 * wide ?v0"
      by (simp add: algebra_simps)
    finally show ?thesis unfolding low_def lmulq_eq by (simp add: z)
  qed
  finally show ?thesis unfolding m .
qed

lemma muldi3_eq: "muldi3 a b = a * b"
proof -
  obtain u na where u: "(u, na) = (if 0 \<le> sint a then (a, False) else (- a, True))" by (metis surj_pair)
  obtain v nb where v: "(v, nb) = (if 0 \<le> sint b then (b, na) else (- b, \<not> na))" by (metis surj_pair)
  obtain ud n1 where ud: "(ud, n1) = (if ul_L u \<le> ul_H u then (ul_H u - ul_L u, False) else (ul_L u - ul_H u, True))" by (metis surj_pair)
  obtain vd n2 where vd: "(vd, n2) = (if ul_H v \<le> ul_L v then (ul_L v - ul_H v, n1) else (ul_H v - ul_L v, \<not> n1))" by (metis surj_pair)
  have "lmulq (ul_L u) (ul_L v) = u * v" if "ul_H u = 0" "ul_H v = 0"
    using that by (simp add: lmulq_eq quad_low)
  then have "muldi3 a b = (if nb then - (u * v) else u * v)"
    unfolding muldi3_def u [symmetric] Let_def prod.case v [symmetric] ud [symmetric] vd [symmetric] quad_product [OF ud vd] by simp
  also have "\<dots> = a * b" using u v by (auto split: if_splits)
  finally show ?thesis .
qed

section \<open>Shifts\<close>

lemma sh_simps:
  fixes sh :: u32
  shows "sh < 64 \<longleftrightarrow> unat sh < 64" "32 \<le> sh \<longleftrightarrow> 32 \<le> unat sh" "sh = 0 \<longleftrightarrow> unat sh = 0"
    "32 \<le> unat sh \<Longrightarrow> unat (sh - 32) = unat sh - 32" "unat sh < 32 \<Longrightarrow> unat (32 - sh) = 32 - unat sh"
    "32 \<le> unat sh \<Longrightarrow> 32 \<le> sh - 32 \<longleftrightarrow> 64 \<le> unat sh" "unat sh < 32 \<Longrightarrow> 0 < unat sh \<Longrightarrow> \<not> 32 \<le> 32 - sh"
  by (auto simp: word_less_nat_alt word_le_nat_alt unat_sub unat_eq_zero)

lemma ashldi3_eq: "ashldi3 a sh = (if sh < 64 then Ok (push_bit (unat sh) a) else Undef ''shift too large'')"
proof -
  have "uu_q (push_bit (unat sh - 32) (ul_L a)) 0 = push_bit (unat sh) a" if "32 \<le> unat sh"
    by (rule bit_word_eqI) (use that in \<open>auto simp: uu_q_def ul_L_def bit_simps dest: bit_imp_le_length\<close>)
  moreover have "uu_q (push_bit (unat sh) (ul_H a) OR drop_bit (32 - unat sh) (ul_L a)) (push_bit (unat sh) (ul_L a)) = push_bit (unat sh) a"
    if "unat sh < 32" "unat sh \<noteq> 0"
    by (rule bit_word_eqI) (use that in \<open>auto simp: uu_q_def ul_L_def ul_H_def bit_simps dest: bit_imp_le_length\<close>)
  ultimately show ?thesis
    by (auto simp: ashldi3_def c_shift_def sh_simps)
qed

lemma lshldi3_eq: "lshldi3 a sh = ashldi3 a sh"
  by (simp add: lshldi3_def ashldi3_def)

lemma lshrdi3_eq: "lshrdi3 a sh = (if sh < 64 then Ok (drop_bit (unat sh) a) else Undef ''shift too large'')"
proof -
  have "uu_q 0 (drop_bit (unat sh - 32) (ul_H a)) = drop_bit (unat sh) a" if "32 \<le> unat sh"
    by (rule bit_word_eqI) (use that in \<open>auto simp: uu_q_def ul_H_def bit_simps dest: bit_imp_le_length\<close>)
  moreover have "uu_q (drop_bit (unat sh) (ul_H a)) (drop_bit (unat sh) (ul_L a) OR push_bit (32 - unat sh) (ul_H a)) = drop_bit (unat sh) a"
    if "unat sh < 32"
    by (rule bit_word_eqI) (use that in \<open>auto simp: uu_q_def ul_L_def ul_H_def bit_simps add.commute dest: bit_imp_le_length\<close>)
  ultimately show ?thesis
    by (auto simp: lshrdi3_def c_shift_def sh_simps)
qed

lemma bit_uu: "bit (uu_q h l) n = (if n < 32 then bit l n else bit h (n - 32))"
  using bit_quad [of "uu_q h l" n] by simp

lemma signed_drop_small:
  assumes s: "s < 32"
  shows "uu_q (signed_drop_bit s (ul_H a)) (drop_bit s (ul_L a) OR push_bit (32 - s) (ul_H a)) = signed_drop_bit s a"
proof (rule bit_word_eqI)
  fix n assume n: "n < LENGTH(64)"
  show "bit (uu_q (signed_drop_bit s (ul_H a)) (drop_bit s (ul_L a) OR push_bit (32 - s) (ul_H a))) n = bit (signed_drop_bit s a) n"
  proof (cases "n < 32")
    case True
    have "bit (signed_drop_bit s a) n = bit a (s + n)"
      using True s not_le [of "64 - s" n] by (auto simp: bit_signed_drop_bit_iff)
    moreover have "n - (32 - s) = s + n - 32" if "\<not> s + n < 32" using s by simp
    ultimately show ?thesis using True s bit_imp_le_length [of "ul_L a" "s + n"]
      by (auto simp: bit_uu bit_quad [of a] bit_or_iff bit_drop_bit_eq bit_push_bit_iff)
  next
    case False
    have "bit (signed_drop_bit s a) n = bit a (if 64 - s \<le> n then 63 else s + n)" using n by (simp add: bit_signed_drop_bit_iff)
    moreover have "bit (signed_drop_bit s (ul_H a)) (n - 32) = bit (ul_H a) (if 32 - s \<le> n - 32 then 31 else s + (n - 32))"
      using n False by (auto simp: bit_signed_drop_bit_iff)
    moreover have "32 - s \<le> n - 32 \<longleftrightarrow> 64 - s \<le> n" "s + (n - 32) = s + n - 32" using False s by linarith+
    ultimately show ?thesis using False by (simp add: bit_uu bit_quad [of a])
  qed
qed

lemma ashrdi3_eq: "ashrdi3 a sh = (if sh < 64 then Ok (signed_drop_bit (unat sh) a) else Undef ''shift too large'')"
proof -
  have "uu_q (signed_drop_bit 1 (signed_drop_bit 31 (ul_H a))) (signed_drop_bit (unat sh - 32) (ul_H a)) = signed_drop_bit (unat sh) a"
    if "32 \<le> unat sh" "unat sh < 64"
    by (rule bit_word_eqI) (use that in \<open>auto simp: uu_q_def ul_H_def bit_simps bit_signed_drop_bit_iff dest: bit_imp_le_length\<close>)
  moreover note signed_drop_small [of "unat sh" a]
  ultimately show ?thesis
    by (auto simp: ashrdi3_def c_shift_def sh_simps)
qed

section \<open>Signed division\<close>

lemma abs_word:
  fixes a :: u64
  assumes "(ua, n) = (if sint a < 0 then (- a, p) else (a, q))"
  shows "uint ua = \<bar>sint a\<bar>"
proof -
  have "- 9223372036854775808 \<le> sint a" "sint a < 9223372036854775808" using sint_ge [of a] sint_lt [of a] by simp_all
  moreover have "ua = word_of_int \<bar>sint a\<bar>" using assms by (auto split: if_splits)
  ultimately show ?thesis by (simp add: uint_word_of_int)
qed

text \<open>What a client of an unsigned division gets from it: signed division that truncates to 0.\<close>

locale unsigned_division =
  fixes dr :: "u64 \<Rightarrow> u64 \<Rightarrow> bool \<Rightarrow> (u64 \<times> u64 option) result"
  assumes dr_ok: "v \<noteq> 0 \<Longrightarrow> dr u v arq = Ok (u div v, if arq then Some (u mod v) else None)"
begin

lemma signed_quotient:
  assumes "b \<noteq> 0" "(ua, n1) = (if sint a < 0 then (- a, True) else (a, False))"
    "(ub, n2) = (if sint b < 0 then (- b, \<not> n1) else (b, n1))"
  shows "bind_r (dr ua ub False) (\<lambda>(q, _). Ok (if n2 then - q else q)) = Ok (word_of_int (sint a sdiv sint b))"
proof -
  have ub: "ub \<noteq> 0" using assms(1,3) by (auto split: if_splits)
  have "ua div ub = word_of_int (\<bar>sint a\<bar> div \<bar>sint b\<bar>)"
    by (simp add: word_div_def abs_word [OF assms(2)] abs_word [OF assms(3)])
  moreover have "sint a sdiv sint b = (if n2 then - (\<bar>sint a\<bar> div \<bar>sint b\<bar>) else \<bar>sint a\<bar> div \<bar>sint b\<bar>)"
    using assms(2,3) by (auto simp: signed_divide_int_def sgn_if split: if_splits)
  ultimately show ?thesis by (simp add: dr_ok [OF ub])
qed

lemma signed_remainder:
  assumes "b \<noteq> 0" "(ua, n1) = (if sint a < 0 then (- a, True) else (a, False))" "ub = (if sint b < 0 then - b else b)"
  shows "bind_r (dr ua ub True) (\<lambda>(_, r). case r of Some r \<Rightarrow> Ok (if n1 then - r else r) | None \<Rightarrow> Undef m)
       = Ok (word_of_int (sint a smod sint b))"
proof -
  have ub: "ub \<noteq> 0" using assms(1,3) by (auto split: if_splits)
  have "uint ub = \<bar>sint b\<bar>" using abs_word [of ub True b True True] assms(3) by simp
  then have "ua mod ub = word_of_int (\<bar>sint a\<bar> mod \<bar>sint b\<bar>)" by (simp add: word_mod_def abs_word [OF assms(2)])
  moreover have "sint a smod sint b = (if n1 then - (\<bar>sint a\<bar> mod \<bar>sint b\<bar>) else \<bar>sint a\<bar> mod \<bar>sint b\<bar>)"
    using assms(2) by (auto simp: smod_int_alt_def sgn_if split: if_splits)
  ultimately show ?thesis by (simp add: dr_ok [OF ub])
qed

end

interpretation qd: unsigned_division qdivrem
  by unfold_locales (rule qdivrem_eq)

lemma divdi3_eq: "b \<noteq> 0 \<Longrightarrow> divdi3 a b = Ok (word_of_int (sint a sdiv sint b))"
proof -
  assume "b \<noteq> 0"
  obtain ua n1 where ua: "(ua, n1) = (if sint a < 0 then (- a, True) else (a, False))" by (metis surj_pair)
  obtain ub n2 where ub: "(ub, n2) = (if sint b < 0 then (- b, \<not> n1) else (b, n1))" by (metis surj_pair)
  show ?thesis using qd.signed_quotient [OF \<open>b \<noteq> 0\<close> ua ub]
    unfolding divdi3_def ua [symmetric] Let_def prod.case ub [symmetric] .
qed

lemma moddi3_eq: "b \<noteq> 0 \<Longrightarrow> moddi3 a b = Ok (word_of_int (sint a smod sint b))"
proof -
  assume "b \<noteq> 0"
  obtain ua n1 where ua: "(ua, n1) = (if sint a < 0 then (- a, True) else (a, False))" by (metis surj_pair)
  show ?thesis using qd.signed_remainder [OF \<open>b \<noteq> 0\<close> ua refl]
    unfolding moddi3_def ua [symmetric] Let_def prod.case .
qed

section \<open>Correctness of the quad library\<close>

lemmas quad_div_defs = divdi3_def moddi3_def udivdi3_def umoddi3_def
  avr32_sdiv64_def avr32_smod64_def avr32_udiv64_def avr32_umod64_def

text \<open>C29. The product computed from three products of halfwords, and the product of quads computed from products
  of words, are the products of the operands modulo \<open>2 ^ 64\<close>.\<close>

theorem quad_multiply: "lmulq u v = ucast u * ucast v \<and> muldi3 a b = a * b"
  by (simp add: lmulq_eq muldi3_eq)

text \<open>C30. The division calls of the compiler: signed division truncates to 0 and the remainder has the sign of the dividend, as C requires; both, and
  the unsigned pair, return for a divisor other than 0 and are undefined for 0.\<close>

theorem quad_division:
  "avr32_sdiv64 a b = (if b = 0 then Undef ''division by zero'' else Ok (word_of_int (sint a sdiv sint b)))
   \<and> avr32_smod64 a b = (if b = 0 then Undef ''division by zero'' else Ok (word_of_int (sint a smod sint b)))
   \<and> avr32_udiv64 a b = (if b = 0 then Undef ''division by zero'' else Ok (a div b))
   \<and> avr32_umod64 a b = (if b = 0 then Undef ''division by zero'' else Ok (a mod b))"
proof (cases "b = 0")
  case True
  then show ?thesis by (simp add: quad_div_defs qdivrem_def)
next
  case False
  then show ?thesis by (simp add: quad_div_defs(3-8) divdi3_eq moddi3_eq qd.dr_ok)
qed

text \<open>The shifts of quads are the shifts of 64-bit words for every amount below 64, the case 0 and the case of
  a whole word included; from 64 on they shift a word by its width or more, which C leaves undefined.\<close>

theorem quad_shifts:
  "ashldi3 a sh = (if sh < 64 then Ok (push_bit (unat sh) a) else Undef ''shift too large'')
   \<and> lshldi3 a sh = (if sh < 64 then Ok (push_bit (unat sh) a) else Undef ''shift too large'')
   \<and> lshrdi3 a sh = (if sh < 64 then Ok (drop_bit (unat sh) a) else Undef ''shift too large'')
   \<and> ashrdi3 a sh = (if sh < 64 then Ok (signed_drop_bit (unat sh) a) else Undef ''shift too large'')"
  by (simp add: ashldi3_eq lshldi3_eq lshrdi3_eq ashrdi3_eq)

text \<open>Carry and borrow between the words make addition, subtraction and negation those of 64-bit words, the
  comparisons order quads by their signed and unsigned values, and the bitwise operations act on all 64 bits.\<close>

theorem quad_words:
  "adddi3 a b = a + b \<and> subdi3 a b = a - b \<and> negdi2 a = - a
   \<and> anddi3 a b = a AND b \<and> iordi3 a b = a OR b \<and> xordi3 a b = a XOR b \<and> one_cmpldi2 a = NOT a
   \<and> cmpdi2 a b = (if sint a < sint b then 0 else if sint a = sint b then 1 else 2)
   \<and> ucmpdi2 a b = (if a < b then 0 else if a = b then 1 else 2)"
  by (auto simp: adddi3_eq subdi3_eq negdi2_eq anddi3_def iordi3_def xordi3_def one_cmpldi2_def cmpdi2_eq ucmpdi2_eq
      simp flip: ul_bitwise)

end
