(* ===== verification/Blist.thy ===== *)
theory Blist
  imports Prelude
begin

text \<open>
  The bitmap allocator of swap space (\<open>kern/subr_blist.c\<close>, \<open>sys/blist.h\<close>): a radix tree with hints, laid out in
  an array. A node is an index into the array; a meta node is followed by its 16 children, each with everything
  below it, so the child after the one at \<open>i\<close> is at \<open>i + next_skip\<close>. Block numbers, counts, radices, available
  space and hints are \<open>blist_blkno_t\<close>, 32-bit words that wrap; array offsets (\<open>i\<close>, \<open>skip\<close>, \<open>memindex\<close>) stay below
  \<open>2 ^ 25\<close> and are \<open>nat\<close>. An access outside the array is undefined behaviour.
\<close>

section \<open>Nodes\<close>

record blmeta =
  bm_u :: u32
  bm_bighint :: u32

text \<open>\<open>bm_u\<close> is the union of \<open>bmu_avail\<close>, for a meta node, and \<open>bmu_bitmap\<close>, for a leaf.\<close>

record blist =
  bl_blocks :: u32
  bl_radix :: u32
  bl_skip :: nat
  bl_free :: u32
  bl_root :: "blmeta list"
  bl_rootblks :: nat

abbreviation (input) BLIST_NONE :: u32 where "BLIST_NONE \<equiv> 0xffffffff"
abbreviation (input) BLIST_BMAP_RADIX :: u32 where "BLIST_BMAP_RADIX \<equiv> 32"
abbreviation (input) BLIST_META_RADIX :: u32 where "BLIST_META_RADIX \<equiv> 16"

type_synonym nodes = "blmeta list"

definition node :: "nodes \<Rightarrow> nat \<Rightarrow> blmeta result" where
  "node mm i = (if i < length mm then Ok (mm ! i) else Undef ''outside the tree'')"

definition upd_node :: "nodes \<Rightarrow> nat \<Rightarrow> (blmeta \<Rightarrow> blmeta) \<Rightarrow> nodes result" where
  "upd_node mm i f = (if i < length mm then Ok (mm[i := f (mm ! i)]) else Undef ''outside the tree'')"

section \<open>The loop over children\<close>

text \<open>
  \<open>for (i = ...; i <= skip; i += next_skip)\<close>. The body leaves the loop with \<open>Inl\<close> and goes on with \<open>Inr\<close>. A step of
  0, which no tree has, would not end.
\<close>

lemma bind_r_cong [fundef_cong]: "m = m' \<Longrightarrow> (\<And>x. m' = Ok x \<Longrightarrow> f x = g x) \<Longrightarrow> bind_r m f = bind_r m' g"
  by (cases m') auto

function scan_loop :: "nat \<Rightarrow> nat \<Rightarrow> (nat \<Rightarrow> 's \<Rightarrow> ('s + 's) result) \<Rightarrow> nat \<Rightarrow> 's \<Rightarrow> 's result" where
  "scan_loop skip ns body i s =
     (if skip < i then Ok s
      else bind_r (body i s) (\<lambda>x. case x of Inl s \<Rightarrow> Ok s | Inr s \<Rightarrow> if ns = 0 then Hang else scan_loop skip ns body (i + ns) s))"
  by pat_completeness auto
termination
  by (relation "measure (\<lambda>(skip, ns, body, i, s). Suc skip - i)") auto

declare scan_loop.simps [simp del]

lemma scan_loop_cong [fundef_cong]:
  assumes "skip = skip'" "ns = ns'" "i = i'" "s = s'"
    and "\<And>j t. i' \<le> j \<Longrightarrow> j \<le> skip' \<Longrightarrow> body j t = body' j t"
  shows "scan_loop skip ns body i s = scan_loop skip' ns' body' i' s'"
proof -
  have "(\<forall>j t. i \<le> j \<longrightarrow> j \<le> skip \<longrightarrow> body j t = body' j t) \<longrightarrow> scan_loop skip ns body i s = scan_loop skip ns body' i s"
  proof (induction skip ns body i s rule: scan_loop.induct)
    case (1 skip ns body i s)
    show ?case
      apply (subst scan_loop.simps, subst (2) scan_loop.simps)
      using 1 by (auto split: sum.splits intro!: bind_r_cong)
  qed
  then show ?thesis using assms by simp
qed

section \<open>Leaves\<close>

text \<open>The search for the lowest bit set: \<open>while (j)\<close>.\<close>

function leaf_first :: "nat \<Rightarrow> u32 \<Rightarrow> u32 \<Rightarrow> nat \<Rightarrow> nat" where
  "leaf_first j msk orig r =
     (if j = 0 then r
      else let (r, orig) = (if orig AND msk = 0 then (r + j, drop_bit j orig) else (r, orig));
               j = j div 2
           in leaf_first j (drop_bit j msk) orig r)"
  by pat_completeness auto
termination
  by (relation "measure (\<lambda>(j, msk, orig, r). j)") auto

declare leaf_first.simps [simp del]

text \<open>The search for a run of bits: \<open>for (j = 0; j <= n; ++j)\<close> with the shifted mask.\<close>

primrec leaf_run :: "nat \<Rightarrow> u32 \<Rightarrow> u32 \<Rightarrow> nat \<Rightarrow> (nat \<times> u32) option" where
  "leaf_run 0 orig msk j = None"
| "leaf_run (Suc left) orig msk j =
     (if orig AND msk = msk then Some (j, msk) else leaf_run left orig (push_bit 1 msk) (j + 1))"

definition blst_leaf_alloc :: "nodes \<Rightarrow> nat \<Rightarrow> u32 \<Rightarrow> u32 \<Rightarrow> (nodes \<times> u32) result" where
  "blst_leaf_alloc mm b blk count =
     bind_r (node mm b) (\<lambda>sc.
       let orig = bm_u sc
       in if orig = 0
          then bind_r (upd_node mm b (\<lambda>sc. sc\<lparr>bm_bighint := 0\<rparr>)) (\<lambda>mm. Ok (mm, BLIST_NONE))
          else if count = 1
          then let r = leaf_first 16 0xffff orig 0
               in bind_r (upd_node mm b (\<lambda>sc. sc\<lparr>bm_u := bm_u sc AND NOT (push_bit r 1)\<rparr>)) (\<lambda>mm. Ok (mm, blk + of_nat r))
          else
            bind_r (if count \<le> BLIST_BMAP_RADIX
                    then bind_r (c_shift drop_bit (- 1) (BLIST_BMAP_RADIX - count)) (\<lambda>msk.
                           Ok (leaf_run (Suc (unat (BLIST_BMAP_RADIX - count))) orig msk 0))
                    else Ok None) (\<lambda>found.
              case found of
                Some (j, msk) \<Rightarrow> bind_r (upd_node mm b (\<lambda>sc. sc\<lparr>bm_u := bm_u sc AND NOT msk\<rparr>)) (\<lambda>mm. Ok (mm, blk + of_nat j))
              | None \<Rightarrow> bind_r (upd_node mm b (\<lambda>sc. sc\<lparr>bm_bighint := count - 1\<rparr>)) (\<lambda>mm. Ok (mm, BLIST_NONE))))"

text \<open>The bits of a range of blocks in a leaf.\<close>

definition leaf_mask :: "u32 \<Rightarrow> u32 \<Rightarrow> u32 result" where
  "leaf_mask blk count =
     (let n = blk AND (BLIST_BMAP_RADIX - 1)
      in bind_r (c_shift push_bit (- 1) n) (\<lambda>lo.
         bind_r (c_shift drop_bit (- 1) (BLIST_BMAP_RADIX - count - n)) (\<lambda>hi. Ok (lo AND hi))))"

definition blst_leaf_free :: "nodes \<Rightarrow> nat \<Rightarrow> u32 \<Rightarrow> u32 \<Rightarrow> nodes result" where
  "blst_leaf_free mm b blk count =
     bind_r (leaf_mask blk count) (\<lambda>msk.
     bind_r (node mm b) (\<lambda>sc.
       if bm_u sc AND msk \<noteq> 0 then Panic ''blst_radix_free: freeing free block''
       else upd_node mm b (\<lambda>sc. sc\<lparr>bm_u := bm_u sc OR msk, bm_bighint := BLIST_BMAP_RADIX\<rparr>)))"

text \<open>\<open>for (nblks = 0; bitmap != 0; nblks++) bitmap &= bitmap - 1;\<close>\<close>

lemma clear_lowest: "b \<noteq> 0 \<Longrightarrow> unat (b AND (b - 1)) < unat b" for b :: u32
proof -
  assume "b \<noteq> 0"
  then have "b - 1 < b" by (simp add: word_less_nat_alt unat_minus_one unat_gt_0)
  moreover have "b AND (b - 1) \<le> b - 1" by (simp add: word_and_le1)
  ultimately show ?thesis by (simp add: word_less_nat_alt word_le_nat_alt)
qed

function count_bits :: "u32 \<Rightarrow> u32 \<Rightarrow> u32" where
  "count_bits bitmap nblks = (if bitmap = 0 then nblks else count_bits (bitmap AND (bitmap - 1)) (nblks + 1))"
  by pat_completeness auto
termination
  by (relation "measure (\<lambda>(bitmap, nblks). unat bitmap)") (auto simp: clear_lowest)

declare count_bits.simps [simp del]

definition blst_leaf_fill :: "nodes \<Rightarrow> nat \<Rightarrow> u32 \<Rightarrow> u32 \<Rightarrow> (nodes \<times> u32) result" where
  "blst_leaf_fill mm b blk count =
     bind_r (leaf_mask blk count) (\<lambda>msk.
     bind_r (node mm b) (\<lambda>sc.
     bind_r (upd_node mm b (\<lambda>sc. sc\<lparr>bm_u := bm_u sc AND NOT msk\<rparr>)) (\<lambda>mm.
       Ok (mm, count_bits (bm_u sc AND msk) 0))))"

section \<open>Meta nodes\<close>

text \<open>The children of a node that was all free, or all allocated, get their own state.\<close>

definition set_children :: "nodes \<Rightarrow> nat \<Rightarrow> nat \<Rightarrow> nat \<Rightarrow> (blmeta \<Rightarrow> blmeta) \<Rightarrow> nodes result" where
  "set_children mm b skip ns f =
     scan_loop skip ns (\<lambda>i mm.
       bind_r (node mm (b + i)) (\<lambda>ch.
         if bm_bighint ch = - 1 then Ok (Inl mm)
         else bind_r (upd_node mm (b + i) f) (\<lambda>mm. Ok (Inr mm)))) 1 mm"

definition children_free :: "nat \<Rightarrow> u32 \<Rightarrow> blmeta \<Rightarrow> blmeta" where
  "children_free ns radix ch =
     (if ns = 1 then ch\<lparr>bm_u := - 1, bm_bighint := BLIST_BMAP_RADIX\<rparr> else ch\<lparr>bm_bighint := radix, bm_u := radix\<rparr>)"

function blst_meta_alloc :: "nodes \<Rightarrow> nat \<Rightarrow> u32 \<Rightarrow> u32 \<Rightarrow> u32 \<Rightarrow> nat \<Rightarrow> (nodes \<times> u32) result" where
  "blst_meta_alloc mm b blk count radix skip =
     (let ns = skip div 16; subradix = radix div BLIST_META_RADIX
      in bind_r (node mm b) (\<lambda>sc.
        if bm_u sc = 0
        then bind_r (upd_node mm b (\<lambda>sc. sc\<lparr>bm_bighint := count\<rparr>)) (\<lambda>mm. Ok (mm, BLIST_NONE))
        else
          bind_r (if bm_u sc = radix then set_children mm b skip ns (children_free ns subradix) else Ok mm) (\<lambda>mm.
          bind_r (scan_loop skip ns (\<lambda>i (mm, blk, ret).
            bind_r (node mm (b + i)) (\<lambda>ch.
              if bm_bighint ch = - 1 then Ok (Inl (mm, blk, ret))
              else if count \<le> bm_bighint ch
              then bind_r (if ns = 1 then blst_leaf_alloc mm (b + i) blk count
                           else blst_meta_alloc mm (b + i) blk count subradix (ns - 1)) (\<lambda>(mm, r).
                     if r \<noteq> BLIST_NONE
                     then bind_r (upd_node mm b (\<lambda>sc. let avail = bm_u sc - count
                                    in sc\<lparr>bm_u := avail, bm_bighint := if avail < bm_bighint sc then avail else bm_bighint sc\<rparr>))
                            (\<lambda>mm. Ok (Inl (mm, blk, Some r)))
                     else Ok (Inr (mm, blk + subradix, None)))
              else if subradix < count then Panic ''blist_meta_alloc: allocation too large''
              else Ok (Inr (mm, blk + subradix, None)))) 1 (mm, blk, None)) (\<lambda>(mm, _, ret).
          case ret of
            Some r \<Rightarrow> Ok (mm, r)
          | None \<Rightarrow> bind_r (upd_node mm b (\<lambda>sc. if count \<le> bm_bighint sc then sc\<lparr>bm_bighint := count - 1\<rparr> else sc))
                      (\<lambda>mm. Ok (mm, BLIST_NONE))))))"
  by pat_completeness auto
termination
  by (relation "measure (\<lambda>(mm, b, blk, count, radix, skip). skip)") auto

declare blst_meta_alloc.simps [simp del]

text \<open>\<open>while (i <= skip && blk < freeBlk + count)\<close>: the range is cut at the boundaries of the children.\<close>

function blst_meta_free :: "nodes \<Rightarrow> nat \<Rightarrow> u32 \<Rightarrow> u32 \<Rightarrow> u32 \<Rightarrow> nat \<Rightarrow> u32 \<Rightarrow> nodes result" where
  "blst_meta_free mm b freeBlk count radix skip blk =
     (let ns = skip div 16; subradix = radix div BLIST_META_RADIX
      in bind_r (node mm b) (\<lambda>sc.
         bind_r (if bm_u sc = 0
                 then bind_r (upd_node mm b (\<lambda>sc. sc\<lparr>bm_u := count, bm_bighint := count\<rparr>)) (\<lambda>mm.
                        if count \<noteq> radix then set_children mm b skip ns (\<lambda>ch. ch\<lparr>bm_bighint := 0, bm_u := 0\<rparr>) else Ok mm)
                 else upd_node mm b (\<lambda>sc. sc\<lparr>bm_u := bm_u sc + count\<rparr>)) (\<lambda>mm.
         bind_r (node mm b) (\<lambda>sc.
           if bm_u sc = radix then Ok mm
           else if radix < bm_u sc then Panic ''blst_meta_free: freeing already free blocks''
           else
             let c = (freeBlk - blk) div subradix;
                 blk = blk + c * subradix
             in bind_r (scan_loop skip ns (\<lambda>i (mm, freeBlk, count, blk).
                  if \<not> blk < freeBlk + count then Ok (Inl (mm, freeBlk, count, blk))
                  else
                    let v = blk + subradix - freeBlk;
                        v = (if count < v then count else v)
                    in bind_r (node mm b) (\<lambda>sc.
                       if bm_bighint sc = - 1 then Panic ''blst_meta_free: freeing unexpected range''
                       else
                         bind_r (if ns = 1 then blst_leaf_free mm (b + i) freeBlk v
                                 else blst_meta_free mm (b + i) freeBlk v subradix (ns - 1) blk) (\<lambda>mm.
                         bind_r (node mm (b + i)) (\<lambda>ch.
                         bind_r (upd_node mm b (\<lambda>sc. if bm_bighint sc < bm_bighint ch then sc\<lparr>bm_bighint := bm_bighint ch\<rparr> else sc)) (\<lambda>mm.
                           Ok (Inr (mm, freeBlk + v, count - v, blk + subradix)))))))
                (unat c * ns + 1) (mm, freeBlk, count, blk)) (\<lambda>(mm, _). Ok mm)))))"
  by pat_completeness auto
termination
  by (relation "measure (\<lambda>(mm, b, freeBlk, count, radix, skip, blk). skip)") auto

declare blst_meta_free.simps [simp del]

function blst_meta_fill :: "nodes \<Rightarrow> nat \<Rightarrow> u32 \<Rightarrow> u32 \<Rightarrow> u32 \<Rightarrow> nat \<Rightarrow> u32 \<Rightarrow> (nodes \<times> u32) result" where
  "blst_meta_fill mm b allocBlk count radix skip blk =
     (let ns = skip div 16; subradix = radix div BLIST_META_RADIX
      in bind_r (node mm b) (\<lambda>sc.
        if count = radix \<or> bm_u sc = 0
        then bind_r (upd_node mm b (\<lambda>sc. sc\<lparr>bm_u := 0, bm_bighint := count\<rparr>)) (\<lambda>mm. Ok (mm, bm_u sc))
        else if radix < count then Panic ''blist_meta_fill: allocation too large''
        else
          bind_r (if bm_u sc = radix then set_children mm b skip ns (children_free ns subradix) else Ok mm) (\<lambda>mm.
          let c = (allocBlk - blk) div subradix;
              blk = blk + c * subradix
          in bind_r (scan_loop skip ns (\<lambda>i (mm, allocBlk, count, blk, nblks).
               if \<not> blk < allocBlk + count then Ok (Inl (mm, allocBlk, count, blk, nblks))
               else
                 let v = blk + subradix - allocBlk;
                     v = (if count < v then count else v)
                 in bind_r (node mm b) (\<lambda>sc.
                    if bm_bighint sc = - 1 then Panic ''blst_meta_fill: filling unexpected range''
                    else
                      bind_r (if ns = 1 then blst_leaf_fill mm (b + i) allocBlk v
                              else blst_meta_fill mm (b + i) allocBlk v subradix (ns - 1) blk) (\<lambda>(mm, n).
                        Ok (Inr (mm, allocBlk + v, count - v, blk + subradix, nblks + n)))))
             (unat c * ns + 1) (mm, allocBlk, count, blk, 0)) (\<lambda>(mm, _, _, _, nblks).
             bind_r (upd_node mm b (\<lambda>sc. sc\<lparr>bm_u := bm_u sc - nblks\<rparr>)) (\<lambda>mm. Ok (mm, nblks))))))"
  by pat_completeness auto
termination
  by (relation "measure (\<lambda>(mm, b, allocBlk, count, radix, skip, blk). skip)") auto

declare blst_meta_fill.simps [simp del]

section \<open>Layout\<close>

text \<open>
  \<open>blst_radix_init\<close> with \<open>scan\<close> NULL (\<open>wr\<close> false) only counts the nodes below; otherwise it writes them. The loop
  variable of the code is the last component of the loop's state.
\<close>

function blst_radix_init :: "bool \<Rightarrow> nodes \<Rightarrow> nat \<Rightarrow> u32 \<Rightarrow> nat \<Rightarrow> u32 \<Rightarrow> (nodes \<times> nat) result" where
  "blst_radix_init wr mm b radix skip count =
     bind_r (if wr then upd_node mm b (\<lambda>sc. sc\<lparr>bm_bighint := 0, bm_u := 0\<rparr>) else Ok mm) (\<lambda>mm.
       if radix = BLIST_BMAP_RADIX then Ok (mm, 0)
       else
         let subradix = radix div BLIST_META_RADIX; ns = skip div 16
         in bind_r (scan_loop skip ns (\<lambda>i (mm, count, memindex, iv).
              if subradix \<le> count
              then bind_r (blst_radix_init wr mm (b + i) subradix (ns - 1) subradix) (\<lambda>(mm, x).
                     Ok (Inr (mm, count - subradix, i + x, i + ns)))
              else if 0 < count
              then bind_r (blst_radix_init wr mm (b + i) subradix (ns - 1) count) (\<lambda>(mm, x).
                     Ok (Inr (mm, 0, i + x, i + ns)))
              else bind_r (if wr then upd_node mm (b + i) (\<lambda>sc. sc\<lparr>bm_bighint := - 1\<rparr>) else Ok mm) (\<lambda>mm.
                     Ok (Inl (mm, count, memindex, i))))
            1 (mm, count, 0, 1)) (\<lambda>(mm, _, memindex, i). Ok (mm, if memindex < i then i else memindex)))"
  by pat_completeness auto
termination
  by (relation "measure (\<lambda>(wr, mm, b, radix, skip, count). skip)") auto

declare blst_radix_init.simps [simp del]

section \<open>The interface\<close>

text \<open>
  \<open>while (radix < blocks)\<close>. After seven rounds the radix is 0 and the loop does not end. The memory of the tree
  comes from malloc(9) with the contents \<open>junk\<close>.
\<close>

function radix_for :: "u32 \<Rightarrow> u32 \<Rightarrow> nat \<Rightarrow> (u32 \<times> nat) result" where
  "radix_for blocks radix skip =
     (if radix < blocks
      then if radix * BLIST_META_RADIX \<le> radix then Hang else radix_for blocks (radix * BLIST_META_RADIX) ((skip + 1) * 16)
      else Ok (radix, skip))"
  by pat_completeness auto
termination
  by (relation "measure (\<lambda>(blocks, radix, skip). 2 ^ 32 - unat radix)")
    (auto simp: word_le_nat_alt not_le intro!: diff_less_mono2 intro: order.strict_trans2 [OF unsigned_less])

declare radix_for.simps [simp del]

definition blist_create :: "(nat \<Rightarrow> blmeta) \<Rightarrow> u32 \<Rightarrow> blist result" where
  "blist_create junk blocks =
     bind_r (radix_for blocks BLIST_BMAP_RADIX 0) (\<lambda>(radix, skip).
     bind_r (blst_radix_init False [] 0 radix skip blocks) (\<lambda>(_, n).
     bind_r (blst_radix_init True (map junk [0..<1 + n]) 0 radix skip blocks) (\<lambda>(mm, _).
       Ok \<lparr>bl_blocks = blocks, bl_radix = radix, bl_skip = skip, bl_free = 0, bl_root = mm, bl_rootblks = 1 + n\<rparr>)))"

text \<open>A \<open>blist_t\<close> is a pointer, \<open>None\<close> when it is NULL.\<close>

definition blist_alloc :: "blist option \<Rightarrow> u32 \<Rightarrow> (blist option \<times> u32) result" where
  "blist_alloc bl count =
     (case bl of
        None \<Rightarrow> Ok (None, BLIST_NONE)
      | Some bl \<Rightarrow>
          bind_r (if bl_radix bl = BLIST_BMAP_RADIX then blst_leaf_alloc (bl_root bl) 0 0 count
                  else blst_meta_alloc (bl_root bl) 0 0 count (bl_radix bl) (bl_skip bl)) (\<lambda>(mm, blk).
            let bl = bl\<lparr>bl_root := mm\<rparr>
            in Ok (Some (if blk \<noteq> BLIST_NONE then bl\<lparr>bl_free := bl_free bl - count\<rparr> else bl), blk)))"

definition blist_free :: "blist option \<Rightarrow> u32 \<Rightarrow> u32 \<Rightarrow> blist option result" where
  "blist_free bl blkno count =
     (case bl of
        None \<Rightarrow> Ok None
      | Some bl \<Rightarrow>
          bind_r (if bl_radix bl = BLIST_BMAP_RADIX then blst_leaf_free (bl_root bl) 0 blkno count
                  else blst_meta_free (bl_root bl) 0 blkno count (bl_radix bl) (bl_skip bl) 0) (\<lambda>mm.
            Ok (Some (bl\<lparr>bl_root := mm, bl_free := bl_free bl + count\<rparr>))))"

definition blist_fill :: "blist option \<Rightarrow> u32 \<Rightarrow> u32 \<Rightarrow> (blist option \<times> u32) result" where
  "blist_fill bl blkno count =
     (case bl of
        None \<Rightarrow> Ok (None, 0)
      | Some bl \<Rightarrow>
          bind_r (if bl_radix bl = BLIST_BMAP_RADIX then blst_leaf_fill (bl_root bl) 0 blkno count
                  else blst_meta_fill (bl_root bl) 0 blkno count (bl_radix bl) (bl_skip bl) 0) (\<lambda>(mm, filled).
            Ok (Some (bl\<lparr>bl_root := mm, bl_free := bl_free bl - filled\<rparr>), filled)))"

section \<open>Resizing\<close>

text \<open>
  \<open>for (j = 0; j < BLIST_BMAP_RADIX && j < count; ++j)\<close>: one block after the other. \<open>1 << 31\<close> is the top bit, as
  the compiler has it.
\<close>

primrec leaf_copy :: "nat \<Rightarrow> u32 \<Rightarrow> u32 \<Rightarrow> u32 \<Rightarrow> nat \<Rightarrow> blist option \<Rightarrow> blist option result" where
  "leaf_copy 0 v blk count j dest = Ok dest"
| "leaf_copy (Suc left) v blk count j dest =
     (if of_nat j < count
      then bind_r (if v AND push_bit j 1 \<noteq> 0 then blist_free dest (blk + of_nat j) 1 else Ok dest) (\<lambda>dest.
             leaf_copy left v blk count (Suc j) dest)
      else Ok dest)"

function blst_copy :: "nodes \<Rightarrow> nat \<Rightarrow> u32 \<Rightarrow> u32 \<Rightarrow> nat \<Rightarrow> blist option \<Rightarrow> u32 \<Rightarrow> blist option result" where
  "blst_copy mm b blk radix skip dest count =
     bind_r (node mm b) (\<lambda>sc.
       if radix = BLIST_BMAP_RADIX
       then let v = bm_u sc
            in if v = - 1 then blist_free dest blk count
               else if v \<noteq> 0 then leaf_copy 32 v blk count 0 dest
               else Ok dest
       else if bm_u sc = 0 then Ok dest
       else if bm_u sc = radix then blist_free dest blk (if count < radix then count else radix)
       else
         let subradix = radix div BLIST_META_RADIX; ns = skip div 16
         in bind_r (scan_loop skip ns (\<lambda>i (dest, blk, count).
              if count = 0 then Ok (Inl (dest, blk, count))
              else bind_r (node mm (b + i)) (\<lambda>ch.
                if bm_bighint ch = - 1 then Ok (Inl (dest, blk, count))
                else if subradix \<le> count
                then bind_r (blst_copy mm (b + i) blk subradix (ns - 1) dest subradix) (\<lambda>dest.
                       Ok (Inr (dest, blk + subradix, count - subradix)))
                else bind_r (if count \<noteq> 0 then blst_copy mm (b + i) blk subradix (ns - 1) dest count else Ok dest) (\<lambda>dest.
                       Ok (Inr (dest, blk + subradix, 0)))))
            1 (dest, blk, count)) (\<lambda>(dest, _). Ok dest))"
  by pat_completeness auto
termination
  by (relation "measure (\<lambda>(mm, b, blk, radix, skip, dest, count). skip)") auto

declare blst_copy.simps [simp del]

text \<open>\<open>blist_resize\<close> replaces the list by a new one; \<open>blist_destroy\<close> of the old one only gives its memory back.\<close>

definition blist_resize :: "(nat \<Rightarrow> blmeta) \<Rightarrow> blist \<Rightarrow> u32 \<Rightarrow> bool \<Rightarrow> blist option result" where
  "blist_resize junk save count freenew =
     bind_r (blist_create junk count) (\<lambda>newbl.
       let count = (if bl_blocks save < count then bl_blocks save else count)
       in bind_r (blst_copy (bl_root save) 0 0 (bl_radix save) (bl_skip save) (Some newbl) count) (\<lambda>new.
            if freenew \<and> count < bl_blocks newbl then blist_free new count (bl_blocks newbl - count) else Ok new))"

end
