(* ===== verification/Blist_Leaf.thy ===== *)
theory Blist_Leaf
  imports Blist
begin

text \<open>
  The bitmaps of the leaves as sets of block numbers: the search for one bit and for a run, the mask of a range, and
  the count of set bits.
\<close>

definition lbits :: "u32 \<Rightarrow> nat set" where
  "lbits w = {i. bit w i}"

lemma in_lbits: "i \<in> lbits w \<longleftrightarrow> bit w i"
  by (simp add: lbits_def)

lemma lbits_less: "i \<in> lbits w \<Longrightarrow> i < 32"
  by (auto simp: in_lbits dest: bit_imp_le_length)

lemma finite_lbits [simp]: "finite (lbits w)"
  by (rule finite_subset [of _ "{..<32}"]) (auto dest: lbits_less)

lemma lbits_simps [simp]:
  "lbits 0 = {}" "lbits (v AND w) = lbits v \<inter> lbits w" "lbits (v OR w) = lbits v \<union> lbits w"
  "lbits (- 1) = {..<32}" "lbits (NOT w) = {..<32} - lbits w"
  by (auto simp: lbits_def bit_simps dest: bit_imp_le_length)

lemma lbits_diff: "lbits v \<inter> ({..<32} - A) = lbits v - A"
  by (auto dest: lbits_less)

lemma lbits_inj: "lbits v = lbits w \<Longrightarrow> v = w"
  by (rule bit_word_eqI) (auto simp: lbits_def)

lemma lbits_empty: "lbits w = {} \<longleftrightarrow> w = 0"
  using lbits_inj [of w 0] by auto

lemma lbits_shift: "j + c \<le> 32 \<Longrightarrow> lbits (push_bit j (mask c)) = {j..<j + c}"
  by (auto simp: lbits_def bit_simps)

lemma lbits_one: "j < 32 \<Longrightarrow> lbits (2 ^ j) = {j}"
  by (auto simp: lbits_def bit_simps)

section \<open>The lowest bit\<close>

lemma leaf_first_0 [simp]: "leaf_first 0 msk orig r = r"
  by (simp add: leaf_first.simps)

lemma leaf_first_pow:
  assumes "p < 2 * 2 ^ e" "bit orig p" "e \<le> 4"
  shows "\<exists>p < 2 * 2 ^ e. bit orig p \<and> leaf_first (2 ^ e) (mask (2 ^ e)) orig r = r + p"
  using assms
proof (induction e arbitrary: orig r p)
  case 0
  have o: "orig AND 1 = 0 \<longleftrightarrow> \<not> bit orig 0" by (simp add: and_one_eq bit_0 mask_eq_exp_minus_1 even_iff_mod_2_eq_zero)
  have r: "leaf_first 1 (mask 1) orig r = (if bit orig 0 then r else r + 1)"
    by (subst leaf_first.simps) (simp add: o)
  show ?case
  proof (cases "bit orig 0")
    case True
    then show ?thesis using r by (intro exI [of _ 0]) simp
  next
    case False
    then have "p = 1" using 0 by (cases p) auto
    then show ?thesis using 0 False r by (intro exI [of _ 1]) simp
  qed
next
  case (Suc e)
  have le: "e \<le> 4" "(2 :: nat) ^ Suc e \<le> 2 ^ 4" using Suc.prems(3) power_increasing [OF Suc.prems(3), of "2 :: nat"] by simp_all
  have m: "drop_bit (2 ^ e) (mask (2 ^ Suc e) :: u32) = mask (2 ^ e)"
    by (rule bit_word_eqI) (use le in \<open>auto simp: bit_simps\<close>)
  show ?case
  proof (cases "orig AND mask (2 ^ Suc e) = 0")
    case True
    have "bit (mask (2 ^ Suc e) :: u32) p" if "p < 2 ^ Suc e" using that bit_imp_le_length [OF Suc.prems(2)] by (simp add: bit_simps)
    then have ge: "2 ^ Suc e \<le> p" using True Suc.prems(2) by (metis bit_and_iff bit_0_eq bot_apply bot_bool_def not_le)
    then have "p - 2 ^ Suc e < 2 * 2 ^ e" "bit (drop_bit (2 ^ Suc e) orig) (p - 2 ^ Suc e)"
      using Suc.prems by (simp_all add: bit_simps)
    from Suc.IH [OF this le(1), of "r + 2 ^ Suc e"] obtain p' where "p' < 2 * 2 ^ e" "bit (drop_bit (2 ^ Suc e) orig) p'"
      "leaf_first (2 ^ e) (mask (2 ^ e)) (drop_bit (2 ^ Suc e) orig) (r + 2 ^ Suc e) = r + 2 ^ Suc e + p'" by blast
    then show ?thesis using True m
      by (intro exI [of _ "2 ^ Suc e + p'"]) (subst leaf_first.simps, simp add: bit_simps Let_def)
  next
    case False
    then obtain p' where "p' < 2 * 2 ^ e" "bit orig p'" by (auto simp: bit_eq_iff bit_simps)
    from Suc.IH [OF this le(1), of r] obtain p'' where "p'' < 2 * 2 ^ e" "bit orig p''" "leaf_first (2 ^ e) (mask (2 ^ e)) orig r = r + p''"
      by blast
    then show ?thesis using False m
      by (intro exI [of _ p'']) (subst leaf_first.simps, simp add: Let_def)
  qed
qed

lemma leaf_first_spec:
  assumes "w \<noteq> 0"
  shows "leaf_first 16 0xffff w 0 \<in> lbits w"
proof -
  obtain p where "p \<in> lbits w" using assms lbits_empty [of w] by auto
  then have "p < 2 * 2 ^ 4" "bit w p" "4 \<le> (4 :: nat)" using lbits_less by (auto simp: in_lbits)
  from leaf_first_pow [OF this, of 0] have "bit w (leaf_first (2 ^ 4) (mask (2 ^ 4)) w 0)" by auto
  moreover have "(mask 16 :: u32) = 0xffff" by (simp add: mask_eq_exp_minus_1)
  ultimately show ?thesis by (simp add: in_lbits)
qed

section \<open>Runs\<close>

lemma leaf_run_Some:
  "leaf_run left orig (push_bit j (mask c)) j = Some (i, m) \<Longrightarrow> left + j + c \<le> 33 \<Longrightarrow>
     m = push_bit i (mask c) \<and> i + c \<le> 32 \<and> {i..<i + c} \<subseteq> lbits orig"
proof (induction left arbitrary: j)
  case (Suc left)
  show ?case
  proof (cases "orig AND push_bit j (mask c) = push_bit j (mask c)")
    case True
    then have "lbits orig \<inter> lbits (push_bit j (mask c)) = lbits (push_bit j (mask c))" by (metis lbits_simps(2))
    then show ?thesis using Suc.prems True lbits_shift [of j c] by auto
  next
    case False
    have "push_bit 1 (push_bit j (mask c)) = (push_bit (j + 1) (mask c) :: u32)" by (simp add: add.commute)
    then show ?thesis using Suc.prems False Suc.IH [of "j + 1"] by (simp del: push_bit_push_bit)
  qed
qed simp

section \<open>The mask of a range\<close>

lemma leaf_mask_spec:
  assumes "unat blk mod 32 = x" "1 \<le> unat count" "x + unat count \<le> 32"
  shows "\<exists>m. leaf_mask blk count = Ok m \<and> lbits m = {x..<x + unat count}"
proof -
  define n where "n = blk AND (32 - 1)"
  have "n = take_bit 5 blk" unfolding n_def take_bit_eq_mask by (simp add: mask_eq_exp_minus_1)
  then have n: "unat n = x" using assms(1) by (simp add: take_bit_eq_mod unat_mod)
  have h: "unat (32 - count - n) = 32 - unat count - x"
    using assms n by (simp add: unat_sub word_le_nat_alt)
  have "lbits (push_bit x (- 1) AND drop_bit (32 - unat count - x) (- 1)) = {x..<x + unat count}"
    using assms by (auto simp: lbits_def bit_simps)
  then show ?thesis using assms n h unfolding leaf_mask_def n_def [symmetric] c_shift_def
    by (simp add: word_le_nat_alt Let_def)
qed

section \<open>Counting\<close>

lemma clear_lowest_bits:
  assumes p: "p \<in> lbits w" "\<And>i. i < p \<Longrightarrow> i \<notin> lbits w"
  shows "lbits (w AND (w - 1)) = lbits w - {p}"
proof -
  define d where "d = drop_bit p w"
  have lt: "p < 32" using p(1) by (rule lbits_less)
  have ge: "p \<le> n" if "bit w n" for n using p(2) [of n] that by (auto simp: in_lbits not_le [symmetric])
  have w: "w = push_bit p d" unfolding d_def
    by (rule bit_word_eqI) (use ge in \<open>auto simp: bit_simps\<close>)
  have odd: "odd d" using p(1) unfolding d_def by (simp add: in_lbits bit_simps flip: bit_0)
  have "w - 1 = push_bit p (d - 1) + mask p"
    by (simp add: w push_bit_eq_mult mask_eq_exp_minus_1 algebra_simps)
  also have "push_bit p (d - 1) AND mask p = 0" by (rule bit_word_eqI) (auto simp: bit_simps)
  then have "push_bit p (d - 1) + mask p = push_bit p (d - 1) OR mask p" by (rule disjunctive_add_eq_or)
  also have "d - 1 = d AND NOT 1"
  proof -
    have "(d AND NOT 1) AND 1 = 0" by (rule bit_word_eqI) (auto simp: bit_simps)
    then have "(d AND NOT 1) + 1 = (d AND NOT 1) OR 1" by (rule disjunctive_add_eq_or)
    also have "\<dots> = d" by (rule bit_word_eqI) (use odd in \<open>auto simp: bit_simps bit_0\<close>)
    finally have "d = (d AND NOT 1) + 1" by simp
    then show ?thesis by (metis add_diff_cancel)
  qed
  finally have e: "w - 1 = push_bit p (d AND NOT 1) OR mask p" .
  show ?thesis unfolding e using lt p(2) by (auto simp: lbits_def w bit_simps in_lbits)
qed

lemma count_bits_spec: "count_bits w n = n + of_nat (card (lbits w))"
proof (induction w n rule: count_bits.induct)
  case (1 w n)
  show ?case
  proof (cases "w = 0")
    case False
    then have ne: "lbits w \<noteq> {}" by (simp add: lbits_empty)
    define p where "p = Min (lbits w)"
    have p: "p \<in> lbits w" "\<And>i. i < p \<Longrightarrow> i \<notin> lbits w" unfolding p_def using ne Min_in Min_le by (simp, force)
    have "lbits (w AND (w - 1)) = lbits w - {p}" by (rule clear_lowest_bits [OF p])
    moreover have "card (lbits w) = Suc (card (lbits w - {p}))" by (rule card.remove [OF finite_lbits p(1)])
    moreover have "count_bits w n = count_bits (w AND (w - 1)) (n + 1)" using False count_bits.simps [of w n] by argo
    ultimately show ?thesis using 1 [OF False] by simp
  next
    case True
    then show ?thesis by (subst count_bits.simps) simp
  qed
qed

end
