(* ===== verification/Blist_Tree.thy ===== *)
theory Blist_Tree
  imports Blist_Leaf
begin

text \<open>
  The radix tree as a set of free blocks. A node of level \<open>k\<close> covers \<open>cover k\<close> blocks and takes \<open>slots k\<close> entries of the array;
  \<open>skel\<close> says where nodes and terminators are, \<open>acc\<close> that the available space of the nodes is that of their bitmaps, and
  \<open>rfree\<close> is the set of free blocks, relative to the first block of the node.
\<close>

section \<open>Levels\<close>

definition cover :: "nat \<Rightarrow> nat" where "cover k = 32 * 16 ^ k"

primrec slots :: "nat \<Rightarrow> nat" where
  "slots 0 = 1"
| "slots (Suc k) = 1 + 16 * slots k"

abbreviation skp :: "nat \<Rightarrow> nat" where "skp k \<equiv> slots k - 1"

definition chl :: "nat \<Rightarrow> nat \<Rightarrow> nat \<Rightarrow> nat" where "chl k b c = b + (1 + c * slots k)"

definition sub :: "nat \<Rightarrow> nat \<Rightarrow> nat \<Rightarrow> nat" where
  "sub k n c = min (cover k) (n - c * cover k)"

lemma chl_fold [simp]: "b + (1 + c * slots k) = chl k b c" "Suc (b + c * slots k) = chl k b c" "b + Suc (c * slots k) = chl k b c"
  by (simp_all add: chl_def)
lemma chl_gt [simp]: "b < chl k b c" "chl k b c \<noteq> b" "b \<noteq> chl k b c" by (simp_all add: chl_def del: chl_fold)
lemma chl_inj [simp]: "chl k b c = chl k b d \<longleftrightarrow> c = d"
proof -
  have "0 < slots k" by (cases k) simp_all
  then show ?thesis by (simp add: chl_def del: chl_fold)
qed
lemma cover_pos [simp]: "0 < cover k" by (simp add: cover_def)
lemma cover_0 [simp]: "cover 0 = 32" by (simp add: cover_def)
lemma cover_Suc: "cover (Suc k) = 16 * cover k" by (simp add: cover_def)
lemma slots_pos [simp]: "0 < slots k" "slots k \<noteq> 0" by (cases k; simp)+
lemma cover_ge: "32 \<le> cover k" by (simp add: cover_def)
lemma cover_ge_Suc: "512 \<le> cover (Suc k)" using cover_ge [of k] by (simp add: cover_Suc)

lemma cover_dvd: "32 dvd cover k" by (simp add: cover_def)

lemma cover_bound: "k \<le> 6 \<Longrightarrow> cover k \<le> 536870912"
  using power_increasing [of k 6 "16 :: nat"] by (simp add: cover_def)

lemma slots_eq_1: "slots k = 1 \<longleftrightarrow> k = 0"
  by (cases k) simp_all

lemma unat_cover: "k \<le> 6 \<Longrightarrow> unat (of_nat (cover k) :: u32) = cover k"
  using cover_bound [of k] by (simp add: unat_of_nat)

lemma sub_le: "sub k n c \<le> cover k" by (simp add: sub_def)

lemma child_end: "c < 16 \<Longrightarrow> c * cover k + cover k \<le> cover (Suc k)"
proof -
  assume "c < 16"
  then have "(c + 1) * cover k \<le> 16 * cover k" by (intro mult_le_mono1) simp
  then show ?thesis unfolding cover_Suc by (simp only: add_mult_distrib mult_1)
qed

lemma sub_full: "n = cover (Suc k) \<Longrightarrow> c < 16 \<Longrightarrow> sub k n c = cover k"
  using child_end [of c k] by (simp add: sub_def)

section \<open>The invariant\<close>

primrec rfree :: "nat \<Rightarrow> nodes \<Rightarrow> nat \<Rightarrow> nat \<Rightarrow> nat set" where
  "rfree 0 mm b n = lbits (bm_u (mm ! b))"
| "rfree (Suc k) mm b n =
     (if bm_u (mm ! b) = 0 then {}
      else if bm_u (mm ! b) = of_nat (cover (Suc k)) then {..<cover (Suc k)}
      else (\<Union>c \<in> {c. c < 16 \<and> c * cover k < n}. (+) (c * cover k) ` rfree k mm (chl k b c) (sub k n c)))"

primrec skel :: "nat \<Rightarrow> nodes \<Rightarrow> nat \<Rightarrow> nat \<Rightarrow> bool" where
  "skel 0 mm b n \<longleftrightarrow> b < length mm \<and> bm_bighint (mm ! b) \<noteq> - 1"
| "skel (Suc k) mm b n \<longleftrightarrow> b < length mm \<and> bm_bighint (mm ! b) \<noteq> - 1 \<and>
     (\<forall>c < 16. if c * cover k < n then skel k mm (chl k b c) (sub k n c)
               else c * cover k < n + cover k \<longrightarrow> chl k b c < length mm \<and> bm_bighint (mm ! chl k b c) = - 1)"

primrec acc :: "nat \<Rightarrow> nodes \<Rightarrow> nat \<Rightarrow> nat \<Rightarrow> bool" where
  "acc 0 mm b n \<longleftrightarrow> lbits (bm_u (mm ! b)) \<subseteq> {..<n} \<and> (bm_u (mm ! b) \<noteq> 0 \<longrightarrow> bm_bighint (mm ! b) \<noteq> 0)"
| "acc (Suc k) mm b n \<longleftrightarrow> unat (bm_u (mm ! b)) \<le> n \<and> (bm_u (mm ! b) \<noteq> 0 \<longrightarrow> bm_bighint (mm ! b) \<noteq> 0) \<and>
     (bm_u (mm ! b) \<noteq> 0 \<and> bm_u (mm ! b) \<noteq> of_nat (cover (Suc k)) \<longrightarrow>
        (\<forall>c < 16. c * cover k < n \<longrightarrow> acc k mm (chl k b c) (sub k n c)) \<and>
        unat (bm_u (mm ! b)) = card (rfree (Suc k) mm b n))"

definition node_ok :: "nat \<Rightarrow> nodes \<Rightarrow> nat \<Rightarrow> nat \<Rightarrow> bool" where
  "node_ok k mm b n \<longleftrightarrow> skel k mm b n \<and> acc k mm b n"

text \<open>A meta node whose children carry the state, and the free blocks of the children.\<close>

definition expanded :: "nat \<Rightarrow> nodes \<Rightarrow> nat \<Rightarrow> nat \<Rightarrow> bool" where
  "expanded k mm b n \<longleftrightarrow> skel (Suc k) mm b n \<and> (\<forall>c < 16. c * cover k < n \<longrightarrow> acc k mm (chl k b c) (sub k n c))"

definition kids :: "nat \<Rightarrow> nodes \<Rightarrow> nat \<Rightarrow> nat \<Rightarrow> nat set" where
  "kids k mm b n = (\<Union>c \<in> {c. c < 16 \<and> c * cover k < n}. (+) (c * cover k) ` rfree k mm (chl k b c) (sub k n c))"

lemma rfree_Suc: "rfree (Suc k) mm b n =
   (if bm_u (mm ! b) = 0 then {} else if bm_u (mm ! b) = of_nat (cover (Suc k)) then {..<cover (Suc k)} else kids k mm b n)"
  by (simp add: kids_def)

section \<open>Frames\<close>

definition frame :: "nat \<Rightarrow> nat \<Rightarrow> nodes \<Rightarrow> nodes \<Rightarrow> bool" where
  "frame b e mm mm' \<longleftrightarrow> length mm' = length mm \<and> (\<forall>i. i < b \<or> e \<le> i \<longrightarrow> mm' ! i = mm ! i)"

lemma frame_refl [simp]: "frame b e mm mm" by (simp add: frame_def)
lemma frame_trans: "frame b e mm mm' \<Longrightarrow> frame b e mm' mm'' \<Longrightarrow> frame b e mm mm''" by (simp add: frame_def)
lemma frame_mono: "frame b e mm mm' \<Longrightarrow> b' \<le> b \<Longrightarrow> e \<le> e' \<Longrightarrow> frame b' e' mm mm'" by (simp add: frame_def)
lemma frame_update: "b \<le> i \<Longrightarrow> i < e \<Longrightarrow> frame b e mm (mm[i := x])" by (auto simp: frame_def)

text \<open>The predicates read only the entries of the node.\<close>

lemma chl_range: "c < 16 \<Longrightarrow> b < chl k b c" "c < 16 \<Longrightarrow> chl k b c + slots k \<le> b + slots (Suc k)"
proof -
  assume "c < 16"
  then have "(c + 1) * slots k \<le> 16 * slots k" by (intro mult_le_mono1) simp
  then show "chl k b c + slots k \<le> b + slots (Suc k)" by (simp add: chl_def del: chl_fold)
qed simp

lemma node_cong:
  assumes "length mm' = length mm" "\<And>i. b \<le> i \<Longrightarrow> i < b + slots k \<Longrightarrow> mm' ! i = mm ! i"
  shows "rfree k mm' b n = rfree k mm b n \<and> skel k mm' b n = skel k mm b n \<and> acc k mm' b n = acc k mm b n"
  using assms
proof (induction k arbitrary: b n)
  case (Suc k)
  have own: "mm' ! b = mm ! b" using Suc.prems(2) [of b] by simp
  have ch: "rfree k mm' (chl k b c) j = rfree k mm (chl k b c) j \<and> skel k mm' (chl k b c) j = skel k mm (chl k b c) j
      \<and> acc k mm' (chl k b c) j = acc k mm (chl k b c) j \<and> mm' ! chl k b c = mm ! chl k b c" if "c < 16" for c j
  proof -
    have "mm' ! i = mm ! i" if "chl k b c \<le> i" "i < chl k b c + slots k" for i
      using chl_range(1) [OF \<open>c < 16\<close>, of b k] chl_range(2) [OF \<open>c < 16\<close>, of k b] that by (intro Suc.prems(2)) linarith+
    then show ?thesis using Suc.IH [OF Suc.prems(1), of "chl k b c" j] slots_pos(1) [of k] by (metis le_add1 le_refl less_add_same_cancel1)
  qed
  have r: "rfree (Suc k) mm' b n = rfree (Suc k) mm b n" unfolding rfree_Suc kids_def own using ch
    by (intro if_cong SUP_cong refl) auto
  show ?case using r own ch Suc.prems(1) by (auto simp del: rfree.simps)
qed simp

lemma node_frame:
  assumes "frame b' e' mm mm'" "b + slots k \<le> b' \<or> e' \<le> b"
  shows "rfree k mm' b n = rfree k mm b n" "skel k mm' b n = skel k mm b n" "acc k mm' b n = acc k mm b n"
  using node_cong [of mm' mm b k n] assms by (auto simp: frame_def)

section \<open>Free blocks of a node and of its children\<close>

lemma rfree_bound:
  assumes "acc k mm b n" "n \<le> cover k" "k \<le> 6"
  shows "rfree k mm b n \<subseteq> {..<n}"
  using assms
proof (induction k arbitrary: b n)
  case (Suc k)
  have full: "n = cover (Suc k)" if "bm_u (mm ! b) = of_nat (cover (Suc k))"
    using that Suc.prems unat_cover [of "Suc k"] by simp
  have kids: "kids k mm b n \<subseteq> {..<n}" if "\<forall>c < 16. c * cover k < n \<longrightarrow> acc k mm (chl k b c) (sub k n c)"
  proof -
    have "rfree k mm (chl k b c) (sub k n c) \<subseteq> {..<n - c * cover k}" if c: "c < 16" "c * cover k < n" for c
      using Suc.IH [of "chl k b c" "sub k n c"] \<open>\<forall>c < 16. _ c\<close> c Suc.prems(3) sub_le [of k n c] by (auto simp: sub_def)
    then show ?thesis unfolding kids_def by fastforce
  qed
  show ?case using full kids Suc.prems(1) unfolding rfree_Suc by auto
qed simp

lemma expanded_child:
  assumes "expanded k mm b n" "c < 16" "c * cover k < n"
  shows "node_ok k mm (chl k b c) (sub k n c)" "bm_bighint (mm ! chl k b c) \<noteq> - 1" "chl k b c < length mm"
proof -
  show n: "node_ok k mm (chl k b c) (sub k n c)" using assms by (auto simp: expanded_def node_ok_def)
  then show "bm_bighint (mm ! chl k b c) \<noteq> - 1" "chl k b c < length mm" by (cases k; simp add: node_ok_def)+
qed

lemma kids_iff:
  assumes "expanded k mm b n" "Suc k \<le> 6"
  shows "x \<in> kids k mm b n \<longleftrightarrow> x div cover k < 16 \<and> x div cover k * cover k < n \<and>
           x mod cover k \<in> rfree k mm (chl k b (x div cover k)) (sub k n (x div cover k))"
proof -
  have "y < cover k" if "c < 16" "c * cover k < n" "y \<in> rfree k mm (chl k b c) (sub k n c)" for c y
    using rfree_bound [of k mm "chl k b c" "sub k n c"] expanded_child(1) [OF assms(1) that(1,2)] that assms(2) sub_le [of k n c]
    by (auto simp: node_ok_def)
  then have "x \<in> kids k mm b n \<longleftrightarrow> (\<exists>c y. x = c * cover k + y \<and> y < cover k \<and> c < 16 \<and> c * cover k < n \<and> y \<in> rfree k mm (chl k b c) (sub k n c))"
    unfolding kids_def by blast
  also have "\<dots> \<longleftrightarrow> x div cover k < 16 \<and> x div cover k * cover k < n \<and> x mod cover k \<in> rfree k mm (chl k b (x div cover k)) (sub k n (x div cover k))"
  proof
    assume "x div cover k < 16 \<and> x div cover k * cover k < n \<and> x mod cover k \<in> rfree k mm (chl k b (x div cover k)) (sub k n (x div cover k))"
    then show "\<exists>c y. x = c * cover k + y \<and> y < cover k \<and> c < 16 \<and> c * cover k < n \<and> y \<in> rfree k mm (chl k b c) (sub k n c)"
      by (intro exI [of _ "x div cover k"] exI [of _ "x mod cover k"]) simp
  qed auto
  finally show ?thesis .
qed

lemma kids_bound: "expanded k mm b n \<Longrightarrow> Suc k \<le> 6 \<Longrightarrow> kids k mm b n \<subseteq> {..<n}"
proof
  fix x assume e: "expanded k mm b n" "Suc k \<le> 6" "x \<in> kids k mm b n"
  then have c: "x div cover k < 16" "x div cover k * cover k < n" "x mod cover k \<in> rfree k mm (chl k b (x div cover k)) (sub k n (x div cover k))"
    by (simp_all add: kids_iff)
  have "x mod cover k < sub k n (x div cover k)"
    using rfree_bound [of k mm "chl k b (x div cover k)" "sub k n (x div cover k)"] expanded_child(1) [OF e(1) c(1,2)] c(3) e(2) sub_le
    by (auto simp: node_ok_def)
  then show "x \<in> {..<n}" using div_mult_mod_eq [of x "cover k"] unfolding sub_def lessThan_iff by linarith
qed

lemma finite_kids: "expanded k mm b n \<Longrightarrow> Suc k \<le> 6 \<Longrightarrow> finite (kids k mm b n)"
  by (rule finite_subset [OF kids_bound]) auto

text \<open>A node whose available space is the number of free blocks of its children represents them.\<close>

lemma node_of_expanded:
  assumes e: "expanded k mm b n" and k: "Suc k \<le> 6" and n: "n \<le> cover (Suc k)"
    and u: "unat (bm_u (mm ! b)) = card (kids k mm b n)" and h: "bm_u (mm ! b) \<noteq> 0 \<longrightarrow> bm_bighint (mm ! b) \<noteq> 0"
  shows "node_ok (Suc k) mm b n" "rfree (Suc k) mm b n = kids k mm b n"
proof -
  note kb = kids_bound [OF e k]
  have le: "card (kids k mm b n) \<le> n" using card_mono [OF _ kb] by simp
  show r: "rfree (Suc k) mm b n = kids k mm b n"
  proof -
    have "kids k mm b n = {..<cover (Suc k)}" if "bm_u (mm ! b) = of_nat (cover (Suc k))"
    proof (rule card_subset_eq)
      show "kids k mm b n \<subseteq> {..<cover (Suc k)}" using kb n by auto
      show "card (kids k mm b n) = card {..<cover (Suc k)}" using u that unat_cover [OF k] by simp
    qed simp
    moreover have "kids k mm b n = {}" if "bm_u (mm ! b) = 0" using u that finite_kids [OF e k] by simp
    ultimately show ?thesis unfolding rfree_Suc by auto
  qed
  show "node_ok (Suc k) mm b n" using e u h le r by (auto simp: node_ok_def expanded_def simp del: rfree.simps)
qed

lemma node_expanded:
  assumes "node_ok (Suc k) mm b n" "bm_u (mm ! b) \<noteq> 0" "bm_u (mm ! b) \<noteq> of_nat (cover (Suc k))"
  shows "expanded k mm b n" "rfree (Suc k) mm b n = kids k mm b n" "unat (bm_u (mm ! b)) = card (kids k mm b n)"
  using assms by (auto simp: node_ok_def expanded_def rfree_Suc simp del: rfree.simps)

text \<open>The available space of a meta node is the number of its free blocks.\<close>

lemma avail_card: "node_ok (Suc k) mm b n \<Longrightarrow> Suc k \<le> 6 \<Longrightarrow> unat (bm_u (mm ! b)) = card (rfree (Suc k) mm b n)"
  using node_expanded [of k mm b n] unat_cover [of "Suc k"] by (cases "bm_u (mm ! b) = 0 \<or> bm_u (mm ! b) = of_nat (cover (Suc k))") (auto simp: rfree_Suc)

text \<open>An operation on one child.\<close>

lemma child_frame:
  assumes fr: "frame (chl k b c) (chl k b c + slots k) mm mm'" and d: "d \<noteq> c"
  shows "rfree k mm' (chl k b d) j = rfree k mm (chl k b d) j" "skel k mm' (chl k b d) j = skel k mm (chl k b d) j"
    "acc k mm' (chl k b d) j = acc k mm (chl k b d) j" "mm' ! chl k b d = mm ! chl k b d"
proof -
  have "(d + 1) * slots k \<le> c * slots k \<or> (c + 1) * slots k \<le> d * slots k" using d by (metis Suc_eq_plus1 Suc_leI linorder_neqE_nat mult_le_mono1)
  then have s: "chl k b d + slots k \<le> chl k b c \<or> chl k b c + slots k \<le> chl k b d" by (auto simp: chl_def simp del: chl_fold)
  from node_frame [OF fr s] show "rfree k mm' (chl k b d) j = rfree k mm (chl k b d) j" "skel k mm' (chl k b d) j = skel k mm (chl k b d) j"
    "acc k mm' (chl k b d) j = acc k mm (chl k b d) j" by blast+
  show "mm' ! chl k b d = mm ! chl k b d" using fr s slots_pos(1) [of k] unfolding frame_def by (metis le_add1 less_add_same_cancel1 order.strict_trans2)
qed

lemma skel_child:
  assumes e: "skel (Suc k) mm b n" and c: "c * cover k < n"
    and ok: "skel k mm' (chl k b c) (sub k n c)" and fr: "frame (chl k b c) (chl k b c + slots k) mm mm'"
  shows "skel (Suc k) mm' b n"
  unfolding skel.simps
proof (intro conjI allI impI)
  have own: "mm' ! b = mm ! b" "length mm' = length mm" using fr by (simp_all add: frame_def)
  then show "b < length mm'" "bm_bighint (mm' ! b) \<noteq> - 1" using e by auto
  fix d :: nat assume d: "d < 16"
  show "if d * cover k < n then skel k mm' (chl k b d) (sub k n d)
    else d * cover k < n + cover k \<longrightarrow> chl k b d < length mm' \<and> bm_bighint (mm' ! chl k b d) = - 1"
    using e d ok child_frame [OF fr, of d] own c by (cases "d = c") auto
qed

lemma child_update:
  assumes e: "expanded k mm b n" and k: "Suc k \<le> 6" and c: "c < 16" "c * cover k < n"
    and ok: "node_ok k mm' (chl k b c) (sub k n c)" and fr: "frame (chl k b c) (chl k b c + slots k) mm mm'"
  shows "expanded k mm' b n" "mm' ! b = mm ! b"
    "x \<in> kids k mm' b n \<longleftrightarrow> (if x div cover k = c then x mod cover k \<in> rfree k mm' (chl k b c) (sub k n c) else x \<in> kids k mm b n)"
proof -
  show own: "mm' ! b = mm ! b" using fr by (simp add: frame_def)
  have "acc k mm' (chl k b d) (sub k n d)" if "d < 16" "d * cover k < n" for d
    using e ok child_frame(3) [OF fr, of d] that by (cases "d = c") (auto simp: expanded_def node_ok_def)
  then show e': "expanded k mm' b n"
    using skel_child [OF _ c(2) _ fr] e ok unfolding expanded_def node_ok_def by blast
  show "x \<in> kids k mm' b n \<longleftrightarrow> (if x div cover k = c then x mod cover k \<in> rfree k mm' (chl k b c) (sub k n c) else x \<in> kids k mm b n)"
    using c child_frame(1) [OF fr, of "x div cover k"] unfolding kids_iff [OF e' k] kids_iff [OF e k] by auto
qed

text \<open>A change of the node itself.\<close>

lemma own_frame:
  "rfree k (mm[b := x]) (chl k b c) j = rfree k mm (chl k b c) j" "skel k (mm[b := x]) (chl k b c) j = skel k mm (chl k b c) j"
  "acc k (mm[b := x]) (chl k b c) j = acc k mm (chl k b c) j"
proof -
  have "(mm[b := x]) ! i = mm ! i" if "chl k b c \<le> i" for i using that less_le_trans [OF chl_gt(1) that] by simp
  then have "rfree k (mm[b := x]) (chl k b c) j = rfree k mm (chl k b c) j \<and> skel k (mm[b := x]) (chl k b c) j = skel k mm (chl k b c) j
    \<and> acc k (mm[b := x]) (chl k b c) j = acc k mm (chl k b c) j" by (intro node_cong) auto
  then show "rfree k (mm[b := x]) (chl k b c) j = rfree k mm (chl k b c) j" "skel k (mm[b := x]) (chl k b c) j = skel k mm (chl k b c) j"
    "acc k (mm[b := x]) (chl k b c) j = acc k mm (chl k b c) j" by blast+
qed

lemma skel_own: "skel k mm b n \<Longrightarrow> bm_bighint x \<noteq> - 1 \<Longrightarrow> skel k (mm[b := x]) b n"
  by (cases k) (auto simp: own_frame)

lemma own_update:
  assumes "expanded k mm b n" "bm_bighint x \<noteq> - 1"
  shows "expanded k (mm[b := x]) b n" "kids k (mm[b := x]) b n = kids k mm b n"
proof -
  show "expanded k (mm[b := x]) b n" using assms own_frame(3) skel_own unfolding expanded_def by blast
  show "kids k (mm[b := x]) b n = kids k mm b n" unfolding kids_def by (simp add: own_frame)
qed

end
