(* ===== verification/Blist_Alloc.thy ===== *)
theory Blist_Alloc
  imports Blist_Tree
begin

text \<open>
  Loops over the children of a node, and allocation: what it returns and how it changes the set of free blocks.
\<close>

lemma node_Ok: "i < length mm \<Longrightarrow> node mm i = Ok (mm ! i)"
  by (simp add: node_def)

lemma upd_node_Ok: "i < length mm \<Longrightarrow> upd_node mm i f = Ok (mm[i := f (mm ! i)])"
  by (simp add: upd_node_def)

section \<open>Loops over children\<close>

lemma scan_rule:
  fixes k :: nat
  assumes "P c s" "c \<le> 16"
    and step: "\<And>c s. c < 16 \<Longrightarrow> P c s \<Longrightarrow>
      \<exists>x. body (1 + c * slots k) s = Ok x \<and> (case x of Inl s' \<Rightarrow> Q s' | Inr s' \<Rightarrow> P (Suc c) s')"
    and fin: "\<And>s. P 16 s \<Longrightarrow> Q s"
  shows "\<exists>s'. scan_loop (16 * slots k) (slots k) body (1 + c * slots k) s = Ok s' \<and> Q s'"
  using assms(1,2)
proof (induction "16 - c" arbitrary: c s)
  case 0
  then have "c = 16" by simp
  then show ?case using 0 fin by (subst scan_loop.simps) simp
next
  case (Suc d)
  then have c: "c < 16" by simp
  then have "c * slots k < 16 * slots k" by simp
  then have g: "\<not> 16 * slots k < 1 + c * slots k" by linarith
  obtain x where x: "body (1 + c * slots k) s = Ok x" "case x of Inl s' \<Rightarrow> Q s' | Inr s' \<Rightarrow> P (Suc c) s'" using step [OF c Suc.prems(1)] by blast
  show ?case
  proof (cases x)
    case (Inl s')
    then show ?thesis using x g by (subst scan_loop.simps) simp
  next
    case (Inr s')
    have "\<exists>s''. scan_loop (16 * slots k) (slots k) body (1 + Suc c * slots k) s' = Ok s'' \<and> Q s''"
      using Suc.hyps(1) [of "Suc c" s'] Suc.hyps(2) x Inr c by simp
    then show ?thesis using x(1) g Inr slots_pos(1) [of k] by (subst scan_loop.simps) (simp add: add.commute add.left_commute)
  qed
qed

lemma skp_Suc [simp]: "slots (Suc k) - 1 = 16 * slots k" "(16 * slots k) div 16 = slots k"
  by simp_all

text \<open>The index of the first child that is not there is the terminator.\<close>

lemma terminator:
  assumes "skel (Suc k) mm b n" "c < 16" "\<not> c * cover k < n" "\<forall>d < c. d * cover k < n" "0 < n"
  shows "chl k b c < length mm" "bm_bighint (mm ! chl k b c) = - 1"
proof -
  have "0 < c" using assms(3,5) by (cases c) simp_all
  then have "(c - 1) * cover k < n" using assms(4) by simp
  then have "c * cover k < n + cover k" using \<open>0 < c\<close> by (cases c) simp_all
  then show "chl k b c < length mm" "bm_bighint (mm ! chl k b c) = - 1" using assms(1-3) by auto
qed

section \<open>Expanding a collapsed node\<close>

lemma set_children_spec:
  assumes e: "skel (Suc k) mm b n" and n: "0 < n"
    and f: "\<And>x. bm_bighint (f x) \<noteq> - 1"
  shows "\<exists>mm'. set_children mm b (16 * slots k) (slots k) f = Ok mm' \<and> skel (Suc k) mm' b n \<and> mm' ! b = mm ! b
     \<and> frame (b + 1) (b + slots (Suc k)) mm mm'
     \<and> (\<forall>c < 16. c * cover k < n \<longrightarrow> mm' ! chl k b c = f (mm ! chl k b c))"
proof -
  let ?P = "\<lambda>c mm'. skel (Suc k) mm' b n \<and> mm' ! b = mm ! b \<and> frame (b + 1) (b + slots (Suc k)) mm mm' \<and> (\<forall>d < c. d * cover k < n)
     \<and> (\<forall>d < 16. mm' ! chl k b d = (if d < c then f (mm ! chl k b d) else mm ! chl k b d))"
  let ?Q = "\<lambda>mm'. skel (Suc k) mm' b n \<and> mm' ! b = mm ! b \<and> frame (b + 1) (b + slots (Suc k)) mm mm'
     \<and> (\<forall>c < 16. c * cover k < n \<longrightarrow> mm' ! chl k b c = f (mm ! chl k b c))"
  have st: "\<exists>x. bind_r (node mm' (b + (1 + c * slots k))) (\<lambda>ch. if bm_bighint ch = - 1 then Ok (Inl mm')
      else bind_r (upd_node mm' (b + (1 + c * slots k)) f) (\<lambda>mm. Ok (Inr mm))) = Ok x
      \<and> (case x of Inl s' \<Rightarrow> ?Q s' | Inr s' \<Rightarrow> ?P (Suc c) s')" if c: "c < 16" and P: "?P c mm'" for c mm'
  proof (cases "c * cover k < n")
    case False
    have "chl k b c < length mm'" "bm_bighint (mm' ! chl k b c) = - 1"
      using terminator [of k mm' b n c] P c False n by blast+
    moreover have "d < c" if "d * cover k < n" for d using False that by (metis le_less_trans linorder_not_le mult_le_mono1)
    ultimately show ?thesis using P by (intro exI [of _ "Inl mm'"]) (simp add: node_def del: skel.simps)
  next
    case True
    let ?m = "mm'[chl k b c := f (mm' ! chl k b c)]"
    have sk: "skel k mm' (chl k b c) (sub k n c)" using P c True by auto
    then have l: "chl k b c < length mm'" "bm_bighint (mm' ! chl k b c) \<noteq> - 1" by (cases k; simp)+
    have fr: "frame (chl k b c) (chl k b c + slots k) mm' ?m" by (rule frame_update) simp_all
    then have "skel (Suc k) ?m b n" using skel_child [OF _ True skel_own [OF sk f] fr] P by blast
    moreover have "frame (b + 1) (b + slots (Suc k)) mm ?m"
      using P frame_mono [OF fr, of "b + 1" "b + slots (Suc k)"] chl_range [OF c, of b k] chl_range(2) [OF c, of k b]
      by (intro frame_trans [of _ _ mm mm' ?m]) (auto simp: Suc_le_eq)
    moreover have "\<forall>d < Suc c. d * cover k < n" using P True by (auto simp: less_Suc_eq)
    ultimately show ?thesis using P l c
      by (intro exI [of _ "Inr ?m"]) (auto simp: node_def upd_node_def nth_list_update less_Suc_eq simp del: skel.simps)
  qed
  have "\<exists>s'. scan_loop (16 * slots k) (slots k) (\<lambda>i mm. bind_r (node mm (b + i)) (\<lambda>ch. if bm_bighint ch = - 1 then Ok (Inl mm)
      else bind_r (upd_node mm (b + i) f) (\<lambda>mm. Ok (Inr mm)))) (1 + 0 * slots k) mm = Ok s' \<and> ?Q s'"
    by (rule scan_rule [where P = ?P]) (use e st in \<open>auto simp del: skel.simps\<close>)
  then show ?thesis by (simp add: set_children_def del: skel.simps)
qed

lemma subradix: "Suc k \<le> 6 \<Longrightarrow> (of_nat (cover (Suc k)) :: u32) div 16 = of_nat (cover k)"
  using unat_cover [of "Suc k"] unat_cover [of k] by (simp add: word_unat_eq_iff unat_div cover_Suc)

lemma cover_word: "k \<le> 6 \<Longrightarrow> (of_nat (cover k) :: u32) \<noteq> 0" "k \<le> 6 \<Longrightarrow> (of_nat (cover k) :: u32) \<noteq> - 1"
proof -
  assume k: "k \<le> 6"
  show "(of_nat (cover k) :: u32) \<noteq> 0" using unat_cover [OF k] cover_pos [of k] by (metis unat_0 less_numeral_extra(3))
  have "unat (- 1 :: u32) = 4294967295" by (simp add: unsigned_minus_1_eq_mask mask_eq_exp_minus_1)
  then show "(of_nat (cover k) :: u32) \<noteq> - 1" using unat_cover [OF k] cover_bound [OF k] by auto
qed

lemma expand_free:
  assumes ok: "node_ok (Suc k) mm b n" and u: "bm_u (mm ! b) = of_nat (cover (Suc k))" and k: "Suc k \<le> 6" and n: "n \<le> cover (Suc k)"
  shows "\<exists>mm'. set_children mm b (16 * slots k) (slots k) (children_free (slots k) (of_nat (cover k))) = Ok mm' \<and> expanded k mm' b n
    \<and> kids k mm' b n = {..<cover (Suc k)} \<and> mm' ! b = mm ! b \<and> frame b (b + slots (Suc k)) mm mm'"
proof -
  have nR: "n = cover (Suc k)" using ok u n unat_cover [OF k] by (simp add: node_ok_def)
  have h: "bm_bighint (children_free (slots k) (of_nat (cover k)) x) \<noteq> - 1" for x
    using cover_word(2) [of k] k by (simp add: children_free_def)
  have sk: "skel (Suc k) mm b n" and n0: "0 < n" using ok nR cover_pos [of "Suc k"] by (simp_all only: node_ok_def)
  obtain mm' where m: "set_children mm b (16 * slots k) (slots k) (children_free (slots k) (of_nat (cover k))) = Ok mm'" "skel (Suc k) mm' b n"
    "mm' ! b = mm ! b" "frame (b + 1) (b + slots (Suc k)) mm mm'"
    "\<And>c. c < 16 \<Longrightarrow> c * cover k < n \<Longrightarrow> mm' ! chl k b c = children_free (slots k) (of_nat (cover k)) (mm ! chl k b c)"
    using set_children_spec [where f = "children_free (slots k) (of_nat (cover k))", OF sk n0 h] by blast
  have c: "acc k mm' (chl k b c) (sub k n c) \<and> rfree k mm' (chl k b c) (sub k n c) = {..<cover k}" if "c < 16" "c * cover k < n" for c
    using m(5) [OF that] sub_full [OF nR that(1)] cover_word(1) [of k] k unat_cover [of k]
    by (cases k) (auto simp: children_free_def)
  then have e: "expanded k mm' b n" using m(2) by (simp add: expanded_def)
  moreover have "kids k mm' b n = {..<cover (Suc k)}"
  proof -
    have "x \<in> kids k mm' b n \<longleftrightarrow> x < cover (Suc k)" for x
    proof -
      have "x div cover k < 16 \<longleftrightarrow> x < cover (Suc k)" by (simp add: div_less_iff_less_mult cover_Suc)
      moreover have "x div cover k * cover k < n" if "x < cover (Suc k)" using nR that by (meson div_times_less_eq_dividend le_less_trans)
      moreover have "x mod cover k \<in> rfree k mm' (chl k b (x div cover k)) (sub k n (x div cover k))" if "x < cover (Suc k)"
        using c [of "x div cover k"] calculation that by simp
      ultimately show ?thesis unfolding kids_iff [OF e k] by blast
    qed
    then show ?thesis by auto
  qed
  ultimately show ?thesis using m frame_mono [OF m(4), of b] by auto
qed

lemma expand_zero:
  assumes sk: "skel (Suc k) mm b n" and k: "Suc k \<le> 6" and n: "0 < n"
  shows "\<exists>mm'. set_children mm b (16 * slots k) (slots k) (\<lambda>ch. ch\<lparr>bm_bighint := 0, bm_u := 0\<rparr>) = Ok mm' \<and> expanded k mm' b n
    \<and> kids k mm' b n = {} \<and> mm' ! b = mm ! b \<and> frame b (b + slots (Suc k)) mm mm'"
proof -
  have h: "bm_bighint (x\<lparr>bm_bighint := 0, bm_u := 0\<rparr>) \<noteq> - 1" for x by simp
  obtain mm' where m: "set_children mm b (16 * slots k) (slots k) (\<lambda>ch. ch\<lparr>bm_bighint := 0, bm_u := 0\<rparr>) = Ok mm'" "skel (Suc k) mm' b n"
    "mm' ! b = mm ! b" "frame (b + 1) (b + slots (Suc k)) mm mm'"
    "\<And>c. c < 16 \<Longrightarrow> c * cover k < n \<Longrightarrow> mm' ! chl k b c = (mm ! chl k b c)\<lparr>bm_bighint := 0, bm_u := 0\<rparr>"
    using set_children_spec [where f = "\<lambda>ch. ch\<lparr>bm_bighint := 0, bm_u := 0\<rparr>", OF sk n h] by blast
  have c: "acc k mm' (chl k b c) (sub k n c) \<and> rfree k mm' (chl k b c) (sub k n c) = {}" if "c < 16" "c * cover k < n" for c
    using m(5) [OF that] by (cases k) auto
  then have "expanded k mm' b n" "kids k mm' b n = {}" using m(2) by (auto simp: expanded_def kids_def simp del: skel.simps)
  then show ?thesis using m frame_mono [OF m(4), of b] by auto
qed

section \<open>Allocation\<close>

lemma unat_neg1: "unat (- 1 :: u32) = 4294967295"
  by (simp add: unsigned_minus_1_eq_mask mask_eq_exp_minus_1)

lemma count_pred:
  assumes "1 \<le> unat count" "unat count \<le> 2 ^ 31"
  shows "unat (count - 1) = unat count - 1" "count - 1 \<noteq> (- 1 :: u32)" "count - 1 = 0 \<longleftrightarrow> unat count = 1"
proof -
  show u: "unat (count - 1) = unat count - 1" using assms(1) by (intro unat_minus_one) auto
  show "count - 1 \<noteq> - 1" using u unat_neg1 assms(2) by auto
  show "count - 1 = 0 \<longleftrightarrow> unat count = 1" using u assms(1) unfolding word_unat_eq_iff by auto
qed

text \<open>The call for a node of a given level, and what it promises.\<close>

definition node_alloc :: "nat \<Rightarrow> nodes \<Rightarrow> nat \<Rightarrow> u32 \<Rightarrow> u32 \<Rightarrow> (nodes \<times> u32) result" where
  "node_alloc k mm b blk count =
     (if k = 0 then blst_leaf_alloc mm b blk count else blst_meta_alloc mm b blk count (of_nat (cover k)) (slots k - 1))"

definition alloc_post :: "nat \<Rightarrow> nodes \<Rightarrow> nat \<Rightarrow> nat \<Rightarrow> nat \<Rightarrow> nat \<Rightarrow> nodes \<Rightarrow> u32 \<Rightarrow> bool" where
  "alloc_post k mm b n base count mm' r \<longleftrightarrow>
     node_ok k mm' b n \<and> frame b (b + slots k) mm mm' \<and>
     (r = BLIST_NONE \<and> rfree k mm' b n = rfree k mm b n \<and> (count = 1 \<longrightarrow> rfree k mm b n = {}) \<or>
      (\<exists>x. r = of_nat (base + x) \<and> base + x < 2 ^ 30 \<and> {x..<x + count} \<subseteq> rfree k mm b n \<and>
           rfree k mm' b n = rfree k mm b n - {x..<x + count}))"

lemma leaf_alloc_spec:
  assumes ok: "node_ok 0 mm b n" and c: "1 \<le> unat count" "unat count \<le> 32" and base: "base + 32 \<le> 2 ^ 30"
  shows "\<exists>mm' r. blst_leaf_alloc mm b (of_nat base) count = Ok (mm', r) \<and> alloc_post 0 mm b n base (unat count) mm' r"
proof -
  let ?w = "bm_u (mm ! b)"
  have b: "b < length mm" "bm_bighint (mm ! b) \<noteq> - 1" "lbits ?w \<subseteq> {..<n}" "?w \<noteq> 0 \<longrightarrow> bm_bighint (mm ! b) \<noteq> 0"
    using ok by (simp_all add: node_ok_def)
  have fin: "alloc_post 0 mm b n base (unat count) (mm[b := (mm ! b)\<lparr>bm_u := ?w AND NOT m\<rparr>]) (of_nat (base + x))"
    if "lbits m = {x..<x + unat count}" "{x..<x + unat count} \<subseteq> lbits ?w" "x < 32" for m x
  proof -
    have "{x..<x + unat count} \<subseteq> {..<32}" using that(1) lbits_less by blast
    then show ?thesis using that b base
      by (auto simp: alloc_post_def node_ok_def frame_update lbits_diff intro!: exI [of _ x])
  qed
  have none: "alloc_post 0 mm b n base (unat count) (mm[b := (mm ! b)\<lparr>bm_bighint := h\<rparr>]) BLIST_NONE"
    if "h \<noteq> - 1" "?w \<noteq> 0 \<longrightarrow> h \<noteq> 0 \<and> unat count \<noteq> 1" for h
    using that b by (auto simp: alloc_post_def node_ok_def frame_update lbits_empty)
  consider (empty) "?w = 0" | (single) "?w \<noteq> 0" "count = 1" | (run) "?w \<noteq> 0" "2 \<le> unat count"
    using c by (metis One_nat_def Suc_1 Suc_leI le_neq_implies_less unat_1 word_unat_eq_iff)
  then show ?thesis
  proof cases
    case empty
    then show ?thesis using none [of 0] b by (simp add: blst_leaf_alloc_def node_def upd_node_def)
  next
    case single
    let ?r = "leaf_first 16 0xffff ?w 0"
    have r: "?r \<in> lbits ?w" "?r < 32" using leaf_first_spec [OF single(1)] lbits_less by auto
    then have "alloc_post 0 mm b n base (unat count) (mm[b := (mm ! b)\<lparr>bm_u := ?w AND NOT (push_bit ?r 1)\<rparr>]) (of_nat (base + ?r))"
      using single by (intro fin) (auto simp: lbits_one)
    then show ?thesis using single b by (simp add: blst_leaf_alloc_def node_def upd_node_def Let_def)
  next
    case run
    define n' where "n' = 32 - count"
    have n': "unat n' = 32 - unat count" unfolding n'_def using c by (simp add: unat_sub word_le_nat_alt)
    have m: "drop_bit (unat n') (- 1 :: u32) = push_bit 0 (mask (unat count))"
      unfolding n' by (rule bit_word_eqI) (use c in \<open>auto simp: bit_simps\<close>)
    have sh: "c_shift drop_bit (- 1) n' = Ok (push_bit 0 (mask (unat count)))"
      using n' run m by (simp add: c_shift_def word_le_nat_alt)
    define found where "found = leaf_run (Suc (unat n')) ?w (push_bit 0 (mask (unat count))) 0"
    have "blst_leaf_alloc mm b (of_nat base) count = (case found of
        Some (j, msk) \<Rightarrow> Ok (mm[b := (mm ! b)\<lparr>bm_u := ?w AND NOT msk\<rparr>], of_nat base + of_nat j)
      | None \<Rightarrow> Ok (mm[b := (mm ! b)\<lparr>bm_bighint := count - 1\<rparr>], BLIST_NONE))"
      using run c b sh unfolding blst_leaf_alloc_def found_def n'_def [symmetric]
      by (auto simp: node_def upd_node_def Let_def word_le_nat_alt split: option.splits)
    moreover have "alloc_post 0 mm b n base (unat count) (mm[b := (mm ! b)\<lparr>bm_bighint := count - 1\<rparr>]) BLIST_NONE"
      using run c count_pred [of count] by (intro none) auto
    moreover have "alloc_post 0 mm b n base (unat count) (mm[b := (mm ! b)\<lparr>bm_u := ?w AND NOT msk\<rparr>]) (of_nat (base + j))"
      if "found = Some (j, msk)" for j msk
      using leaf_run_Some [OF that [unfolded found_def]] c n' run by (intro fin) (auto simp: lbits_shift)
    ultimately show ?thesis by (cases found) auto
  qed
qed

text \<open>How an operation on one child changes the free blocks of the node.\<close>

lemma div_interval: "x + m \<le> cover k \<Longrightarrow> y \<in> {c * cover k + x..<c * cover k + x + m} \<longleftrightarrow> y div cover k = c \<and> y mod cover k \<in> {x..<x + m}"
proof -
  assume le: "x + m \<le> cover k"
  have "y div cover k = c" if "y \<in> {c * cover k + x..<c * cover k + x + m}"
    using that le by (intro div_nat_eqI) (auto simp: algebra_simps)
  moreover have "y \<in> {c * cover k + x..<c * cover k + x + m} \<longleftrightarrow> y mod cover k \<in> {x..<x + m}" if "y div cover k = c"
    using div_mult_mod_eq [of y "cover k"] unfolding that by auto
  ultimately show ?thesis by blast
qed

lemma kids_child:
  assumes e: "expanded k mm b n" and k: "Suc k \<le> 6" and c: "c < 16" "c * cover k < n"
    and ok: "node_ok k mm' (chl k b c) (sub k n c)" and fr: "frame (chl k b c) (chl k b c + slots k) mm mm'"
  shows "rfree k mm' (chl k b c) (sub k n c) = rfree k mm (chl k b c) (sub k n c) \<Longrightarrow> kids k mm' b n = kids k mm b n"
    "x + m \<le> cover k \<Longrightarrow> rfree k mm' (chl k b c) (sub k n c) = rfree k mm (chl k b c) (sub k n c) - {x..<x + m}
      \<Longrightarrow> kids k mm' b n = kids k mm b n - {c * cover k + x..<c * cover k + x + m}"
    "x + m \<le> cover k \<Longrightarrow> rfree k mm' (chl k b c) (sub k n c) = rfree k mm (chl k b c) (sub k n c) \<union> {x..<x + m}
      \<Longrightarrow> kids k mm' b n = kids k mm b n \<union> {c * cover k + x..<c * cover k + x + m}"
  using c unfolding set_eq_iff child_update(3) [OF assms] Diff_iff Un_iff div_interval by (auto simp: kids_iff [OF e k])

lemma kids_interval:
  assumes e: "expanded k mm b n" and k: "Suc k \<le> 6" and c: "c < 16" "c * cover k < n"
    and s: "{x..<x + m} \<subseteq> rfree k mm (chl k b c) (sub k n c)" and m: "1 \<le> m"
  shows "x + m \<le> cover k" "{c * cover k + x..<c * cover k + x + m} \<subseteq> kids k mm b n"
proof -
  have "rfree k mm (chl k b c) (sub k n c) \<subseteq> {..<sub k n c}"
    using expanded_child(1) [OF e c] k sub_le by (intro rfree_bound) (auto simp: node_ok_def)
  then have "x + m - 1 < sub k n c" using s m by (auto dest!: subsetD [of _ _ "x + m - 1"])
  then show le: "x + m \<le> cover k" using sub_le [of k n c] m by linarith
  show "{c * cover k + x..<c * cover k + x + m} \<subseteq> kids k mm b n"
    unfolding subset_iff div_interval [OF le] kids_iff [OF e k] using c s by auto
qed

lemma blk_not_none: "x < 2 ^ 30 \<Longrightarrow> of_nat x \<noteq> (BLIST_NONE)"
  by (auto dest: arg_cong [where f = unat] simp: unat_of_nat)

text \<open>One round of the search: the child at \<open>c\<close> is the terminator, has no room, or is asked.\<close>

definition alloc_loop :: "nat \<Rightarrow> nodes \<Rightarrow> nat \<Rightarrow> nat \<Rightarrow> nat \<Rightarrow> nat set \<Rightarrow> nat \<Rightarrow> nat \<Rightarrow> nodes \<times> u32 \<times> u32 option \<Rightarrow> bool" where
  "alloc_loop k mm b n base F count c s \<longleftrightarrow> (case s of (mm', blk, ret) \<Rightarrow>
     ret = None \<and> blk = of_nat (base + c * cover k) \<and> expanded k mm' b n \<and> kids k mm' b n = F \<and> mm' ! b = mm ! b
     \<and> frame b (b + slots (Suc k)) mm mm' \<and> (\<forall>d < c. d * cover k < n) \<and> (count = 1 \<longrightarrow> (\<forall>x \<in> F. c \<le> x div cover k)))"

definition alloc_done :: "nat \<Rightarrow> nodes \<Rightarrow> nat \<Rightarrow> nat \<Rightarrow> nat \<Rightarrow> nat set \<Rightarrow> nat \<Rightarrow> nodes \<times> u32 \<times> u32 option \<Rightarrow> bool" where
  "alloc_done k mm b n base F count s \<longleftrightarrow> (case s of (mm', blk, ret) \<Rightarrow> frame b (b + slots (Suc k)) mm mm' \<and> (case ret of
     None \<Rightarrow> expanded k mm' b n \<and> kids k mm' b n = F \<and> mm' ! b = mm ! b \<and> (count = 1 \<longrightarrow> F = {})
   | Some r \<Rightarrow> node_ok (Suc k) mm' b n \<and> (\<exists>x. r = of_nat (base + x) \<and> base + x < 2 ^ 30 \<and> {x..<x + count} \<subseteq> F
       \<and> rfree (Suc k) mm' b n = F - {x..<x + count})))"

abbreviation alloc_body :: "nat \<Rightarrow> nat \<Rightarrow> u32 \<Rightarrow> nat \<Rightarrow> nodes \<times> u32 \<times> u32 option \<Rightarrow> ((nodes \<times> u32 \<times> u32 option) + (nodes \<times> u32 \<times> u32 option)) result" where
  "alloc_body k b count \<equiv> \<lambda>i (mm, blk, ret).
     bind_r (node mm (b + i)) (\<lambda>ch.
       if bm_bighint ch = - 1 then Ok (Inl (mm, blk, ret))
       else if count \<le> bm_bighint ch
       then bind_r (node_alloc k mm (b + i) blk count) (\<lambda>(mm, r).
              if r \<noteq> BLIST_NONE
              then bind_r (upd_node mm b (\<lambda>sc. let avail = bm_u sc - count
                             in sc\<lparr>bm_u := avail, bm_bighint := if avail < bm_bighint sc then avail else bm_bighint sc\<rparr>))
                     (\<lambda>mm. Ok (Inl (mm, blk, Some r)))
              else Ok (Inr (mm, blk + of_nat (cover k), None)))
       else if of_nat (cover k) < count then Panic ''blist_meta_alloc: allocation too large''
       else Ok (Inr (mm, blk + of_nat (cover k), None)))"

lemma alloc_empty_fin:
  assumes "expanded k mm b n" "Suc k \<le> 6" "n \<le> c * cover k" "\<forall>x \<in> kids k mm b n. c \<le> x div cover k"
  shows "kids k mm b n = {}"
proof -
  have "x div cover k < c" if "x \<in> kids k mm b n" for x
    using kids_bound [OF assms(1,2)] that assms(3) by (auto simp: div_less_iff_less_mult)
  then show ?thesis using assms(4) by fastforce
qed

lemma empty_child: "node_ok k mm b n \<Longrightarrow> bm_bighint (mm ! b) = 0 \<Longrightarrow> rfree k mm b n = {}"
  by (cases k) (auto simp: node_ok_def)

lemma alloc_success:
  assumes e: "expanded k mm b n" and k: "Suc k \<le> 6" and n: "n \<le> cover (Suc k)"
    and u: "unat (bm_u (mm ! b)) = card F" "bm_bighint (mm ! b) \<noteq> 0" and c: "1 \<le> unat count"
    and F: "kids k mm b n = F - {y..<y + unat count}" "{y..<y + unat count} \<subseteq> F" "finite F"
  defines "a \<equiv> bm_u (mm ! b) - count"
  defines "mm' \<equiv> mm[b := (mm ! b)\<lparr>bm_u := a, bm_bighint := if a < bm_bighint (mm ! b) then a else bm_bighint (mm ! b)\<rparr>]"
  shows "node_ok (Suc k) mm' b n" "rfree (Suc k) mm' b n = F - {y..<y + unat count}"
proof -
  have card: "card F - unat count = card (kids k mm b n)" using F by (simp add: card_Diff_subset)
  have le: "unat count \<le> card F" using card_mono [OF F(3,2)] by simp
  then have a: "unat a = card (kids k mm b n)" unfolding a_def using u(1) card by (simp add: unat_sub word_le_nat_alt)
  have b: "b < length mm" "bm_bighint (mm ! b) \<noteq> - 1" using e by (auto simp: expanded_def)
  have "a < bm_bighint (mm ! b) \<Longrightarrow> a \<noteq> - 1" using word_less_nat_alt by (auto simp: not_less [symmetric])
  then have h: "bm_bighint ((mm ! b)\<lparr>bm_u := a, bm_bighint := if a < bm_bighint (mm ! b) then a else bm_bighint (mm ! b)\<rparr>) \<noteq> - 1"
    using b by simp
  note o = own_update [OF e h, folded mm'_def]
  have "unat (bm_u (mm' ! b)) = card (kids k mm' b n)" "bm_u (mm' ! b) \<noteq> 0 \<longrightarrow> bm_bighint (mm' ! b) \<noteq> 0"
    unfolding o(2) using a b u(2) by (auto simp: mm'_def)
  from node_of_expanded [OF o(1) k n this] show "node_ok (Suc k) mm' b n" "rfree (Suc k) mm' b n = F - {y..<y + unat count}"
    unfolding o(2) F(1) by blast+
qed

lemma alloc_loopE:
  assumes "alloc_loop k mm b n base F count c s"
  obtains m where "s = (m, of_nat (base + c * cover k), None)" "expanded k m b n" "kids k m b n = F" "m ! b = mm ! b"
    "frame b (b + slots (Suc k)) mm m" "\<forall>d < c. d * cover k < n" "count = 1 \<longrightarrow> (\<forall>x \<in> F. c \<le> x div cover k)"
  using assms by (auto simp: alloc_loop_def split: prod.splits)

text \<open>A child that gives nothing: the search goes on with the next one.\<close>

lemma alloc_next:
  assumes P: "alloc_loop k mm b n base F count c (m, w)" and k: "Suc k \<le> 6" and c: "c * cover k < n"
    and m': "expanded k m' b n" "kids k m' b n = F" "m' ! b = mm ! b" "frame b (b + slots (Suc k)) mm m'"
    and z: "count = 1 \<longrightarrow> rfree k m (chl k b c) (sub k n c) = {}"
  shows "alloc_loop k mm b n base F count (Suc c) (m', of_nat (base + c * cover k) + of_nat (cover k), None)"
proof -
  have m: "expanded k m b n" "kids k m b n = F" "\<forall>d < c. d * cover k < n" "count = 1 \<longrightarrow> (\<forall>x \<in> F. c \<le> x div cover k)"
    using P unfolding alloc_loop_def by (simp_all split: prod.splits)
  have "Suc c \<le> x div cover k" if "count = 1" "x \<in> F" for x
  proof -
    have "x div cover k \<noteq> c" using that z unfolding m(2) [symmetric] kids_iff [OF m(1) k] by auto
    then show ?thesis using m(4) that by (simp add: Suc_le_eq order_less_le)
  qed
  then show ?thesis using m' m(3) c by (auto simp: alloc_loop_def less_Suc_eq add.assoc)
qed

text \<open>A child that gives the blocks from \<open>x\<close> on.\<close>

lemma alloc_found:
  assumes m: "expanded k m b n" "kids k m b n = F" "m ! b = mm ! b" "frame b (b + slots (Suc k)) mm m"
    and k: "Suc k \<le> 6" and n: "n \<le> cover (Suc k)" and count: "1 \<le> unat count" and c: "c < 16" "c * cover k < n"
    and F: "finite F" "unat (bm_u (mm ! b)) = card F" "bm_bighint (mm ! b) \<noteq> 0"
    and ok: "node_ok k m' (chl k b c) (sub k n c)" and fr: "frame (chl k b c) (chl k b c + slots k) m m'"
    and x: "base + c * cover k + x < 2 ^ 30" "{x..<x + unat count} \<subseteq> rfree k m (chl k b c) (sub k n c)"
      "rfree k m' (chl k b c) (sub k n c) = rfree k m (chl k b c) (sub k n c) - {x..<x + unat count}"
  defines "a \<equiv> bm_u (mm ! b) - count"
  shows "alloc_done k mm b n base F (unat count)
    (m'[b := (mm ! b)\<lparr>bm_u := a, bm_bighint := if a < bm_bighint (mm ! b) then a else bm_bighint (mm ! b)\<rparr>], blk, Some (of_nat (base + c * cover k + x)))"
proof -
  note cu = child_update(1,2) [OF m(1) k c ok fr]
  note ki = kids_interval [OF m(1) k c x(2) count]
  let ?y = "c * cover k + x"
  let ?m = "m'[b := (mm ! b)\<lparr>bm_u := a, bm_bighint := if a < bm_bighint (mm ! b) then a else bm_bighint (mm ! b)\<rparr>]"
  have own: "m' ! b = mm ! b" using cu(2) m(3) by simp
  have kd: "kids k m' b n = F - {?y..<?y + unat count}" "{?y..<?y + unat count} \<subseteq> F"
    using kids_child(2) [OF m(1) k c ok fr ki(1) x(3)] ki(2) unfolding m(2) by simp_all
  have fin: "node_ok (Suc k) ?m b n" "rfree (Suc k) ?m b n = F - {?y..<?y + unat count}"
    unfolding a_def using alloc_success [OF cu(1) k n _ _ count kd F(1), unfolded own, OF F(2,3)] by blast+
  have "frame b (b + slots (Suc k)) mm m'"
    using frame_mono [OF fr, of b "b + slots (Suc k)"] chl_range(2) [OF c(1), of k b] less_imp_le [OF chl_gt(1)] m(4) frame_trans by blast
  then have "frame b (b + slots (Suc k)) mm ?m" by (rule frame_trans [OF _ frame_update]) simp_all
  then show ?thesis using x(1) fin kd(2)
    by (auto simp: alloc_done_def add.assoc simp del: rfree.simps slots.simps intro!: exI [of _ ?y])
qed

lemma alloc_ask:
  assumes IH: "\<And>mm b n base. node_ok k mm b n \<Longrightarrow> 0 < n \<Longrightarrow> n \<le> cover k \<Longrightarrow> base + cover k \<le> 2 ^ 30 \<Longrightarrow>
      \<exists>mm' r. node_alloc k mm b (of_nat base) count = Ok (mm', r) \<and> alloc_post k mm b n base (unat count) mm' r"
    and k: "Suc k \<le> 6" and n: "0 < n" "n \<le> cover (Suc k)" and base: "base + cover (Suc k) \<le> 2 ^ 30"
    and count: "1 \<le> unat count" "unat count \<le> 32" and c: "c < 16"
    and F: "finite F" "unat (bm_u (mm ! b)) = card F" "bm_bighint (mm ! b) \<noteq> 0"
    and P: "alloc_loop k mm b n base F (unat count) c s"
    and live: "c * cover k < n" and s: "s = (m, of_nat (base + c * cover k), None)" and fits: "count \<le> bm_bighint (m ! chl k b c)"
  shows "\<exists>x. alloc_body k b count (1 + c * slots k) s = Ok x \<and>
    (case x of Inl s' \<Rightarrow> alloc_done k mm b n base F (unat count) s' | Inr s' \<Rightarrow> alloc_loop k mm b n base F (unat count) (Suc c) s')"
proof -
  have m: "expanded k m b n" "kids k m b n = F" "m ! b = mm ! b" "frame b (b + slots (Suc k)) mm m"
    using P unfolding s alloc_loop_def by simp_all
  note ch = expanded_child [OF m(1) c live]
  have b1: "base + c * cover k + cover k \<le> 2 ^ 30" using base child_end [OF c, of k] by linarith
  have sub0: "0 < sub k n c" using live by (simp add: sub_def)
  obtain m' r where r: "node_alloc k m (chl k b c) (of_nat (base + c * cover k)) count = Ok (m', r)"
    "alloc_post k m (chl k b c) (sub k n c) (base + c * cover k) (unat count) m' r"
    using IH [OF ch(1) sub0 sub_le b1] by blast
  have ok: "node_ok k m' (chl k b c) (sub k n c)" and fr: "frame (chl k b c) (chl k b c + slots k) m m'"
    using r(2) by (simp_all add: alloc_post_def)
  note cu = child_update(1,2) [OF m(1) k c live ok fr]
  have own: "m' ! b = mm ! b" "b < length m'" using cu m(3) by (simp_all add: expanded_def)
  from r(2) consider (none) "r = BLIST_NONE" "rfree k m' (chl k b c) (sub k n c) = rfree k m (chl k b c) (sub k n c)"
      "unat count = 1 \<longrightarrow> rfree k m (chl k b c) (sub k n c) = {}"
    | (some) x where "r = of_nat (base + c * cover k + x)" "base + c * cover k + x < 2 ^ 30"
      "{x..<x + unat count} \<subseteq> rfree k m (chl k b c) (sub k n c)"
      "rfree k m' (chl k b c) (sub k n c) = rfree k m (chl k b c) (sub k n c) - {x..<x + unat count}"
    unfolding alloc_post_def by blast
  then show ?thesis
  proof cases
    case none
    have "frame b (b + slots (Suc k)) mm m'"
      using frame_mono [OF fr, of b "b + slots (Suc k)"] chl_range(2) [OF c, of k b] less_imp_le [OF chl_gt(1)] m(4) frame_trans by blast
    then have "alloc_loop k mm b n base F (unat count) (Suc c) (m', of_nat (base + c * cover k) + of_nat (cover k), None)"
      using cu(1) kids_child(1) [OF m(1) k c live ok fr none(2)] m(2) own none(3) by (intro alloc_next [OF P [unfolded s] k live]) simp_all
    then show ?thesis unfolding s using fits ch r(1) none(1)
      by (intro exI [of _ "Inr (m', of_nat (base + c * cover k) + of_nat (cover k), None)"]) (simp add: node_def)
  next
    case some
    have "r \<noteq> BLIST_NONE" unfolding some(1) by (rule blk_not_none [OF some(2)])
    moreover let ?a = "bm_u (mm ! b) - count"
    let ?s = "(m'[b := (mm ! b)\<lparr>bm_u := ?a, bm_bighint := if ?a < bm_bighint (mm ! b) then ?a else bm_bighint (mm ! b)\<rparr>], of_nat (base + c * cover k), Some r)"
    have "alloc_done k mm b n base F (unat count) ?s"
      unfolding some(1) by (rule alloc_found [OF m k n(2) count(1) c live F ok fr some(2-4)])
    ultimately show ?thesis unfolding s using fits ch r(1) own
      by (intro exI [of _ "Inl ?s"]) (simp add: node_def upd_node_def Let_def)
  qed
qed

lemma alloc_step:
  assumes IH: "\<And>mm b n base. node_ok k mm b n \<Longrightarrow> 0 < n \<Longrightarrow> n \<le> cover k \<Longrightarrow> base + cover k \<le> 2 ^ 30 \<Longrightarrow>
      \<exists>mm' r. node_alloc k mm b (of_nat base) count = Ok (mm', r) \<and> alloc_post k mm b n base (unat count) mm' r"
    and k: "Suc k \<le> 6" and n: "0 < n" "n \<le> cover (Suc k)" and base: "base + cover (Suc k) \<le> 2 ^ 30"
    and count: "1 \<le> unat count" "unat count \<le> 32" and c: "c < 16"
    and F: "finite F" "unat (bm_u (mm ! b)) = card F" "bm_bighint (mm ! b) \<noteq> 0"
    and P: "alloc_loop k mm b n base F (unat count) c s"
  shows "\<exists>x. alloc_body k b count (1 + c * slots k) s = Ok x \<and>
    (case x of Inl s' \<Rightarrow> alloc_done k mm b n base F (unat count) s' | Inr s' \<Rightarrow> alloc_loop k mm b n base F (unat count) (Suc c) s')"
proof -
  obtain m where s: "s = (m, of_nat (base + c * cover k), None)" and m: "expanded k m b n" "kids k m b n = F" "m ! b = mm ! b"
    "frame b (b + slots (Suc k)) mm m" "\<forall>d < c. d * cover k < n" "unat count = 1 \<longrightarrow> (\<forall>x \<in> F. c \<le> x div cover k)"
    using P by (rule alloc_loopE)
  have sk: "skel (Suc k) m b n" using m(1) by (simp only: expanded_def)
  show ?thesis
  proof (cases "c * cover k < n")
    case False
    have "chl k b c < length m" "bm_bighint (m ! chl k b c) = - 1" using terminator [OF sk c False m(5) n(1)] by blast+
    moreover have "unat count = 1 \<longrightarrow> F = {}" using alloc_empty_fin [OF m(1) k, of c] False m(2,6) by simp
    ultimately show ?thesis using m unfolding s
      by (intro exI [of _ "Inl (m, of_nat (base + c * cover k), None)"]) (simp add: node_def alloc_done_def)
  next
    case True
    note ch = expanded_child [OF m(1) c True]
    show ?thesis
    proof (cases "count \<le> bm_bighint (m ! chl k b c)")
      case False
      have "unat count = 1 \<longrightarrow> rfree k m (chl k b c) (sub k n c) = {}"
        using False empty_child [OF ch(1)] by (auto simp: word_le_nat_alt unat_eq_zero not_le)
      moreover have "\<not> of_nat (cover k) < count" using count(2) cover_ge [of k] unat_cover [of k] k by (simp add: word_less_nat_alt)
      ultimately show ?thesis unfolding s using False ch alloc_next [OF P [unfolded s] k True m(1-4)]
        by (intro exI [of _ "Inr (m, of_nat (base + c * cover k) + of_nat (cover k), None)"]) (simp add: node_def)
    next
      case fits: True
      show ?thesis by (rule alloc_ask [OF IH k n base count c F P True s fits])
    qed
  qed
qed

lemma alloc_start:
  assumes ok: "node_ok (Suc k) mm b n" and k: "Suc k \<le> 6" and n: "n \<le> cover (Suc k)" and u: "bm_u (mm ! b) \<noteq> 0"
  shows "\<exists>m. (if bm_u (mm ! b) = of_nat (cover (Suc k)) then set_children mm b (16 * slots k) (slots k) (children_free (slots k) (of_nat (cover k))) else Ok mm) = Ok m
    \<and> expanded k m b n \<and> kids k m b n = rfree (Suc k) mm b n \<and> m ! b = mm ! b \<and> frame b (b + slots (Suc k)) mm m"
proof (cases "bm_u (mm ! b) = of_nat (cover (Suc k))")
  case True
  then show ?thesis using expand_free [OF ok True k n] cover_word(1) [OF k] by (auto simp: rfree_Suc)
next
  case False
  then show ?thesis using node_expanded [OF ok u False] by auto
qed

lemma meta_alloc_unfold:
  assumes "Suc k \<le> 6"
  shows "node_alloc (Suc k) mm b blk count =
    bind_r (node mm b) (\<lambda>sc.
      if bm_u sc = 0 then bind_r (upd_node mm b (\<lambda>sc. sc\<lparr>bm_bighint := count\<rparr>)) (\<lambda>mm. Ok (mm, BLIST_NONE))
      else bind_r (if bm_u sc = of_nat (cover (Suc k)) then set_children mm b (16 * slots k) (slots k) (children_free (slots k) (of_nat (cover k))) else Ok mm) (\<lambda>mm.
           bind_r (scan_loop (16 * slots k) (slots k) (alloc_body k b count) 1 (mm, blk, None)) (\<lambda>(mm, _, ret).
           case ret of Some r \<Rightarrow> Ok (mm, r)
           | None \<Rightarrow> bind_r (upd_node mm b (\<lambda>sc. if count \<le> bm_bighint sc then sc\<lparr>bm_bighint := count - 1\<rparr> else sc))
                      (\<lambda>mm. Ok (mm, BLIST_NONE)))))"
proof -
  have "alloc_body k b count = (\<lambda>i (mm, blk, ret).
            bind_r (node mm (b + i)) (\<lambda>ch.
              if bm_bighint ch = - 1 then Ok (Inl (mm, blk, ret))
              else if count \<le> bm_bighint ch
              then bind_r (if slots k = 1 then blst_leaf_alloc mm (b + i) blk count
                           else blst_meta_alloc mm (b + i) blk count (of_nat (cover k)) (slots k - 1)) (\<lambda>(mm, r).
                     if r \<noteq> BLIST_NONE
                     then bind_r (upd_node mm b (\<lambda>sc. let avail = bm_u sc - count
                                    in sc\<lparr>bm_u := avail, bm_bighint := if avail < bm_bighint sc then avail else bm_bighint sc\<rparr>))
                            (\<lambda>mm. Ok (Inl (mm, blk, Some r)))
                     else Ok (Inr (mm, blk + of_nat (cover k), None)))
              else if of_nat (cover k) < count then Panic ''blist_meta_alloc: allocation too large''
              else Ok (Inr (mm, blk + of_nat (cover k), None))))"
    unfolding node_alloc_def slots_eq_1 ..
  then show ?thesis
    unfolding node_alloc_def by (subst blst_meta_alloc.simps) (simp only: skp_Suc subradix [OF assms] Let_def nat.simps if_False)
qed

lemma alloc_failed:
  assumes m: "expanded k m b n" "kids k m b n = F" "m ! b = mm ! b" "frame b (b + slots (Suc k)) mm m" "unat count = 1 \<longrightarrow> F = {}"
    and F_def: "F = rfree (Suc k) mm b n" and k: "Suc k \<le> 6" and n: "n \<le> cover (Suc k)" and count: "1 \<le> unat count" "unat count \<le> 32"
    and F: "finite F" "unat (bm_u (mm ! b)) = card F" "bm_bighint (mm ! b) \<noteq> 0" and u: "bm_u (mm ! b) \<noteq> 0" "bm_bighint (mm ! b) \<noteq> - 1"
  defines "x \<equiv> if count \<le> bm_bighint (mm ! b) then (mm ! b)\<lparr>bm_bighint := count - 1\<rparr> else mm ! b"
  shows "alloc_post (Suc k) mm b n base (unat count) (m[b := x]) BLIST_NONE"
proof -
  have u1: "unat count \<noteq> 1" using m(5) F(2) u(1) by (auto simp: unat_eq_zero)
  have h: "bm_bighint x \<noteq> - 1" "bm_bighint x \<noteq> 0" unfolding x_def using u(2) F(3) u1 count count_pred [of count] by auto
  have b: "b < length m" using m(1) by (simp add: expanded_def)
  have x: "unat (bm_u x) = card F" unfolding x_def using F(2) by simp
  note o = own_update [OF m(1) h(1)]
  have "node_ok (Suc k) (m[b := x]) b n" "rfree (Suc k) (m[b := x]) b n = F"
    using node_of_expanded [OF o(1) k n] unfolding o(2) m(2) using b x h(2) by (auto simp del: rfree.simps)
  moreover have "frame b (b + slots (Suc k)) mm (m[b := x])" by (rule frame_trans [OF m(4) frame_update]) simp_all
  ultimately show ?thesis using u1 unfolding alloc_post_def F_def by simp
qed

theorem node_alloc_spec:
  assumes "node_ok k mm b n" "k \<le> 6" "0 < n" "n \<le> cover k" "base + cover k \<le> 2 ^ 30" "1 \<le> unat count" "unat count \<le> 32"
  shows "\<exists>mm' r. node_alloc k mm b (of_nat base) count = Ok (mm', r) \<and> alloc_post k mm b n base (unat count) mm' r"
  using assms
proof (induction k arbitrary: mm b n base)
  case 0
  then show ?case using leaf_alloc_spec [of mm b n count base] by (simp add: node_alloc_def)
next
  case (Suc k)
  note ok = Suc.prems(1) and k = Suc.prems(2) and n = Suc.prems(3,4) and count = Suc.prems(6,7)
  have b: "b < length mm" "bm_bighint (mm ! b) \<noteq> - 1" and sk: "skel (Suc k) mm b n" using ok by (auto simp: node_ok_def)
  show ?case
  proof (cases "bm_u (mm ! b) = 0")
    case True
    have "count \<noteq> - 1" using count unat_neg1 by auto
    then have "alloc_post (Suc k) mm b n base (unat count) (mm[b := (mm ! b)\<lparr>bm_bighint := count\<rparr>]) BLIST_NONE"
      using True b skel_own [OF sk] by (simp add: alloc_post_def node_ok_def frame_update del: skel.simps slots.simps)
    then show ?thesis using True b by (simp add: meta_alloc_unfold [OF k] node_def upd_node_def)
  next
    case False
    define F where "F = rfree (Suc k) mm b n"
    obtain m where m: "(if bm_u (mm ! b) = of_nat (cover (Suc k)) then set_children mm b (16 * slots k) (slots k) (children_free (slots k) (of_nat (cover k))) else Ok mm) = Ok m"
      "expanded k m b n" "kids k m b n = F" "m ! b = mm ! b" "frame b (b + slots (Suc k)) mm m"
      using alloc_start [OF ok k n(2) False] unfolding F_def by blast
    have F: "finite F" "unat (bm_u (mm ! b)) = card F" "bm_bighint (mm ! b) \<noteq> 0"
      using finite_kids [OF m(2) k] m(3) avail_card [OF ok k] ok False unfolding F_def by (auto simp: node_ok_def)
    have st: "alloc_loop k mm b n base F (unat count) 0 (m, of_nat base, None)" using m by (simp add: alloc_loop_def del: slots.simps)
    have "\<exists>s. scan_loop (16 * slots k) (slots k) (alloc_body k b count) (1 + 0 * slots k) (m, of_nat base, None) = Ok s
        \<and> alloc_done k mm b n base F (unat count) s"
    proof (rule scan_rule [where P = "alloc_loop k mm b n base F (unat count)", OF st])
      show "\<exists>x. alloc_body k b count (1 + c * slots k) s = Ok x \<and> (case x of Inl s' \<Rightarrow> alloc_done k mm b n base F (unat count) s'
          | Inr s' \<Rightarrow> alloc_loop k mm b n base F (unat count) (Suc c) s')"
        if "c < 16" "alloc_loop k mm b n base F (unat count) c s" for c s
        by (rule alloc_step [OF _ k n Suc.prems(5) count that(1) F that(2)]) (use Suc.IH k count in simp)
      show "alloc_done k mm b n base F (unat count) s" if "alloc_loop k mm b n base F (unat count) 16 s" for s
        using that alloc_empty_fin [of k _ b n 16] n(2) k by (auto simp: alloc_loop_def alloc_done_def cover_Suc)
    qed simp
    then obtain m' blk ret where l: "scan_loop (16 * slots k) (slots k) (alloc_body k b count) 1 (m, of_nat base, None) = Ok (m', blk, ret)"
      and d: "alloc_done k mm b n base F (unat count) (m', blk, ret)" by auto
    show ?thesis
    proof (cases ret)
      case (Some r)
      then have "alloc_post (Suc k) mm b n base (unat count) m' r"
        using d unfolding alloc_done_def alloc_post_def F_def by (simp del: rfree.simps slots.simps)
      then show ?thesis using b False m(1) l Some by (simp add: meta_alloc_unfold [OF k] node_def)
    next
      case None
      have d': "expanded k m' b n" "kids k m' b n = F" "m' ! b = mm ! b" "frame b (b + slots (Suc k)) mm m'" "unat count = 1 \<longrightarrow> F = {}"
        using d None by (simp_all add: alloc_done_def del: slots.simps)
      let ?x = "if count \<le> bm_bighint (mm ! b) then (mm ! b)\<lparr>bm_bighint := count - 1\<rparr> else mm ! b"
      have b': "b < length m'" using d'(1) by (simp add: expanded_def)
      have "alloc_post (Suc k) mm b n base (unat count) (m'[b := ?x]) BLIST_NONE"
        by (rule alloc_failed [OF d' F_def k n(2) count F False b(2)])
      moreover have "node_alloc (Suc k) mm b (of_nat base) count = Ok (m'[b := ?x], BLIST_NONE)"
        unfolding meta_alloc_unfold [OF k] node_Ok [OF b(1)] bind_r.simps using False m(1) l None
        by (simp add: upd_node_Ok [OF b'] d'(3))
      ultimately show ?thesis by blast
    qed
  qed
qed

end
