(* ===== verification/Blist_Free.thy ===== *)
theory Blist_Free
  imports Blist_Alloc
begin

text \<open>
  Operations on a range of blocks: the range is cut at the boundaries of the children. Freeing and filling.
\<close>

section \<open>Words and numbers\<close>

lemma w_less: "a < 2 ^ 32 \<Longrightarrow> b < 2 ^ 32 \<Longrightarrow> (of_nat a :: u32) < of_nat b \<longleftrightarrow> a < b"
  by (simp add: word_less_nat_alt unat_of_nat)

lemma w_eq: "a < 2 ^ 32 \<Longrightarrow> b < 2 ^ 32 \<Longrightarrow> (of_nat a :: u32) = of_nat b \<longleftrightarrow> a = b"
  by (simp add: word_unat_eq_iff unat_of_nat)

lemma w_diff: "b \<le> a \<Longrightarrow> (of_nat a :: u32) - of_nat b = of_nat (a - b)"
  by simp

lemma w_div: "a < 2 ^ 32 \<Longrightarrow> b < 2 ^ 32 \<Longrightarrow> (of_nat a :: u32) div of_nat b = of_nat (a div b)"
  using le_less_trans [OF div_le_dividend, of a _ b] by (simp add: word_unat_eq_iff unat_div unat_of_nat)

section \<open>Cutting a range\<close>

text \<open>
  A loop over the children from the one with block \<open>f\<close> on, up to block \<open>e\<close>: in round \<open>c\<close> the blocks from \<open>h\<close> to \<open>h'\<close> are
  those of the range in child \<open>c\<close>. \<open>P c h\<close> says that everything below \<open>h\<close> is done.
\<close>

lemma range_scan:
  assumes f: "f < e" "e \<le> cover (Suc k)" and init: "P (f div cover k) f s"
    and stop: "\<And>c s. c < 16 \<Longrightarrow> P c e s \<Longrightarrow> e \<le> c * cover k \<Longrightarrow> body (1 + c * slots k) s = Ok (Inl s)"
    and step: "\<And>c h h' s. c < 16 \<Longrightarrow> c * cover k \<le> h \<Longrightarrow> h < h' \<Longrightarrow> h' \<le> c * cover k + cover k \<Longrightarrow> h' = min e (c * cover k + cover k) \<Longrightarrow> f \<le> h \<Longrightarrow> h' \<le> e \<Longrightarrow>
      P c h s \<Longrightarrow> \<exists>s'. body (1 + c * slots k) s = Ok (Inr s') \<and> P (Suc c) h' s'"
  shows "\<exists>s' c. scan_loop (16 * slots k) (slots k) body (1 + f div cover k * slots k) s = Ok s' \<and> P c e s'"
proof -
  let ?h = "\<lambda>c. min e (max f (c * cover k))"
  let ?P = "\<lambda>c s. f div cover k \<le> c \<and> P c (?h c) s"
  have c0: "f div cover k * cover k \<le> f" by (rule div_times_less_eq_dividend)
  have "\<exists>s'. scan_loop (16 * slots k) (slots k) body (1 + f div cover k * slots k) s = Ok s' \<and> (\<exists>c. P c e s')"
  proof (rule scan_rule [where P = ?P])
    have "?h (f div cover k) = f" using c0 f(1) by simp
    then show "?P (f div cover k) s" using init by simp
    have "f div cover k < 16" using f by (simp add: div_less_iff_less_mult cover_Suc)
    then show "f div cover k \<le> 16" by simp
    show "\<exists>x. body (1 + c * slots k) t = Ok x \<and> (case x of Inl s' \<Rightarrow> \<exists>c. P c e s' | Inr s' \<Rightarrow> ?P (Suc c) s')"
      if c: "c < 16" and P: "?P c t" for c t
    proof (cases "c * cover k < e")
      case False
      then have "?h c = e" by simp
      then show ?thesis using P False stop [OF c, of t] by (intro exI [of _ "Inl t"]) auto
    next
      case True
      have lt: "f < c * cover k + cover k"
        using P dividend_less_div_times [OF cover_pos, of f k] mult_le_mono1 [of "f div cover k" c "cover k"] by linarith
      have h: "?h c = max f (c * cover k)" using True f(1) by simp
      let ?h' = "min e (c * cover k + cover k)"
      have h': "?h (Suc c) = ?h'" using lt by (simp add: add.commute max_absorb2)
      have "\<exists>s'. body (1 + c * slots k) t = Ok (Inr s') \<and> P (Suc c) ?h' s'"
        by (rule step [OF c, where h = "?h c"]) (use P True lt f(1) in \<open>auto simp: h\<close>)
      then show ?thesis using P h' by (metis (no_types, lifting) le_Suc_eq sum.case(2))
    qed
    show "\<exists>c. P c e t" if "?P 16 t" for t
    proof -
      have "?h 16 = e" using f(2) by (simp add: cover_Suc)
      then show ?thesis using that by auto
    qed
  qed
  then show ?thesis by blast
qed

section \<open>Freeing\<close>

definition node_free :: "nat \<Rightarrow> nodes \<Rightarrow> nat \<Rightarrow> u32 \<Rightarrow> u32 \<Rightarrow> u32 \<Rightarrow> nodes result" where
  "node_free k mm b freeBlk count blk =
     (if k = 0 then blst_leaf_free mm b freeBlk count else blst_meta_free mm b freeBlk count (of_nat (cover k)) (slots k - 1) blk)"

definition free_post :: "nat \<Rightarrow> nodes \<Rightarrow> nat \<Rightarrow> nat \<Rightarrow> nat \<Rightarrow> nat \<Rightarrow> nodes \<Rightarrow> bool" where
  "free_post k mm b n f count mm' \<longleftrightarrow> node_ok k mm' b n \<and> frame b (b + slots k) mm mm' \<and> rfree k mm' b n = rfree k mm b n \<union> {f..<f + count}"

lemma leaf_mask_range:
  assumes "base mod 32 = 0" "base + 32 \<le> 2 ^ 30" "1 \<le> count" "f + count \<le> 32"
  shows "\<exists>m. leaf_mask (of_nat (base + f)) (of_nat count) = Ok m \<and> lbits m = {f..<f + count}"
proof -
  have "unat (of_nat (base + f) :: u32) mod 32 = f" "unat (of_nat count :: u32) = count"
    using assms by (simp_all add: unat_of_nat mod_add_left_eq [of base 32 f, symmetric] del: of_nat_add)
  then show ?thesis using leaf_mask_spec [of "of_nat (base + f)" f "of_nat count"] assms by simp
qed

lemma leaf_free_spec:
  assumes ok: "node_ok 0 mm b n" and n: "n \<le> 32" and base: "base mod 32 = 0" "base + 32 \<le> 2 ^ 30"
    and f: "1 \<le> count" "f + count \<le> n" "{f..<f + count} \<inter> rfree 0 mm b n = {}"
  shows "\<exists>mm'. blst_leaf_free mm b (of_nat (base + f)) (of_nat count) = Ok mm' \<and> free_post 0 mm b n f count mm'"
proof -
  obtain m where m: "leaf_mask (of_nat (base + f)) (of_nat count) = Ok m" "lbits m = {f..<f + count}"
    using leaf_mask_range [of base count f] base f n by auto
  have b: "b < length mm" "lbits (bm_u (mm ! b)) \<subseteq> {..<n}" using ok by (simp_all add: node_ok_def)
  have "lbits (bm_u (mm ! b) AND m) = {}" using m(2) f(3) by auto
  then have "bm_u (mm ! b) AND m = 0" by (simp only: lbits_empty)
  then have "blst_leaf_free mm b (of_nat (base + f)) (of_nat count) = Ok (mm[b := (mm ! b)\<lparr>bm_u := bm_u (mm ! b) OR m, bm_bighint := 32\<rparr>])"
    using m(1) b(1) by (simp add: blst_leaf_free_def node_Ok upd_node_Ok del: of_nat_add)
  moreover have "free_post 0 mm b n f count (mm[b := (mm ! b)\<lparr>bm_u := bm_u (mm ! b) OR m, bm_bighint := 32\<rparr>])"
    using b m(2) f(2) by (auto simp: free_post_def node_ok_def frame_update)
  ultimately show ?thesis by blast
qed

abbreviation free_body :: "nat \<Rightarrow> nat \<Rightarrow> nat \<Rightarrow> nodes \<times> u32 \<times> u32 \<times> u32 \<Rightarrow> ((nodes \<times> u32 \<times> u32 \<times> u32) + (nodes \<times> u32 \<times> u32 \<times> u32)) result" where
  "free_body k b \<equiv> \<lambda>i (mm, freeBlk, count, blk).
     if \<not> blk < freeBlk + count then Ok (Inl (mm, freeBlk, count, blk))
     else
       let v = blk + of_nat (cover k) - freeBlk;
           v = (if count < v then count else v)
       in bind_r (node mm b) (\<lambda>sc.
          if bm_bighint sc = - 1 then Panic ''blst_meta_free: freeing unexpected range''
          else
            bind_r (node_free k mm (b + i) freeBlk v blk) (\<lambda>mm.
            bind_r (node mm (b + i)) (\<lambda>ch.
            bind_r (upd_node mm b (\<lambda>sc. if bm_bighint sc < bm_bighint ch then sc\<lparr>bm_bighint := bm_bighint ch\<rparr> else sc)) (\<lambda>mm.
              Ok (Inr (mm, freeBlk + v, count - v, blk + of_nat (cover k)))))))"

definition freeing :: "nat \<Rightarrow> nodes \<Rightarrow> nat \<Rightarrow> nat \<Rightarrow> nat \<Rightarrow> nat set \<Rightarrow> nat \<Rightarrow> nat \<Rightarrow> nat \<Rightarrow> nat \<Rightarrow> nodes \<times> u32 \<times> u32 \<times> u32 \<Rightarrow> bool" where
  "freeing k mm b n base F f e c h s \<longleftrightarrow> (case s of (m, freeBlk, count, blk) \<Rightarrow>
     freeBlk = of_nat (base + h) \<and> count = of_nat (e - h) \<and> blk = of_nat (base + c * cover k) \<and> expanded k m b n
     \<and> kids k m b n = F \<union> {f..<h} \<and> bm_u (m ! b) = bm_u (mm ! b) \<and> bm_bighint (m ! b) \<noteq> 0 \<and> frame b (b + slots (Suc k)) mm m)"

text \<open>The words of one round of a range loop.\<close>

lemma range_words:
  fixes base :: nat
  assumes "c * cover k \<le> h" "h < h'" "h' = min e (c * cover k + cover k)" "base + e \<le> 2 ^ 30" "base + c * cover k + cover k \<le> 2 ^ 30"
  shows "(of_nat (base + c * cover k) :: u32) < of_nat (base + h) + of_nat (e - h)"
    "(let v = of_nat (base + c * cover k) + of_nat (cover k) - of_nat (base + h) in if of_nat (e - h) < v then of_nat (e - h) else v) = (of_nat (h' - h) :: u32)"
    "(of_nat (base + h) :: u32) + of_nat (h' - h) = of_nat (base + h')"
    "(of_nat (e - h) :: u32) - of_nat (h' - h) = of_nat (e - h')"
    "(of_nat (base + c * cover k) :: u32) + of_nat (cover k) = of_nat (base + Suc c * cover k)"
proof -
  have a: "c * cover k < e" "h \<le> e" "h \<le> c * cover k + cover k" "h' \<le> e" using assms by auto
  have "(of_nat (base + h) :: u32) + of_nat (e - h) = of_nat (base + e)" unfolding of_nat_add [symmetric] using a by simp
  moreover have "(of_nat (base + c * cover k) :: u32) < of_nat (base + e) \<longleftrightarrow> base + c * cover k < base + e"
    using a assms(4) by (intro w_less) simp_all
  ultimately show "(of_nat (base + c * cover k) :: u32) < of_nat (base + h) + of_nat (e - h)" using a(1) by (simp only: add_less_cancel_left)
  have v: "(of_nat (base + c * cover k) :: u32) + of_nat (cover k) - of_nat (base + h) = of_nat (c * cover k + cover k - h)"
    unfolding of_nat_add [symmetric] using a by (subst w_diff) simp_all
  have l: "(of_nat (e - h) :: u32) < of_nat (c * cover k + cover k - h) \<longleftrightarrow> e - h < c * cover k + cover k - h"
    using a assms(4,5) by (intro w_less) simp_all
  have m: "(if e - h < c * cover k + cover k - h then e - h else c * cover k + cover k - h) = h' - h" using assms(3) a by auto
  show "(let v = of_nat (base + c * cover k) + of_nat (cover k) - of_nat (base + h) in if of_nat (e - h) < v then of_nat (e - h) else v) = (of_nat (h' - h) :: u32)"
    unfolding Let_def v l m [symmetric] by (simp only: if_distrib [of of_nat])
  show "(of_nat (base + h) :: u32) + of_nat (h' - h) = of_nat (base + h')" unfolding of_nat_add [symmetric] using assms(2) by simp
  show "(of_nat (e - h) :: u32) - of_nat (h' - h) = of_nat (e - h')" using a assms(2) by (subst w_diff) (simp_all add: diff_le_mono)
  show "(of_nat (base + c * cover k) :: u32) + of_nat (cover k) = of_nat (base + Suc c * cover k)" unfolding of_nat_add [symmetric] by (simp add: add.commute add.left_commute)
qed

lemma sub_segment:
  assumes "c * cover k \<le> h" "h < h'" "h' \<le> c * cover k + cover k" "h' \<le> n"
  shows "c * cover k < n" "h - c * cover k + (h' - h) \<le> sub k n c" "c * cover k + (h - c * cover k) = h" "h + (h' - h) = h'"
  using assms by (auto simp: sub_def)

lemma child_disjoint:
  assumes e: "expanded k m b n" and k: "Suc k \<le> 6" and c: "c < 16" "c * cover k < n"
    and h: "c * cover k \<le> h" "h \<le> h'" "h' \<le> c * cover k + cover k" and d: "{h..<h'} \<inter> kids k m b n = {}"
  shows "{h - c * cover k..<h - c * cover k + (h' - h)} \<inter> rfree k m (chl k b c) (sub k n c) = {}"
proof -
  have "c * cover k + y \<in> kids k m b n" if "y \<in> rfree k m (chl k b c) (sub k n c)" for y
    using that c unfolding kids_def by auto
  moreover have "c * cover k + y \<in> {h..<h'}" if "y \<in> {h - c * cover k..<h - c * cover k + (h' - h)}" for y using that h by auto
  ultimately show ?thesis using d by blast
qed

lemma free_step:
  assumes IH: "\<And>mm b n base f count. node_ok k mm b n \<Longrightarrow> n \<le> cover k \<Longrightarrow> base mod 32 = 0 \<Longrightarrow> base + cover k \<le> 2 ^ 30 \<Longrightarrow> 1 \<le> count \<Longrightarrow>
      f + count \<le> n \<Longrightarrow> {f..<f + count} \<inter> rfree k mm b n = {} \<Longrightarrow>
      \<exists>mm'. node_free k mm b (of_nat (base + f)) (of_nat count) (of_nat base) = Ok mm' \<and> free_post k mm b n f count mm'"
    and k: "Suc k \<le> 6" and n: "n \<le> cover (Suc k)" and base: "base mod 32 = 0" "base + cover (Suc k) \<le> 2 ^ 30"
    and r: "e \<le> n" "{f..<e} \<inter> F = {}"
    and c: "c < 16" and h: "c * cover k \<le> h" "h < h'" "h' \<le> c * cover k + cover k" "h' = min e (c * cover k + cover k)" "f \<le> h" "h' \<le> e"
    and P: "freeing k mm b n base F f e c h s"
  shows "\<exists>s'. free_body k b (1 + c * slots k) s = Ok (Inr s') \<and> freeing k mm b n base F f e (Suc c) h' s'"
proof -
  obtain m where s: "s = (m, of_nat (base + h), of_nat (e - h), of_nat (base + c * cover k))" and m: "expanded k m b n"
    "kids k m b n = F \<union> {f..<h}" "bm_u (m ! b) = bm_u (mm ! b)" "bm_bighint (m ! b) \<noteq> 0" "frame b (b + slots (Suc k)) mm m"
    using P by (auto simp: freeing_def split: prod.splits)
  have b1: "base + c * cover k + cover k \<le> 2 ^ 30" "base + e \<le> 2 ^ 30" using base child_end [OF c, of k] r n by linarith+
  note w = range_words [OF h(1,2,4) b1(2,1)]
  note sg = sub_segment [OF h(1-3) le_trans [OF h(6) r(1)]]
  note ch = expanded_child [OF m(1) c sg(1)]
  have v1: "1 \<le> h' - h" using h(2) by simp
  have bm: "(base + c * cover k) mod 32 = 0" using base(1) cover_dvd [of k] by (simp add: mod_add_left_eq [symmetric] dvd_imp_mod_0 dvd_mult)
  have dj: "{h - c * cover k..<h - c * cover k + (h' - h)} \<inter> rfree k m (chl k b c) (sub k n c) = {}"
  proof (rule child_disjoint [OF m(1) k c sg(1) h(1) less_imp_le [OF h(2)] h(3)])
    have "{h..<h'} \<subseteq> {f..<e}" using h by auto
    then have "{h..<h'} \<inter> F = {}" using r(2) by blast
    moreover have "{h..<h'} \<inter> {f..<h} = {}" by auto
    ultimately show "{h..<h'} \<inter> kids k m b n = {}" unfolding m(2) by blast
  qed
  obtain m' where m': "node_free k m (chl k b c) (of_nat (base + h)) (of_nat (h' - h)) (of_nat (base + c * cover k)) = Ok m'"
    "free_post k m (chl k b c) (sub k n c) (h - c * cover k) (h' - h) m'"
    using IH [OF ch(1) sub_le bm b1(1) v1 sg(2) dj] unfolding add.assoc sg(3) by blast
  have ok: "node_ok k m' (chl k b c) (sub k n c)" and fr: "frame (chl k b c) (chl k b c + slots k) m m'" and
    rf: "rfree k m' (chl k b c) (sub k n c) = rfree k m (chl k b c) (sub k n c) \<union> {h - c * cover k..<h - c * cover k + (h' - h)}"
    using m'(2) by (simp_all add: free_post_def)
  note cu = child_update(1,2) [OF m(1) k c sg(1) ok fr]
  have "h - c * cover k + (h' - h) \<le> cover k" using sg(2) sub_le [of k n c] by linarith
  from kids_child(3) [OF m(1) k c sg(1) ok fr this rf] have "kids k m' b n = F \<union> {f..<h} \<union> {h..<h'}" unfolding m(2) sg(3,4) .
  moreover have "{f..<h} \<union> {h..<h'} = {f..<h'}" using h(2,5) by auto
  ultimately have kd: "kids k m' b n = F \<union> {f..<h'}" by blast
  let ?ch = "m' ! chl k b c"
  let ?x = "if bm_bighint (m' ! b) < bm_bighint ?ch then (m' ! b)\<lparr>bm_bighint := bm_bighint ?ch\<rparr> else m' ! b"
  note ch' = expanded_child [OF cu(1) c sg(1)]
  have b: "b < length m" "bm_bighint (m ! b) \<noteq> - 1" "b < length m'" using m(1) cu(1) by (auto simp: expanded_def)
  have hx: "bm_bighint ?x \<noteq> - 1" "bm_bighint ?x \<noteq> 0" "bm_u ?x = bm_u (mm ! b)" using ch'(2) b cu(2) m(3,4) by auto
  note o = own_update [OF cu(1) hx(1)]
  have fr': "frame b (b + slots (Suc k)) mm (m'[b := ?x])"
    using frame_trans [OF m(5) frame_trans [OF frame_mono [OF fr] frame_update]] chl_range(2) [OF c, of k b] less_imp_le [OF chl_gt(1)] by simp
  have "free_body k b (1 + c * slots k) s = Ok (Inr (m'[b := ?x], of_nat (base + h'), of_nat (e - h'), of_nat (base + Suc c * cover k)))"
    unfolding s using w b m'(1) ch'(3) by (simp add: node_Ok upd_node_Ok Let_def del: of_nat_add of_nat_mult mult_Suc)
  moreover have "freeing k mm b n base F f e (Suc c) h' (m'[b := ?x], of_nat (base + h'), of_nat (e - h'), of_nat (base + Suc c * cover k))"
    unfolding freeing_def using o kd hx b(3) fr' by (simp del: slots.simps)
  ultimately show ?thesis by blast
qed

text \<open>The node before the loop, with its new amount of free space.\<close>

lemma free_start:
  assumes ok: "node_ok (Suc k) mm b n" and k: "Suc k \<le> 6" and n: "n \<le> cover (Suc k)"
    and r: "1 \<le> count" "f + count \<le> n" "{f..<f + count} \<inter> rfree (Suc k) mm b n = {}"
  defines "F \<equiv> rfree (Suc k) mm b n"
  shows "\<exists>m. (if bm_u (mm ! b) = 0
       then bind_r (upd_node mm b (\<lambda>sc. sc\<lparr>bm_u := of_nat count, bm_bighint := of_nat count\<rparr>)) (\<lambda>mm.
              if of_nat count \<noteq> (of_nat (cover (Suc k)) :: u32) then set_children mm b (16 * slots k) (slots k) (\<lambda>ch. ch\<lparr>bm_bighint := 0, bm_u := 0\<rparr>) else Ok mm)
       else upd_node mm b (\<lambda>sc. sc\<lparr>bm_u := bm_u sc + of_nat count\<rparr>)) = Ok m
     \<and> bm_u (m ! b) = of_nat (card (F \<union> {f..<f + count})) \<and> bm_bighint (m ! b) \<noteq> 0 \<and> skel (Suc k) m b n \<and> frame b (b + slots (Suc k)) mm m
     \<and> (card (F \<union> {f..<f + count}) \<noteq> cover (Suc k) \<longrightarrow> expanded k m b n \<and> kids k m b n = F)"
proof -
  have sk: "skel (Suc k) mm b n" "b < length mm" "bm_bighint (mm ! b) \<noteq> - 1" using ok by (auto simp: node_ok_def)
  have cs: "count < 2 ^ 30" using r(2) n cover_bound [OF k] by simp
  have Fb: "F \<subseteq> {..<n}" unfolding F_def using ok n k by (intro rfree_bound) (auto simp: node_ok_def)
  then have fin: "finite F" by (rule finite_subset) simp
  have card: "card (F \<union> {f..<f + count}) = card F + count" 
    using card_Un_disjoint [OF fin, of "{f..<f + count}"] r(3) unfolding F_def [symmetric] by (simp add: Int_commute)
  have av: "unat (bm_u (mm ! b)) = card F" unfolding F_def by (rule avail_card [OF ok k])
  show ?thesis
  proof (cases "bm_u (mm ! b) = 0")
    case True
    then have F0: "F = {}" by (simp add: F_def)
    let ?x = "(mm ! b)\<lparr>bm_u := of_nat count, bm_bighint := of_nat count :: u32\<rparr>"
    let ?m = "mm[b := ?x]"
    have x: "bm_bighint ?x \<noteq> - 1" "bm_bighint ?x \<noteq> 0" using cs r(1) w_eq [of count 0] blk_not_none [OF cs] by auto
    have s: "skel (Suc k) ?m b n" by (rule skel_own [OF sk(1) x(1)])
    show ?thesis
    proof (cases "count = cover (Suc k)")
      case eq: True
      then show ?thesis using True s x sk(2) card F0 by (intro exI [of _ ?m]) (simp add: upd_node_Ok frame_update del: skel.simps slots.simps)
    next
      case False
      then have ne: "of_nat count \<noteq> (of_nat (cover (Suc k)) :: u32)" using cs cover_bound [OF k] by (subst w_eq) simp_all
      obtain m where m: "set_children ?m b (16 * slots k) (slots k) (\<lambda>ch. ch\<lparr>bm_bighint := 0, bm_u := 0\<rparr>) = Ok m" "expanded k m b n" "kids k m b n = {}"
        "m ! b = ?m ! b" "frame b (b + slots (Suc k)) ?m m" using expand_zero [OF s k] r by fastforce
      have "frame b (b + slots (Suc k)) mm m" by (rule frame_trans [OF frame_update m(5)]) simp_all
      moreover have "skel (Suc k) m b n" using m(2) by (simp only: expanded_def)
      ultimately show ?thesis using True m x sk(2) card F0 ne
        by (intro exI [of _ m]) (simp add: upd_node_Ok del: skel.simps slots.simps)
    qed
  next
    case False
    let ?x = "(mm ! b)\<lparr>bm_u := bm_u (mm ! b) + of_nat count\<rparr>"
    have "bm_u (mm ! b) = of_nat (card F)" unfolding av [symmetric] by simp
    then have u: "bm_u ?x = of_nat (card (F \<union> {f..<f + count}))" using card by simp
    have h: "bm_bighint ?x \<noteq> - 1" "bm_bighint ?x \<noteq> 0" using sk(3) ok False by (auto simp: node_ok_def)
    have "card F < cover (Suc k)"
    proof -
      have "card (F \<union> {f..<f + count}) \<le> card {..<n}" using Fb r(2) by (intro card_mono) auto
      then show ?thesis using card n r(1) by simp
    qed
    then have "bm_u (mm ! b) \<noteq> of_nat (cover (Suc k))" using av unat_cover [OF k] by auto
    note ne = node_expanded [OF ok False this]
    show ?thesis using False own_update [OF ne(1) h(1)] ne(2) u h skel_own [OF sk(1) h(1)] sk(2) unfolding F_def
      by (intro exI [of _ "mm[b := ?x]"]) (simp add: upd_node_Ok frame_update del: skel.simps slots.simps rfree.simps)
  qed
qed

lemma meta_free_unfold:
  assumes "Suc k \<le> 6"
  shows "node_free (Suc k) mm b freeBlk count blk =
    bind_r (node mm b) (\<lambda>sc.
    bind_r (if bm_u sc = 0
            then bind_r (upd_node mm b (\<lambda>sc. sc\<lparr>bm_u := count, bm_bighint := count\<rparr>)) (\<lambda>mm.
                   if count \<noteq> of_nat (cover (Suc k)) then set_children mm b (16 * slots k) (slots k) (\<lambda>ch. ch\<lparr>bm_bighint := 0, bm_u := 0\<rparr>) else Ok mm)
            else upd_node mm b (\<lambda>sc. sc\<lparr>bm_u := bm_u sc + count\<rparr>)) (\<lambda>mm.
    bind_r (node mm b) (\<lambda>sc.
      if bm_u sc = of_nat (cover (Suc k)) then Ok mm
      else if of_nat (cover (Suc k)) < bm_u sc then Panic ''blst_meta_free: freeing already free blocks''
      else bind_r (scan_loop (16 * slots k) (slots k) (free_body k b) (unat ((freeBlk - blk) div of_nat (cover k)) * slots k + 1)
                    (mm, freeBlk, count, blk + (freeBlk - blk) div of_nat (cover k) * of_nat (cover k))) (\<lambda>(mm, _). Ok mm))))"
proof -
  have "free_body k b = (\<lambda>i (mm, freeBlk, count, blk).
     if \<not> blk < freeBlk + count then Ok (Inl (mm, freeBlk, count, blk))
     else
       let v = blk + of_nat (cover k) - freeBlk;
           v = (if count < v then count else v)
       in bind_r (node mm b) (\<lambda>sc.
          if bm_bighint sc = - 1 then Panic ''blst_meta_free: freeing unexpected range''
          else
            bind_r (if slots k = 1 then blst_leaf_free mm (b + i) freeBlk v
                    else blst_meta_free mm (b + i) freeBlk v (of_nat (cover k)) (slots k - 1) blk) (\<lambda>mm.
            bind_r (node mm (b + i)) (\<lambda>ch.
            bind_r (upd_node mm b (\<lambda>sc. if bm_bighint sc < bm_bighint ch then sc\<lparr>bm_bighint := bm_bighint ch\<rparr> else sc)) (\<lambda>mm.
              Ok (Inr (mm, freeBlk + v, count - v, blk + of_nat (cover k))))))))"
    unfolding node_free_def slots_eq_1 ..
  then show ?thesis
    unfolding node_free_def by (subst blst_meta_free.simps) (simp only: skp_Suc subradix [OF assms] Let_def nat.simps if_False)
qed

lemma range_start:
  assumes k: "Suc k \<le> 6" and b: "base + cover (Suc k) \<le> 2 ^ 30" and f: "f < cover (Suc k)"
  shows "unat (((of_nat (base + f) :: u32) - of_nat base) div of_nat (cover k)) = f div cover k"
    "(of_nat base :: u32) + ((of_nat (base + f) :: u32) - of_nat base) div of_nat (cover k) * of_nat (cover k) = of_nat (base + f div cover k * cover k)"
proof -
  have "((of_nat (base + f) :: u32) - of_nat base) div of_nat (cover k) = of_nat (f div cover k)"
    using f b cover_bound [of k] k by (subst w_diff, simp) (subst w_div, simp_all)
  moreover have "f div cover k < 2 ^ 32" using le_less_trans [OF div_le_dividend, of f "2 ^ 32" "cover k"] f b by simp
  ultimately show "unat (((of_nat (base + f) :: u32) - of_nat base) div of_nat (cover k)) = f div cover k"
    "(of_nat base :: u32) + ((of_nat (base + f) :: u32) - of_nat base) div of_nat (cover k) * of_nat (cover k) = of_nat (base + f div cover k * cover k)"
    by (simp_all add: unat_of_nat)
qed

lemma range_end:
  fixes base :: nat
  assumes "e \<le> c * cover k" "base + c * cover k < 2 ^ 32"
  shows "\<not> (of_nat (base + c * cover k) :: u32) < of_nat (base + e) + of_nat (e - e)"
  using assms by (simp add: w_less del: of_nat_add)

lemma free_scan:
  assumes IH: "\<And>mm b n base f count. node_ok k mm b n \<Longrightarrow> n \<le> cover k \<Longrightarrow> base mod 32 = 0 \<Longrightarrow> base + cover k \<le> 2 ^ 30 \<Longrightarrow> 1 \<le> count \<Longrightarrow>
      f + count \<le> n \<Longrightarrow> {f..<f + count} \<inter> rfree k mm b n = {} \<Longrightarrow>
      \<exists>mm'. node_free k mm b (of_nat (base + f)) (of_nat count) (of_nat base) = Ok mm' \<and> free_post k mm b n f count mm'"
    and k: "Suc k \<le> 6" and n: "n \<le> cover (Suc k)" and base: "base mod 32 = 0" "base + cover (Suc k) \<le> 2 ^ 30"
    and r: "1 \<le> count" "f + count \<le> n" "{f..<f + count} \<inter> F = {}"
    and m: "expanded k m b n" "kids k m b n = F" "bm_bighint (m ! b) \<noteq> 0"
  shows "\<exists>m' w. scan_loop (16 * slots k) (slots k) (free_body k b) (1 + f div cover k * slots k)
      (m, of_nat (base + f), of_nat count, of_nat (base + f div cover k * cover k)) = Ok (m', w) \<and> expanded k m' b n \<and> kids k m' b n = F \<union> {f..<f + count}
    \<and> bm_u (m' ! b) = bm_u (m ! b) \<and> bm_bighint (m' ! b) \<noteq> 0 \<and> frame b (b + slots (Suc k)) m m'"
proof -
  let ?P = "freeing k m b n base F f (f + count)"
  have init: "?P (f div cover k) f (m, of_nat (base + f), of_nat count, of_nat (base + f div cover k * cover k))"
    using m by (simp add: freeing_def)
  have "\<exists>s' c. scan_loop (16 * slots k) (slots k) (free_body k b) (1 + f div cover k * slots k)
     (m, of_nat (base + f), of_nat count, of_nat (base + f div cover k * cover k)) = Ok s' \<and> ?P c (f + count) s'"
  proof (rule range_scan [where P = ?P, OF _ _ init])
    show "free_body k b (1 + c * slots k) s = Ok (Inl s)" if "c < 16" "?P c (f + count) s" "f + count \<le> c * cover k" for c s
    proof -
      have "base + c * cover k < 2 ^ 32" using child_end [OF that(1), of k] base(2) by simp
      from range_end [OF that(3) this] show ?thesis
        using that(2) by (auto simp: freeing_def simp del: of_nat_add of_nat_mult split: prod.splits)
    qed
    show "\<exists>s'. free_body k b (1 + c * slots k) s = Ok (Inr s') \<and> ?P (Suc c) h' s'"
      if "c < 16" "c * cover k \<le> h" "h < h'" "h' \<le> c * cover k + cover k" "h' = min (f + count) (c * cover k + cover k)" "f \<le> h" "h' \<le> f + count"
        "?P c h s" for c h h' s
      by (rule free_step [OF IH k n base r(2,3) that])
  qed (use r n in simp_all)
  then obtain s' c where s: "scan_loop (16 * slots k) (slots k) (free_body k b) (1 + f div cover k * slots k)
     (m, of_nat (base + f), of_nat count, of_nat (base + f div cover k * cover k)) = Ok s'" "?P c (f + count) s'"
    by (elim exE conjE)
  obtain m' w where w: "s' = (m', w)" by (cases s')
  show ?thesis using s unfolding w by (intro exI [of _ m'] exI [of _ w]) (auto simp: freeing_def split: prod.splits)
qed

lemma free_full:
  assumes F: "F = rfree (Suc k) mm b n" and k: "Suc k \<le> 6" and n: "n \<le> cover (Suc k)" and m: "bm_u (m ! b) = of_nat (card (F \<union> {f..<f + count}))"
    "bm_bighint (m ! b) \<noteq> 0" "skel (Suc k) m b n" "frame b (b + slots (Suc k)) mm m"
    and Fn: "F \<union> {f..<f + count} \<subseteq> {..<n}" and r: "card (F \<union> {f..<f + count}) = cover (Suc k)"
  shows "free_post (Suc k) mm b n f count m"
proof -
  have full: "F \<union> {f..<f + count} = {..<cover (Suc k)}" using r Fn n by (intro card_subset_eq) auto
  have "cover (Suc k) \<le> n" using card_mono [OF _ Fn] unfolding r by simp
  then have "n = cover (Suc k)" using n by simp
  then have "node_ok (Suc k) m b n" using m(1-3) r unat_cover [OF k] cover_word(1) [OF k] by (simp add: node_ok_def del: skel.simps)
  moreover have "rfree (Suc k) m b n = {..<cover (Suc k)}" using m(1) unfolding r using cover_word(1) [OF k] by (simp add: rfree_Suc del: rfree.simps)
  ultimately show ?thesis using m(4) full unfolding free_post_def F by simp
qed

theorem node_free_spec:
  assumes "k \<le> 6" "node_ok k mm b n" "n \<le> cover k" "base mod 32 = 0" "base + cover k \<le> 2 ^ 30" "1 \<le> count" "f + count \<le> n"
    "{f..<f + count} \<inter> rfree k mm b n = {}"
  shows "\<exists>mm'. node_free k mm b (of_nat (base + f)) (of_nat count) (of_nat base) = Ok mm' \<and> free_post k mm b n f count mm'"
  using assms
proof (induction k arbitrary: mm b n base f count)
  case 0
  then show ?case using leaf_free_spec [of mm b n base count f] by (simp add: node_free_def)
next
  case (Suc k)
  note k = Suc.prems(1) and ok = Suc.prems(2) and n = Suc.prems(3) and base = Suc.prems(4,5) and r = Suc.prems(6,7,8)
  define F where "F = rfree (Suc k) mm b n"
  obtain m where m: "(if bm_u (mm ! b) = 0
       then bind_r (upd_node mm b (\<lambda>sc. sc\<lparr>bm_u := of_nat count, bm_bighint := of_nat count\<rparr>)) (\<lambda>mm.
              if of_nat count \<noteq> (of_nat (cover (Suc k)) :: u32) then set_children mm b (16 * slots k) (slots k) (\<lambda>ch. ch\<lparr>bm_bighint := 0, bm_u := 0\<rparr>) else Ok mm)
       else upd_node mm b (\<lambda>sc. sc\<lparr>bm_u := bm_u sc + of_nat count\<rparr>)) = Ok m"
     "bm_u (m ! b) = of_nat (card (F \<union> {f..<f + count}))" "bm_bighint (m ! b) \<noteq> 0" "skel (Suc k) m b n" "frame b (b + slots (Suc k)) mm m"
     "card (F \<union> {f..<f + count}) \<noteq> cover (Suc k) \<Longrightarrow> expanded k m b n \<and> kids k m b n = F"
    using free_start [OF ok k n r] unfolding F_def by blast
  have b: "b < length mm" "b < length m" using ok m(4) by (auto simp: node_ok_def)
  have Fn: "F \<union> {f..<f + count} \<subseteq> {..<n}"
    using rfree_bound [of "Suc k" mm b n] ok n k r(2) unfolding F_def node_ok_def by auto
  have le: "card (F \<union> {f..<f + count}) \<le> n" using card_mono [OF _ Fn] by simp
  have u: "unat (bm_u (m ! b)) = card (F \<union> {f..<f + count})"
    unfolding m(2) using le n cover_bound [OF k] by (simp add: unat_of_nat)
  show ?case
  proof (cases "card (F \<union> {f..<f + count}) = cover (Suc k)")
    case True
    have "free_post (Suc k) mm b n f count m" by (rule free_full [OF F_def k n m(2-5) Fn True])
    moreover have "node_free (Suc k) mm b (of_nat (base + f)) (of_nat count) (of_nat base) = Ok m"
      using m(1,2) True b by (simp add: meta_free_unfold [OF k] node_Ok del: of_nat_add)
    ultimately show ?thesis by blast
  next
    case False
    have e: "expanded k m b n" "kids k m b n = F" using m(6) False by blast+
    have "\<not> of_nat (cover (Suc k)) < bm_u (m ! b)" "bm_u (m ! b) \<noteq> of_nat (cover (Suc k))"
      using u le n unat_cover [OF k] False by (auto simp: word_less_nat_alt)
    then have un: "node_free (Suc k) mm b (of_nat (base + f)) (of_nat count) (of_nat base) =
      bind_r (scan_loop (16 * slots k) (slots k) (free_body k b) (1 + f div cover k * slots k)
         (m, of_nat (base + f), of_nat count, of_nat (base + f div cover k * cover k))) (\<lambda>(mm, _). Ok mm)"
      using m(1) b range_start [OF k base(2), of f] r(1,2) n
      by (simp add: meta_free_unfold [OF k] node_Ok add.commute [of 1] del: of_nat_add)
    have IH: "node_ok k mm b n \<Longrightarrow> n \<le> cover k \<Longrightarrow> base mod 32 = 0 \<Longrightarrow> base + cover k \<le> 2 ^ 30 \<Longrightarrow> 1 \<le> count \<Longrightarrow> f + count \<le> n \<Longrightarrow>
        {f..<f + count} \<inter> rfree k mm b n = {} \<Longrightarrow>
        \<exists>mm'. node_free k mm b (of_nat (base + f)) (of_nat count) (of_nat base) = Ok mm' \<and> free_post k mm b n f count mm'"
      for mm b n base f count using Suc.IH k by simp
    obtain m' w where s: "scan_loop (16 * slots k) (slots k) (free_body k b) (1 + f div cover k * slots k)
        (m, of_nat (base + f), of_nat count, of_nat (base + f div cover k * cover k)) = Ok (m', w)"
      and m': "expanded k m' b n" "kids k m' b n = F \<union> {f..<f + count}" "bm_u (m' ! b) = bm_u (m ! b)" "bm_bighint (m' ! b) \<noteq> 0"
        "frame b (b + slots (Suc k)) m m'"
      using free_scan [OF IH k n base r(1,2) r(3) [folded F_def] e m(3)] by blast
    have "node_ok (Suc k) m' b n" "rfree (Suc k) m' b n = F \<union> {f..<f + count}"
      using node_of_expanded [OF m'(1) k n] m'(2-4) u by auto
    then have "free_post (Suc k) mm b n f count m'" unfolding free_post_def F_def using frame_trans [OF m(5) m'(5)] by simp
    then show ?thesis using un s by simp
  qed
qed

end
