(* ===== verification/Blist_Fill.thy ===== *)
theory Blist_Fill
  imports Blist_Free
begin

text \<open>
  Filling a range: what was free in it is taken, and counted.
\<close>

definition node_fill :: "nat \<Rightarrow> nodes \<Rightarrow> nat \<Rightarrow> u32 \<Rightarrow> u32 \<Rightarrow> u32 \<Rightarrow> (nodes \<times> u32) result" where
  "node_fill k mm b allocBlk count blk =
     (if k = 0 then blst_leaf_fill mm b allocBlk count else blst_meta_fill mm b allocBlk count (of_nat (cover k)) (slots k - 1) blk)"

definition fill_post :: "nat \<Rightarrow> nodes \<Rightarrow> nat \<Rightarrow> nat \<Rightarrow> nat \<Rightarrow> nat \<Rightarrow> nodes \<Rightarrow> u32 \<Rightarrow> bool" where
  "fill_post k mm b n f count mm' v \<longleftrightarrow> node_ok k mm' b n \<and> frame b (b + slots k) mm mm'
     \<and> rfree k mm' b n = rfree k mm b n - {f..<f + count} \<and> v = of_nat (card (rfree k mm b n \<inter> {f..<f + count}))"

lemma leaf_fill_spec:
  assumes ok: "node_ok 0 mm b n" and n: "n \<le> 32" and base: "base mod 32 = 0" "base + 32 \<le> 2 ^ 30"
    and f: "1 \<le> count" "f + count \<le> n"
  shows "\<exists>mm' v. blst_leaf_fill mm b (of_nat (base + f)) (of_nat count) = Ok (mm', v) \<and> fill_post 0 mm b n f count mm' v"
proof -
  obtain m where m: "leaf_mask (of_nat (base + f)) (of_nat count) = Ok m" "lbits m = {f..<f + count}"
    using leaf_mask_range [of base count f] base f n by auto
  have b: "b < length mm" "lbits (bm_u (mm ! b)) \<subseteq> {..<n}" using ok by (simp_all add: node_ok_def)
  let ?m = "mm[b := (mm ! b)\<lparr>bm_u := bm_u (mm ! b) AND NOT m\<rparr>]"
  have "blst_leaf_fill mm b (of_nat (base + f)) (of_nat count) = Ok (?m, of_nat (card (lbits (bm_u (mm ! b)) \<inter> {f..<f + count})))"
    using m b(1) by (simp add: blst_leaf_fill_def node_Ok upd_node_Ok count_bits_spec del: of_nat_add)
  moreover have "fill_post 0 mm b n f count ?m (of_nat (card (lbits (bm_u (mm ! b)) \<inter> {f..<f + count})))"
    using b m(2) ok by (auto simp: fill_post_def node_ok_def frame_update lbits_diff)
  ultimately show ?thesis by blast
qed

abbreviation fill_body :: "nat \<Rightarrow> nat \<Rightarrow> nat \<Rightarrow> nodes \<times> u32 \<times> u32 \<times> u32 \<times> u32
    \<Rightarrow> ((nodes \<times> u32 \<times> u32 \<times> u32 \<times> u32) + (nodes \<times> u32 \<times> u32 \<times> u32 \<times> u32)) result" where
  "fill_body k b \<equiv> \<lambda>i (mm, allocBlk, count, blk, nblks).
     if \<not> blk < allocBlk + count then Ok (Inl (mm, allocBlk, count, blk, nblks))
     else
       let v = blk + of_nat (cover k) - allocBlk;
           v = (if count < v then count else v)
       in bind_r (node mm b) (\<lambda>sc.
          if bm_bighint sc = - 1 then Panic ''blst_meta_fill: filling unexpected range''
          else
            bind_r (node_fill k mm (b + i) allocBlk v blk) (\<lambda>(mm, n).
              Ok (Inr (mm, allocBlk + v, count - v, blk + of_nat (cover k), nblks + n))))"

definition fill_loop :: "nat \<Rightarrow> nodes \<Rightarrow> nat \<Rightarrow> nat \<Rightarrow> nat \<Rightarrow> nat set \<Rightarrow> nat \<Rightarrow> nat \<Rightarrow> nat \<Rightarrow> nat \<Rightarrow> nodes \<times> u32 \<times> u32 \<times> u32 \<times> u32 \<Rightarrow> bool" where
  "fill_loop k mm b n base F f e c h s \<longleftrightarrow> (case s of (m, allocBlk, count, blk, nblks) \<Rightarrow>
     allocBlk = of_nat (base + h) \<and> count = of_nat (e - h) \<and> blk = of_nat (base + c * cover k) \<and> expanded k m b n
     \<and> kids k m b n = F - {f..<h} \<and> m ! b = mm ! b \<and> nblks = of_nat (card (F \<inter> {f..<h})) \<and> frame b (b + slots (Suc k)) mm m)"

text \<open>The free blocks of a segment are those of the child.\<close>

lemma child_count:
  assumes e: "expanded k m b n" and k: "Suc k \<le> 6" and c: "c < 16" "c * cover k < n"
    and h: "c * cover k \<le> h" "h \<le> h'" "h' \<le> c * cover k + cover k"
  shows "card (rfree k m (chl k b c) (sub k n c) \<inter> {h - c * cover k..<h - c * cover k + (h' - h)}) = card (kids k m b n \<inter> {h..<h'})"
proof -
  have le: "h - c * cover k + (h' - h) \<le> cover k" and eq: "c * cover k + (h - c * cover k) = h" "h + (h' - h) = h'" using h by auto
  have "kids k m b n \<inter> {h..<h'} = (+) (c * cover k) ` (rfree k m (chl k b c) (sub k n c) \<inter> {h - c * cover k..<h - c * cover k + (h' - h)})" (is "?A = ?B")
  proof (rule set_eqI)
    fix y
    have "y \<in> {h..<h'} \<longleftrightarrow> y div cover k = c \<and> y mod cover k \<in> {h - c * cover k..<h - c * cover k + (h' - h)}"
      using div_interval [OF le, of y c] unfolding eq .
    moreover have "y \<in> ?B \<longleftrightarrow> y div cover k = c \<and> y mod cover k \<in> rfree k m (chl k b c) (sub k n c) \<inter> {h - c * cover k..<h - c * cover k + (h' - h)}"
    proof
      assume "y \<in> ?B"
      then obtain z where "y = c * cover k + z" "z \<in> rfree k m (chl k b c) (sub k n c) \<inter> {h - c * cover k..<h - c * cover k + (h' - h)}" by auto
      then show "y div cover k = c \<and> y mod cover k \<in> rfree k m (chl k b c) (sub k n c) \<inter> {h - c * cover k..<h - c * cover k + (h' - h)}" using le by auto
    next
      assume y: "y div cover k = c \<and> y mod cover k \<in> rfree k m (chl k b c) (sub k n c) \<inter> {h - c * cover k..<h - c * cover k + (h' - h)}"
      then have "y = c * cover k + y mod cover k" by (metis div_mult_mod_eq)
      then show "y \<in> ?B" using y by blast
    qed
    ultimately show "y \<in> ?A \<longleftrightarrow> y \<in> ?B" using c unfolding Int_iff kids_iff [OF e k] by auto
  qed
  then show ?thesis by (simp add: card_image)
qed

lemma fill_step:
  assumes IH: "\<And>mm b n base f count. node_ok k mm b n \<Longrightarrow> n \<le> cover k \<Longrightarrow> base mod 32 = 0 \<Longrightarrow> base + cover k \<le> 2 ^ 30 \<Longrightarrow> 1 \<le> count \<Longrightarrow>
      f + count \<le> n \<Longrightarrow> \<exists>mm' v. node_fill k mm b (of_nat (base + f)) (of_nat count) (of_nat base) = Ok (mm', v) \<and> fill_post k mm b n f count mm' v"
    and k: "Suc k \<le> 6" and n: "n \<le> cover (Suc k)" and base: "base mod 32 = 0" "base + cover (Suc k) \<le> 2 ^ 30"
    and r: "e \<le> n" and c: "c < 16" and h: "c * cover k \<le> h" "h < h'" "h' \<le> c * cover k + cover k" "h' = min e (c * cover k + cover k)" "f \<le> h" "h' \<le> e"
    and P: "fill_loop k mm b n base F f e c h s"
  shows "\<exists>s'. fill_body k b (1 + c * slots k) s = Ok (Inr s') \<and> fill_loop k mm b n base F f e (Suc c) h' s'"
proof -
  obtain m where s: "s = (m, of_nat (base + h), of_nat (e - h), of_nat (base + c * cover k), of_nat (card (F \<inter> {f..<h})))" and m: "expanded k m b n"
    "kids k m b n = F - {f..<h}" "m ! b = mm ! b" "frame b (b + slots (Suc k)) mm m"
    using P by (auto simp: fill_loop_def split: prod.splits)
  have b1: "base + c * cover k + cover k \<le> 2 ^ 30" "base + e \<le> 2 ^ 30" using base child_end [OF c, of k] r n by linarith+
  note w = range_words [OF h(1,2,4) b1(2,1)]
  note sg = sub_segment [OF h(1-3) le_trans [OF h(6) r]]
  note ch = expanded_child [OF m(1) c sg(1)]
  have v1: "1 \<le> h' - h" using h(2) by simp
  have bm: "(base + c * cover k) mod 32 = 0" using base(1) cover_dvd [of k] by (simp add: mod_add_left_eq [symmetric] dvd_imp_mod_0 dvd_mult)
  obtain m' v where m': "node_fill k m (chl k b c) (of_nat (base + h)) (of_nat (h' - h)) (of_nat (base + c * cover k)) = Ok (m', v)"
    "fill_post k m (chl k b c) (sub k n c) (h - c * cover k) (h' - h) m' v"
    using IH [OF ch(1) sub_le bm b1(1) v1 sg(2)] unfolding add.assoc sg(3) by blast
  have ok: "node_ok k m' (chl k b c) (sub k n c)" and fr: "frame (chl k b c) (chl k b c + slots k) m m'" and
    rf: "rfree k m' (chl k b c) (sub k n c) = rfree k m (chl k b c) (sub k n c) - {h - c * cover k..<h - c * cover k + (h' - h)}" and
    v: "v = of_nat (card (rfree k m (chl k b c) (sub k n c) \<inter> {h - c * cover k..<h - c * cover k + (h' - h)}))"
    using m'(2) by (simp_all add: fill_post_def)
  note cu = child_update(1,2) [OF m(1) k c sg(1) ok fr]
  have "h - c * cover k + (h' - h) \<le> cover k" using sg(2) sub_le [of k n c] by linarith
  from kids_child(2) [OF m(1) k c sg(1) ok fr this rf] have "kids k m' b n = F - {f..<h} - {h..<h'}" unfolding m(2) sg(3,4) .
  moreover have seg: "{f..<h} \<union> {h..<h'} = {f..<h'}" "{f..<h} \<inter> {h..<h'} = {}" using h(2,5) by auto
  ultimately have kd: "kids k m' b n = F - {f..<h'}" by blast
  have cnt: "of_nat (card (F \<inter> {f..<h})) + v = (of_nat (card (F \<inter> {f..<h'})) :: u32)"
  proof -
    have "card (F \<inter> {f..<h'}) = card (F \<inter> {f..<h}) + card (F \<inter> {h..<h'})"
      using card_Un_disjoint [of "F \<inter> {f..<h}" "F \<inter> {h..<h'}"] seg unfolding Int_Un_distrib [symmetric] by (metis Int_assoc Int_empty_right Int_left_commute finite_Int finite_atLeastLessThan seg(1))
    moreover have "kids k m b n \<inter> {h..<h'} = F \<inter> {h..<h'}" using seg(2) unfolding m(2) by blast
    ultimately show ?thesis unfolding v child_count [OF m(1) k c sg(1) h(1) less_imp_le [OF h(2)] h(3)] by simp
  qed
  have b: "b < length m" "bm_bighint (m ! b) \<noteq> - 1" using m(1) by (auto simp: expanded_def)
  have fr': "frame b (b + slots (Suc k)) mm m'"
    using frame_trans [OF m(4) frame_mono [OF fr]] chl_range(2) [OF c, of k b] less_imp_le [OF chl_gt(1)] by simp
  let ?s = "(m', of_nat (base + h'), of_nat (e - h'), of_nat (base + Suc c * cover k), of_nat (card (F \<inter> {f..<h'})))"
  have "fill_body k b (1 + c * slots k) s = Ok (Inr ?s)"
    unfolding s using w b m'(1) cnt by (simp add: node_Ok Let_def del: of_nat_add of_nat_mult mult_Suc)
  moreover have "fill_loop k mm b n base F f e (Suc c) h' ?s"
    unfolding fill_loop_def using cu kd m(3) fr' by (simp del: slots.simps)
  ultimately show ?thesis by blast
qed

lemma fill_scan:
  assumes IH: "\<And>mm b n base f count. node_ok k mm b n \<Longrightarrow> n \<le> cover k \<Longrightarrow> base mod 32 = 0 \<Longrightarrow> base + cover k \<le> 2 ^ 30 \<Longrightarrow> 1 \<le> count \<Longrightarrow>
      f + count \<le> n \<Longrightarrow> \<exists>mm' v. node_fill k mm b (of_nat (base + f)) (of_nat count) (of_nat base) = Ok (mm', v) \<and> fill_post k mm b n f count mm' v"
    and k: "Suc k \<le> 6" and n: "n \<le> cover (Suc k)" and base: "base mod 32 = 0" "base + cover (Suc k) \<le> 2 ^ 30"
    and r: "1 \<le> count" "f + count \<le> n" and m: "expanded k m b n" "kids k m b n = F"
  shows "\<exists>m' x y z. scan_loop (16 * slots k) (slots k) (fill_body k b) (1 + f div cover k * slots k)
      (m, of_nat (base + f), of_nat count, of_nat (base + f div cover k * cover k), 0) = Ok (m', x, y, z, of_nat (card (F \<inter> {f..<f + count})))
    \<and> expanded k m' b n \<and> kids k m' b n = F - {f..<f + count} \<and> m' ! b = m ! b \<and> frame b (b + slots (Suc k)) m m'"
proof -
  let ?P = "fill_loop k m b n base F f (f + count)"
  let ?s = "(m, of_nat (base + f), of_nat count, of_nat (base + f div cover k * cover k), 0)"
  have init: "?P (f div cover k) f ?s" using m by (simp add: fill_loop_def)
  have "\<exists>s' c. scan_loop (16 * slots k) (slots k) (fill_body k b) (1 + f div cover k * slots k) ?s = Ok s' \<and> ?P c (f + count) s'"
  proof (rule range_scan [where P = ?P, OF _ _ init])
    show "fill_body k b (1 + c * slots k) s = Ok (Inl s)" if "c < 16" "?P c (f + count) s" "f + count \<le> c * cover k" for c s
    proof -
      have "base + c * cover k < 2 ^ 32" using child_end [OF that(1), of k] base(2) by simp
      from range_end [OF that(3) this] show ?thesis
        using that(2) by (auto simp: fill_loop_def simp del: of_nat_add of_nat_mult split: prod.splits)
    qed
    show "\<exists>s'. fill_body k b (1 + c * slots k) s = Ok (Inr s') \<and> ?P (Suc c) h' s'"
      if "c < 16" "c * cover k \<le> h" "h < h'" "h' \<le> c * cover k + cover k" "h' = min (f + count) (c * cover k + cover k)" "f \<le> h" "h' \<le> f + count"
        "?P c h s" for c h h' s
      by (rule fill_step [OF IH k n base r(2) that])
  qed (use r n in simp_all)
  then obtain s' c where s: "scan_loop (16 * slots k) (slots k) (fill_body k b) (1 + f div cover k * slots k) ?s = Ok s'" "?P c (f + count) s'"
    by (elim exE conjE)
  obtain m' x y z v where w: "s' = (m', x, y, z, v)" by (cases s')
  show ?thesis using s unfolding w by (intro exI [of _ m'] exI [of _ x] exI [of _ y] exI [of _ z]) (auto simp: fill_loop_def)
qed

lemma meta_fill_unfold:
  assumes "Suc k \<le> 6"
  shows "node_fill (Suc k) mm b allocBlk count blk =
    bind_r (node mm b) (\<lambda>sc.
      if count = of_nat (cover (Suc k)) \<or> bm_u sc = 0
      then bind_r (upd_node mm b (\<lambda>sc. sc\<lparr>bm_u := 0, bm_bighint := count\<rparr>)) (\<lambda>mm. Ok (mm, bm_u sc))
      else if of_nat (cover (Suc k)) < count then Panic ''blist_meta_fill: allocation too large''
      else bind_r (if bm_u sc = of_nat (cover (Suc k)) then set_children mm b (16 * slots k) (slots k) (children_free (slots k) (of_nat (cover k))) else Ok mm) (\<lambda>mm.
           bind_r (scan_loop (16 * slots k) (slots k) (fill_body k b) (unat ((allocBlk - blk) div of_nat (cover k)) * slots k + 1)
                    (mm, allocBlk, count, blk + (allocBlk - blk) div of_nat (cover k) * of_nat (cover k), 0)) (\<lambda>(mm, _, _, _, nblks).
           bind_r (upd_node mm b (\<lambda>sc. sc\<lparr>bm_u := bm_u sc - nblks\<rparr>)) (\<lambda>mm. Ok (mm, nblks)))))"
proof -
  have "fill_body k b = (\<lambda>i (mm, allocBlk, count, blk, nblks).
     if \<not> blk < allocBlk + count then Ok (Inl (mm, allocBlk, count, blk, nblks))
     else
       let v = blk + of_nat (cover k) - allocBlk;
           v = (if count < v then count else v)
       in bind_r (node mm b) (\<lambda>sc.
          if bm_bighint sc = - 1 then Panic ''blst_meta_fill: filling unexpected range''
          else
            bind_r (if slots k = 1 then blst_leaf_fill mm (b + i) allocBlk v
                    else blst_meta_fill mm (b + i) allocBlk v (of_nat (cover k)) (slots k - 1) blk) (\<lambda>(mm, n).
              Ok (Inr (mm, allocBlk + v, count - v, blk + of_nat (cover k), nblks + n)))))"
    unfolding node_fill_def slots_eq_1 ..
  then show ?thesis
    unfolding node_fill_def by (subst blst_meta_fill.simps) (simp only: skp_Suc subradix [OF assms] Let_def nat.simps if_False)
qed

lemma fill_all:
  assumes ok: "node_ok (Suc k) mm b n" and k: "Suc k \<le> 6" and n: "n \<le> cover (Suc k)" and r: "1 \<le> count" "f + count \<le> n"
    and a: "count = cover (Suc k) \<or> bm_u (mm ! b) = 0"
  shows "fill_post (Suc k) mm b n f count (mm[b := (mm ! b)\<lparr>bm_u := 0, bm_bighint := of_nat count\<rparr>]) (bm_u (mm ! b))"
proof -
  let ?x = "(mm ! b)\<lparr>bm_u := 0, bm_bighint := of_nat count\<rparr>"
  have cs: "count < 2 ^ 30" using r(2) n cover_bound [OF k] by simp
  have sk: "skel (Suc k) mm b n" "b < length mm" using ok by (auto simp: node_ok_def)
  have "skel (Suc k) (mm[b := ?x]) b n" using blk_not_none [OF cs] by (intro skel_own [OF sk(1)]) auto
  then have e: "node_ok (Suc k) (mm[b := ?x]) b n" "rfree (Suc k) (mm[b := ?x]) b n = {}"
    using sk(2) by (simp_all add: node_ok_def del: skel.simps)
  have sub: "rfree (Suc k) mm b n \<subseteq> {f..<f + count}"
  proof (cases "bm_u (mm ! b) = 0")
    case False
    then have "f = 0" "count = n" using a r n by auto
    then show ?thesis using rfree_bound [of "Suc k" mm b n] ok n k
      by (simp add: node_ok_def atLeast0LessThan del: rfree.simps acc.simps skel.simps)
  qed simp
  have i: "rfree (Suc k) mm b n \<inter> {f..<f + count} = rfree (Suc k) mm b n" "rfree (Suc k) mm b n - {f..<f + count} = {}"
    using sub by blast+
  have u: "bm_u (mm ! b) = of_nat (card (rfree (Suc k) mm b n))" unfolding avail_card [OF ok k, symmetric] by simp
  have "frame b (b + slots (Suc k)) mm (mm[b := ?x])" by (rule frame_update) simp_all
  then show ?thesis using e u unfolding fill_post_def i by blast
qed

theorem node_fill_spec:
  assumes "k \<le> 6" "node_ok k mm b n" "n \<le> cover k" "base mod 32 = 0" "base + cover k \<le> 2 ^ 30" "1 \<le> count" "f + count \<le> n"
  shows "\<exists>mm' v. node_fill k mm b (of_nat (base + f)) (of_nat count) (of_nat base) = Ok (mm', v) \<and> fill_post k mm b n f count mm' v"
  using assms
proof (induction k arbitrary: mm b n base f count)
  case 0
  then show ?case using leaf_fill_spec [of mm b n base count f] by (simp add: node_fill_def)
next
  case (Suc k)
  note k = Suc.prems(1) and ok = Suc.prems(2) and n = Suc.prems(3) and base = Suc.prems(4,5) and r = Suc.prems(6,7)
  have b: "b < length mm" using ok by (auto simp: node_ok_def)
  have cw: "of_nat count = (of_nat (cover (Suc k)) :: u32) \<longleftrightarrow> count = cover (Suc k)"
    using r n cover_bound [OF k] by (intro w_eq) simp_all
  show ?case
  proof (cases "count = cover (Suc k) \<or> bm_u (mm ! b) = 0")
    case True
    then show ?thesis using fill_all [OF ok k n r True] b cw by (auto simp: meta_fill_unfold [OF k] node_Ok upd_node_Ok simp del: of_nat_add)
  next
    case False
    define F where "F = rfree (Suc k) mm b n"
    obtain m where m: "(if bm_u (mm ! b) = of_nat (cover (Suc k)) then set_children mm b (16 * slots k) (slots k) (children_free (slots k) (of_nat (cover k))) else Ok mm) = Ok m"
      "expanded k m b n" "kids k m b n = F" "m ! b = mm ! b" "frame b (b + slots (Suc k)) mm m"
      using alloc_start [OF ok k n] False unfolding F_def by blast
    have IH: "node_ok k mm b n \<Longrightarrow> n \<le> cover k \<Longrightarrow> base mod 32 = 0 \<Longrightarrow> base + cover k \<le> 2 ^ 30 \<Longrightarrow> 1 \<le> count \<Longrightarrow> f + count \<le> n \<Longrightarrow>
        \<exists>mm' v. node_fill k mm b (of_nat (base + f)) (of_nat count) (of_nat base) = Ok (mm', v) \<and> fill_post k mm b n f count mm' v"
      for mm b n base f count using Suc.IH k by simp
    let ?v = "of_nat (card (F \<inter> {f..<f + count})) :: u32"
    obtain m' x y z where s: "scan_loop (16 * slots k) (slots k) (fill_body k b) (1 + f div cover k * slots k)
        (m, of_nat (base + f), of_nat count, of_nat (base + f div cover k * cover k), 0) = Ok (m', x, y, z, ?v)"
      and m': "expanded k m' b n" "kids k m' b n = F - {f..<f + count}" "m' ! b = m ! b" "frame b (b + slots (Suc k)) m m'"
      using fill_scan [OF IH k n base r m(2,3)] by blast
    let ?x = "(mm ! b)\<lparr>bm_u := bm_u (mm ! b) - ?v\<rparr>"
    have b': "b < length m'" "bm_bighint ?x \<noteq> - 1" "bm_bighint ?x \<noteq> 0" using m'(1) m'(3) m(4) ok False by (auto simp: expanded_def node_ok_def)
    have fin: "finite F" using finite_kids [OF m(2) k] m(3) by simp
    have av: "bm_u (mm ! b) = of_nat (card F)" unfolding F_def avail_card [OF ok k, symmetric] by simp
    have sum: "card F = card (F \<inter> {f..<f + count}) + card (F - {f..<f + count})" using card_Diff_subset_Int [of F "{f..<f + count}"] fin card_mono [OF fin, of "F \<inter> {f..<f + count}"] by simp
    have "card F < 2 ^ 32" unfolding F_def avail_card [OF ok k, symmetric] using unsigned_less [of "bm_u (mm ! b)"] by simp
    then have u: "unat (bm_u ?x) = card (F - {f..<f + count})" unfolding blmeta.simps av using sum by (simp add: unat_of_nat)
    note o = own_update [OF m'(1) b'(2)]
    have "node_ok (Suc k) (m'[b := ?x]) b n" "rfree (Suc k) (m'[b := ?x]) b n = F - {f..<f + count}"
      using node_of_expanded [OF o(1) k n] unfolding o(2) m'(2) using b' u by (auto simp del: rfree.simps)
    moreover have "frame b (b + slots (Suc k)) mm (m'[b := ?x])" using frame_trans [OF frame_trans [OF m(5) m'(4)] frame_update] by simp
    ultimately have "fill_post (Suc k) mm b n f count (m'[b := ?x]) ?v" unfolding fill_post_def F_def by simp
    moreover have "\<not> of_nat (cover (Suc k)) < (of_nat count :: u32)" using r n cover_bound [OF k] by (subst w_less) simp_all
    then have "node_fill (Suc k) mm b (of_nat (base + f)) (of_nat count) (of_nat base) = Ok (m'[b := ?x], ?v)"
      using m(1,4) b b'(1) range_start [OF k base(2), of f] r n s m'(3) False cw
      by (simp add: meta_fill_unfold [OF k] node_Ok upd_node_Ok add.commute [of 1] del: of_nat_add)
    ultimately show ?thesis by blast
  qed
qed

end
