(* ===== verification/Blist_Init.thy ===== *)
theory Blist_Init
  imports Blist_Fill
begin

text \<open>
  The layout of a new tree: the number of entries \<open>blst_radix_init\<close> counts is enough for what it writes.
\<close>

definition live :: "nat \<Rightarrow> nat \<Rightarrow> nat" where
  "live k n = (n + cover k - 1) div cover k"

primrec need :: "nat \<Rightarrow> nat \<Rightarrow> nat" where
  "need 0 n = 0"
| "need (Suc k) n = 1 + live k n * slots k"

lemma live_unique: "n \<le> c * cover k \<Longrightarrow> \<forall>d < c. d * cover k < n \<Longrightarrow> 0 < n \<Longrightarrow> live k n = c"
proof -
  assume a: "n \<le> c * cover k" "\<forall>d < c. d * cover k < n" "0 < n"
  then have c: "0 < c" by (auto intro: gr0I)
  then have c: "0 < c" "(c - 1) * cover k < n" using a(2) by simp_all
  have "c * cover k = (c - 1) * cover k + cover k" using c(1) by (cases c) simp_all
  then show ?thesis unfolding live_def using a(1) c(2) cover_pos [of k] by (intro div_nat_eqI) (simp_all add: mult.commute)
qed

lemma live_le: "n \<le> cover (Suc k) \<Longrightarrow> live k n \<le> 16"
proof -
  assume "n \<le> cover (Suc k)"
  then have "n + cover k - 1 < 17 * cover k" unfolding cover_Suc using cover_pos [of k] by linarith
  then have "live k n < 17" unfolding live_def by (simp add: div_less_iff_less_mult)
  then show ?thesis by simp
qed

lemma need_le: "n \<le> cover k \<Longrightarrow> need k n \<le> slots k"
proof (cases k)
  case (Suc j)
  assume "n \<le> cover k"
  then have "live j n * slots j \<le> 16 * slots j" using live_le [of n j] Suc by (intro mult_le_mono1) simp
  then show ?thesis using Suc by simp
qed simp

abbreviation init_body :: "bool \<Rightarrow> nat \<Rightarrow> nat \<Rightarrow> nat \<Rightarrow> nodes \<times> u32 \<times> nat \<times> nat \<Rightarrow> ((nodes \<times> u32 \<times> nat \<times> nat) + (nodes \<times> u32 \<times> nat \<times> nat)) result" where
  "init_body wr k b \<equiv> \<lambda>i (mm, count, memindex, iv).
     if of_nat (cover k) \<le> count
     then bind_r (blst_radix_init wr mm (b + i) (of_nat (cover k)) (slots k - 1) (of_nat (cover k))) (\<lambda>(mm, x).
            Ok (Inr (mm, count - of_nat (cover k), i + x, i + slots k)))
     else if 0 < count
     then bind_r (blst_radix_init wr mm (b + i) (of_nat (cover k)) (slots k - 1) count) (\<lambda>(mm, x).
            Ok (Inr (mm, 0, i + x, i + slots k)))
     else bind_r (if wr then upd_node mm (b + i) (\<lambda>sc. sc\<lparr>bm_bighint := - 1\<rparr>) else Ok mm) (\<lambda>mm.
            Ok (Inl (mm, count, memindex, i)))"

lemma radix_init_unfold:
  assumes "Suc k \<le> 6"
  shows "blst_radix_init wr mm b (of_nat (cover (Suc k))) (slots (Suc k) - 1) count =
     bind_r (if wr then upd_node mm b (\<lambda>sc. sc\<lparr>bm_bighint := 0, bm_u := 0\<rparr>) else Ok mm) (\<lambda>mm.
     bind_r (scan_loop (16 * slots k) (slots k) (init_body wr k b) 1 (mm, count, 0, 1)) (\<lambda>(mm, _, memindex, i).
       Ok (mm, if memindex < i then i else memindex)))"
proof -
  have "of_nat (cover (Suc k)) \<noteq> (32 :: u32)"
    using unat_cover [OF assms] cover_ge_Suc [of k] by auto
  then show ?thesis by (subst blst_radix_init.simps) (simp only: skp_Suc subradix [OF assms] Let_def if_False)
qed

definition tree_init :: "nat \<Rightarrow> nodes \<Rightarrow> nat \<Rightarrow> nat \<Rightarrow> nodes \<Rightarrow> bool" where
  "tree_init k mm b n mm' \<longleftrightarrow> skel k mm' b n \<and> bm_u (mm' ! b) = 0 \<and> bm_bighint (mm' ! b) = 0 \<and> frame b (b + slots k) mm mm'"

definition init_loop :: "bool \<Rightarrow> nat \<Rightarrow> nodes \<Rightarrow> nat \<Rightarrow> nat \<Rightarrow> nat \<Rightarrow> nodes \<times> u32 \<times> nat \<times> nat \<Rightarrow> bool" where
  "init_loop wr k mm b n c s \<longleftrightarrow> (case s of (m, count, memindex, iv) \<Rightarrow>
     count = of_nat (n - c * cover k) \<and> iv = 1 + c * slots k \<and> memindex \<le> iv \<and> (\<forall>d < c. d * cover k < n) \<and>
     (if wr then m ! b = mm ! b \<and> frame b (b + slots (Suc k)) mm m \<and> (\<forall>d < c. skel k m (chl k b d) (sub k n d)) else m = mm))"

definition init_done :: "bool \<Rightarrow> nat \<Rightarrow> nodes \<Rightarrow> nat \<Rightarrow> nat \<Rightarrow> nodes \<times> u32 \<times> nat \<times> nat \<Rightarrow> bool" where
  "init_done wr k mm b n s \<longleftrightarrow> (case s of (m, count, memindex, iv) \<Rightarrow>
     iv = need (Suc k) n \<and> memindex \<le> iv \<and>
     (if wr then skel (Suc k) m b n \<and> m ! b = mm ! b \<and> frame b (b + slots (Suc k)) mm m else m = mm))"

lemma skel_complete:
  assumes "b < length m" "bm_bighint (m ! b) \<noteq> - 1" "c \<le> 16" "\<forall>d < c. d * cover k < n \<and> skel k m (chl k b d) (sub k n d)" "n \<le> c * cover k"
    "c < 16 \<longrightarrow> chl k b c < length m \<and> bm_bighint (m ! chl k b c) = - 1"
  shows "skel (Suc k) m b n"
  unfolding skel.simps
proof (intro conjI allI impI)
  fix d :: nat assume d: "d < 16"
  consider "d < c" | "d = c" | "c < d" by linarith
  then show "if d * cover k < n then skel k m (chl k b d) (sub k n d)
    else d * cover k < n + cover k \<longrightarrow> chl k b d < length m \<and> bm_bighint (m ! chl k b d) = - 1"
  proof cases
    case 3
    then have "(c + 1) * cover k \<le> d * cover k" by (intro mult_le_mono1) simp
    then show ?thesis using assms(5) by simp
  qed (use assms d in auto)
qed (use assms in auto)

lemma init_stop:
  assumes not_done: "\<not> c * cover k < n"
    and k: "Suc k \<le> 6" and n: "0 < n" "n \<le> cover (Suc k)" and c: "c < 16"
    and mm: "wr \<longrightarrow> b + need (Suc k) n < length mm \<and> bm_bighint (mm ! b) = 0" and P: "init_loop wr k mm b n c s"
  shows "\<exists>s'. init_body wr k b (1 + c * slots k) s = Ok (Inl s') \<and> init_done wr k mm b n s'"
proof -
  obtain m mi where s: "s = (m, of_nat (n - c * cover k), mi, 1 + c * slots k)" and mi: "mi \<le> 1 + c * slots k" and cs: "\<forall>d < c. d * cover k < n"
    and m: "if wr then m ! b = mm ! b \<and> frame b (b + slots (Suc k)) mm m \<and> (\<forall>d < c. skel k m (chl k b d) (sub k n d)) else m = mm"
    using P by (auto simp: init_loop_def split: prod.splits)
  have len: "wr \<Longrightarrow> length m = length mm" using m by (simp add: frame_def)
  have L: "live k n = c" using live_unique [OF _ cs n(1)] not_done by simp
  have z: "of_nat (n - c * cover k) = (0 :: u32)" "\<not> of_nat (cover k) \<le> (0 :: u32)" using not_done cover_word(1) [of k] k by simp_all
  let ?m = "if wr then m[chl k b c := (m ! chl k b c)\<lparr>bm_bighint := - 1\<rparr>] else m"
  have i: "chl k b c < length m" if wr using mm that len [OF that] L by (simp add: add.commute)
  then have "init_body wr k b (1 + c * slots k) s = Ok (Inl (?m, 0, mi, 1 + c * slots k))" unfolding s using z by (simp add: upd_node_Ok)
  moreover have "init_done wr k mm b n (?m, 0, mi, 1 + c * slots k)"
  proof (cases wr)
    case True
    have fr: "frame (chl k b c) (chl k b c + slots k) m ?m" using True by (simp add: frame_update)
    have "skel k ?m (chl k b d) (sub k n d)" if "d < c" for d using child_frame(2) [OF fr, of d] m True that by simp
    moreover have "b < length m" using i [OF True] chl_gt(1) [of b k c] by linarith
    ultimately have "skel (Suc k) ?m b n" using True i len m mm cs c not_done
      by (intro skel_complete [where c = c]) auto
    moreover have "frame b (b + slots (Suc k)) mm ?m"
      using m True frame_trans [OF _ frame_mono [OF fr]] chl_range(2) [OF c, of k b] less_imp_le [OF chl_gt(1)] by simp
    ultimately show ?thesis using True m mi L unfolding init_done_def by (simp del: skel.simps slots.simps)
  qed (use m mi L in \<open>simp add: init_done_def\<close>)
  ultimately show ?thesis by blast
qed

lemma init_child:
  assumes IH: "\<And>mm b n. 0 < n \<Longrightarrow> n \<le> cover k \<Longrightarrow> (wr \<longrightarrow> b + need k n < length mm) \<Longrightarrow>
      \<exists>mm'. blst_radix_init wr mm b (of_nat (cover k)) (slots k - 1) (of_nat n) = Ok (mm', need k n) \<and> (if wr then tree_init k mm b n mm' else mm' = mm)"
    and live: "c * cover k < n"
    and k: "Suc k \<le> 6" and n: "0 < n" "n \<le> cover (Suc k)" and c: "c < 16"
    and mm: "wr \<longrightarrow> b + need (Suc k) n < length mm \<and> bm_bighint (mm ! b) = 0" and P: "init_loop wr k mm b n c s"
  shows "\<exists>s'. init_body wr k b (1 + c * slots k) s = Ok (Inr s') \<and> init_loop wr k mm b n (Suc c) s'"
proof -
  obtain m mi where s: "s = (m, of_nat (n - c * cover k), mi, 1 + c * slots k)" and mi: "mi \<le> 1 + c * slots k" and cs: "\<forall>d < c. d * cover k < n"
    and m: "if wr then m ! b = mm ! b \<and> frame b (b + slots (Suc k)) mm m \<and> (\<forall>d < c. skel k m (chl k b d) (sub k n d)) else m = mm"
    using P by (auto simp: init_loop_def split: prod.splits)
  have len: "wr \<Longrightarrow> length m = length mm" using m by (simp add: frame_def)
  let ?n = "sub k n c"
  have n0: "0 < ?n" "?n \<le> cover k" using live by (simp_all add: sub_def)
  have bd: "wr \<longrightarrow> chl k b c + need k ?n < length m"
  proof
    assume wr
    have "c < live k n" using live cover_pos [of k] unfolding live_def by (simp add: less_eq_div_iff_mult_less_eq Suc_le_eq [symmetric])
    then have "(c + 1) * slots k \<le> live k n * slots k" by (intro mult_le_mono1) simp
    then show "chl k b c + need k ?n < length m" using need_le [OF n0(2)] mm \<open>wr\<close> len [OF \<open>wr\<close>] by (simp add: chl_def del: chl_fold)
  qed
  obtain m' where r: "blst_radix_init wr m (chl k b c) (of_nat (cover k)) (slots k - 1) (of_nat ?n) = Ok (m', need k ?n)"
    "if wr then tree_init k m (chl k b c) ?n m' else m' = m" using IH [OF n0 bd] by blast
  have small: "n < 2 ^ 32" "cover k < 2 ^ 32" using n cover_bound [OF k] cover_bound [of k] k by simp_all
  have "init_body wr k b (1 + c * slots k) s = Ok (Inr (m', of_nat (n - Suc c * cover k), 1 + c * slots k + need k ?n, 1 + Suc c * slots k))"
  proof (cases "cover k \<le> n - c * cover k")
    case True
    then have "?n = cover k" "of_nat (cover k) \<le> (of_nat (n - c * cover k) :: u32)" using small w_less [of "n - c * cover k" "cover k"] by (auto simp: sub_def not_less [symmetric])
    moreover have "(of_nat (n - c * cover k) :: u32) - of_nat (cover k) = of_nat (n - Suc c * cover k)" using True by (subst w_diff) (simp_all add: add.commute)
    ultimately show ?thesis unfolding s using r(1) by (simp add: add.commute)
  next
    case False
    then have "?n = n - c * cover k" "\<not> of_nat (cover k) \<le> (of_nat (n - c * cover k) :: u32)" "(0 :: u32) < of_nat (n - c * cover k)"
      using small live w_less [of "n - c * cover k" "cover k"] w_less [of 0 "n - c * cover k"] by (auto simp: sub_def not_less [symmetric])
    then show ?thesis unfolding s using r(1) False by (simp add: chl_def del: chl_fold)
  qed
  moreover have "init_loop wr k mm b n (Suc c) (m', of_nat (n - Suc c * cover k), 1 + c * slots k + need k ?n, 1 + Suc c * slots k)"
  proof -
    have "d * cover k < n" if "d < Suc c" for d using cs live that by (auto simp: less_Suc_eq)
    moreover have "m' ! b = mm ! b \<and> frame b (b + slots (Suc k)) mm m' \<and> (\<forall>d < Suc c. skel k m' (chl k b d) (sub k n d))" if wr
    proof (intro conjI)
      have t: "skel k m' (chl k b c) ?n" and fr: "frame (chl k b c) (chl k b c + slots k) m m'" using r(2) that by (simp_all add: tree_init_def)
      show "m' ! b = mm ! b" using fr m that by (simp add: frame_def)
      show "frame b (b + slots (Suc k)) mm m'"
        using m that frame_trans [OF _ frame_mono [OF fr]] chl_range(2) [OF c, of k b] less_imp_le [OF chl_gt(1)] by simp
      show "\<forall>d < Suc c. skel k m' (chl k b d) (sub k n d)" using child_frame(2) [OF fr] m that t by (auto simp: less_Suc_eq)
    qed
    moreover have "1 + c * slots k + need k ?n \<le> 1 + Suc c * slots k" using need_le [OF n0(2)] by (simp del: chl_fold)
    ultimately show ?thesis using r(2) m unfolding init_loop_def by (cases wr) (simp_all del: slots.simps chl_fold mult_Suc)
  qed
  ultimately show ?thesis by blast
qed

lemma init_step:
  assumes IH: "\<And>mm b n. 0 < n \<Longrightarrow> n \<le> cover k \<Longrightarrow> (wr \<longrightarrow> b + need k n < length mm) \<Longrightarrow>
      \<exists>mm'. blst_radix_init wr mm b (of_nat (cover k)) (slots k - 1) (of_nat n) = Ok (mm', need k n) \<and> (if wr then tree_init k mm b n mm' else mm' = mm)"
    and k: "Suc k \<le> 6" and n: "0 < n" "n \<le> cover (Suc k)" and c: "c < 16"
    and mm: "wr \<longrightarrow> b + need (Suc k) n < length mm \<and> bm_bighint (mm ! b) = 0" and P: "init_loop wr k mm b n c s"
  shows "\<exists>x. init_body wr k b (1 + c * slots k) s = Ok x \<and> (case x of Inl s' \<Rightarrow> init_done wr k mm b n s' | Inr s' \<Rightarrow> init_loop wr k mm b n (Suc c) s')"
proof (cases "c * cover k < n")
  case True
  then show ?thesis using init_child [OF IH True k n c mm P] by (metis (no_types, lifting) sum.case(2))
next
  case False
  then show ?thesis using init_stop [OF False k n c mm P] by (metis (no_types, lifting) sum.case(1))
qed

theorem radix_init_spec:
  assumes "k \<le> 6" "0 < n" "n \<le> cover k" "wr \<longrightarrow> b + need k n < length mm"
  shows "\<exists>mm'. blst_radix_init wr mm b (of_nat (cover k)) (slots k - 1) (of_nat n) = Ok (mm', need k n) \<and> (if wr then tree_init k mm b n mm' else mm' = mm)"
  using assms
proof (induction k arbitrary: mm b n)
  case 0
  then show ?case by (subst blst_radix_init.simps) (simp add: upd_node_Ok tree_init_def frame_update)
next
  case (Suc k)
  note k = Suc.prems(1) and n = Suc.prems(2,3)
  let ?m = "if wr then mm[b := (mm ! b)\<lparr>bm_bighint := 0, bm_u := 0\<rparr>] else mm"
  have b: "wr \<longrightarrow> b < length mm" using Suc.prems(4) by (auto intro: less_trans [OF chl_gt(1)])
  have IH: "0 < n \<Longrightarrow> n \<le> cover k \<Longrightarrow> (wr \<longrightarrow> b + need k n < length mm) \<Longrightarrow>
      \<exists>mm'. blst_radix_init wr mm b (of_nat (cover k)) (slots k - 1) (of_nat n) = Ok (mm', need k n) \<and> (if wr then tree_init k mm b n mm' else mm' = mm)"
    for mm b n using Suc.IH k by simp
  have mm: "wr \<longrightarrow> b + need (Suc k) n < length ?m \<and> bm_bighint (?m ! b) = 0" using Suc.prems(4) b by auto
  have "\<exists>s'. scan_loop (16 * slots k) (slots k) (init_body wr k b) (1 + 0 * slots k) (?m, of_nat n, 0, 1) = Ok s' \<and> init_done wr k ?m b n s'"
  proof (rule scan_rule [where P = "init_loop wr k ?m b n"])
    show "init_loop wr k ?m b n 0 (?m, of_nat n, 0, 1)" by (simp add: init_loop_def)
    show "\<exists>x. init_body wr k b (1 + c * slots k) s = Ok x \<and> (case x of Inl s' \<Rightarrow> init_done wr k ?m b n s' | Inr s' \<Rightarrow> init_loop wr k ?m b n (Suc c) s')"
      if "c < 16" "init_loop wr k ?m b n c s" for c s by (rule init_step [OF IH k n that(1) mm that(2)])
    show "init_done wr k ?m b n s" if P: "init_loop wr k ?m b n 16 s" for s
    proof -
      have "live k n = 16" using live_unique [of n 16 k] P n by (auto simp: init_loop_def cover_Suc)
      moreover have "skel (Suc k) m b n" if wr "frame b (b + slots (Suc k)) ?m m" "m ! b = ?m ! b" "\<forall>d < 16. d * cover k < n \<and> skel k m (chl k b d) (sub k n d)" for m
        using that b n(2) by (intro skel_complete [where c = 16]) (auto simp: frame_def cover_Suc)
      ultimately show ?thesis using P by (auto simp: init_loop_def init_done_def simp del: skel.simps slots.simps)
    qed
  qed simp
  then obtain m x mi i where s: "scan_loop (16 * slots k) (slots k) (init_body wr k b) 1 (?m, of_nat n, 0, 1) = Ok (m, x, mi, i)"
    "init_done wr k ?m b n (m, x, mi, i)" by auto
  have "blst_radix_init wr mm b (of_nat (cover (Suc k))) (slots (Suc k) - 1) (of_nat n) = Ok (m, need (Suc k) n)"
    unfolding radix_init_unfold [OF k] using s b by (auto simp: init_done_def upd_node_Ok)
  moreover have "if wr then tree_init (Suc k) mm b n m else m = mm"
    using s(2) b frame_trans [OF frame_update, of b b "b + slots (Suc k)" mm _ m] by (auto simp: init_done_def tree_init_def simp del: skel.simps slots.simps)
  ultimately show ?case by blast
qed

end
