(* ===== verification/Blist_Spec.thy ===== *)
theory Blist_Spec
  imports Blist_Init
begin

text \<open>
  The operations on a whole list: the invariant \<open>blist_ok\<close>, the set of free blocks, and what \<open>blist_create\<close>, \<open>blist_alloc\<close>,
  \<open>blist_free\<close> and \<open>blist_fill\<close> do to it.
\<close>

section \<open>The height of a tree\<close>

lemma radix_for_spec:
  assumes "k \<le> 6" "blocks \<le> 2 ^ 29"
  shows "\<exists>j. k \<le> j \<and> j \<le> 6 \<and> radix_for (of_nat blocks) (of_nat (cover k)) (slots k - 1) = Ok (of_nat (cover j), slots j - 1) \<and> blocks \<le> cover j"
  using assms
proof (induction "6 - k" arbitrary: k)
  case 0
  then have "k = 6" by simp
  then show ?case using 0 cover_bound [of 6] w_less [of "cover 6" blocks] by (subst radix_for.simps) (auto simp: cover_def)
next
  case (Suc d)
  then have k: "Suc k \<le> 6" by simp
  show ?case
  proof (cases "cover k < blocks")
    case False
    then show ?thesis using Suc.prems cover_bound [of k] by (subst radix_for.simps) (auto simp: w_less intro!: exI [of _ k])
  next
    case True
    have m: "(of_nat (cover k) :: u32) * 16 = of_nat (cover (Suc k))" by (simp add: cover_Suc)
    have l: "\<not> (of_nat (cover (Suc k)) :: u32) \<le> of_nat (cover k)" using unat_cover [OF k] unat_cover [of k] k cover_pos [of k] by (simp add: word_le_nat_alt cover_Suc)
    have s: "(slots k - 1 + 1) * 16 = slots (Suc k) - 1" using slots_pos(1) [of k] by simp
    have "(of_nat (cover k) :: u32) < of_nat blocks" using True Suc.prems(2) cover_bound [of k] k by (subst w_less) simp_all
    then have "radix_for (of_nat blocks) (of_nat (cover k)) (slots k - 1) = radix_for (of_nat blocks) (of_nat (cover (Suc k))) (slots (Suc k) - 1)"
      using l unfolding m [symmetric] s [symmetric] by (subst radix_for.simps) simp
    then show ?thesis using Suc.hyps(1) [of "Suc k"] Suc.hyps(2) k Suc.prems(2) Suc_leD by fastforce
  qed
qed

lemma radix_for_large:
  assumes "k \<le> 6" "2 ^ 29 < unat blocks"
  shows "radix_for blocks (of_nat (cover k)) skip = Hang"
  using assms
proof (induction "6 - k" arbitrary: k skip)
  case 0
  then have "k = 6" by simp
  then show ?case using 0 by (subst radix_for.simps) (simp add: cover_def word_less_nat_alt)
next
  case (Suc d)
  then have k: "Suc k \<le> 6" by simp
  have m: "(of_nat (cover k) :: u32) * 16 = of_nat (cover (Suc k))" by (simp add: cover_Suc)
  have l: "\<not> (of_nat (cover (Suc k)) :: u32) \<le> of_nat (cover k)" using unat_cover [OF k] unat_cover [of k] k cover_pos [of k] by (simp add: word_le_nat_alt cover_Suc)
  have "(of_nat (cover k) :: u32) < blocks" using Suc.prems unat_cover [of k] cover_bound [of k] by (simp add: word_less_nat_alt)
  then show ?case using Suc.hyps(1) [of "Suc k"] Suc.hyps(2) k Suc.prems(2) l by (subst radix_for.simps) (simp add: m)
qed

function level :: "nat \<Rightarrow> nat" where
  "level skip = (if skip = 0 then 0 else Suc (level (skip div 16 - 1)))"
  by pat_completeness auto
termination
  by (relation "measure id") auto

declare level.simps [simp del]

lemma level_skip [simp]: "level (slots k - 1) = k"
proof (induction k)
  case (Suc k)
  then show ?case by (subst level.simps) simp
qed (simp add: level.simps)

lemma level_skip' [simp]: "level (slots k - Suc 0) = k"
  using level_skip [of k] by simp

section \<open>The state of a list\<close>

definition free_blocks :: "blist \<Rightarrow> nat set" where
  "free_blocks bl = rfree (level (bl_skip bl)) (bl_root bl) 0 (unat (bl_blocks bl))"

definition blist_ok :: "blist \<Rightarrow> bool" where
  "blist_ok bl \<longleftrightarrow> (let k = level (bl_skip bl) in
     k \<le> 6 \<and> bl_skip bl = slots k - 1 \<and> bl_radix bl = of_nat (cover k) \<and> 0 < unat (bl_blocks bl) \<and> unat (bl_blocks bl) \<le> cover k
     \<and> node_ok k (bl_root bl) 0 (unat (bl_blocks bl)) \<and> bl_free bl = of_nat (card (free_blocks bl)))"

lemma blist_okE:
  assumes "blist_ok bl"
  obtains k n where "k \<le> 6" "bl_skip bl = slots k - 1" "bl_radix bl = of_nat (cover k)" "bl_blocks bl = of_nat n" "unat (bl_blocks bl) = n" "0 < n" "n \<le> cover k"
    "node_ok k (bl_root bl) 0 n" "free_blocks bl = rfree k (bl_root bl) 0 n" "bl_free bl = of_nat (card (free_blocks bl))"
  by (rule that [of "level (bl_skip bl)" "unat (bl_blocks bl)"]) (use assms in \<open>auto simp: blist_ok_def free_blocks_def Let_def\<close>)

lemma cover_leaf: "k \<le> 6 \<Longrightarrow> of_nat (cover k) = (32 :: u32) \<longleftrightarrow> k = 0"
  using cover_ge_Suc [of "k - 1"] w_eq [of "cover k" 32] cover_bound [of k] by (cases k) auto

lemma free_blocks_bound: "blist_ok bl \<Longrightarrow> free_blocks bl \<subseteq> {..<unat (bl_blocks bl)}" "blist_ok bl \<Longrightarrow> finite (free_blocks bl)"
proof -
  assume ok: "blist_ok bl"
  show s: "free_blocks bl \<subseteq> {..<unat (bl_blocks bl)}" using ok
    by (elim blist_okE) (auto simp: node_ok_def dest: rfree_bound)
  show "finite (free_blocks bl)" by (rule finite_subset [OF s]) simp
qed

lemma blist_ok_blocks: "blist_ok bl \<Longrightarrow> unat (bl_blocks bl) \<le> 2 ^ 29"
  by (elim blist_okE) (use cover_bound in fastforce)

text \<open>A new tree in the place of the old one, with its count of free blocks.\<close>

lemma blist_ok_upd:
  assumes ok: "blist_ok bl" and k: "bl_skip bl = slots k - 1" and n: "unat (bl_blocks bl) = n"
    and t: "node_ok k mm 0 n" and c: "v = of_nat (card (rfree k mm 0 n))"
  shows "blist_ok (bl\<lparr>bl_root := mm, bl_free := v\<rparr>)" "free_blocks (bl\<lparr>bl_root := mm, bl_free := v\<rparr>) = rfree k mm 0 n"
  using assms by (simp_all add: blist_ok_def free_blocks_def Let_def)

section \<open>Operations\<close>

lemma blist_create_spec:
  assumes "0 < n" "n \<le> 2 ^ 29"
  shows "\<exists>bl. blist_create junk (of_nat n) = Ok bl \<and> blist_ok bl \<and> bl_blocks bl = of_nat n \<and> free_blocks bl = {}"
proof -
  obtain k where k: "k \<le> 6" "radix_for (of_nat n) 32 0 = Ok (of_nat (cover k), slots k - 1)" "n \<le> cover k"
    using radix_for_spec [of 0 n] assms(2) by auto
  have 1: "blst_radix_init False [] 0 (of_nat (cover k)) (slots k - 1) (of_nat n) = Ok ([], need k n)"
    using radix_init_spec [OF k(1) assms(1) k(3), of False 0 "[]"] by simp
  let ?m = "map junk [0..<1 + need k n]"
  obtain m where 2: "blst_radix_init True ?m 0 (of_nat (cover k)) (slots k - 1) (of_nat n) = Ok (m, need k n)" "tree_init k ?m 0 n m"
    using radix_init_spec [OF k(1) assms(1) k(3), of True 0 ?m] by auto
  let ?bl = "\<lparr>bl_blocks = of_nat n, bl_radix = of_nat (cover k), bl_skip = slots k - 1, bl_free = 0, bl_root = m, bl_rootblks = 1 + need k n\<rparr>"
  have "blist_create junk (of_nat n) = Ok ?bl" unfolding blist_create_def using k 1 2 by simp
  moreover have "unat (of_nat n :: u32) = n" using assms by (simp add: unat_of_nat)
  moreover have "acc k m 0 n" "rfree k m 0 n = {}" using 2(2) by (cases k; simp add: tree_init_def)+
  ultimately show ?thesis using 2(2) k assms by (intro exI [of _ ?bl]) (simp add: blist_ok_def free_blocks_def tree_init_def node_ok_def)
qed

lemma blist_alloc_spec:
  assumes ok: "blist_ok bl" and c: "1 \<le> unat count" "unat count \<le> 32"
  shows "\<exists>bl' r. blist_alloc (Some bl) count = Ok (Some bl', r) \<and> blist_ok bl' \<and> bl_blocks bl' = bl_blocks bl \<and>
    (r = BLIST_NONE \<and> free_blocks bl' = free_blocks bl \<and> (unat count = 1 \<longrightarrow> free_blocks bl = {}) \<or>
     r \<noteq> BLIST_NONE \<and> {unat r..<unat r + unat count} \<subseteq> free_blocks bl \<and> free_blocks bl' = free_blocks bl - {unat r..<unat r + unat count})"
proof -
  obtain k n where k: "k \<le> 6" "bl_skip bl = slots k - 1" "bl_radix bl = of_nat (cover k)" and n: "unat (bl_blocks bl) = n" "0 < n" "n \<le> cover k"
    and t: "node_ok k (bl_root bl) 0 n" "free_blocks bl = rfree k (bl_root bl) 0 n" "bl_free bl = of_nat (card (free_blocks bl))"
    using ok by (elim blist_okE)
  have "0 + cover k \<le> 2 ^ 30" using cover_bound [OF k(1)] by simp
  from node_alloc_spec [OF t(1) k(1) n(2,3) this c] obtain m r where
    r: "node_alloc k (bl_root bl) 0 0 count = Ok (m, r)" and p: "alloc_post k (bl_root bl) 0 n 0 (unat count) m r" by auto
  let ?v = "if r \<noteq> BLIST_NONE then bl_free bl - count else bl_free bl"
  have "blist_alloc (Some bl) count = Ok (Some (bl\<lparr>bl_root := m, bl_free := ?v\<rparr>), r)"
    using r k unfolding blist_alloc_def node_alloc_def by (auto simp: cover_leaf)
  moreover have m: "node_ok k m 0 n" using p by (simp add: alloc_post_def)
  note fb = free_blocks_bound [OF ok]
  from p consider (none) "r = BLIST_NONE" "rfree k m 0 n = free_blocks bl" "unat count = 1 \<longrightarrow> free_blocks bl = {}"
    | (some) x where "r = of_nat x" "x < 2 ^ 30" "{x..<x + unat count} \<subseteq> free_blocks bl" "rfree k m 0 n = free_blocks bl - {x..<x + unat count}"
    unfolding alloc_post_def t(2) by auto
  then have "blist_ok (bl\<lparr>bl_root := m, bl_free := ?v\<rparr>) \<and>
    (r = BLIST_NONE \<and> free_blocks (bl\<lparr>bl_root := m, bl_free := ?v\<rparr>) = free_blocks bl \<and> (unat count = 1 \<longrightarrow> free_blocks bl = {}) \<or>
     r \<noteq> BLIST_NONE \<and> {unat r..<unat r + unat count} \<subseteq> free_blocks bl \<and> free_blocks (bl\<lparr>bl_root := m, bl_free := ?v\<rparr>) = free_blocks bl - {unat r..<unat r + unat count})"
  proof cases
    case none
    then have "?v = of_nat (card (rfree k m 0 n))" using t(3) by simp
    from blist_ok_upd [OF ok k(2) n(1) m this] none show ?thesis by simp
  next
    case some
    have le: "unat count \<le> card (free_blocks bl)" using card_mono [OF fb(2) some(3)] by simp
    have nn: "r \<noteq> BLIST_NONE" using blk_not_none [OF some(2)] some(1) by simp
    have "card (rfree k m 0 n) = card (free_blocks bl) - unat count" unfolding some(4) using card_Diff_subset [OF _ some(3)] by simp
    then have "?v = of_nat (card (rfree k m 0 n))" using t(3) nn le by simp
    moreover have "unat r = x" using some(1,2) by (simp add: unat_of_nat)
    ultimately show ?thesis using blist_ok_upd [OF ok k(2) n(1) m] some nn by simp
  qed
  ultimately show ?thesis by (intro exI [of _ "bl\<lparr>bl_root := m, bl_free := ?v\<rparr>"] exI [of _ r]) simp
qed

lemma blist_free_spec:
  assumes ok: "blist_ok bl" and r: "1 \<le> count" "f + count \<le> unat (bl_blocks bl)" "{f..<f + count} \<inter> free_blocks bl = {}"
  shows "\<exists>bl'. blist_free (Some bl) (of_nat f) (of_nat count) = Ok (Some bl') \<and> blist_ok bl' \<and> bl_blocks bl' = bl_blocks bl \<and>
    free_blocks bl' = free_blocks bl \<union> {f..<f + count}"
proof -
  obtain k n where k: "k \<le> 6" "bl_skip bl = slots k - 1" "bl_radix bl = of_nat (cover k)" and n: "unat (bl_blocks bl) = n" "0 < n" "n \<le> cover k"
    and t: "node_ok k (bl_root bl) 0 n" "free_blocks bl = rfree k (bl_root bl) 0 n" "bl_free bl = of_nat (card (free_blocks bl))"
    using ok by (elim blist_okE)
  have "0 + cover k \<le> 2 ^ 30" using cover_bound [OF k(1)] by simp
  from node_free_spec [OF k(1) t(1) n(3) _ this r(1), of f] obtain m where
    m: "node_free k (bl_root bl) 0 (of_nat f) (of_nat count) 0 = Ok m" and p: "free_post k (bl_root bl) 0 n f count m"
    using r(2,3) n(1) t(2) by auto
  have e: "blist_free (Some bl) (of_nat f) (of_nat count) = Ok (Some (bl\<lparr>bl_root := m, bl_free := bl_free bl + of_nat count\<rparr>))"
    using m k unfolding blist_free_def node_free_def by (auto simp: cover_leaf)
  have "card (free_blocks bl \<union> {f..<f + count}) = card (free_blocks bl) + count"
    using card_Un_disjoint [OF free_blocks_bound(2) [OF ok], of "{f..<f + count}"] r(3) by (simp add: Int_commute)
  then have "bl_free bl + of_nat count = of_nat (card (rfree k m 0 n))" using p t(2,3) by (simp add: free_post_def)
  from blist_ok_upd [OF ok k(2) n(1) _ this] show ?thesis using e p t(2) by (intro exI conjI) (auto simp: free_post_def)
qed

lemma blist_fill_spec:
  assumes ok: "blist_ok bl" and r: "1 \<le> count" "f + count \<le> unat (bl_blocks bl)"
  shows "\<exists>bl'. blist_fill (Some bl) (of_nat f) (of_nat count) = Ok (Some bl', of_nat (card (free_blocks bl \<inter> {f..<f + count}))) \<and> blist_ok bl' \<and>
    bl_blocks bl' = bl_blocks bl \<and> free_blocks bl' = free_blocks bl - {f..<f + count}"
proof -
  obtain k n where k: "k \<le> 6" "bl_skip bl = slots k - 1" "bl_radix bl = of_nat (cover k)" and n: "unat (bl_blocks bl) = n" "0 < n" "n \<le> cover k"
    and t: "node_ok k (bl_root bl) 0 n" "free_blocks bl = rfree k (bl_root bl) 0 n" "bl_free bl = of_nat (card (free_blocks bl))"
    using ok by (elim blist_okE)
  have "0 + cover k \<le> 2 ^ 30" using cover_bound [OF k(1)] by simp
  from node_fill_spec [OF k(1) t(1) n(3) _ this r(1), of f] obtain m v where
    m: "node_fill k (bl_root bl) 0 (of_nat f) (of_nat count) 0 = Ok (m, v)" and p: "fill_post k (bl_root bl) 0 n f count m v"
    using r(2) n(1) by auto
  have e: "blist_fill (Some bl) (of_nat f) (of_nat count) = Ok (Some (bl\<lparr>bl_root := m, bl_free := bl_free bl - v\<rparr>), v)"
    using m k unfolding blist_fill_def node_fill_def by (auto simp: cover_leaf)
  note fin = free_blocks_bound(2) [OF ok]
  have "card (free_blocks bl) = card (free_blocks bl \<inter> {f..<f + count}) + card (free_blocks bl - {f..<f + count})"
    using card_Diff_subset_Int [of "free_blocks bl" "{f..<f + count}"] fin card_mono [OF fin, of "free_blocks bl \<inter> {f..<f + count}"] by simp
  then have "bl_free bl - v = of_nat (card (rfree k m 0 n))" using p t(2,3) by (simp add: fill_post_def)
  from blist_ok_upd [OF ok k(2) n(1) _ this] show ?thesis using e p t(2) by (intro exI conjI) (auto simp: fill_post_def)
qed

text \<open>The check of \<open>blst_meta_free\<close> is on the amount of space only.\<close>

lemma blist_free_total:
  assumes ok: "blist_ok bl" and b: "32 < bl_blocks bl" and c: "free_blocks bl \<noteq> {}" "bl_free bl + count = bl_radix bl"
    and full: "bl_blocks bl = bl_radix bl"
  shows "\<exists>bl'. blist_free (Some bl) blkno count = Ok (Some bl') \<and> blist_ok bl' \<and> bl_blocks bl' = bl_blocks bl \<and>
    free_blocks bl' = {..<unat (bl_blocks bl)}"
proof -
  obtain k n where k: "k \<le> 6" "bl_skip bl = slots k - 1" "bl_radix bl = of_nat (cover k)" and n: "unat (bl_blocks bl) = n" "0 < n" "n \<le> cover k"
    and t: "node_ok k (bl_root bl) 0 n" "free_blocks bl = rfree k (bl_root bl) 0 n" "bl_free bl = of_nat (card (free_blocks bl))"
    using ok by (elim blist_okE)
  have "k \<noteq> 0" using b n(1,3) by (cases k) (auto simp: word_less_nat_alt)
  then obtain j where j: "k = Suc j" by (cases k) auto
  have u: "bm_u (bl_root bl ! 0) = bl_free bl" unfolding t(2,3) j using avail_card [OF t(1) [unfolded j] k(1) [unfolded j]] by (metis of_nat_unat ucast_id)
  have u0: "bm_u (bl_root bl ! 0) \<noteq> 0" using c(1) unfolding t(2) j by auto
  let ?m = "(bl_root bl)[0 := (bl_root bl ! 0)\<lparr>bm_u := of_nat (cover k)\<rparr>]"
  have l: "0 < length (bl_root bl)" using t(1) unfolding j by (simp add: node_ok_def)
  have "node_free k (bl_root bl) 0 blkno count 0 = Ok ?m"
    using u0 u c(2) l k unfolding j by (simp add: meta_free_unfold node_Ok upd_node_Ok)
  then have "blist_free (Some bl) blkno count = Ok (Some (bl\<lparr>bl_root := ?m, bl_free := bl_free bl + count\<rparr>))"
    using k j unfolding blist_free_def node_free_def by (simp add: cover_leaf)
  moreover have rf: "rfree k ?m 0 n = {..<cover k}" unfolding j rfree_Suc using l cover_word(1) [OF k(1)] j by simp
  moreover have nk: "n = cover k" using full k n(1) unat_cover [OF k(1)] by simp
  moreover have "node_ok k ?m 0 n"
  proof -
    have "skel k (bl_root bl) 0 n" "bm_bighint (bl_root bl ! 0) \<noteq> - 1" "bm_bighint (bl_root bl ! 0) \<noteq> 0"
      using t(1) u0 by (simp_all add: node_ok_def j del: rfree.simps)
    then show ?thesis using skel_own [of k "bl_root bl" 0 n] l nk unat_cover [OF k(1)] by (simp add: node_ok_def j del: skel.simps rfree.simps)
  qed
  moreover have "level (bl_skip bl) = k" by (simp add: k)
  ultimately show ?thesis using k n c(2) unat_cover [OF k(1)] by (simp add: blist_ok_def free_blocks_def Let_def)
qed

end
