(* ===== verification/Blist_Copy.thy ===== *)
theory Blist_Copy
  imports Blist_Spec
begin

text \<open>
  Copying the free blocks of one tree into another, and \<open>blist_resize\<close>.
\<close>

definition copied :: "blist \<Rightarrow> nat set \<Rightarrow> blist \<Rightarrow> bool" where
  "copied dest A dest' \<longleftrightarrow> blist_ok dest' \<and> bl_blocks dest' = bl_blocks dest \<and> free_blocks dest' = free_blocks dest \<union> A"

lemma copied_refl: "blist_ok dest \<Longrightarrow> copied dest {} dest"
  by (simp add: copied_def)

lemma copied_trans: "copied dest A dest' \<Longrightarrow> copied dest' B dest'' \<Longrightarrow> copied dest (A \<union> B) dest''"
  by (auto simp: copied_def)

lemma copied_free:
  assumes "blist_ok dest" "1 \<le> count" "f + count \<le> unat (bl_blocks dest)" "{f..<f + count} \<inter> free_blocks dest = {}"
  shows "\<exists>dest'. blist_free (Some dest) (of_nat f) (of_nat count) = Ok (Some dest') \<and> copied dest {f..<f + count} dest'"
  using blist_free_spec [OF assms] by (auto simp: copied_def)

lemma shift_prefix: "(+) base ` {..<c} = {base..<base + c}" for base c :: nat
  using image_add_atLeastLessThan [of base 0 c] by (simp add: lessThan_atLeast0 add.commute)

lemma lbits_test: "v AND 2 ^ j \<noteq> 0 \<longleftrightarrow> j \<in> lbits v" if "j < 32" for v :: u32
proof -
  have "lbits (v AND 2 ^ j) = lbits v \<inter> {j}" using that by (simp add: lbits_one)
  then show ?thesis using lbits_empty [of "v AND 2 ^ j"] by auto
qed

lemma leaf_copy_spec:
  assumes "j + left = 32" "c \<le> 32" "base + c \<le> unat (bl_blocks dest)" "blist_ok dest" "{base + j..<base + c} \<inter> free_blocks dest = {}"
  shows "\<exists>dest'. leaf_copy left v (of_nat base) (of_nat c) j (Some dest) = Ok (Some dest') \<and> copied dest ((+) base ` (lbits v \<inter> {j..<c})) dest'"
  using assms
proof (induction left arbitrary: j dest)
  case 0
  then show ?case by (simp add: copied_refl)
next
  case (Suc left)
  have w: "(of_nat j :: u32) < of_nat c \<longleftrightarrow> j < c" using Suc.prems by (intro w_less) simp_all
  show ?case
  proof (cases "j < c")
    case False
    then show ?thesis using w Suc.prems(4) by (simp add: copied_refl)
  next
    case True
    let ?A = "if j \<in> lbits v then {base + j} else {}"
    obtain d where d: "(if v AND push_bit j 1 \<noteq> 0 then blist_free (Some dest) (of_nat base + of_nat j) 1 else Ok (Some dest)) = Ok (Some d)" "copied dest ?A d"
    proof (cases "j \<in> lbits v")
      case True
      have "base + j \<in> {base + j..<base + c}" using \<open>j < c\<close> by simp
      then have "base + j \<notin> free_blocks dest" using Suc.prems(5) by blast
      then have "\<exists>d. blist_free (Some dest) (of_nat (base + j)) (of_nat 1) = Ok (Some d) \<and> copied dest {base + j..<base + j + 1} d"
        using Suc.prems \<open>j < c\<close> by (intro copied_free) auto
      then show ?thesis using that True Suc.prems(1) lbits_test [of j v] by auto
    next
      case False
      then show ?thesis using that Suc.prems(1,4) lbits_test [of j v] copied_refl by auto
    qed
    have "{base + Suc j..<base + c} \<subseteq> {base + j..<base + c}" by auto
    then have "{base + Suc j..<base + c} \<inter> free_blocks dest = {}" using Suc.prems(5) by blast
    then have "{base + Suc j..<base + c} \<inter> free_blocks d = {}" using d(2) by (auto simp: copied_def split: if_splits)
    then obtain d' where d': "leaf_copy left v (of_nat base) (of_nat c) (Suc j) (Some d) = Ok (Some d')" "copied d ((+) base ` (lbits v \<inter> {Suc j..<c})) d'"
      using Suc.IH [of "Suc j" d] Suc.prems d(2) by (auto simp: copied_def)
    have "?A \<union> (+) base ` (lbits v \<inter> {Suc j..<c}) = (+) base ` (lbits v \<inter> {j..<c})"
      unfolding atLeastLessThanSuc_atLeastAtMost using True by (auto simp: image_iff Suc_le_eq order_le_less)
    then have "copied dest ((+) base ` (lbits v \<inter> {j..<c})) d'" using copied_trans [OF d(2) d'(2)] by simp
    then show ?thesis using d d'(1) w True by simp
  qed
qed

abbreviation copy_body :: "nat \<Rightarrow> nodes \<Rightarrow> nat \<Rightarrow> nat \<Rightarrow> blist option \<times> u32 \<times> u32 \<Rightarrow> ((blist option \<times> u32 \<times> u32) + (blist option \<times> u32 \<times> u32)) result" where
  "copy_body k mm b \<equiv> \<lambda>i (dest, blk, count).
     if count = 0 then Ok (Inl (dest, blk, count))
     else bind_r (node mm (b + i)) (\<lambda>ch.
       if bm_bighint ch = - 1 then Ok (Inl (dest, blk, count))
       else if of_nat (cover k) \<le> count
       then bind_r (blst_copy mm (b + i) blk (of_nat (cover k)) (slots k - 1) dest (of_nat (cover k))) (\<lambda>dest.
              Ok (Inr (dest, blk + of_nat (cover k), count - of_nat (cover k))))
       else bind_r (if count \<noteq> 0 then blst_copy mm (b + i) blk (of_nat (cover k)) (slots k - 1) dest count else Ok dest) (\<lambda>dest.
              Ok (Inr (dest, blk + of_nat (cover k), 0))))"

lemma copy_unfold:
  assumes "Suc k \<le> 6"
  shows "blst_copy mm b blk (of_nat (cover (Suc k))) (slots (Suc k) - 1) dest count =
     bind_r (node mm b) (\<lambda>sc.
       if bm_u sc = 0 then Ok dest
       else if bm_u sc = of_nat (cover (Suc k)) then blist_free dest blk (if count < of_nat (cover (Suc k)) then count else of_nat (cover (Suc k)))
       else bind_r (scan_loop (16 * slots k) (slots k) (copy_body k mm b) 1 (dest, blk, count)) (\<lambda>(dest, _). Ok dest))"
  using cover_leaf [OF assms] by (subst blst_copy.simps) (simp only: skp_Suc subradix [OF assms] Let_def nat.simps if_False)

lemma kids_prefix:
  assumes e: "expanded k m b n" and k: "Suc k \<le> 6" and i: "i < 16" "i * cover k < c" "c \<le> n"
  shows "kids k m b n \<inter> {..<min c (Suc i * cover k)} =
    kids k m b n \<inter> {..<i * cover k} \<union> (+) (i * cover k) ` (rfree k m (chl k b i) (sub k n i) \<inter> {..<sub k c i})" (is "?L = ?cover")
proof -
  have img: "y \<in> (+) (i * cover k) ` A \<longleftrightarrow> i * cover k \<le> y \<and> y - i * cover k \<in> A" for y A by (auto simp: image_iff intro: bexI [of _ "y - i * cover k"])
  have child: "y \<in> kids k m b n \<longleftrightarrow> y - i * cover k \<in> rfree k m (chl k b i) (sub k n i)" if "i * cover k \<le> y" "y < Suc i * cover k" for y
  proof -
    have d: "y div cover k = i" using that by (intro div_nat_eqI) (simp_all add: mult.commute)
    moreover have "y mod cover k = y - i * cover k" using d by (metis minus_div_mult_eq_mod)
    ultimately show ?thesis using i unfolding kids_iff [OF e k] by auto
  qed
  have "y \<in> ?L \<longleftrightarrow> y \<in> ?cover" for y
  proof (cases "y < i * cover k")
    case True
    then show ?thesis using i(2) unfolding Un_iff Int_iff img by auto
  next
    case False
    have "y < min c (Suc i * cover k) \<longleftrightarrow> y - i * cover k < sub k c i" using False i(2) by (auto simp: sub_def)
    then show ?thesis using False child [of y] i(2) unfolding Un_iff Int_iff img by (auto simp: sub_def)
  qed
  then show ?thesis by blast
qed

definition copy_loop :: "nat \<Rightarrow> nodes \<Rightarrow> nat \<Rightarrow> nat \<Rightarrow> nat \<Rightarrow> blist \<Rightarrow> nat \<Rightarrow> nat \<Rightarrow> blist option \<times> u32 \<times> u32 \<Rightarrow> bool" where
  "copy_loop k mm b n base dest c i s \<longleftrightarrow> (\<exists>d. s = (Some d, of_nat (base + i * cover k), of_nat (c - i * cover k)) \<and>
     copied dest ((+) base ` (kids k mm b n \<inter> {..<min c (i * cover k)})) d)"

lemma copy_round:
  assumes c: "c < 2 ^ 32" and k: "Suc k \<le> 6" and live: "i * cover k < c" and ch: "bm_bighint (mm ! chl k b i) \<noteq> - 1" "chl k b i < length mm"
    and cp: "blst_copy mm (chl k b i) (of_nat (base + i * cover k)) (of_nat (cover k)) (slots k - 1) (Some d1) (of_nat (sub k c i)) = Ok (Some d2)"
  shows "copy_body k mm b (1 + i * slots k) (Some d1, of_nat (base + i * cover k), of_nat (c - i * cover k)) =
    Ok (Inr (Some d2, of_nat (base + Suc i * cover k), of_nat (c - Suc i * cover k)))"
proof -
  have small: "c - i * cover k < 2 ^ 32" "cover k < 2 ^ 32" using c cover_bound [of k] k by simp_all
  have nz: "of_nat (c - i * cover k) \<noteq> (0 :: u32)" using w_eq [of "c - i * cover k" 0] small live by simp
  have bk: "of_nat (base + i * cover k) + of_nat (cover k) = (of_nat (base + Suc i * cover k) :: u32)" by simp
  show ?thesis
  proof (cases "cover k \<le> c - i * cover k")
    case True
    then have "sub k c i = cover k" "of_nat (cover k) \<le> (of_nat (c - i * cover k) :: u32)" using small w_less [of "c - i * cover k" "cover k"] by (auto simp: sub_def not_less [symmetric])
    moreover have "(of_nat (c - i * cover k) :: u32) - of_nat (cover k) = of_nat (c - Suc i * cover k)" using True by (subst w_diff) (simp_all add: add.commute)
    ultimately show ?thesis using cp nz ch bk by (simp add: node_Ok del: of_nat_add of_nat_mult mult_Suc)
  next
    case False
    then have "sub k c i = c - i * cover k" "\<not> of_nat (cover k) \<le> (of_nat (c - i * cover k) :: u32)" "c - Suc i * cover k = 0"
      using small w_less [of "c - i * cover k" "cover k"] by (auto simp: sub_def not_less [symmetric])
    then show ?thesis using cp nz ch bk by (simp add: node_Ok del: of_nat_add of_nat_mult mult_Suc)
  qed
qed

lemma copy_step:
  assumes IH: "\<And>b n base c dest. node_ok k mm b n \<Longrightarrow> n \<le> cover k \<Longrightarrow> base + cover k \<le> 2 ^ 30 \<Longrightarrow> 1 \<le> c \<Longrightarrow> c \<le> n \<Longrightarrow> blist_ok dest \<Longrightarrow>
      base + c \<le> unat (bl_blocks dest) \<Longrightarrow> {base..<base + c} \<inter> free_blocks dest = {} \<Longrightarrow>
      \<exists>d. blst_copy mm b (of_nat base) (of_nat (cover k)) (slots k - 1) (Some dest) (of_nat c) = Ok (Some d) \<and> copied dest ((+) base ` (rfree k mm b n \<inter> {..<c})) d"
    and e: "expanded k mm b n" and k: "Suc k \<le> 6" and n: "n \<le> cover (Suc k)" and base: "base + cover (Suc k) \<le> 2 ^ 30" and c: "1 \<le> c" "c \<le> n"
    and d: "blist_ok dest" "base + c \<le> unat (bl_blocks dest)" "{base..<base + c} \<inter> free_blocks dest = {}"
    and i: "i < 16" and P: "copy_loop k mm b n base dest c i s"
  shows "\<exists>x. copy_body k mm b (1 + i * slots k) s = Ok x \<and> (case x of
      Inl s' \<Rightarrow> \<exists>d' w. s' = (Some d', w) \<and> copied dest ((+) base ` (kids k mm b n \<inter> {..<c})) d'
    | Inr s' \<Rightarrow> copy_loop k mm b n base dest c (Suc i) s')"
proof -
  obtain d1 where s: "s = (Some d1, of_nat (base + i * cover k), of_nat (c - i * cover k))" and d1: "copied dest ((+) base ` (kids k mm b n \<inter> {..<min c (i * cover k)})) d1"
    using P by (auto simp: copy_loop_def)
  show ?thesis
  proof (cases "i * cover k < c")
    case False
    then show ?thesis using s d1 by (intro exI [of _ "Inl s"]) (auto simp: min_absorb1)
  next
    case True
    let ?c = "sub k c i"
    have in_: "i * cover k < n" using True c by simp
    note ch = expanded_child [OF e i in_]
    have c': "1 \<le> ?c" "?c \<le> sub k n i" "i * cover k + ?c \<le> c" using True c cover_pos [of k] by (auto simp: sub_def Suc_le_eq)
    have b': "base + i * cover k + cover k \<le> 2 ^ 30" using base child_end [OF i, of k] by linarith
    have dj: "{base + i * cover k..<base + i * cover k + ?c} \<inter> free_blocks d1 = {}"
    proof -
      have "{base + i * cover k..<base + i * cover k + ?c} \<subseteq> {base..<base + c}" using c' by auto
      then have "{base + i * cover k..<base + i * cover k + ?c} \<inter> free_blocks dest = {}" using d(3) by blast
      moreover have "{base + i * cover k..<base + i * cover k + ?c} \<inter> (+) base ` (kids k mm b n \<inter> {..<min c (i * cover k)}) = {}" by auto
      ultimately show ?thesis using d1 by (auto simp: copied_def)
    qed
    have bd: "blist_ok d1" "base + i * cover k + ?c \<le> unat (bl_blocks d1)" using d1 d(2) c' by (auto simp: copied_def)
    obtain d2 where d2: "blst_copy mm (chl k b i) (of_nat (base + i * cover k)) (of_nat (cover k)) (slots k - 1) (Some d1) (of_nat ?c) = Ok (Some d2)"
      "copied d1 ((+) (base + i * cover k) ` (rfree k mm (chl k b i) (sub k n i) \<inter> {..<?c})) d2"
      using IH [OF ch(1) sub_le b' c'(1,2) bd dj] by blast
    have "copied dest ((+) base ` (kids k mm b n \<inter> {..<min c (Suc i * cover k)})) d2"
      using copied_trans [OF d1 d2(2)] unfolding kids_prefix [OF e k i True c(2)] image_Un image_image add.assoc min_absorb2 [OF less_imp_le [OF True]] .
    moreover have "copy_body k mm b (1 + i * slots k) s = Ok (Inr (Some d2, of_nat (base + Suc i * cover k), of_nat (c - Suc i * cover k)))"
      unfolding s using c n cover_bound [OF k] by (intro copy_round [OF _ k True ch(2,3) d2(1)]) simp
    ultimately show ?thesis by (intro exI [of _ "Inr (Some d2, of_nat (base + Suc i * cover k), of_nat (c - Suc i * cover k))"]) (auto simp: copy_loop_def simp del: mult_Suc of_nat_add)
  qed
qed

lemma copy_leaf:
  assumes ok: "node_ok 0 mm b n" and n: "n \<le> 32" and c: "1 \<le> c" "c \<le> n"
    and d: "blist_ok dest" "base + c \<le> unat (bl_blocks dest)" "{base..<base + c} \<inter> free_blocks dest = {}"
  shows "\<exists>d. blst_copy mm b (of_nat base) 32 0 (Some dest) (of_nat c) = Ok (Some d) \<and> copied dest ((+) base ` (rfree 0 mm b n \<inter> {..<c})) d"
proof -
  have b: "b < length mm" "lbits (bm_u (mm ! b)) \<subseteq> {..<n}" using ok by (simp_all add: node_ok_def)
  have c32: "c \<le> 32" using c n by simp
  consider "bm_u (mm ! b) = - 1" | "bm_u (mm ! b) = 0" | "bm_u (mm ! b) \<noteq> - 1" "bm_u (mm ! b) \<noteq> 0" by blast
  then show ?thesis
  proof cases
    case 1
    have "rfree 0 mm b n \<inter> {..<c} = {..<c}" using 1 c32 by auto
    then have "(+) base ` (rfree 0 mm b n \<inter> {..<c}) = {base..<base + c}" by (simp only: shift_prefix)
    then show ?thesis using copied_free [OF d(1) c(1) d(2,3)] 1 b by (subst blst_copy.simps) (simp add: node_Ok)
  next
    case 2
    then show ?thesis using copied_refl [OF d(1)] b by (subst blst_copy.simps) (simp add: node_Ok)
  next
    case 3
    have "{..<c} = {0..<c}" by auto
    then show ?thesis using leaf_copy_spec [of 0 32 c base dest "bm_u (mm ! b)"] d c32 3 b by (subst blst_copy.simps) (simp add: node_Ok)
  qed
qed

theorem copy_spec:
  assumes "k \<le> 6" "node_ok k mm b n" "n \<le> cover k" "base + cover k \<le> 2 ^ 30" "1 \<le> c" "c \<le> n" "blist_ok dest"
    "base + c \<le> unat (bl_blocks dest)" "{base..<base + c} \<inter> free_blocks dest = {}"
  shows "\<exists>d. blst_copy mm b (of_nat base) (of_nat (cover k)) (slots k - 1) (Some dest) (of_nat c) = Ok (Some d) \<and> copied dest ((+) base ` (rfree k mm b n \<inter> {..<c})) d"
  using assms
proof (induction k arbitrary: b n base c dest)
  case 0
  then show ?case using copy_leaf [of mm b n c dest base] by simp
next
  case (Suc k)
  note k = Suc.prems(1) and ok = Suc.prems(2) and n = Suc.prems(3) and base = Suc.prems(4) and c = Suc.prems(5,6) and d = Suc.prems(7-9)
  have b: "b < length mm" using ok by (simp add: node_ok_def)
  consider (none) "bm_u (mm ! b) = 0" | (full) "bm_u (mm ! b) = of_nat (cover (Suc k))" "bm_u (mm ! b) \<noteq> 0"
    | (part) "bm_u (mm ! b) \<noteq> 0" "bm_u (mm ! b) \<noteq> of_nat (cover (Suc k))" by blast
  then show ?case
  proof cases
    case none
    then show ?thesis using copied_refl [OF d(1)] b by (simp add: copy_unfold [OF k] node_Ok del: slots.simps skp_Suc One_nat_def)
  next
    case full
    have "(if of_nat c < (of_nat (cover (Suc k)) :: u32) then of_nat c else of_nat (cover (Suc k))) = (of_nat c :: u32)"
      using c n cover_bound [OF k] by (subst w_less) (auto intro!: arg_cong [of _ _ of_nat])
    moreover have "rfree (Suc k) mm b n \<inter> {..<c} = {..<c}" unfolding rfree_Suc using full c n by auto
    then have "(+) base ` (rfree (Suc k) mm b n \<inter> {..<c}) = {base..<base + c}" by (simp only: shift_prefix)
    ultimately show ?thesis using copied_free [OF d(1) c(1) d(2,3)] full b by (simp add: copy_unfold [OF k] node_Ok del: slots.simps skp_Suc One_nat_def rfree.simps)
  next
    case part
    note e = node_expanded [OF ok part]
    have IH: "node_ok k mm b n \<Longrightarrow> n \<le> cover k \<Longrightarrow> base + cover k \<le> 2 ^ 30 \<Longrightarrow> 1 \<le> c \<Longrightarrow> c \<le> n \<Longrightarrow> blist_ok dest \<Longrightarrow>
      base + c \<le> unat (bl_blocks dest) \<Longrightarrow> {base..<base + c} \<inter> free_blocks dest = {} \<Longrightarrow>
      \<exists>d. blst_copy mm b (of_nat base) (of_nat (cover k)) (slots k - 1) (Some dest) (of_nat c) = Ok (Some d) \<and> copied dest ((+) base ` (rfree k mm b n \<inter> {..<c})) d"
      for b n base c dest using Suc.IH k by simp
    let ?Q = "\<lambda>s'. \<exists>d' w. s' = (Some d', w) \<and> copied dest ((+) base ` (kids k mm b n \<inter> {..<c})) d'"
    have "\<exists>s'. scan_loop (16 * slots k) (slots k) (copy_body k mm b) (1 + 0 * slots k) (Some dest, of_nat base, of_nat c) = Ok s' \<and> ?Q s'"
    proof (rule scan_rule [where P = "copy_loop k mm b n base dest c"])
      show "copy_loop k mm b n base dest c 0 (Some dest, of_nat base, of_nat c)" using copied_refl [OF d(1)] by (simp add: copy_loop_def)
      show "\<exists>x. copy_body k mm b (1 + i * slots k) s = Ok x \<and> (case x of Inl s' \<Rightarrow> ?Q s' | Inr s' \<Rightarrow> copy_loop k mm b n base dest c (Suc i) s')"
        if "i < 16" "copy_loop k mm b n base dest c i s" for i s by (rule copy_step [OF IH e(1) k n base c d that])
      have "min c (16 * cover k) = c" using c n by (simp add: cover_Suc)
      then show "?Q s" if "copy_loop k mm b n base dest c 16 s" for s using that by (auto simp: copy_loop_def)
    qed simp
    then show ?thesis using part b unfolding e(2) by (auto simp: copy_unfold [OF k] node_Ok simp del: slots.simps skp_Suc One_nat_def)
  qed
qed

lemma blist_resize_spec:
  assumes ok: "blist_ok bl" and c: "0 < count" "count \<le> 2 ^ 29"
  shows "\<exists>new. blist_resize junk bl (of_nat count) freenew = Ok (Some new) \<and> blist_ok new \<and> unat (bl_blocks new) = count \<and>
    free_blocks new = free_blocks bl \<inter> {..<count} \<union> (if freenew then {unat (bl_blocks bl)..<count} else {})"
proof -
  obtain k n where k: "k \<le> 6" "bl_skip bl = slots k - 1" "bl_radix bl = of_nat (cover k)" and n: "bl_blocks bl = of_nat n" "unat (bl_blocks bl) = n" "0 < n" "n \<le> cover k"
    and t: "node_ok k (bl_root bl) 0 n" "free_blocks bl = rfree k (bl_root bl) 0 n"
    using ok by (elim blist_okE)
  obtain nb where nb: "blist_create junk (of_nat count) = Ok nb" "blist_ok nb" "bl_blocks nb = of_nat count" "free_blocks nb = {}"
    using blist_create_spec [OF c] by blast
  have u: "unat (of_nat count :: u32) = count" using c by (simp add: unat_of_nat)
  have n29: "n \<le> 2 ^ 29" using n cover_bound [OF k(1)] by simp
  let ?c = "min count n"
  have cw: "(if bl_blocks bl < of_nat count then bl_blocks bl else of_nat count) = (of_nat ?c :: u32)"
    unfolding n(1) using c n29 by (subst w_less) auto
  have base30: "0 + cover k \<le> 2 ^ 30" using cover_bound [OF k(1)] by simp
  obtain d where d: "blst_copy (bl_root bl) 0 0 (of_nat (cover k)) (slots k - 1) (Some nb) (of_nat ?c) = Ok (Some d)"
    "copied nb (free_blocks bl \<inter> {..<?c}) d"
    using copy_spec [OF k(1) t(1) n(4) base30, of ?c nb] c n(3) nb u unfolding t(2) by auto
  have sub: "free_blocks bl \<inter> {..<?c} = free_blocks bl \<inter> {..<count}" using free_blocks_bound(1) [OF ok] n(2) by auto
  have dd: "blist_ok d" "unat (bl_blocks d) = count" "free_blocks d = free_blocks bl \<inter> {..<count}" using d(2) nb u sub by (auto simp: copied_def)
  have un: "blist_resize junk bl (of_nat count) freenew =
    (if freenew \<and> of_nat ?c < bl_blocks nb then blist_free (Some d) (of_nat ?c) (bl_blocks nb - of_nat ?c) else Ok (Some d))"
    unfolding blist_resize_def nb(1) bind_r.simps cw Let_def k using d(1) by simp
  have lt: "of_nat ?c < bl_blocks nb \<longleftrightarrow> n < count" unfolding nb(3) using c n29 by (subst w_less) auto
  show ?thesis
  proof (cases "freenew \<and> n < count")
    case True
    have dj: "{n..<n + (count - n)} \<inter> free_blocks d = {}" using free_blocks_bound(1) [OF ok] unfolding dd(3) n(2) by auto
    have c1: "1 \<le> count - n" using True by linarith
    obtain e where e: "blist_free (Some d) (of_nat n) (of_nat (count - n)) = Ok (Some e)" "blist_ok e" "bl_blocks e = bl_blocks d"
      "free_blocks e = free_blocks d \<union> {n..<n + (count - n)}"
      using blist_free_spec [OF dd(1) c1 _ dj] True dd(2) by auto
    have "bl_blocks nb - of_nat ?c = of_nat (count - n)" "?c = n" unfolding nb(3) using True by (auto simp: min_absorb2)
    then have "blist_resize junk bl (of_nat count) freenew = Ok (Some e)" using un lt True e(1) by (simp only: if_True simp_thms)
    then show ?thesis using e dd True n(2) by (intro exI [of _ e]) simp
  next
    case False
    then have "blist_resize junk bl (of_nat count) freenew = Ok (Some d)" unfolding un lt by (simp only: if_False)
    moreover have "(if freenew then {unat (bl_blocks bl)..<count} else {}) = {}" using False n(2) by auto
    ultimately show ?thesis using dd by (intro exI [of _ d]) (simp only: Un_empty_right)
  qed
qed

end
