(* ===== verification/Blist_Props.thy ===== *)
theory Blist_Props
  imports Blist_Copy
begin

text \<open>
  The contract of a pool of blocks, its interpretation on the swap allocator, and the properties of the allocator.
\<close>

lemma blist_ok_free: "blist_ok bl \<Longrightarrow> bl_free bl = of_nat (card (free_blocks bl))"
  by (elim blist_okE)

section \<open>The contract of the allocator\<close>

text \<open>
  A pool of blocks: \<open>acquire\<close> takes a run of at most 32 blocks, \<open>release\<close> gives a range back. A single block is found
  whenever there is one.
\<close>

locale block_pool =
  fixes good :: "'a \<Rightarrow> bool" and extent_of :: "'a \<Rightarrow> nat" and free_of :: "'a \<Rightarrow> nat set"
    and acquire :: "'a option \<Rightarrow> u32 \<Rightarrow> ('a option \<times> u32) result"
    and release :: "'a option \<Rightarrow> u32 \<Rightarrow> u32 \<Rightarrow> 'a option result"
  assumes range_law: "good p \<Longrightarrow> free_of p \<subseteq> {..<extent_of p} \<and> extent_of p \<le> 2 ^ 29"
    and acquire_law: "good p \<Longrightarrow> 1 \<le> unat n \<Longrightarrow> unat n \<le> 32 \<Longrightarrow>
      \<exists>p' r. acquire (Some p) n = Ok (Some p', r) \<and> good p' \<and> extent_of p' = extent_of p \<and>
        (r = BLIST_NONE \<and> free_of p' = free_of p \<and> (unat n = 1 \<longrightarrow> free_of p = {}) \<or>
         r \<noteq> BLIST_NONE \<and> {unat r..<unat r + unat n} \<subseteq> free_of p \<and> free_of p' = free_of p - {unat r..<unat r + unat n})"
    and release_law: "good p \<Longrightarrow> 1 \<le> unat n \<Longrightarrow> unat f + unat n \<le> extent_of p \<Longrightarrow> {unat f..<unat f + unat n} \<inter> free_of p = {} \<Longrightarrow>
      \<exists>p'. release (Some p) f n = Ok (Some p') \<and> good p' \<and> extent_of p' = extent_of p \<and> free_of p' = free_of p \<union> {unat f..<unat f + unat n}"
begin

lemma acquired:
  assumes "good p" "1 \<le> unat n" "unat n \<le> 32" "acquire (Some p) n = Ok (Some p', r)" "r \<noteq> BLIST_NONE"
  shows "good p'" "extent_of p' = extent_of p" "{unat r..<unat r + unat n} \<subseteq> free_of p" "free_of p' = free_of p - {unat r..<unat r + unat n}"
  using acquire_law [OF assms(1-3)] assms(4,5) by auto

lemma acquire_release:
  assumes "good p" "1 \<le> unat n" "unat n \<le> 32" "acquire (Some p) n = Ok (Some p', r)" "r \<noteq> BLIST_NONE"
  shows "\<exists>p''. release (Some p') r n = Ok (Some p'') \<and> good p'' \<and> free_of p'' = free_of p"
proof -
  note a = acquired [OF assms]
  have "unat r + unat n - 1 \<in> {unat r..<unat r + unat n}" using assms(2) by simp
  then have "unat r + unat n - 1 < extent_of p" using a(3) range_law [OF assms(1)] by blast
  then have "unat r + unat n \<le> extent_of p'" using a(2) by linarith
  from release_law [OF a(1) assms(2) this] show ?thesis using a(3,4) by auto
qed

lemma acquire_disjoint:
  assumes "good p" "1 \<le> unat n" "unat n \<le> 32" "acquire (Some p) n = Ok (Some p', r)" "r \<noteq> BLIST_NONE"
    and "1 \<le> unat m" "unat m \<le> 32" "acquire (Some p') m = Ok (Some p'', s)" "s \<noteq> BLIST_NONE"
  shows "{unat r..<unat r + unat n} \<inter> {unat s..<unat s + unat m} = {}"
proof -
  note a = acquired [OF assms(1-5)]
  show ?thesis using acquired(3) [OF a(1) assms(6-9)] a(4) by blast
qed

lemma acquire_one:
  assumes "good p" "free_of p \<noteq> {}"
  shows "\<exists>p' r. acquire (Some p) 1 = Ok (Some p', r) \<and> r \<noteq> BLIST_NONE \<and> good p' \<and> unat r \<in> free_of p \<and> free_of p' = free_of p - {unat r}"
  using acquire_law [OF assms(1), of 1] assms(2) by auto

end

primrec acquire_many :: "('a option \<Rightarrow> u32 \<Rightarrow> ('a option \<times> u32) result) \<Rightarrow> nat \<Rightarrow> 'a option \<Rightarrow> ('a option \<times> u32 list) result" where
  "acquire_many acq 0 p = Ok (p, [])"
| "acquire_many acq (Suc n) p = bind_r (acq p 1) (\<lambda>(p, r). bind_r (acquire_many acq n p) (\<lambda>(p, rs). Ok (p, r # rs)))"

context block_pool begin

lemma acquire_all:
  assumes "good p" "card (free_of p) = n"
  shows "\<exists>p' rs. acquire_many acquire n (Some p) = Ok (Some p', rs) \<and> good p' \<and> free_of p' = {} \<and> distinct rs \<and> unat ` set rs = free_of p
    \<and> BLIST_NONE \<notin> set rs"
  using assms
proof (induction n arbitrary: p)
  case 0
  have "finite (free_of p)" using range_law [OF 0(1)] finite_subset by blast
  then show ?case using 0 by simp
next
  case (Suc n)
  then have "free_of p \<noteq> {}" by auto
  then obtain p1 r where r: "acquire (Some p) 1 = Ok (Some p1, r)" "r \<noteq> BLIST_NONE" "good p1" "unat r \<in> free_of p" "free_of p1 = free_of p - {unat r}"
    using acquire_one [OF Suc.prems(1)] by blast
  have "card (free_of p1) = n" using r(4,5) Suc.prems(2) by simp
  then obtain p' rs where rs: "acquire_many acquire n (Some p1) = Ok (Some p', rs)" "good p'" "free_of p' = {}" "distinct rs" "unat ` set rs = free_of p1"
    "BLIST_NONE \<notin> set rs" using Suc.IH [OF r(3)] by blast
  have "r \<notin> set rs" using rs(5) r(5) by auto
  then show ?case using r rs by auto
qed

end

interpretation swap: block_pool blist_ok "\<lambda>bl. unat (bl_blocks bl)" free_blocks blist_alloc blist_free
proof unfold_locales
  fix bl and n f :: u32
  assume ok: "blist_ok bl"
  show "free_blocks bl \<subseteq> {..<unat (bl_blocks bl)} \<and> unat (bl_blocks bl) \<le> 2 ^ 29"
    using free_blocks_bound(1) [OF ok] blist_ok_blocks [OF ok] by blast
  assume n: "1 \<le> unat n"
  show "unat n \<le> 32 \<Longrightarrow> \<exists>bl' r. blist_alloc (Some bl) n = Ok (Some bl', r) \<and> blist_ok bl' \<and> unat (bl_blocks bl') = unat (bl_blocks bl) \<and>
        (r = BLIST_NONE \<and> free_blocks bl' = free_blocks bl \<and> (unat n = 1 \<longrightarrow> free_blocks bl = {}) \<or>
         r \<noteq> BLIST_NONE \<and> {unat r..<unat r + unat n} \<subseteq> free_blocks bl \<and> free_blocks bl' = free_blocks bl - {unat r..<unat r + unat n})"
    using blist_alloc_spec [OF ok n] by metis
  show "unat f + unat n \<le> unat (bl_blocks bl) \<Longrightarrow> {unat f..<unat f + unat n} \<inter> free_blocks bl = {} \<Longrightarrow>
      \<exists>bl'. blist_free (Some bl) f n = Ok (Some bl') \<and> blist_ok bl' \<and> unat (bl_blocks bl') = unat (bl_blocks bl) \<and>
        free_blocks bl' = free_blocks bl \<union> {unat f..<unat f + unat n}"
    using blist_free_spec [OF ok n, of "unat f"] by fastforce
qed

section \<open>Samples\<close>

definition blank :: "nat \<Rightarrow> blmeta" where
  "blank i = \<lparr>bm_u = 0, bm_bighint = 0\<rparr>"

lemma sample_free:
  assumes "0 < n" "n \<le> 2 ^ 29"
  shows "\<exists>bl. blist_ok bl \<and> bl_blocks bl = of_nat n \<and> free_blocks bl = {..<n}"
proof -
  obtain b0 where b0: "blist_ok b0" "bl_blocks b0 = of_nat n" "free_blocks b0 = {}"
    using blist_create_spec [OF assms, of blank] by blast
  have "unat (bl_blocks b0) = n" unfolding b0(2) using assms by (simp add: unat_of_nat)
  then show ?thesis using blist_free_spec [OF b0(1), of n 0] b0 assms by (auto simp: lessThan_atLeast0)
qed

lemma sample_512: "\<exists>bl. blist_ok bl \<and> bl_blocks bl = 512 \<and> free_blocks bl = {} \<and> bl_radix bl = 512"
proof -
  obtain bl where bl: "blist_create blank 512 = Ok bl" "blist_ok bl" "bl_blocks bl = 512" "free_blocks bl = {}"
    using blist_create_spec [of 512 blank] by auto
  have "radix_for 512 32 0 = Ok (512, 16)" by (simp add: radix_for.simps)
  then have "bl_radix bl = 512" using bl(1) by (auto simp: blist_create_def bind_r_eq_Ok)
  then show ?thesis using bl by blast
qed

section \<open>Properties\<close>

text \<open>
  C31. \<open>blist_create\<close> of 1 to \<open>2 ^ 29\<close> blocks returns a consistent list that covers the blocks, all of them allocated,
  whatever was in the memory it was given; for more blocks the radix wraps to 0 and the call does not return.
\<close>

theorem blist_create_exact:
  assumes "0 < blocks"
  shows "if unat blocks \<le> 2 ^ 29
    then \<exists>bl. blist_create junk blocks = Ok bl \<and> blist_ok bl \<and> bl_blocks bl = blocks \<and> bl_free bl = 0 \<and> free_blocks bl = {}
    else blist_create junk blocks = Hang"
proof -
  have u: "0 < unat blocks" "(of_nat (unat blocks) :: u32) = blocks" using assms by (simp_all add: unat_gt_0)
  show ?thesis
  proof (cases "unat blocks \<le> 2 ^ 29")
    case True
    then show ?thesis using blist_create_spec [OF u(1) True, of junk] blist_ok_free unfolding u(2) by fastforce
  next
    case False
    then show ?thesis using radix_for_large [of 0 blocks 0] by (simp add: blist_create_def)
  qed
qed

theorem blist_create_exact_witness:
  "(\<exists>bl. blist_create blank 1000 = Ok bl \<and> blist_ok bl \<and> bl_blocks bl = 1000 \<and> free_blocks bl = {})
   \<and> blist_create blank 0x20000001 = Hang"
  using blist_create_exact [of 1000 blank] blist_create_exact [of "0x20000001" blank] by auto

text \<open>
  C5. \<open>blist_alloc\<close> of 1 to 32 blocks on a consistent list returns and leaves it consistent. A block number means that the run
  was free and that exactly it has been taken; BLIST_NONE means that nothing has changed, and for a single block that no
  block is free.
\<close>

theorem blist_alloc_exact:
  assumes "blist_ok bl" "1 \<le> unat count" "unat count \<le> 32"
  shows "\<exists>bl' r. blist_alloc (Some bl) count = Ok (Some bl', r) \<and> blist_ok bl' \<and> bl_blocks bl' = bl_blocks bl \<and>
    (r = BLIST_NONE \<and> free_blocks bl' = free_blocks bl \<and> (unat count = 1 \<longrightarrow> free_blocks bl = {}) \<or>
     r \<noteq> BLIST_NONE \<and> {unat r..<unat r + unat count} \<subseteq> free_blocks bl \<and> free_blocks bl' = free_blocks bl - {unat r..<unat r + unat count})"
  by (rule blist_alloc_spec [OF assms])

theorem blist_alloc_exact_witness:
  "\<exists>bl bl' r. free_blocks bl = {..<600} \<and> blist_alloc (Some bl) 1 = Ok (Some bl', r) \<and> r \<noteq> BLIST_NONE \<and> blist_ok bl' \<and>
     unat r < 600 \<and> free_blocks bl' = {..<600} - {unat r}"
proof -
  obtain bl where bl: "blist_ok bl" "free_blocks bl = {..<600}" using sample_free [of 600] by auto
  then show ?thesis using blist_alloc_exact [OF bl(1), of 1] by (auto simp: lessThan_empty_iff)
qed

text \<open>
  C10. \<open>blist_free\<close> of an allocated range of any length, across any number of nodes, returns, adds exactly the range to the free
  blocks and its length to the count of free blocks, and leaves the list consistent.
\<close>

theorem blist_free_exact:
  assumes "blist_ok bl" "1 \<le> unat count" "unat blkno + unat count \<le> unat (bl_blocks bl)"
    "{unat blkno..<unat blkno + unat count} \<inter> free_blocks bl = {}"
  shows "\<exists>bl'. blist_free (Some bl) blkno count = Ok (Some bl') \<and> blist_ok bl' \<and> bl_blocks bl' = bl_blocks bl \<and>
    bl_free bl' = bl_free bl + count \<and> free_blocks bl' = free_blocks bl \<union> {unat blkno..<unat blkno + unat count}"
proof -
  obtain bl' where b: "blist_free (Some bl) blkno count = Ok (Some bl')" "blist_ok bl'" "bl_blocks bl' = bl_blocks bl"
    "free_blocks bl' = free_blocks bl \<union> {unat blkno..<unat blkno + unat count}"
    using blist_free_spec [OF assms] by auto
  then have "bl_free bl' = bl_free bl + count" by (auto simp: blist_free_def bind_r_eq_Ok)
  then show ?thesis using b by blast
qed

theorem blist_free_exact_witness:
  "\<exists>bl bl'. free_blocks bl = {} \<and> blist_free (Some bl) 30 500 = Ok (Some bl') \<and> blist_ok bl' \<and> free_blocks bl' = {30..<530}"
proof -
  obtain bl where bl: "blist_ok bl" "bl_blocks bl = 1000" "free_blocks bl = {}" using blist_create_spec [of 1000 blank] by auto
  then show ?thesis using blist_free_exact [OF bl(1), of 500 30] by auto
qed

text \<open>
  C25. \<open>blist_fill\<close> of a range returns, makes exactly the range allocated whatever was free in it, and its result is the number
  of blocks of the range that were free.
\<close>

theorem blist_fill_exact:
  assumes "blist_ok bl" "1 \<le> unat count" "unat blkno + unat count \<le> unat (bl_blocks bl)"
  shows "\<exists>bl' v. blist_fill (Some bl) blkno count = Ok (Some bl', v) \<and> unat v = card (free_blocks bl \<inter> {unat blkno..<unat blkno + unat count}) \<and>
    blist_ok bl' \<and> bl_blocks bl' = bl_blocks bl \<and> free_blocks bl' = free_blocks bl - {unat blkno..<unat blkno + unat count}"
proof -
  let ?A = "free_blocks bl \<inter> {unat blkno..<unat blkno + unat count}"
  have "card ?A \<le> unat count" using card_mono [of "{unat blkno..<unat blkno + unat count}" ?A] by simp
  also have "\<dots> \<le> 2 ^ 29" using assms(3) blist_ok_blocks [OF assms(1)] by linarith
  finally have "unat (of_nat (card ?A) :: u32) = card ?A" by (simp add: unat_of_nat)
  then show ?thesis using blist_fill_spec [OF assms] by auto
qed

theorem blist_fill_exact_witness:
  "\<exists>bl bl' v. free_blocks bl = {..<600} \<and> blist_fill (Some bl) 100 400 = Ok (Some bl', v) \<and> unat v = 400 \<and> free_blocks bl' = {..<600} - {100..<500}"
proof -
  obtain bl where bl: "blist_ok bl" "bl_blocks bl = 600" "free_blocks bl = {..<600}" using sample_free [of 600] by auto
  have "{..<600} \<inter> {100..<500} = {100..<500::nat}" by auto
  then show ?thesis using blist_fill_exact [OF bl(1), of 400 100] bl by auto
qed

text \<open>
  C15. \<open>blist_resize\<close> to 1 to \<open>2 ^ 29\<close> blocks returns a consistent list of that size with exactly the free blocks of the old one
  below the new size, and with the new blocks when it is told to free them.
\<close>

theorem blist_resize_exact:
  assumes "blist_ok bl" "0 < count" "unat count \<le> 2 ^ 29"
  shows "\<exists>new. blist_resize junk bl count freenew = Ok (Some new) \<and> blist_ok new \<and> bl_blocks new = count \<and>
    free_blocks new = free_blocks bl \<inter> {..<unat count} \<union> (if freenew then {unat (bl_blocks bl)..<unat count} else {})"
proof -
  have "0 < unat count" using assms(2) by (simp add: unat_gt_0)
  from blist_resize_spec [OF assms(1) this assms(3), of junk freenew] show ?thesis unfolding word_unat_eq_iff [of _ count] by simp
qed

theorem blist_resize_exact_witness:
  "\<exists>bl new. free_blocks bl = {..<600} \<and> blist_resize blank bl 5000 True = Ok (Some new) \<and> blist_ok new \<and> free_blocks new = {..<5000}"
proof -
  obtain bl where bl: "blist_ok bl" "bl_blocks bl = 600" "free_blocks bl = {..<600}" using sample_free [of 600] by auto
  have "{..<600} \<inter> {..<5000} \<union> {600..<5000} = {..<5000::nat}" by auto
  then show ?thesis using blist_resize_exact [OF bl(1), of 5000 blank True] bl by auto
qed

text \<open>
  Freeing what \<open>blist_alloc\<close> returned restores the set of free blocks, and two allocations after one another never overlap.
\<close>

theorem blist_alloc_release:
  assumes "blist_ok bl" "1 \<le> unat count" "unat count \<le> 32" "blist_alloc (Some bl) count = Ok (Some bl', r)" "r \<noteq> BLIST_NONE"
  shows "(\<exists>bl''. blist_free (Some bl') r count = Ok (Some bl'') \<and> blist_ok bl'' \<and> free_blocks bl'' = free_blocks bl) \<and>
    (\<forall>n bl'' s. 1 \<le> unat n \<and> unat n \<le> 32 \<and> blist_alloc (Some bl') n = Ok (Some bl'', s) \<and> s \<noteq> BLIST_NONE \<longrightarrow>
      {unat r..<unat r + unat count} \<inter> {unat s..<unat s + unat n} = {})"
  using swap.acquire_release [OF assms] swap.acquire_disjoint [OF assms] by blast

theorem blist_alloc_release_witness:
  "\<exists>bl bl' r bl''. free_blocks bl = {..<600} \<and> blist_alloc (Some bl) 1 = Ok (Some bl', r) \<and> r \<noteq> BLIST_NONE \<and>
     blist_free (Some bl') r 1 = Ok (Some bl'') \<and> free_blocks bl'' = {..<600}"
proof -
  obtain bl where bl: "blist_ok bl" "free_blocks bl = {..<600}" using sample_free [of 600] by auto
  obtain bl' r where r: "blist_alloc (Some bl) 1 = Ok (Some bl', r)" "r \<noteq> BLIST_NONE"
    using swap.acquire_one [OF bl(1)] bl(2) by (auto simp: lessThan_empty_iff)
  show ?thesis using blist_alloc_release [OF bl(1) _ _ r] bl r by auto
qed

text \<open>
  C18. Single-block allocations find every free block: as many calls as there are free blocks all succeed and return each of
  them once, and the next call returns BLIST_NONE.
\<close>

theorem blist_alloc_exhausts:
  assumes "blist_ok bl"
  shows "\<exists>bl' rs. acquire_many blist_alloc (card (free_blocks bl)) (Some bl) = Ok (Some bl', rs) \<and> distinct rs \<and> unat ` set rs = free_blocks bl \<and>
    BLIST_NONE \<notin> set rs \<and> free_blocks bl' = {} \<and> (\<exists>bl''. blist_alloc (Some bl') 1 = Ok (Some bl'', BLIST_NONE))"
proof -
  obtain bl' rs where r: "acquire_many blist_alloc (card (free_blocks bl)) (Some bl) = Ok (Some bl', rs)" "blist_ok bl'" "free_blocks bl' = {}"
    "distinct rs" "unat ` set rs = free_blocks bl" "BLIST_NONE \<notin> set rs"
    using swap.acquire_all [OF assms refl] by blast
  moreover have "\<exists>bl''. blist_alloc (Some bl') 1 = Ok (Some bl'', BLIST_NONE)" using blist_alloc_spec [OF r(2), of 1] r(3) by auto
  ultimately show ?thesis by blast
qed

theorem blist_alloc_exhausts_witness:
  "\<exists>bl bl' rs. free_blocks bl = {..<600} \<and> acquire_many blist_alloc 600 (Some bl) = Ok (Some bl', rs) \<and> distinct rs \<and> unat ` set rs = {..<600}"
proof -
  obtain bl where bl: "blist_ok bl" "free_blocks bl = {..<600}" using sample_free [of 600] by auto
  then show ?thesis using blist_alloc_exhausts [OF bl(1)] by auto
qed

text \<open>
  C36. \<open>blist_free\<close> checks the amount of space before the blocks. In a consistent list that fills its radix tree, has more than 32 blocks
  and at least one free, a call whose count is the number of blocks in use succeeds whatever block number it is given, also one
  of blocks that are free already. The list is consistent afterwards and all its blocks are free: as many single-block allocations
  as it has blocks then hand out every block, those in use too.
\<close>

theorem blist_free_unchecked:
  assumes "blist_ok bl" "32 < bl_blocks bl" "free_blocks bl \<noteq> {}" "bl_free bl + count = bl_radix bl" "bl_blocks bl = bl_radix bl"
  shows "\<exists>bl' bl'' rs. blist_free (Some bl) blkno count = Ok (Some bl') \<and> blist_ok bl' \<and>
    acquire_many blist_alloc (unat (bl_blocks bl)) (Some bl') = Ok (Some bl'', rs) \<and> BLIST_NONE \<notin> set rs \<and>
    distinct rs \<and> unat ` set rs = {..<unat (bl_blocks bl)}"
proof -
  obtain bl' where b: "blist_free (Some bl) blkno count = Ok (Some bl')" "blist_ok bl'" "free_blocks bl' = {..<unat (bl_blocks bl)}"
    using blist_free_total [OF assms] by blast
  have "card (free_blocks bl') = unat (bl_blocks bl)" by (simp add: b(3))
  from swap.acquire_all [OF b(2) this] b show ?thesis by auto
qed

theorem blist_free_unchecked_witness:
  "\<exists>bl bl' bl'' rs. blist_ok bl \<and> bl_blocks bl = 512 \<and> free_blocks bl = {..<256} \<and> blist_free (Some bl) 0 256 = Ok (Some bl') \<and>
     acquire_many blist_alloc 512 (Some bl') = Ok (Some bl'', rs) \<and> unat ` set rs = {..<512}"
proof -
  obtain b0 where b0: "blist_ok b0" "bl_blocks b0 = 512" "free_blocks b0 = {}" "bl_radix b0 = 512" using sample_512 by blast
  then obtain bl where bl: "blist_free (Some b0) 0 256 = Ok (Some bl)" "blist_ok bl" "bl_blocks bl = 512" "free_blocks bl = {..<256}"
    using blist_free_spec [OF b0(1), of 256 0] by (auto simp: lessThan_atLeast0)
  have "bl_radix bl = 512" using bl(1) b0(4) by (auto simp: blist_free_def bind_r_eq_Ok)
  moreover have "bl_free bl = 256" using blist_ok_free [OF bl(2)] bl(4) by simp
  ultimately obtain bl' bl'' rs where "blist_free (Some bl) 0 256 = Ok (Some bl')"
      "acquire_many blist_alloc 512 (Some bl') = Ok (Some bl'', rs)" "unat ` set rs = {..<512}"
    using blist_free_unchecked [OF bl(2), of 256 0] bl(3,4) by (auto simp: lessThan_empty_iff)
  then show ?thesis using bl(2-4) by blast
qed

end
