(* ===== verification/Swap.thy ===== *)
theory Swap
  imports Blist_Props
begin

text \<open>
  Swap space of UVM (\<open>uvm/uvm_swap.c\<close>): the list of swap devices by priority, the allocation of slots of
  \<open>/dev/drum\<close> from the block lists of the devices, and starting and stopping to swap on a device. A \<open>swapdev\<close> is
  known by its vnode: the list never has two of the same. Devices are values in the list, and an update through a
  pointer is an update of the entry with that vnode. Numbers that the code keeps in an \<open>int\<close> are \<open>int\<close>. The vnode layer
  and the map of the drum (vmem(9)) are the record \<open>swap_env\<close>.
\<close>

section \<open>State\<close>

record swapdev =
  swd_vp :: nat
  swd_flags :: u32
  swd_priority :: int
  swd_nblks :: int
  swd_npages :: int
  swd_npginuse :: int
  swd_npgbad :: int
  swd_drumoffset :: int
  swd_drumsize :: int
  swd_blist :: "blist option"

record swappri =
  spi_priority :: int
  spi_swapdev :: "swapdev list"

record swapstate =
  swap_priority :: "swappri list"
  nswapdev :: int
  swpages :: int
  swpgavail :: int
  swpginuse :: int
  swpgonly :: int

abbreviation (input) SWF_INUSE :: u32 where "SWF_INUSE \<equiv> 1"
abbreviation (input) SWF_ENABLE :: u32 where "SWF_ENABLE \<equiv> 2"
abbreviation (input) SWF_FAKE :: u32 where "SWF_FAKE \<equiv> 8"
abbreviation (input) SWSLOT_BAD :: int where "SWSLOT_BAD \<equiv> - 1"
abbreviation (input) ENOENT :: int where "ENOENT \<equiv> 2"
abbreviation (input) ENXIO :: int where "ENXIO \<equiv> 6"
abbreviation (input) SW_ENOMEM :: int where "SW_ENOMEM \<equiv> 12"
abbreviation (input) SW_EBUSY :: int where "SW_EBUSY \<equiv> 16"
abbreviation (input) SW_EINVAL :: int where "SW_EINVAL \<equiv> 22"

definition devs :: "swapstate \<Rightarrow> swapdev list" where
  "devs st = concat (map spi_swapdev (swap_priority st))"

definition upd_dev :: "nat \<Rightarrow> (swapdev \<Rightarrow> swapdev) \<Rightarrow> swapstate \<Rightarrow> swapstate" where
  "upd_dev vp f st =
     st\<lparr>swap_priority := map (\<lambda>spp. spp\<lparr>spi_swapdev := map (\<lambda>d. if swd_vp d = vp then f d else d) (spi_swapdev spp)\<rparr>) (swap_priority st)\<rparr>"

section \<open>The list of devices\<close>

text \<open>The loop of \<open>swaplist_insert\<close>: the device goes to the tail of its priority, which is created where the order wants it.\<close>

fun insert_pri :: "swapdev \<Rightarrow> int \<Rightarrow> swappri list \<Rightarrow> swappri list" where
  "insert_pri sdp priority [] = [\<lparr>spi_priority = priority, spi_swapdev = [sdp]\<rparr>]"
| "insert_pri sdp priority (spp # rest) =
     (if priority \<le> spi_priority spp
      then if spi_priority spp \<noteq> priority
           then \<lparr>spi_priority = priority, spi_swapdev = [sdp]\<rparr> # spp # rest
           else spp\<lparr>spi_swapdev := spi_swapdev spp @ [sdp]\<rparr> # rest
      else spp # insert_pri sdp priority rest)"

definition swaplist_insert :: "swapdev \<Rightarrow> int \<Rightarrow> swapstate \<Rightarrow> swapstate" where
  "swaplist_insert sdp priority st =
     st\<lparr>swap_priority := insert_pri (sdp\<lparr>swd_priority := priority\<rparr>) priority (swap_priority st), nswapdev := nswapdev st + 1\<rparr>"

fun find_pri :: "nat \<Rightarrow> swappri list \<Rightarrow> (swapdev \<times> swappri list) option" where
  "find_pri vp [] = None"
| "find_pri vp (spp # rest) =
     (case find (\<lambda>sdp. swd_vp sdp = vp) (spi_swapdev spp) of
        Some sdp \<Rightarrow> Some (sdp, spp\<lparr>spi_swapdev := remove1 sdp (spi_swapdev spp)\<rparr> # rest)
      | None \<Rightarrow> map_option (\<lambda>(sdp, rest). (sdp, spp # rest)) (find_pri vp rest))"

definition swaplist_find :: "nat \<Rightarrow> bool \<Rightarrow> swapstate \<Rightarrow> swapstate \<times> swapdev option" where
  "swaplist_find vp remove st =
     (case find_pri vp (swap_priority st) of
        None \<Rightarrow> (st, None)
      | Some (sdp, l) \<Rightarrow> (if remove then st\<lparr>swap_priority := l, nswapdev := nswapdev st - 1\<rparr> else st, Some sdp))"

definition swaplist_trim :: "swapstate \<Rightarrow> swapstate" where
  "swaplist_trim st = st\<lparr>swap_priority := filter (\<lambda>spp. spi_swapdev spp \<noteq> []) (swap_priority st)\<rparr>"

definition swapdrum_getsdp :: "int \<Rightarrow> swapstate \<Rightarrow> swapdev option" where
  "swapdrum_getsdp pgno st =
     find (\<lambda>sdp. swd_flags sdp AND SWF_FAKE = 0 \<and> swd_drumoffset sdp \<le> pgno \<and> pgno < swd_drumoffset sdp + swd_drumsize sdp) (devs st)"

section \<open>Slots\<close>

text \<open>
  The search of \<open>uvm_swap_alloc\<close> in one priority. A device that has no run of blocks is kept with what \<open>blist_alloc\<close> did to
  its hints; the device that has one goes to the tail of the queue.
\<close>

fun alloc_devs :: "int \<Rightarrow> swapdev list \<Rightarrow> swapdev list \<Rightarrow> (swapdev list \<times> int option) result" where
  "alloc_devs nslots before [] = Ok (before, None)"
| "alloc_devs nslots before (sdp # rest) =
     (if swd_flags sdp AND SWF_ENABLE = 0 then alloc_devs nslots (before @ [sdp]) rest
      else if swd_npages sdp < swd_npginuse sdp + nslots then alloc_devs nslots (before @ [sdp]) rest
      else bind_r (blist_alloc (swd_blist sdp) (word_of_int nslots)) (\<lambda>(bl, r).
        let sdp = sdp\<lparr>swd_blist := bl\<rparr>
        in if r = BLIST_NONE then alloc_devs nslots (before @ [sdp]) rest
           else Ok (before @ rest @ [sdp\<lparr>swd_npginuse := swd_npginuse sdp + nslots\<rparr>], Some (uint r + swd_drumoffset sdp))))"

fun alloc_pris :: "int \<Rightarrow> swappri list \<Rightarrow> swappri list \<Rightarrow> (swappri list \<times> int option) result" where
  "alloc_pris nslots before [] = Ok (before, None)"
| "alloc_pris nslots before (spp # rest) =
     bind_r (alloc_devs nslots [] (spi_swapdev spp)) (\<lambda>(ds, r).
       let spp = spp\<lparr>spi_swapdev := ds\<rparr>
       in case r of
            None \<Rightarrow> alloc_pris nslots (before @ [spp]) rest
          | Some slot \<Rightarrow> Ok (before @ spp # rest, Some slot))"

text \<open>One round of the search, from the label \<open>ReTry\<close> to the hack.\<close>

definition swap_try :: "int \<Rightarrow> swapstate \<Rightarrow> (swapstate \<times> int option) result" where
  "swap_try nslots st =
     bind_r (alloc_pris nslots [] (swap_priority st)) (\<lambda>(l, r).
       let st = st\<lparr>swap_priority := l\<rparr>
       in Ok (case r of None \<Rightarrow> (st, None) | Some slot \<Rightarrow> (st\<lparr>swpginuse := swpginuse st + nslots\<rparr>, Some slot)))"

text \<open>The result is the state, \<open>*nslots\<close> and the slot; 0 is no slot.\<close>

definition uvm_swap_alloc :: "int \<Rightarrow> bool \<Rightarrow> swapstate \<Rightarrow> (swapstate \<times> int \<times> int) result" where
  "uvm_swap_alloc nslots lessok st =
     (if nswapdev st < 1 then Ok (st, nslots, 0)
      else bind_r (swap_try nslots st) (\<lambda>(st, r).
        case r of
          Some slot \<Rightarrow> Ok (st, nslots, slot)
        | None \<Rightarrow>
            if 1 < nslots \<and> lessok
            then bind_r (swap_try 1 st) (\<lambda>(st, r). Ok (st, 1, case r of Some slot \<Rightarrow> slot | None \<Rightarrow> 0))
            else Ok (st, nslots, 0)))"

definition uvm_swap_free :: "int \<Rightarrow> int \<Rightarrow> swapstate \<Rightarrow> swapstate result" where
  "uvm_swap_free startslot nslots st =
     (if startslot = SWSLOT_BAD then Ok st
      else case swapdrum_getsdp startslot st of
        None \<Rightarrow> Undef ''null pointer''
      | Some sdp \<Rightarrow>
          bind_r (blist_free (swd_blist sdp) (word_of_int (startslot - swd_drumoffset sdp)) (word_of_int nslots)) (\<lambda>bl.
            let st = upd_dev (swd_vp sdp) (\<lambda>d. d\<lparr>swd_blist := bl, swd_npginuse := swd_npginuse d - nslots\<rparr>) st
            in Ok (st\<lparr>swpginuse := swpginuse st - nslots\<rparr>)))"

definition uvm_swap_markbad :: "int \<Rightarrow> int \<Rightarrow> swapstate \<Rightarrow> swapstate result" where
  "uvm_swap_markbad startslot nslots st =
     (case swapdrum_getsdp startslot st of
        None \<Rightarrow> Undef ''null pointer''
      | Some sdp \<Rightarrow>
          Ok (upd_dev (swd_vp sdp) (\<lambda>d. d\<lparr>swd_npgbad := swd_npgbad d + nslots\<rparr>) (st\<lparr>swpgonly := swpgonly st - nslots\<rparr>)))"

text \<open>The product and the quotient are of 64 bits, and the result is kept in an \<open>int\<close>.\<close>

definition uvm_swapisfull :: "u32 \<Rightarrow> swapstate \<Rightarrow> bool" where
  "uvm_swapisfull factor st \<longleftrightarrow> swpgavail st \<le> sint (ucast ((word_of_int (swpgonly st) :: u64) * 100 div ucast factor) :: u32)"

section \<open>Starting and stopping\<close>

datatype vtype = VBLK | VREG | VOTHER

text \<open>
  What the code asks of the vnode layer, by vnode: the type, errors of opening and of asking for the size, the size of a block
  device in blocks (\<open>None\<close> when there is no such device, -1 when it has no size) and of a file in bytes; the blocks of the
  root file system; the offset of a range of the drum of a given size; the memory for a block list.
\<close>

record swap_env =
  rootvp :: nat
  v_type :: "nat \<Rightarrow> vtype"
  VOP_OPEN :: "nat \<Rightarrow> int"
  d_psize :: "nat \<Rightarrow> int option"
  VOP_GETATTR :: "nat \<Rightarrow> int + nat"
  VFS_STATVFS :: "nat \<Rightarrow> int"
  f_rootblocks :: int
  vmem_alloc :: "int \<Rightarrow> int"
  blist_mem :: "nat \<Rightarrow> blmeta"

text \<open>The switch on the type of the vnode: an error or the number of blocks, an \<open>int\<close>.\<close>

definition swap_size :: "swap_env \<Rightarrow> nat \<Rightarrow> int + int" where
  "swap_size env vp =
     (case v_type env vp of
        VBLK \<Rightarrow> (case d_psize env vp of None \<Rightarrow> Inl ENXIO | Some n \<Rightarrow> if n = - 1 then Inl ENXIO else Inr n)
      | VREG \<Rightarrow>
          (case VOP_GETATTR env vp of
             Inl error \<Rightarrow> Inl error
           | Inr va_size \<Rightarrow>
               if VFS_STATVFS env vp \<noteq> 0 then Inl (VFS_STATVFS env vp)
               else Inr (sint (ucast (drop_bit 9 (word_of_nat va_size :: u64)) :: u32)))
      | VOTHER \<Rightarrow> Inl ENXIO)"

text \<open>\<open>dbtob((uint64_t)nblocks) >> PAGE_SHIFT\<close>, as an \<open>int\<close>.\<close>

definition swap_npages :: "int \<Rightarrow> int" where
  "swap_npages nblocks = sint (ucast (drop_bit 12 (push_bit 9 (word_of_int nblocks :: u64))) :: u32)"

text \<open>The pages of the root file system; the sums and shifts of \<open>int\<close> must not overflow.\<close>

definition swap_rootpages :: "int \<Rightarrow> int result" where
  "swap_rootpages rootblocks =
     (let rootblocks = rootblocks + (rootblocks div 32 + rootblocks div 64 + rootblocks div 128)
      in if 0 \<le> rootblocks \<and> rootblocks * 512 + 4095 < 2 ^ 31 then Ok ((rootblocks * 512 + 4095) div 4096)
         else Undef ''int overflow'')"

definition swap_preserve :: "swap_env \<Rightarrow> int \<Rightarrow> int \<Rightarrow> blist option \<Rightarrow> (blist option \<times> int) result" where
  "swap_preserve env addr sz bl =
     bind_r (swap_rootpages (f_rootblocks env)) (\<lambda>rootpages.
       if sz < rootpages then Panic ''swap_on: miniroot larger than swap?''
       else bind_r (blist_fill bl (word_of_int addr) (word_of_int rootpages)) (\<lambda>(bl, n).
         if rootpages \<noteq> uint n then Panic ''swap_on: unable to preserve miniroot'' else Ok (bl, sz - rootpages)))"

definition swap_on :: "swap_env \<Rightarrow> nat \<Rightarrow> swapstate \<Rightarrow> (swapstate \<times> int) result" where
  "swap_on env vp st =
     (if vp \<noteq> rootvp env \<and> VOP_OPEN env vp \<noteq> 0 then Ok (st, VOP_OPEN env vp)
      else case swap_size env vp of
        Inl error \<Rightarrow> Ok (st, error)
      | Inr nblocks \<Rightarrow>
          let st = upd_dev vp (\<lambda>d. d\<lparr>swd_nblks := nblocks\<rparr>) st;
              npages = swap_npages nblocks;
              (sz, addr) = (if v_type env vp = VBLK then (npages - 1, 1) else (npages, 0))
          in if sz < 1 then Ok (st, SW_EINVAL)
             else
               bind_r (blist_create (blist_mem env) (word_of_int npages)) (\<lambda>bl.
               bind_r (blist_free (Some bl) (word_of_int addr) (word_of_int sz)) (\<lambda>bl.
               bind_r (if vp = rootvp env then swap_preserve env addr sz bl else Ok (bl, sz)) (\<lambda>(bl, sz).
               if vmem_alloc env npages = 0 then Panic ''swapdrum_add''
               else
                 let st = upd_dev vp (\<lambda>d. d\<lparr>swd_blist := bl, swd_drumoffset := vmem_alloc env npages, swd_drumsize := npages,
                            swd_npages := sz, swd_flags := (swd_flags d AND NOT SWF_FAKE) OR (SWF_INUSE OR SWF_ENABLE)\<rparr>) st
                 in Ok (st\<lparr>swpages := swpages st + sz, swpgavail := swpgavail st + sz\<rparr>, 0)))))"

text \<open>
  \<open>pagein\<close> is what \<open>uao_swap_off\<close> and \<open>amap_swap_off\<close> do to the state for a range of slots, and whether one of them failed.
\<close>

definition swap_off :: "(int \<Rightarrow> int \<Rightarrow> swapstate \<Rightarrow> swapstate \<times> bool) \<Rightarrow> swapdev \<Rightarrow> swapstate \<Rightarrow> (swapstate \<times> int) result" where
  "swap_off pagein sdp st =
     (let vp = swd_vp sdp; npages = swd_npages sdp;
          st = upd_dev vp (\<lambda>d. d\<lparr>swd_flags := swd_flags d AND NOT SWF_ENABLE\<rparr>) (st\<lparr>swpgavail := swpgavail st - npages\<rparr>);
          (st, failed) = pagein (swd_drumoffset sdp) (swd_drumoffset sdp + swd_drumsize sdp) st
      in case snd (swaplist_find vp False st) of
           None \<Rightarrow> Undef ''device gone''
         | Some sdp \<Rightarrow>
             let error = (if failed then SW_ENOMEM else if swd_npgbad sdp < swd_npginuse sdp then SW_EBUSY else 0)
             in if error \<noteq> 0
                then Ok (upd_dev vp (\<lambda>d. d\<lparr>swd_flags := swd_flags d OR SWF_ENABLE\<rparr>) (st\<lparr>swpgavail := swpgavail st + npages\<rparr>), error)
                else case swaplist_find vp True (st\<lparr>swpages := swpages st - npages, swpginuse := swpginuse st - swd_npgbad sdp\<rparr>) of
                  (st, None) \<Rightarrow> Panic ''swap_off: swapdev not in list''
                | (st, Some _) \<Rightarrow> Ok (swaplist_trim st, 0))"

section \<open>The system call\<close>

text \<open>The cases of \<open>sys_swapctl\<close> that change the list, after the vnode has been found.\<close>

datatype swapctl = SWAP_CTL int | SWAP_ON int | SWAP_OFF

definition new_swapdev :: "nat \<Rightarrow> swapdev" where
  "new_swapdev vp = \<lparr>swd_vp = vp, swd_flags = SWF_FAKE, swd_priority = 0, swd_nblks = 0, swd_npages = 0, swd_npginuse = 0, swd_npgbad = 0,
     swd_drumoffset = 0, swd_drumsize = 0, swd_blist = None\<rparr>"

definition sys_swapctl :: "swap_env \<Rightarrow> (int \<Rightarrow> int \<Rightarrow> swapstate \<Rightarrow> swapstate \<times> bool) \<Rightarrow> swapctl \<Rightarrow> nat \<Rightarrow> swapstate \<Rightarrow> (swapstate \<times> int) result" where
  "sys_swapctl env pagein cmd vp st =
     (case cmd of
        SWAP_CTL priority \<Rightarrow>
          (case swaplist_find vp True st of
             (st, None) \<Rightarrow> Ok (st, ENOENT)
           | (st, Some sdp) \<Rightarrow> Ok (swaplist_trim (swaplist_insert sdp priority st), 0))
      | SWAP_ON priority \<Rightarrow>
          (case snd (swaplist_find vp False st) of
             Some _ \<Rightarrow> Ok (st, SW_EBUSY)
           | None \<Rightarrow>
               bind_r (swap_on env vp (swaplist_insert (new_swapdev vp) priority st)) (\<lambda>(st, error).
                 if error \<noteq> 0 then Ok (swaplist_trim (fst (swaplist_find vp True st)), error) else Ok (st, 0)))
      | SWAP_OFF \<Rightarrow>
          (case snd (swaplist_find vp False st) of
             None \<Rightarrow> Ok (st, ENXIO)
           | Some sdp \<Rightarrow>
               if swd_flags sdp AND (SWF_INUSE OR SWF_ENABLE) = 0 then Ok (st, SW_EBUSY) else swap_off pagein sdp st))"

end
