(* ===== verification/Swap_Inv.thy ===== *)
theory Swap_Inv
  imports Swap "HOL-Library.Multiset"
begin

text \<open>
  The invariant of swap space and the search of \<open>uvm_swap_alloc\<close>. A device is seen as its record without the block list and
  its set of free slots of the drum; a failing \<open>blist_alloc\<close> changes nothing of that.
\<close>

section \<open>Devices\<close>

abbreviation is_live :: "swapdev \<Rightarrow> bool" where "is_live d \<equiv> swd_flags d AND SWF_FAKE = 0"
abbreviation enabled :: "swapdev \<Rightarrow> bool" where "enabled d \<equiv> swd_flags d AND SWF_ENABLE \<noteq> 0"

definition drum_span :: "swapdev \<Rightarrow> int set" where
  "drum_span d = (if is_live d then {swd_drumoffset d..<swd_drumoffset d + swd_drumsize d} else {})"

definition dev_slots :: "swapdev \<Rightarrow> int set" where
  "dev_slots d = (if is_live d then (case swd_blist d of None \<Rightarrow> {} | Some bl \<Rightarrow> (\<lambda>b. swd_drumoffset d + int b) ` free_blocks bl) else {})"

definition dev_ok :: "swapdev \<Rightarrow> bool" where
  "dev_ok d \<longleftrightarrow> 0 \<le> swd_npginuse d \<and>
     (if is_live d
      then 0 < swd_drumoffset d \<and> (case swd_blist d of
        None \<Rightarrow> False
      | Some bl \<Rightarrow> blist_ok bl \<and> swd_drumsize d = uint (bl_blocks bl) \<and> int (card (free_blocks bl)) = swd_npages d - swd_npginuse d)
      else \<not> enabled d \<and> swd_npages d = 0 \<and> swd_npginuse d = 0)"

definition plain :: "swapdev \<Rightarrow> swapdev" where
  "plain d = d\<lparr>swd_blist := None\<rparr>"

definition view :: "swapdev \<Rightarrow> swapdev \<times> int set" where
  "view d = (plain d, dev_slots d)"

lemma plain_fields [simp]:
  "swd_vp (plain d) = swd_vp d" "swd_flags (plain d) = swd_flags d" "swd_priority (plain d) = swd_priority d"
  "swd_npages (plain d) = swd_npages d" "swd_npginuse (plain d) = swd_npginuse d" "swd_npgbad (plain d) = swd_npgbad d"
  "swd_drumoffset (plain d) = swd_drumoffset d" "swd_drumsize (plain d) = swd_drumsize d" "drum_span (plain d) = drum_span d"
  by (simp_all add: plain_def drum_span_def)

lemma view_eqD:
  assumes "view d = view e"
  shows "plain d = plain e" "dev_slots d = dev_slots e" "swd_vp d = swd_vp e" "swd_flags d = swd_flags e" "swd_priority d = swd_priority e"
    "swd_npages d = swd_npages e" "swd_npginuse d = swd_npginuse e" "drum_span d = drum_span e" "swd_npgbad d = swd_npgbad e"
proof -
  show b: "plain d = plain e" "dev_slots d = dev_slots e" using assms by (simp_all add: view_def)
  show "swd_vp d = swd_vp e" "swd_flags d = swd_flags e" "swd_priority d = swd_priority e" "swd_npages d = swd_npages e"
    "swd_npginuse d = swd_npginuse e" "drum_span d = drum_span e" "swd_npgbad d = swd_npgbad e"
    using plain_fields [of d] plain_fields [of e] b(1) by metis+
qed

lemma dev_okE:
  assumes "dev_ok d" "is_live d"
  obtains bl where "swd_blist d = Some bl" "blist_ok bl" "swd_drumsize d = int (unat (bl_blocks bl))" "0 < swd_drumoffset d"
    "int (card (free_blocks bl)) = swd_npages d - swd_npginuse d" "dev_slots d = (\<lambda>b. swd_drumoffset d + int b) ` free_blocks bl"
  using assms by (auto simp: dev_ok_def dev_slots_def split: option.splits)

lemma enabled_live: "dev_ok d \<Longrightarrow> enabled d \<Longrightarrow> is_live d"
  by (auto simp: dev_ok_def split: if_splits)

lemma dev_slots_span: "dev_ok d \<Longrightarrow> dev_slots d \<subseteq> drum_span d"
proof (cases "is_live d")
  case True
  assume "dev_ok d"
  then obtain bl where bl: "blist_ok bl" "swd_drumsize d = int (unat (bl_blocks bl))" "dev_slots d = (\<lambda>b. swd_drumoffset d + int b) ` free_blocks bl"
    using True by (elim dev_okE)
  have "int b < int (unat (bl_blocks bl))" if "b \<in> free_blocks bl" for b
    unfolding of_nat_less_iff using free_blocks_bound(1) [OF bl(1)] that by auto
  then show ?thesis unfolding bl(3) drum_span_def bl(2) using True by auto
qed (simp add: dev_slots_def)

lemma dev_slots_card: "dev_ok d \<Longrightarrow> is_live d \<Longrightarrow> dev_slots d = {} \<longleftrightarrow> swd_npages d = swd_npginuse d"
  using free_blocks_bound(2) by (elim dev_okE) (auto simp: card_eq_0_iff)

section \<open>Allocation from one device\<close>

definition taken :: "swapdev \<Rightarrow> int \<Rightarrow> int \<Rightarrow> swapdev \<Rightarrow> bool" where
  "taken d n s d' \<longleftrightarrow> dev_ok d' \<and> plain d' = plain (d\<lparr>swd_npginuse := swd_npginuse d + n\<rparr>) \<and> 0 < s \<and> {s..<s + n} \<subseteq> dev_slots d
     \<and> dev_slots d' = dev_slots d - {s..<s + n}"

lemma slot_interval: "(\<lambda>b. off + int b) ` {x..<x + n} = {int x + off..<int x + off + int n}"
proof -
  have "y \<in> (\<lambda>b. off + int b) ` {x..<x + n} \<longleftrightarrow> y \<in> {int x + off..<int x + off + int n}" for y
  proof
    assume y: "y \<in> {int x + off..<int x + off + int n}"
    then have "y = off + int (nat (y - off))" "nat (y - off) \<in> {x..<x + n}" by auto
    then show "y \<in> (\<lambda>b. off + int b) ` {x..<x + n}" by blast
  qed auto
  then show ?thesis by blast
qed

lemma dev_alloc:
  assumes d: "dev_ok d" "enabled d" and n: "1 \<le> n" "n \<le> 32"
  shows "\<exists>bl r. blist_alloc (swd_blist d) (word_of_int n) = Ok (Some bl, r) \<and>
    (if r = BLIST_NONE then dev_ok (d\<lparr>swd_blist := Some bl\<rparr>) \<and> view (d\<lparr>swd_blist := Some bl\<rparr>) = view d \<and> (n = 1 \<longrightarrow> dev_slots d = {})
     else taken d n (uint r + swd_drumoffset d) (d\<lparr>swd_blist := Some bl, swd_npginuse := swd_npginuse d + n\<rparr>))"
proof -
  note l = enabled_live [OF d]
  obtain bl where bl: "swd_blist d = Some bl" "blist_ok bl" "swd_drumsize d = int (unat (bl_blocks bl))" "0 < swd_drumoffset d"
    "int (card (free_blocks bl)) = swd_npages d - swd_npginuse d" "dev_slots d = (\<lambda>b. swd_drumoffset d + int b) ` free_blocks bl"
    using d(1) l by (elim dev_okE)
  have u: "int (unat (word_of_int n :: u32)) = n" using n by (simp add: uint_word_of_int)
  let ?k = "unat (word_of_int n :: u32)"
  have k: "1 \<le> ?k" "?k \<le> 32" using u n by linarith+
  obtain bl' r where a: "blist_alloc (Some bl) (word_of_int n) = Ok (Some bl', r)" "blist_ok bl'" "bl_blocks bl' = bl_blocks bl"
    "r = BLIST_NONE \<and> free_blocks bl' = free_blocks bl \<and> (?k = 1 \<longrightarrow> free_blocks bl = {}) \<or>
     r \<noteq> BLIST_NONE \<and> {unat r..<unat r + ?k} \<subseteq> free_blocks bl \<and> free_blocks bl' = free_blocks bl - {unat r..<unat r + ?k}"
    using blist_alloc_spec [OF bl(2) k] by blast
  show ?thesis
  proof (cases "r = BLIST_NONE")
    case True
    then have f: "free_blocks bl' = free_blocks bl" "?k = 1 \<longrightarrow> free_blocks bl = {}" using a(4) by auto
    have "dev_ok (d\<lparr>swd_blist := Some bl'\<rparr>)" "view (d\<lparr>swd_blist := Some bl'\<rparr>) = view d"
      using d(1) l bl a f by (simp_all add: dev_ok_def view_def plain_def dev_slots_def)
    moreover have "n = 1 \<longrightarrow> dev_slots d = {}" using f(2) u bl(6) by auto
    ultimately show ?thesis using True a(1) bl(1) by simp
  next
    case False
    then have f: "{unat r..<unat r + ?k} \<subseteq> free_blocks bl" "free_blocks bl' = free_blocks bl - {unat r..<unat r + ?k}" using a(4) by auto
    let ?d = "d\<lparr>swd_blist := Some bl', swd_npginuse := swd_npginuse d + n\<rparr>"
    have "card (free_blocks bl') = card (free_blocks bl) - ?k" unfolding f(2) using card_Diff_subset [OF _ f(1)] by simp
    moreover have "?k \<le> card (free_blocks bl)" using card_mono [OF free_blocks_bound(2) [OF bl(2)] f(1)] by simp
    ultimately have "int (card (free_blocks bl')) = swd_npages d - (swd_npginuse d + n)" using bl(5) u by linarith
    then have "dev_ok ?d" using d(1) l bl a n by (simp add: dev_ok_def)
    moreover have i: "(\<lambda>b. swd_drumoffset d + int b) ` {unat r..<unat r + ?k} = {uint r + swd_drumoffset d..<uint r + swd_drumoffset d + n}"
      unfolding slot_interval u by simp
    have "{uint r + swd_drumoffset d..<uint r + swd_drumoffset d + n} \<subseteq> dev_slots d" unfolding i [symmetric] bl(6) using f(1) by blast
    moreover have "dev_slots ?d = dev_slots d - {uint r + swd_drumoffset d..<uint r + swd_drumoffset d + n}"
      unfolding i [symmetric] bl(6) using l by (simp add: dev_slots_def f(2) image_set_diff inj_on_def)
    moreover have "0 < uint r + swd_drumoffset d" using bl(4) by (simp add: add_nonneg_pos)
    ultimately have "taken d n (uint r + swd_drumoffset d) ?d" by (simp add: taken_def plain_def)
    then show ?thesis using False a(1) bl(1) by simp
  qed
qed

text \<open>What a search of the devices \<open>ds\<close> after \<open>before\<close> ends with.\<close>

definition dev_hit :: "int \<Rightarrow> swapdev list \<Rightarrow> swapdev list \<Rightarrow> int \<Rightarrow> swapdev list \<Rightarrow> bool" where
  "dev_hit n before ds s ds' \<longleftrightarrow> (\<exists>xs d d' ys. ds = xs @ d # ys \<and> map view ds' = map view (before @ xs @ ys @ [d']) \<and> enabled d \<and>
     taken d n s d' \<and> (n = 1 \<longrightarrow> (\<forall>e \<in> set xs. enabled e \<longrightarrow> dev_slots e = {})))"

definition dev_outcome :: "int \<Rightarrow> swapdev list \<Rightarrow> swapdev list \<Rightarrow> int option \<Rightarrow> swapdev list \<Rightarrow> bool" where
  "dev_outcome n before ds r ds' \<longleftrightarrow> (\<forall>d \<in> set ds'. dev_ok d) \<and> (case r of
      None \<Rightarrow> map view ds' = map view (before @ ds) \<and> (n = 1 \<longrightarrow> (\<forall>d \<in> set ds. enabled d \<longrightarrow> dev_slots d = {}))
    | Some s \<Rightarrow> dev_hit n before ds s ds')"

lemma dev_hit_pass:
  assumes "dev_hit n (before @ [e]) ds s ds'" "view e = view d" "n = 1 \<longrightarrow> enabled d \<longrightarrow> dev_slots d = {}"
  shows "dev_hit n before (d # ds) s ds'"
proof -
  obtain xs f f' ys where o: "ds = xs @ f # ys" "map view ds' = map view ((before @ [e]) @ xs @ ys @ [f'])" "enabled f" "taken f n s f'"
    "n = 1 \<longrightarrow> (\<forall>e \<in> set xs. enabled e \<longrightarrow> dev_slots e = {})"
    using assms(1) unfolding dev_hit_def by blast
  have "d # ds = (d # xs) @ f # ys" "map view ds' = map view (before @ (d # xs) @ ys @ [f'])" using o(1,2) assms(2) by simp_all
  moreover have "n = 1 \<longrightarrow> (\<forall>e \<in> set (d # xs). enabled e \<longrightarrow> dev_slots e = {})" using o(5) assms(3) by simp
  ultimately show ?thesis using o(3,4) unfolding dev_hit_def by blast
qed

lemma dev_outcome_pass:
  assumes "dev_outcome n (before @ [e]) ds r ds'" "view e = view d" "n = 1 \<longrightarrow> enabled d \<longrightarrow> dev_slots d = {}"
  shows "dev_outcome n before (d # ds) r ds'"
  using assms dev_hit_pass [OF _ assms(2,3)] by (cases r) (auto simp: dev_outcome_def)

lemma alloc_devs_spec:
  assumes "\<forall>d \<in> set before \<union> set ds. dev_ok d" and n: "1 \<le> n" "n \<le> 32"
  shows "\<exists>ds' r. alloc_devs n before ds = Ok (ds', r) \<and> dev_outcome n before ds r ds'"
  using assms(1)
proof (induction ds arbitrary: before)
  case Nil
  then show ?case by (simp add: dev_outcome_def)
next
  case (Cons d ds)
  have pass: ?case if skip: "alloc_devs n before (d # ds) = alloc_devs n (before @ [e]) ds" and e: "dev_ok e" "view e = view d"
      "n = 1 \<longrightarrow> enabled d \<longrightarrow> dev_slots d = {}" for e
    unfolding skip using Cons.IH [of "before @ [e]"] Cons.prems e(1) dev_outcome_pass [OF _ e(2,3)] by fastforce
  have ok: "dev_ok d" using Cons.prems by simp
  consider (off) "\<not> enabled d" | (full) "enabled d" "swd_npages d < swd_npginuse d + n" | (ask) "enabled d" "\<not> swd_npages d < swd_npginuse d + n" by blast
  then show ?case
  proof cases
    case off
    then show ?thesis by (intro pass [OF _ ok]) simp_all
  next
    case full
    note l = enabled_live [OF ok full(1)]
    obtain bl where "int (card (free_blocks bl)) = swd_npages d - swd_npginuse d" using dev_okE [OF ok l] by metis
    then have "n = 1 \<longrightarrow> swd_npages d = swd_npginuse d" using full(2) by linarith
    then have "n = 1 \<longrightarrow> dev_slots d = {}" using dev_slots_card [OF ok l] by simp
    then show ?thesis using full by (intro pass [OF _ ok]) simp_all
  next
    case ask
    obtain bl r where b: "blist_alloc (swd_blist d) (word_of_int n) = Ok (Some bl, r)"
      "if r = BLIST_NONE then dev_ok (d\<lparr>swd_blist := Some bl\<rparr>) \<and> view (d\<lparr>swd_blist := Some bl\<rparr>) = view d \<and> (n = 1 \<longrightarrow> dev_slots d = {})
       else taken d n (uint r + swd_drumoffset d) (d\<lparr>swd_blist := Some bl, swd_npginuse := swd_npginuse d + n\<rparr>)"
      using dev_alloc [OF ok ask(1) n] by blast
    show ?thesis
    proof (cases "r = BLIST_NONE")
      case True
      then show ?thesis using ask b by (intro pass [of "d\<lparr>swd_blist := Some bl\<rparr>"]) simp_all
    next
      case False
      let ?d = "d\<lparr>swd_blist := Some bl, swd_npginuse := swd_npginuse d + n\<rparr>"
      have t: "taken d n (uint r + swd_drumoffset d) ?d" using b(2) False by simp
      have "alloc_devs n before (d # ds) = Ok (before @ ds @ [?d], Some (uint r + swd_drumoffset d))" using ask b(1) False by simp
      moreover have "\<forall>x \<in> set (before @ ds @ [?d]). dev_ok x" using Cons.prems t by (auto simp: taken_def)
      moreover have "dev_hit n before (d # ds) (uint r + swd_drumoffset d) (before @ ds @ [?d])"
        unfolding dev_hit_def using t ask(1) by (intro exI [of _ "[]"] exI [of _ d] exI [of _ ?d] exI [of _ ds]) simp
      ultimately show ?thesis by (simp add: dev_outcome_def)
    qed
  qed
qed

section \<open>The search through the priorities\<close>

definition pview :: "swappri \<Rightarrow> int \<times> (swapdev \<times> int set) list" where
  "pview p = (spi_priority p, map view (spi_swapdev p))"

abbreviation all_devs :: "swappri list \<Rightarrow> swapdev list" where
  "all_devs l \<equiv> concat (map spi_swapdev l)"

lemma pview_devs: "map view (all_devs l) = concat (map snd (map pview l))"
  by (induction l) (simp_all add: pview_def)

definition pri_hit :: "int \<Rightarrow> swappri list \<Rightarrow> swappri list \<Rightarrow> int \<Rightarrow> swappri list \<Rightarrow> bool" where
  "pri_hit n before l s l' \<longleftrightarrow> (\<exists>xs p p' ys d d'. l = xs @ p # ys \<and> map pview l' = map pview (before @ xs @ p' # ys) \<and> spi_priority p' = spi_priority p
     \<and> d \<in> set (spi_swapdev p) \<and> enabled d \<and> taken d n s d'
     \<and> add_mset (view d) (mset (map view (spi_swapdev p'))) = add_mset (view d') (mset (map view (spi_swapdev p)))
     \<and> (n = 1 \<longrightarrow> (\<forall>e \<in> set (all_devs xs). enabled e \<longrightarrow> dev_slots e = {})))"

definition pri_outcome :: "int \<Rightarrow> swappri list \<Rightarrow> swappri list \<Rightarrow> int option \<Rightarrow> swappri list \<Rightarrow> bool" where
  "pri_outcome n before l r l' \<longleftrightarrow> (\<forall>d \<in> set (all_devs l'). dev_ok d) \<and> (case r of
      None \<Rightarrow> map pview l' = map pview (before @ l) \<and> (n = 1 \<longrightarrow> (\<forall>d \<in> set (all_devs l). enabled d \<longrightarrow> dev_slots d = {}))
    | Some s \<Rightarrow> pri_hit n before l s l')"

lemma pri_hit_pass:
  assumes "pri_hit n (before @ [q]) l s l'" "pview q = pview p" "n = 1 \<longrightarrow> (\<forall>d \<in> set (spi_swapdev p). enabled d \<longrightarrow> dev_slots d = {})"
  shows "pri_hit n before (p # l) s l'"
proof -
  obtain xs u u' ys d d' where o: "l = xs @ u # ys" "map pview l' = map pview ((before @ [q]) @ xs @ u' # ys)" "spi_priority u' = spi_priority u"
    "d \<in> set (spi_swapdev u)" "enabled d" "taken d n s d'"
    "add_mset (view d) (mset (map view (spi_swapdev u'))) = add_mset (view d') (mset (map view (spi_swapdev u)))"
    "n = 1 \<longrightarrow> (\<forall>e \<in> set (all_devs xs). enabled e \<longrightarrow> dev_slots e = {})"
    using assms(1) unfolding pri_hit_def by blast
  have "p # l = (p # xs) @ u # ys" "map pview l' = map pview (before @ (p # xs) @ u' # ys)" using o(1,2) assms(2) by simp_all
  moreover have "n = 1 \<longrightarrow> (\<forall>e \<in> set (all_devs (p # xs)). enabled e \<longrightarrow> dev_slots e = {})" using o(8) assms(3) by auto
  ultimately show ?thesis using o(3-7) unfolding pri_hit_def by blast
qed

lemma alloc_pris_spec:
  assumes "\<forall>d \<in> set (all_devs (before @ l)). dev_ok d" and n: "1 \<le> n" "n \<le> 32"
  shows "\<exists>l' r. alloc_pris n before l = Ok (l', r) \<and> pri_outcome n before l r l'"
  using assms(1)
proof (induction l arbitrary: before)
  case Nil
  then show ?case by (simp add: pri_outcome_def)
next
  case (Cons p l)
  obtain ds r where a: "alloc_devs n [] (spi_swapdev p) = Ok (ds, r)" "dev_outcome n [] (spi_swapdev p) r ds"
    using alloc_devs_spec [OF _ n, of "[]" "spi_swapdev p"] Cons.prems by auto
  let ?p = "p\<lparr>spi_swapdev := ds\<rparr>"
  have ok: "\<forall>d \<in> set ds. dev_ok d" using a(2) by (simp add: dev_outcome_def)
  show ?case
  proof (cases r)
    case None
    then have v: "pview ?p = pview p" "n = 1 \<longrightarrow> (\<forall>d \<in> set (spi_swapdev p). enabled d \<longrightarrow> dev_slots d = {})"
      using a(2) by (simp_all add: dev_outcome_def pview_def)
    have ok': "\<forall>d \<in> set (all_devs ((before @ [?p]) @ l)). dev_ok d" using Cons.prems ok by auto
    obtain l' r' where r: "alloc_pris n (before @ [?p]) l = Ok (l', r')" "pri_outcome n (before @ [?p]) l r' l'"
      using Cons.IH [OF ok'] by blast
    have "pri_outcome n before (p # l) r' l'"
      using r(2) v pri_hit_pass [OF _ v] by (cases r') (auto simp: pri_outcome_def)
    then show ?thesis using a(1) r(1) None by simp
  next
    case (Some s)
    then obtain xs d d' ys where h: "spi_swapdev p = xs @ d # ys" "map view ds = map view (xs @ ys @ [d'])" "enabled d" "taken d n s d'"
      using a(2) by (auto simp: dev_outcome_def dev_hit_def)
    have "pri_hit n before (p # l) s (before @ ?p # l)" unfolding pri_hit_def
    proof (intro exI conjI)
      show "p # l = [] @ p # l" "map pview (before @ ?p # l) = map pview (before @ [] @ ?p # l)" by simp_all
      show "d \<in> set (spi_swapdev p)" "enabled d" "taken d n s d'" using h by simp_all
      show "add_mset (view d) (mset (map view (spi_swapdev ?p))) = add_mset (view d') (mset (map view (spi_swapdev p)))"
        using h(1) arg_cong [OF h(2), of mset] by simp
    qed simp_all
    then have "pri_outcome n before (p # l) r (before @ ?p # l)" using Some ok Cons.prems by (auto simp: pri_outcome_def)
    then show ?thesis using a(1) Some by simp
  qed
qed

section \<open>Swap space\<close>

definition drum_ok :: "(nat \<times> int set) list \<Rightarrow> bool" where
  "drum_ok ks \<longleftrightarrow> distinct (map fst ks) \<and> (\<forall>a \<in> set ks. \<forall>b \<in> set ks. fst a \<noteq> fst b \<longrightarrow> snd a \<inter> snd b = {})"

definition dev_key :: "swapdev \<Rightarrow> nat \<times> int set" where
  "dev_key d = (swd_vp d, drum_span d)"

definition pris_ok :: "swappri list \<Rightarrow> bool" where
  "pris_ok l \<longleftrightarrow> sorted_wrt (<) (map spi_priority l) \<and>
     (\<forall>p \<in> set l. spi_swapdev p \<noteq> [] \<and> (\<forall>d \<in> set (spi_swapdev p). swd_priority d = spi_priority p))"

definition avail_of :: "swapdev \<Rightarrow> int" where
  "avail_of d = (if enabled d then swd_npages d else 0)"

definition swap_ok :: "swapstate \<Rightarrow> bool" where
  "swap_ok st \<longleftrightarrow> (\<forall>d \<in> set (devs st). dev_ok d) \<and> drum_ok (map dev_key (devs st)) \<and> pris_ok (swap_priority st) \<and>
     nswapdev st = int (length (devs st)) \<and> swpginuse st = sum_list (map swd_npginuse (devs st)) \<and>
     swpages st = sum_list (map swd_npages (devs st)) \<and> swpgavail st = sum_list (map avail_of (devs st))"

definition free_slots :: "swapstate \<Rightarrow> int set" where
  "free_slots st = (\<Union>d \<in> set (devs st). dev_slots d)"

definition open_slots :: "swapstate \<Rightarrow> int set" where
  "open_slots st = (\<Union>d \<in> {d \<in> set (devs st). enabled d}. dev_slots d)"

lemma drum_ok_mset: "mset ks = mset ks' \<Longrightarrow> drum_ok ks = drum_ok ks'"
  unfolding drum_ok_def using mset_eq_imp_distinct_iff [of "map fst ks" "map fst ks'"] mset_eq_setD [of ks ks'] by (metis mset_map)

lemma sum_view: "(\<And>d. f (plain d) = f d) \<Longrightarrow> sum_list (map f ds) = (\<Sum>v \<in># mset (map view ds). f (fst v))"
  by (induction ds) (simp_all add: view_def)

lemma pris_view: "pris_ok l \<longleftrightarrow> sorted_wrt (<) (map fst (map pview l)) \<and>
   (\<forall>q \<in> set (map pview l). snd q \<noteq> [] \<and> (\<forall>v \<in> set (snd q). swd_priority (fst v) = fst q))"
  by (simp add: pris_ok_def pview_def view_def o_def)

end
