(* ===== verification/Swap_Alloc.thy ===== *)
theory Swap_Alloc
  imports Swap_Inv
begin

text \<open>
  Allocation and release of slots on the whole of swap space.
\<close>

lemma free_slots_view: "free_slots st = \<Union> (snd ` set_mset (mset (map view (devs st))))"
  by (auto simp: free_slots_def view_def)

lemma key_view: "dev_key d = (swd_vp (fst (view d)), drum_span (fst (view d)))"
  by (simp add: dev_key_def view_def)

lemma drum_view: "drum_ok (map dev_key ds) \<longleftrightarrow> drum_ok (map (\<lambda>v. (swd_vp (fst v), drum_span (fst v))) (map view ds))"
  by (simp add: dev_key_def [abs_def] view_def o_def)

text \<open>Nothing of the invariant but the consistency of the devices depends on more than the views.\<close>

lemma swap_ok_view:
  assumes "swap_ok st" "map pview (swap_priority st') = map pview (swap_priority st)" "\<forall>d \<in> set (devs st'). dev_ok d"
    "nswapdev st' = nswapdev st" "swpginuse st' = swpginuse st" "swpages st' = swpages st" "swpgavail st' = swpgavail st"
  shows "swap_ok st'" "free_slots st' = free_slots st"
proof -
  have v: "map view (devs st') = map view (devs st)" unfolding devs_def pview_devs assms(2) ..
  have l: "length (devs st') = length (devs st)" using v map_eq_imp_length_eq by blast
  have "pris_ok (swap_priority st')" using assms(1,2) unfolding swap_ok_def pris_view by simp
  then show "swap_ok st'" using assms l unfolding swap_ok_def drum_view v
    by (simp add: sum_view [of swd_npginuse] sum_view [of swd_npages] sum_view [of avail_of] avail_of_def v)
  show "free_slots st' = free_slots st" unfolding free_slots_view v ..
qed

text \<open>A device replaced by one with other free slots.\<close>

lemma exchange:
  assumes "add_mset x M' = add_mset x' M" "x \<in># M"
  obtains N where "M = add_mset x N" "M' = add_mset x' N"
proof -
  obtain N where N: "M = add_mset x N" using assms(2) by (metis insert_DiffM)
  have "add_mset x M' = add_mset x (add_mset x' N)" unfolding assms(1) N by (rule add_mset_commute)
  then show ?thesis using that N by simp
qed

lemma only_once: "distinct xs \<Longrightarrow> mset xs = add_mset x N \<Longrightarrow> x \<notin># N"
  by (metis distinct_count_atmost_1 count_add_mset count_mset not_in_iff One_nat_def Suc_inject le_simps(3) nat.distinct(1) in_multiset_in_set
      union_single_eq_member)

lemma taken_view:
  assumes "taken d n s d'"
  shows "swd_vp d' = swd_vp d" "drum_span d' = drum_span d" "swd_flags d' = swd_flags d" "swd_npages d' = swd_npages d" "swd_priority d' = swd_priority d"
    "swd_npginuse d' = swd_npginuse d + n" "swd_npgbad d' = swd_npgbad d"
proof -
  have b: "plain d' = plain (d\<lparr>swd_npginuse := swd_npginuse d + n\<rparr>)" using assms by (simp add: taken_def)
  show "swd_vp d' = swd_vp d" "drum_span d' = drum_span d" "swd_flags d' = swd_flags d" "swd_npages d' = swd_npages d" "swd_priority d' = swd_priority d"
    "swd_npginuse d' = swd_npginuse d + n" "swd_npgbad d' = swd_npgbad d"
    using plain_fields [of d'] plain_fields [of "d\<lparr>swd_npginuse := swd_npginuse d + n\<rparr>"] b by (simp_all add: drum_span_def)
qed

lemma vps_distinct: "swap_ok st \<Longrightarrow> distinct (map swd_vp (devs st))"
  by (simp add: swap_ok_def drum_ok_def dev_key_def [abs_def] o_def)

lemma other_dev:
  assumes ok: "swap_ok st" and d: "d \<in> set (devs st)" "e \<in> set (devs st)" "e \<noteq> d"
  shows "swd_vp e \<noteq> swd_vp d" "drum_span e \<inter> drum_span d = {}" "dev_slots e \<inter> drum_span d = {}"
proof -
  have k: "drum_ok (map dev_key (devs st))" and e: "dev_ok e" using ok d by (simp_all add: swap_ok_def)
  have "inj_on swd_vp (set (devs st))" using vps_distinct [OF ok] by (simp add: distinct_map)
  then show vp: "swd_vp e \<noteq> swd_vp d" using d by (auto dest: inj_onD)
  have "dev_key e \<in> set (map dev_key (devs st))" "dev_key d \<in> set (map dev_key (devs st))" using d by auto
  then show s: "drum_span e \<inter> drum_span d = {}" using k vp unfolding drum_ok_def dev_key_def by fastforce
  show "dev_slots e \<inter> drum_span d = {}" using dev_slots_span [OF e] s by blast
qed

lemma views_distinct: "swap_ok st \<Longrightarrow> distinct (map view (devs st))"
proof -
  assume "swap_ok st"
  then have d: "distinct (devs st)" "inj_on swd_vp (set (devs st))" using vps_distinct [of st] by (simp_all add: distinct_map)
  have "inj_on view (set (devs st))" by (rule inj_onI, rule inj_onD [OF d(2)]) (auto dest: view_eqD(3))
  then show ?thesis using d(1) by (simp add: distinct_map)
qed

lemma swap_exchange:
  assumes ok: "swap_ok st" and d: "d \<in> set (devs st)" and t: "taken d n s d'"
    and M: "add_mset (view d) (mset (map view (devs st'))) = add_mset (view d') (mset (map view (devs st)))"
    and st': "\<forall>d \<in> set (devs st'). dev_ok d" "pris_ok (swap_priority st')" "nswapdev st' = nswapdev st" "swpginuse st' = swpginuse st + n"
      "swpages st' = swpages st" "swpgavail st' = swpgavail st"
  shows "swap_ok st'" "free_slots st' = free_slots st - {s..<s + n}"
proof -
  have "view d \<in># mset (map view (devs st))" using d by simp
  from exchange [OF M this] obtain N where N: "mset (map view (devs st)) = add_mset (view d) N" "mset (map view (devs st')) = add_mset (view d') N" by metis
  note tv = taken_view [OF t]
  have f: "fst (view x) = plain x" for x by (simp add: view_def)
  have "length (devs st') = length (devs st)" using arg_cong [OF N(1), of size] arg_cong [OF N(2), of size] by simp
  moreover have "drum_ok (map dev_key (devs st'))"
  proof -
    have "mset (map (\<lambda>v. (swd_vp (fst v), drum_span (fst v))) (map view (devs st'))) = mset (map (\<lambda>v. (swd_vp (fst v), drum_span (fst v))) (map view (devs st)))"
      using arg_cong [OF N(1), of "image_mset (\<lambda>v. (swd_vp (fst v), drum_span (fst v)))"] arg_cong [OF N(2), of "image_mset (\<lambda>v. (swd_vp (fst v), drum_span (fst v)))"] tv
      by (simp add: f multiset.map_comp)
    from drum_ok_mset [OF this] show ?thesis using ok unfolding drum_view swap_ok_def by blast
  qed
  ultimately show "swap_ok st'" using ok st' tv unfolding swap_ok_def
    by (simp add: sum_view [of swd_npginuse] sum_view [of swd_npages] sum_view [of avail_of] avail_of_def N f del: mset_map)
  have sub: "{s..<s + n} \<subseteq> dev_slots d" "dev_slots d' = dev_slots d - {s..<s + n}" using t by (simp_all add: taken_def)
  have dd: "dev_slots d \<subseteq> drum_span d" using ok d dev_slots_span by (simp add: swap_ok_def)
  have "snd v \<inter> {s..<s + n} = {}" if "v \<in># N" for v
  proof -
    have "view d \<notin># N" using only_once [OF views_distinct [OF ok] N(1)] .
    then have "v \<noteq> view d" using that by auto
    moreover have "v \<in> view ` set (devs st)" using that arg_cong [OF N(1), of set_mset] by auto
    ultimately obtain e where "e \<in> set (devs st)" "e \<noteq> d" "v = view e" by auto
    then show ?thesis using other_dev(3) [OF ok d] sub(1) dd by (auto simp: view_def)
  qed
  then have "\<Union> (snd ` set_mset N) - {s..<s + n} = \<Union> (snd ` set_mset N)" by blast
  moreover have "snd (view x) = dev_slots x" for x by (simp add: view_def)
  ultimately show "free_slots st' = free_slots st - {s..<s + n}" unfolding free_slots_view N using sub(2) by auto
qed

section \<open>One round of the search\<close>

text \<open>A slot of a device such that no device of a lower priority number has room.\<close>

definition lowest :: "swapstate \<Rightarrow> int \<Rightarrow> bool" where
  "lowest st s \<longleftrightarrow> (\<exists>d \<in> set (devs st). s \<in> dev_slots d \<and> (\<forall>e \<in> set (devs st). enabled e \<and> dev_slots e \<noteq> {} \<longrightarrow> swd_priority d \<le> swd_priority e))"

text \<open>The devices after the slots from \<open>s\<close> on were taken from one of them.\<close>

definition slot_taken :: "int \<Rightarrow> int \<Rightarrow> swapstate \<Rightarrow> swapstate \<Rightarrow> bool" where
  "slot_taken n s st st' \<longleftrightarrow> (\<exists>d d'. d \<in> set (devs st) \<and> taken d n s d' \<and>
     add_mset (view d) (mset (map view (devs st'))) = add_mset (view d') (mset (map view (devs st))))"

lemma slot_taken_view:
  assumes "slot_taken n s st st'" "map view (devs st) = map view (devs st0)"
  shows "slot_taken n s st0 st'"
proof -
  obtain d d' where d: "d \<in> set (devs st)" "taken d n s d'"
    "add_mset (view d) (mset (map view (devs st'))) = add_mset (view d') (mset (map view (devs st)))"
    using assms(1) by (auto simp: slot_taken_def)
  have "view d \<in> set (map view (devs st0))" using d(1) unfolding assms(2) [symmetric] by simp
  then obtain e where e: "e \<in> set (devs st0)" "view e = view d" by auto
  have "plain (x\<lparr>swd_npginuse := k\<rparr>) = (plain x)\<lparr>swd_npginuse := k\<rparr>" for x k by (simp add: plain_def)
  then have "taken e n s d'" using d(2) view_eqD [OF e(2)] by (simp add: taken_def)
  then show ?thesis using d(3) e unfolding slot_taken_def assms(2) by metis
qed

definition try_post :: "int \<Rightarrow> swapstate \<Rightarrow> int option \<Rightarrow> swapstate \<Rightarrow> bool" where
  "try_post n st r st' \<longleftrightarrow> swap_ok st' \<and> (case r of
      None \<Rightarrow> free_slots st' = free_slots st \<and> (n = 1 \<longrightarrow> open_slots st = {}) \<and> map view (devs st') = map view (devs st)
    | Some s \<Rightarrow> 0 < s \<and> {s..<s + n} \<subseteq> open_slots st \<and> free_slots st' = free_slots st - {s..<s + n} \<and> swpginuse st' = swpginuse st + n \<and>
        slot_taken n s st st' \<and> (n = 1 \<longrightarrow> lowest st s))"

lemma pris_order:
  assumes "pris_ok (xs @ p # ys)" "d \<in> set (spi_swapdev p)" "e \<in> set (all_devs (p # ys))"
  shows "swd_priority d \<le> swd_priority e"
proof -
  obtain q where q: "q \<in> set (p # ys)" "e \<in> set (spi_swapdev q)" using assms(3) by auto
  have "spi_priority p \<le> spi_priority q" using assms(1) q(1) by (auto simp: pris_ok_def sorted_wrt_append)
  moreover have "swd_priority d = spi_priority p" "swd_priority e = spi_priority q" using assms(1,2) q by (auto simp: pris_ok_def)
  ultimately show ?thesis by simp
qed

lemma open_slots_view:
  assumes "map view (devs st') = map view (devs st)"
  shows "open_slots st' = open_slots st"
proof -
  have "open_slots s = \<Union> (snd ` {v \<in> set (map view (devs s)). enabled (fst v)})" for s
    by (auto simp: open_slots_def view_def)
  then show ?thesis by (simp only: assms)
qed

lemma lowest_view:
  assumes "map view (devs st') = map view (devs st)"
  shows "lowest st' s = lowest st s"
proof -
  have "lowest x s \<longleftrightarrow> (\<exists>v \<in> set (map view (devs x)). s \<in> snd v \<and>
      (\<forall>w \<in> set (map view (devs x)). enabled (fst w) \<and> snd w \<noteq> {} \<longrightarrow> swd_priority (fst v) \<le> swd_priority (fst w)))" for x
    by (simp add: lowest_def view_def)
  then show ?thesis by (simp only: assms)
qed

lemma pris_exchange:
  assumes ok: "pris_ok (xs @ p # ys)" and l: "map pview l = map pview (xs @ p' # ys)" "spi_priority p' = spi_priority p"
    and d: "d \<in> set (spi_swapdev p)" "swd_priority d' = swd_priority d"
    and M: "add_mset (view d) (mset (map view (spi_swapdev p'))) = add_mset (view d') (mset (map view (spi_swapdev p)))"
  shows "pris_ok l"
proof -
  have pr: "swd_priority e = spi_priority p" if "e \<in> set (spi_swapdev p)" for e using ok that by (simp add: pris_ok_def)
  have "swd_priority e = spi_priority p" if "e \<in> set (spi_swapdev p')" for e
  proof -
    have "view e \<in># add_mset (view d') (mset (map view (spi_swapdev p)))" using that unfolding M [symmetric] by simp
    then consider "view e = view d'" | f where "f \<in> set (spi_swapdev p)" "view e = view f" by auto
    then show ?thesis using view_eqD(5) [of e] pr d by cases auto
  qed
  moreover have "spi_swapdev p' \<noteq> []"
  proof
    assume "spi_swapdev p' = []"
    then have "spi_swapdev p = []" using arg_cong [OF M, of size] by simp
    then show False using d(1) by simp
  qed
  ultimately have "pris_ok (xs @ p' # ys)" using ok l(2) by (auto simp: pris_ok_def)
  then show ?thesis unfolding pris_view using l(1) by simp
qed

lemma swap_try_spec:
  assumes ok: "swap_ok st" and n: "1 \<le> n" "n \<le> 32"
  shows "\<exists>st' r. swap_try n st = Ok (st', r) \<and> try_post n st r st'"
proof -
  have "\<forall>d \<in> set (all_devs ([] @ swap_priority st)). dev_ok d" using ok by (simp add: swap_ok_def devs_def)
  from alloc_pris_spec [OF this n] obtain l r where l: "alloc_pris n [] (swap_priority st) = Ok (l, r)" "pri_outcome n [] (swap_priority st) r l" by blast
  have dl: "\<forall>d \<in> set (all_devs l). dev_ok d" using l(2) by (simp add: pri_outcome_def)
  show ?thesis
  proof (cases r)
    case None
    let ?st = "st\<lparr>swap_priority := l\<rparr>"
    have v: "map pview (swap_priority ?st) = map pview (swap_priority st)" using l(2) None by (simp add: pri_outcome_def)
    have "swap_ok ?st" "free_slots ?st = free_slots st" using swap_ok_view [OF ok v] dl by (simp_all add: devs_def)
    moreover have "map view (devs ?st) = map view (devs st)" by (simp only: devs_def pview_devs v)
    moreover have "n = 1 \<longrightarrow> open_slots st = {}" using l(2) None by (auto simp: pri_outcome_def open_slots_def devs_def)
    ultimately have "try_post n st None ?st" by (simp add: try_post_def)
    then show ?thesis using l(1) None by (simp add: swap_try_def)
  next
    case (Some s)
    let ?st = "st\<lparr>swap_priority := l, swpginuse := swpginuse st + n\<rparr>"
    obtain xs p p' ys d d' where h: "swap_priority st = xs @ p # ys" "map pview l = map pview (xs @ p' # ys)" "spi_priority p' = spi_priority p"
      "d \<in> set (spi_swapdev p)" "enabled d" "taken d n s d'"
      "add_mset (view d) (mset (map view (spi_swapdev p'))) = add_mset (view d') (mset (map view (spi_swapdev p)))"
      "n = 1 \<longrightarrow> (\<forall>e \<in> set (all_devs xs). enabled e \<longrightarrow> dev_slots e = {})"
      using l(2) Some by (auto simp: pri_outcome_def pri_hit_def)
    have d: "d \<in> set (devs st)" using h(1,4) by (simp add: devs_def)
    have M: "add_mset (view d) (mset (map view (devs ?st))) = add_mset (view d') (mset (map view (devs st)))"
    proof -
      have "map view (devs ?st) = map view (all_devs (xs @ p' # ys))" unfolding devs_def pview_devs using h(2) by simp
      then show ?thesis using h(7) by (simp add: devs_def h(1) del: mset_map)
    qed
    have P: "pris_ok (swap_priority ?st)"
      using ok h(1) pris_exchange [OF _ h(2,3,4) taken_view(5) [OF h(6)] h(7)] by (simp add: swap_ok_def)
    note e = swap_exchange [OF ok d h(6) M, OF _ P]
    have "{s..<s + n} \<subseteq> open_slots st" using h(5,6) d by (auto simp: taken_def open_slots_def)
    moreover have s: "0 < s" "s \<in> dev_slots d" using h(6) n by (auto simp: taken_def)
    have "swd_priority d \<le> swd_priority e" if "n = 1" "e \<in> set (devs st)" "enabled e" "dev_slots e \<noteq> {}" for e
    proof -
      have "e \<notin> set (all_devs xs)" using h(8) that by auto
      then have "e \<in> set (all_devs (p # ys))" using that(2) by (auto simp: devs_def h(1))
      then show ?thesis using pris_order [of xs p ys d e] ok h(1,4) by (simp add: swap_ok_def)
    qed
    then have "n = 1 \<longrightarrow> lowest st s" unfolding lowest_def using d s(2) by blast
    moreover have "slot_taken n s st ?st" unfolding slot_taken_def using d h(6) M by blast
    ultimately have "try_post n st (Some s) ?st" using e dl s(1) by (simp add: try_post_def devs_def)
    then show ?thesis using l(1) Some by (simp add: swap_try_def)
  qed
qed

section \<open>The operations\<close>

definition alloc_result :: "int \<Rightarrow> bool \<Rightarrow> swapstate \<Rightarrow> swapstate \<Rightarrow> int \<Rightarrow> int \<Rightarrow> bool" where
  "alloc_result n lessok st st' m s \<longleftrightarrow> swap_ok st' \<and> (m = n \<or> lessok \<and> m = 1) \<and>
     (s = 0 \<and> free_slots st' = free_slots st \<and> map view (devs st') = map view (devs st) \<and> (n = 1 \<or> lessok \<longrightarrow> open_slots st = {}) \<or>
      0 < s \<and> {s..<s + m} \<subseteq> open_slots st \<and> free_slots st' = free_slots st - {s..<s + m} \<and> swpginuse st' = swpginuse st + m \<and>
      slot_taken m s st st' \<and> (m = 1 \<longrightarrow> lowest st s))"

lemma swap_none: "swap_ok st \<Longrightarrow> nswapdev st < 1 \<Longrightarrow> open_slots st = {}"
  by (simp add: swap_ok_def open_slots_def)

lemma alloc_retry:
  assumes "try_post n st None st1" "try_post 1 st1 r st2" "lessok" "swap_ok st"
  shows "alloc_result n lessok st st2 1 (case r of Some s \<Rightarrow> s | None \<Rightarrow> 0)"
proof -
  have v: "map view (devs st1) = map view (devs st)" "free_slots st1 = free_slots st" using assms(1) by (simp_all add: try_post_def)
  have "swpginuse st1 = swpginuse st"
    using assms(1,4) v(1) by (simp add: try_post_def swap_ok_def sum_view [of swd_npginuse] del: mset_map)
  then show ?thesis using assms(2,3) open_slots_view [OF v(1)] lowest_view [OF v(1)] slot_taken_view [OF _ v(1)] v
    by (cases r) (simp_all add: try_post_def alloc_result_def)
qed

lemma uvm_swap_alloc_spec:
  assumes ok: "swap_ok st" and n: "1 \<le> n" "n \<le> 32"
  shows "\<exists>st' m s. uvm_swap_alloc n lessok st = Ok (st', m, s) \<and> alloc_result n lessok st st' m s"
proof (cases "nswapdev st < 1")
  case True
  then show ?thesis using ok swap_none [OF ok True] by (simp add: uvm_swap_alloc_def alloc_result_def)
next
  case False
  obtain st1 r1 where r1: "swap_try n st = Ok (st1, r1)" "try_post n st r1 st1" using swap_try_spec [OF ok n] by blast
  show ?thesis
  proof (cases "r1 = None \<and> 1 < n \<and> lessok")
    case True
    have "swap_ok st1" using r1(2) by (simp add: try_post_def)
    then obtain st2 r2 where r2: "swap_try 1 st1 = Ok (st2, r2)" "try_post 1 st1 r2 st2" using swap_try_spec [of st1 1] by auto
    then show ?thesis using r1 False True alloc_retry [OF _ r2(2), of n st lessok] ok by (simp add: uvm_swap_alloc_def)
  next
    case no: False
    then show ?thesis using r1 False n by (cases r1) (auto simp: uvm_swap_alloc_def alloc_result_def try_post_def)
  qed
qed

section \<open>Updates of one device\<close>

lemma devs_upd: "devs (upd_dev vp f st) = map (\<lambda>d. if swd_vp d = vp then f d else d) (devs st)"
  by (simp add: devs_def upd_dev_def map_concat o_def)

lemma upd_other: "d \<in> set ds \<Longrightarrow> distinct (map swd_vp ds) \<Longrightarrow>
  map (\<lambda>e. if swd_vp e = swd_vp d then f e else e) ds = map (\<lambda>e. if e = d then f d else e) ds"
  by (auto simp: distinct_map dest: inj_onD)

lemma sum_upd:
  fixes g :: "swapdev \<Rightarrow> int"
  shows "d \<in> set ds \<Longrightarrow> distinct ds \<Longrightarrow> sum_list (map g (map (\<lambda>e. if e = d then x else e) ds)) = sum_list (map g ds) + (g x - g d)"
proof (induction ds)
  case (Cons e ds)
  show ?case
  proof (cases "e = d")
    case True
    then have "map (\<lambda>e. if e = d then x else e) ds = ds" using Cons.prems(2) by (intro map_idI) auto
    then show ?thesis using True by simp
  qed (use Cons in simp)
qed simp

lemma swap_ok_upd:
  assumes ok: "swap_ok st" and d: "d \<in> set (devs st)"
    and f: "swd_vp (f d) = swd_vp d" "swd_priority (f d) = swd_priority d" "dev_ok (f d)" "\<forall>e \<in> set (devs st). e \<noteq> d \<longrightarrow> drum_span e \<inter> drum_span (f d) = {}"
    and st': "swap_priority st' = swap_priority (upd_dev (swd_vp d) f st)" "nswapdev st' = nswapdev st"
      "swpginuse st' = swpginuse st + (swd_npginuse (f d) - swd_npginuse d)" "swpages st' = swpages st + (swd_npages (f d) - swd_npages d)"
      "swpgavail st' = swpgavail st + (avail_of (f d) - avail_of d)"
  shows "swap_ok st'" "devs st' = map (\<lambda>e. if e = d then f d else e) (devs st)" "free_slots st' = (\<Union>e \<in> set (devs st) - {d}. dev_slots e) \<union> dev_slots (f d)"
proof -
  note vd = vps_distinct [OF ok]
  then have di: "distinct (devs st)" by (simp add: distinct_map)
  have "devs st' = devs (upd_dev (swd_vp d) f st)" using st'(1) by (simp add: devs_def)
  then show ds: "devs st' = map (\<lambda>e. if e = d then f d else e) (devs st)" unfolding devs_upd upd_other [OF d vd] .
  have "distinct (map swd_vp (devs st'))"
  proof -
    have "map swd_vp (devs st') = map swd_vp (devs st)" unfolding ds using f(1) by simp
    then show ?thesis using vd by simp
  qed
  moreover have "drum_span a \<inter> drum_span b = {}" if ab: "a \<in> set (devs st')" "b \<in> set (devs st')" "swd_vp a \<noteq> swd_vp b" for a b
  proof -
    have o: "drum_span x \<inter> drum_span y = {}" if "x \<in> set (devs st)" "y \<in> set (devs st)" "swd_vp x \<noteq> swd_vp y" for x y
      using other_dev(2) [OF ok that(2,1)] that(3) by blast
    have c: "x = f d \<or> x \<in> set (devs st) \<and> x \<noteq> d" if "x \<in> set (devs st')" for x using that unfolding ds by auto
    show ?thesis using c [OF ab(1)] c [OF ab(2)] ab(3) f(4) o by (metis Int_commute)
  qed
  ultimately have "drum_ok (map dev_key (devs st'))" by (auto simp: drum_ok_def dev_key_def [abs_def] o_def)
  moreover have "pris_ok (swap_priority st')"
  proof -
    have "swd_priority (f e) = swd_priority e" if "p \<in> set (swap_priority st)" "e \<in> set (spi_swapdev p)" "swd_vp e = swd_vp d" for e p
    proof -
      have "e = d" using other_dev(1) [OF ok d, of e] that by (auto simp: devs_def)
      then show ?thesis using f(2) by simp
    qed
    then show ?thesis using ok unfolding st'(1) upd_dev_def swap_ok_def pris_ok_def by (auto simp: o_def)
  qed
  moreover have "\<forall>e \<in> set (devs st'). dev_ok e" using ok f(3) unfolding ds swap_ok_def by auto
  moreover have "nswapdev st' = int (length (devs st'))" using ok st'(2) unfolding ds swap_ok_def by simp
  moreover have "swpginuse st' = sum_list (map swd_npginuse (devs st'))" "swpages st' = sum_list (map swd_npages (devs st'))"
    "swpgavail st' = sum_list (map avail_of (devs st'))"
    using ok st'(3-5) unfolding ds sum_upd [OF d di] swap_ok_def by simp_all
  ultimately show "swap_ok st'" by (simp add: swap_ok_def)
  show "free_slots st' = (\<Union>e \<in> set (devs st) - {d}. dev_slots e) \<union> dev_slots (f d)" unfolding free_slots_def ds using d by auto
qed

section \<open>Release\<close>

text \<open>What allocation and release leave of a device.\<close>

definition fixed :: "swapdev \<Rightarrow> nat \<times> u32 \<times> int \<times> int set" where
  "fixed d = (swd_vp d, swd_flags d, swd_npages d, drum_span d)"

lemma getsdp:
  assumes ok: "swap_ok st" and d: "d \<in> set (devs st)" "s \<in> drum_span d"
  shows "swapdrum_getsdp s st = Some d"
proof -
  let ?P = "\<lambda>e. swd_flags e AND SWF_FAKE = 0 \<and> swd_drumoffset e \<le> s \<and> s < swd_drumoffset e + swd_drumsize e"
  have P: "?P e \<longleftrightarrow> s \<in> drum_span e" for e by (simp add: drum_span_def)
  have "e = d" if "e \<in> set (devs st)" "s \<in> drum_span e" for e using other_dev(2) [OF ok d(1) that(1)] d(2) that(2) by blast
  moreover obtain e where e: "find ?P (devs st) = Some e"
    using d P find_None_iff [of ?P "devs st"] by (cases "find ?P (devs st)") auto
  moreover have "e \<in> set (devs st)" "s \<in> drum_span e" using e unfolding P [symmetric] find_Some_iff by auto
  ultimately show ?thesis unfolding swapdrum_getsdp_def by simp
qed

lemma uvm_swap_free_spec:
  assumes ok: "swap_ok st" and d: "d \<in> set (devs st)" and n: "1 \<le> n" "n \<le> swd_npginuse d"
    and s: "{s..<s + n} \<subseteq> drum_span d" "{s..<s + n} \<inter> dev_slots d = {}"
  shows "\<exists>st'. uvm_swap_free s n st = Ok st' \<and> swap_ok st' \<and> free_slots st' = free_slots st \<union> {s..<s + n} \<and> swpginuse st' = swpginuse st - n \<and>
    (\<exists>d'. devs st' = map (\<lambda>e. if e = d then d' else e) (devs st) \<and> fixed d' = fixed d \<and> swd_npginuse d' = swd_npginuse d - n \<and> swd_npgbad d' = swd_npgbad d)"
proof -
  have sd: "s \<in> drum_span d" "s + n - 1 \<in> drum_span d" using s(1) n(1) by auto
  then have l: "is_live d" by (auto simp: drum_span_def split: if_splits)
  have dok: "dev_ok d" using ok d by (simp add: swap_ok_def)
  obtain bl where bl: "swd_blist d = Some bl" "blist_ok bl" "swd_drumsize d = int (unat (bl_blocks bl))" "0 < swd_drumoffset d"
    "int (card (free_blocks bl)) = swd_npages d - swd_npginuse d" "dev_slots d = (\<lambda>b. swd_drumoffset d + int b) ` free_blocks bl"
    using dok l by (elim dev_okE)
  let ?f = "nat (s - swd_drumoffset d)" and ?k = "nat n"
  have r: "swd_drumoffset d \<le> s" "s + n \<le> swd_drumoffset d + int (unat (bl_blocks bl))" using sd l bl(3) by (simp_all add: drum_span_def)
  have i: "(\<lambda>b. swd_drumoffset d + int b) ` {?f..<?f + ?k} = {s..<s + n}" unfolding slot_interval using r(1) n(1) by simp
  have dj: "{?f..<?f + ?k} \<inter> free_blocks bl = {}" using s(2) unfolding i [symmetric] bl(6) by auto
  have "?f + ?k \<le> unat (bl_blocks bl)" "1 \<le> ?k" using r n(1) by linarith+
  from blist_free_spec [OF bl(2) this(2,1) dj] obtain bl' where b: "blist_free (Some bl) (of_nat ?f) (of_nat ?k) = Ok (Some bl')" "blist_ok bl'"
    "bl_blocks bl' = bl_blocks bl" "free_blocks bl' = free_blocks bl \<union> {?f..<?f + ?k}" by blast
  have w: "(word_of_int (s - swd_drumoffset d) :: u32) = of_nat ?f" "(word_of_int n :: u32) = of_nat ?k" using r(1) n(1) by simp_all
  let ?g = "\<lambda>d. d\<lparr>swd_blist := Some bl', swd_npginuse := swd_npginuse d - n\<rparr>"
  let ?st = "(upd_dev (swd_vp d) ?g st)\<lparr>swpginuse := swpginuse st - n\<rparr>"
  have "uvm_swap_free s n st = Ok ?st"
    using getsdp [OF ok d sd(1)] b(1) r(1) bl(1,4) unfolding uvm_swap_free_def w by (simp add: w upd_dev_def)
  moreover have "card (free_blocks bl') = card (free_blocks bl) + ?k"
    unfolding b(4) using card_Un_disjoint [OF free_blocks_bound(2) [OF bl(2)], of "{?f..<?f + ?k}"] dj by (simp add: Int_commute)
  then have "dev_ok (?g d)" using dok l b bl n by (simp add: dev_ok_def)
  moreover have sl: "dev_slots (?g d) = dev_slots d \<union> {s..<s + n}" unfolding bl(6) i [symmetric] using l b(4) by (simp add: dev_slots_def image_Un)
  moreover have "\<forall>e \<in> set (devs st). e \<noteq> d \<longrightarrow> drum_span e \<inter> drum_span (?g d) = {}"
  proof -
    have "drum_span (?g d) = drum_span d" by (simp add: drum_span_def)
    then show ?thesis using other_dev(2) [OF ok d] by simp
  qed
  ultimately have "swap_ok ?st" "devs ?st = map (\<lambda>e. if e = d then ?g d else e) (devs st)" "free_slots ?st = free_slots st \<union> {s..<s + n}"
    using swap_ok_upd [OF ok d, of ?g ?st] d by (auto simp: upd_dev_def avail_of_def free_slots_def)
  moreover have "fixed (?g d) = fixed d" by (simp add: fixed_def drum_span_def)
  ultimately show ?thesis using \<open>uvm_swap_free s n st = Ok ?st\<close> by (intro exI [of _ ?st] conjI exI [of _ "?g d"]) simp_all
qed

end
