(* ===== verification/Swap_Ctl.thy ===== *)
theory Swap_Ctl
  imports Swap_Alloc
begin

text \<open>
  The list of devices under \<open>swapctl(2)\<close>: inserting, finding and removing a device, and what the system call does to swap space.
\<close>

section \<open>Sizes\<close>

lemma swap_npages_eq:
  assumes "- (2 ^ 31) \<le> nb" "nb < 2 ^ 31"
  shows "swap_npages nb = nb div 8"
proof -
  have "nb * 512 div 4096 = nb div 8" by simp
  then have "drop_bit 12 (push_bit 9 nb) = nb div 8" by (simp add: drop_bit_eq_div push_bit_eq_mult)
  moreover have "take_bit 32 (drop_bit 12 (take_bit 64 (push_bit 9 nb))) = take_bit 32 (drop_bit 12 (push_bit 9 nb))"
    by (simp add: drop_bit_take_bit min_def)
  moreover have "uint (drop_bit 12 (push_bit 9 (word_of_int nb :: u64))) = drop_bit 12 (take_bit 64 (push_bit 9 nb))"
    by transfer (simp add: drop_bit_take_bit min_def)
  ultimately have "uint (ucast (drop_bit 12 (push_bit 9 (word_of_int nb :: u64))) :: u32) = take_bit 32 (nb div 8)"
    by (simp add: unsigned_ucast_eq)
  then have w: "(ucast (drop_bit 12 (push_bit 9 (word_of_int nb :: u64))) :: u32) = word_of_int (nb div 8)"
    by (simp add: word_uint_eq_iff unsigned_of_int)
  have "- (2 ^ 31) \<le> nb div 8" "nb div 8 < 2 ^ 31" using assms by (auto simp: div_le_dividend)
  then show ?thesis unfolding swap_npages_def w by (simp add: signed_of_int signed_take_bit_int_eq_self)
qed

section \<open>The list\<close>

definition pris_sorted :: "swappri list \<Rightarrow> bool" where
  "pris_sorted l \<longleftrightarrow> sorted_wrt (<) (map spi_priority l) \<and> (\<forall>p \<in> set l. \<forall>d \<in> set (spi_swapdev p). swd_priority d = spi_priority p)"

lemma pris_ok_iff: "pris_ok l \<longleftrightarrow> pris_sorted l \<and> (\<forall>p \<in> set l. spi_swapdev p \<noteq> [])"
  by (auto simp: pris_ok_def pris_sorted_def)

lemma insert_pri_devs: "mset (all_devs (insert_pri d k l)) = add_mset d (mset (all_devs l))"
  by (induction l) auto

lemma insert_pri_prios: "set (map spi_priority (insert_pri d k l)) = insert k (set (map spi_priority l))"
  by (induction l) auto

lemma insert_pri_nonempty: "\<forall>p \<in> set l. spi_swapdev p \<noteq> [] \<Longrightarrow> \<forall>p \<in> set (insert_pri d k l). spi_swapdev p \<noteq> []"
  by (induction l) auto

lemma insert_pri_sorted: "pris_sorted l \<Longrightarrow> swd_priority d = k \<Longrightarrow> pris_sorted (insert_pri d k l)"
proof (induction l)
  case (Cons p l)
  then have l: "pris_sorted l" "pris_sorted (insert_pri d k l)" by (simp_all add: pris_sorted_def)
  have "spi_priority p < spi_priority q" if "q \<in> set (insert_pri d k l)" "spi_priority p < k" for q
    using that insert_pri_prios [of d k l] Cons.prems(1) by (fastforce simp: pris_sorted_def)
  then show ?case using Cons.prems l by (auto simp: pris_sorted_def)
qed (simp add: pris_sorted_def)

lemma findD: "find P xs = Some x \<Longrightarrow> P x \<and> x \<in> set xs"
  by (auto simp: find_Some_iff)

lemma find_pri_None: "find_pri vp l = None \<longleftrightarrow> vp \<notin> swd_vp ` set (all_devs l)"
  by (induction l) (auto simp: find_None_iff image_iff dest: findD split: option.splits)

lemma find_pri_Some:
  "find_pri vp l = Some (d, l') \<Longrightarrow> swd_vp d = vp \<and> d \<in> set (all_devs l) \<and> mset (all_devs l) = add_mset d (mset (all_devs l'))
    \<and> map spi_priority l' = map spi_priority l \<and> (pris_sorted l \<longrightarrow> pris_sorted l')"
proof (induction l arbitrary: l')
  case (Cons p l)
  show ?case
  proof (cases "find (\<lambda>sdp. swd_vp sdp = vp) (spi_swapdev p)")
    case None
    then obtain r where r: "find_pri vp l = Some (d, r)" "l' = p # r" using Cons.prems by auto
    have IH: "swd_vp d = vp" "d \<in> set (all_devs l)" "mset (all_devs l) = add_mset d (mset (all_devs r))" "map spi_priority r = map spi_priority l"
      "pris_sorted l \<longrightarrow> pris_sorted r" using Cons.IH [OF r(1)] by blast+
    have "pris_sorted (p # r)" if "pris_sorted (p # l)"
    proof -
      have "\<forall>q \<in> set r. spi_priority p < spi_priority q" using that IH(4) unfolding pris_sorted_def
        by (metis list.simps(9) sorted_wrt.simps(2) image_eqI set_map)
      then show ?thesis using that IH(5) by (auto simp: pris_sorted_def)
    qed
    then show ?thesis using IH r(2) by auto
  next
    case (Some e)
    then have e: "d = e" "l' = p\<lparr>spi_swapdev := remove1 e (spi_swapdev p)\<rparr> # l" "swd_vp e = vp" "e \<in> set (spi_swapdev p)"
      using Cons.prems findD [OF Some] by auto
    have "mset (spi_swapdev p) = add_mset e (mset (remove1 e (spi_swapdev p)))" using e(4) by simp
    then show ?thesis using e set_remove1_subset [of e "spi_swapdev p"] by (auto simp: pris_sorted_def)
  qed
qed simp

lemma trim_devs: "all_devs (filter (\<lambda>p. spi_swapdev p \<noteq> []) l) = all_devs l"
  by (induction l) auto

lemma trim_ok: "pris_sorted l \<Longrightarrow> pris_ok (filter (\<lambda>p. spi_swapdev p \<noteq> []) l)"
  by (auto simp: pris_ok_iff pris_sorted_def sorted_wrt_map sorted_wrt_filter)

section \<open>Adding and removing a device\<close>

definition devs_ok :: "swapdev list \<Rightarrow> int \<Rightarrow> int \<Rightarrow> int \<Rightarrow> int \<Rightarrow> bool" where
  "devs_ok ds n i p a \<longleftrightarrow> (\<forall>d \<in> set ds. dev_ok d) \<and> drum_ok (map dev_key ds) \<and> n = int (length ds) \<and> i = sum_list (map swd_npginuse ds) \<and>
     p = sum_list (map swd_npages ds) \<and> a = sum_list (map avail_of ds)"

lemma swap_ok_devs: "swap_ok st \<longleftrightarrow> pris_ok (swap_priority st) \<and> devs_ok (devs st) (nswapdev st) (swpginuse st) (swpages st) (swpgavail st)"
  by (auto simp: swap_ok_def devs_ok_def)

lemma devs_ok_mset:
  assumes "mset ds = mset es"
  shows "devs_ok ds n i p a = devs_ok es n i p a"
proof -
  have "sum_list (map f ds) = sum_list (map f es)" for f :: "swapdev \<Rightarrow> int" using assms by (metis mset_map sum_mset_sum_list)
  moreover have "drum_ok (map dev_key ds) = drum_ok (map dev_key es)" using assms by (intro drum_ok_mset) simp
  ultimately show ?thesis using assms mset_eq_setD [OF assms] mset_eq_length [OF assms] by (simp add: devs_ok_def)
qed

lemma drum_ok_Cons: "drum_ok (k # ks) \<longleftrightarrow> drum_ok ks \<and> fst k \<notin> fst ` set ks \<and> (\<forall>b \<in> set ks. snd b \<inter> snd k = {})" (is "?L = ?R")
proof
  assume L: ?L
  then have "fst k \<notin> fst ` set ks" by (simp add: drum_ok_def)
  moreover have "snd b \<inter> snd k = {}" if "b \<in> set ks" for b
  proof -
    have "fst b \<noteq> fst k" using calculation that by (metis imageI)
    then show ?thesis using L that unfolding drum_ok_def by (metis list.set_intros)
  qed
  ultimately show ?R using L by (simp add: drum_ok_def)
next
  assume R: ?R
  then have "snd a \<inter> snd b = {}" if "a \<in> set (k # ks)" "b \<in> set (k # ks)" "fst a \<noteq> fst b" for a b
    using that unfolding drum_ok_def by (metis Int_commute set_ConsD)
  then show ?L using R unfolding drum_ok_def by simp
qed

lemma devs_ok_Cons: "devs_ok (d # ds) n i p a \<longleftrightarrow>
   devs_ok ds (n - 1) (i - swd_npginuse d) (p - swd_npages d) (a - avail_of d) \<and> dev_ok d \<and> swd_vp d \<notin> swd_vp ` set ds \<and> (\<forall>e \<in> set ds. drum_span e \<inter> drum_span d = {})"
proof -
  have "drum_ok (map dev_key (d # ds)) \<longleftrightarrow> drum_ok (map dev_key ds) \<and> swd_vp d \<notin> swd_vp ` set ds \<and> (\<forall>e \<in> set ds. drum_span e \<inter> drum_span d = {})"
    unfolding list.map drum_ok_Cons by (simp add: dev_key_def image_image)
  then show ?thesis by (auto simp: devs_ok_def)
qed

lemma prio_simps [simp]:
  "dev_ok (d\<lparr>swd_priority := k\<rparr>) = dev_ok d" "drum_span (d\<lparr>swd_priority := k\<rparr>) = drum_span d" "avail_of (d\<lparr>swd_priority := k\<rparr>) = avail_of d"
  "dev_slots (d\<lparr>swd_priority := k\<rparr>) = dev_slots d"
  by (simp_all add: dev_ok_def drum_span_def avail_of_def dev_slots_def split: option.splits)

lemma insert_devs: "mset (devs (swaplist_insert d k st)) = add_mset (d\<lparr>swd_priority := k\<rparr>) (mset (devs st))"
  by (simp add: swaplist_insert_def devs_def insert_pri_devs)

lemma insert_devs_ok:
  assumes "devs_ok (d # devs st) (nswapdev st + 1) i p a"
  shows "devs_ok (devs (swaplist_insert d k st)) (nswapdev (swaplist_insert d k st)) i p a"
proof -
  have "devs_ok (d\<lparr>swd_priority := k\<rparr> # devs st) (nswapdev st + 1) i p a" using assms unfolding devs_ok_Cons by simp
  then show ?thesis using devs_ok_mset [of "devs (swaplist_insert d k st)" "d\<lparr>swd_priority := k\<rparr> # devs st"] insert_devs [of d k st]
    by (simp add: swaplist_insert_def)
qed

lemma trim_swap_ok:
  assumes "pris_sorted (swap_priority st)" "devs_ok (devs st) (nswapdev st) (swpginuse st) (swpages st) (swpgavail st)"
  shows "swap_ok (swaplist_trim st)" "devs (swaplist_trim st) = devs st"
proof -
  show d: "devs (swaplist_trim st) = devs st" unfolding devs_def by (simp add: swaplist_trim_def trim_devs)
  show "swap_ok (swaplist_trim st)" unfolding swap_ok_devs d using assms trim_ok by (simp add: swaplist_trim_def)
qed

lemma find_removed:
  assumes "swap_ok st" "swaplist_find vp True st = (st', Some d)"
  shows "swd_vp d = vp" "d \<in> set (devs st)" "mset (devs st) = add_mset d (mset (devs st'))" "pris_sorted (swap_priority st')"
    "nswapdev st' = nswapdev st - 1" "swpginuse st' = swpginuse st" "swpages st' = swpages st" "swpgavail st' = swpgavail st"
    "devs_ok (d # devs st') (nswapdev st) (swpginuse st) (swpages st) (swpgavail st)" "set (devs st) - {d} = set (devs st')"
proof -
  obtain l where l: "find_pri vp (swap_priority st) = Some (d, l)" "st' = st\<lparr>swap_priority := l, nswapdev := nswapdev st - 1\<rparr>"
    using assms(2) by (auto simp: swaplist_find_def split: option.splits)
  note f = find_pri_Some [OF l(1)]
  show "swd_vp d = vp" "d \<in> set (devs st)" using f by (simp_all add: devs_def)
  show m: "mset (devs st) = add_mset d (mset (devs st'))" using f l(2) by (simp add: devs_def)
  show "pris_sorted (swap_priority st')" using f l(2) assms(1) by (simp add: swap_ok_def pris_ok_iff)
  show "nswapdev st' = nswapdev st - 1" "swpginuse st' = swpginuse st" "swpages st' = swpages st" "swpgavail st' = swpgavail st" using l(2) by simp_all
  have "mset (devs st) = mset (d # devs st')" using m by simp
  from devs_ok_mset [OF this] show "devs_ok (d # devs st') (nswapdev st) (swpginuse st) (swpages st) (swpgavail st)"
    using assms(1) by (simp add: swap_ok_devs)
  have "distinct (devs st)" using vps_distinct [OF assms(1)] by (simp add: distinct_map)
  from only_once [OF this m] show "set (devs st) - {d} = set (devs st')" using arg_cong [OF m, of set_mset] by auto
qed

lemma find_None: "snd (swaplist_find vp b st) = None \<longleftrightarrow> vp \<notin> swd_vp ` set (devs st)"
  unfolding devs_def find_pri_None [symmetric] by (simp add: swaplist_find_def split: option.splits)

lemma find_Some:
  assumes "swap_ok st" "d \<in> set (devs st)"
  shows "snd (swaplist_find (swd_vp d) b st) = Some d" "fst (swaplist_find vp False st) = st"
proof -
  have "find_pri (swd_vp d) (swap_priority st) \<noteq> None" using assms(2) by (simp add: find_pri_None devs_def del: set_concat)
  then obtain e l where e: "find_pri (swd_vp d) (swap_priority st) = Some (e, l)" by auto
  have "swd_vp e = swd_vp d" "e \<in> set (devs st)" using find_pri_Some [OF e] by (simp_all add: devs_def)
  then have "e = d" using other_dev(1) [OF assms] by blast
  then show "snd (swaplist_find (swd_vp d) b st) = Some d" using e by (simp add: swaplist_find_def)
  show "fst (swaplist_find vp False st) = st" by (simp add: swaplist_find_def split: option.splits)
qed

section \<open>Changing the priority\<close>

lemma free_slots_mset: "mset (devs st) = add_mset d (mset (devs st')) \<Longrightarrow> free_slots st = dev_slots d \<union> free_slots st'"
proof -
  assume "mset (devs st) = add_mset d (mset (devs st'))"
  then have "set (devs st) = insert d (set (devs st'))" by (metis set_mset_add_mset_insert set_mset_mset)
  then show ?thesis by (simp add: free_slots_def)
qed

lemma swap_ctl_spec:
  assumes ok: "swap_ok st" and d: "d \<in> set (devs st)"
  shows "\<exists>st'. sys_swapctl env pagein (SWAP_CTL k) (swd_vp d) st = Ok (st', 0) \<and> swap_ok st' \<and> free_slots st' = free_slots st \<and>
    set (devs st') = insert (d\<lparr>swd_priority := k\<rparr>) (set (devs st) - {d})"
proof -
  obtain st1 where f: "swaplist_find (swd_vp d) True st = (st1, Some d)" using find_Some(1) [OF ok d, of True] by (metis prod.collapse)
  note r = find_removed [OF ok f]
  let ?st = "swaplist_insert d k st1"
  have "devs_ok (devs ?st) (nswapdev ?st) (swpginuse ?st) (swpages ?st) (swpgavail ?st)"
    using insert_devs_ok [of d st1] r(5-9) by (simp add: swaplist_insert_def)
  moreover have "pris_sorted (swap_priority ?st)" using insert_pri_sorted [OF r(4), of "d\<lparr>swd_priority := k\<rparr>" k] by (simp add: swaplist_insert_def)
  ultimately have t: "swap_ok (swaplist_trim ?st)" "devs (swaplist_trim ?st) = devs ?st" using trim_swap_ok by blast+
  have m: "mset (devs ?st) = add_mset (d\<lparr>swd_priority := k\<rparr>) (mset (devs st1))" by (rule insert_devs)
  have "free_slots (swaplist_trim ?st) = free_slots ?st" using t(2) by (simp add: free_slots_def)
  also have "\<dots> = free_slots st" using free_slots_mset [OF m] free_slots_mset [OF r(3)] by simp
  moreover have "set (devs (swaplist_trim ?st)) = insert (d\<lparr>swd_priority := k\<rparr>) (set (devs st) - {d})"
    unfolding t(2) r(10) using arg_cong [OF m, of set_mset] by simp
  ultimately show ?thesis using t(1) f by (simp add: sys_swapctl_def)
qed

section \<open>Starting to swap\<close>

text \<open>The block list of a new device: everything behind the label is free, and then everything behind the miniroot.\<close>

lemma swap_list:
  assumes "1 \<le> sz" "0 \<le> addr" "addr + sz = npages" "npages \<le> 2 ^ 28"
  shows "\<exists>b0 bl. blist_create junk (word_of_int npages) = Ok b0 \<and> blist_free (Some b0) (word_of_int addr) (word_of_int sz) = Ok (Some bl) \<and> blist_ok bl \<and>
    int (unat (bl_blocks bl)) = npages \<and> free_blocks bl = {nat addr..<nat npages}"
proof -
  have w: "(word_of_int npages :: u32) = of_nat (nat npages)" "(word_of_int addr :: u32) = of_nat (nat addr)" "(word_of_int sz :: u32) = of_nat (nat sz)"
    using assms by simp_all
  have n: "0 < nat npages" "nat npages \<le> 2 ^ 29" using assms by simp_all
  obtain b0 where b0: "blist_create junk (of_nat (nat npages)) = Ok b0" "blist_ok b0" "bl_blocks b0 = of_nat (nat npages)" "free_blocks b0 = {}"
    using blist_create_spec [OF n] by blast
  have u: "unat (bl_blocks b0) = nat npages" unfolding b0(3) using n(2) by (simp add: unat_of_nat)
  have s1: "1 \<le> nat sz" using assms(1) by linarith
  have "nat addr + nat sz = nat npages" using assms by linarith
  then obtain bl where bl: "blist_free (Some b0) (of_nat (nat addr)) (of_nat (nat sz)) = Ok (Some bl)" "blist_ok bl" "bl_blocks bl = bl_blocks b0"
      "free_blocks bl = {nat addr..<nat npages}"
    using blist_free_spec [OF b0(2) s1, of "nat addr"] u b0(4) by auto
  have "int (unat (bl_blocks bl)) = int (nat npages)" by (simp only: bl(3) u)
  then have "int (unat (bl_blocks bl)) = npages" using n(1) by linarith
  then show ?thesis unfolding w using b0(1) bl by blast
qed

lemma swap_preserve_spec:
  assumes bl: "blist_ok bl" "int (unat (bl_blocks bl)) = npages" "free_blocks bl = {nat addr..<nat npages}"
    and a: "0 \<le> addr" "addr + sz = npages" and rp: "swap_rootpages (f_rootblocks env) = Ok rp" "1 \<le> rp" "rp \<le> sz"
  shows "\<exists>bl'. swap_preserve env addr sz (Some bl) = Ok (Some bl', sz - rp) \<and> blist_ok bl' \<and> bl_blocks bl' = bl_blocks bl \<and>
    free_blocks bl' = {nat (addr + rp)..<nat npages}"
proof -
  have w: "(word_of_int rp :: u32) = of_nat (nat rp)" "(word_of_int addr :: u32) = of_nat (nat addr)" using a rp by simp_all
  have le: "nat addr + nat rp \<le> unat (bl_blocks bl)" "1 \<le> nat rp" using a bl(2) rp by linarith+
  have i: "free_blocks bl \<inter> {nat addr..<nat addr + nat rp} = {nat addr..<nat addr + nat rp}" using bl(2,3) le(1) by auto
  obtain bl' where f: "blist_fill (Some bl) (of_nat (nat addr)) (of_nat (nat rp)) = Ok (Some bl', of_nat (nat rp))" "blist_ok bl'" "bl_blocks bl' = bl_blocks bl"
    "free_blocks bl' = free_blocks bl - {nat addr..<nat addr + nat rp}"
    using blist_fill_spec [OF bl(1) le(2,1)] unfolding i by auto
  have "nat rp \<le> 2 ^ 29" using le(1) blist_ok_blocks [OF bl(1)] by linarith
  then have "unat (of_nat (nat rp) :: u32) = nat rp" by (simp add: unat_of_nat)
  then have "int (unat (of_nat (nat rp) :: u32)) = rp" using rp(2) by (simp only: int_nat_eq) simp
  then have "uint (of_nat (nat rp) :: u32) = rp" by simp
  moreover have "free_blocks bl' = {nat (addr + rp)..<nat npages}" unfolding f(4) bl(3) using a(1) rp(2) by (auto simp: nat_add_distrib)
  ultimately show ?thesis using f rp unfolding swap_preserve_def w by simp
qed

text \<open>What the vnode layer and the drum map give for a device that can be used.\<close>

definition swap_addr :: "swap_env \<Rightarrow> nat \<Rightarrow> int" where
  "swap_addr env vp = (if v_type env vp = VBLK then 1 else 0)"

definition usable :: "swap_env \<Rightarrow> nat \<Rightarrow> int \<Rightarrow> int \<Rightarrow> bool" where
  "usable env vp nb rp \<longleftrightarrow> (vp = rootvp env \<or> VOP_OPEN env vp = 0) \<and> swap_size env vp = Inr nb \<and> 0 \<le> nb \<and> nb < 2 ^ 31 \<and> 1 \<le> nb div 8 - swap_addr env vp \<and>
     (if vp = rootvp env then swap_rootpages (f_rootblocks env) = Ok rp \<and> 1 \<le> rp \<and> rp \<le> nb div 8 - swap_addr env vp else rp = 0)"

definition drum_free :: "swap_env \<Rightarrow> swapstate \<Rightarrow> int \<Rightarrow> bool" where
  "drum_free env st n \<longleftrightarrow> 0 < vmem_alloc env n \<and> (\<forall>d \<in> set (devs st). drum_span d \<inter> {vmem_alloc env n..<vmem_alloc env n + n} = {})"

lemma upd_upd: "(\<And>d. swd_vp (f d) = swd_vp d) \<Longrightarrow> upd_dev vp g (upd_dev vp f st) = upd_dev vp (g \<circ> f) st"
  by (simp add: upd_dev_def o_def)

lemma usable_list:
  assumes "usable env vp nb rp"
  defines "sz \<equiv> nb div 8 - swap_addr env vp"
  shows "\<exists>b0 b1 bl. blist_create (blist_mem env) (word_of_int (nb div 8)) = Ok b0 \<and>
    blist_free (Some b0) (word_of_int (swap_addr env vp)) (word_of_int sz) = Ok (Some b1) \<and>
    (if vp = rootvp env then swap_preserve env (swap_addr env vp) sz (Some b1) else Ok (Some b1, sz)) = Ok (Some bl, sz - rp) \<and>
    blist_ok bl \<and> int (unat (bl_blocks bl)) = nb div 8 \<and> free_blocks bl = {nat (swap_addr env vp + rp)..<nat (nb div 8)}"
proof -
  have a: "0 \<le> swap_addr env vp" "swap_addr env vp + sz = nb div 8" "1 \<le> sz"
    using assms(1) by (simp_all add: usable_def sz_def swap_addr_def)
  have "nb < 2 ^ 31" using assms(1) by (simp add: usable_def)
  then have le: "nb div 8 \<le> 2 ^ 28" by simp
  obtain b0 b1 where b: "blist_create (blist_mem env) (word_of_int (nb div 8)) = Ok b0"
    "blist_free (Some b0) (word_of_int (swap_addr env vp)) (word_of_int sz) = Ok (Some b1)" "blist_ok b1" "int (unat (bl_blocks b1)) = nb div 8"
    "free_blocks b1 = {nat (swap_addr env vp)..<nat (nb div 8)}" using swap_list [OF a(3,1,2) le] by blast
  show ?thesis
  proof (cases "vp = rootvp env")
    case True
    then have rp: "swap_rootpages (f_rootblocks env) = Ok rp" "1 \<le> rp" "rp \<le> sz" using assms(1) by (simp_all add: usable_def sz_def)
    obtain bl where "swap_preserve env (swap_addr env vp) sz (Some b1) = Ok (Some bl, sz - rp)" "blist_ok bl" "bl_blocks bl = bl_blocks b1"
      "free_blocks bl = {nat (swap_addr env vp + rp)..<nat (nb div 8)}" using swap_preserve_spec [OF b(3-5) a(1,2) rp] by blast
    then show ?thesis using True b(1,2,4) by (metis (full_types))
  next
    case False
    then show ?thesis using assms(1) b by (simp add: usable_def)
  qed
qed

lemma swap_on_spec:
  assumes ok: "swap_ok st" and d: "d \<in> set (devs st)" "swd_vp d = vp" "swd_flags d = SWF_FAKE"
    and u: "usable env vp nb rp" and v: "drum_free env st (nb div 8)"
  defines "off \<equiv> vmem_alloc env (nb div 8)"
  shows "\<exists>st' d'. swap_on env vp st = Ok (st', 0) \<and> swap_ok st' \<and> free_slots st' = free_slots st \<union> {off + swap_addr env vp + rp..<off + nb div 8} \<and>
    devs st' = map (\<lambda>e. if e = d then d' else e) (devs st) \<and> enabled d' \<and> drum_span d' = {off..<off + nb div 8} \<and> swd_vp d' = vp \<and> swd_npginuse d' = 0 \<and>
    swd_npgbad d' = swd_npgbad d"
proof -
  let ?sz = "nb div 8 - swap_addr env vp"
  obtain b0 b1 bl where b: "blist_create (blist_mem env) (word_of_int (nb div 8)) = Ok b0"
    "blist_free (Some b0) (word_of_int (swap_addr env vp)) (word_of_int ?sz) = Ok (Some b1)"
    "(if vp = rootvp env then swap_preserve env (swap_addr env vp) ?sz (Some b1) else Ok (Some b1, ?sz)) = Ok (Some bl, ?sz - rp)"
    "blist_ok bl" "int (unat (bl_blocks bl)) = nb div 8" "free_blocks bl = {nat (swap_addr env vp + rp)..<nat (nb div 8)}"
    using usable_list [OF u] by blast
  have np: "swap_npages nb = nb div 8" using u by (intro swap_npages_eq) (simp_all add: usable_def)
  have sa: "(if v_type env vp = VBLK then (nb div 8 - 1, 1) else (nb div 8, 0)) = (?sz, swap_addr env vp)" by (simp add: swap_addr_def)
  let ?f = "\<lambda>d. d\<lparr>swd_nblks := nb, swd_blist := Some bl, swd_drumoffset := off, swd_drumsize := nb div 8,
              swd_npages := ?sz - rp, swd_flags := (swd_flags d AND NOT SWF_FAKE) OR (SWF_INUSE OR SWF_ENABLE)\<rparr>"
  let ?st = "(upd_dev vp ?f st)\<lparr>swpages := swpages st + (?sz - rp), swpgavail := swpgavail st + (?sz - rp)\<rparr>"
  have opn: "\<not> (vp \<noteq> rootvp env \<and> VOP_OPEN env vp \<noteq> 0)" and size: "swap_size env vp = Inr nb" "\<not> ?sz < 1" "off \<noteq> 0"
    using u v by (auto simp: usable_def drum_free_def off_def)
  have "swap_on env vp st = Ok (?st, 0)"
    unfolding swap_on_def if_not_P [OF opn] size(1) sum.case Let_def np sa prod.case if_not_P [OF size(2)] b(1,2) bind_r.simps b(3)
    using size(3) by (simp add: off_def [symmetric] upd_dev_def o_def if_distrib [of swd_vp] cong: if_cong)
  moreover have z: "swd_npages d = 0" "swd_npginuse d = 0" "dev_slots d = {}" "avail_of d = 0"
    using ok d by (auto simp: swap_ok_def dev_ok_def dev_slots_def avail_of_def)
  moreover have fl: "(swd_flags d AND NOT SWF_FAKE) OR (SWF_INUSE OR SWF_ENABLE) = 3" unfolding d(3) by simp
  then have lv: "is_live (?f d)" "enabled (?f d)" by simp_all
  have r: "0 \<le> swap_addr env vp + rp" "swap_addr env vp + rp \<le> nb div 8" using u by (auto simp: usable_def swap_addr_def split: if_splits)
  have "int (card (free_blocks bl)) = ?sz - rp" unfolding b(6) using r by simp
  then have "dev_ok (?f d)" using lv(1) z b(4,5) v by (simp add: dev_ok_def drum_free_def off_def)
  moreover have "dev_slots (?f d) = {off + swap_addr env vp + rp..<off + nb div 8}"
  proof -
    have "dev_slots (?f d) = (\<lambda>x. off + int x) ` free_blocks bl" using lv(1) by (simp add: dev_slots_def)
    also have "\<dots> = {off + swap_addr env vp + rp..<off + nb div 8}"
      unfolding b(6) using slot_interval [of off "nat (swap_addr env vp + rp)" "nat (nb div 8) - nat (swap_addr env vp + rp)"] r by (simp add: ac_simps)
    finally show ?thesis .
  qed
  moreover have sp: "drum_span (?f d) = {off..<off + nb div 8}" using lv(1) by (simp add: drum_span_def)
  then have "\<forall>e \<in> set (devs st). e \<noteq> d \<longrightarrow> drum_span e \<inter> drum_span (?f d) = {}" using v by (simp add: drum_free_def off_def)
  moreover have "avail_of (?f d) = ?sz - rp" using lv(2) by (simp add: avail_of_def)
  moreover have "(\<Union>e \<in> set (devs st) - {d}. dev_slots e) = free_slots st" using z(3) by (auto simp: free_slots_def)
  ultimately have "swap_ok ?st" "devs ?st = map (\<lambda>e. if e = d then ?f d else e) (devs st)"
    "free_slots ?st = free_slots st \<union> {off + swap_addr env vp + rp..<off + nb div 8}"
    using swap_ok_upd [OF ok d(1), of ?f ?st] d(2) by (simp_all add: upd_dev_def)
  then show ?thesis using \<open>swap_on env vp st = Ok (?st, 0)\<close> lv(2) sp z(2) d(2) by (intro exI [of _ ?st] exI [of _ "?f d"]) simp
qed

text \<open>The placeholder that \<open>SWAP_ON\<close> puts on the list.\<close>

lemma placeholder:
  fixes k :: int
  assumes ok: "swap_ok st" and vp: "vp \<notin> swd_vp ` set (devs st)"
  defines "d \<equiv> (new_swapdev vp)\<lparr>swd_priority := k\<rparr>" and "st' \<equiv> swaplist_insert (new_swapdev vp) k st"
  shows "swap_ok st'" "mset (devs st') = add_mset d (mset (devs st))" "free_slots st' = free_slots st"
proof -
  have n: "dev_ok (new_swapdev vp)" "drum_span (new_swapdev vp) = {}" "avail_of (new_swapdev vp) = 0" "dev_slots d = {}"
    by (simp_all add: d_def new_swapdev_def dev_ok_def drum_span_def avail_of_def dev_slots_def)
  show m: "mset (devs st') = add_mset d (mset (devs st))" unfolding st'_def d_def by (rule insert_devs)
  have "devs_ok (new_swapdev vp # devs st) (nswapdev st + 1) (swpginuse st) (swpages st) (swpgavail st)"
    using ok vp n unfolding devs_ok_Cons swap_ok_devs by (simp add: new_swapdev_def)
  from insert_devs_ok [OF this, of k] show "swap_ok st'" unfolding st'_def swap_ok_devs
    using ok insert_pri_sorted [of "swap_priority st" d k] insert_pri_nonempty [of "swap_priority st" d k]
    by (simp add: swaplist_insert_def d_def swap_ok_def pris_ok_iff)
  show "free_slots st' = free_slots st" using free_slots_mset [OF m] n(4) by simp
qed

lemma swapctl_on_spec:
  assumes ok: "swap_ok st" and vp: "vp \<notin> swd_vp ` set (devs st)" and u: "usable env vp nb rp" and v: "drum_free env st (nb div 8)"
  defines "off \<equiv> vmem_alloc env (nb div 8)"
  shows "\<exists>st' d'. sys_swapctl env pagein (SWAP_ON k) vp st = Ok (st', 0) \<and> swap_ok st' \<and>
    free_slots st' = free_slots st \<union> {off + swap_addr env vp + rp..<off + nb div 8} \<and> set (devs st') = insert d' (set (devs st)) \<and>
    enabled d' \<and> drum_span d' = {off..<off + nb div 8} \<and> swd_vp d' = vp \<and> swd_npginuse d' = 0 \<and> swd_npgbad d' = 0"
proof -
  let ?d = "(new_swapdev vp)\<lparr>swd_priority := k\<rparr>" and ?st = "swaplist_insert (new_swapdev vp) k st"
  note pl = placeholder [OF ok vp, of k]
  have s: "set (devs ?st) = insert ?d (set (devs st))" using arg_cong [OF pl(2), of set_mset] by simp
  have d: "swd_vp ?d = vp" "swd_flags ?d = SWF_FAKE" "drum_span ?d = {}" "swd_npgbad ?d = 0" by (simp_all add: new_swapdev_def drum_span_def)
  have "drum_free env ?st (nb div 8)" using v d(3) unfolding drum_free_def s by simp
  from swap_on_spec [OF pl(1) _ d(1,2) u this] obtain st' d' where on: "swap_on env vp ?st = Ok (st', 0)" "swap_ok st'"
    "free_slots st' = free_slots ?st \<union> {off + swap_addr env vp + rp..<off + nb div 8}" "devs st' = map (\<lambda>e. if e = ?d then d' else e) (devs ?st)"
    "enabled d'" "drum_span d' = {off..<off + nb div 8}" "swd_vp d' = vp" "swd_npginuse d' = 0" "swd_npgbad d' = swd_npgbad ?d"
    using s by (auto simp: off_def)
  have "?d \<notin> set (devs st)" using vp d(1) by (metis imageI)
  then have "set (devs st') = insert d' (set (devs st))" unfolding on(4) set_map s by auto
  moreover have "sys_swapctl env pagein (SWAP_ON k) vp st = Ok (st', 0)" using on(1) vp find_None [of vp False st] by (simp add: sys_swapctl_def)
  ultimately show ?thesis using on(2,3,5-9) pl(3) d(4) by (intro exI [of _ st'] exI [of _ d']) simp
qed

text \<open>A failed attempt: the placeholder goes and nothing else has changed.\<close>

definition on_error :: "swap_env \<Rightarrow> nat \<Rightarrow> int option" where
  "on_error env vp =
     (if vp \<noteq> rootvp env \<and> VOP_OPEN env vp \<noteq> 0 then Some (VOP_OPEN env vp)
      else case swap_size env vp of
        Inl e \<Rightarrow> Some e
      | Inr nb \<Rightarrow> if swap_npages nb - swap_addr env vp < 1 then Some SW_EINVAL else None)"

lemma upd_fresh: "vp \<notin> swd_vp ` set ds \<Longrightarrow> map (\<lambda>d. if swd_vp d = vp then f d else d) ds = ds"
  by (rule map_idI) (metis imageI)

lemma find_last: "find P xs = None \<Longrightarrow> P x \<Longrightarrow> find P (xs @ [x]) = Some x"
  by (induction xs) (auto split: if_splits)

lemma remove_placeholder:
  assumes "vp \<notin> swd_vp ` set (all_devs l)" "\<forall>p \<in> set l. spi_swapdev p \<noteq> []" "swd_vp d = vp" and f: "\<And>e. swd_vp (f e) = swd_vp e"
  defines "g \<equiv> \<lambda>p. p\<lparr>spi_swapdev := map (\<lambda>d. if swd_vp d = vp then f d else d) (spi_swapdev p)\<rparr>"
  shows "\<exists>e l'. find_pri vp (map g (insert_pri d k l)) = Some (e, l') \<and> filter (\<lambda>p. spi_swapdev p \<noteq> []) l' = l"
  using assms(1,2)
proof (induction l)
  case Nil
  then show ?case using assms(3) f by (simp add: g_def)
next
  case (Cons p l)
  have np: "vp \<notin> swd_vp ` set (spi_swapdev p)" and nl: "vp \<notin> swd_vp ` set (all_devs l)" and ne: "\<forall>p \<in> set l. spi_swapdev p \<noteq> []"
    using Cons.prems by auto
  have gp: "g p = p" using upd_fresh [OF np] by (simp add: g_def)
  have gl: "map g l = l"
  proof (rule map_idI)
    fix q assume "q \<in> set l"
    then have "vp \<notin> swd_vp ` set (spi_swapdev q)" using nl by auto
    from upd_fresh [OF this, of f] show "g q = q" by (simp add: g_def)
  qed
  have nf: "find (\<lambda>sdp. swd_vp sdp = vp) (spi_swapdev p) = None" using np by (auto simp: find_None_iff)
  obtain e l' where IH: "find_pri vp (map g (insert_pri d k l)) = Some (e, l')" "filter (\<lambda>p. spi_swapdev p \<noteq> []) l' = l" using Cons.IH [OF nl ne] by blast
  have fd: "swd_vp (f d) = vp" "f d \<notin> set (spi_swapdev p)" using assms(3) f np by (auto simp: image_iff)
  consider (lt) "k < spi_priority p" | (eq) "k = spi_priority p" | (gt) "spi_priority p < k" by linarith
  then show ?case
  proof cases
    case lt
    have "g \<lparr>spi_priority = k, spi_swapdev = [d]\<rparr> = \<lparr>spi_priority = k, spi_swapdev = [f d]\<rparr>" using assms(3) by (simp add: g_def)
    then show ?thesis using lt fd(1) gp gl Cons.prems(2) by (simp add: filter_id_conv)
  next
    case eq
    let ?q = "p\<lparr>spi_swapdev := spi_swapdev p @ [d]\<rparr>"
    have "g ?q = p\<lparr>spi_swapdev := spi_swapdev p @ [f d]\<rparr>" using upd_fresh [OF np, of f] assms(3) by (simp add: g_def)
    moreover have "find (\<lambda>sdp. swd_vp sdp = vp) (spi_swapdev p @ [f d]) = Some (f d)" using find_last [OF nf fd(1)] .
    ultimately show ?thesis using eq gl fd(2) Cons.prems(2) by (simp add: remove1_append filter_id_conv)
  next
    case gt
    then show ?thesis using IH gp nf Cons.prems(2) by simp
  qed
qed

lemma swap_on_fails:
  assumes "on_error env vp = Some e"
  obtains f where "swap_on env vp st = Ok (upd_dev vp f st, e)" "\<And>d. swd_vp (f d) = swd_vp d"
proof (cases "swap_size env vp")
  case (Inl a)
  have i: "upd_dev vp (\<lambda>d. d) st = st" by (simp add: upd_dev_def)
  have "swap_on env vp st = Ok (st, e)" using assms Inl by (auto simp: on_error_def swap_on_def split: if_splits)
  then show thesis using that [of "\<lambda>d. d"] i by simp
next
  case (Inr nb)
  show thesis
  proof (cases "vp \<noteq> rootvp env \<and> VOP_OPEN env vp \<noteq> 0")
    case True
    have i: "upd_dev vp (\<lambda>d. d) st = st" by (simp add: upd_dev_def)
    show thesis using that [of "\<lambda>d. d"] assms True i by (auto simp: on_error_def swap_on_def)
  next
    case False
    let ?f = "\<lambda>d. d\<lparr>swd_nblks := nb\<rparr>"
    have "swap_on env vp st = Ok (upd_dev vp ?f st, e)" using assms Inr False
      by (auto simp: on_error_def swap_on_def swap_addr_def Let_def split: if_splits)
    then show thesis using that [of ?f] by simp
  qed
qed

lemma swapctl_on_error:
  assumes ok: "swap_ok st" and vp: "vp \<notin> swd_vp ` set (devs st)" and e: "on_error env vp = Some e" "e \<noteq> 0"
  shows "sys_swapctl env pagein (SWAP_ON k) vp st = Ok (st, e)"
proof -
  let ?d = "(new_swapdev vp)\<lparr>swd_priority := k\<rparr>" and ?st = "swaplist_insert (new_swapdev vp) k st"
  obtain f where f: "swap_on env vp ?st = Ok (upd_dev vp f ?st, e)" "\<And>d. swd_vp (f d) = swd_vp d" using swap_on_fails [OF e(1)] by metis
  have a: "vp \<notin> swd_vp ` set (all_devs (swap_priority st))" "\<forall>p \<in> set (swap_priority st). spi_swapdev p \<noteq> []" "swd_vp ?d = vp"
    using ok vp by (simp_all add: devs_def swap_ok_def pris_ok_def new_swapdev_def)
  from remove_placeholder [where f = f and k = k, OF a f(2)] obtain d' l' where
    "find_pri vp (swap_priority (upd_dev vp f ?st)) = Some (d', l')" "filter (\<lambda>p. spi_swapdev p \<noteq> []) l' = swap_priority st"
    by (auto simp: upd_dev_def swaplist_insert_def)
  then have "swaplist_trim (fst (swaplist_find vp True (upd_dev vp f ?st))) = st"
    by (simp add: swaplist_find_def swaplist_trim_def upd_dev_def swaplist_insert_def)
  then show ?thesis using f(1) e(2) vp find_None [of vp False st] by (simp add: sys_swapctl_def)
qed

end
