(* ===== verification/Swap_Reach.thy ===== *)
theory Swap_Reach
  imports Swap_Ctl
begin

text \<open>
  Runs of swap space. The slots that callers of \<open>uvm_swap_alloc\<close> hold are a set beside the state, and so are those of them that
  were marked bad; a step is one call.
\<close>

section \<open>Slots held\<close>

definition acct :: "int set \<Rightarrow> int set \<Rightarrow> swapdev \<Rightarrow> bool" where
  "acct U B d \<longleftrightarrow> int (card (U \<inter> drum_span d)) = swd_npginuse d \<and> int (card (B \<inter> drum_span d)) = swd_npgbad d"

definition swap_inv :: "swapstate \<Rightarrow> int set \<Rightarrow> int set \<Rightarrow> bool" where
  "swap_inv st U B \<longleftrightarrow> swap_ok st \<and> U \<inter> free_slots st = {} \<and> B \<subseteq> U \<and> U \<subseteq> (\<Union>d \<in> set (devs st). drum_span d) \<and> (\<forall>d \<in> set (devs st). acct U B d)"

lemma drum_span_finite [simp]: "finite (drum_span d)"
  by (simp add: drum_span_def)

lemma acct_view: "view d = view e \<Longrightarrow> acct U B d = acct U B e"
  by (simp add: acct_def view_eqD [of d e])

lemma acct_cong: "U \<inter> drum_span d = U' \<inter> drum_span d \<Longrightarrow> B \<inter> drum_span d = B' \<inter> drum_span d \<Longrightarrow> acct U B d = acct U' B' d"
  by (simp add: acct_def)

lemma held_count:
  assumes "swap_inv st U B"
  shows "swpginuse st = int (card U)"
proof -
  have ok: "swap_ok st" and ac: "\<forall>d \<in> set (devs st). acct U B d" and U: "U = (\<Union>d \<in> set (devs st). U \<inter> drum_span d)"
    using assms by (auto simp: swap_inv_def)
  have di: "distinct (devs st)" using vps_distinct [OF ok] by (simp add: distinct_map)
  have "card U = card (\<Union>d \<in> set (devs st). U \<inter> drum_span d)" using U by simp
  also have "\<dots> = (\<Sum>d \<in> set (devs st). card (U \<inter> drum_span d))"
    using other_dev(2) [OF ok] by (intro card_UN_disjoint) auto
  finally have "int (card U) = (\<Sum>d \<in> set (devs st). swd_npginuse d)" using ac by (simp add: acct_def)
  also have "\<dots> = sum_list (map swd_npginuse (devs st))" using di by (simp add: sum_list_distinct_conv_sum_set)
  finally show ?thesis using ok by (simp add: swap_ok_def)
qed

text \<open>One device has changed, and what is held only where it is.\<close>

lemma inv_exchange:
  assumes i: "swap_inv st U B" and d: "d \<in> set (devs st)" "drum_span d' = drum_span d"
    and V: "view ` set (devs st') = insert (view d') (view ` (set (devs st) - {d}))"
    and ok: "swap_ok st'" "U' \<inter> free_slots st' = {}" "B' \<subseteq> U'" "acct U' B' d'" and eq: "U' - drum_span d = U - drum_span d" "B' - drum_span d = B - drum_span d"
  shows "swap_inv st' U' B'"
proof -
  have sok: "swap_ok st" using i by (simp add: swap_inv_def)
  have "U' \<subseteq> (\<Union>e \<in> set (devs st'). drum_span e)"
  proof -
    have "drum_span ` set (devs st') = (\<lambda>v. drum_span (fst v)) ` view ` set (devs st')" unfolding image_image by (simp add: view_def)
    also have "\<dots> = insert (drum_span d') (drum_span ` (set (devs st) - {d}))" unfolding V image_insert image_image by (simp add: view_def)
    also have "\<dots> = drum_span ` set (devs st)" unfolding d(2) image_insert [symmetric] insert_Diff [OF d(1)] ..
    finally have s: "(\<Union>e \<in> set (devs st'). drum_span e) = (\<Union>e \<in> set (devs st). drum_span e)" by (rule arg_cong)
    have "U' \<subseteq> U \<union> drum_span d" using equalityD1 [OF eq(1)] by blast
    moreover have "U \<subseteq> (\<Union>e \<in> set (devs st). drum_span e)" using i by (simp add: swap_inv_def)
    moreover have "drum_span d \<subseteq> (\<Union>e \<in> set (devs st). drum_span e)" using d(1) by (rule UN_upper)
    ultimately show ?thesis unfolding s by (meson Un_least subset_trans)
  qed
  moreover have "acct U' B' e" if e: "e \<in> set (devs st')" for e
  proof -
    have "view e \<in> insert (view d') (view ` (set (devs st) - {d}))" using e V by blast
    then consider "view e = view d'" | f where "f \<in> set (devs st)" "f \<noteq> d" "view e = view f" by auto
    then show ?thesis
    proof cases
      case 1
      then show ?thesis using ok(4) acct_view by blast
    next
      case 2
      have "drum_span f \<inter> drum_span d = {}" using other_dev(2) [OF sok d(1) 2(1,2)] .
      then have "X \<inter> drum_span f = (X - drum_span d) \<inter> drum_span f" for X by blast
      then have "U \<inter> drum_span f = U' \<inter> drum_span f" "B \<inter> drum_span f = B' \<inter> drum_span f" using eq by metis+
      moreover have "acct U B f" using i 2(1) by (simp add: swap_inv_def)
      ultimately show ?thesis using acct_cong acct_view [OF 2(3)] by blast
    qed
  qed
  ultimately show ?thesis using ok by (simp add: swap_inv_def)
qed

lemma inv_same:
  assumes "swap_inv st U B" "view ` set (devs st') = view ` set (devs st)" "swap_ok st'" "free_slots st' = free_slots st"
  shows "swap_inv st' U B"
proof -
  have "drum_span ` set (devs x) = (\<lambda>v. drum_span (fst v)) ` view ` set (devs x)" for x unfolding image_image by (simp add: view_def)
  then have s: "drum_span ` set (devs st') = drum_span ` set (devs st)" using assms(2) by metis
  have "acct U B e" if "e \<in> set (devs st')" for e
  proof -
    have "view e \<in> view ` set (devs st)" using that assms(2) by blast
    then obtain f where "f \<in> set (devs st)" "view e = view f" by blast
    then show ?thesis using assms(1) acct_view [of e f] by (simp add: swap_inv_def)
  qed
  then show ?thesis using assms(1,3,4) by (simp add: swap_inv_def s)
qed

lemma image_upd: "d \<in> set ds \<Longrightarrow> g ` set (map (\<lambda>e. if e = d then d' else e) ds) = insert (g d') (g ` (set ds - {d}))"
  by auto

lemma fixed_upd: "fixed d' = fixed d \<Longrightarrow> fixed ` set (map (\<lambda>e. if e = d then d' else e) ds) = fixed ` set ds"
  unfolding set_map image_image by (rule image_cong) auto

lemma fixed_view: "fixed d = fixed (fst (view d))"
  by (simp add: fixed_def view_def)

lemma slot_taken_devs:
  assumes ok: "swap_ok st" and s: "slot_taken n s st st'"
  obtains d d' where "d \<in> set (devs st)" "taken d n s d'" "view ` set (devs st') = insert (view d') (view ` (set (devs st) - {d}))"
proof -
  obtain d d' where d: "d \<in> set (devs st)" "taken d n s d'"
    "add_mset (view d) (mset (map view (devs st'))) = add_mset (view d') (mset (map view (devs st)))"
    using s by (auto simp: slot_taken_def)
  have "view d \<in># mset (map view (devs st))" using d(1) by simp
  from exchange [OF d(3) this] obtain N where N: "mset (map view (devs st)) = add_mset (view d) N" "mset (map view (devs st')) = add_mset (view d') N" by metis
  have "set_mset N = view ` set (devs st) - {view d}"
  proof -
    have "view d \<notin># N" using only_once [OF views_distinct [OF ok] N(1)] .
    moreover have "view ` set (devs st) = insert (view d) (set_mset N)" using arg_cong [OF N(1), of set_mset] by simp
    ultimately show ?thesis by blast
  qed
  also have "\<dots> = view ` (set (devs st) - {d})"
    using views_distinct [OF ok] d(1) by (auto simp: distinct_map dest: inj_onD)
  finally have "set_mset N = view ` (set (devs st) - {d})" .
  moreover have "view ` set (devs st') = insert (view d') (set_mset N)" using arg_cong [OF N(2), of set_mset] by simp
  ultimately show thesis using that d(1,2) by simp
qed

section \<open>Calls\<close>

inductive slot_step :: "swapstate \<times> int set \<times> int set \<Rightarrow> swapstate \<times> int set \<times> int set \<Rightarrow> bool" where
  slot_alloc: "uvm_swap_alloc n lessok st = Ok (st', m, s) \<Longrightarrow> 1 \<le> n \<Longrightarrow> n \<le> 32 \<Longrightarrow>
    slot_step (st, U, B) (st', if s = 0 then U else U \<union> {s..<s + m}, B)"
| slot_free: "uvm_swap_free s n st = Ok st' \<Longrightarrow> 1 \<le> n \<Longrightarrow> {s..<s + n} \<subseteq> U - B \<Longrightarrow> d \<in> set (devs st) \<Longrightarrow> {s..<s + n} \<subseteq> drum_span d \<Longrightarrow>
    slot_step (st, U, B) (st', U - {s..<s + n}, B)"
| slot_bad: "uvm_swap_markbad s n st = Ok st' \<Longrightarrow> 1 \<le> n \<Longrightarrow> {s..<s + n} \<subseteq> U - B \<Longrightarrow> d \<in> set (devs st) \<Longrightarrow> {s..<s + n} \<subseteq> drum_span d \<Longrightarrow>
    slot_step (st, U, B) (st', U, B \<union> {s..<s + n})"

lemma swap_alloc_inv:
  assumes i: "swap_inv st U B" and a: "uvm_swap_alloc n lessok st = Ok (st', m, s)" "1 \<le> n" "n \<le> 32"
  shows "swap_inv st' (if s = 0 then U else U \<union> {s..<s + m}) B" "fixed ` set (devs st') = fixed ` set (devs st)"
proof -
  have ok: "swap_ok st" "U \<inter> free_slots st = {}" "B \<subseteq> U" using i by (simp_all add: swap_inv_def)
  have r: "alloc_result n lessok st st' m s" using uvm_swap_alloc_spec [OF ok(1) a(2,3), of lessok] a(1) by auto
  have fv: "fixed ` set (devs x) = (\<lambda>v. fixed (fst v)) ` view ` set (devs x)" for x unfolding image_image by (simp add: fixed_view [symmetric])
  have "swap_inv st' (if s = 0 then U else U \<union> {s..<s + m}) B \<and> fixed ` set (devs st') = fixed ` set (devs st)"
  proof (cases "s = 0")
    case True
    then have v: "view ` set (devs st') = view ` set (devs st)" "free_slots st' = free_slots st" "swap_ok st'"
      using r by (auto simp: alloc_result_def simp flip: set_map)
    then show ?thesis using True inv_same [OF i v(1,3,2)] fv by simp
  next
    case False
    then have f: "free_slots st' = free_slots st - {s..<s + m}" "swap_ok st'" "slot_taken m s st st'" and m: "1 \<le> m"
      using r a by (auto simp: alloc_result_def)
    obtain d d' where d: "d \<in> set (devs st)" "taken d m s d'" "view ` set (devs st') = insert (view d') (view ` (set (devs st) - {d}))"
      using slot_taken_devs [OF ok(1) f(3)] .
    note tv = taken_view [OF d(2)]
    have sub: "{s..<s + m} \<subseteq> dev_slots d" "dev_slots d \<subseteq> drum_span d" "dev_slots d \<subseteq> free_slots st"
      using d dev_slots_span ok(1) by (auto simp: taken_def swap_ok_def free_slots_def)
    have dj: "U \<inter> {s..<s + m} = {}" using ok(2) sub by blast
    have "acct U B d" using i d(1) by (simp add: swap_inv_def)
    moreover have "(U \<union> {s..<s + m}) \<inter> drum_span d = (U \<inter> drum_span d) \<union> {s..<s + m}" using sub by blast
    moreover have "card ((U \<inter> drum_span d) \<union> {s..<s + m}) = card (U \<inter> drum_span d) + nat m"
      using dj by (subst card_Un_disjoint) auto
    ultimately have "acct (U \<union> {s..<s + m}) B d'" using tv m by (simp add: acct_def)
    moreover have "(U \<union> {s..<s + m}) \<inter> free_slots st' = {}" using f(1) ok(2) by blast
    moreover have "U \<union> {s..<s + m} - drum_span d = U - drum_span d" using sub by blast
    ultimately have "swap_inv st' (U \<union> {s..<s + m}) B" using inv_exchange [OF i d(1) tv(2) d(3) f(2)] ok(3) by blast
    moreover have "fixed ` set (devs st') = fixed ` set (devs st)"
    proof -
      have "fixed ` set (devs st') = insert (fixed d') (fixed ` (set (devs st) - {d}))"
        unfolding fv [of st'] d(3) image_insert image_image by (simp add: fixed_view [symmetric])
      also have "fixed d' = fixed d" using tv by (simp add: fixed_def)
      finally show ?thesis using d(1) by (simp add: image_insert [symmetric] insert_absorb del: image_insert)
    qed
    ultimately show ?thesis using False by simp
  qed
  then show "swap_inv st' (if s = 0 then U else U \<union> {s..<s + m}) B" "fixed ` set (devs st') = fixed ` set (devs st)" by simp_all
qed

lemma part_card:
  fixes s n :: int
  assumes "{s..<s + n} \<subseteq> X" "{s..<s + n} \<subseteq> drum_span d" "1 \<le> n"
  shows "int (card ((X - {s..<s + n}) \<inter> drum_span d)) = int (card (X \<inter> drum_span d)) - n" "n \<le> int (card (X \<inter> drum_span d))"
proof -
  have sub: "{s..<s + n} \<subseteq> X \<inter> drum_span d" using assms by blast
  have "(X - {s..<s + n}) \<inter> drum_span d = X \<inter> drum_span d - {s..<s + n}" by blast
  then have "card ((X - {s..<s + n}) \<inter> drum_span d) = card (X \<inter> drum_span d) - nat n" using card_Diff_subset [OF _ sub] by simp
  moreover have "nat n \<le> card (X \<inter> drum_span d)" using card_mono [OF _ sub] by simp
  ultimately show "int (card ((X - {s..<s + n}) \<inter> drum_span d)) = int (card (X \<inter> drum_span d)) - n" "n \<le> int (card (X \<inter> drum_span d))" using assms(3) by linarith+
qed

lemma free_inv:
  assumes i: "swap_inv st U B" and a: "uvm_swap_free s n st = Ok st'" "1 \<le> n" "{s..<s + n} \<subseteq> U - B" and d: "d \<in> set (devs st)" "{s..<s + n} \<subseteq> drum_span d"
  shows "swap_inv st' (U - {s..<s + n}) B" "fixed ` set (devs st') = fixed ` set (devs st)"
proof -
  have ok: "swap_ok st" "U \<inter> free_slots st = {}" "B \<subseteq> U" and ac: "acct U B d" using i d(1) by (simp_all add: swap_inv_def)
  have "{s..<s + n} \<subseteq> U" using a(3) by blast
  note pc = part_card [OF this d(2) a(2)]
  have n: "n \<le> swd_npginuse d" using pc(2) ac by (simp add: acct_def)
  have dj: "{s..<s + n} \<inter> dev_slots d = {}" using a(3) ok(2) d(1) by (auto simp: free_slots_def)
  obtain d' where f: "swap_ok st'" "free_slots st' = free_slots st \<union> {s..<s + n}" "devs st' = map (\<lambda>e. if e = d then d' else e) (devs st)"
    "fixed d' = fixed d" "swd_npginuse d' = swd_npginuse d - n" "swd_npgbad d' = swd_npgbad d"
    using uvm_swap_free_spec [OF ok(1) d(1) a(2) n d(2) dj] a(1) by auto
  show "fixed ` set (devs st') = fixed ` set (devs st)" unfolding f(3) using f(4) by (rule fixed_upd)
  have sp: "drum_span d' = drum_span d" using f(4) by (simp add: fixed_def)
  then have "acct (U - {s..<s + n}) B d'" using ac f(5,6) pc(1) by (simp add: acct_def)
  moreover have "(U - {s..<s + n}) \<inter> free_slots st' = {}" unfolding f(2) using ok(2) by blast
  moreover have "B \<subseteq> U - {s..<s + n}" using a(3) ok(3) by blast
  moreover have "U - {s..<s + n} - drum_span d = U - drum_span d" using d(2) by blast
  moreover have "view ` set (devs st') = insert (view d') (view ` (set (devs st) - {d}))" unfolding f(3) by (rule image_upd [OF d(1)])
  ultimately show "swap_inv st' (U - {s..<s + n}) B" using inv_exchange [OF i d(1) sp _ f(1), of "U - {s..<s + n}" B] by (simp only: simp_thms)
qed

text \<open>Updates of a device that change no slots.\<close>

lemma upd_inv:
  assumes i: "swap_inv st U B" and d: "d \<in> set (devs st)" and f: "swd_vp (f d) = swd_vp d" "swd_priority (f d) = swd_priority d" "dev_ok (f d)"
      "drum_span (f d) = drum_span d" "dev_slots (f d) = dev_slots d" "swd_npginuse (f d) = swd_npginuse d" "swd_npages (f d) = swd_npages d"
    and st': "swap_priority st' = swap_priority (upd_dev (swd_vp d) f st)" "nswapdev st' = nswapdev st" "swpginuse st' = swpginuse st"
      "swpages st' = swpages st" "swpgavail st' = swpgavail st + (avail_of (f d) - avail_of d)"
    and B: "B' \<subseteq> U" "B' - drum_span d = B - drum_span d" "int (card (B' \<inter> drum_span d)) = swd_npgbad (f d)"
  shows "swap_inv st' U B'" "devs st' = map (\<lambda>e. if e = d then f d else e) (devs st)"
proof -
  have ok: "swap_ok st" "U \<inter> free_slots st = {}" and ac: "acct U B d" using i d by (simp_all add: swap_inv_def)
  have sp: "\<forall>e \<in> set (devs st). e \<noteq> d \<longrightarrow> drum_span e \<inter> drum_span (f d) = {}" using other_dev(2) [OF ok(1) d] f(4) by simp
  have st2: "swpginuse st' = swpginuse st + (swd_npginuse (f d) - swd_npginuse d)" "swpages st' = swpages st + (swd_npages (f d) - swd_npages d)"
    using st' f by simp_all
  note u = swap_ok_upd [OF ok(1) d f(1-3) sp st'(1,2) st2 st'(5)]
  show "devs st' = map (\<lambda>e. if e = d then f d else e) (devs st)" by (rule u(2))
  have "free_slots st = dev_slots d \<union> (\<Union>e \<in> set (devs st) - {d}. dev_slots e)" unfolding free_slots_def UN_insert [symmetric] insert_Diff [OF d] ..
  then have "free_slots st' = free_slots st" unfolding u(3) f(5) by (simp only: Un_commute)
  moreover have "acct U B' (f d)" using ac f B(3) by (simp add: acct_def)
  moreover have "view ` set (devs st') = insert (view (f d)) (view ` (set (devs st) - {d}))" unfolding u(2) by (rule image_upd [OF d])
  ultimately show "swap_inv st' U B'" using inv_exchange [OF i d f(4) _ u(1), of U B'] ok(2) B(1,2) by (simp only: simp_thms)
qed

lemma bad_simps [simp]:
  "dev_ok (d\<lparr>swd_npgbad := k\<rparr>) = dev_ok d" "drum_span (d\<lparr>swd_npgbad := k\<rparr>) = drum_span d" "avail_of (d\<lparr>swd_npgbad := k\<rparr>) = avail_of d"
  "dev_slots (d\<lparr>swd_npgbad := k\<rparr>) = dev_slots d"
  by (simp_all add: dev_ok_def drum_span_def avail_of_def dev_slots_def split: option.splits)

lemma bad_inv:
  assumes i: "swap_inv st U B" and a: "uvm_swap_markbad s n st = Ok st'" "1 \<le> n" "{s..<s + n} \<subseteq> U - B" and d: "d \<in> set (devs st)" "{s..<s + n} \<subseteq> drum_span d"
  shows "swap_inv st' U (B \<union> {s..<s + n})" "fixed ` set (devs st') = fixed ` set (devs st)"
proof -
  have ok: "swap_ok st" "B \<subseteq> U" and ac: "acct U B d" using i d(1) by (simp_all add: swap_inv_def)
  have "s \<in> drum_span d" using d(2) a(2) by auto
  let ?f = "\<lambda>d. d\<lparr>swd_npgbad := swd_npgbad d + n\<rparr>"
  have st': "st' = upd_dev (swd_vp d) ?f (st\<lparr>swpgonly := swpgonly st - n\<rparr>)"
    using a(1) getsdp [OF ok(1) d(1) \<open>s \<in> drum_span d\<close>] by (simp add: uvm_swap_markbad_def)
  have s: "{s..<s + n} \<subseteq> B \<union> {s..<s + n}" by blast
  have "(B \<union> {s..<s + n} - {s..<s + n}) = B" using a(3) by blast
  then have "int (card ((B \<union> {s..<s + n}) \<inter> drum_span d)) = swd_npgbad (?f d)" using part_card(1) [OF s d(2) a(2)] ac by (simp add: acct_def)
  moreover have "B \<union> {s..<s + n} \<subseteq> U" "B \<union> {s..<s + n} - drum_span d = B - drum_span d" using ok(2) a(3) d(2) by blast+
  moreover have "dev_ok (?f d)" "drum_span (?f d) = drum_span d" "dev_slots (?f d) = dev_slots d" "avail_of (?f d) = avail_of d"
    using ok(1) d(1) by (simp_all add: swap_ok_def)
  ultimately have u: "swap_inv st' U (B \<union> {s..<s + n})" "devs st' = map (\<lambda>e. if e = d then ?f d else e) (devs st)"
    using upd_inv [OF i d(1), of ?f st' "B \<union> {s..<s + n}"] by (simp_all add: st' upd_dev_def)
  show "swap_inv st' U (B \<union> {s..<s + n})" by (rule u(1))
  have "fixed (?f d) = fixed d" by (simp add: fixed_def drum_span_def)
  then show "fixed ` set (devs st') = fixed ` set (devs st)" unfolding u(2) by (rule fixed_upd)
qed

lemma slot_step_inv:
  "slot_step c c' \<Longrightarrow> swap_inv (fst c) (fst (snd c)) (snd (snd c)) \<Longrightarrow>
     swap_inv (fst c') (fst (snd c')) (snd (snd c')) \<and> fixed ` set (devs (fst c')) = fixed ` set (devs (fst c))"
proof (induction rule: slot_step.induct)
  case (slot_alloc n lessok st st' m s U B)
  then show ?case using swap_alloc_inv [of st U B n lessok st' m s] by simp
next
  case (slot_free s n st st' U B d)
  then show ?case using free_inv [of st U B s n st' d] by simp
next
  case (slot_bad s n st st' U B d)
  then show ?case using bad_inv [of st U B s n st' d] by simp
qed

lemma slot_steps_inv:
  "slot_step\<^sup>*\<^sup>* c c' \<Longrightarrow> swap_inv (fst c) (fst (snd c)) (snd (snd c)) \<Longrightarrow>
     swap_inv (fst c') (fst (snd c')) (snd (snd c')) \<and> fixed ` set (devs (fst c')) = fixed ` set (devs (fst c))"
  by (induction rule: rtranclp_induct) (simp_all add: slot_step_inv)

section \<open>System calls\<close>

lemma ctl_inv:
  assumes i: "swap_inv st U B" and a: "sys_swapctl env pagein (SWAP_CTL k) vp st = Ok (st', e)"
  shows "swap_inv st' U B" "\<forall>d \<in> set (devs st). enabled d \<Longrightarrow> \<forall>d \<in> set (devs st'). enabled d"
proof -
  have ok: "swap_ok st" "U \<inter> free_slots st = {}" "B \<subseteq> U" using i by (simp_all add: swap_inv_def)
  have "swap_inv st' U B \<and> ((\<forall>d \<in> set (devs st). enabled d) \<longrightarrow> (\<forall>d \<in> set (devs st'). enabled d))"
  proof (cases "vp \<in> swd_vp ` set (devs st)")
    case True
    then obtain d where d: "d \<in> set (devs st)" "vp = swd_vp d" by auto
    have c: "swap_ok st'" "free_slots st' = free_slots st" "set (devs st') = insert (d\<lparr>swd_priority := k\<rparr>) (set (devs st) - {d})"
      using swap_ctl_spec [OF ok(1) d(1), of env pagein k] a d(2) by auto
    have "acct U B d" using i d(1) by (simp add: swap_inv_def)
    then have "acct U B (d\<lparr>swd_priority := k\<rparr>)" by (simp add: acct_def)
    moreover have "view ` set (devs st') = insert (view (d\<lparr>swd_priority := k\<rparr>)) (view ` (set (devs st) - {d}))" unfolding c(3) image_insert ..
    ultimately have "swap_inv st' U B"
      using inv_exchange [OF i d(1), of "d\<lparr>swd_priority := k\<rparr>" st' U B] c(1,2) ok(2,3) by (simp only: prio_simps simp_thms)
    then show ?thesis using c(3) d(1) by simp
  next
    case False
    then have "find_pri vp (swap_priority st) = None" by (simp add: find_pri_None devs_def)
    then have "st' = st" using a by (simp add: sys_swapctl_def swaplist_find_def)
    then show ?thesis using i by simp
  qed
  then show "swap_inv st' U B" "\<forall>d \<in> set (devs st). enabled d \<Longrightarrow> \<forall>d \<in> set (devs st'). enabled d" by simp_all
qed

text \<open>What the attempt to swap on a device may rely on: there is an error, or the vnode and the map of the drum are as they should be.\<close>

definition on_ready :: "swap_env \<Rightarrow> nat \<Rightarrow> swapstate \<Rightarrow> bool" where
  "on_ready env vp st \<longleftrightarrow> (\<exists>e. on_error env vp = Some e \<and> e \<noteq> 0) \<or> (\<exists>nb rp. usable env vp nb rp \<and> drum_free env st (nb div 8))"

lemma on_inv:
  assumes i: "swap_inv st U B" and a: "sys_swapctl env pagein (SWAP_ON k) vp st = Ok (st', e)" "on_ready env vp st"
  shows "swap_inv st' U B" "\<forall>d \<in> set (devs st). enabled d \<Longrightarrow> \<forall>d \<in> set (devs st'). enabled d"
proof -
  have ok: "swap_ok st" "U \<inter> free_slots st = {}" "B \<subseteq> U" "U \<subseteq> (\<Union>d \<in> set (devs st). drum_span d)" using i by (simp_all add: swap_inv_def)
  consider (busy) "vp \<in> swd_vp ` set (devs st)" | (bad) "vp \<notin> swd_vp ` set (devs st)" "\<exists>e. on_error env vp = Some e \<and> e \<noteq> 0"
    | (good) nb rp where "vp \<notin> swd_vp ` set (devs st)" "usable env vp nb rp" "drum_free env st (nb div 8)" using a(2) by (auto simp: on_ready_def)
  then have "swap_inv st' U B \<and> ((\<forall>d \<in> set (devs st). enabled d) \<longrightarrow> (\<forall>d \<in> set (devs st'). enabled d))"
  proof cases
    case busy
    then have "snd (swaplist_find vp False st) \<noteq> None" by (simp add: find_None)
    then have "st' = st" using a(1) by (auto simp: sys_swapctl_def)
    then show ?thesis using i by simp
  next
    case bad
    then have "st' = st" using a(1) swapctl_on_error [OF ok(1)] by auto
    then show ?thesis using i by simp
  next
    case good
    let ?off = "vmem_alloc env (nb div 8)"
    obtain d' where d': "swap_ok st'" "free_slots st' = free_slots st \<union> {?off + swap_addr env vp + rp..<?off + nb div 8}"
      "set (devs st') = insert d' (set (devs st))" "enabled d'" "drum_span d' = {?off..<?off + nb div 8}" "swd_npginuse d' = 0" "swd_npgbad d' = 0"
      using swapctl_on_spec [OF ok(1) good, of pagein k] a(1) by auto
    have "{?off + swap_addr env vp + rp..<?off + nb div 8} \<subseteq> drum_span d'"
      unfolding d'(5) using good(2) by (auto simp: usable_def swap_addr_def split: if_splits)
    moreover have U: "U \<inter> drum_span d' = {}" using ok(4) good(3) unfolding d'(5) drum_free_def by blast
    ultimately have "U \<inter> free_slots st' = {}" unfolding d'(2) using ok(2) by blast
    moreover have "B \<inter> drum_span d' = {}" using U ok(3) by blast
    then have "acct U B d'" using U d'(6,7) by (simp add: acct_def)
    then have "\<forall>d \<in> set (devs st'). acct U B d" using i unfolding d'(3) swap_inv_def by simp
    moreover have "U \<subseteq> (\<Union>d \<in> set (devs st'). drum_span d)" using ok(4) unfolding d'(3) UN_insert by (rule le_supI2)
    ultimately show ?thesis using d'(1,3,4) ok(3) by (simp add: swap_inv_def)
  qed
  then show "swap_inv st' U B" "\<forall>d \<in> set (devs st). enabled d \<Longrightarrow> \<forall>d \<in> set (devs st'). enabled d" by simp_all
qed

text \<open>The state in which \<open>swap_off\<close> lets the pages come back.\<close>

definition swap_disabled :: "swapdev \<Rightarrow> swapstate \<Rightarrow> swapstate" where
  "swap_disabled d st = upd_dev (swd_vp d) (\<lambda>d. d\<lparr>swd_flags := swd_flags d AND NOT SWF_ENABLE\<rparr>) (st\<lparr>swpgavail := swpgavail st - swd_npages d\<rparr>)"

lemma flag_bits:
  fixes w :: u32
  shows "(w AND NOT SWF_ENABLE) AND SWF_FAKE = w AND SWF_FAKE" "(w OR SWF_ENABLE) AND SWF_FAKE = w AND SWF_FAKE"
    "(w AND NOT SWF_ENABLE) AND SWF_ENABLE = 0" "(w OR SWF_ENABLE) AND SWF_ENABLE \<noteq> 0"
  by (simp_all add: and.assoc bit.conj_disj_distrib2)

lemma flag_simps:
  assumes "swd_flags d' AND SWF_FAKE = swd_flags d AND SWF_FAKE" "d' = d\<lparr>swd_flags := f\<rparr>"
  shows "drum_span d' = drum_span d" "dev_slots d' = dev_slots d" "is_live d \<Longrightarrow> dev_ok d \<Longrightarrow> dev_ok d'"
  using assms by (simp_all add: drum_span_def dev_slots_def dev_ok_def split: option.splits)

lemma disabled_inv:
  assumes i: "swap_inv st U B" and d: "d \<in> set (devs st)" "enabled d"
  shows "swap_inv (swap_disabled d st) U B"
    "devs (swap_disabled d st) = map (\<lambda>e. if e = d then d\<lparr>swd_flags := swd_flags d AND NOT SWF_ENABLE\<rparr> else e) (devs st)"
proof -
  let ?f = "\<lambda>d. d\<lparr>swd_flags := swd_flags d AND NOT SWF_ENABLE\<rparr>"
  have ok: "dev_ok d" "B \<subseteq> U" and ac: "acct U B d" using i d(1) by (auto simp: swap_inv_def swap_ok_def)
  have "swd_flags (?f d) AND SWF_FAKE = swd_flags d AND SWF_FAKE" using flag_bits(1) [of "swd_flags d"] by simp
  note fs = flag_simps [OF this refl]
  have "dev_ok (?f d)" by (rule fs(3) [OF enabled_live [OF ok(1) d(2)] ok(1)])
  moreover have "avail_of d = swd_npages d" "avail_of (?f d) = 0" using d(2) flag_bits(3) [of "swd_flags d"] by (simp_all add: avail_of_def)
  moreover have "int (card (B \<inter> drum_span d)) = swd_npgbad (?f d)" using ac by (simp add: acct_def)
  ultimately show "swap_inv (swap_disabled d st) U B"
    "devs (swap_disabled d st) = map (\<lambda>e. if e = d then ?f d else e) (devs st)"
    using upd_inv [OF i d(1), of ?f "swap_disabled d st" B] fs(1,2) ok(2) by (simp_all add: swap_disabled_def upd_dev_def)
qed

text \<open>Back to swapping on a device.\<close>

definition swap_enabled :: "swapdev \<Rightarrow> swapstate \<Rightarrow> swapstate" where
  "swap_enabled d st = upd_dev (swd_vp d) (\<lambda>d. d\<lparr>swd_flags := swd_flags d OR SWF_ENABLE\<rparr>) (st\<lparr>swpgavail := swpgavail st + swd_npages d\<rparr>)"

lemma enabled_inv:
  assumes i: "swap_inv st U B" and d: "d \<in> set (devs st)" "\<not> enabled d" "is_live d"
  shows "swap_inv (swap_enabled d st) U B"
    "devs (swap_enabled d st) = map (\<lambda>e. if e = d then d\<lparr>swd_flags := swd_flags d OR SWF_ENABLE\<rparr> else e) (devs st)"
proof -
  let ?f = "\<lambda>d. d\<lparr>swd_flags := swd_flags d OR SWF_ENABLE\<rparr>"
  have ok: "dev_ok d" "B \<subseteq> U" and ac: "acct U B d" using i d(1) by (auto simp: swap_inv_def swap_ok_def)
  have "swd_flags (?f d) AND SWF_FAKE = swd_flags d AND SWF_FAKE" using flag_bits(2) [of "swd_flags d"] by simp
  note fs = flag_simps [OF this refl]
  have "dev_ok (?f d)" by (rule fs(3) [OF d(3) ok(1)])
  moreover have "avail_of d = 0" "avail_of (?f d) = swd_npages d" using d(2) flag_bits(4) [of "swd_flags d"] by (simp_all add: avail_of_def)
  moreover have "int (card (B \<inter> drum_span d)) = swd_npgbad (?f d)" using ac by (simp add: acct_def)
  ultimately show "swap_inv (swap_enabled d st) U B" "devs (swap_enabled d st) = map (\<lambda>e. if e = d then ?f d else e) (devs st)"
    using upd_inv [OF i d(1), of ?f "swap_enabled d st" B] fs(1,2) ok(2) by (simp_all add: swap_enabled_def upd_dev_def)
qed

text \<open>The pages came back; the device can go.\<close>

lemma remove_inv:
  assumes i: "swap_inv st U B" and f: "swaplist_find vp True st = (st1, Some d)" and d: "\<not> enabled d" "swd_npginuse d \<le> swd_npgbad d"
  defines "st' \<equiv> swaplist_trim (st1\<lparr>swpages := swpages st - swd_npages d, swpginuse := swpginuse st - swd_npgbad d\<rparr>)"
  shows "swap_inv st' (U - drum_span d) (B - drum_span d)" "set (devs st') = set (devs st) - {d}"
proof -
  have ok: "swap_ok st" "U \<inter> free_slots st = {}" "B \<subseteq> U" and cover: "U \<subseteq> (\<Union>d \<in> set (devs st). drum_span d)" using i by (simp_all add: swap_inv_def)
  note r = find_removed [OF ok(1) f]
  have ac: "acct U B d" using i r(2) by (simp add: swap_inv_def)
  have "card (B \<inter> drum_span d) \<le> card (U \<inter> drum_span d)" using ok(3) by (intro card_mono) auto
  then have e: "swd_npginuse d = swd_npgbad d" using d(2) ac by (simp add: acct_def)
  have "devs_ok (devs st1) (nswapdev st1) (swpginuse st - swd_npgbad d) (swpages st - swd_npages d) (swpgavail st1)"
    using r(9) d(1) e r(5,8) unfolding devs_ok_Cons by (simp add: avail_of_def)
  then have t: "swap_ok st'" "devs st' = devs st1"
    using trim_swap_ok [of "st1\<lparr>swpages := swpages st - swd_npages d, swpginuse := swpginuse st - swd_npgbad d\<rparr>"] r(4) by (simp_all add: st'_def devs_def)
  show s: "set (devs st') = set (devs st) - {d}" unfolding t(2) r(10) ..
  have "free_slots st' \<subseteq> free_slots st" unfolding free_slots_def s by blast
  then have "(U - drum_span d) \<inter> free_slots st' = {}" using ok(2) by blast
  moreover have "U - drum_span d \<subseteq> (\<Union>e \<in> set (devs st'). drum_span e)"
  proof -
    have "U \<subseteq> drum_span d \<union> (\<Union>e \<in> set (devs st'). drum_span e)" using cover unfolding s UN_insert [symmetric] insert_Diff [OF r(2)] .
    then show ?thesis by (simp only: Diff_subset_conv)
  qed
  moreover have "acct (U - drum_span d) (B - drum_span d) e" if e: "e \<in> set (devs st')" for e
  proof -
    have "e \<in> set (devs st)" "drum_span e \<inter> drum_span d = {}" using e other_dev(2) [OF ok(1) r(2)] unfolding s by blast+
    then have "acct U B e" "(U - drum_span d) \<inter> drum_span e = U \<inter> drum_span e" "(B - drum_span d) \<inter> drum_span e = B \<inter> drum_span e" using i by (auto simp: swap_inv_def)
    then show ?thesis by (simp add: acct_def)
  qed
  moreover have "B - drum_span d \<subseteq> U - drum_span d" using ok(3) by blast
  ultimately show "swap_inv st' (U - drum_span d) (B - drum_span d)" using t(1) by (simp add: swap_inv_def)
qed

lemma paged_in:
  assumes i: "swap_inv st U B" and d: "d \<in> set (devs st)" "enabled d"
    and p: "slot_step\<^sup>*\<^sup>* (swap_disabled d st, U, B) (st2, U2, B2)" and on: "\<forall>e \<in> set (devs st). enabled e"
  obtains d2 where "swap_inv st2 U2 B2" "d2 \<in> set (devs st2)" "swd_vp d2 = swd_vp d" "swd_npages d2 = swd_npages d" "drum_span d2 = drum_span d" "\<not> enabled d2" "is_live d2"
    "\<And>e. e \<in> set (devs st2) \<Longrightarrow> e \<noteq> d2 \<Longrightarrow> enabled e"
proof -
  let ?off = "d\<lparr>swd_flags := swd_flags d AND NOT SWF_ENABLE\<rparr>"
  note di = disabled_inv [OF i d]
  have i2: "swap_inv st2 U2 B2" and fx: "fixed ` set (devs st2) = fixed ` set (devs (swap_disabled d st))"
    using slot_steps_inv [OF p] di(1) by simp_all
  have fo: "fixed ` set (devs (swap_disabled d st)) = insert (fixed ?off) (fixed ` (set (devs st) - {d}))" unfolding di(2) by (rule image_upd [OF d(1)])
  have "fixed ?off \<in> fixed ` set (devs st2)" unfolding fx fo by simp
  then obtain d2 where d2: "d2 \<in> set (devs st2)" "fixed ?off = fixed d2" by (rule imageE)
  have ok2: "swap_ok st2" using i2 by (simp add: swap_inv_def)
  have "swd_flags ?off AND SWF_FAKE = swd_flags d AND SWF_FAKE" using flag_bits(1) [of "swd_flags d"] by simp
  note so = flag_simps(1) [OF this refl]
  have f: "swd_vp d2 = swd_vp d" "swd_flags d2 = swd_flags d AND NOT SWF_ENABLE" "swd_npages d2 = swd_npages d" "drum_span d2 = drum_span d"
    using d2(2) unfolding fixed_def so by simp_all
  have other: "enabled e" if e: "e \<in> set (devs st2)" "e \<noteq> d2" for e
  proof -
    have "swd_vp e \<noteq> swd_vp d2" using other_dev(1) [OF ok2 d2(1) e] .
    then have "fixed e \<noteq> fixed ?off" unfolding d2(2) by (simp add: fixed_def)
    moreover have "fixed e \<in> insert (fixed ?off) (fixed ` (set (devs st) - {d}))" using e(1) unfolding fo [symmetric] fx [symmetric] by (rule imageI)
    ultimately have "fixed e \<in> fixed ` (set (devs st) - {d})" by (simp only: insert_iff simp_thms)
    then obtain g where "g \<in> set (devs st) - {d}" "fixed e = fixed g" by (elim imageE)
    then show ?thesis using on by (simp add: fixed_def)
  qed
  have de: "\<not> enabled d2" and lv: "is_live d2"
    using flag_bits(1,3) [of "swd_flags d"] f(2) enabled_live [OF _ d(2)] i d(1) by (simp_all add: swap_inv_def swap_ok_def)
  show thesis by (rule that [OF i2 d2(1) f(1,3,4) de lv other])
qed

lemma busy_iff:
  assumes "swap_inv st U B" "d \<in> set (devs st)"
  shows "swd_npgbad d < swd_npginuse d \<longleftrightarrow> U \<inter> drum_span d \<noteq> B \<inter> drum_span d"
proof -
  have s: "B \<inter> drum_span d \<subseteq> U \<inter> drum_span d" and f: "finite (U \<inter> drum_span d)" and ac: "acct U B d" using assms by (auto simp: swap_inv_def)
  have "card (B \<inter> drum_span d) < card (U \<inter> drum_span d) \<longleftrightarrow> U \<inter> drum_span d \<noteq> B \<inter> drum_span d"
    using psubset_card_mono [OF f] s by (metis less_irrefl psubsetI)
  then show ?thesis using ac unfolding acct_def by (metis of_nat_less_iff)
qed

lemma off_spec:
  assumes i: "swap_inv st U B" and d: "d \<in> set (devs st)" "enabled d"
    and p: "pagein (swd_drumoffset d) (swd_drumoffset d + swd_drumsize d) (swap_disabled d st) = (st2, failed)"
      "slot_step\<^sup>*\<^sup>* (swap_disabled d st, U, B) (st2, U2, B2)"
    and on: "\<forall>e \<in> set (devs st). enabled e"
  defines "err \<equiv> if failed then SW_ENOMEM else if U2 \<inter> drum_span d \<noteq> B2 \<inter> drum_span d then SW_EBUSY else 0"
  shows "\<exists>st'. sys_swapctl env pagein SWAP_OFF (swd_vp d) st = Ok (st', err) \<and> (\<forall>e \<in> set (devs st'). enabled e) \<and>
    (if err = 0 then swap_inv st' (U2 - drum_span d) (B2 - drum_span d) \<and> swd_vp d \<notin> swd_vp ` set (devs st') \<and> free_slots st' \<inter> drum_span d = {}
     else swap_inv st' U2 B2)"
proof -
  obtain d2 where i2: "swap_inv st2 U2 B2" and d2: "d2 \<in> set (devs st2)" and f: "swd_vp d2 = swd_vp d" "swd_npages d2 = swd_npages d" "drum_span d2 = drum_span d"
    and de: "\<not> enabled d2" and lv: "is_live d2" and other: "\<And>e. e \<in> set (devs st2) \<Longrightarrow> e \<noteq> d2 \<Longrightarrow> enabled e"
    using paged_in [OF i d p(2) on] by blast
  have ok: "swap_ok st" and ok2: "swap_ok st2" using i i2 by (simp_all add: swap_inv_def)
  have "swd_flags d AND SWF_ENABLE = (swd_flags d AND (SWF_INUSE OR SWF_ENABLE)) AND SWF_ENABLE" by (simp add: and.assoc)
  then have "swd_flags d AND (SWF_INUSE OR SWF_ENABLE) \<noteq> 0" using d(2) by (metis bit.conj_zero_left)
  then have sys: "sys_swapctl env pagein SWAP_OFF (swd_vp d) st = swap_off pagein d st"
    using find_Some(1) [OF ok d(1), of False] by (simp add: sys_swapctl_def)
  have fnd: "snd (swaplist_find (swd_vp d) b st2) = Some d2" for b using find_Some(1) [OF ok2 d2] f(1) by simp
  have off: "swap_off pagein d st =
      (if failed \<or> swd_npgbad d2 < swd_npginuse d2
       then Ok (swap_enabled d2 st2, if failed then SW_ENOMEM else SW_EBUSY)
       else case swaplist_find (swd_vp d) True (st2\<lparr>swpages := swpages st2 - swd_npages d2, swpginuse := swpginuse st2 - swd_npgbad d2\<rparr>) of
         (st, None) \<Rightarrow> Panic ''swap_off: swapdev not in list''
       | (st, Some _) \<Rightarrow> Ok (swaplist_trim st, 0))"
    unfolding swap_off_def Let_def swap_disabled_def [symmetric] p(1) prod.case fnd option.case swap_enabled_def f(1,2) by simp
  have busy: "swd_npgbad d2 < swd_npginuse d2 \<longleftrightarrow> U2 \<inter> drum_span d \<noteq> B2 \<inter> drum_span d" using busy_iff [OF i2 d2] f(3) by simp
  show ?thesis
  proof (cases "failed \<or> swd_npgbad d2 < swd_npginuse d2")
    case True
    note en = enabled_inv [OF i2 d2 de lv]
    have "\<forall>e \<in> set (devs (swap_enabled d2 st2)). enabled e" unfolding en(2) using other flag_bits(4) [of "swd_flags d2"] by auto
    moreover have "err = (if failed then SW_ENOMEM else SW_EBUSY)" "err \<noteq> 0" using True busy by (auto simp: err_def)
    ultimately show ?thesis using sys off True en(1) by (intro exI [of _ "swap_enabled d2 st2"]) simp
  next
    case False
    obtain st1 where st1: "swaplist_find (swd_vp d) True st2 = (st1, Some d2)" using fnd [of True] by (metis prod.collapse)
    let ?g = "\<lambda>st. st\<lparr>swpages := swpages st2 - swd_npages d2, swpginuse := swpginuse st2 - swd_npgbad d2\<rparr>"
    have "swaplist_find (swd_vp d) True (?g st2) = (?g st1, Some d2)" using st1 by (auto simp: swaplist_find_def split: option.splits)
    then have r: "sys_swapctl env pagein SWAP_OFF (swd_vp d) st = Ok (swaplist_trim (?g st1), 0)" using sys off False by simp
    have le: "swd_npginuse d2 \<le> swd_npgbad d2" using False by simp
    note rm = remove_inv [OF i2 st1 de le]
    have "\<forall>e \<in> set (devs (swaplist_trim (?g st1))). enabled e" unfolding rm(2) using other by blast
    moreover have "swd_vp d \<notin> swd_vp ` set (devs (swaplist_trim (?g st1)))"
    proof
      assume "swd_vp d \<in> swd_vp ` set (devs (swaplist_trim (?g st1)))"
      then obtain e where "swd_vp d = swd_vp e" "e \<in> set (devs st2) - {d2}" unfolding rm(2) by (rule imageE)
      then show False using other_dev(1) [OF ok2 d2, of e] f(1) by simp
    qed
    moreover have "free_slots (swaplist_trim (?g st1)) \<inter> drum_span d = {}"
      unfolding free_slots_def rm(2) f(3) [symmetric] SUP_inf using other_dev(3) [OF ok2 d2] by simp
    moreover have "err = 0" using False busy by (simp add: err_def)
    ultimately show ?thesis using r rm(1) f(3) by (intro exI [of _ "swaplist_trim (?g st1)"]) simp
  qed
qed

section \<open>Runs\<close>

text \<open>After \<open>uvm_swap_init\<close>: no device, and the counters of \<open>uvmexp\<close> are zero.\<close>

definition uvm_swap_init :: swapstate where
  "uvm_swap_init = \<lparr>swap_priority = [], nswapdev = 0, swpages = 0, swpgavail = 0, swpginuse = 0, swpgonly = 0\<rparr>"

inductive swap_reach :: "swapstate \<Rightarrow> int set \<Rightarrow> int set \<Rightarrow> bool" where
  reach_init: "swap_reach uvm_swap_init {} {}"
| reach_slot: "swap_reach st U B \<Longrightarrow> slot_step (st, U, B) (st', U', B') \<Longrightarrow> swap_reach st' U' B'"
| reach_ctl: "swap_reach st U B \<Longrightarrow> sys_swapctl env pagein (SWAP_CTL k) vp st = Ok (st', e) \<Longrightarrow> swap_reach st' U B"
| reach_on: "swap_reach st U B \<Longrightarrow> on_ready env vp st \<Longrightarrow> sys_swapctl env pagein (SWAP_ON k) vp st = Ok (st', e) \<Longrightarrow> swap_reach st' U B"
| reach_off: "swap_reach st U B \<Longrightarrow> d \<in> set (devs st) \<Longrightarrow>
    pagein (swd_drumoffset d) (swd_drumoffset d + swd_drumsize d) (swap_disabled d st) = (st2, failed) \<Longrightarrow>
    slot_step\<^sup>*\<^sup>* (swap_disabled d st, U, B) (st2, U2, B2) \<Longrightarrow> sys_swapctl env pagein SWAP_OFF (swd_vp d) st = Ok (st', e) \<Longrightarrow>
    swap_reach st' (if e = 0 then U2 - drum_span d else U2) (if e = 0 then B2 - drum_span d else B2)"

lemma init_inv: "swap_inv uvm_swap_init {} {}"
  by (simp add: uvm_swap_init_def swap_inv_def swap_ok_def devs_def drum_ok_def pris_ok_def free_slots_def)

lemma swap_reach_inv: "swap_reach st U B \<Longrightarrow> swap_inv st U B \<and> (\<forall>d \<in> set (devs st). enabled d)"
proof (induction rule: swap_reach.induct)
  case reach_init
  then show ?case using init_inv by (simp add: uvm_swap_init_def devs_def)
next
  case (reach_slot st U B st' U' B')
  then have i: "swap_inv st' U' B'" "fixed ` set (devs st') = fixed ` set (devs st)" using slot_step_inv [OF reach_slot(2)] by simp_all
  have "enabled e" if "e \<in> set (devs st')" for e
  proof -
    have "fixed e \<in> fixed ` set (devs st)" unfolding i(2) [symmetric] using that by (rule imageI)
    then obtain d where "fixed e = fixed d" "d \<in> set (devs st)" by (rule imageE)
    then show ?thesis using reach_slot.IH by (simp add: fixed_def)
  qed
  then show ?case using i(1) by blast
next
  case (reach_ctl st U B env pagein k vp st' e)
  then show ?case using ctl_inv [of st U B env pagein k vp st' e] by blast
next
  case (reach_on st U B env vp pagein k st' e)
  then show ?case using on_inv [of st U B env pagein k vp st' e] by blast
next
  case (reach_off st U B d pagein st2 failed U2 B2 env st' e)
  then have i: "swap_inv st U B" "\<forall>d \<in> set (devs st). enabled d" "enabled d" by simp_all
  show ?case using off_spec [where pagein = pagein and env = env, OF i(1) reach_off(2) i(3) reach_off(3,4) i(2)] reach_off(5) by (auto split: if_splits)
qed

end
