(* ===== verification/Swap_Props.thy ===== *)
theory Swap_Props
  imports Swap_Reach
begin

text \<open>
  What swap space promises: allocation, release, the runs of the system, and starting and stopping to swap on a device.
\<close>

section \<open>A device to try it on\<close>

text \<open>A partition of 64 blocks, the first range of the drum, and memory for the block list that was zero.\<close>

definition sample_env :: swap_env where
  "sample_env = \<lparr>rootvp = 0, v_type = (\<lambda>_. VBLK), VOP_OPEN = (\<lambda>_. 0), d_psize = (\<lambda>_. Some 64), VOP_GETATTR = (\<lambda>_. Inl 5),
     VFS_STATVFS = (\<lambda>_. 0), f_rootblocks = 0, vmem_alloc = (\<lambda>_. 1), blist_mem = (\<lambda>_. \<lparr>bm_u = 0, bm_bighint = 0\<rparr>)\<rparr>"

definition sample_swap :: swapstate where
  "sample_swap = (case sys_swapctl sample_env (\<lambda>_ _ st. (st, False)) (SWAP_ON 0) 7 uvm_swap_init of Ok (st, _) \<Rightarrow> st | _ \<Rightarrow> uvm_swap_init)"

lemma sample_usable: "usable sample_env 7 64 0"
  by (simp add: usable_def sample_env_def swap_size_def swap_addr_def)

lemma sample_swap_on:
  obtains d where "sys_swapctl sample_env (\<lambda>_ _ st. (st, False)) (SWAP_ON 0) 7 uvm_swap_init = Ok (sample_swap, 0)" "swap_ok sample_swap"
    "free_slots sample_swap = {2..<9}" "set (devs sample_swap) = {d}" "enabled d" "drum_span d = {1..<9}" "swd_vp d = 7"
proof -
  have "swap_ok uvm_swap_init" "7 \<notin> swd_vp ` set (devs uvm_swap_init)" "drum_free sample_env uvm_swap_init (64 div 8)"
    using init_inv by (simp_all add: swap_inv_def uvm_swap_init_def devs_def drum_free_def sample_env_def)
  from swapctl_on_spec [OF this(1,2) sample_usable this(3), of "\<lambda>_ _ st. (st, False)" 0] obtain st d where s:
    "sys_swapctl sample_env (\<lambda>_ _ st. (st, False)) (SWAP_ON 0) 7 uvm_swap_init = Ok (st, 0)" "swap_ok st"
    "free_slots st = {2..<9}" "set (devs st) = {d}" "enabled d" "drum_span d = {1..<9}" "swd_vp d = 7"
    by (auto simp: sample_env_def swap_addr_def uvm_swap_init_def free_slots_def devs_def)
  have "sample_swap = st" using s(1) by (simp add: sample_swap_def)
  then show thesis using that s by blast
qed

lemma sample_reach: "swap_reach sample_swap {} {}"
proof -
  have "on_ready sample_env 7 uvm_swap_init"
    using sample_usable by (auto simp: on_ready_def drum_free_def uvm_swap_init_def devs_def sample_env_def)
  then show ?thesis using sample_swap_on reach_on [OF reach_init, of sample_env 7] by metis
qed

section \<open>Slots\<close>

text \<open>
  C8. \<open>uvm_swap_alloc\<close> (\<open>uvm/uvm_swap.c\<close>) on a consistent swap space, for a request of at most as many slots as a block list gives at
  once, returns and keeps it consistent. Either it returns 0, and nothing is free that was not and nothing taken, and then, for a
  single slot or when the caller takes less, no device that can be used has a free slot; or it returns the first of \<open>*nslots\<close>
  slots in a row, all of them free before on a device that can be used, none of them free after, everything else as it
  was, and counted as in use. \<open>*nslots\<close> is what was asked for, or 1 when less is fine. A single slot comes from a device of the smallest
  priority number that has one.
\<close>

theorem swap_alloc_exact:
  assumes "swap_ok st" "1 \<le> n" "n \<le> 32"
  shows "\<exists>st' m s. uvm_swap_alloc n lessok st = Ok (st', m, s) \<and> swap_ok st' \<and> (m = n \<or> lessok \<and> m = 1) \<and>
    (if s = 0 then free_slots st' = free_slots st \<and> (n = 1 \<or> lessok \<longrightarrow> open_slots st = {})
     else 0 < s \<and> {s..<s + m} \<subseteq> open_slots st \<and> free_slots st' = free_slots st - {s..<s + m} \<and> swpginuse st' = swpginuse st + m \<and>
       (m = 1 \<longrightarrow> lowest st s))"
proof -
  obtain st' m s where a: "uvm_swap_alloc n lessok st = Ok (st', m, s)" "alloc_result n lessok st st' m s"
    using uvm_swap_alloc_spec [OF assms] by blast
  then show ?thesis by (intro exI [of _ st'] exI [of _ m] exI [of _ s], cases "s = 0") (simp_all add: alloc_result_def)
qed

lemma swap_alloc_exact_witness:
  "swap_ok sample_swap \<and> (\<exists>st' m s. uvm_swap_alloc 4 True sample_swap = Ok (st', m, s) \<and> 0 < s \<and> free_slots st' = {2..<9} - {s..<s + m})"
proof -
  obtain d where d: "swap_ok sample_swap" "free_slots sample_swap = {2..<9}" "set (devs sample_swap) = {d}" "enabled d" using sample_swap_on by metis
  have "open_slots sample_swap = free_slots sample_swap" using d(3,4) by (auto simp: open_slots_def free_slots_def)
  then show ?thesis using swap_alloc_exact [OF d(1), of 4 True] d(1,2) by (auto split: if_splits)
qed

text \<open>
  C40. Slots taken with \<open>uvm_swap_alloc\<close> and given back with \<open>uvm_swap_free\<close> (\<open>uvm/uvm_swap.c\<close>) are free again: the device is found from the
  slot, the release succeeds, and the free slots and the count of slots in use are what they were before the allocation.
\<close>

theorem swap_alloc_free:
  assumes ok: "swap_ok st" and n: "1 \<le> n" "n \<le> 32" and a: "uvm_swap_alloc n lessok st = Ok (st', m, s)" "s \<noteq> 0"
  shows "\<exists>st''. uvm_swap_free s m st' = Ok st'' \<and> swap_ok st'' \<and> free_slots st'' = free_slots st \<and> swpginuse st'' = swpginuse st"
proof -
  have r: "swap_ok st'" "{s..<s + m} \<subseteq> open_slots st" "free_slots st' = free_slots st - {s..<s + m}" "swpginuse st' = swpginuse st + m"
    "slot_taken m s st st'" "1 \<le> m"
    using uvm_swap_alloc_spec [OF ok n, of lessok] a n by (auto simp: alloc_result_def)
  obtain d d' where d: "d \<in> set (devs st)" "taken d m s d'" "view ` set (devs st') = insert (view d') (view ` (set (devs st) - {d}))"
    using slot_taken_devs [OF ok r(5)] .
  have "view d' \<in> view ` set (devs st')" unfolding d(3) by simp
  then obtain e where e: "view d' = view e" "e \<in> set (devs st')" by (rule imageE)
  have "dev_ok d" using ok d(1) by (simp add: swap_ok_def)
  then have "dev_slots d \<subseteq> drum_span d" "0 \<le> swd_npginuse d" using dev_slots_span by (simp_all add: dev_ok_def)
  then have "{s..<s + m} \<subseteq> drum_span e" "{s..<s + m} \<inter> dev_slots e = {}" "m \<le> swd_npginuse e"
    using d(2) taken_view(2,6) [OF d(2)] view_eqD(2,7,8) [OF e(1)] by (auto simp: taken_def)
  from uvm_swap_free_spec [OF r(1) e(2) r(6) this(3,1,2)] obtain st'' where
    "uvm_swap_free s m st' = Ok st''" "swap_ok st''" "free_slots st'' = free_slots st' \<union> {s..<s + m}" "swpginuse st'' = swpginuse st' - m" by blast
  moreover have "open_slots st \<subseteq> free_slots st" by (auto simp: open_slots_def free_slots_def)
  ultimately show ?thesis using r(2-4) by (intro exI [of _ st'']) auto
qed

lemma swap_alloc_free_witness:
  "\<exists>st' m s st''. uvm_swap_alloc 4 True sample_swap = Ok (st', m, s) \<and> s \<noteq> 0 \<and> uvm_swap_free s m st' = Ok st'' \<and> free_slots st'' = {2..<9}"
proof -
  obtain d where d: "swap_ok sample_swap" "free_slots sample_swap = {2..<9}" "set (devs sample_swap) = {d}" "enabled d" using sample_swap_on by metis
  have o: "open_slots sample_swap \<noteq> {}" using d by (auto simp: open_slots_def free_slots_def)
  obtain st' m s where "uvm_swap_alloc 4 True sample_swap = Ok (st', m, s)" "s \<noteq> 0"
    using uvm_swap_alloc_spec [OF d(1), of 4 True] o by (auto simp: alloc_result_def)
  then show ?thesis using swap_alloc_free [OF d(1), of 4 True st' m s] d(2) by auto
qed

section \<open>Runs\<close>

text \<open>
  C3. In every state that calls of \<open>uvm_swap_alloc\<close>, \<open>uvm_swap_free\<close>, \<open>uvm_swap_markbad\<close> and \<open>swapctl\<close> (\<open>uvm/uvm_swap.c\<close>) lead to, with callers
  that free what they hold and the range of the drum for a new device not in use, swap space is consistent: the list is sorted by
  priority without empty entries, no two devices share a vnode or a slot, the counters are the sums over the devices. No
  slot is both free and held by a caller, \<open>uvmexp.swpginuse\<close> is the number of slots held, all of the swap space is available, and
  the slots that an allocation returns are held by nobody.
\<close>

theorem swap_runs_exact:
  assumes "swap_reach st U B"
  shows "swap_ok st \<and> U \<inter> free_slots st = {} \<and> swpginuse st = int (card U) \<and> swpgavail st = swpages st \<and>
    (\<forall>n lessok st' m s. 1 \<le> n \<and> n \<le> 32 \<and> uvm_swap_alloc n lessok st = Ok (st', m, s) \<and> s \<noteq> 0 \<longrightarrow> {s..<s + m} \<inter> U = {})"
proof -
  have i: "swap_inv st U B" "\<forall>d \<in> set (devs st). enabled d" using swap_reach_inv [OF assms] by simp_all
  have ok: "swap_ok st" "U \<inter> free_slots st = {}" using i(1) by (simp_all add: swap_inv_def)
  have "map avail_of (devs st) = map swd_npages (devs st)" using i(2) by (simp add: avail_of_def)
  then have "swpgavail st = swpages st" using ok(1) unfolding swap_ok_def by metis
  moreover have "{s..<s + m} \<inter> U = {}" if "1 \<le> n" "n \<le> 32" "uvm_swap_alloc n lessok st = Ok (st', m, s)" "s \<noteq> 0" for n lessok st' m s
  proof -
    have "{s..<s + m} \<subseteq> open_slots st" using uvm_swap_alloc_spec [OF ok(1) that(1,2), of lessok] that(3,4) by (auto simp: alloc_result_def)
    moreover have "open_slots st \<subseteq> free_slots st" by (auto simp: open_slots_def free_slots_def)
    ultimately show ?thesis using ok(2) by blast
  qed
  ultimately show ?thesis using ok held_count [OF i(1)] by blast
qed

lemma swap_runs_exact_witness: "swap_reach sample_swap {} {} \<and> swpginuse sample_swap = 0 \<and> swpgavail sample_swap = swpages sample_swap"
  using swap_runs_exact [OF sample_reach] sample_reach by simp

section \<open>Devices\<close>

text \<open>
  C22. \<open>swapctl\<close> with \<open>SWAP_ON\<close> (\<open>sys_swapctl\<close> and \<open>swap_on\<close>, \<open>uvm/uvm_swap.c\<close>) for a vnode that is not on the list, that can be opened and has room for a
  page beyond what is skipped, returns 0 and adds exactly the pages that may be used to the free slots: those of the range of the drum
  for the device, without the first page of a block device (the label) and without the pages of the miniroot when it is the
  root device. The space stays consistent.
\<close>

theorem swap_on_exact:
  assumes "swap_ok st" "vp \<notin> swd_vp ` set (devs st)" "usable env vp nblocks rootpages" "drum_free env st (nblocks div 8)"
  shows "\<exists>st'. sys_swapctl env pagein (SWAP_ON priority) vp st = Ok (st', 0) \<and> swap_ok st' \<and> vp \<in> swd_vp ` set (devs st') \<and>
    free_slots st' = free_slots st \<union> {vmem_alloc env (nblocks div 8) + (if v_type env vp = VBLK then 1 else 0) + rootpages..<vmem_alloc env (nblocks div 8) + nblocks div 8}"
proof -
  obtain st' d' where "sys_swapctl env pagein (SWAP_ON priority) vp st = Ok (st', 0)" "swap_ok st'" "set (devs st') = insert d' (set (devs st))" "swd_vp d' = vp"
    "free_slots st' = free_slots st \<union> {vmem_alloc env (nblocks div 8) + swap_addr env vp + rootpages..<vmem_alloc env (nblocks div 8) + nblocks div 8}"
    using swapctl_on_spec [OF assms, of pagein priority] by blast
  then show ?thesis by (intro exI [of _ st']) (simp add: swap_addr_def)
qed

lemma swap_on_exact_witness:
  "\<exists>st'. sys_swapctl sample_env (\<lambda>_ _ st. (st, False)) (SWAP_ON 3) 7 uvm_swap_init = Ok (st', 0) \<and> swap_ok st' \<and> free_slots st' = {2..<9}"
proof -
  have i: "swap_ok uvm_swap_init" "7 \<notin> swd_vp ` set (devs uvm_swap_init)" "drum_free sample_env uvm_swap_init (64 div 8)" "free_slots uvm_swap_init = {}"
    using init_inv by (simp_all add: swap_inv_def uvm_swap_init_def devs_def drum_free_def sample_env_def free_slots_def)
  then show ?thesis using swap_on_exact [OF i(1,2) sample_usable i(3), of "\<lambda>_ _ st. (st, False)" 3]
    by (auto simp: sample_env_def)
qed

text \<open>
  C24. A \<open>SWAP_ON\<close> (\<open>sys_swapctl\<close>, \<open>uvm/uvm_swap.c\<close>) that fails leaves no trace: for a vnode that cannot be opened, has no size or not a page to
  use, the call returns that error, and after the placeholder was put on the list and taken off again swap space is the same in
  every field, also when the placeholder had a new entry of the priority list of its own.
\<close>

theorem swap_on_undone:
  assumes "swap_ok st" "vp \<notin> swd_vp ` set (devs st)" "on_error env vp = Some e" "e \<noteq> 0"
  shows "sys_swapctl env pagein (SWAP_ON priority) vp st = Ok (st, e)"
  using assms by (rule swapctl_on_error)

lemma swap_on_undone_witness:
  "sys_swapctl (sample_env\<lparr>d_psize := \<lambda>_. Some 9\<rparr>) (\<lambda>_ _ st. (st, False)) (SWAP_ON 3) 8 sample_swap = Ok (sample_swap, 22) \<and> devs sample_swap \<noteq> []"
proof -
  obtain d where d: "swap_ok sample_swap" "set (devs sample_swap) = {d}" "swd_vp d = 7" using sample_swap_on by metis
  have "swap_npages 9 = 1" by (subst swap_npages_eq) simp_all
  then have "on_error (sample_env\<lparr>d_psize := \<lambda>_. Some 9\<rparr>) 8 = Some 22"
    by (simp add: on_error_def sample_env_def swap_size_def swap_addr_def)
  then show ?thesis using swap_on_undone [OF d(1), of 8 "sample_env\<lparr>d_psize := \<lambda>_. Some 9\<rparr>" 22] d(2,3) by auto
qed

text \<open>
  C12. \<open>swapctl\<close> with \<open>SWAP_OFF\<close> (\<open>sys_swapctl\<close> and \<open>swap_off\<close>, \<open>uvm/uvm_swap.c\<close>) in a state of the run, where bringing in the pages is a sequence of
  allocations, releases and bad slots. It returns ENOMEM when that failed, EBUSY when a caller still holds a slot of the
  device that is not bad, and 0 otherwise. After an error the device can be used again as before; after success it is gone from the
  list, none of its slots is free or counted as in use, bad ones included. The state is one of the run again.
\<close>

theorem swap_off_exact:
  assumes r: "swap_reach st U B" and d: "d \<in> set (devs st)"
    and p: "pagein (swd_drumoffset d) (swd_drumoffset d + swd_drumsize d) (swap_disabled d st) = (st2, failed)"
      "slot_step\<^sup>*\<^sup>* (swap_disabled d st, U, B) (st2, U2, B2)"
  shows "\<exists>st' e. sys_swapctl env pagein SWAP_OFF (swd_vp d) st = Ok (st', e) \<and>
    e = (if failed then 12 else if U2 \<inter> drum_span d \<noteq> B2 \<inter> drum_span d then 16 else 0) \<and>
    (if e = 0 then swap_reach st' (U2 - drum_span d) (B2 - drum_span d) \<and> swd_vp d \<notin> swd_vp ` set (devs st') \<and> free_slots st' \<inter> drum_span d = {} \<and>
       swpginuse st' = int (card (U2 - drum_span d))
     else swap_reach st' U2 B2 \<and> (\<forall>e \<in> set (devs st'). enabled e))"
proof -
  have i: "swap_inv st U B" "\<forall>d \<in> set (devs st). enabled d" "enabled d" using swap_reach_inv [OF r] d by simp_all
  let ?e = "if failed then 12 else if U2 \<inter> drum_span d \<noteq> B2 \<inter> drum_span d then 16 else 0 :: int"
  obtain st' where s: "sys_swapctl env pagein SWAP_OFF (swd_vp d) st = Ok (st', ?e)" "\<forall>e \<in> set (devs st'). enabled e"
    "if ?e = 0 then swap_inv st' (U2 - drum_span d) (B2 - drum_span d) \<and> swd_vp d \<notin> swd_vp ` set (devs st') \<and> free_slots st' \<inter> drum_span d = {} else swap_inv st' U2 B2"
    using off_spec [where pagein = pagein and env = env, OF i(1) d i(3) p i(2)] by blast
  have "swap_reach st' (if ?e = 0 then U2 - drum_span d else U2) (if ?e = 0 then B2 - drum_span d else B2)" using reach_off [OF r d p s(1)] .
  then show ?thesis using s held_count [of st' "U2 - drum_span d" "B2 - drum_span d"] by (intro exI [of _ st'] exI [of _ ?e]) (simp split: if_splits)
qed

lemma swap_off_exact_witness:
  "\<exists>st'. sys_swapctl sample_env (\<lambda>_ _ st. (st, False)) SWAP_OFF 7 sample_swap = Ok (st', 0) \<and> 7 \<notin> swd_vp ` set (devs st') \<and> swpginuse st' = 0"
proof -
  obtain d where d: "set (devs sample_swap) = {d}" "swd_vp d = 7" using sample_swap_on by metis
  then show ?thesis
    using swap_off_exact [where pagein = "\<lambda>_ _ st. (st, False)" and env = sample_env, OF sample_reach, of d _ False "{}" "{}"] by auto
qed

end
