(* ===== verification/Aobj.thy ===== *)
theory Aobj
  imports Swap_Props
begin

text \<open>
  The table of swap slots of an anonymous memory object (\<open>uvm/uvm_aobj.c\<close>): an array for a small object, for a large one a hash table
  of clusters of 16 slots, each with the number of its slots that are in use. Page indices are \<open>nat\<close>; slots are \<open>int\<close>, 0 for none
  and \<open>SWSLOT_BAD\<close> for a page that could not be read back. A bucket is the list of its elements, first element first, and a
  pointer to an element is its bucket and tag.
\<close>

section \<open>State\<close>

record uao_swhash_elt =
  elt_tag :: nat
  elt_count :: int
  elt_slots :: "int list"

record uvm_aobj =
  u_pages :: nat
  u_flags :: u32
  u_swslots :: "int list"
  u_swhash :: "uao_swhash_elt list list"
  u_swhashmask :: nat

abbreviation (input) UAO_FLAG_KERNOBJ :: u32 where "UAO_FLAG_KERNOBJ \<equiv> 1"
abbreviation (input) UAO_FLAG_KERNSWAP :: u32 where "UAO_FLAG_KERNSWAP \<equiv> 2"
abbreviation (input) UAO_FLAG_NOSWAP :: u32 where "UAO_FLAG_NOSWAP \<equiv> 8"
abbreviation (input) UAO_SWHASH_CLUSTER_SIZE :: nat where "UAO_SWHASH_CLUSTER_SIZE \<equiv> 16"

definition UAO_SWHASH_ELT_TAG :: "nat \<Rightarrow> nat" where
  "UAO_SWHASH_ELT_TAG pageidx = drop_bit 4 pageidx"

definition UAO_SWHASH_ELT_PAGESLOT_IDX :: "nat \<Rightarrow> nat" where
  "UAO_SWHASH_ELT_PAGESLOT_IDX pageidx = pageidx AND 15"

definition UAO_SWHASH_HASH :: "uvm_aobj \<Rightarrow> nat \<Rightarrow> nat" where
  "UAO_SWHASH_HASH aobj pageidx = drop_bit 4 pageidx AND u_swhashmask aobj"

definition UAO_USES_SWHASH :: "uvm_aobj \<Rightarrow> bool" where
  "UAO_USES_SWHASH aobj \<longleftrightarrow> 64 < u_pages aobj"

definition UAO_SWHASH_BUCKETS :: "uvm_aobj \<Rightarrow> nat" where
  "UAO_SWHASH_BUCKETS aobj = min (drop_bit 4 (u_pages aobj)) 256"

section \<open>Slots\<close>

text \<open>The element of a bucket with a tag, replaced or removed.\<close>

fun upd_elt :: "nat \<Rightarrow> uao_swhash_elt option \<Rightarrow> uao_swhash_elt list \<Rightarrow> uao_swhash_elt list" where
  "upd_elt tag new [] = []"
| "upd_elt tag new (elt # rest) =
     (if elt_tag elt = tag then (case new of None \<Rightarrow> rest | Some elt' \<Rightarrow> elt' # rest) else elt # upd_elt tag new rest)"

text \<open>\<open>mem\<close> is whether \<open>pool_get\<close> has memory.\<close>

definition uao_find_swhash_elt :: "uvm_aobj \<Rightarrow> nat \<Rightarrow> bool \<Rightarrow> bool \<Rightarrow> uvm_aobj \<times> uao_swhash_elt option" where
  "uao_find_swhash_elt aobj pageidx create mem =
     (let b = UAO_SWHASH_HASH aobj pageidx; page_tag = UAO_SWHASH_ELT_TAG pageidx; swhash = u_swhash aobj ! b
      in case find (\<lambda>elt. elt_tag elt = page_tag) swhash of
           Some elt \<Rightarrow> (aobj, Some elt)
         | None \<Rightarrow>
             if \<not> create \<or> \<not> mem then (aobj, None)
             else let elt = \<lparr>elt_tag = page_tag, elt_count = 0, elt_slots = replicate 16 0\<rparr>
                  in (aobj\<lparr>u_swhash := (u_swhash aobj)[b := elt # swhash]\<rparr>, Some elt))"

definition uao_find_swslot :: "uvm_aobj \<Rightarrow> nat \<Rightarrow> int result" where
  "uao_find_swslot aobj pageidx =
     (if u_flags aobj AND UAO_FLAG_NOSWAP \<noteq> 0 then Ok 0
      else if UAO_USES_SWHASH aobj
      then Ok (case snd (uao_find_swhash_elt aobj pageidx False False) of
                 Some elt \<Rightarrow> elt_slots elt ! UAO_SWHASH_ELT_PAGESLOT_IDX pageidx
               | None \<Rightarrow> 0)
      else if pageidx < length (u_swslots aobj) then Ok (u_swslots aobj ! pageidx)
      else Undef ''array index'')"

text \<open>The element after its slot was set, and whether it goes.\<close>

definition elt_set :: "uao_swhash_elt \<Rightarrow> nat \<Rightarrow> int \<Rightarrow> uao_swhash_elt option" where
  "elt_set elt i slot =
     (let oldslot = elt_slots elt ! i; elt = elt\<lparr>elt_slots := (elt_slots elt)[i := slot]\<rparr>
      in if slot \<noteq> 0 then Some (if oldslot = 0 then elt\<lparr>elt_count := elt_count elt + 1\<rparr> else elt)
         else let elt = (if oldslot \<noteq> 0 then elt\<lparr>elt_count := elt_count elt - 1\<rparr> else elt)
              in if elt_count elt = 0 then None else Some elt)"

definition uao_set_swslot :: "uvm_aobj \<Rightarrow> nat \<Rightarrow> int \<Rightarrow> bool \<Rightarrow> (uvm_aobj \<times> int) result" where
  "uao_set_swslot aobj pageidx slot mem =
     (if u_flags aobj AND UAO_FLAG_NOSWAP \<noteq> 0
      then if slot = 0 then Ok (aobj, 0) else Panic ''uao_set_swslot: NOSWAP object''
      else if UAO_USES_SWHASH aobj
      then case uao_find_swhash_elt aobj pageidx (slot \<noteq> 0) mem of
             (aobj, None) \<Rightarrow> Ok (aobj, if slot \<noteq> 0 then - 1 else 0)
           | (aobj, Some elt) \<Rightarrow>
               let i = UAO_SWHASH_ELT_PAGESLOT_IDX pageidx; b = UAO_SWHASH_HASH aobj pageidx
               in Ok (aobj\<lparr>u_swhash := (u_swhash aobj)[b := upd_elt (elt_tag elt) (elt_set elt i slot) (u_swhash aobj ! b)]\<rparr>, elt_slots elt ! i)
      else if pageidx < length (u_swslots aobj)
      then Ok (aobj\<lparr>u_swslots := (u_swslots aobj)[pageidx := slot]\<rparr>, u_swslots aobj ! pageidx)
      else Undef ''array index'')"

definition uao_dropswap :: "uvm_aobj \<Rightarrow> nat \<Rightarrow> swapstate \<Rightarrow> (uvm_aobj \<times> swapstate) result" where
  "uao_dropswap aobj pageidx st =
     bind_r (uao_set_swslot aobj pageidx 0 False) (\<lambda>(aobj, slot).
       if slot \<noteq> 0 then bind_r (uvm_swap_free slot 1 st) (\<lambda>st. Ok (aobj, st)) else Ok (aobj, st))"

section \<open>Ranges\<close>

text \<open>The loop of \<open>uao_dropswap_range1\<close> over the slots of an element, with the count of slots freed.\<close>

fun drop_slots :: "nat list \<Rightarrow> uao_swhash_elt \<Rightarrow> swapstate \<Rightarrow> int \<Rightarrow> (uao_swhash_elt \<times> swapstate \<times> int) result" where
  "drop_slots [] elt st delta = Ok (elt, st, delta)"
| "drop_slots (j # js) elt st delta =
     (let slot = elt_slots elt ! j
      in if 0 < slot
         then bind_r (uvm_swap_free slot 1 st) (\<lambda>st.
                drop_slots js (elt\<lparr>elt_slots := (elt_slots elt)[j := 0], elt_count := elt_count elt - 1\<rparr>) st (delta + 1))
         else drop_slots js elt st delta)"

fun drop_elts :: "nat \<Rightarrow> nat \<Rightarrow> uao_swhash_elt list \<Rightarrow> swapstate \<Rightarrow> int \<Rightarrow> (uao_swhash_elt list \<times> swapstate \<times> int) result" where
  "drop_elts start stop [] st delta = Ok ([], st, delta)"
| "drop_elts start stop (elt # rest) st delta =
     (let taglo = UAO_SWHASH_ELT_TAG start; taghi = UAO_SWHASH_ELT_TAG stop
      in if elt_tag elt < taglo \<or> taghi < elt_tag elt
         then bind_r (drop_elts start stop rest st delta) (\<lambda>(rest, st, delta). Ok (elt # rest, st, delta))
         else
           let startidx = (if elt_tag elt = taglo then UAO_SWHASH_ELT_PAGESLOT_IDX start else 0);
               endidx = (if elt_tag elt = taghi then UAO_SWHASH_ELT_PAGESLOT_IDX stop else UAO_SWHASH_CLUSTER_SIZE)
           in bind_r (drop_slots [startidx..<endidx] elt st delta) (\<lambda>(elt, st, delta).
              bind_r (drop_elts start stop rest st delta) (\<lambda>(rest, st, delta).
              Ok (if elt_count elt = 0 then rest else elt # rest, st, delta))))"

fun drop_buckets :: "nat \<Rightarrow> nat \<Rightarrow> uao_swhash_elt list list \<Rightarrow> swapstate \<Rightarrow> int \<Rightarrow> (uao_swhash_elt list list \<times> swapstate \<times> int) result" where
  "drop_buckets start stop [] st delta = Ok ([], st, delta)"
| "drop_buckets start stop (b # bs) st delta =
     bind_r (drop_elts start stop b st delta) (\<lambda>(b, st, delta).
     bind_r (drop_buckets start stop bs st delta) (\<lambda>(bs, st, delta). Ok (b # bs, st, delta)))"

fun drop_array :: "nat list \<Rightarrow> int list \<Rightarrow> swapstate \<Rightarrow> int \<Rightarrow> (swapstate \<times> int) result" where
  "drop_array [] table st delta = Ok (st, delta)"
| "drop_array (i # is) table st delta =
     (let slot = table ! i
      in if 0 < slot then bind_r (uvm_swap_free slot 1 st) (\<lambda>st. drop_array is table st (delta + 1))
         else drop_array is table st delta)"

definition uao_dropswap_range1 :: "uvm_aobj \<Rightarrow> nat \<Rightarrow> nat \<Rightarrow> swapstate \<Rightarrow> (uvm_aobj \<times> swapstate) result" where
  "uao_dropswap_range1 aobj start stop st =
     (let stop = (if stop = 0 then 2 ^ 63 - 1 else stop)
      in bind_r (if UAO_USES_SWHASH aobj
                 then bind_r (drop_buckets start stop (u_swhash aobj) st 0) (\<lambda>(h, st, delta). Ok (aobj\<lparr>u_swhash := h\<rparr>, st, delta))
                 else bind_r (drop_array [start..<(if u_pages aobj < stop then u_pages aobj else stop)] (u_swslots aobj) st 0)
                        (\<lambda>(st, delta). Ok (aobj, st, delta)))
           (\<lambda>(aobj, st, delta). Ok (aobj, if 0 < delta then st\<lparr>swpgonly := swpgonly st - delta\<rparr> else st)))"

section \<open>Creation\<close>

text \<open>The loop of \<open>hashinit\<close> (\<open>kern/subr_hash.c\<close>).\<close>

function hash_size :: "nat \<Rightarrow> nat \<Rightarrow> nat" where
  "hash_size hashsize elements = (if 0 < hashsize \<and> hashsize < elements then hash_size (2 * hashsize) elements else hashsize)"
  by pat_completeness auto
termination by (relation "measure (\<lambda>(h, n). n - h)") auto

declare hash_size.simps [simp del]

definition hashinit :: "nat \<Rightarrow> (uao_swhash_elt list list \<times> nat) result" where
  "hashinit elements =
     (if elements = 0 then Panic ''hashinit: bad cnt''
      else let n = hash_size 1 elements in Ok (replicate n [], n - 1))"

text \<open>\<open>mem\<close> is the memory of the object: the kernel object, or what the pool returned.\<close>

definition uao_create :: "u32 \<Rightarrow> u32 \<Rightarrow> uvm_aobj \<Rightarrow> uvm_aobj result" where
  "uao_create sz flags mem =
     (let pages = unat (drop_bit 12 ((sz + 4095) AND NOT 4095));
          aobj = (if flags AND UAO_FLAG_KERNOBJ \<noteq> 0 then mem\<lparr>u_pages := pages, u_flags := UAO_FLAG_NOSWAP\<rparr>
                  else if flags AND UAO_FLAG_KERNSWAP \<noteq> 0 then mem
                  else mem\<lparr>u_pages := pages, u_flags := 0\<rparr>)
      in if flags = 0 \<or> flags AND UAO_FLAG_KERNSWAP \<noteq> 0
         then bind_r (if UAO_USES_SWHASH aobj
                      then bind_r (hashinit (UAO_SWHASH_BUCKETS aobj)) (\<lambda>(h, m). Ok (aobj\<lparr>u_swhash := h, u_swhashmask := m\<rparr>))
                      else Ok (aobj\<lparr>u_swslots := replicate pages 0\<rparr>))
                (\<lambda>aobj. Ok (if flags \<noteq> 0 then aobj\<lparr>u_flags := u_flags aobj AND NOT UAO_FLAG_NOSWAP\<rparr> else aobj))
         else Ok aobj)"

end
