(* ===== verification/Aobj_Table.thy ===== *)
theory Aobj_Table
  imports Aobj
begin

text \<open>
  The table as a function from pages to slots: what \<open>uao_find_swslot\<close> returns and what \<open>uao_set_swslot\<close> changes of it.
\<close>

section \<open>Clusters\<close>

lemma tag_div: "UAO_SWHASH_ELT_TAG i = i div 16"
  by (simp add: UAO_SWHASH_ELT_TAG_def drop_bit_eq_div)

lemma idx_mod: "UAO_SWHASH_ELT_PAGESLOT_IDX i = i mod 16"
proof -
  have "i AND 15 = take_bit 4 i" by (simp add: take_bit_eq_mask mask_eq_exp_minus_1)
  then show ?thesis by (simp add: UAO_SWHASH_ELT_PAGESLOT_IDX_def take_bit_eq_mod)
qed

definition used_slots :: "int list \<Rightarrow> nat" where
  "used_slots xs = length (filter (\<lambda>s. s \<noteq> 0) xs)"

lemma used_slots_update: "j < length xs \<Longrightarrow> used_slots (xs[j := v]) + of_bool (xs ! j \<noteq> 0) = used_slots xs + of_bool (v \<noteq> 0)"
  unfolding used_slots_def
proof (induction xs arbitrary: j)
  case (Cons x xs)
  then show ?case by (cases j) auto
qed simp

lemma used_slots_0: "used_slots xs = 0 \<longleftrightarrow> (\<forall>i < length xs. xs ! i = 0)"
  by (simp add: used_slots_def filter_empty_conv all_set_conv_all_nth)

text \<open>A new element has no slot in use yet; elements of the table have.\<close>

definition elt_counts :: "uao_swhash_elt \<Rightarrow> bool" where
  "elt_counts e \<longleftrightarrow> length (elt_slots e) = 16 \<and> elt_count e = int (used_slots (elt_slots e))"

definition elt_ok :: "uao_swhash_elt \<Rightarrow> bool" where
  "elt_ok e \<longleftrightarrow> elt_counts e \<and> elt_count e \<noteq> 0"

lemma elt_set_spec:
  assumes "elt_counts e" "j < 16"
  shows "case elt_set e j slot of
      None \<Rightarrow> \<forall>i < 16. (elt_slots e)[j := slot] ! i = 0
    | Some e' \<Rightarrow> elt_ok e' \<and> elt_tag e' = elt_tag e \<and> elt_slots e' = (elt_slots e)[j := slot]"
proof -
  have l: "length (elt_slots e) = 16" using assms(1) by (simp add: elt_counts_def)
  note u = used_slots_update [of j "elt_slots e" slot]
  have "slot \<noteq> 0 \<Longrightarrow> used_slots ((elt_slots e)[j := slot]) \<noteq> 0" using used_slots_0 [of "(elt_slots e)[j := slot]"] assms(2) l by fastforce
  then show ?thesis
    using assms u used_slots_0 [of "(elt_slots e)[j := slot]"] l by (auto simp: elt_set_def Let_def elt_ok_def elt_counts_def split: if_splits)
qed

section \<open>Buckets\<close>

abbreviation elt_of :: "uao_swhash_elt list \<Rightarrow> nat \<Rightarrow> uao_swhash_elt option" where
  "elt_of es t \<equiv> find (\<lambda>elt. elt_tag elt = t) es"

definition bucket_ok :: "nat \<Rightarrow> nat \<Rightarrow> uao_swhash_elt list \<Rightarrow> bool" where
  "bucket_ok m b es \<longleftrightarrow> distinct (map elt_tag es) \<and> (\<forall>e \<in> set es. elt_ok e \<and> elt_tag e AND m = b)"

definition bucket_slot :: "uao_swhash_elt list \<Rightarrow> nat \<Rightarrow> int" where
  "bucket_slot es i = (case elt_of es (i div 16) of Some e \<Rightarrow> elt_slots e ! (i mod 16) | None \<Rightarrow> 0)"

lemma elt_of_SomeD: "elt_of es t = Some e \<Longrightarrow> e \<in> set es \<and> elt_tag e = t"
  by (auto simp: find_Some_iff)

lemma elt_of_None: "elt_of es t = None \<longleftrightarrow> t \<notin> elt_tag ` set es"
  by (auto simp: find_None_iff)

lemma elt_of_upd:
  assumes "distinct (map elt_tag es)" "elt_of es t = Some e" "\<And>e'. new = Some e' \<Longrightarrow> elt_tag e' = t"
  shows "elt_of (upd_elt t new es) s = (if s = t then new else elt_of es s)"
  using assms(1,2)
proof (induction es)
  case (Cons x es)
  show ?case
  proof (cases "elt_tag x = t")
    case True
    then have "elt_of es t = None" using Cons.prems(1) by (simp add: elt_of_None)
    then show ?thesis using True assms(3) by (cases new) simp_all
  next
    case False
    then show ?thesis using Cons by auto
  qed
qed simp

lemma upd_elt_ok:
  assumes "bucket_ok m b es" "\<And>e'. new = Some e' \<Longrightarrow> elt_tag e' = t \<and> elt_ok e' \<and> t AND m = b"
  shows "bucket_ok m b (upd_elt t new es)" "set (map elt_tag (upd_elt t new es)) \<subseteq> set (map elt_tag es)"
proof -
  have "bucket_ok m b (upd_elt t new es) \<and> set (map elt_tag (upd_elt t new es)) \<subseteq> set (map elt_tag es)"
    using assms(1)
  proof (induction es)
    case (Cons x es)
    have b: "bucket_ok m b es" "elt_tag x \<notin> set (map elt_tag es)" "elt_ok x" "elt_tag x AND m = b" using Cons.prems unfolding bucket_ok_def by simp_all
    show ?case
    proof (cases "elt_tag x = t")
      case True
      show ?thesis
      proof (cases new)
        case None
        then show ?thesis using True b by auto
      next
        case (Some e')
        then have "elt_tag e' = t" "elt_ok e'" "t AND m = b" using assms(2) by simp_all
        then show ?thesis using Some True b by (auto simp: bucket_ok_def)
      qed
    next
      case False
      then show ?thesis using Cons.IH [OF b(1)] b(2-4) by (auto simp: bucket_ok_def)
    qed
  qed simp
  then show "bucket_ok m b (upd_elt t new es)" "set (map elt_tag (upd_elt t new es)) \<subseteq> set (map elt_tag es)" by simp_all
qed

section \<open>Objects\<close>

definition aobj_ok :: "uvm_aobj \<Rightarrow> bool" where
  "aobj_ok a \<longleftrightarrow> u_flags a AND UAO_FLAG_NOSWAP = 0 \<and>
     (if UAO_USES_SWHASH a
      then (\<exists>k. u_swhashmask a = 2 ^ k - 1) \<and> length (u_swhash a) = u_swhashmask a + 1 \<and>
        (\<forall>b < length (u_swhash a). bucket_ok (u_swhashmask a) b (u_swhash a ! b))
      else length (u_swslots a) = u_pages a)"

definition aobj_slot :: "uvm_aobj \<Rightarrow> nat \<Rightarrow> int" where
  "aobj_slot a i =
     (if UAO_USES_SWHASH a then bucket_slot (u_swhash a ! (i div 16 AND u_swhashmask a)) i
      else if i < length (u_swslots a) then u_swslots a ! i else 0)"

lemma and_pow2: "(x :: nat) AND (2 ^ k - 1) = x mod 2 ^ k"
  by (simp add: take_bit_eq_mod [symmetric] take_bit_eq_mask mask_eq_exp_minus_1)

lemma hash_bound:
  assumes "aobj_ok a" "UAO_USES_SWHASH a"
  shows "x AND u_swhashmask a < length (u_swhash a)"
proof -
  obtain k where k: "u_swhashmask a = 2 ^ k - 1" "length (u_swhash a) = u_swhashmask a + 1" using assms by (auto simp: aobj_ok_def)
  have "x AND (2 ^ k - 1) = x mod 2 ^ k" by (rule and_pow2)
  also have "\<dots> < 2 ^ k" by simp
  finally show ?thesis unfolding k by simp
qed

lemma find_swslot_spec:
  assumes "aobj_ok a" "UAO_USES_SWHASH a \<or> i < u_pages a"
  shows "uao_find_swslot a i = Ok (aobj_slot a i)"
  using assms by (auto simp: uao_find_swslot_def aobj_ok_def aobj_slot_def uao_find_swhash_elt_def Let_def bucket_slot_def tag_div idx_mod
      UAO_SWHASH_HASH_def drop_bit_eq_div split: option.splits)

text \<open>The bucket of a page, before and after its slot is set.\<close>

lemma bucket_set:
  fixes slot :: int
  assumes b: "bucket_ok m b es" and e: "elt_of es (i div 16) = Some e"
  defines "es' \<equiv> upd_elt (i div 16) (elt_set e (i mod 16) slot) es"
  shows "bucket_ok m b es'" "bucket_slot es' = (bucket_slot es)(i := slot)"
proof -
  let ?t = "i div 16" and ?j = "i mod 16"
  have d: "distinct (map elt_tag es)" "elt_ok e" "elt_tag e = ?t" "?t AND m = b" using b elt_of_SomeD [OF e] by (auto simp: bucket_ok_def)
  then have ec: "elt_counts e" "length (elt_slots e) = 16" by (simp_all add: elt_ok_def elt_counts_def)
  note s = elt_set_spec [OF ec(1), of ?j slot]
  have new: "elt_tag e' = ?t \<and> elt_ok e' \<and> ?t AND m = b" if "elt_set e ?j slot = Some e'" for e' using s that d by simp
  show "bucket_ok m b es'" unfolding es'_def by (rule upd_elt_ok(1) [OF b new])
  have o: "elt_of es' t = (if t = ?t then elt_set e ?j slot else elt_of es t)" for t
    unfolding es'_def by (rule elt_of_upd [OF d(1) e]) (simp add: new)
  show "bucket_slot es' = (bucket_slot es)(i := slot)"
  proof
    fix i'
    show "bucket_slot es' i' = ((bucket_slot es)(i := slot)) i'"
    proof (cases "i' div 16 = ?t")
      case True
      then have eq: "i' = i \<longleftrightarrow> i' mod 16 = ?j" by (metis mod_div_mult_eq)
      have l: "i' mod 16 < 16" by simp
      have "bucket_slot es' i' = (elt_slots e)[?j := slot] ! (i' mod 16)"
        using s l True by (auto simp: bucket_slot_def o split: option.splits)
      then show ?thesis using eq True e ec(2) by (simp add: bucket_slot_def nth_list_update)
    next
      case False
      then show ?thesis by (auto simp: bucket_slot_def o)
    qed
  qed
qed

text \<open>A new element, for a page without one.\<close>

lemma bucket_new:
  fixes slot :: int
  assumes b: "bucket_ok m (i div 16 AND m) es" and n: "elt_of es (i div 16) = None" "slot \<noteq> 0"
  defines "e \<equiv> \<lparr>elt_tag = i div 16, elt_count = 0, elt_slots = replicate 16 0\<rparr>"
  defines "es' \<equiv> upd_elt (i div 16) (elt_set e (i mod 16) slot) (e # es)"
  shows "bucket_ok m (i div 16 AND m) es'" "bucket_slot es' = (bucket_slot es)(i := slot)"
proof -
  let ?t = "i div 16" and ?j = "i mod 16"
  have ec: "elt_counts e" by (simp add: e_def elt_counts_def used_slots_def)
  obtain e' where e': "elt_set e ?j slot = Some e'" using n(2) by (auto simp: elt_set_def Let_def)
  then have s: "elt_ok e'" "elt_tag e' = ?t" "elt_slots e' = (replicate 16 0)[?j := slot]" using elt_set_spec [OF ec, of ?j slot] by (simp_all add: e_def)
  have es: "es' = e' # es" unfolding es'_def e' by (simp add: e_def)
  have "?t \<notin> elt_tag ` set es" using n(1) by (simp add: elt_of_None)
  then show "bucket_ok m (i div 16 AND m) es'" unfolding es using b s(1,2) by (auto simp: bucket_ok_def)
  show "bucket_slot es' = (bucket_slot es)(i := slot)"
  proof
    fix i'
    show "bucket_slot es' i' = ((bucket_slot es)(i := slot)) i'"
    proof (cases "i' div 16 = ?t")
      case True
      then have eq: "i' = i \<longleftrightarrow> i' mod 16 = ?j" by (metis mod_div_mult_eq)
      show ?thesis using True eq n(1) s(2,3) by (simp add: es bucket_slot_def nth_list_update)
    next
      case False
      then show ?thesis using s(2) by (auto simp: es bucket_slot_def)
    qed
  qed
qed

text \<open>Putting back a bucket.\<close>

lemma aobj_bucket:
  fixes i :: nat
  assumes a: "aobj_ok a" "UAO_USES_SWHASH a"
  defines "b \<equiv> i div 16 AND u_swhashmask a"
  assumes es: "bucket_ok (u_swhashmask a) b es" "bucket_slot es = (bucket_slot (u_swhash a ! b))(i := slot)"
  defines "a' \<equiv> a\<lparr>u_swhash := (u_swhash a)[b := es]\<rparr>"
  shows "aobj_ok a'" "aobj_slot a' = (aobj_slot a)(i := slot)"
proof -
  have b: "b < length (u_swhash a)" unfolding b_def by (rule hash_bound [OF a])
  have u: "UAO_USES_SWHASH a'" using a(2) by (simp add: a'_def UAO_USES_SWHASH_def)
  have "bucket_ok (u_swhashmask a) c ((u_swhash a)[b := es] ! c)" if "c < length (u_swhash a)" for c
    using that a es(1) by (cases "c = b") (simp_all add: aobj_ok_def)
  then show "aobj_ok a'" using a u unfolding a'_def by (simp add: aobj_ok_def)
  show "aobj_slot a' = (aobj_slot a)(i := slot)"
  proof
    fix i'
    show "aobj_slot a' i' = ((aobj_slot a)(i := slot)) i'"
      using a(2) u b es(2) by (cases "i' div 16 AND u_swhashmask a = b") (auto simp: aobj_slot_def a'_def nth_list_update b_def)
  qed
qed

lemma set_swslot_spec:
  assumes a: "aobj_ok a" "UAO_USES_SWHASH a \<or> i < u_pages a"
  shows "if slot \<noteq> 0 \<and> UAO_USES_SWHASH a \<and> elt_of (u_swhash a ! (i div 16 AND u_swhashmask a)) (i div 16) = None \<and> \<not> mem
    then uao_set_swslot a i slot mem = Ok (a, - 1)
    else \<exists>a'. uao_set_swslot a i slot mem = Ok (a', aobj_slot a i) \<and> aobj_ok a' \<and> aobj_slot a' = (aobj_slot a)(i := slot) \<and> u_pages a' = u_pages a"
proof (cases "UAO_USES_SWHASH a")
  case False
  then show ?thesis using a by (auto simp: uao_set_swslot_def aobj_ok_def aobj_slot_def UAO_USES_SWHASH_def fun_eq_iff nth_list_update)
next
  case True
  let ?b = "i div 16 AND u_swhashmask a"
  let ?es = "u_swhash a ! ?b"
  have bk: "bucket_ok (u_swhashmask a) ?b ?es" and fl: "u_flags a AND UAO_FLAG_NOSWAP = 0" using a True hash_bound [OF a(1) True] by (simp_all add: aobj_ok_def)
  note d = uao_set_swslot_def uao_find_swhash_elt_def Let_def tag_div idx_mod UAO_SWHASH_HASH_def drop_bit_eq_div
  show ?thesis
  proof (cases "elt_of ?es (i div 16)")
    case (Some e)
    note s = bucket_set [OF bk Some, of slot]
    have "elt_tag e = i div 16" using elt_of_SomeD [OF Some] by simp
    then show ?thesis using aobj_bucket [OF a(1) True s] Some True fl by (simp add: d aobj_slot_def bucket_slot_def)
  next
    case None
    have z: "aobj_slot a i = 0" using None True by (simp add: aobj_slot_def bucket_slot_def)
    consider "slot = 0" | "slot \<noteq> 0" "\<not> mem" | "slot \<noteq> 0" "mem" by blast
    then show ?thesis
    proof cases
      case 1
      then show ?thesis using a(1) z None True fl by (simp add: d fun_upd_idem)
    next
      case 2
      then show ?thesis using None True fl by (simp add: d)
    next
      case 3
      note s = bucket_new [OF bk None 3(1)]
      show ?thesis using aobj_bucket [OF a(1) True s] None True fl 3 z hash_bound [OF a(1) True, of "i div 16"] by (simp add: d)
    qed
  qed
qed

end
