(* ===== verification/Aobj_Drop.thy ===== *)
theory Aobj_Drop
  imports Aobj_Table
begin

text \<open>
  Dropping the slots of a range of pages. What happens to the table and what happens to swap space are separated: the loops
  release a list of slots that depends on the table alone.
\<close>

section \<open>Releasing a list of slots\<close>

fun free_all :: "int list \<Rightarrow> swapstate \<Rightarrow> swapstate result" where
  "free_all [] st = Ok st"
| "free_all (s # ss) st = bind_r (uvm_swap_free s 1 st) (free_all ss)"

lemma bind_assoc: "bind_r (bind_r r f) g = bind_r r (\<lambda>x. bind_r (f x) g)"
  by (cases r) simp_all

lemma free_all_append: "free_all (xs @ ys) = (\<lambda>st. bind_r (free_all xs st) (free_all ys))"
proof (induction xs)
  case (Cons x xs)
  show ?case by (rule ext) (simp add: Cons bind_assoc)
qed simp

lemma free_one:
  assumes i: "swap_inv st U B" and s: "s \<in> U - B"
  shows "\<exists>st'. uvm_swap_free s 1 st = Ok st' \<and> swap_inv st' (U - {s}) B \<and> free_slots st' = insert s (free_slots st)"
proof -
  have e: "{s..<s + 1} = {s}" by auto
  obtain d where d: "d \<in> set (devs st)" "s \<in> drum_span d" using i s by (auto simp: swap_inv_def)
  have ok: "swap_ok st" "U \<inter> free_slots st = {}" and ac: "acct U B d" using i d(1) by (simp_all add: swap_inv_def)
  have "{s..<s + 1} \<subseteq> U" using s e by simp
  from part_card(2) [OF this, of d] have n: "1 \<le> swd_npginuse d" using ac d(2) e by (simp add: acct_def)
  have c: "{s..<s + 1} \<subseteq> drum_span d" "{s..<s + 1} \<inter> dev_slots d = {}" "{s..<s + 1} \<subseteq> U - B" using d s ok(2) e by (auto simp: free_slots_def)
  obtain st' where f: "uvm_swap_free s 1 st = Ok st'" "free_slots st' = free_slots st \<union> {s..<s + 1}"
    using uvm_swap_free_spec [OF ok(1) d(1) order_refl n c(1,2)] by blast
  moreover have "swap_inv st' (U - {s..<s + 1}) B" by (rule free_inv(1) [OF i f(1) order_refl c(3) d(1) c(1)])
  ultimately show ?thesis using e by simp
qed

lemma free_all_spec: "swap_inv st U B \<Longrightarrow> distinct ss \<Longrightarrow> set ss \<subseteq> U - B \<Longrightarrow> \<exists>st'. free_all ss st = Ok st' \<and> swap_inv st' (U - set ss) B \<and>
    free_slots st' = free_slots st \<union> set ss"
proof (induction ss arbitrary: st U)
  case (Cons s ss)
  then obtain st1 where st1: "uvm_swap_free s 1 st = Ok st1" "swap_inv st1 (U - {s}) B" "free_slots st1 = insert s (free_slots st)" using free_one [OF Cons.prems(1), of s] by auto
  have "set ss \<subseteq> U - {s} - B" "U - set (s # ss) = U - {s} - set ss" using Cons.prems by auto
  then show ?case using Cons.IH [OF st1(2)] Cons.prems(2) st1(1,3) by auto
qed simp

lemma swpgonly_inv [simp]: "swap_inv (st\<lparr>swpgonly := x\<rparr>) U B = swap_inv st U B" "free_slots (st\<lparr>swpgonly := x\<rparr>) = free_slots st"
  by (simp_all add: swap_inv_def swap_ok_def free_slots_def devs_def)

section \<open>One element\<close>

abbreviation positive :: "int list \<Rightarrow> int list" where
  "positive \<equiv> filter (\<lambda>s. 0 < s)"

lemma drop_slots_spec:
  assumes "distinct js" "set js \<subseteq> {..<16}" "elt_counts e"
  shows "\<exists>e'. (\<forall>st delta. drop_slots js e st delta =
      bind_r (free_all (positive (map ((!) (elt_slots e)) js)) st) (\<lambda>st. Ok (e', st, delta + int (length (positive (map ((!) (elt_slots e)) js)))))) \<and>
    elt_counts e' \<and> elt_tag e' = elt_tag e \<and> (\<forall>j < 16. elt_slots e' ! j = (if j \<in> set js \<and> 0 < elt_slots e ! j then 0 else elt_slots e ! j))"
  using assms
proof (induction js arbitrary: e)
  case (Cons j js)
  have j: "j < length (elt_slots e)" "j \<notin> set js" using Cons.prems by (simp_all add: elt_counts_def)
  show ?case
  proof (cases "0 < elt_slots e ! j")
    case True
    let ?e = "e\<lparr>elt_slots := (elt_slots e)[j := 0], elt_count := elt_count e - 1\<rparr>"
    have "elt_counts ?e" using Cons.prems(3) used_slots_update [OF j(1), of 0] True by (auto simp: elt_counts_def)
    moreover have m: "map ((!) (elt_slots ?e)) js = map ((!) (elt_slots e)) js" using j(2) by (auto intro!: nth_list_update_neq)
    ultimately obtain e' where e': "\<And>st delta. drop_slots js ?e st delta =
        bind_r (free_all (positive (map ((!) (elt_slots e)) js)) st) (\<lambda>st. Ok (e', st, delta + int (length (positive (map ((!) (elt_slots e)) js)))))"
      "elt_counts e'" "elt_tag e' = elt_tag e" "\<forall>i < 16. elt_slots e' ! i = (if i \<in> set js \<and> 0 < elt_slots ?e ! i then 0 else elt_slots ?e ! i)"
      using Cons.IH [of ?e] Cons.prems by (simp only: m) auto
    have "\<forall>i < 16. elt_slots e' ! i = (if i \<in> set (j # js) \<and> 0 < elt_slots e ! i then 0 else elt_slots e ! i)"
      using e'(4) j True by (auto simp: nth_list_update)
    then show ?thesis using e'(1-3) True by (intro exI [of _ e']) (simp add: bind_assoc algebra_simps)
  next
    case False
    then show ?thesis using Cons.IH [OF _ _ Cons.prems(3)] Cons.prems(1,2) by auto
  qed
qed auto

section \<open>Elements and buckets\<close>

text \<open>The pages of an element in the range, and the slots that are dropped there.\<close>

definition elt_pages :: "nat \<Rightarrow> nat \<Rightarrow> uao_swhash_elt \<Rightarrow> nat list" where
  "elt_pages start stop e = filter (\<lambda>i. start \<le> i \<and> i < stop) [16 * elt_tag e..<16 * elt_tag e + 16]"

definition elts_dropped :: "nat \<Rightarrow> nat \<Rightarrow> uao_swhash_elt list \<Rightarrow> int list" where
  "elts_dropped start stop es = positive (concat (map (\<lambda>e. map (\<lambda>i. elt_slots e ! (i mod 16)) (elt_pages start stop e)) es))"

abbreviation slots_cleared :: "nat \<Rightarrow> nat \<Rightarrow> (nat \<Rightarrow> int) \<Rightarrow> nat \<Rightarrow> int" where
  "slots_cleared start stop f \<equiv> \<lambda>i. if start \<le> i \<and> i < stop \<and> 0 < f i then 0 else f i"

lemma filter_upt: "b \<le> n \<Longrightarrow> filter (\<lambda>j. a \<le> j \<and> j < b) [0..<n] = [a..<b]"
  by (rule sorted_distinct_set_unique) (auto simp: sorted_wrt_filter)

lemma cluster_range:
  fixes a b p q t j :: nat
  assumes "p < 16" "q < 16" "a \<le> t" "t \<le> b" "j < 16"
  shows "16 * a + p \<le> 16 * t + j \<and> 16 * t + j < 16 * b + q \<longleftrightarrow> (if t = a then p else 0) \<le> j \<and> j < (if t = b then q else 16)"
proof -
  have "16 * a + p \<le> 16 * t + j \<longleftrightarrow> (if t = a then p else 0) \<le> j" using assms by (cases "a = t") auto
  moreover have "16 * t + j < 16 * b + q \<longleftrightarrow> j < (if t = b then q else 16)" using assms by (cases "t = b") auto
  ultimately show ?thesis by simp
qed

lemma elt_pages_idx:
  assumes "start div 16 \<le> elt_tag e" "elt_tag e \<le> stop div 16"
  defines "s \<equiv> if elt_tag e = start div 16 then start mod 16 else 0" and "t \<equiv> if elt_tag e = stop div 16 then stop mod 16 else 16"
  shows "elt_pages start stop e = map ((+) (16 * elt_tag e)) [s..<t]"
proof -
  have up: "[16 * elt_tag e..<16 * elt_tag e + 16] = map ((+) (16 * elt_tag e)) [0..<16]" by (rule nth_equalityI) simp_all
  have "start \<le> 16 * elt_tag e + j \<and> 16 * elt_tag e + j < stop \<longleftrightarrow> s \<le> j \<and> j < t" if "j < 16" for j
    using cluster_range [of "start mod 16" "stop mod 16" "start div 16" "elt_tag e" "stop div 16" j] assms(1,2) that unfolding s_def t_def by simp
  then have "filter (\<lambda>j. start \<le> 16 * elt_tag e + j \<and> 16 * elt_tag e + j < stop) [0..<16] = filter (\<lambda>j. s \<le> j \<and> j < t) [0..<16]"
    by (intro filter_cong) simp_all
  then have "elt_pages start stop e = map ((+) (16 * elt_tag e)) (filter (\<lambda>j. s \<le> j \<and> j < t) [0..<16])"
    unfolding elt_pages_def up filter_map o_def by simp
  moreover have "t \<le> 16" by (simp add: t_def)
  ultimately show ?thesis by (simp add: filter_upt)
qed

lemma elt_drop:
  assumes e: "elt_counts e" and r: "start div 16 \<le> elt_tag e" "elt_tag e \<le> stop div 16"
  defines "fs \<equiv> positive (map (\<lambda>i. elt_slots e ! (i mod 16)) (elt_pages start stop e))"
    and "js \<equiv> [(if elt_tag e = start div 16 then start mod 16 else 0)..<(if elt_tag e = stop div 16 then stop mod 16 else 16)]"
  shows "\<exists>e'. (\<forall>st delta. drop_slots js e st delta = bind_r (free_all fs st) (\<lambda>st. Ok (e', st, delta + int (length fs)))) \<and>
    elt_counts e' \<and> elt_tag e' = elt_tag e \<and>
    (\<forall>j < 16. elt_slots e' ! j = (if start \<le> 16 * elt_tag e + j \<and> 16 * elt_tag e + j < stop \<and> 0 < elt_slots e ! j then 0 else elt_slots e ! j))"
proof -
  have ep: "elt_pages start stop e = map ((+) (16 * elt_tag e)) js" unfolding js_def by (rule elt_pages_idx [OF r])
  have js: "set js \<subseteq> {..<16}" "distinct js" unfolding js_def by (auto split: if_splits)
  then have "map (\<lambda>i. elt_slots e ! (i mod 16)) (elt_pages start stop e) = map ((!) (elt_slots e)) js" unfolding ep by (auto simp: o_def)
  then have fs: "fs = positive (map ((!) (elt_slots e)) js)" by (simp add: fs_def)
  have "set (elt_pages start stop e) = (+) (16 * elt_tag e) ` set js" unfolding ep by simp
  then have "j \<in> set js \<longleftrightarrow> 16 * elt_tag e + j \<in> set (elt_pages start stop e)" for j by auto
  then have m: "j \<in> set js \<longleftrightarrow> start \<le> 16 * elt_tag e + j \<and> 16 * elt_tag e + j < stop" if "j < 16" for j using that by (auto simp: elt_pages_def)
  obtain e' where "\<And>st delta. drop_slots js e st delta = bind_r (free_all fs st) (\<lambda>st. Ok (e', st, delta + int (length fs)))" "elt_counts e'" "elt_tag e' = elt_tag e"
    "\<forall>j < 16. elt_slots e' ! j = (if j \<in> set js \<and> 0 < elt_slots e ! j then 0 else elt_slots e ! j)"
    using drop_slots_spec [OF js(2,1) e] unfolding fs by blast
  then show ?thesis using m by (intro exI [of _ e']) simp
qed

lemma bucket_cons:
  assumes e: "elt_counts e'" "elt_tag e' = elt_tag e" "elt_tag e \<notin> set (map elt_tag es)" "elt_tag e AND m = b"
    "\<forall>j < 16. elt_slots e' ! j = (if start \<le> 16 * elt_tag e + j \<and> 16 * elt_tag e + j < stop \<and> 0 < elt_slots e ! j then 0 else elt_slots e ! j)"
    and es: "bucket_ok m b es'" "set (map elt_tag es') \<subseteq> set (map elt_tag es)" "bucket_slot es' = slots_cleared start stop (bucket_slot es)"
  defines "r \<equiv> if elt_count e' = 0 then es' else e' # es'"
  shows "bucket_ok m b r" "set (map elt_tag r) \<subseteq> set (map elt_tag (e # es))" "bucket_slot r = slots_cleared start stop (bucket_slot (e # es))"
proof -
  have n: "elt_tag e \<notin> set (map elt_tag es')" using e(3) es(2) by blast
  show "bucket_ok m b r" using es(1) n e(1,2,4) unfolding r_def bucket_ok_def elt_ok_def by simp
  show "set (map elt_tag r) \<subseteq> set (map elt_tag (e # es))" using es(2) e(2) unfolding r_def by auto
  have none: "elt_of es' (elt_tag e) = None" using n by (simp add: elt_of_None)
  have l: "length (elt_slots e') = 16" using e(1) by (simp add: elt_counts_def)
  show "bucket_slot r = slots_cleared start stop (bucket_slot (e # es))"
  proof
    fix i
    show "bucket_slot r i = slots_cleared start stop (bucket_slot (e # es)) i"
    proof (cases "i div 16 = elt_tag e")
      case True
      then have p: "16 * elt_tag e + i mod 16 = i" by (metis mult_div_mod_eq)
      have "bucket_slot r i = elt_slots e' ! (i mod 16)"
        using True none e(1,2) l used_slots_0 [of "elt_slots e'"] by (simp add: r_def bucket_slot_def elt_counts_def)
      also have "\<dots> = slots_cleared start stop (bucket_slot (e # es)) i" using e(5) p True by (simp add: bucket_slot_def)
      finally show ?thesis .
    next
      case False
      then have "bucket_slot r i = bucket_slot es' i" "bucket_slot (e # es) i = bucket_slot es i" using e(2) by (simp_all add: r_def bucket_slot_def)
      then show ?thesis using es(3) by simp
    qed
  qed
qed

lemma elts_drop:
  assumes "bucket_ok m b es"
  shows "\<exists>es'. (\<forall>st delta. drop_elts start stop es st delta =
      bind_r (free_all (elts_dropped start stop es) st) (\<lambda>st. Ok (es', st, delta + int (length (elts_dropped start stop es))))) \<and>
    bucket_ok m b es' \<and> set (map elt_tag es') \<subseteq> set (map elt_tag es) \<and> bucket_slot es' = slots_cleared start stop (bucket_slot es)"
  using assms
proof (induction es)
  case Nil
  then show ?case by (auto simp: elts_dropped_def bucket_slot_def)
next
  case (Cons e es)
  have b: "bucket_ok m b es" "elt_tag e \<notin> set (map elt_tag es)" "elt_ok e" "elt_tag e AND m = b" using Cons.prems unfolding bucket_ok_def by simp_all
  obtain es' where IH: "\<And>st delta. drop_elts start stop es st delta =
      bind_r (free_all (elts_dropped start stop es) st) (\<lambda>st. Ok (es', st, delta + int (length (elts_dropped start stop es))))"
    "bucket_ok m b es'" "set (map elt_tag es') \<subseteq> set (map elt_tag es)" "bucket_slot es' = slots_cleared start stop (bucket_slot es)"
    using Cons.IH [OF b(1)] by blast
  let ?fs = "positive (map (\<lambda>i. elt_slots e ! (i mod 16)) (elt_pages start stop e))"
  have dr: "elts_dropped start stop (e # es) = ?fs @ elts_dropped start stop es" by (simp add: elts_dropped_def)
  have ec: "elt_counts e" "elt_count e \<noteq> 0" using b(3) by (simp_all add: elt_ok_def)
  show ?case
  proof (cases "elt_tag e < start div 16 \<or> stop div 16 < elt_tag e")
    case True
    have out: "\<not> (start \<le> i \<and> i < stop)" if "i div 16 = elt_tag e" for i using True that div_le_mono [of start i 16] div_le_mono [of i stop 16] by auto
    have "\<not> (start \<le> 16 * elt_tag e + j \<and> 16 * elt_tag e + j < stop)" if "j < 16" for j using out [of "16 * elt_tag e + j"] that by simp
    then have "\<forall>j < 16. elt_slots e ! j = (if start \<le> 16 * elt_tag e + j \<and> 16 * elt_tag e + j < stop \<and> 0 < elt_slots e ! j then 0 else elt_slots e ! j)" by auto
    note c = bucket_cons [OF ec(1) refl b(2,4) this IH(2-4)]
    have "i div 16 = elt_tag e" if "i \<in> set [16 * elt_tag e..<16 * elt_tag e + 16]" for i using that by auto
    then have "elt_pages start stop e = []" unfolding elt_pages_def using out by (simp only: filter_empty_conv) blast
    then have "drop_elts start stop (e # es) st delta =
        bind_r (free_all (elts_dropped start stop (e # es)) st) (\<lambda>st. Ok (e # es', st, delta + int (length (elts_dropped start stop (e # es)))))" for st delta
      unfolding dr using True by (simp add: tag_div IH(1) bind_assoc)
    then show ?thesis using c ec(2) by (intro exI [of _ "e # es'"]) simp
  next
    case False
    then have r: "start div 16 \<le> elt_tag e" "elt_tag e \<le> stop div 16" by simp_all
    obtain e' where e': "\<And>st delta. drop_slots [(if elt_tag e = start div 16 then start mod 16 else 0)..<(if elt_tag e = stop div 16 then stop mod 16 else 16)] e st delta =
        bind_r (free_all ?fs st) (\<lambda>st. Ok (e', st, delta + int (length ?fs)))" "elt_counts e'" "elt_tag e' = elt_tag e"
      "\<forall>j < 16. elt_slots e' ! j = (if start \<le> 16 * elt_tag e + j \<and> 16 * elt_tag e + j < stop \<and> 0 < elt_slots e ! j then 0 else elt_slots e ! j)"
      using elt_drop [OF ec(1) r] by blast
    let ?r = "if elt_count e' = 0 then es' else e' # es'"
    have "drop_elts start stop (e # es) st delta =
        bind_r (free_all (elts_dropped start stop (e # es)) st) (\<lambda>st. Ok (?r, st, delta + int (length (elts_dropped start stop (e # es)))))" for st delta
      unfolding dr drop_elts.simps Let_def tag_div idx_mod if_not_P [OF False] e'(1) free_all_append by (simp add: bind_assoc IH(1) add.assoc)
    then show ?thesis using bucket_cons [OF e'(2,3) b(2,4) e'(4) IH(2-4)] by (intro exI [of _ ?r]) simp
  qed
qed

lemma buckets_drop:
  assumes "\<forall>b < length bs. bucket_ok m (off + b) (bs ! b)"
  shows "\<exists>bs'. (\<forall>st delta. drop_buckets start stop bs st delta =
      bind_r (free_all (elts_dropped start stop (concat bs)) st) (\<lambda>st. Ok (bs', st, delta + int (length (elts_dropped start stop (concat bs)))))) \<and>
    length bs' = length bs \<and> (\<forall>b < length bs. bucket_ok m (off + b) (bs' ! b) \<and> bucket_slot (bs' ! b) = slots_cleared start stop (bucket_slot (bs ! b)))"
  using assms
proof (induction bs arbitrary: off)
  case Nil
  then show ?case by (simp add: elts_dropped_def)
next
  case (Cons es bs)
  have "bucket_ok m off es" using Cons.prems by auto
  from elts_drop [OF this, of start stop] obtain es' where e: "\<And>st delta. drop_elts start stop es st delta =
      bind_r (free_all (elts_dropped start stop es) st) (\<lambda>st. Ok (es', st, delta + int (length (elts_dropped start stop es))))"
    "bucket_ok m off es'" "bucket_slot es' = slots_cleared start stop (bucket_slot es)" by blast
  have "\<forall>b < length bs. bucket_ok m (Suc off + b) (bs ! b)" using Cons.prems by auto
  from Cons.IH [OF this] obtain bs' where b: "\<And>st delta. drop_buckets start stop bs st delta =
      bind_r (free_all (elts_dropped start stop (concat bs)) st) (\<lambda>st. Ok (bs', st, delta + int (length (elts_dropped start stop (concat bs)))))"
    "length bs' = length bs" "\<forall>b < length bs. bucket_ok m (Suc off + b) (bs' ! b) \<and> bucket_slot (bs' ! b) = slots_cleared start stop (bucket_slot (bs ! b))" by blast
  have dr: "elts_dropped start stop (concat (es # bs)) = elts_dropped start stop es @ elts_dropped start stop (concat bs)" by (simp add: elts_dropped_def)
  have "drop_buckets start stop (es # bs) st delta = bind_r (free_all (elts_dropped start stop (concat (es # bs))) st)
      (\<lambda>st. Ok (es' # bs', st, delta + int (length (elts_dropped start stop (concat (es # bs))))))" for st delta
    unfolding dr free_all_append by (simp add: e(1) b(1) bind_assoc add.assoc)
  moreover have "bucket_ok m (off + c) ((es' # bs') ! c) \<and> bucket_slot ((es' # bs') ! c) = slots_cleared start stop (bucket_slot ((es # bs) ! c))"
    if "c < length (es # bs)" for c using that b(3) e(2,3) by (cases c) auto
  ultimately show ?case using b(2) by (intro exI [of _ "es' # bs'"]) simp
qed

section \<open>The whole table\<close>

lemma elt_of_iff: "distinct (map elt_tag es) \<Longrightarrow> elt_of es t = Some e \<longleftrightarrow> e \<in> set es \<and> elt_tag e = t"
  by (induction es) (auto simp: image_iff)

lemma concat_tags:
  assumes "\<forall>b < length bs. bucket_ok m (off + b) (bs ! b)"
  shows "distinct (map elt_tag (concat bs)) \<and> (\<forall>e \<in> set (concat bs). off \<le> elt_tag e AND m)"
  using assms
proof (induction bs arbitrary: off)
  case (Cons es bs)
  have "bucket_ok m off es" using Cons.prems by auto
  then have e: "distinct (map elt_tag es)" "\<forall>e \<in> set es. elt_tag e AND m = off" by (simp_all add: bucket_ok_def)
  have "\<forall>b < length bs. bucket_ok m (Suc off + b) (bs ! b)" using Cons.prems by auto
  from Cons.IH [OF this] have b: "distinct (map elt_tag (concat bs))" "\<forall>e \<in> set (concat bs). Suc off \<le> elt_tag e AND m" by simp_all
  have "elt_tag ` set es \<inter> elt_tag ` set (concat bs) = {}"
  proof (rule equals0I)
    fix t assume "t \<in> elt_tag ` set es \<inter> elt_tag ` set (concat bs)"
    then obtain x y where xy: "t = elt_tag x" "x \<in> set es" "t = elt_tag y" "y \<in> set (concat bs)" by (elim IntE imageE) (rule that)
    then show False using bspec [OF e(2) xy(2)] bspec [OF b(2) xy(4)] by simp
  qed
  then have "distinct (map elt_tag (concat (es # bs)))" using e(1) b(1) by simp
  moreover have "\<forall>e \<in> set (concat (es # bs)). off \<le> elt_tag e AND m"
  proof
    fix x assume "x \<in> set (concat (es # bs))"
    then consider "x \<in> set es" | "x \<in> set (concat bs)" by auto
    then show "off \<le> elt_tag x AND m" by cases (use e(2) b(2) in fastforce)+
  qed
  ultimately show ?case by blast
qed simp

lemma concat_slot:
  assumes a: "aobj_ok a" "UAO_USES_SWHASH a"
  shows "distinct (map elt_tag (concat (u_swhash a)))" "bucket_slot (concat (u_swhash a)) = aobj_slot a"
proof -
  have bk: "\<forall>b < length (u_swhash a). bucket_ok (u_swhashmask a) (0 + b) (u_swhash a ! b)" using a by (simp add: aobj_ok_def)
  show d: "distinct (map elt_tag (concat (u_swhash a)))" using concat_tags [OF bk] by simp
  have "elt_of (concat (u_swhash a)) t = elt_of (u_swhash a ! (t AND u_swhashmask a)) t" for t
  proof -
    let ?b = "t AND u_swhashmask a"
    have b: "?b < length (u_swhash a)" by (rule hash_bound [OF a])
    then have db: "distinct (map elt_tag (u_swhash a ! ?b))" using bk by (simp add: bucket_ok_def)
    have "e \<in> set (concat (u_swhash a)) \<and> elt_tag e = t \<longleftrightarrow> e \<in> set (u_swhash a ! ?b) \<and> elt_tag e = t" for e
    proof
      assume e: "e \<in> set (concat (u_swhash a)) \<and> elt_tag e = t"
      then obtain es where "es \<in> set (u_swhash a)" "e \<in> set es" by auto
      then obtain c where "c < length (u_swhash a)" "e \<in> set (u_swhash a ! c)" by (metis in_set_conv_nth)
      then show "e \<in> set (u_swhash a ! ?b) \<and> elt_tag e = t" using bk e by (auto simp: bucket_ok_def)
    qed (use b in auto)
    then have "elt_of (concat (u_swhash a)) t = Some e \<longleftrightarrow> elt_of (u_swhash a ! ?b) t = Some e" for e
      unfolding elt_of_iff [OF d] elt_of_iff [OF db] .
    then show ?thesis by (metis not_Some_eq)
  qed
  then show "bucket_slot (concat (u_swhash a)) = aobj_slot a" using a(2) by (simp add: fun_eq_iff bucket_slot_def aobj_slot_def)
qed

text \<open>The slots that are dropped: those of the pages of the range that have one.\<close>

definition range_slots :: "uvm_aobj \<Rightarrow> nat \<Rightarrow> nat \<Rightarrow> int set" where
  "range_slots a start stop = aobj_slot a ` {i. start \<le> i \<and> i < stop \<and> 0 < aobj_slot a i}"

lemma pages_distinct: "distinct (map elt_tag es) \<Longrightarrow> distinct (concat (map (elt_pages start stop) es))"
proof (induction es)
  case (Cons e es)
  have d: "i div 16 = elt_tag x" if "i \<in> set (elt_pages start stop x)" for i x using that by (auto simp: elt_pages_def)
  have "i \<notin> set (elt_pages start stop x)" if "i \<in> set (elt_pages start stop e)" "x \<in> set es" for i x
    using d [OF that(1)] d [of i x] that(2) Cons.prems by auto
  then show ?case using Cons by (auto simp: elt_pages_def)
qed simp

lemma positive_map: "positive (concat (map (\<lambda>e. map f (g e)) es)) = map f (filter (\<lambda>i. 0 < f i) (concat (map g es)))"
  by (induction es) (simp_all add: filter_map o_def)

lemma dropped_slots:
  fixes start stop :: nat
  assumes a: "aobj_ok a" "UAO_USES_SWHASH a"
  defines "ss \<equiv> elts_dropped start stop (concat (u_swhash a))"
  shows "set ss = range_slots a start stop" "inj_on (aobj_slot a) {i. start \<le> i \<and> i < stop \<and> 0 < aobj_slot a i} \<Longrightarrow> distinct ss"
proof -
  let ?E = "concat (u_swhash a)"
  note c = concat_slot [OF a]
  let ?P = "concat (map (elt_pages start stop) ?E)"
  have sl: "aobj_slot a i = elt_slots e ! (i mod 16)" if "e \<in> set ?E" "i div 16 = elt_tag e" for e i
    using that elt_of_iff [OF c(1), of "i div 16" e] unfolding c(2) [symmetric] by (simp add: bucket_slot_def)
  have "map (\<lambda>i. elt_slots e ! (i mod 16)) (elt_pages start stop e) = map (aobj_slot a) (elt_pages start stop e)" if "e \<in> set ?E" for e
    using sl [OF that] by (auto simp: elt_pages_def)
  then have "map (\<lambda>e. map (\<lambda>i. elt_slots e ! (i mod 16)) (elt_pages start stop e)) ?E = map (\<lambda>e. map (aobj_slot a) (elt_pages start stop e)) ?E"
    by (rule map_cong [OF refl])
  then have ss: "ss = map (aobj_slot a) (filter (\<lambda>i. 0 < aobj_slot a i) ?P)"
    unfolding ss_def elts_dropped_def by (simp only: positive_map)
  have P: "i \<in> set (filter (\<lambda>i. 0 < aobj_slot a i) ?P) \<longleftrightarrow> start \<le> i \<and> i < stop \<and> 0 < aobj_slot a i" for i
  proof
    assume r: "start \<le> i \<and> i < stop \<and> 0 < aobj_slot a i"
    then obtain e where "elt_of ?E (i div 16) = Some e" unfolding c(2) [symmetric] by (auto simp: bucket_slot_def split: option.splits)
    then have e: "e \<in> set ?E" "elt_tag e = i div 16" using elt_of_SomeD by blast+
    then have "i \<in> set (elt_pages start stop e)" using r by (auto simp: elt_pages_def)
    then show "i \<in> set (filter (\<lambda>i. 0 < aobj_slot a i) ?P)" using e(1) r by auto
  qed (auto simp: elt_pages_def)
  then have sP: "set (filter (\<lambda>i. 0 < aobj_slot a i) ?P) = {i. start \<le> i \<and> i < stop \<and> 0 < aobj_slot a i}" by blast
  show "set ss = range_slots a start stop" unfolding ss set_map sP range_slots_def ..
  show "distinct ss" if "inj_on (aobj_slot a) {i. start \<le> i \<and> i < stop \<and> 0 < aobj_slot a i}"
    unfolding ss distinct_map sP using that pages_distinct [OF c(1), of start stop] by simp
qed

lemma range1_hash:
  assumes a: "aobj_ok a" "UAO_USES_SWHASH a" and stop: "stop \<noteq> 0"
    and st: "swap_inv st U B" "range_slots a start stop \<subseteq> U - B" "inj_on (aobj_slot a) {i. start \<le> i \<and> i < stop \<and> 0 < aobj_slot a i}"
  shows "\<exists>a' st'. uao_dropswap_range1 a start stop st = Ok (a', st') \<and> aobj_ok a' \<and> aobj_slot a' = slots_cleared start stop (aobj_slot a) \<and>
    swap_inv st' (U - range_slots a start stop) B \<and> free_slots st' = free_slots st \<union> range_slots a start stop \<and> UAO_USES_SWHASH a'"
proof -
  let ?ss = "elts_dropped start stop (concat (u_swhash a))"
  have bk: "\<forall>b < length (u_swhash a). bucket_ok (u_swhashmask a) (0 + b) (u_swhash a ! b)" using a by (simp add: aobj_ok_def)
  obtain bs where b: "\<And>st delta. drop_buckets start stop (u_swhash a) st delta = bind_r (free_all ?ss st) (\<lambda>st. Ok (bs, st, delta + int (length ?ss)))"
    "length bs = length (u_swhash a)"
    "\<forall>b < length (u_swhash a). bucket_ok (u_swhashmask a) (0 + b) (bs ! b) \<and> bucket_slot (bs ! b) = slots_cleared start stop (bucket_slot (u_swhash a ! b))"
    using buckets_drop [OF bk] by blast
  obtain st1 where f: "free_all ?ss st = Ok st1" "swap_inv st1 (U - range_slots a start stop) B" "free_slots st1 = free_slots st \<union> range_slots a start stop"
    using free_all_spec [OF st(1) dropped_slots(2) [OF a st(3)]] st(2) unfolding dropped_slots(1) [OF a] by blast
  let ?a = "a\<lparr>u_swhash := bs\<rparr>"
  have u: "UAO_USES_SWHASH ?a" using a(2) by (simp add: UAO_USES_SWHASH_def)
  have "aobj_ok ?a" using a u b(2,3) by (simp add: aobj_ok_def)
  moreover have "aobj_slot ?a = slots_cleared start stop (aobj_slot a)"
    using b(3) hash_bound [OF a] a(2) u by (simp add: fun_eq_iff aobj_slot_def)
  ultimately show ?thesis using f a(2) stop u by (simp add: uao_dropswap_range1_def b(1))
qed

lemma drop_array_eq: "drop_array is table st delta =
  bind_r (free_all (positive (map ((!) table) is)) st) (\<lambda>st. Ok (st, delta + int (length (positive (map ((!) table) is)))))"
  by (induction "is" arbitrary: st delta) (simp_all add: bind_assoc Let_def add.assoc)

lemma range1_array:
  assumes a: "aobj_ok a" "\<not> UAO_USES_SWHASH a" and stop: "stop \<noteq> 0"
    and st: "swap_inv st U B" "range_slots a start stop \<subseteq> U - B" "inj_on (aobj_slot a) {i. start \<le> i \<and> i < stop \<and> 0 < aobj_slot a i}"
  shows "\<exists>st'. uao_dropswap_range1 a start stop st = Ok (a, st') \<and> swap_inv st' (U - range_slots a start stop) B \<and>
    free_slots st' = free_slots st \<union> range_slots a start stop"
proof -
  let ?I = "[start..<(if u_pages a < stop then u_pages a else stop)]" and ?t = "u_swslots a"
  have l: "length ?t = u_pages a" using a by (simp add: aobj_ok_def)
  have m: "map ((!) ?t) ?I = map (aobj_slot a) ?I" using a(2) l by (simp add: aobj_slot_def)
  have P: "set (filter (\<lambda>i. 0 < aobj_slot a i) ?I) = {i. start \<le> i \<and> i < stop \<and> 0 < aobj_slot a i}"
    using a(2) l by (auto simp: aobj_slot_def split: if_splits)
  have e: "positive (map ((!) ?t) ?I) = map (aobj_slot a) (filter (\<lambda>i. 0 < aobj_slot a i) ?I)" unfolding m by (simp add: filter_map o_def)
  have "set (positive (map ((!) ?t) ?I)) = range_slots a start stop" unfolding e set_map P range_slots_def ..
  moreover have "distinct (positive (map ((!) ?t) ?I))" unfolding e distinct_map P using st(3) by simp
  ultimately obtain st1 where "free_all (positive (map ((!) ?t) ?I)) st = Ok st1" "swap_inv st1 (U - range_slots a start stop) B"
    "free_slots st1 = free_slots st \<union> range_slots a start stop"
    using free_all_spec [OF st(1)] st(2) by metis
  then show ?thesis using a(2) stop by (simp add: uao_dropswap_range1_def drop_array_eq)
qed

end
