(* ===== verification/Aobj_Props.thy ===== *)
theory Aobj_Props
  imports Aobj_Drop
begin

text \<open>
  What the slot tables of anonymous memory objects promise, and where one of them does not do it.
\<close>

section \<open>New objects\<close>

lemma hash_size_pow2: "0 < h \<Longrightarrow> h = 2 ^ j \<Longrightarrow> \<exists>k. hash_size h n = 2 ^ k"
proof (induction h n arbitrary: j rule: hash_size.induct)
  case (1 h n)
  show ?case
  proof (cases "h < n")
    case True
    then have "hash_size h n = hash_size (2 * h) n" using 1(2) by (subst hash_size.simps) simp
    moreover have "2 * h = 2 ^ Suc j" using 1(3) by simp
    ultimately show ?thesis using 1(1) [OF _ _, of "Suc j"] 1(2) True by simp
  next
    case False
    then show ?thesis using 1(3) by (subst hash_size.simps) auto
  qed
qed

text \<open>A new object has a consistent table without a slot.\<close>

lemma create_spec:
  assumes "unat (drop_bit 12 ((sz + 4095) AND NOT 4095)) = n"
  shows "\<exists>a. uao_create sz 0 mem = Ok a \<and> aobj_ok a \<and> aobj_slot a = (\<lambda>_. 0) \<and> u_pages a = n"
proof (cases "64 < n")
  case True
  have b: "UAO_SWHASH_BUCKETS (mem\<lparr>u_pages := n, u_flags := 0\<rparr>) \<noteq> 0" using True by (simp add: UAO_SWHASH_BUCKETS_def drop_bit_eq_div)
  let ?h = "hash_size 1 (UAO_SWHASH_BUCKETS (mem\<lparr>u_pages := n, u_flags := 0\<rparr>))"
  obtain k where k: "?h = 2 ^ k" using hash_size_pow2 [of 1 0] by auto
  let ?a = "mem\<lparr>u_pages := n, u_flags := 0, u_swhash := replicate ?h [], u_swhashmask := ?h - 1\<rparr>"
  have u: "UAO_USES_SWHASH ?a" "UAO_USES_SWHASH (mem\<lparr>u_pages := n, u_flags := 0\<rparr>)" using True by (simp_all add: UAO_USES_SWHASH_def)
  have "uao_create sz 0 mem = Ok ?a" using u(2) b unfolding uao_create_def assms Let_def by (simp add: hashinit_def Let_def)
  moreover have ok: "aobj_ok ?a" using u(1) k [unfolded One_nat_def] by (auto simp: aobj_ok_def bucket_ok_def)
  moreover have "aobj_slot ?a i = 0" for i using u(1) hash_bound [OF ok u(1), of "i div 16"] by (simp add: aobj_slot_def bucket_slot_def)
  ultimately show ?thesis by (intro exI [of _ ?a]) (simp add: fun_eq_iff)
next
  case False
  let ?a = "mem\<lparr>u_pages := n, u_flags := 0, u_swslots := replicate n 0\<rparr>"
  have u: "\<not> UAO_USES_SWHASH ?a" "\<not> UAO_USES_SWHASH (mem\<lparr>u_pages := n, u_flags := 0\<rparr>)" using False by (simp_all add: UAO_USES_SWHASH_def)
  have "uao_create sz 0 mem = Ok ?a" using u(2) unfolding uao_create_def assms Let_def by simp
  then show ?thesis using u(1) by (intro exI [of _ ?a]) (simp add: aobj_ok_def aobj_slot_def fun_eq_iff)
qed

section \<open>Slots of pages\<close>

lemma uses_pages: "u_pages a' = u_pages a \<Longrightarrow> UAO_USES_SWHASH a' = UAO_USES_SWHASH a"
  by (simp add: UAO_USES_SWHASH_def)

text \<open>
  C9. \<open>uao_set_swslot\<close> and \<open>uao_find_swslot\<close> (\<open>uvm/uvm_aobj.c\<close>) are a function from pages to slots, for the array of a small object and for the hash
  table of a large one alike: setting the slot of a page returns its old slot and after it the page has the new one and every other
  page what it had, across elements that are created, emptied and removed. When there is no memory for a new element, the
  call returns -1 and the table is as it was.
\<close>

theorem uao_slots_exact:
  assumes a: "aobj_ok a" "UAO_USES_SWHASH a \<or> i < u_pages a"
  shows "\<exists>a' r. uao_set_swslot a i slot mem = Ok (a', r) \<and> aobj_ok a' \<and>
    (a' = a \<and> r = - 1 \<and> \<not> mem \<and> slot \<noteq> 0 \<and> UAO_USES_SWHASH a \<or>
     uao_find_swslot a i = Ok r \<and> u_pages a' = u_pages a \<and>
     (\<forall>j. UAO_USES_SWHASH a \<or> j < u_pages a \<longrightarrow> uao_find_swslot a' j = (if j = i then Ok slot else uao_find_swslot a j)))"
proof -
  note s = set_swslot_spec [OF a, of slot mem]
  show ?thesis
  proof (cases "slot \<noteq> 0 \<and> UAO_USES_SWHASH a \<and> elt_of (u_swhash a ! (i div 16 AND u_swhashmask a)) (i div 16) = None \<and> \<not> mem")
    case True
    then show ?thesis using s a(1) by (intro exI [of _ a] exI [of _ "- 1"]) simp
  next
    case False
    obtain a' where a': "uao_set_swslot a i slot mem = Ok (a', aobj_slot a i)" "aobj_ok a'" "aobj_slot a' = (aobj_slot a)(i := slot)" "u_pages a' = u_pages a"
      using s unfolding if_not_P [OF False] by blast
    have "uao_find_swslot a' j = (if j = i then Ok slot else uao_find_swslot a j)" if "UAO_USES_SWHASH a \<or> j < u_pages a" for j
      using find_swslot_spec [OF a'(2), of j] find_swslot_spec [OF a(1), of j] that a'(3,4) uses_pages [OF a'(4)] by simp
    then show ?thesis using a' find_swslot_spec [OF a] by (intro exI [of _ a'] exI [of _ "aobj_slot a i"]) simp
  qed
qed

definition sample_mem :: uvm_aobj where
  "sample_mem = \<lparr>u_pages = 0, u_flags = 0, u_swslots = [], u_swhash = [], u_swhashmask = 0\<rparr>"

lemma uao_slots_exact_witness:
  "\<exists>a a'. uao_create 409600 0 sample_mem = Ok a \<and> uao_set_swslot a 70 5 True = Ok (a', 0) \<and> uao_find_swslot a' 70 = Ok 5 \<and> uao_find_swslot a' 71 = Ok 0"
proof -
  obtain a where a: "uao_create 409600 0 sample_mem = Ok a" "aobj_ok a" "aobj_slot a = (\<lambda>_. 0)" "u_pages a = 100"
    using create_spec [of 409600 100 sample_mem] by auto
  have u: "UAO_USES_SWHASH a" using a(4) by (simp add: UAO_USES_SWHASH_def)
  then have z: "uao_find_swslot a i = Ok 0" for i using find_swslot_spec [OF a(2), of i] a(3) by simp
  show ?thesis using uao_slots_exact [OF a(2), of 70 5 True] a(1) u z by auto
qed

section \<open>Ranges\<close>

text \<open>
  C23. \<open>uao_dropswap_range\<close> (\<open>uao_dropswap_range1\<close>, \<open>uvm/uvm_aobj.c\<close>) on an object with a hash table, whose slots in the range are held by nobody else, returns. The
  pages from \<open>start\<close> to before \<open>end\<close> have no slot after it, every other page has its slot, a bad slot stays, and the table is
  consistent; exactly the slots of those pages were given back to swap space, each once.
\<close>

theorem uao_dropswap_range_exact:
  assumes "aobj_ok a" "UAO_USES_SWHASH a" "stop \<noteq> 0" "swap_inv st U B" "range_slots a start stop \<subseteq> U - B"
    "inj_on (aobj_slot a) {i. start \<le> i \<and> i < stop \<and> 0 < aobj_slot a i}"
  shows "\<exists>a' st'. uao_dropswap_range1 a start stop st = Ok (a', st') \<and> aobj_ok a' \<and>
    (\<forall>i. uao_find_swslot a' i = (if start \<le> i \<and> i < stop \<and> 0 < aobj_slot a i then Ok 0 else uao_find_swslot a i)) \<and>
    swap_inv st' (U - range_slots a start stop) B \<and> free_slots st' = free_slots st \<union> range_slots a start stop"
proof -
  obtain a' st' where r: "uao_dropswap_range1 a start stop st = Ok (a', st')" "aobj_ok a'" "aobj_slot a' = slots_cleared start stop (aobj_slot a)"
    "swap_inv st' (U - range_slots a start stop) B" "free_slots st' = free_slots st \<union> range_slots a start stop" "UAO_USES_SWHASH a'"
    using range1_hash [OF assms] by blast
  have "uao_find_swslot a' i = (if start \<le> i \<and> i < stop \<and> 0 < aobj_slot a i then Ok 0 else uao_find_swslot a i)" for i
    using find_swslot_spec [OF r(2), of i] find_swslot_spec [OF assms(1), of i] assms(2) r(3,6) by simp
  then show ?thesis using r by blast
qed

text \<open>A swap space of which one slot is held, and an object that has it.\<close>

lemma sample_held: "\<exists>st s. swap_inv st {s} {} \<and> 0 < s"
proof -
  obtain d where d: "swap_ok sample_swap" "free_slots sample_swap = {2..<9}" "set (devs sample_swap) = {d}" "enabled d" using sample_swap_on by metis
  have i: "swap_inv sample_swap {} {}" using swap_reach_inv [OF sample_reach] by simp
  have o: "open_slots sample_swap \<noteq> {}" using d by (auto simp: open_slots_def free_slots_def)
  obtain st s where a: "uvm_swap_alloc 1 False sample_swap = Ok (st, 1, s)" "0 < s"
    using uvm_swap_alloc_spec [OF d(1), of 1 False] o by (auto simp: alloc_result_def)
  have "{s..<s + 1} = {s}" by auto
  then have "swap_inv st {s} {}" using swap_alloc_inv(1) [OF i a(1)] a(2) by simp
  then show ?thesis using a(2) by blast
qed

lemma sample_object:
  fixes sz :: u32
  assumes "unat (drop_bit 12 ((sz + 4095) AND NOT 4095)) = n" "i < n" "0 < s"
  shows "\<exists>a. aobj_ok a \<and> aobj_slot a = (\<lambda>_. 0)(i := s) \<and> u_pages a = n"
proof -
  obtain a where a: "aobj_ok a" "aobj_slot a = (\<lambda>_. 0)" "u_pages a = n" using create_spec [OF assms(1)] by blast
  have "UAO_USES_SWHASH a \<or> i < u_pages a" using a(3) assms(2) by simp
  from set_swslot_spec [OF a(1) this, of s True] show ?thesis using a(2,3) by auto
qed

lemma uao_dropswap_range_exact_witness:
  "\<exists>a a' s st st'. 0 < s \<and> uao_find_swslot a 70 = Ok s \<and> uao_dropswap_range1 a 64 80 st = Ok (a', st') \<and> uao_find_swslot a' 70 = Ok 0 \<and> s \<in> free_slots st'"
proof -
  obtain st s where s: "swap_inv st {s} {}" "0 < s" using sample_held by blast
  obtain a where a: "aobj_ok a" "aobj_slot a = (\<lambda>_. 0)(70 := s)" "u_pages a = 100" using sample_object [of 409600 100 70 s] s(2) by auto
  have u: "UAO_USES_SWHASH a" using a(3) by (simp add: UAO_USES_SWHASH_def)
  have "{i. 64 \<le> i \<and> i < 80 \<and> 0 < aobj_slot a i} = {70}" using a(2) s(2) by auto
  then have r: "range_slots a 64 80 = {s}" "inj_on (aobj_slot a) {i. 64 \<le> i \<and> i < 80 \<and> 0 < aobj_slot a i}" using a(2) by (simp_all add: range_slots_def)
  have f: "uao_find_swslot a 70 = Ok s" using find_swslot_spec [OF a(1), of 70] u a(2) by simp
  obtain a' st' where d: "uao_dropswap_range1 a 64 80 st = Ok (a', st')" "free_slots st' = free_slots st \<union> {s}"
    "\<forall>i. uao_find_swslot a' i = (if 64 \<le> i \<and> i < 80 \<and> 0 < aobj_slot a i then Ok 0 else uao_find_swslot a i)"
    using uao_dropswap_range_exact [OF a(1) u _ s(1) _ r(2)] r(1) by auto
  have "uao_find_swslot a' 70 = Ok 0" using d(3) [rule_format, of 70] a(2) s(2) by simp
  then show ?thesis using d(1,2) f s(2) by blast
qed

text \<open>
  C37. \<open>uao_dropswap_range\<close> (\<open>uao_dropswap_range1\<close>, \<open>uvm/uvm_aobj.c\<close>) on an object with an array gives the slots of the range back to swap space but leaves them
  in the array: for every page of the range that had a slot, \<open>uao_find_swslot\<close> still returns the slot after the call, and the slot is free. On an
  object with a hash table the same call clears them.
\<close>

theorem uao_dropswap_range_dangling:
  assumes a: "aobj_ok a" "\<not> UAO_USES_SWHASH a" and st: "stop \<noteq> 0" "swap_inv st U B" "range_slots a start stop \<subseteq> U - B"
    "inj_on (aobj_slot a) {i. start \<le> i \<and> i < stop \<and> 0 < aobj_slot a i}"
    and i: "start \<le> i" "i < stop" "i < u_pages a" "uao_find_swslot a i = Ok s" "0 < s"
  shows "\<exists>a' st'. uao_dropswap_range1 a start stop st = Ok (a', st') \<and> uao_find_swslot a' i = Ok s \<and> s \<in> free_slots st'"
proof -
  have "aobj_slot a i = s" using find_swslot_spec [OF a(1), of i] i(3,4) by simp
  then have "s \<in> range_slots a start stop" using i by (auto simp: range_slots_def)
  then show ?thesis using range1_array [OF a st] i(4) by blast
qed

lemma uao_dropswap_range_dangling_witness:
  "\<exists>a a' s st st'. 0 < s \<and> uao_find_swslot a 3 = Ok s \<and> uao_dropswap_range1 a 0 8 st = Ok (a', st') \<and> uao_find_swslot a' 3 = Ok s \<and> s \<in> free_slots st'"
proof -
  obtain st s where s: "swap_inv st {s} {}" "0 < s" using sample_held by blast
  obtain a where a: "aobj_ok a" "aobj_slot a = (\<lambda>_. 0)(3 := s)" "u_pages a = 10" using sample_object [of 40960 10 3 s] s(2) by auto
  have u: "\<not> UAO_USES_SWHASH a" using a(3) by (simp add: UAO_USES_SWHASH_def)
  have "{i. 0 \<le> i \<and> i < 8 \<and> 0 < aobj_slot a i} = {3}" using a(2) s(2) by auto
  then have r: "range_slots a 0 8 = {s}" "inj_on (aobj_slot a) {i. 0 \<le> i \<and> i < 8 \<and> 0 < aobj_slot a i}" using a(2) by (simp_all add: range_slots_def)
  have f: "uao_find_swslot a 3 = Ok s" using find_swslot_spec [OF a(1), of 3] a(2,3) by simp
  show ?thesis using uao_dropswap_range_dangling [OF a(1) u _ s(1) _ r(2) _ _ _ f s(2)] r(1) f s(2) a(3) by auto
qed

end
