(* ===== verification/Spec2Isabelle.thy ===== *)
theory Spec2Isabelle
  imports Pmap_Props Pmap_Kernel Pmap_Boot_Props Extent_Props Clist_Props Cache_Props Bus_Space_Props At32_Soc_Props
    Trap_Props Linux_Syscall_Props Quad_Props Aobj_Props
begin

text \<open>
  Verification of the NetBSD port to the Atmel AVR32 AP7000 (src/src/sys/arch/avr32) and of the
  machine-independent kernel parts it is built on.

  \<^bold>\<open>The program.\<close> The port has four layers. The memory layer is the pmap module (avr32/pmap.c), which keeps
  two-level page tables, the list of mappings of every physical page (pv lists), ASIDs and the TLB
  for UVM; it calls the cache module (avr32/cache.c) and takes its boot memory from the segments of
  physical memory UVM manages (uvm/uvm_page.c). The bus layer (avr32/bus_space.c) hands out ranges of
  bus addresses from extent maps (kern/subr_extent.c) and provides the register accesses. The
  drivers on it, attached in a fixed order by avr32/at32bus.c, are the power manager, the interrupt
  controller, the serial port and the clock; the serial port takes its output from the character
  queues of the tty layer (kern/tty_subr.c, kern/tty.c). The process layer is the exception handler
  (avr32/trap.c), which repairs page tables through the pmap module, hands faults to UVM and makes
  signals, and the path of Linux processes into the kernel and back: system calls
  (avr32/linux_syscall.c) and signal frames (compat/linux/arch/avr32/linux_machdep.c). Below all of them
  is the 64-bit arithmetic that the compiler calls on a 32-bit machine (common/lib/libc/quad, avr32/int64.c).
  Beside the memory layer, swap space (uvm/uvm_swap.c) is a list of devices by priority, whose pages are handed out in
  blocks by a bitmap allocator (kern/subr_blist.c); anonymous memory objects keep the slots of their pages in tables of their own
  (uvm/uvm_aobj.c).

  \<^bold>\<open>Conventions.\<close> Kernel code returns a value of type \<open>result\<close> (Prelude): a normal return, a panic with its
  message, C undefined behaviour, or a loop or sleep that never ends. Machine integers are words of
  their width, C \<open>int\<close> values that the code keeps in range are \<open>int\<close> or \<open>nat\<close>. The kernel is the one the
  port's makefile builds: no DEBUG, DIAGNOSTIC, LOCKDEBUG or PARANOIADIAG, so KASSERT is empty. The
  processor is single and interrupts are blocked inside the operations that block them, so each
  operation is atomic; where the code sleeps (extents), what other threads do meanwhile is an
  argument. Hardware effects (TLB and cache operations, register writes) are logs of requests; values
  read from hardware are arguments.

  \<^bold>\<open>Theories and sources.\<close>
  \<^item> Prelude: outcomes, the page loop, lemmas on words. Avr32_Machine: addresses, page table bits, TLB
    primitives (include/pte.h, cpuregs.h, vmparam.h, avr32_subr.S).
  \<^item> Pmap_State, Pmap: the state of the pmap module and its operations: removal, entry, extraction,
    protection, page protection, wired kernel mappings, modified status, ASIDs, creation and destruction
    (avr32/pmap.c, include/pmap.h). Page tables are memory indexed by address, so that two segments
    that shared a page of PTEs would alias; a pv list is the header embedded in the page and a chain
    of pool nodes.
  \<^item> Pmap_Base, Pmap_Inv, Pmap_Enter, Pmap_Alloc, Pmap_Life, Pmap_Reach: the invariant \<open>pmap_ok\<close> and that every
    operation keeps it: pages of PTEs are not shared, pv lists name exactly the user mappings of a page,
    resident counts are exact, tables and free pages are disjoint, ASIDs of a generation are unique (until an
    activation wraps the 32-bit generation counter, \<open>asid_wraps\<close>, which the step relation excludes).
    \<open>pmap_reach\<close> is the reachability relation over the operations.
  \<^item> Pmap_Props, Pmap_Kernel: what entering, removing, protecting, wired mappings and activation do.
  \<^item> Pmap_Boot, Pmap_Boot_Inv, Pmap_Boot_Props: from \<open>mach_init\<close>'s memory clusters over \<open>pmap_steal_memory\<close>,
    \<open>pmap_bootstrap\<close> and \<open>pmap_init\<close> to a consistent pmap (avr32/machdep.c, pmap.c, uvm_page.c, uvm_page.h).
  \<^item> Cache, Cache_Props: geometry from CONFIG1 and the range operations as instruction sequences.
  \<^item> Extent, Extent_Inv, Extent_Search, Extent_Props: extent maps; the locale \<open>region_map\<close> states the contract
    of an allocator of ranges and is interpreted by the extent operations.
  \<^item> Bus_Space, Bus_Space_Props: tags, allocation and accesses of the bus layer, a client of \<open>region_map\<close>.
  \<^item> Clist, Clist_Ring, Clist_Ops, Clist_Props: character queues as rings with quote bits, refined to a
    bounded queue; the locale \<open>char_queue\<close> states the contract and is interpreted by the clist operations.
  \<^item> At32_Intc, At32_Usart, At32_Soc, At32_Soc_Props: interrupt controller, serial port, power manager, clock and
    their attachment (avr32/at32intc.c, at32usart.c, at32pm.c, at32clock.c, clock.c, at32bus.c).
  \<^item> Lwp: the fields of an lwp and its process that the process layer uses, signal sets, the copy routines
    for user memory (avr32/copy.S). Trap, Trap_Props: the exception handler, composed with the pmap
    operations; what it calls outside the port (UVM, signal delivery, return to user mode) is the record
    \<open>trap_env\<close>. Linux_Signal, Linux_Signal_Props: signal numbers and sets, delivery and return
    (linux_machdep.c, linux_signal.c, kern_sig.c, sys_sig.c, \<open>cpu_setmcontext\<close> of machdep.c).
    Linux_Syscall, Linux_Syscall_Props: the system call path and the composition of a signal with it.
  \<^item> Qdivrem: 64-bit division on digits of 16 bits (quad/qdivrem.c), Algorithm D; its arrays are lists of five
    digits and its pointers offsets. Qdivrem_Digits, Qdivrem_Trial, Qdivrem_Step, Qdivrem_Loop, Qdivrem_Props: the
    value of a run of digits, the trial digit, one step, the loop with normalization, and correctness.
  \<^item> Quad, Quad_Props: the other functions of the quad library and the division calls of avr32/int64.c; the
    locale \<open>unsigned_division\<close> states what the signed division needs of the unsigned one.

  \<^item> Blist: the bitmap allocator of swap space (kern/subr_blist.c), a radix tree with hints in one array. Blist_Leaf,
    Blist_Tree: bitmaps as sets of bits; the tree as a set of free blocks, its invariant \<open>node_ok\<close> (layout with terminators,
    available space) and the frame of a node. Blist_Alloc, Blist_Free, Blist_Fill, Blist_Init: the effect of the
    recursive functions on a node of any level. Blist_Spec, Blist_Copy, Blist_Props: the same for whole lists,
    \<open>blist_ok\<close> and \<open>free_blocks\<close>; the locale \<open>block_pool\<close> states the contract of the allocator and is interpreted by its operations.
  \<^item> Swap: the devices, \<open>uvm_swap_alloc\<close>, \<open>uvm_swap_free\<close>, \<open>uvm_swap_markbad\<close>, \<open>swap_on\<close>, \<open>swap_off\<close> and \<open>swapctl\<close> (uvm/uvm_swap.c); vnodes and the
    map of the drum are the record \<open>swap_env\<close>. Swap_Inv: the invariant \<open>swap_ok\<close>, the free slots of the drum, and the search of an
    allocation. Swap_Alloc: allocation and release. Swap_Ctl: the list under \<open>swapctl\<close>. Swap_Reach: the run \<open>swap_reach\<close> of the system with
    the slots callers hold beside the state. Swap_Props: what swap space promises.
  \<^item> Aobj: the table of slots of an anonymous object, an array or a hash table of clusters (uvm/uvm_aobj.c, kern/subr_hash.c). Aobj_Table: the
    table as a function from pages to slots. Aobj_Drop: the loops that drop a range, as a release of a list of slots. Aobj_Props: what
    the tables promise, together with swap space.

  \<^bold>\<open>What is shown.\<close> Invariants over all reachable states of the pmap and of swap space, and after boot; the exact effect of pmap,
  extent, clist, block list, swap, bus and driver operations on every branch, errors included; refinement of clists to
  queues, of slot tables to functions and of the 32-bit clock to a schedule on an unbounded time scale; equivalence of the binary search for a segment with the linear one, of the byte-wise clearing
  of quote bits with the bit-wise one, of the bus copy with a move of the region and of the quad library with
  arithmetic on 64-bit words; round trips of
  allocation and freeing, mapping and unmapping, writing and reading; termination of the loops;
  liveness of output and of interrupt dispatch; what a modified-page trap does to the page tables; that
  a process is resumed after a signal with the registers it was interrupted with and cannot change
  its privileges by the frame it returns through; and, as theorems about concrete or general states, the
  places where the code does not do what it means to.

  \<^bold>\<open>Loops and bounds.\<close> Page loops stop with \<open>Hang\<close> when the address wraps, which it then does forever because
  the step divides the address space. The restart loop of \<open>pmap_enter_pv\<close> and the walk of
  \<open>pmap_page_protect\<close> have as much fuel as the pv list has entries plus one: each round that does not
  return shortens the list or repeats without end. The binary search has its interval as measure. The
  loops of the division have measures: the trial digit, the digits left to scan, the distance to the
  normalized divisor. The recursion over the tree of a block list ends because the skip of a child is smaller; trees
  have at most six levels above the leaves, since a list of more than \<open>2 ^ 29\<close> blocks cannot be created.
  Polls of a device run over the list of values the device delivers. The cache loops and the output
  loop are partial functions into option, \<open>None\<close> meaning that they never return, and so is the loop on
  pending asynchronous traps, which returns when only finitely many are posted.

  \<^bold>\<open>Not modelled.\<close> The low level entry code (locore.S, avr32_xcpt.S), which is assembly; vm_machdep.c, which
  builds kernel stacks for it; mem.c, conf and autoconf glue; the choice and posting of signals; the rest of
  the kernel (file systems, networking, device drivers for other hardware), which the port only configures.
  Of swap space, the I/O to its devices and the statistics calls, of anonymous objects, what they do with pages; a \<open>swapctl\<close> is one step, though the code drops the data lock
  while it works on a placeholder or pages in, where other calls only see a device they cannot use.
  UVM above the pmap interface, the line discipline, kauth(9), malloc(9) and pool(9) appear through what
  their callers rely on.
\<close>

end
